(* ===== verification/Prelude.thy ===== *)
theory Prelude
  imports Main "HOL-Library.Word"
begin

text \<open>
  Prelude: the machine integer types of the Rust sources, byte strings and their little- and
  big-endian integer readings (\<open>to_le_bytes\<close>, \<open>from_le_bytes\<close>, \<open>to_be_bytes\<close>, \<open>from_be_bytes\<close> of
  the Rust primitive integers), the wrap-around and truncating division of \<open>i32\<close>/\<open>i64\<close>, and the list
  lemmas every component shares. The collections \<open>byte_simps\<close> and \<open>word_nat\<close> gather the facts the
  component proofs rewrite with.
\<close>

unbundle bit_operations_syntax

named_theorems byte_simps "lengths and inverses of the byte conversions"
named_theorems word_nat "natural-number readings of word operations"

type_synonym u8 = "8 word"
type_synonym u16 = "16 word"
type_synonym u32 = "32 word"
type_synonym u64 = "64 word"
type_synonym u128 = "128 word"
type_synonym bytes = "8 word list"

text \<open>The bytes of an ASCII string.\<close>

definition ascii :: "string \<Rightarrow> bytes" where "ascii s = map of_char s"

section \<open>Base-256 readings of byte strings\<close>

fun le_nat :: "bytes \<Rightarrow> nat" where
  "le_nat [] = 0"
| "le_nat (b # bs) = unat b + 256 * le_nat bs"

fun nat_le :: "nat \<Rightarrow> nat \<Rightarrow> bytes" where
  "nat_le 0 k = []"
| "nat_le (Suc n) k = word_of_nat k # nat_le n (k div 256)"

lemma unat_of_nat_u8: "unat (word_of_nat k :: u8) = k mod 256"
  by (simp add: unat_of_nat)

lemma unat_u8_lt [simp]: "unat (b :: u8) < 256"
  using unsigned_less [of b] by simp

lemma length_nat_le [simp, byte_simps]: "length (nat_le n k) = n"
  by (induction n arbitrary: k) auto

lemma le_nat_nat_le: "le_nat (nat_le n k) = k mod 256 ^ n"
proof (induction n arbitrary: k)
  case 0
  then show ?case by simp
next
  case (Suc n)
  then show ?case by (simp add: unat_of_nat_u8 mod_mult2_eq)
qed

lemma le_nat_nat_le_id: "k < 256 ^ n \<Longrightarrow> le_nat (nat_le n k) = k"
  by (simp add: le_nat_nat_le)

lemma nat_le_le_nat: "nat_le (length bs) (le_nat bs) = bs"
proof (induction bs)
  case Nil
  then show ?case by simp
next
  case (Cons b bs)
  have "word_of_nat (unat b + 256 * le_nat bs) = b"
  proof (rule word_unat_eq_iff [THEN iffD2])
    show "unat (word_of_nat (unat b + 256 * le_nat bs) :: u8) = unat b"
      by (simp only: unat_of_nat_u8) simp
  qed
  then show ?case using Cons by (simp add: div_add1_eq)
qed

lemma nat_le_le_nat_len: "length bs = n \<Longrightarrow> nat_le n (le_nat bs) = bs"
  using nat_le_le_nat by blast

lemma le_nat_lt: "le_nat bs < 256 ^ length bs"
proof (induction bs)
  case (Cons b bs)
  have "unat b + 256 * le_nat bs < 256 * (le_nat bs + 1)"
    using unat_u8_lt [of b] by simp
  also have "\<dots> \<le> 256 * 256 ^ length bs"
    using Cons by (intro mult_le_mono2) simp
  finally show ?case by simp
qed simp

lemma le_nat_append: "le_nat (xs @ ys) = le_nat xs + 256 ^ length xs * le_nat ys"
  by (induction xs) (auto simp: algebra_simps)

lemma nat_le_mod: "nat_le n (k mod 256 ^ n) = nat_le n k"
  by (metis le_nat_nat_le length_nat_le nat_le_le_nat)

lemma nat_le_add: "nat_le (m + n) k = nat_le m k @ nat_le n (k div 256 ^ m)"
  by (induction m arbitrary: k) (auto simp: div_mult2_eq mult.commute)

lemma le_nat_inj: "length xs = length ys \<Longrightarrow> le_nat xs = le_nat ys \<Longrightarrow> xs = ys"
  by (metis nat_le_le_nat)

section \<open>Integers to and from bytes\<close>

definition to_le_bytes :: "'a::len word \<Rightarrow> bytes" where
  "to_le_bytes w = nat_le (LENGTH('a) div 8) (unat w)"

definition from_le_bytes :: "bytes \<Rightarrow> 'a::len word" where
  "from_le_bytes bs = word_of_nat (le_nat bs)"

definition to_be_bytes :: "'a::len word \<Rightarrow> bytes" where
  "to_be_bytes w = rev (to_le_bytes w)"

definition from_be_bytes :: "bytes \<Rightarrow> 'a::len word" where
  "from_be_bytes bs = from_le_bytes (rev bs)"

lemma length_to_le_bytes [simp, byte_simps]:
  "length (to_le_bytes (w :: 'a::len word)) = LENGTH('a) div 8"
  by (simp add: to_le_bytes_def)

lemma length_to_be_bytes [simp, byte_simps]:
  "length (to_be_bytes (w :: 'a::len word)) = LENGTH('a) div 8"
  by (simp add: to_be_bytes_def)

lemma pow256: "(256::nat) ^ n = 2 ^ (8 * n)"
  by (simp add: power_mult)

lemma from_to_le_bytes:
  assumes "8 dvd LENGTH('a::len)"
  shows "from_le_bytes (to_le_bytes (w :: 'a word)) = w"
proof -
  from assms have "(256::nat) ^ (LENGTH('a) div 8) = 2 ^ LENGTH('a)"
    by (simp add: pow256)
  then show ?thesis
    by (simp add: from_le_bytes_def to_le_bytes_def le_nat_nat_le)
qed

lemma to_from_le_bytes:
  assumes "8 dvd LENGTH('a::len)" and "length bs = LENGTH('a) div 8"
  shows "to_le_bytes (from_le_bytes bs :: 'a word) = bs"
proof -
  from assms have "le_nat bs < 2 ^ LENGTH('a)"
    using le_nat_lt [of bs] by (simp add: pow256)
  then have "unat (word_of_nat (le_nat bs) :: 'a word) = le_nat bs"
    by (simp add: unat_of_nat)
  then show ?thesis using assms(2)
    by (simp add: from_le_bytes_def to_le_bytes_def nat_le_le_nat_len)
qed

lemma from_to_be_bytes:
  "8 dvd LENGTH('a::len) \<Longrightarrow> from_be_bytes (to_be_bytes (w :: 'a word)) = w"
  by (simp add: from_be_bytes_def to_be_bytes_def from_to_le_bytes)

lemma to_from_be_bytes:
  "8 dvd LENGTH('a::len) \<Longrightarrow> length bs = LENGTH('a) div 8 \<Longrightarrow>
   to_be_bytes (from_be_bytes bs :: 'a word) = bs"
  by (simp add: from_be_bytes_def to_be_bytes_def to_from_le_bytes)

lemma unat_from_le_bytes:
  assumes "8 dvd LENGTH('a::len)" and "length bs = LENGTH('a) div 8"
  shows "unat (from_le_bytes bs :: 'a word) = le_nat bs"
  using assms le_nat_lt [of bs] by (simp add: from_le_bytes_def unat_of_nat pow256)

lemma from_to_le_bytes_std [simp, byte_simps]:
  "from_le_bytes (to_le_bytes (a :: u16)) = a"
  "from_le_bytes (to_le_bytes (b :: u32)) = b"
  "from_le_bytes (to_le_bytes (c :: u64)) = c"
  "from_le_bytes (to_le_bytes (d :: u128)) = d"
  by (simp_all add: from_to_le_bytes)

lemma to_from_le_bytes_std [byte_simps]:
  "length bs = 2 \<Longrightarrow> to_le_bytes (from_le_bytes bs :: u16) = bs"
  "length bs = 4 \<Longrightarrow> to_le_bytes (from_le_bytes bs :: u32) = bs"
  "length bs = 8 \<Longrightarrow> to_le_bytes (from_le_bytes bs :: u64) = bs"
  "length bs = 16 \<Longrightarrow> to_le_bytes (from_le_bytes bs :: u128) = bs"
  by (simp_all add: to_from_le_bytes)

section \<open>Signed machine integers as wrapped mathematical integers\<close>

text \<open>
  \<open>i64\<close> values are carried as \<open>int\<close> with the two's-complement wrap written out; division truncates
  towards zero as Rust's \<open>/\<close> does.
\<close>

definition i64_wrap :: "int \<Rightarrow> int" where
  "i64_wrap x = (x + 2 ^ 63) mod 2 ^ 64 - 2 ^ 63"

definition i64_range :: "int \<Rightarrow> bool" where
  "i64_range x \<longleftrightarrow> - (2 ^ 63) \<le> x \<and> x < 2 ^ 63"

definition quot :: "int \<Rightarrow> int \<Rightarrow> int" where
  "quot a b = sgn a * sgn b * (\<bar>a\<bar> div \<bar>b\<bar>)"

text \<open>An \<open>i64\<close> operation with the exact result \<open>x\<close>: it panics in builds with overflow checks
  (\<open>oc\<close>) and wraps in the others.\<close>

definition i64_arith :: "bool \<Rightarrow> int \<Rightarrow> int option" where
  "i64_arith oc x = (if oc \<and> \<not> i64_range x then None else Some (i64_wrap x))"

lemma i64_wrap_id: "i64_range x \<Longrightarrow> i64_wrap x = x"
  by (simp add: i64_range_def i64_wrap_def)

lemma i64_wrap_range: "i64_range (i64_wrap x)"
  by (simp add: i64_wrap_def i64_range_def)

lemma i64_arith_in: "i64_range x \<Longrightarrow> i64_arith oc x = Some x"
  by (simp add: i64_arith_def i64_wrap_id)

section \<open>Primitive integer operations of the standard library\<close>

definition overflowing_add_w :: "'a::len word \<Rightarrow> 'a word \<Rightarrow> 'a word \<times> bool" where
  "overflowing_add_w a b = (a + b, 2 ^ LENGTH('a) \<le> unat a + unat b)"

fun bit_length :: "nat \<Rightarrow> nat" where
  "bit_length n = (if n = 0 then 0 else Suc (bit_length (n div 2)))"

declare bit_length.simps [simp del]

definition leading_zeros :: "'a::len word \<Rightarrow> nat" where
  "leading_zeros w = LENGTH('a) - bit_length (unat w)"

lemma bit_length_0 [simp]: "bit_length 0 = 0"
  by (simp add: bit_length.simps)

lemma bit_length_le_iff: "bit_length n \<le> k \<longleftrightarrow> n < 2 ^ k"
proof (induction k arbitrary: n)
  case 0
  show ?case by (cases "n = 0") (simp_all add: bit_length.simps [of n])
next
  case (Suc k)
  show ?case
  proof (cases "n = 0")
    case False
    then have "bit_length n = Suc (bit_length (n div 2))" by (simp add: bit_length.simps [of n])
    then show ?thesis using Suc.IH [of "n div 2"] by auto
  qed simp
qed

lemma bit_length_upper: "n < 2 ^ bit_length n"
  using bit_length_le_iff by blast

lemma bit_length_lower: "0 < n \<Longrightarrow> 2 ^ (bit_length n - 1) \<le> n"
proof -
  assume "0 < n"
  then have "\<not> bit_length n \<le> bit_length n - 1"
    by (simp add: bit_length.simps [of n])
  then show ?thesis by (simp add: bit_length_le_iff not_less)
qed

lemma bit_length_word_le: "bit_length (unat (w :: 'a::len word)) \<le> LENGTH('a)"
  by (simp add: bit_length_le_iff unsigned_less)

lemma bit_length_leading_zeros: "LENGTH('a) - leading_zeros (w :: 'a::len word) = bit_length (unat w)"
  using bit_length_word_le [of w] by (simp add: leading_zeros_def)

lemma bit_length_unique: "2 ^ k \<le> n \<Longrightarrow> n < 2 ^ Suc k \<Longrightarrow> bit_length n = Suc k"
  using bit_length_le_iff [of n k] bit_length_le_iff [of n "Suc k"] by (simp add: not_less)

lemma bit_length_mult_pow:
  assumes "0 < n"
  shows "bit_length (n * 2 ^ k) = bit_length n + k"
proof -
  obtain m where m: "bit_length n = Suc m"
    using assms by (cases "bit_length n") (auto simp: bit_length.simps [of n])
  have lo: "2 ^ m \<le> n" using bit_length_lower [OF assms] m by simp
  have hi: "n < 2 ^ Suc m" using bit_length_upper [of n] m by simp
  have "2 ^ (m + k) \<le> n * 2 ^ k" using lo by (simp add: power_add)
  moreover have "n * 2 ^ k < 2 ^ Suc (m + k)"
    using hi by (simp add: power_add)
  ultimately show ?thesis using m bit_length_unique [of "m + k" "n * 2 ^ k"] by simp
qed

lemma bit_length_mono: "m \<le> n \<Longrightarrow> bit_length m \<le> bit_length n"
  using bit_length_upper [of n] by (simp add: bit_length_le_iff)

section \<open>Natural-number readings of words\<close>

lemma unat_drop_bit_div [word_nat]: "unat (drop_bit k (w :: 'a::len word)) = unat w div 2 ^ k"
  unfolding unat_drop_bit_eq by (simp only: drop_bit_eq_div)

lemma unat_push_bit_mod [word_nat]:
  "unat (push_bit k (w :: 'a::len word)) = unat w * 2 ^ k mod 2 ^ LENGTH('a)"
  unfolding unsigned_push_bit_eq by (simp only: push_bit_eq_mult take_bit_eq_mod)

lemma unat_take_bit_mod [word_nat]: "unat (take_bit k (w :: 'a::len word)) = unat w mod 2 ^ k"
  unfolding unsigned_take_bit_eq by (simp only: take_bit_eq_mod)

lemma unat_ucast_mod: "unat (ucast (w :: 'a::len word) :: 'b::len word) = unat w mod 2 ^ LENGTH('b)"
  by (simp only: unsigned_ucast_eq take_bit_eq_mod)

lemma unat_ucast_up:
  "LENGTH('a) \<le> LENGTH('b) \<Longrightarrow> unat (ucast (w :: 'a::len word) :: 'b::len word) = unat w"
  unfolding unat_ucast_mod
  by (rule mod_less, rule less_le_trans [OF unsigned_less]) simp

lemma ucast_up_down:
  "LENGTH('a) \<le> LENGTH('b) \<Longrightarrow> (ucast (ucast (w :: 'a::len word) :: 'b::len word) :: 'a word) = w"
  unfolding word_unat_eq_iff unat_ucast_mod [where 'a = 'b]
  by (simp only: unat_ucast_up) (rule mod_less, rule unsigned_less)

lemma unat_u32_lt [simp]: "unat (w :: u32) < 4294967296"
  using unsigned_less [of w] by simp

lemma unat_u16_lt [simp]: "unat (w :: u16) < 65536"
  using unsigned_less [of w] by simp

lemma unat_u64_lt_num: "unat (w :: u64) < 18446744073709551616"
  using unsigned_less [of w] by simp

section \<open>Lists\<close>

lemma take_append_exact: "length xs = n \<Longrightarrow> take n (xs @ ys) = xs"
  by simp

lemma drop_append_exact: "length xs = n \<Longrightarrow> drop n (xs @ ys) = ys"
  by simp

text \<open>Overwriting a slice of a buffer in place: \<open>buf[p .. p + n].copy_from_slice(ys)\<close>.\<close>

definition write_at :: "nat \<Rightarrow> 'a list \<Rightarrow> 'a list \<Rightarrow> 'a list" where
  "write_at p ys xs = take p xs @ ys @ drop (p + length ys) xs"

lemma length_write_at [simp]: "p + length ys \<le> length xs \<Longrightarrow> length (write_at p ys xs) = length xs"
  by (simp add: write_at_def)

lemma write_at_append:
  "length as = p \<Longrightarrow> length bs = length ys \<Longrightarrow> write_at p ys (as @ bs @ cs) = as @ ys @ cs"
  by (simp add: write_at_def)

section \<open>Bytes by enumeration\<close>

lemma all_bytes:
  assumes "list_all P (map word_of_nat [0..<256])"
  shows "P (b :: u8)"
proof -
  have "unat b \<in> set [0..<256]" by simp
  then have "word_of_nat (unat b) \<in> set (map (word_of_nat :: nat \<Rightarrow> u8) [0..<256])" by (metis image_eqI set_map)
  then show ?thesis using assms by (simp add: list_all_iff del: set_map)
qed

end
