(* ===== verification/Engine.thy ===== *)
theory Engine
  imports Prelude
begin

text \<open>
  The block engine that the hash functions of the \<open>hashes\<close> crate share: the record of buffer, chaining value and length, the
  buffering loop of the macro \<open>engine_input_impl\<close> (\<open>hashes/src/util.rs\<close>) and the padding up to the length field, which every
  \<open>from_engine\<close> spells out. Block size, position of the length field and block function are arguments. The locale
  \<open>block_engine\<close> shows what the engine computes for any block function; the locale \<open>hasher\<close> is the interface of the
  trait \<open>Hash\<close> as its clients use it: feeding pieces is feeding their concatenation. A length is a \<open>usize\<close> counter that
  does not overflow in memory, so it is a natural number.
\<close>

record 'h engine =
  buffer :: bytes
  h_regs :: 'h
  length_n :: nat

definition engine_process_block :: "('h \<Rightarrow> bytes \<Rightarrow> 'h) \<Rightarrow> 'h engine \<Rightarrow> 'h engine" where
  "engine_process_block proc e = e \<lparr> h_regs := proc (h_regs e) (buffer e) \<rparr>"

text \<open>A block size of zero, which no engine has, is excluded by the loop guard.\<close>

function engine_input :: "nat \<Rightarrow> ('h \<Rightarrow> bytes \<Rightarrow> 'h) \<Rightarrow> 'h engine \<Rightarrow> bytes \<Rightarrow> 'h engine" where
  "engine_input bsize proc e inp =
     (if inp = [] \<or> bsize = 0 then e
      else (let buf_idx = length_n e mod bsize;
                rem_len = bsize - buf_idx;
                write_len = min rem_len (length inp);
                e1 = e \<lparr> buffer := write_at buf_idx (take write_len inp) (buffer e),
                         length_n := length_n e + write_len \<rparr>;
                e2 = (if length_n e1 mod bsize = 0 then engine_process_block proc e1 else e1)
            in engine_input bsize proc e2 (drop write_len inp)))"
  by pat_completeness auto
termination
  by (relation "measure (\<lambda>(b, p, e, inp). length inp)") auto

declare engine_input.simps [simp del]

text \<open>The common start of finalisation: one set bit, then zeros up to the length field at offset \<open>zlen\<close> of a block.\<close>

definition engine_pad :: "nat \<Rightarrow> nat \<Rightarrow> ('h \<Rightarrow> bytes \<Rightarrow> 'h) \<Rightarrow> 'h engine \<Rightarrow> 'h engine" where
  "engine_pad bsize zlen proc e =
     (let zeroes = replicate zlen 0;
          e1 = engine_input bsize proc e [0x80];
          e2 = (if length_n e1 mod bsize > length zeroes then engine_input bsize proc e1 zeroes else e1);
          pad_length = length zeroes - length_n e2 mod bsize
      in engine_input bsize proc e2 (take pad_length zeroes))"

section \<open>Absorbing whole blocks\<close>

function absorb_blocks :: "nat \<Rightarrow> ('h \<Rightarrow> bytes \<Rightarrow> 'h) \<Rightarrow> 'h \<Rightarrow> bytes \<Rightarrow> 'h" where
  "absorb_blocks bsize proc st m =
     (if length m < bsize \<or> bsize = 0 then st else absorb_blocks bsize proc (proc st (take bsize m)) (drop bsize m))"
  by pat_completeness auto
termination
  by (relation "measure (\<lambda>(b, p, st, m). length m)") auto

declare absorb_blocks.simps [simp del]

definition pad_zeros :: "nat \<Rightarrow> nat \<Rightarrow> nat \<Rightarrow> nat" where
  "pad_zeros bsize zlen n = (if n mod bsize < zlen then zlen - 1 - n mod bsize else bsize + zlen - 1 - n mod bsize)"

locale block_engine =
  fixes bsize :: nat and zlen :: nat and proc :: "'h \<Rightarrow> bytes \<Rightarrow> 'h"
  assumes sizes: "zlen < bsize" "bsize \<le> 2 * zlen"
begin

abbreviation absorb :: "'h \<Rightarrow> bytes \<Rightarrow> 'h" where "absorb \<equiv> absorb_blocks bsize proc"
abbreviation feed :: "'h engine \<Rightarrow> bytes \<Rightarrow> 'h engine" where "feed \<equiv> engine_input bsize proc"

lemma bsize_pos [simp]: "0 < bsize" "bsize \<noteq> 0"
  using sizes by simp_all

lemma absorb_lt: "length m < bsize \<Longrightarrow> absorb st m = st"
  by (simp add: absorb_blocks.simps)

lemma absorb_Nil [simp]: "absorb st [] = st"
  by (simp add: absorb_lt)

lemma absorb_one: "length b = bsize \<Longrightarrow> absorb st (b @ m) = absorb (proc st b) m"
  by (simp add: absorb_blocks.simps [of bsize proc st "b @ m"])

lemma absorb_app: "bsize dvd length p \<Longrightarrow> absorb st (p @ x) = absorb (absorb st p) x"
proof (induction "length p" arbitrary: st p rule: less_induct)
  case less
  show ?case
  proof (cases "length p < bsize")
    case True
    then have "p = []" using less.prems by (auto dest: nat_dvd_not_less)
    then show ?thesis by simp
  next
    case False
    have "bsize dvd length (drop bsize p)" using less.prems False by (simp add: dvd_minus_self)
    moreover have "length (drop bsize p) < length p" using False sizes by simp
    ultimately have "absorb (proc st (take bsize p)) (drop bsize p @ x) = absorb (absorb (proc st (take bsize p)) (drop bsize p)) x"
      by (intro less.hyps)
    moreover have "absorb st (p @ x) = absorb (proc st (take bsize p)) (drop bsize p @ x)"
      using False absorb_one [of "take bsize p" st "drop bsize p @ x"] by (simp flip: append.assoc)
    moreover have "absorb st p = absorb (proc st (take bsize p)) (drop bsize p)"
      using False absorb_one [of "take bsize p" st "drop bsize p"] by simp
    ultimately show ?thesis by simp
  qed
qed

text \<open>
  The engine after consuming \<open>m\<close> on top of the chaining value \<open>st\<close> (of \<open>n0\<close> earlier bytes): the whole blocks
  are absorbed, the rest waits in the buffer.
\<close>

definition engine_at :: "'h \<Rightarrow> nat \<Rightarrow> bytes \<Rightarrow> 'h engine \<Rightarrow> bool" where
  "engine_at st n0 m e \<longleftrightarrow> bsize dvd n0 \<and> length_n e = n0 + length m \<and> length (buffer e) = bsize \<and>
     (\<exists>p t. m = p @ t \<and> bsize dvd length p \<and> length t < bsize \<and> h_regs e = absorb st p \<and> take (length t) (buffer e) = t)"

definition feed_step :: "'h engine \<Rightarrow> bytes \<Rightarrow> 'h engine" where
  "feed_step e y =
     (let e1 = e \<lparr> buffer := write_at (length_n e mod bsize) y (buffer e), length_n := length_n e + length y \<rparr>
      in if length_n e1 mod bsize = 0 then engine_process_block proc e1 else e1)"

lemma mod_length: "engine_at st n0 m e \<Longrightarrow> length_n e mod bsize = length m mod bsize"
  by (auto simp: engine_at_def mod_add_left_eq dvd_def)

lemma feed_step_at:
  assumes e: "engine_at st n0 m e" and y: "y \<noteq> []" "length m mod bsize + length y \<le> bsize"
  shows "engine_at st n0 (m @ y) (feed_step e y)"
proof -
  obtain p t where pt: "m = p @ t" "bsize dvd length p" "length t < bsize" "h_regs e = absorb st p"
    "take (length t) (buffer e) = t"
    and n: "bsize dvd n0" "length_n e = n0 + length m" "length (buffer e) = bsize"
    using e by (auto simp: engine_at_def)
  have mm: "length m mod bsize = length t" using pt by (auto simp: dvd_def)
  have idx: "length_n e mod bsize = length t" using mod_length [OF e] mm by simp
  have fit: "length t + length y \<le> bsize" using y mm by simp
  define b where "b = write_at (length t) y (buffer e)"
  have b: "length b = bsize" "take (length t + length y) b = t @ y"
    using fit n(3) pt(5) by (simp_all add: b_def write_at_def)
  have len: "(length_n e + length y) mod bsize = (length t + length y) mod bsize"
    using idx by (metis mod_add_left_eq)
  show ?thesis
  proof (cases "length t + length y = bsize")
    case True
    have st: "feed_step e y = engine_process_block proc (e \<lparr> buffer := b, length_n := length_n e + length y \<rparr>)"
      using len True by (simp add: feed_step_def idx b_def Let_def)
    have bt: "b = t @ y" using b True by simp
    have "bsize dvd length (p @ t @ y)" using pt(2) True by simp
    moreover have "absorb st (p @ t @ y) = proc (absorb st p) b"
      unfolding bt using absorb_app [OF pt(2)] absorb_one [of "t @ y" "absorb st p" "[]"] True by simp
    ultimately have "\<exists>p' t'. m @ y = p' @ t' \<and> bsize dvd length p' \<and> length t' < bsize \<and>
        h_regs (feed_step e y) = absorb st p' \<and> take (length t') (buffer (feed_step e y)) = t'"
      using pt st by (intro exI [of _ "p @ t @ y"] exI [of _ "[]"]) (simp add: engine_process_block_def)
    then show ?thesis using n st b by (simp add: engine_at_def engine_process_block_def)
  next
    case False
    then have lt: "length t + length y < bsize" using fit by simp
    have st: "feed_step e y = e \<lparr> buffer := b, length_n := length_n e + length y \<rparr>"
      using len lt y(1) by (simp add: feed_step_def idx b_def Let_def)
    have "\<exists>p' t'. m @ y = p' @ t' \<and> bsize dvd length p' \<and> length t' < bsize \<and>
        h_regs (feed_step e y) = absorb st p' \<and> take (length t') (buffer (feed_step e y)) = t'"
      using pt st b lt by (intro exI [of _ p] exI [of _ "t @ y"]) simp
    then show ?thesis using n st b by (simp add: engine_at_def)
  qed
qed

lemma feed_at: "engine_at st n0 m e \<Longrightarrow> engine_at st n0 (m @ x) (feed e x)"
proof (induction "length x" arbitrary: m e x rule: less_induct)
  case less
  show ?case
  proof (cases "x = []")
    case True
    then show ?thesis using less.prems by (simp add: engine_input.simps)
  next
    case False
    define w where "w = min (bsize - length_n e mod bsize) (length x)"
    have w: "0 < w" "w \<le> length x" "length m mod bsize + w \<le> bsize"
      using False mod_less_divisor [OF bsize_pos(1), of "length m"] unfolding w_def mod_length [OF less.prems]
      by (auto simp: min_def simp del: mod_less_divisor)
    have unf: "feed e x = feed (feed_step e (take w x)) (drop w x)"
      using False w by (simp add: engine_input.simps [of bsize proc e x] feed_step_def w_def Let_def)
    have "engine_at st n0 (m @ take w x) (feed_step e (take w x))"
      using w by (intro feed_step_at [OF less.prems]) auto
    then have "engine_at st n0 ((m @ take w x) @ drop w x) (feed (feed_step e (take w x)) (drop w x))"
      using w by (intro less.hyps) auto
    then show ?thesis by (simp add: unf)
  qed
qed

lemma fold_feed_at: "engine_at st n0 m e \<Longrightarrow> engine_at st n0 (m @ concat xs) (fold (\<lambda>s e. feed e s) xs e)"
proof (induction xs arbitrary: m e)
  case (Cons x xs)
  then show ?case using Cons.IH [OF feed_at [OF Cons.prems]] by simp
qed simp

lemma fresh_at: "engine_at st 0 [] \<lparr> buffer = replicate bsize 0, h_regs = st, length_n = 0 \<rparr>"
  by (simp add: engine_at_def)

lemma engine_at_full:
  assumes "engine_at st n0 m e" and "bsize dvd length m"
  shows "h_regs e = absorb st m"
proof -
  obtain p t where pt: "m = p @ t" "bsize dvd length p" "length t < bsize" "h_regs e = absorb st p"
    using assms(1) by (auto simp: engine_at_def)
  have "bsize dvd length t" using assms(2) pt(1,2) by (simp add: dvd_add_right_iff)
  then have "t = []" using pt(3) by (auto dest: nat_dvd_not_less)
  then show ?thesis using pt by simp
qed

lemma length_feed: "engine_at st n0 m e \<Longrightarrow> length_n (feed e x) = length_n e + length x"
  using feed_at [of st n0 m e x] by (simp add: engine_at_def)

text \<open>The number of zeros fed in the two steps of the padding.\<close>

lemma pad_steps:
  defines "j n \<equiv> (if (n + 1) mod bsize > zlen then zlen else 0)"
  shows "j n + (zlen - (n + 1 + j n) mod bsize) = pad_zeros bsize zlen n"
proof -
  define r where "r = n mod bsize"
  have r: "r < bsize" by (simp add: r_def)
  have m: "(n + c) mod bsize = (r + c) mod bsize" for c by (simp add: r_def mod_simps)
  have z: "pad_zeros bsize zlen n = (if r < zlen then zlen - 1 - r else bsize + zlen - 1 - r)" by (simp add: pad_zeros_def r_def)
  have jm: "j n = (if (r + 1) mod bsize > zlen then zlen else 0)" unfolding j_def m ..
  have km: "(n + 1 + j n) mod bsize = (r + (1 + j n)) mod bsize" unfolding add.assoc m ..
  consider "r < zlen" | "zlen \<le> r" "r + 1 < bsize" | "r + 1 = bsize" using r by linarith
  then show ?thesis
  proof cases
    case 2
    then have "(r + (1 + zlen)) mod bsize = r + 1 + zlen - bsize" using sizes by (simp add: mod_if)
    then show ?thesis using 2 sizes unfolding km unfolding jm z by simp
  qed (unfold km, unfold jm z, use sizes in simp_all)
qed

lemma pad_at:
  assumes e: "engine_at st n0 m e"
  shows "engine_at st n0 (m @ 0x80 # replicate (pad_zeros bsize zlen (length_n e)) 0) (engine_pad bsize zlen proc e)"
proof -
  let ?n = "length_n e" and ?z = "replicate zlen 0 :: bytes"
  let ?e1 = "feed e [0x80]"
  let ?j = "if (?n + 1) mod bsize > zlen then zlen else 0"
  let ?e2 = "if length_n ?e1 mod bsize > zlen then feed ?e1 ?z else ?e1"
  let ?k = "zlen - (?n + 1 + ?j) mod bsize"
  have a1: "engine_at st n0 (m @ [0x80]) ?e1" by (rule feed_at [OF e])
  have l1: "length_n ?e1 = ?n + 1" using length_feed [OF e] by simp
  have a2: "engine_at st n0 (m @ [0x80] @ replicate ?j 0) ?e2"
    using a1 feed_at [OF a1, of ?z] by (simp add: l1)
  have l2: "length_n ?e2 = ?n + 1 + ?j" using length_feed [OF a1, of ?z] by (simp add: l1)
  have "engine_at st n0 (m @ [0x80] @ replicate (?j + ?k) 0) (feed ?e2 (take ?k ?z))"
    using feed_at [OF a2, of "take ?k ?z"] by (simp add: replicate_add)
  moreover have "engine_pad bsize zlen proc e = feed ?e2 (take ?k ?z)"
    unfolding engine_pad_def Let_def length_replicate l2 ..
  ultimately show ?thesis unfolding pad_steps by simp
qed

lemma pad_ends: "(n + 1 + pad_zeros bsize zlen n) mod bsize = zlen"
proof -
  define q r where "q = n div bsize" and "r = n mod bsize"
  have n: "n = q * bsize + r" "r < bsize" by (simp_all add: q_def r_def)
  show ?thesis
  proof (cases "r < zlen")
    case True
    then have "n + 1 + pad_zeros bsize zlen n = q * bsize + zlen" using n by (simp add: pad_zeros_def r_def [symmetric])
    then show ?thesis using sizes by simp
  next
    case False
    then have "n + 1 + pad_zeros bsize zlen n = (q + 1) * bsize + zlen" using n sizes by (simp add: pad_zeros_def r_def [symmetric])
    then show ?thesis using sizes by (simp only: mod_mult_self3) simp
  qed
qed

text \<open>Finalisation: after the padding a length field that fills the block.\<close>

lemma finish_at:
  assumes e: "engine_at st n0 m e" and l: "zlen + length lenb = bsize"
  shows "h_regs (feed (engine_pad bsize zlen proc e) lenb) =
    absorb st (m @ 0x80 # replicate (pad_zeros bsize zlen (length_n e)) 0 @ lenb)"
    and "bsize dvd length (m @ 0x80 # replicate (pad_zeros bsize zlen (length_n e)) 0 @ lenb)"
proof -
  let ?p = "0x80 # replicate (pad_zeros bsize zlen (length_n e)) 0 @ lenb"
  have n0: "bsize dvd n0" "length_n e = n0 + length m" using e by (simp_all add: engine_at_def)
  have "(length_n e + length ?p) mod bsize = (zlen + length lenb) mod bsize"
    using pad_ends [of "length_n e"] by (metis (no_types, lifting) One_nat_def add.assoc length_Cons length_append length_replicate mod_add_left_eq plus_1_eq_Suc)
  then have "bsize dvd n0 + length (m @ ?p)" using l n0(2) by (simp add: add.assoc dvd_eq_mod_eq_0)
  then show d: "bsize dvd length (m @ ?p)" using n0(1) by (simp only: dvd_add_right_iff)
  have "engine_at st n0 (m @ ?p) (feed (engine_pad bsize zlen proc e) lenb)"
    using feed_at [OF pad_at [OF e], of lenb] by simp
  then show "h_regs (feed (engine_pad bsize zlen proc e) lenb) = absorb st (m @ ?p)" using d by (rule engine_at_full)
qed

end

section \<open>The interface of a hash function\<close>

text \<open>What clients rely on: an engine accepts input in pieces, and the digest of a finished engine depends only on the
  concatenation.\<close>

locale hasher =
  fixes eng :: 'e and inp :: "'e \<Rightarrow> bytes \<Rightarrow> 'e" and fin :: "'e \<Rightarrow> bytes" and hash :: "bytes \<Rightarrow> bytes" and outlen :: nat
  assumes fin_fold: "fin (fold (\<lambda>s e. inp e s) xs eng) = hash (concat xs)"
    and length_hash: "length (hash m) = outlen"
begin

lemma fin_pieces: "fin (inp (inp eng x) y) = hash (x @ y)" "fin (inp eng x) = hash x"
  using fin_fold [of "[x, y]"] fin_fold [of "[x]"] by simp_all

lemma fin_after: "fin (fold (\<lambda>s e. inp e s) xs (inp eng x)) = hash (x @ concat xs)"
  using fin_fold [of "x # xs"] by simp

end

section \<open>The message schedule of SHA-2\<close>

text \<open>The unrolled rounds of SHA-256 and SHA-512 keep the last sixteen words of the message schedule in a circular
  buffer. Here \<open>W\<close> is the schedule as the standard defines it and \<open>rnd\<close> one round, with its constant and word.\<close>

locale sha2_rounds =
  fixes s0 s1 :: "'w::len word \<Rightarrow> 'w word" and K :: "'w word list" and rnd :: "'w word \<Rightarrow> 'w word \<Rightarrow> 'r \<Rightarrow> 'r"
    and W :: "'w word list \<Rightarrow> nat \<Rightarrow> 'w word"
  assumes W_rec: "W m t = (if t < 16 then m ! t else W m (t - 16) + s1 (W m (t - 2)) + W m (t - 7) + s0 (W m (t - 15)))"
begin

definition roll :: "nat \<Rightarrow> 'r \<times> 'w word list \<Rightarrow> 'r \<times> 'w word list" where
  "roll t s =
     (if t < 16 then (rnd (K ! t) (snd s ! t) (fst s), snd s)
      else (let w = snd s; w' = w[t mod 16 := w ! (t mod 16) + s1 (w ! ((t + 14) mod 16)) + w ! ((t + 9) mod 16) + s0 (w ! ((t + 1) mod 16))]
            in (rnd (K ! t) (w' ! (t mod 16)) (fst s), w')))"

text \<open>The window before round \<open>t\<close>.\<close>

definition window :: "'w word list \<Rightarrow> nat \<Rightarrow> 'w word list \<Rightarrow> bool" where
  "window m t w \<longleftrightarrow> length w = 16 \<and> (\<forall>j. j < max t 16 \<and> t \<le> j + 16 \<longrightarrow> w ! (j mod 16) = W m j)"

lemma windowD: "window m t w \<Longrightarrow> j < max t 16 \<Longrightarrow> t \<le> j + 16 \<Longrightarrow> w ! (j mod 16) = W m j"
  by (simp add: window_def)

lemma window_index:
  fixes t :: nat
  assumes "16 \<le> t"
  shows "(t - 16) mod 16 = t mod 16" "(t - 2) mod 16 = (t + 14) mod 16" "(t - 7) mod 16 = (t + 9) mod 16"
    "(t - 15) mod 16 = (t + 1) mod 16"
proof -
  have m: "(t - k) mod 16 = (t - k + 16) mod 16" for k by (simp only: mod_add_self2)
  have "t - 16 + 16 = t" "t - 2 + 16 = t + 14" "t - 7 + 16 = t + 9" "t - 15 + 16 = t + 1" using assms by simp_all
  then show "(t - 16) mod 16 = t mod 16" "(t - 2) mod 16 = (t + 14) mod 16" "(t - 7) mod 16 = (t + 9) mod 16"
    "(t - 15) mod 16 = (t + 1) mod 16" using m by presburger+
qed

lemma window_later:
  assumes w: "window m t w" and t: "16 \<le> t"
  defines "x \<equiv> w ! (t mod 16) + s1 (w ! ((t + 14) mod 16)) + w ! ((t + 9) mod 16) + s0 (w ! ((t + 1) mod 16))"
  shows "x = W m t" and "window m (Suc t) (w[t mod 16 := x])"
proof -
  have "w ! (t mod 16) = W m (t - 16)" "w ! ((t + 14) mod 16) = W m (t - 2)"
    "w ! ((t + 9) mod 16) = W m (t - 7)" "w ! ((t + 1) mod 16) = W m (t - 15)"
    unfolding window_index [OF t, symmetric] using t by (auto intro!: windowD [OF w])
  then show x: "x = W m t" using t by (simp add: x_def W_rec [of m t])
  have len: "length w = 16" using w by (simp add: window_def)
  have "w[t mod 16 := x] ! (j mod 16) = W m j" if "j < Suc t" "Suc t \<le> j + 16" for j
  proof (cases "j = t")
    case False
    then have "j < t" using that by simp
    have "j mod 16 \<noteq> t mod 16"
    proof
      assume "j mod 16 = t mod 16"
      then have "16 dvd t - j" using \<open>j < t\<close> mod_eq_dvd_iff_nat [of j t 16] by simp
      moreover have "0 < t - j" "t - j < 16" using that \<open>j < t\<close> by simp_all
      ultimately show False by (meson nat_dvd_not_less)
    qed
    then show ?thesis using windowD [OF w, of j] \<open>j < t\<close> that t by simp
  qed (use len x in simp)
  then show "window m (Suc t) (w[t mod 16 := x])" using t len by (simp add: window_def)
qed

lemma roll_window:
  assumes "length m = 16"
  shows "fst (fold roll [0..<t] (st, m)) = fold (\<lambda>t. rnd (K ! t) (W m t)) [0..<t] st \<and> window m t (snd (fold roll [0..<t] (st, m)))"
proof (induction t)
  case 0
  have "W m j = m ! j" if "j < 16" for j using that by (subst W_rec) simp
  then show ?case using assms by (simp add: window_def)
next
  case (Suc t)
  define s where "s = fold roll [0..<t] (st, m)"
  have IH: "fst s = fold (\<lambda>t. rnd (K ! t) (W m t)) [0..<t] st" "window m t (snd s)" using Suc by (simp_all add: s_def)
  have unf: "fold roll [0..<Suc t] (st, m) = roll t s" by (simp add: s_def)
  have len: "length (snd s) = 16" using IH(2) by (simp add: window_def)
  have "fst (roll t s) = rnd (K ! t) (W m t) (fst s) \<and> window m (Suc t) (snd (roll t s))"
  proof (cases "t < 16")
    case True
    then have "snd s ! t = W m t" using windowD [OF IH(2), of t] by simp
    moreover have "window m (Suc t) (snd s)" using IH(2) True by (simp add: window_def)
    ultimately show ?thesis using True by (simp add: roll_def)
  next
    case False
    then show ?thesis using window_later [OF IH(2)] len by (simp add: roll_def Let_def)
  qed
  then show ?case unfolding unf using IH(1) by simp
qed

lemma roll_schedule: "length m = 16 \<Longrightarrow> fst (fold roll [0..<n] (st, m)) = fold (\<lambda>t. rnd (K ! t) (W m t)) [0..<n] st"
  using roll_window by blast

end

end
