(* ===== verification/U256.thy ===== *)
theory U256
  imports Prelude
begin

text \<open>
  The 256-bit integer of \<open>bitcoin/src/pow.rs\<close>: a pair of \<open>u128\<close> halves with hand-written carry
  arithmetic. The operations are translated with their carries, shifts and long division; the
  abstraction \<open>u256_val\<close> reads a value as a natural number, and the lemmas show that every operation
  is arithmetic modulo \<open>2 ^ 256\<close> on it. The \<open>debug_assert!\<close> of \<open>Add\<close>, \<open>Sub\<close> and \<open>Mul\<close> is not executed
  in a release build; the operators are modelled as in that build, and the overflow flags they drop are
  results of the \<open>overflowing_*\<close> operations. A panic (\<open>assert!\<close>, index underflow) is \<open>None\<close>.
\<close>

section \<open>Representation\<close>

datatype U256 = U256 (u256_hi: u128) (u256_lo: u128)

definition u256_MAX :: U256 where "u256_MAX = U256 (- 1) (- 1)"
definition u256_ZERO :: U256 where "u256_ZERO = U256 0 0"
definition u256_ONE :: U256 where "u256_ONE = U256 0 1"

text \<open>\<open>derive(PartialOrd, Ord)\<close>: lexicographic, the high half first.\<close>

instantiation U256 :: linorder
begin

definition less_eq_U256 :: "U256 \<Rightarrow> U256 \<Rightarrow> bool" where
  "less_eq_U256 x y \<longleftrightarrow> u256_hi x < u256_hi y \<or> u256_hi x = u256_hi y \<and> u256_lo x \<le> u256_lo y"

definition less_U256 :: "U256 \<Rightarrow> U256 \<Rightarrow> bool" where
  "less_U256 x y \<longleftrightarrow> u256_hi x < u256_hi y \<or> u256_hi x = u256_hi y \<and> u256_lo x < u256_lo y"

instance
  by standard (auto simp: less_eq_U256_def less_U256_def U256.expand)

end

definition u256_val :: "U256 \<Rightarrow> nat" where
  "u256_val x = unat (u256_hi x) * 2 ^ 128 + unat (u256_lo x)"

section \<open>Byte conversions\<close>

definition split_in_half :: "bytes \<Rightarrow> bytes \<times> bytes" where
  "split_in_half a = (take 16 a, drop 16 a)"

definition u256_from_be_bytes :: "bytes \<Rightarrow> U256" where
  "u256_from_be_bytes a = (let (high, low) = split_in_half a in
     U256 (from_be_bytes high) (from_be_bytes low))"

definition u256_from_le_bytes :: "bytes \<Rightarrow> U256" where
  "u256_from_le_bytes a = (let (high, low) = split_in_half a;
     little = from_le_bytes high; big = from_le_bytes low in U256 big little)"

definition u256_to_be_bytes :: "U256 \<Rightarrow> bytes" where
  "u256_to_be_bytes x = to_be_bytes (u256_hi x) @ to_be_bytes (u256_lo x)"

definition u256_to_le_bytes :: "U256 \<Rightarrow> bytes" where
  "u256_to_le_bytes x = to_le_bytes (u256_lo x) @ to_le_bytes (u256_hi x)"

section \<open>Tests and projections\<close>

definition is_zero :: "U256 \<Rightarrow> bool" where "is_zero x \<longleftrightarrow> u256_hi x = 0 \<and> u256_lo x = 0"
definition is_one :: "U256 \<Rightarrow> bool" where "is_one x \<longleftrightarrow> u256_hi x = 0 \<and> u256_lo x = 1"
definition is_max :: "U256 \<Rightarrow> bool" where "is_max x \<longleftrightarrow> u256_hi x = - 1 \<and> u256_lo x = - 1"
definition low_u128 :: "U256 \<Rightarrow> u128" where "low_u128 x = u256_lo x"
definition low_u64 :: "U256 \<Rightarrow> u64" where "low_u64 x = ucast (low_u128 x)"
definition low_u32 :: "U256 \<Rightarrow> u32" where "low_u32 x = ucast (low_u128 x)"

definition u256_from :: "u128 \<Rightarrow> U256" where "u256_from x = U256 0 x"

definition saturating_to_u128 :: "U256 \<Rightarrow> u128" where
  "saturating_to_u128 x = (if x > u256_from (- 1) then - 1 else low_u128 x)"

definition u256_bits :: "U256 \<Rightarrow> nat" where
  "u256_bits x = (if u256_hi x > 0 then 256 - leading_zeros (u256_hi x) else 128 - leading_zeros (u256_lo x))"

section \<open>Arithmetic\<close>

fun mul_words :: "u64 \<Rightarrow> u128 \<Rightarrow> u64 list \<Rightarrow> u64 list \<times> u128" where
  "mul_words rhs carry [] = ([], carry)"
| "mul_words rhs carry (word # ws) =
     (let n = carry + ucast rhs * ucast word;
          (ws', carry') = mul_words rhs (drop_bit 64 n) ws
      in (ucast n # ws', carry'))"

definition mul_u64 :: "U256 \<Rightarrow> u64 \<Rightarrow> U256 \<times> bool" where
  "mul_u64 x rhs =
     (let split_le = [ucast (u256_lo x), ucast (drop_bit 64 (u256_lo x)), ucast (u256_hi x), ucast (drop_bit 64 (u256_hi x))];
          (ws, carry) = mul_words rhs 0 split_le;
          low = ucast (ws ! 0) OR push_bit 64 (ucast (ws ! 1));
          high = ucast (ws ! 2) OR push_bit 64 (ucast (ws ! 3))
      in (U256 high low, carry \<noteq> 0))"

definition overflowing_add :: "U256 \<Rightarrow> U256 \<Rightarrow> U256 \<times> bool" where
  "overflowing_add x y =
     (let (high, o1) = overflowing_add_w (u256_hi x) (u256_hi y);
          (low, o2) = overflowing_add_w (u256_lo x) (u256_lo y)
      in if o2 then (let (high', o3) = overflowing_add_w high 1 in (U256 high' low, o1 \<or> o3))
         else (U256 high low, o1))"

definition wrapping_add :: "U256 \<Rightarrow> U256 \<Rightarrow> U256" where
  "wrapping_add x y = fst (overflowing_add x y)"

definition u256_not :: "U256 \<Rightarrow> U256" where
  "u256_not x = U256 (NOT (u256_hi x)) (NOT (u256_lo x))"

definition overflowing_sub :: "U256 \<Rightarrow> U256 \<Rightarrow> U256 \<times> bool" where
  "overflowing_sub x y =
     (let ret = wrapping_add (wrapping_add x (u256_not y)) u256_ONE; overflow = y > x
      in (ret, overflow))"

definition wrapping_sub :: "U256 \<Rightarrow> U256 \<Rightarrow> U256" where
  "wrapping_sub x y = fst (overflowing_sub x y)"

definition wrapping_inc :: "U256 \<Rightarrow> U256" where
  "wrapping_inc x = (let l = u256_lo x + 1 in if l = 0 then U256 (u256_hi x + 1) l else U256 (u256_hi x) l)"

definition wrapping_shl :: "U256 \<Rightarrow> nat \<Rightarrow> U256" where
  "wrapping_shl x rhs =
     (let shift = rhs AND 0xff; word_shift = (shift \<ge> 128); bit_shift = shift mod 128
      in if word_shift then U256 (push_bit bit_shift (u256_lo x)) 0
         else U256 (if bit_shift > 0
                    then push_bit bit_shift (u256_hi x) + drop_bit (128 - bit_shift) (u256_lo x)
                    else push_bit bit_shift (u256_hi x))
                   (push_bit bit_shift (u256_lo x)))"

definition wrapping_shr :: "U256 \<Rightarrow> nat \<Rightarrow> U256" where
  "wrapping_shr x rhs =
     (let shift = rhs AND 0xff; word_shift = (shift \<ge> 128); bit_shift = shift mod 128
      in if word_shift then U256 0 (drop_bit bit_shift (u256_hi x))
         else U256 (drop_bit bit_shift (u256_hi x))
                   (if bit_shift > 0
                    then drop_bit bit_shift (u256_lo x) + push_bit (128 - bit_shift) (u256_hi x)
                    else drop_bit bit_shift (u256_lo x)))"

text \<open>\<open>for i in 0..3\<close> of \<open>overflowing_mul\<close>.\<close>

fun mul_loop :: "U256 \<Rightarrow> U256 \<Rightarrow> nat list \<Rightarrow> U256 \<Rightarrow> U256" where
  "mul_loop x rhs [] ret = ret"
| "mul_loop x rhs (i # is) ret =
     (let to_mul = low_u64 (wrapping_shr rhs (64 * i));
          (mul_res, _) = mul_u64 x to_mul
      in mul_loop x rhs is (wrapping_add ret (wrapping_shl mul_res (64 * i))))"

definition overflowing_mul :: "U256 \<Rightarrow> U256 \<Rightarrow> U256 \<times> bool" where
  "overflowing_mul x rhs =
     (let ret = mul_loop x rhs [0, 1, 2] u256_ZERO;
          to_mul = low_u64 (wrapping_shr rhs 192);
          (mul_res, o1) = mul_u64 x to_mul;
          (sum, o2) = overflowing_add ret mul_res
      in (sum, o1 \<or> o2))"

text \<open>The bitwise long division loop of \<open>div_rem\<close>; \<open>ret\<close> is the array \<open>[u128; 2]\<close>.\<close>

definition set_quot_bit :: "nat \<Rightarrow> u128 \<times> u128 \<Rightarrow> u128 \<times> u128" where
  "set_quot_bit shift ret =
     (if 1 - shift div 128 = 0 then (fst ret OR push_bit (shift mod 128) 1, snd ret)
      else (fst ret, snd ret OR push_bit (shift mod 128) 1))"

fun div_loop :: "nat \<Rightarrow> U256 \<Rightarrow> U256 \<Rightarrow> u128 \<times> u128 \<Rightarrow> (u128 \<times> u128) \<times> U256" where
  "div_loop shift sub_copy shift_copy ret =
     (let (ret', sub_copy') =
            (if sub_copy \<ge> shift_copy then (set_quot_bit shift ret, wrapping_sub sub_copy shift_copy)
             else (ret, sub_copy));
          shift_copy' = wrapping_shr shift_copy 1
      in case shift of 0 \<Rightarrow> (ret', sub_copy') | Suc s \<Rightarrow> div_loop s sub_copy' shift_copy' ret')"

declare div_loop.simps [simp del]

definition div_rem :: "U256 \<Rightarrow> U256 \<Rightarrow> (U256 \<times> U256) option" where
  "div_rem x rhs =
     (let my_bits = u256_bits x; your_bits = u256_bits rhs
      in if your_bits = 0 then None
         else if my_bits < your_bits then Some (u256_ZERO, x)
         else (let shift = my_bits - your_bits;
                   (ret, sub_copy) = div_loop shift x (wrapping_shl rhs shift) (0, 0)
               in Some (U256 (fst ret) (snd ret), sub_copy)))"

text \<open>The operators \<open>+\<close>, \<open>-\<close> and \<open>*\<close> end in \<open>debug_assert!(!overflow, ..)\<close>: with debug assertions
  (\<open>da\<close>) they panic when the overflow flag is set.\<close>

definition debug_no_overflow :: "bool \<Rightarrow> U256 \<times> bool \<Rightarrow> U256 option" where
  "debug_no_overflow da r = (case r of (res, overflow) \<Rightarrow> if da \<and> overflow then None else Some res)"

definition u256_add :: "bool \<Rightarrow> U256 \<Rightarrow> U256 \<Rightarrow> U256 option" where
  "u256_add da x y = debug_no_overflow da (overflowing_add x y)"
definition u256_sub :: "bool \<Rightarrow> U256 \<Rightarrow> U256 \<Rightarrow> U256 option" where
  "u256_sub da x y = debug_no_overflow da (overflowing_sub x y)"
definition u256_mul :: "bool \<Rightarrow> U256 \<Rightarrow> U256 \<Rightarrow> U256 option" where
  "u256_mul da x y = debug_no_overflow da (overflowing_mul x y)"
definition u256_div :: "U256 \<Rightarrow> U256 \<Rightarrow> U256 option" where "u256_div x y = map_option fst (div_rem x y)"
definition u256_rem :: "U256 \<Rightarrow> U256 \<Rightarrow> U256 option" where "u256_rem x y = map_option snd (div_rem x y)"

definition u256_inverse :: "U256 \<Rightarrow> U256 option" where
  "u256_inverse x =
     (if is_zero x then Some u256_MAX
      else if is_one x then Some u256_MAX
      else if is_max x then Some u256_ONE
      else map_option wrapping_inc (u256_div (u256_not x) (wrapping_inc x)))"

section \<open>Decimal display\<close>

text \<open>
  The loop of \<open>fmt_decimal\<close> fills the 78-byte buffer from its end; \<open>i -= 1\<close> at \<open>i = 0\<close> would panic.
\<close>

fun fmt_decimal_loop :: "nat \<Rightarrow> bytes \<Rightarrow> U256 \<Rightarrow> (nat \<times> bytes) option" where
  "fmt_decimal_loop i buf cur =
     (case (u256_rem cur (U256 0 10), u256_div cur (U256 0 10)) of
        (Some r, Some q) \<Rightarrow>
          (let digit = ucast (low_u128 r); buf' = buf[i := digit + 48]
           in if is_zero q then Some (i, buf')
              else (case i of 0 \<Rightarrow> None | Suc j \<Rightarrow> fmt_decimal_loop j buf' q))
      | _ \<Rightarrow> None)"

declare fmt_decimal_loop.simps [simp del]

definition fmt_decimal :: "U256 \<Rightarrow> bytes option" where
  "fmt_decimal x = map_option (\<lambda>(i, buf). drop i buf) (fmt_decimal_loop 77 (replicate 78 0) x)"

definition u256_display :: "U256 \<Rightarrow> bytes option" where
  "u256_display x = (if is_zero x then Some [48] else fmt_decimal x)"

section \<open>The value of a U256\<close>

lemma unat_u128_lt: "unat (w :: u128) < 2 ^ 128"
  using unsigned_less [of w] by simp

lemmas unat_u128_lt_num [simp] = unat_u128_lt [simplified]

lemma u256_val_lt: "u256_val x < 2 ^ 256"
proof -
  have "u256_val x < (unat (u256_hi x) + 1) * 2 ^ 128"
    using unat_u128_lt [of "u256_lo x"] by (simp add: u256_val_def)
  also have "\<dots> \<le> 2 ^ 128 * 2 ^ 128"
    using Suc_leI [OF unat_u128_lt [of "u256_hi x"]] by (intro mult_le_mono1) (simp only: Suc_eq_plus1)
  finally show ?thesis by simp
qed

lemma u256_val_div: "u256_val x div 2 ^ 128 = unat (u256_hi x)"
  using unat_u128_lt [of "u256_lo x"] by (simp add: u256_val_def)

lemma u256_val_mod: "u256_val x mod 2 ^ 128 = unat (u256_lo x)"
  using unat_u128_lt [of "u256_lo x"] by (simp add: u256_val_def)

lemma u256_val_inj: "u256_val x = u256_val y \<longleftrightarrow> x = y"
  by (metis U256.expand u256_val_div u256_val_mod word_unat_eq_iff)

lemma u256_val_eqI: "u256_val x = u256_val y \<Longrightarrow> x = y"
  by (simp add: u256_val_inj)

lemma val_less_iff: "u256_val x < u256_val y \<longleftrightarrow> x < y"
proof -
  have "a * 2 ^ 128 + c < b * 2 ^ 128 + d" if "a < b" "c < 2 ^ 128" for a b c d :: nat
  proof -
    have "a * 2 ^ 128 + c < (a + 1) * 2 ^ 128" using that by simp
    also have "\<dots> \<le> b * 2 ^ 128" using that by (intro mult_le_mono1) simp
    finally show ?thesis by simp
  qed
  from this [of "unat (u256_hi x)" "unat (u256_hi y)" "unat (u256_lo x)" "unat (u256_lo y)"]
    this [of "unat (u256_hi y)" "unat (u256_hi x)" "unat (u256_lo y)" "unat (u256_lo x)"]
  show ?thesis
    by (cases "u256_hi x" "u256_hi y" rule: linorder_cases)
      (auto simp: less_U256_def u256_val_def word_less_nat_alt)
qed

lemma val_le_iff: "u256_val x \<le> u256_val y \<longleftrightarrow> x \<le> y"
  using val_less_iff [of y x] by (simp add: not_less [symmetric])

lemma val_consts [simp]:
  "u256_val u256_ZERO = 0" "u256_val u256_ONE = 1" "u256_val u256_MAX = 2 ^ 256 - 1"
  by (simp_all add: u256_val_def u256_ZERO_def u256_ONE_def u256_MAX_def unsigned_minus_1_eq_mask
      mask_eq_exp_minus_1)

lemma val_from [simp]: "u256_val (u256_from x) = unat x"
  by (simp add: u256_val_def u256_from_def)

lemma is_zero_iff: "is_zero x \<longleftrightarrow> u256_val x = 0"
  by (simp add: is_zero_def u256_val_def unat_eq_zero)

lemma is_one_iff: "is_one x \<longleftrightarrow> u256_val x = 1"
proof -
  have "is_one x \<longleftrightarrow> x = u256_ONE" by (cases x) (simp add: is_one_def u256_ONE_def)
  then show ?thesis using u256_val_inj [of x u256_ONE] by simp
qed

lemma is_max_iff: "is_max x \<longleftrightarrow> u256_val x = 2 ^ 256 - 1"
proof -
  have "is_max x \<longleftrightarrow> x = u256_MAX" by (cases x) (simp add: is_max_def u256_MAX_def unsigned_minus_1_eq_mask
      mask_eq_exp_minus_1)
  then show ?thesis using u256_val_inj [of x u256_MAX] by simp
qed

lemma unat_low_u64: "unat (low_u64 x) = u256_val x mod 2 ^ 64"
proof -
  have "unat (low_u64 x) = unat (u256_lo x) mod 2 ^ 64"
    by (simp add: low_u64_def low_u128_def unsigned_ucast_eq take_bit_eq_mod)
  also have "\<dots> = u256_val x mod 2 ^ 64"
    by (simp only: u256_val_mod [symmetric] mod_mod_cancel le_imp_power_dvd)
  finally show ?thesis .
qed

lemma unat_low_u32: "unat (low_u32 x) = u256_val x mod 2 ^ 32"
proof -
  have "unat (low_u32 x) = unat (u256_lo x) mod 2 ^ 32"
    by (simp add: low_u32_def low_u128_def unsigned_ucast_eq take_bit_eq_mod)
  also have "\<dots> = u256_val x mod 2 ^ 32"
    by (simp only: u256_val_mod [symmetric] mod_mod_cancel le_imp_power_dvd)
  finally show ?thesis .
qed

lemma u256_bits_eq: "u256_bits x = bit_length (u256_val x)"
proof (cases "u256_hi x = 0")
  case True
  then show ?thesis
    using bit_length_leading_zeros [of "u256_lo x"] by (simp add: u256_bits_def u256_val_def)
next
  case False
  then have pos: "0 < unat (u256_hi x)" by (simp add: unat_gt_0)
  obtain m where m: "bit_length (unat (u256_hi x)) = Suc m"
    using pos by (cases "bit_length (unat (u256_hi x))") (auto simp: bit_length.simps [of "unat (u256_hi x)"])
  have "2 ^ m \<le> unat (u256_hi x)" "unat (u256_hi x) < 2 ^ Suc m"
    using bit_length_lower [OF pos] bit_length_upper [of "unat (u256_hi x)"] m by simp_all
  then have "2 ^ m * 2 ^ 128 \<le> u256_val x" and "u256_val x < 2 ^ Suc m * 2 ^ 128"
    using unat_u128_lt_num [of "u256_lo x"] unfolding u256_val_def
    by (simp_all add: mult_le_mono1 trans_le_add1 del: unat_u128_lt_num)
  then have "bit_length (u256_val x) = Suc (m + 128)"
    by (intro bit_length_unique) (simp_all add: power_add)
  moreover have "leading_zeros (u256_hi x) = 128 - Suc m" "Suc m \<le> 128"
    using m bit_length_word_le [of "u256_hi x"] by (simp_all add: leading_zeros_def)
  ultimately show ?thesis using False by (simp add: u256_bits_def word_neq_0_conv)
qed

section \<open>Arithmetic on the value\<close>

lemma val_two_digits:
  fixes B h l :: nat
  assumes "0 < B"
  shows "(h * B + l) mod (B * B) = ((h + l div B) mod B) * B + l mod B"
    and "B * B \<le> h * B + l \<longleftrightarrow> B \<le> h + l div B"
proof -
  have d: "(h * B + l) div B = h + l div B" and m: "(h * B + l) mod B = l mod B"
    using assms by simp_all
  show "(h * B + l) mod (B * B) = ((h + l div B) mod B) * B + l mod B"
    using mod_mult2_eq [of "h * B + l" B B] d m by (simp add: ac_simps)
  show "B * B \<le> h * B + l \<longleftrightarrow> B \<le> h + l div B"
    using d less_eq_div_iff_mult_less_eq [OF assms, of B "h * B + l"] by simp
qed

lemma unat_add_u128: "unat (a + b :: u128) = (unat a + unat b) mod 2 ^ 128"
  by (simp add: unat_word_ariths)

lemma overflowing_add_val:
  "u256_val (fst (overflowing_add x y)) = (u256_val x + u256_val y) mod 2 ^ 256"
  "snd (overflowing_add x y) \<longleftrightarrow> 2 ^ 256 \<le> u256_val x + u256_val y"
proof -
  define B :: nat where "B = 2 ^ 128"
  define a b c d where "a = unat (u256_hi x)" and "b = unat (u256_hi y)" and "c = unat (u256_lo x)" and "d = unat (u256_lo y)"
  have lt: "a < B" "b < B" "c < B" "d < B" and B0: "0 < B"
    using unat_u128_lt by (auto simp: a_def b_def c_def d_def B_def)
  have BB: "(2::nat) ^ 256 = B * B" by (simp add: B_def)
  have B2: "2 ^ LENGTH(128) = B" by (simp add: B_def)
  have v: "u256_val x + u256_val y = (a + b) * B + (c + d)"
    by (simp only: u256_val_def a_def b_def c_def d_def B_def add_mult_distrib)
  have s1: "unat (u256_hi x + u256_hi y) = (a + b) mod B" "unat (u256_lo x + u256_lo y) = (c + d) mod B"
    by (simp_all only: unat_add_u128 a_def b_def c_def d_def B_def)
  have s2: "unat (u256_hi x + u256_hi y + 1) = (a + b + 1) mod B"
    using s1 unat_add_u128 [of "u256_hi x + u256_hi y" 1] by (simp add: B_def mod_simps)
  have carry: "(c + d) div B = (if B \<le> c + d then 1 else 0)"
    using lt by (auto simp: div_nat_eqI)
  have fl: "B \<le> a + b \<or> B \<le> (a + b) mod B + 1 \<longleftrightarrow> B \<le> a + b + 1"
    using lt by (cases "B \<le> a + b") auto
  show "u256_val (fst (overflowing_add x y)) = (u256_val x + u256_val y) mod 2 ^ 256"
    unfolding v BB val_two_digits [OF B0] carry
    by (simp add: overflowing_add_def overflowing_add_w_def u256_val_def s1 s2 B2 c_def [symmetric] d_def [symmetric] del: len_num1 len_bit0)
      (simp add: B_def)
  show "snd (overflowing_add x y) \<longleftrightarrow> 2 ^ 256 \<le> u256_val x + u256_val y"
    unfolding v BB val_two_digits [OF B0] carry
    by (simp add: overflowing_add_def overflowing_add_w_def s1 B2 a_def [symmetric] b_def [symmetric] c_def [symmetric] d_def [symmetric])
      (use fl in \<open>auto simp: B_def\<close>)
qed

lemma wrapping_add_val: "u256_val (wrapping_add x y) = (u256_val x + u256_val y) mod 2 ^ 256"
  by (simp only: wrapping_add_def overflowing_add_val)

lemma unat_not_u128: "unat (NOT (w :: u128)) = 2 ^ 128 - 1 - unat w"
proof -
  have "NOT w = - 1 - w" by (simp add: not_eq_complement)
  also have "\<dots> = word_of_nat (2 ^ 128 - 1 - unat w)"
  proof -
    have "unat w \<le> 2 ^ 128 - 1" using unat_u128_lt [of w] by linarith
    then have "(word_of_nat (2 ^ 128 - 1 - unat w) :: u128) = word_of_nat (2 ^ 128 - 1) - word_of_nat (unat w)"
      by (rule of_nat_diff)
    then show ?thesis by simp
  qed
  finally have "NOT w = word_of_nat (2 ^ 128 - 1 - unat w)" .
  moreover have "2 ^ 128 - 1 - unat w < 2 ^ LENGTH(128)" by simp
  ultimately show ?thesis by (simp only: unat_of_nat) simp
qed

lemma u256_not_val: "u256_val (u256_not x) = 2 ^ 256 - 1 - u256_val x"
proof -
  have "u256_val (u256_not x) + u256_val x = 2 ^ 256 - 1"
    using unat_u128_lt_num [of "u256_hi x"] unat_u128_lt_num [of "u256_lo x"]
    by (simp add: u256_not_def u256_val_def unat_not_u128 algebra_simps del: unat_u128_lt_num)
  then show ?thesis by linarith
qed

lemma overflowing_sub_val:
  "u256_val (fst (overflowing_sub x y)) = (u256_val x + 2 ^ 256 - u256_val y) mod 2 ^ 256"
  "snd (overflowing_sub x y) \<longleftrightarrow> u256_val x < u256_val y"
proof -
  have "(u256_val x + (2 ^ 256 - 1 - u256_val y)) mod 2 ^ 256 + 1 =
     (u256_val x + (2 ^ 256 - 1 - u256_val y)) mod 2 ^ 256 + 1" ..
  have e: "u256_val x + (2 ^ 256 - 1 - u256_val y) + 1 = u256_val x + 2 ^ 256 - u256_val y"
    using u256_val_lt [of y] by linarith
  have "u256_val (fst (overflowing_sub x y)) =
      ((u256_val x + (2 ^ 256 - 1 - u256_val y)) mod 2 ^ 256 + 1) mod 2 ^ 256"
    by (simp only: overflowing_sub_def wrapping_add_val u256_not_val val_consts Let_def fst_conv)
  also have "\<dots> = (u256_val x + (2 ^ 256 - 1 - u256_val y) + 1) mod 2 ^ 256"
    by (simp only: mod_add_left_eq)
  finally show "u256_val (fst (overflowing_sub x y)) = (u256_val x + 2 ^ 256 - u256_val y) mod 2 ^ 256"
    by (simp only: e)
  show "snd (overflowing_sub x y) \<longleftrightarrow> u256_val x < u256_val y"
    by (simp add: overflowing_sub_def val_less_iff)
qed

lemma wrapping_sub_val: "y \<le> x \<Longrightarrow> u256_val (wrapping_sub x y) = u256_val x - u256_val y"
proof -
  assume "y \<le> x"
  then have "u256_val y \<le> u256_val x" by (simp add: val_le_iff)
  then have "u256_val x + 2 ^ 256 - u256_val y = (u256_val x - u256_val y) + 2 ^ 256" by linarith
  moreover have "u256_val x - u256_val y < 2 ^ 256" using u256_val_lt [of x] by linarith
  ultimately show ?thesis by (simp only: wrapping_sub_def overflowing_sub_val mod_add_self2 mod_less)
qed

lemma wrapping_inc_val: "u256_val (wrapping_inc x) = (u256_val x + 1) mod 2 ^ 256"
proof -
  have z: "u256_lo x + 1 = 0 \<longleftrightarrow> unat (u256_lo x) = 2 ^ 128 - 1"
  proof -
    have "u256_lo x + 1 = 0 \<longleftrightarrow> u256_lo x = - 1" by (simp add: eq_neg_iff_add_eq_0)
    also have "\<dots> \<longleftrightarrow> unat (u256_lo x) = unat (- 1 :: u128)" by (simp only: word_unat_eq_iff)
    finally show ?thesis by (simp add: unsigned_minus_1_eq_mask mask_eq_exp_minus_1)
  qed
  have "wrapping_inc x = wrapping_add x u256_ONE"
    using z unat_u128_lt_num [of "u256_lo x"]
    by (auto simp: wrapping_inc_def wrapping_add_def overflowing_add_def overflowing_add_w_def
        u256_ONE_def Let_def simp del: unat_u128_lt_num)
  then show ?thesis by (simp only: wrapping_add_val val_consts)
qed

lemma and_ff_nat: "(n::nat) AND 0xff = n mod 256"
  using take_bit_eq_mask [of 8 n] by (simp add: take_bit_eq_mod mask_eq_exp_minus_1)

lemma unat_push_u128: "unat (push_bit k (w :: u128)) = unat w * 2 ^ k mod 2 ^ 128"
  unfolding unsigned_push_bit_eq by (simp add: push_bit_eq_mult take_bit_eq_mod)

lemma unat_drop_u128: "unat (drop_bit k (w :: u128)) = unat w div 2 ^ k"
  unfolding unsigned_drop_bit_eq by (simp add: drop_bit_eq_div take_bit_eq_mod)

lemma div_pow_split:
  fixes l :: nat
  assumes "b \<le> 128"
  shows "l * 2 ^ b div 2 ^ 128 = l div 2 ^ (128 - b)"
proof -
  have "(2::nat) ^ 128 = 2 ^ (128 - b) * 2 ^ b" using assms by (simp flip: power_add)
  then show ?thesis by (metis div_mult_mult2 power_not_zero zero_neq_numeral)
qed

lemma wrapping_shl_val: "u256_val (wrapping_shl x k) = u256_val x * 2 ^ (k mod 256) mod 2 ^ 256"
proof -
  define B :: nat where "B = 2 ^ 128"
  define s where "s = k mod 256"
  define b where "b = s mod 128"
  have s: "s < 256" and b: "b < 128" by (simp_all add: s_def b_def)
  have BB: "(2::nat) ^ 256 = B * B" and B0: "0 < B" by (simp_all add: B_def)
  have split: "n mod (B * B) = (n div B mod B) * B + n mod B" for n
    using val_two_digits(1) [OF B0, of 0 n] by simp
  show ?thesis
  proof (cases "s \<ge> 128")
    case True
    then have sb: "s = 128 + b" using s by (simp add: b_def le_mod_geq)
    have e: "u256_val x * 2 ^ s = (u256_val x * 2 ^ b) * B" by (simp add: sb B_def power_add)
    have 1: "u256_val x * 2 ^ s mod (B * B) = (u256_val x * 2 ^ b mod B) * B"
      unfolding split unfolding e using B0 by simp
    have 2: "u256_val x * 2 ^ b mod B = unat (u256_lo x) * 2 ^ b mod B"
      by (simp only: u256_val_mod [symmetric] B_def mod_mult_left_eq)
    have "u256_val (wrapping_shl x k) = unat (push_bit b (u256_lo x)) * B"
      using True by (simp add: wrapping_shl_def u256_val_def and_ff_nat s_def [symmetric] b_def [symmetric] B_def)
    also have "\<dots> = (unat (u256_lo x) * 2 ^ b mod B) * B" by (simp only: unat_push_u128 B_def)
    finally show ?thesis unfolding BB s_def [symmetric] 1 2 .
  next
    case False
    then have sb: "s = b" by (simp add: b_def)
    have m: "u256_val x * 2 ^ b mod B = unat (u256_lo x) * 2 ^ b mod B"
      by (simp only: u256_val_mod [symmetric] B_def mod_mult_left_eq)
    have "u256_val x * 2 ^ b = unat (u256_hi x) * 2 ^ b * B + unat (u256_lo x) * 2 ^ b"
      by (simp add: u256_val_def B_def algebra_simps)
    then have d: "u256_val x * 2 ^ b div B = unat (u256_hi x) * 2 ^ b + unat (u256_lo x) div 2 ^ (128 - b)"
      using B0 div_pow_split [of b "unat (u256_lo x)"] b by (simp add: B_def)
    have h: "unat (if b > 0 then push_bit b (u256_hi x) + drop_bit (128 - b) (u256_lo x) else push_bit b (u256_hi x))
        = (unat (u256_hi x) * 2 ^ b + unat (u256_lo x) div 2 ^ (128 - b)) mod B"
      using unat_u128_lt [of "u256_lo x"]
      by (auto simp: unat_add_u128 unat_push_u128 unat_drop_u128 B_def mod_simps)
    have "u256_val (wrapping_shl x k) =
        unat (if b > 0 then push_bit b (u256_hi x) + drop_bit (128 - b) (u256_lo x) else push_bit b (u256_hi x)) * B
        + unat (push_bit b (u256_lo x))"
      using False by (simp add: wrapping_shl_def u256_val_def and_ff_nat s_def [symmetric] b_def [symmetric] B_def)
    also have "\<dots> = (u256_val x * 2 ^ b div B mod B) * B + u256_val x * 2 ^ b mod B"
      unfolding h d m by (simp only: unat_push_u128 B_def)
    finally show ?thesis unfolding BB s_def [symmetric] sb split .
  qed
qed

lemma wrapping_shr_val: "u256_val (wrapping_shr x k) = u256_val x div 2 ^ (k mod 256)"
proof -
  define B :: nat where "B = 2 ^ 128"
  define s where "s = k mod 256"
  define b where "b = s mod 128"
  have s: "s < 256" and b: "b < 128" by (simp_all add: s_def b_def)
  have v: "u256_val x = unat (u256_hi x) * B + unat (u256_lo x)" by (simp only: u256_val_def B_def)
  show ?thesis
  proof (cases "s \<ge> 128")
    case True
    then have sb: "s = 128 + b" using s by (simp add: b_def le_mod_geq)
    have "u256_val x div 2 ^ s = unat (u256_hi x) div 2 ^ b"
      by (simp only: sb power_add div_mult2_eq u256_val_div)
    moreover have "u256_val (wrapping_shr x k) = unat (drop_bit b (u256_hi x))"
      using True by (simp add: wrapping_shr_def u256_val_def and_ff_nat s_def [symmetric] b_def [symmetric])
    ultimately show ?thesis by (simp only: unat_drop_u128 s_def)
  next
    case False
    then have sb: "s = b" by (simp add: b_def)
    define S C where "S = (2::nat) ^ b" and "C = (2::nat) ^ (128 - b)"
    have SC: "B = C * S" using b by (simp add: B_def S_def C_def flip: power_add)
    have S0: "0 < S" "0 < C" by (simp_all add: S_def C_def)
    have l: "unat (u256_lo x) div S < C"
      using unat_u128_lt [of "u256_lo x"] SC B_def by (simp add: less_mult_imp_div_less)
    have hm: "unat (u256_hi x) * C mod B = (unat (u256_hi x) mod S) * C"
      unfolding SC mult.commute [of C S] by (rule mod_mult_mult2)
    have "(unat (u256_hi x) mod S) * C + unat (u256_lo x) div S < (unat (u256_hi x) mod S + 1) * C"
      using l by simp
    also have "\<dots> \<le> S * C" using S0 by (intro mult_le_mono1) (simp add: Suc_leI)
    finally have lt: "(unat (u256_hi x) mod S) * C + unat (u256_lo x) div S < B" by (simp add: SC mult.commute)
    have "u256_val x div S = unat (u256_hi x) * C + unat (u256_lo x) div S"
      using S0 by (simp add: v SC mult.assoc [symmetric])
    also have "unat (u256_hi x) * C = (unat (u256_hi x) div S) * B + (unat (u256_hi x) mod S) * C"
      by (metis SC add_mult_distrib div_mult_mod_eq mult.assoc mult.commute)
    finally have r: "u256_val x div S = (unat (u256_hi x) div S) * B + ((unat (u256_hi x) mod S) * C + unat (u256_lo x) div S)"
      by simp
    have h: "unat (if b > 0 then drop_bit b (u256_lo x) + push_bit (128 - b) (u256_hi x) else drop_bit b (u256_lo x))
        = (unat (u256_hi x) mod S) * C + unat (u256_lo x) div S"
    proof (cases "b > 0")
      case True
      have "unat (drop_bit b (u256_lo x) + push_bit (128 - b) (u256_hi x))
          = (unat (u256_lo x) div S + (unat (u256_hi x) mod S) * C) mod B"
        unfolding hm [symmetric] by (simp only: unat_add_u128 unat_push_u128 unat_drop_u128 S_def C_def B_def)
      then show ?thesis using True lt by (simp add: add.commute)
    next
      case False
      then show ?thesis by (simp add: S_def)
    qed
    have "u256_val (wrapping_shr x k) = unat (drop_bit b (u256_hi x)) * B
        + unat (if b > 0 then drop_bit b (u256_lo x) + push_bit (128 - b) (u256_hi x) else drop_bit b (u256_lo x))"
      using False by (simp add: wrapping_shr_def u256_val_def and_ff_nat s_def [symmetric] b_def [symmetric] B_def)
    also have "\<dots> = u256_val x div S" unfolding h r by (simp only: unat_drop_u128 S_def)
    finally show ?thesis by (simp add: S_def s_def [symmetric] sb)
  qed
qed

fun words_val :: "u64 list \<Rightarrow> nat" where
  "words_val [] = 0"
| "words_val (w # ws) = unat w + 2 ^ 64 * words_val ws"

lemma unat_u64_lt: "unat (w :: u64) < 2 ^ 64"
  using unsigned_less [of w] by simp

lemma unat_ucast_64_128: "unat (ucast (w :: u64) :: u128) = unat w"
  using unat_u64_lt [of w] by (simp add: unsigned_ucast_eq take_bit_eq_mod)

lemma unat_ucast_128_64: "unat (ucast (w :: u128) :: u64) = unat w mod 2 ^ 64"
  by (simp add: unsigned_ucast_eq take_bit_eq_mod)

lemma mul_step:
  fixes carry :: u128 and a b :: u64
  assumes "unat carry < 2 ^ 64"
  shows "unat (carry + ucast a * ucast b) = unat carry + unat a * unat b"
    and "unat (drop_bit 64 (carry + ucast a * ucast b)) < 2 ^ 64"
proof -
  have ab: "unat a * unat b \<le> (2 ^ 64 - 1) * (2 ^ 64 - 1)"
    using unat_u64_lt [of a] unat_u64_lt [of b] by (intro mult_le_mono) simp_all
  then have 1: "unat carry + unat a * unat b < 2 ^ 128" and 2: "unat a * unat b < 2 ^ 128"
    using assms by simp_all
  have m: "unat (ucast a * ucast b :: u128) = unat a * unat b"
    using 2 by (simp add: unat_word_ariths unat_ucast_64_128)
  show s: "unat (carry + ucast a * ucast b) = unat carry + unat a * unat b"
    using 1 unfolding unat_add_u128 m by simp
  show "unat (drop_bit 64 (carry + ucast a * ucast b)) < 2 ^ 64"
    unfolding unat_drop_u128 s using 1 by (intro less_mult_imp_div_less) simp
qed

lemma mul_words_val:
  "unat carry < 2 ^ 64 \<Longrightarrow> mul_words rhs carry ws = (ws', carry') \<Longrightarrow>
   length ws' = length ws \<and>
   words_val ws' + 2 ^ (64 * length ws) * unat carry' = unat rhs * words_val ws + unat carry"
proof (induction rhs carry ws arbitrary: ws' carry' rule: mul_words.induct)
  case (1 rhs carry)
  then show ?case by auto
next
  case (2 rhs carry w ws)
  define n where "n = carry + ucast rhs * ucast w"
  obtain vs c where mw: "mul_words rhs (drop_bit 64 n) ws = (vs, c)" by fastforce
  have res: "ws' = ucast n # vs" "carry' = c"
    using "2.prems"(2) mw by (auto simp: Let_def n_def)
  have nv: "unat n = unat carry + unat rhs * unat w" and nd: "unat (drop_bit 64 n) < 2 ^ 64"
    using mul_step [OF "2.prems"(1)] unfolding n_def by blast+
  have ih: "length vs = length ws \<and> words_val vs + 2 ^ (64 * length ws) * unat c
      = unat rhs * words_val ws + unat (drop_bit 64 n)"
    using "2.IH" [OF n_def] nd mw by blast
  have "2 ^ 64 * words_val vs + 2 ^ (64 + 64 * length ws) * unat c
     = 2 ^ 64 * (unat rhs * words_val ws + unat n div 2 ^ 64)"
    using ih by (simp only: power_add unat_drop_u128 [symmetric] ih [THEN conjunct2, symmetric] distrib_left mult.assoc)
  moreover have "unat n mod 2 ^ 64 + 2 ^ 64 * (unat n div 2 ^ 64) = unat n" by simp
  ultimately have "unat n mod 2 ^ 64 + (2 ^ 64 * words_val vs + 2 ^ (64 + 64 * length ws) * unat c)
     = unat n + 2 ^ 64 * (unat rhs * words_val ws)"
    by (simp only: distrib_left)
  then show ?case using ih unfolding res
    by (simp add: unat_ucast_128_64 nv algebra_simps)
qed

lemma or_join:
  "unat (ucast (a :: u64) OR push_bit 64 (ucast (b :: u64)) :: u128) = unat a + 2 ^ 64 * unat b"
proof -
  have "(ucast a OR push_bit 64 (ucast b) :: u128) = ucast a + push_bit 64 (ucast b)"
    by (rule disjunctive_add [symmetric]) (auto simp: bit_simps dest: bit_imp_le_length)
  moreover have "unat a + unat b * 2 ^ 64 < 2 ^ 128"
    using unat_u64_lt [of a] unat_u64_lt [of b] by simp
  ultimately show ?thesis
    by (simp add: unat_add_u128 unat_push_u128 unat_ucast_64_128)
qed

lemma mul_u64_val:
  "u256_val (fst (mul_u64 x r)) = u256_val x * unat r mod 2 ^ 256"
  "snd (mul_u64 x r) \<longleftrightarrow> 2 ^ 256 \<le> u256_val x * unat r"
proof -
  define sp where "sp = [ucast (u256_lo x), ucast (drop_bit 64 (u256_lo x)), ucast (u256_hi x), ucast (drop_bit 64 (u256_hi x)) :: u64]"
  obtain ws c where mw: "mul_words r 0 sp = (ws, c)" by fastforce
  have half: "unat (ucast w :: u64) + 2 ^ 64 * unat (ucast (drop_bit 64 w) :: u64) = unat w" for w :: u128
    using unat_u128_lt [of w] by (simp add: unat_ucast_128_64 unat_drop_u128 less_mult_imp_div_less)
  have "words_val sp = (unat (ucast (u256_lo x) :: u64) + 2 ^ 64 * unat (ucast (drop_bit 64 (u256_lo x)) :: u64))
      + 2 ^ 128 * (unat (ucast (u256_hi x) :: u64) + 2 ^ 64 * unat (ucast (drop_bit 64 (u256_hi x)) :: u64))"
    by (simp add: sp_def)
  then have spv: "words_val sp = u256_val x" unfolding half by (simp add: u256_val_def)
  have m: "length ws = 4" "words_val ws + 2 ^ 256 * unat c = unat r * u256_val x"
    using mul_words_val [OF _ mw] by (simp_all add: sp_def [symmetric] spv) (simp_all add: sp_def)
  obtain a b d e where ws: "ws = [a, b, d, e]"
    using m(1) by (auto simp: numeral_eq_Suc length_Suc_conv)
  have f: "fst (mul_u64 x r) = U256 (ucast d OR push_bit 64 (ucast e)) (ucast a OR push_bit 64 (ucast b))"
    and g: "snd (mul_u64 x r) \<longleftrightarrow> c \<noteq> 0"
    using mw by (simp_all add: mul_u64_def sp_def ws)
  have "u256_val (fst (mul_u64 x r)) = words_val ws"
    by (simp add: f u256_val_def or_join ws)
  then have v: "u256_val (fst (mul_u64 x r)) + 2 ^ 256 * unat c = u256_val x * unat r"
    using m(2) by (simp add: mult.commute)
  have l: "u256_val (fst (mul_u64 x r)) < 2 ^ 256" by (rule u256_val_lt)
  show "u256_val (fst (mul_u64 x r)) = u256_val x * unat r mod 2 ^ 256"
    unfolding v [symmetric] using l by simp
  show "snd (mul_u64 x r) \<longleftrightarrow> 2 ^ 256 \<le> u256_val x * unat r"
  proof (cases "c = 0")
    case True
    then show ?thesis unfolding g v [symmetric] using l by simp
  next
    case False
    then have "1 \<le> unat c" by (simp add: Suc_le_eq unat_gt_0)
    then have "2 ^ 256 * 1 \<le> 2 ^ 256 * unat c" by (rule mult_le_mono2)
    then show ?thesis unfolding g v [symmetric] using False by (simp add: trans_le_add2)
  qed
qed

lemma mul_limb_val:
  assumes "i < 4"
  shows "unat (low_u64 (wrapping_shr y (64 * i))) = u256_val y div 2 ^ (64 * i) mod 2 ^ 64"
  using assms by (simp only: unat_low_u64 wrapping_shr_val) simp

lemma mul_loop_val:
  "(\<forall>i\<in>set is. i < 4) \<Longrightarrow> u256_val (mul_loop x y is ret) =
     (u256_val ret + u256_val x * (\<Sum>i\<leftarrow>is. (u256_val y div 2 ^ (64 * i) mod 2 ^ 64) * 2 ^ (64 * i))) mod 2 ^ 256"
proof (induction "is" arbitrary: ret)
  case Nil
  then show ?case using u256_val_lt [of ret] by simp
next
  case (Cons i "is")
  define M where "M = (2::nat) ^ 256"
  define a where "a = (u256_val y div 2 ^ (64 * i) mod 2 ^ 64)"
  define S where "S = (\<Sum>i\<leftarrow>is. (u256_val y div 2 ^ (64 * i) mod 2 ^ 64) * 2 ^ (64 * i))"
  have i: "i < 4" using Cons.prems by simp
  have sh: "(64 * i) mod 256 = 64 * i" using i by simp
  have lp: "mul_loop x y (i # is) ret = mul_loop x y is (wrapping_add ret
      (wrapping_shl (fst (mul_u64 x (low_u64 (wrapping_shr y (64 * i))))) (64 * i)))"
    by (simp add: Let_def split: prod.split)
  have step: "u256_val (wrapping_add ret (wrapping_shl (fst (mul_u64 x (low_u64 (wrapping_shr y (64 * i))))) (64 * i)))
     = (u256_val ret + u256_val x * a * 2 ^ (64 * i)) mod M"
    by (simp only: wrapping_add_val wrapping_shl_val mul_u64_val mul_limb_val [OF i] a_def [symmetric] M_def [symmetric] sh)
      (simp only: mod_mult_left_eq mod_add_right_eq)
  have ih: "u256_val (mul_loop x y is R) = (u256_val R + u256_val x * S) mod M" for R
    using Cons unfolding S_def M_def by simp
  have "u256_val (mul_loop x y (i # is) ret) = ((u256_val ret + u256_val x * a * 2 ^ (64 * i)) mod M + u256_val x * S) mod M"
    unfolding lp ih step ..
  also have "\<dots> = (u256_val ret + (u256_val x * a * 2 ^ (64 * i) + u256_val x * S)) mod M"
    by (simp only: mod_add_left_eq add.assoc)
  also have "u256_val x * a * 2 ^ (64 * i) + u256_val x * S
      = u256_val x * (\<Sum>i\<leftarrow>i # is. (u256_val y div 2 ^ (64 * i) mod 2 ^ 64) * 2 ^ (64 * i))"
    by (simp add: S_def a_def algebra_simps)
  finally show ?case by (simp only: M_def)
qed

lemma low_limbs: "(\<Sum>i\<leftarrow>[0, 1, 2]. ((v::nat) div 2 ^ (64 * i) mod 2 ^ 64) * 2 ^ (64 * i)) = v mod 2 ^ 192"
proof -
  have "v mod 2 ^ 192 = v mod (2 ^ 64 * (2 ^ 64 * 2 ^ 64))" by simp
  also have "\<dots> = 2 ^ 64 * (2 ^ 64 * (v div 2 ^ 64 div 2 ^ 64 mod 2 ^ 64) + v div 2 ^ 64 mod 2 ^ 64) + v mod 2 ^ 64"
    by (simp only: mod_mult2_eq)
  finally show ?thesis by (simp add: div_mult2_eq [symmetric] algebra_simps)
qed

lemma overflowing_mul_val:
  "u256_val (fst (overflowing_mul x y)) =
     u256_val x * (u256_val y mod 2 ^ 192 + u256_val y div 2 ^ 192) mod 2 ^ 256"
proof -
  define M where "M = (2::nat) ^ 256"
  have limb: "unat (low_u64 (wrapping_shr y 192)) = u256_val y div 2 ^ 192"
  proof -
    have "u256_val y div 2 ^ 192 < 2 ^ 64"
      using u256_val_lt [of y] by (intro less_mult_imp_div_less) simp
    then show ?thesis using mul_limb_val [of 3 y] by simp
  qed
  have f: "fst (overflowing_mul x y) = fst (overflowing_add (mul_loop x y [0, 1, 2] u256_ZERO)
      (fst (mul_u64 x (low_u64 (wrapping_shr y 192)))))"
    by (simp only: overflowing_mul_def Let_def case_prod_beta fst_conv)
  have l: "u256_val (mul_loop x y [0, 1, 2] u256_ZERO) = u256_val x * (u256_val y mod 2 ^ 192) mod M"
    using mul_loop_val [of "[0,1,2]" x y u256_ZERO] unfolding low_limbs M_def by simp
  have "u256_val (fst (overflowing_mul x y)) =
      (u256_val x * (u256_val y mod 2 ^ 192) mod M + u256_val x * (u256_val y div 2 ^ 192) mod M) mod M"
    unfolding f overflowing_add_val l mul_u64_val limb M_def ..
  then show ?thesis by (simp only: mod_add_eq distrib_left M_def)
qed

lemma overflowing_mul_flag:
  "u256_val y < 2 ^ 192 \<Longrightarrow> \<not> snd (overflowing_mul x y)"
proof -
  assume y: "u256_val y < 2 ^ 192"
  have z: "low_u64 (wrapping_shr y 192) = 0"
    using mul_limb_val [of 3 y] y by (simp add: unat_eq_zero [symmetric])
  have s: "snd (overflowing_mul x y) \<longleftrightarrow> snd (mul_u64 x 0) \<or>
      snd (overflowing_add (mul_loop x y [0, 1, 2] u256_ZERO) (fst (mul_u64 x 0)))"
    by (simp only: overflowing_mul_def Let_def case_prod_beta snd_conv z)
  show ?thesis unfolding s mul_u64_val overflowing_add_val
    using u256_val_lt [of "mul_loop x y [0, 1, 2] u256_ZERO"] by simp
qed

text \<open>The three operators inside the range of \<open>U256\<close>, whatever the build.\<close>

lemma debug_no_overflow_Some: "\<not> snd r \<Longrightarrow> debug_no_overflow da r = Some (fst r)"
  by (simp add: debug_no_overflow_def split_beta)

lemma u256_add_in:
  assumes "u256_val x + u256_val y < 2 ^ 256"
  shows "\<exists>r. u256_add da x y = Some r \<and> u256_val r = u256_val x + u256_val y"
proof -
  have "\<not> snd (overflowing_add x y)" unfolding overflowing_add_val(2) using assms by (simp only: not_le)
  then show ?thesis using assms
    by (simp only: u256_add_def debug_no_overflow_Some overflowing_add_val(1) mod_less option.inject ex_simps simp_thms)
qed

lemma u256_sub_in:
  assumes "u256_val y \<le> u256_val x"
  shows "\<exists>r. u256_sub da x y = Some r \<and> u256_val r = u256_val x - u256_val y"
proof -
  have "\<not> snd (overflowing_sub x y)" unfolding overflowing_sub_val(2) using assms by (simp only: not_less)
  moreover have "(u256_val x + 2 ^ 256 - u256_val y) mod 2 ^ 256 = u256_val x - u256_val y"
  proof -
    have "u256_val x + 2 ^ 256 - u256_val y = (u256_val x - u256_val y) + 2 ^ 256" using assms by linarith
    moreover have "u256_val x - u256_val y < 2 ^ 256" using u256_val_lt [of x] by linarith
    ultimately show ?thesis by (simp only: mod_add_self2 mod_less)
  qed
  ultimately show ?thesis
    by (simp only: u256_sub_def debug_no_overflow_Some overflowing_sub_val(1) option.inject ex_simps simp_thms)
qed

lemma u256_mul_in:
  assumes "u256_val y < 2 ^ 192" and "u256_val x * u256_val y < 2 ^ 256"
  shows "\<exists>r. u256_mul da x y = Some r \<and> u256_val r = u256_val x * u256_val y"
  using overflowing_mul_flag [OF assms(1), of x] assms
  by (simp only: u256_mul_def debug_no_overflow_Some overflowing_mul_val mod_less div_less add_0_right
      option.inject ex_simps simp_thms)

section \<open>Long division\<close>

lemma unat_or_bit:
  assumes "k < 128" and "2 ^ Suc k dvd unat (w :: u128)"
  shows "unat (w OR push_bit k 1) = unat w + 2 ^ k"
proof -
  have nb: "\<not> bit (unat w) k"
  proof -
    obtain c where "unat w = 2 ^ k * (2 * c)" using assms(2) by (auto simp: dvd_def mult.assoc)
    then show ?thesis by (simp add: bit_iff_odd)
  qed
  have "unat (w OR push_bit k 1) = unat w OR unat (push_bit k (1 :: u128))"
    by (simp add: unsigned_or_eq)
  also have "unat (push_bit k (1 :: u128)) = 2 ^ k"
  proof -
    have "(2::nat) ^ k < 2 ^ 128" using assms(1) by (intro power_strict_increasing) simp_all
    then have "(2::nat) ^ k mod 2 ^ 128 = 2 ^ k" by (rule mod_less)
    then show ?thesis by (simp only: unat_push_u128 unsigned_1 mult_1)
  qed
  also have "unat w OR 2 ^ k = unat w + 2 ^ k"
    by (rule disjunctive_add [symmetric]) (use nb in \<open>auto simp: bit_simps bit_exp_iff\<close>)
  finally show ?thesis .
qed

definition quot_val :: "u128 \<times> u128 \<Rightarrow> nat" where
  "quot_val ret = u256_val (U256 (fst ret) (snd ret))"

lemma set_quot_bit_val:
  assumes "s < 256" and "2 ^ Suc s dvd quot_val ret"
  shows "quot_val (set_quot_bit s ret) = quot_val ret + 2 ^ s"
proof -
  obtain h l where ret: "ret = (h, l)" by fastforce
  have q: "quot_val ret = unat h * 2 ^ 128 + unat l" by (simp add: quot_val_def u256_val_def ret)
  show ?thesis
  proof (cases "s < 128")
    case True
    have "(2::nat) ^ Suc s dvd 2 ^ 128" using True by (intro le_imp_power_dvd) simp
    then have "2 ^ Suc s dvd unat h * 2 ^ 128" by (rule dvd_mult)
    then have "2 ^ Suc s dvd unat l" using assms(2) unfolding q by (simp only: dvd_add_right_iff)
    then have "unat (l OR push_bit s 1) = unat l + 2 ^ s" using True by (intro unat_or_bit)
    then show ?thesis using True by (simp add: quot_val_def u256_val_def set_quot_bit_def ret)
  next
    case False
    define k where "k = s - 128"
    have k: "s = 128 + k" "k < 128" using False assms(1) by (simp_all add: k_def)
    have d: "(2::nat) ^ Suc s = 2 ^ 128 * 2 ^ Suc k" by (simp only: k(1) power_add [symmetric] add_Suc_right)
    have "2 ^ 128 dvd quot_val ret" using assms(2) unfolding d by (rule dvd_mult_left)
    then have "2 ^ 128 dvd unat l" unfolding q by (simp only: dvd_add_right_iff dvd_triv_right)
    then have l0: "unat l = 0" using unat_u128_lt [of l] by (meson gr0I nat_dvd_not_less)
    have "2 ^ 128 * 2 ^ Suc k dvd 2 ^ 128 * unat h"
      using assms(2) unfolding d q l0 by (simp only: mult.commute add_0_right)
    then have "2 ^ Suc k dvd unat h" by (simp only: nat_mult_dvd_cancel1 zero_less_power zero_less_numeral)
    then have "unat (h OR push_bit k 1) = unat h + 2 ^ k" using k by (intro unat_or_bit)
    moreover have "s mod 128 = k" "1 - s div 128 = 0" using k by simp_all
    ultimately show ?thesis
      by (simp add: quot_val_def u256_val_def set_quot_bit_def ret k(1) power_add algebra_simps)
  qed
qed

lemma div_loop_val:
  assumes "div_loop s sub sc ret = (ret', sub')"
    and "u256_val sc = r * 2 ^ s" and "u256_val sub < r * 2 ^ Suc s"
    and "2 ^ Suc s dvd quot_val ret" and "s < 256" and "0 < r"
  shows "quot_val ret' * r + u256_val sub' = quot_val ret * r + u256_val sub \<and> u256_val sub' < r"
  using assms(1-5)
proof (induction s arbitrary: sub sc ret)
  case 0
  have v: "u256_val sc = r" using "0.prems"(2) by simp
  show ?case
  proof (cases "sc \<le> sub")
    case True
    then have e: "ret' = set_quot_bit 0 ret" "sub' = wrapping_sub sub sc"
      using "0.prems"(1) by (simp_all add: div_loop.simps)
    have le: "r \<le> u256_val sub" using True v by (simp add: val_le_iff [symmetric])
    have "quot_val ret' = quot_val ret + 1"
      unfolding e using set_quot_bit_val [of 0 ret] "0.prems"(4) by simp
    moreover have "u256_val sub' = u256_val sub - r" unfolding e using wrapping_sub_val [OF True] v by simp
    ultimately show ?thesis using le "0.prems"(3) by (simp add: algebra_simps)
  next
    case False
    then have "ret' = ret" "sub' = sub" using "0.prems"(1) by (simp_all add: div_loop.simps)
    then show ?thesis using False v by (simp add: val_le_iff [symmetric])
  qed
next
  case (Suc s)
  define sc1 where "sc1 = wrapping_shr sc 1"
  have v1: "u256_val sc1 = r * 2 ^ s"
    using Suc.prems(2) by (simp add: sc1_def wrapping_shr_val)
  have s: "s < 256" using Suc.prems(5) by simp
  show ?case
  proof (cases "sc \<le> sub")
    case True
    define ret1 sub1 where "ret1 = set_quot_bit (Suc s) ret" and "sub1 = wrapping_sub sub sc"
    have le: "r * 2 ^ Suc s \<le> u256_val sub" using True Suc.prems(2) by (simp only: val_le_iff [symmetric])
    have q1: "quot_val ret1 = quot_val ret + 2 ^ Suc s"
      unfolding ret1_def using Suc.prems(4,5) by (intro set_quot_bit_val)
    have w1: "u256_val sub1 = u256_val sub - r * 2 ^ Suc s"
      unfolding sub1_def using wrapping_sub_val [OF True] Suc.prems(2) by simp
    have step: "div_loop s sub1 sc1 ret1 = (ret', sub')"
      using Suc.prems(1) True by (simp add: div_loop.simps [of "Suc s"] ret1_def sub1_def sc1_def)
    have lt: "u256_val sub1 < r * 2 ^ Suc s" using w1 Suc.prems(3) le by simp
    have dv: "2 ^ Suc s dvd quot_val ret1"
      unfolding q1 using Suc.prems(4) by (simp add: dvd_trans [OF le_imp_power_dvd [of "Suc s" "Suc (Suc s)"]] del: power_Suc)
    have "quot_val ret' * r + u256_val sub' = quot_val ret1 * r + u256_val sub1 \<and> u256_val sub' < r"
      by (rule Suc.IH [OF step v1 lt dv s])
    then show ?thesis unfolding q1 w1 using le by (simp add: algebra_simps)
  next
    case False
    have step: "div_loop s sub sc1 ret = (ret', sub')"
      using Suc.prems(1) False by (simp add: div_loop.simps [of "Suc s"] sc1_def)
    have lt: "u256_val sub < r * 2 ^ Suc s"
      using False Suc.prems(2) by (simp only: val_less_iff [symmetric] not_le)
    have dv: "2 ^ Suc s dvd quot_val ret"
      using Suc.prems(4) by (rule dvd_trans [OF le_imp_power_dvd, rotated]) simp
    show ?thesis by (rule Suc.IH [OF step v1 lt dv s])
  qed
qed

lemma div_rem_None: "div_rem x y = None \<longleftrightarrow> u256_val y = 0"
proof -
  have "bit_length n = 0 \<longleftrightarrow> n = 0" for n
    using bit_length_le_iff [of n 0] by simp
  then show ?thesis by (simp add: div_rem_def u256_bits_eq Let_def split: prod.split)
qed

lemma div_rem_Some:
  assumes "u256_val y \<noteq> 0"
  obtains q r where "div_rem x y = Some (q, r)"
    and "u256_val q = u256_val x div u256_val y" and "u256_val r = u256_val x mod u256_val y"
proof -
  define m n where "m = bit_length (u256_val x)" and "n = bit_length (u256_val y)"
  have y0: "0 < u256_val y" using assms by simp
  have n0: "n \<noteq> 0" using assms bit_length_le_iff [of "u256_val y" 0] by (auto simp: n_def)
  have m: "m \<le> 256" unfolding m_def using u256_val_lt [of x] by (simp only: bit_length_le_iff)
  show ?thesis
  proof (cases "m < n")
    case True
    then have "bit_length (u256_val x) \<le> n - 1" using n0 by (simp add: m_def)
    then have "u256_val x < 2 ^ (n - 1)" by (simp only: bit_length_le_iff)
    then have "u256_val x < u256_val y"
      using bit_length_lower [OF y0] unfolding n_def by linarith
    moreover have "div_rem x y = Some (u256_ZERO, x)"
      using True n0 by (simp add: div_rem_def u256_bits_eq m_def n_def)
    ultimately show ?thesis by (intro that [of u256_ZERO x]) simp_all
  next
    case False
    define s where "s = m - n"
    obtain ret sub where dl: "div_loop s x (wrapping_shl y s) (0, 0) = (ret, sub)" by fastforce
    have s: "s < 256" using m n0 by (simp add: s_def)
    have "bit_length (u256_val y * 2 ^ s) = m"
      using bit_length_mult_pow [OF y0, of s] False by (simp add: s_def n_def)
    then have "u256_val y * 2 ^ s < 2 ^ 256" using m by (simp only: bit_length_le_iff [symmetric])
    then have sc: "u256_val (wrapping_shl y s) = u256_val y * 2 ^ s"
      using s by (simp add: wrapping_shl_val)
    have "2 ^ (n - 1) * 2 ^ Suc s \<le> u256_val y * 2 ^ Suc s"
      using bit_length_lower [OF y0] by (intro mult_le_mono1) (simp add: n_def)
    moreover have "(2::nat) ^ (n - 1) * 2 ^ Suc s = 2 ^ m"
      using n0 False by (simp add: s_def flip: power_add power_Suc)
    moreover have "u256_val x < 2 ^ m" unfolding m_def by (rule bit_length_upper)
    ultimately have lt: "u256_val x < u256_val y * 2 ^ Suc s" by linarith
    have z: "quot_val (0, 0) = 0" by (simp add: quot_val_def u256_val_def)
    have r: "quot_val ret * u256_val y + u256_val sub = u256_val x" "u256_val sub < u256_val y"
      using div_loop_val [OF dl sc lt _ s y0] by (simp_all add: z)
    have "div_rem x y = Some (U256 (fst ret) (snd ret), sub)"
      using False n0 dl by (simp add: div_rem_def u256_bits_eq m_def n_def s_def Let_def)
    moreover have "u256_val (U256 (fst ret) (snd ret)) = u256_val x div u256_val y"
      using r by (simp add: quot_val_def [symmetric] div_nat_eqI [symmetric])
         (metis add.commute div_mult_self3 div_less add_0_right less_nat_zero_code mult.commute r(2))
    moreover have "u256_val sub = u256_val x mod u256_val y"
      using r by (metis mod_less mod_mult_self3)
    ultimately show ?thesis using that by blast
  qed
qed

section \<open>Inverse, saturation and byte order\<close>

lemma u256_div_val:
  assumes "u256_val y \<noteq> 0"
  shows "\<exists>q. u256_div x y = Some q \<and> u256_val q = u256_val x div u256_val y"
  by (rule div_rem_Some [OF assms, of x]) (auto simp: u256_div_def)

lemma u256_rem_val:
  assumes "u256_val y \<noteq> 0"
  shows "\<exists>r. u256_rem x y = Some r \<and> u256_val r = u256_val x mod u256_val y"
  by (rule div_rem_Some [OF assms, of x]) (auto simp: u256_rem_def)

lemma u256_inverse_val:
  assumes "1 < u256_val x"
  shows "\<exists>q. u256_inverse x = Some q \<and> u256_val q = 2 ^ 256 div (u256_val x + 1)"
proof (cases "is_max x")
  case True
  then have v: "u256_val x + 1 = 2 ^ 256" by (simp add: is_max_iff)
  have "u256_inverse x = Some u256_ONE"
    using assms True by (simp add: u256_inverse_def is_zero_iff is_one_iff)
  then show ?thesis unfolding v by simp
next
  case False
  define M where "M = (2::nat) ^ 256"
  have lt: "u256_val x + 1 < M"
    using False u256_val_lt [of x] unfolding is_max_iff M_def by linarith
  have inc: "u256_val (wrapping_inc x) = u256_val x + 1"
    using lt by (simp only: wrapping_inc_val M_def [symmetric] mod_less)
  obtain q where q: "u256_div (u256_not x) (wrapping_inc x) = Some q"
    "u256_val q = (M - 1 - u256_val x) div (u256_val x + 1)"
    using u256_div_val [of "wrapping_inc x" "u256_not x"] unfolding inc u256_not_val M_def by auto
  have "M = (M - 1 - u256_val x) + (u256_val x + 1)" using lt by simp
  then have d: "M div (u256_val x + 1) = (M - 1 - u256_val x) div (u256_val x + 1) + 1"
    by (metis Suc_eq_plus1 add_is_0 div_add_self2 one_neq_zero)
  have "M div (u256_val x + 1) < M" using lt assms by (intro div_less_dividend) simp_all
  then have "u256_val (wrapping_inc q) = M div (u256_val x + 1)"
    unfolding wrapping_inc_val q(2) M_def [symmetric] d by (rule mod_less)
  moreover have "u256_inverse x = Some (wrapping_inc q)"
    using assms False q(1) by (simp add: u256_inverse_def is_zero_iff is_one_iff)
  ultimately show ?thesis by (simp only: M_def) simp
qed

lemma saturating_to_u128_val: "unat (saturating_to_u128 x) = min (u256_val x) (2 ^ 128 - 1)"
proof -
  have m: "unat (- 1 :: u128) = 2 ^ 128 - 1"
    by (simp add: unsigned_minus_1_eq_mask mask_eq_exp_minus_1)
  have g: "x > u256_from (- 1) \<longleftrightarrow> 2 ^ 128 - 1 < u256_val x"
    unfolding val_less_iff [symmetric] val_from m ..
  show ?thesis
  proof (cases "2 ^ 128 - 1 < u256_val x")
    case True
    then show ?thesis using m g by (simp add: saturating_to_u128_def)
  next
    case False
    then have "u256_val x < 2 ^ 128" by simp
    then have "unat (u256_lo x) = u256_val x" using u256_val_mod [of x] by (simp only: mod_less)
    then show ?thesis using False g by (simp add: saturating_to_u128_def low_u128_def)
  qed
qed

lemma split_in_half_append: "length a = 16 \<Longrightarrow> split_in_half (a @ b) = (a, b)"
  by (simp add: split_in_half_def)

lemma u256_from_to_le_bytes [simp]: "u256_from_le_bytes (u256_to_le_bytes x) = x"
  by (simp add: u256_from_le_bytes_def u256_to_le_bytes_def split_in_half_append)

lemma u256_from_to_be_bytes [simp]: "u256_from_be_bytes (u256_to_be_bytes x) = x"
  by (simp add: u256_from_be_bytes_def u256_to_be_bytes_def split_in_half_append from_to_be_bytes)

lemma u256_to_le_bytes_rev: "u256_to_be_bytes x = rev (u256_to_le_bytes x)"
  by (simp add: u256_to_be_bytes_def u256_to_le_bytes_def to_be_bytes_def)

lemma u256_from_le_bytes_val: "length bs = 32 \<Longrightarrow> u256_val (u256_from_le_bytes bs) = le_nat bs"
proof -
  assume l: "length bs = 32"
  have "le_nat bs = le_nat (take 16 bs @ drop 16 bs)" by simp
  also have "\<dots> = le_nat (take 16 bs) + 256 ^ 16 * le_nat (drop 16 bs)"
    using l by (simp only: le_nat_append) simp
  finally show ?thesis using l
    by (simp add: u256_from_le_bytes_def split_in_half_def u256_val_def unat_from_le_bytes)
qed

lemma u256_to_from_le_bytes: "length bs = 32 \<Longrightarrow> u256_to_le_bytes (u256_from_le_bytes bs) = bs"
  by (simp add: u256_from_le_bytes_def u256_to_le_bytes_def split_in_half_def to_from_le_bytes)

lemma length_u256_to_le_bytes [simp]: "length (u256_to_le_bytes x) = 32"
  by (simp add: u256_to_le_bytes_def)

section \<open>Decimal display is the base-10 reading\<close>

text \<open>The reference: the ASCII digits of a natural number, most significant first.\<close>

fun decimal_digits :: "nat \<Rightarrow> bytes" where
  "decimal_digits n =
     (if n < 10 then [word_of_nat (48 + n)] else decimal_digits (n div 10) @ [word_of_nat (48 + n mod 10)])"

declare decimal_digits.simps [simp del]

definition decimal_value :: "bytes \<Rightarrow> nat" where
  "decimal_value ds = foldl (\<lambda>n d. 10 * n + (unat d - 48)) 0 ds"

lemma unat_digit: "d < 10 \<Longrightarrow> unat (word_of_nat (48 + d) :: u8) = 48 + d"
  by (simp only: unat_of_nat_u8) simp

lemma decimal_value_digits: "decimal_value (decimal_digits n) = n"
proof (induction n rule: decimal_digits.induct)
  case (1 n)
  show ?case
  proof (cases "n < 10")
    case True
    then show ?thesis
      using unat_digit [of n] by (simp add: decimal_digits.simps [of n] decimal_value_def)
  next
    case False
    then have "decimal_value (decimal_digits n) = 10 * (n div 10) + n mod 10"
      using 1 unat_digit [of "n mod 10"] by (simp add: decimal_digits.simps [of n] decimal_value_def)
    then show ?thesis by simp
  qed
qed

lemma decimal_digits_range: "d \<in> set (decimal_digits n) \<Longrightarrow> 48 \<le> unat d \<and> unat d \<le> 57"
proof (induction n rule: decimal_digits.induct)
  case (1 n)
  show ?case
  proof (cases "n < 10")
    case True
    then show ?thesis using 1 unat_digit [of n] by (simp add: decimal_digits.simps [of n])
  next
    case False
    then show ?thesis
      using 1 unat_digit [of "n mod 10"] by (auto simp: decimal_digits.simps [of n])
  qed
qed

lemma digit_byte:
  "u256_val r < 10 \<Longrightarrow> ucast (low_u128 r) + 48 = (word_of_nat (48 + u256_val r) :: u8)"
proof -
  assume "u256_val r < 10"
  then have "u256_val r < 2 ^ 128" by simp
  then have "unat (u256_lo r) = u256_val r" using u256_val_mod [of r] by (simp only: mod_less)
  then have "ucast (low_u128 r) = (word_of_nat (u256_val r) :: u8)"
    by (simp add: low_u128_def word_unat_eq_iff unsigned_ucast_eq take_bit_eq_mod unat_of_nat)
  then show ?thesis by simp
qed

lemma fmt_decimal_loop_digits:
  assumes "i < length buf" and "u256_val cur < 10 ^ Suc i"
  shows "\<exists>j buf'. fmt_decimal_loop i buf cur = Some (j, buf') \<and>
    drop j buf' = decimal_digits (u256_val cur) @ drop (Suc i) buf"
  using assms
proof (induction i arbitrary: buf cur)
  case 0
  obtain r q where rq: "u256_rem cur (U256 0 10) = Some r" "u256_val r = u256_val cur mod 10"
    "u256_div cur (U256 0 10) = Some q" "u256_val q = u256_val cur div 10"
    using u256_rem_val [of "U256 0 10" cur] u256_div_val [of "U256 0 10" cur]
    by (auto simp: u256_val_def)
  show ?case using 0 rq digit_byte [of r]
    by (simp add: fmt_decimal_loop.simps [of 0] Let_def is_zero_iff decimal_digits.simps [of "u256_val cur"])
       (cases buf; simp)
next
  case (Suc i)
  obtain r q where rq: "u256_rem cur (U256 0 10) = Some r" "u256_val r = u256_val cur mod 10"
    "u256_div cur (U256 0 10) = Some q" "u256_val q = u256_val cur div 10"
    using u256_rem_val [of "U256 0 10" cur] u256_div_val [of "U256 0 10" cur]
    by (auto simp: u256_val_def)
  define d where "d = (word_of_nat (48 + u256_val cur mod 10) :: u8)"
  have d: "ucast (low_u128 r) + 48 = d" using digit_byte [of r] rq(2) unfolding d_def by simp
  define buf1 where "buf1 = buf[Suc i := d]"
  have dr: "drop (Suc i) buf1 = d # drop (Suc (Suc i)) buf"
    using Suc.prems(1) by (simp add: buf1_def drop_update_swap Cons_nth_drop_Suc [symmetric] upd_conv_take_nth_drop)
  have step: "fmt_decimal_loop (Suc i) buf cur =
      (if is_zero q then Some (Suc i, buf1) else fmt_decimal_loop i buf1 q)"
    using rq d by (simp add: fmt_decimal_loop.simps [of "Suc i"] Let_def buf1_def)
  show ?case
  proof (cases "u256_val cur < 10")
    case True
    then have "decimal_digits (u256_val cur) = [d]" by (simp add: decimal_digits.simps [of "u256_val cur"] d_def)
    then show ?thesis using True step dr rq(4) by (simp add: is_zero_iff)
  next
    case False
    have lt: "u256_val q < 10 ^ Suc i" using Suc.prems(2) rq(4) by (simp add: less_mult_imp_div_less)
    have "i < length buf1" using Suc.prems(1) by (simp add: buf1_def)
    then obtain j b where "fmt_decimal_loop i buf1 q = Some (j, b)"
      "drop j b = decimal_digits (u256_val q) @ drop (Suc i) buf1"
      using Suc.IH [OF _ lt] by blast
    moreover have "decimal_digits (u256_val cur) = decimal_digits (u256_val q) @ [d]"
      using False by (simp add: decimal_digits.simps [of "u256_val cur"] d_def rq(4))
    ultimately show ?thesis using False step dr rq(4) by (simp add: is_zero_iff)
  qed
qed

lemma u256_display_digits: "u256_display x = Some (decimal_digits (u256_val x))"
proof (cases "is_zero x")
  case True
  then show ?thesis by (simp add: u256_display_def is_zero_iff decimal_digits.simps)
next
  case False
  have "u256_val x < 10 ^ Suc 77" using u256_val_lt [of x] by simp
  then have "\<exists>j b. fmt_decimal_loop 77 (replicate 78 0) x = Some (j, b) \<and> drop j b = decimal_digits (u256_val x)"
    using fmt_decimal_loop_digits [of 77 "replicate 78 0" x] by simp
  then show ?thesis using False by (auto simp: u256_display_def fmt_decimal_def)
qed

section \<open>Properties\<close>

text \<open>Addition, subtraction, complement, increment and the shifts of \<open>U256\<close>, written with carries
  between two \<open>u128\<close> halves, are arithmetic modulo \<open>2 ^ 256\<close> on the value, and the overflow flags of
  addition and subtraction are exact.\<close>

theorem u256_ring_operations:
  "u256_val (fst (overflowing_add x y)) = (u256_val x + u256_val y) mod 2 ^ 256 \<and>
   (snd (overflowing_add x y) \<longleftrightarrow> 2 ^ 256 \<le> u256_val x + u256_val y) \<and>
   u256_val (fst (overflowing_sub x y)) = (u256_val x + 2 ^ 256 - u256_val y) mod 2 ^ 256 \<and>
   (snd (overflowing_sub x y) \<longleftrightarrow> u256_val x < u256_val y) \<and>
   u256_val (u256_not x) = 2 ^ 256 - 1 - u256_val x \<and>
   u256_val (wrapping_inc x) = (u256_val x + 1) mod 2 ^ 256 \<and>
   u256_val (wrapping_shl x k) = u256_val x * 2 ^ (k mod 256) mod 2 ^ 256 \<and>
   u256_val (wrapping_shr x k) = u256_val x div 2 ^ (k mod 256)"
  by (intro conjI) (simp_all only: overflowing_add_val overflowing_sub_val u256_not_val wrapping_inc_val
      wrapping_shl_val wrapping_shr_val)

text \<open>(C36) The shift-and-subtract long division of \<open>U256\<close> returns quotient and remainder of the values
  for every divisor but zero, and fails exactly on a zero divisor.\<close>

theorem u256_div_rem_correct:
  "map_option (\<lambda>(q, r). (u256_val q, u256_val r)) (div_rem x y) =
     (if u256_val y = 0 then None else Some (u256_val x div u256_val y, u256_val x mod u256_val y))"
proof (cases "u256_val y = 0")
  case True
  then have "div_rem x y = None" by (simp only: div_rem_None)
  then show ?thesis using True by simp
next
  case False
  from False obtain q r where "div_rem x y = Some (q, r)"
    "u256_val q = u256_val x div u256_val y" "u256_val r = u256_val x mod u256_val y"
    by (rule div_rem_Some [of y x])
  then show ?thesis using False by simp
qed

text \<open>\<open>U256\<close> multiplication for every pair of operands: the code adds the product with the top 64-bit
  limb of the right operand unshifted, so the result is the product modulo \<open>2 ^ 256\<close> when the right operand
  is below \<open>2 ^ 192\<close> (as in every call of the retargeting code), and not in general.\<close>

theorem u256_mul_value:
  "u256_val (fst (overflowing_mul x y)) =
     u256_val x * (u256_val y mod 2 ^ 192 + u256_val y div 2 ^ 192) mod 2 ^ 256"
  by (rule overflowing_mul_val)

text \<open>Two consequences for \<open>overflowing_mul\<close>: one times \<open>2 ^ 192\<close> gives one, and the overflow flag of
  \<open>MAX * 2\<close> is false although the product does not fit.\<close>

theorem u256_mul_high_limb_misplaced:
  "fst (overflowing_mul u256_ONE (U256 (2 ^ 64) 0)) = u256_ONE \<and>
   \<not> snd (overflowing_mul u256_MAX (U256 0 2)) \<and> 2 ^ 256 \<le> u256_val u256_MAX * u256_val (U256 0 2)"
proof (intro conjI)
  have v: "u256_val (U256 (2 ^ 64) 0) = 2 ^ 192" by (simp add: u256_val_def)
  have "u256_val (fst (overflowing_mul u256_ONE (U256 (2 ^ 64) 0))) = u256_val u256_ONE"
    unfolding overflowing_mul_val v by simp
  then show "fst (overflowing_mul u256_ONE (U256 (2 ^ 64) 0)) = u256_ONE" by (simp only: u256_val_inj)
  show "\<not> snd (overflowing_mul u256_MAX (U256 0 2))"
    by (rule overflowing_mul_flag) (simp add: u256_val_def)
qed (simp add: u256_val_def [of "U256 0 2"])

text \<open>\<open>inverse\<close>, the conversion between target and work, is \<open>2 ^ 256 / (x + 1)\<close> rounded down for every
  \<open>x\<close> above one, and it never panics.\<close>

theorem u256_inverse_correct:
  "1 < u256_val x \<Longrightarrow> map_option u256_val (u256_inverse x) = Some (2 ^ 256 div (u256_val x + 1))"
  using u256_inverse_val [of x] by auto

theorem u256_inverse_correct_witness:
  "map_option u256_val (u256_inverse (U256 0 7)) = Some (2 ^ 253)"
  using u256_inverse_correct [of "U256 0 7"] by (simp add: u256_val_def)

text \<open>\<open>Display\<close> for \<open>U256\<close> never runs off its 78-byte buffer and prints ASCII digits whose decimal
  reading is the value.\<close>

theorem u256_display_decimal:
  "\<exists>ds. u256_display x = Some ds \<and> decimal_value ds = u256_val x \<and> list_all (\<lambda>d. 48 \<le> d \<and> d \<le> 57) ds"
proof -
  have "48 \<le> d \<and> d \<le> 57" if "d \<in> set (decimal_digits (u256_val x))" for d
    using decimal_digits_range [OF that] by (simp add: word_le_nat_alt)
  then show ?thesis by (simp add: u256_display_digits decimal_value_digits list_all_iff)
qed

text \<open>Both byte orders of \<open>U256\<close> round-trip, and the little-endian reading of 32 bytes is their
  base-256 value.\<close>

theorem u256_bytes_roundtrip:
  "u256_from_le_bytes (u256_to_le_bytes x) = x \<and> u256_from_be_bytes (u256_to_be_bytes x) = x \<and>
   u256_to_be_bytes x = rev (u256_to_le_bytes x) \<and> le_nat (u256_to_le_bytes x) = u256_val x"
  using u256_from_le_bytes_val [of "u256_to_le_bytes x"]
  by (intro conjI u256_from_to_le_bytes u256_from_to_be_bytes u256_to_le_bytes_rev) simp

end
