(* ===== verification/Target.thy ===== *)
theory Target
  imports U256
begin

text \<open>
  \<open>Work\<close>, \<open>Target\<close> and \<open>CompactTarget\<close> of \<open>bitcoin/src/pow.rs\<close>: the newtypes over \<open>U256\<close> and \<open>u32\<close>, the
  compact ("nBits") encoding in both directions, the proof-of-work comparison and the conversion between
  target and work. Shifts of a \<open>U256\<close> go through \<open>wrapping_shl\<close>/\<open>wrapping_shr\<close>, which keep the low eight
  bits of the shift amount. The lemmas give the value of the decoded target for every bit pattern and the
  exact rounding of the encoder.
\<close>

section \<open>Newtypes\<close>

datatype Work = Work (work_0: U256)
datatype Target = Target (target_0: U256)
datatype CompactTarget = CompactTarget (compact_0: u32)

instantiation Target :: linorder
begin

definition less_eq_Target :: "Target \<Rightarrow> Target \<Rightarrow> bool" where
  "less_eq_Target s t \<longleftrightarrow> target_0 s \<le> target_0 t"

definition less_Target :: "Target \<Rightarrow> Target \<Rightarrow> bool" where
  "less_Target s t \<longleftrightarrow> target_0 s < target_0 t"

instance
  by standard (auto simp: less_eq_Target_def less_Target_def Target.expand)

end

instantiation Work :: linorder
begin

definition less_eq_Work :: "Work \<Rightarrow> Work \<Rightarrow> bool" where
  "less_eq_Work s t \<longleftrightarrow> work_0 s \<le> work_0 t"

definition less_Work :: "Work \<Rightarrow> Work \<Rightarrow> bool" where
  "less_Work s t \<longleftrightarrow> work_0 s < work_0 t"

instance
  by standard (auto simp: less_eq_Work_def less_Work_def Work.expand)

end

abbreviation target_val :: "Target \<Rightarrow> nat" where
  "target_val t \<equiv> u256_val (target_0 t)"

section \<open>Constants\<close>

definition target_ZERO :: Target where "target_ZERO = Target u256_ZERO"
definition target_MAX :: Target where "target_MAX = Target (U256 (push_bit (208 - 128) 0xFFFF) 0)"

definition MAX_ATTAINABLE_MAINNET :: Target where
  "MAX_ATTAINABLE_MAINNET = Target (U256 (push_bit (208 - 128) 0xFFFF) 0)"

definition MAX_ATTAINABLE_TESTNET :: Target where
  "MAX_ATTAINABLE_TESTNET = Target (U256 (push_bit (208 - 128) 0xFFFF) 0)"

definition MAX_ATTAINABLE_REGTEST :: Target where
  "MAX_ATTAINABLE_REGTEST = Target (U256 (push_bit 96 0x7FFFFF00) 0)"

definition MAX_ATTAINABLE_SIGNET :: Target where
  "MAX_ATTAINABLE_SIGNET = Target (U256 (push_bit 80 0x0377ae00) 0)"

definition MAX_ATTAINABLE_MAINNET_DOGE :: Target where
  "MAX_ATTAINABLE_MAINNET_DOGE = Target (U256 (push_bit (204 - 128) 0xFFFFF000) 0)"

definition MAX_ATTAINABLE_TESTNET_DOGE :: Target where
  "MAX_ATTAINABLE_TESTNET_DOGE = Target (U256 (push_bit (204 - 128) 0xFFFFF000) 0)"

definition MAX_ATTAINABLE_REGTEST_DOGE :: Target where
  "MAX_ATTAINABLE_REGTEST_DOGE = Target (U256 (push_bit 96 0x7FFFFF00) 0)"

section \<open>The compact encoding\<close>

definition from_compact :: "CompactTarget \<Rightarrow> Target" where
  "from_compact c =
     (let bits = compact_0 c;
          (mant, expt) =
            (let unshifted_expt = drop_bit 24 bits
             in if unshifted_expt \<le> 3
                then (drop_bit (8 * (3 - unat unshifted_expt)) (bits AND 0xFFFFFF), 0)
                else (bits AND 0xFFFFFF, 8 * (drop_bit 24 bits - 3)))
      in if mant > 0x7FFFFF then target_ZERO
         else Target (wrapping_shl (u256_from (ucast mant)) (unat expt)))"

definition to_compact_lossy :: "Target \<Rightarrow> CompactTarget" where
  "to_compact_lossy t =
     (let size = (u256_bits (target_0 t) + 7) div 8;
          compact = (if size \<le> 3 then (ucast (push_bit (8 * (3 - size)) (low_u64 (target_0 t))) :: u32)
                     else low_u32 (wrapping_shr (target_0 t) (8 * (size - 3))));
          (compact', size') = (if compact AND 0x00800000 \<noteq> 0 then (drop_bit 8 compact, size + 1)
                               else (compact, size))
      in CompactTarget (compact' OR push_bit 24 (word_of_nat size')))"

definition from_consensus :: "u32 \<Rightarrow> CompactTarget" where "from_consensus bits = CompactTarget bits"
definition to_consensus :: "CompactTarget \<Rightarrow> u32" where "to_consensus c = compact_0 c"

section \<open>Proof of work and work\<close>

definition is_met_by :: "Target \<Rightarrow> bytes \<Rightarrow> bool" where
  "is_met_by t h \<longleftrightarrow> u256_from_le_bytes h \<le> target_0 t"

definition to_work :: "Target \<Rightarrow> Work option" where
  "to_work t = map_option Work (u256_inverse (target_0 t))"

definition to_target :: "Work \<Rightarrow> Target option" where
  "to_target w = map_option Target (u256_inverse (work_0 w))"

definition work_add :: "bool \<Rightarrow> Work \<Rightarrow> Work \<Rightarrow> Work option" where
  "work_add da a b = map_option Work (u256_add da (work_0 a) (work_0 b))"

definition work_sub :: "bool \<Rightarrow> Work \<Rightarrow> Work \<Rightarrow> Work option" where
  "work_sub da a b = map_option Work (u256_sub da (work_0 a) (work_0 b))"

definition min_transition_threshold :: "Target \<Rightarrow> Target" where
  "min_transition_threshold t = Target (wrapping_shr (target_0 t) 2)"

definition max_transition_threshold_unchecked :: "Target \<Rightarrow> Target" where
  "max_transition_threshold_unchecked t = Target (wrapping_shl (target_0 t) 2)"

definition min_difficulty_transition_threshold :: "Target \<Rightarrow> Target" where
  "min_difficulty_transition_threshold t = min_transition_threshold t"

definition max_difficulty_transition_threshold :: "Target \<Rightarrow> Target" where
  "max_difficulty_transition_threshold t = max_transition_threshold_unchecked t"

section \<open>Values of the thresholds and constants\<close>

lemma target_val_inj: "target_val s = target_val t \<longleftrightarrow> s = t"
  by (cases s; cases t) (simp add: u256_val_inj)

lemma target_val_le_iff: "target_val s \<le> target_val t \<longleftrightarrow> s \<le> t"
  by (simp add: val_le_iff less_eq_Target_def)

lemma target_val_less_iff: "target_val s < target_val t \<longleftrightarrow> s < t"
  by (simp add: val_less_iff less_Target_def)

lemma target_val_min: "target_val (min s t) = min (target_val s) (target_val t)"
  by (simp add: min_def target_val_le_iff)

lemma max_attainable_val:
  "target_val MAX_ATTAINABLE_MAINNET = 0xFFFF * 2 ^ 208"
  "target_val MAX_ATTAINABLE_TESTNET = 0xFFFF * 2 ^ 208"
  "target_val MAX_ATTAINABLE_REGTEST = 0x7FFFFF * 2 ^ 232"
  "target_val MAX_ATTAINABLE_SIGNET = 0x0377ae * 2 ^ 216"
  "target_val MAX_ATTAINABLE_MAINNET_DOGE = 0xFFFFF * 2 ^ 216"
  "target_val MAX_ATTAINABLE_TESTNET_DOGE = 0xFFFFF * 2 ^ 216"
  "target_val MAX_ATTAINABLE_REGTEST_DOGE = 0x7FFFFF * 2 ^ 232"
  by (simp_all add: u256_val_def MAX_ATTAINABLE_MAINNET_def MAX_ATTAINABLE_TESTNET_def
      MAX_ATTAINABLE_REGTEST_def MAX_ATTAINABLE_SIGNET_def MAX_ATTAINABLE_MAINNET_DOGE_def
      MAX_ATTAINABLE_TESTNET_DOGE_def MAX_ATTAINABLE_REGTEST_DOGE_def)

lemma min_transition_threshold_val: "target_val (min_transition_threshold t) = target_val t div 4"
  by (simp add: min_transition_threshold_def wrapping_shr_val)

lemma max_transition_threshold_unchecked_val:
  "target_val (max_transition_threshold_unchecked t) = 4 * target_val t mod 2 ^ 256"
  by (simp add: max_transition_threshold_unchecked_def wrapping_shl_val mult.commute)

section \<open>What a compact target denotes\<close>

text \<open>
  The reference reading of nBits: a three-byte mantissa, of which a value above \<open>0x7FFFFF\<close> is negative
  and read as zero, times \<open>256 ^ (e - 3)\<close> (a division for \<open>e \<le> 3\<close>).
\<close>

definition compact_exp :: "CompactTarget \<Rightarrow> nat" where "compact_exp c = unat (compact_0 c) div 2 ^ 24"
definition compact_mant :: "CompactTarget \<Rightarrow> nat" where "compact_mant c = unat (compact_0 c) mod 2 ^ 24"

lemma unat_and_mant: "unat ((w :: u32) AND 0xFFFFFF) = unat w mod 2 ^ 24"
proof -
  have "w AND 0xFFFFFF = take_bit 24 w"
    by (simp add: take_bit_eq_mask mask_eq_exp_minus_1)
  then show ?thesis by (simp only: unat_take_bit_mod)
qed

lemma compact_exp_lt: "compact_exp c < 256"
  using unat_u32_lt [of "compact_0 c"] by (simp add: compact_exp_def less_mult_imp_div_less)

lemma compact_mant_lt: "compact_mant c < 2 ^ 24"
  by (simp add: compact_mant_def)

lemma from_compact_low:
  assumes "compact_exp c \<le> 3"
  shows "target_val (from_compact c) =
    (let m = compact_mant c div 256 ^ (3 - compact_exp c) in if m > 0x7FFFFF then 0 else m)"
proof -
  define w where "w = compact_0 c"
  have e: "unat (drop_bit 24 w) = compact_exp c" by (simp add: w_def unat_drop_bit_div compact_exp_def)
  have le: "drop_bit 24 w \<le> 3" using assms e by (simp add: word_le_nat_alt)
  define mant where "mant = drop_bit (8 * (3 - compact_exp c)) (w AND 0xFFFFFF)"
  have m: "unat mant = compact_mant c div 256 ^ (3 - compact_exp c)"
    by (simp only: mant_def unat_drop_bit_div unat_and_mant compact_mant_def w_def pow256)
  have r: "from_compact c = (if mant > 0x7FFFFF then target_ZERO
      else Target (wrapping_shl (u256_from (ucast mant)) 0))"
    using le e by (simp add: from_compact_def w_def [symmetric] mant_def Let_def)
  have g: "mant > 0x7FFFFF \<longleftrightarrow> unat mant > 0x7FFFFF" by (simp add: word_less_nat_alt)
  have "unat mant < 2 ^ 256" by (rule less_trans [OF unat_u32_lt]) simp
  then have "target_val (from_compact c) = (if unat mant > 0x7FFFFF then 0 else unat mant)"
    unfolding r g by (simp add: target_ZERO_def wrapping_shl_val unat_ucast_up)
  then show ?thesis by (simp add: m Let_def)
qed

lemma from_compact_high:
  assumes "3 < compact_exp c"
  shows "target_val (from_compact c) =
    (if compact_mant c > 0x7FFFFF then 0
     else compact_mant c * 2 ^ (8 * (compact_exp c - 3) mod 256) mod 2 ^ 256)"
proof -
  define w where "w = compact_0 c"
  have e: "unat (drop_bit 24 w) = compact_exp c" by (simp add: w_def unat_drop_bit_div compact_exp_def)
  have le: "\<not> drop_bit 24 w \<le> 3" using assms e by (simp add: word_le_nat_alt)
  have s: "unat (drop_bit 24 w - 3) = compact_exp c - 3"
    using le e by (subst unat_sub) (simp_all add: word_le_nat_alt)
  have s8: "unat (8 * (drop_bit 24 w - 3)) = 8 * (compact_exp c - 3)"
  proof -
    have "8 * (compact_exp c - 3) < 2 ^ 32" using compact_exp_lt [of c] by simp
    then show ?thesis by (simp only: unat_word_ariths s) simp
  qed
  define mant where "mant = w AND 0xFFFFFF"
  have m: "unat mant = compact_mant c" by (simp only: mant_def unat_and_mant compact_mant_def w_def)
  have r: "from_compact c = (if mant > 0x7FFFFF then target_ZERO
      else Target (wrapping_shl (u256_from (ucast mant)) (8 * (compact_exp c - 3))))"
    using le e s8 by (simp add: from_compact_def w_def [symmetric] mant_def Let_def)
  have g: "mant > 0x7FFFFF \<longleftrightarrow> unat mant > 0x7FFFFF" by (simp add: word_less_nat_alt)
  show ?thesis unfolding r g
    by (simp add: target_ZERO_def wrapping_shl_val unat_ucast_up m)
qed

text \<open>The attainable range: up to exponent 34 no shift amount is masked; the value is the textbook one.\<close>

lemma from_compact_exact:
  assumes "3 < compact_exp c" and "compact_mant c \<le> 0x7FFFFF"
    and "compact_mant c * 256 ^ (compact_exp c - 3) < 2 ^ 256" and "compact_exp c \<le> 34"
  shows "target_val (from_compact c) = compact_mant c * 256 ^ (compact_exp c - 3)"
  using assms from_compact_high [of c] by (simp add: pow256)


section \<open>What the encoder keeps\<close>

text \<open>
  \<open>compact_size t\<close> is the byte length the encoder ends with: the byte length of the value, plus one when
  the leading mantissa byte would read as a sign. The encoded mantissa is the value shifted down to its
  three leading bytes.
\<close>

definition compact_size :: "nat \<Rightarrow> nat" where
  "compact_size v = (let s = (bit_length v + 7) div 8 in if bit_length v = 8 * s \<and> 0 < s then s + 1 else s)"

definition compact_floor :: "nat \<Rightarrow> nat" where
  "compact_floor v = (let s = compact_size v in if s \<le> 3 then v else v div 256 ^ (s - 3) * 256 ^ (s - 3))"

lemma compact_size_bounds:
  "v < 2 ^ (8 * compact_size v - 1) \<or> v = 0" "0 < v \<Longrightarrow> 2 ^ (8 * compact_size v - 9) \<le> v"
  "v < 2 ^ 256 \<Longrightarrow> compact_size v \<le> 33"
proof -
  define n where "n = bit_length v"
  define s where "s = compact_size v"
  have s: "n \<le> 8 * s - 1 \<or> n = 0" "8 * s - 9 \<le> n - 1" "n \<le> 256 \<Longrightarrow> s \<le> 33"
    by (auto simp: s_def compact_size_def n_def [symmetric] Let_def)
  have "n = 0 \<longleftrightarrow> v = 0" using bit_length_le_iff [of v 0] by (simp add: n_def)
  then show "v < 2 ^ (8 * compact_size v - 1) \<or> v = 0"
    using s(1) bit_length_le_iff [of v "8 * s - 1"] by (auto simp: n_def s_def)
  show "2 ^ (8 * compact_size v - 9) \<le> v" if "0 < v"
  proof -
    have "(2::nat) ^ (8 * s - 9) \<le> 2 ^ (n - 1)" using s(2) by (intro power_increasing) simp_all
    also have "\<dots> \<le> v" using bit_length_lower [OF that] by (simp add: n_def)
    finally show ?thesis by (simp add: s_def)
  qed
  show "compact_size v \<le> 33" if "v < 2 ^ 256"
    using that s(3) unfolding bit_length_le_iff [symmetric] n_def s_def by blast
qed

text \<open>Mantissa and size word: the two fields the encoder joins do not overlap.\<close>

lemma compact_join:
  assumes "m < 2 ^ 24" and "s < 256" and "unat w = m"
  shows "compact_mant (CompactTarget (w OR push_bit 24 (word_of_nat s))) = m"
    and "compact_exp (CompactTarget (w OR push_bit 24 (word_of_nat s))) = s"
proof -
  have p: "unat (push_bit 24 (word_of_nat s :: u32)) = s * 2 ^ 24"
  proof -
    have "s * 2 ^ 24 < 2 ^ 32" "s < 2 ^ 32" using assms(2) by simp_all
    then show ?thesis
      unfolding unsigned_push_bit_eq by (simp add: push_bit_eq_mult take_bit_eq_mod unat_of_nat)
  qed
  have "unat (w OR push_bit 24 (word_of_nat s)) = m OR s * 2 ^ 24"
    unfolding unsigned_or_eq p assms(3) ..
  also have "\<dots> = m + s * 2 ^ 24"
  proof (rule disjunctive_add [symmetric])
    fix i
    show "\<not> bit m i \<or> \<not> bit (s * 2 ^ 24) i"
    proof (cases "i < 24")
      case True
      then have "\<not> bit (push_bit 24 s) i" unfolding bit_push_bit_iff by simp
      then show ?thesis by (simp only: push_bit_eq_mult simp_thms)
    next
      case False
      then have "(2::nat) ^ 24 \<le> 2 ^ i" by (intro power_increasing) simp_all
      then have "m < 2 ^ i" using assms(1) by linarith
      then show ?thesis by (simp add: bit_iff_odd)
    qed
  qed
  finally have "unat (w OR push_bit 24 (word_of_nat s)) = m + s * 2 ^ 24" .
  then show "compact_mant (CompactTarget (w OR push_bit 24 (word_of_nat s))) = m"
    and "compact_exp (CompactTarget (w OR push_bit 24 (word_of_nat s))) = s"
    using assms(1) by (simp_all add: compact_mant_def compact_exp_def)
qed


lemma and_sign_bit: "unat (w :: u32) < 2 ^ 24 \<Longrightarrow> w AND 0x00800000 \<noteq> 0 \<longleftrightarrow> 2 ^ 23 \<le> unat w"
proof -
  assume lt: "unat w < 2 ^ 24"
  have m: "(0x00800000 :: u32) = push_bit 23 1" by simp
  have "w AND push_bit 23 1 \<noteq> 0 \<longleftrightarrow> bit w 23"
    by (simp only: bit_iff_and_push_bit_not_eq_0)
  also have "\<dots> \<longleftrightarrow> bit (unat w) 23" by (simp add: bit_unsigned_iff)
  also have "\<dots> \<longleftrightarrow> odd (unat w div 2 ^ 23)" by (simp only: bit_iff_odd)
  also have "\<dots> \<longleftrightarrow> 2 ^ 23 \<le> unat w"
  proof (cases "2 ^ 23 \<le> unat w")
    case True
    then have "unat w div 2 ^ 23 = 1" using lt by (intro div_nat_eqI) simp_all
    then show ?thesis using True by simp
  qed simp
  finally show ?thesis unfolding m .
qed

definition compact_digits :: "nat \<Rightarrow> nat \<Rightarrow> nat" where
  "compact_digits v s = (if s \<le> 3 then v * 256 ^ (3 - s) else v div 256 ^ (s - 3))"

lemma compact_digits_lt:
  assumes "v < 2 ^ k" and "k \<le> 8 * s"
  shows "compact_digits v s < 2 ^ (24 - (8 * s - k))"
proof (cases "s \<le> 3")
  case True
  have "v * 2 ^ (8 * (3 - s)) < 2 ^ k * 2 ^ (8 * (3 - s))" using assms(1) by simp
  also have "\<dots> = 2 ^ (24 - (8 * s - k))"
    using True assms(2) by (simp only: power_add [symmetric]) (intro arg_cong [of _ _ "\<lambda>n. 2 ^ n"], simp)
  finally show ?thesis using True by (simp add: compact_digits_def pow256)
next
  case False
  show ?thesis
  proof (cases "8 * s - k \<le> 24")
    case True
    have "(2::nat) ^ (24 - (8 * s - k)) * 2 ^ (8 * (s - 3)) = 2 ^ k"
      using True False assms(2) by (simp only: power_add [symmetric]) (intro arg_cong [of _ _ "\<lambda>n. 2 ^ n"], simp)
    then show ?thesis using assms(1) False
      by (simp only: compact_digits_def pow256 if_False) (intro less_mult_imp_div_less, simp)
  next
    case b: False
    have "(2::nat) ^ k \<le> 2 ^ (8 * (s - 3))" using b assms(2) by (intro power_increasing) simp_all
    then have "v < 2 ^ (8 * (s - 3))" using assms(1) by linarith
    then show ?thesis using False by (simp add: compact_digits_def pow256)
  qed
qed

lemma compact_digits_Suc: "compact_digits v s div 256 = compact_digits v (Suc s)" if "v < 256 ^ s"
proof (cases "s \<le> 3")
  case True
  then consider "s \<le> 2" | "s = 3" by linarith
  then show ?thesis
  proof cases
    case 1
    then have "3 - s = Suc (3 - Suc s)" by simp
    then show ?thesis using 1 by (simp add: compact_digits_def)
  qed (simp add: compact_digits_def)
next
  case False
  then have "Suc s - 3 = Suc (s - 3)" by simp
  then show ?thesis using False by (simp add: compact_digits_def mult.commute flip: div_mult2_eq)
qed

lemma byte_size:
  fixes v :: nat
  defines "s \<equiv> (bit_length v + 7) div 8"
  shows "bit_length v \<le> 8 * s" "v < 2 ^ (8 * s)" "v < 256 ^ s"
proof -
  show b: "bit_length v \<le> 8 * s" by (simp add: s_def)
  then show "v < 2 ^ (8 * s)" by (simp only: bit_length_le_iff)
  then show "v < 256 ^ s" by (simp only: pow256)
qed

lemma to_compact_first:
  fixes t :: Target
  defines "v \<equiv> target_val t" and "s \<equiv> (bit_length (target_val t) + 7) div 8"
  shows "unat (if s \<le> 3 then (ucast (push_bit (8 * (3 - s)) (low_u64 (target_0 t))) :: u32)
              else low_u32 (wrapping_shr (target_0 t) (8 * (s - 3)))) = compact_digits v s"
proof -
  have lt: "compact_digits v s < 2 ^ 24"
    using compact_digits_lt [of v "8 * s" s] byte_size(2) [of v] by (simp add: v_def s_def)
  have s33: "8 * (s - 3) < 256"
    using u256_val_lt [of "target_0 t"] unfolding s_def bit_length_le_iff [symmetric] by simp
  show ?thesis
  proof (cases "s \<le> 3")
    case True
    have "v < 256 ^ 3"
      using byte_size(3) [of v] power_increasing [OF True, of "256::nat"] unfolding v_def s_def by linarith
    then have "unat (low_u64 (target_0 t)) = v" by (simp add: unat_low_u64 v_def)
    moreover have "compact_digits v s < 2 ^ 32" "compact_digits v s < 2 ^ 64" using lt by simp_all
    ultimately show ?thesis using True unfolding if_P [OF True] unat_ucast_mod unat_push_bit_mod
      by (simp add: compact_digits_def pow256)
  next
    case False
    have "compact_digits v s < 2 ^ 32" using lt by simp
    then show ?thesis using False s33
      by (simp add: unat_low_u32 wrapping_shr_val compact_digits_def pow256 v_def)
  qed
qed

lemma to_compact_fields:
  "compact_exp (to_compact_lossy t) = compact_size (target_val t)"
  "compact_mant (to_compact_lossy t) = compact_digits (target_val t) (compact_size (target_val t))"
proof -
  define v where "v = target_val t"
  define s where "s = (bit_length v + 7) div 8"
  define c where "c = (if s \<le> 3 then (ucast (push_bit (8 * (3 - s)) (low_u64 (target_0 t))) :: u32)
              else low_u32 (wrapping_shr (target_0 t) (8 * (s - 3))))"
  have c: "unat c = compact_digits v s" using to_compact_first [of t] by (simp only: c_def v_def s_def)
  have lt: "compact_digits v s < 2 ^ 24"
    using compact_digits_lt [of v "8 * s" s] byte_size(2) [of v] by (simp add: s_def)
  have s33: "compact_size v \<le> 33" using compact_size_bounds(3) u256_val_lt by (simp add: v_def)
  have sign: "c AND 0x00800000 \<noteq> 0 \<longleftrightarrow> compact_size v = Suc s"
  proof (cases "bit_length v = 8 * s \<and> 0 < s")
    case True
    then have "0 < v" by (auto simp: s_def intro: gr0I)
    then have lo: "2 ^ (8 * s - 1) \<le> v" using bit_length_lower [of v] True by simp
    have "2 ^ 23 \<le> compact_digits v s"
    proof (cases "s \<le> 3")
      case a: True
      have "(2::nat) ^ 23 = 2 ^ (8 * s - 1) * 2 ^ (8 * (3 - s))" 
        unfolding power_add [symmetric] by (rule arg_cong [of _ _ "\<lambda>n. 2 ^ n"]) (use a True in simp)
      also have "\<dots> \<le> v * 2 ^ (8 * (3 - s))" using lo by (intro mult_le_mono1)
      finally show ?thesis using a by (simp add: compact_digits_def pow256)
    next
      case a: False
      have "(2::nat) ^ 23 = 2 ^ (8 * s - 1) div 2 ^ (8 * (s - 3))"

      proof -
        have "8 * s - 1 = 23 + 8 * (s - 3)" using a by simp
        then show ?thesis by (simp only: power_add) simp
      qed
      also have "\<dots> \<le> v div 2 ^ (8 * (s - 3))" using lo by (intro div_le_mono)
      finally show ?thesis using a by (simp add: compact_digits_def pow256)
    qed
    moreover have "compact_size v = Suc s" using True unfolding compact_size_def s_def [symmetric] Let_def by simp
    ultimately show ?thesis using lt and_sign_bit [of c] unfolding c by blast
  next
    case False
    then have "bit_length v \<le> 8 * s - 1 \<or> v = 0"
      using byte_size(1) [of v] bit_length_le_iff [of v 0] unfolding s_def by auto
    then have "compact_digits v s < 2 ^ 23"
    proof
      assume "v = 0"
      then show ?thesis by (simp add: compact_digits_def)
    next
      assume b: "bit_length v \<le> 8 * s - 1"
      show ?thesis
      proof (cases "s = 0")
        case True
        then show ?thesis using b bit_length_le_iff [of v 0] by (simp add: compact_digits_def)
      next
        case a: False
        have "v < 2 ^ (8 * s - 1)" using b by (simp only: bit_length_le_iff)
        then show ?thesis using compact_digits_lt [of v "8 * s - 1" s] a by simp
      qed
    qed
    moreover have "compact_size v = s" using False unfolding compact_size_def s_def [symmetric] Let_def by simp
    ultimately show ?thesis using lt and_sign_bit [of c] unfolding c by simp
  qed
  have cs: "compact_size v = (if c AND 0x00800000 \<noteq> 0 then Suc s else s)"
    using sign unfolding compact_size_def s_def [symmetric] Let_def by (simp split: if_splits)
  define c' where "c' = (if c AND 0x00800000 \<noteq> 0 then drop_bit 8 c else c)"
  have eq: "to_compact_lossy t = CompactTarget (c' OR push_bit 24 (word_of_nat (compact_size v)))"
    unfolding to_compact_lossy_def u256_bits_eq v_def [symmetric] s_def [symmetric] Let_def
      c_def [symmetric] cs c'_def by simp
  have c': "unat c' = compact_digits v (compact_size v)"
    using c cs compact_digits_Suc [of v s] byte_size(3) [of v]
    by (simp add: c'_def unat_drop_bit_div s_def)
  have "compact_digits v (compact_size v) < 2 ^ 24"
    using lt c c' by (auto simp: c'_def unat_drop_bit_div split: if_splits)
  from compact_join [OF this _ c'] s33
  show "compact_exp (to_compact_lossy t) = compact_size (target_val t)"
    and "compact_mant (to_compact_lossy t) = compact_digits (target_val t) (compact_size (target_val t))"
    unfolding eq v_def by simp_all
qed

lemma from_to_compact_val:
  "target_val (from_compact (to_compact_lossy t)) = compact_floor (target_val t)"
proof -
  define v where "v = target_val t"
  define s where "s = compact_size v"
  let ?c = "to_compact_lossy t"
  have v: "v < 2 ^ 256" by (simp only: v_def u256_val_lt)
  have f: "compact_exp ?c = s" "compact_mant ?c = compact_digits v s" by (simp_all only: to_compact_fields v_def s_def)
  have lt: "compact_digits v s < 2 ^ 23"
  proof (cases "v = 0")
    case False
    then have hi: "v < 2 ^ (8 * s - 1)" using compact_size_bounds(1) [of v] by (simp add: v_def s_def)
    moreover have "s \<noteq> 0" using False hi by (intro notI) simp
    ultimately show ?thesis using compact_digits_lt [of v "8 * s - 1" s] by simp
  qed (simp add: compact_digits_def)
  have s33: "s \<le> 33" using compact_size_bounds(3) [OF v] by (simp add: v_def s_def)
  show ?thesis
  proof (cases "s \<le> 3")
    case True
    have d: "compact_digits v s div 256 ^ (3 - s) = v" using True by (simp add: compact_digits_def)
    then have "v \<le> 0x7FFFFF" using lt div_le_dividend [of "compact_digits v s" "256 ^ (3 - s)"] by simp
    then show ?thesis using True from_compact_low [of ?c] f d
      by (simp add: compact_floor_def v_def [symmetric] s_def [symmetric] Let_def)
  next
    case False
    have "compact_digits v s * 256 ^ (s - 3) \<le> v" using False by (simp add: compact_digits_def)
    then have "compact_mant ?c * 256 ^ (compact_exp ?c - 3) < 2 ^ 256" using v unfolding f by linarith
    then have "target_val (from_compact ?c) = compact_digits v s * 256 ^ (s - 3)"
      using False lt s33 from_compact_exact [of ?c] f by simp
    then show ?thesis using False
      by (simp add: compact_floor_def v_def [symmetric] s_def [symmetric] compact_digits_def)
  qed
qed

lemma compact_floor_le: "compact_floor v \<le> v"
  by (simp add: compact_floor_def Let_def)

lemma compact_size_unique:
  assumes "v < 2 ^ (8 * s - 1)" and "2 ^ (8 * s - 9) \<le> v" and "0 < v" and "1 < s"
  shows "compact_size v = s"
proof -
  have "bit_length v \<le> 8 * s - 1" using assms(1) by (simp only: bit_length_le_iff)
  moreover have "\<not> bit_length v \<le> 8 * s - 9" using assms(2) by (simp only: bit_length_le_iff not_less)
  ultimately show ?thesis using assms(4) by (auto simp: compact_size_def Let_def)
qed

lemma compact_floor_size: "compact_size (compact_floor v) = compact_size v"
proof (cases "compact_size v \<le> 3")
  case False
  define s where "s = compact_size v"
  define K where "K = (256::nat) ^ (s - 3)"
  have s: "\<not> s \<le> 3" and K0: "0 < K" using False by (simp_all add: s_def K_def)
  have v0: "0 < v" using s by (auto simp: s_def compact_size_def intro: gr0I)
  have w: "compact_floor v = v div K * K" using s by (simp add: compact_floor_def s_def K_def Let_def)
  have hi: "v < 2 ^ (8 * s - 1)" using compact_size_bounds(1) [of v] v0 by (simp add: s_def)
  have e: "8 * s - 9 = 15 + 8 * (s - 3)" using s by simp
  have lo: "2 ^ 15 * K \<le> v" using compact_size_bounds(2) [OF v0] unfolding s_def [symmetric] e power_add K_def pow256 .
  then have "2 ^ 15 \<le> v div K" using K0 by (simp add: less_eq_div_iff_mult_less_eq)
  then have lo': "2 ^ 15 * K \<le> compact_floor v" unfolding w by (rule mult_le_mono1)
  have "compact_size (compact_floor v) = s"
  proof (rule compact_size_unique)
    show "compact_floor v < 2 ^ (8 * s - 1)" using hi compact_floor_le [of v] by linarith
    show "2 ^ (8 * s - 9) \<le> compact_floor v" using lo' unfolding e power_add K_def pow256 .
    show "0 < compact_floor v" using lo' K0 by (rule_tac less_le_trans) simp_all
    show "1 < s" using s by simp
  qed
  then show ?thesis by (simp add: s_def)
qed (simp add: compact_floor_def)

lemma compact_floor_digits: "compact_digits (compact_floor v) (compact_size v) = compact_digits v (compact_size v)"
  by (simp add: compact_floor_def compact_digits_def Let_def)

lemma compact_eqI: "compact_exp c = compact_exp d \<Longrightarrow> compact_mant c = compact_mant d \<Longrightarrow> c = d"
  by (cases c; cases d) (metis CompactTarget.sel compact_exp_def compact_mant_def div_mult_mod_eq word_unat_eq_iff)

lemma compact_idem: "to_compact_lossy (from_compact (to_compact_lossy t)) = to_compact_lossy t"
  by (rule compact_eqI)
    (simp_all add: to_compact_fields from_to_compact_val compact_floor_size compact_floor_digits)

lemma compact_floor_loss: "(v - compact_floor v) * 2 ^ 15 \<le> v"
proof (cases "compact_size v \<le> 3 \<or> v = 0")
  case False
  define s K where "s = compact_size v" and "K = (256::nat) ^ (compact_size v - 3)"
  have "v - compact_floor v = v mod K"
    using False by (simp add: compact_floor_def K_def Let_def minus_div_mult_eq_mod)
  also have "\<dots> \<le> K" by (simp add: K_def less_imp_le)
  finally have "(v - compact_floor v) * 2 ^ 15 \<le> K * 2 ^ 15" by (rule mult_le_mono1)
  also have "\<dots> = 2 ^ (8 * s - 9)"
  proof -
    have "3 < s" using False by (simp add: s_def)
    then have "8 * s - 9 = 8 * (s - 3) + 15" by simp
    then show ?thesis by (simp only: power_add K_def pow256 s_def)
  qed
  also have "\<dots> \<le> v" using compact_size_bounds(2) [of v] False by (simp add: s_def)
  finally show ?thesis .
qed (auto simp: compact_floor_def)

lemma compact_size_mono: "v \<le> w \<Longrightarrow> compact_size v \<le> compact_size w"
  using bit_length_mono [of v w] by (auto simp: compact_size_def Let_def)

lemma compact_floor_mono: "v \<le> w \<Longrightarrow> compact_floor v \<le> compact_floor w"
proof -
  assume le: "v \<le> w"
  then consider "compact_size v = compact_size w" | "compact_size v < compact_size w"
    using compact_size_mono [OF le] by linarith
  then show ?thesis
  proof cases
    case 1
    then show ?thesis using le by (auto simp: compact_floor_def Let_def div_le_mono)
  next
    case 2
    then have w0: "0 < w" by (auto simp: compact_size_def intro: gr0I)
    show ?thesis
    proof (cases "v = 0")
      case False
      have "v < 2 ^ (8 * compact_size v - 1)" using compact_size_bounds(1) [of v] False by simp
      also have "\<dots> \<le> 2 ^ (8 * compact_size (compact_floor w) - 9)"
        using 2 by (intro power_increasing) (simp_all add: compact_floor_size)
      also have "\<dots> \<le> compact_floor w"
      proof (rule compact_size_bounds(2))
        have "\<not> w * 2 ^ 15 \<le> w" using w0 by simp
        then show "0 < compact_floor w" using compact_floor_loss [of w] by (intro gr0I) simp
      qed
      finally show ?thesis using compact_floor_le [of v] by linarith
    qed (simp add: compact_floor_def compact_size_def)
  qed
qed

section \<open>Properties\<close>

text \<open>The target that nBits denotes, for every 32-bit pattern: the mantissa times \<open>256 ^ (e - 3)\<close>,
  zero for a negative mantissa; the shift amount is reduced modulo 256 and bits above 256 are dropped.\<close>

theorem from_compact_value:
  "target_val (from_compact c) =
     (let e = compact_exp c;
          m = (if e \<le> 3 then compact_mant c div 256 ^ (3 - e) else compact_mant c)
      in if m > 0x7FFFFF then 0
         else if e \<le> 3 then m else m * 2 ^ (8 * (e - 3) mod 256) mod 2 ^ 256)"
  using from_compact_low [of c] from_compact_high [of c] by (simp add: Let_def)

text \<open>(C34) Encoding a target as nBits and decoding it again rounds it down to its leading mantissa bytes
  (a relative loss of at most one part in \<open>2 ^ 15\<close>), and a decoded target re-encodes to the same bits.\<close>

theorem compact_roundtrip:
  "target_val (from_compact (to_compact_lossy t)) = compact_floor (target_val t) \<and>
   from_compact (to_compact_lossy t) \<le> t \<and>
   (target_val t - target_val (from_compact (to_compact_lossy t))) * 2 ^ 15 \<le> target_val t \<and>
   to_compact_lossy (from_compact (to_compact_lossy t)) = to_compact_lossy t"
  unfolding target_val_le_iff [symmetric] from_to_compact_val
  by (intro conjI refl compact_floor_le compact_floor_loss compact_idem)

text \<open>The rounding of the compact form preserves the order of targets.\<close>

theorem compact_monotone:
  "s \<le> t \<Longrightarrow> from_compact (to_compact_lossy s) \<le> from_compact (to_compact_lossy t)"
  unfolding target_val_le_iff [symmetric] from_to_compact_val by (rule compact_floor_mono)

theorem compact_monotone_witness:
  "from_compact (to_compact_lossy MAX_ATTAINABLE_MAINNET) \<le> from_compact (to_compact_lossy MAX_ATTAINABLE_MAINNET_DOGE)"
  by (rule compact_monotone) (simp add: max_attainable_val flip: target_val_le_iff)

text \<open>An exponent of 35 is shifted by zero instead of overflowing: the bits \<open>0x23000001\<close>, whose
  textbook value is \<open>2 ^ 256\<close>, decode to the hardest target 1.\<close>

theorem from_compact_exponent_wraps:
  "target_val (from_compact (CompactTarget 0x23000001)) = 1"
  using from_compact_high [of "CompactTarget 0x23000001"] by (simp add: compact_exp_def compact_mant_def)

text \<open>A block hash meets a target exactly when the number its 32 little-endian bytes denote does not
  exceed the target.\<close>

theorem is_met_by_value:
  "length h = 32 \<Longrightarrow> is_met_by t h \<longleftrightarrow> le_nat h \<le> target_val t"
  by (simp add: is_met_by_def u256_from_le_bytes_val flip: val_le_iff)

theorem is_met_by_value_witness:
  "is_met_by MAX_ATTAINABLE_MAINNET_DOGE (replicate 31 0xab @ [0])  \<longleftrightarrow>
     le_nat (replicate 31 0xab @ [0]) \<le> target_val MAX_ATTAINABLE_MAINNET_DOGE"
  by (rule is_met_by_value) simp

text \<open>The work of a target above one is \<open>2 ^ 256 / (target + 1)\<close>, and a harder target never has less
  work.\<close>

theorem to_work_antitone:
  assumes "1 < target_val s" and "s \<le> t"
  shows "\<exists>v w. to_work s = Some v \<and> to_work t = Some w \<and> w \<le> v \<and>
    u256_val (work_0 v) = 2 ^ 256 div (target_val s + 1) \<and> u256_val (work_0 w) = 2 ^ 256 div (target_val t + 1)"
proof -
  have le: "target_val s \<le> target_val t" using assms(2) by (simp only: target_val_le_iff)
  obtain v where v: "u256_inverse (target_0 s) = Some v" "u256_val v = 2 ^ 256 div (target_val s + 1)"
    using u256_inverse_val [OF assms(1)] by blast
  obtain w where w: "u256_inverse (target_0 t) = Some w" "u256_val w = 2 ^ 256 div (target_val t + 1)"
    using u256_inverse_val [of "target_0 t"] assms(1) le by (auto simp: less_le_trans)
  have "u256_val w \<le> u256_val v" unfolding v(2) w(2) using le by (intro div_le_mono2) simp_all
  then have "Work w \<le> Work v" by (simp add: less_eq_Work_def val_le_iff)
  then show ?thesis using v w by (simp add: to_work_def)
qed

theorem to_work_antitone_witness:
  "\<exists>v w. to_work (Target (U256 0 7)) = Some v \<and> to_work (Target (U256 0 15)) = Some w \<and> w \<le> v \<and>
    u256_val (work_0 v) = 2 ^ 256 div (target_val (Target (U256 0 7)) + 1) \<and>
    u256_val (work_0 w) = 2 ^ 256 div (target_val (Target (U256 0 15)) + 1)"
  by (rule to_work_antitone) (simp_all add: u256_val_def flip: target_val_le_iff)

end
