(* ===== verification/Params.thy ===== *)
theory Params
  imports Target
begin

text \<open>
  Consensus parameters: \<open>bitcoin/src/dogecoin/params.rs\<close> and the Bitcoin set of
  \<open>bitcoin/src/consensus/params.rs\<close>, each with its network enumeration, its three (respectively five)
  constant parameter sets, and the height-dependent switches. Field names of the Bitcoin record carry the
  prefix \<open>b_\<close>, since both structs are called \<open>Params\<close> and share their field names.
\<close>

section \<open>Dogecoin\<close>

datatype DogeNetwork = Dogecoin | DogeTestnet | DogeRegtest

definition ONE_SECOND :: int where "ONE_SECOND = 1"
definition ONE_MINUTE :: int where "ONE_MINUTE = 60"
definition FOUR_HOURS :: int where "FOUR_HOURS = 4 * 60 * 60"

record DogeParams =
  network :: DogeNetwork
  bip16_time :: u32
  bip34_height :: u32
  bip65_height :: u32
  bip66_height :: u32
  rule_change_activation_threshold :: u32
  miner_confirmation_window :: u32
  pow_limit :: Target
  max_attainable_target :: Target
  pow_target_spacing :: int
  no_pow_retargeting :: bool
  digishield_activation_height :: u32
  auxpow_height :: u32
  strict_chain_id :: bool
  auxpow_chain_id :: "32 word"

definition DOGE_MAINNET :: DogeParams where
  "DOGE_MAINNET =
     \<lparr> network = Dogecoin, bip16_time = 1333238400, bip34_height = 1034383, bip65_height = 3464751,
       bip66_height = 1034383, rule_change_activation_threshold = 9576, miner_confirmation_window = 10080,
       pow_limit = MAX_ATTAINABLE_MAINNET_DOGE, max_attainable_target = MAX_ATTAINABLE_MAINNET_DOGE,
       pow_target_spacing = ONE_MINUTE, no_pow_retargeting = False, digishield_activation_height = 145000,
       auxpow_height = 371337, strict_chain_id = True, auxpow_chain_id = 0x0062 \<rparr>"

definition DOGE_TESTNET :: DogeParams where
  "DOGE_TESTNET =
     \<lparr> network = DogeTestnet, bip16_time = 1333238400, bip34_height = 708658, bip65_height = 1854705,
       bip66_height = 708658, rule_change_activation_threshold = 2880, miner_confirmation_window = 10080,
       pow_limit = MAX_ATTAINABLE_TESTNET_DOGE, max_attainable_target = MAX_ATTAINABLE_TESTNET_DOGE,
       pow_target_spacing = ONE_MINUTE, no_pow_retargeting = False, digishield_activation_height = 145000,
       auxpow_height = 158100, strict_chain_id = False, auxpow_chain_id = 0x0062 \<rparr>"

definition DOGE_REGTEST :: DogeParams where
  "DOGE_REGTEST =
     \<lparr> network = DogeRegtest, bip16_time = 1333238400, bip34_height = 100000000, bip65_height = 1351,
       bip66_height = 1251, rule_change_activation_threshold = 540, miner_confirmation_window = 720,
       pow_limit = MAX_ATTAINABLE_REGTEST_DOGE, max_attainable_target = MAX_ATTAINABLE_REGTEST_DOGE,
       pow_target_spacing = ONE_SECOND, no_pow_retargeting = True, digishield_activation_height = 10,
       auxpow_height = 20, strict_chain_id = True, auxpow_chain_id = 0x0062 \<rparr>"

fun doge_params :: "DogeNetwork \<Rightarrow> DogeParams" where
  "doge_params Dogecoin = DOGE_MAINNET"
| "doge_params DogeTestnet = DOGE_TESTNET"
| "doge_params DogeRegtest = DOGE_REGTEST"

definition is_digishield_activated :: "DogeParams \<Rightarrow> u32 \<Rightarrow> bool" where
  "is_digishield_activated p height \<longleftrightarrow> height \<ge> digishield_activation_height p"

definition pow_target_timespan :: "DogeParams \<Rightarrow> u32 \<Rightarrow> int" where
  "pow_target_timespan p height =
     (if \<not> is_digishield_activated p height then FOUR_HOURS
      else case network p of Dogecoin \<Rightarrow> ONE_MINUTE | DogeTestnet \<Rightarrow> ONE_MINUTE | DogeRegtest \<Rightarrow> ONE_SECOND)"

definition allow_min_difficulty_blocks :: "DogeParams \<Rightarrow> u32 \<Rightarrow> bool" where
  "allow_min_difficulty_blocks p height =
     (case network p of
        Dogecoin \<Rightarrow> False
      | DogeTestnet \<Rightarrow> if height \<le> 144999 then True else if height \<le> 157499 then False else True
      | DogeRegtest \<Rightarrow> True)"

definition allow_legacy_blocks :: "DogeParams \<Rightarrow> u32 \<Rightarrow> bool" where
  "allow_legacy_blocks p height \<longleftrightarrow> height < auxpow_height p"

section \<open>Bitcoin\<close>

datatype BtcNetwork = Bitcoin | BtcTestnet | Testnet4 | Signet | BtcRegtest

record BtcParams =
  b_network :: BtcNetwork
  b_bip16_time :: u32
  b_bip34_height :: u32
  b_bip65_height :: u32
  b_bip66_height :: u32
  b_rule_change_activation_threshold :: u32
  b_miner_confirmation_window :: u32
  b_pow_limit :: Target
  b_max_attainable_target :: Target
  b_pow_target_spacing :: u64
  b_pow_target_timespan :: u64
  b_allow_min_difficulty_blocks :: bool
  b_no_pow_retargeting :: bool

definition BTC_MAINNET :: BtcParams where
  "BTC_MAINNET =
     \<lparr> b_network = Bitcoin, b_bip16_time = 1333238400, b_bip34_height = 227931, b_bip65_height = 388381,
       b_bip66_height = 363725, b_rule_change_activation_threshold = 1916,
       b_miner_confirmation_window = 2016, b_pow_limit = MAX_ATTAINABLE_MAINNET,
       b_max_attainable_target = MAX_ATTAINABLE_MAINNET, b_pow_target_spacing = 10 * 60,
       b_pow_target_timespan = 14 * 24 * 60 * 60, b_allow_min_difficulty_blocks = False,
       b_no_pow_retargeting = False \<rparr>"

definition BTC_TESTNET3 :: BtcParams where
  "BTC_TESTNET3 =
     \<lparr> b_network = BtcTestnet, b_bip16_time = 1333238400, b_bip34_height = 21111, b_bip65_height = 581885,
       b_bip66_height = 330776, b_rule_change_activation_threshold = 1512,
       b_miner_confirmation_window = 2016, b_pow_limit = MAX_ATTAINABLE_TESTNET,
       b_max_attainable_target = MAX_ATTAINABLE_TESTNET, b_pow_target_spacing = 10 * 60,
       b_pow_target_timespan = 14 * 24 * 60 * 60, b_allow_min_difficulty_blocks = True,
       b_no_pow_retargeting = False \<rparr>"

definition BTC_TESTNET4 :: BtcParams where
  "BTC_TESTNET4 =
     \<lparr> b_network = Testnet4, b_bip16_time = 1333238400, b_bip34_height = 1, b_bip65_height = 1,
       b_bip66_height = 1, b_rule_change_activation_threshold = 1512,
       b_miner_confirmation_window = 2016, b_pow_limit = MAX_ATTAINABLE_TESTNET,
       b_max_attainable_target = MAX_ATTAINABLE_TESTNET, b_pow_target_spacing = 10 * 60,
       b_pow_target_timespan = 14 * 24 * 60 * 60, b_allow_min_difficulty_blocks = True,
       b_no_pow_retargeting = False \<rparr>"

definition BTC_SIGNET :: BtcParams where
  "BTC_SIGNET =
     \<lparr> b_network = Signet, b_bip16_time = 1333238400, b_bip34_height = 1, b_bip65_height = 1,
       b_bip66_height = 1, b_rule_change_activation_threshold = 1916,
       b_miner_confirmation_window = 2016, b_pow_limit = MAX_ATTAINABLE_SIGNET,
       b_max_attainable_target = MAX_ATTAINABLE_SIGNET, b_pow_target_spacing = 10 * 60,
       b_pow_target_timespan = 14 * 24 * 60 * 60, b_allow_min_difficulty_blocks = False,
       b_no_pow_retargeting = False \<rparr>"

definition BTC_REGTEST :: BtcParams where
  "BTC_REGTEST =
     \<lparr> b_network = BtcRegtest, b_bip16_time = 1333238400, b_bip34_height = 100000000, b_bip65_height = 1351,
       b_bip66_height = 1251, b_rule_change_activation_threshold = 108,
       b_miner_confirmation_window = 144, b_pow_limit = MAX_ATTAINABLE_REGTEST,
       b_max_attainable_target = MAX_ATTAINABLE_REGTEST, b_pow_target_spacing = 10 * 60,
       b_pow_target_timespan = 14 * 24 * 60 * 60, b_allow_min_difficulty_blocks = True,
       b_no_pow_retargeting = True \<rparr>"

fun btc_params :: "BtcNetwork \<Rightarrow> BtcParams" where
  "btc_params Bitcoin = BTC_MAINNET"
| "btc_params BtcTestnet = BTC_TESTNET3"
| "btc_params Testnet4 = BTC_TESTNET4"
| "btc_params Signet = BTC_SIGNET"
| "btc_params BtcRegtest = BTC_REGTEST"

definition difficulty_adjustment_interval :: "BtcParams \<Rightarrow> u64" where
  "difficulty_adjustment_interval p = b_pow_target_timespan p div b_pow_target_spacing p"

section \<open>Facts about the parameter sets\<close>

lemmas doge_params_defs = DOGE_MAINNET_def DOGE_TESTNET_def DOGE_REGTEST_def
lemmas btc_params_defs = BTC_MAINNET_def BTC_TESTNET3_def BTC_TESTNET4_def BTC_SIGNET_def BTC_REGTEST_def

lemma doge_network [simp]: "network (doge_params n) = n"
  by (cases n) (simp_all add: doge_params_defs)

lemma doge_timespan_cases:
  "pow_target_timespan (doge_params n) h =
     (if is_digishield_activated (doge_params n) h then (if n = DogeRegtest then 1 else 60) else 14400)"
  by (auto simp: pow_target_timespan_def ONE_MINUTE_def ONE_SECOND_def FOUR_HOURS_def
      split: DogeNetwork.splits)

lemma doge_max_attainable_le: "target_val (max_attainable_target (doge_params n)) \<le> 0x7FFFFF * 2 ^ 232"
  by (cases n) (simp_all add: doge_params_defs max_attainable_val)

lemma doge_max_attainable_lt: "n \<noteq> DogeRegtest \<Longrightarrow> target_val (max_attainable_target (doge_params n)) < 2 ^ 236"
  by (cases n) (simp_all add: doge_params_defs max_attainable_val)

end
