(* ===== verification/Retarget.thy ===== *)
theory Retarget
  imports Params "HOL-Library.Monad_Syntax"
begin

text \<open>
  Difficulty adjustment, the parameter-dependent half of \<open>bitcoin/src/pow.rs\<close>: difficulty, the transition
  thresholds, and the computation of the next target for Bitcoin and for Dogecoin (before and after
  Digishield). \<open>i64\<close> values are integers with the wrap-around written out; the casts \<open>as u64\<close> reduce
  modulo \<open>2 ^ 64\<close>. A panic is \<open>None\<close>: a division by zero, a \<open>clamp\<close> with crossed bounds, an \<open>i64\<close>
  overflow in a build with overflow checks (\<open>oc\<close>), and an overflow of the \<open>U256\<close> operators in a build with
  debug assertions (\<open>da\<close>).
\<close>

section \<open>Difficulty and thresholds\<close>

definition difficulty :: "Target \<Rightarrow> BtcParams \<Rightarrow> u128 option" where
  "difficulty t p =
     (if target_0 t = u256_ZERO then None
      else (let max_t = b_max_attainable_target p
            in map_option saturating_to_u128 (u256_div (target_0 max_t) (target_0 t))))"

definition min_transition_threshold_dogecoin :: "bool \<Rightarrow> Target \<Rightarrow> DogeParams \<Rightarrow> u32 \<Rightarrow> Target option" where
  "min_transition_threshold_dogecoin da t p height =
     (if is_digishield_activated p height
      then map_option Target (u256_sub da (target_0 t) (wrapping_shr (target_0 t) 2))
      else if height \<le> 5000 then Some (Target (wrapping_shr (target_0 t) 4))
      else if height \<le> 10000 then Some (Target (wrapping_shr (target_0 t) 3))
      else Some (Target (wrapping_shr (target_0 t) 2)))"

definition max_transition_threshold :: "Target \<Rightarrow> BtcParams \<Rightarrow> Target" where
  "max_transition_threshold t p =
     (let max_attainable = b_max_attainable_target p
      in min (max_transition_threshold_unchecked t) max_attainable)"

definition max_transition_threshold_dogecoin :: "bool \<Rightarrow> Target \<Rightarrow> DogeParams \<Rightarrow> u32 \<Rightarrow> Target option" where
  "max_transition_threshold_dogecoin da t p height =
     (let max_attainable = max_attainable_target p
      in if is_digishield_activated p height
         then map_option (\<lambda>s. min (Target s) max_attainable) (u256_add da (target_0 t) (wrapping_shr (target_0 t) 1))
         else Some (min (max_transition_threshold_unchecked t) max_attainable))"

section \<open>The next target\<close>

definition clamp :: "'a::linorder \<Rightarrow> 'a \<Rightarrow> 'a \<Rightarrow> 'a option" where
  "clamp x lo hi = (if lo \<le> hi then Some (if x < lo then lo else if x > hi then hi else x) else None)"

definition u64_of_i64 :: "int \<Rightarrow> u64" where
  "u64_of_i64 x = word_of_int x"

definition from_next_work_required :: "bool \<Rightarrow> CompactTarget \<Rightarrow> u64 \<Rightarrow> BtcParams \<Rightarrow> CompactTarget option" where
  "from_next_work_required da last_bits timespan p =
     (if b_no_pow_retargeting p then Some last_bits
      else (let min_timespan = drop_bit 2 (b_pow_target_timespan p);
                max_timespan = push_bit 2 (b_pow_target_timespan p)
            in do {
              actual_timespan \<leftarrow> clamp timespan min_timespan max_timespan;
              let prev_target = from_compact last_bits;
              let maximum_retarget = max_transition_threshold prev_target p;
              product \<leftarrow> u256_mul da (target_0 prev_target) (u256_from (ucast actual_timespan));
              quotient \<leftarrow> u256_div product (u256_from (ucast (b_pow_target_timespan p)));
              let retarget = Target quotient;
              if retarget \<ge> maximum_retarget then Some (to_compact_lossy maximum_retarget)
              else Some (to_compact_lossy retarget) }))"

text \<open>The lines of \<open>from_next_work_required_dogecoin\<close> that modulate the timespan. The additions to
  \<open>retarget_timespan\<close> that bound the clamp are constants of the networks and cannot overflow.\<close>

definition modulate_timespan :: "bool \<Rightarrow> DogeParams \<Rightarrow> u32 \<Rightarrow> int \<Rightarrow> int option" where
  "modulate_timespan oc p height timespan =
     (let retarget_timespan = pow_target_timespan p height
      in if is_digishield_activated p height
         then do {
           difference \<leftarrow> i64_arith oc (timespan - retarget_timespan);
           modulated_timespan \<leftarrow> i64_arith oc (retarget_timespan + quot difference 8);
           let min_timespan = retarget_timespan - drop_bit 2 retarget_timespan;
           let max_timespan = retarget_timespan + drop_bit 1 retarget_timespan;
           clamp modulated_timespan min_timespan max_timespan }
         else (let max_timespan = push_bit 2 retarget_timespan;
                   min_timespan = (if height \<le> 5000 then drop_bit 4 retarget_timespan
                                   else if height \<le> 10000 then drop_bit 3 retarget_timespan
                                   else drop_bit 2 retarget_timespan)
               in clamp timespan min_timespan max_timespan))"

definition from_next_work_required_dogecoin ::
    "bool \<Rightarrow> bool \<Rightarrow> CompactTarget \<Rightarrow> int \<Rightarrow> DogeParams \<Rightarrow> u32 \<Rightarrow> CompactTarget option" where
  "from_next_work_required_dogecoin oc da last_bits timespan p height =
     (if no_pow_retargeting p then Some last_bits
      else do {
        let retarget_timespan = pow_target_timespan p height;
        modulated_timespan \<leftarrow> modulate_timespan oc p height timespan;
        let prev_target = from_compact last_bits;
        maximum_retarget \<leftarrow> max_transition_threshold_dogecoin da prev_target p height;
        product \<leftarrow> u256_mul da (target_0 prev_target) (u256_from (ucast (u64_of_i64 modulated_timespan)));
        quotient \<leftarrow> u256_div product (u256_from (ucast (u64_of_i64 retarget_timespan)));
        let retarget = Target quotient;
        if retarget \<ge> maximum_retarget then Some (to_compact_lossy maximum_retarget)
        else Some (to_compact_lossy retarget) })"

section \<open>Values of the thresholds\<close>

text \<open>The two Dogecoin thresholds as numbers.\<close>

definition min_threshold_val :: "nat \<Rightarrow> DogeParams \<Rightarrow> u32 \<Rightarrow> nat" where
  "min_threshold_val v p h =
     (if is_digishield_activated p h then v - v div 4
      else if h \<le> 5000 then v div 16 else if h \<le> 10000 then v div 8 else v div 4)"

definition max_threshold_val :: "nat \<Rightarrow> DogeParams \<Rightarrow> u32 \<Rightarrow> nat" where
  "max_threshold_val v p h =
     min (if is_digishield_activated p h then v + v div 2 else 4 * v) (target_val (max_attainable_target p))"

lemma min_threshold_doge:
  "\<exists>lo. min_transition_threshold_dogecoin da t p h = Some lo \<and> target_val lo = min_threshold_val (target_val t) p h"
proof -
  have "u256_val (wrapping_shr (target_0 t) 2) \<le> target_val t" by (simp add: wrapping_shr_val)
  then obtain r where "u256_sub da (target_0 t) (wrapping_shr (target_0 t) 2) = Some r"
    "u256_val r = target_val t - target_val t div 4"
    using u256_sub_in [of "wrapping_shr (target_0 t) 2" "target_0 t" da] by (auto simp: wrapping_shr_val)
  then show ?thesis
    by (simp add: min_transition_threshold_dogecoin_def min_threshold_val_def wrapping_shr_val)
qed

lemma max_threshold_doge:
  assumes "target_val t \<le> target_val (max_attainable_target p)"
    and "target_val (max_attainable_target p) < 2 ^ 254"
  shows "\<exists>hi. max_transition_threshold_dogecoin da t p h = Some hi \<and> target_val hi = max_threshold_val (target_val t) p h"
proof -
  define v where "v = target_val t"
  have "v < 2 ^ 254" using assms by (simp add: v_def)
  then have lt: "v + v div 2 < 2 ^ 256" "4 * v < 2 ^ 256" by simp_all
  have sh: "u256_val (wrapping_shr (target_0 t) 1) = v div 2" by (simp add: wrapping_shr_val v_def)
  obtain r where "u256_add da (target_0 t) (wrapping_shr (target_0 t) 1) = Some r" "u256_val r = v + v div 2"
    using u256_add_in [of "target_0 t" "wrapping_shr (target_0 t) 1" da] lt(1) unfolding sh v_def [symmetric] by blast
  moreover have "target_val (max_transition_threshold_unchecked t) = 4 * v"
    using lt(2) by (simp add: max_transition_threshold_unchecked_val v_def)
  ultimately show ?thesis
    by (simp add: max_transition_threshold_dogecoin_def max_threshold_val_def target_val_min v_def Let_def)
qed

lemma max_threshold_btc_val:
  assumes "target_val t \<le> target_val (b_max_attainable_target p)"
    and "target_val (b_max_attainable_target p) < 2 ^ 254"
  shows "target_val (max_transition_threshold t p) =
    min (4 * target_val t) (target_val (b_max_attainable_target p))"
  using assms by (simp add: max_transition_threshold_def max_transition_threshold_unchecked_val
      target_val_min Let_def)

section \<open>The modulated timespan\<close>

lemma clamp_Some: "a \<le> b \<Longrightarrow> \<exists>y. clamp x a b = Some y \<and> a \<le> y \<and> y \<le> b"
  by (auto simp: clamp_def)

lemma clamp_inside: "a \<le> x \<Longrightarrow> x \<le> b \<Longrightarrow> clamp x a b = Some x"
  by (auto simp: clamp_def)

lemma int_shifts: "drop_bit k (x :: int) = x div 2 ^ k" "push_bit k x = x * 2 ^ k"
  by (simp_all add: drop_bit_eq_div push_bit_eq_mult)

definition min_modulated :: "DogeParams \<Rightarrow> u32 \<Rightarrow> int" where
  "min_modulated p h = (let T = pow_target_timespan p h in
     if is_digishield_activated p h then T - T div 4
     else if h \<le> 5000 then T div 16 else if h \<le> 10000 then T div 8 else T div 4)"

definition max_modulated :: "DogeParams \<Rightarrow> u32 \<Rightarrow> int" where
  "max_modulated p h = (let T = pow_target_timespan p h in
     if is_digishield_activated p h then T + T div 2 else 4 * T)"

lemma timespan_cases:
  "is_digishield_activated p h \<and> pow_target_timespan p h = 1 \<or>
   is_digishield_activated p h \<and> pow_target_timespan p h = 60 \<or>
   \<not> is_digishield_activated p h \<and> pow_target_timespan p h = 14400"
  by (auto simp: pow_target_timespan_def ONE_MINUTE_def ONE_SECOND_def FOUR_HOURS_def split: DogeNetwork.splits)

lemma modulated_range:
  "min_modulated p h \<le> max_modulated p h" "0 < min_modulated p h" "max_modulated p h \<le> 57600"
  "min_modulated p h \<le> pow_target_timespan p h" "pow_target_timespan p h \<le> max_modulated p h"
  using timespan_cases [of p h] by (auto simp: min_modulated_def max_modulated_def Let_def)

text \<open>The timespan after Digishield's damping and before the clamp, and the only case in which the code
  panics on the way.\<close>

definition damped_timespan :: "DogeParams \<Rightarrow> u32 \<Rightarrow> int \<Rightarrow> int" where
  "damped_timespan p h ts = (let T = pow_target_timespan p h in
     if is_digishield_activated p h then T + quot (i64_wrap (ts - T)) 8 else ts)"

definition timespan_overflows :: "bool \<Rightarrow> DogeParams \<Rightarrow> u32 \<Rightarrow> int \<Rightarrow> bool" where
  "timespan_overflows oc p h ts \<longleftrightarrow>
     oc \<and> is_digishield_activated p h \<and> \<not> i64_range (ts - pow_target_timespan p h)"

lemma damped_in_range: "i64_range (pow_target_timespan p h + quot (i64_wrap x) 8)"
proof -
  define y where "y = i64_wrap x"
  have "- (2 ^ 63) \<le> y" "y < 2 ^ 63" using i64_wrap_range [of x] by (simp_all add: y_def i64_range_def)
  then have "\<bar>y\<bar> div 8 \<le> 2 ^ 60" by simp
  moreover have "\<bar>quot y 8\<bar> \<le> \<bar>y\<bar> div 8" by (cases y "0 :: int" rule: linorder_cases) (simp_all add: quot_def)
  ultimately show ?thesis
    using timespan_cases [of p h] unfolding y_def [symmetric] i64_range_def by auto
qed

lemma modulate_timespan_eq:
  "modulate_timespan oc p h ts =
     (if timespan_overflows oc p h ts then None
      else Some (max (min_modulated p h) (min (max_modulated p h) (damped_timespan p h ts))))"
proof -
  define T where "T = pow_target_timespan p h"
  have cl: "clamp x a b = Some (max a (min b x))" if "a \<le> b" for x a b :: int
    using that by (simp add: clamp_def)
  show ?thesis
  proof (cases "is_digishield_activated p h")
    case True
    have "clamp x (T - drop_bit 2 T) (T + drop_bit 1 T) = Some (max (min_modulated p h) (min (max_modulated p h) x))" for x
      using modulated_range(1) [of p h] cl True
      by (simp add: min_modulated_def max_modulated_def int_shifts T_def Let_def)
    then show ?thesis using True i64_arith_in [OF damped_in_range [of p h "ts - T"]]
      by (simp add: modulate_timespan_def timespan_overflows_def damped_timespan_def i64_arith_def T_def Let_def)
  next
    case False
    then have "modulate_timespan oc p h ts = clamp ts (min_modulated p h) (max_modulated p h)"
      by (simp add: modulate_timespan_def min_modulated_def max_modulated_def int_shifts mult.commute Let_def)
    then show ?thesis using False cl [OF modulated_range(1) [of p h], of ts]
      by (simp add: timespan_overflows_def damped_timespan_def Let_def)
  qed
qed

lemma modulate_timespan_Some:
  "\<not> timespan_overflows oc p h ts \<Longrightarrow>
    \<exists>m. modulate_timespan oc p h ts = Some m \<and> min_modulated p h \<le> m \<and> m \<le> max_modulated p h"
  using modulated_range(1) [of p h] by (simp add: modulate_timespan_eq)

lemma modulate_on_schedule:
  "modulate_timespan oc p h (pow_target_timespan p h) = Some (pow_target_timespan p h)"
  using modulated_range [of p h]
  by (simp add: modulate_timespan_eq timespan_overflows_def damped_timespan_def i64_range_def i64_wrap_def quot_def Let_def)

section \<open>Scaling the previous target\<close>

lemma val_from_u64: "u256_val (u256_from (ucast (w :: u64))) = unat w"
  by (simp add: unat_ucast_up)

lemma scale_target:
  assumes "u256_val x * unat (w :: u64) < 2 ^ 256" and "0 < unat (d :: u64)"
  shows "\<exists>r q. u256_mul da x (u256_from (ucast w)) = Some r \<and> u256_div r (u256_from (ucast d)) = Some q \<and>
    u256_val q = u256_val x * unat w div unat d"
proof -
  have "unat w < 2 ^ 192" by (rule less_trans [OF unat_u64_lt_num]) simp
  then obtain r where r: "u256_mul da x (u256_from (ucast w)) = Some r" "u256_val r = u256_val x * unat w"
    using u256_mul_in [of "u256_from (ucast w)" x da] assms(1) unfolding val_from_u64 by blast
  then show ?thesis using u256_div_val [of "u256_from (ucast d)" r] assms(2) by (simp only: val_from_u64 not_gr_zero) blast
qed

lemma unat_u64_of_i64: "0 \<le> x \<Longrightarrow> x < 2 ^ 64 \<Longrightarrow> unat (u64_of_i64 x) = nat x"
  by (simp add: u64_of_i64_def unat_eq_nat_uint uint_word_of_int)

lemma doge_retarget_value:
  assumes "\<not> no_pow_retargeting p" and "modulate_timespan oc p h ts = Some m"
    and "target_val (from_compact c) * 57600 < 2 ^ 256"
    and "max_transition_threshold_dogecoin da (from_compact c) p h = Some M"
  shows "\<exists>r. from_next_work_required_dogecoin oc da c ts p h = Some (to_compact_lossy r) \<and>
    target_val r = min (target_val (from_compact c) * nat m div nat (pow_target_timespan p h)) (target_val M)"
proof -
  define T where "T = pow_target_timespan p h"
  have "\<not> timespan_overflows oc p h ts" using assms(2) by (auto simp: modulate_timespan_eq)
  then have m: "0 < m" "m \<le> 57600"
    using modulate_timespan_Some [of oc p h ts] modulated_range [of p h] assms(2) by auto
  have T: "0 < T" "T < 2 ^ 64" using timespan_cases [of p h] by (auto simp: T_def)
  have um: "unat (u64_of_i64 m) = nat m" and uT: "unat (u64_of_i64 T) = nat T"
    using m T by (simp_all add: unat_u64_of_i64)
  have "target_val (from_compact c) * nat m \<le> target_val (from_compact c) * 57600"
    using m by (intro mult_le_mono2) simp
  then have lt: "target_val (from_compact c) * unat (u64_of_i64 m) < 2 ^ 256" using assms(3) unfolding um by (rule le_less_trans)
  obtain x q where q: "u256_mul da (target_0 (from_compact c)) (u256_from (ucast (u64_of_i64 m))) = Some x"
    "u256_div x (u256_from (ucast (u64_of_i64 T))) = Some q"
    "u256_val q = target_val (from_compact c) * nat m div nat T"
    using scale_target [OF lt, of "u64_of_i64 T" da] T(1) unfolding um uT by auto
  have "from_next_work_required_dogecoin oc da c ts p h = Some (to_compact_lossy (min (Target q) M))"
    using assms(1,2,4) q(1,2) by (auto simp: from_next_work_required_dogecoin_def T_def Let_def min_def not_le)
  moreover have "target_val (min (Target q) M) = min (target_val (from_compact c) * nat m div nat T) (target_val M)"
    by (simp add: target_val_min q(3))
  ultimately show ?thesis unfolding T_def by blast
qed

lemma doge_retargeting: "n \<noteq> DogeRegtest \<Longrightarrow> \<not> no_pow_retargeting (doge_params n)"
  by (cases n) (simp_all add: doge_params_defs)

lemma doge_bound:
  assumes "n \<noteq> DogeRegtest" and "from_compact c \<le> max_attainable_target (doge_params n)"
  shows "target_val (from_compact c) * 57600 < 2 ^ 256"
    and "target_val (from_compact c) \<le> target_val (max_attainable_target (doge_params n))"
    and "target_val (max_attainable_target (doge_params n)) < 2 ^ 254"
proof -
  show le: "target_val (from_compact c) \<le> target_val (max_attainable_target (doge_params n))"
    using assms(2) by (simp only: target_val_le_iff)
  have "target_val (max_attainable_target (doge_params n)) < 2 ^ 236"
    by (rule doge_max_attainable_lt [OF assms(1)])
  with le show "target_val (from_compact c) * 57600 < 2 ^ 256"
    and "target_val (max_attainable_target (doge_params n)) < 2 ^ 254" by simp_all
qed

text \<open>Lower and upper end of the scaled target, relative to the two thresholds.\<close>

lemma scaled_lower:
  assumes "min_modulated p h \<le> m" and "4 dvd target_val t"
    and "\<not> is_digishield_activated p h \<or> network p \<noteq> DogeRegtest"
  shows "min_threshold_val (target_val t) p h \<le>
    target_val t * nat m div nat (pow_target_timespan p h)"
proof -
  define v where "v = target_val t"
  obtain k where k: "v = 4 * k" using assms(2) by (auto simp: v_def)
  have lo: "v * nat (min_modulated p h) div nat (pow_target_timespan p h) \<le>
      v * nat m div nat (pow_target_timespan p h)"
    using assms(1) by (intro div_le_mono mult_le_mono2) simp
  have eq: "min_threshold_val v p h =
      v * nat (min_modulated p h) div nat (pow_target_timespan p h)"
  proof (cases "is_digishield_activated p h")
    case True
    then have T: "pow_target_timespan p h = 60"
      using assms(3) by (auto simp: pow_target_timespan_def ONE_MINUTE_def split: DogeNetwork.splits)
    show ?thesis using True T by (simp add: min_threshold_val_def min_modulated_def k Let_def)
  next
    case False
    then have T: "pow_target_timespan p h = 14400" using timespan_cases [of p h] by blast
    have "v * 900 div 14400 = v div 16" "v * 1800 div 14400 = v div 8" "v * 3600 div 14400 = v div 4"
      using div_mult_mult2 [of 900 v 16] div_mult_mult2 [of 1800 v 8] div_mult_mult2 [of 3600 v 4] by simp_all
    then show ?thesis using False T by (simp add: min_threshold_val_def min_modulated_def Let_def)
  qed
  show ?thesis using lo eq unfolding v_def by simp
qed

lemma min_le_max_threshold:
  assumes "v \<le> target_val (max_attainable_target p)"
  shows "min_threshold_val v p h \<le> max_threshold_val v p h"
proof -
  have "min_threshold_val v p h \<le> v" by (simp add: min_threshold_val_def)
  moreover have "v \<le> max_threshold_val v p h" using assms by (simp add: max_threshold_val_def)
  ultimately show ?thesis by linarith
qed

section \<open>Bitcoin\<close>

lemma btc_timespan [simp]: "b_pow_target_timespan (btc_params n) = 1209600"
  by (cases n) (simp_all add: btc_params_defs)

lemma btc_bound:
  assumes "n \<noteq> BtcRegtest" and "from_compact c \<le> b_max_attainable_target (btc_params n)"
  shows "target_val (from_compact c) \<le> 0x0377ae * 2 ^ 216"
    and "target_val (from_compact c) \<le> target_val (b_max_attainable_target (btc_params n))"
    and "target_val (b_max_attainable_target (btc_params n)) < 2 ^ 254"
proof -
  show le: "target_val (from_compact c) \<le> target_val (b_max_attainable_target (btc_params n))"
    using assms(2) by (simp only: target_val_le_iff)
  have "target_val (b_max_attainable_target (btc_params n)) \<le> 0x0377ae * 2 ^ 216"
    using assms(1) by (cases n) (simp_all add: btc_params_defs max_attainable_val)
  with le show "target_val (from_compact c) \<le> 0x0377ae * 2 ^ 216"
    and "target_val (b_max_attainable_target (btc_params n)) < 2 ^ 254" by simp_all
qed

lemma btc_retarget_value:
  assumes n: "n \<noteq> BtcRegtest" and c: "from_compact c \<le> b_max_attainable_target (btc_params n)"
  shows "\<exists>r. from_next_work_required da c ts (btc_params n) = Some (to_compact_lossy r) \<and>
    target_val r = min (target_val (from_compact c) * max 302400 (min (unat ts) 4838400) div 1209600)
      (min (4 * target_val (from_compact c)) (target_val (b_max_attainable_target (btc_params n))))"
proof -
  define p where "p = btc_params n"
  define a where "a = (if ts < 302400 then 302400 else if ts > 4838400 then 4838400 else ts)"
  have ua: "unat a = max 302400 (min (unat ts) 4838400)"
    by (auto simp: a_def word_less_nat_alt max_def min_def)
  have cl: "clamp ts (drop_bit 2 (b_pow_target_timespan p)) (push_bit 2 (b_pow_target_timespan p)) = Some a"
    by (simp add: p_def clamp_def a_def)
  have "target_val (from_compact c) * unat a \<le> 0x0377ae * 2 ^ 216 * 4838400"
    using btc_bound(1) [OF assms] by (intro mult_le_mono) (auto simp: ua)
  also have "\<dots> < (2::nat) ^ 256" by simp
  finally obtain x q where q:
    "u256_mul da (target_0 (from_compact c)) (u256_from (ucast a)) = Some x"
    "u256_div x (u256_from (ucast (1209600 :: u64))) = Some q"
    "u256_val q = target_val (from_compact c) * unat a div 1209600"
    using scale_target [of "target_0 (from_compact c)" a 1209600 da] by auto
  define M where "M = max_transition_threshold (from_compact c) p"
  have np: "\<not> b_no_pow_retargeting p" using n by (cases n) (simp_all add: p_def btc_params_defs)
  have "from_next_work_required da c ts p = Some (to_compact_lossy (min (Target q) M))"
    using np cl q(1,2) by (auto simp: from_next_work_required_def M_def Let_def min_def not_le p_def)
  moreover have "target_val (min (Target q) M) = min (target_val (from_compact c) * unat a div 1209600)
      (min (4 * target_val (from_compact c)) (target_val (b_max_attainable_target p)))"
    using max_threshold_btc_val btc_bound(2,3) [OF assms] by (simp only: target_val_min Target.sel q(3) M_def p_def)
  ultimately show ?thesis unfolding ua p_def by blast
qed

lemma from_compact_dvd:
  assumes "3 < compact_exp c" and "compact_exp c \<le> 34"
  shows "4 dvd target_val (from_compact c)"
proof -
  define k where "k = 8 * (compact_exp c - 3)"
  have k: "2 \<le> k" "k < 256" using assms by (simp_all add: k_def)
  have "(2::nat) ^ 2 dvd 2 ^ k" using k(1) by (rule le_imp_power_dvd)
  then have "4 dvd compact_mant c * 2 ^ k" by simp
  moreover have "(4::nat) dvd 2 ^ 256" by simp
  ultimately have "4 dvd compact_mant c * 2 ^ k mod 2 ^ 256" by (rule dvd_mod)
  then show ?thesis using from_compact_high [OF assms(1)] k(2) by (simp add: k_def)
qed

lemma example_target_val: "target_val (from_compact (CompactTarget 0x1b7fffff)) = 0x7fffff * 256 ^ 24"
  by (subst from_compact_exact) (simp_all add: compact_exp_def compact_mant_def)

lemma example_target_ok: "from_compact (CompactTarget 0x1b7fffff) \<le> max_attainable_target (doge_params Dogecoin)"
  using example_target_val by (simp add: doge_params_defs max_attainable_val flip: target_val_le_iff)

section \<open>Properties\<close>

text \<open>(C17) Dogecoin retargeting on mainnet and testnet, from an attainable previous target: it panics exactly
  when overflow checks are on, Digishield is active and the difference of the timespan and the target timespan
  leaves \<open>i64\<close>; debug assertions never fire. Otherwise the next target is the previous one times the damped
  and clamped timespan over the target timespan, capped at the maximum transition threshold and rounded to
  compact form.\<close>

theorem doge_next_target_value:
  assumes "n \<noteq> DogeRegtest" and "from_compact c \<le> max_attainable_target (doge_params n)"
  shows "map_option (\<lambda>c'. target_val (from_compact c')) (from_next_work_required_dogecoin oc da c ts (doge_params n) h) =
    (if timespan_overflows oc (doge_params n) h ts then None
     else Some (compact_floor (min
       (target_val (from_compact c) *
          nat (max (min_modulated (doge_params n) h) (min (max_modulated (doge_params n) h) (damped_timespan (doge_params n) h ts)))
          div nat (pow_target_timespan (doge_params n) h))
       (max_threshold_val (target_val (from_compact c)) (doge_params n) h))))"
proof (cases "timespan_overflows oc (doge_params n) h ts")
  case True
  then show ?thesis
    using doge_retargeting [OF assms(1)] by (simp add: from_next_work_required_dogecoin_def modulate_timespan_eq)
next
  case False
  define p where "p = doge_params n"
  define m where "m = max (min_modulated p h) (min (max_modulated p h) (damped_timespan p h ts))"
  have m: "modulate_timespan oc p h ts = Some m" using False by (simp add: modulate_timespan_eq m_def p_def)
  obtain M where "max_transition_threshold_dogecoin da (from_compact c) p h = Some M"
    and M: "target_val M = max_threshold_val (target_val (from_compact c)) p h"
    using max_threshold_doge doge_bound(2,3) [OF assms] unfolding p_def by blast
  then obtain r where "from_next_work_required_dogecoin oc da c ts p h = Some (to_compact_lossy r)"
    "target_val r = min (target_val (from_compact c) * nat m div nat (pow_target_timespan p h)) (target_val M)"
    using doge_retarget_value [OF doge_retargeting [OF assms(1)] m [unfolded p_def] doge_bound(1) [OF assms]]
    unfolding p_def by blast
  then show ?thesis using False by (simp add: from_to_compact_val M m_def p_def)
qed

theorem doge_next_target_value_witness:
  "map_option (\<lambda>c'. target_val (from_compact c'))
     (from_next_work_required_dogecoin True True (CompactTarget 0x1b7fffff) 100 (doge_params Dogecoin) 145000) =
   Some (compact_floor (min (0x7fffff * 256 ^ 24 * 65 div 60) (0x7fffff * 256 ^ 24 + 0x7fffff * 256 ^ 24 div 2)))"
proof -
  have d: "is_digishield_activated (doge_params Dogecoin) 145000"
    by (simp add: is_digishield_activated_def doge_params_defs)
  have T: "pow_target_timespan (doge_params Dogecoin) 145000 = 60"
    using d doge_timespan_cases [of Dogecoin 145000] by simp
  have M: "target_val (max_attainable_target (doge_params Dogecoin)) = 0xFFFFF * 2 ^ 216"
    by (simp add: doge_params_defs max_attainable_val)
  define p where "p = doge_params Dogecoin"
  have "map_option (\<lambda>c'. target_val (from_compact c'))
      (from_next_work_required_dogecoin True True (CompactTarget 0x1b7fffff) 100 p 145000) =
    Some (compact_floor (min (0x7fffff * 256 ^ 24 * 65 div 60) (0x7fffff * 256 ^ 24 + 0x7fffff * 256 ^ 24 div 2)))"
    using doge_next_target_value [OF _ example_target_ok, of True True 100 145000, folded p_def]
      d [folded p_def] T [folded p_def] M [folded p_def]
    by (simp add: timespan_overflows_def damped_timespan_def min_modulated_def max_modulated_def max_threshold_val_def
        i64_range_def i64_wrap_def quot_def example_target_val)
  then show ?thesis unfolding p_def .
qed

text \<open>(C14) On Dogecoin mainnet and testnet, from an attainable previous target whose compact exponent lies
  between 4 and 34, and unless the timespan overflows \<open>i64\<close> in a build with overflow checks, retargeting
  returns a target within the network limit and the two transition thresholds of the previous target, the
  lower one up to the rounding of the compact form; the thresholds themselves do not panic.\<close>

theorem doge_next_target_bounds:
  assumes n: "n \<noteq> DogeRegtest" and c: "from_compact c \<le> max_attainable_target (doge_params n)"
    and e: "3 < compact_exp c" "compact_exp c \<le> 34"
    and ov: "\<not> timespan_overflows oc (doge_params n) h ts"
  shows "\<exists>c' lo hi. from_next_work_required_dogecoin oc da c ts (doge_params n) h = Some c' \<and>
    min_transition_threshold_dogecoin da (from_compact c) (doge_params n) h = Some lo \<and>
    max_transition_threshold_dogecoin da (from_compact c) (doge_params n) h = Some hi \<and>
    from_compact c' \<le> max_attainable_target (doge_params n) \<and>
    from_compact c' \<le> hi \<and> from_compact (to_compact_lossy lo) \<le> from_compact c'"
proof -
  define p t where "p = doge_params n" and "t = from_compact c"
  define T where "T = nat (pow_target_timespan p h)"
  note b = doge_bound [OF n c, folded p_def t_def]
  obtain lo where lo: "min_transition_threshold_dogecoin da t p h = Some lo"
    "target_val lo = min_threshold_val (target_val t) p h" using min_threshold_doge by blast
  obtain hi where hi: "max_transition_threshold_dogecoin da t p h = Some hi"
    "target_val hi = max_threshold_val (target_val t) p h" using max_threshold_doge [OF b(2,3)] by blast
  obtain m where m: "modulate_timespan oc p h ts = Some m" "min_modulated p h \<le> m"
    using modulate_timespan_Some [OF ov] unfolding p_def by blast
  obtain r where r: "from_next_work_required_dogecoin oc da c ts p h = Some (to_compact_lossy r)"
    "target_val r = min (target_val t * nat m div T) (target_val hi)"
    using doge_retarget_value [OF _ m(1), of c da hi] doge_retargeting [OF n] b(1) hi(1)
    unfolding p_def [symmetric] t_def [symmetric] T_def by blast
  have "4 dvd target_val t" unfolding t_def by (rule from_compact_dvd [OF e])
  then have "target_val lo \<le> target_val t * nat m div T"
    unfolding lo(2) T_def using m(2) n by (intro scaled_lower) (simp_all add: p_def)
  then have lo_r: "lo \<le> r"
    using min_le_max_threshold [OF b(2), of h] by (simp add: r(2) lo(2) hi(2) flip: target_val_le_iff)
  have hi_max: "hi \<le> max_attainable_target p" by (simp add: hi(2) max_threshold_val_def flip: target_val_le_iff)
  have r_hi: "r \<le> hi" by (simp add: r(2) flip: target_val_le_iff)
  have fr: "from_compact (to_compact_lossy r) \<le> r"
    by (simp add: from_to_compact_val compact_floor_le flip: target_val_le_iff)
  have "from_compact (to_compact_lossy lo) \<le> from_compact (to_compact_lossy r)"
    using lo_r by (simp add: from_to_compact_val compact_floor_mono flip: target_val_le_iff)
  then show ?thesis using r(1) lo(1) hi(1) fr r_hi hi_max unfolding p_def [symmetric] t_def [symmetric]
    by (meson order_trans)
qed

theorem doge_next_target_bounds_witness:
  "\<exists>c' lo hi. from_next_work_required_dogecoin True True (CompactTarget 0x1b7fffff) (- 500) (doge_params Dogecoin) 20000 = Some c' \<and>
    min_transition_threshold_dogecoin True (from_compact (CompactTarget 0x1b7fffff)) (doge_params Dogecoin) 20000 = Some lo \<and>
    max_transition_threshold_dogecoin True (from_compact (CompactTarget 0x1b7fffff)) (doge_params Dogecoin) 20000 = Some hi \<and>
    from_compact c' \<le> max_attainable_target (doge_params Dogecoin) \<and>
    from_compact c' \<le> hi \<and> from_compact (to_compact_lossy lo) \<le> from_compact c'"
  by (rule doge_next_target_bounds [OF _ example_target_ok])
    (simp_all add: compact_exp_def timespan_overflows_def is_digishield_activated_def doge_params_defs)

text \<open>A Dogecoin block mined exactly on schedule leaves an attainable target unchanged, before and after
  Digishield.\<close>

theorem doge_on_schedule_fixpoint:
  assumes n: "n \<noteq> DogeRegtest" and c: "from_compact c \<le> max_attainable_target (doge_params n)"
    and canon: "to_compact_lossy (from_compact c) = c"
  shows "from_next_work_required_dogecoin oc da c (pow_target_timespan (doge_params n) h) (doge_params n) h = Some c"
proof -
  define p t where "p = doge_params n" and "t = from_compact c"
  note b = doge_bound [OF n c, folded p_def t_def]
  obtain hi where hi: "max_transition_threshold_dogecoin da t p h = Some hi"
    "target_val hi = max_threshold_val (target_val t) p h" using max_threshold_doge [OF b(2,3)] by blast
  obtain r where r: "from_next_work_required_dogecoin oc da c (pow_target_timespan p h) p h = Some (to_compact_lossy r)"
    "target_val r = min (target_val t * nat (pow_target_timespan p h) div nat (pow_target_timespan p h)) (target_val hi)"
    using doge_retarget_value [OF _ modulate_on_schedule [of oc p h], of c da hi] doge_retargeting [OF n] b(1) hi(1)
    unfolding p_def [symmetric] t_def [symmetric] by blast
  have "target_val t \<le> target_val hi" using b(2) by (simp add: hi(2) max_threshold_val_def)
  moreover have "0 < nat (pow_target_timespan p h)" using timespan_cases [of p h] by auto
  ultimately have "target_val r = target_val t" by (simp add: r(2))
  then have "r = t" by (simp only: target_val_inj)
  then show ?thesis using r(1) canon by (simp add: p_def t_def)
qed

theorem doge_on_schedule_fixpoint_witness:
  "from_next_work_required_dogecoin True True (to_compact_lossy (from_compact (CompactTarget 0x1b7fffff)))
     (pow_target_timespan (doge_params Dogecoin) 150000) (doge_params Dogecoin) 150000 =
   Some (to_compact_lossy (from_compact (CompactTarget 0x1b7fffff)))"
proof (rule doge_on_schedule_fixpoint)
  show "from_compact (to_compact_lossy (from_compact (CompactTarget 0x1b7fffff)))
      \<le> max_attainable_target (doge_params Dogecoin)"
    using example_target_ok
    by (rule order_trans [rotated]) (simp add: from_to_compact_val compact_floor_le flip: target_val_le_iff)
qed (simp_all add: compact_idem)

text \<open>Bitcoin retargeting: from an attainable target, the next target is the previous one scaled by the
  timespan clamped to a quarter and four times two weeks, capped at four times the previous target and at the
  network limit, rounded to compact form; no intermediate product overflows.\<close>

theorem btc_next_target_value:
  assumes "n \<noteq> BtcRegtest" and "from_compact c \<le> b_max_attainable_target (btc_params n)"
  shows "map_option (\<lambda>c'. target_val (from_compact c')) (from_next_work_required da c ts (btc_params n)) =
    Some (compact_floor
      (min (target_val (from_compact c) * max 302400 (min (unat ts) 4838400) div 1209600)
        (min (4 * target_val (from_compact c)) (target_val (b_max_attainable_target (btc_params n))))))"
  using btc_retarget_value [OF assms, of da ts] by (auto simp: from_to_compact_val)

theorem btc_next_target_value_witness:
  "map_option (\<lambda>c'. target_val (from_compact c'))
     (from_next_work_required True (CompactTarget 0x1b7fffff) 1209600 (btc_params Bitcoin)) =
    Some (compact_floor
      (min (target_val (from_compact (CompactTarget 0x1b7fffff)) * max 302400 (min (unat (1209600 :: u64)) 4838400) div 1209600)
        (min (4 * target_val (from_compact (CompactTarget 0x1b7fffff)))
          (target_val (b_max_attainable_target (btc_params Bitcoin))))))"
proof (rule btc_next_target_value)
  show "from_compact (CompactTarget 0x1b7fffff) \<le> b_max_attainable_target (btc_params Bitcoin)"
    using example_target_val by (simp add: btc_params_defs max_attainable_val flip: target_val_le_iff)
qed simp

text \<open>The difficulty of a target is the network limit divided by it, saturated at \<open>u128::MAX\<close>; it panics
  exactly for the zero target.\<close>

theorem difficulty_value:
  "map_option unat (difficulty t p) =
     (if target_val t = 0 then None
      else Some (min (target_val (b_max_attainable_target p) div target_val t) (2 ^ 128 - 1)))"
proof (cases "target_val t = 0")
  case True
  then show ?thesis using u256_val_inj [of "target_0 t" u256_ZERO] by (simp add: difficulty_def)
next
  case False
  then have "target_0 t \<noteq> u256_ZERO" by auto
  then show ?thesis using False u256_div_val [OF False, of "target_0 (b_max_attainable_target p)"]
    by (auto simp: difficulty_def saturating_to_u128_val Let_def)
qed

text \<open>The thresholds are not rounded to compact form: from \<open>0x1b7fffff\<close> the retargeting code itself can
  yield a target below \<open>min_transition_threshold_dogecoin\<close>.\<close>

theorem doge_next_below_min_threshold:
  "\<exists>c' lo. from_next_work_required_dogecoin oc da (CompactTarget 0x1b7fffff) (- 10000) (doge_params Dogecoin) 145000 = Some c' \<and>
     min_transition_threshold_dogecoin da (from_compact (CompactTarget 0x1b7fffff)) (doge_params Dogecoin) 145000 = Some lo \<and>
     from_compact c' < lo"
proof -
  define c p where "c = CompactTarget 0x1b7fffff" and "p = doge_params Dogecoin"
  note b = doge_bound [OF _ example_target_ok, folded c_def p_def]
  have d: "is_digishield_activated p 145000" by (simp add: p_def is_digishield_activated_def doge_params_defs)
  have T: "pow_target_timespan p 145000 = 60" using d doge_timespan_cases [of Dogecoin 145000] by (simp add: p_def)
  have m: "modulate_timespan oc p 145000 (- 10000) = Some 45"
    by (simp add: modulate_timespan_eq timespan_overflows_def damped_timespan_def d T min_modulated_def
        max_modulated_def i64_range_def i64_wrap_def quot_def)
  have v: "target_val (from_compact c) = 0x7fffff * 256 ^ 24" by (simp only: c_def example_target_val)
  obtain lo where lo: "min_transition_threshold_dogecoin da (from_compact c) p 145000 = Some lo"
    "target_val lo = 0x7fffff * 256 ^ 24 - 0x7fffff * 256 ^ 24 div 4"
    using min_threshold_doge [of da "from_compact c" p 145000] d unfolding v min_threshold_val_def by auto
  obtain hi where hi: "max_transition_threshold_dogecoin da (from_compact c) p 145000 = Some hi"
    "target_val hi = min (0x7fffff * 256 ^ 24 + 0x7fffff * 256 ^ 24 div 2) (0xFFFFF * 2 ^ 216)"
    using max_threshold_doge [of "from_compact c" p da 145000] b d
    by (auto simp: v max_threshold_val_def p_def doge_params_defs max_attainable_val)
  obtain r where r: "from_next_work_required_dogecoin oc da c (- 10000) p 145000 = Some (to_compact_lossy r)"
    "target_val r = min (0x7fffff * 256 ^ 24 * 45 div 60) (target_val hi)"
    using doge_retarget_value [OF _ m b(1) hi(1)] doge_retargeting [of Dogecoin] unfolding T v by (auto simp: p_def)
  have r': "target_val r = 0x7fffff * 256 ^ 24 * 45 div 60" unfolding r(2) hi(2) by simp
  have sz: "compact_size (target_val r) = 27" by (rule compact_size_unique) (simp_all add: r')
  have "compact_floor (target_val r) = target_val r div 256 ^ 24 * 256 ^ 24"
    by (simp only: compact_floor_def sz Let_def) simp
  then have "compact_floor (target_val r) < target_val lo" unfolding lo(2) r' by simp
  then have "from_compact (to_compact_lossy r) < lo"
    by (simp only: from_to_compact_val flip: target_val_less_iff)
  then show ?thesis using r(1) lo(1) unfolding c_def p_def by blast
qed

end
