(* ===== verification/Io.thy ===== *)
theory Io
  imports Prelude
begin

text \<open>
  The input/output traits of \<open>io/src/lib.rs\<close>. A reader is a state together with \<open>read\<close>, which is asked for
  at most \<open>n\<close> bytes and returns the bytes it produced (possibly fewer) or an error. \<open>read_exact\<close> and
  \<open>read_to_end\<close> are the retry loops of the source; they may not end for a reader that keeps returning
  \<open>Interrupted\<close>, so they are partial functions into \<open>option\<close>. The locale \<open>byte_reader\<close> states what the decoders
  rely on; it is interpreted for byte slices, for \<open>Cursor\<close> and for \<open>Take\<close>. \<open>usize\<close> is 64 bits wide, so the
  conversions between \<open>u64\<close> and \<open>usize\<close> do not fail.
\<close>

section \<open>Errors and readers\<close>

datatype ErrorKind =
    NotFound | PermissionDenied | ConnectionRefused | ConnectionReset | ConnectionAborted | NotConnected
  | AddrInUse | AddrNotAvailable | BrokenPipe | AlreadyExists | WouldBlock | InvalidInput | InvalidData
  | TimedOut | WriteZero | Interrupted | UnexpectedEof | Other

type_synonym 'r read_fn = "'r \<Rightarrow> nat \<Rightarrow> ((ErrorKind + bytes) \<times> 'r) option"

partial_function (option) read_exact :: "'r read_fn \<Rightarrow> 'r \<Rightarrow> nat \<Rightarrow> bytes \<Rightarrow> ((ErrorKind + bytes) \<times> 'r) option" where
  "read_exact rd r n acc =
     (if n = 0 then Some (Inr acc, r)
      else (case rd r n of
              None \<Rightarrow> None
            | Some (Inr bs, r') \<Rightarrow> if bs = [] then Some (Inl UnexpectedEof, r')
                             else read_exact rd r' (n - length bs) (acc @ bs)
            | Some (Inl e, r') \<Rightarrow> if e = Interrupted then read_exact rd r' n acc else Some (Inl e, r')))"

section \<open>Byte slices\<close>

definition slice_read :: "bytes read_fn" where
  "slice_read s n = (let cnt = min (length s) n in Some (Inr (take cnt s), drop cnt s))"

definition slice_fill_buf :: "bytes \<Rightarrow> bytes" where "slice_fill_buf s = s"

definition slice_consume :: "bytes \<Rightarrow> nat \<Rightarrow> bytes option" where
  "slice_consume s amount = (if amount \<le> length s then Some (drop amount s) else None)"

section \<open>Cursor\<close>

record Cursor =
  inner :: bytes
  pos :: u64

definition cursor_new :: "bytes \<Rightarrow> Cursor" where "cursor_new bs = \<lparr> inner = bs, pos = 0 \<rparr>"
definition position :: "Cursor \<Rightarrow> u64" where "position c = pos c"
definition into_inner :: "Cursor \<Rightarrow> bytes" where "into_inner c = inner c"

definition saturating_add_u64 :: "u64 \<Rightarrow> nat \<Rightarrow> u64" where
  "saturating_add_u64 a k = (if unat a + k < 2 ^ 64 then a + word_of_nat k else - 1)"

definition cursor_read :: "Cursor read_fn" where
  "cursor_read c n =
     (let start_pos = unat (pos c); cnt = min (length (inner c) - start_pos) n
      in if start_pos \<le> length (inner c)
         then Some (Inr (take cnt (drop start_pos (inner c))), c \<lparr> pos := saturating_add_u64 (pos c) cnt \<rparr>)
         else None)"

definition cursor_fill_buf :: "Cursor \<Rightarrow> bytes option" where
  "cursor_fill_buf c = (if unat (pos c) \<le> length (inner c) then Some (drop (unat (pos c)) (inner c)) else None)"

definition cursor_consume :: "Cursor \<Rightarrow> nat \<Rightarrow> Cursor option" where
  "cursor_consume c amount =
     (if amount \<le> length (inner c) then Some (c \<lparr> pos := pos c + word_of_nat amount \<rparr>) else None)"

section \<open>Take\<close>

record 'r Take =
  reader :: 'r
  remaining :: u64

definition take_new :: "'r \<Rightarrow> u64 \<Rightarrow> 'r Take" where "take_new r limit = \<lparr> reader = r, remaining = limit \<rparr>"

definition take_read :: "'r read_fn \<Rightarrow> 'r Take read_fn" where
  "take_read rd t n =
     (let len = min n (unat (remaining t))
      in case rd (reader t) len of
           None \<Rightarrow> None
         | Some (Inr bs, r') \<Rightarrow> Some (Inr bs, \<lparr> reader = r', remaining = remaining t - word_of_nat (length bs) \<rparr>)
         | Some (Inl e, r') \<Rightarrow> Some (Inl e, t \<lparr> reader := r' \<rparr>))"

partial_function (option) read_to_end :: "'r read_fn \<Rightarrow> 'r \<Rightarrow> bytes \<Rightarrow> nat \<Rightarrow> ((ErrorKind + bytes \<times> nat) \<times> 'r) option" where
  "read_to_end rd r buf count =
     (case rd r 64 of
        None \<Rightarrow> None
      | Some (Inr bs, r') \<Rightarrow> if bs = [] then Some (Inr (buf, count), r')
                       else read_to_end rd r' (buf @ bs) (count + length bs)
      | Some (Inl e, r') \<Rightarrow> if e = Interrupted then read_to_end rd r' buf count else Some (Inl e, r'))"

definition read_to_limit :: "'r read_fn \<Rightarrow> 'r \<Rightarrow> bytes \<Rightarrow> u64 \<Rightarrow> ((ErrorKind + bytes \<times> nat) \<times> 'r Take) option" where
  "read_to_limit rd r buf limit = read_to_end (take_read rd) (take_new r limit) buf 0"

definition take_fill_buf :: "('r \<Rightarrow> bytes) \<Rightarrow> 'r Take \<Rightarrow> bytes" where
  "take_fill_buf fb t =
     (if remaining t = 0 then []
      else (let buf = fb (reader t); cap = min (length buf) (unat (remaining t)) in take cap buf))"

definition take_consume :: "('r \<Rightarrow> nat \<Rightarrow> 'r option) \<Rightarrow> 'r Take \<Rightarrow> nat \<Rightarrow> 'r Take option" where
  "take_consume cons_r t amount =
     (if amount \<le> unat (remaining t)
      then (case cons_r (reader t) amount of
              Some r' \<Rightarrow> Some \<lparr> reader = r', remaining = remaining t - word_of_nat amount \<rparr>
            | None \<Rightarrow> None)
      else None)"

section \<open>Writers\<close>

type_synonym 'w write_fn = "'w \<Rightarrow> bytes \<Rightarrow> (ErrorKind + nat) \<times> 'w"

partial_function (option) write_all :: "'w write_fn \<Rightarrow> 'w \<Rightarrow> bytes \<Rightarrow> ((ErrorKind + unit) \<times> 'w) option" where
  "write_all wr w buf =
     (if buf = [] then Some (Inr (), w)
      else (case wr w buf of
              (Inr len, w') \<Rightarrow> if len = 0 then Some (Inl UnexpectedEof, w') else write_all wr w' (drop len buf)
            | (Inl e, w') \<Rightarrow> if e = Interrupted then write_all wr w' buf else Some (Inl e, w')))"

definition vec_write :: "bytes write_fn" where
  "vec_write v buf = (Inr (length buf), v @ buf)"

text \<open>\<open>&mut [u8]\<close>: the filled prefix is kept beside the free space, so that the buffer is their append.\<close>

definition slice_write :: "(bytes \<times> bytes) write_fn" where
  "slice_write s buf =
     (let (filled, free) = s; cnt = min (length free) (length buf)
      in (Inr cnt, (filled @ take cnt buf, drop cnt free)))"

definition sink_write :: "unit write_fn" where
  "sink_write w buf = (Inr (length buf), w)"

declare read_exact.simps [code] read_to_end.simps [code] write_all.simps [code]

section \<open>What a decoder relies on\<close>

locale byte_reader =
  fixes rd :: "'r read_fn"
    and rest :: "'r \<Rightarrow> bytes"
    and valid :: "'r \<Rightarrow> bool"
  assumes read_step: "valid r \<Longrightarrow> \<exists>bs r'. rd r n = Some (Inr bs, r') \<and> valid r' \<and> rest r = bs @ rest r' \<and> length bs \<le> n"
    and read_progress: "valid r \<Longrightarrow> rd r n = Some (Inr [], r') \<Longrightarrow> 0 < n \<Longrightarrow> rest r = []"
begin

lemma read_exact_ok:
  assumes "valid r" and "n \<le> length (rest r)"
  shows "\<exists>r'. read_exact rd r n acc = Some (Inr (acc @ take n (rest r)), r') \<and> valid r' \<and> rest r' = drop n (rest r)"
  using assms
proof (induction n arbitrary: r acc rule: less_induct)
  case (less n)
  show ?case
  proof (cases "n = 0")
    case True
    then show ?thesis using less.prems by (simp add: read_exact.simps)
  next
    case False
    obtain bs r1 where s: "rd r n = Some (Inr bs, r1)" "valid r1" "rest r = bs @ rest r1" "length bs \<le> n"
      using read_step [OF less.prems(1)] by blast
    have ne: "bs \<noteq> []" using read_progress [of r n r1] s(1) False less.prems by auto
    have "n - length bs < n" using ne False by (cases bs) simp_all
    moreover have "n - length bs \<le> length (rest r1)" using less.prems(2) s(3) by simp
    ultimately obtain r' where "read_exact rd r1 (n - length bs) (acc @ bs) =
        Some (Inr ((acc @ bs) @ take (n - length bs) (rest r1)), r')" "valid r'"
      "rest r' = drop (n - length bs) (rest r1)"
      using less.IH s(2) by blast
    then show ?thesis using s(1,3,4) ne False by (simp add: read_exact.simps)
  qed
qed

lemma read_exact_eof:
  assumes "valid r" and "length (rest r) < n"
  shows "\<exists>r'. read_exact rd r n acc = Some (Inl UnexpectedEof, r')"
  using assms
proof (induction n arbitrary: r acc rule: less_induct)
  case (less n)
  obtain bs r1 where s: "rd r n = Some (Inr bs, r1)" "valid r1" "rest r = bs @ rest r1" "length bs \<le> n"
    using read_step [OF less.prems(1)] by blast
  show ?case
  proof (cases "bs = []")
    case True
    then show ?thesis using s(1) less.prems(2) by (simp add: read_exact.simps)
  next
    case False
    have "n - length bs < n" using False less.prems(2) by (cases bs) simp_all
    moreover have "length (rest r1) < n - length bs" using less.prems(2) s(3) by simp
    ultimately have "\<exists>r'. read_exact rd r1 (n - length bs) (acc @ bs) = Some (Inl UnexpectedEof, r')"
      using less.IH s(2) by blast
    then show ?thesis using s(1) False less.prems(2) by (simp add: read_exact.simps)
  qed
qed

lemma read_to_end_all:
  assumes "valid r"
  shows "\<exists>r'. read_to_end rd r buf k = Some (Inr (buf @ rest r, k + length (rest r)), r') \<and> valid r' \<and> rest r' = []"
  using assms
proof (induction "length (rest r)" arbitrary: r buf k rule: less_induct)
  case less
  obtain bs r1 where s: "rd r 64 = Some (Inr bs, r1)" "valid r1" "rest r = bs @ rest r1"
    using read_step [OF less.prems] by blast
  show ?case
  proof (cases "bs = []")
    case True
    then have "rest r = []" using read_progress [OF less.prems, of 64 r1] s(1) by simp
    then show ?thesis using True s by (simp add: read_to_end.simps)
  next
    case False
    have "length (rest r1) < length (rest r)" using False s(3) by (cases bs) simp_all
    then obtain r' where "read_to_end rd r1 (buf @ bs) (k + length bs) =
        Some (Inr ((buf @ bs) @ rest r1, k + length bs + length (rest r1)), r')" "valid r'" "rest r' = []"
      using less.hyps s(2) by blast
    then show ?thesis using s(1,3) False by (simp add: read_to_end.simps add.assoc)
  qed
qed

end

section \<open>The readers of the library\<close>

interpretation slice: byte_reader slice_read "\<lambda>s. s" "\<lambda>_. True"
  by unfold_locales (auto simp: slice_read_def Let_def min_def split: if_splits)

definition cursor_valid :: "Cursor \<Rightarrow> bool" where
  "cursor_valid c \<longleftrightarrow> unat (pos c) \<le> length (inner c) \<and> length (inner c) < 2 ^ 64"

definition cursor_rest :: "Cursor \<Rightarrow> bytes" where
  "cursor_rest c = drop (unat (pos c)) (inner c)"

lemma unat_saturating_add: "unat a + k < 2 ^ 64 \<Longrightarrow> unat (saturating_add_u64 a k) = unat a + k"
  by (simp add: saturating_add_u64_def unat_word_ariths unat_of_nat)

definition cursor_step :: "Cursor \<Rightarrow> nat \<Rightarrow> Cursor" where
  "cursor_step c n = c \<lparr> pos := saturating_add_u64 (pos c) (min (length (inner c) - unat (pos c)) n) \<rparr>"

lemma cursor_step:
  assumes "cursor_valid c"
  shows "cursor_read c n = Some (Inr (take n (cursor_rest c)), cursor_step c n)"
    and "cursor_valid (cursor_step c n)" and "cursor_rest (cursor_step c n) = drop n (cursor_rest c)"
proof -
  have p: "unat (pos (cursor_step c n)) = unat (pos c) + min (length (inner c) - unat (pos c)) n"
  proof -
    have "unat (pos c) + min (length (inner c) - unat (pos c)) n < 2 ^ 64"
      using assms by (auto simp: cursor_valid_def min_def)
    then show ?thesis using unat_saturating_add by (simp add: cursor_step_def)
  qed
  have i: "inner (cursor_step c n) = inner c" by (simp add: cursor_step_def)
  show "cursor_read c n = Some (Inr (take n (cursor_rest c)), cursor_step c n)"
    using assms by (auto simp: cursor_read_def cursor_step_def cursor_rest_def cursor_valid_def Let_def min_def)
  show "cursor_valid (cursor_step c n)" using assms p i by (auto simp: cursor_valid_def)
  show "cursor_rest (cursor_step c n) = drop n (cursor_rest c)"
    by (simp add: cursor_rest_def p i min_def add.commute)
qed

interpretation cursor: byte_reader cursor_read cursor_rest cursor_valid
proof
  fix c n
  assume v: "cursor_valid c"
  show "\<exists>bs r'. cursor_read c n = Some (Inr bs, r') \<and> cursor_valid r' \<and>
      cursor_rest c = bs @ cursor_rest r' \<and> length bs \<le> n"
    using cursor_step [OF v, of n] by auto
next
  fix c n c'
  assume v: "cursor_valid c" and e: "cursor_read c n = Some (Inr [], c')" "0 < n"
  then show "cursor_rest c = []" using cursor_step(1) [OF v, of n] by auto
qed

lemma take_reader:
  assumes "byte_reader rd rest valid"
  shows "byte_reader (take_read rd) (\<lambda>t. take (unat (remaining t)) (rest (reader t))) (\<lambda>t. valid (reader t))"
proof -
  from assms have A: "byte_reader rd rest valid" .
  show ?thesis
  proof
    fix t :: "'a Take" and n
    assume v: "valid (reader t)"
    define m where "m = min n (unat (remaining t))"
    obtain bs r1 where s: "rd (reader t) m = Some (Inr bs, r1)" "valid r1" "rest (reader t) = bs @ rest r1" "length bs \<le> m"
      using byte_reader.read_step [OF A v, of m] by blast
    have u: "unat (remaining t - word_of_nat (length bs)) = unat (remaining t) - length bs"
    proof -
      have "length bs < 2 ^ 64" using s(4) unat_u64_lt_num [of "remaining t"] by (simp add: m_def)
      then have "unat (word_of_nat (length bs) :: u64) = length bs" by (simp add: unat_of_nat)
      then show ?thesis using s(4) by (subst unat_sub) (simp_all add: word_le_nat_alt m_def)
    qed
    show "\<exists>bs t'. take_read rd t n = Some (Inr bs, t') \<and> valid (reader t') \<and>
        take (unat (remaining t)) (rest (reader t)) = bs @ take (unat (remaining t')) (rest (reader t')) \<and> length bs \<le> n"
      using s u by (simp add: take_read_def m_def [symmetric] Let_def) (simp add: m_def)
  next
    fix t :: "'a Take" and n t'
    assume v: "valid (reader t)" and e: "take_read rd t n = Some (Inr [], t')" and n: "0 < n"
    define m where "m = min n (unat (remaining t))"
    obtain bs r1 where s: "rd (reader t) m = Some (Inr bs, r1)" using byte_reader.read_step [OF A v, of m] by blast
    have "bs = []" using e s by (simp add: take_read_def m_def [symmetric] Let_def)
    then show "take (unat (remaining t)) (rest (reader t)) = []"
      using byte_reader.read_progress [OF A v, of m r1] s n by (cases "unat (remaining t) = 0") (simp_all add: m_def)
  qed
qed

interpretation take_slice: byte_reader "take_read slice_read" "\<lambda>t. take (unat (remaining t)) (reader t)" "\<lambda>_. True"
  using take_reader [OF slice.byte_reader_axioms] by simp

interpretation take_cursor: byte_reader "take_read cursor_read"
  "\<lambda>t. take (unat (remaining t)) (cursor_rest (reader t))" "\<lambda>t. cursor_valid (reader t)"
  by (rule take_reader [OF cursor.byte_reader_axioms])

section \<open>Writing everything\<close>

lemma vec_write_all: "write_all vec_write v buf = Some (Inr (), v @ buf)"
  by (cases buf) (simp_all add: write_all.simps vec_write_def)

lemma sink_write_all: "write_all sink_write w buf = Some (Inr (), w)"
  by (cases buf) (simp_all add: write_all.simps sink_write_def)

lemma slice_write_all:
  "write_all slice_write (filled, free) buf =
     (if length buf \<le> length free then Some (Inr (), (filled @ buf, drop (length buf) free))
      else Some (Inl UnexpectedEof, (filled @ take (length free) buf, [])))"
proof (cases "buf = []")
  case False
  show ?thesis
  proof (cases "length buf \<le> length free")
    case True
    then show ?thesis using False by (simp add: write_all.simps slice_write_def Let_def)
  next
    case lt: False
    then have "drop (length free) buf \<noteq> []" by simp
    then show ?thesis using False lt
      by (simp add: write_all.simps [of slice_write "(filled, free)"]
          write_all.simps [of slice_write "(filled @ take (length free) buf, [])"] slice_write_def Let_def)
  qed
qed (simp add: write_all.simps)

section \<open>Properties\<close>

text \<open>\<open>read_exact\<close> on a byte slice, a \<open>Cursor\<close> or a \<open>Take\<close> around one terminates and either returns
  exactly the next \<open>n\<close> bytes or fails with \<open>UnexpectedEof\<close>; a \<open>Take\<close> never lets a reader past its limit.\<close>

theorem read_exact_take_cursor:
  assumes "cursor_valid (reader t)"
  defines "avail \<equiv> take (unat (remaining t)) (cursor_rest (reader t))"
  shows "(n \<le> length avail \<longrightarrow>
      (\<exists>t'. read_exact (take_read cursor_read) t n [] = Some (Inr (take n avail), t') \<and>
        take (unat (remaining t')) (cursor_rest (reader t')) = drop n avail)) \<and>
    (length avail < n \<longrightarrow>
      (\<exists>t'. read_exact (take_read cursor_read) t n [] = Some (Inl UnexpectedEof, t')))"
  using take_cursor.read_exact_ok [of t n "[]"] take_cursor.read_exact_eof [of t n "[]"] assms
  unfolding avail_def by simp blast

theorem read_exact_take_cursor_witness:
  "\<exists>t'. read_exact (take_read cursor_read) (take_new (cursor_new [1, 2, 3, 4]) 3) 2 [] = Some (Inr [1, 2], t')"
  using read_exact_take_cursor [of "take_new (cursor_new [1, 2, 3, 4]) 3" 2]
  by (auto simp: take_new_def cursor_new_def cursor_valid_def cursor_rest_def)

text \<open>\<open>read_to_limit\<close> on a byte slice terminates, appends exactly the first \<open>limit\<close> bytes (or all there
  are) in 64-byte chunks and reports their number.\<close>

theorem read_to_limit_slice:
  "\<exists>t. read_to_limit slice_read s buf limit =
     Some (Inr (buf @ take (unat limit) s, min (unat limit) (length s)), t)"
  using take_slice.read_to_end_all [of "take_new s limit" buf 0]
  by (auto simp: read_to_limit_def take_new_def min.commute)

text \<open>\<open>write_all\<close> appends everything to a vector, and on a fixed buffer writes everything that fits and
  fails with \<open>UnexpectedEof\<close> exactly when something does not.\<close>

theorem write_all_effect:
  "write_all vec_write v buf = Some (Inr (), v @ buf) \<and>
   write_all slice_write (filled, free) buf =
     (if length buf \<le> length free then Some (Inr (), (filled @ buf, drop (length buf) free))
      else Some (Inl UnexpectedEof, (filled @ take (length free) buf, [])))"
  by (simp only: vec_write_all slice_write_all)

end
