(* ===== verification/Sha256.thy ===== *)
theory Sha256
  imports Engine
begin

text \<open>
  SHA-256 and double SHA-256 of \<open>hashes/src/sha256.rs\<close>, \<open>hashes/src/sha256d.rs\<close> and the buffering loop of
  \<open>hashes/src/util.rs\<close>: the engine with its 64-byte buffer, the software block function with its sixteen-word
  circular schedule, finalisation, and the separate \<open>const_hash\<close> evaluator. The macro \<open>round!\<close> is called with
  its eight registers rotated by one place each time; the model rotates the tuple instead, which is the
  same assignment after each group of eight rounds. The x86 intrinsics path, to which \<open>process_block\<close>
  dispatches in a build with \<open>std\<close> on a processor with SHA instructions, is not modelled. Lengths are \<open>usize\<close> counters that do not overflow in memory, so they are \<open>nat\<close>.
\<close>

section \<open>Round functions\<close>

definition Ch :: "u32 \<Rightarrow> u32 \<Rightarrow> u32 \<Rightarrow> u32" where "Ch x y z = z XOR (x AND (y XOR z))"
definition Maj :: "u32 \<Rightarrow> u32 \<Rightarrow> u32 \<Rightarrow> u32" where "Maj x y z = (x AND y) OR (z AND (x OR y))"
definition Sigma0 :: "u32 \<Rightarrow> u32" where
  "Sigma0 x = word_rotl 30 x XOR word_rotl 19 x XOR word_rotl 10 x"
definition Sigma1 :: "u32 \<Rightarrow> u32" where
  "Sigma1 x = word_rotl 26 x XOR word_rotl 21 x XOR word_rotl 7 x"
definition sigma0 :: "u32 \<Rightarrow> u32" where
  "sigma0 x = word_rotl 25 x XOR word_rotl 14 x XOR drop_bit 3 x"
definition sigma1 :: "u32 \<Rightarrow> u32" where
  "sigma1 x = word_rotl 15 x XOR word_rotl 13 x XOR drop_bit 10 x"

type_synonym regs = "u32 \<times> u32 \<times> u32 \<times> u32 \<times> u32 \<times> u32 \<times> u32 \<times> u32"

fun round_first :: "u32 \<Rightarrow> u32 \<Rightarrow> regs \<Rightarrow> regs" where
  "round_first k w (a, b, c, d, e, f, g, h) =
     (let t1 = h + Sigma1 e + Ch e f g + k + w; t2 = Sigma0 a + Maj a b c
      in (t1 + t2, a, b, c, d + t1, e, f, g))"

definition round_later :: "u32 \<Rightarrow> nat \<Rightarrow> nat \<Rightarrow> nat \<Rightarrow> nat \<Rightarrow> regs \<times> u32 list \<Rightarrow> regs \<times> u32 list" where
  "round_later k i i1 i2 i3 s =
     (let (r, w) = s; w' = w[i := w ! i + sigma1 (w ! i1) + w ! i2 + sigma0 (w ! i3)]
      in (round_first k (w' ! i) r, w'))"

text \<open>The constant and the word of the schedule in each of the 64 unrolled calls of \<open>round!\<close>.\<close>

definition round_calls :: "(u32 \<times> nat) list" where
  "round_calls = [
      (0x428a2f98, 0), (0x71374491, 1), (0xb5c0fbcf, 2), (0xe9b5dba5, 3),
      (0x3956c25b, 4), (0x59f111f1, 5), (0x923f82a4, 6), (0xab1c5ed5, 7),
      (0xd807aa98, 8), (0x12835b01, 9), (0x243185be, 10), (0x550c7dc3, 11),
      (0x72be5d74, 12), (0x80deb1fe, 13), (0x9bdc06a7, 14), (0xc19bf174, 15),
      (0xe49b69c1, 0), (0xefbe4786, 1), (0x0fc19dc6, 2), (0x240ca1cc, 3),
      (0x2de92c6f, 4), (0x4a7484aa, 5), (0x5cb0a9dc, 6), (0x76f988da, 7),
      (0x983e5152, 8), (0xa831c66d, 9), (0xb00327c8, 10), (0xbf597fc7, 11),
      (0xc6e00bf3, 12), (0xd5a79147, 13), (0x06ca6351, 14), (0x14292967, 15),
      (0x27b70a85, 0), (0x2e1b2138, 1), (0x4d2c6dfc, 2), (0x53380d13, 3),
      (0x650a7354, 4), (0x766a0abb, 5), (0x81c2c92e, 6), (0x92722c85, 7),
      (0xa2bfe8a1, 8), (0xa81a664b, 9), (0xc24b8b70, 10), (0xc76c51a3, 11),
      (0xd192e819, 12), (0xd6990624, 13), (0xf40e3585, 14), (0x106aa070, 15),
      (0x19a4c116, 0), (0x1e376c08, 1), (0x2748774c, 2), (0x34b0bcb5, 3),
      (0x391c0cb3, 4), (0x4ed8aa4a, 5), (0x5b9cca4f, 6), (0x682e6ff3, 7),
      (0x748f82ee, 8), (0x78a5636f, 9), (0x84c87814, 10), (0x8cc70208, 11),
      (0x90befffa, 12), (0xa4506ceb, 13), (0xbef9a3f7, 14), (0xc67178f2, 15)]"

definition K256 :: "u32 list" where "K256 = map fst round_calls"

lemma round_calls_words: "map snd round_calls = map (\<lambda>t. t mod 16) [0..<64]"
  by code_simp

text \<open>The 64 unrolled calls of \<open>round!\<close>: the first sixteen read \<open>w[t]\<close>, the others first advance
  \<open>w[t mod 16]\<close>.\<close>

definition sha_round :: "nat \<Rightarrow> regs \<times> u32 list \<Rightarrow> regs \<times> u32 list" where
  "sha_round t s =
     (if t < 16 then (round_first (K256 ! t) (snd s ! t) (fst s), snd s)
      else round_later (K256 ! t) (t mod 16) ((t + 14) mod 16) ((t + 9) mod 16) ((t + 1) mod 16) s)"

fun add_regs :: "regs \<Rightarrow> regs \<Rightarrow> regs" where
  "add_regs (a0, a1, a2, a3, a4, a5, a6, a7) (a, b, c, d, e, f, g, h) =
     (a0 + a, a1 + b, a2 + c, a3 + d, a4 + e, a5 + f, a6 + g, a7 + h)"

definition rounds :: "regs \<Rightarrow> u32 list \<Rightarrow> regs" where
  "rounds st w = add_regs st (fst (fold sha_round [0..<64] (st, w)))"

section \<open>The engine\<close>

definition BLOCK_SIZE :: nat where "BLOCK_SIZE = 64"

type_synonym HashEngine = "regs engine"

definition H0 :: regs where
  "H0 = (0x6a09e667, 0xbb67ae85, 0x3c6ef372, 0xa54ff53a, 0x510e527f, 0x9b05688c, 0x1f83d9ab, 0x5be0cd19)"

definition engine_default :: HashEngine where
  "engine_default = \<lparr> buffer = replicate BLOCK_SIZE 0, h_regs = H0, length_n = 0 \<rparr>"

fun words_be :: "bytes \<Rightarrow> u32 list" where
  "words_be (b0 # b1 # b2 # b3 # bs) = from_be_bytes [b0, b1, b2, b3] # words_be bs"
| "words_be _ = []"

definition software_process_block :: "regs \<Rightarrow> bytes \<Rightarrow> regs" where
  "software_process_block h buf = rounds h (words_be buf)"

definition input :: "HashEngine \<Rightarrow> bytes \<Rightarrow> HashEngine" where
  "input e inp = engine_input BLOCK_SIZE software_process_block e inp"

fun regs_bytes :: "regs \<Rightarrow> bytes" where
  "regs_bytes (a, b, c, d, e, f, g, h) = concat (map to_be_bytes [a, b, c, d, e, f, g, h])"

definition midstate :: "HashEngine \<Rightarrow> bytes" where
  "midstate e = regs_bytes (h_regs e)"

definition n_bytes_hashed :: "HashEngine \<Rightarrow> nat" where "n_bytes_hashed e = length_n e"

definition from_engine :: "HashEngine \<Rightarrow> bytes" where
  "from_engine e =
     (let data_len = word_of_nat (length_n e) :: u64;
          e = engine_pad BLOCK_SIZE (BLOCK_SIZE - 8) software_process_block e;
          e = input e (to_be_bytes (8 * data_len))
      in midstate e)"

definition sha256_hash :: "bytes \<Rightarrow> bytes" where
  "sha256_hash data = from_engine (input engine_default data)"

definition hash_byte_chunks :: "bytes list \<Rightarrow> bytes" where
  "hash_byte_chunks chunks = from_engine (fold (\<lambda>s e. input e s) chunks engine_default)"

definition from_midstate :: "bytes \<Rightarrow> nat \<Rightarrow> HashEngine option" where
  "from_midstate ms len =
     (if len mod BLOCK_SIZE = 0
      then (let w = words_be ms
            in Some \<lparr> buffer = replicate BLOCK_SIZE 0,
                      h_regs = (w ! 0, w ! 1, w ! 2, w ! 3, w ! 4, w ! 5, w ! 6, w ! 7), length_n = len \<rparr>)
      else None)"

definition midstate_from_slice :: "bytes \<Rightarrow> (nat \<times> nat) + bytes" where
  "midstate_from_slice sl = (if length sl \<noteq> 32 then Inl (32, length sl) else Inr sl)"

section \<open>Double SHA-256\<close>

definition sha256d_from_engine :: "HashEngine \<Rightarrow> bytes" where
  "sha256d_from_engine e = (let sha2 = from_engine e; sha2d = sha256_hash sha2 in sha2d)"

definition sha256d_hash :: "bytes \<Rightarrow> bytes" where
  "sha256d_hash data = sha256d_from_engine (input engine_default data)"

definition hash_again :: "bytes \<Rightarrow> bytes" where
  "hash_again h = sha256_hash h"

section \<open>Evaluation in constant context\<close>

definition read_u32 :: "bytes \<Rightarrow> nat \<Rightarrow> u32" where
  "read_u32 bs index =
     push_bit 24 (ucast (bs ! (index + 0))) OR push_bit 16 (ucast (bs ! (index + 1))) OR
     push_bit 8 (ucast (bs ! (index + 2))) OR push_bit 0 (ucast (bs ! (index + 3)))"

definition copy_w :: "bytes \<Rightarrow> nat \<Rightarrow> u32 list" where
  "copy_w bs index = map (\<lambda>i. read_u32 bs (index + i * 4)) [0..<16]"

definition const_block :: "bytes \<Rightarrow> nat \<Rightarrow> nat \<Rightarrow> bytes" where
  "const_block bs num_chunks chunk =
     (let offset = chunk * 64;
          i = length bs - offset;
          buf = write_at 0 (drop offset bs) (replicate 64 0);
          buf1 = (if length bs mod 64 \<le> 64 - 9 \<or> chunk + 2 = num_chunks then buf[i := 0x80] else buf);
          bit_len = word_of_nat (length bs) * 8 :: u64
      in if chunk + 1 = num_chunks
         then buf1[64 - 8 := ucast (drop_bit (8 * 7) bit_len AND 0xFF), 64 - 7 := ucast (drop_bit (8 * 6) bit_len AND 0xFF),
                   64 - 6 := ucast (drop_bit (8 * 5) bit_len AND 0xFF), 64 - 5 := ucast (drop_bit (8 * 4) bit_len AND 0xFF),
                   64 - 4 := ucast (drop_bit (8 * 3) bit_len AND 0xFF), 64 - 3 := ucast (drop_bit (8 * 2) bit_len AND 0xFF),
                   64 - 2 := ucast (drop_bit (8 * 1) bit_len AND 0xFF), 64 - 1 := ucast (drop_bit (8 * 0) bit_len AND 0xFF)]
         else buf1)"

function const_hash_loop :: "bytes \<Rightarrow> bool \<Rightarrow> nat \<Rightarrow> nat \<Rightarrow> regs \<Rightarrow> regs" where
  "const_hash_loop bs finalize num_chunks chunk st =
     (if chunk < num_chunks then
        if \<not> finalize \<and> chunk + 1 = num_chunks then st
        else (let w = (if chunk * 64 + 64 \<le> length bs then copy_w bs (chunk * 64)
                       else copy_w (const_block bs num_chunks chunk) 0)
              in const_hash_loop bs finalize num_chunks (chunk + 1) (rounds st w))
      else st)"
  by pat_completeness auto
termination
  by (relation "measure (\<lambda>(bs, f, n, c, st). n - c)") auto

declare const_hash_loop.simps [simp del]

fun const_output :: "regs \<Rightarrow> bytes" where
  "const_output (a, b, c, d, e, f, g, h) =
     concat (map (\<lambda>s. [ucast (drop_bit 24 s), ucast (drop_bit 16 s), ucast (drop_bit 8 s), ucast (drop_bit 0 s)])
       [a, b, c, d, e, f, g, h])"

definition midstate_const_hash :: "bytes \<Rightarrow> bool \<Rightarrow> bytes" where
  "midstate_const_hash bs finalize =
     (let num_chunks = (length bs + 9 + 63) div 64
      in const_output (const_hash_loop bs finalize num_chunks 0 H0))"

definition const_hash :: "bytes \<Rightarrow> bytes" where
  "const_hash bs = midstate_const_hash bs True"

definition hash_tag :: "bytes \<Rightarrow> bytes" where
  "hash_tag tag =
     (let h = const_hash tag; buf = map (\<lambda>i. h ! (i mod length h)) [0..<64]
      in midstate_const_hash buf False)"

section \<open>The engine absorbs the padded message\<close>

interpretation sha: block_engine 64 56 software_process_block
  by unfold_locales simp_all

lemmas absorb_short [simp] = sha.absorb_lt
lemmas absorb_append = sha.absorb_app

abbreviation absorb :: "regs \<Rightarrow> bytes \<Rightarrow> regs" where "absorb \<equiv> absorb_blocks 64 software_process_block"

lemma absorb_block: "length b = 64 \<Longrightarrow> absorb st (b @ m) = absorb (rounds st (words_be b)) m"
  by (simp add: sha.absorb_one software_process_block_def)

lemma absorb_unfold: "absorb st m = (if length m < 64 then st else absorb (rounds st (words_be (take 64 m))) (drop 64 m))"
  by (simp add: absorb_blocks.simps [of 64 software_process_block st m] software_process_block_def)

lemma input_at: "sha.engine_at st n0 m e \<Longrightarrow> sha.engine_at st n0 (m @ x) (input e x)"
  by (simp add: input_def BLOCK_SIZE_def sha.feed_at)

lemma engine_default_at: "sha.engine_at H0 0 [] engine_default"
  using sha.fresh_at by (simp add: engine_default_def BLOCK_SIZE_def)

definition sha_pad :: "nat \<Rightarrow> bytes" where
  "sha_pad n = 0x80 # replicate (pad_zeros 64 56 n) 0 @ to_be_bytes (8 * word_of_nat n :: u64)"

lemma from_engine_eq:
  assumes e: "sha.engine_at st n0 m e"
  shows "from_engine e = regs_bytes (absorb st (m @ sha_pad (length_n e)))"
  using sha.finish_at(1) [OF e, of "to_be_bytes (8 * word_of_nat (length_n e) :: u64)"]
  by (simp add: from_engine_def input_def midstate_def sha_pad_def BLOCK_SIZE_def Let_def)

lemma sha_pad_aligned: "64 dvd n + length (sha_pad n)"
proof -
  have "(n + 1 + pad_zeros 64 56 n + 8) mod 64 = 0" by (simp only: mod_add_left_eq [of "n + 1 + pad_zeros 64 56 n" 64 8, symmetric] sha.pad_ends) simp
  then show ?thesis by (simp add: sha_pad_def dvd_eq_mod_eq_0 ac_simps)
qed

lemma sha256_hash_eq: "sha256_hash m = regs_bytes (absorb H0 (m @ sha_pad (length m)))"
proof -
  have "sha.engine_at H0 0 m (input engine_default m)" using input_at [OF engine_default_at, of m] by simp
  moreover from this have "length_n (input engine_default m) = length m" by (simp add: sha.engine_at_def)
  ultimately show ?thesis using from_engine_eq by (simp add: sha256_hash_def)
qed

lemma length_regs_bytes [simp]: "length (regs_bytes r) = 32"
  by (cases r rule: regs_bytes.cases) simp

lemma length_sha256 [simp]: "length (sha256_hash m) = 32"
  by (simp add: sha256_hash_eq)

lemma sha256d_hash_eq: "sha256d_hash m = sha256_hash (sha256_hash m)"
  by (simp add: sha256d_hash_def sha256d_from_engine_def sha256_hash_def)

lemma length_sha256d [simp]: "length (sha256d_hash m) = 32"
  by (simp add: sha256d_hash_eq)

lemma fold_input_at: "sha.engine_at st n0 m e \<Longrightarrow> sha.engine_at st n0 (m @ concat xs) (fold (\<lambda>s e. input e s) xs e)"
  using sha.fold_feed_at by (simp add: input_def BLOCK_SIZE_def)

lemma hash_byte_chunks_eq: "hash_byte_chunks xs = sha256_hash (concat xs)"
proof -
  have "sha.engine_at H0 0 (concat xs) (fold (\<lambda>s e. input e s) xs engine_default)"
    using fold_input_at [OF engine_default_at, of xs] by simp
  moreover from this have "length_n (fold (\<lambda>s e. input e s) xs engine_default) = length (concat xs)"
    by (simp add: sha.engine_at_def)
  ultimately show ?thesis using from_engine_eq by (simp add: hash_byte_chunks_def sha256_hash_eq)
qed

interpretation sha256: hasher engine_default input from_engine sha256_hash 32
  using hash_byte_chunks_eq by unfold_locales (simp_all add: hash_byte_chunks_def)

interpretation sha256d: hasher engine_default input sha256d_from_engine sha256d_hash 32
  by unfold_locales (simp_all add: sha256d_from_engine_def sha256.fin_fold sha256d_hash_eq)

section \<open>The constant evaluator computes the same hash\<close>

lemma ucast_eq_of_nat: "(ucast (w :: 'a::len word) :: 'b::len word) = word_of_nat (unat w)"
  by (simp add: word_unat_eq_iff unat_ucast_mod unat_of_nat)

lemma nat_le_map: "nat_le n k = map (\<lambda>i. word_of_nat (k div 2 ^ (8 * i))) [0..<n]"
proof (induction n arbitrary: k)
  case (Suc n)
  have "[0..<Suc n] = 0 # map Suc [0..<n]" by (simp only: upt_conv_Cons map_Suc_upt zero_less_Suc)
  moreover have "k div 256 div 2 ^ (8 * i) = k div 2 ^ (8 * Suc i)" for i
    by (simp add: div_mult2_eq power_add)
  ultimately show ?case using Suc.IH [of "k div 256"] by (simp only: nat_le.simps list.map map_map comp_def) simp
qed simp

lemma to_le_bytes_map:
  "to_le_bytes (w :: 'a::len word) = map (\<lambda>i. ucast (drop_bit (8 * i) w)) [0..<LENGTH('a) div 8]"
  by (simp only: to_le_bytes_def nat_le_map ucast_eq_of_nat [where 'b = 8] unat_drop_bit_div)

lemma upt_4: "[0..<4] = [0, 1, 2, 3]" and upt_8: "[0..<8] = [0, 1, 2, 3, 4, 5, 6, 7]"
  by (simp_all add: upt_rec)

lemma to_be_bytes_u32: "to_be_bytes (w :: u32) =
  [ucast (drop_bit 24 w), ucast (drop_bit 16 w), ucast (drop_bit 8 w), ucast (drop_bit 0 w)]"
  by (simp add: to_be_bytes_def to_le_bytes_map upt_4)

lemma to_be_bytes_u64: "to_be_bytes (w :: u64) =
  [ucast (drop_bit (8 * 7) w), ucast (drop_bit (8 * 6) w), ucast (drop_bit (8 * 5) w), ucast (drop_bit (8 * 4) w),
   ucast (drop_bit (8 * 3) w), ucast (drop_bit (8 * 2) w), ucast (drop_bit (8 * 1) w), ucast (drop_bit (8 * 0) w)]"
  by (simp add: to_be_bytes_def to_le_bytes_map upt_8)

lemma const_output_eq: "const_output r = regs_bytes r"
  by (cases r rule: regs_bytes.cases) (simp add: to_be_bytes_u32)

lemma ucast_and_ff: "(ucast ((w :: u64) AND 0xFF) :: u8) = ucast w"
proof -
  have "w AND 0xFF = take_bit 8 w" by (simp add: take_bit_eq_mask mask_eq_exp_minus_1)
  then show ?thesis by (simp add: word_unat_eq_iff unat_ucast_mod unat_take_bit_mod)
qed

lemma from_be_bytes_4:
  "(from_be_bytes [b0, b1, b2, b3] :: u32) =
     push_bit 24 (ucast b0) + push_bit 16 (ucast b1) + push_bit 8 (ucast b2) + push_bit 0 (ucast b3)"
  by (simp add: from_be_bytes_def from_le_bytes_def push_bit_eq_mult algebra_simps)

lemma bit_ucast_8_32: "bit (ucast (b :: u8) :: u32) i \<longleftrightarrow> i < 8 \<and> bit b i"
  using bit_imp_le_length [of b i] by (auto simp: bit_simps)

lemma or_bytes:
  fixes b0 b1 b2 b3 :: u8
  shows "push_bit 24 (ucast b0) OR push_bit 16 (ucast b1) OR push_bit 8 (ucast b2) OR push_bit 0 (ucast b3) =
    (push_bit 24 (ucast b0) + push_bit 16 (ucast b1) + push_bit 8 (ucast b2) + push_bit 0 (ucast b3) :: u32)"
proof -
  let ?a = "push_bit 24 (ucast b0) :: u32" and ?b = "push_bit 16 (ucast b1) :: u32"
    and ?c = "push_bit 8 (ucast b2) :: u32" and ?d = "push_bit 0 (ucast b3) :: u32"
  have bits: "bit ?a i \<Longrightarrow> 24 \<le> i" "bit ?b i \<Longrightarrow> 16 \<le> i \<and> i < 24" "bit ?c i \<Longrightarrow> 8 \<le> i \<and> i < 16" "bit ?d i \<Longrightarrow> i < 8" for i
    by (auto simp: bit_push_bit_iff bit_ucast_8_32)
  have "?a OR ?b OR ?c OR ?d = ((?a OR ?b) OR ?c) OR ?d" by (simp only: or.assoc)
  also have "\<dots> = ((?a OR ?b) OR ?c) + ?d"
    by (rule disjunctive_add [symmetric]) (use bits in \<open>force simp: bit_or_iff\<close>)
  also have "(?a OR ?b) OR ?c = (?a OR ?b) + ?c"
    by (rule disjunctive_add [symmetric]) (use bits in \<open>force simp: bit_or_iff\<close>)
  also have "?a OR ?b = ?a + ?b"
    by (rule disjunctive_add [symmetric]) (use bits in \<open>force simp: bit_or_iff\<close>)
  finally show ?thesis .
qed

lemma words_be_nth: "i < length bs div 4 \<Longrightarrow>
  words_be bs ! i = from_be_bytes [bs ! (4 * i), bs ! (4 * i + 1), bs ! (4 * i + 2), bs ! (4 * i + 3)]"
proof (induction bs arbitrary: i rule: words_be.induct)
  case (1 b0 b1 b2 b3 bs)
  then show ?case by (cases i) (auto simp: add.commute)
qed auto

lemma length_words_be [simp]: "length (words_be bs) = length bs div 4"
  by (induction bs rule: words_be.induct) auto

lemma copy_w_eq:
  assumes "index + 64 \<le> length bs"
  shows "copy_w bs index = words_be (take 64 (drop index bs))"
proof (rule nth_equalityI)
  show "length (copy_w bs index) = length (words_be (take 64 (drop index bs)))"
    using assms by (simp add: copy_w_def)
  fix i assume "i < length (copy_w bs index)"
  then have i: "i < 16" by (simp add: copy_w_def)
  then have "copy_w bs index ! i = from_be_bytes [bs ! (index + i * 4 + 0), bs ! (index + i * 4 + 1),
      bs ! (index + i * 4 + 2), bs ! (index + i * 4 + 3)]"
    by (simp only: copy_w_def nth_map nth_upt length_upt diff_zero add_0 read_u32_def or_bytes from_be_bytes_4)
  also have "\<dots> = words_be (take 64 (drop index bs)) ! i"
    using i assms by (simp add: words_be_nth mult.commute add.assoc)
  finally show "copy_w bs index ! i = words_be (take 64 (drop index bs)) ! i" .
qed

lemma update_last8:
  assumes "length b = 64"
  shows "b[64 - 8 := x0, 64 - 7 := x1, 64 - 6 := x2, 64 - 5 := x3, 64 - 4 := x4, 64 - 3 := x5, 64 - 2 := x6, 64 - 1 := x7]
    = take 56 b @ [x0, x1, x2, x3, x4, x5, x6, x7]"
proof -
  obtain a0 a1 a2 a3 a4 a5 a6 a7 where "drop 56 b = [a0, a1, a2, a3, a4, a5, a6, a7]"
    using assms length_drop [of 56 b] by (auto simp: numeral_eq_Suc length_Suc_conv)
  then have b: "b = take 56 b @ [a0, a1, a2, a3, a4, a5, a6, a7]" using append_take_drop_id [of 56 b] by simp
  have l: "length (take 56 b) = 56" using assms by simp
  define p where "p = take 56 b"
  have "(p @ [a0, a1, a2, a3, a4, a5, a6, a7])[56 := x0, 57 := x1, 58 := x2, 59 := x3, 60 := x4, 61 := x5, 62 := x6, 63 := x7]
      = p @ [x0, x1, x2, x3, x4, x5, x6, x7]"
    using l by (simp add: list_update_append p_def)
  then show ?thesis using b unfolding p_def by simp
qed

lemma const_block_last:
  assumes "length b1 = 64"
    and "b1 = (let buf = write_at 0 (drop (c * 64) bs) (replicate 64 0)
               in if length bs mod 64 \<le> 64 - 9 \<or> c + 2 = n then buf[length bs - c * 64 := 0x80] else buf)"
  shows "const_block bs n c =
    (if c + 1 = n then take 56 b1 @ to_be_bytes (8 * word_of_nat (length bs) :: u64) else b1)"
proof -
  define x where "x = (word_of_nat (length bs) * 8 :: u64)"
  have x: "8 * word_of_nat (length bs) = x" by (simp add: x_def mult.commute)
  show ?thesis
    unfolding const_block_def Let_def assms(2) [symmetric, unfolded Let_def] x_def [symmetric] x
      update_last8 [OF assms(1)] ucast_and_ff to_be_bytes_u64 ..
qed

lemma const_block_eq:
  fixes bs :: bytes
  defines "L \<equiv> length bs"
  defines "n \<equiv> (L + 9 + 63) div 64"
  assumes c: "c < n" and part: "\<not> c * 64 + 64 \<le> L"
  shows "const_block bs n c = take 64 (drop (c * 64) (bs @ sha_pad L))"
proof -
  define q r where "q = L div 64" and "r = L mod 64"
  have L: "L = 64 * q + r" "r < 64" by (simp_all add: q_def r_def)
  have n: "n = (if r \<le> 55 then q + 1 else q + 2)" using L by (auto simp: n_def)
  define lb where "lb = to_be_bytes (8 * word_of_nat L :: u64)"
  have lb: "length lb = 8" by (simp add: lb_def)
  have pz: "pad_zeros 64 56 L = (if r \<le> 55 then 55 - r else 119 - r)" by (simp add: pad_zeros_def r_def)
  define t where "t = drop (q * 64) bs"
  have t: "length t = r" using L by (simp add: t_def L_def)
  have w: "write_at 0 t (replicate 64 0) = t @ replicate (64 - r) 0" using t L(2) by (simp add: write_at_def)
  have u: "(t @ replicate (64 - r) 0)[r := 0x80] = t @ 0x80 # replicate (63 - r) 0"
  proof -
    have "64 - r = Suc (63 - r)" using L(2) by simp
    then show ?thesis using t by (simp add: list_update_append)
  qed
  have cq: "c = q \<or> c = q + 1 \<and> 55 < r" using c part L n by (auto split: if_splits)
  then show ?thesis
  proof
    assume cq: "c = q"
    have b1: "t @ 0x80 # replicate (63 - r) 0 = (let buf = write_at 0 (drop (c * 64) bs) (replicate 64 0)
        in if length bs mod 64 \<le> 64 - 9 \<or> c + 2 = n then buf[length bs - c * 64 := 0x80] else buf)"
      using cq n w u L by (simp add: L_def [symmetric] r_def [symmetric] t_def [symmetric] Let_def)
    have sp: "drop (c * 64) (bs @ sha_pad L) = t @ 0x80 # replicate (pad_zeros 64 56 L) 0 @ lb"
      using cq L by (simp add: sha_pad_def t_def lb_def L_def [symmetric])
    have cb: "const_block bs n c = (if c + 1 = n then take 56 (t @ 0x80 # replicate (63 - r) 0) @ lb
        else t @ 0x80 # replicate (63 - r) 0)"
      unfolding lb_def L_def by (rule const_block_last [OF _ b1]) (use t L(2) in simp)
    show ?thesis
    proof (cases "r \<le> 55")
      case True
      then have "take 56 (t @ 0x80 # replicate (63 - r) 0) = t @ 0x80 # replicate (55 - r) 0"
        using t by (simp add: take_Cons' numeral_eq_Suc [of "num.One"])
      then show ?thesis using True n cq t lb unfolding cb sp pz by (simp add: take_Cons')
    next
      case False
      then show ?thesis using n cq t lb L(2) unfolding cb sp pz by (simp add: take_Cons')
    qed
  next
    assume cq: "c = q + 1 \<and> 55 < r"
    have d: "drop (c * 64) bs = []" using cq L by (simp add: L_def)
    have b1: "replicate 64 0 = (let buf = write_at 0 (drop (c * 64) bs) (replicate 64 0)
        in if length bs mod 64 \<le> 64 - 9 \<or> c + 2 = n then buf[length bs - c * 64 := 0x80] else buf)"
      using cq n unfolding d by (simp add: write_at_def L_def [symmetric] r_def [symmetric])
    have cb: "const_block bs n c = (if c + 1 = n then take 56 (replicate 64 0) @ lb else replicate 64 0)"
      unfolding lb_def L_def by (rule const_block_last [OF _ b1]) simp
    have "drop (c * 64) (bs @ sha_pad L) = drop (64 - r) (sha_pad L)"
      using cq L d by (simp add: L_def [symmetric])
    also have "\<dots> = replicate 56 0 @ lb"
    proof -
      have "64 - r = Suc (63 - r)" using L(2) by simp
      then show ?thesis using cq L(2) by (simp add: sha_pad_def pz lb_def)
    qed
    finally show ?thesis using cq n lb unfolding cb by simp
  qed
qed

lemma length_padded: "length (bs @ sha_pad (length bs)) = 64 * ((length bs + 9 + 63) div 64)"
proof -
  define q r where "q = length bs div 64" and "r = length bs mod 64"
  have "length bs = 64 * q + r" "r < 64" by (simp_all add: q_def r_def)
  moreover have "(length bs + 9 + 63) div 64 = (if r \<le> 55 then q + 1 else q + 2)"
    using calculation by auto
  ultimately show ?thesis by (auto simp: sha_pad_def pad_zeros_def)
qed

lemma const_hash_loop_eq:
  fixes bs :: bytes
  defines "n \<equiv> (length bs + 9 + 63) div 64"
  shows "const_hash_loop bs True n c st = absorb st (drop (c * 64) (bs @ sha_pad (length bs)))"
proof (induction "n - c" arbitrary: c st)
  case 0
  have "length (bs @ sha_pad (length bs)) = 64 * n" by (simp only: n_def length_padded)
  then show ?case using 0 by (simp add: const_hash_loop.simps)
next
  case (Suc k)
  define sp where "sp = bs @ sha_pad (length bs)"
  have c: "c < n" using Suc.hyps(2) by simp
  define b where "b = take 64 (drop (c * 64) sp)"
  have len: "length sp = 64 * n" by (simp only: n_def sp_def length_padded)
  have lb: "length b = 64" using len c by (simp add: b_def)
  have w: "(if c * 64 + 64 \<le> length bs then copy_w bs (c * 64) else copy_w (const_block bs n c) 0) = words_be b"
  proof (cases "c * 64 + 64 \<le> length bs")
    case True
    then show ?thesis using copy_w_eq [OF True] by (simp add: b_def sp_def)
  next
    case False
    then have "const_block bs n c = b"
      using const_block_eq [of c bs] c unfolding n_def b_def sp_def by simp
    then show ?thesis using False copy_w_eq [of 0 b] lb by simp
  qed
  have "const_hash_loop bs True n c st = const_hash_loop bs True n (c + 1) (rounds st (words_be b))"
    using c w by (simp add: const_hash_loop.simps [of bs True n c])
  also have "\<dots> = absorb (rounds st (words_be b)) (drop ((c + 1) * 64) sp)"
    using Suc.hyps(1) [of "c + 1"] Suc.hyps(2) unfolding sp_def by simp
  also have "\<dots> = absorb st (b @ drop ((c + 1) * 64) sp)" using absorb_block [OF lb] by simp
  also have "b @ drop ((c + 1) * 64) sp = drop (c * 64) sp"
    by (simp add: b_def add.commute flip: drop_drop)
  finally show ?case by (simp add: sp_def)
qed

lemma const_hash_eq: "const_hash bs = sha256_hash bs"
  using const_hash_loop_eq [of bs 0 H0]
  by (simp add: const_hash_def midstate_const_hash_def const_output_eq sha256_hash_eq Let_def)

lemma hash_tag_eq: "hash_tag tag = midstate (input engine_default (sha256_hash tag @ sha256_hash tag))"
proof -
  define hh where "hh = sha256_hash tag"
  have l: "length hh = 32" by (simp add: hh_def)
  have buf: "map (\<lambda>i. hh ! (i mod length hh)) [0..<64] = hh @ hh"
  proof (rule nth_equalityI)
    fix i assume "i < length (map (\<lambda>i. hh ! (i mod length hh)) [0..<64])"
    then show "map (\<lambda>i. hh ! (i mod length hh)) [0..<64] ! i = (hh @ hh) ! i"
      using l by (simp add: nth_append mod_if)
  qed (simp add: l)
  have n: "(length (hh @ hh) + 9 + 63) div 64 = 2" using l by simp
  have "const_hash_loop (hh @ hh) False 2 0 H0 = rounds H0 (copy_w (hh @ hh) 0)"
    using l by (simp add: const_hash_loop.simps)
  also have "\<dots> = absorb H0 (hh @ hh)"
    using l copy_w_eq [of 0 "hh @ hh"] absorb_block [of "hh @ hh" H0 "[]"] by simp
  finally have "hash_tag tag = regs_bytes (absorb H0 (hh @ hh))"
    by (simp only: hash_tag_def const_hash_eq hh_def [symmetric] Let_def buf midstate_const_hash_def n const_output_eq)
  moreover have "h_regs (input engine_default (hh @ hh)) = absorb H0 (hh @ hh)"
    using input_at [OF engine_default_at, of "hh @ hh"] l by (intro sha.engine_at_full) simp_all
  ultimately show ?thesis by (simp add: midstate_def hh_def)
qed

section \<open>The reference block function\<close>

text \<open>
  The functions of the standard: the choice and majority functions as it writes them, right rotations, the
  64-word message schedule computed up front, and the rounds over it.
\<close>

definition fips_Ch :: "u32 \<Rightarrow> u32 \<Rightarrow> u32 \<Rightarrow> u32" where "fips_Ch x y z = (x AND y) XOR (NOT x AND z)"
definition fips_Maj :: "u32 \<Rightarrow> u32 \<Rightarrow> u32 \<Rightarrow> u32" where
  "fips_Maj x y z = (x AND y) XOR (x AND z) XOR (y AND z)"
definition fips_S0 :: "u32 \<Rightarrow> u32" where "fips_S0 x = word_rotr 2 x XOR word_rotr 13 x XOR word_rotr 22 x"
definition fips_S1 :: "u32 \<Rightarrow> u32" where "fips_S1 x = word_rotr 6 x XOR word_rotr 11 x XOR word_rotr 25 x"
definition fips_s0 :: "u32 \<Rightarrow> u32" where "fips_s0 x = word_rotr 7 x XOR word_rotr 18 x XOR drop_bit 3 x"
definition fips_s1 :: "u32 \<Rightarrow> u32" where "fips_s1 x = word_rotr 17 x XOR word_rotr 19 x XOR drop_bit 10 x"

fun fips_W :: "u32 list \<Rightarrow> nat \<Rightarrow> u32" where
  "fips_W m t = (if t < 16 then m ! t
     else fips_s1 (fips_W m (t - 2)) + fips_W m (t - 7) + fips_s0 (fips_W m (t - 15)) + fips_W m (t - 16))"

declare fips_W.simps [simp del]

fun fips_round :: "u32 list \<Rightarrow> nat \<Rightarrow> regs \<Rightarrow> regs" where
  "fips_round m t (a, b, c, d, e, f, g, h) =
     (let T1 = h + fips_S1 e + fips_Ch e f g + K256 ! t + fips_W m t; T2 = fips_S0 a + fips_Maj a b c
      in (T1 + T2, a, b, c, d + T1, e, f, g))"

definition fips_block :: "regs \<Rightarrow> u32 list \<Rightarrow> regs" where
  "fips_block st m = add_regs st (fold (fips_round m) [0..<64] st)"

lemma Ch_eq: "Ch x y z = fips_Ch x y z"
  by (rule bit_word_eqI) (auto simp: Ch_def fips_Ch_def bit_simps)

lemma Maj_eq: "Maj x y z = fips_Maj x y z"
  by (rule bit_word_eqI) (auto simp: Maj_def fips_Maj_def bit_simps)

lemma Sigma_eq: "Sigma0 x = fips_S0 x" "Sigma1 x = fips_S1 x" "sigma0 x = fips_s0 x" "sigma1 x = fips_s1 x"
  by (simp_all add: Sigma0_def fips_S0_def Sigma1_def fips_S1_def sigma0_def fips_s0_def sigma1_def fips_s1_def
      word_rotl_eq_word_rotr)

lemma round_first_fips: "round_first (K256 ! t) (fips_W m t) r = fips_round m t r"
  by (cases r rule: regs_bytes.cases) (simp add: Ch_eq Maj_eq Sigma_eq Let_def)

lemma fips_round_fun: "fips_round m = (\<lambda>t. round_first (K256 ! t) (fips_W m t))"
  by (intro ext) (rule round_first_fips [symmetric])

interpretation sha_schedule: sha2_rounds sigma0 sigma1 K256 round_first fips_W
  by unfold_locales (simp add: fips_W.simps [of _ t for t] Sigma_eq ac_simps)

lemma roll_sha_round: "sha_schedule.roll = sha_round"
  by (intro ext) (simp add: sha_schedule.roll_def sha_round_def round_later_def Let_def split_beta)

lemma rounds_fips: "length m = 16 \<Longrightarrow> rounds st m = fips_block st m"
  using sha_schedule.roll_schedule [of m 64 st] by (simp add: rounds_def fips_block_def roll_sha_round fips_round_fun)

text \<open>The reference hash: pad, cut into blocks, iterate the standard's block function.\<close>

function fips_absorb :: "regs \<Rightarrow> bytes \<Rightarrow> regs" where
  "fips_absorb st m = (if length m < 64 then st else fips_absorb (fips_block st (words_be (take 64 m))) (drop 64 m))"
  by pat_completeness auto
termination
  by (relation "measure (\<lambda>(st, m). length m)") auto

declare fips_absorb.simps [simp del]

lemma absorb_fips: "absorb st m = fips_absorb st m"
proof (induction st m rule: fips_absorb.induct)
  case (1 st m)
  then show ?case by (simp add: absorb_unfold [of st m] fips_absorb.simps [of st m] rounds_fips)
qed

lemma words_be_regs: "words_be (regs_bytes (a, b, c, d, e, f, g, h)) = [a, b, c, d, e, f, g, h]"
proof -
  have cons: "words_be (to_be_bytes w @ bs) = w # words_be bs" for w :: u32 and bs
  proof -
    have "from_be_bytes (to_be_bytes w) = w" by (simp add: from_to_be_bytes)
    then show ?thesis by (simp add: to_be_bytes_u32)
  qed
  show ?thesis using cons [of h "[]"] by (simp add: cons)
qed

lemma midstate_resume:
  assumes "64 dvd length p"
  obtains e where "from_midstate (midstate (input engine_default p)) (length p) = Some e"
    and "sha.engine_at (absorb H0 p) (length p) [] e"
proof -
  obtain a b c d e f g h where r: "absorb H0 p = (a, b, c, d, e, f, g, h)" by (metis surj_pair)
  have "h_regs (input engine_default p) = absorb H0 p"
    using input_at [OF engine_default_at, of p] assms by (intro sha.engine_at_full) simp_all
  then have "words_be (midstate (input engine_default p)) = [a, b, c, d, e, f, g, h]"
    by (simp only: midstate_def r words_be_regs)
  then show ?thesis using that assms by (simp add: from_midstate_def BLOCK_SIZE_def sha.engine_at_def r)
qed

section \<open>Properties\<close>

text \<open>(C40) The streaming SHA-256 engine computes the standard's hash: whatever the message, the result is the
  big-endian chaining value after absorbing the padded message block by block with the reference block
  function (full 64-word schedule, textbook choice and majority functions).\<close>

theorem sha256_is_fips:
  "sha256_hash m = regs_bytes (fips_absorb H0 (m @ sha_pad (length m))) \<and> 64 dvd length (m @ sha_pad (length m))"
  using sha_pad_aligned [of "length m"] by (simp add: sha256_hash_eq absorb_fips)

text \<open>Feeding a message in pieces, in any split, gives the hash of the concatenation.\<close>

theorem sha256_chunking: "hash_byte_chunks xs = sha256_hash (concat xs)"
  by (rule hash_byte_chunks_eq)

text \<open>The constant-context evaluator, with its own block splitting and padding code, agrees with the
  streaming engine on every message, and the tagged-hash midstate is the engine's state after the doubled
  tag hash.\<close>

theorem const_hash_agrees:
  "const_hash m = sha256_hash m \<and>
   hash_tag tag = midstate (input engine_default (sha256_hash tag @ sha256_hash tag))"
  by (simp only: const_hash_eq hash_tag_eq)

text \<open>Resuming from the midstate of a block-aligned prefix and hashing the rest gives the hash of the
  whole message.\<close>

theorem sha256_midstate_resume:
  assumes "64 dvd length p"
  shows "map_option (\<lambda>e. from_engine (input e x)) (from_midstate (midstate (input engine_default p)) (length p))
    = Some (sha256_hash (p @ x))"
proof -
  from assms obtain e where e: "from_midstate (midstate (input engine_default p)) (length p) = Some e"
    "sha.engine_at (absorb H0 p) (length p) [] e" by (rule midstate_resume)
  have a: "sha.engine_at (absorb H0 p) (length p) x (input e x)" using input_at [OF e(2), of x] by simp
  then have "length_n (input e x) = length (p @ x)" by (simp add: sha.engine_at_def)
  then have "from_engine (input e x) = regs_bytes (absorb (absorb H0 p) (x @ sha_pad (length (p @ x))))"
    using from_engine_eq [OF a] by simp
  also have "\<dots> = sha256_hash (p @ x)"
    using absorb_append [OF assms, of H0 "x @ sha_pad (length (p @ x))"] by (simp add: sha256_hash_eq)
  finally show ?thesis by (simp add: e(1))
qed

theorem sha256_midstate_resume_witness:
  "map_option (\<lambda>e. from_engine (input e [1, 2, 3]))
     (from_midstate (midstate (input engine_default (replicate 64 7))) (length (replicate 64 (7 :: u8))))
    = Some (sha256_hash (replicate 64 7 @ [1, 2, 3]))"
  by (rule sha256_midstate_resume) simp

end
