(* ===== verification/Encode.thy ===== *)
theory Encode
  imports Io Sha256
begin

text \<open>
  Consensus encoding, \<open>bitcoin/src/consensus/encode.rs\<close> and \<open>bitcoin/src/internal_macros.rs\<close>. An encoder gives
  the bytes written to an in-memory writer together with the count that \<open>consensus_encode\<close> returns. A
  decoder maps the bytes a reader still holds to an error or to the value and the bytes left; theory \<open>Io\<close>
  shows that \<open>read_exact\<close> on slices, cursors and \<open>Take\<close> has exactly the effect of \<open>read_slice\<close> here. The
  adapter \<open>r.take(limit)\<close> becomes \<open>with_take\<close>. The locale \<open>codec\<close> is the contract of \<open>Encodable\<close> and \<open>Decodable\<close>:
  the count is the number of bytes, decoding inverts encoding on any continuation, and every accepted input
  is the encoding of the result (one encoding per value). A panic while decoding is the error \<open>Panicked\<close>.
\<close>

section \<open>Errors, decoders, encoders\<close>

datatype Error =
    Io ErrorKind
  | OversizedVectorAllocation nat nat
  | InvalidChecksum bytes bytes
  | NonMinimalVarInt
  | ParseFailed string
  | UnsupportedSegwitFlag u8
  | Panicked

type_synonym 'a decoder = "bytes \<Rightarrow> Error + 'a \<times> bytes"
type_synonym 'a encoder = "'a \<Rightarrow> bytes \<times> nat"

definition dbind :: "'a decoder \<Rightarrow> ('a \<Rightarrow> 'b decoder) \<Rightarrow> 'b decoder" where
  "dbind d f bs = (case d bs of Inl e \<Rightarrow> Inl e | Inr (x, r) \<Rightarrow> f x r)"

definition dret :: "'a \<Rightarrow> 'a decoder" where "dret x bs = Inr (x, bs)"
definition dfail :: "Error \<Rightarrow> 'a decoder" where "dfail e bs = Inl e"

definition ecat :: "bytes \<times> nat \<Rightarrow> bytes \<times> nat \<Rightarrow> bytes \<times> nat" where
  "ecat a b = (fst a @ fst b, snd a + snd b)"

definition enil :: "bytes \<times> nat" where "enil = ([], 0)"

section \<open>Extensions of readers and writers\<close>

definition read_slice :: "nat \<Rightarrow> bytes decoder" where
  "read_slice n bs = (if n \<le> length bs then Inr (take n bs, drop n bs) else Inl (Io UnexpectedEof))"

definition emit_slice :: "bytes \<Rightarrow> bytes" where "emit_slice v = v"

definition decode_int :: "'a::len word decoder" where
  "decode_int = dbind (read_slice (LENGTH('a) div 8)) (\<lambda>v. dret (from_le_bytes v))"

definition encode_int :: "'a::len word encoder" where
  "encode_int v = (to_le_bytes v, LENGTH('a) div 8)"

definition read_u8 :: "u8 decoder" where "read_u8 = dbind (read_slice 1) (\<lambda>s. dret (s ! 0))"
definition emit_u8 :: "u8 encoder" where "emit_u8 v = ([v], 1)"
definition read_bool :: "bool decoder" where "read_bool = dbind read_u8 (\<lambda>bit. dret (bit \<noteq> 0))"
definition emit_bool :: "bool encoder" where "emit_bool v = ([if v then 1 else 0], 1)"

definition MAX_VEC_SIZE :: nat where "MAX_VEC_SIZE = 4000000"

text \<open>\<open>reader.take(limit)\<close>: the decoder sees at most \<open>limit\<close> bytes; what it leaves stays in front of the rest.\<close>

definition with_take :: "nat \<Rightarrow> 'a decoder \<Rightarrow> 'a decoder" where
  "with_take limit d bs =
     (case d (take limit bs) of Inl e \<Rightarrow> Inl e | Inr (x, r) \<Rightarrow> Inr (x, r @ drop limit bs))"

text \<open>The default \<open>consensus_decode\<close> on top of \<open>consensus_decode_from_finite_reader\<close>.\<close>

definition consensus_decode :: "'a decoder \<Rightarrow> 'a decoder" where
  "consensus_decode d = with_take MAX_VEC_SIZE d"

section \<open>VarInt\<close>

datatype VarInt = VarInt (varint_0: u64)

definition varint_size :: "VarInt \<Rightarrow> nat" where
  "varint_size v =
     (if varint_0 v \<le> 0xFC then 1 else if varint_0 v \<le> 0xFFFF then 3 else if varint_0 v \<le> 0xFFFFFFFF then 5 else 9)"

definition enc_VarInt :: "VarInt encoder" where
  "enc_VarInt v =
     (let x = varint_0 v
      in if x \<le> 0xFC then (fst (emit_u8 (ucast x)), 1)
         else if x \<le> 0xFFFF then (fst (emit_u8 0xFD) @ fst (encode_int (ucast x :: u16)), 3)
         else if x \<le> 0xFFFFFFFF then (fst (emit_u8 0xFE) @ fst (encode_int (ucast x :: u32)), 5)
         else (fst (emit_u8 0xFF) @ fst (encode_int x), 9))"

definition dec_VarInt :: "VarInt decoder" where
  "dec_VarInt = dbind read_u8 (\<lambda>n.
     if n = 0xFF then dbind decode_int (\<lambda>x :: u64. if x < 0x100000000 then dfail NonMinimalVarInt else dret (VarInt x))
     else if n = 0xFE then dbind decode_int (\<lambda>x :: u32. if x < 0x10000 then dfail NonMinimalVarInt else dret (VarInt (ucast x)))
     else if n = 0xFD then dbind decode_int (\<lambda>x :: u16. if x < 0xFD then dfail NonMinimalVarInt else dret (VarInt (ucast x)))
     else dret (VarInt (ucast n)))"

section \<open>Arrays and vectors\<close>

definition enc_array :: "bytes encoder" where "enc_array a = (emit_slice a, length a)"
definition dec_array :: "nat \<Rightarrow> bytes decoder" where "dec_array n = read_slice n"

fun enc_elems :: "'a encoder \<Rightarrow> 'a list encoder" where
  "enc_elems enc [] = enil"
| "enc_elems enc (c # cs) = ecat (enc c) (enc_elems enc cs)"

definition enc_vec :: "'a encoder \<Rightarrow> 'a list encoder" where
  "enc_vec enc xs = ecat (enc_VarInt (VarInt (word_of_nat (length xs)))) (enc_elems enc xs)"

fun dec_elems :: "'a decoder \<Rightarrow> nat \<Rightarrow> 'a list decoder" where
  "dec_elems dec 0 = dret []"
| "dec_elems dec (Suc n) = dbind dec (\<lambda>x. dbind (dec_elems dec n) (\<lambda>xs. dret (x # xs)))"

definition dec_vec :: "'a decoder \<Rightarrow> 'a list decoder" where
  "dec_vec dec = dbind dec_VarInt (\<lambda>len. dec_elems dec (unat (varint_0 len)))"

definition enc_with_size :: "bytes encoder" where
  "enc_with_size data = ecat (enc_VarInt (VarInt (word_of_nat (length data)))) (emit_slice data, length data)"

function read_chunks :: "nat \<Rightarrow> nat \<Rightarrow> bytes \<Rightarrow> bytes decoder" where
  "read_chunks len chunk_size ret bs =
     (if len > 0 \<and> chunk_size > 0
      then (let this_chunk = min len chunk_size
            in case read_slice this_chunk bs of
                 Inl e \<Rightarrow> Inl e
               | Inr (chunk, bs') \<Rightarrow> read_chunks (len - this_chunk) chunk_size (ret @ chunk) bs')
      else Inr (ret, bs))"
  by pat_completeness auto
termination
  by (relation "measure (\<lambda>(len, c, r, b). len)") auto

declare read_chunks.simps [simp del]

definition read_bytes_from_finite_reader :: "nat \<Rightarrow> nat \<Rightarrow> bytes decoder" where
  "read_bytes_from_finite_reader len chunk_size =
     (if chunk_size = 0 then dfail Panicked else read_chunks len chunk_size [])"

definition dec_bytes :: "bytes decoder" where
  "dec_bytes = dbind dec_VarInt (\<lambda>len. read_bytes_from_finite_reader (unat (varint_0 len)) (128 * 1024))"

section \<open>Checked data\<close>

record CheckedData =
  cd_data :: bytes
  cd_checksum :: bytes

definition sha2_checksum :: "bytes \<Rightarrow> bytes" where
  "sha2_checksum data = (let checksum = sha256d_hash data in [checksum ! 0, checksum ! 1, checksum ! 2, checksum ! 3])"

definition CheckedData_new :: "bytes \<Rightarrow> CheckedData" where
  "CheckedData_new data = \<lparr> cd_data = data, cd_checksum = sha2_checksum data \<rparr>"

definition enc_CheckedData :: "CheckedData \<Rightarrow> (bytes \<times> nat) option" where
  "enc_CheckedData c =
     (if length (cd_data c) < 2 ^ 32
      then Some (fst (encode_int (word_of_nat (length (cd_data c)) :: u32)) @ fst (enc_array (cd_checksum c))
                   @ emit_slice (cd_data c), 8 + length (cd_data c))
      else None)"

definition dec_CheckedData :: "CheckedData decoder" where
  "dec_CheckedData = dbind decode_int (\<lambda>len :: u32. dbind (dec_array 4) (\<lambda>checksum.
     dbind (read_bytes_from_finite_reader (unat len) MAX_VEC_SIZE) (\<lambda>data.
       let expected_checksum = sha2_checksum data
       in if expected_checksum \<noteq> checksum then dfail (InvalidChecksum expected_checksum checksum)
          else dret \<lparr> cd_data = data, cd_checksum = checksum \<rparr>)))"

section \<open>Whole buffers\<close>

definition serialize :: "'a encoder \<Rightarrow> 'a \<Rightarrow> bytes" where
  "serialize enc x = fst (enc x)"

definition deserialize_partial :: "'a decoder \<Rightarrow> bytes \<Rightarrow> Error + 'a \<times> nat" where
  "deserialize_partial dec data =
     (case dec data of Inl e \<Rightarrow> Inl e | Inr (rv, rest) \<Rightarrow> Inr (rv, length data - length rest))"

definition deserialize :: "'a decoder \<Rightarrow> bytes \<Rightarrow> Error + 'a" where
  "deserialize dec data =
     (case deserialize_partial dec data of
        Inl e \<Rightarrow> Inl e
      | Inr (rv, consumed) \<Rightarrow>
          if consumed = length data then Inr rv
          else Inl (ParseFailed ''data not consumed entirely when explicitly deserializing''))"

section \<open>Rewriting decoders\<close>

lemma dbind_Inr_iff: "dbind d f bs = Inr (y, r) \<longleftrightarrow> (\<exists>x r'. d bs = Inr (x, r') \<and> f x r' = Inr (y, r))"
  by (auto simp: dbind_def split: sum.splits)

lemma dbind_step: "d bs = Inr (x, r) \<Longrightarrow> dbind d f bs = f x r"
  by (simp add: dbind_def)

lemma dret_Inr_iff [simp]: "dret x bs = Inr (y, r) \<longleftrightarrow> y = x \<and> r = bs"
  by (auto simp: dret_def)

lemma dfail_Inr_iff [simp]: "dfail e bs \<noteq> Inr p"
  by (simp add: dfail_def)

lemma fst_ecat [simp]: "fst (ecat a b) = fst a @ fst b" and snd_ecat [simp]: "snd (ecat a b) = snd a + snd b"
  by (simp_all add: ecat_def)

lemma enil_simps [simp]: "fst enil = []" "snd enil = 0"
  by (simp_all add: enil_def)

lemma deserialize_Inr_iff:
  assumes "\<And>rest. dec bs = Inr (x, rest) \<Longrightarrow> length rest \<le> length bs"
  shows "deserialize dec bs = Inr x \<longleftrightarrow> dec bs = Inr (x, [])"
proof -
  have "deserialize dec bs = Inr x \<longleftrightarrow> (\<exists>rest. dec bs = Inr (x, rest) \<and> length bs - length rest = length bs)"
    by (auto simp: deserialize_def deserialize_partial_def split: sum.splits if_splits)
  also have "\<dots> \<longleftrightarrow> dec bs = Inr (x, [])"
  proof
    assume "\<exists>rest. dec bs = Inr (x, rest) \<and> length bs - length rest = length bs"
    then obtain rest where r: "dec bs = Inr (x, rest)" "length bs - length rest = length bs" by blast
    then have "rest = []" using assms [OF r(1)] by (cases rest) simp_all
    then show "dec bs = Inr (x, [])" using r(1) by simp
  qed (intro exI [of _ "[]"], simp)
  finally show ?thesis .
qed

section \<open>The contract of an encoding\<close>

locale roundtrip =
  fixes enc :: "'a encoder" and dec :: "'a decoder" and ok :: "'a \<Rightarrow> bool"
  assumes enc_len: "snd (enc x) = length (fst (enc x))"
    and dec_enc: "ok x \<Longrightarrow> dec (fst (enc x) @ rest) = Inr (x, rest)"
begin

lemma deserialize_serialize: "ok x \<Longrightarrow> deserialize dec (serialize enc x) = Inr x"
  using dec_enc [of x "[]"] by (simp add: deserialize_def deserialize_partial_def serialize_def)

lemma enc_inj: "ok x \<Longrightarrow> ok y \<Longrightarrow> fst (enc x) @ r = fst (enc y) @ s \<Longrightarrow> x = y \<and> r = s"
  using dec_enc [of x r] dec_enc [of y s] by (metis Inr_inject prod.inject)

lemma elems_enc_len: "snd (enc_elems enc xs) = length (fst (enc_elems enc xs))"
  by (induction xs) (simp_all add: enc_len)

lemma elems_dec_enc: "list_all ok xs \<Longrightarrow> dec_elems dec (length xs) (fst (enc_elems enc xs) @ rest) = Inr (xs, rest)"
  by (induction xs) (simp_all add: dec_enc dret_def dbind_def)

end

locale codec = roundtrip +
  assumes canonical: "dec bs = Inr (x, rest) \<Longrightarrow> ok x \<and> bs = fst (enc x) @ rest"
begin

lemma deserialize_iff: "deserialize dec bs = Inr x \<longleftrightarrow> ok x \<and> bs = serialize enc x"
proof
  assume "deserialize dec bs = Inr x"
  then obtain rest where "dec bs = Inr (x, rest)" "length bs - length rest = length bs"
    by (auto simp: deserialize_def deserialize_partial_def split: sum.splits if_splits)
  then show "ok x \<and> bs = serialize enc x" using canonical [of bs x rest] by (auto simp: serialize_def)
next
  assume "ok x \<and> bs = serialize enc x"
  then show "deserialize dec bs = Inr x" by (simp add: deserialize_serialize)
qed

lemma consumes: "dec bs = Inr (x, rest) \<Longrightarrow> length rest \<le> length bs"
  using canonical by fastforce

lemma elems_canonical:
  "dec_elems dec n bs = Inr (xs, rest) \<Longrightarrow> list_all ok xs \<and> length xs = n \<and> bs = fst (enc_elems enc xs) @ rest"
proof (induction n arbitrary: bs xs)
  case 0
  then show ?case by simp
next
  case (Suc n)
  then obtain y r ys where "dec bs = Inr (y, r)" "dec_elems dec n r = Inr (ys, rest)" "xs = y # ys"
    by (auto simp: dbind_Inr_iff)
  then show ?case using Suc.IH [of r ys] canonical [of bs y r] by auto
qed

lemma limited: "codec enc (with_take L dec) (\<lambda>x. ok x \<and> length (fst (enc x)) \<le> L)"
proof
  fix x rest
  assume "ok x \<and> length (fst (enc x)) \<le> L"
  then show "with_take L dec (fst (enc x) @ rest) = Inr (x, rest)"
    using dec_enc [of x "take (L - length (fst (enc x))) rest"] by (simp add: with_take_def)
next
  fix bs x rest
  assume "with_take L dec bs = Inr (x, rest)"
  then obtain r where r: "dec (take L bs) = Inr (x, r)" "rest = r @ drop L bs"
    by (auto simp: with_take_def split: sum.splits)
  have t: "ok x" "take L bs = fst (enc x) @ r" using canonical [OF r(1)] by auto
  have "bs = take L bs @ drop L bs" by simp
  also have "\<dots> = fst (enc x) @ rest" using t r(2) by simp
  finally have "bs = fst (enc x) @ rest" .
  moreover have "length (fst (enc x)) \<le> L" using arg_cong [OF t(2), of length] by simp
  ultimately show "(ok x \<and> length (fst (enc x)) \<le> L) \<and> bs = fst (enc x) @ rest" using t by simp
qed (rule enc_len)

end

section \<open>Codecs of the primitive types\<close>

lemma read_slice_append: "length a = n \<Longrightarrow> read_slice n (a @ rest) = Inr (a, rest)"
  by (simp add: read_slice_def)

lemma read_slice_Inr_iff: "read_slice n bs = Inr (a, rest) \<longleftrightarrow> length a = n \<and> bs = a @ rest"
  by (auto simp: read_slice_def)

lemma decode_int_codec: "8 dvd LENGTH('a) \<Longrightarrow> codec encode_int (decode_int :: 'a::len word decoder) (\<lambda>_. True)"
  by unfold_locales
    (auto simp: encode_int_def decode_int_def dbind_def dret_def read_slice_append from_to_le_bytes
      read_slice_Inr_iff to_from_le_bytes split: sum.splits)

interpretation u16_codec: codec encode_int "decode_int :: u16 decoder" "\<lambda>_. True"
  by (rule decode_int_codec) simp

interpretation u32_codec: codec encode_int "decode_int :: u32 decoder" "\<lambda>_. True"
  by (rule decode_int_codec) simp

interpretation u64_codec: codec encode_int "decode_int :: u64 decoder" "\<lambda>_. True"
  by (rule decode_int_codec) simp

interpretation u8_codec: codec emit_u8 read_u8 "\<lambda>_. True"
  by unfold_locales
    (auto simp: emit_u8_def read_u8_def dbind_Inr_iff read_slice_Inr_iff length_Suc_conv)

interpretation bool_roundtrip: roundtrip emit_bool read_bool "\<lambda>_. True"
  by unfold_locales
    (auto simp: emit_bool_def read_bool_def read_u8_def dbind_def dret_def read_slice_def)

interpretation array32_codec: codec enc_array "dec_array 32" "\<lambda>a. length a = 32"
  by unfold_locales (auto simp: enc_array_def dec_array_def emit_slice_def read_slice_append read_slice_Inr_iff)

interpretation array4_codec: codec enc_array "dec_array 4" "\<lambda>a. length a = 4"
  by unfold_locales (auto simp: enc_array_def dec_array_def emit_slice_def read_slice_append read_slice_Inr_iff)

lemma varint_roundtrip: "dec_VarInt (fst (enc_VarInt v) @ rest) = Inr (v, rest)"
proof -
  obtain x where v: "v = VarInt x" by (cases v)
  have u8: "x \<le> 0xFC \<Longrightarrow> ucast (ucast x :: u8) = x \<and> (ucast x :: u8) \<noteq> 0xFF \<and> (ucast x :: u8) \<noteq> 0xFE \<and> (ucast x :: u8) \<noteq> 0xFD"
    by (auto simp: word_unat_eq_iff unat_ucast_mod word_le_nat_alt)
  have u16: "x \<le> 0xFFFF \<Longrightarrow> ucast (ucast x :: u16) = x" "\<not> x \<le> 0xFC \<Longrightarrow> x \<le> 0xFFFF \<Longrightarrow> \<not> (ucast x :: u16) < 0xFD"
    by (auto simp: word_unat_eq_iff unat_ucast_mod word_le_nat_alt word_less_nat_alt)
  have u32: "x \<le> 0xFFFFFFFF \<Longrightarrow> ucast (ucast x :: u32) = x" "\<not> x \<le> 0xFFFF \<Longrightarrow> x \<le> 0xFFFFFFFF \<Longrightarrow> \<not> (ucast x :: u32) < 0x10000"
    by (auto simp: word_unat_eq_iff unat_ucast_mod word_le_nat_alt word_less_nat_alt)
  have u64: "\<not> x \<le> 0xFFFFFFFF \<Longrightarrow> \<not> x < 0x100000000"
    by (simp add: word_le_nat_alt word_less_nat_alt)
  have r8: "read_u8 (b # r) = Inr (b, r)" for b r using u8_codec.dec_enc [of b r] by (simp add: emit_u8_def)
  show ?thesis
    using u8 u16 u32 u64 unfolding v
    by (simp add: enc_VarInt_def dec_VarInt_def emit_u8_def dbind_def r8 dret_def Let_def
        u16_codec.dec_enc u32_codec.dec_enc u64_codec.dec_enc)
qed

lemma varint_canonical: "dec_VarInt bs = Inr (v, rest) \<Longrightarrow> bs = fst (enc_VarInt v) @ rest"
proof -
  assume a: "dec_VarInt bs = Inr (v, rest)"
  then obtain n r where n: "read_u8 bs = Inr (n, r)" by (auto simp: dec_VarInt_def dbind_Inr_iff)
  then have bs: "bs = n # r" using u8_codec.canonical by (auto simp: emit_u8_def)
  consider (ff) x where "n = 0xFF" "decode_int r = Inr (x, rest)" "\<not> x < 0x100000000" "v = VarInt x"
    | (fe) x where "n = 0xFE" "decode_int r = Inr (x :: u32, rest)" "\<not> x < 0x10000" "v = VarInt (ucast x)"
    | (fd) x where "n = 0xFD" "decode_int r = Inr (x :: u16, rest)" "\<not> x < 0xFD" "v = VarInt (ucast x)"
    | (small) "n \<noteq> 0xFF" "n \<noteq> 0xFE" "n \<noteq> 0xFD" "rest = r" "v = VarInt (ucast n)"
    using a n by (auto simp: dec_VarInt_def dbind_Inr_iff split: if_splits)
  then show ?thesis
  proof cases
    case ff
    then have "r = to_le_bytes x @ rest" using u64_codec.canonical by (auto simp: encode_int_def)
    moreover have "\<not> x \<le> 0xFC" "\<not> x \<le> 0xFFFF" "\<not> x \<le> 0xFFFFFFFF"
      using ff(3) by (simp_all add: word_le_nat_alt word_less_nat_alt)
    ultimately show ?thesis using ff bs by (simp add: enc_VarInt_def emit_u8_def encode_int_def)
  next
    case fe
    then have "r = to_le_bytes x @ rest" using u32_codec.canonical by (auto simp: encode_int_def)
    moreover have "\<not> (ucast x :: u64) \<le> 0xFC" "\<not> (ucast x :: u64) \<le> 0xFFFF" "(ucast x :: u64) \<le> 0xFFFFFFFF"
      using fe(3) unat_u32_lt [of x] by (simp_all add: word_le_nat_alt word_less_nat_alt unat_ucast_up del: unat_u32_lt)
    moreover have "ucast (ucast x :: u64) = x" by (simp add: ucast_up_down)
    ultimately show ?thesis using fe bs by (simp add: enc_VarInt_def emit_u8_def encode_int_def)
  next
    case fd
    then have "r = to_le_bytes x @ rest" using u16_codec.canonical by (auto simp: encode_int_def)
    moreover have "\<not> (ucast x :: u64) \<le> 0xFC" "(ucast x :: u64) \<le> 0xFFFF"
      using fd(3) unat_u16_lt [of x] by (simp_all add: word_le_nat_alt word_less_nat_alt unat_ucast_up del: unat_u16_lt)
    moreover have "ucast (ucast x :: u64) = x" by (simp add: ucast_up_down)
    ultimately show ?thesis using fd bs by (simp add: enc_VarInt_def emit_u8_def encode_int_def)
  next
    case small
    have "unat n \<noteq> 255" "unat n \<noteq> 254" "unat n \<noteq> 253" using small(1-3) by (auto simp: word_unat_eq_iff)
    then have "(ucast n :: u64) \<le> 0xFC"
      using unat_u8_lt [of n] by (simp add: word_le_nat_alt unat_ucast_up del: unat_u8_lt)
    moreover have "ucast (ucast n :: u64) = n" by (simp add: ucast_up_down)
    ultimately show ?thesis using small bs by (simp add: enc_VarInt_def emit_u8_def)
  qed
qed

lemma varint_len: "snd (enc_VarInt v) = length (fst (enc_VarInt v))"
  by (simp add: enc_VarInt_def emit_u8_def encode_int_def Let_def)

lemma varint_size_eq: "varint_size v = length (fst (enc_VarInt v))"
  by (simp add: varint_size_def enc_VarInt_def emit_u8_def encode_int_def Let_def)

interpretation varint_codec: codec enc_VarInt dec_VarInt "\<lambda>_. True"
  by unfold_locales (simp_all add: varint_len varint_roundtrip varint_canonical)

section \<open>Codecs of vectors\<close>

definition vec_ok :: "('a \<Rightarrow> bool) \<Rightarrow> 'a list \<Rightarrow> bool" where
  "vec_ok ok xs \<longleftrightarrow> length xs < 2 ^ 64 \<and> list_all ok xs"

lemma unat_len: "n < 2 ^ 64 \<Longrightarrow> unat (word_of_nat n :: u64) = n"
  by (simp add: unat_of_nat)

lemma vec_codec:
  assumes "codec enc dec ok"
  shows "codec (enc_vec enc) (dec_vec dec) (vec_ok ok)"
proof -
  from assms have rt: "roundtrip enc dec ok" by (simp add: codec_def)
  show ?thesis
  proof
    show "snd (enc_vec enc xs) = length (fst (enc_vec enc xs))" for xs
      by (simp add: enc_vec_def varint_len roundtrip.elems_enc_len [OF rt])
    show "dec_vec dec (fst (enc_vec enc xs) @ rest) = Inr (xs, rest)" if "vec_ok ok xs" for xs rest
      using that by (simp add: enc_vec_def dec_vec_def vec_ok_def dbind_def varint_roundtrip
          roundtrip.elems_dec_enc [OF rt] unat_len)
    show "vec_ok ok xs \<and> bs = fst (enc_vec enc xs) @ rest" if d: "dec_vec dec bs = Inr (xs, rest)" for bs xs rest
    proof -
      obtain v r where v: "dec_VarInt bs = Inr (v, r)" "dec_elems dec (unat (varint_0 v)) r = Inr (xs, rest)"
        using d by (auto simp: dec_vec_def dbind_Inr_iff)
      have e: "list_all ok xs" "length xs = unat (varint_0 v)" "r = fst (enc_elems enc xs) @ rest"
        using codec.elems_canonical [OF assms v(2)] by auto
      have "VarInt (word_of_nat (length xs)) = v" using e(2) by (cases v) simp
      moreover have "length xs < 2 ^ 64" using e(2) unsigned_less [of "varint_0 v"] by simp
      ultimately show ?thesis using e varint_canonical [OF v(1)] by (simp add: vec_ok_def enc_vec_def)
    qed
  qed
qed

lemma read_chunks_eq:
  "0 < c \<Longrightarrow> read_chunks len c ret bs =
     (if len \<le> length bs then Inr (ret @ take len bs, drop len bs) else Inl (Io UnexpectedEof))"
proof (induction len arbitrary: ret bs rule: less_induct)
  case (less len)
  show ?case
  proof (cases "len = 0")
    case True
    then show ?thesis by (simp add: read_chunks.simps)
  next
    case False
    define k where "k = min len c"
    have k: "0 < k" "k \<le> len" using False less.prems by (simp_all add: k_def)
    have unf: "read_chunks len c ret bs =
        (if k \<le> length bs then read_chunks (len - k) c (ret @ take k bs) (drop k bs) else Inl (Io UnexpectedEof))"
      using False less.prems by (simp add: read_chunks.simps [of len] k_def read_slice_def Let_def)
    show ?thesis
    proof (cases "k \<le> length bs")
      case True
      have "read_chunks (len - k) c (ret @ take k bs) (drop k bs) =
          (if len - k \<le> length (drop k bs) then Inr ((ret @ take k bs) @ take (len - k) (drop k bs), drop (len - k) (drop k bs))
           else Inl (Io UnexpectedEof))"
        using k False less.prems by (intro less.IH) simp_all
      then show ?thesis using True k unf by (auto simp: take_add [symmetric] le_diff_conv2 simp flip: take_add)
    next
      case False
      then show ?thesis using k unf by simp
    qed
  qed
qed

lemma read_bytes_eq: "0 < c \<Longrightarrow> read_bytes_from_finite_reader len c = read_slice len"
  by (simp add: fun_eq_iff read_bytes_from_finite_reader_def read_chunks_eq read_slice_def)

definition bytes_ok :: "bytes \<Rightarrow> bool" where "bytes_ok bs \<longleftrightarrow> length bs < 2 ^ 64"

interpretation bytes_codec: codec enc_with_size dec_bytes bytes_ok
proof
  show "snd (enc_with_size bs) = length (fst (enc_with_size bs))" for bs
    by (simp add: enc_with_size_def varint_len emit_slice_def)
  show "dec_bytes (fst (enc_with_size bs) @ rest) = Inr (bs, rest)" if "bytes_ok bs" for bs rest
    using that by (simp add: dec_bytes_def enc_with_size_def dbind_def varint_roundtrip bytes_ok_def unat_len
        read_bytes_eq emit_slice_def read_slice_append)
  show "bytes_ok x \<and> bs = fst (enc_with_size x) @ rest" if d: "dec_bytes bs = Inr (x, rest)" for bs x rest
  proof -
    obtain v r where v: "dec_VarInt bs = Inr (v, r)" "read_slice (unat (varint_0 v)) r = Inr (x, rest)"
      using d by (auto simp: dec_bytes_def dbind_Inr_iff read_bytes_eq)
    have x: "length x = unat (varint_0 v)" "r = x @ rest" using v(2) by (auto simp: read_slice_Inr_iff)
    then have "VarInt (word_of_nat (length x)) = v" by (cases v) simp
    moreover have "bytes_ok x" using x(1) unsigned_less [of "varint_0 v"] by (simp add: bytes_ok_def)
    ultimately show ?thesis using x varint_canonical [OF v(1)]
      by (simp add: enc_with_size_def emit_slice_def)
  qed
qed

interpretation bytes_vec_codec: codec "enc_vec enc_with_size" "dec_vec dec_bytes" "vec_ok bytes_ok"
  by (rule vec_codec) (rule bytes_codec.codec_axioms)

interpretation u64_vec_codec: codec "enc_vec encode_int" "dec_vec (decode_int :: u64 decoder)" "vec_ok (\<lambda>_. True)"
  by (rule vec_codec) (rule u64_codec.codec_axioms)

interpretation hash_vec_codec: codec "enc_vec enc_array" "dec_vec (dec_array 32)" "vec_ok (\<lambda>a. length a = 32)"
  by (rule vec_codec) (rule array32_codec.codec_axioms)

lemma length_sha2_checksum [simp]: "length (sha2_checksum d) = 4"
  by (simp add: sha2_checksum_def Let_def)

lemma dec_CheckedData_iff:
  "dec_CheckedData bs = Inr (c, rest) \<longleftrightarrow>
     cd_checksum c = sha2_checksum (cd_data c) \<and>
     (\<exists>e. enc_CheckedData c = Some e \<and> bs = fst e @ rest)" (is "?l \<longleftrightarrow> ?r")
proof
  assume ?l
  then obtain len r1 r2 where 1: "decode_int bs = Inr (len :: u32, r1)" "read_slice 4 r1 = Inr (cd_checksum c, r2)"
    "read_slice (unat len) r2 = Inr (cd_data c, rest)" "cd_checksum c = sha2_checksum (cd_data c)"
    by (auto simp: dec_CheckedData_def dbind_Inr_iff dec_array_def read_bytes_eq MAX_VEC_SIZE_def Let_def
        split: if_splits)
  have d: "length (cd_data c) = unat len" using 1(3) by (simp add: read_slice_Inr_iff)
  then have "bs = to_le_bytes len @ r1" "r1 = cd_checksum c @ r2" "r2 = cd_data c @ rest"
    using 1 u32_codec.canonical by (auto simp: read_slice_Inr_iff encode_int_def)
  moreover have "word_of_nat (length (cd_data c)) = len" by (simp add: d)
  ultimately show ?r using 1(4) d by (simp add: enc_CheckedData_def encode_int_def enc_array_def emit_slice_def)
next
  assume ?r
  then have l: "length (cd_data c) < 2 ^ 32" "cd_checksum c = sha2_checksum (cd_data c)"
    "bs = fst (encode_int (word_of_nat (length (cd_data c)) :: u32)) @ cd_checksum c @ cd_data c @ rest"
    by (auto simp: enc_CheckedData_def enc_array_def emit_slice_def split: if_splits)
  then have "unat (word_of_nat (length (cd_data c)) :: u32) = length (cd_data c)" by (simp add: unat_of_nat)
  then show ?l using l
    by (simp add: dec_CheckedData_def dbind_def dret_def u32_codec.dec_enc dec_array_def read_slice_append
        read_bytes_eq MAX_VEC_SIZE_def Let_def)
qed

section \<open>Nested limits\<close>

text \<open>
  The struct macro \<open>impl_consensus_encoding!\<close> limits the reader once and then decodes each field with its own
  limit; inside an outer limit of the same size the inner ones have no effect.
\<close>

lemma with_take_nested: "with_take L (dbind (with_take L d) f) = with_take L (dbind d f)"
  by (rule ext) (simp add: with_take_def dbind_def split: sum.split)

lemma with_take_idem: "with_take L (with_take L d) = with_take L d"
  by (rule ext) (simp add: with_take_def split: sum.split)

lemma with_take_within:
  assumes "length bs \<le> L"
  shows "with_take L d bs = d bs"
  using assms by (simp add: with_take_def split: sum.split)

section \<open>Properties\<close>

text \<open>Variable-length integers: an input decodes exactly when it is the shortest encoding of the value
  (over-long forms are rejected), and \<open>size\<close> is the number of bytes written.\<close>

theorem varint_bijective:
  "(deserialize dec_VarInt bs = Inr v \<longleftrightarrow> bs = serialize enc_VarInt v) \<and>
   varint_size v = length (serialize enc_VarInt v) \<and> snd (enc_VarInt v) = length (serialize enc_VarInt v)"
  using varint_codec.deserialize_iff [of bs v] by (simp add: varint_size_eq varint_len serialize_def)

text \<open>Vectors of hashes and vectors of byte strings: decoding accepts exactly the encodings of vectors of
  well-formed elements, and returns the encoded vector.\<close>

theorem vec_bijective:
  "(deserialize (dec_vec (dec_array 32)) bs = Inr hs \<longleftrightarrow>
      vec_ok (\<lambda>h. length h = 32) hs \<and> bs = serialize (enc_vec enc_array) hs) \<and>
   (deserialize (dec_vec dec_bytes) bs = Inr xs \<longleftrightarrow>
      vec_ok bytes_ok xs \<and> bs = serialize (enc_vec enc_with_size) xs)"
  by (simp only: hash_vec_codec.deserialize_iff bytes_vec_codec.deserialize_iff)

text \<open>Reading a length-prefixed byte string in bounded chunks is the same as reading it at once: the
  chunk size never changes what is accepted or returned.\<close>

theorem chunked_read_exact:
  "0 < chunk \<Longrightarrow> read_bytes_from_finite_reader len chunk bs =
     (if len \<le> length bs then Inr (take len bs, drop len bs) else Inl (Io UnexpectedEof))"
  by (simp add: read_bytes_eq read_slice_def)

theorem chunked_read_exact_witness:
  "read_bytes_from_finite_reader 3 2 [1, 2, 3, 4] = Inr ([1, 2, 3], [4])"
  using chunked_read_exact [of 2 3 "[1, 2, 3, 4]"] by simp

text \<open>The default \<open>consensus_decode\<close> of a byte string accepts exactly the encodings that fit into four
  million bytes, whatever follows them, and leaves the rest of the stream untouched.\<close>

theorem consensus_decode_limit:
  "consensus_decode dec_bytes stream = Inr (bs, rest) \<longleftrightarrow>
     bytes_ok bs \<and> length (serialize enc_with_size bs) \<le> MAX_VEC_SIZE \<and> stream = serialize enc_with_size bs @ rest"
proof -
  have c: "codec enc_with_size (with_take MAX_VEC_SIZE dec_bytes) (\<lambda>x. bytes_ok x \<and> length (fst (enc_with_size x)) \<le> MAX_VEC_SIZE)"
    by (rule bytes_codec.limited)
  then have r: "roundtrip enc_with_size (with_take MAX_VEC_SIZE dec_bytes)
      (\<lambda>x. bytes_ok x \<and> length (fst (enc_with_size x)) \<le> MAX_VEC_SIZE)" by (simp add: codec_def)
  show ?thesis unfolding consensus_decode_def serialize_def
    using codec.canonical [OF c, of stream bs rest] roundtrip.dec_enc [OF r, of bs rest] by blast
qed

text \<open>Checked network data: exactly the encodings of data with its own checksum decode; a wrong checksum
  is an error.\<close>

theorem checked_data_accepts:
  "deserialize dec_CheckedData bs = Inr c \<longleftrightarrow>
     c = CheckedData_new (cd_data c) \<and> length (cd_data c) < 2 ^ 32 \<and>
     bs = serialize encode_int (word_of_nat (length (cd_data c)) :: u32) @ sha2_checksum (cd_data c) @ cd_data c"
proof -
  have "deserialize dec_CheckedData bs = Inr c \<longleftrightarrow> dec_CheckedData bs = Inr (c, [])"
    by (rule deserialize_Inr_iff) (auto simp: dec_CheckedData_iff)
  also have "\<dots> \<longleftrightarrow> cd_checksum c = sha2_checksum (cd_data c) \<and> length (cd_data c) < 2 ^ 32 \<and>
     bs = serialize encode_int (word_of_nat (length (cd_data c)) :: u32) @ sha2_checksum (cd_data c) @ cd_data c"
    unfolding dec_CheckedData_iff by (auto simp: enc_CheckedData_def enc_array_def emit_slice_def serialize_def)
  finally show ?thesis by (cases c) (auto simp: CheckedData_new_def)
qed

end
