(* ===== verification/Witness.thy ===== *)
theory Witness
  imports Encode
begin

text \<open>
  The witness stack, \<open>bitcoin/src/blockdata/witness.rs\<close>. It is logically a list of byte strings but stored as
  one buffer: the elements with their length prefixes, followed by four bytes per element holding its
  position. The operations are modelled on that buffer, with the in-place writes, the rotation that moves the
  index behind the data, and the buffer growth of the decoder. \<open>u32::to_ne_bytes\<close> is the little-endian
  conversion (a little-endian target), and \<open>usize\<close> has 64 bits. A panic (index out of range, position not
  fitting \<open>u32\<close>) is \<open>None\<close>. The refinement: every reachable witness is \<open>witness_of xs\<close> for its list \<open>xs\<close>.
\<close>

section \<open>The buffer\<close>

record Witness =
  content :: bytes
  witness_elements :: nat
  indices_start :: nat

definition witness_new :: Witness where
  "witness_new = \<lparr> content = [], witness_elements = 0, indices_start = 0 \<rparr>"

definition witness_is_empty :: "Witness \<Rightarrow> bool" where "witness_is_empty w \<longleftrightarrow> witness_elements w = 0"
definition witness_len :: "Witness \<Rightarrow> nat" where "witness_len w = witness_elements w"

definition witness_clear :: "Witness \<Rightarrow> Witness" where
  "witness_clear w = \<lparr> content = [], witness_elements = 0, indices_start = 0 \<rparr>"

definition encode_cursor :: "bytes \<Rightarrow> nat \<Rightarrow> nat \<Rightarrow> nat \<Rightarrow> bytes option" where
  "encode_cursor bs start_of_indices index v =
     (let start = start_of_indices + index * 4
      in if start + 4 \<le> length bs \<and> v < 2 ^ 32 then Some (write_at start (to_le_bytes (word_of_nat v :: u32)) bs)
         else None)"

definition decode_cursor :: "bytes \<Rightarrow> nat \<Rightarrow> nat \<Rightarrow> nat option" where
  "decode_cursor bs start_of_indices index =
     (let start = start_of_indices + index * 4
      in if start + 4 > length bs then None
         else Some (unat (from_le_bytes (take 4 (drop start bs)) :: u32)))"

definition rotate_l :: "nat \<Rightarrow> 'a list \<Rightarrow> 'a list" where "rotate_l k xs = drop k xs @ take k xs"

definition rotate_r :: "nat \<Rightarrow> 'a list \<Rightarrow> 'a list" where
  "rotate_r k xs = drop (length xs - k) xs @ take (length xs - k) xs"

definition vec_resize :: "nat \<Rightarrow> bytes \<Rightarrow> bytes" where
  "vec_resize n v = take n v @ replicate (n - length v) 0"

abbreviation varint_of_len :: "nat \<Rightarrow> VarInt" where "varint_of_len n \<equiv> VarInt (word_of_nat n)"

definition push_slice :: "Witness \<Rightarrow> bytes \<Rightarrow> Witness option" where
  "push_slice w new_element =
     (let elements = witness_elements w + 1;
          previous_content_end = indices_start w;
          element_len_varint = varint_of_len (length new_element);
          current_content_len = length (content w);
          new_item_total_len = varint_size element_len_varint + length new_element;
          c1 = vec_resize (current_content_len + new_item_total_len + 4) (content w);
          c2 = take previous_content_end c1 @ rotate_r new_item_total_len (drop previous_content_end c1);
          start = indices_start w + new_item_total_len
      in case encode_cursor c2 start (elements - 1) previous_content_end of
           None \<Rightarrow> None
         | Some c3 \<Rightarrow>
             (let end_varint = previous_content_end + varint_size element_len_varint;
                  c4 = write_at previous_content_end (fst (enc_VarInt element_len_varint)) c3;
                  c5 = write_at end_varint new_element c4
              in Some \<lparr> content = c5, witness_elements = elements, indices_start = start \<rparr>))"

fun from_slice_loop :: "nat \<Rightarrow> bytes list \<Rightarrow> nat \<Rightarrow> nat \<Rightarrow> bytes \<Rightarrow> bytes option" where
  "from_slice_loop content_size [] i cursor c = Some c"
| "from_slice_loop content_size (elem # rest) i cursor c =
     (case encode_cursor c content_size i cursor of
        None \<Rightarrow> None
      | Some c1 \<Rightarrow>
          (let elem_len_varint = varint_of_len (length elem);
               c2 = write_at cursor (fst (enc_VarInt elem_len_varint)) c1;
               cursor1 = cursor + varint_size elem_len_varint;
               c3 = write_at cursor1 elem c2
           in from_slice_loop content_size rest (i + 1) (cursor1 + length elem) c3))"

definition witness_from_slice :: "bytes list \<Rightarrow> Witness option" where
  "witness_from_slice elems =
     (let elements = length elems;
          index_size = elements * 4;
          content_size = sum_list (map (\<lambda>elem. length elem + varint_size (varint_of_len (length elem))) elems)
      in map_option (\<lambda>c. \<lparr> content = c, witness_elements = elements, indices_start = content_size \<rparr>)
           (from_slice_loop content_size elems 0 0 (replicate (content_size + index_size) 0)))"

section \<open>Access\<close>

text \<open>The outer \<open>option\<close> is \<open>None\<close> when a slice index is out of range (a panic).\<close>

definition element_at :: "Witness \<Rightarrow> nat \<Rightarrow> bytes option option" where
  "element_at w index =
     (if index > length (content w) then None
      else case dec_VarInt (drop index (content w)) of
             Inl _ \<Rightarrow> Some None
           | Inr (v, _) \<Rightarrow>
               (let start = index + varint_size v; stop = start + unat (varint_0 v)
                in if stop \<le> length (content w) then Some (Some (take (stop - start) (drop start (content w))))
                   else None))"

definition witness_nth :: "Witness \<Rightarrow> nat \<Rightarrow> bytes option option" where
  "witness_nth w index =
     (case decode_cursor (content w) (indices_start w) index of
        None \<Rightarrow> Some None
      | Some p \<Rightarrow> element_at w p)"

definition witness_last :: "Witness \<Rightarrow> bytes option option" where
  "witness_last w = (if witness_elements w = 0 then Some None else witness_nth w (witness_elements w - 1))"

definition second_to_last :: "Witness \<Rightarrow> bytes option option" where
  "second_to_last w = (if witness_elements w \<le> 1 then Some None else witness_nth w (witness_elements w - 2))"

definition third_to_last :: "Witness \<Rightarrow> bytes option option" where
  "third_to_last w = (if witness_elements w \<le> 2 then Some None else witness_nth w (witness_elements w - 3))"

text \<open>
  The iterator ends at the first index that is not there; the fuel is one more than the index entries the
  buffer can hold, so it never runs out before that.
\<close>

fun iter_loop :: "nat \<Rightarrow> Witness \<Rightarrow> nat \<Rightarrow> bytes list option" where
  "iter_loop 0 w i = None"
| "iter_loop (Suc fuel) w i =
     (case witness_nth w i of
        None \<Rightarrow> None
      | Some None \<Rightarrow> Some []
      | Some (Some x) \<Rightarrow> map_option ((#) x) (iter_loop fuel w (i + 1)))"

definition to_vec :: "Witness \<Rightarrow> bytes list option" where
  "to_vec w = iter_loop (length (content w) div 4 + 1) w 0"

definition witness_size :: "Witness \<Rightarrow> nat option" where
  "witness_size w =
     map_option (\<lambda>xs. varint_size (varint_of_len (witness_elements w))
         + sum_list (map (\<lambda>x. varint_size (varint_of_len (length x)) + length x) xs)) (to_vec w)"

section \<open>Wire format\<close>

definition enc_Witness :: "Witness encoder" where
  "enc_Witness w =
     (let len = varint_of_len (witness_elements w);
          content_with_indices_len = length (content w);
          indices_size = witness_elements w * 4;
          content_len = content_with_indices_len - indices_size
      in (fst (enc_VarInt len) @ emit_slice (take content_len (content w)), content_len + varint_size len))"

function grow :: "nat \<Rightarrow> nat \<Rightarrow> nat" where
  "grow new_len required_len = (if new_len \<le> required_len \<and> 0 < new_len then grow (new_len * 2) required_len else new_len)"
  by pat_completeness auto
termination
  by (relation "measure (\<lambda>(n, r). Suc r - n)") auto

declare grow.simps [simp del]

definition resize_if_needed :: "bytes \<Rightarrow> nat \<Rightarrow> bytes" where
  "resize_if_needed v required_len =
     (if required_len \<ge> length v then vec_resize (grow (max (length v) 1) required_len) v else v)"

fun dec_elements :: "nat \<Rightarrow> nat \<Rightarrow> nat \<Rightarrow> bytes \<Rightarrow> nat \<Rightarrow> (bytes \<times> nat) decoder" where
  "dec_elements 0 i index_space c cursor = dret (c, cursor)"
| "dec_elements (Suc k) i index_space c cursor =
     dbind dec_VarInt (\<lambda>v.
       let vlen = varint_size v; element_size = unat (varint_0 v); required_len = cursor + element_size + vlen
       in if cursor + element_size \<ge> 2 ^ 64 \<or> required_len \<ge> 2 ^ 64
          then dfail (OversizedVectorAllocation (2 ^ 64 - 1) MAX_VEC_SIZE)
          else if required_len > MAX_VEC_SIZE + index_space
          then dfail (OversizedVectorAllocation required_len MAX_VEC_SIZE)
          else (case encode_cursor c 0 i (cursor - index_space) of
                  None \<Rightarrow> dfail Panicked
                | Some c1 \<Rightarrow>
                    (let c2 = resize_if_needed c1 required_len;
                         c3 = write_at cursor (fst (enc_VarInt v)) c2
                     in dbind (read_slice element_size) (\<lambda>element.
                          dec_elements k (i + 1) index_space (write_at (cursor + vlen) element c3)
                            (cursor + vlen + element_size)))))"

definition dec_Witness :: "Witness decoder" where
  "dec_Witness = dbind dec_VarInt (\<lambda>n.
     let elements = unat (varint_0 n)
     in if elements > MAX_VEC_SIZE then dfail (OversizedVectorAllocation elements MAX_VEC_SIZE)
        else if elements = 0 then dret witness_new
        else (let index_space = elements * 4
              in dbind (dec_elements elements 0 index_space (replicate (index_space + 128) 0) index_space)
                   (\<lambda>(c, cursor). dret \<lparr> content = rotate_l index_space (take cursor c),
                      witness_elements = elements, indices_start = cursor - index_space \<rparr>)))"

section \<open>Taproot views\<close>

datatype P2TrSpend =
    KeySpend "bytes option"
  | ScriptSpend (leaf_script: bytes) (control_block: bytes) "bytes option"

definition TAPROOT_ANNEX_PREFIX :: u8 where "TAPROOT_ANNEX_PREFIX = 0x50"

definition starts_with_annex :: "bytes option option \<Rightarrow> bool" where
  "starts_with_annex x = (case x of Some (Some (b # _)) \<Rightarrow> b = TAPROOT_ANNEX_PREFIX | _ \<Rightarrow> False)"

definition expect :: "bytes option option \<Rightarrow> bytes option" where
  "expect x = (case x of Some y \<Rightarrow> y | None \<Rightarrow> None)"

text \<open>\<open>P2TrSpend::from_witness\<close>; the outer \<open>None\<close> is an \<open>expect\<close> that fails.\<close>

definition p2tr_from_witness :: "Witness \<Rightarrow> P2TrSpend option option" where
  "p2tr_from_witness w =
     (let n = witness_len w
      in if n = 0 then Some None
         else if n = 1 then Some (Some (KeySpend None))
         else if n = 2 \<and> starts_with_annex (witness_last w)
         then (case expect (witness_last w) of None \<Rightarrow> None | Some a \<Rightarrow> Some (Some (KeySpend (Some a))))
         else if n \<ge> 3 \<and> starts_with_annex (witness_last w)
         then (case (expect (third_to_last w), expect (second_to_last w), expect (witness_last w)) of
                 (Some s, Some c, Some a) \<Rightarrow> Some (Some (ScriptSpend s c (Some a)))
               | _ \<Rightarrow> None)
         else (case (expect (second_to_last w), expect (witness_last w)) of
                 (Some s, Some c) \<Rightarrow> Some (Some (ScriptSpend s c None))
               | _ \<Rightarrow> None))"

definition p2tr_annex :: "P2TrSpend \<Rightarrow> bytes option" where
  "p2tr_annex s = (case s of KeySpend a \<Rightarrow> a | ScriptSpend _ _ a \<Rightarrow> a)"

definition taproot_control_block :: "Witness \<Rightarrow> bytes option option" where
  "taproot_control_block w =
     map_option (\<lambda>s. case s of Some (ScriptSpend _ c _) \<Rightarrow> Some c | _ \<Rightarrow> None) (p2tr_from_witness w)"

definition tapscript :: "Witness \<Rightarrow> bytes option option" where
  "tapscript w =
     map_option (\<lambda>s. case s of Some (ScriptSpend l _ _) \<Rightarrow> Some l | _ \<Rightarrow> None) (p2tr_from_witness w)"

definition taproot_annex :: "Witness \<Rightarrow> bytes option option" where
  "taproot_annex w = map_option (\<lambda>s. case s of Some sp \<Rightarrow> p2tr_annex sp | None \<Rightarrow> None) (p2tr_from_witness w)"

definition witness_script :: "Witness \<Rightarrow> bytes option option" where
  "witness_script w = witness_last w"

section \<open>The list a witness stands for\<close>

definition elem_bytes :: "bytes \<Rightarrow> bytes" where "elem_bytes x = fst (enc_with_size x)"
definition body :: "bytes list \<Rightarrow> bytes" where "body xs = concat (map elem_bytes xs)"

fun index_from :: "nat \<Rightarrow> bytes list \<Rightarrow> bytes" where
  "index_from k [] = []"
| "index_from k (x # xs) = to_le_bytes (word_of_nat k :: u32) @ index_from (k + length (elem_bytes x)) xs"

definition witness_of :: "bytes list \<Rightarrow> Witness" where
  "witness_of xs = \<lparr> content = body xs @ index_from 0 xs, witness_elements = length xs,
     indices_start = length (body xs) \<rparr>"

lemma body_simps [simp]: "body [] = []" "body (x # xs) = elem_bytes x @ body xs" "body (xs @ ys) = body xs @ body ys"
  by (simp_all add: body_def)

lemma length_index [simp]: "length (index_from k xs) = 4 * length xs"
  by (induction xs arbitrary: k) simp_all

lemma index_append: "index_from k (xs @ ys) = index_from k xs @ index_from (k + length (body xs)) ys"
  by (induction xs arbitrary: k) (simp_all add: add.assoc)

lemma witness_of_simps [simp]:
  "content (witness_of xs) = body xs @ index_from 0 xs" "witness_elements (witness_of xs) = length xs"
  "indices_start (witness_of xs) = length (body xs)"
  by (simp_all add: witness_of_def)

lemma elem_bytes_eq: "elem_bytes x = fst (enc_VarInt (varint_of_len (length x))) @ x"
  by (simp add: elem_bytes_def enc_with_size_def emit_slice_def)

lemma length_elem_bytes: "length (elem_bytes x) = varint_size (varint_of_len (length x)) + length x"
  by (simp add: elem_bytes_eq varint_size_eq)

lemma enc_elems_body: "fst (enc_elems enc_with_size xs) = body xs"
  by (induction xs) (simp_all add: elem_bytes_def)

lemma index_lookup:
  "i < length xs \<Longrightarrow> take 4 (drop (4 * i) (index_from k xs)) =
     to_le_bytes (word_of_nat (k + length (body (take i xs))) :: u32)"
proof (induction xs arbitrary: k i)
  case (Cons x xs)
  then show ?case by (cases i) (simp_all add: add.assoc)
qed simp

section \<open>Building\<close>

lemma witness_new_of: "witness_new = witness_of []"
  by (simp add: witness_new_def witness_of_def)

lemma encode_cursor_append:
  "length as = s + i * 4 \<Longrightarrow> length bs = 4 \<Longrightarrow> v < 2 ^ 32 \<Longrightarrow>
   encode_cursor (as @ bs @ cs) s i v = Some (as @ to_le_bytes (word_of_nat v :: u32) @ cs)"
  by (simp add: encode_cursor_def write_at_append)

lemma rotate_r_append: "length b = k \<Longrightarrow> rotate_r k (a @ b) = b @ a"
  by (simp add: rotate_r_def)

lemma push_slice_of:
  assumes "length (body xs) < 2 ^ 32"
  shows "push_slice (witness_of xs) x = Some (witness_of (xs @ [x]))"
proof -
  define vb where "vb = fst (enc_VarInt (varint_of_len (length x)))"
  define vl where "vl = varint_size (varint_of_len (length x))"
  have vl: "length vb = vl" by (simp add: vb_def vl_def varint_size_eq)
  define tot where "tot = vl + length x"
  define I where "I = index_from 0 xs"
  have I: "length I = length xs * 4" by (simp add: I_def)
  have c1: "vec_resize (length (body xs @ I) + tot + 4) (body xs @ I) = body xs @ I @ replicate (tot + 4) 0"
    by (simp add: vec_resize_def add.assoc)
  have r: "rotate_r tot (I @ replicate (tot + 4) 0) = replicate tot 0 @ I @ replicate 4 0"
  proof -
    have "I @ replicate (tot + 4) 0 = (I @ replicate 4 0) @ replicate tot 0"
      by (simp add: add.commute [of tot] flip: replicate_add)
    then show ?thesis by (simp add: rotate_r_append del: append_assoc)
  qed
  have c3: "encode_cursor (body xs @ replicate tot 0 @ I @ replicate 4 0) (length (body xs) + tot) (length xs)
      (length (body xs)) = Some (body xs @ replicate tot 0 @ I @ to_le_bytes (word_of_nat (length (body xs)) :: u32))"
    using encode_cursor_append [of "body xs @ replicate tot 0 @ I" "length (body xs) + tot" "length xs"
        "replicate 4 0" "length (body xs)" "[]"] assms I by simp
  have tot0: "(replicate tot 0 :: bytes) = replicate vl 0 @ replicate (length x) 0" by (simp add: tot_def replicate_add)
  have c4: "write_at (length (body xs)) vb (body xs @ replicate tot 0 @ R) = body xs @ vb @ replicate (length x) 0 @ R" for R
    unfolding tot0 using write_at_append [of "body xs" "length (body xs)" "replicate vl 0" vb "replicate (length x) 0 @ R"] vl
    by simp
  have c5: "write_at (length (body xs) + vl) x (body xs @ vb @ replicate (length x) 0 @ R) = body xs @ vb @ x @ R" for R
    using write_at_append [of "body xs @ vb" "length (body xs) + vl" "replicate (length x) 0" x R] vl by simp
  have eb: "elem_bytes x = vb @ x" by (simp add: elem_bytes_eq vb_def)
  have w: "witness_of (xs @ [x]) = \<lparr> content = body xs @ vb @ x @ I @ to_le_bytes (word_of_nat (length (body xs)) :: u32),
      witness_elements = length xs + 1, indices_start = length (body xs) + tot \<rparr>"
    by (simp add: witness_of_def index_append eb I_def tot_def vl)
  show ?thesis
    unfolding push_slice_def Let_def witness_of_simps vl_def [symmetric] tot_def [symmetric] I_def [symmetric] c1
      vb_def [symmetric] w
    by (simp add: r c3 c4 c5)
qed

lemma sum_body: "sum_list (map (\<lambda>e. length e + varint_size (varint_of_len (length e))) xs) = length (body xs)"
  by (induction xs) (simp_all add: length_elem_bytes)

lemma from_slice_loop_of:
  assumes "length (body (xs @ ys)) < 2 ^ 32"
  shows "from_slice_loop (length (body (xs @ ys))) ys (length xs) (length (body xs))
      (body xs @ replicate (length (body ys)) 0 @ index_from 0 xs @ replicate (4 * length ys) 0)
    = Some (body (xs @ ys) @ index_from 0 (xs @ ys))"
  using assms
proof (induction ys arbitrary: xs)
  case (Cons y ys)
  define vb where "vb = fst (enc_VarInt (varint_of_len (length y)))"
  define vl where "vl = varint_size (varint_of_len (length y))"
  have vl: "length vb = vl" by (simp add: vb_def vl_def varint_size_eq)
  have eb: "elem_bytes y = vb @ y" by (simp add: elem_bytes_eq vb_def)
  define N where "N = length (body (xs @ y # ys))"
  define I where "I = index_from 0 xs"
  define L where "L = to_le_bytes (word_of_nat (length (body xs)) :: u32)"
  have N: "N = length (body xs) + vl + length y + length (body ys)" by (simp add: N_def eb vl)
  have lt: "length (body xs) < 2 ^ 32" using Cons.prems by simp
  have z4: "(replicate (4 * length (y # ys)) 0 :: bytes) = replicate 4 0 @ replicate (4 * length ys) 0"
    by (simp add: replicate_add)
  have zb: "(replicate (length (body (y # ys))) 0 :: bytes) = replicate vl 0 @ replicate (length y) 0 @ replicate (length (body ys)) 0"
    by (simp add: eb vl replicate_add)
  have c1: "encode_cursor (body xs @ (replicate vl 0 @ replicate (length y) 0 @ replicate (length (body ys)) 0) @ I @ replicate 4 0 @
      replicate (4 * length ys) 0) N (length xs) (length (body xs)) =
    Some (body xs @ replicate vl 0 @ replicate (length y) 0 @ replicate (length (body ys)) 0 @ I @ L @ replicate (4 * length ys) 0)"
    using encode_cursor_append [of "body xs @ replicate vl 0 @ replicate (length y) 0 @ replicate (length (body ys)) 0 @ I"
        N "length xs" "replicate 4 0" "length (body xs)" "replicate (4 * length ys) 0"] lt
    by (simp add: N I_def L_def)
  have c2: "write_at (length (body xs)) vb (body xs @ replicate vl 0 @ R) = body xs @ vb @ R" for R
    using write_at_append [of "body xs" "length (body xs)" "replicate vl 0" vb R] vl by simp
  have c3: "write_at (length (body xs) + vl) y (body xs @ vb @ replicate (length y) 0 @ R) = body xs @ vb @ y @ R" for R
    using write_at_append [of "body xs @ vb" "length (body xs) + vl" "replicate (length y) 0" y R] vl by simp
  have "from_slice_loop N (y # ys) (length xs) (length (body xs))
      (body xs @ replicate (length (body (y # ys))) 0 @ I @ replicate (4 * length (y # ys)) 0) =
    from_slice_loop N ys (length xs + 1) (length (body xs) + vl + length y)
      (body xs @ vb @ y @ replicate (length (body ys)) 0 @ I @ L @ replicate (4 * length ys) 0)"
    unfolding z4 zb from_slice_loop.simps c1 by (simp add: Let_def c2 c3 flip: vb_def vl_def)
  also have "\<dots> = Some (body (xs @ y # ys) @ index_from 0 (xs @ y # ys))"
    using Cons.IH [of "xs @ [y]"] Cons.prems
    by (simp add: N_def eb vl index_append I_def L_def add.assoc)
  finally show ?case by (simp only: N_def I_def)
qed simp

lemma from_slice_of: "length (body xs) < 2 ^ 32 \<Longrightarrow> witness_from_slice xs = Some (witness_of xs)"
  using from_slice_loop_of [of "[]" xs]
  by (simp add: witness_from_slice_def witness_of_def sum_body Let_def mult.commute replicate_add)

section \<open>Access\<close>

definition elems_ok :: "bytes list \<Rightarrow> bool" where
  "elems_ok xs \<longleftrightarrow> length (body xs) < 2 ^ 32"

lemma element_length_lt: "elems_ok xs \<Longrightarrow> x \<in> set xs \<Longrightarrow> length x < 2 ^ 64"
proof -
  assume "elems_ok xs" "x \<in> set xs"
  then have "length (elem_bytes x) < 2 ^ 32"
    by (induction xs) (auto simp: elems_ok_def)
  then show ?thesis by (simp add: length_elem_bytes)
qed

lemma element_at_of:
  assumes "elems_ok (xs @ x # ys)"
  shows "element_at (witness_of (xs @ x # ys)) (length (body xs)) = Some (Some x)"
proof -
  have "length x < 2 ^ 64" using element_length_lt [OF assms] by simp
  then have u: "unat (word_of_nat (length x) :: u64) = length x" by (rule unat_len)
  have d: "drop (length (body xs)) (content (witness_of (xs @ x # ys))) =
      fst (enc_VarInt (varint_of_len (length x))) @ x @ body ys @ index_from 0 (xs @ x # ys)"
    by (simp add: elem_bytes_eq)
  define R where "R = body ys @ index_from 0 (xs @ x # ys)"
  have c: "content (witness_of (xs @ x # ys)) = body xs @ fst (enc_VarInt (varint_of_len (length x))) @ x @ R"
    by (simp add: elem_bytes_eq R_def)
  show ?thesis
    unfolding element_at_def c by (simp add: varint_roundtrip u varint_size_eq Let_def)
qed

lemma witness_nth_of:
  assumes "elems_ok xs"
  shows "witness_nth (witness_of xs) i = Some (if i < length xs then Some (xs ! i) else None)"
proof (cases "i < length xs")
  case True
  have split: "xs = take i xs @ xs ! i # drop (Suc i) xs" using True by (rule id_take_nth_drop)
  have le: "length (body (take i xs)) \<le> length (body xs)"
    by (subst (2) split) (simp only: body_simps length_append le_add1)
  have "length (body (take i xs)) < 2 ^ 32" using assms le by (simp add: elems_ok_def)
  then have u: "unat (word_of_nat (length (body (take i xs))) :: u32) = length (body (take i xs))" by (simp add: unat_of_nat)
  have "decode_cursor (content (witness_of xs)) (length (body xs)) i = Some (length (body (take i xs)))"
    using True index_lookup [OF True, of 0] u by (simp add: decode_cursor_def Let_def mult.commute)
  moreover have "element_at (witness_of xs) (length (body (take i xs))) = Some (Some (xs ! i))"
    using element_at_of [of "take i xs" "xs ! i" "drop (Suc i) xs"] assms split by simp
  ultimately show ?thesis using True by (simp add: witness_nth_def)
next
  case False
  then show ?thesis by (simp add: witness_nth_def decode_cursor_def Let_def)
qed

lemma iter_loop_of:
  assumes "elems_ok xs"
  shows "length xs - i < fuel \<Longrightarrow> iter_loop fuel (witness_of xs) i = Some (drop i xs)"
proof (induction fuel arbitrary: i)
  case (Suc fuel)
  then show ?case using witness_nth_of [OF assms, of i]
    by (cases "i < length xs") (simp_all add: Cons_nth_drop_Suc)
qed simp

lemma to_vec_of: "elems_ok xs \<Longrightarrow> to_vec (witness_of xs) = Some xs"
  using iter_loop_of [of xs 0 "length (content (witness_of xs)) div 4 + 1"]
  by (simp add: to_vec_def del: iter_loop.simps)

lemma enc_Witness_of: "enc_Witness (witness_of xs) = enc_vec enc_with_size xs"
proof -
  have "snd (enc_elems enc_with_size xs) = length (body xs)"
    using bytes_codec.elems_enc_len [of xs] by (simp add: enc_elems_body)
  then show ?thesis
    by (simp add: enc_Witness_def enc_vec_def ecat_def Let_def emit_slice_def enc_elems_body varint_size_eq varint_len)
qed

lemma witness_size_of: "elems_ok xs \<Longrightarrow> witness_size (witness_of xs) = Some (length (fst (enc_Witness (witness_of xs))))"
proof -
  have "sum_list (map (\<lambda>x. varint_size (varint_of_len (length x)) + length x) xs) = length (body xs)" for xs
    by (induction xs) (simp_all add: length_elem_bytes)
  then show "elems_ok xs \<Longrightarrow> ?thesis"
    by (simp add: witness_size_def to_vec_of enc_Witness_of enc_vec_def enc_elems_body varint_size_eq)
qed

section \<open>Decoding\<close>

lemma grow_gt: "0 < n \<Longrightarrow> r < grow n r \<and> n \<le> grow n r"
proof (induction n r rule: grow.induct)
  case (1 n r)
  then show ?case by (cases "n \<le> r") (auto simp: grow.simps [of n r])
qed

lemma resize_prefix:
  "take (length v) (resize_if_needed v r) = v" "length v \<le> length (resize_if_needed v r)" "r \<le> length (resize_if_needed v r)"
proof -
  have g: "r < grow (max (length v) 1) r" "length v \<le> grow (max (length v) 1) r"
    using grow_gt [of "max (length v) 1" r] by auto
  show "take (length v) (resize_if_needed v r) = v" "length v \<le> length (resize_if_needed v r)"
    "r \<le> length (resize_if_needed v r)"
    using g by (auto simp: resize_if_needed_def vec_resize_def)
qed

text \<open>The decoder's buffer after \<open>xs\<close>: index space for \<open>n\<close> entries in front, the elements behind it.\<close>

definition dec_at :: "nat \<Rightarrow> bytes list \<Rightarrow> bytes \<Rightarrow> nat \<Rightarrow> bool" where
  "dec_at n xs c cursor \<longleftrightarrow> length xs \<le> n \<and> cursor = 4 * n + length (body xs) \<and>
     (\<exists>z t. c = index_from 0 xs @ z @ body xs @ t \<and> length z = 4 * (n - length xs))"

lemma dec_step:
  assumes at: "dec_at n xs c cursor" and n: "length xs < n" and lim: "length (body xs) < 2 ^ 32"
    and req: "required = cursor + length (elem_bytes x)"
  shows "\<exists>c1. encode_cursor c 0 (length xs) (cursor - 4 * n) = Some c1 \<and>
    dec_at n (xs @ [x])
      (write_at (cursor + varint_size (varint_of_len (length x))) x
        (write_at cursor (fst (enc_VarInt (varint_of_len (length x)))) (resize_if_needed c1 required)))
      (cursor + varint_size (varint_of_len (length x)) + length x)"
proof -
  obtain z t where c: "c = index_from 0 xs @ z @ body xs @ t" "length z = 4 * (n - length xs)"
    and cur: "cursor = 4 * n + length (body xs)" using at by (auto simp: dec_at_def)
  define z4 z' where "z4 = take 4 z" and "z' = drop 4 z"
  have z: "z = z4 @ z'" "length z4 = 4" "length z' = 4 * (n - Suc (length xs))"
    using c(2) n by (simp_all add: z4_def z'_def)
  define L where "L = to_le_bytes (word_of_nat (length (body xs)) :: u32)"
  define c1 where "c1 = index_from 0 xs @ L @ z' @ body xs @ t"
  have e: "encode_cursor c 0 (length xs) (cursor - 4 * n) = Some c1"
    using encode_cursor_append [of "index_from 0 xs" 0 "length xs" z4 "length (body xs)" "z' @ body xs @ t"] lim z
    by (simp add: c cur c1_def L_def)
  define vb where "vb = fst (enc_VarInt (varint_of_len (length x)))"
  define vl where "vl = varint_size (varint_of_len (length x))"
  have vl: "length vb = vl" by (simp add: vb_def vl_def varint_size_eq)
  have eb: "elem_bytes x = vb @ x" by (simp add: elem_bytes_eq vb_def)
  define c2 where "c2 = resize_if_needed c1 required"
  define P where "P = index_from 0 xs @ L @ z' @ body xs"
  have P: "length P = cursor" using z n by (simp add: P_def L_def cur)
  have "take (length c1) c2 = c1" "required \<le> length c2" "length c1 \<le> length c2"
    using resize_prefix [where v = c1 and r = required] by (simp_all add: c2_def)
  then have "take cursor c2 = P" using P by (metis P_def append.assoc append_eq_conv_conj c1_def length_append le_add1 min.absorb1 take_take)
  then have c2: "c2 = P @ drop cursor c2" by (metis append_take_drop_id)
  have dl: "vl + length x \<le> length (drop cursor c2)" using \<open>required \<le> length c2\<close> by (simp add: req eb vl)
  define D where "D = drop cursor c2"
  define d1 d2 d3 where "d1 = take vl D" and "d2 = take (length x) (drop vl D)" and "d3 = drop (length x) (drop vl D)"
  have d: "D = d1 @ d2 @ d3" "length d1 = vl" "length d2 = length x"
    using dl by (simp_all add: d1_def d2_def d3_def D_def del: drop_drop)
  have "write_at (cursor + vl) x (write_at cursor vb c2) = P @ vb @ x @ d3"
  proof -
    have "write_at cursor vb c2 = P @ vb @ d2 @ d3"
      using write_at_append [of P cursor d1 vb "d2 @ d3"] P d vl c2 by (simp add: D_def)
    then show ?thesis using write_at_append [of "P @ vb" "cursor + vl" d2 x d3] P d vl by simp
  qed
  moreover have "P @ vb @ x @ d3 = index_from 0 (xs @ [x]) @ z' @ body (xs @ [x]) @ d3"
    by (simp add: P_def index_append L_def eb)
  ultimately have "dec_at n (xs @ [x]) (write_at (cursor + vl) x (write_at cursor vb c2)) (cursor + vl + length x)"
    using n z cur unfolding dec_at_def by (auto simp: eb vl)
  then show ?thesis using e by (simp add: vl_def vb_def c2_def)
qed

lemma dec_elements_sound:
  assumes "dec_at n xs c cursor" and "length xs + k = n" and "length (body xs) \<le> MAX_VEC_SIZE"
    and "dec_elements k (length xs) (4 * n) c cursor bs = Inr ((c', cur'), rest)"
  shows "\<exists>ys. length ys = k \<and> length (body (xs @ ys)) \<le> MAX_VEC_SIZE \<and> bs = body ys @ rest \<and> dec_at n (xs @ ys) c' cur'"
  using assms
proof (induction k arbitrary: xs c cursor bs)
  case 0
  then show ?case by simp
next
  case (Suc k)
  have cur: "cursor = 4 * n + length (body xs)" using Suc.prems(1) by (simp add: dec_at_def)
  have lim: "length (body xs) < 2 ^ 32" using Suc.prems(3) by (simp add: MAX_VEC_SIZE_def)
  obtain v r1 where v: "dec_VarInt bs = Inr (v, r1)"
    using Suc.prems(4) by (auto simp: dbind_Inr_iff)
  define es vl where "es = unat (varint_0 v)" and "vl = varint_size v"
  define req where "req = cursor + es + vl"
  have ok: "\<not> req > MAX_VEC_SIZE + 4 * n"
    using Suc.prems(4) v by (auto simp: dbind_def Let_def es_def vl_def req_def dfail_def split: if_splits)
  obtain c1 x r2 where s: "encode_cursor c 0 (length xs) (cursor - 4 * n) = Some c1" "read_slice es r1 = Inr (x, r2)"
    "dec_elements k (length xs + 1) (4 * n) (write_at (cursor + vl) x (write_at cursor (fst (enc_VarInt v))
        (resize_if_needed c1 req))) (cursor + vl + es) r2 = Inr ((c', cur'), rest)"
    using Suc.prems(4) v unfolding es_def vl_def req_def
    by (auto simp: dbind_def Let_def dfail_def split: if_splits option.splits sum.splits)
  have x: "length x = es" "r1 = x @ r2" using s(2) by (auto simp: read_slice_Inr_iff)
  have vx: "v = varint_of_len (length x)" by (cases v) (simp add: x es_def)
  have bs: "bs = elem_bytes x @ r2" using varint_canonical [OF v] x by (simp add: elem_bytes_eq vx)
  have req: "req = cursor + length (elem_bytes x)" by (simp add: req_def length_elem_bytes x vl_def vx)
  have at: "dec_at n (xs @ [x]) (write_at (cursor + vl) x (write_at cursor (fst (enc_VarInt v)) (resize_if_needed c1 req)))
      (cursor + vl + es)"
    using dec_step [OF Suc.prems(1) _ lim req] Suc.prems(2) s(1) by (simp add: vl_def vx x)
  have "length (body (xs @ [x])) \<le> MAX_VEC_SIZE" using ok by (simp add: req cur)
  then obtain ys where "length ys = k" "length (body ((xs @ [x]) @ ys)) \<le> MAX_VEC_SIZE" "r2 = body ys @ rest"
    "dec_at n ((xs @ [x]) @ ys) c' cur'"
    using Suc.IH [OF at, of r2] s(3) Suc.prems(2) by auto
  then show ?case using bs by (intro exI [of _ "x # ys"]) simp
qed

lemma dec_elements_complete:
  assumes "dec_at n xs c cursor" and "length xs + length ys = n" and "length (body (xs @ ys)) \<le> MAX_VEC_SIZE"
    and "n \<le> MAX_VEC_SIZE"
  shows "\<exists>c' cur'. dec_elements (length ys) (length xs) (4 * n) c cursor (body ys @ rest) = Inr ((c', cur'), rest) \<and>
    dec_at n (xs @ ys) c' cur'"
  using assms
proof (induction ys arbitrary: xs c cursor)
  case Nil
  then show ?case by (simp add: dret_def)
next
  case (Cons x ys)
  have cur: "cursor = 4 * n + length (body xs)" using Cons.prems(1) by (simp add: dec_at_def)
  have lim: "length (body xs) < 2 ^ 32" using Cons.prems(3) by (simp add: MAX_VEC_SIZE_def)
  have xl: "length (elem_bytes x) \<le> MAX_VEC_SIZE" using Cons.prems(3) by simp
  then have "length x < 2 ^ 64" by (simp add: length_elem_bytes MAX_VEC_SIZE_def)
  then have u: "unat (word_of_nat (length x) :: u64) = length x" by (rule unat_len)
  define v where "v = varint_of_len (length x)"
  define req where "req = cursor + length x + varint_size v"
  have req: "req = cursor + length (elem_bytes x)" by (simp add: req_def length_elem_bytes v_def)
  have le: "req \<le> MAX_VEC_SIZE + 4 * n" using Cons.prems(3) by (simp add: req cur)
  then have small: "req < 2 ^ 64" "cursor + length x < 2 ^ 64"
    using Cons.prems(4) by (simp_all add: MAX_VEC_SIZE_def req_def)
  obtain c1 where c1: "encode_cursor c 0 (length xs) (cursor - 4 * n) = Some c1"
    and at: "dec_at n (xs @ [x]) (write_at (cursor + varint_size v) x (write_at cursor (fst (enc_VarInt v))
        (resize_if_needed c1 req))) (cursor + varint_size v + length x)"
    using dec_step [OF Cons.prems(1) _ lim req] Cons.prems(2) by (auto simp: v_def)
  define c2 where "c2 = write_at (cursor + varint_size v) x (write_at cursor (fst (enc_VarInt v)) (resize_if_needed c1 req))"
  have "dec_elements (length (x # ys)) (length xs) (4 * n) c cursor (body (x # ys) @ rest) =
      dec_elements (length ys) (length (xs @ [x])) (4 * n) c2 (cursor + varint_size v + length x) (body ys @ rest)"
  proof -
    have "dec_VarInt (body (x # ys) @ rest) = Inr (v, x @ body ys @ rest)"
      using varint_roundtrip [of v "x @ body ys @ rest"] by (simp add: elem_bytes_eq v_def)
    moreover have "read_slice (length x) (x @ body ys @ rest) = Inr (x, body ys @ rest)"
      by (rule read_slice_append) simp
    moreover have "unat (varint_0 v) = length x" by (simp add: v_def u)
    ultimately show ?thesis
      using small le c1 unfolding req_def c2_def by (simp add: dbind_def Let_def not_le)
  qed
  then show ?case using Cons.IH [OF at [folded c2_def]] Cons.prems by simp
qed

lemma dec_at_init: "dec_at n [] (replicate (4 * n + 128) 0) (4 * n)"
  by (auto simp: dec_at_def replicate_add)

lemma dec_at_final:
  assumes "dec_at n xs c cursor" and "length xs = n"
  shows "\<lparr> content = rotate_l (4 * n) (take cursor c), witness_elements = n, indices_start = cursor - 4 * n \<rparr> = witness_of xs"
proof -
  obtain t where "c = index_from 0 xs @ body xs @ t" "cursor = 4 * n + length (body xs)"
    using assms by (auto simp: dec_at_def)
  then show ?thesis using assms(2) by (simp add: rotate_l_def witness_of_def)
qed

definition witness_ok :: "Witness \<Rightarrow> bool" where
  "witness_ok w \<longleftrightarrow> (\<exists>xs. w = witness_of xs \<and> length xs \<le> MAX_VEC_SIZE \<and> length (body xs) \<le> MAX_VEC_SIZE)"

lemma enc_witness_body: "fst (enc_Witness (witness_of xs)) = fst (enc_VarInt (varint_of_len (length xs))) @ body xs"
  by (simp add: enc_Witness_of enc_vec_def enc_elems_body)

interpretation witness_codec: codec enc_Witness dec_Witness witness_ok
proof
  show "snd (enc_Witness w) = length (fst (enc_Witness w))" for w
    by (simp add: enc_Witness_def emit_slice_def varint_size_eq Let_def)
  show "dec_Witness (fst (enc_Witness w) @ rest) = Inr (w, rest)" if wok: "witness_ok w" for w rest
  proof -
    obtain xs where w: "w = witness_of xs" "length xs \<le> MAX_VEC_SIZE" "length (body xs) \<le> MAX_VEC_SIZE"
      using wok by (auto simp: witness_ok_def)
    have u: "unat (word_of_nat (length xs) :: u64) = length xs"
      using w(2) by (intro unat_len) (simp add: MAX_VEC_SIZE_def)
    obtain c cur where d: "dec_elements (length xs) 0 (4 * length xs) (replicate (4 * length xs + 128) 0) (4 * length xs)
        (body xs @ rest) = Inr ((c, cur), rest)" and at: "dec_at (length xs) xs c cur"
      using dec_elements_complete [OF dec_at_init, where n = "length xs" and ys = xs and rest = rest] w(2,3) by auto
    show ?thesis
    proof (cases "xs = []")
      case True
      then show ?thesis
        by (simp add: w enc_witness_body dec_Witness_def dbind_def varint_roundtrip witness_new_of dret_def)
    next
      case False
      then show ?thesis using u w(2) d dec_at_final [OF at refl]
        by (simp add: w(1) enc_witness_body dec_Witness_def dbind_def varint_roundtrip Let_def mult.commute dret_def)
    qed
  qed
  show "witness_ok w \<and> bs = fst (enc_Witness w) @ rest" if dw: "dec_Witness bs = Inr (w, rest)" for bs w rest
  proof -
    obtain v r where v: "dec_VarInt bs = Inr (v, r)" using dw by (auto simp: dec_Witness_def dbind_Inr_iff)
    define n where "n = unat (varint_0 v)"
    have vn: "v = varint_of_len n" by (cases v) (simp add: n_def)
    have n: "n \<le> MAX_VEC_SIZE"
      using dw v by (auto simp: dec_Witness_def dbind_def Let_def n_def dfail_def split: if_splits)
    have bs: "bs = fst (enc_VarInt (varint_of_len n)) @ r" using varint_canonical [OF v] by (simp add: vn)
    show ?thesis
    proof (cases "n = 0")
      case True
      then have "w = witness_new" "rest = r"
        using dw v by (auto simp: dec_Witness_def dbind_def Let_def n_def MAX_VEC_SIZE_def dret_def)
      then show ?thesis using True bs enc_witness_body [of "[]"]
        unfolding witness_ok_def by (auto simp: witness_new_of intro!: exI [of _ "[]"])
    next
      case False
      obtain c cur where d: "dec_elements n 0 (4 * n) (replicate (4 * n + 128) 0) (4 * n) r = Inr ((c, cur), rest)"
        and w: "w = \<lparr> content = rotate_l (4 * n) (take cur c), witness_elements = n, indices_start = cur - 4 * n \<rparr>"
        using dw v n False by (auto simp: dec_Witness_def dbind_Inr_iff Let_def n_def mult.commute split: if_splits)
      obtain ys where ys: "length ys = n" "length (body ys) \<le> MAX_VEC_SIZE" "r = body ys @ rest" "dec_at n ys c cur"
        using dec_elements_sound [OF dec_at_init, of n n r c cur rest] d by auto
      have "w = witness_of ys" unfolding w by (rule dec_at_final [OF ys(4,1)])
      then show ?thesis using ys n bs enc_witness_body [of ys] by (auto simp: witness_ok_def)
    qed
  qed
qed

lemma witness_ends_of:
  assumes "elems_ok xs"
  shows "witness_last (witness_of xs) = Some (if xs = [] then None else Some (last xs))"
    and "second_to_last (witness_of xs) = Some (if length xs \<le> 1 then None else Some (xs ! (length xs - 2)))"
    and "third_to_last (witness_of xs) = Some (if length xs \<le> 2 then None else Some (xs ! (length xs - 3)))"
  using witness_nth_of [OF assms]
  by (auto simp: witness_last_def second_to_last_def third_to_last_def last_conv_nth)

section \<open>Properties\<close>

text \<open>A witness built by \<open>new\<close>, \<open>push\<close> or \<open>from_slice\<close> is the buffer of the list it stands for: pushing
  appends to the list, and the indexed reads and the iterator return the list's elements without ever
  reading out of range.\<close>

theorem witness_refines_list:
  assumes "elems_ok xs"
  shows "witness_new = witness_of [] \<and> witness_from_slice xs = Some (witness_of xs) \<and>
    push_slice (witness_of xs) x = Some (witness_of (xs @ [x])) \<and>
    to_vec (witness_of xs) = Some xs \<and> witness_len (witness_of xs) = length xs \<and>
    witness_nth (witness_of xs) i = Some (if i < length xs then Some (xs ! i) else None) \<and>
    witness_last (witness_of xs) = Some (if xs = [] then None else Some (last xs))"
  using assms by (simp add: witness_new_of from_slice_of push_slice_of to_vec_of witness_nth_of witness_ends_of
      witness_len_def elems_ok_def)

theorem witness_refines_list_witness:
  "witness_new = witness_of [] \<and> witness_from_slice [[1, 2], []] = Some (witness_of [[1, 2], []]) \<and>
    push_slice (witness_of [[1, 2], []]) [3] = Some (witness_of ([[1, 2], []] @ [[3]])) \<and>
    to_vec (witness_of [[1, 2], []]) = Some [[1, 2], []] \<and> witness_len (witness_of [[1, 2], []]) = length [[1 :: u8, 2], []] \<and>
    witness_nth (witness_of [[1, 2], []]) 1 = Some (if 1 < length [[1 :: u8, 2], []] then Some ([[1, 2], []] ! 1) else None) \<and>
    witness_last (witness_of [[1, 2], []]) = Some (if [[1 :: u8, 2], []] = [] then None else Some (last [[1, 2], []]))"
  by (rule witness_refines_list) (simp add: elems_ok_def length_elem_bytes varint_size_def)

text \<open>Decoding a witness accepts exactly the wire encodings of a list of byte strings within the size
  limits, and yields the buffer of that list; the returned count and \<open>size\<close> are the encoded length.\<close>

theorem witness_decode_iff:
  "dec_Witness bs = Inr (w, rest) \<longleftrightarrow>
     (\<exists>xs. w = witness_of xs \<and> length xs \<le> MAX_VEC_SIZE \<and> length (body xs) \<le> MAX_VEC_SIZE \<and>
        bs = serialize (enc_vec enc_with_size) xs @ rest)"
proof
  assume "dec_Witness bs = Inr (w, rest)"
  then have "witness_ok w" "bs = fst (enc_Witness w) @ rest" using witness_codec.canonical by blast+
  then show "\<exists>xs. w = witness_of xs \<and> length xs \<le> MAX_VEC_SIZE \<and> length (body xs) \<le> MAX_VEC_SIZE \<and>
      bs = serialize (enc_vec enc_with_size) xs @ rest"
    by (auto simp: witness_ok_def serialize_def enc_Witness_of)
next
  assume "\<exists>xs. w = witness_of xs \<and> length xs \<le> MAX_VEC_SIZE \<and> length (body xs) \<le> MAX_VEC_SIZE \<and>
      bs = serialize (enc_vec enc_with_size) xs @ rest"
  then have "witness_ok w" "bs = fst (enc_Witness w) @ rest"
    by (auto simp: witness_ok_def serialize_def enc_Witness_of)
  then show "dec_Witness bs = Inr (w, rest)" using witness_codec.dec_enc by simp
qed

text \<open>The taproot view of a witness never panics and splits the stack as BIP 341 says: a last element
  starting with \<open>0x50\<close> behind at least one other is the annex, the control block is the last remaining
  element and the leaf script the one before it.\<close>

theorem p2tr_split:
  assumes "elems_ok xs"
  defines "stack \<equiv> (if 2 \<le> length xs \<and> last xs \<noteq> [] \<and> hd (last xs) = TAPROOT_ANNEX_PREFIX then butlast xs else xs)"
  shows "p2tr_from_witness (witness_of xs) = Some
    (if xs = [] then None
     else if length stack = 1 then Some (KeySpend (if stack = xs then None else Some (last xs)))
     else Some (ScriptSpend (last (butlast stack)) (last stack) (if stack = xs then None else Some (last xs))))"
proof -
  have ann: "starts_with_annex (Some (Some y)) \<longleftrightarrow> y \<noteq> [] \<and> hd y = TAPROOT_ANNEX_PREFIX" for y
    by (cases y) (simp_all add: starts_with_annex_def)
  consider "xs = []" | a where "xs = [a]" | a b where "xs = [a, b]"
    | ys a b c where "xs = ys @ [a, b, c]"
  proof -
    have "xs = [] \<or> (\<exists>a. xs = [a]) \<or> (\<exists>a b. xs = [a, b]) \<or> (\<exists>ys a b c. xs = ys @ [a, b, c])"
    proof (cases xs rule: rev_cases)
      case (snoc ys c)
      then show ?thesis
      proof (cases ys rule: rev_cases)
        case (snoc zs b)
        then show ?thesis using \<open>xs = ys @ [c]\<close> by (cases zs rule: rev_cases) auto
      qed simp
    qed simp
    then show ?thesis using that by blast
  qed
  then show ?thesis
    using witness_ends_of [OF assms(1)]
    by cases (auto simp: p2tr_from_witness_def witness_len_def stack_def expect_def ann Let_def nth_append
        butlast_append last_append)
qed

theorem p2tr_split_witness:
  "p2tr_from_witness (witness_of [[7], [1], [2], [0x50, 3]]) = Some (Some (ScriptSpend [1] [2] (Some [0x50, 3])))"
  using p2tr_split [of "[[7], [1], [2], [0x50, 3]]"]
  by (simp add: elems_ok_def length_elem_bytes varint_size_def TAPROOT_ANNEX_PREFIX_def)

end
