(* ===== verification/Locktime.thy ===== *)
theory Locktime
  imports Encode
begin

text \<open>
  Lock times and sequence numbers: \<open>units/src/locktime/\<close>, \<open>bitcoin/src/blockdata/locktime/\<close> and the type
  \<open>Sequence\<close> of \<open>bitcoin/src/blockdata/transaction.rs\<close>. A panic is the value \<open>None\<close>. The flag \<open>oc\<close> of the
  conversions from seconds is the compiler's overflow check: set, an addition that overflows panics; clear,
  it wraps.
\<close>

section \<open>Absolute lock times\<close>

definition LOCK_TIME_THRESHOLD :: u32 where "LOCK_TIME_THRESHOLD = 500000000"

definition is_block_height :: "u32 \<Rightarrow> bool" where "is_block_height n \<longleftrightarrow> n < LOCK_TIME_THRESHOLD"
definition is_block_time :: "u32 \<Rightarrow> bool" where "is_block_time n \<longleftrightarrow> LOCK_TIME_THRESHOLD \<le> n"

datatype Height = Height (height_0: u32)
datatype Time = Time (time_0: u32)
datatype LockTimeUnit = UnitBlocks | UnitSeconds
datatype ConversionError = ConversionError (ce_unit: LockTimeUnit) (ce_input: u32)
datatype LockTime = Blocks Height | Seconds Time

definition height_from_consensus :: "u32 \<Rightarrow> ConversionError + Height" where
  "height_from_consensus n = (if is_block_height n then Inr (Height n) else Inl (ConversionError UnitBlocks n))"

definition time_from_consensus :: "u32 \<Rightarrow> ConversionError + Time" where
  "time_from_consensus n = (if is_block_time n then Inr (Time n) else Inl (ConversionError UnitSeconds n))"

definition lt_from_consensus :: "u32 \<Rightarrow> LockTime option" where
  "lt_from_consensus n =
     (if is_block_height n
      then (case height_from_consensus n of Inl e \<Rightarrow> None | Inr h \<Rightarrow> Some (Blocks h))
      else (case time_from_consensus n of Inl e \<Rightarrow> None | Inr t \<Rightarrow> Some (Seconds t)))"

definition lt_from_height :: "u32 \<Rightarrow> ConversionError + LockTime" where
  "lt_from_height n = (case height_from_consensus n of Inl e \<Rightarrow> Inl e | Inr h \<Rightarrow> Inr (Blocks h))"

definition lt_from_time :: "u32 \<Rightarrow> ConversionError + LockTime" where
  "lt_from_time n = (case time_from_consensus n of Inl e \<Rightarrow> Inl e | Inr t \<Rightarrow> Inr (Seconds t))"

fun lt_is_same_unit :: "LockTime \<Rightarrow> LockTime \<Rightarrow> bool" where
  "lt_is_same_unit (Blocks _) (Blocks _) = True"
| "lt_is_same_unit (Seconds _) (Seconds _) = True"
| "lt_is_same_unit _ _ = False"

fun lt_is_block_height :: "LockTime \<Rightarrow> bool" where
  "lt_is_block_height (Blocks _) = True"
| "lt_is_block_height (Seconds _) = False"

definition lt_is_block_time :: "LockTime \<Rightarrow> bool" where "lt_is_block_time l \<longleftrightarrow> \<not> lt_is_block_height l"

fun lt_is_satisfied_by :: "LockTime \<Rightarrow> Height \<Rightarrow> Time \<Rightarrow> bool" where
  "lt_is_satisfied_by (Blocks n) h t = (height_0 n \<le> height_0 h)"
| "lt_is_satisfied_by (Seconds n) h t = (time_0 n \<le> time_0 t)"

fun lt_is_implied_by :: "LockTime \<Rightarrow> LockTime \<Rightarrow> bool" where
  "lt_is_implied_by (Blocks this) (Blocks other) = (height_0 this \<le> height_0 other)"
| "lt_is_implied_by (Seconds this) (Seconds other) = (time_0 this \<le> time_0 other)"
| "lt_is_implied_by _ _ = False"

fun lt_to_consensus_u32 :: "LockTime \<Rightarrow> u32" where
  "lt_to_consensus_u32 (Blocks h) = height_0 h"
| "lt_to_consensus_u32 (Seconds t) = time_0 t"

datatype Ordering = Less | Equal | Greater

definition cmp_word :: "'a::len word \<Rightarrow> 'a word \<Rightarrow> Ordering" where
  "cmp_word a b = (if a < b then Less else if a = b then Equal else Greater)"

fun lt_partial_cmp :: "LockTime \<Rightarrow> LockTime \<Rightarrow> Ordering option" where
  "lt_partial_cmp (Blocks a) (Blocks b) = Some (cmp_word (height_0 a) (height_0 b))"
| "lt_partial_cmp (Seconds a) (Seconds b) = Some (cmp_word (time_0 a) (time_0 b))"
| "lt_partial_cmp _ _ = None"

definition enc_LockTime :: "LockTime encoder" where "enc_LockTime l = encode_int (lt_to_consensus_u32 l)"

definition dec_LockTime :: "LockTime decoder" where
  "dec_LockTime = dbind decode_int (\<lambda>n. case lt_from_consensus n of None \<Rightarrow> dfail Panicked | Some l \<Rightarrow> dret l)"

section \<open>Sequence numbers and relative lock times\<close>

datatype Sequence = Sequence (seq_0: u32)

definition seq_MAX :: Sequence where "seq_MAX = Sequence 0xFFFFFFFF"
definition seq_ZERO :: Sequence where "seq_ZERO = Sequence 0"
definition MIN_NO_RBF :: Sequence where "MIN_NO_RBF = Sequence 0xFFFFFFFE"
definition ENABLE_LOCKTIME_NO_RBF :: Sequence where "ENABLE_LOCKTIME_NO_RBF = MIN_NO_RBF"
definition ENABLE_RBF_NO_LOCKTIME :: Sequence where "ENABLE_RBF_NO_LOCKTIME = Sequence 0xFFFFFFFD"
definition LOCK_TIME_DISABLE_FLAG_MASK :: u32 where "LOCK_TIME_DISABLE_FLAG_MASK = 0x80000000"
definition LOCK_TYPE_MASK :: u32 where "LOCK_TYPE_MASK = 0x00400000"

unbundle bit_operations_syntax

definition enables_absolute_lock_time :: "Sequence \<Rightarrow> bool" where
  "enables_absolute_lock_time s \<longleftrightarrow> s \<noteq> seq_MAX"

definition is_final :: "Sequence \<Rightarrow> bool" where "is_final s \<longleftrightarrow> \<not> enables_absolute_lock_time s"
definition is_rbf :: "Sequence \<Rightarrow> bool" where "is_rbf s \<longleftrightarrow> seq_0 s < seq_0 MIN_NO_RBF"

definition is_relative_lock_time :: "Sequence \<Rightarrow> bool" where
  "is_relative_lock_time s \<longleftrightarrow> seq_0 s AND LOCK_TIME_DISABLE_FLAG_MASK = 0"

definition is_height_locked :: "Sequence \<Rightarrow> bool" where
  "is_height_locked s \<longleftrightarrow> is_relative_lock_time s \<and> seq_0 s AND LOCK_TYPE_MASK = 0"

definition is_time_locked :: "Sequence \<Rightarrow> bool" where
  "is_time_locked s \<longleftrightarrow> is_relative_lock_time s \<and> seq_0 s AND LOCK_TYPE_MASK > 0"

definition seq_from_height :: "u16 \<Rightarrow> Sequence" where "seq_from_height h = Sequence (ucast h)"

definition seq_from_512_second_intervals :: "u16 \<Rightarrow> Sequence" where
  "seq_from_512_second_intervals i = Sequence (ucast i OR LOCK_TYPE_MASK)"

definition seq_from_consensus :: "u32 \<Rightarrow> Sequence" where "seq_from_consensus n = Sequence n"
definition seq_to_consensus_u32 :: "Sequence \<Rightarrow> u32" where "seq_to_consensus_u32 s = seq_0 s"
definition low_u16 :: "Sequence \<Rightarrow> u16" where "low_u16 s = ucast (seq_0 s)"

definition add_u32 :: "bool \<Rightarrow> u32 \<Rightarrow> u32 \<Rightarrow> u32 option" where
  "add_u32 oc a b = (if oc \<and> unat a + unat b \<ge> 2 ^ 32 then None else Some (a + b))"

definition u16_try_from :: "u32 \<Rightarrow> u16 option" where
  "u16_try_from n = (if unat n < 2 ^ 16 then Some (ucast n) else None)"

datatype TimeOverflowError = TimeOverflowError u32

definition TimeOverflowError_new :: "bool \<Rightarrow> u32 \<Rightarrow> TimeOverflowError option" where
  "TimeOverflowError_new oc seconds =
     (case add_u32 oc seconds 511 of
        None \<Rightarrow> None
      | Some s \<Rightarrow> if u16_try_from (s div 512) = None then Some (TimeOverflowError seconds) else None)"

definition seq_from_seconds_floor :: "bool \<Rightarrow> u32 \<Rightarrow> (TimeOverflowError + Sequence) option" where
  "seq_from_seconds_floor oc seconds =
     (case u16_try_from (seconds div 512) of
        Some interval \<Rightarrow> Some (Inr (seq_from_512_second_intervals interval))
      | None \<Rightarrow> map_option Inl (TimeOverflowError_new oc seconds))"

definition seq_from_seconds_ceil :: "bool \<Rightarrow> u32 \<Rightarrow> (TimeOverflowError + Sequence) option" where
  "seq_from_seconds_ceil oc seconds =
     (case add_u32 oc seconds 511 of
        None \<Rightarrow> None
      | Some s \<Rightarrow> (case u16_try_from (s div 512) of
          Some interval \<Rightarrow> Some (Inr (seq_from_512_second_intervals interval))
        | None \<Rightarrow> map_option Inl (TimeOverflowError_new oc seconds)))"

definition enc_Sequence :: "Sequence encoder" where "enc_Sequence s = encode_int (seq_0 s)"
definition dec_Sequence :: "Sequence decoder" where "dec_Sequence = dbind decode_int (\<lambda>n. dret (Sequence n))"

datatype RelHeight = RelHeight (rheight_0: u16)
datatype RelTime = RelTime (rtime_0: u16)
datatype RelLockTime = RelBlocks RelHeight | RelTimeLock RelTime
datatype DisabledLockTimeError = DisabledLockTimeError u32
datatype IncompatibleHeightError = IncompatibleHeightError RelHeight RelTime
datatype IncompatibleTimeError = IncompatibleTimeError RelTime RelHeight

definition rheight_to_consensus_u32 :: "RelHeight \<Rightarrow> u32" where
  "rheight_to_consensus_u32 h = ucast (rheight_0 h)"

definition rtime_to_consensus_u32 :: "RelTime \<Rightarrow> u32" where
  "rtime_to_consensus_u32 t = push_bit 22 1 OR ucast (rtime_0 t)"

definition rtime_from_seconds_floor :: "u32 \<Rightarrow> TimeOverflowError + RelTime" where
  "rtime_from_seconds_floor seconds =
     (let interval = seconds div 512
      in if interval \<le> 0xFFFF then Inr (RelTime (ucast interval)) else Inl (TimeOverflowError seconds))"

definition rtime_from_seconds_ceil :: "bool \<Rightarrow> u32 \<Rightarrow> (TimeOverflowError + RelTime) option" where
  "rtime_from_seconds_ceil oc seconds =
     (case add_u32 oc seconds 511 of
        None \<Rightarrow> None
      | Some s \<Rightarrow> let interval = s div 512
          in Some (if interval \<le> 0xFFFF then Inr (RelTime (ucast interval)) else Inl (TimeOverflowError seconds)))"

definition to_relative_lock_time :: "Sequence \<Rightarrow> RelLockTime option" where
  "to_relative_lock_time s =
     (if \<not> is_relative_lock_time s then None
      else let lock_value = low_u16 s
           in if is_time_locked s then Some (RelTimeLock (RelTime lock_value)) else Some (RelBlocks (RelHeight lock_value)))"

definition rlt_from_consensus :: "u32 \<Rightarrow> DisabledLockTimeError + RelLockTime" where
  "rlt_from_consensus n =
     (case to_relative_lock_time (seq_from_consensus n) of None \<Rightarrow> Inl (DisabledLockTimeError n) | Some l \<Rightarrow> Inr l)"

fun rlt_to_consensus_u32 :: "RelLockTime \<Rightarrow> u32" where
  "rlt_to_consensus_u32 (RelBlocks h) = rheight_to_consensus_u32 h"
| "rlt_to_consensus_u32 (RelTimeLock t) = rtime_to_consensus_u32 t"

definition from_sequence :: "Sequence \<Rightarrow> DisabledLockTimeError + RelLockTime" where
  "from_sequence s = rlt_from_consensus (seq_to_consensus_u32 s)"

definition to_sequence :: "RelLockTime \<Rightarrow> Sequence" where
  "to_sequence l = seq_from_consensus (rlt_to_consensus_u32 l)"

fun is_satisfied_by_height :: "RelLockTime \<Rightarrow> RelHeight \<Rightarrow> IncompatibleHeightError + bool" where
  "is_satisfied_by_height (RelBlocks h) height = Inr (rheight_0 h \<le> rheight_0 height)"
| "is_satisfied_by_height (RelTimeLock t) height = Inl (IncompatibleHeightError height t)"

fun is_satisfied_by_time :: "RelLockTime \<Rightarrow> RelTime \<Rightarrow> IncompatibleTimeError + bool" where
  "is_satisfied_by_time (RelTimeLock t) time = Inr (rtime_0 t \<le> rtime_0 time)"
| "is_satisfied_by_time (RelBlocks h) time = Inl (IncompatibleTimeError time h)"

definition rlt_is_satisfied_by :: "RelLockTime \<Rightarrow> RelHeight \<Rightarrow> RelTime \<Rightarrow> bool" where
  "rlt_is_satisfied_by l h t \<longleftrightarrow>
     (if is_satisfied_by_height l h = Inr True then True else is_satisfied_by_time l t = Inr True)"

fun rlt_is_same_unit :: "RelLockTime \<Rightarrow> RelLockTime \<Rightarrow> bool" where
  "rlt_is_same_unit (RelBlocks _) (RelBlocks _) = True"
| "rlt_is_same_unit (RelTimeLock _) (RelTimeLock _) = True"
| "rlt_is_same_unit _ _ = False"

fun rlt_is_implied_by :: "RelLockTime \<Rightarrow> RelLockTime \<Rightarrow> bool" where
  "rlt_is_implied_by (RelBlocks this) (RelBlocks other) = (rheight_0 this \<le> rheight_0 other)"
| "rlt_is_implied_by (RelTimeLock this) (RelTimeLock other) = (rtime_0 this \<le> rtime_0 other)"
| "rlt_is_implied_by _ _ = False"

definition is_implied_by_sequence :: "RelLockTime \<Rightarrow> Sequence \<Rightarrow> bool" where
  "is_implied_by_sequence l other =
     (case from_sequence other of Inr other \<Rightarrow> rlt_is_implied_by l other | Inl _ \<Rightarrow> False)"

section \<open>Absolute lock times are the 32-bit numbers\<close>

fun lt_ok :: "LockTime \<Rightarrow> bool" where
  "lt_ok (Blocks h) = is_block_height (height_0 h)"
| "lt_ok (Seconds t) = is_block_time (time_0 t)"

lemma lt_from_consensus_eq:
  "lt_from_consensus n = Some (if n < LOCK_TIME_THRESHOLD then Blocks (Height n) else Seconds (Time n))"
  by (simp add: lt_from_consensus_def height_from_consensus_def time_from_consensus_def is_block_height_def
      is_block_time_def) (simp add: not_le)

lemma lt_consensus_iff: "lt_from_consensus n = Some l \<longleftrightarrow> lt_ok l \<and> lt_to_consensus_u32 l = n"
  by (cases l) (auto simp: lt_from_consensus_eq is_block_height_def is_block_time_def Height.expand Time.expand)

interpretation locktime_codec: codec enc_LockTime dec_LockTime lt_ok
proof
  show "snd (enc_LockTime l) = length (fst (enc_LockTime l))" for l
    by (simp add: enc_LockTime_def encode_int_def)
  show "dec_LockTime (fst (enc_LockTime l) @ rest) = Inr (l, rest)" if "lt_ok l" for l rest
    using that lt_consensus_iff [of "lt_to_consensus_u32 l" l]
    by (simp add: dec_LockTime_def enc_LockTime_def dbind_def u32_codec.dec_enc dret_def)
  show "lt_ok l \<and> bs = fst (enc_LockTime l) @ rest" if d: "dec_LockTime bs = Inr (l, rest)" for bs l rest
  proof -
    obtain n r where n: "decode_int bs = Inr (n, r)" "lt_from_consensus n = Some l" "r = rest"
      using d by (auto simp: dec_LockTime_def dbind_Inr_iff lt_from_consensus_eq split: if_splits)
    then show ?thesis using u32_codec.canonical [OF n(1)] by (simp add: lt_consensus_iff enc_LockTime_def)
  qed
qed

interpretation sequence_codec: codec enc_Sequence dec_Sequence "\<lambda>_. True"
proof
  show "True \<and> bs = fst (enc_Sequence s) @ rest" if "dec_Sequence bs = Inr (s, rest)" for bs s rest
    using that u32_codec.canonical by (auto simp: dec_Sequence_def enc_Sequence_def dbind_Inr_iff)
qed (simp_all add: enc_Sequence_def dec_Sequence_def dbind_def u32_codec.dec_enc u32_codec.enc_len dret_def)

section \<open>The contract of a lock\<close>

text \<open>
  Both kinds of lock time offer a satisfaction test and an implication test. The contract: within one unit,
  implication is inclusion of the sets of satisfying points; it never relates different units.
\<close>

locale lock =
  fixes satisfied :: "'l \<Rightarrow> 'h \<Rightarrow> 't \<Rightarrow> bool"
    and implied :: "'l \<Rightarrow> 'l \<Rightarrow> bool"
    and same_unit :: "'l \<Rightarrow> 'l \<Rightarrow> bool"
  assumes implied_iff: "implied a b \<longleftrightarrow> same_unit a b \<and> (\<forall>h t. satisfied b h t \<longrightarrow> satisfied a h t)"
    and same_unit_refl: "same_unit a a"
    and same_unit_trans: "same_unit a b \<Longrightarrow> same_unit b c \<Longrightarrow> same_unit a c"
begin

lemma implied_refl: "implied a a"
  by (simp add: implied_iff same_unit_refl)

lemma implied_trans: "implied a b \<Longrightarrow> implied b c \<Longrightarrow> implied a c"
  unfolding implied_iff using same_unit_trans by blast

lemma implied_sound: "implied a b \<Longrightarrow> satisfied b h t \<Longrightarrow> satisfied a h t"
  by (simp add: implied_iff)

end

lemma all_Height: "(\<forall>h. P (height_0 h)) \<longleftrightarrow> (\<forall>n. P n)" and all_Time: "(\<forall>t. P (time_0 t)) \<longleftrightarrow> (\<forall>n. P n)"
  by (metis Height.sel, metis Time.sel)

lemma all_RelHeight: "(\<forall>h. P (rheight_0 h)) \<longleftrightarrow> (\<forall>n. P n)" and all_RelTime: "(\<forall>t. P (rtime_0 t)) \<longleftrightarrow> (\<forall>n. P n)"
  by (metis RelHeight.sel, metis RelTime.sel)

lemma le_points: "(\<forall>c. b \<le> c \<longrightarrow> a \<le> c) \<longleftrightarrow> (a::'a::order) \<le> b"
  by (auto intro: order_trans)

lemmas lock_points = all_Height [where P = "\<lambda>c. b \<le> c \<longrightarrow> a \<le> c" for a b] all_Time [where P = "\<lambda>c. b \<le> c \<longrightarrow> a \<le> c" for a b]
  all_RelHeight [where P = "\<lambda>c. b \<le> c \<longrightarrow> a \<le> c" for a b] all_RelTime [where P = "\<lambda>c. b \<le> c \<longrightarrow> a \<le> c" for a b] le_points

interpretation abs_lock: lock lt_is_satisfied_by lt_is_implied_by lt_is_same_unit
proof
  show "lt_is_implied_by a b \<longleftrightarrow> lt_is_same_unit a b \<and> (\<forall>h t. lt_is_satisfied_by b h t \<longrightarrow> lt_is_satisfied_by a h t)" for a b
    by (cases a; cases b) (simp_all add: lock_points)
  show "lt_is_same_unit a c" if "lt_is_same_unit a b" "lt_is_same_unit b c" for a b c
    using that by (cases a; cases b; cases c) simp_all
  show "lt_is_same_unit a a" for a by (cases a) simp_all
qed

lemma rlt_is_satisfied_by_simps [simp]:
  "rlt_is_satisfied_by (RelBlocks n) h t \<longleftrightarrow> rheight_0 n \<le> rheight_0 h"
  "rlt_is_satisfied_by (RelTimeLock m) h t \<longleftrightarrow> rtime_0 m \<le> rtime_0 t"
  by (auto simp: rlt_is_satisfied_by_def)

interpretation rel_lock: lock rlt_is_satisfied_by rlt_is_implied_by rlt_is_same_unit
proof
  show "rlt_is_implied_by a b \<longleftrightarrow> rlt_is_same_unit a b \<and> (\<forall>h t. rlt_is_satisfied_by b h t \<longrightarrow> rlt_is_satisfied_by a h t)" for a b
    by (cases a; cases b) (simp_all add: lock_points)
  show "rlt_is_same_unit a c" if "rlt_is_same_unit a b" "rlt_is_same_unit b c" for a b c
    using that by (cases a; cases b; cases c) simp_all
  show "rlt_is_same_unit a a" for a by (cases a) simp_all
qed

section \<open>The bits of a sequence number\<close>

lemma disable_mask: "n AND LOCK_TIME_DISABLE_FLAG_MASK = 0 \<longleftrightarrow> \<not> bit n 31"
proof -
  have "LOCK_TIME_DISABLE_FLAG_MASK = push_bit 31 1" by (simp add: LOCK_TIME_DISABLE_FLAG_MASK_def)
  then show ?thesis by (simp only: bit_iff_and_push_bit_not_eq_0) simp
qed

lemma type_mask: "n AND LOCK_TYPE_MASK = 0 \<longleftrightarrow> \<not> bit n 22"
proof -
  have "LOCK_TYPE_MASK = push_bit 22 1" by (simp add: LOCK_TYPE_MASK_def)
  then show ?thesis by (simp only: bit_iff_and_push_bit_not_eq_0) simp
qed

lemma sequence_flags:
  "is_relative_lock_time s \<longleftrightarrow> \<not> bit (seq_0 s) 31"
  "is_height_locked s \<longleftrightarrow> \<not> bit (seq_0 s) 31 \<and> \<not> bit (seq_0 s) 22"
  "is_time_locked s \<longleftrightarrow> \<not> bit (seq_0 s) 31 \<and> bit (seq_0 s) 22"
  by (simp_all add: is_relative_lock_time_def is_height_locked_def is_time_locked_def disable_mask type_mask
      word_neq_0_conv [symmetric])

lemma bit_u16_high: "16 \<le> n \<Longrightarrow> \<not> bit (w :: u16) n"
  using bit_imp_le_length [of w n] by auto

lemma rel_consensus_bits:
  "\<not> bit (rlt_to_consensus_u32 l) 31"
  "bit (rlt_to_consensus_u32 l) 22 \<longleftrightarrow> (\<exists>t. l = RelTimeLock t)"
  by (cases l; simp add: rheight_to_consensus_u32_def rtime_to_consensus_u32_def bit_simps bit_u16_high)+

lemma bit_type_mask: "bit (4194304 :: int) n \<longleftrightarrow> n = 22"
  using bit_exp_iff [of 22 n, where 'a = int] by simp

lemma rel_consensus_low:
  "(ucast (rlt_to_consensus_u32 l) :: u16) = (case l of RelBlocks h \<Rightarrow> rheight_0 h | RelTimeLock t \<Rightarrow> rtime_0 t)"
proof (cases l)
  case (RelBlocks h)
  then show ?thesis by (simp add: rheight_to_consensus_u32_def ucast_up_down)
next
  case (RelTimeLock t)
  have "(ucast (rtime_to_consensus_u32 t) :: u16) = rtime_0 t"
    by (rule bit_eqI) (auto simp: rtime_to_consensus_u32_def bit_simps bit_type_mask)
  then show ?thesis using RelTimeLock by simp
qed

lemma to_relative_to_sequence: "to_relative_lock_time (to_sequence l) = Some l"
  using rel_consensus_bits [of l] rel_consensus_low [of l]
  by (cases l) (simp_all add: to_relative_lock_time_def to_sequence_def seq_from_consensus_def sequence_flags
      low_u16_def Let_def)

lemma bit_value_mask: "bit (4259839 :: int) n \<longleftrightarrow> n < 16 \<or> n = 22"
proof -
  have "(4259839 :: int) = mask 16 OR 4194304" by (simp add: mask_eq_exp_minus_1)
  then have "bit (4259839 :: int) n = bit (mask 16 OR 4194304 :: int) n" by metis
  also have "\<dots> \<longleftrightarrow> n < 16 \<or> n = 22" unfolding bit_or_iff bit_mask_iff bit_type_mask by simp
  finally show ?thesis .
qed

lemma sequence_of_relative:
  "\<not> bit n 31 \<Longrightarrow> rlt_to_consensus_u32 (if bit n 22 then RelTimeLock (RelTime (ucast n)) else RelBlocks (RelHeight (ucast n)))
     = n AND 0x0040FFFF"
  by (rule bit_eqI) (auto simp: rheight_to_consensus_u32_def rtime_to_consensus_u32_def bit_simps bit_value_mask bit_type_mask)

lemma from_sequence_eq:
  "from_sequence s =
     (if bit (seq_0 s) 31 then Inl (DisabledLockTimeError (seq_0 s))
      else Inr (if bit (seq_0 s) 22 then RelTimeLock (RelTime (ucast (seq_0 s))) else RelBlocks (RelHeight (ucast (seq_0 s)))))"
  by (simp add: from_sequence_def rlt_from_consensus_def to_relative_lock_time_def seq_from_consensus_def
      seq_to_consensus_u32_def sequence_flags low_u16_def Let_def)

section \<open>Seconds\<close>

lemma unat_div_512: "unat ((n :: u32) div 512) = unat n div 512"
  by (simp add: unat_div)

lemma add_u32_eq:
  "add_u32 oc a b = (if unat a + unat b < 2 ^ 32 then Some (a + b) else if oc then None else Some (a + b))"
  by (simp add: add_u32_def)

lemma unat_add_u32: "unat (a + b :: u32) = (if unat a + unat b < 2 ^ 32 then unat a + unat b else unat a + unat b - 2 ^ 32)"
  using unat_u32_lt [of a] unat_u32_lt [of b] by (simp add: unat_word_ariths mod_if del: unat_u32_lt)

lemma u16_try_from_div:
  "u16_try_from (n div 512) = (if unat n div 512 < 65536 then Some (word_of_nat (unat n div 512)) else None)"
  by (simp add: u16_try_from_def unat_div_512 word_unat_eq_iff unat_ucast_mod unat_of_nat)

lemma TimeOverflowError_new_eq:
  "65536 \<le> (unat s + 511) div 512 \<Longrightarrow>
   TimeOverflowError_new oc s = (if unat s + 511 < 2 ^ 32 then Some (TimeOverflowError s) else None)"
  using unat_u32_lt [of s]
  by (auto simp: TimeOverflowError_new_def add_u32_eq u16_try_from_div unat_add_u32 simp del: unat_u32_lt)

section \<open>Properties\<close>

text \<open>Relative lock times and sequence numbers: a sequence number with bit 31 set is refused with its value,
  any other one denotes a lock of 512-second intervals (bit 22) or of blocks with the low 16 bits as its
  value, and going back keeps exactly these 17 bits; every relative lock survives the round trip.\<close>

theorem sequence_relative_lock:
  "from_sequence (to_sequence l) = Inr l \<and>
   map_sum id to_sequence (from_sequence s) =
     (if bit (seq_0 s) 31 then Inl (DisabledLockTimeError (seq_0 s)) else Inr (Sequence (seq_0 s AND 0x0040FFFF)))"
proof
  have "to_relative_lock_time (seq_from_consensus (seq_0 (to_sequence l))) = Some l"
    using to_relative_to_sequence [of l] by (simp add: seq_from_consensus_def)
  then show "from_sequence (to_sequence l) = Inr l"
    by (simp add: from_sequence_def rlt_from_consensus_def seq_to_consensus_u32_def)
  show "map_sum id to_sequence (from_sequence s) =
     (if bit (seq_0 s) 31 then Inl (DisabledLockTimeError (seq_0 s)) else Inr (Sequence (seq_0 s AND 0x0040FFFF)))"
    using sequence_of_relative [of "seq_0 s"] by (simp add: from_sequence_eq to_sequence_def seq_from_consensus_def)
qed

text \<open>One lock implies another exactly when both are of the same unit and every point that satisfies the
  one satisfies the other, for absolute and for relative lock times.\<close>

theorem lock_implication_exact:
  "(lt_is_implied_by a b \<longleftrightarrow> lt_is_same_unit a b \<and> (\<forall>h t. lt_is_satisfied_by b h t \<longrightarrow> lt_is_satisfied_by a h t)) \<and>
   (rlt_is_implied_by c d \<longleftrightarrow> rlt_is_same_unit c d \<and> (\<forall>h t. rlt_is_satisfied_by d h t \<longrightarrow> rlt_is_satisfied_by c h t))"
  using abs_lock.implied_iff [of a b] rel_lock.implied_iff [of c d] by blast

theorem lock_implication_exact_witness:
  "lt_is_satisfied_by (Blocks (Height 5)) (Height 7) (Time 500000000) \<and> rlt_is_satisfied_by (RelBlocks (RelHeight 3)) (RelHeight 4) (RelTime 0)"
  using lock_implication_exact [of "Blocks (Height 5)" "Blocks (Height 7)" "RelBlocks (RelHeight 3)" "RelBlocks (RelHeight 4)"]
  by simp

text \<open>Conversion of seconds to a sequence number: below the top 511 values of the 32-bit range the
  result is the number of 512-second intervals, rounded down or up, or an overflow error. On those 511 values
  rounding down panics instead of returning the error, and rounding up panics with overflow checks and
  returns the zero lock without them.\<close>

theorem sequence_from_seconds:
  "seq_from_seconds_floor oc s =
     (if unat s div 512 < 65536 then Some (Inr (seq_from_512_second_intervals (word_of_nat (unat s div 512))))
      else if unat s + 511 < 2 ^ 32 then Some (Inl (TimeOverflowError s)) else None) \<and>
   seq_from_seconds_ceil oc s =
     (if 2 ^ 32 \<le> unat s + 511 then (if oc then None else Some (Inr (seq_from_512_second_intervals 0)))
      else if (unat s + 511) div 512 < 65536
      then Some (Inr (seq_from_512_second_intervals (word_of_nat ((unat s + 511) div 512))))
      else Some (Inl (TimeOverflowError s)))"
proof
  show "seq_from_seconds_floor oc s =
     (if unat s div 512 < 65536 then Some (Inr (seq_from_512_second_intervals (word_of_nat (unat s div 512))))
      else if unat s + 511 < 2 ^ 32 then Some (Inl (TimeOverflowError s)) else None)"
    by (auto simp: seq_from_seconds_floor_def u16_try_from_div TimeOverflowError_new_eq)
  show "seq_from_seconds_ceil oc s =
     (if 2 ^ 32 \<le> unat s + 511 then (if oc then None else Some (Inr (seq_from_512_second_intervals 0)))
      else if (unat s + 511) div 512 < 65536
      then Some (Inr (seq_from_512_second_intervals (word_of_nat ((unat s + 511) div 512))))
      else Some (Inl (TimeOverflowError s)))"
    using unat_u32_lt [of s]
    by (auto simp: seq_from_seconds_ceil_def add_u32_eq u16_try_from_div unat_add_u32 TimeOverflowError_new_eq simp del: unat_u32_lt)
qed

end
