(* ===== verification/Transaction.thy ===== *)
theory Transaction
  imports Witness Locktime
begin

text \<open>
  Transactions, \<open>bitcoin/src/blockdata/transaction.rs\<close>, with the weights of \<open>units/src/weight.rs\<close>: inputs and
  outputs, the legacy and the segwit wire format, identifiers, sizes and weights, weight prediction, and the
  tests on coinbase, replaceability and lock time. A hash is its list of 32 bytes and a script its list of
  bytes; \<open>usize\<close> counts are natural numbers (they count bytes in memory); a panic is the value \<open>None\<close>. The \<open>i32\<close>
  of a version is kept as its 32-bit word.
\<close>

section \<open>Weights\<close>

datatype Weight = Weight (to_wu: u64)

definition WITNESS_SCALE_FACTOR :: u64 where "WITNESS_SCALE_FACTOR = 4"

definition checked_mul_u64 :: "u64 \<Rightarrow> u64 \<Rightarrow> u64 option" where
  "checked_mul_u64 a b = (if unat a * unat b < 2 ^ 64 then Some (a * b) else None)"

definition from_wu_usize :: "nat \<Rightarrow> Weight" where "from_wu_usize wu = Weight (word_of_nat wu)"

definition from_vb :: "u64 \<Rightarrow> Weight option" where
  "from_vb vb = map_option Weight (checked_mul_u64 vb WITNESS_SCALE_FACTOR)"

definition from_witness_data_size :: "u64 \<Rightarrow> Weight" where "from_witness_data_size n = Weight n"

definition from_non_witness_data_size :: "u64 \<Rightarrow> Weight" where
  "from_non_witness_data_size n = Weight (n * WITNESS_SCALE_FACTOR)"

definition to_vbytes_floor :: "Weight \<Rightarrow> u64" where "to_vbytes_floor w = to_wu w div WITNESS_SCALE_FACTOR"

definition to_vbytes_ceil :: "Weight \<Rightarrow> u64" where
  "to_vbytes_ceil w = (to_wu w + WITNESS_SCALE_FACTOR - 1) div WITNESS_SCALE_FACTOR"

definition weight_add :: "Weight \<Rightarrow> Weight \<Rightarrow> Weight" where "weight_add a b = Weight (to_wu a + to_wu b)"

section \<open>Data\<close>

definition SEGWIT_MARKER :: u8 where "SEGWIT_MARKER = 0"
definition SEGWIT_FLAG :: u8 where "SEGWIT_FLAG = 1"

record OutPoint =
  txid :: bytes
  vout :: u32

definition outpoint_SIZE :: nat where "outpoint_SIZE = 32 + 4"

definition outpoint_null :: OutPoint where
  "outpoint_null = \<lparr> txid = replicate 32 0, vout = 0xFFFFFFFF \<rparr>"

definition outpoint_is_null :: "OutPoint \<Rightarrow> bool" where "outpoint_is_null p \<longleftrightarrow> p = outpoint_null"

record TxIn =
  previous_output :: OutPoint
  script_sig :: bytes
  sequence :: Sequence
  witness :: Witness

definition sequence_SIZE :: nat where "sequence_SIZE = 4"
definition locktime_SIZE :: nat where "locktime_SIZE = 4"
definition amount_SIZE :: nat where "amount_SIZE = 8"

definition enables_lock_time :: "TxIn \<Rightarrow> bool" where "enables_lock_time i \<longleftrightarrow> sequence i \<noteq> seq_MAX"

definition txin_base_size :: "TxIn \<Rightarrow> nat" where
  "txin_base_size i =
     outpoint_SIZE + varint_size (varint_of_len (length (script_sig i))) + length (script_sig i) + sequence_SIZE"

definition txin_total_size :: "TxIn \<Rightarrow> nat option" where
  "txin_total_size i = map_option (\<lambda>n. txin_base_size i + n) (witness_size (witness i))"

definition legacy_weight :: "TxIn \<Rightarrow> Weight" where
  "legacy_weight i = from_non_witness_data_size (word_of_nat (txin_base_size i))"

definition segwit_weight :: "TxIn \<Rightarrow> Weight option" where
  "segwit_weight i =
     map_option (\<lambda>n. weight_add (from_non_witness_data_size (word_of_nat (txin_base_size i)))
                       (from_witness_data_size (word_of_nat n))) (witness_size (witness i))"

record TxOut =
  txout_value :: u64
  script_pubkey :: bytes

definition txout_NULL :: TxOut where "txout_NULL = \<lparr> txout_value = 0xFFFFFFFFFFFFFFFF, script_pubkey = [] \<rparr>"

definition size_from_script_pubkey :: "bytes \<Rightarrow> nat" where
  "size_from_script_pubkey s = amount_SIZE + varint_size (varint_of_len (length s)) + length s"

definition txout_size :: "TxOut \<Rightarrow> nat" where "txout_size out = size_from_script_pubkey (script_pubkey out)"

definition txout_weight :: "TxOut \<Rightarrow> Weight option" where
  "txout_weight out = from_vb (word_of_nat (txout_size out))"

datatype Version = Version (version_0: u32)

definition is_standard :: "Version \<Rightarrow> bool" where "is_standard v \<longleftrightarrow> v = Version 1 \<or> v = Version 2"

record Transaction =
  tx_version :: Version
  lock_time :: LockTime
  tx_input :: "TxIn list"
  tx_output :: "TxOut list"

section \<open>Wire format\<close>

definition enc_Version :: "Version encoder" where "enc_Version v = encode_int (version_0 v)"
definition dec_Version :: "Version decoder" where "dec_Version = dbind decode_int (\<lambda>n. dret (Version n))"

definition enc_OutPoint :: "OutPoint encoder" where
  "enc_OutPoint p = ecat (enc_array (txid p)) (encode_int (vout p))"

definition dec_OutPoint :: "OutPoint decoder" where
  "dec_OutPoint = dbind (dec_array 32) (\<lambda>t. dbind decode_int (\<lambda>v. dret \<lparr> txid = t, vout = v \<rparr>))"

definition enc_TxIn :: "TxIn encoder" where
  "enc_TxIn i = ecat (enc_OutPoint (previous_output i)) (ecat (enc_with_size (script_sig i)) (enc_Sequence (sequence i)))"

definition dec_TxIn :: "TxIn decoder" where
  "dec_TxIn = dbind dec_OutPoint (\<lambda>p. dbind dec_bytes (\<lambda>s. dbind dec_Sequence (\<lambda>q.
     dret \<lparr> previous_output = p, script_sig = s, sequence = q, witness = witness_new \<rparr>)))"

definition enc_TxOut :: "TxOut encoder" where
  "enc_TxOut out = ecat (encode_int (txout_value out)) (enc_with_size (script_pubkey out))"

definition dec_TxOut :: "TxOut decoder" where
  "dec_TxOut = dbind decode_int (\<lambda>v. dbind dec_bytes (\<lambda>s. dret \<lparr> txout_value = v, script_pubkey = s \<rparr>))"

definition uses_segwit_serialization :: "Transaction \<Rightarrow> bool" where
  "uses_segwit_serialization tx \<longleftrightarrow>
     (if list_ex (\<lambda>i. \<not> witness_is_empty (witness i)) (tx_input tx) then True else tx_input tx = [])"

definition enc_Transaction :: "Transaction encoder" where
  "enc_Transaction tx =
     ecat (enc_Version (tx_version tx))
      (ecat
        (if \<not> uses_segwit_serialization tx
         then ecat (enc_vec enc_TxIn (tx_input tx)) (enc_vec enc_TxOut (tx_output tx))
         else ecat (emit_u8 SEGWIT_MARKER) (ecat (emit_u8 SEGWIT_FLAG)
               (ecat (enc_vec enc_TxIn (tx_input tx)) (ecat (enc_vec enc_TxOut (tx_output tx))
                 (enc_elems (\<lambda>i. enc_Witness (witness i)) (tx_input tx))))))
        (enc_LockTime (lock_time tx)))"

fun dec_witnesses :: "TxIn list \<Rightarrow> TxIn list decoder" where
  "dec_witnesses [] = dret []"
| "dec_witnesses (i # is) = dbind dec_Witness (\<lambda>w. dbind (dec_witnesses is) (\<lambda>is'. dret (i\<lparr> witness := w \<rparr> # is')))"

definition dec_Transaction :: "Transaction decoder" where
  "dec_Transaction = dbind dec_Version (\<lambda>version. dbind (dec_vec dec_TxIn) (\<lambda>inputs.
     if inputs = [] then
       dbind read_u8 (\<lambda>segwit_flag.
         if segwit_flag = 1 then
           dbind (dec_vec dec_TxIn) (\<lambda>inputs. dbind (dec_vec dec_TxOut) (\<lambda>outputs. dbind (dec_witnesses inputs) (\<lambda>inputs.
             if inputs \<noteq> [] \<and> list_all (\<lambda>i. witness_is_empty (witness i)) inputs
             then dfail (ParseFailed ''witness flag set but no witnesses present'')
             else dbind dec_LockTime (\<lambda>lt.
               dret \<lparr> tx_version = version, lock_time = lt, tx_input = inputs, tx_output = outputs \<rparr>))))
         else dfail (UnsupportedSegwitFlag segwit_flag))
     else
       dbind (dec_vec dec_TxOut) (\<lambda>outputs. dbind dec_LockTime (\<lambda>lt.
         dret \<lparr> tx_version = version, lock_time = lt, tx_input = inputs, tx_output = outputs \<rparr>))))"

section \<open>Identifiers\<close>

definition engine_write :: "bytes \<times> nat \<Rightarrow> HashEngine \<Rightarrow> HashEngine" where
  "engine_write e eng = input eng (fst e)"

definition compute_txid :: "Transaction \<Rightarrow> bytes" where
  "compute_txid tx =
     sha256d_from_engine
       (engine_write (enc_LockTime (lock_time tx))
         (engine_write (enc_vec enc_TxOut (tx_output tx))
           (engine_write (enc_vec enc_TxIn (tx_input tx))
             (engine_write (enc_Version (tx_version tx)) engine_default))))"

definition compute_wtxid :: "Transaction \<Rightarrow> bytes" where
  "compute_wtxid tx = sha256d_from_engine (engine_write (enc_Transaction tx) engine_default)"

definition compute_ntxid :: "Transaction \<Rightarrow> bytes" where
  "compute_ntxid tx =
     compute_txid (tx\<lparr> tx_input := map (\<lambda>i. i\<lparr> script_sig := [], witness := witness_new \<rparr>) (tx_input tx) \<rparr>)"

section \<open>Sizes\<close>

definition base_size :: "Transaction \<Rightarrow> nat" where
  "base_size tx =
     4 + varint_size (varint_of_len (length (tx_input tx))) + sum_list (map txin_base_size (tx_input tx))
       + varint_size (varint_of_len (length (tx_output tx))) + sum_list (map txout_size (tx_output tx)) + locktime_SIZE"

fun sum_sizes :: "nat option list \<Rightarrow> nat option" where
  "sum_sizes [] = Some 0"
| "sum_sizes (None # ns) = None"
| "sum_sizes (Some n # ns) = map_option (\<lambda>m. n + m) (sum_sizes ns)"

definition total_size :: "Transaction \<Rightarrow> nat option" where
  "total_size tx =
     (let uses_segwit = uses_segwit_serialization tx
      in map_option (\<lambda>inputs. 4 + (if uses_segwit then 2 else 0) + varint_size (varint_of_len (length (tx_input tx))) + inputs
             + varint_size (varint_of_len (length (tx_output tx))) + sum_list (map txout_size (tx_output tx)) + locktime_SIZE)
          (sum_sizes (map (\<lambda>i. if uses_segwit then txin_total_size i else Some (txin_base_size i)) (tx_input tx))))"

definition tx_weight :: "Transaction \<Rightarrow> Weight option" where
  "tx_weight tx = map_option (\<lambda>tot. from_wu_usize (base_size tx * 3 + tot)) (total_size tx)"

definition vsize :: "Transaction \<Rightarrow> nat option" where
  "vsize tx = map_option (\<lambda>w. unat (to_vbytes_ceil w)) (tx_weight tx)"

section \<open>Tests\<close>

definition is_coinbase :: "Transaction \<Rightarrow> bool" where
  "is_coinbase tx \<longleftrightarrow> length (tx_input tx) = 1 \<and> outpoint_is_null (previous_output (tx_input tx ! 0))"

definition is_explicitly_rbf :: "Transaction \<Rightarrow> bool" where
  "is_explicitly_rbf tx \<longleftrightarrow> list_ex (\<lambda>i. is_rbf (sequence i)) (tx_input tx)"

definition is_lock_time_enabled :: "Transaction \<Rightarrow> bool" where
  "is_lock_time_enabled tx \<longleftrightarrow> list_ex enables_lock_time (tx_input tx)"

definition is_absolute_timelock_satisfied :: "Transaction \<Rightarrow> Height \<Rightarrow> Time \<Rightarrow> bool" where
  "is_absolute_timelock_satisfied tx height time =
     (if \<not> is_lock_time_enabled tx then True else lt_is_satisfied_by (lock_time tx) height time)"

datatype IndexOutOfBoundsError = IndexOutOfBoundsError nat nat

definition tx_in :: "Transaction \<Rightarrow> nat \<Rightarrow> IndexOutOfBoundsError + TxIn" where
  "tx_in tx i =
     (if i < length (tx_input tx) then Inr (tx_input tx ! i) else Inl (IndexOutOfBoundsError i (length (tx_input tx))))"

definition tx_out :: "Transaction \<Rightarrow> nat \<Rightarrow> IndexOutOfBoundsError + TxOut" where
  "tx_out tx i =
     (if i < length (tx_output tx) then Inr (tx_output tx ! i) else Inl (IndexOutOfBoundsError i (length (tx_output tx))))"

section \<open>Weight prediction\<close>

record InputWeightPrediction =
  script_size :: nat
  pred_witness_size :: nat

fun witness_lens_fold :: "nat \<times> nat \<Rightarrow> nat list \<Rightarrow> nat \<times> nat" where
  "witness_lens_fold acc [] = acc"
| "witness_lens_fold (n, tot) (elem_len # ls) =
     witness_lens_fold (n + 1, tot + (elem_len + varint_size (varint_of_len elem_len))) ls"

definition prediction_new :: "nat \<Rightarrow> nat list \<Rightarrow> InputWeightPrediction" where
  "prediction_new input_script_len lens =
     (let (n, tot) = witness_lens_fold (0, 0) lens
      in \<lparr> script_size = input_script_len + varint_size (varint_of_len input_script_len),
           pred_witness_size = (if n > 0 then tot + varint_size (varint_of_len n) else 0) \<rparr>)"

fun lens_loop :: "nat \<Rightarrow> nat list \<Rightarrow> nat" where
  "lens_loop tot [] = tot"
| "lens_loop tot (elem_len # ls) = lens_loop (tot + (elem_len + varint_size (varint_of_len elem_len))) ls"

definition prediction_from_slice :: "nat \<Rightarrow> nat list \<Rightarrow> InputWeightPrediction" where
  "prediction_from_slice input_script_len lens =
     \<lparr> script_size = input_script_len + varint_size (varint_of_len input_script_len),
       pred_witness_size = (if lens \<noteq> [] then lens_loop 0 lens + varint_size (varint_of_len (length lens)) else 0) \<rparr>"

definition prediction_weight :: "InputWeightPrediction \<Rightarrow> Weight" where
  "prediction_weight p = from_wu_usize (script_size p * 4 + pred_witness_size p)"

fun inputs_fold :: "nat \<times> nat \<times> nat \<Rightarrow> InputWeightPrediction list \<Rightarrow> nat \<times> nat \<times> nat" where
  "inputs_fold acc [] = acc"
| "inputs_fold (n, wgt, with_w) (p # ps) =
     inputs_fold (n + 1, wgt + unat (to_wu (prediction_weight p)), with_w + (if pred_witness_size p > 0 then 1 else 0)) ps"

fun outputs_fold :: "nat \<times> nat \<Rightarrow> nat list \<Rightarrow> nat \<times> nat" where
  "outputs_fold acc [] = acc"
| "outputs_fold (n, tot) (l # ls) = outputs_fold (n + 1, tot + (l + varint_size (varint_of_len l))) ls"

definition predict_weight_internal :: "nat \<Rightarrow> nat \<Rightarrow> nat \<Rightarrow> nat \<Rightarrow> nat \<Rightarrow> Weight" where
  "predict_weight_internal input_count partial_input_weight inputs_with_witnesses output_count output_scripts_size =
     (let input_weight = partial_input_weight + input_count * 4 * (32 + 4 + 4);
          output_size = 8 * output_count + output_scripts_size;
          non_input_size = 4 + varint_size (varint_of_len input_count) + varint_size (varint_of_len output_count)
            + output_size + 4;
          weight = (if inputs_with_witnesses = 0 then non_input_size * 4 + input_weight
                    else non_input_size * 4 + input_weight + input_count - inputs_with_witnesses + 2)
      in Weight (word_of_nat weight))"

definition predict_weight :: "InputWeightPrediction list \<Rightarrow> nat list \<Rightarrow> Weight" where
  "predict_weight ins output_script_lens =
     (let (input_count, partial_input_weight, inputs_with_witnesses) = inputs_fold (0, 0, 0) ins;
          (output_count, output_scripts_size) = outputs_fold (0, 0) output_script_lens
      in predict_weight_internal input_count partial_input_weight inputs_with_witnesses output_count output_scripts_size)"

fun preds_loop :: "nat \<Rightarrow> nat \<Rightarrow> InputWeightPrediction list \<Rightarrow> nat \<times> nat" where
  "preds_loop wgt with_w [] = (wgt, with_w)"
| "preds_loop wgt with_w (p # ps) =
     preds_loop (wgt + unat (to_wu (prediction_weight p))) (with_w + (if pred_witness_size p > 0 then 1 else 0)) ps"

definition predict_weight_from_slices :: "InputWeightPrediction list \<Rightarrow> nat list \<Rightarrow> Weight" where
  "predict_weight_from_slices ins lens =
     (let (partial_input_weight, inputs_with_witnesses) = preds_loop 0 0 ins
      in predict_weight_internal (length ins) partial_input_weight inputs_with_witnesses (length lens) (lens_loop 0 lens))"

definition script_pubkey_lens :: "Transaction \<Rightarrow> nat list" where
  "script_pubkey_lens tx = map (\<lambda>out. length (script_pubkey out)) (tx_output tx)"

section \<open>Codecs of the parts\<close>

definition outpoint_ok :: "OutPoint \<Rightarrow> bool" where "outpoint_ok p \<longleftrightarrow> length (txid p) = 32"

interpretation version_codec: codec enc_Version dec_Version "\<lambda>_. True"
  by unfold_locales
    (auto simp: enc_Version_def dec_Version_def dbind_Inr_iff u32_codec.enc_len u32_codec.dec_enc
      dest!: u32_codec.canonical)

interpretation outpoint_codec: codec enc_OutPoint dec_OutPoint outpoint_ok
  by unfold_locales
    (auto simp: enc_OutPoint_def dec_OutPoint_def outpoint_ok_def dbind_Inr_iff u32_codec.enc_len
      u32_codec.dec_enc array32_codec.enc_len array32_codec.dec_enc
      dest!: u32_codec.canonical array32_codec.canonical)

definition txin_core_ok :: "TxIn \<Rightarrow> bool" where
  "txin_core_ok i \<longleftrightarrow> outpoint_ok (previous_output i) \<and> bytes_ok (script_sig i) \<and> witness i = witness_new"

interpretation txin_codec: codec enc_TxIn dec_TxIn txin_core_ok
  by unfold_locales
    (auto simp: enc_TxIn_def dec_TxIn_def txin_core_ok_def dbind_Inr_iff outpoint_codec.enc_len
      outpoint_codec.dec_enc bytes_codec.enc_len bytes_codec.dec_enc sequence_codec.enc_len sequence_codec.dec_enc
      dest!: outpoint_codec.canonical bytes_codec.canonical sequence_codec.canonical)

definition txout_ok :: "TxOut \<Rightarrow> bool" where "txout_ok out \<longleftrightarrow> bytes_ok (script_pubkey out)"

interpretation txout_codec: codec enc_TxOut dec_TxOut txout_ok
  by unfold_locales
    (auto simp: enc_TxOut_def dec_TxOut_def txout_ok_def dbind_Inr_iff u64_codec.enc_len u64_codec.dec_enc
      bytes_codec.enc_len bytes_codec.dec_enc
      dest!: u64_codec.canonical bytes_codec.canonical)

interpretation txins_codec: codec "enc_vec enc_TxIn" "dec_vec dec_TxIn" "vec_ok txin_core_ok"
  by (rule vec_codec) (rule txin_codec.codec_axioms)

interpretation txouts_codec: codec "enc_vec enc_TxOut" "dec_vec dec_TxOut" "vec_ok txout_ok"
  by (rule vec_codec) (rule txout_codec.codec_axioms)

section \<open>Witnesses apart\<close>

abbreviation strip :: "TxIn \<Rightarrow> TxIn" where "strip i \<equiv> i\<lparr> witness := witness_new \<rparr>"

definition txin_ok :: "TxIn \<Rightarrow> bool" where
  "txin_ok i \<longleftrightarrow> outpoint_ok (previous_output i) \<and> bytes_ok (script_sig i) \<and> witness_ok (witness i)"

definition tx_ok :: "Transaction \<Rightarrow> bool" where
  "tx_ok tx \<longleftrightarrow> vec_ok txin_ok (tx_input tx) \<and> vec_ok txout_ok (tx_output tx) \<and> lt_ok (lock_time tx)"

abbreviation enc_witnesses :: "TxIn list \<Rightarrow> bytes \<times> nat" where
  "enc_witnesses \<equiv> enc_elems (\<lambda>i. enc_Witness (witness i))"

lemma enc_TxIn_witness [simp]: "enc_TxIn (i\<lparr> witness := w \<rparr>) = enc_TxIn i"
  by (simp add: enc_TxIn_def)

lemma enc_elems_map: "enc_elems f (map g xs) = enc_elems (\<lambda>x. f (g x)) xs"
  by (induction xs) simp_all

lemma enc_vec_strip: "enc_vec enc_TxIn (map strip is) = enc_vec enc_TxIn is"
  by (simp add: enc_vec_def enc_elems_map)

lemma txin_core_strip: "txin_core_ok (strip i) \<longleftrightarrow> outpoint_ok (previous_output i) \<and> bytes_ok (script_sig i)"
  by (simp add: txin_core_ok_def)

lemma vec_core_strip: "vec_ok txin_ok is \<Longrightarrow> vec_ok txin_core_ok (map strip is)"
  by (auto simp: vec_ok_def list_all_iff txin_core_strip txin_ok_def)

lemma core_strip_eq: "list_all txin_core_ok is \<Longrightarrow> map strip is = is"
  by (induction "is") (auto simp: txin_core_ok_def)

lemma enc_witnesses_len: "snd (enc_witnesses is) = length (fst (enc_witnesses is))"
  by (induction "is") (simp_all add: witness_codec.enc_len)

lemma dec_enc_witnesses:
  "list_all (\<lambda>i. witness_ok (witness i)) is \<Longrightarrow> dec_witnesses (map strip is) (fst (enc_witnesses is) @ rest) = Inr (is, rest)"
  by (induction "is") (simp_all add: dbind_def dret_def witness_codec.dec_enc)

lemma dec_witnesses_canonical:
  "dec_witnesses js bs = Inr (is, rest) \<Longrightarrow>
     map strip is = map strip js \<and> list_all (\<lambda>i. witness_ok (witness i)) is \<and> bs = fst (enc_witnesses is) @ rest"
proof (induction js arbitrary: bs "is")
  case Nil
  then show ?case by simp
next
  case (Cons j js)
  then obtain w r is' where "dec_Witness bs = Inr (w, r)" "dec_witnesses js r = Inr (is', rest)" "is = j\<lparr> witness := w \<rparr> # is'"
    by (auto simp: dbind_Inr_iff)
  then show ?case using Cons.IH [of r is'] witness_codec.canonical [of bs w r] by auto
qed

lemma witness_empty_iff: "witness_ok w \<Longrightarrow> witness_is_empty w \<longleftrightarrow> w = witness_new"
  by (auto simp: witness_ok_def witness_is_empty_def witness_new_of)

lemma legacy_inputs:
  assumes "list_all (\<lambda>i. witness_ok (witness i)) is" "\<not> list_ex (\<lambda>i. \<not> witness_is_empty (witness i)) is"
  shows "map strip is = is"
  using assms by (induction "is") (auto simp: witness_empty_iff)

section \<open>The transaction codec\<close>

lemma enc_vec_Nil: "fst (enc_vec enc_TxIn []) = [0]"
  by (simp add: enc_vec_def enc_VarInt_def emit_u8_def)

lemma enc_Transaction_len: "snd (enc_Transaction tx) = length (fst (enc_Transaction tx))"
  by (simp add: enc_Transaction_def version_codec.enc_len txins_codec.enc_len txouts_codec.enc_len
      locktime_codec.enc_len enc_witnesses_len u8_codec.enc_len)

lemma tx_decode_encode:
  assumes ok: "tx_ok tx"
  shows "dec_Transaction (fst (enc_Transaction tx) @ rest) = Inr (tx, rest)"
proof -
  have w: "list_all (\<lambda>i. witness_ok (witness i)) (tx_input tx)"
    using ok by (auto simp: tx_ok_def vec_ok_def list_all_iff txin_ok_def)
  have ins: "vec_ok txin_core_ok (map strip (tx_input tx))"
    using ok by (simp add: tx_ok_def vec_core_strip)
  have d: "dec_vec dec_TxIn (fst (enc_vec enc_TxIn (tx_input tx)) @ r) = Inr (map strip (tx_input tx), r)" for r
    using txins_codec.dec_enc [OF ins] by (simp add: enc_vec_strip)
  have outs: "vec_ok txout_ok (tx_output tx)" "lt_ok (lock_time tx)" using ok by (simp_all add: tx_ok_def)
  note decs = dbind_def version_codec.dec_enc d txouts_codec.dec_enc [OF outs(1)] locktime_codec.dec_enc [OF outs(2)] dret_def
  show ?thesis
  proof (cases "uses_segwit_serialization tx")
    case False
    then have "tx_input tx \<noteq> []" "map strip (tx_input tx) = tx_input tx"
      using legacy_inputs [OF w] by (auto simp: uses_segwit_serialization_def split: if_splits)
    then show ?thesis using False by (simp add: enc_Transaction_def dec_Transaction_def decs)
  next
    case True
    then have "\<not> (tx_input tx \<noteq> [] \<and> list_all (\<lambda>i. witness_is_empty (witness i)) (tx_input tx))"
      by (auto simp: uses_segwit_serialization_def list_ex_iff list_all_iff split: if_splits)
    moreover have "dec_vec dec_TxIn (SEGWIT_MARKER # r) = Inr ([], r)" for r
      using txins_codec.dec_enc [of "[]" r] by (simp add: enc_vec_Nil vec_ok_def SEGWIT_MARKER_def)
    moreover have "read_u8 (SEGWIT_FLAG # r) = Inr (1, r)" for r
      using u8_codec.dec_enc [of 1 r] by (simp add: emit_u8_def SEGWIT_FLAG_def)
    ultimately show ?thesis
      using True by (simp add: enc_Transaction_def dec_Transaction_def decs emit_u8_def dec_enc_witnesses [OF w])
  qed
qed

lemma segwit_used:
  "\<not> (is \<noteq> [] \<and> list_all (\<lambda>i. witness_is_empty (witness i)) is) \<Longrightarrow>
   uses_segwit_serialization \<lparr> tx_version = v, lock_time = lt, tx_input = is, tx_output = os \<rparr>"
  by (auto simp: uses_segwit_serialization_def list_ex_iff list_all_iff)

lemma segwit_not_used:
  "is \<noteq> [] \<Longrightarrow> list_all txin_core_ok is \<Longrightarrow>
   \<not> uses_segwit_serialization \<lparr> tx_version = v, lock_time = lt, tx_input = is, tx_output = os \<rparr>"
  by (auto simp: uses_segwit_serialization_def list_ex_iff list_all_iff txin_core_ok_def witness_is_empty_def witness_new_def)

lemma txin_ok_of_core: "txin_core_ok (strip i) \<Longrightarrow> witness_ok (witness i) \<Longrightarrow> txin_ok i"
  by (simp add: txin_core_ok_def txin_ok_def)

lemma txins_ok_of_core:
  assumes "vec_ok txin_core_ok js" "map strip is = js" "list_all (\<lambda>i. witness_ok (witness i)) is"
  shows "vec_ok txin_ok is"
  using assms by (auto simp: vec_ok_def list_all_iff intro!: txin_ok_of_core)

lemma witness_ok_new: "witness_ok witness_new"
  by (auto simp: witness_ok_def witness_new_of intro!: exI [of _ "[]"])

lemma dec_Transaction_cases:
  assumes "dec_Transaction bs = Inr (tx, rest)"
  obtains (segwit) v r "is" js os lt r2 r3 r4 r5 where "dec_Version bs = Inr (v, r)" "dec_vec dec_TxIn r = Inr ([], 1 # r2)"
      "dec_vec dec_TxIn r2 = Inr (js, r3)" "dec_vec dec_TxOut r3 = Inr (os, r4)" "dec_witnesses js r4 = Inr (is, r5)"
      "\<not> (is \<noteq> [] \<and> list_all (\<lambda>i. witness_is_empty (witness i)) is)" "dec_LockTime r5 = Inr (lt, rest)"
      "tx = \<lparr> tx_version = v, lock_time = lt, tx_input = is, tx_output = os \<rparr>"
  | (legacy) v r "is" os lt r2 r3 where "dec_Version bs = Inr (v, r)" "dec_vec dec_TxIn r = Inr (is, r2)" "is \<noteq> []"
      "dec_vec dec_TxOut r2 = Inr (os, r3)" "dec_LockTime r3 = Inr (lt, rest)"
      "tx = \<lparr> tx_version = v, lock_time = lt, tx_input = is, tx_output = os \<rparr>"
proof -
  obtain v r "is" r' where v: "dec_Version bs = Inr (v, r)" "dec_vec dec_TxIn r = Inr (is, r')"
    using assms by (auto simp: dec_Transaction_def dbind_Inr_iff)
  show ?thesis
  proof (cases "is = []")
    case False
    then show ?thesis using assms v legacy by (auto simp: dec_Transaction_def dbind_Inr_iff)
  next
    case True
    then obtain f r2 where f: "read_u8 r' = Inr (f, r2)" "f = 1"
      using assms v by (auto simp: dec_Transaction_def dbind_Inr_iff split: if_splits)
    then have "r' = 1 # r2" using u8_codec.canonical [OF f(1)] by (simp add: emit_u8_def)
    moreover obtain js r3 os r4 is' r5 lt where "dec_vec dec_TxIn r2 = Inr (js, r3)" "dec_vec dec_TxOut r3 = Inr (os, r4)"
      "dec_witnesses js r4 = Inr (is', r5)" "\<not> (is' \<noteq> [] \<and> list_all (\<lambda>i. witness_is_empty (witness i)) is')"
      "dec_LockTime r5 = Inr (lt, rest)" "tx = \<lparr> tx_version = v, lock_time = lt, tx_input = is', tx_output = os \<rparr>"
      using assms v True f by (auto simp: dec_Transaction_def dbind_Inr_iff split: if_splits)
    ultimately show ?thesis using segwit v True by blast
  qed
qed

lemma tx_canonical:
  assumes "dec_Transaction bs = Inr (tx, rest)"
  shows "tx_ok tx \<and> bs = fst (enc_Transaction tx) @ rest"
  using assms
proof (cases rule: dec_Transaction_cases)
  case (segwit v r "is" js os lt r2 r3 r4 r5)
  have js: "vec_ok txin_core_ok js" "r2 = fst (enc_vec enc_TxIn js) @ r3"
    using txins_codec.canonical [OF segwit(3)] by simp_all
  have "is": "map strip is = js" "list_all (\<lambda>i. witness_ok (witness i)) is" "r4 = fst (enc_witnesses is) @ r5"
    using dec_witnesses_canonical [OF segwit(5)] core_strip_eq [of js] js(1) by (simp_all add: vec_ok_def)
  have "enc_vec enc_TxIn js = enc_vec enc_TxIn is" using enc_vec_strip [of "is"] "is"(1) by simp
  then show ?thesis
    using segwit(8) segwit_used [OF segwit(6)] js "is" txins_ok_of_core [OF js(1) "is"(1,2)] version_codec.canonical [OF segwit(1)]
      txins_codec.canonical [OF segwit(2)] txouts_codec.canonical [OF segwit(4)] locktime_codec.canonical [OF segwit(7)]
    by (simp add: tx_ok_def enc_Transaction_def enc_vec_Nil emit_u8_def SEGWIT_MARKER_def SEGWIT_FLAG_def)
next
  case (legacy v r "is" os lt r2 r3)
  have "is": "vec_ok txin_core_ok is" "r = fst (enc_vec enc_TxIn is) @ r2" using txins_codec.canonical [OF legacy(2)] by simp_all
  then have "vec_ok txin_ok is"
    by (intro txins_ok_of_core [OF "is"(1) core_strip_eq]) (auto simp: vec_ok_def list_all_iff txin_core_ok_def witness_ok_new)
  then show ?thesis
    using legacy(6) segwit_not_used [OF legacy(3)] "is" version_codec.canonical [OF legacy(1)]
      txouts_codec.canonical [OF legacy(4)] locktime_codec.canonical [OF legacy(5)]
    by (simp add: tx_ok_def enc_Transaction_def vec_ok_def)
qed

interpretation tx_codec: codec enc_Transaction dec_Transaction tx_ok
  by unfold_locales (simp_all add: enc_Transaction_len tx_decode_encode tx_canonical)

interpretation txs_codec: codec "enc_vec enc_Transaction" "dec_vec dec_Transaction" "vec_ok tx_ok"
  by (rule vec_codec) (rule tx_codec.codec_axioms)

section \<open>Sizes and identifiers\<close>

lemma length_enc_bytes: "length (fst (enc_with_size s)) = varint_size (varint_of_len (length s)) + length s"
  by (simp add: enc_with_size_def emit_slice_def varint_size_eq)

lemma length_enc_TxIn: "outpoint_ok (previous_output i) \<Longrightarrow> length (fst (enc_TxIn i)) = txin_base_size i"
  by (simp add: enc_TxIn_def enc_OutPoint_def enc_array_def emit_slice_def encode_int_def enc_Sequence_def
      length_enc_bytes txin_base_size_def outpoint_SIZE_def sequence_SIZE_def outpoint_ok_def)

lemma length_enc_TxOut: "length (fst (enc_TxOut out)) = txout_size out"
  by (simp add: enc_TxOut_def encode_int_def length_enc_bytes txout_size_def size_from_script_pubkey_def amount_SIZE_def)

lemma length_enc_elems: "length (fst (enc_elems f xs)) = sum_list (map (\<lambda>x. length (fst (f x))) xs)"
  by (induction xs) simp_all

lemma length_enc_vec: "length (fst (enc_vec f xs)) = varint_size (varint_of_len (length xs)) + sum_list (map (\<lambda>x. length (fst (f x))) xs)"
  by (simp add: enc_vec_def length_enc_elems varint_size_eq)

lemma witness_ok_elems: "witness_ok w \<Longrightarrow> \<exists>xs. w = witness_of xs \<and> elems_ok xs"
proof -
  assume "witness_ok w"
  then obtain xs where "w = witness_of xs" "length (body xs) \<le> MAX_VEC_SIZE" by (auto simp: witness_ok_def)
  then show ?thesis by (intro exI [of _ xs]) (simp add: elems_ok_def MAX_VEC_SIZE_def)
qed

lemma witness_size_ok: "witness_ok w \<Longrightarrow> witness_size w = Some (length (fst (enc_Witness w)))"
  using witness_size_of witness_ok_elems by blast

lemma sum_sizes_Some: "sum_sizes (map (\<lambda>x. Some (f x)) xs) = Some (sum_list (map f xs))"
  by (induction xs) simp_all

definition core_bytes :: "Transaction \<Rightarrow> bytes" where
  "core_bytes tx = serialize enc_Version (tx_version tx) @ serialize (enc_vec enc_TxIn) (tx_input tx)
     @ serialize (enc_vec enc_TxOut) (tx_output tx) @ serialize enc_LockTime (lock_time tx)"

lemma length_enc_txins:
  "list_all txin_ok is \<Longrightarrow> sum_list (map (\<lambda>i. length (fst (enc_TxIn i))) is) = sum_list (map txin_base_size is)"
  by (induction "is") (simp_all add: length_enc_TxIn txin_ok_def)

lemma base_size_core: "tx_ok tx \<Longrightarrow> base_size tx = length (core_bytes tx)"
  by (simp add: base_size_def core_bytes_def serialize_def length_enc_vec length_enc_TxOut length_enc_txins
      tx_ok_def vec_ok_def enc_Version_def enc_LockTime_def encode_int_def locktime_SIZE_def)

lemma txin_total_sizes:
  "list_all txin_ok is \<Longrightarrow> sum_sizes (map txin_total_size is) =
     Some (sum_list (map txin_base_size is) + length (fst (enc_witnesses is)))"
  by (induction "is") (simp_all add: txin_total_size_def txin_ok_def witness_size_ok)

lemma total_size_serialized:
  assumes "tx_ok tx"
  shows "total_size tx = Some (length (serialize enc_Transaction tx))"
  using assms
  by (simp add: total_size_def serialize_def enc_Transaction_def length_enc_vec length_enc_TxOut length_enc_txins
      tx_ok_def vec_ok_def enc_Version_def enc_LockTime_def encode_int_def locktime_SIZE_def emit_u8_def
      txin_total_sizes sum_sizes_Some Let_def)

lemma sha256d_chunks: "sha256d_from_engine (fold (\<lambda>s e. input e s) xs engine_default) = sha256d_hash (concat xs)"
  using hash_byte_chunks_eq [of xs]
  by (simp add: sha256d_hash_def sha256d_from_engine_def hash_byte_chunks_def sha256_hash_def)

lemma compute_txid_eq: "compute_txid tx = sha256d_hash (core_bytes tx)"
  using sha256d_chunks [of "[fst (enc_Version (tx_version tx)), fst (enc_vec enc_TxIn (tx_input tx)),
      fst (enc_vec enc_TxOut (tx_output tx)), fst (enc_LockTime (lock_time tx))]"]
  by (simp add: compute_txid_def engine_write_def core_bytes_def serialize_def)

lemma compute_wtxid_eq: "compute_wtxid tx = sha256d_hash (serialize enc_Transaction tx)"
  by (simp add: compute_wtxid_def engine_write_def serialize_def sha256d_hash_def)

lemma serialize_legacy: "\<not> uses_segwit_serialization tx \<Longrightarrow> serialize enc_Transaction tx = core_bytes tx"
  by (simp add: serialize_def enc_Transaction_def core_bytes_def)

lemma core_bytes_strip: "core_bytes (tx\<lparr> tx_input := map strip (tx_input tx) \<rparr>) = core_bytes tx"
  by (simp add: core_bytes_def serialize_def enc_vec_strip)

section \<open>Weight prediction\<close>

abbreviation len_size :: "nat \<Rightarrow> nat" where "len_size l \<equiv> l + varint_size (varint_of_len l)"

lemma witness_lens_fold_eq: "witness_lens_fold (n, t) ls = (n + length ls, t + sum_list (map len_size ls))"
  by (induction ls arbitrary: n t) simp_all

lemma lens_loop_eq: "lens_loop t ls = t + sum_list (map len_size ls)"
  by (induction ls arbitrary: t) simp_all

lemma outputs_fold_eq: "outputs_fold (n, t) ls = (n + length ls, t + sum_list (map len_size ls))"
  by (induction ls arbitrary: n t) simp_all

lemma inputs_fold_eq:
  "inputs_fold (n, w, k) ps = (n + length ps, w + sum_list (map (\<lambda>p. unat (to_wu (prediction_weight p))) ps),
     k + length (filter (\<lambda>p. pred_witness_size p > 0) ps))"
  by (induction ps arbitrary: n w k) simp_all

lemma preds_loop_eq:
  "preds_loop w k ps = (w + sum_list (map (\<lambda>p. unat (to_wu (prediction_weight p))) ps),
     k + length (filter (\<lambda>p. pred_witness_size p > 0) ps))"
  by (induction ps arbitrary: w k) simp_all

lemma prediction_new_eq: "prediction_new n ls = prediction_from_slice n ls"
  by (simp add: prediction_new_def prediction_from_slice_def witness_lens_fold_eq lens_loop_eq)

lemma predict_slices_eq: "predict_weight_from_slices ps ls = predict_weight ps ls"
  by (simp add: predict_weight_from_slices_def predict_weight_def preds_loop_eq inputs_fold_eq lens_loop_eq outputs_fold_eq)

definition prediction_of :: "TxIn \<Rightarrow> InputWeightPrediction" where
  "prediction_of i =
     prediction_new (length (script_sig i)) (case to_vec (witness i) of None \<Rightarrow> [] | Some xs \<Rightarrow> map length xs)"

lemma prediction_sizes:
  assumes "txin_ok i"
  shows "script_size (prediction_of i) + 40 = txin_base_size i"
    and "pred_witness_size (prediction_of i) = (if witness_is_empty (witness i) then 0 else length (fst (enc_Witness (witness i))))"
    and "witness_is_empty (witness i) \<Longrightarrow> length (fst (enc_Witness (witness i))) = 1"
proof -
  obtain xs where xs: "witness i = witness_of xs" "elems_ok xs"
    using assms witness_ok_elems by (auto simp: txin_ok_def)
  have l: "length (fst (enc_Witness (witness_of xs))) = varint_size (varint_of_len (length xs)) + sum_list (map (\<lambda>x. len_size (length x)) xs)"
    by (simp add: enc_Witness_of length_enc_vec length_enc_bytes add.commute)
  show "script_size (prediction_of i) + 40 = txin_base_size i"
    by (simp add: prediction_of_def prediction_new_eq prediction_from_slice_def txin_base_size_def outpoint_SIZE_def sequence_SIZE_def)
  show "pred_witness_size (prediction_of i) = (if witness_is_empty (witness i) then 0 else length (fst (enc_Witness (witness i))))"
    using xs l by (simp add: prediction_of_def prediction_new_eq prediction_from_slice_def to_vec_of lens_loop_eq
        witness_is_empty_def o_def)
  show "length (fst (enc_Witness (witness i))) = 1" if "witness_is_empty (witness i)"
    using that xs l by (simp add: witness_is_empty_def varint_size_def)
qed

text \<open>The bytes of the witnesses, against the predictions of the single inputs.\<close>

lemma witness_bytes_sum:
  assumes "list_all txin_ok is"
  shows "length (fst (enc_witnesses is)) + length (filter (\<lambda>p. pred_witness_size p > 0) (map prediction_of is)) =
    sum_list (map (\<lambda>i. pred_witness_size (prediction_of i)) is) + length is"
  using assms
proof (induction "is")
  case (Cons i "is")
  have "0 < length (fst (enc_Witness (witness i)))"
    by (simp add: enc_Witness_def enc_VarInt_def emit_u8_def Let_def)
  then show ?case using Cons prediction_sizes(2,3) [of i] by auto
qed simp

lemma base_sum:
  assumes "list_all txin_ok is"
  shows "sum_list (map txin_base_size is) = sum_list (map (\<lambda>i. script_size (prediction_of i)) is) + 40 * length is"
  using assms by (induction "is") (auto simp flip: prediction_sizes(1))

lemma prediction_weight_unat:
  "script_size p * 4 + pred_witness_size p < 2 ^ 64 \<Longrightarrow> unat (to_wu (prediction_weight p)) = 4 * script_size p + pred_witness_size p"
  using unat_len [of "script_size p * 4 + pred_witness_size p"]
  by (simp add: prediction_weight_def from_wu_usize_def del: of_nat_add of_nat_mult)

lemma prediction_weight_sum:
  assumes "sum_list (map (\<lambda>i. script_size (prediction_of i) * 4 + pred_witness_size (prediction_of i)) is) < 2 ^ 64"
  shows "sum_list (map (\<lambda>p. unat (to_wu (prediction_weight p))) (map prediction_of is)) =
    4 * sum_list (map (\<lambda>i. script_size (prediction_of i)) is) + sum_list (map (\<lambda>i. pred_witness_size (prediction_of i)) is)"
  using assms by (induction "is") (simp_all add: prediction_weight_unat)

lemma tx_weight_nat:
  assumes "tx_ok tx"
  shows "tx_weight tx = Some (from_wu_usize (3 * length (core_bytes tx) + length (serialize enc_Transaction tx)))"
  using assms by (simp add: tx_weight_def total_size_serialized base_size_core mult.commute)

lemma serialized_length:
  "length (serialize enc_Transaction tx) =
     length (core_bytes tx) + (if uses_segwit_serialization tx then 2 + length (fst (enc_witnesses (tx_input tx))) else 0)"
  by (simp add: serialize_def enc_Transaction_def core_bytes_def emit_u8_def)

lemma segwit_iff_predicted:
  assumes "list_all txin_ok is"
  shows "list_ex (\<lambda>i. \<not> witness_is_empty (witness i)) is \<longleftrightarrow> length (filter (\<lambda>p. pred_witness_size p > 0) (map prediction_of is)) \<noteq> 0"
proof -
  have "fst (enc_Witness w) \<noteq> []" for w
    by (simp add: enc_Witness_def enc_VarInt_def emit_u8_def Let_def)
  then have "pred_witness_size (prediction_of i) > 0 \<longleftrightarrow> \<not> witness_is_empty (witness i)" if "i \<in> set is" for i
    using assms that prediction_sizes(2) [of i] by (simp add: list_all_iff)
  then show ?thesis by (auto simp: list_ex_iff filter_empty_conv)
qed

lemma txout_sizes_sum:
  "sum_list (map txout_size os) = 8 * length os + sum_list (map len_size (map (\<lambda>out. length (script_pubkey out)) os))"
  by (induction os) (simp_all add: txout_size_def size_from_script_pubkey_def amount_SIZE_def)

lemma prediction_exact:
  assumes ok: "tx_ok tx" and ne: "tx_input tx \<noteq> []"
    and bound: "3 * length (core_bytes tx) + length (serialize enc_Transaction tx) < 2 ^ 64"
  shows "predict_weight (map prediction_of (tx_input tx)) (script_pubkey_lens tx) =
    from_wu_usize (3 * length (core_bytes tx) + length (serialize enc_Transaction tx))"
proof -
  let ?is = "tx_input tx" and ?os = "tx_output tx"
  define k where "k = length (filter (\<lambda>p. pred_witness_size p > 0) (map prediction_of ?is))"
  define S where "S = sum_list (map (\<lambda>i. script_size (prediction_of i)) ?is)"
  define P where "P = sum_list (map (\<lambda>i. pred_witness_size (prediction_of i)) ?is)"
  define Q where "Q = sum_list (map len_size (script_pubkey_lens tx))"
  have ins: "list_all txin_ok ?is" using ok by (simp add: tx_ok_def vec_ok_def)
  have k: "k \<le> length ?is" by (simp add: k_def)
  have wb: "length (fst (enc_witnesses ?is)) + k = P + length ?is"
    using witness_bytes_sum [OF ins] by (simp add: k_def P_def)
  have outs: "sum_list (map txout_size ?os) = 8 * length ?os + Q"
    using txout_sizes_sum [of ?os] by (simp add: Q_def script_pubkey_lens_def)
  have core: "length (core_bytes tx) = 8 + varint_size (varint_of_len (length ?is)) + varint_size (varint_of_len (length ?os))
      + S + 40 * length ?is + 8 * length ?os + Q"
    using base_size_core [OF ok] base_sum [OF ins] outs by (simp add: base_size_def locktime_SIZE_def S_def)
  have seg: "uses_segwit_serialization tx \<longleftrightarrow> k \<noteq> 0"
    using segwit_iff_predicted [OF ins] ne by (simp add: uses_segwit_serialization_def k_def)
  have P0: "P = 0" if "k = 0"
    using that by (induction ?is) (auto simp: k_def P_def filter_empty_conv)
  have "S * 4 + P < 2 ^ 64"
    using bound core wb seg P0 k serialized_length [of tx] by (cases "k = 0") simp_all
  then have pw: "sum_list (map (\<lambda>p. unat (to_wu (prediction_weight p))) (map prediction_of ?is)) = 4 * S + P"
    unfolding S_def P_def by (intro prediction_weight_sum) (simp add: sum_list_addf sum_list_mult_const)
  have "predict_weight (map prediction_of ?is) (script_pubkey_lens tx) =
      predict_weight_internal (length ?is) (4 * S + P) k (length ?os) Q"
    unfolding predict_weight_def inputs_fold_eq outputs_fold_eq pw k_def [symmetric] Q_def [symmetric]
    by (simp add: script_pubkey_lens_def)
  also have "\<dots> = from_wu_usize (3 * length (core_bytes tx) + length (serialize enc_Transaction tx))"
    unfolding predict_weight_internal_def from_wu_usize_def Let_def Weight.inject
    by (rule arg_cong [of _ _ word_of_nat]) (use core wb seg P0 k serialized_length [of tx] in \<open>cases "k = 0"; simp\<close>)
  finally show ?thesis .
qed

lemma vbytes_ceil_nat: "n < 2 ^ 64 - 4 \<Longrightarrow> unat (to_vbytes_ceil (from_wu_usize n)) = (n + 3) div 4"
proof -
  assume n: "n < 2 ^ 64 - 4"
  have "word_of_nat n + 4 - 1 = (word_of_nat (n + 3) :: u64)" by simp
  then have "unat (word_of_nat n + 4 - 1 :: u64) = n + 3" using n unat_len [of "n + 3"] by (simp add: add.commute)
  then show ?thesis by (simp add: to_vbytes_ceil_def from_wu_usize_def WITNESS_SCALE_FACTOR_def unat_div)
qed

text \<open>A transaction with one input and no outputs, for the concrete instances below.\<close>

definition sample_tx :: Transaction where
  "sample_tx = \<lparr> tx_version = Version 1, lock_time = Blocks (Height 0),
     tx_input = [\<lparr> previous_output = outpoint_null, script_sig = [], sequence = Sequence 0, witness = witness_new \<rparr>],
     tx_output = [] \<rparr>"

lemma sample_tx_ok: "tx_ok sample_tx"
  by (simp add: tx_ok_def vec_ok_def sample_tx_def txin_ok_def outpoint_ok_def outpoint_null_def bytes_ok_def
      witness_ok_new is_block_height_def LOCK_TIME_THRESHOLD_def)

lemma sample_tx_sizes: "length (core_bytes sample_tx) = 51" "length (serialize enc_Transaction sample_tx) = 51"
  using base_size_core [OF sample_tx_ok]
  by (simp_all add: serialized_length base_size_def sample_tx_def uses_segwit_serialization_def witness_is_empty_def
      witness_new_def txin_base_size_def varint_size_def outpoint_SIZE_def sequence_SIZE_def locktime_SIZE_def)

section \<open>Properties\<close>

text \<open>(C19) Transactions: decoding accepts exactly the serializations of well-formed transactions and returns the
  transaction serialized, in the legacy format and in the segwit format; a transaction has one serialization
  only, including the transaction without inputs, and the count returned by the encoder is its length.\<close>

theorem transaction_bijective:
  "(deserialize dec_Transaction bs = Inr tx \<longleftrightarrow> tx_ok tx \<and> bs = serialize enc_Transaction tx) \<and>
   snd (enc_Transaction tx) = length (serialize enc_Transaction tx)"
  using tx_codec.deserialize_iff [of bs tx] tx_codec.enc_len [of tx] by (simp add: serialize_def)

text \<open>Identifiers: the txid is the double SHA-256 of the serialization without marker, flag and witnesses,
  and so does not depend on the witnesses; the wtxid is that of the full serialization, equal to the txid
  whenever the legacy format is used; the normalized txid does not depend on witnesses or input scripts.\<close>

theorem transaction_ids:
  "compute_txid tx = sha256d_hash (core_bytes tx) \<and>
   compute_wtxid tx = sha256d_hash (serialize enc_Transaction tx) \<and>
   compute_txid (tx\<lparr> tx_input := map (\<lambda>i. i\<lparr> witness := w i \<rparr>) (tx_input tx) \<rparr>) = compute_txid tx \<and>
   compute_ntxid (tx\<lparr> tx_input := map (\<lambda>i. i\<lparr> script_sig := s i, witness := w i \<rparr>) (tx_input tx) \<rparr>) = compute_ntxid tx \<and>
   (if uses_segwit_serialization tx then length (serialize enc_Transaction tx) > length (core_bytes tx)
    else compute_wtxid tx = compute_txid tx)"
proof (intro conjI)
  have "enc_vec enc_TxIn (map (\<lambda>i. i\<lparr> witness := w i \<rparr>) is) = enc_vec enc_TxIn is" for "is"
    by (simp add: enc_vec_def enc_elems_map)
  then show "compute_txid (tx\<lparr> tx_input := map (\<lambda>i. i\<lparr> witness := w i \<rparr>) (tx_input tx) \<rparr>) = compute_txid tx"
    by (simp add: compute_txid_eq core_bytes_def serialize_def)
  show "compute_ntxid (tx\<lparr> tx_input := map (\<lambda>i. i\<lparr> script_sig := s i, witness := w i \<rparr>) (tx_input tx) \<rparr>) = compute_ntxid tx"
    by (simp add: compute_ntxid_def o_def)
  show "if uses_segwit_serialization tx then length (serialize enc_Transaction tx) > length (core_bytes tx)
    else compute_wtxid tx = compute_txid tx"
    by (simp add: compute_wtxid_eq compute_txid_eq serialize_legacy serialized_length)
qed (rule compute_txid_eq compute_wtxid_eq)+

text \<open>Sizes: for a well-formed transaction the computed base size, total size, weight and virtual size are
  those of the actual serializations, also for the transaction without inputs.\<close>

theorem transaction_sizes:
  assumes "tx_ok tx" and "3 * length (core_bytes tx) + length (serialize enc_Transaction tx) < 2 ^ 64 - 4"
  shows "base_size tx = length (core_bytes tx) \<and> total_size tx = Some (length (serialize enc_Transaction tx)) \<and>
    map_option (\<lambda>w. unat (to_wu w)) (tx_weight tx) = Some (3 * length (core_bytes tx) + length (serialize enc_Transaction tx)) \<and>
    vsize tx = Some ((3 * length (core_bytes tx) + length (serialize enc_Transaction tx) + 3) div 4)"
  using assms unat_len [of "3 * length (core_bytes tx) + length (serialize enc_Transaction tx)"]
    vbytes_ceil_nat [OF assms(2)]
  by (simp add: base_size_core total_size_serialized tx_weight_nat vsize_def from_wu_usize_def del: of_nat_add of_nat_mult)

theorem transaction_sizes_witness:
  "base_size sample_tx = 51 \<and> total_size sample_tx = Some 51 \<and> vsize sample_tx = Some 51"
  using transaction_sizes [OF sample_tx_ok] by (simp add: sample_tx_sizes)

text \<open>Weight prediction: the weight predicted from the lengths of scripts and witness elements is the weight
  of the transaction when it has inputs, and is two units short when it has none; the constant-context
  variants compute the same predictions.\<close>

theorem predict_weight_exact:
  assumes "tx_ok tx" and "3 * length (core_bytes tx) + length (serialize enc_Transaction tx) < 2 ^ 64"
  shows "tx_weight tx = Some (weight_add (predict_weight (map prediction_of (tx_input tx)) (script_pubkey_lens tx))
      (Weight (if tx_input tx = [] then 2 else 0))) \<and>
    predict_weight_from_slices ps ls = predict_weight ps ls \<and> prediction_new n ls = prediction_from_slice n ls"
proof (intro conjI)
  show "tx_weight tx = Some (weight_add (predict_weight (map prediction_of (tx_input tx)) (script_pubkey_lens tx))
      (Weight (if tx_input tx = [] then 2 else 0)))"
  proof (cases "tx_input tx = []")
    case False
    then show ?thesis using prediction_exact [OF assms(1) False assms(2)] tx_weight_nat [OF assms(1)]
      by (simp add: weight_add_def)
  next
    case True
    then have "3 * length (core_bytes tx) + length (serialize enc_Transaction tx) = 4 * length (core_bytes tx) + 2"
      by (simp add: serialized_length uses_segwit_serialization_def)
    moreover have "predict_weight [] (script_pubkey_lens tx) = from_wu_usize (4 * length (core_bytes tx))"
      using base_size_core [OF assms(1)] txout_sizes_sum [of "tx_output tx"] True
      by (simp add: predict_weight_def outputs_fold_eq predict_weight_internal_def from_wu_usize_def Let_def base_size_def
          locktime_SIZE_def script_pubkey_lens_def varint_size_def algebra_simps)
    ultimately show ?thesis using tx_weight_nat [OF assms(1)] True
      by (simp add: weight_add_def from_wu_usize_def)
  qed
qed (rule predict_slices_eq prediction_new_eq)+

theorem predict_weight_exact_witness:
  "tx_weight sample_tx = Some (predict_weight (map prediction_of (tx_input sample_tx)) (script_pubkey_lens sample_tx))"
proof -
  have "tx_input sample_tx \<noteq> []" by (simp add: sample_tx_def)
  then show ?thesis
    using predict_weight_exact [OF sample_tx_ok, of "[]" "[]" 0] by (simp add: sample_tx_sizes weight_add_def)
qed

end
