(* ===== verification/MerkleTree.thy ===== *)
theory MerkleTree
  imports Transaction
begin

text \<open>
  Merkle roots, \<open>bitcoin/src/merkle_tree/mod.rs\<close>: the root of a list of hashes computed from an iterator and in
  place on a slice. The recursion on a slice does not return on an empty one, which is the outer value
  \<open>None\<close>. Both are shown equal to the tree whose node at height \<open>k\<close> and position \<open>p\<close> hashes its two children,
  the last node of a level standing in for a missing sibling.
\<close>

section \<open>Definitions\<close>

definition hash_pair :: "bytes \<Rightarrow> bytes \<Rightarrow> bytes" where
  "hash_pair left right =
     sha256d_from_engine (engine_write (enc_array right) (engine_write (enc_array left) engine_default))"

function root_loop :: "nat \<Rightarrow> nat \<Rightarrow> bytes list \<Rightarrow> bytes list" where
  "root_loop idx end_idx hs =
     (if idx < end_idx
      then (let idx1 = 2 * idx; idx2 = min (idx1 + 1) (length hs - 1)
            in root_loop (idx + 1) end_idx (hs[idx := hash_pair (hs ! idx1) (hs ! idx2)]))
      else hs)"
  by pat_completeness auto
termination
  by (relation "measure (\<lambda>(i, e, hs). e - i)") auto

declare root_loop.simps [simp del]

partial_function (option) merkle_root_r :: "bytes list \<Rightarrow> bytes option" where
  "merkle_root_r hs =
     (if length hs = 1 then Some (hs ! 0)
      else (let hs' = root_loop 0 ((length hs + 1) div 2) hs;
                half_len = length hs div 2 + length hs mod 2
            in merkle_root_r (take half_len hs')))"

definition calculate_root_inline :: "bytes list \<Rightarrow> bytes option option" where
  "calculate_root_inline hs =
     (if length hs = 0 then Some None
      else if length hs = 1 then Some (Some (hs ! 0))
      else map_option Some (merkle_root_r hs))"

fun pair_loop :: "bytes list \<Rightarrow> bytes list" where
  "pair_loop [] = []"
| "pair_loop [hash1] = [hash_pair hash1 hash1]"
| "pair_loop (hash1 # hash2 # hs) = hash_pair hash1 hash2 # pair_loop hs"

definition calculate_root :: "bytes list \<Rightarrow> bytes option option" where
  "calculate_root hs =
     (case hs of
        [] \<Rightarrow> Some None
      | [h] \<Rightarrow> Some (Some h)
      | _ \<Rightarrow> map_option Some (merkle_root_r (pair_loop hs)))"

section \<open>The tree of hashes\<close>

text \<open>The node at a height and position, and the number of nodes of a level.\<close>

definition level_width :: "nat \<Rightarrow> nat \<Rightarrow> nat" where
  "level_width n k = (n + (2 ^ k - 1)) div 2 ^ k"

fun node :: "bytes list \<Rightarrow> nat \<Rightarrow> nat \<Rightarrow> bytes" where
  "node hs 0 p = hs ! p"
| "node hs (Suc k) p =
     hash_pair (node hs k (2 * p)) (node hs k (if 2 * p + 1 < level_width (length hs) k then 2 * p + 1 else 2 * p))"

function tree_height :: "nat \<Rightarrow> nat" where
  "tree_height n = (if n \<le> 1 then 0 else Suc (tree_height ((n + 1) div 2)))"
  by pat_completeness auto
termination
  by (relation "measure id") auto

declare tree_height.simps [simp del]

definition merkle_root :: "bytes list \<Rightarrow> bytes" where
  "merkle_root hs = node hs (tree_height (length hs)) 0"

lemma hash_pair_eq: "hash_pair a b = sha256d_hash (a @ b)"
  using sha256d_chunks [of "[a, b]"]
  by (simp add: hash_pair_def engine_write_def enc_array_def emit_slice_def)

lemma length_hash_pair [simp]: "length (hash_pair a b) = 32"
  by (simp add: hash_pair_eq)

lemma level_width_0 [simp]: "level_width n 0 = n"
  by (simp add: level_width_def)

lemma level_width_Suc: "level_width n (Suc k) = (level_width n k + 1) div 2"
proof -
  have e: "n + (2 * 2 ^ k - 1) = (n + (2 ^ k - 1)) + 2 ^ k" by simp
  have "level_width n (Suc k) = ((n + (2 * 2 ^ k - 1)) div 2 ^ k) div 2"
    unfolding level_width_def power_Suc by (metis div_mult2_eq mult.commute)
  also have "(n + (2 * 2 ^ k - 1)) div 2 ^ k = (n + (2 ^ k - 1)) div 2 ^ k + 1"
    unfolding e by (rule div_add_self2) simp
  finally show ?thesis by (simp add: level_width_def)
qed

lemma level_width_pos: "0 < n \<Longrightarrow> 0 < level_width n k"
  by (induction k) (simp_all add: level_width_Suc)

lemma level_width_shift: "level_width n (Suc k) = level_width ((n + 1) div 2) k"
  by (induction k) (simp_all add: level_width_Suc)

lemma tree_height_width: "0 < n \<Longrightarrow> level_width n (tree_height n) = 1"
proof (induction n rule: tree_height.induct)
  case (1 n)
  then show ?case by (cases "n \<le> 1") (auto simp: tree_height.simps [of n] level_width_shift)
qed

lemma tree_height_below: "k < tree_height n \<Longrightarrow> 1 < level_width n k"
proof (induction n arbitrary: k rule: tree_height.induct)
  case (1 n)
  then show ?case
    by (cases k) (auto simp: tree_height.simps [of n] level_width_shift split: if_splits)
qed

lemma tree_height_1 [simp]: "tree_height (Suc 0) = 0"
  by (simp add: tree_height.simps)

section \<open>One level\<close>

lemma length_pair_loop [simp]: "length (pair_loop hs) = (length hs + 1) div 2"
  by (induction hs rule: pair_loop.induct) simp_all

lemma pair_loop_nth:
  "p < (length hs + 1) div 2 \<Longrightarrow>
     pair_loop hs ! p = hash_pair (hs ! (2 * p)) (hs ! (if 2 * p + 1 < length hs then 2 * p + 1 else 2 * p))"
proof (induction hs arbitrary: p rule: pair_loop.induct)
  case (3 a b hs)
  then show ?case by (cases p) simp_all
qed simp_all

abbreviation level :: "bytes list \<Rightarrow> nat \<Rightarrow> bytes list" where
  "level hs k \<equiv> map (node hs k) [0..<level_width (length hs) k]"

lemma level_0: "level hs 0 = hs"
  by (rule nth_equalityI) simp_all

lemma level_Suc: "pair_loop (level hs k) = level hs (Suc k)"
  by (rule nth_equalityI) (auto simp: level_width_Suc pair_loop_nth)

lemma root_loop_eq:
  assumes "k \<le> (length hs + 1) div 2"
  shows "root_loop k ((length hs + 1) div 2) (take k (pair_loop hs) @ drop k hs) = pair_loop hs @ drop ((length hs + 1) div 2) hs"
  using assms
proof (induction "(length hs + 1) div 2 - k" arbitrary: k)
  case 0
  then show ?case by (simp add: root_loop.simps)
next
  case (Suc d)
  let ?n = "length hs" and ?xs = "take k (pair_loop hs) @ drop k hs"
  have k: "k < (?n + 1) div 2" using Suc.hyps(2) by simp
  then have kn: "k < ?n" "2 * k < ?n" by linarith+
  have len: "length ?xs = ?n" using k kn by simp
  have r: "?xs ! j = hs ! j" if "k \<le> j" "j < ?n" for j using that k by (simp add: nth_append)
  have m: "min (2 * k + 1) (?n - 1) = (if 2 * k + 1 < ?n then 2 * k + 1 else 2 * k)" using kn by auto
  have "hash_pair (?xs ! (2 * k)) (?xs ! min (2 * k + 1) (?n - 1)) = pair_loop hs ! k"
    using k kn r [of "2 * k"] r [of "2 * k + 1"] unfolding m by (cases "2 * k + 1 < ?n") (simp_all add: pair_loop_nth)
  moreover have "?xs[k := x] = take k (pair_loop hs) @ x # drop (Suc k) hs" for x
    using k kn by (simp add: list_update_append Cons_nth_drop_Suc [symmetric])
  moreover have "take (Suc k) (pair_loop hs) = take k (pair_loop hs) @ [pair_loop hs ! k]"
    using k by (simp add: take_Suc_conv_app_nth)
  ultimately have "root_loop k ((?n + 1) div 2) ?xs =
      root_loop (Suc k) ((?n + 1) div 2) (take (Suc k) (pair_loop hs) @ drop (Suc k) hs)"
    using k len by (simp add: root_loop.simps [of k] Let_def)
  then show ?case using Suc k by simp
qed

lemma merkle_root_r_step:
  "length hs \<noteq> 1 \<Longrightarrow> merkle_root_r hs = merkle_root_r (pair_loop hs)"
proof -
  assume "length hs \<noteq> 1"
  moreover have "length hs div 2 + length hs mod 2 = (length hs + 1) div 2" by presburger
  ultimately show ?thesis
    using root_loop_eq [of 0 hs] by (subst merkle_root_r.simps) (simp add: Let_def)
qed

lemma merkle_root_r_level:
  assumes "hs \<noteq> []" "k \<le> tree_height (length hs)"
  shows "merkle_root_r (level hs k) = Some (merkle_root hs)"
  using assms(2)
proof (induction "tree_height (length hs) - k" arbitrary: k)
  case 0
  then have "k = tree_height (length hs)" "level_width (length hs) k = 1" using assms(1) tree_height_width by auto
  then show ?case by (subst merkle_root_r.simps) (simp add: merkle_root_def)
next
  case (Suc d)
  then have "1 < level_width (length hs) k" by (intro tree_height_below) simp
  then have "merkle_root_r (level hs k) = merkle_root_r (level hs (Suc k))"
    using merkle_root_r_step [of "level hs k"] by (simp add: level_Suc del: upt_Suc)
  then show ?case using Suc by simp
qed

lemma pair_loop_repeat: "odd (length hs) \<Longrightarrow> pair_loop (hs @ [last hs]) = pair_loop hs"
  by (induction hs rule: pair_loop.induct) auto

lemma merkle_root_total:
  "calculate_root hs = Some (if hs = [] then None else Some (merkle_root hs)) \<and>
   calculate_root_inline hs = Some (if hs = [] then None else Some (merkle_root hs))"
proof (cases "length hs \<le> 1")
  case True
  then consider "hs = []" | h where "hs = [h]" by (cases hs) auto
  then show ?thesis by cases (simp_all add: calculate_root_def calculate_root_inline_def merkle_root_def)
next
  case False
  then have ne: "hs \<noteq> []" by auto
  have "merkle_root_r hs = Some (merkle_root hs)" using merkle_root_r_level [OF ne, of 0] by (simp only: level_0)
  moreover from this have "merkle_root_r (pair_loop hs) = Some (merkle_root hs)"
    using merkle_root_r_step [of hs] False by simp
  ultimately show ?thesis using False ne
    by (auto simp: calculate_root_def calculate_root_inline_def split: list.split)
qed

section \<open>Collisions\<close>

text \<open>Two computations exhibit a collision if a string hashed by the one and a different string hashed by the other
  have the same double hash. Collisions exist, so the point is that these are read off the two computations.\<close>

definition exhibit_collision :: "bytes list \<Rightarrow> bytes list \<Rightarrow> bool" where
  "exhibit_collision xs ys \<longleftrightarrow> list_ex (\<lambda>x. list_ex (\<lambda>y. x \<noteq> y \<and> sha256d_hash x = sha256d_hash y) ys) xs"

lemma exhibit_Cons: "exhibit_collision xs ys \<Longrightarrow> exhibit_collision (x # xs) (y # ys)"
  by (auto simp: exhibit_collision_def list_ex_iff)

lemma hash_pair_inj:
  assumes "hash_pair a b = hash_pair c d" "length a = 32" "length c = 32"
  shows "(a = c \<and> b = d) \<or> exhibit_collision ((a @ b) # xs) ((c @ d) # ys)"
  using assms by (auto simp: exhibit_collision_def hash_pair_eq)

section \<open>Properties\<close>

text \<open>(C33) Both merkle root functions return, on every list of hashes, nothing for the empty list and otherwise
  the root of the tree of hashes; the in-place computation never reads a cell it has overwritten.\<close>

theorem merkle_root_refinement:
  "calculate_root hs = Some (if hs = [] then None else Some (merkle_root hs)) \<and>
   calculate_root_inline hs = Some (if hs = [] then None else Some (merkle_root hs))"
  by (rule merkle_root_total)

text \<open>The root does not determine the list: repeating the last hash of an odd list of at least three leaves
  the root unchanged, so a block with a duplicated last transaction has the root of the original.\<close>

theorem merkle_root_repeat_last:
  assumes "odd (length hs)" and "1 < length hs"
  shows "calculate_root (hs @ [last hs]) = calculate_root hs"
proof -
  obtain a b r where hs: "hs = a # b # r" using assms(2) by (cases hs; cases "tl hs") auto
  then have "calculate_root (hs @ [last hs]) = map_option Some (merkle_root_r (pair_loop (hs @ [last hs])))"
    by (simp add: calculate_root_def)
  also have "\<dots> = calculate_root hs" unfolding pair_loop_repeat [OF assms(1)] by (simp add: calculate_root_def hs)
  finally show ?thesis .
qed

theorem merkle_root_repeat_last_witness: "calculate_root [[1], [2], [3], [3]] = calculate_root [[1], [2], [3]]"
  using merkle_root_repeat_last [of "[[1], [2], [3]]"] by simp

end
