(* ===== verification/Block.thy ===== *)
theory Block
  imports MerkleTree Retarget
begin

text \<open>
  Blocks and block headers, \<open>bitcoin/src/blockdata/block.rs\<close>, the header methods that the Dogecoin module adds in
  \<open>bitcoin/src/dogecoin/mod.rs\<close>, and the retargeting entry points of \<open>bitcoin/src/pow.rs\<close> that take headers. The
  scrypt function comes from another package: it is the argument \<open>scrypt\<close> of the definitions that use it, with
  password, salt, cost parameters and output length. An \<open>i32\<close> is its 32-bit word, read by \<open>sint\<close>. A panic
  is \<open>None\<close>.
\<close>

unbundle bit_operations_syntax

type_synonym i32 = "32 word"

section \<open>Header\<close>

datatype BlockVersion = BlockVersion (bversion_0: i32)

definition bversion_ONE :: BlockVersion where "bversion_ONE = BlockVersion 1"
definition bversion_TWO :: BlockVersion where "bversion_TWO = BlockVersion 2"
definition USE_VERSION_BITS :: u32 where "USE_VERSION_BITS = 0x20000000"
definition VERSION_BITS_MASK :: u32 where "VERSION_BITS_MASK = 0x1FFFFFFF"
definition NO_SOFT_FORK_SIGNALLING :: BlockVersion where "NO_SOFT_FORK_SIGNALLING = BlockVersion USE_VERSION_BITS"

definition bversion_to_consensus :: "BlockVersion \<Rightarrow> int" where "bversion_to_consensus v = sint (bversion_0 v)"

definition is_signalling_soft_fork :: "BlockVersion \<Rightarrow> u8 \<Rightarrow> bool" where
  "is_signalling_soft_fork v b \<longleftrightarrow>
     (if b > 28 then False
      else if bversion_0 v AND NOT VERSION_BITS_MASK \<noteq> USE_VERSION_BITS then False
      else (bversion_0 v AND VERSION_BITS_MASK) AND push_bit (unat b) 1 > 0)"

record Header =
  hdr_version :: BlockVersion
  prev_blockhash :: bytes
  hdr_merkle_root :: bytes
  hdr_time :: u32
  hdr_bits :: CompactTarget
  hdr_nonce :: u32

definition header_SIZE :: nat where "header_SIZE = 4 + 32 + 32 + 4 + 4 + 4"

definition enc_BlockVersion :: "BlockVersion encoder" where "enc_BlockVersion v = encode_int (bversion_0 v)"
definition dec_BlockVersion :: "BlockVersion decoder" where
  "dec_BlockVersion = dbind decode_int (\<lambda>n. dret (BlockVersion n))"

definition enc_CompactTarget :: "CompactTarget encoder" where "enc_CompactTarget c = encode_int (compact_0 c)"
definition dec_CompactTarget :: "CompactTarget decoder" where
  "dec_CompactTarget = dbind decode_int (\<lambda>n. dret (CompactTarget n))"

definition enc_Header :: "Header encoder" where
  "enc_Header h =
     ecat (enc_BlockVersion (hdr_version h)) (ecat (enc_array (prev_blockhash h)) (ecat (enc_array (hdr_merkle_root h))
       (ecat (encode_int (hdr_time h)) (ecat (enc_CompactTarget (hdr_bits h)) (encode_int (hdr_nonce h))))))"

definition dec_Header :: "Header decoder" where
  "dec_Header =
     dbind dec_BlockVersion (\<lambda>v. dbind (dec_array 32) (\<lambda>p. dbind (dec_array 32) (\<lambda>m.
       dbind decode_int (\<lambda>t. dbind dec_CompactTarget (\<lambda>b. dbind decode_int (\<lambda>n.
         dret \<lparr> hdr_version = v, prev_blockhash = p, hdr_merkle_root = m, hdr_time = t, hdr_bits = b, hdr_nonce = n \<rparr>))))))"

definition block_hash :: "Header \<Rightarrow> bytes" where
  "block_hash h = sha256d_from_engine (engine_write (enc_Header h) engine_default)"

type_synonym scrypt_fn = "bytes \<Rightarrow> bytes \<Rightarrow> nat \<Rightarrow> nat \<Rightarrow> nat \<Rightarrow> nat \<Rightarrow> bytes"

definition block_hash_with_scrypt :: "scrypt_fn \<Rightarrow> Header \<Rightarrow> bytes" where
  "block_hash_with_scrypt scrypt h = (let buf = fst (enc_Header h) in scrypt buf buf 10 1 1 32)"

definition hdr_target :: "Header \<Rightarrow> Target" where "hdr_target h = from_compact (hdr_bits h)"
definition hdr_difficulty :: "Header \<Rightarrow> BtcParams \<Rightarrow> u128 option" where
  "hdr_difficulty h p = difficulty (hdr_target h) p"
definition hdr_work :: "Header \<Rightarrow> Work option" where "hdr_work h = to_work (hdr_target h)"

datatype ValidationError = BadProofOfWork | BadTarget

definition validate_pow :: "Header \<Rightarrow> Target \<Rightarrow> ValidationError + bytes" where
  "validate_pow h required_target =
     (let target = hdr_target h
      in if target \<noteq> required_target then Inl BadTarget
         else let bh = block_hash h in if is_met_by target bh then Inr bh else Inl BadProofOfWork)"

definition validate_pow_with_scrypt :: "scrypt_fn \<Rightarrow> Header \<Rightarrow> Target \<Rightarrow> ValidationError + bytes" where
  "validate_pow_with_scrypt scrypt h required_target =
     (let target = hdr_target h
      in if target \<noteq> required_target then Inl BadTarget
         else let bh = block_hash_with_scrypt scrypt h in if is_met_by target bh then Inr bh else Inl BadProofOfWork)"

section \<open>Dogecoin methods of a header\<close>

definition VERSION_AUXPOW :: i32 where "VERSION_AUXPOW = push_bit 8 1"

definition has_auxpow_bit :: "Header \<Rightarrow> bool" where
  "has_auxpow_bit h \<longleftrightarrow> bversion_0 (hdr_version h) AND VERSION_AUXPOW \<noteq> 0"

definition extract_chain_id :: "Header \<Rightarrow> int" where
  "extract_chain_id h = drop_bit 16 (bversion_to_consensus (hdr_version h))"

definition is_legacy :: "Header \<Rightarrow> bool" where
  "is_legacy h \<longleftrightarrow> hdr_version h = bversion_ONE \<or> (hdr_version h = bversion_TWO \<and> extract_chain_id h = 0)"

text \<open>The remainder of truncating division, as \<open>%\<close> on signed integers.\<close>

definition trunc_rem :: "int \<Rightarrow> int \<Rightarrow> int" where "trunc_rem a b = sgn a * (\<bar>a\<bar> mod \<bar>b\<bar>)"

definition extract_base_version :: "Header \<Rightarrow> int" where
  "extract_base_version h = trunc_rem (bversion_to_consensus (hdr_version h)) (sint VERSION_AUXPOW)"

section \<open>Retargeting from headers\<close>

definition from_header_difficulty_adjustment :: "bool \<Rightarrow> bool \<Rightarrow> Header \<Rightarrow> Header \<Rightarrow> BtcParams \<Rightarrow> CompactTarget option" where
  "from_header_difficulty_adjustment oc da last_epoch_boundary current p =
     (if oc \<and> hdr_time current < hdr_time last_epoch_boundary then None
      else (let timespan = hdr_time current - hdr_time last_epoch_boundary; bits = hdr_bits current
            in from_next_work_required da bits (ucast timespan) p))"

section \<open>Block\<close>

record Block =
  blk_header :: Header
  txdata :: "Transaction list"

definition enc_Block :: "Block encoder" where
  "enc_Block b = ecat (enc_Header (blk_header b)) (enc_vec enc_Transaction (txdata b))"

definition dec_Block :: "Block decoder" where
  "dec_Block = dbind dec_Header (\<lambda>h. dbind (dec_vec dec_Transaction) (\<lambda>txs. dret \<lparr> blk_header = h, txdata = txs \<rparr>))"

definition blk_compute_merkle_root :: "Block \<Rightarrow> bytes option option" where
  "blk_compute_merkle_root b = calculate_root (map compute_txid (txdata b))"

definition check_merkle_root :: "Block \<Rightarrow> bool option" where
  "check_merkle_root b =
     map_option (\<lambda>r. case r of Some root \<Rightarrow> hdr_merkle_root (blk_header b) = root | None \<Rightarrow> False)
       (blk_compute_merkle_root b)"

definition witness_root :: "Block \<Rightarrow> bytes option option" where
  "witness_root b =
     calculate_root (map (\<lambda>(i, t). if i = 0 then replicate 32 0 else compute_wtxid t) (enumerate 0 (txdata b)))"

definition compute_witness_commitment :: "bytes \<Rightarrow> bytes \<Rightarrow> bytes" where
  "compute_witness_commitment wroot witness_reserved_value =
     sha256d_from_engine (input (engine_write (enc_array wroot) engine_default) witness_reserved_value)"

definition WITNESS_MAGIC :: bytes where "WITNESS_MAGIC = [0x6a, 0x24, 0xaa, 0x21, 0xa9, 0xed]"

fun rposition :: "('a \<Rightarrow> bool) \<Rightarrow> 'a list \<Rightarrow> nat option" where
  "rposition P [] = None"
| "rposition P (x # xs) = (case rposition P xs of Some i \<Rightarrow> Some (Suc i) | None \<Rightarrow> if P x then Some 0 else None)"

definition is_commitment :: "TxOut \<Rightarrow> bool" where
  "is_commitment out \<longleftrightarrow> length (script_pubkey out) \<ge> 38 \<and> take 6 (script_pubkey out) = WITNESS_MAGIC"

definition check_witness_commitment :: "Block \<Rightarrow> bool option" where
  "check_witness_commitment b =
     (if list_all (\<lambda>t. list_all (\<lambda>i. witness_is_empty (witness i)) (tx_input t)) (txdata b) then Some True
      else if txdata b = [] then Some False
      else (let cb = txdata b ! 0
            in if \<not> is_coinbase cb then Some False
               else (case rposition is_commitment (tx_output cb) of
                 None \<Rightarrow> Some False
               | Some p \<Rightarrow>
                   (let commitment = take 32 (drop 6 (script_pubkey (tx_output cb ! p)))
                    in (case to_vec (witness (tx_input cb ! 0)) of
                         None \<Rightarrow> None
                       | Some witness_vec \<Rightarrow>
                           if length witness_vec = 1 \<and> length (witness_vec ! 0) = 32
                           then map_option (\<lambda>r. case r of
                                  Some wroot \<Rightarrow> commitment = compute_witness_commitment wroot (witness_vec ! 0)
                                | None \<Rightarrow> False) (witness_root b)
                           else Some False)))))"

definition blk_base_size :: "Block \<Rightarrow> nat" where
  "blk_base_size b = header_SIZE + varint_size (varint_of_len (length (txdata b))) + sum_list (map base_size (txdata b))"

definition blk_total_size :: "Block \<Rightarrow> nat option" where
  "blk_total_size b =
     map_option (\<lambda>n. header_SIZE + varint_size (varint_of_len (length (txdata b))) + n) (sum_sizes (map total_size (txdata b)))"

definition blk_weight :: "Block \<Rightarrow> Weight option" where
  "blk_weight b = map_option (\<lambda>n. from_wu_usize (blk_base_size b * 3 + n)) (blk_total_size b)"

definition coinbase :: "Block \<Rightarrow> Transaction option" where
  "coinbase b = (case txdata b of [] \<Rightarrow> None | t # _ \<Rightarrow> Some t)"

section \<open>Codecs\<close>

interpretation bversion_codec: codec enc_BlockVersion dec_BlockVersion "\<lambda>_. True"
  by unfold_locales
    (auto simp: enc_BlockVersion_def dec_BlockVersion_def dbind_Inr_iff u32_codec.enc_len u32_codec.dec_enc
      dest!: u32_codec.canonical)

interpretation compact_codec: codec enc_CompactTarget dec_CompactTarget "\<lambda>_. True"
  by unfold_locales
    (auto simp: enc_CompactTarget_def dec_CompactTarget_def dbind_Inr_iff u32_codec.enc_len u32_codec.dec_enc
      dest!: u32_codec.canonical)

definition header_ok :: "Header \<Rightarrow> bool" where
  "header_ok h \<longleftrightarrow> length (prev_blockhash h) = 32 \<and> length (hdr_merkle_root h) = 32"

interpretation header_codec: codec enc_Header dec_Header header_ok
  by unfold_locales
    (auto simp: enc_Header_def dec_Header_def header_ok_def dbind_Inr_iff bversion_codec.enc_len bversion_codec.dec_enc
      array32_codec.enc_len array32_codec.dec_enc u32_codec.enc_len u32_codec.dec_enc compact_codec.enc_len
      compact_codec.dec_enc
      dest!: bversion_codec.canonical array32_codec.canonical u32_codec.canonical compact_codec.canonical)

lemma length_enc_Header: "header_ok h \<Longrightarrow> length (fst (enc_Header h)) = header_SIZE"
  by (simp add: enc_Header_def header_ok_def enc_BlockVersion_def enc_CompactTarget_def encode_int_def enc_array_def
      emit_slice_def header_SIZE_def)

definition block_ok :: "Block \<Rightarrow> bool" where
  "block_ok b \<longleftrightarrow> header_ok (blk_header b) \<and> vec_ok tx_ok (txdata b)"

interpretation block_codec: codec enc_Block dec_Block block_ok
  by unfold_locales
    (auto simp: enc_Block_def dec_Block_def block_ok_def dbind_Inr_iff header_codec.enc_len header_codec.dec_enc
      txs_codec.enc_len txs_codec.dec_enc
      dest!: header_codec.canonical txs_codec.canonical)

lemma block_hash_eq: "block_hash h = sha256d_hash (serialize enc_Header h)"
  by (simp add: block_hash_def engine_write_def sha256d_hash_def serialize_def)

lemma length_block_hash [simp]: "length (block_hash h) = 32"
  by (simp add: block_hash_eq)

section \<open>Sizes, roots and commitments\<close>

lemma calculate_root_eq: "calculate_root hs = Some (if hs = [] then None else Some (merkle_root hs))"
  by (simp add: merkle_root_total)

lemma blk_sizes_sum:
  "list_all tx_ok txs \<Longrightarrow> sum_sizes (map total_size txs) = Some (sum_list (map (\<lambda>t. length (fst (enc_Transaction t))) txs))"
  by (induction txs) (simp_all add: total_size_serialized serialize_def)

lemma blk_total_size_eq:
  "block_ok b \<Longrightarrow> blk_total_size b = Some (length (serialize enc_Block b))"
  by (simp add: blk_total_size_def block_ok_def vec_ok_def blk_sizes_sum serialize_def enc_Block_def length_enc_Header
      length_enc_vec)

lemma compute_witness_commitment_eq: "compute_witness_commitment r v = sha256d_hash (r @ v)"
  using sha256d_chunks [of "[r, v]"]
  by (simp add: compute_witness_commitment_def engine_write_def enc_array_def emit_slice_def)

lemma dec_Header_total: "length bs = 80 \<Longrightarrow> \<exists>h. dec_Header bs = Inr (h, [])"
  by (simp add: dec_Header_def dec_BlockVersion_def dec_CompactTarget_def dbind_def decode_int_def read_slice_def
      dec_array_def dret_def)

lemma rposition_None: "rposition P xs = None \<longleftrightarrow> (\<forall>x\<in>set xs. \<not> P x)"
  by (induction xs) (auto split: option.splits)

lemma rposition_split:
  "rposition P xs = Some i \<Longrightarrow> \<exists>pre post. xs = pre @ xs ! i # post \<and> P (xs ! i) \<and> (\<forall>x\<in>set post. \<not> P x)"
proof (induction xs arbitrary: i)
  case (Cons x xs)
  show ?case
  proof (cases "rposition P xs")
    case None
    then have "i = 0" "P x" "\<forall>x\<in>set xs. \<not> P x" using Cons.prems rposition_None [of P xs] by (auto split: if_splits)
    then show ?thesis by (intro exI [of _ "[]"] exI [of _ xs]) simp
  next
    case (Some j)
    then obtain pre post where "xs = pre @ xs ! j # post" "P (xs ! j)" "\<forall>x\<in>set post. \<not> P x"
      using Cons.IH by blast
    moreover have "i = Suc j" using Some Cons.prems by simp
    ultimately show ?thesis by (intro exI [of _ "x # pre"] exI [of _ post]) simp
  qed
qed simp

lemma rposition_last: "P x \<Longrightarrow> \<forall>y\<in>set post. \<not> P y \<Longrightarrow> rposition P (pre @ x # post) = Some (length pre)"
  using rposition_None [of P post] by (induction pre) auto

lemma last_commitment:
  "rposition is_commitment outs = Some p \<and> x = outs ! p \<longleftrightarrow>
     (\<exists>pre post. outs = pre @ x # post \<and> length pre = p \<and> is_commitment x \<and> \<not> list_ex is_commitment post)" for p
proof
  assume a: "rposition is_commitment outs = Some p \<and> x = outs ! p"
  then obtain pre post where p: "outs = pre @ x # post" "is_commitment x" "\<forall>y\<in>set post. \<not> is_commitment y"
    using rposition_split by metis
  moreover have "length pre = p" using a rposition_last [of is_commitment x post pre] p by simp
  ultimately show "\<exists>pre post. outs = pre @ x # post \<and> length pre = p \<and> is_commitment x \<and> \<not> list_ex is_commitment post"
    by (auto simp: list_ex_iff)
next
  assume "\<exists>pre post. outs = pre @ x # post \<and> length pre = p \<and> is_commitment x \<and> \<not> list_ex is_commitment post"
  then show "rposition is_commitment outs = Some p \<and> x = outs ! p"
    by (auto simp: list_ex_iff intro!: rposition_last)
qed

lemma witness_root_eq:
  "txdata b = t # ts \<Longrightarrow> witness_root b = Some (Some (merkle_root (replicate 32 0 # map compute_wtxid ts)))"
proof -
  assume t: "txdata b = t # ts"
  have "map (\<lambda>(i, t). if i = 0 then replicate 32 0 else compute_wtxid t) (enumerate (Suc k) xs) = map compute_wtxid xs" for k xs
    by (induction xs arbitrary: k) simp_all
  then show ?thesis using t by (simp add: witness_root_def calculate_root_eq)
qed

lemma coinbase_witness:
  assumes "block_ok b" "txdata b = cb # ts" "is_coinbase cb"
  obtains xs where "witness (tx_input cb ! 0) = witness_of xs" "to_vec (witness (tx_input cb ! 0)) = Some xs"
proof -
  have "tx_input cb ! 0 \<in> set (tx_input cb)" using assms(3) by (auto simp: is_coinbase_def)
  then have "witness_ok (witness (tx_input cb ! 0))"
    using assms(1,2) by (auto simp: block_ok_def vec_ok_def tx_ok_def list_all_iff txin_ok_def)
  then obtain xs where "witness (tx_input cb ! 0) = witness_of xs" "elems_ok xs" using witness_ok_elems by blast
  then show ?thesis using that to_vec_of by simp
qed

definition commits_to_witnesses :: "Block \<Rightarrow> bool" where
  "commits_to_witnesses b \<longleftrightarrow>
     (\<exists>cb ts pre out post rv. txdata b = cb # ts \<and> is_coinbase cb \<and>
        tx_output cb = pre @ out # post \<and> is_commitment out \<and> \<not> list_ex is_commitment post \<and>
        to_vec (witness (tx_input cb ! 0)) = Some [rv] \<and> length rv = 32 \<and>
        take 32 (drop 6 (script_pubkey out)) = sha256d_hash (merkle_root (replicate 32 0 # map compute_wtxid ts) @ rv))"

lemma witness_commitment_eq:
  assumes ok: "block_ok b" and w: "\<not> list_all (\<lambda>t. list_all (\<lambda>i. witness_is_empty (witness i)) (tx_input t)) (txdata b)"
  shows "check_witness_commitment b = Some (commits_to_witnesses b)"
proof -
  obtain cb ts where t: "txdata b = cb # ts" using w by (cases "txdata b") auto
  show ?thesis
  proof (cases "is_coinbase cb")
    case False
    then show ?thesis using w t by (simp add: check_witness_commitment_def commits_to_witnesses_def)
  next
    case True
    obtain xs where xs: "to_vec (witness (tx_input cb ! 0)) = Some xs" using coinbase_witness [OF ok t True] by metis
    show ?thesis
    proof (cases "rposition is_commitment (tx_output cb)")
      case None
      then have "\<nexists>pre out post. tx_output cb = pre @ out # post \<and> is_commitment out" by (auto simp: rposition_None)
      then show ?thesis using None True w t by (auto simp: check_witness_commitment_def commits_to_witnesses_def)
    next
      case (Some p)
      let ?x = "tx_output cb ! p"
      have "commits_to_witnesses b \<longleftrightarrow> (\<exists>rv. xs = [rv] \<and> length rv = 32 \<and>
          take 32 (drop 6 (script_pubkey ?x)) = sha256d_hash (merkle_root (replicate 32 0 # map compute_wtxid ts) @ rv))"
        (is "_ \<longleftrightarrow> ?rhs")
      proof
        assume "commits_to_witnesses b"
        then obtain pre out post rv where c: "tx_output cb = pre @ out # post" "is_commitment out" "\<not> list_ex is_commitment post"
          "xs = [rv]" "length rv = 32"
          "take 32 (drop 6 (script_pubkey out)) = sha256d_hash (merkle_root (replicate 32 0 # map compute_wtxid ts) @ rv)"
          using t xs by (auto simp: commits_to_witnesses_def)
        then have "out = ?x" using last_commitment [of "tx_output cb" "length pre" out] Some by auto
        then show ?rhs using c by auto
      next
        assume ?rhs
        then show "commits_to_witnesses b"
          using last_commitment [of "tx_output cb" p ?x] Some True t xs unfolding commits_to_witnesses_def by blast
      qed
      then show ?thesis
        using Some True w t xs witness_root_eq [OF t]
        by (auto simp: check_witness_commitment_def compute_witness_commitment_eq length_Suc_conv)
    qed
  qed
qed

definition stripped_size :: "Block \<Rightarrow> nat" where
  "stripped_size b = length (serialize enc_Header (blk_header b)) + varint_size (varint_of_len (length (txdata b)))
     + sum_list (map (\<lambda>t. length (core_bytes t)) (txdata b))"

lemma blk_base_size_eq:
  assumes "block_ok b"
  shows "blk_base_size b = stripped_size b"
proof -
  have "sum_list (map base_size (txdata b)) = sum_list (map (\<lambda>t. length (core_bytes t)) (txdata b))"
    using assms by (intro arg_cong [of _ _ sum_list] map_cong) (auto simp: block_ok_def vec_ok_def list_all_iff base_size_core)
  then show ?thesis
    using assms by (simp add: blk_base_size_def stripped_size_def serialize_def length_enc_Header block_ok_def)
qed

lemma le_nat_zeros [simp]: "le_nat (replicate n 0) = 0"
  by (induction n) simp_all

lemma target_met_nat: "length h = 32 \<Longrightarrow> is_met_by t h \<longleftrightarrow> le_nat h \<le> target_val t"
  by (simp add: is_met_by_def u256_from_le_bytes_val flip: val_le_iff)

lemma length_compute_txid: "length (compute_txid tx) = 32"
  by (simp add: compute_txid_eq)

definition sample_block :: Block where
  "sample_block = \<lparr> blk_header = \<lparr> hdr_version = BlockVersion 1, prev_blockhash = replicate 32 0,
     hdr_merkle_root = merkle_root [compute_txid sample_tx], hdr_time = 0, hdr_bits = CompactTarget 0x1e0ffff0,
     hdr_nonce = 0 \<rparr>, txdata = [sample_tx] \<rparr>"

section \<open>Properties\<close>

text \<open>Headers and blocks: exactly the strings of 80 bytes are headers, each of one header; a string decodes to a
  block exactly when it is the serialization of that block.\<close>

theorem block_bijective:
  "(deserialize dec_Header hs = Inr h \<longleftrightarrow> header_ok h \<and> hs = serialize enc_Header h) \<and>
   ((\<exists>h'. deserialize dec_Header hs = Inr h') \<longleftrightarrow> length hs = 80) \<and>
   (deserialize dec_Block bs = Inr b \<longleftrightarrow> block_ok b \<and> bs = serialize enc_Block b)"
proof -
  have "\<exists>h'. deserialize dec_Header hs = Inr h'" if "length hs = 80"
    using dec_Header_total [OF that] by (auto simp: deserialize_def deserialize_partial_def)
  moreover have "length hs = 80" if "header_ok h'" "hs = serialize enc_Header h'" for h'
    using that length_enc_Header [of h'] by (simp add: serialize_def header_SIZE_def)
  ultimately show ?thesis by (auto simp: header_codec.deserialize_iff block_codec.deserialize_iff)
qed

text \<open>(C3) Proof of work: validation returns the hash exactly when the header's target is the required one and the
  hash, read as a little-endian number, does not exceed it; a wrong target is reported before the hash is
  looked at. The same holds with any scrypt function that fills its 32-byte output.\<close>

theorem validate_pow_exact:
  assumes scrypt_len: "\<And>p s. length (scrypt p s 10 1 1 32) = 32"
  shows "validate_pow h req =
      (if hdr_target h \<noteq> req then Inl BadTarget
       else if le_nat (sha256d_hash (serialize enc_Header h)) \<le> target_val req then Inr (sha256d_hash (serialize enc_Header h))
       else Inl BadProofOfWork) \<and>
    validate_pow_with_scrypt scrypt h req =
      (if hdr_target h \<noteq> req then Inl BadTarget
       else let bh = scrypt (serialize enc_Header h) (serialize enc_Header h) 10 1 1 32
            in if le_nat bh \<le> target_val req then Inr bh else Inl BadProofOfWork)"
  using target_met_nat [of "block_hash h"] target_met_nat [of "block_hash_with_scrypt scrypt h"] scrypt_len
  by (simp add: validate_pow_def validate_pow_with_scrypt_def block_hash_eq block_hash_with_scrypt_def serialize_def Let_def)

theorem validate_pow_exact_witness:
  "validate_pow_with_scrypt (\<lambda>p s n r q l. replicate l 0)
     \<lparr> hdr_version = BlockVersion 1, prev_blockhash = replicate 32 0, hdr_merkle_root = replicate 32 0, hdr_time = 0,
       hdr_bits = CompactTarget 0x1e0ffff0, hdr_nonce = 0 \<rparr> (from_compact (CompactTarget 0x1e0ffff0)) = Inr (replicate 32 0)"
  using validate_pow_exact [of "\<lambda>p s n r q l. replicate l 0"
      "\<lparr> hdr_version = BlockVersion 1, prev_blockhash = replicate 32 0, hdr_merkle_root = replicate 32 0, hdr_time = 0,
       hdr_bits = CompactTarget 0x1e0ffff0, hdr_nonce = 0 \<rparr>" "from_compact (CompactTarget 0x1e0ffff0)"]
  by (simp add: hdr_target_def Let_def)

text \<open>The contents of a block: the merkle check always returns, and accepts exactly a non-empty list of
  transactions whose root the header carries; for a block with witness data the commitment check returns and
  accepts exactly when the last commitment output of a coinbase transaction holds the hash of the witness
  root and the reserved value; sizes and weight are those of the serialization.\<close>

theorem block_commitments:
  assumes "block_ok b"
  shows "check_merkle_root b = Some (txdata b \<noteq> [] \<and> hdr_merkle_root (blk_header b) = merkle_root (map compute_txid (txdata b))) \<and>
    check_witness_commitment b =
      Some (list_all (\<lambda>t. list_all (\<lambda>i. witness_is_empty (witness i)) (tx_input t)) (txdata b) \<or> commits_to_witnesses b) \<and>
    blk_total_size b = Some (length (serialize enc_Block b)) \<and>
    blk_weight b = Some (from_wu_usize (stripped_size b * 3 + length (serialize enc_Block b)))"
proof (intro conjI)
  show "check_merkle_root b = Some (txdata b \<noteq> [] \<and> hdr_merkle_root (blk_header b) = merkle_root (map compute_txid (txdata b)))"
    by (simp add: check_merkle_root_def blk_compute_merkle_root_def calculate_root_eq)
  show "check_witness_commitment b =
      Some (list_all (\<lambda>t. list_all (\<lambda>i. witness_is_empty (witness i)) (tx_input t)) (txdata b) \<or> commits_to_witnesses b)"
    using witness_commitment_eq [OF assms]
    by (cases "list_all (\<lambda>t. list_all (\<lambda>i. witness_is_empty (witness i)) (tx_input t)) (txdata b)")
      (simp_all add: check_witness_commitment_def)
  show "blk_total_size b = Some (length (serialize enc_Block b))" by (rule blk_total_size_eq [OF assms])
  then show "blk_weight b = Some (from_wu_usize (stripped_size b * 3 + length (serialize enc_Block b)))"
    by (simp add: blk_weight_def blk_base_size_eq [OF assms])
qed

theorem block_commitments_witness: "check_merkle_root sample_block = Some True"
proof -
  have "block_ok sample_block"
    using sample_tx_ok by (simp add: block_ok_def sample_block_def header_ok_def vec_ok_def merkle_root_def length_compute_txid)
  then show ?thesis using block_commitments [of sample_block] by (simp add: sample_block_def)
qed

end
