(* ===== verification/AuxPow.thy ===== *)
theory AuxPow
  imports Block
begin

text \<open>
  Auxiliary proof of work, \<open>bitcoin/src/dogecoin/auxpow.rs\<close>: the data of a merged-mined block, merkle branches,
  the search for the merged-mining data in the parent's coinbase script, and the check as a whole. The
  flag \<open>oc\<close> stands for the overflow checks of the build: set, a shift by 32 or more panics (\<open>None\<close>); clear, its
  amount is reduced modulo 32.
\<close>

unbundle bit_operations_syntax

section \<open>Data\<close>

definition MERGED_MINING_HEADER :: bytes where "MERGED_MINING_HEADER = [0xfa, 0xbe, 0x6d, 0x6d]"

datatype AuxPowCoinbaseScriptValidationError =
    MissingMerkleRoot
  | MultipleHeaders
  | HeaderNotAdjacent
  | LegacyRootTooFar
  | MissingMerkleSizeAndNonce
  | MerkleSizeMismatch
  | InvalidChainIndex

datatype AuxPowValidationError =
    AuxPowNotFromCoinbase
  | ParentHasSameChainId
  | ChainMerkleBranchTooLong
  | InvalidCoinbaseMerkleProof
  | CoinbaseHasNoInputs
  | InvalidAuxPowCoinbaseScript AuxPowCoinbaseScriptValidationError

record AuxPow =
  coinbase_tx :: Transaction
  aux_parent_hash :: bytes
  coinbase_branch :: "bytes list"
  coinbase_index :: i32
  blockchain_branch :: "bytes list"
  blockchain_index :: i32
  parent_block_header :: Header

definition enc_AuxPow :: "AuxPow encoder" where
  "enc_AuxPow a =
     ecat (enc_Transaction (coinbase_tx a)) (ecat (enc_array (aux_parent_hash a))
       (ecat (enc_vec enc_array (coinbase_branch a)) (ecat (encode_int (coinbase_index a))
         (ecat (enc_vec enc_array (blockchain_branch a)) (ecat (encode_int (blockchain_index a))
           (enc_Header (parent_block_header a)))))))"

definition dec_AuxPow :: "AuxPow decoder" where
  "dec_AuxPow =
     dbind dec_Transaction (\<lambda>tx. dbind (dec_array 32) (\<lambda>ph. dbind (dec_vec (dec_array 32)) (\<lambda>cb. dbind decode_int (\<lambda>ci.
       dbind (dec_vec (dec_array 32)) (\<lambda>bb. dbind decode_int (\<lambda>bi. dbind dec_Header (\<lambda>h.
         dret \<lparr> coinbase_tx = tx, aux_parent_hash = ph, coinbase_branch = cb, coinbase_index = ci, blockchain_branch = bb,
           blockchain_index = bi, parent_block_header = h \<rparr>)))))))"

section \<open>Merkle branches\<close>

definition aux_node :: "bytes \<Rightarrow> bytes \<Rightarrow> bytes" where
  "aux_node left right =
     sha256d_from_engine (engine_write (enc_array right) (engine_write (enc_array left) engine_default))"

fun merkle_branch_loop :: "bytes \<Rightarrow> bytes list \<Rightarrow> i32 \<Rightarrow> bytes" where
  "merkle_branch_loop result_hash [] index = result_hash"
| "merkle_branch_loop result_hash (branch_hash # branch) index =
     merkle_branch_loop
       (if index AND 1 = 1 then aux_node branch_hash result_hash else aux_node result_hash branch_hash)
       branch (signed_drop_bit 1 index)"

definition compute_merkle_root :: "bytes \<Rightarrow> bytes list \<Rightarrow> i32 \<Rightarrow> bytes" where
  "compute_merkle_root hash branch index = merkle_branch_loop hash branch index"

section \<open>The coinbase script\<close>

fun window_position :: "bytes \<Rightarrow> bytes \<Rightarrow> nat option" where
  "window_position needle [] = (if needle = [] then Some 0 else None)"
| "window_position needle (b # hay) =
     (if take (length needle) (b # hay) = needle then Some 0 else map_option Suc (window_position needle hay))"

definition find_bytes :: "bytes \<Rightarrow> bytes \<Rightarrow> nat option" where
  "find_bytes haystack needle = (if needle = [] then Some 0 else window_position needle haystack)"

definition shl_one :: "bool \<Rightarrow> nat \<Rightarrow> u32 option" where
  "shl_one oc k = (if oc \<and> 32 \<le> k then None else Some (push_bit (k mod 32) 1))"

definition get_expected_index :: "bool \<Rightarrow> u32 \<Rightarrow> i32 \<Rightarrow> nat \<Rightarrow> i32 option" where
  "get_expected_index oc nonce chain_id merkle_height =
     (let rand = nonce;
          rand = rand * 1103515245 + 12345;
          rand = rand + chain_id;
          rand = rand * 1103515245 + 12345
      in map_option (\<lambda>m. rand mod m) (shl_one oc merkle_height))"

definition check_merged_mining_coinbase_script ::
    "bool \<Rightarrow> AuxPow \<Rightarrow> bytes \<Rightarrow> bytes \<Rightarrow> i32 \<Rightarrow> (AuxPowCoinbaseScriptValidationError + unit) option" where
  "check_merged_mining_coinbase_script oc a script blockchain_merkle_root chain_id =
     (case find_bytes script blockchain_merkle_root of
        None \<Rightarrow> Some (Inl MissingMerkleRoot)
      | Some root_pos \<Rightarrow>
          (case (case find_bytes script MERGED_MINING_HEADER of
                   Some header_pos \<Rightarrow>
                     (let search_start = header_pos + length MERGED_MINING_HEADER
                      in if find_bytes (drop search_start script) MERGED_MINING_HEADER \<noteq> None then Some MultipleHeaders
                         else if header_pos + length MERGED_MINING_HEADER \<noteq> root_pos then Some HeaderNotAdjacent
                         else None)
                 | None \<Rightarrow> if root_pos > 20 then Some LegacyRootTooFar else None) of
             Some e \<Rightarrow> Some (Inl e)
           | None \<Rightarrow>
               (let pos_after_root = root_pos + length blockchain_merkle_root;
                    remaining_script = drop pos_after_root script
                in if length remaining_script < 8 then Some (Inl MissingMerkleSizeAndNonce)
                   else (let size_bytes = [remaining_script ! 0, remaining_script ! 1, remaining_script ! 2, remaining_script ! 3];
                             merkle_height = length (blockchain_branch a)
                         in (case shl_one oc merkle_height of
                               None \<Rightarrow> None
                             | Some expected_size \<Rightarrow>
                                 if from_le_bytes size_bytes \<noteq> expected_size then Some (Inl MerkleSizeMismatch)
                                 else (let nonce_bytes = [remaining_script ! 4, remaining_script ! 5, remaining_script ! 6, remaining_script ! 7]
                                       in map_option
                                            (\<lambda>expected_index. if blockchain_index a \<noteq> expected_index then Inl InvalidChainIndex else Inr ())
                                            (get_expected_index oc (from_le_bytes nonce_bytes) chain_id merkle_height)))))))"

definition check :: "bool \<Rightarrow> AuxPow \<Rightarrow> bytes \<Rightarrow> i32 \<Rightarrow> bool \<Rightarrow> (AuxPowValidationError + unit) option" where
  "check oc a aux_block_hash chain_id strict =
     (if coinbase_index a \<noteq> 0 then Some (Inl AuxPowNotFromCoinbase)
      else if strict \<and> extract_chain_id (parent_block_header a) = sint chain_id then Some (Inl ParentHasSameChainId)
      else if length (blockchain_branch a) > 30 then Some (Inl ChainMerkleBranchTooLong)
      else (let blockchain_merkle_root = compute_merkle_root aux_block_hash (blockchain_branch a) (blockchain_index a);
                blockchain_merkle_root_le = rev blockchain_merkle_root;
                coinbase_hash = compute_txid (coinbase_tx a);
                transactions_merkle_root = compute_merkle_root coinbase_hash (coinbase_branch a) (coinbase_index a)
            in if transactions_merkle_root \<noteq> hdr_merkle_root (parent_block_header a) then Some (Inl InvalidCoinbaseMerkleProof)
               else if tx_input (coinbase_tx a) = [] then Some (Inl CoinbaseHasNoInputs)
               else (let script = script_sig (tx_input (coinbase_tx a) ! 0)
                     in map_option (map_sum InvalidAuxPowCoinbaseScript id)
                          (check_merged_mining_coinbase_script oc a script blockchain_merkle_root_le chain_id))))"

section \<open>Codec\<close>

definition auxpow_ok :: "AuxPow \<Rightarrow> bool" where
  "auxpow_ok a \<longleftrightarrow> tx_ok (coinbase_tx a) \<and> length (aux_parent_hash a) = 32 \<and>
     vec_ok (\<lambda>h. length h = 32) (coinbase_branch a) \<and> vec_ok (\<lambda>h. length h = 32) (blockchain_branch a) \<and>
     header_ok (parent_block_header a)"

interpretation auxpow_codec: codec enc_AuxPow dec_AuxPow auxpow_ok
  by unfold_locales
    (auto simp: enc_AuxPow_def dec_AuxPow_def auxpow_ok_def dbind_Inr_iff tx_codec.enc_len tx_codec.dec_enc
      array32_codec.enc_len array32_codec.dec_enc hash_vec_codec.enc_len hash_vec_codec.dec_enc u32_codec.enc_len
      u32_codec.dec_enc header_codec.enc_len header_codec.dec_enc
      dest!: tx_codec.canonical array32_codec.canonical hash_vec_codec.canonical u32_codec.canonical header_codec.canonical)

section \<open>Branches as paths in the tree\<close>

fun branch_root :: "bytes \<Rightarrow> bytes list \<Rightarrow> int \<Rightarrow> bytes" where
  "branch_root h [] i = h"
| "branch_root h (b # bs) i = branch_root (if odd i then hash_pair b h else hash_pair h b) bs (i div 2)"

lemma aux_node_eq: "aux_node = hash_pair"
  by (simp add: fun_eq_iff aux_node_def hash_pair_def)

lemma and_one_odd: "(w :: i32) AND 1 = 1 \<longleftrightarrow> odd (sint w)"
proof -
  have "odd (sint w) \<longleftrightarrow> bit w 0" using bit_sint_iff [of w 0] by (simp add: bit_0)
  then show ?thesis by (simp add: bit_0 and_one_eq odd_iff_mod_2_eq_one)
qed

lemma sint_half: "sint (signed_drop_bit (Suc 0) (w :: i32)) = sint w div 2"
  by (simp add: sint_signed_drop_bit_eq drop_bit_Suc)

lemma compute_merkle_root_eq: "compute_merkle_root h bs i = branch_root h bs (sint i)"
proof -
  have "merkle_branch_loop h bs i = branch_root h bs (sint i)"
    by (induction h bs i rule: merkle_branch_loop.induct) (simp_all add: aux_node_eq and_one_odd sint_half)
  then show ?thesis by (simp add: compute_merkle_root_def)
qed

text \<open>The branch of position \<open>j\<close> at height \<open>k\<close>: the siblings on the way up, the node itself where it has none.\<close>

definition sibling :: "nat \<Rightarrow> nat \<Rightarrow> nat \<Rightarrow> nat" where
  "sibling n k j = (if odd j then j - 1 else if j + 1 < level_width n k then j + 1 else j)"

fun path :: "bytes list \<Rightarrow> nat \<Rightarrow> nat \<Rightarrow> nat \<Rightarrow> bytes list" where
  "path hs k 0 j = []"
| "path hs k (Suc m) j = node hs k (sibling (length hs) k j) # path hs (Suc k) m (j div 2)"

lemma node_parent:
  "j < level_width (length hs) k \<Longrightarrow>
     (if odd j then hash_pair (node hs k (sibling (length hs) k j)) (node hs k j)
      else hash_pair (node hs k j) (node hs k (sibling (length hs) k j))) = node hs (Suc k) (j div 2)"
  by (cases "odd j") (auto simp: sibling_def elim!: oddE evenE)

lemma branch_root_path:
  "j < level_width (length hs) k \<Longrightarrow> branch_root (node hs k j) (path hs k m j) (int j) = node hs (k + m) (j div 2 ^ m)"
proof (induction m arbitrary: k j)
  case (Suc m)
  have "j div 2 < level_width (length hs) (Suc k)" using Suc.prems by (simp add: level_width_Suc)
  then have "branch_root (node hs (Suc k) (j div 2)) (path hs (Suc k) m (j div 2)) (int (j div 2)) =
      node hs (k + Suc m) (j div 2 ^ Suc m)"
    using Suc.IH [of "j div 2" "Suc k"] by (simp add: div_mult2_eq)
  then show ?case using node_parent [OF Suc.prems] by (simp add: zdiv_int split: if_splits)
qed simp

lemma leaf_root_position:
  assumes "j < n"
  shows "j div 2 ^ tree_height n = 0"
proof -
  have "(n + (2 ^ tree_height n - 1)) div 2 ^ tree_height n = 1"
    using tree_height_width [of n] assms by (simp add: level_width_def)
  then have "n + (2 ^ tree_height n - 1) < 2 * 2 ^ tree_height n"
    by (metis One_nat_def div_less_iff_less_mult le_simps(1) less_2_cases_iff lessI mult.commute mult_2 one_add_one zero_less_numeral zero_less_power)
  then show ?thesis using assms by simp
qed

text \<open>The strings that following a branch hashes.\<close>

fun branch_strings :: "bytes \<Rightarrow> bytes list \<Rightarrow> int \<Rightarrow> bytes list" where
  "branch_strings h [] i = []"
| "branch_strings h (b # bs) i =
     (if odd i then (b @ h) # branch_strings (hash_pair b h) bs (i div 2)
      else (h @ b) # branch_strings (hash_pair h b) bs (i div 2))"

lemma branch_root_inj:
  assumes "branch_root h bs i = branch_root h' bs' i" "length bs = length bs'" "length h = 32" "length h' = 32"
    "list_all (\<lambda>b. length b = 32) bs" "list_all (\<lambda>b. length b = 32) bs'"
  shows "(h = h' \<and> bs = bs') \<or> exhibit_collision (branch_strings h bs i) (branch_strings h' bs' i)"
  using assms
proof (induction bs arbitrary: h h' bs' i)
  case (Cons b bs)
  then obtain b' cs where bs': "bs' = b' # cs" by (cases bs') auto
  show ?case
  proof (cases "odd i")
    case True
    then have "(hash_pair b h = hash_pair b' h' \<and> bs = cs) \<or>
        exhibit_collision (branch_strings (hash_pair b h) bs (i div 2)) (branch_strings (hash_pair b' h') cs (i div 2))"
      using Cons.prems bs' by (intro Cons.IH) simp_all
    then show ?thesis using True hash_pair_inj [of b h b' h'] exhibit_Cons Cons.prems bs' by auto
  next
    case False
    then have "(hash_pair h b = hash_pair h' b' \<and> bs = cs) \<or>
        exhibit_collision (branch_strings (hash_pair h b) bs (i div 2)) (branch_strings (hash_pair h' b') cs (i div 2))"
      using Cons.prems bs' by (intro Cons.IH) simp_all
    then show ?thesis using False hash_pair_inj [of h b h' b'] exhibit_Cons Cons.prems bs' by auto
  qed
qed simp

section \<open>Searching bytes\<close>

definition occurs_at :: "bytes \<Rightarrow> bytes \<Rightarrow> nat \<Rightarrow> bool" where
  "occurs_at needle hay i \<longleftrightarrow> take (length needle) (drop i hay) = needle"

lemma occurs_split: "occurs_at needle hay i \<Longrightarrow> i \<le> length hay \<Longrightarrow> hay = take i hay @ needle @ drop (i + length needle) hay"
  unfolding occurs_at_def by (metis append_take_drop_id drop_drop add.commute)

lemma occurs_bound: "occurs_at needle hay i \<Longrightarrow> needle \<noteq> [] \<Longrightarrow> i + length needle \<le> length hay"
proof -
  assume a: "occurs_at needle hay i" "needle \<noteq> []"
  then have "length (take (length needle) (drop i hay)) = length needle" by (simp only: occurs_at_def)
  then show ?thesis using a(2) by (cases "i \<le> length hay") auto
qed

lemma occurs_Cons:
  "occurs_at needle (b # hay) 0 \<longleftrightarrow> take (length needle) (b # hay) = needle"
  "occurs_at needle (b # hay) (Suc i) \<longleftrightarrow> occurs_at needle hay i"
  by (simp_all add: occurs_at_def)

lemma window_position_Some:
  "needle \<noteq> [] \<Longrightarrow> window_position needle hay = Some p \<longleftrightarrow> occurs_at needle hay p \<and> (\<forall>i<p. \<not> occurs_at needle hay i)"
proof (induction hay arbitrary: p)
  case Nil
  then show ?case by (auto dest: occurs_bound)
next
  case (Cons b hay)
  then show ?case
    by (cases p) (auto simp: occurs_Cons All_less_Suc2 simp del: take_Suc_Cons split: if_splits)
qed

lemma window_position_None:
  "needle \<noteq> [] \<Longrightarrow> window_position needle hay = None \<longleftrightarrow> (\<forall>i. \<not> occurs_at needle hay i)"
proof (induction hay)
  case Nil
  then show ?case by (auto dest: occurs_bound)
next
  case (Cons b hay)
  have "(\<forall>i. \<not> occurs_at needle (b # hay) i) \<longleftrightarrow> \<not> occurs_at needle (b # hay) 0 \<and> (\<forall>i. \<not> occurs_at needle hay i)"
    by (metis not0_implies_Suc occurs_Cons(2))
  then show ?case using Cons by (simp add: occurs_Cons del: take_Suc_Cons)
qed

lemma find_bytes_None: "needle \<noteq> [] \<Longrightarrow> find_bytes hay needle = None \<longleftrightarrow> (\<forall>i. \<not> occurs_at needle hay i)"
  by (simp add: find_bytes_def window_position_None)

lemma find_bytes_Some:
  "needle \<noteq> [] \<Longrightarrow> find_bytes hay needle = Some p \<longleftrightarrow> occurs_at needle hay p \<and> (\<forall>i<p. \<not> occurs_at needle hay i)"
  by (simp add: find_bytes_def window_position_Some)

lemma occurs_drop: "occurs_at needle (drop k hay) i \<longleftrightarrow> occurs_at needle hay (k + i)"
  by (simp add: occurs_at_def add.commute)

lemma length_header [simp]: "length MERGED_MINING_HEADER = 4"
  by (simp add: MERGED_MINING_HEADER_def)

lemma header_no_overlap:
  assumes "occurs_at MERGED_MINING_HEADER s i" "occurs_at MERGED_MINING_HEADER s j" "i < j"
  shows "i + 4 \<le> j"
proof (rule ccontr)
  assume "\<not> i + 4 \<le> j"
  then obtain d where d: "j = i + d" "0 < d" "d < 4" using assms(3) by (metis less_imp_add_positive not_le nat_add_left_cancel_less)
  have "take 4 (drop i s) = MERGED_MINING_HEADER" "take 4 (drop d (drop i s)) = MERGED_MINING_HEADER"
    using assms d by (simp_all add: occurs_at_def add.commute)
  then obtain r where "drop i s = MERGED_MINING_HEADER @ r" by (metis append_take_drop_id)
  then have "hd (drop d (MERGED_MINING_HEADER @ r)) = 0xfa"
    using \<open>take 4 (drop d (drop i s)) = MERGED_MINING_HEADER\<close>
    by (metis MERGED_MINING_HEADER_def hd_take list.sel(1) zero_less_numeral)
  moreover have "d = 1 \<or> d = 2 \<or> d = 3" using d by auto
  ultimately show False by (auto simp: MERGED_MINING_HEADER_def)
qed

lemma single_header:
  "find_bytes s MERGED_MINING_HEADER = Some p \<and> find_bytes (drop (p + 4) s) MERGED_MINING_HEADER = None \<longleftrightarrow>
     {i. occurs_at MERGED_MINING_HEADER s i} = {p}" (is "?l \<longleftrightarrow> ?r")
proof -
  have ne: "MERGED_MINING_HEADER \<noteq> []" by (simp add: MERGED_MINING_HEADER_def)
  show ?thesis
  proof
    assume l: ?l
    have "i = p" if "occurs_at MERGED_MINING_HEADER s i" for i
    proof (rule linorder_cases [of i p])
      assume "p < i"
      then have "p + 4 \<le> i" using l that header_no_overlap [of s p i] by (simp add: find_bytes_Some [OF ne])
      then have "occurs_at MERGED_MINING_HEADER (drop (p + 4) s) (i - (p + 4))" using that by (simp add: occurs_drop)
      then show "i = p" using l by (simp add: find_bytes_None [OF ne])
    qed (use l that in \<open>auto simp: find_bytes_Some [OF ne]\<close>)
    then show ?r using l by (auto simp: find_bytes_Some [OF ne])
  next
    assume ?r
    then have o: "occurs_at MERGED_MINING_HEADER s i \<longleftrightarrow> i = p" for i by auto
    then show ?l by (simp add: find_bytes_Some [OF ne] find_bytes_None [OF ne] occurs_drop)
  qed
qed

section \<open>What the check accepts\<close>

text \<open>The merged-mining data as the parent's coinbase script carries it.\<close>

definition script_commits :: "bytes \<Rightarrow> bytes \<Rightarrow> nat \<Rightarrow> i32 \<Rightarrow> i32 \<Rightarrow> bool" where
  "script_commits script root height index chain_id \<longleftrightarrow>
     (\<exists>pre nonce post. script = pre @ root @ to_le_bytes (2 ^ height :: u32) @ to_le_bytes (nonce :: u32) @ post \<and>
        (\<forall>i<length pre. \<not> occurs_at root script i) \<and>
        (if \<exists>i. occurs_at MERGED_MINING_HEADER script i
         then 4 \<le> length pre \<and> {i. occurs_at MERGED_MINING_HEADER script i} = {length pre - 4}
         else length pre \<le> 20) \<and>
        get_expected_index False nonce chain_id height = Some index)"

lemma get_expected_index_total:
  "height < 32 \<Longrightarrow> get_expected_index oc nonce chain_id height = get_expected_index False nonce chain_id height"
  by (simp add: get_expected_index_def shl_one_def Let_def)

lemma shl_one_small: "height < 32 \<Longrightarrow> shl_one oc height = Some (2 ^ height)"
  by (simp add: shl_one_def push_bit_eq_mult)

lemma take4: "4 \<le> length r \<Longrightarrow> take 4 r = [r ! 0, r ! 1, r ! 2, r ! 3]"
  by (rule nth_equalityI) (auto simp: nth_Cons' less_Suc_eq numeral_eq_Suc)

lemma le_u32_iff: "length bs = 4 \<Longrightarrow> from_le_bytes bs = (w :: u32) \<longleftrightarrow> bs = to_le_bytes w"
  using from_to_le_bytes [of w] to_from_le_bytes [of bs, where 'a = 32] by fastforce

lemma header_step:
  assumes "root \<noteq> []" "find_bytes script root = Some p"
  shows "(case find_bytes script MERGED_MINING_HEADER of
       Some header_pos \<Rightarrow>
         (let search_start = header_pos + length MERGED_MINING_HEADER
          in if find_bytes (drop search_start script) MERGED_MINING_HEADER \<noteq> None then Some MultipleHeaders
             else if header_pos + length MERGED_MINING_HEADER \<noteq> p then Some HeaderNotAdjacent else None)
     | None \<Rightarrow> if p > 20 then Some LegacyRootTooFar else None) = None \<longleftrightarrow>
     (if \<exists>i. occurs_at MERGED_MINING_HEADER script i
      then 4 \<le> p \<and> {i. occurs_at MERGED_MINING_HEADER script i} = {p - 4} else p \<le> 20)"
proof -
  have ne: "MERGED_MINING_HEADER \<noteq> []" by (simp add: MERGED_MINING_HEADER_def)
  show ?thesis
  proof (cases "find_bytes script MERGED_MINING_HEADER")
    case None
    then have "\<nexists>i. occurs_at MERGED_MINING_HEADER script i" by (simp add: find_bytes_None [OF ne])
    then show ?thesis using None by auto
  next
    case (Some q)
    then have ex: "\<exists>i. occurs_at MERGED_MINING_HEADER script i" by (auto simp: find_bytes_Some [OF ne])
    have e: "4 \<le> p \<and> {i. occurs_at MERGED_MINING_HEADER script i} = {p - 4} \<longleftrightarrow>
        find_bytes (drop (q + 4) script) MERGED_MINING_HEADER = None \<and> q + 4 = p"
    proof
      assume "4 \<le> p \<and> {i. occurs_at MERGED_MINING_HEADER script i} = {p - 4}"
      then show "find_bytes (drop (q + 4) script) MERGED_MINING_HEADER = None \<and> q + 4 = p"
        using single_header [of script "p - 4"] Some by simp
    next
      assume "find_bytes (drop (q + 4) script) MERGED_MINING_HEADER = None \<and> q + 4 = p"
      then show "4 \<le> p \<and> {i. occurs_at MERGED_MINING_HEADER script i} = {p - 4}"
        using single_header [of script q] Some by force
    qed
    show ?thesis unfolding e using Some ex by (cases "find_bytes (drop (q + 4) script) MERGED_MINING_HEADER") (simp_all add: Let_def)
  qed
qed

lemma tail_read:
  "(\<exists>nonce post. r = to_le_bytes (s :: u32) @ to_le_bytes (nonce :: u32) @ post \<and> P nonce) \<longleftrightarrow>
     8 \<le> length r \<and> from_le_bytes [r ! 0, r ! 1, r ! 2, r ! 3] = s \<and> P (from_le_bytes [r ! 4, r ! 5, r ! 6, r ! 7])"
  (is "?l \<longleftrightarrow> ?r")
proof
  assume ?l
  then obtain nonce post where r: "r = to_le_bytes s @ to_le_bytes nonce @ post" "P nonce" by blast
  then have len: "8 \<le> length r" by simp
  have "[r ! 0, r ! 1, r ! 2, r ! 3] = to_le_bytes s" using take4 [of r] len r(1) by simp
  moreover have "[r ! 4, r ! 5, r ! 6, r ! 7] = to_le_bytes nonce"
    using take4 [of "drop 4 r"] len by (simp add: r(1) nth_append)
  ultimately show ?r using len r(2) by (simp only: from_to_le_bytes) (simp add: from_to_le_bytes)
next
  assume a: ?r
  then have "r = take 4 r @ take 4 (drop 4 r) @ drop 8 r" using append_take_drop_id [of 4 "drop 4 r"] by simp
  moreover have "take 4 r = to_le_bytes s" using a take4 [of r] le_u32_iff [of "[r ! 0, r ! 1, r ! 2, r ! 3]" s] by simp
  moreover have "take 4 (drop 4 r) = [r ! 4, r ! 5, r ! 6, r ! 7]"
    using a [THEN conjunct1] take4 [of "drop 4 r"] by simp
  moreover have "[r ! 4, r ! 5, r ! 6, r ! 7] = to_le_bytes (from_le_bytes [r ! 4, r ! 5, r ! 6, r ! 7] :: u32)"
    by (simp add: to_from_le_bytes)
  ultimately show ?l using a by metis
qed

lemma script_commits_at:
  assumes root: "root \<noteq> []" and p: "find_bytes script root = Some p"
  shows "script_commits script root height index chain_id \<longleftrightarrow>
    (if \<exists>i. occurs_at MERGED_MINING_HEADER script i
     then 4 \<le> p \<and> {i. occurs_at MERGED_MINING_HEADER script i} = {p - 4} else p \<le> 20) \<and>
    (\<exists>nonce post. drop (p + length root) script = to_le_bytes (2 ^ height :: u32) @ to_le_bytes (nonce :: u32) @ post \<and>
       get_expected_index False nonce chain_id height = Some index)" (is "_ \<longleftrightarrow> ?H p \<and> ?T")
proof
  have occ: "occurs_at root script p" "\<forall>i<p. \<not> occurs_at root script i" using p by (simp_all add: find_bytes_Some [OF root])
  {
    assume "script_commits script root height index chain_id"
    then obtain pre nonce post where c: "script = pre @ root @ to_le_bytes (2 ^ height :: u32) @ to_le_bytes (nonce :: u32) @ post"
      "\<forall>i<length pre. \<not> occurs_at root script i" "?H (length pre)"
      "get_expected_index False nonce chain_id height = Some index"
      unfolding script_commits_def by blast
    have "occurs_at root script (length pre)" by (simp add: c(1) occurs_at_def)
    then have pre: "length pre = p" using occ c(2) linorder_neqE_nat by blast
    then have "drop (p + length root) script = to_le_bytes (2 ^ height :: u32) @ to_le_bytes nonce @ post"
      by (simp add: c(1) flip: pre)
    then show "?H p \<and> ?T" using c(3,4) unfolding pre by blast
  }
  {
    assume a: "?H p \<and> ?T"
    have "p \<le> length script" using occurs_bound [OF occ(1) root] by simp
    then have "script = take p script @ root @ drop (p + length root) script" "length (take p script) = p"
      using occurs_split [OF occ(1)] by simp_all
    then show "script_commits script root height index chain_id"
      unfolding script_commits_def using a occ(2) by metis
  }
qed

lemma check_script_exact:
  assumes root: "root \<noteq> []" and h: "length (blockchain_branch a) < 32"
  shows "\<exists>r. check_merged_mining_coinbase_script oc a script root chain_id = Some r \<and>
    (r = Inr () \<longleftrightarrow> script_commits script root (length (blockchain_branch a)) (blockchain_index a) chain_id)"
proof (cases "find_bytes script root")
  case None
  have "\<not> script_commits script root (length (blockchain_branch a)) (blockchain_index a) chain_id"
  proof
    assume "script_commits script root (length (blockchain_branch a)) (blockchain_index a) chain_id"
    then obtain pre rest where "script = pre @ root @ rest" unfolding script_commits_def by blast
    then have "occurs_at root script (length pre)" by (simp add: occurs_at_def)
    then show False using None by (simp add: find_bytes_None [OF root])
  qed
  then show ?thesis using None by (simp add: check_merged_mining_coinbase_script_def)
next
  case (Some p)
  let ?H = "if \<exists>i. occurs_at MERGED_MINING_HEADER script i
     then 4 \<le> p \<and> {i. occurs_at MERGED_MINING_HEADER script i} = {p - 4} else p \<le> 20"
  define r where "r = drop (p + length root) script"
  have len: "length script - (p + length root) = length r" by (simp add: r_def)
  define e where "e = (case find_bytes script MERGED_MINING_HEADER of
       Some header_pos \<Rightarrow>
         (let search_start = header_pos + length MERGED_MINING_HEADER
          in if find_bytes (drop search_start script) MERGED_MINING_HEADER \<noteq> None then Some MultipleHeaders
             else if header_pos + length MERGED_MINING_HEADER \<noteq> p then Some HeaderNotAdjacent else None)
     | None \<Rightarrow> if p > 20 then Some LegacyRootTooFar else None)"
  have e: "e = None \<longleftrightarrow> ?H" unfolding e_def by (rule header_step [OF root Some])
  have c: "script_commits script root (length (blockchain_branch a)) (blockchain_index a) chain_id \<longleftrightarrow> ?H \<and> 8 \<le> length r \<and>
      from_le_bytes [r ! 0, r ! 1, r ! 2, r ! 3] = (2 ^ length (blockchain_branch a) :: u32) \<and>
      get_expected_index False (from_le_bytes [r ! 4, r ! 5, r ! 6, r ! 7]) chain_id (length (blockchain_branch a)) = Some (blockchain_index a)"
    unfolding script_commits_at [OF root Some] r_def tail_read by (rule refl)
  obtain j where j: "get_expected_index False (from_le_bytes [r ! 4, r ! 5, r ! 6, r ! 7]) chain_id (length (blockchain_branch a)) = Some j"
    using h by (simp add: get_expected_index_def shl_one_small Let_def)
  have "check_merged_mining_coinbase_script oc a script root chain_id =
    (case e of Some e \<Rightarrow> Some (Inl e) | None \<Rightarrow>
       if length r < 8 then Some (Inl MissingMerkleSizeAndNonce)
       else if from_le_bytes [r ! 0, r ! 1, r ! 2, r ! 3] \<noteq> (2 ^ length (blockchain_branch a) :: u32) then Some (Inl MerkleSizeMismatch)
       else if blockchain_index a \<noteq> j then Some (Inl InvalidChainIndex) else Some (Inr ()))"
    using Some h j get_expected_index_total [OF h, of oc]
    unfolding check_merged_mining_coinbase_script_def e_def [symmetric]
    by (simp add: e_def [symmetric] r_def [symmetric] Let_def shl_one_small len split: option.split)
  then show ?thesis using e c j by (cases e) auto
qed

definition auxpow_accepted :: "AuxPow \<Rightarrow> bytes \<Rightarrow> i32 \<Rightarrow> bool \<Rightarrow> bool" where
  "auxpow_accepted a aux_block_hash chain_id strict \<longleftrightarrow>
     coinbase_index a = 0 \<and> (strict \<and> extract_chain_id (parent_block_header a) = sint chain_id \<longrightarrow> False) \<and>
     length (blockchain_branch a) \<le> 30 \<and>
     branch_root (compute_txid (coinbase_tx a)) (coinbase_branch a) 0 = hdr_merkle_root (parent_block_header a) \<and>
     (\<exists>i is. tx_input (coinbase_tx a) = i # is \<and>
        script_commits (script_sig i) (rev (branch_root aux_block_hash (blockchain_branch a) (sint (blockchain_index a))))
          (length (blockchain_branch a)) (blockchain_index a) chain_id)"

lemma length_branch_root: "length h = 32 \<Longrightarrow> length (branch_root h bs i) = 32"
  by (induction h bs i rule: branch_root.induct) simp_all

lemma check_exact:
  assumes "length bh = 32"
  shows "\<exists>r. check oc a bh chain_id strict = Some r \<and> (r = Inr () \<longleftrightarrow> auxpow_accepted a bh chain_id strict)"
proof (cases "coinbase_index a = 0 \<and> \<not> (strict \<and> extract_chain_id (parent_block_header a) = sint chain_id) \<and>
    length (blockchain_branch a) \<le> 30 \<and>
    branch_root (compute_txid (coinbase_tx a)) (coinbase_branch a) 0 = hdr_merkle_root (parent_block_header a) \<and> tx_input (coinbase_tx a) \<noteq> []")
  case False
  then show ?thesis
    by (auto simp: check_def auxpow_accepted_def compute_merkle_root_eq Let_def)
next
  case True
  then obtain i "is" where i: "tx_input (coinbase_tx a) = i # is" by (cases "tx_input (coinbase_tx a)") auto
  define root where "root = branch_root bh (blockchain_branch a) (sint (blockchain_index a))"
  have "rev root \<noteq> []" using length_branch_root [OF assms, of "blockchain_branch a" "sint (blockchain_index a)"] by (auto simp: root_def)
  then obtain r where r: "check_merged_mining_coinbase_script oc a (script_sig i) (rev root) chain_id = Some r"
    "r = Inr () \<longleftrightarrow> script_commits (script_sig i) (rev root) (length (blockchain_branch a)) (blockchain_index a) chain_id"
    using check_script_exact [of "rev root" a oc "script_sig i" chain_id] True by auto
  have "check oc a bh chain_id strict = Some (map_sum InvalidAuxPowCoinbaseScript id r)"
    using True i r(1) by (auto simp: check_def compute_merkle_root_eq Let_def root_def)
  moreover have "map_sum InvalidAuxPowCoinbaseScript id r = Inr () \<longleftrightarrow> r = Inr ()" by (cases r) auto
  ultimately show ?thesis using True i r(2) by (auto simp: auxpow_accepted_def root_def)
qed

section \<open>The expected index\<close>

lemma sint_small: "unat (w :: i32) < 2 ^ 31 \<Longrightarrow> sint w = int (unat w)"
proof -
  assume "unat w < 2 ^ 31"
  then have "int (unat w) < int (2 ^ 31)" unfolding of_nat_less_iff .
  then have u: "int (unat w) < 2 ^ 31" by simp
  have "- (2 ^ 31 :: int) \<le> int (unat w)" by (rule order_trans [of _ 0]) simp_all
  then have "signed_take_bit 31 (int (unat w)) = int (unat w)" using u by (rule signed_take_bit_int_eq_self)
  then show ?thesis by (simp add: sint_uint)
qed

lemma expected_index_bound:
  assumes "get_expected_index oc nonce chain_id k = Some i" "k \<le> 30"
  shows "0 \<le> sint i \<and> sint i < 2 ^ k"
proof -
  obtain r where i: "i = r mod (2 ^ k :: i32)"
    using assms by (auto simp: get_expected_index_def shl_one_small Let_def)
  have k30: "(2 :: nat) ^ k \<le> 2 ^ 30" using assms(2) by (intro power_increasing) simp_all
  then have pk: "unat (2 ^ k :: i32) = 2 ^ k"
    using unat_of_nat [of "2 ^ k", where 'a = 32] by simp
  have "unat i < 2 ^ k" unfolding i by (metis pk unat_mod mod_less_divisor zero_less_numeral zero_less_power)
  then have "sint i = int (unat i)" using k30 by (intro sint_small) simp
  moreover have "int (unat i) < int (2 ^ k)" unfolding of_nat_less_iff by fact
  ultimately show ?thesis by simp
qed

text \<open>An accepted proof for the block hash of 32 sevens, with an empty chain branch.\<close>

definition sample_script :: bytes where
  "sample_script = MERGED_MINING_HEADER @ replicate 32 7 @ [1, 0, 0, 0] @ [0, 0, 0, 0]"

definition sample_coinbase :: Transaction where
  "sample_coinbase = sample_tx\<lparr> tx_input := map (\<lambda>i. i\<lparr> script_sig := sample_script \<rparr>) (tx_input sample_tx) \<rparr>"

definition sample_auxpow :: AuxPow where
  "sample_auxpow = \<lparr> coinbase_tx = sample_coinbase, aux_parent_hash = replicate 32 0, coinbase_branch = [], coinbase_index = 0,
     blockchain_branch = [], blockchain_index = 0,
     parent_block_header = (blk_header sample_block)\<lparr> hdr_merkle_root := compute_txid sample_coinbase \<rparr> \<rparr>"

lemma sample_script_commits: "script_commits sample_script (replicate 32 7) 0 0 98"
proof -
  have f: "find_bytes sample_script (replicate 32 7) = Some 4" "find_bytes sample_script MERGED_MINING_HEADER = Some 0"
    "find_bytes (drop 4 sample_script) MERGED_MINING_HEADER = None"
    by (code_simp, code_simp, code_simp)
  then have "{i. occurs_at MERGED_MINING_HEADER sample_script i} = {0}" using single_header [of sample_script 0] by simp
  moreover have "\<exists>i. occurs_at MERGED_MINING_HEADER sample_script i" using f(2) by (auto simp: find_bytes_Some MERGED_MINING_HEADER_def)
  moreover have "drop (4 + length (replicate 32 (7 :: u8))) sample_script = to_le_bytes (2 ^ 0 :: u32) @ to_le_bytes (0 :: u32) @ []"
    by code_simp
  moreover have "get_expected_index False 0 98 0 = Some 0"
    by (simp add: get_expected_index_def shl_one_small Let_def)
  ultimately show ?thesis
    unfolding script_commits_at [OF _ f(1), of 0 0 98, simplified replicate_empty, simplified] by auto
qed

lemma sample_auxpow_accepted: "auxpow_accepted sample_auxpow (replicate 32 7) 98 True"
  using sample_script_commits
  by (simp add: auxpow_accepted_def sample_auxpow_def sample_coinbase_def sample_tx_def sample_block_def
      extract_chain_id_def bversion_to_consensus_def)

section \<open>Properties\<close>

text \<open>(C1) Merged mining: the check of an auxiliary proof of work always returns, whatever the data, and accepts
  exactly when the coinbase index is zero, the chain identifiers differ if required, the chain branch has at
  most 30 hashes, the coinbase transaction's branch leads to the parent's merkle root, and the coinbase
  script carries the reversed chain root, followed by the tree size and a nonce that gives the claimed index, at
  its first occurrence and right after the only merged-mining header, or within the first 20 bytes if there
  is no header.\<close>

theorem auxpow_check_exact:
  assumes "length aux_block_hash = 32"
  shows "\<exists>r. check oc a aux_block_hash chain_id strict = Some r \<and> (r = Inr () \<longleftrightarrow> auxpow_accepted a aux_block_hash chain_id strict)"
  by (rule check_exact [OF assms])

theorem auxpow_check_exact_witness: "check False sample_auxpow (replicate 32 7) 98 True = Some (Inr ())"
  using auxpow_check_exact [of "replicate 32 7" False sample_auxpow 98 True] sample_auxpow_accepted by auto

text \<open>(C4) Merkle branches are sound up to collisions: two branches of the same length and index that lead to
  the same root start from the same leaf and are equal, or two of the 64-byte strings hashed on the way are a
  collision of the double hash.\<close>

theorem merkle_branch_sound:
  assumes "compute_merkle_root h bs i = compute_merkle_root h' bs' i" "length bs = length bs'" "length h = 32" "length h' = 32"
    and "list_all (\<lambda>b. length b = 32) bs" "list_all (\<lambda>b. length b = 32) bs'"
  shows "(h = h' \<and> bs = bs') \<or> exhibit_collision (branch_strings h bs (sint i)) (branch_strings h' bs' (sint i))"
  using branch_root_inj assms unfolding compute_merkle_root_eq by blast

theorem merkle_branch_sound_witness:
  "(replicate 32 1 = replicate 32 (1 :: u8) \<and> [replicate 32 2] = [replicate 32 (2 :: u8)]) \<or>
     exhibit_collision (branch_strings (replicate 32 1) [replicate 32 2] 0) (branch_strings (replicate 32 1) [replicate 32 2] 0)"
  using merkle_branch_sound [of "replicate 32 1" "[replicate 32 2]" 0 "replicate 32 1" "[replicate 32 2]"] by simp

text \<open>(C5) Merkle branches are complete: for every leaf of a list of hashes the siblings on its path form a branch
  that leads to the root computed by \<open>calculate_root\<close>.\<close>

theorem merkle_branch_complete:
  assumes "j < length hs" and "length hs < 2 ^ 31"
  shows "calculate_root hs = Some (Some (compute_merkle_root (hs ! j) (path hs 0 (tree_height (length hs)) j) (word_of_nat j)))"
proof -
  have "unat (word_of_nat j :: i32) = j" using assms by (simp add: unat_of_nat)
  then have "sint (word_of_nat j :: i32) = int j" using assms sint_small [of "word_of_nat j"] by simp
  then have "compute_merkle_root (hs ! j) (path hs 0 (tree_height (length hs)) j) (word_of_nat j) = merkle_root hs"
    using branch_root_path [of j hs 0 "tree_height (length hs)"] leaf_root_position [OF assms(1)] assms(1)
    by (simp add: compute_merkle_root_eq merkle_root_def)
  then show ?thesis using assms(1) by (auto simp: calculate_root_eq)
qed

theorem merkle_branch_complete_witness:
  "calculate_root [[1], [2], [3]] = Some (Some (compute_merkle_root [3] [[3], hash_pair [1] [2]] 2))"
proof -
  have "tree_height (Suc (Suc (Suc 0))) = Suc (Suc 0)" by (simp add: tree_height.simps)
  then have "path [[1], [2], [3]] 0 (tree_height (length [[1], [2], [3 :: u8]])) 2 = [[3], hash_pair [1] [2]]"
    by (simp add: sibling_def level_width_def)
  then show ?thesis using merkle_branch_complete [of 2 "[[1], [2], [3]]"] by simp
qed

text \<open>The slot of a chain is a valid position of a tree of the given height.\<close>

theorem expected_index_in_tree:
  assumes "get_expected_index oc nonce chain_id k = Some i" and "k \<le> 30"
  shows "0 \<le> sint i \<and> sint i < 2 ^ k"
  by (rule expected_index_bound [OF assms])

theorem expected_index_in_tree_witness: "\<exists>i. get_expected_index True 7 98 5 = Some i \<and> 0 \<le> sint i \<and> sint i < 2 ^ 5"
proof -
  obtain i where "get_expected_index True 7 98 5 = Some i" by (simp add: get_expected_index_def shl_one_small Let_def)
  then show ?thesis using expected_index_in_tree [of True 7 98 5 i] by auto
qed

end
