(* ===== verification/DogeBlock.thy ===== *)
theory DogeBlock
  imports AuxPow
begin

text \<open>
  Dogecoin headers and blocks, \<open>bitcoin/src/dogecoin/mod.rs\<close>, with the retargeting entry point for headers of
  \<open>bitcoin/src/pow.rs\<close>. A header carries an auxiliary proof of work exactly when bit 8 of its version is set:
  this is the invariant of the wire format. The decoders with the suffix \<open>stream\<close> are the \<open>consensus_decode\<close>
  variants, which limit the reader.
\<close>

section \<open>Definitions\<close>

record DogeHeader =
  pure_header :: Header
  aux_pow :: "AuxPow option"

definition doge_from_pure :: "Header \<Rightarrow> DogeHeader" where
  "doge_from_pure h = \<lparr> pure_header = h, aux_pow = None \<rparr>"

definition enc_DogeHeader :: "DogeHeader encoder" where
  "enc_DogeHeader h =
     ecat (enc_Header (pure_header h)) (case aux_pow h of Some a \<Rightarrow> enc_AuxPow a | None \<Rightarrow> enil)"

definition dec_DogeHeader :: "DogeHeader decoder" where
  "dec_DogeHeader = dbind dec_Header (\<lambda>h.
     dbind (if has_auxpow_bit h then dbind dec_AuxPow (\<lambda>a. dret (Some a)) else dret None) (\<lambda>a.
       dret \<lparr> pure_header = h, aux_pow = a \<rparr>))"

record DogeBlock =
  doge_header :: DogeHeader
  doge_txdata :: "Transaction list"

definition enc_DogeBlock :: "DogeBlock encoder" where
  "enc_DogeBlock b = ecat (enc_DogeHeader (doge_header b)) (enc_vec enc_Transaction (doge_txdata b))"

definition dec_DogeBlock :: "DogeBlock decoder" where
  "dec_DogeBlock = dbind dec_DogeHeader (\<lambda>h. dbind (dec_vec dec_Transaction) (\<lambda>txs.
     dret \<lparr> doge_header = h, doge_txdata = txs \<rparr>))"

definition dec_DogeBlock_stream :: "DogeBlock decoder" where
  "dec_DogeBlock_stream = with_take MAX_VEC_SIZE
     (dbind (consensus_decode dec_DogeHeader) (\<lambda>h. dbind (consensus_decode (dec_vec dec_Transaction)) (\<lambda>txs.
        dret \<lparr> doge_header = h, doge_txdata = txs \<rparr>)))"

definition doge_block_hash :: "DogeBlock \<Rightarrow> bytes" where
  "doge_block_hash b = block_hash (pure_header (doge_header b))"

definition doge_block_hash_with_scrypt :: "scrypt_fn \<Rightarrow> DogeBlock \<Rightarrow> bytes" where
  "doge_block_hash_with_scrypt scrypt b = block_hash_with_scrypt scrypt (pure_header (doge_header b))"

definition doge_compute_merkle_root :: "DogeBlock \<Rightarrow> bytes option option" where
  "doge_compute_merkle_root b = calculate_root (map compute_txid (doge_txdata b))"

definition doge_check_merkle_root :: "DogeBlock \<Rightarrow> bool option" where
  "doge_check_merkle_root b =
     map_option (\<lambda>r. case r of Some root \<Rightarrow> hdr_merkle_root (pure_header (doge_header b)) = root | None \<Rightarrow> False)
       (doge_compute_merkle_root b)"

definition from_header_difficulty_adjustment_dogecoin ::
    "bool \<Rightarrow> bool \<Rightarrow> DogeHeader \<Rightarrow> DogeHeader \<Rightarrow> DogeParams \<Rightarrow> u32 \<Rightarrow> CompactTarget option" where
  "from_header_difficulty_adjustment_dogecoin oc da last_epoch_boundary current p height =
     (let timespan = uint (hdr_time (pure_header current)) - uint (hdr_time (pure_header last_epoch_boundary));
          bits = hdr_bits (pure_header current)
      in from_next_work_required_dogecoin oc da bits timespan p height)"

definition magic :: "DogeNetwork \<Rightarrow> bytes" where
  "magic n = (case n of Dogecoin \<Rightarrow> [0xC0, 0xC0, 0xC0, 0xC0] | DogeTestnet \<Rightarrow> [0xFC, 0xC1, 0xB7, 0xDC]
     | DogeRegtest \<Rightarrow> [0xFA, 0xBF, 0xB5, 0xDA])"

definition network_to_string :: "DogeNetwork \<Rightarrow> string" where
  "network_to_string n = (case n of Dogecoin \<Rightarrow> ''dogecoin'' | DogeTestnet \<Rightarrow> ''testnet'' | DogeRegtest \<Rightarrow> ''regtest'')"

datatype ParseNetworkError = ParseNetworkError string

definition network_from_str :: "string \<Rightarrow> ParseNetworkError + DogeNetwork" where
  "network_from_str s =
     (if s = ''dogecoin'' then Inr Dogecoin else if s = ''testnet'' then Inr DogeTestnet
      else if s = ''regtest'' then Inr DogeRegtest else Inl (ParseNetworkError s))"

section \<open>Codecs\<close>

definition doge_header_ok :: "DogeHeader \<Rightarrow> bool" where
  "doge_header_ok h \<longleftrightarrow> header_ok (pure_header h) \<and> (has_auxpow_bit (pure_header h) \<longleftrightarrow> aux_pow h \<noteq> None) \<and>
     pred_option auxpow_ok (aux_pow h)"

interpretation doge_header_codec: codec enc_DogeHeader dec_DogeHeader doge_header_ok
proof
  show "snd (enc_DogeHeader h) = length (fst (enc_DogeHeader h))" for h
    by (simp add: enc_DogeHeader_def header_codec.enc_len auxpow_codec.enc_len split: option.split)
  show "dec_DogeHeader (fst (enc_DogeHeader h) @ rest) = Inr (h, rest)" if "doge_header_ok h" for h rest
    using that
    by (cases "aux_pow h")
      (auto simp: doge_header_ok_def enc_DogeHeader_def dec_DogeHeader_def dbind_Inr_iff header_codec.dec_enc auxpow_codec.dec_enc)
  show "doge_header_ok h \<and> bs = fst (enc_DogeHeader h) @ rest" if "dec_DogeHeader bs = Inr (h, rest)" for bs h rest
    using that
    by (auto simp: doge_header_ok_def enc_DogeHeader_def dec_DogeHeader_def dbind_Inr_iff
        dest!: header_codec.canonical auxpow_codec.canonical split: if_splits)
qed

definition doge_block_ok :: "DogeBlock \<Rightarrow> bool" where
  "doge_block_ok b \<longleftrightarrow> doge_header_ok (doge_header b) \<and> vec_ok tx_ok (doge_txdata b)"

interpretation doge_block_codec: codec enc_DogeBlock dec_DogeBlock doge_block_ok
  by unfold_locales
    (auto simp: enc_DogeBlock_def dec_DogeBlock_def doge_block_ok_def dbind_Inr_iff doge_header_codec.enc_len
      doge_header_codec.dec_enc txs_codec.enc_len txs_codec.dec_enc
      dest!: doge_header_codec.canonical txs_codec.canonical)

lemma with_take_second:
  assumes consumes: "\<And>bs x r. d bs = Inr (x, r) \<Longrightarrow> length r \<le> length bs"
  shows "with_take L (dbind d (\<lambda>h. dbind (with_take L e) (f h))) = with_take L (dbind d (\<lambda>h. dbind e (f h)))"
proof
  fix bs
  show "with_take L (dbind d (\<lambda>h. dbind (with_take L e) (f h))) bs = with_take L (dbind d (\<lambda>h. dbind e (f h))) bs"
  proof (cases "d (take L bs)")
    case (Inr p)
    obtain x r where p: "p = (x, r)" by (cases p)
    then have "length r \<le> L" using consumes [of "take L bs" x r] Inr by simp
    then have "with_take L e r = e r" by (rule with_take_within)
    then have "dbind d (\<lambda>h. dbind (with_take L e) (f h)) (take L bs) = dbind d (\<lambda>h. dbind e (f h)) (take L bs)"
      using Inr p by (simp add: dbind_def)
    then show ?thesis by (simp add: with_take_def [of L "dbind d _"])
  qed (simp add: with_take_def dbind_def)
qed

lemma doge_block_stream_eq: "dec_DogeBlock_stream = with_take MAX_VEC_SIZE dec_DogeBlock"
  unfolding dec_DogeBlock_stream_def dec_DogeBlock_def consensus_decode_def with_take_nested
  by (rule with_take_second) (rule doge_header_codec.consumes)

section \<open>Version numbers\<close>

lemma composed_version:
  fixes chain base :: int and aux :: bool
  assumes "0 \<le> base" "base < 2 ^ 8" "0 \<le> chain" "chain < 2 ^ 15"
  defines "N \<equiv> chain * 2 ^ 16 + (if aux then 2 ^ 8 else 0) + base"
  shows "N div 2 ^ 16 = chain" "N mod 2 ^ 8 = base" "bit N 8 \<longleftrightarrow> aux" "0 \<le> N" "N < 2 ^ 31"
proof -
  show "N div 2 ^ 16 = chain" "0 \<le> N" "N < 2 ^ 31" using assms by (auto simp: N_def)
  have "N = base + 2 ^ 8 * (chain * 2 ^ 8 + (if aux then 1 else 0))" by (simp add: N_def)
  then have "N mod 2 ^ 8 = base mod 2 ^ 8" by (simp only: mod_mult_self2)
  then show "N mod 2 ^ 8 = base" using assms(1,2) by simp
  have "N div 2 ^ 8 = 2 * (chain * 2 ^ 7) + (if aux then 1 else 0)" using assms by (auto simp: N_def)
  then show "bit N 8 \<longleftrightarrow> aux" by (simp add: bit_iff_odd)
qed

lemma sint_word_of_int: "0 \<le> n \<Longrightarrow> n < 2 ^ 31 \<Longrightarrow> sint (word_of_int n :: i32) = n"
proof -
  assume n: "0 \<le> n" "n < 2 ^ 31"
  have "- (2 ^ 31 :: int) \<le> n" using n(1) by (rule order_trans [rotated]) simp
  then have "signed_take_bit 31 n = n" using n(2) by (rule signed_take_bit_int_eq_self)
  then show ?thesis by (simp add: signed_of_int)
qed

section \<open>Properties\<close>

text \<open>(C2) Dogecoin blocks: decoding a buffer accepts exactly the serializations of well-formed blocks, in which the
  auxiliary proof of work is present if and only if the version says so; decoding from a stream accepts
  exactly those of at most four million bytes and leaves the rest of the stream.\<close>

theorem doge_block_bijective:
  "(deserialize dec_DogeBlock bs = Inr b \<longleftrightarrow> doge_block_ok b \<and> bs = serialize enc_DogeBlock b) \<and>
   (dec_DogeBlock_stream stream = Inr (b, rest) \<longleftrightarrow>
      doge_block_ok b \<and> length (serialize enc_DogeBlock b) \<le> MAX_VEC_SIZE \<and> stream = serialize enc_DogeBlock b @ rest)"
proof
  show "deserialize dec_DogeBlock bs = Inr b \<longleftrightarrow> doge_block_ok b \<and> bs = serialize enc_DogeBlock b"
    by (rule doge_block_codec.deserialize_iff)
  have c: "codec enc_DogeBlock (with_take MAX_VEC_SIZE dec_DogeBlock)
      (\<lambda>b. doge_block_ok b \<and> length (fst (enc_DogeBlock b)) \<le> MAX_VEC_SIZE)"
    by (rule doge_block_codec.limited)
  then have r: "roundtrip enc_DogeBlock (with_take MAX_VEC_SIZE dec_DogeBlock)
      (\<lambda>b. doge_block_ok b \<and> length (fst (enc_DogeBlock b)) \<le> MAX_VEC_SIZE)" by (simp add: codec_def)
  show "dec_DogeBlock_stream stream = Inr (b, rest) \<longleftrightarrow>
      doge_block_ok b \<and> length (serialize enc_DogeBlock b) \<le> MAX_VEC_SIZE \<and> stream = serialize enc_DogeBlock b @ rest"
    unfolding doge_block_stream_eq serialize_def
    using codec.canonical [OF c, of stream b rest] roundtrip.dec_enc [OF r, of b rest] by blast
qed

text \<open>A header made from a pure header whose version has the auxiliary proof-of-work bit cannot be read back:
  its serialization is refused.\<close>

theorem from_pure_header_unreadable:
  assumes "has_auxpow_bit h" and "header_ok h"
  shows "deserialize dec_DogeHeader (serialize enc_DogeHeader (doge_from_pure h)) = Inl (Io UnexpectedEof)"
proof -
  have bs: "serialize enc_DogeHeader (doge_from_pure h) = fst (enc_Header h)"
    by (simp add: serialize_def enc_DogeHeader_def doge_from_pure_def)
  have "dec_Header (fst (enc_Header h)) = Inr (h, [])" using header_codec.dec_enc [OF assms(2), of "[]"] by simp
  moreover have "dec_AuxPow [] = Inl (Io UnexpectedEof)"
    by (simp add: dec_AuxPow_def dec_Transaction_def dec_Version_def decode_int_def dbind_def read_slice_def)
  ultimately have "dec_DogeHeader (fst (enc_Header h)) = Inl (Io UnexpectedEof)"
    using assms(1) by (simp add: dec_DogeHeader_def dbind_def)
  then show ?thesis unfolding bs by (simp add: deserialize_def deserialize_partial_def)
qed

theorem from_pure_header_unreadable_witness:
  "deserialize dec_DogeHeader (serialize enc_DogeHeader (doge_from_pure ((blk_header sample_block)\<lparr> hdr_version := BlockVersion 0x620102 \<rparr>)))
     = Inl (Io UnexpectedEof)"
  by (rule from_pure_header_unreadable)
    (simp_all add: has_auxpow_bit_def VERSION_AUXPOW_def sample_block_def header_ok_def merkle_root_def length_compute_txid)

text \<open>The bits of a Dogecoin version: base version below 256, auxiliary flag in bit 8, chain identifier above
  bit 16. Reading the parts of a composed version gives them back, and a block is legacy exactly when it has
  version one or two without chain identifier or flag.\<close>

theorem version_fields:
  assumes "hdr_version h = BlockVersion (word_of_int (chain * 2 ^ 16 + (if aux then 2 ^ 8 else 0) + base))"
    and "0 \<le> base" "base < 2 ^ 8" and "0 \<le> chain" "chain < 2 ^ 15"
  shows "extract_chain_id h = chain \<and> (has_auxpow_bit h \<longleftrightarrow> aux) \<and> extract_base_version h = base \<and>
    (is_legacy h \<longleftrightarrow> chain = 0 \<and> \<not> aux \<and> (base = 1 \<or> base = 2))"
proof (intro conjI)
  define N where "N = chain * 2 ^ 16 + (if aux then 2 ^ 8 else 0) + base"
  note N = composed_version [OF assms(2-5), of aux, folded N_def]
  have v: "bversion_0 (hdr_version h) = word_of_int N" "bversion_to_consensus (hdr_version h) = N"
    using sint_word_of_int [OF N(4,5)] by (simp_all add: assms(1) bversion_to_consensus_def N_def)
  show chain: "extract_chain_id h = chain" using N(1) by (simp add: extract_chain_id_def v drop_bit_eq_div)
  show "extract_base_version h = base"
    using N(2,4) by (auto simp: extract_base_version_def v trunc_rem_def VERSION_AUXPOW_def sgn_if)
  have "has_auxpow_bit h \<longleftrightarrow> bit (word_of_int N :: i32) 8"
    unfolding has_auxpow_bit_def VERSION_AUXPOW_def v(1) by (simp only: bit_iff_and_push_bit_not_eq_0)
  then show "has_auxpow_bit h \<longleftrightarrow> aux" using N(3) by (simp add: bit_word_of_int_iff)
  have "hdr_version h = BlockVersion k \<longleftrightarrow> N = sint k" for k
    using v by (cases "hdr_version h") (auto simp: bversion_to_consensus_def)
  then have "hdr_version h = bversion_ONE \<longleftrightarrow> N = 1" "hdr_version h = bversion_TWO \<longleftrightarrow> N = 2"
    by (simp_all add: bversion_ONE_def bversion_TWO_def)
  moreover have "N = 1 \<longleftrightarrow> chain = 0 \<and> \<not> aux \<and> base = 1" "N = 2 \<longleftrightarrow> chain = 0 \<and> \<not> aux \<and> base = 2"
    using N(1,2) assms(2-5) by (auto simp: N_def)
  ultimately show "is_legacy h \<longleftrightarrow> chain = 0 \<and> \<not> aux \<and> (base = 1 \<or> base = 2)"
    using chain by (auto simp: is_legacy_def)
qed

theorem version_fields_witness:
  "extract_chain_id ((blk_header sample_block)\<lparr> hdr_version := BlockVersion 0x620102 \<rparr>) = 98"
  using version_fields [of "(blk_header sample_block)\<lparr> hdr_version := BlockVersion 0x620102 \<rparr>" 98 True 2] by simp

end
