(* ===== verification/PartialMerkle.thy ===== *)
theory PartialMerkle
  imports AuxPow "HOL-Library.Sublist"
begin

text \<open>
  Merkle blocks, \<open>bitcoin/src/merkle_tree/block.rs\<close>: a header with a partial merkle tree that proves which of the
  block's transactions match a filter. Heights and positions are natural numbers: a tree has at most 31
  levels below its root, so positions do not overflow their 32 bits. The only arithmetic that can overflow is
  that of the width of a level, where \<open>oc\<close> tells whether overflow panics. The vectors that extraction fills
  and the two counters are its state, kept on errors too.

  A partial tree is the serialization of an abstract tree of stored and combined hashes: extraction succeeds
  exactly on these serializations, and building gives the one of the matched leaves.
\<close>

section \<open>Definitions\<close>

datatype MerkleBlockError =
    MerkleRootMismatch | NoTransactions | TooManyTransactions | TooManyHashes | NotEnoughBits
  | NotAllBitsConsumed | NotAllHashesConsumed | BitsArrayOverflow | HashesArrayOverflow | IdenticalHashesFound

record PartialMerkleTree =
  num_transactions :: u32
  pmt_bits :: "bool list"
  pmt_hashes :: "bytes list"

definition MAX_BLOCK :: Weight where "MAX_BLOCK = Weight 4000000"
definition MIN_TRANSACTION :: Weight where "MIN_TRANSACTION = Weight (WITNESS_SCALE_FACTOR * 60)"

definition calc_tree_width :: "bool \<Rightarrow> u32 \<Rightarrow> nat \<Rightarrow> u32 option" where
  "calc_tree_width oc n height =
     (if oc \<and> (32 \<le> height \<or> 2 ^ 32 \<le> unat n + 2 ^ height) then None
      else Some (drop_bit (height mod 32) (n + push_bit (height mod 32) 1 - 1)))"

partial_function (option) tree_height_loop :: "bool \<Rightarrow> u32 \<Rightarrow> nat \<Rightarrow> nat option" where
  "tree_height_loop oc n height =
     (case calc_tree_width oc n height of
        None \<Rightarrow> None
      | Some w \<Rightarrow> if w > 1 then tree_height_loop oc n (height + 1) else Some height)"

definition calc_tree_height :: "bool \<Rightarrow> u32 \<Rightarrow> nat option" where
  "calc_tree_height oc n = tree_height_loop oc n 0"

definition pmt_parent_hash :: "bytes \<Rightarrow> bytes \<Rightarrow> bytes" where
  "pmt_parent_hash left right =
     sha256d_from_engine (engine_write (enc_array right) (engine_write (enc_array left) engine_default))"

fun calc_hash :: "bool \<Rightarrow> u32 \<Rightarrow> nat \<Rightarrow> nat \<Rightarrow> bytes list \<Rightarrow> bytes option" where
  "calc_hash oc n height p txids =
     (if height = 0 then if p < length txids then Some (txids ! p) else None
      else (case calc_hash oc n (height - 1) (p * 2) txids of
              None \<Rightarrow> None
            | Some left \<Rightarrow>
                (case calc_tree_width oc n (height - 1) of
                   None \<Rightarrow> None
                 | Some w \<Rightarrow>
                     map_option (pmt_parent_hash left)
                       (if p * 2 + 1 < unat w then calc_hash oc n (height - 1) (p * 2 + 1) txids else Some left))))"

declare calc_hash.simps [simp del]

definition parent_of_match :: "u32 \<Rightarrow> nat \<Rightarrow> nat \<Rightarrow> bool list \<Rightarrow> bool" where
  "parent_of_match n height p ms =
     fold (\<lambda>i b. b \<or> ms ! i) [push_bit height p ..< min (push_bit height (p + 1)) (unat n)] False"

fun traverse_and_build ::
    "bool \<Rightarrow> nat \<Rightarrow> nat \<Rightarrow> bytes list \<Rightarrow> bool list \<Rightarrow> PartialMerkleTree \<Rightarrow> PartialMerkleTree option" where
  "traverse_and_build oc height p txids ms t =
     (let n = num_transactions t;
          matched = parent_of_match n height p ms;
          t = t\<lparr> pmt_bits := pmt_bits t @ [matched] \<rparr>
      in if height = 0 \<or> \<not> matched
         then map_option (\<lambda>hash. t\<lparr> pmt_hashes := pmt_hashes t @ [hash] \<rparr>) (calc_hash oc n height p txids)
         else (case traverse_and_build oc (height - 1) (p * 2) txids ms t of
                 None \<Rightarrow> None
               | Some t \<Rightarrow>
                   (case calc_tree_width oc n (height - 1) of
                      None \<Rightarrow> None
                    | Some w \<Rightarrow> if p * 2 + 1 < unat w then traverse_and_build oc (height - 1) (p * 2 + 1) txids ms t
                               else Some t)))"

declare traverse_and_build.simps [simp del]

definition from_txids :: "bool \<Rightarrow> bytes list \<Rightarrow> bool list \<Rightarrow> PartialMerkleTree option" where
  "from_txids oc txids ms =
     (if length txids = 0 \<or> length txids \<noteq> length ms then None
      else (let pmt = \<lparr> num_transactions = word_of_nat (length txids), pmt_bits = [], pmt_hashes = [] \<rparr>
            in case calc_tree_height oc (num_transactions pmt) of
                 None \<Rightarrow> None
               | Some height \<Rightarrow> traverse_and_build oc height 0 txids ms pmt))"

record extraction =
  bits_used :: nat
  hash_used :: nat
  x_matches :: "bytes list"
  x_indexes :: "nat list"

fun traverse_and_extract ::
    "bool \<Rightarrow> PartialMerkleTree \<Rightarrow> nat \<Rightarrow> nat \<Rightarrow> extraction \<Rightarrow> ((MerkleBlockError + bytes) \<times> extraction) option" where
  "traverse_and_extract oc t height p s =
     (if bits_used s \<ge> length (pmt_bits t) then Some (Inl BitsArrayOverflow, s)
      else (let matched = pmt_bits t ! bits_used s;
                s = s\<lparr> bits_used := bits_used s + 1 \<rparr>
            in if height = 0 \<or> \<not> matched
               then (if hash_used s \<ge> length (pmt_hashes t) then Some (Inl HashesArrayOverflow, s)
                     else (let hash = pmt_hashes t ! hash_used s;
                               s = s\<lparr> hash_used := hash_used s + 1 \<rparr>;
                               s = (if height = 0 \<and> matched
                                    then s\<lparr> x_matches := x_matches s @ [hash], x_indexes := x_indexes s @ [p] \<rparr> else s)
                           in Some (Inr hash, s)))
               else (case traverse_and_extract oc t (height - 1) (p * 2) s of
                       None \<Rightarrow> None
                     | Some (Inl e, s) \<Rightarrow> Some (Inl e, s)
                     | Some (Inr left, s) \<Rightarrow>
                         (case calc_tree_width oc (num_transactions t) (height - 1) of
                            None \<Rightarrow> None
                          | Some w \<Rightarrow>
                              if p * 2 + 1 < unat w
                              then (case traverse_and_extract oc t (height - 1) (p * 2 + 1) s of
                                      None \<Rightarrow> None
                                    | Some (Inl e, s) \<Rightarrow> Some (Inl e, s)
                                    | Some (Inr right, s) \<Rightarrow>
                                        if right = left then Some (Inl IdenticalHashesFound, s)
                                        else Some (Inr (pmt_parent_hash left right), s))
                              else Some (Inr (pmt_parent_hash left left), s)))))"

declare traverse_and_extract.simps [simp del]

text \<open>The vectors passed in are cleared first, so their old contents do not matter.\<close>

definition extract_matches :: "bool \<Rightarrow> PartialMerkleTree \<Rightarrow> ((MerkleBlockError + bytes) \<times> bytes list \<times> nat list) option" where
  "extract_matches oc t =
     (if num_transactions t = 0 then Some (Inl NoTransactions, [], [])
      else if (ucast (num_transactions t) :: u64) > to_wu MAX_BLOCK div to_wu MIN_TRANSACTION then Some (Inl TooManyTransactions, [], [])
      else if (word_of_nat (length (pmt_hashes t)) :: u32) > num_transactions t then Some (Inl TooManyHashes, [], [])
      else if length (pmt_bits t) < length (pmt_hashes t) then Some (Inl NotEnoughBits, [], [])
      else (case calc_tree_height oc (num_transactions t) of
              None \<Rightarrow> None
            | Some height \<Rightarrow>
                (case traverse_and_extract oc t height 0 \<lparr> bits_used = 0, hash_used = 0, x_matches = [], x_indexes = [] \<rparr> of
                   None \<Rightarrow> None
                 | Some (Inl e, s) \<Rightarrow> Some (Inl e, x_matches s, x_indexes s)
                 | Some (Inr hash_merkle_root, s) \<Rightarrow>
                     Some (if (word_of_nat (bits_used s) + 7 :: u32) div 8 \<noteq> (word_of_nat (length (pmt_bits t)) + 7) div 8
                             then Inl NotAllBitsConsumed
                           else if (word_of_nat (hash_used s) :: u32) \<noteq> word_of_nat (length (pmt_hashes t))
                             then Inl NotAllHashesConsumed
                           else Inr hash_merkle_root, x_matches s, x_indexes s))))"

section \<open>Wire format\<close>

function chunks8 :: "'a list \<Rightarrow> 'a list list" where
  "chunks8 xs = (if xs = [] then [] else take 8 xs # chunks8 (drop 8 xs))"
  by pat_completeness auto
termination
  by (relation "measure length") auto

declare chunks8.simps [simp del]

definition pack_byte :: "bool list \<Rightarrow> u8" where
  "pack_byte chunk = fold (\<lambda>(i, b) byte. byte OR push_bit i (of_bool b)) (enumerate 0 chunk) 0"

definition unpack_byte :: "u8 \<Rightarrow> bool list" where
  "unpack_byte byte = map (\<lambda>i. byte AND push_bit i 1 \<noteq> 0) [0..<8]"

definition enc_PartialMerkleTree :: "PartialMerkleTree encoder" where
  "enc_PartialMerkleTree t =
     ecat (encode_int (num_transactions t)) (ecat (enc_vec enc_array (pmt_hashes t))
       (ecat (enc_VarInt (VarInt (word_of_nat ((length (pmt_bits t) + 7) div 8))))
         (enc_elems emit_u8 (map pack_byte (chunks8 (pmt_bits t))))))"

definition dec_PartialMerkleTree :: "PartialMerkleTree decoder" where
  "dec_PartialMerkleTree =
     dbind decode_int (\<lambda>n. dbind (consensus_decode (dec_vec (dec_array 32))) (\<lambda>hs. dbind dec_VarInt (\<lambda>v.
       let nb = unat (varint_0 v)
       in if nb > MAX_VEC_SIZE then dfail (OversizedVectorAllocation nb MAX_VEC_SIZE)
          else dbind (dec_elems read_u8 nb) (\<lambda>bs.
            dret \<lparr> num_transactions = n, pmt_bits = concat (map unpack_byte bs), pmt_hashes = hs \<rparr>))))"

section \<open>Merkle blocks\<close>

record MerkleBlock =
  mb_header :: Header
  mb_txn :: PartialMerkleTree

definition from_header_txids_with_predicate :: "bool \<Rightarrow> Header \<Rightarrow> bytes list \<Rightarrow> (bytes \<Rightarrow> bool) \<Rightarrow> MerkleBlock option" where
  "from_header_txids_with_predicate oc h block_txids match_txids =
     (let ms = map match_txids block_txids
      in map_option (\<lambda>pmt. \<lparr> mb_header = h, mb_txn = pmt \<rparr>) (from_txids oc block_txids ms))"

definition from_block_with_predicate :: "bool \<Rightarrow> Block \<Rightarrow> (bytes \<Rightarrow> bool) \<Rightarrow> MerkleBlock option" where
  "from_block_with_predicate oc b match_txids =
     (let block_txids = map compute_txid (txdata b)
      in from_header_txids_with_predicate oc (blk_header b) block_txids match_txids)"

definition mb_extract_matches :: "bool \<Rightarrow> MerkleBlock \<Rightarrow> ((MerkleBlockError + unit) \<times> bytes list \<times> nat list) option" where
  "mb_extract_matches oc mb =
     map_option (\<lambda>(r, out). (case r of
         Inl e \<Rightarrow> Inl e
       | Inr root \<Rightarrow> if root = hdr_merkle_root (mb_header mb) then Inr () else Inl MerkleRootMismatch, out))
       (extract_matches oc (mb_txn mb))"

definition enc_MerkleBlock :: "MerkleBlock encoder" where
  "enc_MerkleBlock mb = ecat (enc_Header (mb_header mb)) (enc_PartialMerkleTree (mb_txn mb))"

definition dec_MerkleBlock :: "MerkleBlock decoder" where
  "dec_MerkleBlock = dbind (consensus_decode dec_Header) (\<lambda>h. dbind (consensus_decode dec_PartialMerkleTree) (\<lambda>t.
     dret \<lparr> mb_header = h, mb_txn = t \<rparr>))"

section \<open>Widths and heights\<close>

lemma pmt_parent_hash_eq: "pmt_parent_hash = hash_pair"
  by (simp add: fun_eq_iff pmt_parent_hash_def hash_pair_def)

lemma level_width_le: "0 < n \<Longrightarrow> level_width n k \<le> n"
  by (induction k) (simp_all add: level_width_Suc)

lemma calc_tree_width_eq:
  assumes "unat n < 2 ^ 31" "height < 32"
  shows "\<exists>w. calc_tree_width oc n height = Some w \<and> unat w = level_width (unat n) height"
proof -
  have p: "(2 :: nat) ^ height \<le> 2 ^ 31" using assms(2) by (intro power_increasing) simp_all
  have e: "unat (push_bit height (1 :: u32)) = 2 ^ height" using p unfolding unat_push_bit_mod by simp
  then have a: "unat (n + push_bit height 1) = unat n + 2 ^ height"
    using assms(1) p by (subst unat_add_lem [THEN iffD1]) simp_all
  have "unat (n + push_bit height 1 - 1) = unat n + 2 ^ height - 1"
    using a by (subst unat_sub) (simp_all add: word_le_nat_alt Suc_le_eq)
  then have "unat (drop_bit height (n + push_bit height 1 - 1)) = level_width (unat n) height"
    unfolding unat_drop_bit_div level_width_def by simp
  then show ?thesis using assms p by (simp add: calc_tree_width_def)
qed

lemma tree_height_less: "n < 2 ^ 31 \<Longrightarrow> tree_height n < 32"
proof (rule ccontr)
  assume n: "n < 2 ^ 31" "\<not> tree_height n < 32"
  then have "1 < level_width n 31" by (intro tree_height_below) simp
  then show False using n by (simp add: level_width_def)
qed

lemma tree_height_loop_eq:
  assumes "unat n < 2 ^ 31" "height \<le> tree_height (unat n)"
  shows "tree_height_loop oc n height = Some (tree_height (unat n))"
  using assms(2)
proof (induction "tree_height (unat n) - height" arbitrary: height)
  case 0
  then have h: "height = tree_height (unat n)" by simp
  have "level_width (unat n) height \<le> 1"
    using tree_height_width [of "unat n"] by (cases "unat n = 0") (simp_all add: h level_width_def)
  then show ?case
    using calc_tree_width_eq [OF assms(1), of height oc] tree_height_less [OF assms(1)] h
    by (subst tree_height_loop.simps) (auto simp: word_less_nat_alt)
next
  case (Suc d)
  then have "1 < level_width (unat n) height" by (intro tree_height_below) simp
  then show ?case
    using Suc calc_tree_width_eq [OF assms(1), of height oc] tree_height_less [OF assms(1)]
    by (subst tree_height_loop.simps) (auto simp: word_less_nat_alt)
qed

lemma calc_tree_height_eq: "unat n < 2 ^ 31 \<Longrightarrow> calc_tree_height oc n = Some (tree_height (unat n))"
  by (simp add: calc_tree_height_def tree_height_loop_eq)

section \<open>Abstract partial trees\<close>

text \<open>A partial tree stores a hash, with a flag for a matched leaf, or combines one or two subtrees.\<close>

datatype ptree = Stored bool bytes | Single ptree | Branch ptree ptree

fun shape :: "nat \<Rightarrow> nat \<Rightarrow> nat \<Rightarrow> ptree \<Rightarrow> bool" where
  "shape n h p (Stored m x) \<longleftrightarrow> (m \<longrightarrow> h = 0)"
| "shape n h p (Single t) \<longleftrightarrow> 0 < h \<and> \<not> 2 * p + 1 < level_width n (h - 1) \<and> shape n (h - 1) (2 * p) t"
| "shape n h p (Branch l r) \<longleftrightarrow>
     0 < h \<and> 2 * p + 1 < level_width n (h - 1) \<and> shape n (h - 1) (2 * p) l \<and> shape n (h - 1) (2 * p + 1) r"

fun tree_bits :: "ptree \<Rightarrow> bool list" where
  "tree_bits (Stored m x) = [m]"
| "tree_bits (Single t) = True # tree_bits t"
| "tree_bits (Branch l r) = True # tree_bits l @ tree_bits r"

fun tree_hashes :: "ptree \<Rightarrow> bytes list" where
  "tree_hashes (Stored m x) = [x]"
| "tree_hashes (Single t) = tree_hashes t"
| "tree_hashes (Branch l r) = tree_hashes l @ tree_hashes r"

fun tree_root :: "ptree \<Rightarrow> bytes" where
  "tree_root (Stored m x) = x"
| "tree_root (Single t) = hash_pair (tree_root t) (tree_root t)"
| "tree_root (Branch l r) = hash_pair (tree_root l) (tree_root r)"

fun tree_matches :: "nat \<Rightarrow> ptree \<Rightarrow> (bytes \<times> nat) list" where
  "tree_matches p (Stored m x) = (if m then [(x, p)] else [])"
| "tree_matches p (Single t) = tree_matches (2 * p) t"
| "tree_matches p (Branch l r) = tree_matches (2 * p) l @ tree_matches (2 * p + 1) r"

fun siblings_differ :: "ptree \<Rightarrow> bool" where
  "siblings_differ (Stored m x) \<longleftrightarrow> True"
| "siblings_differ (Single t) \<longleftrightarrow> siblings_differ t"
| "siblings_differ (Branch l r) \<longleftrightarrow> siblings_differ l \<and> siblings_differ r \<and> tree_root l \<noteq> tree_root r"

definition advance :: "ptree \<Rightarrow> nat \<Rightarrow> extraction \<Rightarrow> extraction" where
  "advance t p s = s\<lparr> bits_used := bits_used s + length (tree_bits t), hash_used := hash_used s + length (tree_hashes t),
     x_matches := x_matches s @ map fst (tree_matches p t), x_indexes := x_indexes s @ map snd (tree_matches p t) \<rparr>"

text \<open>The state of extraction stands before a serialization of the tree.\<close>

definition before :: "PartialMerkleTree \<Rightarrow> ptree \<Rightarrow> extraction \<Rightarrow> bool" where
  "before q t s \<longleftrightarrow> prefix (tree_bits t) (drop (bits_used s) (pmt_bits q)) \<and> prefix (tree_hashes t) (drop (hash_used s) (pmt_hashes q))"

lemma prefix_Cons_drop: "prefix (x # xs) (drop k ys) \<longleftrightarrow> k < length ys \<and> ys ! k = x \<and> prefix xs (drop (Suc k) ys)"
  by (cases "k < length ys") (auto simp: Cons_nth_drop_Suc [symmetric])

lemma prefix_append_drop:
  "prefix (xs @ zs) (drop k ys) \<longleftrightarrow> prefix xs (drop k ys) \<and> prefix zs (drop (k + length xs) ys)"
proof (induction xs arbitrary: k)
  case (Cons x xs)
  then show ?case unfolding append_Cons prefix_Cons_drop by auto
qed simp

lemma advance_fields [simp]:
  "bits_used (advance t p s) = bits_used s + length (tree_bits t)"
  "hash_used (advance t p s) = hash_used s + length (tree_hashes t)"
  by (simp_all add: advance_def)

lemma extract_tree:
  assumes "unat (num_transactions q) < 2 ^ 31" and "h < 32" and "shape (unat (num_transactions q)) h p t" and "before q t s"
  shows "\<exists>s'. traverse_and_extract oc q h p s =
      Some (if siblings_differ t then Inr (tree_root t) else Inl IdenticalHashesFound, s') \<and>
    (siblings_differ t \<longrightarrow> s' = advance t p s)"
  using assms(2-)
proof (induction t arbitrary: h p s)
  case (Stored m x)
  then show ?case
    by (subst traverse_and_extract.simps) (auto simp: before_def prefix_Cons_drop advance_def)
next
  case (Single t)
  let ?s = "s\<lparr> bits_used := bits_used s + 1 \<rparr>"
  have h: "h - 1 < 32" using Single.prems by simp
  have "before q t ?s" using Single.prems(3) by (simp add: before_def prefix_Cons_drop)
  then obtain s' where s': "traverse_and_extract oc q (h - 1) (2 * p) ?s =
      Some (if siblings_differ t then Inr (tree_root t) else Inl IdenticalHashesFound, s')"
      "siblings_differ t \<longrightarrow> s' = advance t (2 * p) ?s"
    using Single.IH [OF h, of "2 * p" ?s] Single.prems by auto
  obtain w where "calc_tree_width oc (num_transactions q) (h - 1) = Some w" "\<not> p * 2 + 1 < unat w"
    using calc_tree_width_eq [OF assms(1) h, of oc] Single.prems by (auto simp: mult.commute)
  then show ?case using s' Single.prems
    by (subst traverse_and_extract.simps) (auto simp: before_def prefix_Cons_drop advance_def pmt_parent_hash_eq mult.commute)
next
  case (Branch l r)
  let ?s = "s\<lparr> bits_used := bits_used s + 1 \<rparr>"
  have b: "before q l ?s" "before q r (advance l (2 * p) ?s)" "bits_used s < length (pmt_bits q)" "pmt_bits q ! bits_used s"
    using Branch.prems(3) by (simp_all add: before_def prefix_Cons_drop prefix_append_drop)
  have h: "h \<noteq> 0" "h - 1 < 32" using Branch.prems by auto
  obtain s' where s': "traverse_and_extract oc q (h - 1) (p * 2) ?s =
      Some (if siblings_differ l then Inr (tree_root l) else Inl IdenticalHashesFound, s')"
      "siblings_differ l \<longrightarrow> s' = advance l (2 * p) ?s"
    using Branch.IH(1) [OF h(2), of "2 * p" ?s] Branch.prems b by (auto simp: mult.commute)
  obtain w where w: "calc_tree_width oc (num_transactions q) (h - 1) = Some w" "Suc (p * 2) < unat w"
    using calc_tree_width_eq [OF assms(1) h(2), of oc] Branch.prems by (auto simp: mult.commute)
  show ?case
  proof (cases "siblings_differ l")
    case True
    then obtain s2 where s2: "traverse_and_extract oc q (h - 1) (Suc (p * 2)) s' =
        Some (if siblings_differ r then Inr (tree_root r) else Inl IdenticalHashesFound, s2)"
        "siblings_differ r \<longrightarrow> s2 = advance r (2 * p + 1) s'"
      using Branch.IH(2) [OF h(2), of "2 * p + 1" s'] Branch.prems b s'(2) by (auto simp: mult.commute)
    have e: "advance r (Suc (2 * p)) (advance l (2 * p) ?s) = advance (Branch l r) p s" by (simp add: advance_def)
    show ?thesis using True s' s2 w h b
      by (subst traverse_and_extract.simps) (simp add: pmt_parent_hash_eq Let_def e [simplified])
  next
    case False
    then show ?thesis using s' h b by (subst traverse_and_extract.simps) (simp add: Let_def)
  qed
qed

lemma extract_total:
  assumes "unat (num_transactions q) < 2 ^ 31"
  shows "h < 32 \<Longrightarrow> \<exists>r. traverse_and_extract oc q h p s = Some r"
proof (induction h arbitrary: p s)
  case 0
  then show ?case by (subst traverse_and_extract.simps) (simp add: Let_def)
next
  case (Suc h)
  then have h: "h < 32" by simp
  obtain w where w: "calc_tree_width oc (num_transactions q) h = Some w" using calc_tree_width_eq [OF assms h] by auto
  obtain f where f: "\<And>p' s'. traverse_and_extract oc q h p' s' = Some (f p' s')" using Suc.IH [OF h] by metis
  show ?case by (subst traverse_and_extract.simps) (auto simp: Let_def w f split: sum.split prod.split)
qed

lemma extract_sound:
  assumes "unat (num_transactions q) < 2 ^ 31"
  shows "h < 32 \<Longrightarrow> traverse_and_extract oc q h p s = Some (Inr x, s') \<Longrightarrow>
    \<exists>t. shape (unat (num_transactions q)) h p t \<and> before q t s \<and> siblings_differ t \<and> x = tree_root t \<and> s' = advance t p s"
proof (induction h arbitrary: p s x s')
  case 0
  let ?b = "pmt_bits q ! bits_used s"
  have "shape (unat (num_transactions q)) 0 p (Stored ?b x)" "before q (Stored ?b x) s" "s' = advance (Stored ?b x) p s"
    using 0(2) by (auto simp: traverse_and_extract.simps [of oc q 0] Let_def before_def prefix_Cons_drop advance_def split: if_splits)
  then show ?case by (intro exI [of _ "Stored ?b x"]) simp
next
  case (Suc h)
  let ?s = "s\<lparr> bits_used := bits_used s + 1 \<rparr>" and ?n = "unat (num_transactions q)"
  have h: "h < 32" using Suc.prems by simp
  obtain w where w: "calc_tree_width oc (num_transactions q) h = Some w" "unat w = level_width ?n h"
    using calc_tree_width_eq [OF assms h] by auto
  show ?case
  proof (cases "pmt_bits q ! bits_used s")
    case False
    then show ?thesis using Suc.prems(2)
      by (intro exI [of _ "Stored False x"])
        (auto simp: traverse_and_extract.simps [of oc q "Suc h"] Let_def before_def prefix_Cons_drop advance_def split: if_splits)
  next
    case True
    then have b: "bits_used s < length (pmt_bits q)"
      using Suc.prems(2) by (auto simp: traverse_and_extract.simps [of oc q "Suc h"] split: if_splits)
    from Suc.prems(2) True obtain l s1 where l: "traverse_and_extract oc q h (p * 2) ?s = Some (Inr l, s1)"
      by (auto simp: traverse_and_extract.simps [of oc q "Suc h"] Let_def split: if_splits option.splits sum.splits)
    then obtain tl where tl: "shape ?n h (p * 2) tl" "before q tl ?s" "siblings_differ tl" "l = tree_root tl" "s1 = advance tl (p * 2) ?s"
      using Suc.IH [OF h l] by auto
    show ?thesis
    proof (cases "Suc (p * 2) < unat w")
      case wide: True
      with Suc.prems(2) True l w obtain r where r: "traverse_and_extract oc q h (Suc (p * 2)) s1 = Some (Inr r, s')" "r \<noteq> l" "x = hash_pair l r"
        by (auto simp: traverse_and_extract.simps [of oc q "Suc h"] Let_def pmt_parent_hash_eq split: if_splits option.splits sum.splits)
      obtain tr where tr: "shape ?n h (Suc (p * 2)) tr" "before q tr s1" "siblings_differ tr" "r = tree_root tr"
          "s' = advance tr (Suc (p * 2)) s1" using Suc.IH [OF h r(1)] by auto
      have "s' = advance (Branch tl tr) p s" using tr(5) tl(5) by (simp add: advance_def mult.commute)
      moreover have "before q (Branch tl tr) s"
        using tl(2,5) tr(2) b True by (simp add: before_def prefix_Cons_drop prefix_append_drop)
      ultimately show ?thesis using tl tr r wide w by (intro exI [of _ "Branch tl tr"]) (simp add: mult.commute)
    next
      case narrow: False
      with Suc.prems(2) True l w have x: "s' = s1" "x = hash_pair l l"
        by (auto simp: traverse_and_extract.simps [of oc q "Suc h"] Let_def pmt_parent_hash_eq split: if_splits option.splits sum.splits)
      have "s' = advance (Single tl) p s" using x(1) tl(5) by (simp add: advance_def mult.commute)
      moreover have "before q (Single tl) s"
        using tl(2) b True by (simp add: before_def prefix_Cons_drop)
      ultimately show ?thesis using tl x narrow w by (intro exI [of _ "Single tl"]) (simp add: mult.commute)
    qed
  qed
qed

section \<open>Building\<close>

definition matched_below :: "nat \<Rightarrow> bool list \<Rightarrow> nat \<Rightarrow> nat \<Rightarrow> bool" where
  "matched_below n ms h p = list_ex (\<lambda>i. ms ! i) [p * 2 ^ h ..< min ((p + 1) * 2 ^ h) n]"

fun ptree_of :: "bytes list \<Rightarrow> bool list \<Rightarrow> nat \<Rightarrow> nat \<Rightarrow> ptree" where
  "ptree_of hs ms 0 p = Stored (matched_below (length hs) ms 0 p) (hs ! p)"
| "ptree_of hs ms (Suc h) p =
     (if \<not> matched_below (length hs) ms (Suc h) p then Stored False (node hs (Suc h) p)
      else if 2 * p + 1 < level_width (length hs) h then Branch (ptree_of hs ms h (2 * p)) (ptree_of hs ms h (2 * p + 1))
      else Single (ptree_of hs ms h (2 * p)))"

lemma fold_or: "fold (\<lambda>i b. b \<or> P i) xs c \<longleftrightarrow> c \<or> list_ex P xs"
  by (induction xs arbitrary: c) auto

lemma parent_of_match_eq: "parent_of_match n h p ms = matched_below (unat n) ms h p"
  unfolding parent_of_match_def matched_below_def fold_or by (simp add: push_bit_eq_mult)

lemma calc_hash_eq:
  assumes "unat n = length txids" "length txids < 2 ^ 31"
  shows "h < 32 \<Longrightarrow> p < level_width (length txids) h \<Longrightarrow> calc_hash oc n h p txids = Some (node txids h p)"
proof (induction h arbitrary: p)
  case 0
  then show ?case by (subst calc_hash.simps) simp
next
  case (Suc h)
  then have h: "h < 32" "2 * p < level_width (length txids) h" by (simp_all add: level_width_Suc)
  obtain w where w: "calc_tree_width oc n h = Some w" "unat w = level_width (length txids) h"
    using calc_tree_width_eq [of n h oc] assms h by auto
  show ?case using w Suc.IH [OF h(1), of "2 * p"] Suc.IH [OF h(1), of "2 * p + 1"] h(2)
    by (subst calc_hash.simps) (auto simp: pmt_parent_hash_eq mult.commute)
qed

lemma build_tree:
  assumes "length txids < 2 ^ 31"
  shows "h < 32 \<Longrightarrow> p < level_width (length txids) h \<Longrightarrow> unat (num_transactions q) = length txids \<Longrightarrow>
    traverse_and_build oc h p txids ms q =
      Some (q\<lparr> pmt_bits := pmt_bits q @ tree_bits (ptree_of txids ms h p),
               pmt_hashes := pmt_hashes q @ tree_hashes (ptree_of txids ms h p) \<rparr>)"
proof (induction h arbitrary: p q)
  case 0
  then show ?case using calc_hash_eq [OF _ assms, of "num_transactions q" 0 p oc]
    by (subst traverse_and_build.simps) (simp add: parent_of_match_eq Let_def)
next
  case (Suc h)
  then have h: "h < 32" "2 * p < level_width (length txids) h" by (simp_all add: level_width_Suc)
  obtain w where w: "calc_tree_width oc (num_transactions q) h = Some w" "unat w = level_width (length txids) h"
    using calc_tree_width_eq [of "num_transactions q" h oc] assms h Suc.prems by auto
  note IH = Suc.IH [OF h(1)]
  show ?case using w IH [of "2 * p"] IH [of "2 * p + 1"] h(2) Suc.prems calc_hash_eq [OF _ assms, of "num_transactions q" "Suc h" p oc]
    by (subst traverse_and_build.simps) (simp add: parent_of_match_eq Let_def mult.commute del: node.simps)
qed

lemma ptree_of_root: "tree_root (ptree_of hs ms h p) = node hs h p"
  by (induction h arbitrary: p) auto

lemma ptree_of_shape: "shape (length hs) h p (ptree_of hs ms h p)"
  by (induction h arbitrary: p) auto

lemma upt_split: "i \<le> j \<Longrightarrow> j \<le> k \<Longrightarrow> [i..<k] = [i..<j] @ [j..<k]"
  by (metis le_add_diff_inverse upt_add_eq_append)

text \<open>The leaves below a node, in order, are those below its children.\<close>

lemma leaves_split:
  "[p * 2 ^ Suc h ..< min ((p + 1) * 2 ^ Suc h) n] =
     [(2 * p) * 2 ^ h ..< min ((2 * p + 1) * 2 ^ h) n] @ [(2 * p + 1) * 2 ^ h ..< min ((2 * p + 1 + 1) * 2 ^ h) n]"
proof -
  have e: "p * 2 ^ Suc h = (2 * p) * 2 ^ h" "(p + 1) * 2 ^ Suc h = (2 * p + 1 + 1) * 2 ^ h" by simp_all
  show ?thesis
  proof (cases "(2 * p + 1) * 2 ^ h \<le> n")
    case True
    then show ?thesis unfolding e by (subst upt_split [of _ "(2 * p + 1) * 2 ^ h"]) (simp_all add: min_def)
  next
    case False
    then show ?thesis unfolding e by (simp add: min_def algebra_simps)
  qed
qed

lemma ptree_of_matches:
  "tree_matches p (ptree_of hs ms h p) =
     map (\<lambda>i. (hs ! i, i)) (filter (\<lambda>i. ms ! i) [p * 2 ^ h ..< min ((p + 1) * 2 ^ h) (length hs)])"
proof (induction h arbitrary: p)
  case 0
  then show ?case by (auto simp: matched_below_def min_def)
next
  case (Suc h)
  show ?case
  proof (cases "matched_below (length hs) ms (Suc h) p")
    case False
    then show ?thesis by (auto simp: matched_below_def list_ex_iff filter_empty_conv)
  next
    case True
    then show ?thesis
    proof (cases "2 * p + 1 < level_width (length hs) h")
      case True
      then show ?thesis using \<open>matched_below _ _ _ _\<close> unfolding leaves_split filter_append map_append Suc.IH [symmetric] by simp
    next
      case False
      then have "length hs + (2 ^ h - 1) < (2 * p + 2) * 2 ^ h"
        unfolding level_width_def by (subst div_less_iff_less_mult [symmetric]) simp_all
      then have "length hs \<le> (2 * p + 1) * 2 ^ h" by (simp add: algebra_simps)
      then have e: "[(2 * p + 1) * 2 ^ h ..< min ((2 * p + 1 + 1) * 2 ^ h) (length hs)] = []" by simp
      show ?thesis using \<open>matched_below _ _ _ _\<close> False
        unfolding leaves_split filter_append map_append Suc.IH [of "2 * p", symmetric] e by simp
    qed
  qed
qed

section \<open>Extraction\<close>

lemma leaf_count:
  "shape n h p t \<Longrightarrow> p < level_width n h \<Longrightarrow> length (tree_hashes t) \<le> length [p * 2 ^ h ..< min ((p + 1) * 2 ^ h) n]"
proof (induction t arbitrary: h p)
  case (Stored m x)
  then have "Suc p \<le> (n + (2 ^ h - 1)) div 2 ^ h" by (simp add: level_width_def)
  then have "Suc p * 2 ^ h \<le> n + (2 ^ h - 1)" by (subst (asm) less_eq_div_iff_mult_less_eq) simp_all
  then have "p * 2 ^ h + 2 ^ h \<le> n + (2 ^ h - 1)" by simp
  moreover have "(1 :: nat) \<le> 2 ^ h" by simp
  ultimately have "p * 2 ^ h < n" by linarith
  then show ?case by (simp add: Suc_le_eq min_def)
next
  case (Single t)
  then obtain k where h: "h = Suc k" by (cases h) auto
  have "2 * p < level_width n k" using Single.prems(2) by (simp add: h level_width_Suc)
  then show ?case using Single h unfolding h leaves_split length_append by fastforce
next
  case (Branch l r)
  then obtain k where h: "h = Suc k" by (cases h) auto
  have "length (tree_hashes l) \<le> length [(2 * p) * 2 ^ k ..< min ((2 * p + 1) * 2 ^ k) n]"
      "length (tree_hashes r) \<le> length [(2 * p + 1) * 2 ^ k ..< min ((2 * p + 1 + 1) * 2 ^ k) n]"
    using Branch.IH(1) [of k "2 * p"] Branch.IH(2) [of k "2 * p + 1"] Branch.prems by (simp_all add: h)
  then show ?case unfolding h leaves_split length_append by simp
qed

lemma hashes_le_bits: "length (tree_hashes t) \<le> length (tree_bits t)"
  by (induction t) simp_all

definition max_txs :: nat where "max_txs = 16666"

lemma limit_eq: "(ucast (n :: u32) :: u64) > to_wu MAX_BLOCK div to_wu MIN_TRANSACTION \<longleftrightarrow> unat n > max_txs"
  by (simp add: MAX_BLOCK_def MIN_TRANSACTION_def WITNESS_SCALE_FACTOR_def max_txs_def word_less_nat_alt unat_ucast_up)

text \<open>A partial merkle tree presents an abstract tree: the hashes are its stored hashes, and the bits its flags
  padded within the last byte.\<close>

definition presents :: "PartialMerkleTree \<Rightarrow> ptree \<Rightarrow> bool" where
  "presents q t \<longleftrightarrow> 0 < unat (num_transactions q) \<and> unat (num_transactions q) \<le> max_txs \<and>
     shape (unat (num_transactions q)) (tree_height (unat (num_transactions q))) 0 t \<and> pmt_hashes q = tree_hashes t \<and>
     prefix (tree_bits t) (pmt_bits q) \<and> (length (tree_bits t) + 7) div 8 = (length (pmt_bits q) + 7) div 8"

definition vectors_small :: "PartialMerkleTree \<Rightarrow> bool" where
  "vectors_small q \<longleftrightarrow> length (pmt_bits q) + 7 < 2 ^ 32 \<and> length (pmt_hashes q) < 2 ^ 32"

lemma bytes_of_bits: "k + 7 < 2 ^ 32 \<Longrightarrow> unat ((word_of_nat k + 7 :: u32) div 8) = (k + 7) div 8"
proof -
  assume k: "k + 7 < 2 ^ 32"
  have "(word_of_nat k + 7 :: u32) = word_of_nat (k + 7)" by simp
  then have "unat (word_of_nat k + 7 :: u32) = k + 7" using k by (simp only: unat_of_nat) simp
  then show ?thesis by (simp add: unat_div)
qed

abbreviation start :: extraction where
  "start \<equiv> \<lparr> bits_used = 0, hash_used = 0, x_matches = [], x_indexes = [] \<rparr>"

lemma extract_presented:
  assumes "vectors_small q" "presents q t"
  shows "\<exists>ms ixs. extract_matches oc q = Some (if siblings_differ t then Inr (tree_root t) else Inl IdenticalHashesFound, ms, ixs) \<and>
    (siblings_differ t \<longrightarrow> ms = map fst (tree_matches 0 t) \<and> ixs = map snd (tree_matches 0 t))"
proof -
  let ?n = "unat (num_transactions q)"
  have n: "num_transactions q \<noteq> 0" "?n < 2 ^ 31" "\<not> ?n > max_txs" "0 < ?n"
    using assms(2) by (auto simp: presents_def max_txs_def)
  have sh: "shape ?n (tree_height ?n) 0 t" using assms(2) by (simp add: presents_def)
  have "length (tree_hashes t) \<le> ?n"
    using leaf_count [OF sh] tree_height_width [OF n(4)] by simp
  then have hs: "\<not> (word_of_nat (length (pmt_hashes q)) :: u32) > num_transactions q"
    using assms by (simp add: presents_def vectors_small_def word_less_nat_alt unat_of_nat)
  have bits: "\<not> length (pmt_bits q) < length (pmt_hashes q)"
    using assms(2) hashes_le_bits [of t] prefix_length_le [of "tree_bits t" "pmt_bits q"] by (simp add: presents_def)
  have "before q t start" using assms(2) by (simp add: before_def presents_def)
  then obtain s' where s': "traverse_and_extract oc q (tree_height ?n) 0 start =
      Some (if siblings_differ t then Inr (tree_root t) else Inl IdenticalHashesFound, s')"
      "siblings_differ t \<Longrightarrow> s' = advance t 0 start"
    using extract_tree [OF n(2) tree_height_less [OF n(2)] sh] by blast
  have "length (tree_bits t) \<le> length (pmt_bits q)" using assms(2) prefix_length_le by (auto simp: presents_def)
  then have b: "(word_of_nat (length (tree_bits t)) + 7 :: u32) div 8 = (word_of_nat (length (pmt_bits q)) + 7) div 8"
    using assms unfolding word_unat_eq_iff by (simp add: bytes_of_bits presents_def vectors_small_def)
  show ?thesis
    using s' hs bits b n assms(2)
    by (cases "siblings_differ t")
      (simp_all add: extract_matches_def limit_eq calc_tree_height_eq advance_def presents_def del: word_not_simps)
qed

lemma extract_returns: "\<exists>r. extract_matches oc q = Some r"
proof (cases "unat (num_transactions q) \<le> max_txs")
  case True
  then have n: "unat (num_transactions q) < 2 ^ 31" by (simp add: max_txs_def)
  obtain r s where "traverse_and_extract oc q (tree_height (unat (num_transactions q))) 0 start = Some (r, s)"
    using extract_total [OF n tree_height_less [OF n]] by force
  then show ?thesis using n by (cases r) (simp_all add: extract_matches_def calc_tree_height_eq)
next
  case False
  then show ?thesis by (simp add: extract_matches_def limit_eq)
qed

lemma prefix_same_length: "prefix xs ys \<Longrightarrow> length xs = length ys \<Longrightarrow> xs = ys"
  by (auto simp: prefix_def)

lemma extract_gives_tree:
  assumes "vectors_small q" "extract_matches oc q = Some (Inr root, ms, ixs)"
  shows "\<exists>t. presents q t \<and> siblings_differ t \<and> root = tree_root t \<and> ms = map fst (tree_matches 0 t) \<and> ixs = map snd (tree_matches 0 t)"
proof -
  let ?n = "unat (num_transactions q)"
  have n: "num_transactions q \<noteq> 0" "?n \<le> max_txs"
    using assms(2) by (auto simp: extract_matches_def limit_eq split: if_splits)
  then have n31: "?n < 2 ^ 31" "0 < ?n" by (simp_all add: max_txs_def unat_gt_0)
  obtain s where s: "traverse_and_extract oc q (tree_height ?n) 0 start = Some (Inr root, s)" "ms = x_matches s" "ixs = x_indexes s"
      "(word_of_nat (bits_used s) + 7 :: u32) div 8 = (word_of_nat (length (pmt_bits q)) + 7) div 8"
      "(word_of_nat (hash_used s) :: u32) = word_of_nat (length (pmt_hashes q))"
    using assms(2) n31 by (auto simp: extract_matches_def calc_tree_height_eq split: if_splits option.splits sum.splits)
  obtain t where t: "shape ?n (tree_height ?n) 0 t" "before q t start" "siblings_differ t" "root = tree_root t" "s = advance t 0 start"
    using extract_sound [OF n31(1) tree_height_less [OF n31(1)] s(1)] by auto
  have pre: "prefix (tree_bits t) (pmt_bits q)" "prefix (tree_hashes t) (pmt_hashes q)" using t(2) by (simp_all add: before_def)
  have "unat (word_of_nat (length (tree_hashes t)) :: u32) = unat (word_of_nat (length (pmt_hashes q)) :: u32)"
    using s(5) t(5) by simp
  then have "length (tree_hashes t) = length (pmt_hashes q)"
    using assms(1) prefix_length_le [OF pre(2)] by (simp add: unat_of_nat vectors_small_def)
  moreover have "(length (tree_bits t) + 7) div 8 = (length (pmt_bits q) + 7) div 8"
    using arg_cong [OF s(4), of unat] t(5) assms(1) prefix_length_le [OF pre(1)] by (simp add: bytes_of_bits vectors_small_def)
  ultimately show ?thesis using t n n31 pre s(2,3) prefix_same_length [OF pre(2)]
    by (intro exI [of _ t]) (simp add: presents_def advance_def)
qed

section \<open>Soundness\<close>

fun tree_strings :: "ptree \<Rightarrow> bytes list" where
  "tree_strings (Stored m x) = []"
| "tree_strings (Single t) = (tree_root t @ tree_root t) # tree_strings t"
| "tree_strings (Branch l r) = (tree_root l @ tree_root r) # tree_strings l @ tree_strings r"

fun node_strings :: "bytes list \<Rightarrow> nat \<Rightarrow> nat \<Rightarrow> bytes list" where
  "node_strings hs 0 p = []"
| "node_strings hs (Suc k) p =
     (let q = (if 2 * p + 1 < level_width (length hs) k then 2 * p + 1 else 2 * p)
      in (node hs k (2 * p) @ node hs k q) # node_strings hs k (2 * p) @ node_strings hs k q)"

lemma exhibit_mono: "exhibit_collision xs ys \<Longrightarrow> set xs \<subseteq> set xs' \<Longrightarrow> set ys \<subseteq> set ys' \<Longrightarrow> exhibit_collision xs' ys'"
  by (auto simp: exhibit_collision_def list_ex_iff)

lemma length_tree_root: "list_all (\<lambda>x. length x = 32) (tree_hashes t) \<Longrightarrow> length (tree_root t) = 32"
  by (induction t) simp_all

lemma length_node: "list_all (\<lambda>x. length x = 32) hs \<Longrightarrow> p < level_width (length hs) k \<Longrightarrow> length (node hs k p) = 32"
  by (cases k) (simp_all add: list_all_length)

lemma matches_in_block:
  assumes "list_all (\<lambda>x. length x = 32) hs"
  shows "shape (length hs) h p t \<Longrightarrow> p < level_width (length hs) h \<Longrightarrow> list_all (\<lambda>x. length x = 32) (tree_hashes t) \<Longrightarrow>
    tree_root t = node hs h p \<Longrightarrow>
    list_all (\<lambda>(x, i). i < length hs \<and> x = hs ! i) (tree_matches p t) \<or> exhibit_collision (tree_strings t) (node_strings hs h p)"
proof (induction t arbitrary: h p)
  case (Stored m x)
  then show ?case by (cases h) auto
next
  case (Single t)
  then obtain k where h: "h = Suc k" by (cases h) auto
  have w: "2 * p < level_width (length hs) k" using Single.prems(2) by (simp add: h level_width_Suc)
  have "hash_pair (tree_root t) (tree_root t) = hash_pair (node hs k (2 * p)) (node hs k (2 * p))"
    using Single.prems by (simp add: h)
  then consider "tree_root t = node hs k (2 * p)" | "exhibit_collision (tree_strings (Single t)) (node_strings hs h p)"
    using hash_pair_inj [of "tree_root t" "tree_root t" "node hs k (2 * p)" "node hs k (2 * p)"] length_tree_root [of t]
      length_node [OF assms w] Single.prems by (auto simp: h Let_def)
  then show ?case
  proof cases
    case 1
    then have "list_all (\<lambda>(x, i). i < length hs \<and> x = hs ! i) (tree_matches (2 * p) t) \<or> exhibit_collision (tree_strings t) (node_strings hs k (2 * p))"
      using Single w by (simp add: h)
    moreover have "set (tree_strings t) \<subseteq> set (tree_strings (Single t))" "set (node_strings hs k (2 * p)) \<subseteq> set (node_strings hs h p)"
      by (auto simp: h Let_def)
    ultimately show ?thesis using exhibit_mono [of "tree_strings t" "node_strings hs k (2 * p)"] by fastforce
  qed simp
next
  case (Branch l r)
  then obtain k where h: "h = Suc k" by (cases h) auto
  have w: "2 * p < level_width (length hs) k" "Suc (2 * p) < level_width (length hs) k" using Branch.prems(1) by (simp_all add: h)
  have "hash_pair (tree_root l) (tree_root r) = hash_pair (node hs k (2 * p)) (node hs k (Suc (2 * p)))"
    using Branch.prems w by (simp add: h)
  then consider "tree_root l = node hs k (2 * p)" "tree_root r = node hs k (Suc (2 * p))"
    | "exhibit_collision (tree_strings (Branch l r)) (node_strings hs h p)"
    using hash_pair_inj [of "tree_root l" "tree_root r" "node hs k (2 * p)" "node hs k (Suc (2 * p))"] length_tree_root [of l]
      length_node [OF assms w(1)] Branch.prems w by (auto simp: h Let_def)
  then show ?case
  proof cases
    case 1
    then have "list_all (\<lambda>(x, i). i < length hs \<and> x = hs ! i) (tree_matches (2 * p) l) \<or> exhibit_collision (tree_strings l) (node_strings hs k (2 * p))"
        "list_all (\<lambda>(x, i). i < length hs \<and> x = hs ! i) (tree_matches (2 * p + 1) r) \<or> exhibit_collision (tree_strings r) (node_strings hs k (2 * p + 1))"
      using Branch w by (simp_all add: h)
    then show ?thesis using w
        exhibit_mono [of "tree_strings l" "node_strings hs k (2 * p)" "tree_strings (Branch l r)" "node_strings hs h p"]
        exhibit_mono [of "tree_strings r" "node_strings hs k (2 * p + 1)" "tree_strings (Branch l r)" "node_strings hs h p"]
      by (auto simp: h Let_def)
  qed simp
qed

section \<open>Codecs\<close>

lemma bit_pack:
  "bit (fold (\<lambda>(i, b) byte. byte OR push_bit i (of_bool b)) (enumerate k c) (a :: u8)) j \<longleftrightarrow>
     bit a j \<or> j < 8 \<and> k \<le> j \<and> j - k < length c \<and> c ! (j - k)"
proof (induction c arbitrary: k a)
  case (Cons b c)
  have "bit (a OR push_bit k (of_bool b)) j \<longleftrightarrow> bit a j \<or> j < 8 \<and> j = k \<and> b" by (cases b) (auto simp: bit_simps)
  then show ?case unfolding enumerate_simps fold_simps prod.case Cons.IH by (auto simp: nth_Cons' Suc_le_eq)
qed simp

lemma bit_pack_byte: "bit (pack_byte c) j \<longleftrightarrow> j < 8 \<and> j < length c \<and> c ! j"
  by (simp add: pack_byte_def bit_pack)

lemma unpack_byte_eq: "unpack_byte b = map (bit b) [0..<8]"
  unfolding unpack_byte_def by (simp add: bit_iff_and_push_bit_not_eq_0)

definition pad :: "bool list \<Rightarrow> bool list" where
  "pad bs = bs @ replicate ((8 - length bs mod 8) mod 8) False"

lemma unpack_pack: "length c \<le> 8 \<Longrightarrow> unpack_byte (pack_byte c) = c @ replicate (8 - length c) False"
  by (rule nth_equalityI) (auto simp: unpack_byte_eq bit_pack_byte nth_append)

lemma pack_unpack: "pack_byte (unpack_byte b) = b"
  by (rule bit_word_eqI) (simp add: bit_pack_byte unpack_byte_eq)

lemma length_chunks8: "length (chunks8 xs) = (length xs + 7) div 8"
proof (induction xs rule: chunks8.induct)
  case (1 xs)
  show ?case
  proof (cases "xs = []")
    case False
    then have "(length xs + 7) div 8 = Suc ((length xs - 8 + 7) div 8)"
      by (cases xs) (simp_all, presburger)
    then show ?thesis using 1 False by (subst chunks8.simps) simp
  qed (simp add: chunks8.simps)
qed

lemma pad_drop: "8 \<le> length bs \<Longrightarrow> pad bs = take 8 bs @ pad (drop 8 bs)"
  by (simp add: pad_def le_mod_geq)

lemma unpack_chunks: "concat (map (\<lambda>c. unpack_byte (pack_byte c)) (chunks8 bs)) = pad bs"
proof (induction bs rule: chunks8.induct)
  case (1 bs)
  show ?case
  proof (cases "8 \<le> length bs")
    case True
    then have "bs \<noteq> []" by auto
    then show ?thesis using 1 True by (subst chunks8.simps) (simp add: unpack_pack pad_drop)
  next
    case False
    then show ?thesis by (subst chunks8.simps) (auto simp: unpack_pack pad_def chunks8.simps mod_less)
  qed
qed

lemma chunks_unpack: "map pack_byte (chunks8 (concat (map unpack_byte bs))) = bs"
proof (induction bs)
  case (Cons b bs)
  have "length (unpack_byte b) = 8" by (simp add: unpack_byte_def)
  then have "chunks8 (unpack_byte b @ xs) = unpack_byte b # chunks8 xs" for xs by (subst chunks8.simps) auto
  then show ?case using Cons by (simp add: pack_unpack)
qed (simp add: chunks8.simps)

lemma length_unpack: "length (concat (map unpack_byte bs)) = 8 * length bs"
  by (induction bs) (simp_all add: unpack_byte_def)

definition pmt_ok :: "PartialMerkleTree \<Rightarrow> bool" where
  "pmt_ok t \<longleftrightarrow> vec_ok (\<lambda>a. length a = 32) (pmt_hashes t) \<and> length (fst (enc_vec enc_array (pmt_hashes t))) \<le> MAX_VEC_SIZE \<and>
     length (pmt_bits t) mod 8 = 0 \<and> length (pmt_bits t) div 8 \<le> MAX_VEC_SIZE"

lemma pad_length: "length (pad bs) = 8 * ((length bs + 7) div 8)"
  using length_unpack [of "map pack_byte (chunks8 bs)"] unpack_chunks [of bs] by (simp add: length_chunks8 comp_def)

lemma pad_aligned: "length bs mod 8 = 0 \<Longrightarrow> pad bs = bs"
  by (simp add: pad_def)

lemma chunks_pad: "map pack_byte (chunks8 (pad bs)) = map pack_byte (chunks8 bs)"
  using chunks_unpack [of "map pack_byte (chunks8 bs)"] unpack_chunks [of bs] by (simp add: comp_def)

interpretation limited_hashes: codec "enc_vec enc_array" "consensus_decode (dec_vec (dec_array 32))"
    "\<lambda>hs. vec_ok (\<lambda>a. length a = 32) hs \<and> length (fst (enc_vec enc_array hs)) \<le> MAX_VEC_SIZE"
  unfolding consensus_decode_def by (rule hash_vec_codec.limited)

lemma dec_pmt_padded:
  assumes "pmt_ok (t\<lparr> pmt_bits := pad (pmt_bits t) \<rparr>)"
  shows "dec_PartialMerkleTree (fst (enc_PartialMerkleTree t) @ rest) = Inr (t\<lparr> pmt_bits := pad (pmt_bits t) \<rparr>, rest)"
proof -
  let ?k = "(length (pmt_bits t) + 7) div 8" and ?bs = "map pack_byte (chunks8 (pmt_bits t))"
  have k: "?k \<le> MAX_VEC_SIZE" using assms by (simp add: pmt_ok_def pad_length)
  then have u: "unat (word_of_nat ?k :: u64) = ?k" by (simp add: unat_len MAX_VEC_SIZE_def)
  have "dec_elems read_u8 ?k (fst (enc_elems emit_u8 ?bs) @ rest) = Inr (?bs, rest)"
    using u8_codec.elems_dec_enc [of ?bs rest] by (simp add: list_all_iff length_chunks8)
  then show ?thesis using assms k u unfolding enc_PartialMerkleTree_def dec_PartialMerkleTree_def
    by (simp add: dbind_Inr_iff u32_codec.dec_enc limited_hashes.dec_enc varint_codec.dec_enc pmt_ok_def comp_def unpack_chunks)
qed

lemma dec_pmt_canonical:
  "dec_PartialMerkleTree bs = Inr (t, rest) \<Longrightarrow> pmt_ok t \<and> bs = fst (enc_PartialMerkleTree t) @ rest"
proof -
  assume "dec_PartialMerkleTree bs = Inr (t, rest)"
  then obtain n r1 hs r2 v r3 cs where d: "decode_int bs = Inr (n, r1)" "consensus_decode (dec_vec (dec_array 32)) r1 = Inr (hs, r2)"
      "dec_VarInt r2 = Inr (v, r3)" "\<not> unat (varint_0 v) > MAX_VEC_SIZE" "dec_elems read_u8 (unat (varint_0 v)) r3 = Inr (cs, rest)"
      "t = \<lparr> num_transactions = n, pmt_bits = concat (map unpack_byte cs), pmt_hashes = hs \<rparr>"
    unfolding dec_PartialMerkleTree_def by (auto simp: dbind_Inr_iff Let_def dfail_def split: if_splits)
  have cs: "length cs = unat (varint_0 v)" "r3 = fst (enc_elems emit_u8 cs) @ rest"
    using u8_codec.elems_canonical [OF d(5)] by auto
  have "(length (pmt_bits t) + 7) div 8 = length cs" by (simp add: d(6) length_unpack)
  then have "VarInt (word_of_nat ((length (pmt_bits t) + 7) div 8)) = v" using cs(1) by (cases v) simp
  then have "bs = fst (enc_PartialMerkleTree t) @ rest"
    using u32_codec.canonical [OF d(1)] limited_hashes.canonical [OF d(2)] varint_codec.canonical [OF d(3)] cs d(6)
    by (simp add: enc_PartialMerkleTree_def chunks_unpack)
  then show ?thesis using limited_hashes.canonical [OF d(2)] d(4,6) cs(1) by (simp add: pmt_ok_def length_unpack)
qed

interpretation pmt_codec: codec enc_PartialMerkleTree dec_PartialMerkleTree pmt_ok
proof
  fix t rest
  assume "pmt_ok t"
  then have "t\<lparr> pmt_bits := pad (pmt_bits t) \<rparr> = t" by (simp add: pmt_ok_def pad_aligned)
  then show "dec_PartialMerkleTree (fst (enc_PartialMerkleTree t) @ rest) = Inr (t, rest)"
    using dec_pmt_padded [of t rest] \<open>pmt_ok t\<close> by simp
next
  fix t
  show "snd (enc_PartialMerkleTree t) = length (fst (enc_PartialMerkleTree t))"
    by (simp add: enc_PartialMerkleTree_def u32_codec.enc_len hash_vec_codec.enc_len varint_codec.enc_len u8_codec.elems_enc_len)
next
  show "\<And>bs t rest. dec_PartialMerkleTree bs = Inr (t, rest) \<Longrightarrow> pmt_ok t \<and> bs = fst (enc_PartialMerkleTree t) @ rest"
    by (rule dec_pmt_canonical)
qed

interpretation limited_header: codec enc_Header "consensus_decode dec_Header"
    "\<lambda>h. header_ok h \<and> length (fst (enc_Header h)) \<le> MAX_VEC_SIZE"
  unfolding consensus_decode_def by (rule header_codec.limited)

interpretation limited_pmt: codec enc_PartialMerkleTree "consensus_decode dec_PartialMerkleTree"
    "\<lambda>t. pmt_ok t \<and> length (fst (enc_PartialMerkleTree t)) \<le> MAX_VEC_SIZE"
  unfolding consensus_decode_def by (rule pmt_codec.limited)

definition merkle_block_ok :: "MerkleBlock \<Rightarrow> bool" where
  "merkle_block_ok mb \<longleftrightarrow> header_ok (mb_header mb) \<and> pmt_ok (mb_txn mb) \<and> length (fst (enc_PartialMerkleTree (mb_txn mb))) \<le> MAX_VEC_SIZE"

interpretation merkle_block_codec: codec enc_MerkleBlock dec_MerkleBlock merkle_block_ok
  using length_enc_Header
  by unfold_locales
    (auto simp: enc_MerkleBlock_def dec_MerkleBlock_def merkle_block_ok_def dbind_Inr_iff limited_header.dec_enc limited_pmt.dec_enc
      header_codec.enc_len pmt_codec.enc_len header_SIZE_def MAX_VEC_SIZE_def dest!: limited_header.canonical limited_pmt.canonical)

section \<open>Built trees on the wire\<close>

lemma hashes_nonempty: "0 < length (tree_hashes t)"
  by (induction t) simp_all

lemma bits_bound: "shape n h p t \<Longrightarrow> length (tree_bits t) \<le> (h + 1) * length (tree_hashes t)"
proof (induction t arbitrary: h p)
  case (Single t)
  then obtain k where h: "h = Suc k" by (cases h) auto
  have "length (tree_bits t) \<le> (k + 1) * length (tree_hashes t)" using Single.IH [of k "2 * p"] Single.prems by (simp add: h)
  then show ?case using hashes_nonempty [of t] by (simp add: h del: length_greater_0_conv)
next
  case (Branch l r)
  then obtain k where h: "h = Suc k" by (cases h) auto
  have "length (tree_bits l) \<le> (k + 1) * length (tree_hashes l)" "length (tree_bits r) \<le> (k + 1) * length (tree_hashes r)"
    using Branch.IH(1) [of k "2 * p"] Branch.IH(2) [of k "2 * p + 1"] Branch.prems by (simp_all add: h)
  then show ?case using hashes_nonempty [of l] by (simp add: h algebra_simps del: length_greater_0_conv)
qed simp

lemma ptree_of_hashes:
  "list_all (\<lambda>x. length x = 32) hs \<Longrightarrow> p < level_width (length hs) h \<Longrightarrow> list_all (\<lambda>x. length x = 32) (tree_hashes (ptree_of hs ms h p))"
proof (induction h arbitrary: p)
  case 0
  then show ?case by (simp add: list_all_length)
next
  case (Suc h)
  then have "2 * p < level_width (length hs) h" by (simp add: level_width_Suc)
  then show ?case using Suc by simp
qed

lemma presents_pad: "presents q t \<Longrightarrow> presents (q\<lparr> pmt_bits := pad (pmt_bits q) \<rparr>) t"
proof -
  assume a: "presents q t"
  have "(8 * k + 7) div 8 = k" for k :: nat by simp
  then show ?thesis using a by (auto simp: presents_def pad_length) (auto simp: pad_def prefix_def)
qed

abbreviation block_tree :: "bytes list \<Rightarrow> bool list \<Rightarrow> ptree" where
  "block_tree hs ms \<equiv> ptree_of hs ms (tree_height (length hs)) 0"

lemma height_covers: "0 < n \<Longrightarrow> n \<le> 2 ^ tree_height n"
proof -
  assume "0 < n"
  then have "(n + (2 ^ tree_height n - 1)) div 2 ^ tree_height n < 2" using tree_height_width [of n] by (simp add: level_width_def)
  then have "n + (2 ^ tree_height n - 1) < 2 * 2 ^ tree_height n" by (subst (asm) div_less_iff_less_mult) simp_all
  then show ?thesis by simp
qed

lemma block_matches:
  assumes "0 < length hs"
  shows "tree_matches 0 (block_tree hs (map f hs)) = map (\<lambda>i. (hs ! i, i)) (filter (\<lambda>i. f (hs ! i)) [0..<length hs])"
proof -
  have "min ((0 + 1) * 2 ^ tree_height (length hs)) (length hs) = length hs" using height_covers [OF assms] by simp
  moreover have "filter ((!) (map f hs)) [0..<length hs] = filter (\<lambda>i. f (hs ! i)) [0..<length hs]" by (rule filter_cong) simp_all
  ultimately show ?thesis by (simp add: ptree_of_matches)
qed

lemma from_txids_presents:
  assumes "0 < length hs" "length hs \<le> max_txs" "length ms = length hs"
  obtains q where "from_txids oc hs ms = Some q" "presents q (block_tree hs ms)" "pmt_bits q = tree_bits (block_tree hs ms)"
proof -
  have n: "length hs < 2 ^ 31" using assms(2) by (simp add: max_txs_def)
  then have u: "unat (word_of_nat (length hs) :: u32) = length hs" by (simp add: unat_of_nat)
  let ?q = "\<lparr> num_transactions = word_of_nat (length hs), pmt_bits = tree_bits (block_tree hs ms), pmt_hashes = tree_hashes (block_tree hs ms) \<rparr>"
  have "0 < level_width (length hs) (tree_height (length hs))" using tree_height_width [OF assms(1)] by simp
  then have "from_txids oc hs ms = Some ?q"
    using assms(1,3) n u build_tree [OF n tree_height_less [OF n]]
    by (simp add: from_txids_def calc_tree_height_eq)
  moreover have "presents ?q (block_tree hs ms)"
    using assms u ptree_of_shape [of hs "tree_height (length hs)" 0 ms] by (simp add: presents_def)
  ultimately show thesis using that by simp
qed

lemma presents_sizes:
  assumes "presents q t"
  shows "length (pmt_hashes q) \<le> max_txs" and "length (tree_bits t) \<le> 32 * max_txs"
proof -
  let ?n = "unat (num_transactions q)"
  have n: "0 < ?n" "?n \<le> max_txs" and sh: "shape ?n (tree_height ?n) 0 t" and hs: "pmt_hashes q = tree_hashes t"
    using assms by (auto simp: presents_def)
  have le: "length (tree_hashes t) \<le> ?n" using leaf_count [OF sh] tree_height_width [OF n(1)] by simp
  then show "length (pmt_hashes q) \<le> max_txs" using n hs by simp
  have "tree_height ?n + 1 \<le> 32" using tree_height_less [of ?n] n by (simp add: max_txs_def)
  then have "length (tree_bits t) \<le> 32 * length (tree_hashes t)"
    using bits_bound [OF sh] mult_le_mono1 le_trans by blast
  then show "length (tree_bits t) \<le> 32 * max_txs" using le n by simp
qed

lemma enc_hashes_length:
  "list_all (\<lambda>x. length x = 32) hs \<Longrightarrow> length (fst (enc_vec enc_array hs)) \<le> 9 + 32 * length hs"
proof -
  assume "list_all (\<lambda>x. length x = 32) hs"
  then have "length (fst (enc_elems enc_array hs)) = 32 * length hs" by (induction hs) (simp_all add: enc_array_def emit_slice_def)
  moreover have "length (fst (enc_VarInt v)) \<le> 9" for v
    unfolding varint_size_eq [symmetric] by (simp add: varint_size_def)
  ultimately show ?thesis by (simp add: enc_vec_def)
qed

lemma presents_wire:
  assumes "presents q t" "list_all (\<lambda>x. length x = 32) (tree_hashes t)"
  defines "q' \<equiv> q\<lparr> pmt_bits := pad (pmt_bits q) \<rparr>"
  shows "pmt_ok q'" and "length (fst (enc_PartialMerkleTree q')) \<le> MAX_VEC_SIZE" and "vectors_small q'"
proof -
  note sizes = presents_sizes [OF assms(1)]
  have hs: "pmt_hashes q = tree_hashes t" "(length (pmt_bits q) + 7) div 8 = (length (tree_bits t) + 7) div 8"
    using assms(1) by (simp_all add: presents_def)
  have e: "length (fst (enc_vec enc_array (pmt_hashes q))) \<le> 9 + 32 * max_txs"
    using enc_hashes_length [OF assms(2)] sizes(1) hs by simp
  have b: "(length (tree_bits t) + 7) div 8 \<le> 4 * max_txs + 1" using sizes(2) by simp
  show "pmt_ok q'"
    using assms(2) e b sizes(1) hs by (simp add: pmt_ok_def q'_def vec_ok_def pad_length max_txs_def MAX_VEC_SIZE_def)
  show "vectors_small q'" using sizes b hs(2) by (simp add: vectors_small_def q'_def pad_length max_txs_def)
  have "length (fst (enc_elems emit_u8 cs)) = length cs" for cs by (induction cs) (simp_all add: emit_u8_def)
  moreover have "length (fst (enc_VarInt (VarInt (word_of_nat ((length (tree_bits t) + 7) div 8))))) \<le> 9"
    unfolding varint_size_eq [symmetric] by (simp add: varint_size_def)
  moreover have "length (fst (encode_int (num_transactions q))) = 4" by (simp add: encode_int_def)
  ultimately have "length (fst (enc_PartialMerkleTree q')) \<le> 4 + (9 + 32 * max_txs) + 9 + (4 * max_txs + 1)"
    using e b hs(2) by (simp add: enc_PartialMerkleTree_def q'_def length_chunks8 pad_length add_le_mono)
  then show "length (fst (enc_PartialMerkleTree q')) \<le> MAX_VEC_SIZE" by (simp add: max_txs_def MAX_VEC_SIZE_def)
qed

lemma enc_pad: "enc_PartialMerkleTree (q\<lparr> pmt_bits := pad (pmt_bits q) \<rparr>) = enc_PartialMerkleTree q"
  by (simp add: enc_PartialMerkleTree_def chunks_pad pad_length)

section \<open>Properties\<close>

text \<open>(C37) Partial merkle trees are serializations of abstract trees: extraction always returns, and it succeeds with a
  root and a list of matches exactly when the flags and hashes present a tree of the right shape, without
  identical siblings, whose root and matched leaves these are.\<close>

theorem partial_merkle_exact:
  assumes "vectors_small q"
  shows "(\<exists>r. extract_matches oc q = Some r) \<and>
    (extract_matches oc q = Some (Inr root, ms, ixs) \<longleftrightarrow>
      (\<exists>t. presents q t \<and> siblings_differ t \<and> root = tree_root t \<and> ms = map fst (tree_matches 0 t) \<and> ixs = map snd (tree_matches 0 t)))"
proof
  show "\<exists>r. extract_matches oc q = Some r" by (rule extract_returns)
  show "extract_matches oc q = Some (Inr root, ms, ixs) \<longleftrightarrow>
      (\<exists>t. presents q t \<and> siblings_differ t \<and> root = tree_root t \<and> ms = map fst (tree_matches 0 t) \<and> ixs = map snd (tree_matches 0 t))"
    using extract_gives_tree [OF assms] extract_presented [OF assms] by fastforce
qed

theorem partial_merkle_exact_witness:
  "extract_matches True \<lparr> num_transactions = 1, pmt_bits = [True], pmt_hashes = [[7]] \<rparr> = Some (Inr [7], [[7]], [0])"
proof -
  let ?q = "\<lparr> num_transactions = 1, pmt_bits = [True], pmt_hashes = [[7 :: u8]] \<rparr>"
  have "vectors_small ?q" by (simp add: vectors_small_def)
  moreover have "presents ?q (Stored True [7])" by (simp add: presents_def max_txs_def)
  ultimately show ?thesis using partial_merkle_exact [of ?q True "[7]" "[[7]]" "[0]"] by force
qed

text \<open>(C7) Completeness of merkle blocks: for a block of at most 16666 transactions whose merkle root is right, the
  merkle block built for a predicate survives serialization up to the padding of its flags, and extraction
  from the result gives exactly the transaction identifiers that satisfy the predicate, in order, with their
  positions, unless two siblings above a match are identical, which is reported.\<close>

theorem merkle_block_complete:
  assumes "block_ok b" "txdata b \<noteq> []" "length (txdata b) \<le> max_txs" "check_merkle_root b = Some True"
  shows "\<exists>mb mb' ms ixs. from_block_with_predicate oc b f = Some mb \<and>
    deserialize dec_MerkleBlock (serialize enc_MerkleBlock mb) = Inr mb' \<and>
    (let ids = map compute_txid (txdata b);
         fresh = siblings_differ (block_tree ids (map f ids))
     in mb_extract_matches oc mb' = Some (if fresh then Inr () else Inl IdenticalHashesFound, ms, ixs) \<and>
        (fresh \<longrightarrow> ixs = filter (\<lambda>i. f (ids ! i)) [0..<length ids] \<and> ms = map ((!) ids) ixs))"
proof -
  define ids where "ids = map compute_txid (txdata b)"
  let ?T = "block_tree ids (map f ids)"
  have ids: "0 < length ids" "length ids \<le> max_txs" "list_all (\<lambda>x. length x = 32) ids"
    using assms by (simp_all add: ids_def list_all_iff length_compute_txid)
  obtain q where q: "from_txids oc ids (map f ids) = Some q" "presents q ?T"
    using from_txids_presents [of ids "map f ids" oc] ids by auto
  define q' where "q' = q\<lparr> pmt_bits := pad (pmt_bits q) \<rparr>"
  have w: "0 < level_width (length ids) (tree_height (length ids))" using tree_height_width [OF ids(1)] by simp
  note wire = presents_wire [OF q(2) ptree_of_hashes [OF ids(3) w], folded q'_def]
  define mb where "mb = \<lparr> mb_header = blk_header b, mb_txn = q \<rparr>"
  define mb' where "mb' = \<lparr> mb_header = blk_header b, mb_txn = q' \<rparr>"
  have "merkle_block_ok mb'" using assms(1) wire by (simp add: merkle_block_ok_def mb'_def block_ok_def)
  moreover have "serialize enc_MerkleBlock mb = serialize enc_MerkleBlock mb'"
    by (simp add: serialize_def enc_MerkleBlock_def mb_def mb'_def q'_def enc_pad)
  ultimately have "deserialize dec_MerkleBlock (serialize enc_MerkleBlock mb) = Inr mb'"
    by (simp add: merkle_block_codec.deserialize_serialize)
  moreover have "from_block_with_predicate oc b f = Some mb"
    using q(1) by (simp add: from_block_with_predicate_def from_header_txids_with_predicate_def ids_def mb_def)
  moreover obtain ms ixs where x: "extract_matches oc q' = Some (if siblings_differ ?T then Inr (tree_root ?T) else Inl IdenticalHashesFound, ms, ixs)"
      "siblings_differ ?T \<longrightarrow> ms = map fst (tree_matches 0 ?T) \<and> ixs = map snd (tree_matches 0 ?T)"
    using extract_presented [OF wire(3) presents_pad [OF q(2), folded q'_def]] by blast
  moreover have "tree_root ?T = hdr_merkle_root (blk_header b)"
    using assms(2,4) by (simp add: ptree_of_root check_merkle_root_def blk_compute_merkle_root_def calculate_root_eq merkle_root_def ids_def)
  moreover have "map snd (tree_matches 0 ?T) = filter (\<lambda>i. f (ids ! i)) [0..<length ids]"
      "map fst (tree_matches 0 ?T) = map ((!) ids) (filter (\<lambda>i. f (ids ! i)) [0..<length ids])"
    by (simp_all add: block_matches [OF ids(1)] comp_def)
  ultimately show ?thesis
    unfolding ids_def [symmetric] Let_def by (intro exI [of _ mb] exI [of _ mb'] exI [of _ ms] exI [of _ ixs]) (simp add: mb_extract_matches_def mb'_def)
qed

theorem merkle_block_complete_witness:
  "\<exists>mb mb'. from_block_with_predicate True sample_block (\<lambda>_. True) = Some mb \<and>
     deserialize dec_MerkleBlock (serialize enc_MerkleBlock mb) = Inr mb' \<and>
     mb_extract_matches True mb' = Some (Inr (), map compute_txid (txdata sample_block), [0])"
proof -
  have "merkle_root [compute_txid sample_tx] = compute_txid sample_tx" by (simp add: merkle_root_def)
  then have "block_ok sample_block" "check_merkle_root sample_block = Some True"
    using sample_tx_ok by (simp_all add: block_ok_def sample_block_def header_ok_def vec_ok_def length_compute_txid check_merkle_root_def
        blk_compute_merkle_root_def calculate_root_eq)
  then show ?thesis
    using merkle_block_complete [of sample_block True "\<lambda>_. True"]
    by (auto simp: sample_block_def max_txs_def)
qed

text \<open>(C6) Soundness of merkle blocks: if extraction accepts a merkle block whose header carries the merkle root of a
  list of transaction identifiers of the claimed length, then every reported match is the identifier at the
  reported position of that list, or the hashes of the merkle block and of the list exhibit a collision of the
  double hash.\<close>

theorem merkle_block_sound:
  assumes "mb_extract_matches oc mb = Some (Inr (), ms, ixs)" and "vectors_small (mb_txn mb)"
    and "list_all (\<lambda>x. length x = 32) (pmt_hashes (mb_txn mb))" and "list_all (\<lambda>x. length x = 32) ids"
    and "hdr_merkle_root (mb_header mb) = merkle_root ids" and "unat (num_transactions (mb_txn mb)) = length ids"
  shows "\<exists>t. presents (mb_txn mb) t \<and> length ms = length ixs \<and>
    (list_all (\<lambda>(x, i). i < length ids \<and> x = ids ! i) (zip ms ixs) \<or>
     exhibit_collision (tree_strings t) (node_strings ids (tree_height (length ids)) 0))"
proof -
  obtain a where a: "extract_matches oc (mb_txn mb) = Some (a, ms, ixs)"
    using assms(1) by (auto simp: mb_extract_matches_def)
  then obtain root where "extract_matches oc (mb_txn mb) = Some (Inr root, ms, ixs)" and r: "root = merkle_root ids"
    using assms(1,5) by (cases a) (simp_all add: mb_extract_matches_def split: if_splits)
  then obtain t where t: "presents (mb_txn mb) t" "root = tree_root t" "ms = map fst (tree_matches 0 t)" "ixs = map snd (tree_matches 0 t)"
    using extract_gives_tree [OF assms(2)] by blast
  have n: "0 < length ids" "shape (length ids) (tree_height (length ids)) 0 t" "pmt_hashes (mb_txn mb) = tree_hashes t"
    using t(1) assms(6) by (auto simp: presents_def)
  have "list_all (\<lambda>(x, i). i < length ids \<and> x = ids ! i) (tree_matches 0 t) \<or>
      exhibit_collision (tree_strings t) (node_strings ids (tree_height (length ids)) 0)"
    using matches_in_block [OF assms(4) n(2)] tree_height_width [OF n(1)] assms(3) n(3) t(2) r by (simp add: merkle_root_def)
  then show ?thesis using t by (intro exI [of _ t]) (simp add: zip_map_fst_snd)
qed

theorem merkle_block_sound_witness:
  "\<exists>t. presents \<lparr> num_transactions = 1, pmt_bits = [True], pmt_hashes = [replicate 32 7] \<rparr> t \<and>
     (list_all (\<lambda>(x, i). i < 1 \<and> x = [replicate 32 7] ! i) (zip [replicate 32 7] [0 :: nat]) \<or>
      exhibit_collision (tree_strings t) (node_strings [replicate 32 7] 0 0))"
proof -
  let ?q = "\<lparr> num_transactions = 1, pmt_bits = [True], pmt_hashes = [replicate 32 (7 :: u8)] \<rparr>"
  let ?mb = "\<lparr> mb_header = (blk_header sample_block)\<lparr> hdr_merkle_root := replicate 32 7 \<rparr>, mb_txn = ?q \<rparr>"
  have p: "presents ?q (Stored True (replicate 32 7))" by (simp add: presents_def max_txs_def)
  have v: "vectors_small ?q" by (simp add: vectors_small_def)
  have "mb_extract_matches True ?mb = Some (Inr (), [replicate 32 7], [0])"
    using extract_presented [OF v p, of True] by (auto simp: mb_extract_matches_def)
  then show ?thesis
    using merkle_block_sound [of True ?mb "[replicate 32 7]" "[0]" "[replicate 32 7]"] v by (auto simp: merkle_root_def)
qed

end
