(* ===== verification/Opcodes.thy ===== *)
theory Opcodes
  imports Block
begin

text \<open>
  Script opcodes, \<open>bitcoin/src/blockdata/opcodes.rs\<close>: the opcodes that the code names, their classification in the
  two contexts, and the script numbers of \<open>bitcoin/src/blockdata/script/mod.rs\<close>. An opcode is any byte; the
  constants \<open>OP_PUSHBYTES_n\<close>, \<open>OP_PUSHNUM_n\<close> and the synonyms of \<open>OP_RETURN\<close> that the code does not name are bytes
  of the ranges tested by \<open>classify\<close>.
\<close>

section \<open>Opcodes\<close>

datatype Opcode = Opcode (op_code: u8)

abbreviation OP_PUSHBYTES_0 :: Opcode where "OP_PUSHBYTES_0 \<equiv> Opcode 0x00"
abbreviation OP_PUSHBYTES_2 :: Opcode where "OP_PUSHBYTES_2 \<equiv> Opcode 0x02"
abbreviation OP_PUSHBYTES_20 :: Opcode where "OP_PUSHBYTES_20 \<equiv> Opcode 0x14"
abbreviation OP_PUSHBYTES_32 :: Opcode where "OP_PUSHBYTES_32 \<equiv> Opcode 0x20"
abbreviation OP_PUSHBYTES_33 :: Opcode where "OP_PUSHBYTES_33 \<equiv> Opcode 0x21"
abbreviation OP_PUSHBYTES_40 :: Opcode where "OP_PUSHBYTES_40 \<equiv> Opcode 0x28"
abbreviation OP_PUSHBYTES_65 :: Opcode where "OP_PUSHBYTES_65 \<equiv> Opcode 0x41"
abbreviation OP_PUSHBYTES_75 :: Opcode where "OP_PUSHBYTES_75 \<equiv> Opcode 0x4b"
abbreviation OP_PUSHDATA1 :: Opcode where "OP_PUSHDATA1 \<equiv> Opcode 0x4c"
abbreviation OP_PUSHDATA2 :: Opcode where "OP_PUSHDATA2 \<equiv> Opcode 0x4d"
abbreviation OP_PUSHDATA4 :: Opcode where "OP_PUSHDATA4 \<equiv> Opcode 0x4e"
abbreviation OP_PUSHNUM_NEG1 :: Opcode where "OP_PUSHNUM_NEG1 \<equiv> Opcode 0x4f"
abbreviation OP_RESERVED :: Opcode where "OP_RESERVED \<equiv> Opcode 0x50"
abbreviation OP_PUSHNUM_1 :: Opcode where "OP_PUSHNUM_1 \<equiv> Opcode 0x51"
abbreviation OP_PUSHNUM_16 :: Opcode where "OP_PUSHNUM_16 \<equiv> Opcode 0x60"
abbreviation OP_NOP :: Opcode where "OP_NOP \<equiv> Opcode 0x61"
abbreviation OP_VER :: Opcode where "OP_VER \<equiv> Opcode 0x62"
abbreviation OP_IF :: Opcode where "OP_IF \<equiv> Opcode 0x63"
abbreviation OP_NOTIF :: Opcode where "OP_NOTIF \<equiv> Opcode 0x64"
abbreviation OP_VERIF :: Opcode where "OP_VERIF \<equiv> Opcode 0x65"
abbreviation OP_VERNOTIF :: Opcode where "OP_VERNOTIF \<equiv> Opcode 0x66"
abbreviation OP_ELSE :: Opcode where "OP_ELSE \<equiv> Opcode 0x67"
abbreviation OP_ENDIF :: Opcode where "OP_ENDIF \<equiv> Opcode 0x68"
abbreviation OP_VERIFY :: Opcode where "OP_VERIFY \<equiv> Opcode 0x69"
abbreviation OP_RETURN :: Opcode where "OP_RETURN \<equiv> Opcode 0x6a"
abbreviation OP_TOALTSTACK :: Opcode where "OP_TOALTSTACK \<equiv> Opcode 0x6b"
abbreviation OP_FROMALTSTACK :: Opcode where "OP_FROMALTSTACK \<equiv> Opcode 0x6c"
abbreviation OP_2DROP :: Opcode where "OP_2DROP \<equiv> Opcode 0x6d"
abbreviation OP_2DUP :: Opcode where "OP_2DUP \<equiv> Opcode 0x6e"
abbreviation OP_3DUP :: Opcode where "OP_3DUP \<equiv> Opcode 0x6f"
abbreviation OP_2OVER :: Opcode where "OP_2OVER \<equiv> Opcode 0x70"
abbreviation OP_2ROT :: Opcode where "OP_2ROT \<equiv> Opcode 0x71"
abbreviation OP_2SWAP :: Opcode where "OP_2SWAP \<equiv> Opcode 0x72"
abbreviation OP_IFDUP :: Opcode where "OP_IFDUP \<equiv> Opcode 0x73"
abbreviation OP_DEPTH :: Opcode where "OP_DEPTH \<equiv> Opcode 0x74"
abbreviation OP_DROP :: Opcode where "OP_DROP \<equiv> Opcode 0x75"
abbreviation OP_DUP :: Opcode where "OP_DUP \<equiv> Opcode 0x76"
abbreviation OP_NIP :: Opcode where "OP_NIP \<equiv> Opcode 0x77"
abbreviation OP_OVER :: Opcode where "OP_OVER \<equiv> Opcode 0x78"
abbreviation OP_PICK :: Opcode where "OP_PICK \<equiv> Opcode 0x79"
abbreviation OP_ROLL :: Opcode where "OP_ROLL \<equiv> Opcode 0x7a"
abbreviation OP_ROT :: Opcode where "OP_ROT \<equiv> Opcode 0x7b"
abbreviation OP_SWAP :: Opcode where "OP_SWAP \<equiv> Opcode 0x7c"
abbreviation OP_TUCK :: Opcode where "OP_TUCK \<equiv> Opcode 0x7d"
abbreviation OP_CAT :: Opcode where "OP_CAT \<equiv> Opcode 0x7e"
abbreviation OP_SUBSTR :: Opcode where "OP_SUBSTR \<equiv> Opcode 0x7f"
abbreviation OP_LEFT :: Opcode where "OP_LEFT \<equiv> Opcode 0x80"
abbreviation OP_RIGHT :: Opcode where "OP_RIGHT \<equiv> Opcode 0x81"
abbreviation OP_SIZE :: Opcode where "OP_SIZE \<equiv> Opcode 0x82"
abbreviation OP_INVERT :: Opcode where "OP_INVERT \<equiv> Opcode 0x83"
abbreviation OP_AND :: Opcode where "OP_AND \<equiv> Opcode 0x84"
abbreviation OP_OR :: Opcode where "OP_OR \<equiv> Opcode 0x85"
abbreviation OP_XOR :: Opcode where "OP_XOR \<equiv> Opcode 0x86"
abbreviation OP_EQUAL :: Opcode where "OP_EQUAL \<equiv> Opcode 0x87"
abbreviation OP_EQUALVERIFY :: Opcode where "OP_EQUALVERIFY \<equiv> Opcode 0x88"
abbreviation OP_RESERVED1 :: Opcode where "OP_RESERVED1 \<equiv> Opcode 0x89"
abbreviation OP_RESERVED2 :: Opcode where "OP_RESERVED2 \<equiv> Opcode 0x8a"
abbreviation OP_1ADD :: Opcode where "OP_1ADD \<equiv> Opcode 0x8b"
abbreviation OP_1SUB :: Opcode where "OP_1SUB \<equiv> Opcode 0x8c"
abbreviation OP_2MUL :: Opcode where "OP_2MUL \<equiv> Opcode 0x8d"
abbreviation OP_2DIV :: Opcode where "OP_2DIV \<equiv> Opcode 0x8e"
abbreviation OP_NEGATE :: Opcode where "OP_NEGATE \<equiv> Opcode 0x8f"
abbreviation OP_ABS :: Opcode where "OP_ABS \<equiv> Opcode 0x90"
abbreviation OP_NOT :: Opcode where "OP_NOT \<equiv> Opcode 0x91"
abbreviation OP_0NOTEQUAL :: Opcode where "OP_0NOTEQUAL \<equiv> Opcode 0x92"
abbreviation OP_ADD :: Opcode where "OP_ADD \<equiv> Opcode 0x93"
abbreviation OP_SUB :: Opcode where "OP_SUB \<equiv> Opcode 0x94"
abbreviation OP_MUL :: Opcode where "OP_MUL \<equiv> Opcode 0x95"
abbreviation OP_DIV :: Opcode where "OP_DIV \<equiv> Opcode 0x96"
abbreviation OP_MOD :: Opcode where "OP_MOD \<equiv> Opcode 0x97"
abbreviation OP_LSHIFT :: Opcode where "OP_LSHIFT \<equiv> Opcode 0x98"
abbreviation OP_RSHIFT :: Opcode where "OP_RSHIFT \<equiv> Opcode 0x99"
abbreviation OP_BOOLAND :: Opcode where "OP_BOOLAND \<equiv> Opcode 0x9a"
abbreviation OP_BOOLOR :: Opcode where "OP_BOOLOR \<equiv> Opcode 0x9b"
abbreviation OP_NUMEQUAL :: Opcode where "OP_NUMEQUAL \<equiv> Opcode 0x9c"
abbreviation OP_NUMEQUALVERIFY :: Opcode where "OP_NUMEQUALVERIFY \<equiv> Opcode 0x9d"
abbreviation OP_NUMNOTEQUAL :: Opcode where "OP_NUMNOTEQUAL \<equiv> Opcode 0x9e"
abbreviation OP_LESSTHAN :: Opcode where "OP_LESSTHAN \<equiv> Opcode 0x9f"
abbreviation OP_GREATERTHAN :: Opcode where "OP_GREATERTHAN \<equiv> Opcode 0xa0"
abbreviation OP_LESSTHANOREQUAL :: Opcode where "OP_LESSTHANOREQUAL \<equiv> Opcode 0xa1"
abbreviation OP_GREATERTHANOREQUAL :: Opcode where "OP_GREATERTHANOREQUAL \<equiv> Opcode 0xa2"
abbreviation OP_MIN :: Opcode where "OP_MIN \<equiv> Opcode 0xa3"
abbreviation OP_MAX :: Opcode where "OP_MAX \<equiv> Opcode 0xa4"
abbreviation OP_WITHIN :: Opcode where "OP_WITHIN \<equiv> Opcode 0xa5"
abbreviation OP_RIPEMD160 :: Opcode where "OP_RIPEMD160 \<equiv> Opcode 0xa6"
abbreviation OP_SHA1 :: Opcode where "OP_SHA1 \<equiv> Opcode 0xa7"
abbreviation OP_SHA256 :: Opcode where "OP_SHA256 \<equiv> Opcode 0xa8"
abbreviation OP_HASH160 :: Opcode where "OP_HASH160 \<equiv> Opcode 0xa9"
abbreviation OP_HASH256 :: Opcode where "OP_HASH256 \<equiv> Opcode 0xaa"
abbreviation OP_CODESEPARATOR :: Opcode where "OP_CODESEPARATOR \<equiv> Opcode 0xab"
abbreviation OP_CHECKSIG :: Opcode where "OP_CHECKSIG \<equiv> Opcode 0xac"
abbreviation OP_CHECKSIGVERIFY :: Opcode where "OP_CHECKSIGVERIFY \<equiv> Opcode 0xad"
abbreviation OP_CHECKMULTISIG :: Opcode where "OP_CHECKMULTISIG \<equiv> Opcode 0xae"
abbreviation OP_CHECKMULTISIGVERIFY :: Opcode where "OP_CHECKMULTISIGVERIFY \<equiv> Opcode 0xaf"
abbreviation OP_NOP1 :: Opcode where "OP_NOP1 \<equiv> Opcode 0xb0"
abbreviation OP_CLTV :: Opcode where "OP_CLTV \<equiv> Opcode 0xb1"
abbreviation OP_CSV :: Opcode where "OP_CSV \<equiv> Opcode 0xb2"
abbreviation OP_NOP10 :: Opcode where "OP_NOP10 \<equiv> Opcode 0xb9"
abbreviation OP_CHECKSIGADD :: Opcode where "OP_CHECKSIGADD \<equiv> Opcode 0xba"
abbreviation OP_INVALIDOPCODE :: Opcode where "OP_INVALIDOPCODE \<equiv> Opcode 0xff"

abbreviation OP_0 :: Opcode where "OP_0 \<equiv> OP_PUSHBYTES_0"
abbreviation OP_TRUE :: Opcode where "OP_TRUE \<equiv> OP_PUSHNUM_1"

datatype ClassifyContext = TapScript | Legacy

datatype Class = PushNum int | PushBytesClass u32 | ReturnOp | SuccessOp | IllegalOp | NoOp | Ordinary Opcode

text \<open>The opcodes listed in \<open>ordinary_opcode!\<close>; any other one is unreachable in \<open>Ordinary::with\<close>, which then panics.\<close>

definition ordinary_opcodes :: "Opcode list" where
  "ordinary_opcodes =
     [OP_PUSHDATA1, OP_PUSHDATA2, OP_PUSHDATA4, OP_IF, OP_NOTIF, OP_ELSE, OP_ENDIF, OP_VERIFY, OP_TOALTSTACK,
      OP_FROMALTSTACK, OP_2DROP, OP_2DUP, OP_3DUP, OP_2OVER, OP_2ROT, OP_2SWAP, OP_DROP, OP_DUP, OP_NIP,
      OP_OVER, OP_PICK, OP_ROLL, OP_ROT, OP_SWAP, OP_TUCK, OP_IFDUP, OP_DEPTH, OP_SIZE, OP_EQUAL, OP_EQUALVERIFY,
      OP_1ADD, OP_1SUB, OP_NEGATE, OP_ABS, OP_NOT, OP_0NOTEQUAL, OP_ADD, OP_SUB, OP_BOOLAND, OP_BOOLOR,
      OP_NUMEQUAL, OP_NUMEQUALVERIFY, OP_NUMNOTEQUAL, OP_LESSTHAN, OP_GREATERTHAN, OP_LESSTHANOREQUAL,
      OP_GREATERTHANOREQUAL, OP_MIN, OP_MAX, OP_WITHIN, OP_RIPEMD160, OP_SHA1, OP_SHA256, OP_HASH160,
      OP_HASH256, OP_CODESEPARATOR, OP_CHECKSIG, OP_CHECKSIGVERIFY, OP_CHECKMULTISIG, OP_CHECKMULTISIGVERIFY,
      OP_CHECKSIGADD]"

definition ordinary_with :: "Opcode \<Rightarrow> Opcode option" where
  "ordinary_with b = (if b \<in> set ordinary_opcodes then Some b else None)"

definition classify :: "Opcode \<Rightarrow> ClassifyContext \<Rightarrow> Class option" where
  "classify op ctx =
     (let code = op_code op in
      if op \<in> set [OP_VERIF, OP_VERNOTIF, OP_INVALIDOPCODE] then Some IllegalOp
      else if ctx = Legacy \<and> op \<in> set [OP_CAT, OP_SUBSTR, OP_LEFT, OP_RIGHT, OP_INVERT, OP_AND, OP_OR, OP_XOR, OP_2MUL,
          OP_2DIV, OP_MUL, OP_DIV, OP_MOD, OP_LSHIFT, OP_RSHIFT] then Some IllegalOp
      else if ctx = TapScript \<and> (code = 80 \<or> code = 98 \<or> 126 \<le> code \<and> code \<le> 129 \<or> 131 \<le> code \<and> code \<le> 134 \<or>
          137 \<le> code \<and> code \<le> 138 \<or> 141 \<le> code \<and> code \<le> 142 \<or> 149 \<le> code \<and> code \<le> 153 \<or>
          187 \<le> code \<and> code \<le> 254) then Some SuccessOp
      else if op = OP_NOP then Some NoOp
      else if op_code OP_NOP1 \<le> code \<and> code \<le> op_code OP_NOP10 then Some NoOp
      else if op = OP_RETURN then Some ReturnOp
      else if ctx = Legacy \<and> op \<in> set [OP_RESERVED, OP_RESERVED1, OP_RESERVED2, OP_VER] then Some ReturnOp
      else if ctx = Legacy \<and> op_code OP_CHECKSIGADD \<le> code then Some ReturnOp
      else if ctx = TapScript \<and> op \<in> set [OP_CHECKMULTISIG, OP_CHECKMULTISIGVERIFY] then Some ReturnOp
      else if op = OP_PUSHNUM_NEG1 then Some (PushNum (- 1))
      else if op_code OP_PUSHNUM_1 \<le> code \<and> code \<le> op_code OP_PUSHNUM_16
        then Some (PushNum (1 + uint code - uint (op_code OP_PUSHNUM_1)))
      else if code \<le> op_code OP_PUSHBYTES_75 then Some (PushBytesClass (ucast code))
      else map_option Ordinary (ordinary_with op))"

definition decode_pushnum :: "Opcode \<Rightarrow> u8 option" where
  "decode_pushnum op =
     (if op_code OP_PUSHNUM_1 \<le> op_code op \<and> op_code op \<le> op_code OP_PUSHNUM_16
      then Some (op_code op - op_code OP_PUSHNUM_1 + 1) else None)"

section \<open>Script numbers\<close>

datatype ScriptError = NonMinimalPush | EarlyEndOfScript | NumericOverflow | UnknownSpentOutput OutPoint | Serialization

text \<open>The bytes written so far and the rest of the absolute value; the buffer has eight bytes.\<close>

function abs_loop :: "nat \<Rightarrow> bytes \<Rightarrow> bytes \<times> nat" where
  "abs_loop a out = (if 0xFF < a then abs_loop (a div 256) (out @ [word_of_nat (a mod 256)]) else (out, a))"
  by pat_completeness auto
termination
  by (relation "measure fst") auto

declare abs_loop.simps [simp del]

definition write_scriptint :: "int \<Rightarrow> bytes option" where
  "write_scriptint n =
     (if n = 0 then Some []
      else (let neg = n < 0;
                (out, a) = abs_loop (nat \<bar>n\<bar>) [];
                out = (if a AND 0x80 \<noteq> 0 then out @ [word_of_nat a, if neg then 0x80 else 0]
                       else out @ [word_of_nat (a OR (if neg then 0x80 else 0))])
            in if length out \<le> 8 then Some out else None))"

definition scriptint_parse :: "bytes \<Rightarrow> int" where
  "scriptint_parse v =
     (let (ret, sh) = fold (\<lambda>n (acc, sh). (acc + push_bit sh (uint n), sh + 8)) v (0, 0)
      in if v ! (length v - 1) AND 0x80 \<noteq> 0 then - (ret AND (push_bit (sh - 1) 1 - 1)) else ret)"

definition read_scriptint :: "bytes \<Rightarrow> ScriptError + int" where
  "read_scriptint v =
     (if v = [] then Inr 0
      else if length v > 4 then Inl NumericOverflow
      else if last v AND 0x7f = 0 \<and> (length v \<le> 1 \<or> v ! (length v - 2) AND 0x80 = 0) then Inl NonMinimalPush
      else Inr (scriptint_parse v))"

definition read_scriptint_non_minimal :: "bytes \<Rightarrow> ScriptError + int" where
  "read_scriptint_non_minimal v =
     (if v = [] then Inr 0 else if length v > 4 then Inl NumericOverflow else Inr (scriptint_parse v))"

definition read_scriptbool :: "bytes \<Rightarrow> bool" where
  "read_scriptbool v =
     (if v = [] then False else \<not> (last v AND NOT 0x80 = 0 \<and> list_all (\<lambda>b. b = 0) (butlast v)))"

section \<open>Classification\<close>

lemma ordinary_uint: "map (\<lambda>op. uint (op_code op)) ordinary_opcodes = [76, 77, 78, 99, 100, 103, 104, 105, 107, 108, 109, 110, 111, 112, 113, 114, 117, 118, 119, 120, 121, 122, 123, 124, 125, 115, 116, 130, 135, 136, 139, 140, 143, 144, 145, 146, 147, 148, 154, 155, 156, 157, 158, 159, 160, 161, 162, 163, 164, 165, 166, 167, 168, 169, 170, 171, 172, 173, 174, 175, 186]"
  by (simp add: ordinary_opcodes_def)

text \<open>Between the last push of literal bytes and the opcodes of later versions every opcode is ordinary or is
  classified before.\<close>

definition special_opcodes :: "int list" where
  "special_opcodes = [79, 80, 81, 82, 83, 84, 85, 86, 87, 88, 89, 90, 91, 92, 93, 94, 95, 96, 97, 98, 101, 102, 106, 126, 127, 128, 129, 131, 132, 133, 134, 137, 138, 141, 142, 149, 150, 151, 152, 153, 176, 177, 178, 179, 180, 181, 182, 183, 184, 185]"

lemma opcodes_cover: "list_all (\<lambda>k. k \<in> set (map (\<lambda>op. uint (op_code op)) ordinary_opcodes @ special_opcodes)) [76..186]"
  unfolding ordinary_uint by code_simp

lemma special_classified:
  "list_all (\<lambda>k. classify (Opcode (word_of_int k)) TapScript \<noteq> None \<and> classify (Opcode (word_of_int k)) Legacy \<noteq> None) special_opcodes"
  by code_simp

lemma classify_total: "classify op ctx \<noteq> None"
proof -
  obtain b where op: "op = Opcode b" by (cases op)
  consider "b \<le> 75" | "75 < b" "b \<le> 186" | "186 < b" by force
  then show ?thesis
  proof cases
    case 1
    then show ?thesis by (simp add: op classify_def Let_def)
  next
    case 2
    then have "76 \<le> uint b \<and> uint b \<le> 186" by (simp add: word_le_def word_less_def)
    then have "uint b \<in> set [76..186]" by (simp only: set_upto atLeastAtMost_iff)
    then have "uint b \<in> set (map (\<lambda>op. uint (op_code op)) ordinary_opcodes @ special_opcodes)"
      using opcodes_cover unfolding list_all_iff by (rule bspec [rotated])
    then consider "uint b \<in> set (map (\<lambda>op. uint (op_code op)) ordinary_opcodes)" | "uint b \<in> set special_opcodes"
      unfolding set_append Un_iff by blast
    then show ?thesis
    proof cases
      case 1
      then obtain op' where o: "op' \<in> set ordinary_opcodes" "uint (op_code op') = uint b" by auto
      then have "op_code op' = b" by (simp only: word_uint_eq_iff)
      then have "op' = op" using Opcode.collapse [of op'] by (simp add: op)
      then have "op \<in> set ordinary_opcodes" using o(1) by simp
      then show ?thesis by (simp add: classify_def Let_def ordinary_with_def)
    next
      case 2
      then have "classify (Opcode (word_of_int (uint b))) TapScript \<noteq> None \<and> classify (Opcode (word_of_int (uint b))) Legacy \<noteq> None"
        using special_classified unfolding list_all_iff by (rule bspec [rotated])
      then show ?thesis by (cases ctx) (simp_all add: op)
    qed
  next
    case 3
    then have "b = 255 \<or> 187 \<le> b \<and> b \<le> 254" using uint_lt2p [of b] by (auto simp: word_le_def word_less_def word_uint_eq_iff)
    then show ?thesis using 3 by (cases ctx) (auto simp: op classify_def Let_def)
  qed
qed

lemma byte_sign:
  "((b :: u8) AND 0x80 \<noteq> 0 \<longleftrightarrow> 128 \<le> unat b) \<and> (b AND 0x7f = 0 \<longleftrightarrow> b = 0 \<or> b = 0x80) \<and>
   (unat b < 128 \<longrightarrow> unat (b OR 0x80) = unat b + 128) \<and> (128 \<le> unat b \<longrightarrow> b = (b AND 0x7f) OR 0x80 \<and> unat (b AND 0x7f) = unat b - 128)"
  by (rule all_bytes [where P = "\<lambda>b. (b AND 0x80 \<noteq> 0 \<longleftrightarrow> 128 \<le> unat b) \<and> (b AND 0x7f = 0 \<longleftrightarrow> b = 0 \<or> b = 0x80) \<and>
   (unat b < 128 \<longrightarrow> unat (b OR 0x80) = unat b + 128) \<and> (128 \<le> unat b \<longrightarrow> b = (b AND 0x7f) OR 0x80 \<and> unat (b AND 0x7f) = unat b - 128)"]) code_simp

lemma byte_low: "(unat (b :: u8) < 128 \<longrightarrow> b AND 0x7f = b) \<and> unat (b AND 0x7f) < 128"
  by (rule all_bytes [where P = "\<lambda>b. (unat b < 128 \<longrightarrow> b AND 0x7f = b) \<and> unat (b AND 0x7f) < 128"]) code_simp

lemma byte_low2: "unat (t :: u8) < 128 \<longrightarrow> (t OR 0x80) AND 0x7f = t"
  by (rule all_bytes [where P = "\<lambda>t. unat t < 128 \<longrightarrow> (t OR 0x80) AND 0x7f = t"]) code_simp

lemma classify_push:
  assumes "b \<le> 75"
  shows "classify (Opcode b) Legacy = Some (PushBytesClass (ucast b))"
proof -
  have "\<not> 81 \<le> b" "\<not> 176 \<le> b" "\<not> 186 \<le> b" using assms by (simp_all add: word_le_def)
  then show ?thesis using assms by (auto simp: classify_def Let_def)
qed

lemma classify_pushdata:
  "classify OP_PUSHDATA1 Legacy = Some (Ordinary OP_PUSHDATA1)" "classify OP_PUSHDATA2 Legacy = Some (Ordinary OP_PUSHDATA2)"
  "classify OP_PUSHDATA4 Legacy = Some (Ordinary OP_PUSHDATA4)"
  by (simp_all add: classify_def Let_def ordinary_with_def ordinary_opcodes_def)

lemma classify_other:
  assumes "78 < b"
  obtains c where "classify (Opcode b) Legacy = Some c" "\<And>n. c \<noteq> PushBytesClass n"
    "c \<noteq> Ordinary OP_PUSHDATA1" "c \<noteq> Ordinary OP_PUSHDATA2" "c \<noteq> Ordinary OP_PUSHDATA4"
proof -
  obtain c where c: "classify (Opcode b) Legacy = Some c" using classify_total [of "Opcode b" Legacy] by auto
  have nle: "\<not> b \<le> 75" using assms by (simp add: word_le_def word_less_def)
  have "c \<noteq> PushBytesClass n" for n
    using c nle by (auto simp: classify_def Let_def split: if_splits)
  moreover have "op = Opcode b" if "c = Ordinary op" for op
    using c that by (auto simp: classify_def Let_def ordinary_with_def split: if_splits)
  moreover have "b \<noteq> 76" "b \<noteq> 77" "b \<noteq> 78" using assms by auto
  ultimately show thesis using that [OF c] by blast
qed

section \<open>Script numbers are sign and magnitude\<close>

lemma abs_loop_unique:
  "t \<noteq> 0 \<Longrightarrow> abs_loop (le_nat (bs @ [t])) out = (out @ bs, unat t)"
proof (induction bs arbitrary: out)
  case Nil
  then show ?case using unat_u8_lt [of t] by (simp add: abs_loop.simps del: unat_u8_lt)
next
  case (Cons b bs)
  have "0 < le_nat (bs @ [t])" using Cons.prems by (simp add: le_nat_append unat_gt_0)
  then have "255 < le_nat ((b # bs) @ [t])" by simp
  moreover have "le_nat ((b # bs) @ [t]) div 256 = le_nat (bs @ [t])" "le_nat ((b # bs) @ [t]) mod 256 = unat b" by simp_all
  ultimately show ?case using Cons by (subst abs_loop.simps) simp
qed

lemma magnitude_exists: "0 < a \<Longrightarrow> \<exists>bs t. a = le_nat (bs @ [t]) \<and> t \<noteq> 0"
proof (induction a rule: less_induct)
  case (less a)
  show ?case
  proof (cases "a < 256")
    case True
    then have "unat (word_of_nat a :: u8) = a" by (simp add: unat_of_nat)
    then show ?thesis using less.prems by (intro exI [of _ "[]"] exI [of _ "word_of_nat a"]) auto
  next
    case False
    then obtain bs t where bs: "a div 256 = le_nat (bs @ [t])" "t \<noteq> 0" using less.IH [of "a div 256"] by (auto simp: div_greater_zero_iff)
    have "unat (word_of_nat (a mod 256) :: u8) = a mod 256" by (simp add: unat_of_nat)
    then have "a = le_nat ((word_of_nat (a mod 256) # bs) @ [t])" using bs(1) mod_mult_div_eq [of a 256] by simp
    then show ?thesis using bs(2) by blast
  qed
qed

text \<open>Sign and magnitude: the sign is the top bit, which takes an extra byte if the magnitude needs it.\<close>

definition signed :: "bool \<Rightarrow> bytes \<Rightarrow> u8 \<Rightarrow> bytes" where
  "signed neg bs t = (if 128 \<le> unat t then bs @ [t, if neg then 0x80 else 0] else bs @ [t OR (if neg then 0x80 else 0)])"

lemma write_signed:
  assumes "t \<noteq> 0"
  shows "write_scriptint (if neg then - int (le_nat (bs @ [t])) else int (le_nat (bs @ [t]))) =
    (if length (signed neg bs t) \<le> 8 then Some (signed neg bs t) else None)"
proof -
  let ?n = "if neg then - int (le_nat (bs @ [t])) else int (le_nat (bs @ [t]))"
  have pos: "0 < le_nat (bs @ [t])" using assms by (simp add: le_nat_append unat_gt_0)
  have n: "?n \<noteq> 0" "?n < 0 \<longleftrightarrow> neg" "nat \<bar>?n\<bar> = le_nat (bs @ [t])" using pos by auto
  have w: "unat t AND 128 \<noteq> 0 \<longleftrightarrow> 128 \<le> unat t"
  proof -
    have "unat (t AND 0x80) = unat t AND 128" by (simp add: unsigned_and_eq)
    then show ?thesis using byte_sign [of t] by (metis unat_eq_zero)
  qed
  have o: "word_of_nat (unat t OR (if neg then 0x80 else 0)) = t OR (if neg then 0x80 else 0)"
    by (cases neg) (simp_all add: unsigned_or_eq [symmetric, of t 128, simplified])
  show ?thesis
    unfolding write_scriptint_def Let_def n abs_loop_unique [OF assms] prod.case w o signed_def using n(1) by simp
qed

lemma parse_fold:
  "fold (\<lambda>n (acc, sh). (acc + push_bit sh (uint n), sh + 8)) v (a, k) = (a + 2 ^ k * int (le_nat v), k + 8 * length v)"
proof (induction v arbitrary: a k)
  case (Cons b v)
  then show ?case by (simp add: push_bit_eq_mult power_add algebra_simps)
qed simp

lemma parse_value:
  assumes "v \<noteq> []"
  shows "scriptint_parse v =
    (if 128 \<le> unat (last v) then - (int (le_nat v mod 2 ^ (8 * length v - 1))) else int (le_nat v))"
proof -
  have "int m AND (push_bit k 1 - 1) = int (m mod 2 ^ k)" for m k
    by (simp add: push_bit_eq_mult mask_eq_exp_minus_1 [symmetric] take_bit_eq_mask [symmetric] take_bit_eq_mod zmod_int)
  moreover have "v ! (length v - 1) = last v" using assms by (simp add: last_conv_nth)
  ultimately show ?thesis
    using byte_sign [of "last v"] unfolding scriptint_parse_def parse_fold Let_def prod.case by auto
qed

lemma parse_signed:
  assumes "t \<noteq> 0"
  shows "scriptint_parse (signed neg bs t) = (if neg then - int (le_nat (bs @ [t])) else int (le_nat (bs @ [t])))"
proof -
  have lt: "le_nat (bs @ [t]) < 2 ^ (8 * length bs + 8)" using le_nat_lt [of "bs @ [t]"] by (simp add: pow256 power_add)
  show ?thesis
  proof (cases "128 \<le> unat t")
    case True
    let ?v = "bs @ [t, if neg then 0x80 else 0]"
    have v: "le_nat ?v = le_nat (bs @ [t]) + (if neg then 2 ^ (15 + 8 * length bs) else 0)"
      by (cases neg) (simp_all add: le_nat_append pow256 power_add add_mult_distrib2)
    have "le_nat (bs @ [t]) < 2 ^ (15 + 8 * length bs)" by (rule less_le_trans [OF lt]) (simp add: power_increasing)
    then have "neg \<Longrightarrow> le_nat ?v mod 2 ^ (15 + 8 * length bs) = le_nat (bs @ [t])" unfolding v by simp
    then show ?thesis using True v by (cases neg) (simp_all add: signed_def parse_value)
  next
    case False
    let ?v = "bs @ [t OR (if neg then 0x80 else 0)]"
    have v: "le_nat ?v = le_nat (bs @ [t]) + (if neg then 2 ^ (7 + 8 * length bs) else 0)"
      using False byte_sign [of t] by (simp add: le_nat_append pow256 power_add algebra_simps)
    have "le_nat (bs @ [t]) < 256 ^ length bs * 128"
    proof -
      have "le_nat bs + 256 ^ length bs * unat t < 256 ^ length bs * (unat t + 1)" using le_nat_lt [of bs] by simp
      also have "\<dots> \<le> 256 ^ length bs * 128" using False by (intro mult_le_mono2) simp
      finally show ?thesis by (simp add: le_nat_append)
    qed
    then have "le_nat (bs @ [t]) < 2 ^ (7 + 8 * length bs)" by (simp add: pow256 power_add)
    then have "neg \<Longrightarrow> le_nat ?v mod 2 ^ (7 + 8 * length bs) = le_nat (bs @ [t])" unfolding v by simp
    then show ?thesis using False v byte_sign [of t] by (cases neg) (simp_all add: signed_def parse_value)
  qed
qed

text \<open>The minimal byte strings are exactly the signed forms.\<close>

lemma minimal_iff_signed:
  assumes "v \<noteq> []"
  shows "\<not> (last v AND 0x7f = 0 \<and> (length v \<le> 1 \<or> v ! (length v - 2) AND 0x80 = 0)) \<longleftrightarrow> (\<exists>neg bs t. t \<noteq> 0 \<and> v = signed neg bs t)"
proof
  assume m: "\<not> (last v AND 0x7f = 0 \<and> (length v \<le> 1 \<or> v ! (length v - 2) AND 0x80 = 0))"
  obtain bs l where v: "v = bs @ [l]" using assms by (metis append_butlast_last_id)
  show "\<exists>neg bs t. t \<noteq> 0 \<and> v = signed neg bs t"
  proof (cases "l AND 0x7f = 0")
    case True
    with m v have "bs \<noteq> []" "last bs AND 0x80 \<noteq> 0" by (auto simp: nth_append last_conv_nth)
    then obtain cs t where bs: "bs = cs @ [t]" "128 \<le> unat t" using byte_sign by (metis append_butlast_last_id)
    moreover have "l = 0 \<or> l = 0x80" using True byte_sign [of l] by blast
    ultimately have "v = signed (l \<noteq> 0) cs t" "t \<noteq> 0" using v by (auto simp: signed_def)
    then show ?thesis by blast
  next
    case False
    let ?t = "l AND 0x7f"
    have "unat ?t < 128"
      using byte_sign [of l] byte_sign [of ?t] by (cases "128 \<le> unat l") (auto simp: and.assoc not_le)
    then have "v = signed (128 \<le> unat l) bs ?t"
      using v byte_sign [of l] byte_low [of l] by (auto simp: signed_def)
    then show ?thesis using False by blast
  qed
next
  assume "\<exists>neg bs t. t \<noteq> 0 \<and> v = signed neg bs t"
  then obtain neg bs t where t: "t \<noteq> 0" "v = signed neg bs t" by blast
  show "\<not> (last v AND 0x7f = 0 \<and> (length v \<le> 1 \<or> v ! (length v - 2) AND 0x80 = 0))"
  proof (cases "128 \<le> unat t")
    case True
    then show ?thesis using t byte_sign [of t] by (simp add: signed_def nth_append)
  next
    case False
    then show ?thesis using t byte_low [of t] byte_low2 [of t] by (auto simp: signed_def)
  qed
qed

lemma signed_value_bound:
  assumes "length (signed neg bs t) \<le> k" "0 < k"
  shows "le_nat (bs @ [t]) < 2 ^ (8 * k - 1)"
proof (cases "128 \<le> unat t")
  case True
  then have k: "length (bs @ [t]) + 1 \<le> k" using assms by (simp add: signed_def)
  have "le_nat (bs @ [t]) < 2 ^ (8 * length (bs @ [t]))" using le_nat_lt [of "bs @ [t]"] by (simp only: pow256)
  also have "\<dots> \<le> 2 ^ (8 * k - 1)" using k by (intro power_increasing) simp_all
  finally show ?thesis .
next
  case False
  then have k: "length bs + 1 \<le> k" using assms by (simp add: signed_def)
  have "le_nat bs + 256 ^ length bs * unat t < 256 ^ length bs * (unat t + 1)" using le_nat_lt [of bs] by simp
  also have "\<dots> \<le> 256 ^ length bs * 128" using False by (intro mult_le_mono2) simp
  also have "\<dots> = 2 ^ (7 + 8 * length bs)" by (simp add: pow256 power_add)
  also have "\<dots> \<le> 2 ^ (8 * k - 1)" using k by (intro power_increasing) simp_all
  finally show ?thesis by (simp add: le_nat_append)
qed

lemma signed_length_bound:
  assumes "le_nat (bs @ [t]) < 2 ^ (8 * k - 1)" "t \<noteq> 0" "0 < k"
  shows "length (signed neg bs t) \<le> k"
proof -
  have p: "256 ^ length bs * unat t \<le> le_nat (bs @ [t])" by (simp add: le_nat_append)
  have "length (signed neg bs t) = (if 128 \<le> unat t then length bs + 2 else length bs + 1)" by (simp add: signed_def)
  moreover have "(2 :: nat) ^ (8 * length bs) < 2 ^ (8 * k - 1)"
    using p assms(1,2) by (simp add: pow256 [symmetric]) (metis le_less_trans mult.right_neutral mult_le_mono2 One_nat_def Suc_leI unat_gt_0 word_gt_0)
  then have "8 * length bs < 8 * k - 1" by (rule power_less_imp_less_exp [rotated]) simp
  moreover have "7 + 8 * length bs < 8 * k - 1" if "128 \<le> unat t"
  proof -
    have "(2 :: nat) ^ (7 + 8 * length bs) = 256 ^ length bs * 128" by (simp add: pow256 power_add)
    also have "\<dots> \<le> 256 ^ length bs * unat t" using that by simp
    also have "\<dots> < 2 ^ (8 * k - 1)" using p assms(1) by simp
    finally show ?thesis by (rule power_less_imp_less_exp [rotated]) simp
  qed
  ultimately show ?thesis by (cases "128 \<le> unat t") auto
qed

lemma int_magnitude:
  assumes "n \<noteq> 0"
  obtains bs t where "t \<noteq> 0" "nat \<bar>n\<bar> = le_nat (bs @ [t])"
    "n = (if n < 0 then - int (le_nat (bs @ [t])) else int (le_nat (bs @ [t])))"
proof -
  obtain bs t where t: "nat \<bar>n\<bar> = le_nat (bs @ [t])" "t \<noteq> 0" using magnitude_exists [of "nat \<bar>n\<bar>"] assms by auto
  moreover have "int (nat \<bar>n\<bar>) = \<bar>n\<bar>" by simp
  ultimately have "n = (if n < 0 then - int (le_nat (bs @ [t])) else int (le_nat (bs @ [t])))" by (simp split: if_splits)
  then show thesis using that t by blast
qed

lemma write_defined:
  assumes "\<bar>n\<bar> < 2 ^ 63"
  shows "write_scriptint n \<noteq> None"
proof (cases "n = 0")
  case False
  then obtain bs t where t: "t \<noteq> 0" "nat \<bar>n\<bar> = le_nat (bs @ [t])" and n: "n = (if n < 0 then - int (le_nat (bs @ [t])) else int (le_nat (bs @ [t])))"
    by (rule int_magnitude)
  have "nat \<bar>n\<bar> < 2 ^ (8 * 8 - 1)" using assms by simp
  then show ?thesis using signed_length_bound [of bs t 8 "n < 0"] write_signed [OF t(1), of "n < 0" bs] n t by simp
qed (simp add: write_scriptint_def)

lemma read_minimal:
  assumes "read_scriptint v = Inr n"
  shows "\<bar>n\<bar> < 2 ^ 31 \<and> write_scriptint n = Some v"
proof (cases "v = []")
  case True
  then show ?thesis using assms by (simp add: read_scriptint_def write_scriptint_def)
next
  case False
  with assms have v: "length v \<le> 4" "n = scriptint_parse v" "\<not> (last v AND 0x7f = 0 \<and> (length v \<le> 1 \<or> v ! (length v - 2) AND 0x80 = 0))"
    by (auto simp: read_scriptint_def split: if_splits)
  then obtain neg bs t where t: "t \<noteq> 0" "v = signed neg bs t" using minimal_iff_signed [OF False] by blast
  have n: "n = (if neg then - int (le_nat (bs @ [t])) else int (le_nat (bs @ [t])))" using v(2) t parse_signed by simp
  have "le_nat (bs @ [t]) < 2 ^ (8 * 4 - 1)" using signed_value_bound [of neg bs t 4] v(1) t(2) by simp
  then have "\<bar>n\<bar> < 2 ^ 31" using n by simp
  moreover have "write_scriptint n = Some v" using write_signed [OF t(1), of neg bs] n v(1) t(2) by simp
  ultimately show ?thesis by blast
qed

lemma write_read_scriptint:
  assumes "\<bar>n\<bar> < 2 ^ 31"
  shows "\<exists>v. write_scriptint n = Some v \<and> read_scriptint v = Inr n"
proof (cases "n = 0")
  case True
  then show ?thesis by (simp add: write_scriptint_def read_scriptint_def)
next
  case False
  then obtain bs t where t: "t \<noteq> 0" "nat \<bar>n\<bar> = le_nat (bs @ [t])" and n: "n = (if n < 0 then - int (le_nat (bs @ [t])) else int (le_nat (bs @ [t])))"
    by (rule int_magnitude)
  let ?v = "signed (n < 0) bs t"
  have "le_nat (bs @ [t]) < 2 ^ (8 * 4 - 1)" using assms t(2) by simp
  then have len: "length ?v \<le> 4" using signed_length_bound [of bs t 4] t(1) by simp
  have ne: "?v \<noteq> []" by (simp add: signed_def)
  have "write_scriptint n = Some ?v" using write_signed [OF t(1), of "n < 0" bs] n len by simp
  moreover have "read_scriptint ?v = Inr n"
    using minimal_iff_signed [OF ne] t(1) parse_signed [OF t(1), of "n < 0" bs] n len ne unfolding read_scriptint_def by auto
  ultimately show ?thesis by blast
qed

section \<open>Properties\<close>

text \<open>(C28) Script numbers: writing a number of absolute value below \<open>2 ^ 31\<close> and reading it back gives the number, every
  byte string that the reader accepts is the one the writer produces for its value, and larger numbers are written
  in more than four bytes, which the reader refuses.\<close>

theorem scriptint_bijective:
  "(\<bar>n\<bar> < 2 ^ 31 \<longrightarrow> (\<exists>v. write_scriptint n = Some v \<and> read_scriptint v = Inr n)) \<and>
   (read_scriptint v = Inr n \<longrightarrow> \<bar>n\<bar> < 2 ^ 31 \<and> write_scriptint n = Some v) \<and>
   (2 ^ 31 \<le> \<bar>n\<bar> \<and> \<bar>n\<bar> < 2 ^ 63 \<longrightarrow> (\<exists>v. write_scriptint n = Some v \<and> read_scriptint v = Inl NumericOverflow))"
proof (intro conjI impI)
  show "\<exists>v. write_scriptint n = Some v \<and> read_scriptint v = Inr n" if "\<bar>n\<bar> < 2 ^ 31"
    using that by (rule write_read_scriptint)
  show "\<bar>n\<bar> < 2 ^ 31" "write_scriptint n = Some v" if r: "read_scriptint v = Inr n"
    using read_minimal [OF r] by simp_all
  show "\<exists>v. write_scriptint n = Some v \<and> read_scriptint v = Inl NumericOverflow" if big: "2 ^ 31 \<le> \<bar>n\<bar> \<and> \<bar>n\<bar> < 2 ^ 63"
  proof -
    obtain bs t where t: "t \<noteq> 0" "nat \<bar>n\<bar> = le_nat (bs @ [t])" and n: "n = (if n < 0 then - int (le_nat (bs @ [t])) else int (le_nat (bs @ [t])))"
      by (rule int_magnitude [of n]) (use big in auto)
    have "le_nat (bs @ [t]) < 2 ^ (8 * 8 - 1)" "\<not> le_nat (bs @ [t]) < 2 ^ (8 * 4 - 1)" using big unfolding t(2) [symmetric] by (simp_all, linarith+)
    then have len: "length (signed (n < 0) bs t) \<le> 8" "\<not> length (signed (n < 0) bs t) \<le> 4"
      using signed_length_bound [of bs t 8] signed_value_bound [of "n < 0" bs t 4] t(1) by auto
    have "write_scriptint n = Some (signed (n < 0) bs t)" using write_signed [OF t(1), of "n < 0" bs] n len by simp
    moreover have "read_scriptint (signed (n < 0) bs t) = Inl NumericOverflow" using len(2) by (auto simp: read_scriptint_def)
    ultimately show ?thesis by blast
  qed
qed

theorem scriptint_bijective_witness: "write_scriptint (- 255) = Some [0xff, 0x80] \<and> \<bar>- 255 :: int\<bar> < 2 ^ 31"
  using scriptint_bijective [of "- 255" "[0xff, 0x80]"]
  by (simp add: read_scriptint_def scriptint_parse_def)

text \<open>The smallest 64-bit number cannot be pushed: its absolute value fills all eight bytes of the buffer and the sign
  needs a ninth. It is the only one.\<close>

theorem scriptint_min_panics:
  "- (2 ^ 63) \<le> n \<and> n < 2 ^ 63 \<longrightarrow> (write_scriptint n = None \<longleftrightarrow> n = - (2 ^ 63))"
proof
  assume n: "- (2 ^ 63) \<le> n \<and> n < 2 ^ 63"
  show "write_scriptint n = None \<longleftrightarrow> n = - (2 ^ 63)"
  proof (cases "n = - (2 ^ 63)")
    case True
    have "le_nat (replicate 7 0 @ [0x80]) = 2 ^ 63" by (simp only: le_nat_append) simp
    then have "n = - int (le_nat (replicate 7 0 @ [0x80]))" using True by simp
    then show ?thesis using True write_signed [of "0x80" True "replicate 7 0"] by (simp add: signed_def)
  next
    case False
    then have "\<bar>n\<bar> < 2 ^ 63" using n by (simp add: abs_less_iff)
    then show ?thesis using False write_defined by simp
  qed
qed

theorem scriptint_min_panics_witness: "write_scriptint (- (2 ^ 63)) = None"
  using scriptint_min_panics [of "- (2 ^ 63)"] by simp

end
