(* ===== verification/Script.thy ===== *)
theory Script
  imports Opcodes
begin

text \<open>
  Scripts, \<open>bitcoin/src/blockdata/script/\<close>: the iterator over instructions (\<open>instruction.rs\<close>), building scripts
  (\<open>owned.rs\<close>, \<open>builder.rs\<close>), the standard templates and the questions asked of a script (\<open>borrowed.rs\<close>), and
  witness versions and programs. A script is its bytes; an iterator is the rest of the bytes with its flag. The iterator
  asks for the class of each opcode; classification never panics (\<open>classify_total\<close>), so that case is not
  distinguished here. Pushing more than four gigabytes panics.

  Instructions and scripts without non-minimal pushes are in bijection, and the templates recognize exactly what the
  constructors build.
\<close>

section \<open>The instruction iterator\<close>

datatype Instruction = PushBytes bytes | Op Opcode

datatype UintError = UintEarlyEndOfScript | UintNumericOverflow

fun uint_loop :: "nat \<Rightarrow> nat \<Rightarrow> bytes \<Rightarrow> nat \<Rightarrow> (UintError + nat) \<times> bytes" where
  "uint_loop i 0 data ret = (Inr ret, data)"
| "uint_loop i (Suc k) [] ret = (Inr ret, [])"
| "uint_loop i (Suc k) (item # data) ret =
     (if i * 8 \<ge> 64 then (Inl UintNumericOverflow, data)
      else (let v = (unat item * 2 ^ (i * 8)) mod 2 ^ 64
            in if v + ret \<ge> 2 ^ 64 then (Inl UintNumericOverflow, data) else uint_loop (i + 1) k data (v + ret)))"

definition read_uint_iter :: "bytes \<Rightarrow> nat \<Rightarrow> (UintError + nat) \<times> bytes" where
  "read_uint_iter data n =
     (if length data < n then (Inl UintEarlyEndOfScript, data)
      else if n > 65535 div 8 then (Inl UintNumericOverflow, data)
      else uint_loop 0 n data 0)"

record Instructions =
  instr_data :: bytes
  enforce_minimal :: bool

definition kill :: "Instructions \<Rightarrow> Instructions" where
  "kill it = it\<lparr> instr_data := drop (max (length (instr_data it)) 1) (instr_data it) \<rparr>"

definition take_slice_or_kill :: "Instructions \<Rightarrow> nat \<Rightarrow> (ScriptError + bytes) \<times> Instructions" where
  "take_slice_or_kill it len =
     (if length (instr_data it) \<ge> len then (Inr (take len (instr_data it)), it\<lparr> instr_data := drop len (instr_data it) \<rparr>)
      else (Inl EarlyEndOfScript, kill it))"

definition next_push_data_len :: "Instructions \<Rightarrow> nat \<Rightarrow> nat \<Rightarrow> (ScriptError + Instruction) option \<times> Instructions" where
  "next_push_data_len it len min_push_len =
     (case read_uint_iter (instr_data it) len of
        (Inl _, data) \<Rightarrow> (Some (Inl EarlyEndOfScript), kill (it\<lparr> instr_data := data \<rparr>))
      | (Inr n, data) \<Rightarrow>
          (let it = it\<lparr> instr_data := data \<rparr>
           in if enforce_minimal it \<and> n < min_push_len then (Some (Inl NonMinimalPush), kill it)
              else if n \<ge> 2 ^ 32 then (Some (Inl NumericOverflow), it)
              else (case take_slice_or_kill it n of (r, it) \<Rightarrow> (Some (map_sum id PushBytes r), it))))"

definition next_instruction :: "Instructions \<Rightarrow> (ScriptError + Instruction) option \<times> Instructions" where
  "next_instruction it =
     (case instr_data it of
        [] \<Rightarrow> (None, it)
      | byte # data \<Rightarrow>
          (let it = it\<lparr> instr_data := data \<rparr>
           in case classify (Opcode byte) Legacy of
                Some (PushBytesClass n) \<Rightarrow>
                  (if enforce_minimal it \<and> data \<noteq> [] \<and> n = 1 \<and> (hd data = 0x81 \<or> hd data > 0 \<and> hd data \<le> 16)
                   then (Some (Inl NonMinimalPush), kill it)
                   else if data = [] \<and> n = 0 then (Some (Inr (PushBytes [])), it)
                   else (case take_slice_or_kill it (unat n) of (r, it) \<Rightarrow> (Some (map_sum id PushBytes r), it)))
              | Some (Ordinary op) \<Rightarrow>
                  (if op = OP_PUSHDATA1 then next_push_data_len it 1 76
                   else if op = OP_PUSHDATA2 then next_push_data_len it 2 0x100
                   else if op = OP_PUSHDATA4 then next_push_data_len it 4 0x10000
                   else (Some (Inr (Op (Opcode byte))), it))
              | _ \<Rightarrow> (Some (Inr (Op (Opcode byte))), it)))"

definition instructions :: "bytes \<Rightarrow> Instructions" where
  "instructions s = \<lparr> instr_data = s, enforce_minimal = False \<rparr>"

definition instructions_minimal :: "bytes \<Rightarrow> Instructions" where
  "instructions_minimal s = \<lparr> instr_data = s, enforce_minimal = True \<rparr>"

lemma length_kill: "instr_data (kill it) = []" "enforce_minimal (kill it) = enforce_minimal it"
  by (simp_all add: kill_def)

lemma uint_loop_rest: "length (snd (uint_loop i k data ret)) \<le> length data"
  by (induction i k data ret rule: uint_loop.induct) (auto simp: Let_def)

lemma take_slice_length: "length (instr_data (snd (take_slice_or_kill it n))) \<le> length (instr_data it)"
  by (simp add: take_slice_or_kill_def length_kill)

lemma push_data_length: "length (instr_data (snd (next_push_data_len it k m))) \<le> length (instr_data it)"
proof -
  obtain r d where r: "read_uint_iter (instr_data it) k = (r, d)" by force
  then have "length d \<le> length (instr_data it)"
    using uint_loop_rest [of 0 k "instr_data it" 0] by (auto simp: read_uint_iter_def split: if_splits)
  then show ?thesis
    using r take_slice_length [of "it\<lparr> instr_data := d \<rparr>"]
    by (auto simp: next_push_data_len_def length_kill Let_def split: sum.split prod.split) (metis le_trans snd_conv)+
qed

lemma next_shrinks:
  assumes "next_instruction it = (Some r, it')"
  shows "length (instr_data it') < length (instr_data it)"
proof (cases "instr_data it")
  case Nil
  then show ?thesis using assms by (simp add: next_instruction_def)
next
  case (Cons b data)
  have "length (instr_data (snd (next_instruction it))) \<le> length data"
    using push_data_length [of "it\<lparr> instr_data := data \<rparr>"] take_slice_length [of "it\<lparr> instr_data := data \<rparr>"]
    by (auto simp: next_instruction_def Cons length_kill Let_def split: option.split Class.split prod.split) (metis snd_conv)+
  then show ?thesis using Cons assms by simp
qed

text \<open>The items an iterator yields until it is exhausted.\<close>

function items :: "Instructions \<Rightarrow> (ScriptError + Instruction) list" where
  "items it = (case next_instruction it of (None, _) \<Rightarrow> [] | (Some r, it') \<Rightarrow> r # items it')"
  by pat_completeness auto
termination
  by (relation "measure (\<lambda>it. length (instr_data it))") (auto dest: next_shrinks [OF sym] next_shrinks)

declare items.simps [simp del]

section \<open>Building scripts\<close>

definition script_push_opcode :: "bytes \<Rightarrow> Opcode \<Rightarrow> bytes" where
  "script_push_opcode s op = s @ [op_code op]"

definition push_slice_no_opt :: "bytes \<Rightarrow> bytes \<Rightarrow> bytes option" where
  "push_slice_no_opt s data =
     (let n = length data in
      if n < 0x4c then Some (s @ [word_of_nat n] @ data)
      else if n < 0x100 then Some (s @ [0x4c, word_of_nat n] @ data)
      else if n < 0x10000 then Some (s @ [0x4d, word_of_nat (n mod 0x100), word_of_nat (n div 0x100)] @ data)
      else if n < 0x100000000
        then Some (s @ [0x4e, word_of_nat (n mod 0x100), word_of_nat ((n div 0x100) mod 0x100),
                        word_of_nat ((n div 0x10000) mod 0x100), word_of_nat (n div 0x1000000)] @ data)
      else None)"

definition script_push_slice :: "bytes \<Rightarrow> bytes \<Rightarrow> bytes option" where
  "script_push_slice s data = push_slice_no_opt s data"

definition reserved_len_for_slice :: "nat \<Rightarrow> nat" where
  "reserved_len_for_slice len = len + (if len \<le> 0x4b then 1 else if len \<le> 0xff then 2 else if len \<le> 0xffff then 3 else 5)"

definition script_serialized_len :: "Instruction \<Rightarrow> nat" where
  "script_serialized_len i = (case i of Op _ \<Rightarrow> 1 | PushBytes b \<Rightarrow> reserved_len_for_slice (length b))"

definition push_instruction :: "Instruction \<Rightarrow> bytes \<Rightarrow> bytes option" where
  "push_instruction i s = (case i of Op op \<Rightarrow> Some (script_push_opcode s op) | PushBytes b \<Rightarrow> script_push_slice s b)"

definition push_instruction_no_opt :: "Instruction \<Rightarrow> bytes \<Rightarrow> bytes option" where
  "push_instruction_no_opt i s = (case i of Op op \<Rightarrow> Some (script_push_opcode s op) | PushBytes b \<Rightarrow> push_slice_no_opt s b)"

fun push_all :: "(Instruction \<Rightarrow> bytes \<Rightarrow> bytes option) \<Rightarrow> Instruction list \<Rightarrow> bytes \<Rightarrow> bytes option" where
  "push_all f [] s = Some s"
| "push_all f (i # is) s = (case f i s of None \<Rightarrow> None | Some s' \<Rightarrow> push_all f is s')"

text \<open>Extending a script by the instructions of an iterator with the given upper bound of its size hint.\<close>

definition script_extend :: "nat option \<Rightarrow> Instruction list \<Rightarrow> bytes \<Rightarrow> bytes option" where
  "script_extend hint is s =
     (if (case hint of Some m \<Rightarrow> m < 6 | None \<Rightarrow> False)
      then (if drop 5 is \<noteq> [] then None else push_all push_instruction_no_opt (take 5 is) s)
      else push_all push_instruction is s)"

definition last_opcode :: "bytes \<Rightarrow> Opcode option" where
  "last_opcode s =
     (if items (instructions s) = [] then None
      else (case last (items (instructions s)) of Inr (Op op) \<Rightarrow> Some op | _ \<Rightarrow> None))"

definition last_pushdata :: "bytes \<Rightarrow> bytes option" where
  "last_pushdata s =
     (if items (instructions s) = [] then None
      else (case last (items (instructions s)) of Inr (PushBytes b) \<Rightarrow> Some b | _ \<Rightarrow> None))"

definition first_opcode :: "bytes \<Rightarrow> Opcode option" where
  "first_opcode s = (case s of [] \<Rightarrow> None | b # _ \<Rightarrow> Some (Opcode b))"

definition opcode_to_verify :: "Opcode option \<Rightarrow> Opcode option" where
  "opcode_to_verify op =
     (case op of None \<Rightarrow> None
      | Some op \<Rightarrow> if op = OP_EQUAL then Some OP_EQUALVERIFY
                  else if op = OP_NUMEQUAL then Some OP_NUMEQUALVERIFY
                  else if op = OP_CHECKSIG then Some OP_CHECKSIGVERIFY
                  else if op = OP_CHECKMULTISIG then Some OP_CHECKMULTISIGVERIFY else None)"

definition script_push_verify :: "bytes \<Rightarrow> Opcode option \<Rightarrow> bytes" where
  "script_push_verify s last_op =
     (case opcode_to_verify last_op of
        Some op \<Rightarrow> script_push_opcode (butlast s) op
      | None \<Rightarrow> script_push_opcode s OP_VERIFY)"

definition scan_and_push_verify :: "bytes \<Rightarrow> bytes" where
  "scan_and_push_verify s = script_push_verify s (last_opcode s)"

section \<open>The builder\<close>

record Builder =
  b_script :: bytes
  b_last :: "Opcode option"

definition builder_new :: Builder where "builder_new = \<lparr> b_script = [], b_last = None \<rparr>"

definition builder_from :: "bytes \<Rightarrow> Builder" where
  "builder_from v = \<lparr> b_script = v, b_last = last_opcode v \<rparr>"

definition push_opcode :: "Opcode \<Rightarrow> Builder \<Rightarrow> Builder" where
  "push_opcode op b = \<lparr> b_script = script_push_opcode (b_script b) op, b_last = Some op \<rparr>"

definition builder_push_slice :: "bytes \<Rightarrow> Builder \<Rightarrow> Builder option" where
  "builder_push_slice data b = map_option (\<lambda>s. \<lparr> b_script = s, b_last = None \<rparr>) (script_push_slice (b_script b) data)"

definition push_int_non_minimal :: "int \<Rightarrow> Builder \<Rightarrow> Builder option" where
  "push_int_non_minimal data b = (case write_scriptint data of None \<Rightarrow> None | Some buf \<Rightarrow> builder_push_slice buf b)"

definition push_int :: "int \<Rightarrow> Builder \<Rightarrow> Builder option" where
  "push_int data b =
     (if data = - 1 \<or> 1 \<le> data \<and> data \<le> 16
      then Some (push_opcode (Opcode (word_of_int (data - 1 + uint (op_code OP_TRUE)))) b)
      else if data = 0 then Some (push_opcode OP_0 b)
      else push_int_non_minimal data b)"

definition push_verify :: "Builder \<Rightarrow> Builder" where
  "push_verify b =
     (case opcode_to_verify (b_last b) of
        Some op \<Rightarrow> push_opcode op (b\<lparr> b_script := butlast (b_script b) \<rparr>)
      | None \<Rightarrow> push_opcode OP_VERIFY b)"

definition push_lock_time :: "LockTime \<Rightarrow> Builder \<Rightarrow> Builder option" where
  "push_lock_time lt b = push_int (uint (lt_to_consensus_u32 lt)) b"

definition push_sequence :: "Sequence \<Rightarrow> Builder \<Rightarrow> Builder option" where
  "push_sequence sq b = push_int (uint (seq_to_consensus_u32 sq)) b"

section \<open>Witness versions and programs\<close>

text \<open>A witness version is a number from 0 to 16.\<close>

datatype WitnessVersion = V (version_num: nat)

definition version_from_u8 :: "u8 \<Rightarrow> u8 + WitnessVersion" where
  "version_from_u8 no = (if unat no \<le> 16 then Inr (V (unat no)) else Inl no)"

definition version_from_opcode :: "Opcode \<Rightarrow> u8 + WitnessVersion" where
  "version_from_opcode op =
     (if op_code op = 0 then Inr (V 0)
      else if op_code OP_PUSHNUM_1 \<le> op_code op \<and> op_code op \<le> op_code OP_PUSHNUM_16
        then version_from_u8 (op_code op - op_code OP_PUSHNUM_1 + 1)
      else Inl (op_code op))"

definition version_to_opcode :: "WitnessVersion \<Rightarrow> Opcode" where
  "version_to_opcode v =
     (if version_num v = 0 then OP_PUSHBYTES_0 else Opcode (op_code OP_PUSHNUM_1 + word_of_nat (version_num v) - 1))"

record WitnessProgram =
  wp_version :: WitnessVersion
  wp_program :: bytes

datatype WitnessProgramError = InvalidLength nat | InvalidSegwitV0Length nat

definition witness_program_new :: "WitnessVersion \<Rightarrow> bytes \<Rightarrow> WitnessProgramError + WitnessProgram" where
  "witness_program_new v bs =
     (let program_len = length bs
      in if program_len < 2 \<or> program_len > 40 then Inl (InvalidLength program_len)
         else if v = V 0 \<and> program_len \<noteq> 20 \<and> program_len \<noteq> 32 then Inl (InvalidSegwitV0Length program_len)
         else Inr \<lparr> wp_version = v, wp_program = bs \<rparr>)"

section \<open>Templates\<close>

definition new_p2pkh :: "bytes \<Rightarrow> bytes option" where
  "new_p2pkh h = map_option (\<lambda>b. b_script (push_opcode OP_CHECKSIG (push_opcode OP_EQUALVERIFY b)))
     (builder_push_slice h (push_opcode OP_HASH160 (push_opcode OP_DUP builder_new)))"

definition new_p2sh :: "bytes \<Rightarrow> bytes option" where
  "new_p2sh h = map_option (\<lambda>b. b_script (push_opcode OP_EQUAL b)) (builder_push_slice h (push_opcode OP_HASH160 builder_new))"

definition new_witness_program :: "WitnessProgram \<Rightarrow> bytes option" where
  "new_witness_program p =
     map_option b_script (builder_push_slice (wp_program p) (push_opcode (version_to_opcode (wp_version p)) builder_new))"

text \<open>With debug assertions (\<open>da\<close>) the unchecked constructor panics on a program of a wrong length.\<close>

definition new_witness_program_unchecked :: "bool \<Rightarrow> WitnessVersion \<Rightarrow> bytes \<Rightarrow> bytes option" where
  "new_witness_program_unchecked da v program =
     (if da \<and> \<not> (2 \<le> length program \<and> length program \<le> 40) then None
      else if da \<and> \<not> (v \<noteq> V 0 \<or> length program = 20 \<or> length program = 32) then None
      else map_option b_script (builder_push_slice program (push_opcode (version_to_opcode v) builder_new)))"

definition new_p2wpkh :: "bool \<Rightarrow> bytes \<Rightarrow> bytes option" where "new_p2wpkh da h = new_witness_program_unchecked da (V 0) h"
definition new_p2wsh :: "bool \<Rightarrow> bytes \<Rightarrow> bytes option" where "new_p2wsh da h = new_witness_program_unchecked da (V 0) h"
definition new_p2tr_tweaked :: "bool \<Rightarrow> bytes \<Rightarrow> bytes option" where "new_p2tr_tweaked da k = new_witness_program_unchecked da (V 1) k"

definition p2wpkh_script_code_of :: "bytes \<Rightarrow> bytes option" where
  "p2wpkh_script_code_of h = map_option (\<lambda>b. b_script (push_opcode OP_CHECKSIG (push_opcode OP_EQUALVERIFY b)))
     (builder_push_slice h (push_opcode OP_HASH160 (push_opcode OP_DUP builder_new)))"

definition new_op_return :: "bytes \<Rightarrow> bytes option" where
  "new_op_return data = map_option b_script (builder_push_slice data (push_opcode OP_RETURN builder_new))"

definition witness_version :: "bytes \<Rightarrow> WitnessVersion option" where
  "witness_version s =
     (let script_len = length s
      in if \<not> (4 \<le> script_len \<and> script_len \<le> 42) then None
         else (let ver_opcode = Opcode (s ! 0); push_opbyte = s ! 1
               in if push_opbyte < op_code OP_PUSHBYTES_2 \<or> push_opbyte > op_code OP_PUSHBYTES_40 then None
                  else if script_len - 2 \<noteq> unat push_opbyte then None
                  else (case version_from_opcode ver_opcode of Inr v \<Rightarrow> Some v | Inl _ \<Rightarrow> None)))"

definition is_p2sh :: "bytes \<Rightarrow> bool" where
  "is_p2sh s \<longleftrightarrow> length s = 23 \<and> s ! 0 = op_code OP_HASH160 \<and> s ! 1 = op_code OP_PUSHBYTES_20 \<and> s ! 22 = op_code OP_EQUAL"

definition is_p2pkh :: "bytes \<Rightarrow> bool" where
  "is_p2pkh s \<longleftrightarrow> length s = 25 \<and> s ! 0 = op_code OP_DUP \<and> s ! 1 = op_code OP_HASH160 \<and> s ! 2 = op_code OP_PUSHBYTES_20 \<and>
     s ! 23 = op_code OP_EQUALVERIFY \<and> s ! 24 = op_code OP_CHECKSIG"

definition p2pk_pubkey_bytes :: "bytes \<Rightarrow> bytes option" where
  "p2pk_pubkey_bytes s =
     (if length s = 67 \<and> s ! 0 = op_code OP_PUSHBYTES_65 \<and> s ! 66 = op_code OP_CHECKSIG then Some (take 65 (drop 1 s))
      else if length s = 35 \<and> s ! 0 = op_code OP_PUSHBYTES_33 \<and> s ! 34 = op_code OP_CHECKSIG then Some (take 33 (drop 1 s))
      else None)"

definition is_p2pk :: "bytes \<Rightarrow> bool" where "is_p2pk s \<longleftrightarrow> p2pk_pubkey_bytes s \<noteq> None"

definition is_witness_program :: "bytes \<Rightarrow> bool" where "is_witness_program s \<longleftrightarrow> witness_version s \<noteq> None"

definition is_p2wsh :: "bytes \<Rightarrow> bool" where
  "is_p2wsh s \<longleftrightarrow> length s = 34 \<and> witness_version s = Some (V 0) \<and> s ! 1 = op_code OP_PUSHBYTES_32"

definition is_p2wpkh :: "bytes \<Rightarrow> bool" where
  "is_p2wpkh s \<longleftrightarrow> length s = 22 \<and> witness_version s = Some (V 0) \<and> s ! 1 = op_code OP_PUSHBYTES_20"

definition is_p2tr :: "bytes \<Rightarrow> bool" where
  "is_p2tr s \<longleftrightarrow> length s = 34 \<and> witness_version s = Some (V 1) \<and> s ! 1 = op_code OP_PUSHBYTES_32"

definition is_op_return :: "bytes \<Rightarrow> bool" where
  "is_op_return s = (case s of [] \<Rightarrow> False | b # _ \<Rightarrow> b = op_code OP_RETURN)"

definition is_provably_unspendable :: "bytes \<Rightarrow> bool" where
  "is_provably_unspendable s =
     (case s of [] \<Rightarrow> False
      | b # _ \<Rightarrow> (let c = classify (Opcode b) Legacy in c = Some ReturnOp \<or> c = Some IllegalOp))"

definition p2wpkh_script_code :: "bytes \<Rightarrow> bytes option option" where
  "p2wpkh_script_code s = (if is_p2wpkh s then map_option Some (p2wpkh_script_code_of (drop 2 s)) else Some None)"

section \<open>One instruction\<close>

abbreviation iter :: "bool \<Rightarrow> bytes \<Rightarrow> Instructions" where
  "iter m data \<equiv> \<lparr> instr_data = data, enforce_minimal = m \<rparr>"

lemma uint_loop_value:
  "i + k \<le> 8 \<Longrightarrow> k \<le> length data \<Longrightarrow> ret < 2 ^ (8 * i) \<Longrightarrow>
     uint_loop i k data ret = (Inr (ret + 2 ^ (8 * i) * le_nat (take k data)), drop k data)"
proof (induction i k data ret rule: uint_loop.induct)
  case (3 i k item data ret)
  have "unat item + 1 \<le> 256" by (simp add: Suc_le_eq)
  then have "(unat item + 1) * 2 ^ (8 * i) \<le> 256 * 2 ^ (8 * i)" by (rule mult_le_mono1)
  then have "unat item * 2 ^ (8 * i) + 2 ^ (8 * i) \<le> 2 ^ (8 * (i + 1))" unfolding add_mult_distrib by (simp add: power_add)
  then have lt: "unat item * 2 ^ (8 * i) + ret < 2 ^ (8 * (i + 1))" using "3.prems"(3) by (rule less_le_trans [OF add_strict_left_mono, rotated])
  also have "(2 :: nat) ^ (8 * (i + 1)) \<le> 2 ^ 64" using "3.prems"(1) by (intro power_increasing) simp_all
  finally have b: "unat item * 2 ^ (8 * i) + ret < 2 ^ 64" .
  have i: "\<not> i * 8 \<ge> 64" using "3.prems"(1) by simp
  have v: "(unat item * 2 ^ (i * 8)) mod 2 ^ 64 = unat item * 2 ^ (8 * i)" using b by (simp add: mult.commute)
  have "uint_loop i (Suc k) (item # data) ret = uint_loop (i + 1) k data (unat item * 2 ^ (8 * i) + ret)"
    using i b unfolding uint_loop.simps Let_def v by simp
  also have "\<dots> = (Inr (unat item * 2 ^ (8 * i) + ret + 2 ^ (8 * (i + 1)) * le_nat (take k data)), drop k data)"
    using "3.prems" i lt b v by (intro "3.IH") (simp_all add: mult.commute)
  finally show ?case by (simp add: power_add algebra_simps)
qed simp_all

lemma read_uint_value:
  "k \<le> 8 \<Longrightarrow> read_uint_iter data k =
     (if length data < k then (Inl UintEarlyEndOfScript, data) else (Inr (le_nat (take k data)), drop k data))"
  using uint_loop_value [of 0 k data 0] by (simp add: read_uint_iter_def)

lemma push_data_value:
  assumes "k \<le> 4"
  shows "next_push_data_len (iter m data) k lim =
    (if length data < k then (Some (Inl EarlyEndOfScript), iter m [])
     else if m \<and> le_nat (take k data) < lim then (Some (Inl NonMinimalPush), iter m [])
     else if le_nat (take k data) \<le> length (drop k data)
       then (Some (Inr (PushBytes (take (le_nat (take k data)) (drop k data)))), iter m (drop (le_nat (take k data)) (drop k data)))
     else (Some (Inl EarlyEndOfScript), iter m []))"
proof -
  have "le_nat (take k data) < 256 ^ length (take k data)" by (rule le_nat_lt)
  also have "\<dots> \<le> 256 ^ 4" using assms by (intro power_increasing) simp_all
  finally have "\<not> 2 ^ 32 \<le> le_nat (take k data)" by simp
  then show ?thesis
    using assms by (simp add: next_push_data_len_def read_uint_value take_slice_or_kill_def kill_def Let_def)
qed

lemma next_literal:
  assumes "b \<le> 75"
  shows "next_instruction (iter m (b # data)) =
    (if m \<and> b = 1 \<and> data \<noteq> [] \<and> (hd data = 0x81 \<or> hd data > 0 \<and> hd data \<le> 16) then (Some (Inl NonMinimalPush), iter m [])
     else if unat b \<le> length data then (Some (Inr (PushBytes (take (unat b) data))), iter m (drop (unat b) data))
     else (Some (Inl EarlyEndOfScript), iter m []))"
proof -
  have u: "unat (ucast b :: u32) = unat b" by (simp add: unat_ucast_up)
  then have "(ucast b :: u32) = 1 \<longleftrightarrow> b = 1" "(ucast b :: u32) = 0 \<longleftrightarrow> b = 0"
    by (auto simp: word_unat_eq_iff)
  then show ?thesis
    using classify_push [OF assms] u by (simp add: next_instruction_def Let_def take_slice_or_kill_def kill_def)
qed

lemma next_pushdata:
  "next_instruction (iter m (0x4c # data)) = next_push_data_len (iter m data) 1 76"
  "next_instruction (iter m (0x4d # data)) = next_push_data_len (iter m data) 2 0x100"
  "next_instruction (iter m (0x4e # data)) = next_push_data_len (iter m data) 4 0x10000"
  using classify_pushdata by (simp_all add: next_instruction_def Let_def)

lemma next_op:
  assumes "78 < b"
  shows "next_instruction (iter m (b # data)) = (Some (Inr (Op (Opcode b))), iter m data)"
proof -
  obtain c where c: "classify (Opcode b) Legacy = Some c" "\<And>n. c \<noteq> PushBytesClass n"
    "c \<noteq> Ordinary OP_PUSHDATA1" "c \<noteq> Ordinary OP_PUSHDATA2" "c \<noteq> Ordinary OP_PUSHDATA4"
    using classify_other [OF assms] by blast
  then show ?thesis by (cases c) (auto simp: next_instruction_def Let_def)
qed

lemma opcode_cases:
  obtains "(b :: u8) \<le> 75" | "b = 0x4c" | "b = 0x4d" | "b = 0x4e" | "78 < b"
proof -
  have "uint b \<le> 75 \<or> uint b = 76 \<or> uint b = 77 \<or> uint b = 78 \<or> 78 < uint b" by linarith
  then show thesis using that by (auto simp: word_le_def word_less_def word_uint_eq_iff)
qed

section \<open>Instructions and bytes\<close>

text \<open>The bytes of an instruction, the instructions that are not parts of a push, and those that the minimal iterator
  accepts: a push of a single byte that has an opcode of its own is not minimal.\<close>

definition push_header :: "nat \<Rightarrow> bytes" where
  "push_header n =
     (if n < 0x4c then [word_of_nat n] else if n < 0x100 then 0x4c # nat_le 1 n
      else if n < 0x10000 then 0x4d # nat_le 2 n else 0x4e # nat_le 4 n)"

fun instr_bytes :: "Instruction \<Rightarrow> bytes" where
  "instr_bytes (PushBytes b) = push_header (length b) @ b"
| "instr_bytes (Op op) = [op_code op]"

fun instr_ok :: "Instruction \<Rightarrow> bool" where
  "instr_ok (PushBytes b) \<longleftrightarrow> length b < 2 ^ 32"
| "instr_ok (Op op) \<longleftrightarrow> 78 < op_code op"

fun instr_minimal :: "Instruction \<Rightarrow> bool" where
  "instr_minimal (PushBytes b) \<longleftrightarrow> \<not> (length b = 1 \<and> (hd b = 0x81 \<or> hd b > 0 \<and> hd b \<le> 16))"
| "instr_minimal (Op op) \<longleftrightarrow> True"

lemma word_mod_256: "word_of_nat (k mod 256) = (word_of_nat k :: u8)"
  by (simp add: word_unat_eq_iff unat_of_nat)

lemma nat_le_explicit:
  "nat_le 1 k = [word_of_nat k]" "nat_le 2 k = [word_of_nat k, word_of_nat (k div 0x100)]"
  "nat_le 4 k = [word_of_nat k, word_of_nat (k div 0x100), word_of_nat (k div 0x10000), word_of_nat (k div 0x1000000)]"
proof -
  have "nat_le (Suc (Suc 0)) k = [word_of_nat k, word_of_nat (k div 0x100)]"
    "nat_le (Suc (Suc (Suc (Suc 0)))) k = [word_of_nat k, word_of_nat (k div 0x100), word_of_nat (k div 0x10000), word_of_nat (k div 0x1000000)]"
    by (simp_all add: div_mult2_eq [symmetric])
  moreover have "(2 :: nat) = Suc (Suc 0)" "(4 :: nat) = Suc (Suc (Suc (Suc 0)))" by simp_all
  ultimately show "nat_le 1 k = [word_of_nat k]" "nat_le 2 k = [word_of_nat k, word_of_nat (k div 0x100)]"
    "nat_le 4 k = [word_of_nat k, word_of_nat (k div 0x100), word_of_nat (k div 0x10000), word_of_nat (k div 0x1000000)]"
    by (simp, metis, metis)
qed

lemma push_slice_eq: "length data < 2 ^ 32 \<Longrightarrow> push_slice_no_opt s data = Some (s @ push_header (length data) @ data)"
  unfolding push_slice_no_opt_def push_header_def Let_def nat_le_explicit by (simp add: word_mod_256)

lemma push_data_header:
  assumes "k \<le> 4" "length hdr = k" "le_nat hdr = length b"
  shows "next_push_data_len (iter m (hdr @ b @ rest)) k lim =
    (if m \<and> length b < lim then (Some (Inl NonMinimalPush), iter m []) else (Some (Inr (PushBytes b)), iter m rest))"
  using push_data_value [OF assms(1), of "hdr @ b @ rest" m lim] assms(2,3) by simp

lemma next_instr_bytes:
  assumes "instr_ok i"
  shows "next_instruction (iter m (instr_bytes i @ rest)) =
    (if m \<and> \<not> instr_minimal i then (Some (Inl NonMinimalPush), iter m []) else (Some (Inr i), iter m rest))"
proof (cases i)
  case (Op op)
  then show ?thesis using assms next_op [of "op_code op" rest m] by simp
next
  case (PushBytes b)
  let ?n = "length b"
  consider "?n < 76" | "76 \<le> ?n" "?n < 256" | "256 \<le> ?n" "?n < 65536" | "65536 \<le> ?n" "?n < 2 ^ 32"
    using assms PushBytes by fastforce
  then show ?thesis
  proof cases
    case 1
    then have "(word_of_nat ?n :: u8) \<le> 75" "unat (word_of_nat ?n :: u8) = ?n"
      by (simp_all add: word_le_nat_alt unat_of_nat)
    moreover have "(word_of_nat ?n :: u8) = 1 \<longleftrightarrow> ?n = 1" using 1 by (simp add: word_unat_eq_iff unat_of_nat)
    ultimately show ?thesis using 1 next_literal [of "word_of_nat ?n" "b @ rest" m]
      by (auto simp: PushBytes push_header_def hd_append)
  next
    case 2
    then show ?thesis using push_data_header [of 1 "nat_le 1 ?n" b rest m 76] by (simp add: PushBytes push_header_def next_pushdata unat_of_nat)
  next
    case 3
    then show ?thesis using push_data_header [of 2 "nat_le 2 ?n" b rest m "0x100"] by (simp add: PushBytes push_header_def next_pushdata le_nat_nat_le_id)
  next
    case 4
    then show ?thesis using push_data_header [of 4 "nat_le 4 ?n" b rest m "0x10000"] by (simp add: PushBytes push_header_def next_pushdata le_nat_nat_le_id)
  qed
qed

lemma push_data_canonical:
  assumes "next_push_data_len (iter True data) k lim = (Some (Inr i), it)" "k \<le> 4"
  shows "\<exists>b rest. i = PushBytes b \<and> it = iter True rest \<and> data = nat_le k (length b) @ b @ rest \<and> lim \<le> length b \<and> length b < 256 ^ k"
proof -
  let ?n = "le_nat (take k data)"
  have d: "k \<le> length data" "lim \<le> ?n" "?n \<le> length (drop k data)" "i = PushBytes (take ?n (drop k data))" "it = iter True (drop ?n (drop k data))"
    using assms(1) unfolding push_data_value [OF assms(2)] by (auto split: if_splits)
  have "nat_le k ?n = take k data" using d(1) by (intro nat_le_le_nat_len) simp
  moreover have "length (take ?n (drop k data)) = ?n" using d(3) by simp
  moreover have "?n < 256 ^ k" using le_nat_lt [of "take k data"] d(1) by simp
  moreover have "data = take k data @ take ?n (drop k data) @ drop ?n (drop k data)" by (simp only: append_take_drop_id)
  ultimately show ?thesis using d by (intro exI [of _ "take ?n (drop k data)"] exI [of _ "drop ?n (drop k data)"]) simp
qed

lemma next_minimal_canonical:
  assumes "next_instruction (iter True data) = (Some (Inr i), it)"
  shows "\<exists>rest. it = iter True rest \<and> instr_ok i \<and> instr_minimal i \<and> data = instr_bytes i @ rest"
proof (cases data)
  case Nil
  then show ?thesis using assms by (simp add: next_instruction_def)
next
  case (Cons b r)
  show ?thesis
  proof (cases b rule: opcode_cases)
    case 1
    then have d: "unat b \<le> length r" "i = PushBytes (take (unat b) r)" "it = iter True (drop (unat b) r)"
        "\<not> (b = 1 \<and> r \<noteq> [] \<and> (hd r = 0x81 \<or> hd r > 0 \<and> hd r \<le> 16))"
      using assms next_literal [OF 1] by (auto simp: Cons split: if_splits)
    have len: "length (take (unat b) r) = unat b" "unat b < 76" using d(1) 1 by (simp_all add: word_le_nat_alt)
    have "instr_minimal i" using d len(1) by (cases r) (auto simp: word_unat_eq_iff)
    then show ?thesis using d len by (simp add: Cons push_header_def)
  next
    case 2
    then show ?thesis using assms push_data_canonical [of r 1 76 i it] by (auto simp: Cons next_pushdata push_header_def)
  next
    case 3
    then show ?thesis using assms push_data_canonical [of r 2 "0x100" i it] by (auto simp: Cons next_pushdata push_header_def)
  next
    case 4
    then show ?thesis using assms push_data_canonical [of r 4 "0x10000" i it] by (auto simp: Cons next_pushdata push_header_def)
  next
    case 5
    then show ?thesis using assms next_op [OF 5] by (auto simp: Cons)
  qed
qed

lemma items_Nil [simp]: "items (iter m []) = []"
  by (simp add: items.simps next_instruction_def)

lemma items_empty_iff [simp]: "items (iter m s) = [] \<longleftrightarrow> s = []"
proof (cases s)
  case (Cons b r)
  have "fst (next_instruction (iter m s)) \<noteq> None"
    by (auto simp: Cons next_instruction_def next_push_data_len_def Let_def split: option.splits Class.splits prod.splits sum.splits)
  then show ?thesis using Cons by (subst items.simps) (auto split: prod.splits option.splits)
qed simp

lemma items_instr:
  "instr_ok i \<Longrightarrow> items (iter m (instr_bytes i @ rest)) = (if m \<and> \<not> instr_minimal i then [Inl NonMinimalPush] else Inr i # items (iter m rest))"
  using next_instr_bytes [of i rest m] by (subst items.simps) simp

abbreviation assemble :: "Instruction list \<Rightarrow> bytes" where
  "assemble is \<equiv> concat (map instr_bytes is)"

lemma items_assemble: "list_all instr_ok is \<Longrightarrow> items (iter False (assemble is @ rest)) = map Inr is @ items (iter False rest)"
  by (induction "is") (simp_all add: items_instr)

lemma items_minimal: "list_all (\<lambda>i. instr_ok i \<and> instr_minimal i) is \<Longrightarrow> items (iter True (assemble is)) = map Inr is"
  by (induction "is") (simp_all add: items_instr)

lemma minimal_items:
  "items (iter True s) = map Inr is \<Longrightarrow> list_all (\<lambda>i. instr_ok i \<and> instr_minimal i) is \<and> s = assemble is"
proof (induction "is" arbitrary: s)
  case Nil
  then show ?case by simp
next
  case (Cons i "is")
  then obtain it where n: "next_instruction (iter True s) = (Some (Inr i), it)" "items it = map Inr is"
    by (subst (asm) items.simps) (cases "next_instruction (iter True s)", auto split: option.splits)
  then show ?case using next_minimal_canonical [OF n(1)] Cons.IH by auto
qed

section \<open>Well-formed scripts\<close>

text \<open>A script is well formed if the iterator runs to its end without an error.\<close>

definition script_wf :: "bytes \<Rightarrow> bool" where
  "script_wf s \<longleftrightarrow> list_all (\<lambda>r. \<not> isl r) (items (instructions s))"

text \<open>An instruction read from a script takes a prefix of it, and the same one whatever follows.\<close>

lemma push_data_prefix:
  assumes "next_push_data_len (iter False s) k lim = (Some (Inr i), it)" "k \<le> 4"
  shows "\<exists>e rest. s = e @ rest \<and> it = iter False rest \<and>
    (\<forall>t. next_push_data_len (iter False (e @ t)) k lim = (Some (Inr i), iter False t)) \<and> (\<exists>b. i = PushBytes b)"
proof -
  let ?n = "le_nat (take k s)"
  have d: "k \<le> length s" "?n \<le> length (drop k s)" "i = PushBytes (take ?n (drop k s))" "it = iter False (drop ?n (drop k s))"
    using assms(1) unfolding push_data_value [OF assms(2)] by (auto split: if_splits)
  let ?e = "take k s @ take ?n (drop k s)"
  have l: "length (take ?n (drop k s)) = ?n" using d(2) by (simp add: min_def)
  have "next_push_data_len (iter False (?e @ t)) k lim = (Some (Inr i), iter False t)" for t
    using push_data_header [OF assms(2), of "take k s" "take ?n (drop k s)" t False lim] d l by simp
  moreover have "s = ?e @ drop ?n (drop k s)" by (simp only: append_take_drop_id append_assoc)
  ultimately show ?thesis using d(3,4) by blast
qed

lemma next_prefix:
  assumes "next_instruction (iter False s) = (Some (Inr i), it)"
  shows "\<exists>e rest. s = e @ rest \<and> e \<noteq> [] \<and> it = iter False rest \<and>
    (\<forall>t. next_instruction (iter False (e @ t)) = (Some (Inr i), iter False t)) \<and> (\<forall>op. i = Op op \<longrightarrow> e = [op_code op])"
proof (cases s)
  case Nil
  then show ?thesis using assms by (simp add: next_instruction_def)
next
  case (Cons b r)
  show ?thesis
  proof (cases b rule: opcode_cases)
    case 1
    then have d: "unat b \<le> length r" "i = PushBytes (take (unat b) r)" "it = iter False (drop (unat b) r)"
      using assms next_literal [OF 1] by (auto simp: Cons split: if_splits)
    then have "next_instruction (iter False ((b # take (unat b) r) @ t)) = (Some (Inr i), iter False t)" for t
      using next_literal [OF 1, of "take (unat b) r @ t" False] by (simp add: min_def)
    then show ?thesis using d by (intro exI [of _ "b # take (unat b) r"] exI [of _ "drop (unat b) r"]) (simp add: Cons)
  next
    case 2
    then obtain e rest where "r = e @ rest" "it = iter False rest" "\<exists>x. i = PushBytes x"
        "\<forall>t. next_push_data_len (iter False (e @ t)) 1 76 = (Some (Inr i), iter False t)"
      using push_data_prefix [of r 1 76 i it] assms by (auto simp: Cons next_pushdata)
    then show ?thesis using 2 by (intro exI [of _ "b # e"] exI [of _ rest]) (auto simp: Cons next_pushdata)
  next
    case 3
    then obtain e rest where "r = e @ rest" "it = iter False rest" "\<exists>x. i = PushBytes x"
        "\<forall>t. next_push_data_len (iter False (e @ t)) 2 0x100 = (Some (Inr i), iter False t)"
      using push_data_prefix [of r 2 "0x100" i it] assms by (auto simp: Cons next_pushdata)
    then show ?thesis using 3 by (intro exI [of _ "b # e"] exI [of _ rest]) (auto simp: Cons next_pushdata)
  next
    case 4
    then obtain e rest where "r = e @ rest" "it = iter False rest" "\<exists>x. i = PushBytes x"
        "\<forall>t. next_push_data_len (iter False (e @ t)) 4 0x10000 = (Some (Inr i), iter False t)"
      using push_data_prefix [of r 4 "0x10000" i it] assms by (auto simp: Cons next_pushdata)
    then show ?thesis using 4 by (intro exI [of _ "b # e"] exI [of _ rest]) (auto simp: Cons next_pushdata)
  next
    case 5
    then show ?thesis using assms next_op [OF 5] by (intro exI [of _ "[b]"] exI [of _ r]) (auto simp: Cons)
  qed
qed

lemma items_unfold:
  assumes "items (iter False s) = Inr i # xs"
  obtains e rest where "s = e @ rest" "e \<noteq> []" "\<And>t. items (iter False (e @ t)) = Inr i # items (iter False t)"
    "items (iter False rest) = xs" "\<And>op. i = Op op \<Longrightarrow> e = [op_code op]"
proof -
  obtain it where n: "next_instruction (iter False s) = (Some (Inr i), it)" "items it = xs"
    using assms by (subst (asm) items.simps) (cases "next_instruction (iter False s)", auto split: option.splits)
  then obtain e rest where e: "s = e @ rest" "e \<noteq> []" "it = iter False rest" "\<And>op. i = Op op \<Longrightarrow> e = [op_code op]"
      "\<And>t. next_instruction (iter False (e @ t)) = (Some (Inr i), iter False t)" using next_prefix [OF n(1)] by blast
  then have "items (iter False (e @ t)) = Inr i # items (iter False t)" for t by (subst items.simps) simp
  then show thesis using that e n(2) by auto
qed

lemma wf_append: "script_wf s \<Longrightarrow> items (instructions (s @ t)) = items (instructions s) @ items (instructions t)"
  unfolding script_wf_def instructions_def
proof (induction "items (iter False s)" arbitrary: s)
  case Nil
  then have "s = []" by (metis items_empty_iff)
  then show ?case by simp
next
  case (Cons x xs)
  then obtain i where "x = Inr i" by (cases x) (auto simp: Cons.hyps(2) [symmetric])
  then obtain e rest where e: "s = e @ rest" "\<And>t. items (iter False (e @ t)) = Inr i # items (iter False t)" "items (iter False rest) = xs"
    using items_unfold [of s i xs] Cons.hyps(2) by metis
  then show ?case using Cons.hyps(1) [of rest] Cons.prems by (simp add: e)
qed

lemma all_Inr: "list_all (\<lambda>r. \<not> isl r) xs \<Longrightarrow> \<exists>ys. xs = map Inr ys"
proof (induction xs)
  case (Cons x xs)
  then obtain y ys where "x = Inr y" "xs = map Inr ys" by (cases x) auto
  then show ?case by (intro exI [of _ "y # ys"]) simp
qed simp

lemma items_last_op:
  "items (iter False s) = map Inr is @ [Inr (Op op)] \<Longrightarrow> \<exists>s'. s = s' @ [op_code op] \<and> items (iter False s') = map Inr is"
proof (induction "is" arbitrary: s)
  case Nil
  then obtain e rest where "s = e @ rest" "items (iter False rest) = []" "e = [op_code op]"
    using items_unfold [of s "Op op" "[]"] by auto
  then show ?case by simp
next
  case (Cons i "is")
  then obtain e rest where e: "s = e @ rest" "\<And>t. items (iter False (e @ t)) = Inr i # items (iter False t)"
      "items (iter False rest) = map Inr is @ [Inr (Op op)]"
    using items_unfold [of s i "map Inr is @ [Inr (Op op)]"] Cons.prems by (metis append_Cons list.simps(9))
  then obtain r' where "rest = r' @ [op_code op]" "items (iter False r') = map Inr is" using Cons.IH by blast
  then show ?case using e by (intro exI [of _ "e @ r'"]) simp
qed

lemma wf_last_op:
  assumes "script_wf s" "last_opcode s = Some op"
  shows "\<exists>s'. s = s' @ [op_code op] \<and> script_wf s'"
proof -
  obtain ys where ys: "items (iter False s) = map Inr ys" using assms(1) all_Inr by (auto simp: script_wf_def instructions_def)
  then have "ys \<noteq> []" "last ys = Op op"
    using assms(2) by (auto simp: last_opcode_def instructions_def last_map split: Instruction.splits if_splits)
  then obtain zs where "ys = zs @ [Op op]" by (metis append_butlast_last_id)
  then show ?thesis using items_last_op [of s zs op] ys by (auto simp: script_wf_def instructions_def list_all_iff)
qed

lemma wf_push:
  assumes "script_wf s" "instr_ok i"
  shows "script_wf (s @ instr_bytes i)" and "last_opcode (s @ instr_bytes i) = (case i of Op op \<Rightarrow> Some op | PushBytes _ \<Rightarrow> None)"
proof -
  have "items (instructions (instr_bytes i)) = [Inr i]" using items_instr [OF assms(2), of "[]" False] by (simp add: instructions_def)
  then have it: "items (instructions (s @ instr_bytes i)) = items (instructions s) @ [Inr i]" using wf_append [OF assms(1)] by simp
  then show "script_wf (s @ instr_bytes i)" using assms(1) by (simp add: script_wf_def)
  show "last_opcode (s @ instr_bytes i) = (case i of Op op \<Rightarrow> Some op | PushBytes _ \<Rightarrow> None)"
    using it by (simp add: last_opcode_def split: Instruction.split)
qed

lemma zero_is_push: "[op_code OP_0] = instr_bytes (PushBytes [])" "instr_ok (PushBytes [])"
  by (simp_all add: push_header_def)

section \<open>The states of a builder\<close>

text \<open>Builders that start empty or from a well-formed script, and whose pushed opcodes do not announce data.\<close>

inductive built :: "Builder \<Rightarrow> bool" where
  built_new: "built builder_new"
| built_from: "script_wf v \<Longrightarrow> built (builder_from v)"
| built_opcode: "built b \<Longrightarrow> 78 < op_code op \<or> op = OP_0 \<Longrightarrow> built (push_opcode op b)"
| built_slice: "built b \<Longrightarrow> builder_push_slice data b = Some b' \<Longrightarrow> built b'"
| built_int: "built b \<Longrightarrow> push_int n b = Some b' \<Longrightarrow> built b'"
| built_verify: "built b \<Longrightarrow> built (push_verify b)"
| built_lock_time: "built b \<Longrightarrow> push_lock_time lt b = Some b' \<Longrightarrow> built b'"
| built_sequence: "built b \<Longrightarrow> push_sequence sq b = Some b' \<Longrightarrow> built b'"

definition builder_inv :: "Builder \<Rightarrow> bool" where
  "builder_inv b \<longleftrightarrow> script_wf (b_script b) \<and> opcode_to_verify (b_last b) = opcode_to_verify (last_opcode (b_script b))"

lemma opcode_to_verify_None [simp]: "opcode_to_verify None = None"
  by (simp add: opcode_to_verify_def)

lemma script_wf_Nil [simp]: "script_wf []"
  by (simp add: script_wf_def instructions_def)

lemma inv_opcode: "script_wf (b_script b) \<Longrightarrow> 78 < op_code op \<or> op = OP_0 \<Longrightarrow> builder_inv (push_opcode op b)"
proof (elim disjE)
  assume "script_wf (b_script b)" "78 < op_code op"
  then show ?thesis using wf_push [of "b_script b" "Op op"] by (simp add: builder_inv_def push_opcode_def script_push_opcode_def)
next
  assume "script_wf (b_script b)" "op = OP_0"
  then show ?thesis using wf_push [of "b_script b" "PushBytes []"] zero_is_push
    by (simp add: builder_inv_def push_opcode_def script_push_opcode_def opcode_to_verify_def)
qed

lemma inv_slice: "script_wf (b_script b) \<Longrightarrow> builder_push_slice data b = Some b' \<Longrightarrow> builder_inv b'"
proof -
  assume wf: "script_wf (b_script b)" and p: "builder_push_slice data b = Some b'"
  have len: "length data < 2 ^ 32"
    using p by (auto simp: builder_push_slice_def script_push_slice_def push_slice_no_opt_def Let_def split: if_splits)
  then have "b' = \<lparr> b_script = b_script b @ instr_bytes (PushBytes data), b_last = None \<rparr>"
    using p push_slice_eq [OF len] by (simp add: builder_push_slice_def script_push_slice_def)
  then show "builder_inv b'" using wf_push [OF wf, of "PushBytes data"] len by (simp add: builder_inv_def)
qed

lemma inv_int: "script_wf (b_script b) \<Longrightarrow> push_int n b = Some b' \<Longrightarrow> builder_inv b'"
proof -
  assume wf: "script_wf (b_script b)" and p: "push_int n b = Some b'"
  consider "n = - 1 \<or> 1 \<le> n \<and> n \<le> 16" | "n = 0" | "push_int_non_minimal n b = Some b'"
    using p by (auto simp: push_int_def split: if_splits)
  then show "builder_inv b'"
  proof cases
    case 1
    then have "uint (word_of_int (n - 1 + 0x51) :: u8) = n - 1 + 0x51" by (intro word_of_int_inverse) auto
    then have "78 < (word_of_int (n - 1 + 0x51) :: u8)" using 1 by (auto simp: word_less_def)
    moreover have "b' = push_opcode (Opcode (word_of_int (n - 1 + 0x51))) b" using 1 p by (auto simp: push_int_def)
    ultimately show ?thesis using inv_opcode [OF wf] by simp
  next
    case 2
    then show ?thesis using p inv_opcode [OF wf, of OP_0] by (simp add: push_int_def)
  next
    case 3
    then show ?thesis using inv_slice [OF wf] by (auto simp: push_int_non_minimal_def split: option.splits)
  qed
qed

lemma verify_cases:
  assumes "opcode_to_verify op = Some op'"
  obtains lo where "op = Some lo" "78 < op_code op'" "opcode_to_verify (Some op') = None"
  using assms by (auto simp: opcode_to_verify_def split: option.splits if_splits)

lemma inv_verify: "builder_inv b \<Longrightarrow> builder_inv (push_verify b)"
proof (cases "opcode_to_verify (b_last b)")
  case None
  assume "builder_inv b"
  then show ?thesis using None inv_opcode [of b OP_VERIFY] by (simp add: push_verify_def builder_inv_def)
next
  case (Some op')
  assume inv: "builder_inv b"
  then obtain lo where lo: "last_opcode (b_script b) = Some lo" "78 < op_code op'"
    using Some verify_cases [of "last_opcode (b_script b)" op'] by (auto simp: builder_inv_def)
  then obtain s' where s': "b_script b = s' @ [op_code lo]" "script_wf s'" using wf_last_op inv by (auto simp: builder_inv_def)
  then show ?thesis using inv_opcode [of "b\<lparr> b_script := s' \<rparr>" op'] lo(2) Some by (simp add: push_verify_def)
qed

lemma built_inv: "built b \<Longrightarrow> builder_inv b"
proof (induction rule: built.induct)
  case built_new
  then show ?case by (simp add: builder_inv_def builder_new_def last_opcode_def instructions_def)
next
  case (built_from v)
  then show ?case by (simp add: builder_inv_def builder_from_def)
next
  case (built_opcode b op)
  then show ?case using inv_opcode by (simp add: builder_inv_def)
next
  case (built_slice b data b')
  then show ?case using inv_slice [of b] by (simp add: builder_inv_def)
next
  case (built_int b n b')
  then show ?case using inv_int [of b] by (simp add: builder_inv_def)
next
  case (built_verify b)
  then show ?case using inv_verify by blast
next
  case (built_lock_time b lt b')
  then show ?case using inv_int [of b] by (simp add: builder_inv_def push_lock_time_def)
next
  case (built_sequence b sq b')
  then show ?case using inv_int [of b] by (simp add: builder_inv_def push_sequence_def)
qed

section \<open>Templates and constructors\<close>

lemma short_push: "length d < 76 \<Longrightarrow> builder_push_slice d b = Some \<lparr> b_script = b_script b @ [word_of_nat (length d)] @ d, b_last = None \<rparr>"
  by (simp add: builder_push_slice_def script_push_slice_def push_slice_no_opt_def Let_def)

lemma p2pkh_bytes: "length h = 20 \<Longrightarrow> new_p2pkh h = Some ([0x76, 0xa9, 0x14] @ h @ [0x88, 0xac])"
  by (simp add: new_p2pkh_def short_push push_opcode_def script_push_opcode_def builder_new_def)

lemma p2sh_bytes: "length h = 20 \<Longrightarrow> new_p2sh h = Some ([0xa9, 0x14] @ h @ [0x87])"
  by (simp add: new_p2sh_def short_push push_opcode_def script_push_opcode_def builder_new_def)

abbreviation program_script :: "WitnessVersion \<Rightarrow> bytes \<Rightarrow> bytes" where
  "program_script v p \<equiv> [op_code (version_to_opcode v), word_of_nat (length p)] @ p"

abbreviation program_len_ok :: "WitnessVersion \<Rightarrow> nat \<Rightarrow> bool" where
  "program_len_ok v n \<equiv> 2 \<le> n \<and> n \<le> 40 \<and> \<not> (v = V 0 \<and> n \<notin> {20, 32})"

lemma program_push:
  "length p < 76 \<Longrightarrow>
    map_option b_script (builder_push_slice p (push_opcode (version_to_opcode v) builder_new)) = Some (program_script v p)"
  by (simp add: short_push push_opcode_def script_push_opcode_def builder_new_def)

lemma program_unchecked:
  "length p < 76 \<Longrightarrow>
    new_witness_program_unchecked da v p = (if da \<and> \<not> program_len_ok v (length p) then None else Some (program_script v p))"
  unfolding new_witness_program_unchecked_def program_push by auto

lemma debug_program_None: "new_witness_program_unchecked True v p = None \<longleftrightarrow> \<not> program_len_ok v (length p)"
proof (cases "length p < 76")
  case True
  then show ?thesis by (simp only: program_unchecked) auto
qed (simp add: new_witness_program_unchecked_def)

lemma program_new_iff:
  "witness_program_new v p = Inr wp \<longleftrightarrow> program_len_ok v (length p) \<and> wp = \<lparr> wp_version = v, wp_program = p \<rparr>"
  "(\<exists>e. witness_program_new v p = Inl e) \<longleftrightarrow> \<not> program_len_ok v (length p)"
  by (auto simp: witness_program_new_def Let_def split: if_splits)

lemma drop_two: "length s = n + 2 \<Longrightarrow> drop n s = [s ! n, s ! Suc n]"
  by (simp add: Cons_nth_drop_Suc [symmetric])

lemma take_two: "2 \<le> length s \<Longrightarrow> take 2 s = [s ! 0, s ! 1]"
  by (cases s; cases "tl s") simp_all

lemma take_three: "3 \<le> length s \<Longrightarrow> take 3 s = [s ! 0, s ! 1, s ! 2]"
  by (cases s; cases "tl s"; cases "tl (tl s)") simp_all

lemma split3: "s = take a s @ take b (drop a s) @ drop (a + b) s"
  by (metis add.commute append_take_drop_id drop_drop)

lemma is_p2pkh_iff: "is_p2pkh s \<longleftrightarrow> (\<exists>h. length h = 20 \<and> new_p2pkh h = Some s)"
proof
  assume a: "is_p2pkh s"
  then have len: "length s = 25" by (simp add: is_p2pkh_def)
  have "take 3 s = [0x76, 0xa9, 0x14]"
    using a take_three [of s] by (simp add: is_p2pkh_def)
  moreover have "drop 23 s = [0x88, 0xac]" using a drop_two [of s 23] by (simp add: is_p2pkh_def)
  moreover have "s = take 3 s @ take 20 (drop 3 s) @ drop 23 s" using split3 [of s 3 20] by simp
  ultimately have "new_p2pkh (take 20 (drop 3 s)) = Some s" using p2pkh_bytes [of "take 20 (drop 3 s)"] len by simp
  then show "\<exists>h. length h = 20 \<and> new_p2pkh h = Some s" using len by (intro exI [of _ "take 20 (drop 3 s)"]) simp
next
  assume "\<exists>h. length h = 20 \<and> new_p2pkh h = Some s"
  then obtain h where h: "length h = 20" "s = [0x76, 0xa9, 0x14] @ h @ [0x88, 0xac]" using p2pkh_bytes by auto
  then show "is_p2pkh s" by (simp add: is_p2pkh_def nth_append)
qed

lemma is_p2sh_iff: "is_p2sh s \<longleftrightarrow> (\<exists>h. length h = 20 \<and> new_p2sh h = Some s)"
proof
  assume a: "is_p2sh s"
  then have len: "length s = 23" by (simp add: is_p2sh_def)
  have "take 2 s = [0xa9, 0x14]" using a take_two [of s] by (simp add: is_p2sh_def)
  moreover have "drop 22 s = [0x87]" using a Cons_nth_drop_Suc [of 22 s] by (simp add: is_p2sh_def)
  moreover have "s = take 2 s @ take 20 (drop 2 s) @ drop 22 s" using split3 [of s 2 20] by simp
  ultimately have "new_p2sh (take 20 (drop 2 s)) = Some s" using p2sh_bytes [of "take 20 (drop 2 s)"] len by simp
  then show "\<exists>h. length h = 20 \<and> new_p2sh h = Some s" using len by (intro exI [of _ "take 20 (drop 2 s)"]) simp
next
  assume "\<exists>h. length h = 20 \<and> new_p2sh h = Some s"
  then obtain h where h: "length h = 20" "s = [0xa9, 0x14] @ h @ [0x87]" using p2sh_bytes by auto
  then show "is_p2sh s" by (simp add: is_p2sh_def nth_append)
qed

definition version_ok :: "WitnessVersion \<Rightarrow> bool" where "version_ok v \<longleftrightarrow> version_num v \<le> 16"

lemma version_roundtrip:
  "version_ok v \<Longrightarrow> version_from_opcode (version_to_opcode v) = Inr v"
  "version_from_opcode op = Inr v \<Longrightarrow> version_ok v \<and> op = version_to_opcode v"
proof -
  assume "version_ok v"
  then show "version_from_opcode (version_to_opcode v) = Inr v"
  proof (cases v)
    case (V n)
    have "n \<in> set [0..<17]" using \<open>version_ok v\<close> V by (auto simp: version_ok_def)
    moreover have "list_all (\<lambda>n. version_from_opcode (version_to_opcode (V n)) = Inr (V n)) [0..<17]" by code_simp
    ultimately show ?thesis using V unfolding list_all_iff by blast
  qed
next
  assume a: "version_from_opcode op = Inr v"
  obtain b where b: "op = Opcode b" by (cases op)
  have "case version_from_opcode (Opcode b) of Inl _ \<Rightarrow> True | Inr v \<Rightarrow> version_ok v \<and> Opcode b = version_to_opcode v"
    by (rule all_bytes [where P = "\<lambda>b. case version_from_opcode (Opcode b) of Inl _ \<Rightarrow> True
          | Inr v \<Rightarrow> version_ok v \<and> Opcode b = version_to_opcode v"]) code_simp
  then show "version_ok v \<and> op = version_to_opcode v" using a b by simp
qed

lemma witness_version_iff:
  "witness_version s = Some v \<longleftrightarrow>
     version_ok v \<and> (\<exists>p. 2 \<le> length p \<and> length p \<le> 40 \<and> s = program_script v p)"
proof
  assume a: "witness_version s = Some v"
  then have w: "4 \<le> length s" "length s \<le> 42" "2 \<le> s ! 1" "s ! 1 \<le> 40" "length s - 2 = unat (s ! 1)" "version_from_opcode (Opcode (s ! 0)) = Inr v"
    by (auto simp: witness_version_def Let_def not_less split: if_splits sum.splits)
  have "s = take 2 s @ drop 2 s" by simp
  moreover have "take 2 s = [s ! 0, s ! 1]" using take_two [of s] w(1) by simp
  moreover have "word_of_nat (length (drop 2 s)) = s ! 1" using w(5) by simp
  moreover have "op_code (version_to_opcode v) = s ! 0" using version_roundtrip(2) [OF w(6)] by (metis Opcode.sel)
  ultimately have "s = program_script v (drop 2 s)" by simp
  then show "version_ok v \<and> (\<exists>p. 2 \<le> length p \<and> length p \<le> 40 \<and> s = program_script v p)"
    using w version_roundtrip(2) [OF w(6)] by (intro conjI exI [of _ "drop 2 s"]) auto
next
  assume "version_ok v \<and> (\<exists>p. 2 \<le> length p \<and> length p \<le> 40 \<and> s = program_script v p)"
  then obtain p where p: "version_ok v" "2 \<le> length p" "length p \<le> 40" "s = program_script v p" by auto
  then have "unat (word_of_nat (length p) :: u8) = length p" by (simp add: unat_of_nat)
  then show "witness_version s = Some v"
    using p version_roundtrip(1) [OF p(1)] by (simp add: witness_version_def Let_def word_less_nat_alt)
qed

lemma program_built_iff:
  "(\<exists>p wp. version_ok v \<and> witness_program_new v p = Inr wp \<and> new_witness_program wp = Some s) \<longleftrightarrow>
     witness_version s = Some v \<and> \<not> (v = V 0 \<and> length s \<notin> {22, 34})"
proof -
  have "new_witness_program \<lparr> wp_version = v, wp_program = p \<rparr> = Some s \<longleftrightarrow> s = program_script v p" if "length p \<le> 40" for p
    using program_push [of p v] that by (auto simp: new_witness_program_def)
  then have "(\<exists>p wp. version_ok v \<and> witness_program_new v p = Inr wp \<and> new_witness_program wp = Some s) \<longleftrightarrow>
      version_ok v \<and> (\<exists>p. program_len_ok v (length p) \<and> s = program_script v p)"
    unfolding program_new_iff by blast
  then show ?thesis unfolding witness_version_iff by auto
qed

lemma segwit_iff:
  "is_p2wpkh s \<longleftrightarrow> (\<exists>h. length h = 20 \<and> new_p2wpkh da h = Some s)"
  "is_p2wsh s \<longleftrightarrow> (\<exists>h. length h = 32 \<and> new_p2wsh da h = Some s)"
  "is_p2tr s \<longleftrightarrow> (\<exists>k. length k = 32 \<and> new_p2tr_tweaked da k = Some s)"
proof -
  have p: "length s = n + 2 \<and> witness_version s = Some v \<and> s ! 1 = word_of_nat n \<longleftrightarrow>
      (\<exists>p. length p = n \<and> new_witness_program_unchecked da v p = Some s)" if "version_ok v" "program_len_ok v n" for n v
  proof -
    have "new_witness_program_unchecked da v p = Some s \<longleftrightarrow> s = program_script v p" if "length p = n" for p
      using program_unchecked [of p da v] that \<open>program_len_ok v n\<close> by auto
    then show ?thesis using that unfolding witness_version_iff by auto
  qed
  show "is_p2wpkh s \<longleftrightarrow> (\<exists>h. length h = 20 \<and> new_p2wpkh da h = Some s)"
    using p [of "V 0" 20] by (simp add: is_p2wpkh_def new_p2wpkh_def version_ok_def)
  show "is_p2wsh s \<longleftrightarrow> (\<exists>h. length h = 32 \<and> new_p2wsh da h = Some s)"
    using p [of "V 0" 32] by (simp add: is_p2wsh_def new_p2wsh_def version_ok_def)
  show "is_p2tr s \<longleftrightarrow> (\<exists>k. length k = 32 \<and> new_p2tr_tweaked da k = Some s)"
    using p [of "V 1" 32] by (simp add: is_p2tr_def new_p2tr_tweaked_def version_ok_def)
qed

lemma push_all_ok:
  "list_all instr_ok is \<Longrightarrow> push_all push_instruction is s = Some (s @ assemble is) \<and> push_all push_instruction_no_opt is s = Some (s @ assemble is)"
proof (induction "is" arbitrary: s)
  case (Cons i "is")
  then have "push_instruction i s = Some (s @ instr_bytes i)" "push_instruction_no_opt i s = Some (s @ instr_bytes i)"
    by (cases i; simp add: push_instruction_def push_instruction_no_opt_def script_push_opcode_def script_push_slice_def push_slice_eq)+
  then show ?case using Cons by simp
qed simp

section \<open>Properties\<close>

text \<open>(C22) Scripts and instructions: extending the empty script by instructions gives a script that the iterator reads
  back, and the minimal iterator reads a list of instructions from a script exactly when they are minimal and
  the script is the one that building from them gives. The size hint chooses between two loops that agree.\<close>

theorem script_instructions_bijective:
  assumes "list_all instr_ok is" and "case hint of Some m \<Rightarrow> length is \<le> m | None \<Rightarrow> True"
  shows "(\<exists>s. script_extend hint is [] = Some s \<and> items (instructions s) = map Inr is \<and>
      (items (instructions_minimal s') = map Inr is \<longleftrightarrow> list_all instr_minimal is \<and> s' = s))"
proof -
  have "script_extend hint is [] = Some (assemble is)"
    using push_all_ok [OF assms(1), of "[]"] assms(2) by (auto simp: script_extend_def split: option.splits)
  moreover have "items (instructions (assemble is)) = map Inr is" using items_assemble [OF assms(1), of "[]"] by (simp add: instructions_def)
  moreover have "items (instructions_minimal s') = map Inr is \<longleftrightarrow> list_all instr_minimal is \<and> s' = assemble is"
    using minimal_items [of s' "is"] items_minimal [of "is"] assms(1) by (auto simp: instructions_minimal_def list_all_iff)
  ultimately show ?thesis by blast
qed

theorem script_instructions_bijective_witness:
  "\<exists>s. script_extend None [Op OP_DUP, PushBytes [7, 8]] [] = Some s \<and> items (instructions s) = [Inr (Op OP_DUP), Inr (PushBytes [7, 8])]"
  using script_instructions_bijective [of "[Op OP_DUP, PushBytes [7, 8]]" None] by auto

text \<open>(C24) The cached last opcode of a builder is right: for every builder made by the operations from the empty or a
  well-formed script, where \<open>push_opcode\<close> is not given the opcode of a push, the script is well formed and the verification opcode is appended, or merged into the last
  one, exactly as scanning the whole script would do.\<close>

theorem builder_verify_invariant:
  assumes "built b"
  shows "script_wf (b_script b) \<and> b_script (push_verify b) = scan_and_push_verify (b_script b)"
  using built_inv [OF assms]
  by (auto simp: builder_inv_def push_verify_def scan_and_push_verify_def script_push_verify_def push_opcode_def split: option.split)

theorem builder_verify_invariant_witness:
  "scan_and_push_verify [0xac] = [0xad]"
proof -
  have "built (push_opcode OP_CHECKSIG builder_new)" by (intro built_opcode built_new) simp
  from builder_verify_invariant [OF this] show ?thesis
    by (simp add: push_verify_def push_opcode_def script_push_opcode_def builder_new_def opcode_to_verify_def)
qed

text \<open>(C26) The script templates recognize exactly the scripts that the constructors build, with or without debug
  assertions; a witness version is recognized on exactly the scripts of a version opcode and one push of 2 to 40 bytes, which
  are the scripts of the valid witness programs and, in version 0, those of other lengths than 20 and 32, which
  \<open>WitnessProgram::new\<close> refuses; the debug assertions of the unchecked constructor fail for exactly the programs it refuses.\<close>

theorem templates_exact:
  "(is_p2pkh s \<longleftrightarrow> (\<exists>h. length h = 20 \<and> new_p2pkh h = Some s)) \<and>
   (is_p2sh s \<longleftrightarrow> (\<exists>h. length h = 20 \<and> new_p2sh h = Some s)) \<and>
   (is_p2wpkh s \<longleftrightarrow> (\<exists>h. length h = 20 \<and> new_p2wpkh da h = Some s)) \<and>
   (is_p2wsh s \<longleftrightarrow> (\<exists>h. length h = 32 \<and> new_p2wsh da h = Some s)) \<and>
   (is_p2tr s \<longleftrightarrow> (\<exists>k. length k = 32 \<and> new_p2tr_tweaked da k = Some s)) \<and>
   (witness_version s = Some v \<longleftrightarrow>
      version_ok v \<and> (\<exists>p. 2 \<le> length p \<and> length p \<le> 40 \<and> s = [op_code (version_to_opcode v), word_of_nat (length p)] @ p)) \<and>
   ((\<exists>p wp. version_ok v \<and> witness_program_new v p = Inr wp \<and> new_witness_program wp = Some s) \<longleftrightarrow>
      witness_version s = Some v \<and> \<not> (v = V 0 \<and> length s \<notin> {22, 34})) \<and>
   (new_witness_program_unchecked True v prog = None \<longleftrightarrow> (\<exists>e. witness_program_new v prog = Inl e))"
  unfolding debug_program_None program_new_iff(2)
  by (intro conjI is_p2pkh_iff is_p2sh_iff segwit_iff witness_version_iff program_built_iff refl)

end
