(* ===== verification/ScriptUse.thy ===== *)
theory ScriptUse
  imports Script
begin

text \<open>
  Questions answered by walking over the instructions of a script: push-only scripts, redeem scripts, bare multisig,
  signature operations (\<open>script/borrowed.rs\<close> and \<open>transaction.rs\<close>), the dust limit, and the block height in a coinbase
  script (\<open>block.rs\<close>). The function that looks up spent outputs is a parameter of the counts of signature
  operations. A loop over an iterator is a recursion on the items it yields; \<open>oc\<close> tells whether overflow panics.
\<close>

section \<open>Definitions\<close>

fun push_only_loop :: "(ScriptError + Instruction) list \<Rightarrow> bool" where
  "push_only_loop [] = True"
| "push_only_loop (Inl e # xs) = False"
| "push_only_loop (Inr (PushBytes b) # xs) = push_only_loop xs"
| "push_only_loop (Inr (Op op) # xs) = (if op_code op \<le> 0x60 then push_only_loop xs else False)"

definition is_push_only :: "bytes \<Rightarrow> bool" where
  "is_push_only s = push_only_loop (items (instructions s))"

definition push_bytes_of :: "Instruction \<Rightarrow> bytes option" where
  "push_bytes_of i = (case i of Op _ \<Rightarrow> None | PushBytes b \<Rightarrow> Some b)"

definition redeem_script :: "bytes \<Rightarrow> bytes option" where
  "redeem_script s =
     (if list_ex (\<lambda>r. case r of Inl _ \<Rightarrow> True | Inr i \<Rightarrow> push_bytes_of i = None) (items (instructions s)) then None
      else if items (instructions s) = [] then None
      else (case last (items (instructions s)) of Inr (PushBytes b) \<Rightarrow> Some b | _ \<Rightarrow> None))"

text \<open>The loop over the public keys of a multisig script: nothing on overflow, \<open>Inl ()\<close> when the code returns false,
  otherwise the count with the items that are left.\<close>

fun multisig_loop :: "bool \<Rightarrow> u8 \<Rightarrow> (ScriptError + Instruction) list \<Rightarrow> (unit + u8 \<times> (ScriptError + Instruction) list) option" where
  "multisig_loop oc num_pubkeys [] = Some (Inr (num_pubkeys, []))"
| "multisig_loop oc num_pubkeys (Inl e # xs) = Some (Inr (num_pubkeys, xs))"
| "multisig_loop oc num_pubkeys (Inr (PushBytes b) # xs) =
     (if oc \<and> num_pubkeys = 255 then None else multisig_loop oc (num_pubkeys + 1) xs)"
| "multisig_loop oc num_pubkeys (Inr (Op op) # xs) =
     (case decode_pushnum op of
        Some pushnum \<Rightarrow> if pushnum \<noteq> num_pubkeys then Some (Inl ()) else Some (Inr (num_pubkeys, xs))
      | None \<Rightarrow> Some (Inr (num_pubkeys, xs)))"

definition is_multisig :: "bool \<Rightarrow> bytes \<Rightarrow> bool option" where
  "is_multisig oc s =
     (case items (instructions s) of
        Inr (Op op) # xs \<Rightarrow>
          (case decode_pushnum op of
             None \<Rightarrow> Some False
           | Some required_sigs \<Rightarrow>
               (case multisig_loop oc 0 xs of
                  None \<Rightarrow> None
                | Some (Inl _) \<Rightarrow> Some False
                | Some (Inr (num_pubkeys, ys)) \<Rightarrow>
                    Some (if required_sigs > num_pubkeys then False
                          else (case ys of Inr (Op op) # zs \<Rightarrow> op = OP_CHECKMULTISIG \<and> zs = [] | _ \<Rightarrow> False))))
      | _ \<Rightarrow> Some False)"

fun sigops_loop :: "bool \<Rightarrow> nat \<Rightarrow> u8 option \<Rightarrow> (ScriptError + Instruction) list \<Rightarrow> nat" where
  "sigops_loop accurate n pushnum_cache [] = n"
| "sigops_loop accurate n pushnum_cache (Inl e # xs) = n"
| "sigops_loop accurate n pushnum_cache (Inr (PushBytes b) # xs) = sigops_loop accurate n None xs"
| "sigops_loop accurate n pushnum_cache (Inr (Op opcode) # xs) =
     (if opcode = OP_CHECKSIG \<or> opcode = OP_CHECKSIGVERIFY then sigops_loop accurate (n + 1) pushnum_cache xs
      else if opcode = OP_CHECKMULTISIG \<or> opcode = OP_CHECKMULTISIGVERIFY
        then (case (accurate, pushnum_cache) of
                (True, Some pushnum) \<Rightarrow> sigops_loop accurate (n + unat pushnum) pushnum_cache xs
              | _ \<Rightarrow> sigops_loop accurate (n + 20) pushnum_cache xs)
      else sigops_loop accurate n (decode_pushnum opcode) xs)"

definition count_sigops_internal :: "bool \<Rightarrow> bytes \<Rightarrow> nat" where
  "count_sigops_internal accurate s = sigops_loop accurate 0 None (items (instructions s))"

definition count_sigops :: "bytes \<Rightarrow> nat" where "count_sigops s = count_sigops_internal True s"
definition count_sigops_legacy :: "bytes \<Rightarrow> nat" where "count_sigops_legacy s = count_sigops_internal False s"

definition sat_add :: "nat \<Rightarrow> nat \<Rightarrow> nat" where "sat_add a b = min (a + b) (2 ^ 64 - 1)"
definition sat_mul :: "nat \<Rightarrow> nat \<Rightarrow> nat" where "sat_mul a b = min (a * b) (2 ^ 64 - 1)"

definition count_p2pk_p2pkh_sigops :: "Transaction \<Rightarrow> nat" where
  "count_p2pk_p2pkh_sigops tx =
     fold (\<lambda>out count. sat_add count (count_sigops_legacy (script_pubkey out))) (tx_output tx)
       (fold (\<lambda>inp count. sat_add count (count_sigops_legacy (script_sig inp))) (tx_input tx) 0)"

definition p2sh_sigops :: "TxOut \<Rightarrow> TxIn \<Rightarrow> nat" where
  "p2sh_sigops prevout inp =
     (if is_p2sh (script_pubkey prevout)
      then (case last_pushdata (script_sig inp) of Some redeem \<Rightarrow> sat_add 0 (count_sigops redeem) | None \<Rightarrow> 0) else 0)"

definition count_p2sh_sigops :: "(OutPoint \<Rightarrow> TxOut option) \<Rightarrow> Transaction \<Rightarrow> nat" where
  "count_p2sh_sigops spent tx =
     fold (\<lambda>inp count. case spent (previous_output inp) of
             Some prevout \<Rightarrow> sat_add count (p2sh_sigops prevout inp) | None \<Rightarrow> count) (tx_input tx) 0"

definition count_sigops_with_witness_program :: "Witness \<Rightarrow> bytes \<Rightarrow> nat option" where
  "count_sigops_with_witness_program w witness_program =
     (if is_p2wpkh witness_program then Some 1
      else if is_p2wsh witness_program
        then map_option (\<lambda>l. case l of Some s \<Rightarrow> count_sigops s | None \<Rightarrow> 0) (witness_last w)
      else Some 0)"

definition witness_sigops :: "TxOut \<Rightarrow> TxIn \<Rightarrow> nat option" where
  "witness_sigops prevout inp =
     (if is_witness_program (script_pubkey prevout)
      then count_sigops_with_witness_program (witness inp) (script_pubkey prevout)
      else if is_p2sh (script_pubkey prevout) \<and> is_push_only (script_sig inp)
      then (case last_pushdata (script_sig inp) of
              Some push_bytes \<Rightarrow> count_sigops_with_witness_program (witness inp) push_bytes
            | None \<Rightarrow> Some 0)
      else Some 0)"

definition count_witness_sigops :: "(OutPoint \<Rightarrow> TxOut option) \<Rightarrow> Transaction \<Rightarrow> nat option" where
  "count_witness_sigops spent tx =
     fold (\<lambda>inp count. case (count, spent (previous_output inp)) of
             (Some c, Some prevout) \<Rightarrow> map_option (sat_add c) (witness_sigops prevout inp)
           | _ \<Rightarrow> count) (tx_input tx) (Some 0)"

definition total_sigop_cost :: "(OutPoint \<Rightarrow> TxOut option) \<Rightarrow> Transaction \<Rightarrow> nat option" where
  "total_sigop_cost spent tx =
     (let cost = sat_mul (count_p2pk_p2pkh_sigops tx) 4;
          cost = sat_add cost (sat_mul (count_p2sh_sigops spent tx) 4)
      in map_option (sat_add cost) (count_witness_sigops spent tx))"

definition DUST_RELAY_TX_FEE :: u32 where "DUST_RELAY_TX_FEE = 3000"

definition minimal_non_dust_inner :: "u64 \<Rightarrow> bytes \<Rightarrow> u64 option" where
  "minimal_non_dust_inner dust_relay_fee s =
     map_option (\<lambda>sats. sats div 1000)
       (checked_mul_u64 dust_relay_fee
          (if is_op_return s then 0
           else if is_witness_program s then 32 + 4 + 1 + (107 div 4) + 4 + 8 + word_of_nat (snd (enc_with_size s))
           else 32 + 4 + 1 + 107 + 4 + 8 + word_of_nat (snd (enc_with_size s))))"

definition minimal_non_dust :: "bytes \<Rightarrow> u64 option" where
  "minimal_non_dust s = minimal_non_dust_inner (ucast DUST_RELAY_TX_FEE) s"

section \<open>The height in a coinbase script\<close>

datatype Bip34Error = Unsupported | NotPresent | UnexpectedPush bytes | NegativeHeight

definition bip34_block_height :: "Block \<Rightarrow> Bip34Error + u64" where
  "bip34_block_height b =
     (if sint (bversion_0 (hdr_version (blk_header b))) < sint (bversion_0 bversion_TWO) then Inl Unsupported
      else (case coinbase b of
              None \<Rightarrow> Inl NotPresent
            | Some cb \<Rightarrow>
                (case tx_input cb of
                   [] \<Rightarrow> Inl NotPresent
                 | inp # _ \<Rightarrow>
                     (case fst (next_instruction (instructions_minimal (script_sig inp))) of
                        None \<Rightarrow> Inl NotPresent
                      | Some (Inl _) \<Rightarrow> Inl NotPresent
                      | Some (Inr (PushBytes b)) \<Rightarrow>
                          (case read_scriptint b of
                             Inl _ \<Rightarrow> Inl (UnexpectedPush b)
                           | Inr h \<Rightarrow> if h < 0 then Inl NegativeHeight else Inr (word_of_int h))
                      | Some (Inr (Op _)) \<Rightarrow> Inl NotPresent))))"

section \<open>Counting signature operations\<close>














definition saturate :: "nat \<Rightarrow> nat" where "saturate n = min n (2 ^ 64 - 1)"

lemma sat_add_saturate: "sat_add (saturate a) b = saturate (a + b)" "sat_add (saturate a) (saturate b) = saturate (a + b)"
  by (simp_all add: sat_add_def saturate_def)

lemma sat_mul_saturate: "sat_mul (saturate a) 4 = saturate (4 * a)"
  by (simp add: sat_mul_def saturate_def)

lemma fold_saturate: "fold (\<lambda>x count. sat_add count (f x)) xs (saturate a) = saturate (a + sum_list (map f xs))"
  by (induction xs arbitrary: a) (simp_all add: sat_add_saturate add.assoc)

lemma saturate_collapse: "saturate (a + saturate b) = saturate (a + b)" "saturate (saturate a + b) = saturate (a + b)"
  "saturate (a + saturate b + c) = saturate (a + b + c)"
  by (auto simp: saturate_def min_def)

lemma saturate_0: "saturate 0 = 0"
  by (simp add: saturate_def)


lemma witness_sigops_defined: "txin_ok inp \<Longrightarrow> \<exists>n. witness_sigops prevout inp = Some n"
proof -
  assume "txin_ok inp"
  then obtain xs where "witness inp = witness_of xs" "elems_ok xs" using witness_ok_elems by (auto simp: txin_ok_def)
  then have "\<exists>n. count_sigops_with_witness_program (witness inp) s = Some n" for s
    using witness_ends_of(1) by (simp add: count_sigops_with_witness_program_def)
  then show ?thesis by (simp add: witness_sigops_def split: option.split)
qed

lemma fold_witness:
  assumes "list_all txin_ok xs"
  shows "fold (\<lambda>inp count. case (count, spent (previous_output inp)) of
             (Some c, Some prevout) \<Rightarrow> map_option (sat_add c) (witness_sigops prevout inp)
           | _ \<Rightarrow> count) xs (Some (saturate a)) =
    Some (saturate (a + (\<Sum>inp\<leftarrow>xs. case spent (previous_output inp) of None \<Rightarrow> 0 | Some p \<Rightarrow> the (witness_sigops p inp))))"
  using assms
proof (induction xs arbitrary: a)
  case (Cons inp xs)
  show ?case
  proof (cases "spent (previous_output inp)")
    case (Some p)
    then obtain n where "witness_sigops p inp = Some n" using Cons.prems witness_sigops_defined by force
    then show ?thesis using Cons Some by (simp add: sat_add_saturate add.assoc)
  qed (use Cons in simp)
qed simp

lemma fold_p2sh:
  "fold (\<lambda>inp count. case spent (previous_output inp) of
             Some prevout \<Rightarrow> sat_add count (p2sh_sigops prevout inp) | None \<Rightarrow> count) xs (saturate a) =
   saturate (a + (\<Sum>inp\<leftarrow>xs. case spent (previous_output inp) of None \<Rightarrow> 0 | Some p \<Rightarrow> p2sh_sigops p inp))"
  by (induction xs arbitrary: a) (simp_all add: sat_add_saturate add.assoc split: option.split)

section \<open>Bare multisig\<close>

definition pushnum_op :: "nat \<Rightarrow> Instruction" where
  "pushnum_op n = Op (Opcode (0x50 + word_of_nat n))"

lemma word_pushnum: "n \<le> 16 \<Longrightarrow> unat (0x50 + word_of_nat n :: u8) = 0x50 + n"
  using unat_of_nat [of "0x50 + n", where ?'a = 8] by simp

lemma decode_pushnum_op: "1 \<le> n \<Longrightarrow> n \<le> 16 \<Longrightarrow> decode_pushnum (Opcode (0x50 + word_of_nat n)) = Some (word_of_nat n)"
  using word_pushnum [of n] by (simp add: decode_pushnum_def word_le_nat_alt)

lemma pushnum_op_ok: "1 \<le> n \<Longrightarrow> n \<le> 16 \<Longrightarrow> instr_ok (pushnum_op n)"
  using word_pushnum [of n] by (simp add: pushnum_op_def word_less_nat_alt)

lemma multisig_loop_keys:
  "k + length keys < 256 \<Longrightarrow>
   multisig_loop oc (word_of_nat k) (map (Inr \<circ> PushBytes) keys @ xs) = multisig_loop oc (word_of_nat (k + length keys)) xs"
proof (induction keys arbitrary: k)
  case (Cons b keys)
  have "(word_of_nat k :: u8) \<noteq> 255" using Cons.prems by (simp add: word_unat_eq_iff unat_of_nat)
  then show ?case using Cons.prems Cons.IH [of "Suc k"] by (simp add: add.commute)
qed simp

lemma items_ops: "list_all (\<lambda>op. 78 < op_code op) ops \<Longrightarrow> items (instructions (map op_code ops)) = map (Inr \<circ> Op) ops"
proof -
  assume "list_all (\<lambda>op. 78 < op_code op) ops"
  then have "list_all instr_ok (map Op ops)" by (simp add: list_all_iff)
  moreover have "assemble (map Op ops) = map op_code ops" by (induction ops) simp_all
  ultimately show ?thesis using items_assemble [of "map Op ops" "[]"] by (simp add: instructions_def)
qed

section \<open>Heights\<close>

lemma scriptint_small: "\<bar>n\<bar> < 2 ^ 31 \<Longrightarrow> write_scriptint n = Some v \<Longrightarrow> read_scriptint v = Inr n \<and> length v \<le> 4"
  using write_read_scriptint [of n] by (auto simp: read_scriptint_def split: if_splits)

lemma single_scriptint: "read_scriptint [x] = Inr n \<Longrightarrow> 16 < n \<Longrightarrow> 16 < x \<and> x \<noteq> 0x81"
proof -
  assume r: "read_scriptint [x] = Inr n" and n: "16 < n"
  have "0 \<le> uint x AND 127" by simp
  then have "\<not> 16 < - (uint x AND 127)" by linarith
  then show ?thesis using r n
    by (auto simp: read_scriptint_def scriptint_parse_def word_less_def split: if_splits)
qed

lemma height_minimal:
  assumes "16 < n" "n < 2 ^ 31" "write_scriptint n = Some v"
  shows "instr_minimal (PushBytes v) \<and> length v < 76"
proof -
  have r: "read_scriptint v = Inr n" "length v \<le> 4" using scriptint_small [of n v] assms by simp_all
  show ?thesis
  proof (cases "length v = 1")
    case True
    then obtain x where "v = [x]" by (cases v) auto
    then show ?thesis using single_scriptint [of x n] r assms(1) by auto
  qed (use r in simp)
qed

lemma push_height:
  assumes "16 < n" "n < 2 ^ 31" "push_int n builder_new = Some b"
  obtains v where "read_scriptint v = Inr n" "next_instruction (iter True (b_script b @ rest)) = (Some (Inr (PushBytes v)), iter True rest)"
proof -
  obtain v where v: "write_scriptint n = Some v" "builder_push_slice v builder_new = Some b"
    using assms by (auto simp: push_int_def push_int_non_minimal_def split: if_splits option.splits)
  then have m: "instr_minimal (PushBytes v)" "length v < 76" "read_scriptint v = Inr n"
    using height_minimal [OF assms(1,2) v(1)] scriptint_small [of n v] assms by simp_all
  then have "b_script b = instr_bytes (PushBytes v)"
    using v(2) short_push [of v builder_new] by (auto simp: builder_new_def push_header_def)
  then show ?thesis using that [of v] m next_instr_bytes [of "PushBytes v" rest True] by simp
qed

lemma push_small_height:
  assumes "1 \<le> n" "n \<le> 16" "push_int n builder_new = Some b"
  shows "\<exists>op. next_instruction (iter True (b_script b @ rest)) = (Some (Inr (Op op)), iter True rest)"
proof -
  have "uint (word_of_int (n - 1 + 0x51) :: u8) = n - 1 + 0x51" using assms by (intro word_of_int_inverse) auto
  then have "78 < (word_of_int (n - 1 + 0x51) :: u8)" using assms by (auto simp: word_less_def)
  moreover have "b_script b = [word_of_int (n - 1 + 0x51)]"
    using assms by (auto simp: push_int_def push_opcode_def builder_new_def script_push_opcode_def)
  ultimately show ?thesis using next_instr_bytes [of "Op (Opcode (word_of_int (n - 1 + 0x51)))" rest True] by simp
qed

section \<open>Properties\<close>


text \<open>The cost of the signature operations of a transaction is defined and is, up to saturation, four times the
  legacy count of all its scripts, four times the accurate count of the redeem scripts of its known inputs and the
  count of their witness programs.\<close>

theorem sigop_cost_exact:
  assumes "tx_ok tx"
  shows "total_sigop_cost spent tx =
     Some (saturate (4 * ((\<Sum>inp\<leftarrow>tx_input tx. count_sigops_legacy (script_sig inp)) +
                          (\<Sum>out\<leftarrow>tx_output tx. count_sigops_legacy (script_pubkey out))) +
                     4 * (\<Sum>inp\<leftarrow>tx_input tx. case spent (previous_output inp) of None \<Rightarrow> 0 | Some p \<Rightarrow> p2sh_sigops p inp) +
                     (\<Sum>inp\<leftarrow>tx_input tx. case spent (previous_output inp) of None \<Rightarrow> 0 | Some p \<Rightarrow> the (witness_sigops p inp))))"
proof -
  have ins: "list_all txin_ok (tx_input tx)" using assms by (simp add: tx_ok_def vec_ok_def)
  have legacy: "count_p2pk_p2pkh_sigops tx = saturate ((\<Sum>inp\<leftarrow>tx_input tx. count_sigops_legacy (script_sig inp)) +
      (\<Sum>out\<leftarrow>tx_output tx. count_sigops_legacy (script_pubkey out)))"
    unfolding count_p2pk_p2pkh_sigops_def
    by (simp only: fold_saturate [of "\<lambda>inp. count_sigops_legacy (script_sig inp)" _ 0, unfolded saturate_0]
      fold_saturate [of "\<lambda>out. count_sigops_legacy (script_pubkey out)"]) simp
  have p2sh: "count_p2sh_sigops spent tx =
      saturate (\<Sum>inp\<leftarrow>tx_input tx. case spent (previous_output inp) of None \<Rightarrow> 0 | Some p \<Rightarrow> p2sh_sigops p inp)"
    unfolding count_p2sh_sigops_def by (simp only: fold_p2sh [of spent _ 0, unfolded saturate_0]) simp
  have "count_witness_sigops spent tx =
      Some (saturate (\<Sum>inp\<leftarrow>tx_input tx. case spent (previous_output inp) of None \<Rightarrow> 0 | Some p \<Rightarrow> the (witness_sigops p inp)))"
    unfolding count_witness_sigops_def by (simp only: fold_witness [OF ins, of spent 0, unfolded saturate_0]) simp
  then show ?thesis unfolding total_sigop_cost_def Let_def legacy p2sh by (simp add: sat_mul_saturate sat_add_saturate saturate_collapse)
qed

definition multisig_payment :: Transaction where
  "multisig_payment = \<lparr> tx_version = Version 1, lock_time = Blocks (Height 0), tx_input = [],
     tx_output = [\<lparr> txout_value = 7, script_pubkey = [op_code OP_CHECKSIG, op_code OP_CHECKMULTISIG] \<rparr>] \<rparr>"

theorem sigop_cost_exact_witness: "tx_ok multisig_payment \<and> total_sigop_cost (\<lambda>_. None) multisig_payment = Some 84"
proof -
  have ok: "tx_ok multisig_payment"
    by (simp add: tx_ok_def multisig_payment_def vec_ok_def txout_ok_def bytes_ok_def is_block_height_def LOCK_TIME_THRESHOLD_def)
  have "count_sigops_legacy [op_code OP_CHECKSIG, op_code OP_CHECKMULTISIG] = 21"
    using items_ops [of "[OP_CHECKSIG, OP_CHECKMULTISIG]"] by (simp add: count_sigops_legacy_def count_sigops_internal_def)
  then show ?thesis using ok sigop_cost_exact [OF ok, of "\<lambda>_. None"] by (simp add: multisig_payment_def saturate_def)
qed

text \<open>A number pushed before an \<open>OP_CHECKSIG\<close> is still remembered by the \<open>OP_CHECKMULTISIG\<close> after it, so the accurate
  count is not twenty although no number precedes the multisig operation.\<close>

theorem sigops_stale_pushnum:
  "count_sigops [op_code (Opcode 0x53), op_code OP_CHECKSIG, op_code OP_CHECKMULTISIG] = 4 \<and>
   count_sigops [op_code OP_CHECKSIG, op_code OP_CHECKMULTISIG] = 21"
  using items_ops [of "[Opcode 0x53, OP_CHECKSIG, OP_CHECKMULTISIG]"] items_ops [of "[OP_CHECKSIG, OP_CHECKMULTISIG]"]
  by (simp add: count_sigops_def count_sigops_internal_def decode_pushnum_def)


text \<open>Every bare multisig script of one to sixteen keys, of which no more than there are must sign, is recognised; so is
  a script whose key count is replaced by an operation that pushes no number.\<close>

theorem multisig_accepted:
  assumes "1 \<le> m" "m \<le> length keys" "length keys \<le> 16" "\<forall>k \<in> set keys. length k < 2 ^ 32"
  shows "is_multisig oc (assemble (pushnum_op m # map PushBytes keys @ [pushnum_op (length keys), Op OP_CHECKMULTISIG])) = Some True \<and>
    is_multisig oc (assemble (pushnum_op m # map PushBytes keys @ [Op OP_DUP, Op OP_CHECKMULTISIG])) = Some True"
proof -
  have ok: "list_all instr_ok (pushnum_op m # map PushBytes keys @ [op, Op OP_CHECKMULTISIG])"
    if "op = pushnum_op (length keys) \<or> op = Op OP_DUP" for op
    using assms that pushnum_op_ok [of m] pushnum_op_ok [of "length keys"] by (auto simp: list_all_iff)
  have small: "m < 256" "length keys < 256" using assms by simp_all
  have "is_multisig oc (assemble (pushnum_op m # map PushBytes keys @ [op, Op OP_CHECKMULTISIG])) = Some True"
    if op: "op = pushnum_op (length keys) \<or> op = Op OP_DUP" for op
  proof -
    have "items (instructions (assemble (pushnum_op m # map PushBytes keys @ [op, Op OP_CHECKMULTISIG]))) =
        Inr (pushnum_op m) # map (Inr \<circ> PushBytes) keys @ [Inr op, Inr (Op OP_CHECKMULTISIG)]"
      using items_assemble [OF ok [OF op], of "[]"] by (simp add: instructions_def)
    moreover have "multisig_loop oc 0 (map (Inr \<circ> PushBytes) keys @ xs) = multisig_loop oc (word_of_nat (length keys)) xs" for xs
      using multisig_loop_keys [of 0 keys oc xs] small by simp
    moreover have "multisig_loop oc (word_of_nat (length keys)) [Inr op, Inr (Op OP_CHECKMULTISIG)] =
        Some (Inr (word_of_nat (length keys), [Inr (Op OP_CHECKMULTISIG)]))"
      using op assms decode_pushnum_op [of "length keys"] by (auto simp: pushnum_op_def decode_pushnum_def)
    moreover have "\<not> (word_of_nat (length keys) :: u8) < word_of_nat m"
      using assms small by (simp add: word_less_nat_alt unat_of_nat)
    ultimately show ?thesis using assms by (simp add: is_multisig_def pushnum_op_def decode_pushnum_op)
  qed
  then show ?thesis by blast
qed

theorem multisig_accepted_witness:
  "(1 :: nat) \<le> 1 \<and> is_multisig True (assemble (pushnum_op 1 # map PushBytes [[7]] @ [Op OP_DUP, Op OP_CHECKMULTISIG])) = Some True"
  using multisig_accepted [of 1 "[[7]]" True] by simp


text \<open>The height of a block of version two or later whose coinbase script starts with the number \<open>n\<close> as the builder
  pushes it is read as \<open>n\<close>, except for the heights 1 to 16: these have an opcode of their own and are reported as
  not present.\<close>

theorem bip34_height_exact:
  assumes "0 \<le> n" "n < 2 ^ 31" "push_int n builder_new = Some b"
    and "2 \<le> sint (bversion_0 (hdr_version (blk_header blk)))"
    and "coinbase blk = Some cb" "tx_input cb = inp # ins" "script_sig inp = b_script b @ rest"
  shows "bip34_block_height blk = (if 1 \<le> n \<and> n \<le> 16 then Inl NotPresent else Inr (word_of_int n))"
proof -
  consider "n = 0" | "1 \<le> n" "n \<le> 16" | "16 < n" using assms(1) by linarith
  then show ?thesis
  proof cases
    case 1
    then have "b_script b @ rest = instr_bytes (PushBytes []) @ rest"
      using assms(3) by (auto simp: push_int_def push_opcode_def builder_new_def push_header_def script_push_opcode_def)
    then show ?thesis using assms next_instr_bytes [of "PushBytes []" rest True] 1
      by (simp add: bip34_block_height_def bversion_TWO_def instructions_minimal_def read_scriptint_def)
  next
    case 2
    then show ?thesis using push_small_height [OF 2 assms(3), of rest] assms
      by (auto simp: bip34_block_height_def bversion_TWO_def instructions_minimal_def)
  next
    case 3
    then obtain v where "read_scriptint v = Inr n" "next_instruction (iter True (b_script b @ rest)) = (Some (Inr (PushBytes v)), iter True rest)"
      using push_height assms(2,3) by blast
    then show ?thesis using assms 3
      by (simp add: bip34_block_height_def bversion_TWO_def instructions_minimal_def)
  qed
qed


definition height_block :: Block where
  "height_block = \<lparr> blk_header = \<lparr> hdr_version = BlockVersion 2, prev_blockhash = [], hdr_merkle_root = [], hdr_time = 0,
       hdr_bits = CompactTarget 0, hdr_nonce = 0 \<rparr>,
     txdata = [\<lparr> tx_version = Version 1, lock_time = Blocks (Height 0),
       tx_input = [\<lparr> previous_output = \<lparr> txid = [], vout = 0 \<rparr>, script_sig = [0x02, 0x2c, 0x01, 0x55],
          sequence = Sequence 0, witness = witness_new \<rparr>], tx_output = [] \<rparr>] \<rparr>"

theorem bip34_height_exact_witness:
  "push_int 300 builder_new = Some \<lparr> b_script = [0x02, 0x2c, 0x01], b_last = None \<rparr> \<and> bip34_block_height height_block = Inr 300"
proof -
  have w: "write_scriptint 300 = Some [0x2c, 0x01]" by code_simp
  have p: "push_int 300 builder_new = Some \<lparr> b_script = [0x02, 0x2c, 0x01], b_last = None \<rparr>"
    by (simp add: push_int_def push_int_non_minimal_def w short_push builder_new_def)
  show ?thesis using p bip34_height_exact [OF _ _ p, of height_block] by (simp add: height_block_def coinbase_def)
qed

end
