(* ===== verification/Base58.thy ===== *)
theory Base58
  imports Encode
begin

text \<open>
  Base58 and base58check, \<open>base58/src/lib.rs\<close>. A string is the list of its bytes. Positional numerals are the subject of the
  locale \<open>radix\<close>, interpreted for base 58 and base 256: a list of digits is determined by the number of its leading zeros
  and its value, and that is what encoding and decoding keep.
\<close>

section \<open>Definitions\<close>

definition BASE58_CHARS :: bytes where
  "BASE58_CHARS = map word_of_nat ([49..<58] @ [65..<73] @ [74..<79] @ [80..<91] @ [97..<108] @ [109..<123])"

definition BASE58_DIGITS :: "u8 option list" where
  "BASE58_DIGITS =
     replicate 49 None @ map (Some \<circ> word_of_nat) [0..<9] @ replicate 7 None @ map (Some \<circ> word_of_nat) [9..<17] @ [None] @
     map (Some \<circ> word_of_nat) [17..<22] @ [None] @ map (Some \<circ> word_of_nat) [22..<33] @ replicate 6 None @
     map (Some \<circ> word_of_nat) [33..<44] @ [None] @ map (Some \<circ> word_of_nat) [44..<58] @ replicate 5 None"

datatype InvalidCharacterError = InvalidCharacterError (ic_invalid: u8)
datatype Base58Error = Base58Decode InvalidCharacterError | IncorrectChecksum u32 u32 | TooShort nat

text \<open>One digit is added to the number in base 256. The least significant byte comes first here, as the code walks
  over the buffer in reverse.\<close>

fun mul58_add :: "u32 \<Rightarrow> bytes \<Rightarrow> bytes \<times> u32" where
  "mul58_add carry [] = ([], carry)"
| "mul58_add carry (d256 # ds) =
     (let carry = carry + ucast d256 * 58; (ds', c) = mul58_add (carry div 256) ds in (ucast carry # ds', c))"

text \<open>The loop over the characters; nothing when the assertion on the last carry fails.\<close>

fun decode_loop :: "bytes \<Rightarrow> bytes \<Rightarrow> (InvalidCharacterError + bytes) option" where
  "decode_loop [] scratch = Some (Inr scratch)"
| "decode_loop (d58 # data) scratch =
     (if unat d58 \<ge> length BASE58_DIGITS then Some (Inl (InvalidCharacterError d58))
      else (case BASE58_DIGITS ! unat d58 of
              None \<Rightarrow> Some (Inl (InvalidCharacterError d58))
            | Some d \<Rightarrow> (case mul58_add (ucast d) (rev scratch) of
                (ds, carry) \<Rightarrow> if carry = 0 then decode_loop data (rev ds) else None)))"

definition base58_decode :: "bytes \<Rightarrow> (InvalidCharacterError + bytes) option" where
  "base58_decode data =
     (case decode_loop data (replicate (1 + length data * 11 div 15) 0) of
        None \<Rightarrow> None
      | Some (Inl e) \<Rightarrow> Some (Inl e)
      | Some (Inr scratch) \<Rightarrow>
          Some (Inr (map (\<lambda>_. 0) (takeWhile (\<lambda>x. x = BASE58_CHARS ! 0) data) @ dropWhile (\<lambda>x. x = 0) scratch)))"

definition decode_check :: "bytes \<Rightarrow> (Base58Error + bytes) option" where
  "decode_check data =
     (case base58_decode data of
        None \<Rightarrow> None
      | Some (Inl e) \<Rightarrow> Some (Inl (Base58Decode e))
      | Some (Inr ret) \<Rightarrow>
          Some (if length ret < 4 then Inl (TooShort (length ret))
                else (let check_start = length ret - 4;
                          expected = from_le_bytes (take 4 (sha256d_hash (take check_start ret)));
                          actual = from_le_bytes (drop check_start ret)
                      in if actual \<noteq> expected then Inl (IncorrectChecksum actual expected) else Inr (take check_start ret))))"

record SmallVec =
  sv_len :: nat
  sv_stack :: bytes
  sv_heap :: bytes

definition sv_new :: SmallVec where "sv_new = \<lparr> sv_len = 0, sv_stack = replicate 100 0, sv_heap = [] \<rparr>"

definition sv_push :: "u8 \<Rightarrow> SmallVec \<Rightarrow> SmallVec" where
  "sv_push v s = (if sv_len s < 100 then s\<lparr> sv_stack := (sv_stack s)[sv_len s := v], sv_len := sv_len s + 1 \<rparr>
                  else s\<lparr> sv_heap := sv_heap s @ [v] \<rparr>)"

definition sv_iter :: "SmallVec \<Rightarrow> bytes" where "sv_iter s = take (sv_len s) (sv_stack s) @ sv_heap s"

text \<open>A loop over \<open>iter_mut\<close>, which threads a state and replaces every element.\<close>

fun map_state :: "('s \<Rightarrow> 'a \<Rightarrow> 'a \<times> 's) \<Rightarrow> 's \<Rightarrow> 'a list \<Rightarrow> 'a list \<times> 's" where
  "map_state f s [] = ([], s)"
| "map_state f s (x # xs) = (let (y, s) = f s x; (ys, s) = map_state f s xs in (y # ys, s))"

definition sv_iter_mut :: "('s \<Rightarrow> u8 \<Rightarrow> u8 \<times> 's) \<Rightarrow> 's \<Rightarrow> SmallVec \<Rightarrow> SmallVec \<times> 's" where
  "sv_iter_mut f st s =
     (let (stack, st) = map_state f st (take (sv_len s) (sv_stack s)); (heap, st) = map_state f st (sv_heap s)
      in (s\<lparr> sv_stack := stack @ drop (sv_len s) (sv_stack s), sv_heap := heap \<rparr>, st))"

definition mul256_add :: "nat \<Rightarrow> u8 \<Rightarrow> u8 \<times> nat" where
  "mul256_add carry ch = (let new_ch = unat ch * 256 + carry in (word_of_nat (new_ch mod 58), new_ch div 58))"

function push_carry :: "nat \<Rightarrow> SmallVec \<Rightarrow> SmallVec" where
  "push_carry carry s = (if carry > 0 then push_carry (carry div 58) (sv_push (word_of_nat (carry mod 58)) s) else s)"
  by pat_completeness auto
termination
  by (relation "measure fst") auto

declare push_carry.simps [simp del]

fun format_loop :: "bytes \<Rightarrow> SmallVec \<Rightarrow> nat \<Rightarrow> bool \<Rightarrow> SmallVec \<times> nat" where
  "format_loop [] ret leading_zero_count leading_zeroes = (ret, leading_zero_count)"
| "format_loop (d256 # data) ret leading_zero_count leading_zeroes =
     (let carry = unat d256;
          (leading_zero_count, leading_zeroes) =
            (if leading_zeroes \<and> carry = 0 then (leading_zero_count + 1, leading_zeroes) else (leading_zero_count, False));
          (ret, carry) = sv_iter_mut mul256_add carry ret
      in format_loop data (push_carry carry ret) leading_zero_count leading_zeroes)"

definition format_iter :: "bytes \<Rightarrow> bytes" where
  "format_iter data =
     (let (ret, leading_zero_count) = format_loop data sv_new 0 True;
          ret = (sv_push 0 ^^ leading_zero_count) ret
      in map (\<lambda>ch. BASE58_CHARS ! unat ch) (rev (sv_iter ret)))"

definition base58_encode :: "bytes \<Rightarrow> bytes" where "base58_encode data = format_iter data"

definition encode_check :: "bytes \<Rightarrow> bytes" where
  "encode_check data = format_iter (data @ take 4 (sha256d_hash data))"

definition encode_check_to_fmt :: "bytes \<Rightarrow> bytes" where
  "encode_check_to_fmt data = (let checksum = sha256d_hash data in format_iter (data @ take 4 checksum))"

section \<open>Positional numerals\<close>

fun le_val :: "nat \<Rightarrow> nat list \<Rightarrow> nat" where
  "le_val b [] = 0"
| "le_val b (d # ds) = d + b * le_val b ds"

lemma le_val_append: "le_val b (xs @ ys) = le_val b xs + b ^ length xs * le_val b ys"
  by (induction xs) (simp_all add: algebra_simps)

text \<open>A list of digits, most significant first, is \<open>numeral b zeros v\<close> for its leading zeros and its value.\<close>

locale radix =
  fixes b :: nat
  assumes base: "2 \<le> b"
begin

function digits_le :: "nat \<Rightarrow> nat list" where
  "digits_le v = (if v = 0 then [] else v mod b # digits_le (v div b))"
  by pat_completeness auto
termination
  using base by (relation "measure id") (auto intro: div_less_dividend)

declare digits_le.simps [simp del]

lemma digits_le_0 [simp]: "digits_le 0 = []"
  by (simp add: digits_le.simps)

lemma le_val_digits: "le_val b (digits_le v) = v"
proof (induction v rule: less_induct)
  case (less v)
  show ?case
  proof (cases "v = 0")
    case False
    then have "v div b < v" using base by (intro div_less_dividend) auto
    then show ?thesis using False less by (subst digits_le.simps) simp
  qed simp
qed

lemma digits_lt: "d \<in> set (digits_le v) \<Longrightarrow> d < b"
proof (induction v rule: less_induct)
  case (less v)
  have "v \<noteq> 0" using less.prems by (cases "v = 0") auto
  moreover have "v mod b < b" using base by simp
  moreover have "v div b < v" using base \<open>v \<noteq> 0\<close> by (intro div_less_dividend) auto
  ultimately show ?case using less by (subst (asm) digits_le.simps) auto
qed

lemma digits_unique: "\<forall>d \<in> set ds. d < b \<Longrightarrow> ds = [] \<or> last ds \<noteq> 0 \<Longrightarrow> digits_le (le_val b ds) = ds"
proof (induction ds)
  case (Cons d ds)
  have IH: "digits_le (le_val b ds) = ds" using Cons by (cases ds) auto
  have nz: "d + b * le_val b ds \<noteq> 0"
  proof (cases ds)
    case (Cons e es)
    then have "le_val b ds \<noteq> 0" using IH by (metis digits_le_0 list.distinct(1))
    then show ?thesis using base by simp
  qed (use Cons.prems in simp)
  have "(d + b * le_val b ds) mod b = d" "(d + b * le_val b ds) div b = le_val b ds" using Cons.prems base by simp_all
  then show ?case using IH nz by (simp add: digits_le.simps [of "d + b * le_val b ds"])
qed simp

lemma digits_last: "digits_le v \<noteq> [] \<Longrightarrow> last (digits_le v) \<noteq> 0"
proof (induction v rule: less_induct)
  case (less v)
  have v: "v \<noteq> 0" using less.prems by (cases "v = 0") auto
  then have u: "digits_le v = v mod b # digits_le (v div b)" by (simp add: digits_le.simps [of v])
  have "v div b < v" using base v by (intro div_less_dividend) auto
  moreover have "v mod b \<noteq> 0" if "digits_le (v div b) = []"
  proof -
    have "v div b = 0" using that le_val_digits [of "v div b"] by simp
    then have "v mod b = v" using base by (simp add: div_eq_0_iff)
    then show ?thesis using v by simp
  qed
  ultimately show ?case using less.IH u by simp
qed

definition numeral_be :: "nat \<Rightarrow> nat \<Rightarrow> nat list" where
  "numeral_be zeros v = replicate zeros 0 @ rev (digits_le v)"

lemma numeral_zeros: "length (takeWhile (\<lambda>d. d = 0) (numeral_be z v)) = z"
  using digits_last [of v] by (cases "digits_le v" rule: rev_cases) (auto simp: numeral_be_def takeWhile_append)

lemma numeral_value: "le_val b (rev (numeral_be z v)) = v"
proof -
  have "le_val b (replicate z 0) = 0" by (induction z) simp_all
  then show ?thesis by (simp add: numeral_be_def le_val_append le_val_digits)
qed

lemma numeral_unique:
  assumes "\<forall>d \<in> set ds. d < b"
  shows "ds = numeral_be (length (takeWhile (\<lambda>d. d = 0) ds)) (le_val b (rev ds))"
proof -
  let ?z = "takeWhile (\<lambda>d. d = 0) ds" and ?r = "dropWhile (\<lambda>d. d = 0) ds"
  have z: "?z = replicate (length ?z) 0" by (rule replicate_length_same [symmetric]) (auto dest: set_takeWhileD)
  have zero: "le_val b (replicate n 0) = 0" for n by (induction n) simp_all
  have "?r = [] \<or> last (rev ?r) \<noteq> 0" using hd_dropWhile [of "\<lambda>d. d = 0" ds] by (cases "?r = []") (simp_all only: last_rev, simp_all)
  then have "digits_le (le_val b (rev ?r)) = rev ?r"
    using assms by (intro digits_unique) (auto dest: set_dropWhileD)
  moreover have "le_val b (rev ds) = le_val b (rev ?r)"
  proof -
    have "rev ds = rev ?r @ rev ?z" by (metis rev_append takeWhile_dropWhile_id)
    moreover have "le_val b (rev ?z) = 0" by (subst z) (simp add: zero)
    ultimately show ?thesis by (simp add: le_val_append)
  qed
  ultimately show ?thesis unfolding numeral_be_def using z by (metis rev_rev_ident takeWhile_dropWhile_id)
qed

lemma dropWhile_digits:
  assumes "\<forall>d \<in> set ds. d < b"
  shows "dropWhile (\<lambda>d. d = 0) ds = rev (digits_le (le_val b (rev ds)))"
proof -
  have "ds = numeral_be (length (takeWhile (\<lambda>d. d = 0) ds)) (le_val b (rev ds))" using assms by (rule numeral_unique)
  moreover have "dropWhile (\<lambda>d. d = 0) (numeral_be z v) = rev (digits_le v)" for z v
    using digits_last [of v] by (cases "digits_le v" rule: rev_cases) (auto simp: numeral_be_def dropWhile_append3)
  ultimately show ?thesis by metis
qed

end

interpretation base58: radix 58
  by unfold_locales simp

interpretation base256: radix 256
  by unfold_locales simp


section \<open>Digits and characters\<close>

definition digit_of :: "u8 \<Rightarrow> u8 option" where
  "digit_of c = (if unat c \<ge> length BASE58_DIGITS then None else BASE58_DIGITS ! unat c)"

lemma char_digit_all:
  "list_all (\<lambda>d. digit_of (BASE58_CHARS ! d) = Some (word_of_nat d)) [0..<58]"
  by code_simp

lemma digit_char_all:
  "list_all (\<lambda>c. case digit_of c of None \<Rightarrow> True | Some d \<Rightarrow> d < 58 \<and> BASE58_CHARS ! unat d = c) (map word_of_nat [0..<256])"
  by code_simp

lemma digit_of_char: "d < 58 \<Longrightarrow> digit_of (BASE58_CHARS ! d) = Some (word_of_nat d)"
  using char_digit_all by (simp add: list_all_iff)

lemma char_of_digit: "digit_of c = Some d \<Longrightarrow> unat d < 58 \<and> BASE58_CHARS ! unat d = c"
  using all_bytes [OF digit_char_all, of c] by (simp add: word_less_nat_alt)

lemma le_nat_val: "le_nat bs = le_val 256 (map unat bs)"
  by (induction bs) simp_all

lemma mul58_add_value:
  assumes "unat carry < 58" "mul58_add carry ds = (ds', c)"
  shows "length ds' = length ds \<and> unat c < 58 \<and> le_nat ds' + 256 ^ length ds * unat c = 58 * le_nat ds + unat carry"
  using assms
proof (induction ds arbitrary: carry ds' c)
  case (Cons d ds)
  let ?n = "unat carry + unat d * 58"
  have d: "unat d < 256" by simp
  then have small: "?n < 58 * 256" using Cons.prems(1) by linarith
  have n: "unat (carry + ucast d * 58) = ?n"
  proof -
    have "unat (ucast d * (58 :: u32)) = unat d * 58"
    proof -
      have "unat d * 58 < 4294967296" using d by linarith
      then show ?thesis by (simp add: unat_word_ariths unat_ucast_up)
    qed
    then show ?thesis using small by (simp add: unat_word_ariths)
  qed
  then have q: "unat ((carry + ucast d * 58) div 256) = ?n div 256" by (simp add: unat_div)
  then have q58: "unat ((carry + ucast d * 58) div 256) < 58" using small by simp
  obtain es where r: "mul58_add ((carry + ucast d * 58) div 256) ds = (es, c)" "ds' = ucast (carry + ucast d * 58) # es"
    using Cons.prems(2) by (auto simp: Let_def split: prod.splits)
  have IH: "length es = length ds \<and> unat c < 58 \<and> le_nat es + 256 ^ length ds * unat c = 58 * le_nat ds + ?n div 256"
    using Cons.IH [OF q58 r(1)] q by simp
  have "unat (ucast (carry + ucast d * 58) :: u8) = ?n mod 256" using n by (simp add: unat_ucast_mod)
  then have "le_nat ds' + 256 ^ length (d # ds) * unat c = ?n mod 256 + 256 * (le_nat es + 256 ^ length ds * unat c)"
    using r(2) by (simp add: distrib_left mult.assoc)
  also have "\<dots> = ?n mod 256 + 256 * (?n div 256) + 256 * (58 * le_nat ds)" using IH by simp
  also have "?n mod 256 + 256 * (?n div 256) = ?n" by simp
  finally show ?case using IH r(2) by simp
qed simp

lemma scratch_size: "58 ^ n \<le> (256 :: nat) ^ (1 + n * 11 div 15)"
proof -
  let ?k = "1 + n * 11 div 15"
  have "(58 ^ n) ^ 15 = ((58 :: nat) ^ 15) ^ n" by (metis mult.commute power_mult)
  also have "\<dots> \<le> (256 ^ 11) ^ n" by (intro power_mono) simp_all
  also have "\<dots> = 256 ^ (n * 11)" by (metis mult.commute power_mult)
  also have "\<dots> \<le> 256 ^ (?k * 15)" 
  proof (rule power_increasing)
    have "n * 11 = n * 11 div 15 * 15 + n * 11 mod 15" "n * 11 mod 15 < 15" by simp_all
    then have "n * 11 \<le> 15 + n * 11 div 15 * 15" by linarith
    then show "n * 11 \<le> ?k * 15" by (simp add: add_mult_distrib)
  qed simp
  also have "\<dots> = (256 ^ ?k) ^ 15" by (rule power_mult)
  finally show ?thesis using power_le_imp_le_base [of "58 ^ n" 14 "256 ^ ?k"] by simp
qed


section \<open>Decoding\<close>

abbreviation valid58 :: "bytes \<Rightarrow> bool" where "valid58 s \<equiv> list_all (\<lambda>c. digit_of c \<noteq> None) s"
abbreviation digits58 :: "bytes \<Rightarrow> nat list" where "digits58 s \<equiv> map (\<lambda>c. unat (the (digit_of c))) s"

lemma digits58_lt: "valid58 s \<Longrightarrow> d \<in> set (digits58 s) \<Longrightarrow> d < 58"
  using char_of_digit by (fastforce simp: list_all_iff)

lemma decode_loop_step:
  assumes "digit_of c = Some d" "58 * le_nat (rev scratch) + 57 < 256 ^ length scratch"
  obtains scratch' where "decode_loop (c # data) scratch = decode_loop data scratch'" "length scratch' = length scratch"
    "le_nat (rev scratch') = 58 * le_nat (rev scratch) + unat d"
proof -
  obtain ds carry where m: "mul58_add (ucast d) (rev scratch) = (ds, carry)" by fastforce
  have d: "unat d < 58" using char_of_digit assms(1) by blast
  then have u: "unat (ucast d :: u32) = unat d" by (simp add: unat_ucast_up)
  then have v: "length ds = length scratch" "le_nat ds + 256 ^ length scratch * unat carry = 58 * le_nat (rev scratch) + unat d"
    using mul58_add_value [OF _ m] d by simp_all
  then have "256 ^ length scratch * unat carry < 256 ^ length scratch * 1" using assms(2) d by linarith
  then have "unat carry < 1" by (simp only: mult_less_cancel1)
  then have "unat carry = 0" by simp
  then have "carry = 0" by (simp add: unat_eq_0)
  then show ?thesis using that [of "rev ds"] m v assms(1) by (auto simp: digit_of_def split: if_splits)
qed

lemma decode_loop_advance:
  assumes "digit_of c = Some d" "(le_nat (rev scratch) + 1) * 58 ^ Suc n \<le> 256 ^ length scratch"
  obtains s where "decode_loop (c # data) scratch = decode_loop data s" "length s = length scratch"
    "le_nat (rev s) = 58 * le_nat (rev scratch) + unat d" "(le_nat (rev s) + 1) * 58 ^ n \<le> 256 ^ length s"
proof -
  let ?v = "le_nat (rev scratch)"
  have d: "unat d < 58" using assms(1) char_of_digit by auto
  have sz: "(58 * ?v + 58) * 58 ^ n \<le> 256 ^ length scratch" using assms(2) by (simp add: algebra_simps)
  have "58 * ?v + 58 \<le> (58 * ?v + 58) * 58 ^ n" by (metis mult_le_mono2 mult.right_neutral one_le_numeral one_le_power)
  then have "58 * ?v + 57 < 256 ^ length scratch" using sz by linarith
  then obtain s where s: "decode_loop (c # data) scratch = decode_loop data s" "length s = length scratch" "le_nat (rev s) = 58 * ?v + unat d"
    using decode_loop_step assms(1) by blast
  have "(le_nat (rev s) + 1) * 58 ^ n \<le> (58 * ?v + 58) * 58 ^ n" using s(3) d by (intro mult_le_mono1) simp
  then show ?thesis using that [of s] s sz by simp
qed

lemma decode_loop_valid:
  assumes "valid58 data" "(le_nat (rev scratch) + 1) * 58 ^ length data \<le> 256 ^ length scratch"
  shows "\<exists>scratch'. decode_loop data scratch = Some (Inr scratch') \<and> length scratch' = length scratch \<and>
    le_nat (rev scratch') = le_nat (rev scratch) * 58 ^ length data + le_val 58 (rev (digits58 data))"
  using assms
proof (induction data arbitrary: scratch)
  case (Cons c data)
  obtain d where d: "digit_of c = Some d" using Cons.prems(1) by auto
  obtain s where s: "decode_loop (c # data) scratch = decode_loop data s" "length s = length scratch"
      "le_nat (rev s) = 58 * le_nat (rev scratch) + unat d" "(le_nat (rev s) + 1) * 58 ^ length data \<le> 256 ^ length s"
    using Cons.prems(2) decode_loop_advance [OF d] by (metis length_Cons)
  obtain s' where "decode_loop data s = Some (Inr s')" "length s' = length s"
      "le_nat (rev s') = le_nat (rev s) * 58 ^ length data + le_val 58 (rev (digits58 data))"
    using Cons.IH [OF _ s(4)] Cons.prems(1) by auto
  then show ?case using s d by (auto simp: le_val_append algebra_simps)
qed simp

lemma decode_loop_invalid:
  assumes "valid58 pre" "digit_of c = None" "(le_nat (rev scratch) + 1) * 58 ^ length pre \<le> 256 ^ length scratch"
  shows "decode_loop (pre @ c # post) scratch = Some (Inl (InvalidCharacterError c))"
  using assms
proof (induction pre arbitrary: scratch)
  case Nil
  then show ?case by (auto simp: digit_of_def split: if_splits)
next
  case (Cons x pre)
  obtain d where d: "digit_of x = Some d" using Cons.prems(1) by auto
  obtain s where "decode_loop (x # pre @ c # post) scratch = decode_loop (pre @ c # post) s"
      "(le_nat (rev s) + 1) * 58 ^ length pre \<le> 256 ^ length s"
    using Cons.prems(3) decode_loop_advance [OF d] by (metis length_Cons)
  then show ?case using Cons by simp
qed

lemma le_nat_rev_zeros: "le_nat (rev (replicate m 0)) = 0"
proof -
  have "le_nat (replicate m 0) = 0" by (induction m) simp_all
  then show ?thesis by (simp only: rev_replicate)
qed

lemma scratch_start: "n \<le> k \<Longrightarrow> (le_nat (rev (replicate (1 + k * 11 div 15) 0)) + 1) * 58 ^ n \<le> 256 ^ length (replicate (1 + k * 11 div 15) (0 :: u8))"
proof -
  assume "n \<le> k"
  then have "58 ^ n \<le> (58 :: nat) ^ k" by (intro power_increasing) simp_all
  then show ?thesis using scratch_size [of k] by (simp only: le_nat_rev_zeros length_replicate add_0 mult_1)
qed

lemma digit_zero: "digit_of c \<noteq> None \<Longrightarrow> unat (the (digit_of c)) = 0 \<longleftrightarrow> c = BASE58_CHARS ! 0"
  using char_of_digit [of c] digit_of_char [of 0] by auto

definition num256 :: "nat list \<Rightarrow> bytes" where "num256 ds = map word_of_nat ds"

lemma decode_valid:
  assumes "valid58 data"
  shows "base58_decode data =
    Some (Inr (num256 (base256.numeral_be (length (takeWhile (\<lambda>d. d = 0) (digits58 data))) (le_val 58 (rev (digits58 data))))))"
proof -
  let ?s0 = "replicate (1 + length data * 11 div 15) 0"
  obtain s where s: "decode_loop data ?s0 = Some (Inr s)" "le_nat (rev s) = le_val 58 (rev (digits58 data))"
    using decode_loop_valid [OF assms scratch_start [OF order_refl]] unfolding le_nat_rev_zeros by auto
  have "dropWhile (\<lambda>x. x = 0) s = num256 (dropWhile (\<lambda>d. d = 0) (map unat s))"
    by (induction s) (auto simp: num256_def unat_eq_0 comp_def)
  also have "\<dots> = num256 (rev (base256.digits_le (le_val 256 (rev (map unat s)))))"
    by (subst base256.dropWhile_digits) auto
  also have "le_val 256 (rev (map unat s)) = le_val 58 (rev (digits58 data))" using s(2) by (simp add: le_nat_val rev_map)
  finally have d: "dropWhile (\<lambda>x. x = 0) s = num256 (rev (base256.digits_le (le_val 58 (rev (digits58 data)))))" .
  have "length (takeWhile (\<lambda>x. x = BASE58_CHARS ! 0) data) = length (takeWhile (\<lambda>d. d = 0) (digits58 data))"
    using assms by (induction data) (auto simp: digit_zero)
  then have "map (\<lambda>_. 0) (takeWhile (\<lambda>x. x = BASE58_CHARS ! 0) data) = num256 (replicate (length (takeWhile (\<lambda>d. d = 0) (digits58 data))) 0)"
    by (simp add: num256_def map_replicate_const)
  then show ?thesis using s(1) d by (simp add: base58_decode_def base256.numeral_be_def num256_def)
qed

lemma decode_invalid:
  assumes "valid58 pre" "digit_of c = None"
  shows "base58_decode (pre @ c # post) = Some (Inl (InvalidCharacterError c))"
  using decode_loop_invalid [OF assms scratch_start [of "length pre" "length (pre @ c # post)"]]
  by (simp add: base58_decode_def)

lemma valid58_cases:
  obtains "valid58 data" | pre c post where "data = pre @ c # post" "valid58 pre" "digit_of c = None"
proof (cases "valid58 data")
  case False
  let ?r = "dropWhile (\<lambda>c. digit_of c \<noteq> None) data"
  have "?r \<noteq> []" using False by (auto simp: list_all_iff dropWhile_eq_Nil_conv)
  then obtain c post where r: "?r = c # post" by (cases ?r) auto
  then have "digit_of c = None" using hd_dropWhile [of "\<lambda>c. digit_of c \<noteq> None" data] by simp
  moreover have "data = takeWhile (\<lambda>c. digit_of c \<noteq> None) data @ c # post" using r by (metis takeWhile_dropWhile_id)
  moreover have "valid58 (takeWhile (\<lambda>c. digit_of c \<noteq> None) data)" by (auto simp: list_all_iff dest: set_takeWhileD)
  ultimately show ?thesis using that(2) by blast
qed (use that in blast)


section \<open>The small vector\<close>

definition sv_ok :: "SmallVec \<Rightarrow> bool" where
  "sv_ok s \<longleftrightarrow> length (sv_stack s) = 100 \<and> sv_len s \<le> 100 \<and> (sv_len s < 100 \<longrightarrow> sv_heap s = [])"

lemma sv_new_refines: "sv_ok sv_new" "sv_iter sv_new = []"
  by (simp_all add: sv_ok_def sv_new_def sv_iter_def)

lemma sv_push_refines: "sv_ok s \<Longrightarrow> sv_ok (sv_push v s) \<and> sv_iter (sv_push v s) = sv_iter s @ [v]"
  by (auto simp: sv_ok_def sv_push_def sv_iter_def take_Suc_conv_app_nth)

lemma sv_pushes_refine: "sv_ok s \<Longrightarrow> sv_ok ((sv_push v ^^ n) s) \<and> sv_iter ((sv_push v ^^ n) s) = sv_iter s @ replicate n v"
  by (induction n) (simp_all add: sv_push_refines replicate_app_Cons_same)

lemma map_state_append:
  "map_state f st (xs @ ys) = (let (xs', st) = map_state f st xs; (ys', st) = map_state f st ys in (xs' @ ys', st))"
  by (induction xs arbitrary: st) (simp_all add: Let_def split: prod.splits)

lemma length_map_state: "length (fst (map_state f st xs)) = length xs"
  by (induction xs arbitrary: st) (simp_all add: Let_def split: prod.splits, metis fst_conv)

lemma sv_iter_mut_refines:
  assumes "sv_ok s" "sv_iter_mut f st s = (s', st')"
  shows "sv_ok s' \<and> map_state f st (sv_iter s) = (sv_iter s', st')"
proof -
  let ?l = "take (sv_len s) (sv_stack s)"
  obtain xs u where x: "map_state f st ?l = (xs, u)" by fastforce
  obtain ys w where y: "map_state f u (sv_heap s) = (ys, w)" by fastforce
  have "length xs = sv_len s" "length ys = length (sv_heap s)"
    using length_map_state [of f st ?l] length_map_state [of f u "sv_heap s"] x y assms(1) by (simp_all add: sv_ok_def)
  moreover have "s' = s\<lparr> sv_stack := xs @ drop (sv_len s) (sv_stack s), sv_heap := ys \<rparr>" "st' = w"
    using assms(2) x y by (simp_all add: sv_iter_mut_def Let_def)
  ultimately show ?thesis using assms(1) x y by (auto simp: sv_ok_def sv_iter_def map_state_append)
qed

section \<open>Encoding\<close>

lemma mul256_value:
  assumes "map_state mul256_add carry chs = (chs', c)"
  shows "length chs' = length chs \<and> (\<forall>d \<in> set chs'. unat d < 58) \<and>
    le_val 58 (map unat chs') + 58 ^ length chs * c = 256 * le_val 58 (map unat chs) + carry"
  using assms
proof (induction chs arbitrary: carry chs' c)
  case (Cons ch chs)
  let ?n = "unat ch * 256 + carry"
  obtain es where r: "map_state mul256_add (?n div 58) chs = (es, c)" "chs' = word_of_nat (?n mod 58) # es"
    using Cons.prems by (auto simp: mul256_add_def [of carry ch] Let_def split: prod.splits)
  have IH: "length es = length chs" "\<forall>d \<in> set es. unat d < 58"
      "le_val 58 (map unat es) + 58 ^ length chs * c = 256 * le_val 58 (map unat chs) + ?n div 58"
    using Cons.IH [OF r(1)] by simp_all
  have u: "unat (word_of_nat (?n mod 58) :: u8) = ?n mod 58" by (simp add: unat_of_nat)
  then have "le_val 58 (map unat chs') + 58 ^ length (ch # chs) * c = ?n mod 58 + 58 * (le_val 58 (map unat es) + 58 ^ length chs * c)"
    using r(2) by (simp add: distrib_left mult.assoc)
  also have "\<dots> = ?n mod 58 + 58 * (?n div 58) + 58 * (256 * le_val 58 (map unat chs))" using IH(3) by simp
  also have "?n mod 58 + 58 * (?n div 58) = ?n" by simp
  finally show ?case using IH r(2) u by simp
qed simp

lemma push_carry_refines:
  "sv_ok s \<Longrightarrow> sv_ok (push_carry c s) \<and> sv_iter (push_carry c s) = sv_iter s @ map word_of_nat (base58.digits_le c)"
proof (induction c s rule: push_carry.induct)
  case (1 c s)
  show ?case
  proof (cases "c > 0")
    case True
    then have "push_carry c s = push_carry (c div 58) (sv_push (word_of_nat (c mod 58)) s)" by (simp add: push_carry.simps [of c s])
    moreover have "base58.digits_le c = c mod 58 # base58.digits_le (c div 58)" using True by (simp add: base58.digits_le.simps [of c])
    ultimately show ?thesis using 1 True sv_push_refines [of s "word_of_nat (c mod 58)"] by simp
  qed (use 1 in \<open>simp add: push_carry.simps\<close>)
qed

lemma le_val_lt: "\<forall>d \<in> set ds. d < b \<Longrightarrow> le_val b ds < b ^ length ds"
proof (induction ds)
  case (Cons d ds)
  then have "d + b * le_val b ds < b + b * le_val b ds" "b * (le_val b ds + 1) \<le> b * b ^ length ds" by (simp_all del: mult_Suc_right)
  then show ?case by (simp add: algebra_simps)
qed simp

lemma le_val_ge: "ds \<noteq> [] \<Longrightarrow> last ds \<noteq> 0 \<Longrightarrow> b ^ (length ds - 1) \<le> le_val b ds"
  by (cases ds rule: rev_cases) (simp_all add: le_val_append trans_le_add2)

text \<open>One more byte: the digits of \<open>256 * v + d\<close>. When there are digits already, the carry out of them cannot vanish,
  so no leading zero appears.\<close>

lemma append_byte:
  assumes "sv_ok s" "map unat (sv_iter s) = base58.digits_le v" "sv_iter_mut mul256_add d s = (s', c)"
  shows "sv_ok (push_carry c s') \<and> map unat (sv_iter (push_carry c s')) = base58.digits_le (256 * v + d)"
proof -
  let ?x = "map unat (sv_iter s)" and ?y = "map unat (sv_iter s')"
  have s': "sv_ok s'" "map_state mul256_add d (sv_iter s) = (sv_iter s', c)"
    using sv_iter_mut_refines [OF assms(1,3)] by simp_all
  have v: "le_val 58 ?x = v" using base58.le_val_digits [of v] assms(2) by simp
  have m: "length ?y = length ?x" "\<forall>e \<in> set ?y. e < 58" "le_val 58 ?y + 58 ^ length ?x * c = 256 * v + d"
    using mul256_value [OF s'(2)] v by simp_all
  have lt: "\<forall>e \<in> set (base58.digits_le c). e < 58" using base58.digits_lt by blast
  have u: "map unat (map word_of_nat (base58.digits_le c) :: bytes) = base58.digits_le c"
    using lt by (auto simp: unat_of_nat intro!: map_idI)
  have c: "c \<noteq> 0" if "?x \<noteq> []"
  proof
    assume "c = 0"
    then have "256 * v < 58 ^ length ?x" using m le_val_lt [OF m(2)] by simp
    moreover have "58 ^ (length ?x - 1) \<le> v"
      using le_val_ge [OF that, of 58] base58.digits_last [of v] base58.le_val_digits [of v] assms(2) that by simp
    moreover have "(58 :: nat) ^ length ?x = 58 * 58 ^ (length ?x - 1)" using that by (cases "length ?x") simp_all
    ultimately show False by linarith
  qed
  have "?y @ base58.digits_le c = [] \<or> last (?y @ base58.digits_le c) \<noteq> 0"
  proof (cases "base58.digits_le c = []")
    case True
    then have "c = 0" using base58.le_val_digits [of c] by simp
    then have "?x = []" using c by blast
    then show ?thesis using m(1) True by simp
  qed (use base58.digits_last [of c] in simp)
  then have "base58.digits_le (le_val 58 (?y @ base58.digits_le c)) = ?y @ base58.digits_le c"
    using m(2) lt by (intro base58.digits_unique) auto
  moreover have "le_val 58 (?y @ base58.digits_le c) = 256 * v + d"
    using m by (simp add: le_val_append base58.le_val_digits)
  ultimately show ?thesis using push_carry_refines [OF s'(1), of c] u by simp
qed

lemma format_loop_value:
  assumes "sv_ok s" "map unat (sv_iter s) = base58.digits_le v" "lz \<longrightarrow> v = 0"
  shows "\<exists>s'. format_loop data s z lz = (s', z + (if lz then length (takeWhile (\<lambda>x. x = 0) data) else 0)) \<and> sv_ok s' \<and>
    map unat (sv_iter s') = base58.digits_le (v * 256 ^ length data + le_val 256 (rev (map unat data)))"
  using assms
proof (induction data arbitrary: s v z lz)
  case (Cons d data)
  obtain s' c where m: "sv_iter_mut mul256_add (unat d) s = (s', c)" by fastforce
  let ?lz = "lz \<and> unat d = 0"
  have a: "sv_ok (push_carry c s')" "map unat (sv_iter (push_carry c s')) = base58.digits_le (256 * v + unat d)"
    using append_byte [OF Cons.prems(1,2) m] by simp_all
  have step: "format_loop (d # data) s z lz = format_loop data (push_carry c s') (if ?lz then z + 1 else z) ?lz"
    using m by (auto simp: Let_def)
  have "?lz \<longrightarrow> 256 * v + unat d = 0" using Cons.prems(3) by simp
  from Cons.IH [OF a this, of "if ?lz then z + 1 else z"] show ?case unfolding step
    by (auto simp: le_val_append unat_eq_0 algebra_simps)
qed simp

lemma format_iter_value:
  "format_iter data = map (\<lambda>d. BASE58_CHARS ! d)
     (base58.numeral_be (length (takeWhile (\<lambda>x. x = 0) data)) (le_val 256 (rev (map unat data))))"
proof -
  obtain s where s: "format_loop data sv_new 0 True = (s, length (takeWhile (\<lambda>x. x = 0) data))" "sv_ok s"
      "map unat (sv_iter s) = base58.digits_le (le_val 256 (rev (map unat data)))"
    using format_loop_value [of sv_new 0 True data 0] sv_new_refines by auto
  let ?z = "length (takeWhile (\<lambda>x. x = 0) data)"
  have "sv_iter ((sv_push 0 ^^ ?z) s) = sv_iter s @ replicate ?z 0" using sv_pushes_refine [OF s(2)] by simp
  then have "format_iter data = map (\<lambda>d. BASE58_CHARS ! d) (map unat (rev (sv_iter s @ replicate ?z 0)))"
    using s(1) by (simp add: format_iter_def)
  also have "map unat (rev (sv_iter s @ replicate ?z 0)) = replicate ?z 0 @ rev (map unat (sv_iter s))" by (simp add: rev_map)
  finally show ?thesis using s(3) by (simp add: base58.numeral_be_def)
qed


section \<open>Round trips\<close>

lemma num256_digits: "\<forall>d \<in> set ds. d < 256 \<Longrightarrow> map unat (num256 ds) = ds"
  by (auto simp: num256_def unat_of_nat intro!: map_idI)

lemma num256_unat: "num256 (map unat bs) = bs"
  by (simp add: num256_def comp_def)

lemma numeral_lt: "d \<in> set (base58.numeral_be z v) \<Longrightarrow> d < 58" "d \<in> set (base256.numeral_be z v) \<Longrightarrow> d < 256"
  using base58.digits_lt base256.digits_lt by (auto simp: base58.numeral_be_def base256.numeral_be_def)

lemma takeWhile_zero_bytes: "length (takeWhile (\<lambda>x. x = 0) bs) = length (takeWhile (\<lambda>d. d = 0) (map unat bs))"
  by (induction bs) (auto simp: unat_eq_0)

lemma encode_digits: "format_iter data = map (\<lambda>d. BASE58_CHARS ! d)
    (base58.numeral_be (length (takeWhile (\<lambda>d. d = 0) (map unat data))) (le_val 256 (rev (map unat data))))"
  by (simp only: format_iter_value takeWhile_zero_bytes)

lemma chars_valid: "\<forall>d \<in> set ds. d < 58 \<Longrightarrow> valid58 (map (\<lambda>d. BASE58_CHARS ! d) ds) \<and> digits58 (map (\<lambda>d. BASE58_CHARS ! d) ds) = ds"
  by (auto simp: list_all_iff digit_of_char unat_of_nat intro!: map_idI)

lemma chars_of_digits: "valid58 s \<Longrightarrow> map (\<lambda>d. BASE58_CHARS ! d) (digits58 s) = s"
  using char_of_digit by (auto simp: list_all_iff intro!: map_idI)

lemma decode_format: "base58_decode (format_iter data) = Some (Inr data)"
proof -
  let ?z = "length (takeWhile (\<lambda>d. d = 0) (map unat data))" and ?v = "le_val 256 (rev (map unat data))"
  let ?ds = "base58.numeral_be ?z ?v"
  have v: "valid58 (format_iter data)" "digits58 (format_iter data) = ?ds"
    using chars_valid [of ?ds] numeral_lt(1) unfolding encode_digits by blast+
  have "base58_decode (format_iter data) =
      Some (Inr (num256 (base256.numeral_be (length (takeWhile (\<lambda>d. d = 0) ?ds)) (le_val 58 (rev ?ds)))))"
    using decode_valid [OF v(1)] unfolding v(2) .
  also have "\<dots> = Some (Inr (num256 (base256.numeral_be ?z ?v)))"
    unfolding base58.numeral_zeros base58.numeral_value ..
  also have "base256.numeral_be ?z ?v = map unat data" by (rule base256.numeral_unique [symmetric]) simp
  finally show ?thesis by (simp add: num256_unat)
qed

lemma format_decode: "base58_decode s = Some (Inr data) \<Longrightarrow> format_iter data = s"
proof -
  assume d: "base58_decode s = Some (Inr data)"
  let ?z = "length (takeWhile (\<lambda>d. d = 0) (digits58 s))" and ?v = "le_val 58 (rev (digits58 s))"
  have v: "valid58 s" using d decode_invalid by (cases s rule: valid58_cases) auto
  then have data: "map unat data = base256.numeral_be ?z ?v"
    using d decode_valid [OF v] num256_digits [of "base256.numeral_be ?z ?v"] numeral_lt(2) by auto
  have "base58.numeral_be ?z ?v = digits58 s"
    using digits58_lt [OF v] by (intro base58.numeral_unique [symmetric]) blast
  then show ?thesis using chars_of_digits [OF v] unfolding encode_digits data base256.numeral_zeros base256.numeral_value by simp
qed

lemma length_format: "length (format_iter d) \<le> 2 * length d"
proof -
  let ?z = "length (takeWhile (\<lambda>d. d = 0) (map unat d))" and ?v = "le_val 256 (rev (map unat d))"
  let ?m = "length (base256.digits_le ?v)" and ?k = "length (base58.digits_le ?v)"
  have "map unat d = base256.numeral_be ?z ?v" by (rule base256.numeral_unique) simp
  then have "length (map unat d) = length (base256.numeral_be ?z ?v)" by (rule arg_cong)
  then have n: "length d = ?z + ?m" by (simp add: base256.numeral_be_def)
  have "?v < 256 ^ ?m" using le_val_lt [of "base256.digits_le ?v" 256] base256.digits_lt by (simp add: base256.le_val_digits)
  also have "\<dots> \<le> (58 ^ 2) ^ ?m" by (intro power_mono) simp_all
  also have "\<dots> = 58 ^ (2 * ?m)" by (simp only: power_mult)
  finally have v: "?v < 58 ^ (2 * ?m)" .
  have "?k \<le> 2 * ?m"
  proof (cases "base58.digits_le ?v = []")
    case False
    then have "58 ^ (?k - 1) \<le> ?v" using le_val_ge [OF False, of 58] base58.digits_last [OF False] by (simp add: base58.le_val_digits)
    then have "(58 :: nat) ^ (?k - 1) < 58 ^ (2 * ?m)" using v by (rule le_less_trans)
    then have "?k - 1 < 2 * ?m" by (rule power_less_imp_less_exp [rotated]) simp
    then show ?thesis by simp
  qed simp
  then show ?thesis using n by (simp add: encode_digits base58.numeral_be_def)
qed

lemma decode_total: "base58_decode s \<noteq> None"
  using decode_valid decode_invalid by (cases s rule: valid58_cases) auto

lemma from_le_bytes_4: "length xs = 4 \<Longrightarrow> length ys = 4 \<Longrightarrow> (from_le_bytes xs :: u32) = from_le_bytes ys \<longleftrightarrow> xs = ys"
  using to_from_le_bytes_std by metis

lemma decode_check_iff: "decode_check s = Some (Inr d) \<longleftrightarrow> s = encode_check d"
proof
  assume "s = encode_check d"
  then show "decode_check s = Some (Inr d)" using decode_format [of "d @ take 4 (sha256d_hash d)"]
    by (simp add: decode_check_def encode_check_def)
next
  assume c: "decode_check s = Some (Inr d)"
  then obtain ret where r: "base58_decode s = Some (Inr ret)" by (auto simp: decode_check_def split: option.splits sum.splits)
  then have "length ret \<ge> 4" "d = take (length ret - 4) ret"
      "(from_le_bytes (drop (length ret - 4) ret) :: u32) = from_le_bytes (take 4 (sha256d_hash d))"
    using c by (auto simp: decode_check_def Let_def split: if_splits)
  then have "drop (length ret - 4) ret = take 4 (sha256d_hash d)" by (subst (asm) from_le_bytes_4) simp_all
  then have "ret = d @ take 4 (sha256d_hash d)" using \<open>d = take (length ret - 4) ret\<close> by (metis append_take_drop_id)
  then show "s = encode_check d" using format_decode [OF r] by (simp add: encode_check_def)
qed

section \<open>Properties\<close>

text \<open>(C30) Base58 is a bijection between byte strings and strings over its alphabet: decoding never fails its assertion, it
  inverts encoding, whatever decodes is the encoding of the result, and anything else is refused with its first character
  outside the alphabet.\<close>

theorem base58_bijective:
  "base58_decode (base58_encode d) = Some (Inr d) \<and>
   (base58_decode s = Some (Inr d) \<longrightarrow> s = base58_encode d) \<and>
   base58_decode s \<noteq> None \<and>
   (base58_decode s = Some (Inl (InvalidCharacterError c)) \<longleftrightarrow>
      (\<exists>pre post. s = pre @ c # post \<and> set pre \<subseteq> set BASE58_CHARS \<and> c \<notin> set BASE58_CHARS))"
proof -
  have alphabet: "digit_of x \<noteq> None \<longleftrightarrow> x \<in> set BASE58_CHARS" for x
  proof
    assume "digit_of x \<noteq> None"
    then obtain k where "digit_of x = Some k" by auto
    then have "unat k < 58" "BASE58_CHARS ! unat k = x" using char_of_digit by simp_all
    then show "x \<in> set BASE58_CHARS" using nth_mem [of "unat k" BASE58_CHARS] by (simp add: BASE58_CHARS_def)
  next
    assume "x \<in> set BASE58_CHARS"
    then obtain i where "i < length BASE58_CHARS" "BASE58_CHARS ! i = x" by (auto simp: in_set_conv_nth)
    then show "digit_of x \<noteq> None" using digit_of_char [of i] by (auto simp: BASE58_CHARS_def)
  qed
  have inv: "(\<exists>pre post. s = pre @ c # post \<and> set pre \<subseteq> set BASE58_CHARS \<and> c \<notin> set BASE58_CHARS)"
    if "base58_decode s = Some (Inl (InvalidCharacterError c))"
    using that
  proof (cases s rule: valid58_cases)
    case (2 pre c' post)
    have "c' = c" using that decode_invalid [OF 2(2,3), of post] 2(1) by simp
    moreover have "set pre \<subseteq> set BASE58_CHARS" "c' \<notin> set BASE58_CHARS"
      using 2(2) 2(3) alphabet [of c'] alphabet by (auto simp: list_all_iff)
    ultimately show ?thesis using 2(1) by blast
  qed (use decode_valid in simp)
  have "base58_decode s = Some (Inl (InvalidCharacterError c))"
    if "s = pre @ c # post" "set pre \<subseteq> set BASE58_CHARS" "c \<notin> set BASE58_CHARS" for pre post
    using that decode_invalid [of pre c post] alphabet by (auto simp: list_all_iff)
  then show ?thesis using inv decode_format format_decode decode_total by (auto simp: base58_encode_def)
qed

theorem base58_bijective_witness: "base58_decode [49, 50, 49, 49] = Some (Inr [0, 13, 36]) \<and> base58_encode [0, 13, 36] = [49, 50, 49, 49]"
proof -
  have "base58_decode [49, 50, 49, 49] = Some (Inr [0, 13, 36])" by code_simp
  then show ?thesis using base58_bijective [of "[0, 13, 36]" "[49, 50, 49, 49]" 0] by simp
qed

text \<open>Base58check: decoding succeeds with \<open>d\<close> exactly on the encoding of \<open>d\<close> with the first four bytes of its double
  hash, and it never panics.\<close>

theorem base58check_exact:
  "(decode_check s = Some (Inr d) \<longleftrightarrow> s = encode_check d) \<and> decode_check s \<noteq> None"
  using decode_check_iff [of s d] decode_total [of s] by (auto simp: decode_check_def split: option.splits sum.splits)

end
