(* ===== verification/Ripemd160.thy ===== *)
theory Ripemd160
  imports Sha256
begin

text \<open>
  RIPEMD-160 (\<open>hashes/src/ripemd160.rs\<close>) on the block engine, and HASH160 (\<open>hashes/src/hash160.rs\<close>). The code lists the
  rounds of both lines as data, register order, message word and rotation of each call; they are shown equal to the
  permutations by which the function is defined.
\<close>

section \<open>Definitions\<close>

text \<open>The message word and the rotation of each call of \<open>round!\<close>, in the order of the sources. In both lines the
  registers of the calls are ordered 0, 1, 2, 3, 4, then 4, 0, 1, 2, 3, and so on.\<close>

definition rmd_calls :: "(nat \<times> nat) list" where
  "rmd_calls = [
      (0, 11), (1, 14), (2, 15), (3, 12), (4, 5), (5, 8), (6, 7), (7, 9),
      (8, 11), (9, 13), (10, 14), (11, 15), (12, 6), (13, 7), (14, 9), (15, 8),
      (7, 7), (4, 6), (13, 8), (1, 13), (10, 11), (6, 9), (15, 7), (3, 15),
      (12, 7), (0, 12), (9, 15), (5, 9), (2, 11), (14, 7), (11, 13), (8, 12),
      (3, 11), (10, 13), (14, 6), (4, 7), (9, 14), (15, 9), (8, 13), (1, 15),
      (2, 14), (7, 8), (0, 13), (6, 6), (13, 5), (11, 12), (5, 7), (12, 5),
      (1, 11), (9, 12), (11, 14), (10, 15), (0, 14), (8, 15), (12, 9), (4, 8),
      (13, 9), (3, 14), (7, 5), (15, 6), (14, 8), (5, 6), (6, 5), (2, 12),
      (4, 9), (0, 15), (5, 5), (9, 11), (7, 6), (12, 8), (2, 13), (10, 12),
      (14, 5), (1, 12), (3, 13), (8, 14), (11, 11), (6, 8), (15, 5), (13, 6)]"

definition rmd_par_calls :: "(nat \<times> nat) list" where
  "rmd_par_calls = [
      (5, 8), (14, 9), (7, 9), (0, 11), (9, 13), (2, 15), (11, 15), (4, 5),
      (13, 7), (6, 7), (15, 8), (8, 11), (1, 14), (10, 14), (3, 12), (12, 6),
      (6, 9), (11, 13), (3, 15), (7, 7), (0, 12), (13, 8), (5, 9), (10, 11),
      (14, 7), (15, 7), (8, 12), (12, 7), (4, 6), (9, 15), (1, 13), (2, 11),
      (15, 9), (5, 7), (1, 15), (3, 11), (7, 8), (14, 6), (6, 6), (9, 14),
      (11, 12), (8, 13), (12, 5), (2, 14), (10, 13), (0, 13), (4, 7), (13, 5),
      (8, 15), (6, 5), (4, 8), (1, 11), (3, 14), (11, 14), (15, 6), (0, 14),
      (5, 6), (12, 9), (2, 12), (13, 9), (9, 12), (7, 5), (10, 15), (14, 8),
      (12, 8), (15, 5), (10, 12), (4, 9), (1, 12), (5, 5), (8, 14), (7, 6),
      (6, 8), (2, 13), (13, 6), (14, 5), (0, 15), (3, 13), (9, 11), (11, 11)]"

definition h_ordering :: "nat \<Rightarrow> nat list" where
  "h_ordering n = map (\<lambda>i. (i + 4 * n) mod 5) [0..<5]"

definition rmd_round :: "nat list \<Rightarrow> u32 \<Rightarrow> nat \<Rightarrow> u32 \<Rightarrow> u32 \<Rightarrow> u32 list \<Rightarrow> u32 list" where
  "rmd_round ord x bits add round bb =
     (let a = bb ! (ord ! 0) + round + x + add;
          bb = bb[ord ! 0 := word_rotl bits a + bb ! (ord ! 4)]
      in bb[ord ! 2 := word_rotl 10 (bb ! (ord ! 2))])"

definition rmd_f :: "nat \<Rightarrow> u32 \<Rightarrow> u32 \<Rightarrow> u32 \<Rightarrow> u32" where
  "rmd_f k b c d =
     (if k = 1 then b XOR c XOR d
      else if k = 2 then (b AND c) OR (NOT b AND d)
      else if k = 3 then (b OR NOT c) XOR d
      else if k = 4 then (b AND d) OR (c AND NOT d)
      else b XOR (c OR NOT d))"

definition rmd_call :: "nat \<Rightarrow> u32 \<Rightarrow> u32 list \<Rightarrow> nat \<Rightarrow> nat \<times> nat \<Rightarrow> u32 list \<Rightarrow> u32 list" where
  "rmd_call k add w n c bb =
     (let ord = h_ordering n
      in rmd_round ord (w ! fst c) (snd c) add (rmd_f k (bb ! (ord ! 1)) (bb ! (ord ! 2)) (bb ! (ord ! 3))) bb)"

definition rmd_add :: "nat \<Rightarrow> u32" where
  "rmd_add k = (if k = 1 then 0 else if k = 2 then 0x5a827999 else if k = 3 then 0x6ed9eba1 else if k = 4 then 0x8f1bbcdc else 0xa953fd4e)"

definition rmd_par_add :: "nat \<Rightarrow> u32" where
  "rmd_par_add k = (if k = 1 then 0x50a28be6 else if k = 2 then 0x5c4dd124 else if k = 3 then 0x6d703ef3 else if k = 4 then 0x7a6d76e9 else 0)"

text \<open>Sixteen calls make a round; the parallel line uses the functions in reverse order.\<close>

definition rmd_line :: "u32 list \<Rightarrow> u32 list \<Rightarrow> u32 list" where
  "rmd_line w h = fold (\<lambda>n. rmd_call (n div 16 + 1) (rmd_add (n div 16 + 1)) w n (rmd_calls ! n)) [0..<80] h"

definition rmd_par_line :: "u32 list \<Rightarrow> u32 list \<Rightarrow> u32 list" where
  "rmd_par_line w h = fold (\<lambda>n. rmd_call (5 - n div 16) (rmd_par_add (n div 16 + 1)) w n (rmd_par_calls ! n)) [0..<80] h"

fun words_le :: "bytes \<Rightarrow> u32 list" where
  "words_le (b0 # b1 # b2 # b3 # bs) = from_le_bytes [b0, b1, b2, b3] # words_le bs"
| "words_le _ = []"

definition rmd_process_block :: "u32 list \<Rightarrow> bytes \<Rightarrow> u32 list" where
  "rmd_process_block h buf =
     (let w = words_le buf; bb = rmd_line w h; bbb = rmd_par_line w h;
          bbb3 = bbb ! 3 + h ! 1 + bb ! 2
      in [bbb3, h ! 2 + bb ! 3 + bbb ! 4, h ! 3 + bb ! 4 + bbb ! 0, h ! 4 + bb ! 0 + bbb ! 1, h ! 0 + bb ! 1 + bbb ! 2])"

definition rmd_H0 :: "u32 list" where
  "rmd_H0 = [0x67452301, 0xefcdab89, 0x98badcfe, 0x10325476, 0xc3d2e1f0]"

definition rmd_engine :: "u32 list engine" where
  "rmd_engine = \<lparr> buffer = replicate 64 0, h_regs = rmd_H0, length_n = 0 \<rparr>"

definition rmd_input :: "u32 list engine \<Rightarrow> bytes \<Rightarrow> u32 list engine" where
  "rmd_input e inp = engine_input 64 rmd_process_block e inp"

definition rmd_midstate :: "u32 list engine \<Rightarrow> bytes" where
  "rmd_midstate e = concat (map to_le_bytes (h_regs e))"

definition rmd_from_engine :: "u32 list engine \<Rightarrow> bytes" where
  "rmd_from_engine e =
     (let data_len = word_of_nat (length_n e) :: u64;
          e = engine_pad 64 (64 - 8) rmd_process_block e;
          e = rmd_input e (to_le_bytes (8 * data_len))
      in rmd_midstate e)"

definition ripemd160_hash :: "bytes \<Rightarrow> bytes" where
  "ripemd160_hash data = rmd_from_engine (rmd_input rmd_engine data)"

definition hash160_from_engine :: "HashEngine \<Rightarrow> bytes" where
  "hash160_from_engine e = (let sha2 = from_engine e; rmd = ripemd160_hash sha2 in rmd)"

definition hash160_hash :: "bytes \<Rightarrow> bytes" where
  "hash160_hash data = hash160_from_engine (input engine_default data)"

section \<open>The engine absorbs the padded message\<close>

interpretation rmd: block_engine 64 56 rmd_process_block
  by unfold_locales simp_all

definition rmd_pad :: "nat \<Rightarrow> bytes" where
  "rmd_pad n = 0x80 # replicate (pad_zeros 64 56 n) 0 @ to_le_bytes (8 * word_of_nat n :: u64)"

lemma rmd_at: "rmd.engine_at rmd_H0 0 (concat xs) (fold (\<lambda>s e. rmd_input e s) xs rmd_engine)"
  using rmd.fold_feed_at [OF rmd.fresh_at, of rmd_H0 xs] by (simp add: rmd_input_def rmd_engine_def)

lemma rmd_from_engine_eq:
  assumes e: "rmd.engine_at st n0 m e"
  shows "rmd_from_engine e = concat (map to_le_bytes (absorb_blocks 64 rmd_process_block st (m @ rmd_pad (length_n e))))"
  using rmd.finish_at(1) [OF e, of "to_le_bytes (8 * word_of_nat (length_n e) :: u64)"]
  by (simp add: rmd_from_engine_def rmd_midstate_def rmd_pad_def rmd_input_def Let_def)

lemma rmd_finish: "rmd_from_engine (fold (\<lambda>s e. rmd_input e s) xs rmd_engine) =
    concat (map to_le_bytes (absorb_blocks 64 rmd_process_block rmd_H0 (concat xs @ rmd_pad (length (concat xs)))))"
proof -
  have "length_n (fold (\<lambda>s e. rmd_input e s) xs rmd_engine) = length (concat xs)"
    using rmd_at [of xs] by (simp add: rmd.engine_at_def)
  then show ?thesis using rmd_from_engine_eq [OF rmd_at [of xs]] by simp
qed

lemma ripemd160_eq: "ripemd160_hash m =
    concat (map to_le_bytes (absorb_blocks 64 rmd_process_block rmd_H0 (m @ rmd_pad (length m))))"
  using rmd_finish [of "[m]"] by (simp add: ripemd160_hash_def)

lemma length_process [simp]: "length (rmd_process_block h b) = 5"
  by (simp add: rmd_process_block_def Let_def)

lemma absorb_length: "length h = 5 \<Longrightarrow> length (absorb_blocks 64 rmd_process_block h m) = 5"
proof (induction "length m" arbitrary: h m rule: less_induct)
  case less
  then show ?case by (cases "length m < 64") (simp_all add: absorb_blocks.simps [of 64 _ h m])
qed

lemma length_ripemd160 [simp]: "length (ripemd160_hash m) = 20"
proof -
  let ?r = "absorb_blocks 64 rmd_process_block rmd_H0 (m @ rmd_pad (length m))"
  have "length ?r = 5" by (rule absorb_length) (simp add: rmd_H0_def)
  then show ?thesis by (simp add: ripemd160_eq length_concat comp_def sum_list_triv)
qed

interpretation ripemd160: hasher rmd_engine rmd_input rmd_from_engine ripemd160_hash 20
  by unfold_locales (simp_all only: rmd_finish ripemd160_eq [symmetric] length_ripemd160)

lemma hash160_eq: "hash160_hash m = ripemd160_hash (sha256_hash m)"
  by (simp add: hash160_hash_def hash160_from_engine_def sha256_hash_def)

lemma length_hash160 [simp]: "length (hash160_hash m) = 20"
  by (simp add: hash160_eq)

section \<open>The published definition\<close>

text \<open>The message words of a round are those of the round before, permuted by \<open>\<rho>\<close>; the parallel line starts from the
  permutation \<open>\<pi>\<close>. The rotation depends on the round and the word only. The five registers move by one place at each step.\<close>

definition rho :: "nat list" where "rho = [7, 4, 13, 1, 10, 6, 15, 3, 12, 0, 9, 5, 2, 14, 11, 8]"

definition ref_word :: "nat \<Rightarrow> nat" where "ref_word n = ((\<lambda>i. rho ! i) ^^ (n div 16)) (n mod 16)"
definition ref_par_word :: "nat \<Rightarrow> nat" where "ref_par_word n = ((\<lambda>i. rho ! i) ^^ (n div 16)) ((9 * (n mod 16) + 5) mod 16)"

definition ref_shift :: "nat \<Rightarrow> nat \<Rightarrow> nat" where
  "ref_shift j word =
     [[11, 14, 15, 12, 5, 8, 7, 9, 11, 13, 14, 15, 6, 7, 9, 8], [12, 13, 11, 15, 6, 9, 9, 7, 12, 15, 11, 13, 7, 8, 7, 7],
      [13, 15, 14, 11, 7, 7, 6, 8, 13, 14, 13, 12, 5, 5, 6, 9], [14, 11, 12, 14, 8, 6, 5, 5, 15, 12, 15, 14, 9, 9, 8, 6],
      [15, 12, 13, 13, 9, 5, 8, 6, 14, 11, 12, 11, 8, 6, 5, 5]] ! j ! word"

type_synonym rmd_regs = "u32 \<times> u32 \<times> u32 \<times> u32 \<times> u32"

fun ref_step :: "u32 \<Rightarrow> (u32 \<Rightarrow> u32 \<Rightarrow> u32 \<Rightarrow> u32) \<Rightarrow> u32 \<Rightarrow> nat \<Rightarrow> rmd_regs \<Rightarrow> rmd_regs" where
  "ref_step k f x s (a, b, c, d, e) = (e, word_rotl s (a + f b c d + x + k) + e, b, word_rotl 10 c, d)"

definition ref_line :: "u32 list \<Rightarrow> rmd_regs \<Rightarrow> rmd_regs" where
  "ref_line w = fold (\<lambda>n. ref_step (rmd_add (n div 16 + 1)) (rmd_f (n div 16 + 1)) (w ! ref_word n) (ref_shift (n div 16) (ref_word n))) [0..<80]"

definition ref_par_line :: "u32 list \<Rightarrow> rmd_regs \<Rightarrow> rmd_regs" where
  "ref_par_line w = fold (\<lambda>n. ref_step (rmd_par_add (n div 16 + 1)) (rmd_f (5 - n div 16)) (w ! ref_par_word n)
     (ref_shift (n div 16) (ref_par_word n))) [0..<80]"

fun ref_combine :: "rmd_regs \<Rightarrow> rmd_regs \<Rightarrow> rmd_regs \<Rightarrow> rmd_regs" where
  "ref_combine (h0, h1, h2, h3, h4) (a, b, c, d, e) (a', b', c', d', e') = (h1 + c + d', h2 + d + e', h3 + e + a', h4 + a + b', h0 + b + c')"

definition ref_block :: "rmd_regs \<Rightarrow> u32 list \<Rightarrow> rmd_regs" where
  "ref_block h w = ref_combine h (ref_line w h) (ref_par_line w h)"

fun regs_list :: "rmd_regs \<Rightarrow> u32 list" where "regs_list (a, b, c, d, e) = [a, b, c, d, e]"

lemma calls_ref: "rmd_calls = map (\<lambda>n. (ref_word n, ref_shift (n div 16) (ref_word n))) [0..<80]"
  by code_simp

lemma par_calls_ref: "rmd_par_calls = map (\<lambda>n. (ref_par_word n, ref_shift (n div 16) (ref_par_word n))) [0..<80]"
  by code_simp

text \<open>The code leaves the registers in place and renames them: the state of the published definition is read through the
  order of the next call.\<close>

definition rmd_view :: "nat \<Rightarrow> u32 list \<Rightarrow> rmd_regs" where
  "rmd_view n bb = (let ord = h_ordering n in (bb ! (ord ! 0), bb ! (ord ! 1), bb ! (ord ! 2), bb ! (ord ! 3), bb ! (ord ! 4)))"

lemma ordering_cases:
  obtains "n mod 5 = 0" "h_ordering n = [0, 1, 2, 3, 4]" "h_ordering (Suc n) = [4, 0, 1, 2, 3]"
    | "n mod 5 = 1" "h_ordering n = [4, 0, 1, 2, 3]" "h_ordering (Suc n) = [3, 4, 0, 1, 2]"
    | "n mod 5 = 2" "h_ordering n = [3, 4, 0, 1, 2]" "h_ordering (Suc n) = [2, 3, 4, 0, 1]"
    | "n mod 5 = 3" "h_ordering n = [2, 3, 4, 0, 1]" "h_ordering (Suc n) = [1, 2, 3, 4, 0]"
    | "n mod 5 = 4" "h_ordering n = [1, 2, 3, 4, 0]" "h_ordering (Suc n) = [0, 1, 2, 3, 4]"
proof -
  have o: "h_ordering n = map (\<lambda>i. (i + 4 * (n mod 5)) mod 5) [0..<5]" for n
    unfolding h_ordering_def by (intro map_cong refl) (metis mod_add_right_eq mod_mult_right_eq)
  have u: "[0..<5] = [0, 1, 2, 3, 4]" by code_simp
  consider "n mod 5 = 0" | "n mod 5 = 1" | "n mod 5 = 2" | "n mod 5 = 3" | "n mod 5 = 4" by force
  then show ?thesis
    by cases (use that in \<open>simp_all add: o [of n] o [of "Suc n"] u mod_Suc\<close>)
qed

lemma five: "length xs = 5 \<Longrightarrow> \<exists>a b c d e. xs = [a, b, c, d, e]"
  by (auto simp: numeral_eq_Suc length_Suc_conv)

lemma update_five:
  "[a, b, c, d, e][4 := x] = [a, b, c, d, x]" "[a, b, c, d, e][3 := x] = [a, b, c, x, e]" "[a, b, c, d, e][2 := x] = [a, b, x, d, e]"
  "[a, b, c, d, e][Suc 0 := x] = [a, x, c, d, e]" "[a, b, c, d, e][1 := x] = [a, x, c, d, e]" "[a, b, c, d, e][0 := x] = [x, b, c, d, e]"
  by (simp_all add: numeral_eq_Suc)

lemma call_step:
  assumes "length bb = 5"
  shows "rmd_view (Suc n) (rmd_call k add w n c bb) = ref_step add (rmd_f k) (w ! fst c) (snd c) (rmd_view n bb) \<and>
    length (rmd_call k add w n c bb) = 5"
proof -
  obtain b0 b1 b2 b3 b4 where bb: "bb = [b0, b1, b2, b3, b4]" using five [OF assms] by blast
  show ?thesis unfolding bb rmd_view_def rmd_call_def rmd_round_def Let_def
    by (cases n rule: ordering_cases) (simp_all add: update_five)
qed

lemma fold_calls:
  assumes "length bb = 5"
  shows "rmd_view n (fold (\<lambda>n. rmd_call (k n) (add n) w n (c n)) [0..<n] bb) =
      fold (\<lambda>n. ref_step (add n) (rmd_f (k n)) (w ! fst (c n)) (snd (c n))) [0..<n] (rmd_view 0 bb) \<and>
    length (fold (\<lambda>n. rmd_call (k n) (add n) w n (c n)) [0..<n] bb) = 5"
  using assms by (induction n) (simp_all add: call_step)


lemma view_start: "length h = 5 \<Longrightarrow> regs_list (rmd_view 0 h) = h"
  using five by (fastforce simp: rmd_view_def h_ordering_def)

lemma view_end: "length h = 5 \<Longrightarrow> regs_list (rmd_view 80 h) = h"
  using five by (fastforce simp: rmd_view_def h_ordering_def)

lemma fold_ext_set: "(\<And>x. x \<in> set xs \<Longrightarrow> f x = g x) \<Longrightarrow> fold f xs s = fold g xs s"
  by (induction xs arbitrary: s) simp_all

lemma line_ref: "length h = 5 \<Longrightarrow> rmd_line w h = regs_list (ref_line w (rmd_view 0 h))"
proof -
  assume h: "length h = 5"
  let ?k = "\<lambda>n. n div 16 + 1" and ?add = "\<lambda>n. rmd_add (n div 16 + 1)" and ?c = "\<lambda>n. rmd_calls ! n"
  have l: "length (rmd_line w h) = 5" using fold_calls [OF h, of 80 ?k ?add w ?c] unfolding rmd_line_def by blast
  have "rmd_view 80 (rmd_line w h) = fold (\<lambda>n. ref_step (?add n) (rmd_f (?k n)) (w ! fst (?c n)) (snd (?c n))) [0..<80] (rmd_view 0 h)"
    using fold_calls [OF h, of 80 ?k ?add w ?c] unfolding rmd_line_def by blast
  also have "\<dots> = ref_line w (rmd_view 0 h)"
    unfolding ref_line_def by (rule fold_ext_set) (simp add: calls_ref)
  finally show ?thesis using view_end [OF l] by simp
qed

lemma par_line_ref: "length h = 5 \<Longrightarrow> rmd_par_line w h = regs_list (ref_par_line w (rmd_view 0 h))"
proof -
  assume h: "length h = 5"
  let ?k = "\<lambda>n. 5 - n div 16" and ?add = "\<lambda>n. rmd_par_add (n div 16 + 1)" and ?c = "\<lambda>n. rmd_par_calls ! n"
  have l: "length (rmd_par_line w h) = 5" using fold_calls [OF h, of 80 ?k ?add w ?c] unfolding rmd_par_line_def by blast
  have "rmd_view 80 (rmd_par_line w h) = fold (\<lambda>n. ref_step (?add n) (rmd_f (?k n)) (w ! fst (?c n)) (snd (?c n))) [0..<80] (rmd_view 0 h)"
    using fold_calls [OF h, of 80 ?k ?add w ?c] unfolding rmd_par_line_def by blast
  also have "\<dots> = ref_par_line w (rmd_view 0 h)"
    unfolding ref_par_line_def by (rule fold_ext_set) (simp add: par_calls_ref)
  finally show ?thesis using view_end [OF l] by simp
qed

lemma block_ref: "rmd_process_block (regs_list r) b = regs_list (ref_block r (words_le b))"
proof -
  obtain h0 h1 h2 h3 h4 where r: "r = (h0, h1, h2, h3, h4)" by (cases r)
  have h: "length (regs_list r) = 5" by (simp add: r)
  have v: "rmd_view 0 (regs_list r) = r" by (simp add: r rmd_view_def h_ordering_def)
  obtain a b' c d e where x: "ref_line (words_le b) r = (a, b', c, d, e)" by (cases "ref_line (words_le b) r")
  obtain a' b'' c' d' e' where y: "ref_par_line (words_le b) r = (a', b'', c', d', e')" by (cases "ref_par_line (words_le b) r")
  show ?thesis
    unfolding rmd_process_block_def Let_def line_ref [OF h] par_line_ref [OF h] v x y ref_block_def
    by (simp add: r algebra_simps)
qed

function ref_absorb :: "rmd_regs \<Rightarrow> bytes \<Rightarrow> rmd_regs" where
  "ref_absorb st m = (if length m < 64 then st else ref_absorb (ref_block st (words_le (take 64 m))) (drop 64 m))"
  by pat_completeness auto
termination
  by (relation "measure (\<lambda>(st, m). length m)") auto

declare ref_absorb.simps [simp del]

lemma absorb_ref: "absorb_blocks 64 rmd_process_block (regs_list st) m = regs_list (ref_absorb st m)"
proof (induction st m rule: ref_absorb.induct)
  case (1 st m)
  then show ?case by (simp add: absorb_blocks.simps [of 64 _ _ m] ref_absorb.simps [of st m] block_ref)
qed

section \<open>Properties\<close>

text \<open>RIPEMD-160: whatever the message, the result is the little-endian chaining value after absorbing the padded
  message block by block with the published block function, whose two lines are given by permutations; HASH160 is
  RIPEMD-160 of SHA-256, and both give twenty bytes.\<close>

theorem ripemd160_is_reference:
  "ripemd160_hash m = concat (map to_le_bytes (regs_list
     (ref_absorb (0x67452301, 0xefcdab89, 0x98badcfe, 0x10325476, 0xc3d2e1f0) (m @ rmd_pad (length m))))) \<and>
   hash160_hash m = ripemd160_hash (sha256_hash m) \<and> length (hash160_hash m) = 20"
proof -
  let ?h = "(0x67452301, 0xefcdab89, 0x98badcfe, 0x10325476, 0xc3d2e1f0) :: rmd_regs"
  have "rmd_H0 = regs_list ?h" by (simp add: rmd_H0_def)
  then show ?thesis using absorb_ref [of ?h "m @ rmd_pad (length m)"] ripemd160_eq [of m] hash160_eq [of m] by simp
qed

end
