(* ===== verification/Address.thy ===== *)
theory Address
  imports Base58 ScriptUse Ripemd160
begin

text \<open>
  Dogecoin addresses, \<open>dogecoin/address/mod.rs\<close>: the two payloads, their text form in base58check, parsing, the check of the
  network, and the translation from and to output scripts. The marker type that records whether the network was
  checked has no run-time content; parsing gives an address to be checked and \<open>require_network\<close> checks it. Public keys are
  objects of secp256k1: where one is used, its serializations are the arguments.
\<close>

section \<open>Definitions\<close>

definition PUBKEY_ADDRESS_PREFIX_MAINNET :: u8 where "PUBKEY_ADDRESS_PREFIX_MAINNET = 0x1e"
definition PUBKEY_ADDRESS_PREFIX_TESTNET :: u8 where "PUBKEY_ADDRESS_PREFIX_TESTNET = 0x71"
definition PUBKEY_ADDRESS_PREFIX_REGTEST :: u8 where "PUBKEY_ADDRESS_PREFIX_REGTEST = 0x6f"
definition SCRIPT_ADDRESS_PREFIX_MAINNET :: u8 where "SCRIPT_ADDRESS_PREFIX_MAINNET = 0x16"
definition SCRIPT_ADDRESS_PREFIX_TESTNET :: u8 where "SCRIPT_ADDRESS_PREFIX_TESTNET = 0xc4"
definition SCRIPT_ADDRESS_PREFIX_REGTEST :: u8 where "SCRIPT_ADDRESS_PREFIX_REGTEST = 0xc4"

lemmas address_prefixes = PUBKEY_ADDRESS_PREFIX_MAINNET_def PUBKEY_ADDRESS_PREFIX_TESTNET_def PUBKEY_ADDRESS_PREFIX_REGTEST_def
  SCRIPT_ADDRESS_PREFIX_MAINNET_def SCRIPT_ADDRESS_PREFIX_TESTNET_def SCRIPT_ADDRESS_PREFIX_REGTEST_def

datatype AddressInner = P2pkh (payload_as_bytes: bytes) (addr_network: DogeNetwork) | P2sh (payload_as_bytes: bytes) (addr_network: DogeNetwork)

datatype AddressData = P2pkhData (pubkey_hash_data: bytes) | P2shData (script_hash_data: bytes)

datatype AddressType = P2pkhType | P2shType | P2wpkhType | P2wshType | P2trType | P2aType

datatype P2shError = ExcessiveScriptSize

datatype FromScriptError = UnrecognizedScript | WitnessProgramErr WitnessProgramError | WitnessVersionErr u8

datatype AddressParseError =
  ParseBase58 Base58Error | LegacyAddressTooLong nat | InvalidBase58PayloadLength nat | InvalidLegacyPrefix u8 |
  NetworkValidation DogeNetwork AddressInner

fun address_to_string :: "AddressInner \<Rightarrow> bytes" where
  "address_to_string (P2pkh hash net) =
     (let prefix = (case net of Dogecoin \<Rightarrow> PUBKEY_ADDRESS_PREFIX_MAINNET | DogeTestnet \<Rightarrow> PUBKEY_ADDRESS_PREFIX_TESTNET
                    | DogeRegtest \<Rightarrow> PUBKEY_ADDRESS_PREFIX_REGTEST)
      in encode_check_to_fmt (prefix # hash))"
| "address_to_string (P2sh hash net) =
     (let prefix = (case net of Dogecoin \<Rightarrow> SCRIPT_ADDRESS_PREFIX_MAINNET | DogeTestnet \<Rightarrow> SCRIPT_ADDRESS_PREFIX_TESTNET
                    | DogeRegtest \<Rightarrow> SCRIPT_ADDRESS_PREFIX_REGTEST)
      in encode_check_to_fmt (prefix # hash))"

definition address_p2pkh :: "bytes \<Rightarrow> DogeNetwork \<Rightarrow> AddressInner" where
  "address_p2pkh hash net = P2pkh hash net"

definition p2sh_from_hash :: "bytes \<Rightarrow> DogeNetwork \<Rightarrow> AddressInner" where
  "p2sh_from_hash hash net = P2sh hash net"

definition MAX_SCRIPT_ELEMENT_SIZE :: nat where "MAX_SCRIPT_ELEMENT_SIZE = 520"

definition address_p2sh :: "bytes \<Rightarrow> DogeNetwork \<Rightarrow> P2shError + AddressInner" where
  "address_p2sh script net =
     (if length script > MAX_SCRIPT_ELEMENT_SIZE then Inl ExcessiveScriptSize
      else Inr (p2sh_from_hash (hash160_hash script) net))"

fun address_type :: "AddressInner \<Rightarrow> AddressType option" where
  "address_type (P2pkh _ _) = Some P2pkhType"
| "address_type (P2sh _ _) = Some P2shType"

fun to_address_data :: "AddressInner \<Rightarrow> AddressData" where
  "to_address_data (P2pkh hash _) = P2pkhData hash"
| "to_address_data (P2sh hash _) = P2shData hash"

fun address_pubkey_hash :: "AddressInner \<Rightarrow> bytes option" where
  "address_pubkey_hash (P2pkh hash _) = Some hash"
| "address_pubkey_hash (P2sh _ _) = None"

fun address_script_hash :: "AddressInner \<Rightarrow> bytes option" where
  "address_script_hash (P2sh hash _) = Some hash"
| "address_script_hash (P2pkh _ _) = None"

definition from_script :: "bytes \<Rightarrow> DogeNetwork \<Rightarrow> FromScriptError + AddressInner" where
  "from_script script net =
     (if is_p2pkh script then Inr (address_p2pkh (take 20 (drop 3 script)) net)
      else if is_p2sh script then Inr (p2sh_from_hash (take 20 (drop 2 script)) net)
      else Inl UnrecognizedScript)"

fun address_script_pubkey :: "AddressInner \<Rightarrow> bytes option" where
  "address_script_pubkey (P2pkh hash _) = new_p2pkh hash"
| "address_script_pubkey (P2sh hash _) = new_p2sh hash"

text \<open>The key is given by its serialization, which is hashed, and by the serialization of its x coordinate.\<close>

definition is_related_to_pubkey :: "AddressInner \<Rightarrow> bytes \<Rightarrow> bytes \<Rightarrow> bool" where
  "is_related_to_pubkey a pubkey xonly \<longleftrightarrow> hash160_hash pubkey = payload_as_bytes a \<or> xonly = payload_as_bytes a"

fun matches_script_pubkey :: "AddressInner \<Rightarrow> bytes \<Rightarrow> bool" where
  "matches_script_pubkey (P2pkh hash _) script = (if is_p2pkh script then take 20 (drop 3 script) = hash else False)"
| "matches_script_pubkey (P2sh hash _) script = (if is_p2sh script then take 20 (drop 2 script) = hash else False)"

fun is_valid_for_network :: "AddressInner \<Rightarrow> DogeNetwork \<Rightarrow> bool" where
  "is_valid_for_network (P2pkh _ net) n = (net = n)"
| "is_valid_for_network (P2sh _ Dogecoin) n = (n = Dogecoin)"
| "is_valid_for_network (P2sh _ DogeTestnet) n = (n = DogeTestnet \<or> n = DogeRegtest)"
| "is_valid_for_network (P2sh _ DogeRegtest) n = (n = DogeTestnet \<or> n = DogeRegtest)"

definition require_network :: "AddressInner \<Rightarrow> DogeNetwork \<Rightarrow> AddressParseError + AddressInner" where
  "require_network a required = (if is_valid_for_network a required then Inr a else Inl (NetworkValidation required a))"

definition address_from_str :: "bytes \<Rightarrow> (AddressParseError + AddressInner) option" where
  "address_from_str s =
     (if length s > 50 then Some (Inl (LegacyAddressTooLong (length s)))
      else (case decode_check s of
              None \<Rightarrow> None
            | Some (Inl e) \<Rightarrow> Some (Inl (ParseBase58 e))
            | Some (Inr data) \<Rightarrow>
                if length data \<noteq> 21 then Some (Inl (InvalidBase58PayloadLength (length s)))
                else (case data of
                        [] \<Rightarrow> None
                      | prefix # hash \<Rightarrow>
                          Some (if prefix = PUBKEY_ADDRESS_PREFIX_MAINNET then Inr (P2pkh hash Dogecoin)
                                else if prefix = PUBKEY_ADDRESS_PREFIX_TESTNET then Inr (P2pkh hash DogeTestnet)
                                else if prefix = PUBKEY_ADDRESS_PREFIX_REGTEST then Inr (P2pkh hash DogeRegtest)
                                else if prefix = SCRIPT_ADDRESS_PREFIX_MAINNET then Inr (P2sh hash Dogecoin)
                                else if prefix = SCRIPT_ADDRESS_PREFIX_TESTNET then Inr (P2sh hash DogeTestnet)
                                else Inl (InvalidLegacyPrefix prefix)))))"

section \<open>Text and scripts\<close>

text \<open>Payloads have twenty bytes. Script addresses of the two test networks have the same text.\<close>

definition address_ok :: "AddressInner \<Rightarrow> bool" where "address_ok a \<longleftrightarrow> length (payload_as_bytes a) = 20"

fun as_parsed :: "AddressInner \<Rightarrow> AddressInner" where
  "as_parsed (P2sh h DogeRegtest) = P2sh h DogeTestnet"
| "as_parsed a = a"

fun address_prefix :: "AddressInner \<Rightarrow> u8" where
  "address_prefix (P2pkh _ net) = (case net of Dogecoin \<Rightarrow> 0x1e | DogeTestnet \<Rightarrow> 0x71 | DogeRegtest \<Rightarrow> 0x6f)"
| "address_prefix (P2sh _ net) = (case net of Dogecoin \<Rightarrow> 0x16 | DogeTestnet \<Rightarrow> 0xc4 | DogeRegtest \<Rightarrow> 0xc4)"

lemma to_fmt_eq: "encode_check_to_fmt d = encode_check d"
  by (simp add: encode_check_to_fmt_def encode_check_def)

lemma to_string_eq: "address_to_string a = encode_check (address_prefix a # payload_as_bytes a)"
  by (cases a; cases "addr_network a") (auto simp: to_fmt_eq address_prefixes)

lemma length_to_string: "address_ok a \<Longrightarrow> length (address_to_string a) \<le> 50"
  using length_format [of "(address_prefix a # payload_as_bytes a) @ take 4 (sha256d_hash (address_prefix a # payload_as_bytes a))"]
  by (simp add: to_string_eq encode_check_def address_ok_def)

lemma from_str_total: "address_from_str s \<noteq> None"
  using decode_total [of s] by (auto simp: address_from_str_def decode_check_def split: option.splits sum.splits list.splits)

lemma from_str_iff:
  "address_from_str s = Some (Inr a) \<longleftrightarrow> address_ok a \<and> s = address_to_string a \<and> as_parsed a = a"
proof
  assume a: "address_from_str s = Some (Inr a)"
  then obtain p h where d: "decode_check s = Some (Inr (p # h))" "length h = 20"
    by (auto simp: address_from_str_def split: if_splits option.splits sum.splits list.splits)
  then have "a = P2pkh h Dogecoin \<and> p = 0x1e \<or> a = P2pkh h DogeTestnet \<and> p = 0x71 \<or> a = P2pkh h DogeRegtest \<and> p = 0x6f \<or>
      a = P2sh h Dogecoin \<and> p = 0x16 \<or> a = P2sh h DogeTestnet \<and> p = 0xc4"
    using a by (auto simp: address_from_str_def address_prefixes split: if_splits)
  then have "address_prefix a = p" "payload_as_bytes a = h" "as_parsed a = a" by auto
  then show "address_ok a \<and> s = address_to_string a \<and> as_parsed a = a"
    using d decode_check_iff by (simp add: address_ok_def to_string_eq)
next
  assume a: "address_ok a \<and> s = address_to_string a \<and> as_parsed a = a"
  then have "decode_check s = Some (Inr (address_prefix a # payload_as_bytes a))"
    by (simp add: decode_check_iff to_string_eq)
  then show "address_from_str s = Some (Inr a)" using a length_to_string [of a]
    by (cases a; cases "addr_network a") (auto simp: address_from_str_def address_ok_def address_prefixes)
qed

lemma as_parsed_same: "address_to_string (as_parsed a) = address_to_string a" "as_parsed (as_parsed a) = as_parsed a"
  "address_ok (as_parsed a) = address_ok a"
  by (cases a rule: as_parsed.cases; simp add: to_string_eq address_ok_def)+

lemma p2pkh_slice: "is_p2pkh s \<Longrightarrow> length (take 20 (drop 3 s)) = 20 \<and> new_p2pkh (take 20 (drop 3 s)) = Some s"
proof -
  assume "is_p2pkh s"
  then obtain h where "length h = 20" "new_p2pkh h = Some s" using is_p2pkh_iff by blast
  then show ?thesis using p2pkh_bytes [of h] by auto
qed

lemma p2sh_slice: "is_p2sh s \<Longrightarrow> length (take 20 (drop 2 s)) = 20 \<and> new_p2sh (take 20 (drop 2 s)) = Some s"
proof -
  assume "is_p2sh s"
  then obtain h where "length h = 20" "new_p2sh h = Some s" using is_p2sh_iff by blast
  then show ?thesis using p2sh_bytes [of h] by auto
qed

lemma pubkey_slices:
  "length h = 20 \<Longrightarrow> new_p2pkh h = Some s \<Longrightarrow> is_p2pkh s \<and> \<not> is_p2sh s \<and> take 20 (drop 3 s) = h"
  "length h = 20 \<Longrightarrow> new_p2sh h = Some s \<Longrightarrow> is_p2sh s \<and> \<not> is_p2pkh s \<and> take 20 (drop 2 s) = h"
  using p2pkh_bytes [of h] p2sh_bytes [of h] by (auto simp: is_p2pkh_def is_p2sh_def nth_append)

section \<open>Properties\<close>

text \<open>(C9) Text of addresses: printing and parsing gives the address back, except that a script address of the regression
  test network comes back as one of the test network, whose text is the same; every string that parses is the text of
  the result, and parsing never panics.\<close>

theorem address_text_exact:
  "(address_ok a \<longrightarrow> address_from_str (address_to_string a) = Some (Inr (as_parsed a))) \<and>
   (address_from_str s = Some (Inr a) \<longrightarrow> address_ok a \<and> address_to_string a = s) \<and>
   address_from_str s \<noteq> None"
  using from_str_iff [of s a] from_str_iff [of "address_to_string a" "as_parsed a"] as_parsed_same [of a] from_str_total [of s]
  by auto

theorem address_text_exact_witness:
  "address_ok (P2sh (replicate 20 7) DogeRegtest) \<and>
   address_from_str (address_to_string (P2sh (replicate 20 7) DogeRegtest)) = Some (Inr (P2sh (replicate 20 7) DogeTestnet))"
  using address_text_exact [of "P2sh (replicate 20 7) DogeRegtest"] by (simp add: address_ok_def)

text \<open>(C32) Addresses and output scripts: the address of a script is the one whose script it is, and it matches exactly
  that script.\<close>

theorem address_script_exact:
  assumes "address_ok a"
  shows "(from_script s n = Inr a \<longleftrightarrow> address_script_pubkey a = Some s \<and> addr_network a = n) \<and>
    (matches_script_pubkey a s \<longleftrightarrow> address_script_pubkey a = Some s)"
  using assms p2pkh_slice [of s] p2sh_slice [of s] pubkey_slices [of "payload_as_bytes a" s]
  by (cases a) (auto simp: from_script_def address_p2pkh_def p2sh_from_hash_def address_ok_def split: if_splits)

theorem address_script_exact_witness:
  "matches_script_pubkey (P2pkh (replicate 20 7) Dogecoin) ([0x76, 0xa9, 0x14] @ replicate 20 7 @ [0x88, 0xac])"
proof -
  have "address_ok (P2pkh (replicate 20 7) Dogecoin)" by (simp add: address_ok_def)
  from address_script_exact [OF this] show ?thesis using p2pkh_bytes [of "replicate 20 7"] by simp
qed

text \<open>(C11) Network check: a printed address, parsed and required on a network, is accepted exactly on its own network, and
  for script addresses of the two test networks on both; the main network never accepts an address of a test network.\<close>

theorem address_network_safe:
  assumes "address_ok a"
  shows "(\<exists>b. address_from_str (address_to_string a) = Some (Inr b) \<and>
      (require_network b n = Inr b \<longleftrightarrow>
         n = addr_network a \<or> (\<exists>h. a = P2sh h (addr_network a)) \<and> n \<noteq> Dogecoin \<and> addr_network a \<noteq> Dogecoin))"
proof -
  have "address_from_str (address_to_string a) = Some (Inr (as_parsed a))"
    using from_str_iff [of "address_to_string a" "as_parsed a"] as_parsed_same [of a] assms by simp
  moreover have "require_network (as_parsed a) n = Inr (as_parsed a) \<longleftrightarrow>
      n = addr_network a \<or> (\<exists>h. a = P2sh h (addr_network a)) \<and> n \<noteq> Dogecoin \<and> addr_network a \<noteq> Dogecoin"
    by (cases a; cases "addr_network a"; cases n) (auto simp: require_network_def)
  ultimately show ?thesis by blast
qed

theorem address_network_safe_witness:
  "\<exists>b. address_from_str (address_to_string (P2pkh (replicate 20 7) DogeTestnet)) = Some (Inr b) \<and> require_network b Dogecoin \<noteq> Inr b"
  using address_network_safe [of "P2pkh (replicate 20 7) DogeTestnet" Dogecoin] by (auto simp: address_ok_def)

end
