(* ===== verification/Genesis.thy ===== *)
theory Genesis
  imports DogeBlock ScriptUse
begin

text \<open>
  The genesis blocks of \<open>dogecoin/constants.rs\<close> and \<open>blockdata/constants.rs\<close>. Their scripts are made by the builder, which is
  why they are optional values: a push that does not fit would panic. String literals are read as ASCII bytes.
\<close>

section \<open>Definitions\<close>

definition DOGE_GENESIS_OUTPUT_PK :: bytes where
  "DOGE_GENESIS_OUTPUT_PK =
     [0x04, 0x01, 0x84, 0x71, 0x0f, 0xa6, 0x89, 0xad, 0x50, 0x23, 0x69, 0x0c, 0x80,
      0xf3, 0xa4, 0x9c, 0x8f, 0x13, 0xf8, 0xd4, 0x5b, 0x8c, 0x85, 0x7f, 0xbc, 0xbc,
      0x8b, 0xc4, 0xa8, 0xe4, 0xd3, 0xeb, 0x4b, 0x10, 0xf4, 0xd4, 0x60, 0x4f, 0xa0,
      0x8d, 0xce, 0x60, 0x1a, 0xaf, 0x0f, 0x47, 0x02, 0x16, 0xfe, 0x1b, 0x51, 0x85,
      0x0b, 0x4a, 0xcf, 0x21, 0xb1, 0x79, 0xc4, 0x50, 0x70, 0xac, 0x7b, 0x03, 0xa9]"

definition GENESIS_OUTPUT_PK :: bytes where
  "GENESIS_OUTPUT_PK =
     [0x04, 0x67, 0x8a, 0xfd, 0xb0, 0xfe, 0x55, 0x48, 0x27, 0x19, 0x67, 0xf1, 0xa6,
      0x71, 0x30, 0xb7, 0x10, 0x5c, 0xd6, 0xa8, 0x28, 0xe0, 0x39, 0x09, 0xa6, 0x79,
      0x62, 0xe0, 0xea, 0x1f, 0x61, 0xde, 0xb6, 0x49, 0xf6, 0xbc, 0x3f, 0x4c, 0xef,
      0x38, 0xc4, 0xf3, 0x55, 0x04, 0xe5, 0x1e, 0xc1, 0x12, 0xde, 0x5c, 0x38, 0x4d,
      0xf7, 0xba, 0x0b, 0x8d, 0x57, 0x8a, 0x4c, 0x70, 0x2b, 0x6b, 0xf1, 0x1d, 0x5f]"

definition TESTNET4_GENESIS_OUTPUT_PK :: bytes where "TESTNET4_GENESIS_OUTPUT_PK = replicate 33 0"

text \<open>The two scripts, for a message and a public key.\<close>

definition genesis_in_script :: "bytes \<Rightarrow> bytes option" where
  "genesis_in_script msg =
     Option.bind (push_int 486604799 builder_new) (\<lambda>b.
     Option.bind (push_int_non_minimal 4 b) (\<lambda>b. map_option b_script (builder_push_slice msg b)))"

definition genesis_out_script :: "bytes \<Rightarrow> bytes option" where
  "genesis_out_script pk = map_option (\<lambda>b. b_script (push_opcode OP_CHECKSIG b)) (builder_push_slice pk builder_new)"

definition genesis_tx :: "bytes option \<Rightarrow> bytes option \<Rightarrow> u64 \<Rightarrow> Transaction option" where
  "genesis_tx in_script out_script v =
     (case (in_script, out_script) of
        (Some i, Some out) \<Rightarrow>
          Some \<lparr> tx_version = Version 1, lock_time = Blocks (Height 0),
                 tx_input = [\<lparr> previous_output = outpoint_null, script_sig = i, sequence = seq_MAX, witness = witness_new \<rparr>],
                 tx_output = [\<lparr> txout_value = v, script_pubkey = out \<rparr>] \<rparr>
      | _ \<Rightarrow> None)"

definition dogecoin_genesis_tx :: "Transaction option" where
  "dogecoin_genesis_tx =
     genesis_tx (genesis_in_script (ascii ''Nintondo'')) (genesis_out_script DOGE_GENESIS_OUTPUT_PK) (88 * 100000000)"

definition bitcoin_genesis_tx :: "BtcNetwork \<Rightarrow> Transaction option" where
  "bitcoin_genesis_tx n =
     (case n of
        Testnet4 \<Rightarrow>
          genesis_tx (genesis_in_script (ascii ''03/May/2024 000000000000000000001ebd58c244970b3aa9d783bb001011fbe8ea8e98e00e''))
            (genesis_out_script TESTNET4_GENESIS_OUTPUT_PK) (50 * 100000000)
      | _ \<Rightarrow>
          genesis_tx (genesis_in_script (ascii ''The Times 03/Jan/2009 Chancellor on brink of second bailout for banks''))
            (genesis_out_script GENESIS_OUTPUT_PK) (50 * 100000000))"

definition genesis_header :: "Transaction \<Rightarrow> u32 \<Rightarrow> u32 \<Rightarrow> u32 \<Rightarrow> Header" where
  "genesis_header tx t bits nonce =
     \<lparr> hdr_version = bversion_ONE, prev_blockhash = replicate 32 0, hdr_merkle_root = compute_txid tx, hdr_time = t,
       hdr_bits = CompactTarget bits, hdr_nonce = nonce \<rparr>"

definition doge_genesis_block :: "DogeNetwork \<Rightarrow> DogeBlock option" where
  "doge_genesis_block n =
     map_option (\<lambda>tx.
       \<lparr> doge_header = doge_from_pure
           (case n of Dogecoin \<Rightarrow> genesis_header tx 1386325540 0x1e0ffff0 99943
            | DogeTestnet \<Rightarrow> genesis_header tx 1391503289 0x1e0ffff0 997879
            | DogeRegtest \<Rightarrow> genesis_header tx 1296688602 0x207fffff 2),
         doge_txdata = [tx] \<rparr>) dogecoin_genesis_tx"

definition genesis_block :: "BtcNetwork \<Rightarrow> Block option" where
  "genesis_block n =
     map_option (\<lambda>tx.
       \<lparr> blk_header =
           (case n of Bitcoin \<Rightarrow> genesis_header tx 1231006505 0x1d00ffff 2083236893
            | BtcTestnet \<Rightarrow> genesis_header tx 1296688602 0x1d00ffff 414098458
            | Testnet4 \<Rightarrow> genesis_header tx 1714777860 0x1d00ffff 393743547
            | Signet \<Rightarrow> genesis_header tx 1598918400 0x1e0377ae 52613770
            | BtcRegtest \<Rightarrow> genesis_header tx 1296688602 0x207fffff 2),
         txdata = [tx] \<rparr>) (bitcoin_genesis_tx n)"

section \<open>The scripts\<close>

lemma push_slice_bytes:
  "length d < 2 ^ 32 \<Longrightarrow> builder_push_slice d b = Some \<lparr> b_script = b_script b @ push_header (length d) @ d, b_last = None \<rparr>"
  by (simp add: builder_push_slice_def script_push_slice_def push_slice_eq)

lemma in_script_bytes:
  assumes "length msg < 2 ^ 32"
  shows "genesis_in_script msg = Some ([0x04, 0xff, 0xff, 0x00, 0x1d, 0x01, 0x04] @ push_header (length msg) @ msg)"
proof -
  have w: "write_scriptint 486604799 = Some [0xff, 0xff, 0x00, 0x1d]" "write_scriptint 4 = Some [0x04]"
    by (simp_all add: write_scriptint_def abs_loop.simps)
  show ?thesis using assms
    by (simp add: genesis_in_script_def push_int_def push_int_non_minimal_def w push_slice_bytes builder_new_def push_header_def [of "Suc 0"] push_header_def [of "Suc (Suc (Suc (Suc 0)))"])
qed

lemma out_script_bytes:
  "length pk < 2 ^ 32 \<Longrightarrow> genesis_out_script pk = Some (push_header (length pk) @ pk @ [0xac])"
  by (simp add: genesis_out_script_def push_slice_bytes builder_new_def push_opcode_def script_push_opcode_def)

lemma genesis_tx_ok:
  assumes "length i < 200" "length out < 200"
  shows "\<exists>tx. genesis_tx (Some i) (Some out) v = Some tx \<and> tx_ok tx \<and> is_coinbase tx"
  using assms
  by (simp add: genesis_tx_def tx_ok_def vec_ok_def txin_ok_def txout_ok_def bytes_ok_def outpoint_ok_def outpoint_null_def
      is_coinbase_def outpoint_is_null_def is_block_height_def LOCK_TIME_THRESHOLD_def witness_ok_new)


lemma script_tx:
  assumes "length msg \<le> 100" "length pk \<le> 100"
  shows "\<exists>tx. genesis_tx (genesis_in_script msg) (genesis_out_script pk) v = Some tx \<and> tx_ok tx \<and> is_coinbase tx"
proof -
  have m: "length msg < 2 ^ 32" and p: "length pk < 2 ^ 32" using assms by simp_all
  have h: "length (push_header n) \<le> 5" for n by (simp add: push_header_def)
  have "length ([0x04, 0xff, 0xff, 0x00, 0x1d, 0x01, 0x04] @ push_header (length msg) @ msg) < 200"
      "length (push_header (length pk) @ pk @ [0xac]) < 200"
    using h [of "length msg"] h [of "length pk"] assms by simp_all
  then show ?thesis unfolding in_script_bytes [OF m] out_script_bytes [OF p] by (rule genesis_tx_ok)
qed

lemma doge_tx: "\<exists>tx. dogecoin_genesis_tx = Some tx \<and> tx_ok tx \<and> is_coinbase tx"
  unfolding dogecoin_genesis_tx_def by (rule script_tx) (simp_all add: ascii_def DOGE_GENESIS_OUTPUT_PK_def)

lemma btc_tx: "\<exists>tx. bitcoin_genesis_tx n = Some tx \<and> tx_ok tx \<and> is_coinbase tx"
  unfolding bitcoin_genesis_tx_def
  by (cases n; simp only: BtcNetwork.simps; rule script_tx; simp add: ascii_def GENESIS_OUTPUT_PK_def TESTNET4_GENESIS_OUTPUT_PK_def)

lemma single_root: "length h = 32 \<Longrightarrow> calculate_root [h] = Some (Some h)"
  by (simp add: calculate_root_eq merkle_root_def)

lemma genesis_header_ok: "header_ok (genesis_header tx t bits nonce)"
  by (simp add: genesis_header_def header_ok_def length_compute_txid)

lemma genesis_targets:
  "target_val (from_compact (CompactTarget 0x1e0ffff0)) = 0xffff0 * 256 ^ 27"
  "target_val (from_compact (CompactTarget 0x207fffff)) = 0x7fffff * 256 ^ 29"
  using from_compact_exact [of "CompactTarget 0x1e0ffff0"] from_compact_exact [of "CompactTarget 0x207fffff"]
  by (simp_all add: compact_exp_def compact_mant_def)


lemma block_of_genesis_tx:
  assumes "tx_ok tx"
  shows "block_ok \<lparr> blk_header = genesis_header tx t bits nonce, txdata = [tx] \<rparr> \<and>
    check_merkle_root \<lparr> blk_header = genesis_header tx t bits nonce, txdata = [tx] \<rparr> = Some True"
  using assms single_root [of "compute_txid tx"]
  by (simp add: block_ok_def vec_ok_def genesis_header_ok check_merkle_root_def blk_compute_merkle_root_def length_compute_txid)
    (simp add: genesis_header_def)

lemma doge_block_of_genesis_tx:
  fixes t bits nonce tx
  defines "b \<equiv> \<lparr> doge_header = doge_from_pure (genesis_header tx t bits nonce), doge_txdata = [tx] \<rparr>"
  assumes "tx_ok tx"
  shows "doge_block_ok b \<and> doge_check_merkle_root b = Some True \<and> is_legacy (pure_header (doge_header b)) \<and>
    hdr_target (pure_header (doge_header b)) = from_compact (CompactTarget bits)"
proof -
  have "\<not> has_auxpow_bit (genesis_header tx t bits nonce)"
    by (simp add: has_auxpow_bit_def genesis_header_def bversion_ONE_def VERSION_AUXPOW_def)
  then have "doge_block_ok b"
    using assms genesis_header_ok by (simp add: b_def doge_block_ok_def doge_header_ok_def doge_from_pure_def vec_ok_def)
  moreover have "doge_check_merkle_root b = Some True"
    using single_root [of "compute_txid tx"]
    by (simp add: b_def doge_check_merkle_root_def doge_compute_merkle_root_def length_compute_txid) (simp add: doge_from_pure_def genesis_header_def)
  moreover have "is_legacy (pure_header (doge_header b))" "hdr_target (pure_header (doge_header b)) = from_compact (CompactTarget bits)"
    by (simp_all add: b_def doge_from_pure_def genesis_header_def is_legacy_def hdr_target_def)
  ultimately show ?thesis by blast
qed

section \<open>Properties\<close>

text \<open>On every network the genesis block exists (no push of its scripts panics), is read back from its
  serialization, holds a single coinbase transaction whose identifier is the merkle root, is a legacy block, and
  has a target within the limit of the network.\<close>

theorem genesis_blocks_valid:
  "(\<exists>b. doge_genesis_block n = Some b \<and> deserialize dec_DogeBlock (serialize enc_DogeBlock b) = Inr b \<and>
      doge_check_merkle_root b = Some True \<and> map is_coinbase (doge_txdata b) = [True] \<and>
      is_legacy (pure_header (doge_header b)) \<and>
      target_val (hdr_target (pure_header (doge_header b))) \<le> target_val (max_attainable_target (doge_params n))) \<and>
   (\<exists>b. genesis_block m = Some b \<and> deserialize dec_Block (serialize enc_Block b) = Inr b \<and>
      check_merkle_root b = Some True \<and> map is_coinbase (txdata b) = [True])"
proof (rule conjI)
  obtain tx where tx: "dogecoin_genesis_tx = Some tx" "tx_ok tx" "is_coinbase tx" using doge_tx by blast
  show "\<exists>b. doge_genesis_block n = Some b \<and> deserialize dec_DogeBlock (serialize enc_DogeBlock b) = Inr b \<and>
      doge_check_merkle_root b = Some True \<and> map is_coinbase (doge_txdata b) = [True] \<and>
      is_legacy (pure_header (doge_header b)) \<and>
      target_val (hdr_target (pure_header (doge_header b))) \<le> target_val (max_attainable_target (doge_params n))"
  proof -
    have "\<exists>t bits nonce. doge_genesis_block n = Some \<lparr> doge_header = doge_from_pure (genesis_header tx t bits nonce), doge_txdata = [tx] \<rparr> \<and>
        target_val (from_compact (CompactTarget bits)) \<le> target_val (max_attainable_target (doge_params n))"
    proof (cases n)
      case Dogecoin
      then show ?thesis by (intro exI [of _ 1386325540] exI [of _ "0x1e0ffff0"] exI [of _ 99943])
        (simp add: doge_genesis_block_def tx(1) genesis_targets max_attainable_val DOGE_MAINNET_def)
    next
      case DogeTestnet
      then show ?thesis by (intro exI [of _ 1391503289] exI [of _ "0x1e0ffff0"] exI [of _ 997879])
        (simp add: doge_genesis_block_def tx(1) genesis_targets max_attainable_val DOGE_TESTNET_def)
    next
      case DogeRegtest
      then show ?thesis by (intro exI [of _ 1296688602] exI [of _ "0x207fffff"] exI [of _ 2])
        (simp add: doge_genesis_block_def tx(1) genesis_targets max_attainable_val DOGE_REGTEST_def)
    qed
    then show ?thesis using doge_block_of_genesis_tx [OF tx(2)] tx(3) by (auto simp: doge_block_codec.deserialize_iff)
  qed
next
  obtain tx where tx: "bitcoin_genesis_tx m = Some tx" "tx_ok tx" "is_coinbase tx" using btc_tx by blast
  show "\<exists>b. genesis_block m = Some b \<and> deserialize dec_Block (serialize enc_Block b) = Inr b \<and>
      check_merkle_root b = Some True \<and> map is_coinbase (txdata b) = [True]"
  proof -
    have "\<exists>t bits nonce. genesis_block m = Some \<lparr> blk_header = genesis_header tx t bits nonce, txdata = [tx] \<rparr>"
      using tx(1) by (cases m) (auto simp: genesis_block_def)
    then show ?thesis using block_of_genesis_tx [OF tx(2)] tx(3) by (auto simp: block_codec.deserialize_iff)
  qed
qed

end
