(* ===== verification/Amount.thy ===== *)
theory Amount
  imports Transaction
begin

text \<open>
  Amounts, \<open>units/src/amount.rs\<close>: denominations, parsing and printing of decimal numbers of a denomination, signed and
  unsigned amounts with their checked arithmetic; and fee rates, \<open>units/src/fee_rate.rs\<close>. Text is a list of ASCII
  characters, for which positions in bytes and in characters agree. A signed amount is an integer; its operations
  write out the range of \<open>i64\<close>. Conversions from and to floating point are not modelled. \<open>oc\<close> tells whether overflow panics.
\<close>

section \<open>Denominations\<close>

datatype Denomination =
  Bitcoin_denom | CentiBitcoin | MilliBitcoin | MicroBitcoin | NanoBitcoin | PicoBitcoin | Bit | Satoshi | MilliSatoshi

fun precision :: "Denomination \<Rightarrow> int" where
  "precision Bitcoin_denom = - 8"
| "precision CentiBitcoin = - 6"
| "precision MilliBitcoin = - 5"
| "precision MicroBitcoin = - 2"
| "precision NanoBitcoin = 1"
| "precision PicoBitcoin = 4"
| "precision Bit = - 2"
| "precision Satoshi = 0"
| "precision MilliSatoshi = 3"

fun denom_as_str :: "Denomination \<Rightarrow> string" where
  "denom_as_str Bitcoin_denom = ''BTC''"
| "denom_as_str CentiBitcoin = ''cBTC''"
| "denom_as_str MilliBitcoin = ''mBTC''"
| "denom_as_str MicroBitcoin = ''uBTC''"
| "denom_as_str NanoBitcoin = ''nBTC''"
| "denom_as_str PicoBitcoin = ''pBTC''"
| "denom_as_str Bit = ''bits''"
| "denom_as_str Satoshi = ''satoshi''"
| "denom_as_str MilliSatoshi = ''msat''"

definition forms :: "string \<Rightarrow> Denomination option" where
  "forms s =
     (if s \<in> {''BTC'', ''btc''} then Some Bitcoin_denom
      else if s \<in> {''cBTC'', ''cbtc''} then Some CentiBitcoin
      else if s \<in> {''mBTC'', ''mbtc''} then Some MilliBitcoin
      else if s \<in> {''uBTC'', ''ubtc''} then Some MicroBitcoin
      else if s \<in> {''nBTC'', ''nbtc''} then Some NanoBitcoin
      else if s \<in> {''pBTC'', ''pbtc''} then Some PicoBitcoin
      else if s \<in> {''bit'', ''bits'', ''BIT'', ''BITS''} then Some Bit
      else if s \<in> {''SATOSHI'', ''satoshi'', ''SATOSHIS'', ''satoshis'', ''SAT'', ''sat'', ''SATS'', ''sats''} then Some Satoshi
      else if s \<in> {''mSAT'', ''msat'', ''mSATs'', ''msats''} then Some MilliSatoshi
      else None)"

definition CONFUSING_FORMS :: "string set" where
  "CONFUSING_FORMS = {''Msat'', ''Msats'', ''MSAT'', ''MSATS'', ''MSat'', ''MSats'', ''MBTC'', ''Mbtc'', ''PBTC''}"

datatype ParseDenominationError = UnknownDenomination string | PossiblyConfusing string

definition denom_from_str :: "string \<Rightarrow> ParseDenominationError + Denomination" where
  "denom_from_str s =
     (if s \<in> CONFUSING_FORMS then Inl (PossiblyConfusing s)
      else (case forms s of Some d \<Rightarrow> Inr d | None \<Rightarrow> Inl (UnknownDenomination s)))"

section \<open>Errors\<close>

datatype OutOfRangeError = OutOfRangeError (oor_is_signed: bool) (oor_greater_than_max: bool)

definition valid_range :: "OutOfRangeError \<Rightarrow> int \<times> int" where
  "valid_range e = (if oor_is_signed e then (- (2 ^ 63), 2 ^ 63 - 1) else (0, 2 ^ 64 - 1))"

definition too_big :: "bool \<Rightarrow> OutOfRangeError" where "too_big is_signed = OutOfRangeError is_signed True"
definition too_small :: OutOfRangeError where "too_small = OutOfRangeError True False"
definition negative_error :: OutOfRangeError where "negative_error = OutOfRangeError False False"

datatype MissingDigitsKind = EmptyInput | OnlyMinusSign

datatype ParseAmountError =
  OutOfRange OutOfRangeError | TooPrecise nat | MissingDigits MissingDigitsKind | InputTooLarge nat | InvalidCharacter char nat

datatype AmountParseError = AmountError ParseAmountError | DenominationError ParseDenominationError | MissingDenomination

datatype InnerParseError =
  InnerOverflow bool | InnerTooPrecise nat | InnerMissingDigits MissingDigitsKind | InnerInputTooLarge nat |
  InnerInvalidCharacter char nat

fun convert :: "InnerParseError \<Rightarrow> bool \<Rightarrow> ParseAmountError" where
  "convert (InnerOverflow is_negative) is_signed = OutOfRange (OutOfRangeError is_signed (\<not> is_negative))"
| "convert (InnerTooPrecise p) is_signed = TooPrecise p"
| "convert (InnerMissingDigits k) is_signed = MissingDigits k"
| "convert (InnerInputTooLarge n) is_signed = InputTooLarge n"
| "convert (InnerInvalidCharacter c p) is_signed = InvalidCharacter c p"

section \<open>Parsing\<close>

text \<open>The position of the first character with a property.\<close>

fun find_char :: "(char \<Rightarrow> bool) \<Rightarrow> string \<Rightarrow> nat option" where
  "find_char P [] = None"
| "find_char P (c # cs) = (if P c then Some 0 else map_option Suc (find_char P cs))"

text \<open>The last position among the last \<open>n\<close> characters of a string of a character other than zero.\<close>

definition last_nonzero :: "nat \<Rightarrow> string \<Rightarrow> nat option" where
  "last_nonzero n s = map_option (\<lambda>k. length s - 1 - k) (find_char (\<lambda>d. d \<noteq> CHR ''0'') (take n (rev s)))"

definition is_too_precise :: "string \<Rightarrow> nat \<Rightarrow> nat option" where
  "is_too_precise s prec =
     (case find_char (\<lambda>c. c = CHR ''.'') s of
        Some p \<Rightarrow>
          if prec \<ge> p then Some 0
          else (case last_nonzero prec (take p s) of
                  Some i \<Rightarrow> Some i
                | None \<Rightarrow> map_option (\<lambda>i. i + p + 1) (find_char (\<lambda>d. d \<noteq> CHR ''0'') (drop (p + 1) s)))
      | None \<Rightarrow> if prec \<ge> length s then Some 0 else last_nonzero prec s)"

definition INPUT_STRING_LEN_LIMIT :: nat where "INPUT_STRING_LEN_LIMIT = 50"

definition is_digit :: "char \<Rightarrow> bool" where "is_digit c \<longleftrightarrow> 48 \<le> (of_char c :: nat) \<and> (of_char c :: nat) \<le> 57"
definition digit_value :: "char \<Rightarrow> nat" where "digit_value c = of_char c - 48"

text \<open>\<open>str::parse::<i64>\<close> of the standard library: an optional sign, at least one digit, no overflow.\<close>

definition i64_from_str :: "string \<Rightarrow> int option" where
  "i64_from_str s =
     (let (neg, ds) = (case s of [] \<Rightarrow> (False, []) | c # cs \<Rightarrow> if c = CHR ''+'' then (False, cs) else if c = CHR ''-'' then (True, cs) else (False, s));
          v = foldl (\<lambda>v c. 10 * v + int (digit_value c)) 0 ds; v = (if neg then - v else v)
      in if ds \<noteq> [] \<and> list_all is_digit ds \<and> i64_range v then Some v else None)"

definition checked_add_u64 :: "u64 \<Rightarrow> u64 \<Rightarrow> u64 option" where
  "checked_add_u64 a b = (if unat a + unat b < 2 ^ 64 then Some (a + b) else None)"

text \<open>The loop over the characters, at position \<open>i\<close>; it gives the value and the number of decimals seen.\<close>

fun parse_loop :: "bool \<Rightarrow> int \<Rightarrow> nat \<Rightarrow> string \<Rightarrow> int option \<Rightarrow> u64 \<Rightarrow> InnerParseError + (u64 \<times> int option)" where
  "parse_loop is_negative max_decimals i [] decimals val = Inr (val, decimals)"
| "parse_loop is_negative max_decimals i (c # cs) decimals val =
     (if is_digit c
      then (case Option.bind (checked_mul_u64 10 val) (\<lambda>v. checked_add_u64 v (word_of_nat (digit_value c))) of
              None \<Rightarrow> Inl (InnerOverflow is_negative)
            | Some val \<Rightarrow>
                (case decimals of
                   None \<Rightarrow> parse_loop is_negative max_decimals (i + 1) cs None val
                 | Some d \<Rightarrow> if d < max_decimals then parse_loop is_negative max_decimals (i + 1) cs (Some (d + 1)) val
                             else Inl (InnerTooPrecise (i + (if is_negative then 1 else 0)))))
      else if c = CHR ''.''
      then (case decimals of
              None \<Rightarrow> if max_decimals \<le> 0 then Inr (val, None) else parse_loop is_negative max_decimals (i + 1) cs (Some 0) val
            | Some _ \<Rightarrow> Inl (InnerInvalidCharacter (CHR ''.'') (i + (if is_negative then 1 else 0))))
      else Inl (InnerInvalidCharacter c (i + (if is_negative then 1 else 0))))"

fun scale_loop :: "nat \<Rightarrow> u64 \<Rightarrow> u64 option" where
  "scale_loop 0 val = Some val"
| "scale_loop (Suc n) val = (case checked_mul_u64 10 val of Some v \<Rightarrow> scale_loop n v | None \<Rightarrow> None)"

definition parse_digits :: "bool \<Rightarrow> int \<Rightarrow> string \<Rightarrow> InnerParseError + (bool \<times> u64)" where
  "parse_digits is_negative max_decimals s =
     (case parse_loop is_negative max_decimals 0 s None 0 of
        Inl e \<Rightarrow> Inl e
      | Inr (val, decimals) \<Rightarrow>
          (let scale_factor = max_decimals - (case decimals of Some d \<Rightarrow> d | None \<Rightarrow> 0)
           in case scale_loop (nat scale_factor) val of
                Some val \<Rightarrow> Inr (is_negative, val)
              | None \<Rightarrow> Inl (InnerOverflow is_negative)))"

definition parse_signed_to_satoshi :: "string \<Rightarrow> Denomination \<Rightarrow> InnerParseError + (bool \<times> u64)" where
  "parse_signed_to_satoshi s denom =
     (if s = [] then Inl (InnerMissingDigits EmptyInput)
      else if length s > INPUT_STRING_LEN_LIMIT then Inl (InnerInputTooLarge (length s))
      else (let is_negative = hd s = CHR ''-''
            in if is_negative \<and> length s = 1 then Inl (InnerMissingDigits OnlyMinusSign)
               else (let s = (if is_negative then tl s else s); precision_diff = - precision denom
                     in if precision_diff \<le> 0
                        then (let last_n = nat \<bar>precision_diff\<bar>
                              in case is_too_precise s last_n of
                                   Some p0 \<Rightarrow>
                                     if i64_from_str s = Some 0 then Inr (is_negative, 0)
                                     else Inl (InnerTooPrecise (p0 + (if is_negative then 1 else 0)))
                                 | None \<Rightarrow>
                                     parse_digits is_negative 0
                                       (take ((case find_char (\<lambda>c. c = CHR ''.'') s of Some p \<Rightarrow> p | None \<Rightarrow> length s) - last_n) s))
                        else parse_digits is_negative precision_diff s)))"

definition is_alphabetic :: "char \<Rightarrow> bool" where
  "is_alphabetic c \<longleftrightarrow> (let n = of_char c :: nat in 65 \<le> n \<and> n \<le> 90 \<or> 97 \<le> n \<and> n \<le> 122)"

definition split_amount_and_denomination :: "string \<Rightarrow> AmountParseError + (string \<times> Denomination)" where
  "split_amount_and_denomination s =
     (case (case find_char (\<lambda>c. c = CHR '' '') s of
              Some i \<Rightarrow> Some (i, i + 1)
            | None \<Rightarrow> map_option (\<lambda>i. (i, i)) (find_char is_alphabetic s)) of
        None \<Rightarrow> Inl MissingDenomination
      | Some (i, j) \<Rightarrow>
          (case denom_from_str (drop j s) of Inl e \<Rightarrow> Inl (DenominationError e) | Inr d \<Rightarrow> Inr (take i s, d)))"

section \<open>Printing\<close>

datatype Alignment = AlignLeft | AlignRight | AlignCenter

record FormatOptions =
  opt_fill :: char
  opt_align :: "Alignment option"
  opt_width :: "nat option"
  opt_precision :: "nat option"
  opt_sign_plus :: bool
  opt_zero_pad :: bool

definition default_options :: FormatOptions where
  "default_options = \<lparr> opt_fill = CHR '' '', opt_align = None, opt_width = None, opt_precision = None,
     opt_sign_plus = False, opt_zero_pad = False \<rparr>"

function dec_width :: "nat \<Rightarrow> nat" where
  "dec_width num = (if num div 10 = 0 then 1 else dec_width (num div 10) + 1)"
  by pat_completeness auto
termination
  by (relation "measure id") (auto simp: div_eq_0_iff)

declare dec_width.simps [simp del]

text \<open>The decimal digits that \<open>{}\<close> prints, and the padding with zeros on the left of \<open>{:0width$}\<close>.\<close>

function show_dec :: "nat \<Rightarrow> string" where
  "show_dec n = (if n < 10 then [char_of (48 + n)] else show_dec (n div 10) @ [char_of (48 + n mod 10)])"
  by pat_completeness auto
termination
  by (relation "measure id") auto

declare show_dec.simps [simp del]

definition show_padded :: "nat \<Rightarrow> nat \<Rightarrow> string" where
  "show_padded width n = replicate (width - length (show_dec n)) (CHR ''0'') @ show_dec n"

text \<open>Removal of the trailing zeros of the part after the decimal point.\<close>

function strip_zeros :: "nat \<Rightarrow> nat \<Rightarrow> nat \<times> nat" where
  "strip_zeros n nb = (if n \<noteq> 0 \<and> n mod 10 = 0 then strip_zeros (n div 10) (nb - 1) else (n, nb))"
  by pat_completeness auto
termination
  by (relation "measure fst") auto

declare strip_zeros.simps [simp del]

text \<open>The normal form: the number before the point, the zeros to append to it, the number after the point, its digits,
  and the zeros to append to those.\<close>

definition normalize :: "nat \<Rightarrow> Denomination \<Rightarrow> nat option \<Rightarrow> nat \<times> nat \<times> nat \<times> nat \<times> nat" where
  "normalize satoshi denom opt_prec =
     (let prec = precision denom; opt = (case opt_prec of Some p \<Rightarrow> p | None \<Rightarrow> 0)
      in if prec > 0 then (satoshi, if satoshi > 0 then nat prec else 0, 0, 0, opt)
         else if prec < 0
         then (let divisor = 10 ^ nat \<bar>prec\<bar>; before = satoshi div divisor; after = satoshi mod divisor;
                   (after, nb) = (if after = 0 then (after, 0) else strip_zeros after (nat \<bar>prec\<bar>))
               in (before, 0, after, nb, opt - nb))
         else (satoshi, 0, 0, 0, opt))"

definition paddings :: "FormatOptions \<Rightarrow> nat \<Rightarrow> nat \<times> nat" where
  "paddings options num_width =
     (let width = (case opt_width options of Some w \<Rightarrow> w | None \<Rightarrow> 0);
          align = (case opt_align options of Some a \<Rightarrow> a | None \<Rightarrow> AlignRight)
      in if \<not> num_width < width then (0, 0)
         else if opt_zero_pad options \<or> align = AlignRight then (width - num_width, 0)
         else if align = AlignLeft then (0, width - num_width)
         else ((width - num_width) div 2, (width - num_width + 1) div 2))"

definition fmt_satoshi_in :: "u64 \<Rightarrow> bool \<Rightarrow> Denomination \<Rightarrow> bool \<Rightarrow> FormatOptions \<Rightarrow> string" where
  "fmt_satoshi_in satoshi negative denom show_denom options =
     (let (before, expo, after, nb, trailing) = normalize (unat satoshi) denom (opt_precision options);
          total_decimals = nb + trailing;
          num_width = (if total_decimals > 0 then 1 + total_decimals else 0) + (dec_width before + expo) +
            (if opt_sign_plus options \<or> negative then 1 else 0) +
            (if show_denom then length (denom_as_str denom) + 1 else 0);
          (left_pad, pad_right) = paddings options num_width
      in (if \<not> opt_zero_pad options then replicate left_pad (opt_fill options) else []) @
         (if negative then ''-'' else if opt_sign_plus options then ''+'' else []) @
         (if opt_zero_pad options then replicate left_pad (CHR ''0'') else []) @
         show_dec before @ replicate expo (CHR ''0'') @
         (if total_decimals > 0 then ''.'' else []) @
         (if nb > 0 then show_padded nb after else []) @
         replicate trailing (CHR ''0'') @
         (if show_denom then CHR '' '' # denom_as_str denom else []) @
         replicate pad_right (opt_fill options))"


section \<open>Unsigned amounts\<close>

datatype Amount = Amount (to_sat: u64)

definition from_int_btc :: "u64 \<Rightarrow> Amount option" where
  "from_int_btc btc = map_option Amount (checked_mul_u64 btc 100000000)"

definition ONE_BTC_SAT :: u64 where "ONE_BTC_SAT = 100000000"

definition amount_from_str_in :: "string \<Rightarrow> Denomination \<Rightarrow> ParseAmountError + Amount" where
  "amount_from_str_in s denom =
     (case parse_signed_to_satoshi s denom of
        Inl e \<Rightarrow> Inl (convert e False)
      | Inr (negative, satoshi) \<Rightarrow> if negative then Inl (OutOfRange negative_error) else Inr (Amount satoshi))"

definition amount_from_str :: "string \<Rightarrow> AmountParseError + Amount" where
  "amount_from_str s =
     (case split_amount_and_denomination s of
        Inl e \<Rightarrow> Inl e
      | Inr (amt, denom) \<Rightarrow> (case amount_from_str_in amt denom of Inl e \<Rightarrow> Inl (AmountError e) | Inr a \<Rightarrow> Inr a))"

definition amount_to_string_in :: "Amount \<Rightarrow> Denomination \<Rightarrow> string" where
  "amount_to_string_in a denom = fmt_satoshi_in (to_sat a) False denom False default_options"

definition amount_to_string_with_denomination :: "Amount \<Rightarrow> Denomination \<Rightarrow> string" where
  "amount_to_string_with_denomination a denom = amount_to_string_in a denom @ CHR '' '' # denom_as_str denom"

definition amount_display :: "Amount \<Rightarrow> FormatOptions \<Rightarrow> string" where
  "amount_display a options =
     (let satoshis = to_sat a;
          options = (if opt_precision options = None \<and> satoshis mod ONE_BTC_SAT \<noteq> 0 then options\<lparr> opt_precision := Some 8 \<rparr> else options)
      in fmt_satoshi_in satoshis False Bitcoin_denom True options)"

definition checked_sub_u64 :: "u64 \<Rightarrow> u64 \<Rightarrow> u64 option" where
  "checked_sub_u64 a b = (if b \<le> a then Some (a - b) else None)"

definition amount_checked_add :: "Amount \<Rightarrow> Amount \<Rightarrow> Amount option" where
  "amount_checked_add a b = map_option Amount (checked_add_u64 (to_sat a) (to_sat b))"
definition amount_checked_sub :: "Amount \<Rightarrow> Amount \<Rightarrow> Amount option" where
  "amount_checked_sub a b = map_option Amount (checked_sub_u64 (to_sat a) (to_sat b))"
definition amount_checked_mul :: "Amount \<Rightarrow> u64 \<Rightarrow> Amount option" where
  "amount_checked_mul a k = map_option Amount (checked_mul_u64 (to_sat a) k)"
definition amount_checked_div :: "Amount \<Rightarrow> u64 \<Rightarrow> Amount option" where
  "amount_checked_div a k = (if k = 0 then None else Some (Amount (to_sat a div k)))"
definition amount_checked_rem :: "Amount \<Rightarrow> u64 \<Rightarrow> Amount option" where
  "amount_checked_rem a k = (if k = 0 then None else Some (Amount (to_sat a mod k)))"

definition amount_unchecked_add :: "bool \<Rightarrow> Amount \<Rightarrow> Amount \<Rightarrow> Amount option" where
  "amount_unchecked_add oc a b =
     (if oc then amount_checked_add a b else Some (Amount (to_sat a + to_sat b)))"
definition amount_unchecked_sub :: "bool \<Rightarrow> Amount \<Rightarrow> Amount \<Rightarrow> Amount option" where
  "amount_unchecked_sub oc a b =
     (if oc then amount_checked_sub a b else Some (Amount (to_sat a - to_sat b)))"

definition amount_checked_sum :: "Amount list \<Rightarrow> Amount option" where
  "amount_checked_sum xs =
     (case xs of
        [] \<Rightarrow> Some (Amount 0)
      | x # xs \<Rightarrow> fold (\<lambda>item acc. Option.bind acc (\<lambda>acc. amount_checked_add acc item)) xs (Some x))"

text \<open>\<open>Sum\<close> adds machine integers: the sum panics or wraps around with the build.\<close>

definition amount_sum :: "bool \<Rightarrow> Amount list \<Rightarrow> Amount option" where
  "amount_sum oc xs = fold (\<lambda>item acc. Option.bind acc (\<lambda>acc. amount_unchecked_add oc acc item)) xs (Some (Amount 0))"

section \<open>Signed amounts\<close>

datatype SignedAmount = SignedAmount (signed_sat: int)

definition amount_to_signed :: "Amount \<Rightarrow> OutOfRangeError + SignedAmount" where
  "amount_to_signed a = (if unat (to_sat a) > 2 ^ 63 - 1 then Inl (too_big True) else Inr (SignedAmount (int (unat (to_sat a)))))"

definition signed_to_unsigned :: "SignedAmount \<Rightarrow> OutOfRangeError + Amount" where
  "signed_to_unsigned a = (if signed_sat a < 0 then Inl negative_error else Inr (Amount (word_of_int (signed_sat a))))"

definition signed_from_str_in :: "string \<Rightarrow> Denomination \<Rightarrow> ParseAmountError + SignedAmount" where
  "signed_from_str_in s denom =
     (case parse_signed_to_satoshi s denom of
        Inl e \<Rightarrow> Inl (convert e True)
      | Inr (negative, sat) \<Rightarrow>
          if \<not> negative then (if unat sat > 2 ^ 63 - 1 then Inl (OutOfRange (too_big True)) else Inr (SignedAmount (int (unat sat))))
          else if unat sat = 2 ^ 63 then Inr (SignedAmount (- (2 ^ 63)))
          else if unat sat > 2 ^ 63 then Inl (OutOfRange too_small)
          else Inr (SignedAmount (- int (unat sat))))"

definition signed_from_str :: "string \<Rightarrow> AmountParseError + SignedAmount" where
  "signed_from_str s =
     (case split_amount_and_denomination s of
        Inl e \<Rightarrow> Inl e
      | Inr (amt, denom) \<Rightarrow> (case signed_from_str_in amt denom of Inl e \<Rightarrow> Inl (AmountError e) | Inr a \<Rightarrow> Inr a))"

definition unsigned_abs :: "SignedAmount \<Rightarrow> Amount" where "unsigned_abs a = Amount (word_of_int \<bar>signed_sat a\<bar>)"

definition signed_to_string_in :: "SignedAmount \<Rightarrow> Denomination \<Rightarrow> string" where
  "signed_to_string_in a denom = fmt_satoshi_in (to_sat (unsigned_abs a)) (signed_sat a < 0) denom False default_options"

definition signed_to_string_with_denomination :: "SignedAmount \<Rightarrow> Denomination \<Rightarrow> string" where
  "signed_to_string_with_denomination a denom = signed_to_string_in a denom @ CHR '' '' # denom_as_str denom"

definition signed_display :: "SignedAmount \<Rightarrow> string" where
  "signed_display a = signed_to_string_in a Bitcoin_denom @ CHR '' '' # denom_as_str Bitcoin_denom"

definition checked_i64 :: "int \<Rightarrow> int option" where "checked_i64 x = (if i64_range x then Some x else None)"

definition signed_checked_add :: "SignedAmount \<Rightarrow> SignedAmount \<Rightarrow> SignedAmount option" where
  "signed_checked_add a b = map_option SignedAmount (checked_i64 (signed_sat a + signed_sat b))"
definition signed_checked_sub :: "SignedAmount \<Rightarrow> SignedAmount \<Rightarrow> SignedAmount option" where
  "signed_checked_sub a b = map_option SignedAmount (checked_i64 (signed_sat a - signed_sat b))"
definition signed_checked_mul :: "SignedAmount \<Rightarrow> int \<Rightarrow> SignedAmount option" where
  "signed_checked_mul a k = map_option SignedAmount (checked_i64 (signed_sat a * k))"
definition signed_checked_div :: "SignedAmount \<Rightarrow> int \<Rightarrow> SignedAmount option" where
  "signed_checked_div a k = (if k = 0 then None else map_option SignedAmount (checked_i64 (quot (signed_sat a) k)))"
definition signed_checked_rem :: "SignedAmount \<Rightarrow> int \<Rightarrow> SignedAmount option" where
  "signed_checked_rem a k =
     (if k = 0 \<or> \<not> i64_range (quot (signed_sat a) k) then None else Some (SignedAmount (signed_sat a - k * quot (signed_sat a) k)))"
definition signed_checked_abs :: "SignedAmount \<Rightarrow> SignedAmount option" where
  "signed_checked_abs a = map_option SignedAmount (checked_i64 \<bar>signed_sat a\<bar>)"

definition signed_neg :: "bool \<Rightarrow> SignedAmount \<Rightarrow> SignedAmount option" where
  "signed_neg oc a = (if oc then map_option SignedAmount (checked_i64 (- signed_sat a)) else Some (SignedAmount (i64_wrap (- signed_sat a))))"
definition signed_abs :: "bool \<Rightarrow> SignedAmount \<Rightarrow> SignedAmount option" where
  "signed_abs oc a = (if oc then signed_checked_abs a else Some (SignedAmount (i64_wrap \<bar>signed_sat a\<bar>)))"
definition signed_unchecked_add :: "bool \<Rightarrow> SignedAmount \<Rightarrow> SignedAmount \<Rightarrow> SignedAmount option" where
  "signed_unchecked_add oc a b =
     (if oc then signed_checked_add a b else Some (SignedAmount (i64_wrap (signed_sat a + signed_sat b))))"
definition signed_unchecked_sub :: "bool \<Rightarrow> SignedAmount \<Rightarrow> SignedAmount \<Rightarrow> SignedAmount option" where
  "signed_unchecked_sub oc a b =
     (if oc then signed_checked_sub a b else Some (SignedAmount (i64_wrap (signed_sat a - signed_sat b))))"

definition signum :: "SignedAmount \<Rightarrow> int" where "signum a = sgn (signed_sat a)"

definition positive_sub :: "SignedAmount \<Rightarrow> SignedAmount \<Rightarrow> SignedAmount option" where
  "positive_sub a b =
     (if signed_sat a < 0 \<or> signed_sat b < 0 \<or> signed_sat b > signed_sat a then None else signed_checked_sub a b)"

definition signed_checked_sum :: "SignedAmount list \<Rightarrow> SignedAmount option" where
  "signed_checked_sum xs =
     (case xs of
        [] \<Rightarrow> Some (SignedAmount 0)
      | x # xs \<Rightarrow> fold (\<lambda>item acc. Option.bind acc (\<lambda>acc. signed_checked_add acc item)) xs (Some x))"

section \<open>Fee rates\<close>

datatype FeeRate = FeeRate (to_sat_per_kwu: u64)

definition from_sat_per_vb :: "u64 \<Rightarrow> FeeRate option" where
  "from_sat_per_vb sat_vb = map_option FeeRate (checked_mul_u64 sat_vb (1000 div 4))"

definition from_sat_per_vb_u32 :: "u32 \<Rightarrow> FeeRate" where
  "from_sat_per_vb_u32 sat_vb = FeeRate (ucast sat_vb * (1000 div 4))"

definition to_sat_per_vb_floor :: "FeeRate \<Rightarrow> u64" where "to_sat_per_vb_floor r = to_sat_per_kwu r div (1000 div 4)"

definition to_sat_per_vb_ceil :: "bool \<Rightarrow> FeeRate \<Rightarrow> u64 option" where
  "to_sat_per_vb_ceil oc r =
     (if oc \<and> unat (to_sat_per_kwu r) + 249 \<ge> 2 ^ 64 then None
      else Some ((to_sat_per_kwu r + (1000 div 4 - 1)) div (1000 div 4)))"

definition feerate_checked_mul :: "FeeRate \<Rightarrow> u64 \<Rightarrow> FeeRate option" where
  "feerate_checked_mul r k = map_option FeeRate (checked_mul_u64 (to_sat_per_kwu r) k)"

definition feerate_checked_div :: "FeeRate \<Rightarrow> u64 \<Rightarrow> FeeRate option" where
  "feerate_checked_div r k = (if k = 0 then None else Some (FeeRate (to_sat_per_kwu r div k)))"

definition checked_mul_by_weight :: "FeeRate \<Rightarrow> Weight \<Rightarrow> Amount option" where
  "checked_mul_by_weight r w =
     map_option (\<lambda>x. Amount (x div 1000)) (Option.bind (checked_mul_u64 (to_sat_per_kwu r) (to_wu w)) (\<lambda>x. checked_add_u64 x 999))"

definition fee_wu :: "FeeRate \<Rightarrow> Weight \<Rightarrow> Amount option" where "fee_wu r w = checked_mul_by_weight r w"

definition fee_vb :: "FeeRate \<Rightarrow> u64 \<Rightarrow> Amount option" where
  "fee_vb r vb = Option.bind (from_vb vb) (\<lambda>w. fee_wu r w)"

section \<open>Decimal digits\<close>

definition dval :: "string \<Rightarrow> nat" where "dval ds = foldl (\<lambda>v c. 10 * v + digit_value c) 0 ds"

lemma dval_foldl: "foldl (\<lambda>v c. 10 * v + digit_value c) v ds = v * 10 ^ length ds + dval ds"
proof (induction ds arbitrary: v)
  case Nil
  show ?case by (simp add: dval_def)
next
  case (Cons c ds)
  show ?case using Cons.IH [of "10 * v + digit_value c"] Cons.IH [of "digit_value c"] by (simp add: dval_def algebra_simps)
qed

lemma dval_Nil [simp]: "dval [] = 0"
  by (simp add: dval_def)

lemma dval_Cons [simp]: "dval (c # ds) = digit_value c * 10 ^ length ds + dval ds"
  using dval_foldl [of "digit_value c" ds] by (simp add: dval_def)

lemma dval_append [simp]: "dval (a @ b) = dval a * 10 ^ length b + dval b"
  by (induction a) (simp_all add: algebra_simps power_add)

lemma digit_lt: "is_digit c \<Longrightarrow> digit_value c < 10"
  by (auto simp: is_digit_def digit_value_def)

lemma dval_lt: "list_all is_digit ds \<Longrightarrow> dval ds < 10 ^ length ds"
proof (induction ds)
  case (Cons c ds)
  then have "digit_value c * 10 ^ length ds \<le> 9 * 10 ^ length ds" using digit_lt [of c] by (intro mult_right_mono) simp_all
  moreover have "dval ds < 10 ^ length ds" using Cons by simp
  ultimately show ?case unfolding dval_Cons length_Cons power_Suc by linarith
qed simp

lemma digit_value_zero: "is_digit c \<Longrightarrow> digit_value c = 0 \<longleftrightarrow> c = CHR ''0''"
proof -
  assume d: "is_digit c"
  have "digit_value c = 0 \<longleftrightarrow> (of_char c :: nat) = of_char (CHR ''0'')" using d by (auto simp: digit_value_def is_digit_def)
  then show ?thesis by (simp only: of_char_eq_iff)
qed

lemma dval_zero: "list_all is_digit ds \<Longrightarrow> dval ds = 0 \<longleftrightarrow> set ds \<subseteq> {CHR ''0''}"
  by (induction ds) (simp_all add: digit_value_zero)

lemma digit_char: "n < 10 \<Longrightarrow> is_digit (char_of (48 + n)) \<and> digit_value (char_of (48 + n)) = n"
  by (simp add: is_digit_def digit_value_def)

lemma show_dec_digits: "list_all is_digit (show_dec n)"
  by (induction n rule: show_dec.induct) (subst show_dec.simps, simp add: digit_char)

lemma dval_show_dec [simp]: "dval (show_dec n) = n"
  by (induction n rule: show_dec.induct) (subst show_dec.simps, simp add: digit_char)

lemma length_show_dec: "length (show_dec n) = dec_width n"
  by (induction n rule: show_dec.induct) (subst show_dec.simps, subst dec_width.simps, auto simp: div_eq_0_iff)

lemma show_dec_nonempty [simp]: "show_dec n \<noteq> []"
  by (subst show_dec.simps) simp

lemma dec_width_le: "n < 10 ^ k \<Longrightarrow> 0 < k \<Longrightarrow> dec_width n \<le> k"
proof (induction k arbitrary: n)
  case (Suc k)
  show ?case
  proof (cases "k = 0")
    case False
    have "n div 10 < 10 ^ k" using Suc.prems by (simp add: less_mult_imp_div_less mult.commute)
    then show ?thesis using Suc.IH [of "n div 10"] False by (subst dec_width.simps) simp
  next
    case True
    then show ?thesis using Suc.prems by (subst dec_width.simps) simp
  qed
qed simp

section \<open>What the parser accepts\<close>

definition push_digit :: "u64 \<Rightarrow> char \<Rightarrow> u64 option" where
  "push_digit val c = Option.bind (checked_mul_u64 10 val) (\<lambda>v. checked_add_u64 v (word_of_nat (digit_value c)))"

lemma u64_bound: "unat (v :: u64) < 2 ^ 64"
  using unat_u64_lt_num [of v] by simp

lemma push_digit_eq:
  assumes "is_digit c"
  shows "push_digit val c = (let n = 10 * unat val + digit_value c in if n < 2 ^ 64 then Some (word_of_nat n) else None)"
proof -
  have d: "unat (word_of_nat (digit_value c) :: u64) = digit_value c" using digit_lt [OF assms] by (simp add: unat_of_nat)
  have m: "unat (10 * val) = 10 * unat val" if "10 * unat val < 2 ^ 64" using that by (simp add: unat_word_ariths)
  have w: "word_of_nat (10 * unat val + digit_value c) = 10 * val + word_of_nat (digit_value c)" by simp
  show ?thesis
    unfolding push_digit_def checked_mul_u64_def checked_add_u64_def Let_def w using d m by auto
qed

lemma push_digit_Some: "is_digit c \<Longrightarrow> push_digit val c = Some w \<Longrightarrow> unat w = 10 * unat val + digit_value c"
  using of_nat_inverse [of "10 * unat val + digit_value c" w] by (simp add: push_digit_eq Let_def split: if_splits)

lemma push_digit_None:
  assumes "is_digit c" "push_digit val c = None"
  shows "unat (v :: u64) < unat val * 10 ^ length (c # cs) + dval (c # cs)"
proof -
  have "2 ^ 64 \<le> 10 * unat val + digit_value c" using assms by (auto simp: push_digit_eq Let_def split: if_splits)
  also have "\<dots> \<le> (10 * unat val + digit_value c) * 10 ^ length cs" by simp
  also have "\<dots> \<le> unat val * 10 ^ length (c # cs) + dval (c # cs)" by (simp add: algebra_simps)
  finally show ?thesis using u64_bound [of v] by simp
qed

lemma loop_digit:
  "is_digit c \<Longrightarrow> parse_loop neg md i (c # cs) decimals val =
     (case push_digit val c of
        None \<Rightarrow> Inl (InnerOverflow neg)
      | Some val \<Rightarrow>
          (case decimals of
             None \<Rightarrow> parse_loop neg md (i + 1) cs None val
           | Some d \<Rightarrow> if d < md then parse_loop neg md (i + 1) cs (Some (d + 1)) val
                       else Inl (InnerTooPrecise (i + (if neg then 1 else 0)))))"
  by (simp add: push_digit_def)

lemma loop_decimals:
  "parse_loop neg md i s (Some d) val = Inr (v, dec) \<longleftrightarrow>
   list_all is_digit s \<and> (s = [] \<or> d + int (length s) \<le> md) \<and> dec = Some (d + int (length s)) \<and>
   unat v = unat val * 10 ^ length s + dval s"
proof (induction s arbitrary: i d val)
  case Nil
  show ?case by (auto simp: word_unat_eq_iff)
next
  case (Cons c cs)
  show ?case
  proof (cases "is_digit c")
    case True
    show ?thesis
    proof (cases "push_digit val c")
      case None
      show ?thesis using push_digit_None [OF True None, of v cs] None True by (simp only: loop_digit) auto
    next
      case (Some w)
      show ?thesis
        using Some True Cons.IH [of "i + 1" "d + 1" w] push_digit_Some [OF True Some]
        by (simp only: loop_digit) (auto simp: algebra_simps)
    qed
  qed auto
qed

text \<open>A decimal number: digits, and digits after a point if there is one.\<close>

definition decimal :: "string \<Rightarrow> string \<Rightarrow> string \<Rightarrow> bool" where
  "decimal s ip fp \<longleftrightarrow> (s = ip \<and> fp = [] \<or> s = ip @ CHR ''.'' # fp) \<and> list_all is_digit ip"

lemma dot_no_digit [simp]: "\<not> is_digit (CHR ''.'')"
  by (simp add: is_digit_def)

lemma decimal_Cons:
  "decimal (c # cs) ip fp \<longleftrightarrow> (is_digit c \<and> (\<exists>ip'. ip = c # ip' \<and> decimal cs ip' fp)) \<or> (c = CHR ''.'' \<and> ip = [] \<and> fp = cs)"
  by (cases ip) (auto simp: decimal_def)

lemma loop_value:
  assumes "0 < md \<or> md = 0 \<and> CHR ''.'' \<notin> set s"
  shows "parse_loop neg md i s None val = Inr (v, dec) \<longleftrightarrow>
   (\<exists>ip fp. decimal s ip fp \<and> list_all is_digit fp \<and> int (length fp) \<le> md \<and>
      dec = (if s = ip then None else Some (int (length fp))) \<and> unat v = unat val * 10 ^ length (ip @ fp) + dval (ip @ fp))"
  using assms
proof (induction s arbitrary: i val)
  case Nil
  then show ?case by (auto simp: decimal_def word_unat_eq_iff)
next
  case (Cons c cs)
  consider (digit) "is_digit c" | (dot) "c = CHR ''.''" | (other) "\<not> is_digit c" "c \<noteq> CHR ''.''" by blast
  then show ?case
  proof cases
    case digit
    then have nd: "c \<noteq> CHR ''.''" using dot_no_digit by blast
    show ?thesis
    proof (cases "push_digit val c")
      case None
      have "unat v \<noteq> unat val * 10 ^ length (ip @ fp) + dval (ip @ fp)" if dec: "decimal (c # cs) ip fp" for ip fp
      proof -
        obtain ip' where "ip = c # ip'" using dec nd by (auto simp: decimal_Cons)
        then show ?thesis using push_digit_None [OF digit None, of v "ip' @ fp"] by simp
      qed
      moreover have "parse_loop neg md i (c # cs) None val = Inl (InnerOverflow neg)" using None digit by (simp only: loop_digit) simp
      ultimately show ?thesis by auto
    next
      case (Some w)
      have e: "unat w * 10 ^ length ds + dval ds = unat val * 10 ^ length (c # ds) + dval (c # ds)" for ds
        using push_digit_Some [OF digit Some] by (simp add: algebra_simps)
      have step: "parse_loop neg md i (c # cs) None val = parse_loop neg md (i + 1) cs None w" using Some digit by (simp only: loop_digit) simp
      have ex: "(\<exists>ip fp. decimal (c # cs) ip fp \<and> P ip fp) \<longleftrightarrow> (\<exists>ip fp. decimal cs ip fp \<and> P (c # ip) fp)" for P
        using nd digit by (auto simp: decimal_Cons)
      have "0 < md \<or> md = 0 \<and> CHR ''.'' \<notin> set cs" using Cons.prems by auto
      note IH = Cons.IH [OF this, of "i + 1" w]
      show ?thesis unfolding step unfolding IH unfolding e ex by (simp del: dval_append dval_Cons)
    qed
  next
    case dot
    then show ?thesis using Cons.prems by (auto simp: decimal_Cons loop_decimals)
  next
    case other
    then show ?thesis by (auto simp: decimal_Cons)
  qed
qed

lemma scale_value: "scale_loop n val = Some v \<longleftrightarrow> unat v = unat val * 10 ^ n"
proof (induction n arbitrary: val)
  case 0
  show ?case by (auto simp: word_unat_eq_iff)
next
  case (Suc n)
  have c: "checked_mul_u64 10 val = (if 10 * unat val < 2 ^ 64 then Some (10 * val) else None)" by (simp add: checked_mul_u64_def)
  show ?case
  proof (cases "10 * unat val < 2 ^ 64")
    case True
    then have "unat (10 * val) = 10 * unat val" by (simp add: unat_word_ariths)
    then show ?thesis using True Suc.IH [of "10 * val"] by (simp add: c mult.assoc mult.left_commute)
  next
    case False
    then have "2 ^ 64 \<le> 10 * unat val * 10 ^ n" by (rule_tac order_trans [of _ "10 * unat val"]) simp_all
    then have "unat v \<noteq> unat val * 10 ^ Suc n" using u64_bound [of v] by simp
    then show ?thesis using False by (simp add: c)
  qed
qed

lemma parse_digits_value:
  assumes "0 < md \<or> md = 0 \<and> CHR ''.'' \<notin> set s"
  shows "parse_digits neg md s = Inr (n, v) \<longleftrightarrow>
   n = neg \<and> (\<exists>ip fp. decimal s ip fp \<and> list_all is_digit fp \<and> int (length fp) \<le> md \<and>
      unat v = dval (ip @ fp) * 10 ^ nat (md - int (length fp)))"
proof -
  have "parse_digits neg md s = Inr (n, v) \<longleftrightarrow> n = neg \<and>
      (\<exists>w dec. parse_loop neg md 0 s None 0 = Inr (w, dec) \<and>
         unat v = unat w * 10 ^ nat (md - (case dec of Some d \<Rightarrow> d | None \<Rightarrow> 0)))"
    by (auto simp: parse_digits_def Let_def scale_value [symmetric] split: sum.splits option.splits)
  also have "\<dots> \<longleftrightarrow> n = neg \<and> (\<exists>ip fp. decimal s ip fp \<and> list_all is_digit fp \<and> int (length fp) \<le> md \<and>
      unat v = dval (ip @ fp) * 10 ^ nat (md - int (length fp)))"
    (is "_ \<longleftrightarrow> ?r")
  proof
    assume "n = neg \<and> (\<exists>w dec. parse_loop neg md 0 s None 0 = Inr (w, dec) \<and>
         unat v = unat w * 10 ^ nat (md - (case dec of Some d \<Rightarrow> d | None \<Rightarrow> 0)))"
    then show ?r unfolding loop_value [OF assms] by (force simp: decimal_def split: if_splits)
  next
    assume ?r
    then obtain ip fp where r: "n = neg" "decimal s ip fp" "list_all is_digit fp" "int (length fp) \<le> md"
      "unat v = dval (ip @ fp) * 10 ^ nat (md - int (length fp))" by blast
    have "dval (ip @ fp) \<le> unat v" using r(5) by simp
    then have w: "unat (word_of_nat (dval (ip @ fp)) :: u64) = dval (ip @ fp)"
      using u64_bound [of v] of_nat_inverse [of "dval (ip @ fp)", where 'a = 64] by simp
    show "n = neg \<and> (\<exists>w dec. parse_loop neg md 0 s None 0 = Inr (w, dec) \<and>
         unat v = unat w * 10 ^ nat (md - (case dec of Some d \<Rightarrow> d | None \<Rightarrow> 0)))"
      unfolding loop_value [OF assms]
      using r w by (intro conjI exI [of _ "word_of_nat (dval (ip @ fp))"] exI [of _ "if s = ip then None else Some (int (length fp))"]
          exI [of _ ip] exI [of _ fp]) (auto simp: decimal_def)
  qed
  finally show ?thesis .
qed

lemma parse_whole_value:
  assumes "CHR ''.'' \<notin> set s"
  shows "parse_digits neg 0 s = Inr (n, v) \<longleftrightarrow> n = neg \<and> list_all is_digit s \<and> unat v = dval s"
  using parse_digits_value [of 0 s neg n v] assms by (auto simp: decimal_def)

lemma find_char_None: "find_char P s = None \<longleftrightarrow> (\<forall>c\<in>set s. \<not> P c)"
  by (induction s) auto

lemma find_char_cut: "(case find_char P s of Some p \<Rightarrow> p | None \<Rightarrow> length s) = length (takeWhile (\<lambda>c. \<not> P c) s)"
  by (induction s) (auto split: option.splits)

lemma find_char_Some: "find_char P s = Some p \<Longrightarrow> p = length (takeWhile (\<lambda>c. \<not> P c) s) \<and> take p s = takeWhile (\<lambda>c. \<not> P c) s"
  by (induction s arbitrary: p) (auto split: option.splits if_splits)

lemma last_nonzero_None: "last_nonzero n s = None \<longleftrightarrow> set (drop (length s - n) s) \<subseteq> {CHR ''0''}"
proof -
  have "take n (rev s) = rev (drop (length s - n) s)" by (simp add: take_rev)
  then show ?thesis by (auto simp: last_nonzero_def find_char_None)
qed

text \<open>The parts of a string before and after its first point.\<close>

definition whole_part :: "string \<Rightarrow> string" where "whole_part s = takeWhile (\<lambda>c. c \<noteq> CHR ''.'') s"
definition frac_part :: "string \<Rightarrow> string" where "frac_part s = drop (Suc (length (whole_part s))) s"

lemma too_precise_None:
  "is_too_precise s n = None \<longleftrightarrow>
   n < length (whole_part s) \<and> set (drop (length (whole_part s) - n) (whole_part s)) \<subseteq> {CHR ''0''} \<and> set (frac_part s) \<subseteq> {CHR ''0''}"
proof (cases "find_char (\<lambda>c. c = CHR ''.'') s")
  case None
  then have "whole_part s = s" by (simp add: whole_part_def find_char_None)
  then show ?thesis using None by (auto simp: is_too_precise_def last_nonzero_None frac_part_def)
next
  case (Some p)
  then have "p = length (whole_part s)" "take p s = whole_part s" using find_char_Some by (auto simp: whole_part_def)
  then show ?thesis using Some
    by (auto simp: is_too_precise_def last_nonzero_None [symmetric] frac_part_def find_char_None split: option.splits)
qed

lemma scaled_digits: "b < k \<Longrightarrow> a * k + b = v * k \<longleftrightarrow> b = 0 \<and> v = a" for a b k v :: nat
proof
  assume b: "b < k" and e: "a * k + b = v * k"
  have "(a * k + b) div k = a" "(v * k) div k = v" using b by simp_all
  then show "b = 0 \<and> v = a" using e by simp
qed simp

lemma digits_split:
  assumes "list_all is_digit ip" "n < length ip"
  shows "dval ip = v * 10 ^ n \<longleftrightarrow> set (drop (length ip - n) ip) \<subseteq> {CHR ''0''} \<and> v = dval (take (length ip - n) ip)"
proof -
  let ?a = "take (length ip - n) ip" and ?b = "drop (length ip - n) ip"
  have b: "list_all is_digit ?b" "length ?b = n" using assms by (auto simp: list_all_iff dest: in_set_dropD)
  have "dval ip = dval ?a * 10 ^ n + dval ?b" using dval_append [of ?a ?b] b(2) by simp
  moreover have "dval ?b < 10 ^ n" using dval_lt [OF b(1)] b(2) by simp
  ultimately have "dval ip = v * 10 ^ n \<longleftrightarrow> dval ?b = 0 \<and> v = dval ?a"
    using scaled_digits [of "dval ?b" "10 ^ n" "dval ?a" v] by simp
  then show ?thesis using dval_zero [OF b(1)] by simp
qed

lemma decimal_parts: "decimal s ip fp \<Longrightarrow> ip = whole_part s \<and> fp = frac_part s"
proof -
  assume d: "decimal s ip fp"
  then have nd: "c \<noteq> CHR ''.''" if "c \<in> set ip" for c using that dot_no_digit by (metis decimal_def list_all_iff)
  then have "whole_part ip = ip" by (simp add: whole_part_def takeWhile_eq_all_conv)
  moreover have "whole_part (ip @ CHR ''.'' # fp) = ip" using nd by (simp add: whole_part_def takeWhile_append)
  ultimately show ?thesis using d by (auto simp: decimal_def frac_part_def)
qed

lemma decimal_of_parts:
  assumes "list_all is_digit (whole_part s)"
  shows "decimal s (whole_part s) (frac_part s)"
proof (cases "CHR ''.'' \<in> set s")
  case True
  then obtain a b where "s = a @ CHR ''.'' # b" "CHR ''.'' \<notin> set a" by (meson split_list_first)
  then have "whole_part s = a" by (simp add: whole_part_def takeWhile_append)
  then show ?thesis using assms \<open>s = a @ CHR ''.'' # b\<close> by (simp add: decimal_def frac_part_def)
next
  case False
  then have "whole_part s = s" by (auto simp: whole_part_def takeWhile_eq_all_conv)
  then show ?thesis using assms by (simp add: decimal_def frac_part_def)
qed

text \<open>The numerals that stand for zero although they are shorter than the zeros a coarser unit asks for; \<open>i64\<close> reads
  them, so that they may have a sign.\<close>

definition signed_zero :: "string \<Rightarrow> bool" where
  "signed_zero t \<longleftrightarrow> (\<exists>ds. (t = ds \<or> t = CHR ''+'' # ds \<or> t = CHR ''-'' # ds) \<and> ds \<noteq> [] \<and> set ds \<subseteq> {CHR ''0''})"

lemma foldl_int: "foldl (\<lambda>v c. 10 * v + int (digit_value c)) (int v) ds = int (foldl (\<lambda>v c. 10 * v + digit_value c) v ds)"
proof (induction ds arbitrary: v)
  case (Cons c ds)
  show ?case using Cons.IH [of "10 * v + digit_value c"] by simp
qed simp

lemma zeros_digits: "set ds \<subseteq> {CHR ''0''} \<Longrightarrow> list_all is_digit ds"
  by (auto simp: list_all_iff is_digit_def)

lemma i64_zero: "i64_from_str t = Some 0 \<longleftrightarrow> signed_zero t"
proof -
  have v: "foldl (\<lambda>v c. 10 * v + int (digit_value c)) 0 ds = int (dval ds)" for ds
    using foldl_int [of 0 ds] by (simp add: dval_def)
  have z: "ds \<noteq> [] \<and> list_all is_digit ds \<and> dval ds = 0 \<longleftrightarrow> ds \<noteq> [] \<and> set ds \<subseteq> {CHR ''0''}" for ds
    using dval_zero [of ds] zeros_digits [of ds] by blast
  have r: "i64_range 0" by (simp add: i64_range_def)
  define rd where "rd neg ds = (if ds \<noteq> [] \<and> list_all is_digit ds \<and> i64_range (if neg then - int (dval ds) else int (dval ds))
      then Some (if neg then - int (dval ds) else int (dval ds)) else None)" for neg ds
  have rd: "rd neg ds = Some 0 \<longleftrightarrow> ds \<noteq> [] \<and> set ds \<subseteq> {CHR ''0''}" for neg ds
    unfolding z [symmetric] by (cases neg) (auto simp: rd_def r)
  have "i64_from_str t = (case t of [] \<Rightarrow> rd False [] | c # cs \<Rightarrow> if c = CHR ''+'' then rd False cs else if c = CHR ''-'' then rd True cs else rd False t)"
    unfolding i64_from_str_def rd_def Let_def v by (simp split: list.splits del: dval_Cons list.pred_inject)
  then show ?thesis by (cases t) (auto simp: rd signed_zero_def)
qed

lemma too_precise_zero:
  assumes "signed_zero t"
  shows "is_too_precise t n = None \<longleftrightarrow> n < length t"
proof -
  obtain ds where t: "t = ds \<or> t = CHR ''+'' # ds \<or> t = CHR ''-'' # ds" and z: "set ds \<subseteq> {CHR ''0''}"
    using assms by (auto simp: signed_zero_def)
  have "CHR ''.'' \<notin> set t" using t z by auto
  then have w: "whole_part t = t" by (auto simp: whole_part_def takeWhile_eq_all_conv)
  have "set (drop (length t - n) t) \<subseteq> {CHR ''0''}" if "n < length t"
  proof -
    have "set (drop (length t - n) t) \<subseteq> set ds"
      using t that by (cases "length t - n") (auto simp: drop_Cons' dest: in_set_dropD split: if_splits)
    then show ?thesis using z by blast
  qed
  then show ?thesis using w by (auto simp: too_precise_None frac_part_def)
qed

definition accepted :: "Denomination \<Rightarrow> string \<Rightarrow> nat \<Rightarrow> bool" where
  "accepted d t v \<longleftrightarrow>
     (if precision d < 0
      then (let D = nat (- precision d)
            in \<exists>ip fp. decimal t ip fp \<and> list_all is_digit fp \<and> length fp \<le> D \<and> v = dval (ip @ fp) * 10 ^ (D - length fp))
      else (let n = nat (precision d)
            in (\<exists>ip fp. decimal t ip fp \<and> set fp \<subseteq> {CHR ''0''} \<and> n < length ip \<and> dval ip = v * 10 ^ n) \<or>
               signed_zero t \<and> length t \<le> n \<and> v = 0))"

lemma accepted_whole:
  assumes "0 \<le> precision d" "is_too_precise t (nat (precision d)) = None"
  shows "accepted d t v \<longleftrightarrow> list_all is_digit (whole_part t) \<and> dval (whole_part t) = v * 10 ^ nat (precision d)"
proof -
  let ?n = "nat (precision d)"
  have np: "?n < length (whole_part t)" "set (frac_part t) \<subseteq> {CHR ''0''}" using assms(2) by (simp_all add: too_precise_None)
  have "\<not> (signed_zero t \<and> length t \<le> ?n)" using too_precise_zero [of t ?n] assms(2) by auto
  then have "accepted d t v \<longleftrightarrow> (\<exists>ip fp. decimal t ip fp \<and> set fp \<subseteq> {CHR ''0''} \<and> ?n < length ip \<and> dval ip = v * 10 ^ ?n)"
    using assms(1) unfolding accepted_def Let_def by auto
  also have "\<dots> \<longleftrightarrow> list_all is_digit (whole_part t) \<and> dval (whole_part t) = v * 10 ^ ?n" (is "?a \<longleftrightarrow> ?b")
  proof
    assume ?a
    then obtain ip fp where "decimal t ip fp" "dval ip = v * 10 ^ ?n" by blast
    then show ?b using decimal_parts [of t ip fp] by (simp add: decimal_def)
  next
    assume ?b
    then show ?a using decimal_of_parts [of t] np by blast
  qed
  finally show ?thesis .
qed

lemma parse_coarse:
  assumes "0 \<le> precision d" "t \<noteq> []"
  defines "n \<equiv> nat (precision d)"
  shows "(case is_too_precise t n of
            Some p0 \<Rightarrow> if i64_from_str t = Some 0 then Inr (neg, 0) else Inl (InnerTooPrecise (p0 + (if neg then 1 else 0)))
          | None \<Rightarrow> parse_digits neg 0 (take ((case find_char (\<lambda>c. c = CHR ''.'') t of Some p \<Rightarrow> p | None \<Rightarrow> length t) - n) t)) =
         Inr (m, v) \<longleftrightarrow> m = neg \<and> accepted d t (unat v)" (is "?l = _ \<longleftrightarrow> _")
proof (cases "is_too_precise t n")
  case None
  let ?ip = "whole_part t" and ?fp = "frac_part t"
  have np: "n < length ?ip" "set (drop (length ?ip - n) ?ip) \<subseteq> {CHR ''0''}" "set ?fp \<subseteq> {CHR ''0''}"
    using None by (simp_all add: too_precise_None)
  have cut: "(case find_char (\<lambda>c. c = CHR ''.'') t of Some p \<Rightarrow> p | None \<Rightarrow> length t) = length ?ip"
    by (simp add: find_char_cut whole_part_def)
  have tk: "take (length ?ip - n) t = take (length ?ip - n) ?ip"
    using take_append [of "length ?ip - n" ?ip "dropWhile (\<lambda>c. c \<noteq> CHR ''.'') t"] by (simp add: whole_part_def)
  have nodot: "CHR ''.'' \<notin> set (take (length ?ip - n) ?ip)"
    by (auto simp: whole_part_def dest!: in_set_takeD dest: set_takeWhileD)
  have "list_all is_digit (take (length ?ip - n) ?ip) \<longleftrightarrow> list_all is_digit ?ip"
  proof -
    have "list_all is_digit (drop (length ?ip - n) ?ip)" using zeros_digits np(2) by blast
    then show ?thesis using list_all_append [of is_digit "take (length ?ip - n) ?ip" "drop (length ?ip - n) ?ip"] by simp
  qed
  then have "?l = Inr (m, v) \<longleftrightarrow> m = neg \<and> list_all is_digit ?ip \<and> unat v = dval (take (length ?ip - n) ?ip)"
    using None unfolding cut tk by (simp add: parse_whole_value [OF nodot])
  also have "\<dots> \<longleftrightarrow> m = neg \<and> list_all is_digit ?ip \<and> dval ?ip = unat v * 10 ^ n"
    using digits_split [of ?ip n "unat v"] np by auto
  also have "\<dots> \<longleftrightarrow> m = neg \<and> accepted d t (unat v)"
    using accepted_whole [of d t "unat v"] assms None by (auto simp: n_def)
  finally show ?thesis .
next
  case (Some p)
  have "\<not> (\<exists>ip fp. decimal t ip fp \<and> set fp \<subseteq> {CHR ''0''} \<and> n < length ip \<and> dval ip = unat v * 10 ^ n)"
  proof
    assume "\<exists>ip fp. decimal t ip fp \<and> set fp \<subseteq> {CHR ''0''} \<and> n < length ip \<and> dval ip = unat v * 10 ^ n"
    then obtain ip fp where a: "decimal t ip fp" "set fp \<subseteq> {CHR ''0''}" "n < length ip" "dval ip = unat v * 10 ^ n" by blast
    then have "list_all is_digit ip" by (simp add: decimal_def)
    then have "is_too_precise t n = None"
      using a digits_split [of ip n "unat v"] decimal_parts [OF a(1)] by (auto simp: too_precise_None)
    then show False using Some by simp
  qed
  then have "accepted d t (unat v) \<longleftrightarrow> signed_zero t \<and> length t \<le> n \<and> v = 0"
    using assms(1) by (auto simp: accepted_def Let_def n_def unat_eq_0)
  moreover have "signed_zero t \<Longrightarrow> length t \<le> n" using too_precise_zero [of t n] Some by auto
  ultimately show ?thesis using Some by (auto simp: i64_zero)
qed

lemma parse_fine:
  assumes "precision d < 0"
  shows "parse_digits neg (- precision d) t = Inr (m, v) \<longleftrightarrow> m = neg \<and> accepted d t (unat v)"
proof -
  have "nat (- precision d - int (length fp)) = nat (- precision d) - length fp" for fp :: string by simp
  then show ?thesis using assms parse_digits_value [of "- precision d" t neg m v] by (simp add: accepted_def Let_def le_nat_iff)
qed

lemma parse_exact:
  "parse_signed_to_satoshi s d = Inr (neg, v) \<longleftrightarrow>
   length s \<le> 50 \<and> (\<exists>t. s = (if neg then CHR ''-'' # t else t) \<and> t \<noteq> [] \<and> (neg \<or> hd t \<noteq> CHR ''-'') \<and> accepted d t (unat v))"
proof (cases "s = [] \<or> length s > 50 \<or> s = ''-''")
  case True
  then show ?thesis by (auto simp: parse_signed_to_satoshi_def INPUT_STRING_LEN_LIMIT_def)
next
  case False
  let ?n = "hd s = CHR ''-''" and ?t = "if hd s = CHR ''-'' then tl s else s"
  have t: "?t \<noteq> []" using False by (cases s) auto
  have "parse_signed_to_satoshi s d = Inr (neg, v) \<longleftrightarrow> neg = ?n \<and> accepted d ?t (unat v)"
  proof (cases "precision d < 0")
    case True
    then have "parse_signed_to_satoshi s d = parse_digits ?n (- precision d) ?t"
      using False by (cases s) (auto simp: parse_signed_to_satoshi_def INPUT_STRING_LEN_LIMIT_def)
    then show ?thesis using parse_fine [OF True, of ?n ?t neg v] by (simp only:)
  next
    case coarse: False
    have ab: "nat \<bar>- precision d\<bar> = nat (precision d)" using coarse by simp
    have "parse_signed_to_satoshi s d =
        (case is_too_precise ?t (nat (precision d)) of
            Some p0 \<Rightarrow> if i64_from_str ?t = Some 0 then Inr (?n, 0) else Inl (InnerTooPrecise (p0 + (if ?n then 1 else 0)))
          | None \<Rightarrow> parse_digits ?n 0 (take ((case find_char (\<lambda>c. c = CHR ''.'') ?t of Some p \<Rightarrow> p | None \<Rightarrow> length ?t) - nat (precision d)) ?t))"
      using False coarse unfolding parse_signed_to_satoshi_def INPUT_STRING_LEN_LIMIT_def Let_def ab by (cases s) auto
    then show ?thesis using parse_coarse [OF _ t, of d ?n neg v] coarse by (simp only:)
  qed
  then show ?thesis using False by (cases s) auto
qed

section \<open>What the printer writes\<close>

lemma strip_zeros_value:
  "strip_zeros n nb = (m, k) \<Longrightarrow> 0 < n \<Longrightarrow> n < 10 ^ nb \<Longrightarrow> k \<le> nb \<and> 0 < k \<and> m * 10 ^ (nb - k) = n \<and> m < 10 ^ k"
proof (induction n nb rule: strip_zeros.induct)
  case (1 n nb)
  show ?case
  proof (cases "n mod 10 = 0")
    case False
    then have "m = n" "k = nb" "nb \<noteq> 0" using "1.prems" by (auto simp: strip_zeros.simps [of n nb] intro: ccontr)
    then show ?thesis using "1.prems" by simp
  next
    case True
    then obtain q where q: "n = 10 * q" by (auto simp: mod_eq_0_iff_dvd elim: dvdE)
    obtain j where j: "nb = Suc j" using "1.prems" by (cases nb) auto
    have "strip_zeros q j = (m, k)" using True "1.prems" q j by (subst (asm) strip_zeros.simps) simp
    then have "k \<le> j \<and> 0 < k \<and> m * 10 ^ (j - k) = q \<and> m < 10 ^ k" using "1.IH" True "1.prems" q j by simp
    then show ?thesis using q j by (auto simp: Suc_diff_le)
  qed
qed

lemma padded_digits:
  assumes "m < 10 ^ k" "0 < k"
  shows "list_all is_digit (show_padded k m)" "length (show_padded k m) = k" "dval (show_padded k m) = m"
proof -
  have z: "dval (replicate j (CHR ''0'')) = 0" for j by (induction j) (simp_all add: digit_value_def)
  have "length (show_dec m) \<le> k" using dec_width_le [OF assms] by (simp add: length_show_dec)
  then show "list_all is_digit (show_padded k m)" "length (show_padded k m) = k" "dval (show_padded k m) = m"
    using show_dec_digits [of m] by (simp_all add: show_padded_def z) (simp add: list_all_iff is_digit_def)
qed

text \<open>Without options the printed number is a sign and a numeral; \<open>numeral_in\<close> is the numeral.\<close>

definition numeral_in :: "u64 \<Rightarrow> Denomination \<Rightarrow> string" where
  "numeral_in sat d = fmt_satoshi_in sat False d False default_options"

lemma fmt_default: "fmt_satoshi_in sat neg d False default_options = (if neg then CHR ''-'' # numeral_in sat d else numeral_in sat d)"
  by (simp add: numeral_in_def fmt_satoshi_in_def default_options_def paddings_def Let_def split: prod.splits)

lemma numeral_coarse:
  assumes "0 \<le> precision d"
  shows "numeral_in sat d = show_dec (unat sat) @ replicate (if sat = 0 then 0 else nat (precision d)) (CHR ''0'')"
  using assms
  by (auto simp: numeral_in_def fmt_satoshi_in_def default_options_def paddings_def normalize_def Let_def unat_eq_zero split: prod.splits)

lemma numeral_fine:
  assumes "precision d < 0"
  obtains ip fp where "decimal (numeral_in sat d) ip fp" "ip = show_dec (unat sat div 10 ^ nat (- precision d))"
    "list_all is_digit fp" "length fp \<le> nat (- precision d)" "unat sat = dval (ip @ fp) * 10 ^ (nat (- precision d) - length fp)"
proof -
  let ?D = "nat (- precision d)"
  let ?ip = "show_dec (unat sat div 10 ^ ?D)" and ?r = "unat sat mod 10 ^ ?D"
  have D: "nat \<bar>precision d\<bar> = ?D" "\<not> 0 < precision d" using assms by simp_all
  show thesis
  proof (cases "?r = 0")
    case True
    then have "numeral_in sat d = ?ip"
      using assms D by (simp add: numeral_in_def fmt_satoshi_in_def default_options_def paddings_def normalize_def Let_def)
    moreover have "unat sat = dval (?ip @ []) * 10 ^ (?D - length [])" using True by auto
    ultimately show thesis using that [of ?ip "[]"] show_dec_digits by (simp add: decimal_def)
  next
    case False
    obtain m k where mk: "strip_zeros ?r ?D = (m, k)" by fastforce
    have r: "k \<le> ?D" "0 < k" "m * 10 ^ (?D - k) = ?r" "m < 10 ^ k" using strip_zeros_value [OF mk] False by simp_all
    note p = padded_digits [OF r(4) r(2)]
    have "numeral_in sat d = ?ip @ CHR ''.'' # show_padded k m"
      using assms D False mk r by (simp add: numeral_in_def fmt_satoshi_in_def default_options_def paddings_def normalize_def Let_def)
    moreover have "unat sat = dval (?ip @ show_padded k m) * 10 ^ (?D - length (show_padded k m))"
    proof -
      have "10 ^ k * 10 ^ (?D - k) = (10 :: nat) ^ ?D" using r(1) by (simp add: power_add [symmetric])
      then have "dval (?ip @ show_padded k m) * 10 ^ (?D - k) = unat sat div 10 ^ ?D * 10 ^ ?D + ?r"
        using p r(3) by (simp add: distrib_right mult.assoc)
      then show ?thesis using p(2) div_mult_mod_eq [of "unat sat" "10 ^ ?D"] by (simp only: append.simps)
    qed
    ultimately show thesis using that [of ?ip "show_padded k m"] show_dec_digits p r(1) by (simp add: decimal_def)
  qed
qed

lemma two64_lt: "(2 :: nat) ^ 64 < 10 ^ 20"
  by simp

lemma width_20: "n < 2 ^ 64 \<Longrightarrow> length (show_dec n) \<le> 20"
  unfolding length_show_dec by (rule dec_width_le [OF less_trans [OF _ two64_lt]]) simp_all

lemma precision_range: "- 8 \<le> precision d" "precision d \<le> 4"
  by (cases d; simp)+

lemma dval_zeros [simp]: "dval (replicate j (CHR ''0'')) = 0"
  by (induction j) (simp_all add: digit_value_def)

lemma head_digit: "is_digit (hd (show_dec n @ x))"
  using show_dec_digits [of n] by (cases "show_dec n") simp_all

lemma width_div: "length (show_dec (unat (sat :: u64) div k)) \<le> 20"
  using width_20 [of "unat sat div k"] le_less_trans [OF div_le_dividend u64_bound] by blast

definition numeral_fits :: "u64 \<Rightarrow> Denomination \<Rightarrow> bool" where
  "numeral_fits sat d \<longleftrightarrow> accepted d (numeral_in sat d) (unat sat) \<and> length (numeral_in sat d) \<le> 30 \<and> numeral_in sat d \<noteq> [] \<and>
    (\<forall>c\<in>set (numeral_in sat d). is_digit c \<or> c = CHR ''.'') \<and> is_digit (hd (numeral_in sat d))"

lemma fits_fine:
  assumes "precision d < 0"
  shows "numeral_fits sat d"
proof -
  from numeral_fine [OF assms, of sat] obtain ip fp where n: "decimal (numeral_in sat d) ip fp"
    "ip = show_dec (unat sat div 10 ^ nat (- precision d))" "list_all is_digit fp" "length fp \<le> nat (- precision d)"
    "unat sat = dval (ip @ fp) * 10 ^ (nat (- precision d) - length fp)" by blast
  have "accepted d (numeral_in sat d) (unat sat)" unfolding accepted_def Let_def using n(1,3,4,5) assms by (simp only: if_True) blast
  moreover have "length ip \<le> 20" "length fp \<le> 8" using n(2,4) width_div precision_range(1) [of d] by auto
  moreover have "ip \<noteq> []" "is_digit (hd ip)" using n(2) head_digit [of _ "[]"] by simp_all
  moreover have "\<forall>c\<in>set ip \<union> set fp. is_digit c" using n(1,3) by (auto simp: decimal_def list_all_iff)
  moreover have "numeral_in sat d = ip \<or> numeral_in sat d = ip @ CHR ''.'' # fp" using n(1) by (auto simp: decimal_def)
  ultimately show ?thesis unfolding numeral_fits_def by auto
qed

lemma char_zero: "char_of (48 :: nat) = CHR ''0''"
  by code_simp

lemma accepted_zero:
  assumes "0 \<le> precision d" "decimal t t []" "signed_zero t" "length t = 1" "dval t = 0"
  shows "accepted d t 0"
proof (cases "precision d = 0")
  case True
  have "t \<noteq> []" using assms(4) by auto
  then show ?thesis using assms True by (simp add: accepted_def) (metis empty_set empty_subsetI)
next
  case False
  then show ?thesis using assms by (auto simp: accepted_def Let_def)
qed

lemma fits_coarse:
  assumes "0 \<le> precision d"
  shows "numeral_fits sat d"
proof -
  note n = numeral_coarse [OF assms, of sat]
  have z: "is_digit (CHR ''0'')" by (simp add: is_digit_def)
  have "accepted d (numeral_in sat d) (unat sat)"
  proof (cases "sat = 0")
    case True
    then have "numeral_in sat d = ''0''" using n char_zero by (simp add: show_dec.simps [of 0])
    moreover have "decimal ''0'' ''0'' []" "signed_zero ''0''" using z by (simp_all add: decimal_def signed_zero_def)
    moreover have "dval ''0'' = 0" by (simp add: digit_value_def)
    ultimately show ?thesis using True accepted_zero [OF assms, of "''0''"] by simp
  next
    case False
    have "decimal (numeral_in sat d) (numeral_in sat d) []"
      using show_dec_digits [of "unat sat"] z n False by (auto simp: decimal_def list_all_iff)
    moreover have "dval (numeral_in sat d) = unat sat * 10 ^ nat (precision d)" using n False by simp
    moreover have "nat (precision d) < length (numeral_in sat d)" using n False by simp
    ultimately show ?thesis using assms by (simp add: accepted_def) (metis empty_set empty_subsetI)
  qed
  then show ?thesis
    using n head_digit [of "unat sat"] width_div [of sat 1] show_dec_digits [of "unat sat"] precision_range(2) [of d] z
    unfolding numeral_fits_def by (auto simp: list_all_iff)
qed

lemma numeral_ok: "numeral_fits sat d"
  using fits_fine fits_coarse by (cases "precision d < 0") auto

lemma parse_printed: "parse_signed_to_satoshi (fmt_satoshi_in sat neg d False default_options) d = Inr (neg, sat)"
proof -
  have "is_digit (hd (numeral_in sat d))" using numeral_ok by (simp add: numeral_fits_def)
  then have "hd (numeral_in sat d) \<noteq> CHR ''-''" by (auto simp: is_digit_def)
  then show ?thesis using numeral_ok [of sat d] unfolding parse_exact fmt_default numeral_fits_def by auto
qed

lemma find_char_at: "\<forall>c\<in>set a. \<not> P c \<Longrightarrow> P x \<Longrightarrow> find_char P (a @ x # b) = Some (length a)"
  by (induction a) auto

lemma split_printed:
  "split_amount_and_denomination (fmt_satoshi_in sat neg d False default_options @ CHR '' '' # denom_as_str d) =
   Inr (fmt_satoshi_in sat neg d False default_options, d)"
proof -
  let ?s = "fmt_satoshi_in sat neg d False default_options"
  have "\<not> is_digit (CHR '' '')" by (simp add: is_digit_def)
  then have "CHR '' '' \<notin> set ?s" using numeral_ok [of sat d] unfolding fmt_default numeral_fits_def by auto
  then have "find_char (\<lambda>c. c = CHR '' '') (?s @ CHR '' '' # denom_as_str d) = Some (length ?s)"
    by (intro find_char_at) auto
  moreover have "denom_from_str (denom_as_str d) = Inr d" by (cases d) (simp_all add: denom_from_str_def CONFUSING_FORMS_def forms_def)
  ultimately show ?thesis by (simp add: split_amount_and_denomination_def)
qed

section \<open>Sums and widths\<close>

lemma bind_fold_None: "(\<And>x. f x None = None) \<Longrightarrow> fold f xs None = None"
  by (induction xs) simp_all

lemma checked_add_value: "amount_checked_add a b = Some c \<longleftrightarrow> unat (to_sat c) = unat (to_sat a) + unat (to_sat b)"
proof -
  have e: "unat (to_sat a + to_sat b) = unat (to_sat a) + unat (to_sat b) \<longleftrightarrow> unat (to_sat a) + unat (to_sat b) < 2 ^ 64"
    using unat_add_lem [of "to_sat a" "to_sat b"] by simp
  have "amount_checked_add a b = Some c \<longleftrightarrow> unat (to_sat a) + unat (to_sat b) < 2 ^ 64 \<and> unat (to_sat c) = unat (to_sat a + to_sat b)"
    by (cases c) (auto simp: amount_checked_add_def checked_add_u64_def word_unat_eq_iff [where v = "to_sat a + to_sat b"])
  then show ?thesis using e u64_bound [of "to_sat c"] by auto
qed

lemma checked_sum_acc:
  "fold (\<lambda>item acc. Option.bind acc (\<lambda>acc. amount_checked_add acc item)) xs (Some x) = Some s \<longleftrightarrow>
   unat (to_sat s) = unat (to_sat x) + sum_list (map (\<lambda>a. unat (to_sat a)) xs)"
proof (induction xs arbitrary: x)
  case Nil
  show ?case by (cases x; cases s) (auto simp: word_unat_eq_iff)
next
  case (Cons a xs)
  show ?case
  proof (cases "amount_checked_add x a")
    case None
    have "2 ^ 64 \<le> unat (to_sat x) + unat (to_sat a)"
      using None by (auto simp: amount_checked_add_def checked_add_u64_def split: if_splits)
    then have "unat (to_sat s) \<noteq> unat (to_sat x) + (unat (to_sat a) + sum_list (map (\<lambda>a. unat (to_sat a)) xs))"
      using u64_bound [of "to_sat s"] by linarith
    then show ?thesis using None by (simp add: bind_fold_None)
  next
    case (Some y)
    then show ?thesis using Cons.IH [of y] checked_add_value [of x a y] by (simp add: add.assoc)
  qed
qed

lemma sum_unchecked_acc:
  "fold (\<lambda>item acc. Option.bind acc (\<lambda>acc. amount_unchecked_add False acc item)) xs (Some x) =
   Some (Amount (to_sat x + sum_list (map to_sat xs)))"
  by (induction xs arbitrary: x) (simp_all add: amount_unchecked_add_def add.assoc)

lemma normal_after:
  assumes "normalize sat d p = (before, expo, after, nb, trailing)" "0 < nb"
  shows "length (show_padded nb after) = nb"
proof -
  let ?D = "nat \<bar>precision d\<bar>"
  have n: "precision d < 0" "sat mod 10 ^ ?D \<noteq> 0" "strip_zeros (sat mod 10 ^ ?D) ?D = (after, nb)"
    using assms by (auto simp: normalize_def Let_def split: if_splits prod.splits)
  then show ?thesis using strip_zeros_value [OF n(3)] padded_digits(2) [of after nb] by simp
qed

lemma paddings_sum: "paddings opts w = (l, r) \<Longrightarrow> l + r = (case opt_width opts of Some n \<Rightarrow> n | None \<Rightarrow> 0) - w"
  by (auto simp: paddings_def Let_def split: if_splits)

text \<open>Sums of amounts: the checked sum is the exact sum, and is refused exactly if that does not fit; the \<open>Sum\<close> of a
  build without overflow checks is the sum modulo \<open>2 ^ 64\<close>.\<close>

theorem amount_sum_exact:
  "(amount_checked_sum xs = Some s \<longleftrightarrow> unat (to_sat s) = sum_list (map (\<lambda>a. unat (to_sat a)) xs)) \<and>
   (amount_checked_sum xs = None \<longleftrightarrow> 2 ^ 64 \<le> sum_list (map (\<lambda>a. unat (to_sat a)) xs)) \<and>
   amount_sum False xs = Some (Amount (word_of_nat (sum_list (map (\<lambda>a. unat (to_sat a)) xs))))"
proof -
  have c: "amount_checked_sum xs = Some s \<longleftrightarrow> unat (to_sat s) = sum_list (map (\<lambda>a. unat (to_sat a)) xs)" for s
  proof (cases xs)
    case Nil
    show ?thesis unfolding Nil amount_checked_sum_def by (cases s) (auto simp: unat_eq_zero)
  next
    case (Cons x ys)
    then show ?thesis using checked_sum_acc [of ys x s] by (simp add: amount_checked_sum_def)
  qed
  have w: "sum_list (map to_sat xs) = word_of_nat (sum_list (map (\<lambda>a. unat (to_sat a)) xs))" by (induction xs) simp_all
  have "amount_checked_sum xs = None \<longleftrightarrow> 2 ^ 64 \<le> sum_list (map (\<lambda>a. unat (to_sat a)) xs)" (is "_ \<longleftrightarrow> 2 ^ 64 \<le> ?n")
  proof
    assume n: "amount_checked_sum xs = None"
    show "2 ^ 64 \<le> ?n"
    proof (rule ccontr)
      assume "\<not> 2 ^ 64 \<le> ?n"
      then have "unat (to_sat (Amount (word_of_nat ?n))) = ?n" using of_nat_inverse [of ?n, where 'a = 64] by simp
      then show False using c [of "Amount (word_of_nat ?n)"] n by simp
    qed
  next
    assume n: "2 ^ 64 \<le> ?n"
    show "amount_checked_sum xs = None"
    proof (rule ccontr)
      assume "amount_checked_sum xs \<noteq> None"
      then obtain s where "amount_checked_sum xs = Some s" by blast
      then show False using c [of s] n u64_bound [of "to_sat s"] by linarith
    qed
  qed
  then show ?thesis using c [of s] w sum_unchecked_acc [of xs "Amount 0"] by (simp add: amount_sum_def)
qed

text \<open>(C29) Text of amounts: what is printed in a denomination is read back, alone, with the denomination appended, and
  with a sign, for every amount and every denomination.\<close>

theorem amount_text_roundtrip:
  "amount_from_str_in (amount_to_string_in a d) d = Inr a \<and>
   amount_from_str (amount_to_string_with_denomination a d) = Inr a \<and>
   (i64_range (signed_sat x) \<longrightarrow>
      signed_from_str_in (signed_to_string_in x d) d = Inr x \<and> signed_from_str (signed_to_string_with_denomination x d) = Inr x)"
proof -
  have a: "amount_from_str_in (amount_to_string_in a d) d = Inr a"
    by (cases a) (simp add: amount_from_str_in_def amount_to_string_in_def parse_printed)
  moreover have "amount_from_str (amount_to_string_with_denomination a d) = Inr a"
    using a by (simp add: amount_from_str_def amount_to_string_with_denomination_def amount_to_string_in_def split_printed)
  moreover have "signed_from_str_in (signed_to_string_in x d) d = Inr x \<and> signed_from_str (signed_to_string_with_denomination x d) = Inr x"
    if r: "i64_range (signed_sat x)"
  proof -
    have "\<bar>signed_sat x\<bar> < 2 ^ 64" using r by (auto simp: i64_range_def)
    then have u: "unat (to_sat (unsigned_abs x)) = nat \<bar>signed_sat x\<bar>"
      by (simp add: unsigned_abs_def unat_eq_nat_uint uint_word_of_int)
    have "signed_from_str_in (signed_to_string_in x d) d = Inr x"
      unfolding signed_from_str_in_def signed_to_string_in_def parse_printed
      using r u by (cases x) (auto simp: i64_range_def)
    then show ?thesis by (simp add: signed_from_str_def signed_to_string_with_denomination_def signed_to_string_in_def split_printed)
  qed
  ultimately show ?thesis by blast
qed

theorem amount_text_roundtrip_witness:
  "signed_from_str (signed_to_string_with_denomination (SignedAmount (- (2 ^ 63))) MicroBitcoin) = Inr (SignedAmount (- (2 ^ 63)))"
  using amount_text_roundtrip [of "Amount 0" MicroBitcoin "SignedAmount (- (2 ^ 63))"] by (simp add: i64_range_def)

text \<open>Width of the text: the number is padded to exactly the width asked for, whatever fill, alignment, sign and
  denomination, and is never cut.\<close>

theorem amount_display_width:
  "length (fmt_satoshi_in sat neg d show_denom opts) =
   max (case opt_width opts of Some w \<Rightarrow> w | None \<Rightarrow> 0) (length (fmt_satoshi_in sat neg d show_denom (opts\<lparr> opt_width := None \<rparr>)))"
proof -
  obtain before expo after nb trailing where n: "normalize (unat sat) d (opt_precision opts) = (before, expo, after, nb, trailing)"
    by (cases "normalize (unat sat) d (opt_precision opts)") auto
  define w where "w = (if 0 < nb + trailing then 1 + (nb + trailing) else 0) + (dec_width before + expo) +
    (if opt_sign_plus opts \<or> neg then 1 else 0) + (if show_denom then length (denom_as_str d) + 1 else 0)"
  obtain l r where p: "paddings opts w = (l, r)" by fastforce
  have p0: "paddings (opts\<lparr> opt_width := None \<rparr>) w = (0, 0)" by (simp add: paddings_def)
  have pad: "length (if 0 < nb then show_padded nb after else []) = nb" using normal_after [OF n] by simp
  have "length (fmt_satoshi_in sat neg d show_denom opts) = l + r + w"
    using n p pad by (simp add: fmt_satoshi_in_def Let_def w_def length_show_dec)
  moreover have "length (fmt_satoshi_in sat neg d show_denom (opts\<lparr> opt_width := None \<rparr>)) = w"
    using n p0 pad by (simp add: fmt_satoshi_in_def Let_def w_def length_show_dec)
  ultimately show ?thesis using paddings_sum [OF p] by (simp split: option.splits)
qed

text \<open>Parsing of amounts is exact: a text is read as \<open>v\<close> exactly if it has at most fifty characters and is, after an
  optional minus sign, a decimal number of the denomination that denotes \<open>v\<close> without rest.\<close>

theorem amount_parse_exact:
  "parse_signed_to_satoshi s d = Inr (neg, v) \<longleftrightarrow>
   length s \<le> 50 \<and> (\<exists>t. s = (if neg then CHR ''-'' # t else t) \<and> t \<noteq> [] \<and> (neg \<or> hd t \<noteq> CHR ''-'') \<and> accepted d t (unat v))"
  by (rule parse_exact)

theorem amount_parse_exact_witness:
  "parse_signed_to_satoshi ''-1.5'' Bit = Inr (True, 150)"
proof -
  have "decimal ''1.5'' ''1'' ''5'' \<and> list_all is_digit ''5'' \<and> length ''5'' \<le> 2 \<and> 150 = dval (''1'' @ ''5'') * 10 ^ (2 - length ''5'')"
    by (simp add: decimal_def is_digit_def digit_value_def)
  then have "\<exists>ip fp. decimal ''1.5'' ip fp \<and> list_all is_digit fp \<and> length fp \<le> 2 \<and> 150 = dval (ip @ fp) * 10 ^ (2 - length fp)"
    by blast
  then have "accepted Bit ''1.5'' 150" by (simp add: accepted_def)
  then show ?thesis using amount_parse_exact [of "''-1.5''" Bit True 150] by simp
qed

lemma checked_add_some: "checked_add_u64 a b = Some c \<longleftrightarrow> unat c = unat a + unat b"
  using checked_add_value [of "Amount a" "Amount b" "Amount c"] by (auto simp: amount_checked_add_def)

lemma checked_mul_some: "checked_mul_u64 a b = Some c \<longleftrightarrow> unat c = unat a * unat b"
proof -
  have e: "unat (a * b) = unat a * unat b \<longleftrightarrow> unat a * unat b < 2 ^ 64" using unat_mult_lem [of a b] by simp
  have "checked_mul_u64 a b = Some c \<longleftrightarrow> unat a * unat b < 2 ^ 64 \<and> unat c = unat (a * b)"
    by (auto simp: checked_mul_u64_def word_unat_eq_iff [where v = "a * b"])
  then show ?thesis using e u64_bound [of c] by auto
qed

lemma unsigned_of_nat_back: "word_of_nat (unat w) = (w :: u64)"
  by simp

lemma u64_of_nat: "n < 2 ^ 64 \<Longrightarrow> \<exists>w :: u64. unat w = n"
  using of_nat_inverse [of n, where 'a = 64] by auto

lemma mul_by_weight_value:
  "checked_mul_by_weight r w = Some a \<longleftrightarrow>
   (let n = unat (to_sat_per_kwu r) * unat (to_wu w) + 999 in n < 2 ^ 64 \<and> unat (to_sat a) = n div 1000)"
proof -
  let ?n = "unat (to_sat_per_kwu r) * unat (to_wu w) + 999"
  have th: "unat (1000 :: u64) = 1000" "unat (999 :: u64) = 999" by simp_all
  have "Option.bind (checked_mul_u64 (to_sat_per_kwu r) (to_wu w)) (\<lambda>x. checked_add_u64 x 999) = Some y \<longleftrightarrow> unat y = ?n" for y
  proof
    assume "Option.bind (checked_mul_u64 (to_sat_per_kwu r) (to_wu w)) (\<lambda>x. checked_add_u64 x 999) = Some y"
    then show "unat y = ?n" by (auto simp: bind_eq_Some_conv checked_mul_some checked_add_some)
  next
    assume y: "unat y = ?n"
    then have "unat (to_sat_per_kwu r) * unat (to_wu w) < 2 ^ 64" using u64_bound [of y] by linarith
    then obtain x :: u64 where "unat x = unat (to_sat_per_kwu r) * unat (to_wu w)" using u64_of_nat by blast
    then have "checked_mul_u64 (to_sat_per_kwu r) (to_wu w) = Some x" "checked_add_u64 x 999 = Some y"
      using y by (simp_all add: checked_mul_some checked_add_some)
    then show "Option.bind (checked_mul_u64 (to_sat_per_kwu r) (to_wu w)) (\<lambda>x. checked_add_u64 x 999) = Some y" by simp
  qed
  then have "checked_mul_by_weight r w = Some a \<longleftrightarrow> (\<exists>y :: u64. unat y = ?n \<and> a = Amount (y div 1000))"
    unfolding checked_mul_by_weight_def by auto
  also have "\<dots> \<longleftrightarrow> ?n < 2 ^ 64 \<and> unat (to_sat a) = ?n div 1000"
  proof
    assume "\<exists>y :: u64. unat y = ?n \<and> a = Amount (y div 1000)"
    then obtain y :: u64 where y: "unat y = ?n" "a = Amount (y div 1000)" by blast
    then show "?n < 2 ^ 64 \<and> unat (to_sat a) = ?n div 1000" using u64_bound [of y] by (simp add: unat_div th)
  next
    assume n: "?n < 2 ^ 64 \<and> unat (to_sat a) = ?n div 1000"
    then obtain y :: u64 where y: "unat y = ?n" using u64_of_nat [of ?n] by blast
    then have "unat (to_sat a) = unat (y div 1000)" using n by (simp add: unat_div th)
    then show "\<exists>y :: u64. unat y = ?n \<and> a = Amount (y div 1000)" using y by (cases a) (auto simp: word_unat_eq_iff)
  qed
  finally show ?thesis by (simp add: Let_def)
qed

text \<open>Fees are rounded up and exact: a fee is refused exactly if the intermediate sum does not fit, and virtual bytes
  count four weight units each; the conversion to whole rates per virtual byte rounds as its name says, unless it
  overflows.\<close>

theorem fee_exact:
  "(fee_wu r w = Some a \<longleftrightarrow>
      unat (to_sat_per_kwu r) * unat (to_wu w) + 999 < 2 ^ 64 \<and>
      unat (to_sat a) = (unat (to_sat_per_kwu r) * unat (to_wu w) + 999) div 1000) \<and>
   (fee_vb r vb = Some a \<longleftrightarrow>
      4 * unat vb < 2 ^ 64 \<and> unat (to_sat_per_kwu r) * (4 * unat vb) + 999 < 2 ^ 64 \<and>
      unat (to_sat a) = (unat (to_sat_per_kwu r) * (4 * unat vb) + 999) div 1000) \<and>
   unat (to_sat_per_vb_floor r) = unat (to_sat_per_kwu r) div 250 \<and>
   to_sat_per_vb_ceil True r =
     (if unat (to_sat_per_kwu r) + 249 < 2 ^ 64 then Some (word_of_nat ((unat (to_sat_per_kwu r) + 249) div 250)) else None)"
proof -
  have vb: "fee_vb r vb = Some a \<longleftrightarrow> (4 * unat vb < 2 ^ 64 \<and> unat (to_sat_per_kwu r) * (4 * unat vb) + 999 < 2 ^ 64 \<and>
      unat (to_sat a) = (unat (to_sat_per_kwu r) * (4 * unat vb) + 999) div 1000)"
  proof (cases "4 * unat vb < 2 ^ 64")
    case True
    then have m: "unat (vb * 4) = 4 * unat vb" using unat_mult_lem [of vb 4] by simp
    then have "fee_vb r vb = fee_wu r (Weight (vb * 4))"
      using True by (simp add: fee_vb_def from_vb_def checked_mul_u64_def WITNESS_SCALE_FACTOR_def mult.commute)
    then show ?thesis using True m by (simp add: fee_wu_def mul_by_weight_value Let_def)
  next
    case False
    then show ?thesis by (simp add: fee_vb_def from_vb_def checked_mul_u64_def WITNESS_SCALE_FACTOR_def mult.commute)
  qed
  have k: "1000 div 4 = (250 :: u64)" "unat (250 :: u64) = 250" "unat (249 :: u64) = 249" "1000 div 4 - 1 = (249 :: u64)" by simp_all
  have "to_sat_per_vb_ceil True r =
     (if unat (to_sat_per_kwu r) + 249 < 2 ^ 64 then Some (word_of_nat ((unat (to_sat_per_kwu r) + 249) div 250)) else None)"
  proof (cases "unat (to_sat_per_kwu r) + 249 < 2 ^ 64")
    case True
    then have "unat (to_sat_per_kwu r + 249) = unat (to_sat_per_kwu r) + 249" using unat_add_lem [of "to_sat_per_kwu r" 249] by simp
    then have "unat ((to_sat_per_kwu r + 249) div 250) = (unat (to_sat_per_kwu r) + 249) div 250" by (simp add: unat_div k)
    then have "(to_sat_per_kwu r + 249) div 250 = word_of_nat ((unat (to_sat_per_kwu r) + 249) div 250)" by (metis unsigned_of_nat_back)
    then show ?thesis using True unfolding to_sat_per_vb_ceil_def k by auto
  qed (auto simp: to_sat_per_vb_ceil_def)
  then show ?thesis using vb by (simp add: fee_wu_def mul_by_weight_value Let_def to_sat_per_vb_floor_def unat_div)
qed

end
