(* ===== verification/Taproot.thy ===== *)
theory Taproot
  imports Transaction "HOL-Library.Multiset"
begin

text \<open>
  Taproot script trees, \<open>taproot/mod.rs\<close> and \<open>taproot/merkle_branch.rs\<close>: tagged hashes (\<open>hashes/src/sha256t.rs\<close>), leaf
  versions, merkle branches, the builder that takes leaves in depth-first order, Huffman trees, spending
  information and control blocks. The curve operations come from secp256k1: they are the fields of the record
  \<open>Secp\<close>, an argument of the definitions that use them. Keys are given by their serialization, parities by whether
  they are odd.
\<close>

section \<open>Tagged hashes\<close>

definition tag_engine :: "string \<Rightarrow> HashEngine option" where
  "tag_engine tag = from_midstate (hash_tag (ascii tag)) 64"

definition tagged_hash :: "string \<Rightarrow> bytes list \<Rightarrow> bytes" where
  "tagged_hash tag chunks = (case tag_engine tag of Some e \<Rightarrow> from_engine (fold (\<lambda>s e. input e s) chunks e) | None \<Rightarrow> [])"

datatype LeafVersion = TapScript | Future u8

definition TAPROOT_CONTROL_MAX_NODE_COUNT :: nat where "TAPROOT_CONTROL_MAX_NODE_COUNT = 128"
definition TAPROOT_CONTROL_NODE_SIZE :: nat where "TAPROOT_CONTROL_NODE_SIZE = 32"
definition TAPROOT_LEAF_MASK :: u8 where "TAPROOT_LEAF_MASK = 0xfe"
definition TAPROOT_LEAF_TAPSCRIPT :: u8 where "TAPROOT_LEAF_TAPSCRIPT = 0xc0"
definition TAPROOT_CONTROL_BASE_SIZE :: nat where "TAPROOT_CONTROL_BASE_SIZE = 33"

lemmas taproot_consts = TAPROOT_CONTROL_MAX_NODE_COUNT_def TAPROOT_CONTROL_NODE_SIZE_def TAPROOT_LEAF_MASK_def
  TAPROOT_LEAF_TAPSCRIPT_def TAPROOT_CONTROL_BASE_SIZE_def TAPROOT_ANNEX_PREFIX_def

datatype TaprootError =
  InvalidMerkleBranchSize nat | InvalidMerkleTreeDepth nat | InvalidTaprootLeafVersion u8 | InvalidControlBlockSize nat |
  InvalidInternalKey | EmptyTree

datatype TaprootBuilderError =
  BuilderInvalidMerkleTreeDepth nat | NodeNotInDfsOrder | OverCompleteTree | BuilderInvalidInternalKey | BuilderEmptyTree

text \<open>The value \<open>0xc0\<close> is excluded by the caller.\<close>

definition future_from_consensus :: "u8 \<Rightarrow> (TaprootError + u8) option" where
  "future_from_consensus version =
     (if version = TAPROOT_LEAF_TAPSCRIPT then None
      else if version = TAPROOT_ANNEX_PREFIX then Some (Inl (InvalidTaprootLeafVersion TAPROOT_ANNEX_PREFIX))
      else if version AND 0xFE \<noteq> version then Some (Inl (InvalidTaprootLeafVersion version))
      else Some (Inr version))"

definition leafver_from_consensus :: "u8 \<Rightarrow> (TaprootError + LeafVersion) option" where
  "leafver_from_consensus version =
     (if version = TAPROOT_LEAF_TAPSCRIPT then Some (Inr TapScript)
      else if version = TAPROOT_ANNEX_PREFIX then Some (Inl (InvalidTaprootLeafVersion TAPROOT_ANNEX_PREFIX))
      else map_option (map_sum id Future) (future_from_consensus version))"

fun leafver_to_consensus :: "LeafVersion \<Rightarrow> u8" where
  "leafver_to_consensus TapScript = TAPROOT_LEAF_TAPSCRIPT"
| "leafver_to_consensus (Future v) = v"

definition leaf_hash_from_script :: "bytes \<Rightarrow> LeafVersion \<Rightarrow> bytes" where
  "leaf_hash_from_script script ver = tagged_hash ''TapLeaf'' [fst (emit_u8 (leafver_to_consensus ver)), fst (enc_with_size script)]"

definition node_hash_from_script :: "bytes \<Rightarrow> LeafVersion \<Rightarrow> bytes" where
  "node_hash_from_script script ver = leaf_hash_from_script script ver"

definition tweak_from_key_and_tweak :: "bytes \<Rightarrow> bytes option \<Rightarrow> bytes" where
  "tweak_from_key_and_tweak internal_key root =
     tagged_hash ''TapTweak'' (internal_key # (case root of Some h \<Rightarrow> [h] | None \<Rightarrow> []))"

section \<open>Orders\<close>

text \<open>The derived orders compare field by field, lists lexicographically.\<close>

datatype Ordering = Less | Equal | Greater

fun then_cmp :: "Ordering \<Rightarrow> Ordering \<Rightarrow> Ordering" where
  "then_cmp Equal r = r"
| "then_cmp Less r = Less"
| "then_cmp Greater r = Greater"

definition cmp_by :: "'a::linorder \<Rightarrow> 'a \<Rightarrow> Ordering" where
  "cmp_by a b = (if a < b then Less else if a = b then Equal else Greater)"

fun cmp_list :: "('a \<Rightarrow> 'a \<Rightarrow> Ordering) \<Rightarrow> 'a list \<Rightarrow> 'a list \<Rightarrow> Ordering" where
  "cmp_list c [] [] = Equal"
| "cmp_list c [] (y # ys) = Less"
| "cmp_list c (x # xs) [] = Greater"
| "cmp_list c (x # xs) (y # ys) = then_cmp (c x y) (cmp_list c xs ys)"

abbreviation cmp_bytes :: "bytes \<Rightarrow> bytes \<Rightarrow> Ordering" where "cmp_bytes \<equiv> cmp_list cmp_by"

section \<open>Nodes\<close>

definition combine_node_hashes :: "bytes \<Rightarrow> bytes \<Rightarrow> bytes \<times> bool" where
  "combine_node_hashes a b =
     (let lt = (cmp_bytes a b = Less)
      in (tagged_hash ''TapBranch'' (if lt then [a, b] else [b, a]), lt))"

definition from_node_hashes :: "bytes \<Rightarrow> bytes \<Rightarrow> bytes" where
  "from_node_hashes a b = fst (combine_node_hashes a b)"

datatype TapLeaf = ScriptLeaf bytes LeafVersion | HiddenLeaf bytes

record LeafNode =
  leaf :: TapLeaf
  merkle_branch :: "bytes list"

definition leaf_new_script :: "bytes \<Rightarrow> LeafVersion \<Rightarrow> LeafNode" where
  "leaf_new_script script ver = \<lparr> leaf = ScriptLeaf script ver, merkle_branch = [] \<rparr>"

definition leaf_new_hidden :: "bytes \<Rightarrow> LeafNode" where
  "leaf_new_hidden hash = \<lparr> leaf = HiddenLeaf hash, merkle_branch = [] \<rparr>"

definition leaf_node_hash :: "LeafNode \<Rightarrow> bytes" where
  "leaf_node_hash n = (case leaf n of ScriptLeaf script ver \<Rightarrow> leaf_hash_from_script script ver | HiddenLeaf hash \<Rightarrow> hash)"

definition leaf_depth :: "LeafNode \<Rightarrow> u8 option" where
  "leaf_depth n = (if length (merkle_branch n) < 256 then Some (word_of_nat (length (merkle_branch n))) else None)"

definition branch_push :: "bytes list \<Rightarrow> bytes \<Rightarrow> TaprootBuilderError + bytes list" where
  "branch_push br h =
     (if length br \<ge> TAPROOT_CONTROL_MAX_NODE_COUNT then Inl (BuilderInvalidMerkleTreeDepth (length br)) else Inr (br @ [h]))"

record NodeInfo =
  node_hash :: bytes
  leaves :: "LeafNode list"
  has_hidden_nodes :: bool

definition new_hidden_node :: "bytes \<Rightarrow> NodeInfo" where
  "new_hidden_node hash = \<lparr> node_hash = hash, leaves = [], has_hidden_nodes = True \<rparr>"

definition new_leaf_with_ver :: "bytes \<Rightarrow> LeafVersion \<Rightarrow> NodeInfo" where
  "new_leaf_with_ver script ver =
     \<lparr> node_hash = node_hash_from_script script ver, leaves = [leaf_new_script script ver], has_hidden_nodes = False \<rparr>"

fun push_partner :: "bytes \<Rightarrow> LeafNode list \<Rightarrow> TaprootBuilderError + LeafNode list" where
  "push_partner h [] = Inr []"
| "push_partner h (l # ls) =
     (case branch_push (merkle_branch l) h of
        Inl e \<Rightarrow> Inl e
      | Inr br \<Rightarrow> (case push_partner h ls of Inl e \<Rightarrow> Inl e | Inr ls \<Rightarrow> Inr (l\<lparr> merkle_branch := br \<rparr> # ls)))"

definition combine :: "NodeInfo \<Rightarrow> NodeInfo \<Rightarrow> TaprootBuilderError + NodeInfo" where
  "combine a b =
     (let (hash, left_first) = combine_node_hashes (node_hash a) (node_hash b);
          (a, b) = (if left_first then (a, b) else (b, a))
      in case push_partner (node_hash b) (leaves a) of
           Inl e \<Rightarrow> Inl e
         | Inr as \<Rightarrow>
             (case push_partner (node_hash a) (leaves b) of
                Inl e \<Rightarrow> Inl e
              | Inr bs \<Rightarrow> Inr \<lparr> node_hash = hash, leaves = as @ bs, has_hidden_nodes = has_hidden_nodes a \<or> has_hidden_nodes b \<rparr>))"

section \<open>The builder\<close>

type_synonym TaprootBuilder = "NodeInfo option list"

datatype IncompleteBuilderError = NotFinalized TaprootBuilder | HiddenParts TaprootBuilder

definition builder_empty :: TaprootBuilder where "builder_empty = []"

text \<open>The loop that combines the node with the last node of the branch while they are siblings.\<close>

function insert_loop :: "TaprootBuilder \<Rightarrow> NodeInfo \<Rightarrow> nat \<Rightarrow> TaprootBuilderError + (TaprootBuilder \<times> NodeInfo \<times> nat)" where
  "insert_loop branch nd depth =
     (if branch \<noteq> [] \<and> length branch = depth + 1
      then (case last branch of
              None \<Rightarrow> Inr (branch, nd, depth)
            | Some child \<Rightarrow>
                if depth = 0 then Inl OverCompleteTree
                else (case combine nd child of
                        Inl e \<Rightarrow> Inl e
                      | Inr nd \<Rightarrow> insert_loop (butlast branch) nd (depth - 1)))
      else Inr (branch, nd, depth))"
  by pat_completeness auto
termination
  by (relation "measure (\<lambda>(b, n, d). length b)") auto

declare insert_loop.simps [simp del]

definition builder_insert :: "TaprootBuilder \<Rightarrow> NodeInfo \<Rightarrow> u8 \<Rightarrow> TaprootBuilderError + TaprootBuilder" where
  "builder_insert branch nd depth8 =
     (let depth = unat depth8
      in if depth > TAPROOT_CONTROL_MAX_NODE_COUNT then Inl (BuilderInvalidMerkleTreeDepth depth)
         else if depth + 1 < length branch then Inl NodeNotInDfsOrder
         else (case insert_loop branch nd depth of
                 Inl e \<Rightarrow> Inl e
               | Inr (branch, nd, depth) \<Rightarrow>
                   (let branch = (if length branch < depth + 1 then branch @ replicate (depth + 1 - length branch) None else branch)
                    in Inr (branch[depth := Some nd]))))"

definition add_leaf_with_ver :: "TaprootBuilder \<Rightarrow> u8 \<Rightarrow> bytes \<Rightarrow> LeafVersion \<Rightarrow> TaprootBuilderError + TaprootBuilder" where
  "add_leaf_with_ver b depth script ver = builder_insert b (new_leaf_with_ver script ver) depth"

definition add_leaf :: "TaprootBuilder \<Rightarrow> u8 \<Rightarrow> bytes \<Rightarrow> TaprootBuilderError + TaprootBuilder" where
  "add_leaf b depth script = add_leaf_with_ver b depth script TapScript"

definition add_hidden_node :: "TaprootBuilder \<Rightarrow> u8 \<Rightarrow> bytes \<Rightarrow> TaprootBuilderError + TaprootBuilder" where
  "add_hidden_node b depth hash = builder_insert b (new_hidden_node hash) depth"

definition is_finalizable :: "TaprootBuilder \<Rightarrow> bool" where
  "is_finalizable b \<longleftrightarrow> length b = 1 \<and> b ! 0 \<noteq> None"

text \<open>The invariant of the builder is that its last node exists; the outer option is the panic without it.\<close>

definition try_into_node_info :: "TaprootBuilder \<Rightarrow> (IncompleteBuilderError + NodeInfo) option" where
  "try_into_node_info b = (if length b \<noteq> 1 then Some (Inl (NotFinalized b)) else map_option Inr (b ! 0))"

definition try_into_taptree :: "TaprootBuilder \<Rightarrow> (IncompleteBuilderError + NodeInfo) option" where
  "try_into_taptree b =
     map_option (\<lambda>r. case r of
         Inl e \<Rightarrow> Inl e
       | Inr nd \<Rightarrow> if has_hidden_nodes nd then Inl (HiddenParts [Some nd]) else Inr nd) (try_into_node_info b)"

definition builder_has_hidden_nodes :: "TaprootBuilder \<Rightarrow> bool" where
  "builder_has_hidden_nodes b \<longleftrightarrow> list_ex (\<lambda>n. case n of Some n \<Rightarrow> has_hidden_nodes n | None \<Rightarrow> False) b"

section \<open>Huffman trees\<close>

fun cmp_leafver :: "LeafVersion \<Rightarrow> LeafVersion \<Rightarrow> Ordering" where
  "cmp_leafver TapScript TapScript = Equal"
| "cmp_leafver TapScript (Future _) = Less"
| "cmp_leafver (Future _) TapScript = Greater"
| "cmp_leafver (Future a) (Future b) = cmp_by a b"

fun cmp_tapleaf :: "TapLeaf \<Rightarrow> TapLeaf \<Rightarrow> Ordering" where
  "cmp_tapleaf (ScriptLeaf s v) (ScriptLeaf s' v') = then_cmp (cmp_bytes s s') (cmp_leafver v v')"
| "cmp_tapleaf (ScriptLeaf _ _) (HiddenLeaf _) = Less"
| "cmp_tapleaf (HiddenLeaf _) (ScriptLeaf _ _) = Greater"
| "cmp_tapleaf (HiddenLeaf a) (HiddenLeaf b) = cmp_bytes a b"

definition cmp_leafnode :: "LeafNode \<Rightarrow> LeafNode \<Rightarrow> Ordering" where
  "cmp_leafnode a b = then_cmp (cmp_tapleaf (leaf a) (leaf b)) (cmp_list cmp_bytes (merkle_branch a) (merkle_branch b))"

definition cmp_node :: "NodeInfo \<Rightarrow> NodeInfo \<Rightarrow> Ordering" where
  "cmp_node a b =
     then_cmp (cmp_bytes (node_hash a) (node_hash b))
       (then_cmp (cmp_list cmp_leafnode (leaves a) (leaves b)) (cmp_by (has_hidden_nodes a) (has_hidden_nodes b)))"

text \<open>The heap pops its greatest entry; weights are reversed, so that this is the lightest node.\<close>

definition cmp_weighted :: "u32 \<times> NodeInfo \<Rightarrow> u32 \<times> NodeInfo \<Rightarrow> Ordering" where
  "cmp_weighted a b = then_cmp (cmp_by (fst b) (fst a)) (cmp_node (snd a) (snd b))"

fun heap_pop :: "(u32 \<times> NodeInfo) list \<Rightarrow> ((u32 \<times> NodeInfo) \<times> (u32 \<times> NodeInfo) list) option" where
  "heap_pop [] = None"
| "heap_pop (x # xs) =
     (case heap_pop xs of
        None \<Rightarrow> Some (x, [])
      | Some (y, ys) \<Rightarrow> if cmp_weighted x y = Less then Some (y, x # ys) else Some (x, y # ys))"

definition saturating_add :: "u32 \<Rightarrow> u32 \<Rightarrow> u32" where
  "saturating_add a b = (if unat a + unat b < 2 ^ 32 then a + b else - 1)"

lemma heap_pop_None: "heap_pop xs = None \<longleftrightarrow> xs = []"
  by (cases xs) (auto split: option.splits if_splits)

lemma heap_pop_length: "heap_pop xs = Some (y, ys) \<Longrightarrow> length xs = Suc (length ys)"
  by (induction xs arbitrary: y ys) (auto simp: heap_pop_None split: option.splits if_splits)

function huffman_loop :: "(u32 \<times> NodeInfo) list \<Rightarrow> TaprootBuilderError + (u32 \<times> NodeInfo) list" where
  "huffman_loop nodes =
     (case heap_pop nodes of
        Some ((p1, s1), nodes1) \<Rightarrow>
          (case heap_pop nodes1 of
             Some ((p2, s2), nodes2) \<Rightarrow>
               (case combine s1 s2 of
                  Inl e \<Rightarrow> Inl e
                | Inr s \<Rightarrow> huffman_loop ((saturating_add p1 p2, s) # nodes2))
           | None \<Rightarrow> Inr nodes)
      | None \<Rightarrow> Inr nodes)"
  by pat_completeness auto
termination
  by (relation "measure length") (auto dest!: heap_pop_length)

declare huffman_loop.simps [simp del]

definition with_huffman_tree :: "(u32 \<times> bytes) list \<Rightarrow> (TaprootBuilderError + TaprootBuilder) option" where
  "with_huffman_tree script_weights =
     (let nodes = map (\<lambda>(p, script). (p, new_leaf_with_ver script TapScript)) script_weights
      in if nodes = [] then Some (Inl BuilderEmptyTree)
         else (case huffman_loop nodes of
                 Inl e \<Rightarrow> Some (Inl e)
               | Inr [(p, nd)] \<Rightarrow> Some (Inr [Some nd])
               | Inr _ \<Rightarrow> None))"

section \<open>Spending information\<close>

record Secp =
  xonly_valid :: "bytes \<Rightarrow> bool"
  scalar_valid :: "bytes \<Rightarrow> bool"
  add_tweak :: "bytes \<Rightarrow> bytes \<Rightarrow> (bytes \<times> bool) option"
  tweak_add_check :: "bytes \<Rightarrow> bytes \<Rightarrow> bool \<Rightarrow> bytes \<Rightarrow> bool"

definition to_scalar :: "Secp \<Rightarrow> bytes \<Rightarrow> bytes option" where
  "to_scalar secp h = (if scalar_valid secp h then Some h else None)"

text \<open>\<open>tap_tweak\<close> of \<open>crypto/key.rs\<close>; it panics if the tweak is no scalar or the result is no point.\<close>

definition tap_tweak :: "Secp \<Rightarrow> bytes \<Rightarrow> bytes option \<Rightarrow> (bytes \<times> bool) option" where
  "tap_tweak secp key root =
     Option.bind (to_scalar secp (tweak_from_key_and_tweak key root)) (\<lambda>tweak. add_tweak secp key tweak)"

record TaprootSpendInfo =
  si_internal_key :: bytes
  si_merkle_root :: "bytes option"
  si_output_key_parity :: bool
  si_output_key :: bytes
  si_script_map :: "bytes \<times> LeafVersion \<rightharpoonup> bytes list list"

definition new_key_spend :: "Secp \<Rightarrow> bytes \<Rightarrow> bytes option \<Rightarrow> TaprootSpendInfo option" where
  "new_key_spend secp key root =
     map_option (\<lambda>(output_key, parity).
       \<lparr> si_internal_key = key, si_merkle_root = root, si_output_key_parity = parity, si_output_key = output_key,
         si_script_map = Map.empty \<rparr>) (tap_tweak secp key root)"

text \<open>A tree set of merkle branches is its sorted list.\<close>

fun set_insert :: "bytes list \<Rightarrow> bytes list list \<Rightarrow> bytes list list" where
  "set_insert x [] = [x]"
| "set_insert x (y # ys) =
     (case cmp_list cmp_bytes x y of Less \<Rightarrow> x # y # ys | Equal \<Rightarrow> y # ys | Greater \<Rightarrow> y # set_insert x ys)"

fun map_leaf :: "LeafNode \<Rightarrow> (bytes \<times> LeafVersion \<rightharpoonup> bytes list list) \<Rightarrow> (bytes \<times> LeafVersion \<rightharpoonup> bytes list list)" where
  "map_leaf n m =
     (case leaf n of
        HiddenLeaf _ \<Rightarrow> m
      | ScriptLeaf script ver \<Rightarrow>
          (case m (script, ver) of
             None \<Rightarrow> m((script, ver) \<mapsto> set_insert (merkle_branch n) [])
           | Some st \<Rightarrow> m((script, ver) \<mapsto> set_insert (merkle_branch n) st)))"

definition from_node_info :: "Secp \<Rightarrow> bytes \<Rightarrow> NodeInfo \<Rightarrow> TaprootSpendInfo option" where
  "from_node_info secp key nd =
     map_option (\<lambda>info. info\<lparr> si_script_map := fold map_leaf (leaves nd) (si_script_map info) \<rparr>)
       (new_key_spend secp key (Some (node_hash nd)))"

definition builder_finalize :: "Secp \<Rightarrow> TaprootBuilder \<Rightarrow> bytes \<Rightarrow> (TaprootBuilder + TaprootSpendInfo) option" where
  "builder_finalize secp b key =
     (case b of
        [] \<Rightarrow> map_option Inr (new_key_spend secp key None)
      | [n] \<Rightarrow> (case n of Some nd \<Rightarrow> map_option Inr (from_node_info secp key nd) | None \<Rightarrow> None)
      | _ \<Rightarrow> Some (Inl b))"

section \<open>Control blocks\<close>

record ControlBlock =
  cb_leaf_version :: LeafVersion
  cb_parity :: bool
  cb_internal_key :: bytes
  cb_merkle_branch :: "bytes list"

text \<open>\<open>Iterator::min_by\<close> gives the first of the shortest.\<close>

fun min_by_len :: "bytes list list \<Rightarrow> bytes list option" where
  "min_by_len [] = None"
| "min_by_len (x # xs) = Some (fold (\<lambda>y best. if length y < length best then y else best) xs x)"

text \<open>The outer option is the lookup, the inner one the panic on an empty set.\<close>

definition control_block :: "TaprootSpendInfo \<Rightarrow> bytes \<times> LeafVersion \<Rightarrow> ControlBlock option option" where
  "control_block info script_ver =
     map_option (\<lambda>branches. map_option (\<lambda>smallest.
         \<lparr> cb_leaf_version = snd script_ver, cb_parity = si_output_key_parity info, cb_internal_key = si_internal_key info,
           cb_merkle_branch = smallest \<rparr>) (min_by_len branches)) (si_script_map info script_ver)"

fun chunks_exact :: "nat \<Rightarrow> bytes \<Rightarrow> bytes list" where
  "chunks_exact 0 bs = []"
| "chunks_exact (Suc n) bs = take 32 bs # chunks_exact n (drop 32 bs)"

definition branch_decode :: "bytes \<Rightarrow> TaprootError + bytes list" where
  "branch_decode sl =
     (if length sl mod TAPROOT_CONTROL_NODE_SIZE \<noteq> 0 then Inl (InvalidMerkleBranchSize (length sl))
      else if length sl > TAPROOT_CONTROL_NODE_SIZE * TAPROOT_CONTROL_MAX_NODE_COUNT
      then Inl (InvalidMerkleTreeDepth (length sl div TAPROOT_CONTROL_NODE_SIZE))
      else Inr (chunks_exact (length sl div TAPROOT_CONTROL_NODE_SIZE) sl))"

definition branch_encode :: "bytes list \<Rightarrow> bytes \<times> nat" where
  "branch_encode br = (concat br, length br * 32)"

definition branch_from_collection :: "bytes list \<Rightarrow> TaprootError + bytes list" where
  "branch_from_collection br =
     (if length br > TAPROOT_CONTROL_MAX_NODE_COUNT then Inl (InvalidMerkleTreeDepth (length br)) else Inr br)"

definition cb_decode :: "Secp \<Rightarrow> bytes \<Rightarrow> (TaprootError + ControlBlock) option" where
  "cb_decode secp sl =
     (if length sl < TAPROOT_CONTROL_BASE_SIZE \<or> (length sl - TAPROOT_CONTROL_BASE_SIZE) mod TAPROOT_CONTROL_NODE_SIZE \<noteq> 0
      then Some (Inl (InvalidControlBlockSize (length sl)))
      else map_option (\<lambda>r. case r of
               Inl e \<Rightarrow> Inl e
             | Inr leaf_version \<Rightarrow>
                 (let key = take (TAPROOT_CONTROL_BASE_SIZE - 1) (drop 1 sl)
                  in if \<not> xonly_valid secp key then Inl InvalidInternalKey
                     else (case branch_decode (drop TAPROOT_CONTROL_BASE_SIZE sl) of
                             Inl e \<Rightarrow> Inl e
                           | Inr br \<Rightarrow> Inr \<lparr> cb_leaf_version = leaf_version, cb_parity = (sl ! 0 AND 1 \<noteq> 0), cb_internal_key = key,
                                            cb_merkle_branch = br \<rparr>)))
           (leafver_from_consensus (sl ! 0 AND TAPROOT_LEAF_MASK)))"

definition cb_size :: "ControlBlock \<Rightarrow> nat" where
  "cb_size cb = TAPROOT_CONTROL_BASE_SIZE + TAPROOT_CONTROL_NODE_SIZE * length (cb_merkle_branch cb)"

definition cb_encode :: "ControlBlock \<Rightarrow> bytes \<times> nat" where
  "cb_encode cb =
     (let first_byte = (if cb_parity cb then 1 else 0) OR leafver_to_consensus (cb_leaf_version cb)
      in ([first_byte] @ cb_internal_key cb @ fst (branch_encode (cb_merkle_branch cb)), cb_size cb))"

definition cb_serialize :: "ControlBlock \<Rightarrow> bytes" where "cb_serialize cb = fst (cb_encode cb)"

text \<open>None is the panic of a tweak that is no scalar.\<close>

definition verify_taproot_commitment :: "Secp \<Rightarrow> ControlBlock \<Rightarrow> bytes \<Rightarrow> bytes \<Rightarrow> bool option" where
  "verify_taproot_commitment secp cb output_key script =
     (let curr_hash = fold (\<lambda>elem h. from_node_hashes h elem) (cb_merkle_branch cb) (node_hash_from_script script (cb_leaf_version cb))
      in map_option (\<lambda>tweak. tweak_add_check secp (cb_internal_key cb) output_key (cb_parity cb) tweak)
           (to_scalar secp (tweak_from_key_and_tweak (cb_internal_key cb) (Some curr_hash))))"

section \<open>Trees\<close>

text \<open>The trees a builder stands for.\<close>

datatype ScriptTree = TLeaf bytes LeafVersion | THidden bytes | TBranch ScriptTree ScriptTree

fun tree_hash :: "ScriptTree \<Rightarrow> bytes" where
  "tree_hash (TLeaf s v) = leaf_hash_from_script s v"
| "tree_hash (THidden h) = h"
| "tree_hash (TBranch l r) = from_node_hashes (tree_hash l) (tree_hash r)"

fun script_height :: "ScriptTree \<Rightarrow> nat" where
  "script_height (TBranch l r) = Suc (max (script_height l) (script_height r))"
| "script_height _ = 0"

fun tree_hidden :: "ScriptTree \<Rightarrow> bool" where
  "tree_hidden (TLeaf _ _) = False"
| "tree_hidden (THidden _) = True"
| "tree_hidden (TBranch l r) = (tree_hidden l \<or> tree_hidden r)"

text \<open>The script leaves with the sibling hashes on the way to the root; the subtree of the smaller hash comes first.\<close>

definition tree_step :: "bytes \<Rightarrow> LeafNode \<Rightarrow> LeafNode" where
  "tree_step h n = n\<lparr> merkle_branch := merkle_branch n @ [h] \<rparr>"

fun tree_leaves :: "ScriptTree \<Rightarrow> LeafNode list" where
  "tree_leaves (TLeaf s v) = [leaf_new_script s v]"
| "tree_leaves (THidden h) = []"
| "tree_leaves (TBranch l r) =
     (let ls = map (tree_step (tree_hash r)) (tree_leaves l); rs = map (tree_step (tree_hash l)) (tree_leaves r)
      in if cmp_bytes (tree_hash r) (tree_hash l) = Less then rs @ ls else ls @ rs)"

definition tree_node :: "ScriptTree \<Rightarrow> NodeInfo" where
  "tree_node t = \<lparr> node_hash = tree_hash t, leaves = tree_leaves t, has_hidden_nodes = tree_hidden t \<rparr>"

datatype TreeItem = AddLeaf bytes LeafVersion | AddHidden bytes

fun item_tree :: "TreeItem \<Rightarrow> ScriptTree" where
  "item_tree (AddLeaf s v) = TLeaf s v"
| "item_tree (AddHidden h) = THidden h"

fun tree_dfs :: "nat \<Rightarrow> ScriptTree \<Rightarrow> (nat \<times> TreeItem) list" where
  "tree_dfs d (TLeaf s v) = [(d, AddLeaf s v)]"
| "tree_dfs d (THidden h) = [(d, AddHidden h)]"
| "tree_dfs d (TBranch l r) = tree_dfs (Suc d) l @ tree_dfs (Suc d) r"

text \<open>One call of the builder.\<close>

fun add_item :: "u8 \<times> TreeItem \<Rightarrow> TaprootBuilderError + TaprootBuilder \<Rightarrow> TaprootBuilderError + TaprootBuilder" where
  "add_item _ (Inl e) = Inl e"
| "add_item (d, AddLeaf s v) (Inr b) = add_leaf_with_ver b d s v"
| "add_item (d, AddHidden h) (Inr b) = add_hidden_node b d h"

section \<open>Tagged hashes are hashes\<close>

lemma tagged_hash_eq:
  "tag_engine tag \<noteq> None \<and> tagged_hash tag xs = sha256_hash (sha256_hash (ascii tag) @ sha256_hash (ascii tag) @ concat xs)"
proof -
  let ?p = "sha256_hash (ascii tag) @ sha256_hash (ascii tag)"
  have p: "length ?p = 64" by simp
  then obtain e where e: "from_midstate (midstate (input engine_default ?p)) (length ?p) = Some e" "sha.engine_at (absorb H0 ?p) (length ?p) [] e"
    by (metis dvd_refl midstate_resume)
  then have t: "tag_engine tag = Some e" using p by (simp only: tag_engine_def hash_tag_eq)
  have a: "sha.engine_at (absorb H0 ?p) (length ?p) (concat xs) (fold (\<lambda>s e. input e s) xs e)" using fold_input_at [OF e(2), of xs] by simp
  then have "length_n (fold (\<lambda>s e. input e s) xs e) = length (?p @ concat xs)" by (simp add: sha.engine_at_def)
  then have "tagged_hash tag xs = regs_bytes (absorb (absorb H0 ?p) (concat xs @ sha_pad (length (?p @ concat xs))))"
    using from_engine_eq [OF a] t by (simp add: tagged_hash_def)
  also have "\<dots> = sha256_hash (?p @ concat xs)"
    using absorb_append [of ?p H0 "concat xs @ sha_pad (length (?p @ concat xs))"] p by (simp add: sha256_hash_eq)
  finally show ?thesis using t by simp
qed

lemma tagged_hash_length [simp]: "length (tagged_hash tag xs) = 32"
  by (simp add: tagged_hash_eq)

section \<open>The builder builds the tree\<close>

fun flip :: "Ordering \<Rightarrow> Ordering" where
  "flip Less = Greater" | "flip Equal = Equal" | "flip Greater = Less"

lemma flip_eq [simp]: "flip x = Equal \<longleftrightarrow> x = Equal" "flip x = Less \<longleftrightarrow> x = Greater" "flip x = Greater \<longleftrightarrow> x = Less"
  by (cases x; simp)+

lemma then_cmp_flip: "flip (then_cmp a b) = then_cmp (flip a) (flip b)"
  by (cases a) simp_all

lemma cmp_bytes_flip: "cmp_bytes b a = flip (cmp_bytes a b)"
proof (induction "cmp_by :: u8 \<Rightarrow> u8 \<Rightarrow> Ordering" a b rule: cmp_list.induct)
  case (4 x xs y ys)
  have "cmp_by y x = flip (cmp_by x y)" by (auto simp: cmp_by_def)
  then show ?case using 4 by (simp add: then_cmp_flip)
qed simp_all

lemma cmp_bytes_eq: "cmp_bytes a b = Equal \<longleftrightarrow> a = b"
proof (induction "cmp_by :: u8 \<Rightarrow> u8 \<Rightarrow> Ordering" a b rule: cmp_list.induct)
  case (4 x xs y ys)
  then show ?case by (cases "cmp_by x y") (auto simp: cmp_by_def split: if_splits)
qed simp_all

lemma node_hashes_comm: "from_node_hashes a b = from_node_hashes b a"
proof (cases "cmp_bytes a b")
  case Equal
  then have "a = b" by (simp add: cmp_bytes_eq)
  then show ?thesis by simp
qed (simp_all add: from_node_hashes_def combine_node_hashes_def cmp_bytes_flip [of b a])

lemma push_partner_ok: "push_partner h ls = Inr xs \<Longrightarrow> xs = map (tree_step h) ls"
  by (induction ls arbitrary: xs) (auto simp: branch_push_def tree_step_def split: sum.splits if_splits)

lemma push_partner_Inr: "\<forall>l\<in>set ls. length (merkle_branch l) < 128 \<Longrightarrow> push_partner h ls = Inr (map (tree_step h) ls)"
  by (induction ls) (auto simp: branch_push_def tree_step_def taproot_consts)

lemma leaves_depth: "l \<in> set (tree_leaves t) \<Longrightarrow> length (merkle_branch l) \<le> script_height t"
  by (induction t arbitrary: l) (fastforce simp: leaf_new_script_def tree_step_def Let_def split: if_splits)+

lemma combine_trees:
  assumes "script_height l < 128" "script_height r < 128"
  shows "combine (tree_node r) (tree_node l) = Inr (tree_node (TBranch l r))"
proof -
  have "push_partner h (tree_leaves l) = Inr (map (tree_step h) (tree_leaves l))"
    "push_partner h (tree_leaves r) = Inr (map (tree_step h) (tree_leaves r))" for h
    using assms leaves_depth le_less_trans by (intro push_partner_Inr; blast)+
  then show ?thesis
    using node_hashes_comm [of "tree_hash r" "tree_hash l"]
    by (auto simp: combine_def tree_node_def combine_node_hashes_def from_node_hashes_def Let_def)
qed

text \<open>The nodes of a branch as trees; the items that were added so far.\<close>

abbreviation nodes_of :: "ScriptTree option list \<Rightarrow> TaprootBuilder" where "nodes_of ts \<equiv> map (map_option tree_node) ts"

fun pending :: "nat \<Rightarrow> ScriptTree option list \<Rightarrow> (nat \<times> TreeItem) list" where
  "pending i [] = []"
| "pending i (None # ts) = pending (Suc i) ts"
| "pending i (Some t # ts) = tree_dfs i t @ pending (Suc i) ts"

lemma pending_append: "pending i (xs @ ys) = pending i xs @ pending (i + length xs) ys"
  by (induction xs arbitrary: i rule: list.induct) (auto simp: split: option.splits, case_tac x1, auto)

lemma pending_None [simp]: "pending i (replicate n None) = []"
  by (induction n arbitrary: i) simp_all

definition heights_ok :: "ScriptTree option list \<Rightarrow> bool" where
  "heights_ok ts \<longleftrightarrow> (\<forall>i t. i < length ts \<longrightarrow> ts ! i = Some t \<longrightarrow> script_height t + i \<le> 128)"

lemma heights_butlast: "heights_ok ts \<Longrightarrow> heights_ok (butlast ts)"
  by (auto simp: heights_ok_def nth_butlast)

lemma insert_loop_trees:
  assumes "heights_ok ts" "length ts \<le> d + 1" "script_height t + d \<le> 128" "insert_loop (nodes_of ts) (tree_node t) d = Inr r"
  shows "\<exists>ts' t' d'. r = (nodes_of ts', tree_node t', d') \<and> heights_ok ts' \<and> script_height t' + d' \<le> 128 \<and>
    length ts' \<le> d' + 1 \<and> (length ts' = d' + 1 \<longrightarrow> last ts' = None) \<and> pending 0 ts' @ tree_dfs d' t' = pending 0 ts @ tree_dfs d t"
  using assms
proof (induction d arbitrary: ts t)
  case 0
  show ?case
  proof (cases "ts \<noteq> [] \<and> length ts = 1")
    case True
    then have "last (nodes_of ts) = map_option tree_node (last ts)" by (simp add: last_map)
    then have "last ts = None" "r = (nodes_of ts, tree_node t, 0)"
      using "0.prems"(4) True by (auto simp: insert_loop.simps [of _ _ 0] split: option.splits)
    then show ?thesis using "0.prems" True by (intro exI [of _ ts] exI [of _ t] exI [of _ 0]) simp
  next
    case False
    then have "r = (nodes_of ts, tree_node t, 0)" using "0.prems"(4) by (auto simp: insert_loop.simps [of _ _ 0] split: if_splits)
    then show ?thesis using "0.prems" False by (intro exI [of _ ts] exI [of _ t] exI [of _ 0]) auto
  qed
next
  case (Suc d)
  show ?case
  proof (cases "length ts = Suc d + 1 \<and> last ts \<noteq> None")
    case True
    then obtain us u where ts: "ts = us @ [Some u]" by (metis append_butlast_last_id length_0_conv nat.distinct(1) not_None_eq Suc_eq_plus1)
    then have us: "length us = Suc d" "heights_ok us" using True heights_butlast [OF Suc.prems(1)] by simp_all
    have "ts ! Suc d = Some u" "Suc d < length ts" using ts us(1) by (simp_all add: nth_append)
    then have hu: "script_height u + Suc d \<le> 128" using Suc.prems(1) unfolding heights_ok_def by blast
    have "combine (tree_node t) (tree_node u) = Inr (tree_node (TBranch u t))"
      using hu Suc.prems(3) by (intro combine_trees) simp_all
    then have "insert_loop (nodes_of us) (tree_node (TBranch u t)) d = Inr r"
      using Suc.prems(4) ts us by (simp add: insert_loop.simps [of _ _ "Suc d"])
    from Suc.IH [OF us(2) _ _ this] us hu Suc.prems(3)
    show ?thesis using ts us by (auto simp: pending_append)
  next
    case False
    have "last (nodes_of ts) = None" if "length ts = Suc d + 1"
      using False that by (subst last_map) auto
    then have "r = (nodes_of ts, tree_node t, Suc d)"
      using Suc.prems(4) by (auto simp: insert_loop.simps [of _ _ "Suc d"] split: if_splits)
    then show ?thesis using Suc.prems False by (intro exI [of _ ts] exI [of _ t] exI [of _ "Suc d"]) auto
  qed
qed

lemma builder_insert_trees:
  assumes "heights_ok ts" "builder_insert (nodes_of ts) (tree_node t) d = Inr b" "script_height t = 0"
  shows "\<exists>ts'. b = nodes_of ts' \<and> heights_ok ts' \<and> ts' \<noteq> [] \<and> last ts' \<noteq> None \<and> pending 0 ts' = pending 0 ts @ tree_dfs (unat d) t"
proof -
  have d: "unat d \<le> 128" "length ts \<le> unat d + 1" using assms(2) by (auto simp: builder_insert_def taproot_consts Let_def split: if_splits)
  obtain r where r: "insert_loop (nodes_of ts) (tree_node t) (unat d) = Inr r"
    using assms(2) by (auto simp: builder_insert_def Let_def split: if_splits sum.splits)
  from insert_loop_trees [OF assms(1) d(2) _ r] d(1) assms(3)
  obtain ts' t' d' where l: "r = (nodes_of ts', tree_node t', d')" "heights_ok ts'" "script_height t' + d' \<le> 128" "length ts' \<le> d' + 1"
    "length ts' = d' + 1 \<longrightarrow> last ts' = None" "pending 0 ts' @ tree_dfs d' t' = pending 0 ts @ tree_dfs (unat d) t" by auto
  define us where "us = take d' (ts' @ replicate (d' + 1 - length ts') None)"
  have us: "length us = d'" by (simp add: us_def)
  have ext: "ts' @ replicate (d' + 1 - length ts') None = us @ [None]"
  proof -
    let ?x = "ts' @ replicate (d' + 1 - length ts') None"
    have n: "length ?x = d' + 1" using l(4) by simp
    have "ts' ! d' = None" if "length ts' = d' + 1" using l(5) that last_conv_nth [of ts'] by (cases ts') auto
    then have "?x ! d' = None" using l(4) by (cases "length ts' = d' + 1") (auto simp: nth_append)
    then show ?thesis using n unfolding us_def by (metis lessI take_Suc_conv_app_nth take_all_iff Suc_eq_plus1 order_refl)
  qed
  have p: "pending 0 us = pending 0 ts'"
    using arg_cong [OF ext, of "pending 0"] by (simp add: pending_append)
  have "nodes_of ts' @ replicate (d' + 1 - length ts') None = nodes_of (us @ [None])" unfolding ext [symmetric] by simp
  then have "b = nodes_of (us @ [Some t'])"
    using assms(2) r l(1) us by (auto simp: builder_insert_def Let_def list_update_append split: if_splits)
  moreover have "heights_ok (us @ [Some t'])"
  proof -
    have "us ! i = None \<or> us ! i = ts' ! i \<and> i < length ts'" if "i < d'" for i
      using that by (auto simp: us_def nth_append)
    then have "script_height t + i \<le> 128" if "i < d'" "us ! i = Some t" for i t
      using l(2) that unfolding heights_ok_def by (metis option.distinct(1))
    then show ?thesis using l(3) us by (auto simp: heights_ok_def nth_append less_Suc_eq)
  qed
  ultimately show ?thesis using l(6) p us by (intro exI [of _ "us @ [Some t']"]) (simp add: pending_append)
qed

lemma item_trees:
  "tree_node (item_tree (AddLeaf s v)) = new_leaf_with_ver s v" "tree_node (item_tree (AddHidden h)) = new_hidden_node h"
  "script_height (item_tree x) = 0" "tree_dfs d (item_tree x) = [(d, x)]"
  by (simp_all add: tree_node_def new_leaf_with_ver_def new_hidden_node_def node_hash_from_script_def) (cases x; simp)+

lemma add_item_eq: "add_item (d, x) (Inr b) = builder_insert b (tree_node (item_tree x)) d"
  by (cases x) (simp_all only: add_item.simps add_leaf_with_ver_def add_hidden_node_def item_trees)

lemma add_items_Inl: "fold add_item adds (Inl e) = Inl e"
  by (induction adds) simp_all

lemma builder_sound:
  assumes "heights_ok ts" "fold add_item adds (Inr (nodes_of ts)) = Inr b" "ts = [] \<or> last ts \<noteq> None"
  shows "\<exists>ts'. b = nodes_of ts' \<and> heights_ok ts' \<and> (ts' = [] \<or> last ts' \<noteq> None) \<and> pending 0 ts' = pending 0 ts @ map (apfst unat) adds"
  using assms
proof (induction adds arbitrary: ts)
  case Nil
  then show ?case by auto
next
  case (Cons a adds)
  obtain d x where a: "a = (d, x)" by fastforce
  obtain b' where b': "builder_insert (nodes_of ts) (tree_node (item_tree x)) d = Inr b'"
    using Cons.prems(2) unfolding a fold_Cons comp_def add_item_eq
    by (cases "builder_insert (nodes_of ts) (tree_node (item_tree x)) d") (simp_all add: add_items_Inl)
  from builder_insert_trees [OF Cons.prems(1) b' item_trees(3)] obtain us where
    us: "b' = nodes_of us" "heights_ok us" "us \<noteq> []" "last us \<noteq> None" "pending 0 us = pending 0 ts @ [(unat d, x)]"
    by (auto simp: item_trees)
  have "fold add_item adds (Inr (nodes_of us)) = Inr b" using Cons.prems(2) b' us(1) unfolding a fold_Cons comp_def add_item_eq by simp
  from Cons.IH [OF us(2) this] us show ?case by (auto simp: a)
qed

lemma single_node: "[Some n] = nodes_of ts \<Longrightarrow> \<exists>t. ts = [Some t] \<and> n = tree_node t"
  by (cases ts; cases "hd ts") auto

lemma builder_new_sound:
  "fold add_item adds (Inr builder_empty) = Inr b \<Longrightarrow>
   \<exists>ts. b = nodes_of ts \<and> heights_ok ts \<and> (ts = [] \<or> last ts \<noteq> None) \<and> pending 0 ts = map (apfst unat) adds"
  using builder_sound [of "[]" adds b] by (simp add: builder_empty_def heights_ok_def)

text \<open>Adding the leaves of a tree one by one is inserting its node.\<close>

definition insert_at :: "TaprootBuilder \<Rightarrow> NodeInfo \<Rightarrow> nat \<Rightarrow> TaprootBuilderError + TaprootBuilder" where
  "insert_at branch nd depth =
     (case insert_loop branch nd depth of
        Inl e \<Rightarrow> Inl e
      | Inr (branch, nd, depth) \<Rightarrow> Inr ((branch @ replicate (depth + 1 - length branch) None)[depth := Some nd]))"

lemma builder_insert_at: "unat d \<le> 128 \<Longrightarrow> length b \<le> unat d + 1 \<Longrightarrow> builder_insert b nd d = insert_at b nd (unat d)"
  by (auto simp: builder_insert_def insert_at_def taproot_consts Let_def split: sum.splits prod.splits)

lemma insert_at_short: "length b \<le> d \<Longrightarrow> insert_at b nd d = Inr (b @ replicate (d - length b) None @ [Some nd])"
proof -
  assume l: "length b \<le> d"
  then have "b @ replicate (Suc d - length b) None = (b @ replicate (d - length b) None) @ [None]"
    by (simp add: Suc_diff_le replicate_append_same)
  moreover have "((b @ replicate (d - length b) None) @ [None])[d := Some nd] = (b @ replicate (d - length b) None) @ [Some nd]"
    using l by (subst list_update_append) simp
  moreover have "insert_loop b nd d = Inr (b, nd, d)" using l by (simp add: insert_loop.simps [of b nd d])
  ultimately show ?thesis by (simp add: insert_at_def)
qed

lemma insert_at_sibling:
  "length b = d + 1 \<Longrightarrow> combine nd child = Inr nd' \<Longrightarrow> insert_at (b @ [Some child]) nd (d + 1) = insert_at b nd' d"
  by (simp add: insert_at_def insert_loop.simps [of "b @ [Some child]"])

lemma insert_at_None: "insert_at (b @ replicate (d + 1 - length b) None) nd d = insert_at b nd d" if "length b \<le> d + 1"
proof (cases "length b = d + 1")
  case False
  then have l: "length b \<le> d" using that by simp
  then have "b @ replicate (Suc d - length b) None = (b @ replicate (d - length b) None) @ [None]"
    by (simp add: Suc_diff_le replicate_append_same)
  moreover have "insert_at (x @ [None]) nd d = Inr (x @ [Some nd])" if "length x = d" for x
    using that by (simp add: insert_at_def insert_loop.simps [of "x @ [None]"] list_update_append)
  note this [of "b @ replicate (d - length b) None"]
  ultimately show ?thesis using insert_at_short [OF l, of nd] l by simp
qed simp

lemma add_tree:
  assumes "length b \<le> d + 1" "script_height t + d \<le> 128" "map (apfst unat) adds = tree_dfs d t"
  shows "fold add_item adds (Inr b) = insert_at b (tree_node t) d"
  using assms
proof (induction t arbitrary: b d adds)
  case (TLeaf s v)
  then obtain e where "adds = [(e, AddLeaf s v)]" "unat e = d" by auto
  then show ?case using TLeaf.prems by (simp only: fold_Cons fold_Nil comp_def id_apply add_item_eq) (simp add: builder_insert_at)
next
  case (THidden h)
  then obtain e where "adds = [(e, AddHidden h)]" "unat e = d" by auto
  then show ?case using THidden.prems by (simp only: fold_Cons fold_Nil comp_def id_apply add_item_eq) (simp add: builder_insert_at)
next
  case (TBranch l r)
  obtain xs ys where a: "adds = xs @ ys" "map (apfst unat) xs = tree_dfs (Suc d) l" "map (apfst unat) ys = tree_dfs (Suc d) r"
    using TBranch.prems(3) by (auto simp: map_eq_append_conv)
  let ?b = "b @ replicate (d + 1 - length b) None"
  have "fold add_item xs (Inr b) = insert_at b (tree_node l) (Suc d)" using TBranch.prems a by (intro TBranch.IH(1)) auto
  also have "\<dots> = Inr (?b @ [Some (tree_node l)])" using TBranch.prems(1) by (simp add: insert_at_short)
  finally have "fold add_item adds (Inr b) = fold add_item ys (Inr (?b @ [Some (tree_node l)]))" by (simp add: a)
  also have "\<dots> = insert_at (?b @ [Some (tree_node l)]) (tree_node r) (Suc d)"
    using TBranch.prems a by (intro TBranch.IH(2)) auto
  also have "\<dots> = insert_at ?b (tree_node (TBranch l r)) d"
    using TBranch.prems insert_at_sibling [of ?b d "tree_node r" "tree_node l" "tree_node (TBranch l r)"] combine_trees [of l r] by simp
  also have "\<dots> = insert_at b (tree_node (TBranch l r)) d" using TBranch.prems(1) by (intro insert_at_None) simp
  finally show ?case .
qed

section \<open>Commitments\<close>

lemma leaf_commits:
  "l \<in> set (tree_leaves t) \<Longrightarrow> fold (\<lambda>e h. from_node_hashes h e) (merkle_branch l) (leaf_node_hash l) = tree_hash t"
proof (induction t arbitrary: l)
  case (TLeaf s v)
  then show ?case by (simp add: leaf_new_script_def leaf_node_hash_def)
next
  case (TBranch a b)
  have step: "fold (\<lambda>e h. from_node_hashes h e) (merkle_branch (tree_step x m)) (leaf_node_hash (tree_step x m)) = from_node_hashes y x"
    if "fold (\<lambda>e h. from_node_hashes h e) (merkle_branch m) (leaf_node_hash m) = y" for x y m
    using that by (simp add: tree_step_def leaf_node_hash_def)
  from TBranch.prems consider m where "m \<in> set (tree_leaves a)" "l = tree_step (tree_hash b) m"
    | m where "m \<in> set (tree_leaves b)" "l = tree_step (tree_hash a) m" by (auto simp: Let_def split: if_splits)
  then show ?case
    using TBranch.IH step node_hashes_comm [of "tree_hash b" "tree_hash a"] by cases auto
qed simp

lemma leaves_scripts: "l \<in> set (tree_leaves t) \<Longrightarrow> \<exists>s v. leaf l = ScriptLeaf s v"
  by (induction t arbitrary: l) (auto simp: leaf_new_script_def tree_step_def Let_def split: if_splits)

lemma dfs_leaves:
  "AddLeaf s v \<in> snd ` set (tree_dfs d t) \<longleftrightarrow> (\<exists>l\<in>set (tree_leaves t). leaf l = ScriptLeaf s v)"
proof (induction t arbitrary: d)
  case (TBranch a b)
  have "(\<exists>l\<in>set (tree_leaves (TBranch a b)). leaf l = ScriptLeaf s v) \<longleftrightarrow>
      (\<exists>l\<in>set (tree_leaves a). leaf l = ScriptLeaf s v) \<or> (\<exists>l\<in>set (tree_leaves b). leaf l = ScriptLeaf s v)"
    by (auto simp: Let_def tree_step_def bex_Un)
  then show ?case using TBranch by (simp add: image_Un)
qed (auto simp: leaf_new_script_def)

lemma set_insert_set: "set (set_insert x xs) = insert x (set xs) \<or> set (set_insert x xs) = set xs \<and> (\<exists>y\<in>set xs. cmp_list cmp_bytes x y = Equal)"
  by (induction xs) (auto split: Ordering.splits)

lemma cmp_branch_eq: "cmp_list cmp_bytes x y = Equal \<longleftrightarrow> x = y"
proof (induction "cmp_bytes" x y rule: cmp_list.induct)
  case (4 x xs y ys)
  then show ?case using cmp_bytes_eq [of x y] by (cases "cmp_bytes x y") auto
qed simp_all

lemma set_insert_eq: "set (set_insert x xs) = insert x (set xs)"
  using set_insert_set [of x xs] cmp_branch_eq by auto

lemma set_insert_nonempty [simp]: "set_insert x xs \<noteq> []"
  by (cases xs) (auto split: Ordering.splits)

definition branches_of :: "LeafNode list \<Rightarrow> bytes \<times> LeafVersion \<Rightarrow> bytes list set" where
  "branches_of ls k = {merkle_branch l | l. l \<in> set ls \<and> leaf l = ScriptLeaf (fst k) (snd k)}"

lemma map_leaf_fold:
  "(case fold map_leaf ls m k of None \<Rightarrow> {} | Some st \<Rightarrow> set st) = (case m k of None \<Rightarrow> {} | Some st \<Rightarrow> set st) \<union> branches_of ls k"
proof (induction ls arbitrary: m)
  case Nil
  show ?case by (simp add: branches_of_def)
next
  case (Cons l ls)
  have "(case map_leaf l m k of None \<Rightarrow> {} | Some st \<Rightarrow> set st) = (case m k of None \<Rightarrow> {} | Some st \<Rightarrow> set st) \<union> branches_of [l] k"
    by (cases "leaf l"; cases k) (auto simp: branches_of_def set_insert_eq simp del: set_insert.simps split: option.splits)
  moreover have "branches_of (l # ls) k = branches_of [l] k \<union> branches_of ls k" by (auto simp: branches_of_def)
  ultimately show ?case using Cons.IH [of "map_leaf l m"] by (simp add: Un_assoc del: map_leaf.simps)
qed

lemma min_by_len_in: "xs \<noteq> [] \<Longrightarrow> \<exists>x. min_by_len xs = Some x \<and> x \<in> set xs \<and> (\<forall>y\<in>set xs. length x \<le> length y)"
proof -
  have f: "fold (\<lambda>y best. if length y < length best then y else best) ys x \<in> insert x (set ys) \<and>
     (\<forall>y\<in>insert x (set ys). length (fold (\<lambda>y best. if length y < length best then y else best) ys x) \<le> length y)" for x :: "bytes list" and ys
  proof (induction ys arbitrary: x)
    case (Cons y ys)
    show ?case
    proof (cases "length y < length x")
      case True
      then have "fold (\<lambda>y best. if length y < length best then y else best) (y # ys) x = fold (\<lambda>y best. if length y < length best then y else best) ys y" by simp
      then show ?thesis using Cons.IH [of y] True by fastforce
    next
      case False
      then have "fold (\<lambda>y best. if length y < length best then y else best) (y # ys) x = fold (\<lambda>y best. if length y < length best then y else best) ys x" by simp
      then show ?thesis using Cons.IH [of x] False by fastforce
    qed
  qed simp
  assume "xs \<noteq> []"
  then show ?thesis using f by (cases xs) auto
qed

lemma control_block_verifies:
  assumes law: "\<forall>k t q p. add_tweak secp k t = Some (q, p) \<longrightarrow> tweak_add_check secp k q p t"
    and info: "from_node_info secp key (tree_node t) = Some info"
    and l: "\<exists>l\<in>set (tree_leaves t). leaf l = ScriptLeaf s v"
  shows "\<exists>cb. control_block info (s, v) = Some (Some cb) \<and> verify_taproot_commitment secp cb (si_output_key info) s = Some True \<and>
    length (cb_merkle_branch cb) \<le> script_height t"
proof -
  obtain q p where tw: "tap_tweak secp key (Some (tree_hash t)) = Some (q, p)"
    and i: "si_internal_key info = key" "si_output_key_parity info = p" "si_output_key info = q"
      "si_script_map info = fold map_leaf (tree_leaves t) Map.empty"
    using info by (auto simp: from_node_info_def new_key_spend_def tree_node_def)
  have br: "(case si_script_map info (s, v) of None \<Rightarrow> {} | Some st \<Rightarrow> set st) = branches_of (tree_leaves t) (s, v)"
    using map_leaf_fold [of "tree_leaves t" Map.empty "(s, v)"] by (simp add: i)
  have ne: "branches_of (tree_leaves t) (s, v) \<noteq> {}" using l by (auto simp: branches_of_def)
  then obtain st where st1: "si_script_map info (s, v) = Some st" using br by (cases "si_script_map info (s, v)") auto
  then have st3: "set st = branches_of (tree_leaves t) (s, v)" using br by simp
  then have "st \<noteq> []" using ne by (metis set_empty)
  note st = st1 this st3
  from min_by_len_in [OF st(2)] obtain b where b: "min_by_len st = Some b" "b \<in> set st" by blast
  then obtain m where m: "m \<in> set (tree_leaves t)" "leaf m = ScriptLeaf s v" "merkle_branch m = b" using st(3) by (auto simp: branches_of_def)
  let ?cb = "\<lparr> cb_leaf_version = v, cb_parity = p, cb_internal_key = key, cb_merkle_branch = b \<rparr>"
  have root: "fold (\<lambda>e h. from_node_hashes h e) b (node_hash_from_script s v) = tree_hash t"
    using leaf_commits [OF m(1)] m by (simp add: leaf_node_hash_def node_hash_from_script_def)
  have "control_block info (s, v) = Some (Some ?cb)" using st(1) b(1) i by (simp add: control_block_def)
  moreover have "verify_taproot_commitment secp ?cb q s = Some True"
    using tw law root by (auto simp: verify_taproot_commitment_def tap_tweak_def bind_eq_Some_conv)
  moreover have "length b \<le> script_height t" using leaves_depth [OF m(1)] m(3) by simp
  ultimately show ?thesis using i by auto
qed

lemma finalize_node: "builder_finalize secp b key = Some (Inr info) \<Longrightarrow> b = [] \<or> (\<exists>n. b = [Some n] \<and> from_node_info secp key n = Some info)"
  by (auto simp: builder_finalize_def split: list.splits option.splits)

section \<open>Huffman trees\<close>

lemma heap_pop_mset: "heap_pop xs = Some (y, ys) \<Longrightarrow> mset xs = add_mset y (mset ys)"
  by (induction xs arbitrary: y ys) (auto simp: heap_pop_None split: option.splits if_splits)

fun tree_scripts :: "ScriptTree \<Rightarrow> bytes multiset" where
  "tree_scripts (TLeaf s v) = {#s#}"
| "tree_scripts (THidden h) = {#}"
| "tree_scripts (TBranch l r) = tree_scripts l + tree_scripts r"

lemma combine_trees_ok:
  assumes "combine (tree_node r) (tree_node l) = Inr n"
  shows "n = tree_node (TBranch l r)"
proof (cases "cmp_bytes (tree_hash r) (tree_hash l) = Less")
  case True
  then have "\<exists>as bs. push_partner (tree_hash l) (tree_leaves r) = Inr as \<and> push_partner (tree_hash r) (tree_leaves l) = Inr bs \<and>
      n = \<lparr> node_hash = from_node_hashes (tree_hash r) (tree_hash l), leaves = as @ bs, has_hidden_nodes = tree_hidden r \<or> tree_hidden l \<rparr>"
    using assms by (simp add: combine_def tree_node_def combine_node_hashes_def from_node_hashes_def Let_def split: sum.splits)
  then show ?thesis using True node_hashes_comm [of "tree_hash r" "tree_hash l"]
    by (auto simp: tree_node_def Let_def dest!: push_partner_ok)
next
  case False
  then have "\<exists>as bs. push_partner (tree_hash r) (tree_leaves l) = Inr as \<and> push_partner (tree_hash l) (tree_leaves r) = Inr bs \<and>
      n = \<lparr> node_hash = from_node_hashes (tree_hash r) (tree_hash l), leaves = as @ bs, has_hidden_nodes = tree_hidden l \<or> tree_hidden r \<rparr>"
    using assms by (simp add: combine_def tree_node_def combine_node_hashes_def from_node_hashes_def Let_def split: sum.splits)
  then show ?thesis using False node_hashes_comm [of "tree_hash r" "tree_hash l"]
    by (auto simp: tree_node_def Let_def dest!: push_partner_ok)
qed

definition forest_of :: "(u32 \<times> ScriptTree) list \<Rightarrow> (u32 \<times> NodeInfo) list" where
  "forest_of ts = map (map_prod id tree_node) ts"

definition forest_scripts :: "(u32 \<times> ScriptTree) list \<Rightarrow> bytes multiset" where
  "forest_scripts ts = sum_list (map (tree_scripts \<circ> snd) ts)"

lemma forest_scripts_mset: "mset xs = mset ys \<Longrightarrow> forest_scripts xs = forest_scripts ys"
  unfolding forest_scripts_def by (metis mset_map sum_mset_sum_list)

lemma heap_pop_forest:
  assumes "heap_pop (forest_of ts) = Some (y, ys)"
  shows "\<exists>p t us. y = (p, tree_node t) \<and> ys = forest_of us \<and> mset ts = add_mset (p, t) (mset us)"
  using assms
proof (induction ts arbitrary: y ys)
  case (Cons x ts)
  obtain p t where x: "x = (p, t)" by fastforce
  show ?case
  proof (cases "heap_pop (forest_of ts)")
    case None
    then show ?thesis using Cons.prems x by (auto simp: forest_of_def heap_pop_None)
  next
    case (Some z)
    obtain w ws where z: "z = (w, ws)" by fastforce
    from Cons.IH [of w ws] Some z obtain q u us where
      u: "w = (q, tree_node u)" "ws = forest_of us" "mset ts = add_mset (q, u) (mset us)" by auto
    have "(y = w \<and> ys = forest_of (x # us)) \<or> (y = (p, tree_node t) \<and> ys = forest_of ((q, u) # us))"
      using Cons.prems Some z u x by (auto simp: forest_of_def split: if_splits)
    then show ?thesis
    proof
      assume "y = w \<and> ys = forest_of (x # us)"
      then show ?thesis using u by (intro exI [of _ q] exI [of _ u] exI [of _ "x # us"]) simp
    next
      assume "y = (p, tree_node t) \<and> ys = forest_of ((q, u) # us)"
      then show ?thesis using u x by (intro exI [of _ p] exI [of _ t] exI [of _ "(q, u) # us"]) simp
    qed
  qed
qed (simp add: forest_of_def)

lemma huffman_loop_forest:
  "huffman_loop nodes = r \<Longrightarrow> nodes = forest_of ts \<Longrightarrow> ts \<noteq> [] \<Longrightarrow>
   (\<exists>e. r = Inl e) \<or> (\<exists>p t. r = Inr [(p, tree_node t)] \<and> tree_scripts t = forest_scripts ts)"
proof (induction nodes arbitrary: ts rule: huffman_loop.induct)
  case (1 nodes)
  have "forest_of ts \<noteq> []" using "1.prems" by (simp add: forest_of_def)
  then obtain y ys where pop: "heap_pop (forest_of ts) = Some (y, ys)" using heap_pop_None [of "forest_of ts"] by (cases "heap_pop (forest_of ts)") auto
  from heap_pop_forest [OF pop] obtain p t us where a: "y = (p, tree_node t)" "ys = forest_of us" "mset ts = add_mset (p, t) (mset us)" by blast
  have sc: "forest_scripts ts = forest_scripts ((p, t) # us)" using a(3) by (intro forest_scripts_mset) simp
  show ?case
  proof (cases "heap_pop (forest_of us)")
    case None
    then have "us = []" by (simp add: heap_pop_None forest_of_def)
    then have "ts = [(p, t)]" using a(3) by simp
    then show ?thesis using "1.prems" None pop a 
      by (auto simp: huffman_loop.simps [of "[(p, tree_node t)]"] forest_of_def forest_scripts_def)
  next
    case (Some z)
    obtain w ws where z: "z = (w, ws)" by fastforce
    from heap_pop_forest [of us w ws] Some z obtain q u vs where
      b: "w = (q, tree_node u)" "ws = forest_of vs" "mset us = add_mset (q, u) (mset vs)" by auto
    have pops: "heap_pop nodes = Some ((p, tree_node t), forest_of us)" "heap_pop (forest_of us) = Some ((q, tree_node u), forest_of vs)"
      using pop a Some z b "1.prems"(2) by simp_all
    show ?thesis
    proof (cases "combine (tree_node t) (tree_node u)")
      case (Inl e)
      then have "huffman_loop nodes = Inl e" using pops by (simp add: huffman_loop.simps [of nodes])
      then have "r = Inl e" using "1.prems"(1) by simp
      then show ?thesis by blast
    next
      case (Inr n)
      have n: "n = tree_node (TBranch u t)" using combine_trees_ok [OF Inr] .
      let ?ts = "(saturating_add p q, TBranch u t) # vs"
      have "huffman_loop nodes = huffman_loop ((saturating_add p q, n) # forest_of vs)" using pops Inr by (simp add: huffman_loop.simps [of nodes])
      then have loop: "huffman_loop ((saturating_add p q, n) # forest_of vs) = r" using "1.prems"(1) by simp
      have f: "(saturating_add p q, n) # forest_of vs = forest_of ?ts" using n by (simp add: forest_of_def)
      have "forest_scripts us = forest_scripts ((q, u) # vs)" using b(3) by (intro forest_scripts_mset) simp
      then have "forest_scripts ?ts = forest_scripts ts" using sc by (simp add: forest_scripts_def ac_simps)
      moreover note "1.IH" [OF pops(1) refl refl pops(2) refl refl Inr loop f]
      ultimately show ?thesis by simp
    qed
  qed
qed

section \<open>Control blocks\<close>

definition leafver_ok :: "LeafVersion \<Rightarrow> bool" where
  "leafver_ok v = (case v of TapScript \<Rightarrow> True | Future n \<Rightarrow> n AND 0xFE = n \<and> n \<noteq> 0xc0 \<and> n \<noteq> 0x50)"

definition cb_ok :: "Secp \<Rightarrow> ControlBlock \<Rightarrow> bool" where
  "cb_ok secp cb \<longleftrightarrow> leafver_ok (cb_leaf_version cb) \<and> length (cb_internal_key cb) = 32 \<and> xonly_valid secp (cb_internal_key cb) \<and>
     length (cb_merkle_branch cb) \<le> 128 \<and> list_all (\<lambda>h. length h = 32) (cb_merkle_branch cb)"

lemma leafver_iff: "leafver_from_consensus n = Some (Inr v) \<longleftrightarrow> leafver_ok v \<and> leafver_to_consensus v = n"
  by (cases v) (auto simp: leafver_from_consensus_def future_from_consensus_def leafver_ok_def taproot_consts)

lemma leafver_total: "leafver_from_consensus n \<noteq> None"
  by (auto simp: leafver_from_consensus_def future_from_consensus_def)

lemma even_byte: "leafver_ok v \<Longrightarrow> leafver_to_consensus v AND 0xFE = leafver_to_consensus v"
  by (cases v) (simp_all add: leafver_ok_def taproot_consts)

lemma first_byte:
  fixes n :: u8
  assumes "n AND 0xFE = n"
  shows "((if p then 1 else 0) OR n) AND 0xFE = n" "(((if p then 1 else 0) OR n) AND 1 \<noteq> 0) = p"
proof -
  have "n AND 1 = n AND (0xFE AND 1)" by (subst assms [symmetric]) (simp only: and.assoc)
  then have "n AND 1 = 0" by simp
  then show "((if p then 1 else 0) OR n) AND 0xFE = n" "(((if p then 1 else 0) OR n) AND 1 \<noteq> 0) = p"
    using assms by (simp_all add: bit.conj_disj_distrib2)
qed

lemma byte_parts: "(if (b :: u8) AND 1 \<noteq> 0 then 1 else 0) OR (b AND 0xFE) = b"
proof -
  have "(if b AND 1 \<noteq> 0 then 1 else 0) = b AND 1" by (simp add: and_one_eq)
  moreover have m: "(1 OR 0xFE) = (- 1 :: u8)" by simp
  have "(b AND 1) OR (b AND 0xFE) = b AND (1 OR 0xFE)" by (simp only: bit.conj_disj_distrib)
  then have "(b AND 1) OR (b AND 0xFE) = b" unfolding m by simp
  ultimately show ?thesis by simp
qed

lemma chunks_concat: "length bs = 32 * n \<Longrightarrow> concat (chunks_exact n bs) = bs"
  by (induction n arbitrary: bs) simp_all

lemma chunks_lengths: "length bs = 32 * n \<Longrightarrow> length (chunks_exact n bs) = n \<and> list_all (\<lambda>h. length h = 32) (chunks_exact n bs)"
  by (induction n arbitrary: bs) simp_all

lemma concat_chunks: "list_all (\<lambda>h. length h = 32) xs \<Longrightarrow> chunks_exact (length xs) (concat xs) = xs \<and> length (concat xs) = 32 * length xs"
  by (induction xs) simp_all

lemma branch_codec: "branch_decode sl = Inr br \<longleftrightarrow> concat br = sl \<and> length br \<le> 128 \<and> list_all (\<lambda>h. length h = 32) br"
proof
  assume "branch_decode sl = Inr br"
  then have "32 dvd length sl" "length sl \<le> 32 * 128" "br = chunks_exact (length sl div 32) sl"
    by (auto simp: branch_decode_def taproot_consts split: if_splits)
  then show "concat br = sl \<and> length br \<le> 128 \<and> list_all (\<lambda>h. length h = 32) br"
    using chunks_concat [of sl "length sl div 32"] chunks_lengths [of sl "length sl div 32"] by auto
next
  assume "concat br = sl \<and> length br \<le> 128 \<and> list_all (\<lambda>h. length h = 32) br"
  then show "branch_decode sl = Inr br" using concat_chunks [of br] by (auto simp: branch_decode_def taproot_consts)
qed

lemma cb_decode_iff: "cb_decode secp sl = Some (Inr cb) \<longleftrightarrow> cb_ok secp cb \<and> cb_serialize cb = sl"
proof
  assume a: "cb_decode secp sl = Some (Inr cb)"
  moreover obtain w where "leafver_from_consensus (sl ! 0 AND 0xFE) = Some w" using leafver_total by blast
  ultimately have l: "33 \<le> length sl" and v: "leafver_from_consensus (sl ! 0 AND 0xFE) = Some (Inr (cb_leaf_version cb))"
    and k: "cb_internal_key cb = take 32 (drop 1 sl)" "xonly_valid secp (cb_internal_key cb)" "cb_parity cb = (sl ! 0 AND 1 \<noteq> 0)"
    and b: "branch_decode (drop 33 sl) = Inr (cb_merkle_branch cb)"
    by (cases w; auto simp: cb_decode_def taproot_consts Let_def split: if_splits sum.splits)+
  have "(if cb_parity cb then 1 else 0) OR leafver_to_consensus (cb_leaf_version cb) = sl ! 0"
    using v byte_parts [of "sl ! 0"] unfolding leafver_iff k(3) by simp
  moreover have "sl = sl ! 0 # take 32 (drop 1 sl) @ drop 33 sl" using l by (cases sl) (simp_all add: drop_Cons')
  ultimately show "cb_ok secp cb \<and> cb_serialize cb = sl"
    using v k b l unfolding leafver_iff branch_codec
    by (simp add: cb_ok_def cb_serialize_def cb_encode_def branch_encode_def Let_def)
next
  assume a: "cb_ok secp cb \<and> cb_serialize cb = sl"
  let ?f = "(if cb_parity cb then 1 else 0) OR leafver_to_consensus (cb_leaf_version cb)"
  have sl: "sl = ?f # cb_internal_key cb @ concat (cb_merkle_branch cb)" "length (cb_internal_key cb) = 32"
    using a by (auto simp: cb_ok_def cb_serialize_def cb_encode_def branch_encode_def Let_def)
  have e: "leafver_to_consensus (cb_leaf_version cb) AND 0xFE = leafver_to_consensus (cb_leaf_version cb)"
    using a even_byte by (simp add: cb_ok_def)
  have v: "leafver_from_consensus (?f AND 0xFE) = Some (Inr (cb_leaf_version cb))"
    unfolding leafver_iff first_byte(1) [OF e] using a by (simp add: cb_ok_def)
  have b: "branch_decode (concat (cb_merkle_branch cb)) = Inr (cb_merkle_branch cb)" using a by (simp add: branch_codec cb_ok_def)
  have n: "length (concat (cb_merkle_branch cb)) = 32 * length (cb_merkle_branch cb)" using a concat_chunks [of "cb_merkle_branch cb"] by (simp add: cb_ok_def)
  show "cb_decode secp sl = Some (Inr cb)"
    using v b n a first_byte(2) [OF e, of "cb_parity cb"] unfolding sl(1)
    by (simp add: cb_decode_def taproot_consts sl(2) cb_ok_def Let_def)
qed

lemma cb_decode_total: "cb_decode secp sl \<noteq> None"
  using leafver_total by (simp add: cb_decode_def Let_def)

section \<open>Finished builders\<close>

lemma builder_tree_iff:
  "fold add_item adds (Inr builder_empty) = Inr [Some n] \<longleftrightarrow>
   (\<exists>t. script_height t \<le> 128 \<and> map (apfst unat) adds = tree_dfs 0 t \<and> n = tree_node t)"
proof
  assume "fold add_item adds (Inr builder_empty) = Inr [Some n]"
  from builder_new_sound [OF this] obtain ts
    where "[Some n] = nodes_of ts" "heights_ok ts" "pending 0 ts = map (apfst unat) adds" by metis
  then obtain t where "ts = [Some t]" "n = tree_node t" using single_node [of n ts] by metis
  then show "\<exists>t. script_height t \<le> 128 \<and> map (apfst unat) adds = tree_dfs 0 t \<and> n = tree_node t"
    using \<open>heights_ok ts\<close> \<open>pending 0 ts = map (apfst unat) adds\<close> by (auto simp: heights_ok_def)
next
  assume "\<exists>t. script_height t \<le> 128 \<and> map (apfst unat) adds = tree_dfs 0 t \<and> n = tree_node t"
  then obtain t where "script_height t \<le> 128" "map (apfst unat) adds = tree_dfs 0 t" "n = tree_node t" by blast
  then show "fold add_item adds (Inr builder_empty) = Inr [Some n]"
    using add_tree [of "[]" 0 t adds] by (simp add: builder_empty_def insert_at_short)
qed

section \<open>Properties\<close>

text \<open>(C15) The taproot builder is exact: calls that add leaves and hidden nodes build a finished tree exactly if they are the
  leaves of a binary tree of height at most 128 in depth-first order, and the node is then the root of that tree, with its
  hash and the merkle branch of each script.\<close>

theorem taproot_builder_exact:
  "fold add_item adds (Inr builder_empty) = Inr [Some n] \<longleftrightarrow>
   (\<exists>t. script_height t \<le> 128 \<and> map (apfst unat) adds = tree_dfs 0 t \<and> n = tree_node t)"
  by (rule builder_tree_iff)

text \<open>(C18) Script spending: after any accepted sequence of calls, finishing the builder gives spending information in which every
  added script has a control block, and that block verifies against the output key, provided that the library's
  check accepts the keys its tweaking makes.\<close>

theorem taproot_control_blocks_verify:
  assumes "\<forall>k t q p. add_tweak secp k t = Some (q, p) \<longrightarrow> tweak_add_check secp k q p t"
    and "fold add_item adds (Inr builder_empty) = Inr b"
    and "builder_finalize secp b key = Some (Inr info)"
    and "AddLeaf s v \<in> snd ` set adds"
  shows "\<exists>cb. control_block info (s, v) = Some (Some cb) \<and> verify_taproot_commitment secp cb (si_output_key info) s = Some True"
proof -
  obtain ts where ts: "b = nodes_of ts" "heights_ok ts" "ts = [] \<or> last ts \<noteq> None" "pending 0 ts = map (apfst unat) adds"
    using builder_new_sound [OF assms(2)] by blast
  have "adds \<noteq> []" using assms(4) by auto
  then have "ts \<noteq> []" using ts(4) by auto
  then obtain n where "b = [Some n]" "from_node_info secp key n = Some info"
    using finalize_node [OF assms(3)] ts(1) by auto
  then obtain t where t: "ts = [Some t]" "from_node_info secp key (tree_node t) = Some info"
    using ts(1) single_node [of n ts] by auto
  have "AddLeaf s v \<in> snd ` set (tree_dfs 0 t)" using assms(4) ts(4) t(1) by (force simp: image_iff dest: arg_cong [of _ _ set])
  then have "\<exists>l\<in>set (tree_leaves t). leaf l = ScriptLeaf s v" by (simp add: dfs_leaves)
  from control_block_verifies [OF assms(1) t(2) this] show ?thesis by blast
qed

theorem taproot_control_blocks_verify_witness:
  "\<exists>secp b info cb. fold add_item [(1, AddLeaf [0x51] TapScript), (1, AddLeaf [0x52] TapScript)] (Inr builder_empty) = Inr b \<and>
     builder_finalize secp b [7] = Some (Inr info) \<and> control_block info ([0x52], TapScript) = Some (Some cb) \<and>
     verify_taproot_commitment secp cb (si_output_key info) [0x52] = Some True"
proof -
  define secp where "secp = \<lparr> xonly_valid = (\<lambda>_. True), scalar_valid = (\<lambda>_. True), add_tweak = (\<lambda>k t. Some (k @ t, False)),
    tweak_add_check = (\<lambda>k q p t. q = k @ t) \<rparr>"
  let ?adds = "[(1, AddLeaf [0x51] TapScript), (1, AddLeaf [0x52] TapScript)] :: (u8 \<times> TreeItem) list"
  let ?t = "TBranch (TLeaf [0x51] TapScript) (TLeaf [0x52] TapScript)"
  have law: "\<forall>k t q p. add_tweak secp k t = Some (q, p) \<longrightarrow> tweak_add_check secp k q p t" by (simp add: secp_def)
  have b: "fold add_item ?adds (Inr builder_empty) = Inr [Some (tree_node ?t)]"
    using add_tree [of "[]" 0 ?t ?adds] by (simp add: builder_empty_def insert_at_short del: add_item.simps)
  obtain info where i: "builder_finalize secp [Some (tree_node ?t)] [7] = Some (Inr info)"
    by (simp add: builder_finalize_def from_node_info_def new_key_spend_def tap_tweak_def to_scalar_def secp_def)
  have "AddLeaf [0x52] TapScript \<in> snd ` set ?adds" by simp
  from taproot_control_blocks_verify [OF law b i this] b i show ?thesis by blast
qed

text \<open>Control blocks: decoding never hits its unreachable branch, accepts exactly the encodings of well-formed blocks, and
  gives the block back.\<close>

theorem control_block_codec:
  "cb_decode secp sl \<noteq> None \<and> (cb_decode secp sl = Some (Inr cb) \<longleftrightarrow> cb_ok secp cb \<and> cb_serialize cb = sl)"
  using cb_decode_total cb_decode_iff by blast

text \<open>Huffman trees: for weighted scripts the construction never panics, is refused for no scripts, and when it succeeds the
  result is a finished builder whose tree has exactly the given scripts.\<close>

theorem huffman_tree_complete:
  "with_huffman_tree ws \<noteq> None \<and> with_huffman_tree [] = Some (Inl BuilderEmptyTree) \<and>
   (with_huffman_tree ws = Some (Inr b) \<longrightarrow> is_finalizable b \<and> (\<exists>t. b = [Some (tree_node t)] \<and> tree_scripts t = mset (map snd ws)))"
proof -
  define ts where "ts = map (\<lambda>(p, s). (p, TLeaf s TapScript)) ws"
  have f: "map (\<lambda>(p, script). (p, new_leaf_with_ver script TapScript)) ws = forest_of ts"
    using item_trees(1) by (auto simp: ts_def forest_of_def)
  have sc: "forest_scripts ts = mset (map snd ws)" unfolding ts_def forest_scripts_def by (induction ws) auto
  show ?thesis
  proof (cases "ws = []")
    case True
    then show ?thesis by (simp add: with_huffman_tree_def)
  next
    case False
    then have ne: "ts \<noteq> []" "forest_of ts \<noteq> []" by (simp_all add: ts_def forest_of_def)
    from huffman_loop_forest [OF refl refl ne(1)] sc ne show ?thesis
      by (auto simp: with_huffman_tree_def f Let_def is_finalizable_def)
  qed
qed

theorem huffman_tree_complete_witness:
  "\<exists>b t. with_huffman_tree [(3, [0x51])] = Some (Inr b) \<and> b = [Some (tree_node t)] \<and> tree_scripts t = {#[0x51]#}"
proof -
  have "with_huffman_tree [(3, [0x51])] = Some (Inr [Some (new_leaf_with_ver [0x51] TapScript)])"
    by (simp add: with_huffman_tree_def huffman_loop.simps)
  then show ?thesis using huffman_tree_complete [of "[(3, [0x51])]" "[Some (new_leaf_with_ver [0x51] TapScript)]"] by auto
qed

end
