(* ===== verification/Sighash.thy ===== *)
theory Sighash
  imports Taproot ScriptUse
begin

text \<open>
  Signature hashes, \<open>crypto/sighash.rs\<close>: the digests that legacy, segwit version 0 and taproot signatures sign, and the cache
  that computes them. The cache is a state: the digest functions return it updated. The writer is a byte sink that
  never fails, as a hash engine is; what was written before an error is kept in the state, as the code leaves it.
\<close>

section \<open>Signature hash types\<close>

datatype EcdsaSighashType = EAll | ENone | ESingle | EAllAcp | ENoneAcp | ESingleAcp
datatype TapSighashType = TDefault | TAll | TNone | TSingle | TAllAcp | TNoneAcp | TSingleAcp

fun ecdsa_to_u32 :: "EcdsaSighashType \<Rightarrow> u32" where
  "ecdsa_to_u32 EAll = 0x01" | "ecdsa_to_u32 ENone = 0x02" | "ecdsa_to_u32 ESingle = 0x03"
| "ecdsa_to_u32 EAllAcp = 0x81" | "ecdsa_to_u32 ENoneAcp = 0x82" | "ecdsa_to_u32 ESingleAcp = 0x83"

fun tap_to_u8 :: "TapSighashType \<Rightarrow> u8" where
  "tap_to_u8 TDefault = 0x00" | "tap_to_u8 TAll = 0x01" | "tap_to_u8 TNone = 0x02" | "tap_to_u8 TSingle = 0x03"
| "tap_to_u8 TAllAcp = 0x81" | "tap_to_u8 TNoneAcp = 0x82" | "tap_to_u8 TSingleAcp = 0x83"

fun ecdsa_to_string :: "EcdsaSighashType \<Rightarrow> string" where
  "ecdsa_to_string EAll = ''SIGHASH_ALL''"
| "ecdsa_to_string ENone = ''SIGHASH_NONE''"
| "ecdsa_to_string ESingle = ''SIGHASH_SINGLE''"
| "ecdsa_to_string EAllAcp = ''SIGHASH_ALL|SIGHASH_ANYONECANPAY''"
| "ecdsa_to_string ENoneAcp = ''SIGHASH_NONE|SIGHASH_ANYONECANPAY''"
| "ecdsa_to_string ESingleAcp = ''SIGHASH_SINGLE|SIGHASH_ANYONECANPAY''"

definition ecdsa_from_str :: "string \<Rightarrow> string + EcdsaSighashType" where
  "ecdsa_from_str s =
     (if s = ''SIGHASH_ALL'' then Inr EAll
      else if s = ''SIGHASH_NONE'' then Inr ENone
      else if s = ''SIGHASH_SINGLE'' then Inr ESingle
      else if s = ''SIGHASH_ALL|SIGHASH_ANYONECANPAY'' then Inr EAllAcp
      else if s = ''SIGHASH_NONE|SIGHASH_ANYONECANPAY'' then Inr ENoneAcp
      else if s = ''SIGHASH_SINGLE|SIGHASH_ANYONECANPAY'' then Inr ESingleAcp
      else Inl s)"

fun tap_to_string :: "TapSighashType \<Rightarrow> string" where
  "tap_to_string TDefault = ''SIGHASH_DEFAULT''"
| "tap_to_string TAll = ''SIGHASH_ALL''"
| "tap_to_string TNone = ''SIGHASH_NONE''"
| "tap_to_string TSingle = ''SIGHASH_SINGLE''"
| "tap_to_string TAllAcp = ''SIGHASH_ALL|SIGHASH_ANYONECANPAY''"
| "tap_to_string TNoneAcp = ''SIGHASH_NONE|SIGHASH_ANYONECANPAY''"
| "tap_to_string TSingleAcp = ''SIGHASH_SINGLE|SIGHASH_ANYONECANPAY''"

definition tap_from_str :: "string \<Rightarrow> string + TapSighashType" where
  "tap_from_str s =
     (if s = ''SIGHASH_DEFAULT'' then Inr TDefault
      else if s = ''SIGHASH_ALL'' then Inr TAll
      else if s = ''SIGHASH_NONE'' then Inr TNone
      else if s = ''SIGHASH_SINGLE'' then Inr TSingle
      else if s = ''SIGHASH_ALL|SIGHASH_ANYONECANPAY'' then Inr TAllAcp
      else if s = ''SIGHASH_NONE|SIGHASH_ANYONECANPAY'' then Inr TNoneAcp
      else if s = ''SIGHASH_SINGLE|SIGHASH_ANYONECANPAY'' then Inr TSingleAcp
      else Inl s)"

fun ecdsa_split :: "EcdsaSighashType \<Rightarrow> EcdsaSighashType \<times> bool" where
  "ecdsa_split EAll = (EAll, False)" | "ecdsa_split ENone = (ENone, False)" | "ecdsa_split ESingle = (ESingle, False)"
| "ecdsa_split EAllAcp = (EAll, True)" | "ecdsa_split ENoneAcp = (ENone, True)" | "ecdsa_split ESingleAcp = (ESingle, True)"

fun tap_split :: "TapSighashType \<Rightarrow> TapSighashType \<times> bool" where
  "tap_split TDefault = (TDefault, False)" | "tap_split TAll = (TAll, False)" | "tap_split TNone = (TNone, False)"
| "tap_split TSingle = (TSingle, False)" | "tap_split TAllAcp = (TAll, True)" | "tap_split TNoneAcp = (TNone, True)"
| "tap_split TSingleAcp = (TSingle, True)"

definition is_single :: "EcdsaSighashType \<Rightarrow> bool" where "is_single t \<longleftrightarrow> t = ESingle \<or> t = ESingleAcp"

definition ecdsa_from_consensus :: "u32 \<Rightarrow> EcdsaSighashType" where
  "ecdsa_from_consensus n =
     (let x = n AND (0x1f OR 0x80)
      in if x = 0x01 then EAll else if x = 0x02 then ENone else if x = 0x03 then ESingle
         else if x = 0x81 then EAllAcp else if x = 0x82 then ENoneAcp else if x = 0x83 then ESingleAcp
         else if x AND 0x80 = 0x80 then EAllAcp else EAll)"

definition ecdsa_from_standard :: "u32 \<Rightarrow> u32 + EcdsaSighashType" where
  "ecdsa_from_standard n =
     (if n = 0x01 then Inr EAll else if n = 0x02 then Inr ENone else if n = 0x03 then Inr ESingle
      else if n = 0x81 then Inr EAllAcp else if n = 0x82 then Inr ENoneAcp else if n = 0x83 then Inr ESingleAcp
      else Inl n)"

fun tap_of_ecdsa :: "EcdsaSighashType \<Rightarrow> TapSighashType" where
  "tap_of_ecdsa EAll = TAll" | "tap_of_ecdsa ENone = TNone" | "tap_of_ecdsa ESingle = TSingle"
| "tap_of_ecdsa EAllAcp = TAllAcp" | "tap_of_ecdsa ENoneAcp = TNoneAcp" | "tap_of_ecdsa ESingleAcp = TSingleAcp"

definition tap_from_consensus_u8 :: "u8 \<Rightarrow> u32 + TapSighashType" where
  "tap_from_consensus_u8 n =
     (if n = 0x00 then Inr TDefault else if n = 0x01 then Inr TAll else if n = 0x02 then Inr TNone else if n = 0x03 then Inr TSingle
      else if n = 0x81 then Inr TAllAcp else if n = 0x82 then Inr TNoneAcp else if n = 0x83 then Inr TSingleAcp
      else Inl (ucast n))"

section \<open>The cache\<close>

record CommonCache =
  cc_prevouts :: bytes
  cc_sequences :: bytes
  cc_outputs :: bytes

record SegwitCache =
  wc_prevouts :: bytes
  wc_sequences :: bytes
  wc_outputs :: bytes

record TaprootCache =
  tc_amounts :: bytes
  tc_script_pubkeys :: bytes

record SighashCache =
  sc_tx :: Transaction
  common_cache :: "CommonCache option"
  segwit_cache :: "SegwitCache option"
  taproot_cache :: "TaprootCache option"

definition cache_new :: "Transaction \<Rightarrow> SighashCache" where
  "cache_new tx = \<lparr> sc_tx = tx, common_cache = None, segwit_cache = None, taproot_cache = None \<rparr>"

definition sha_of :: "(bytes \<times> nat) list \<Rightarrow> bytes" where
  "sha_of es = from_engine (fold engine_write es engine_default)"

definition make_common :: "Transaction \<Rightarrow> CommonCache" where
  "make_common tx =
     \<lparr> cc_prevouts = sha_of (map (\<lambda>i. enc_OutPoint (previous_output i)) (tx_input tx)),
       cc_sequences = sha_of (map (\<lambda>i. enc_Sequence (sequence i)) (tx_input tx)),
       cc_outputs = sha_of (map enc_TxOut (tx_output tx)) \<rparr>"

definition get_common :: "SighashCache \<Rightarrow> CommonCache \<times> SighashCache" where
  "get_common c =
     (case common_cache c of
        Some cc \<Rightarrow> (cc, c)
      | None \<Rightarrow> (let cc = make_common (sc_tx c) in (cc, c\<lparr> common_cache := Some cc \<rparr>)))"

definition get_segwit :: "SighashCache \<Rightarrow> SegwitCache \<times> SighashCache" where
  "get_segwit c =
     (case segwit_cache c of
        Some wc \<Rightarrow> (wc, c)
      | None \<Rightarrow>
          (let (cc, c) = get_common c;
               wc = \<lparr> wc_prevouts = hash_again (cc_prevouts cc), wc_sequences = hash_again (cc_sequences cc),
                      wc_outputs = hash_again (cc_outputs cc) \<rparr>
           in (wc, c\<lparr> segwit_cache := Some wc \<rparr>)))"

definition make_taproot :: "TxOut list \<Rightarrow> TaprootCache" where
  "make_taproot prevouts =
     \<lparr> tc_amounts = sha_of (map (\<lambda>out. encode_int (txout_value out)) prevouts),
       tc_script_pubkeys = sha_of (map (\<lambda>out. enc_with_size (script_pubkey out)) prevouts) \<rparr>"

definition get_taproot :: "TxOut list \<Rightarrow> SighashCache \<Rightarrow> TaprootCache \<times> SighashCache" where
  "get_taproot prevouts c =
     (case taproot_cache c of
        Some tc \<Rightarrow> (tc, c)
      | None \<Rightarrow> (let tc = make_taproot prevouts in (tc, c\<lparr> taproot_cache := Some tc \<rparr>)))"

text \<open>Assigning to the witness that \<open>witness_mut\<close> lends.\<close>

definition set_witness :: "nat \<Rightarrow> Witness \<Rightarrow> SighashCache \<Rightarrow> SighashCache option" where
  "set_witness i w c =
     (let tx = sc_tx c
      in if i < length (tx_input tx)
         then Some (c\<lparr> sc_tx := tx\<lparr> tx_input := (tx_input tx)[i := (tx_input tx ! i)\<lparr> witness := w \<rparr>] \<rparr> \<rparr>)
         else None)"

datatype Prevouts = PrevOne nat TxOut | PrevAll "TxOut list"

datatype PrevoutsIndexError = InvalidOneIndex | InvalidAllIndex

datatype TapHashError =
  InputsIndex IndexOutOfBoundsError | SingleMissingOutput nat nat | PrevoutsSize | PrevoutsIndex PrevoutsIndexError |
  PrevoutsKind | InvalidSighashType u32

fun prevouts_check_all :: "Prevouts \<Rightarrow> Transaction \<Rightarrow> bool" where
  "prevouts_check_all (PrevAll prevouts) tx = (length prevouts = length (tx_input tx))"
| "prevouts_check_all (PrevOne _ _) tx = True"

fun prevouts_get_all :: "Prevouts \<Rightarrow> TxOut list option" where
  "prevouts_get_all (PrevAll prevouts) = Some prevouts"
| "prevouts_get_all (PrevOne _ _) = None"

fun prevouts_get :: "Prevouts \<Rightarrow> nat \<Rightarrow> PrevoutsIndexError + TxOut" where
  "prevouts_get (PrevOne index prevout) i = (if i = index then Inr prevout else Inl InvalidOneIndex)"
| "prevouts_get (PrevAll prevouts) i = (if i < length prevouts then Inr (prevouts ! i) else Inl InvalidAllIndex)"

datatype AnnexError = EmptyAnnex | IncorrectPrefix u8

definition annex_new :: "bytes \<Rightarrow> AnnexError + bytes" where
  "annex_new bs =
     (case bs of [] \<Rightarrow> Inl EmptyAnnex | b # _ \<Rightarrow> if b = TAPROOT_ANNEX_PREFIX then Inr bs else Inl (IncorrectPrefix b))"

section \<open>Writing signing data\<close>

type_synonym 'e signing = "SighashCache \<times> bytes \<Rightarrow> ('e + unit) \<times> (SighashCache \<times> bytes)"

definition put :: "bytes \<times> nat \<Rightarrow> 'e signing" where "put e s = (Inr (), (fst s, snd s @ fst e))"
definition fail :: "'e \<Rightarrow> 'e signing" where "fail e s = (Inl e, s)"

fun steps :: "'e signing list \<Rightarrow> 'e signing" where
  "steps [] s = (Inr (), s)"
| "steps (a # as) s = (case a s of (Inl e, s) \<Rightarrow> (Inl e, s) | (Inr _, s) \<Rightarrow> steps as s)"

definition with_tx :: "(Transaction \<Rightarrow> 'e signing) \<Rightarrow> 'e signing" where "with_tx f s = f (sc_tx (fst s)) s"
definition with_common :: "(CommonCache \<Rightarrow> 'e signing) \<Rightarrow> 'e signing" where
  "with_common f s = (let (cc, c) = get_common (fst s) in f cc (c, snd s))"
definition with_segwit :: "(SegwitCache \<Rightarrow> 'e signing) \<Rightarrow> 'e signing" where
  "with_segwit f s = (let (wc, c) = get_segwit (fst s) in f wc (c, snd s))"
definition with_taproot :: "TxOut list \<Rightarrow> (TaprootCache \<Rightarrow> 'e signing) \<Rightarrow> 'e signing" where
  "with_taproot ps f s = (let (tc, c) = get_taproot ps (fst s) in f tc (c, snd s))"

text \<open>\<open>taproot_encode_signing_data_to\<close>; \<open>leaf\<close> is the leaf hash with the position of the code separator.\<close>

definition taproot_encode_signing_data ::
  "nat \<Rightarrow> Prevouts \<Rightarrow> bytes option \<Rightarrow> (bytes \<times> u32) option \<Rightarrow> TapSighashType \<Rightarrow> TapHashError signing" where
  "taproot_encode_signing_data input_index prevouts annex lf sighash_type =
     (let (sighash, anyone_can_pay) = tap_split sighash_type
      in with_tx (\<lambda>tx. steps
       [if prevouts_check_all prevouts tx then steps [] else fail PrevoutsSize,
        put (emit_u8 0),
        put (emit_u8 (tap_to_u8 sighash_type)),
        put (enc_Version (tx_version tx)),
        put (enc_LockTime (lock_time tx)),
        (if \<not> anyone_can_pay
         then steps
           [with_common (\<lambda>cc. put (enc_array (cc_prevouts cc))),
            (case prevouts_get_all prevouts of None \<Rightarrow> fail PrevoutsKind | Some ps \<Rightarrow> with_taproot ps (\<lambda>tc. put (enc_array (tc_amounts tc)))),
            (case prevouts_get_all prevouts of None \<Rightarrow> fail PrevoutsKind | Some ps \<Rightarrow> with_taproot ps (\<lambda>tc. put (enc_array (tc_script_pubkeys tc)))),
            with_common (\<lambda>cc. put (enc_array (cc_sequences cc)))]
         else steps []),
        (if sighash \<noteq> TNone \<and> sighash \<noteq> TSingle then with_common (\<lambda>cc. put (enc_array (cc_outputs cc))) else steps []),
        put (emit_u8 ((if annex \<noteq> None then 1 else 0) OR (if lf \<noteq> None then 2 else 0))),
        (if anyone_can_pay
         then (case tx_in tx input_index of
                 Inl e \<Rightarrow> fail (InputsIndex e)
               | Inr txin \<Rightarrow>
                   (case prevouts_get prevouts input_index of
                      Inl e \<Rightarrow> fail (PrevoutsIndex e)
                    | Inr previous_out \<Rightarrow> steps
                        [put (enc_OutPoint (previous_output txin)), put (encode_int (txout_value previous_out)),
                         put (enc_with_size (script_pubkey previous_out)), put (enc_Sequence (sequence txin))]))
         else put (encode_int (word_of_nat input_index :: u32))),
        (case annex of Some a \<Rightarrow> put (enc_array (sha_of [enc_with_size a])) | None \<Rightarrow> steps []),
        (if sighash = TSingle
         then (if input_index < length (tx_output tx) then put (enc_array (sha_of [enc_TxOut (tx_output tx ! input_index)]))
               else fail (SingleMissingOutput input_index (length (tx_output tx))))
         else steps []),
        (case lf of
           Some (hash, code_separator_pos) \<Rightarrow> steps [put (enc_array hash), put (emit_u8 0), put (encode_int code_separator_pos)]
         | None \<Rightarrow> steps [])]))"

text \<open>A digest function runs the writer on a fresh engine; the bytes are given to it as they come.\<close>

definition taproot_signature_hash ::
  "nat \<Rightarrow> Prevouts \<Rightarrow> bytes option \<Rightarrow> (bytes \<times> u32) option \<Rightarrow> TapSighashType \<Rightarrow> SighashCache \<Rightarrow> (TapHashError + bytes) \<times> SighashCache" where
  "taproot_signature_hash input_index prevouts annex lf ty c =
     (case taproot_encode_signing_data input_index prevouts annex lf ty (c, []) of
        (Inl e, (c, w)) \<Rightarrow> (Inl e, c)
      | (Inr _, (c, w)) \<Rightarrow> (Inr (tagged_hash ''TapSighash'' [w]), c))"

definition taproot_key_spend_signature_hash ::
  "nat \<Rightarrow> Prevouts \<Rightarrow> TapSighashType \<Rightarrow> SighashCache \<Rightarrow> (TapHashError + bytes) \<times> SighashCache" where
  "taproot_key_spend_signature_hash input_index prevouts ty c = taproot_signature_hash input_index prevouts None None ty c"

definition taproot_script_spend_signature_hash ::
  "nat \<Rightarrow> Prevouts \<Rightarrow> bytes \<Rightarrow> TapSighashType \<Rightarrow> SighashCache \<Rightarrow> (TapHashError + bytes) \<times> SighashCache" where
  "taproot_script_spend_signature_hash input_index prevouts leaf_hash ty c =
     taproot_signature_hash input_index prevouts None (Some (leaf_hash, 0xFFFFFFFF)) ty c"

definition script_path_leaf_hash :: "bytes \<Rightarrow> LeafVersion \<Rightarrow> bytes" where
  "script_path_leaf_hash script ver = tagged_hash ''TapLeaf'' [fst (emit_u8 (leafver_to_consensus ver)), fst (enc_with_size script)]"

definition segwit_v0_encode_signing_data ::
  "nat \<Rightarrow> bytes \<Rightarrow> u64 \<Rightarrow> EcdsaSighashType \<Rightarrow> IndexOutOfBoundsError signing" where
  "segwit_v0_encode_signing_data input_index script_code v sighash_type =
     (let zero_hash = replicate 32 0; (sighash, anyone_can_pay) = ecdsa_split sighash_type
      in with_tx (\<lambda>tx. steps
       [put (enc_Version (tx_version tx)),
        (if \<not> anyone_can_pay then with_segwit (\<lambda>wc. put (enc_array (wc_prevouts wc))) else put (enc_array zero_hash)),
        (if \<not> anyone_can_pay \<and> sighash \<noteq> ESingle \<and> sighash \<noteq> ENone then with_segwit (\<lambda>wc. put (enc_array (wc_sequences wc)))
         else put (enc_array zero_hash)),
        (case tx_in tx input_index of
           Inl e \<Rightarrow> fail e
         | Inr txin \<Rightarrow> steps
             [put (enc_OutPoint (previous_output txin)), put (enc_with_size script_code), put (encode_int v), put (enc_Sequence (sequence txin))]),
        (if sighash \<noteq> ESingle \<and> sighash \<noteq> ENone then with_segwit (\<lambda>wc. put (enc_array (wc_outputs wc)))
         else if sighash = ESingle \<and> input_index < length (tx_output tx)
         then put (enc_array (sha256d_from_engine (engine_write (enc_TxOut (tx_output tx ! input_index)) engine_default)))
         else put (enc_array zero_hash)),
        put (enc_LockTime (lock_time tx)),
        put (encode_int (ecdsa_to_u32 sighash_type))]))"

definition p2wsh_signature_hash ::
  "nat \<Rightarrow> bytes \<Rightarrow> u64 \<Rightarrow> EcdsaSighashType \<Rightarrow> SighashCache \<Rightarrow> (IndexOutOfBoundsError + bytes) \<times> SighashCache" where
  "p2wsh_signature_hash input_index script v ty c =
     (case segwit_v0_encode_signing_data input_index script v ty (c, []) of
        (Inl e, (c, w)) \<Rightarrow> (Inl e, c)
      | (Inr _, (c, w)) \<Rightarrow> (Inr (sha256d_from_engine (input engine_default w)), c))"

datatype P2wpkhError = P2wpkhSighash IndexOutOfBoundsError | NotP2wpkhScript

text \<open>The outer option is the panic of the script builder.\<close>

definition p2wpkh_signature_hash ::
  "nat \<Rightarrow> bytes \<Rightarrow> u64 \<Rightarrow> EcdsaSighashType \<Rightarrow> SighashCache \<Rightarrow> ((P2wpkhError + bytes) \<times> SighashCache) option" where
  "p2wpkh_signature_hash input_index script v ty c =
     (case p2wpkh_script_code script of
        None \<Rightarrow> None
      | Some None \<Rightarrow> Some (Inl NotP2wpkhScript, c)
      | Some (Some script_code) \<Rightarrow> Some (map_prod (map_sum P2wpkhSighash id) id (p2wsh_signature_hash input_index script_code v ty c)))"

section \<open>Legacy digests\<close>

definition UINT256_ONE :: bytes where "UINT256_ONE = 1 # replicate 31 0"

definition is_invalid_use_of_sighash_single :: "u32 \<Rightarrow> nat \<Rightarrow> nat \<Rightarrow> bool" where
  "is_invalid_use_of_sighash_single sighash input_index outputs_len \<longleftrightarrow>
     is_single (ecdsa_from_consensus sighash) \<and> input_index \<ge> outputs_len"

definition legacy_tx :: "Transaction \<Rightarrow> nat \<Rightarrow> bytes \<Rightarrow> u32 \<Rightarrow> Transaction" where
  "legacy_tx tx input_index script ty =
     (let (sighash, anyone_can_pay) = ecdsa_split (ecdsa_from_consensus ty)
      in \<lparr> tx_version = tx_version tx, lock_time = lock_time tx,
           tx_input =
             (if anyone_can_pay
              then [\<lparr> previous_output = previous_output (tx_input tx ! input_index), script_sig = script,
                      sequence = sequence (tx_input tx ! input_index), witness = witness_new \<rparr>]
              else map (\<lambda>(n, inp).
                     \<lparr> previous_output = previous_output inp,
                       script_sig = (if n = input_index then script else []),
                       sequence = (if n \<noteq> input_index \<and> (sighash = ESingle \<or> sighash = ENone) then Sequence 0 else sequence inp),
                       witness = witness_new \<rparr>) (enumerate 0 (tx_input tx))),
           tx_output =
             (case sighash of
                EAll \<Rightarrow> tx_output tx
              | ESingle \<Rightarrow> map (\<lambda>(n, out). if n = input_index then out else txout_NULL) (enumerate 0 (take (input_index + 1) (tx_output tx)))
              | _ \<Rightarrow> []) \<rparr>)"

datatype EncodeSigningDataResult = SighashSingleBug | WriteResult "IndexOutOfBoundsError + bytes"

definition legacy_encode_signing_data :: "Transaction \<Rightarrow> nat \<Rightarrow> bytes \<Rightarrow> u32 \<Rightarrow> EncodeSigningDataResult" where
  "legacy_encode_signing_data tx input_index script ty =
     (case tx_in tx input_index of
        Inl e \<Rightarrow> WriteResult (Inl e)
      | Inr _ \<Rightarrow>
          if is_invalid_use_of_sighash_single ty input_index (length (tx_output tx)) then SighashSingleBug
          else WriteResult (Inr (fst (ecat (enc_Transaction (legacy_tx tx input_index script ty)) (enc_array (to_le_bytes ty))))))"

definition legacy_signature_hash :: "nat \<Rightarrow> bytes \<Rightarrow> u32 \<Rightarrow> SighashCache \<Rightarrow> IndexOutOfBoundsError + bytes" where
  "legacy_signature_hash input_index script ty c =
     (case legacy_encode_signing_data (sc_tx c) input_index script ty of
        SighashSingleBug \<Rightarrow> Inr UINT256_ONE
      | WriteResult (Inr w) \<Rightarrow> Inr (sha256d_from_engine (input engine_default w))
      | WriteResult (Inl e) \<Rightarrow> Inl e)"

section \<open>The messages\<close>

text \<open>What is signed, as a function of the transaction alone.\<close>

definition bytes_of :: "('a \<Rightarrow> bytes \<times> nat) \<Rightarrow> 'a list \<Rightarrow> bytes" where "bytes_of enc xs = concat (map (\<lambda>x. fst (enc x)) xs)"

definition opt_bytes :: "bool \<Rightarrow> bytes \<Rightarrow> bytes" where "opt_bytes b x = (if b then x else [])"

definition bip341_message ::
  "Transaction \<Rightarrow> nat \<Rightarrow> Prevouts \<Rightarrow> bytes option \<Rightarrow> (bytes \<times> u32) option \<Rightarrow> TapSighashType \<Rightarrow> TapHashError + bytes" where
  "bip341_message tx i ps annex lf ty =
     (let (sighash, acp) = tap_split ty; ins = tx_input tx; outs = tx_output tx
      in if \<not> prevouts_check_all ps tx then Inl PrevoutsSize
         else if \<not> acp \<and> prevouts_get_all ps = None then Inl PrevoutsKind
         else if acp \<and> length ins \<le> i then Inl (InputsIndex (IndexOutOfBoundsError i (length ins)))
         else (case (if acp then prevouts_get ps i else Inr txout_NULL) of
                 Inl e \<Rightarrow> Inl (PrevoutsIndex e)
               | Inr prev \<Rightarrow>
                   if sighash = TSingle \<and> length outs \<le> i then Inl (SingleMissingOutput i (length outs))
                   else Inr (concat
                     [[0], [tap_to_u8 ty], fst (enc_Version (tx_version tx)), fst (enc_LockTime (lock_time tx)),
                      (if acp then []
                       else sha256_hash (bytes_of (enc_OutPoint \<circ> previous_output) ins) @
                            sha256_hash (bytes_of (encode_int \<circ> txout_value) (the (prevouts_get_all ps))) @
                            sha256_hash (bytes_of (enc_with_size \<circ> script_pubkey) (the (prevouts_get_all ps))) @
                            sha256_hash (bytes_of (enc_Sequence \<circ> sequence) ins)),
                      opt_bytes (sighash \<noteq> TNone \<and> sighash \<noteq> TSingle) (sha256_hash (bytes_of enc_TxOut outs)),
                      [(if annex \<noteq> None then 1 else 0) OR (if lf \<noteq> None then 2 else 0)],
                      (if acp
                       then fst (enc_OutPoint (previous_output (ins ! i))) @ fst (encode_int (txout_value prev)) @
                            fst (enc_with_size (script_pubkey prev)) @ fst (enc_Sequence (sequence (ins ! i)))
                       else fst (encode_int (word_of_nat i :: u32))),
                      (case annex of Some a \<Rightarrow> sha256_hash (fst (enc_with_size a)) | None \<Rightarrow> []),
                      opt_bytes (sighash = TSingle) (sha256_hash (fst (enc_TxOut (outs ! i)))),
                      (case lf of Some (h, k) \<Rightarrow> h @ [0] @ fst (encode_int k) | None \<Rightarrow> [])])))"

definition bip143_message :: "Transaction \<Rightarrow> nat \<Rightarrow> bytes \<Rightarrow> u64 \<Rightarrow> EcdsaSighashType \<Rightarrow> IndexOutOfBoundsError + bytes" where
  "bip143_message tx i code v ty =
     (let (sighash, acp) = ecdsa_split ty; ins = tx_input tx; outs = tx_output tx; zero = replicate 32 0
      in if length ins \<le> i then Inl (IndexOutOfBoundsError i (length ins))
         else Inr (concat
           [fst (enc_Version (tx_version tx)),
            (if acp then zero else sha256d_hash (bytes_of (enc_OutPoint \<circ> previous_output) ins)),
            (if acp \<or> sighash = ESingle \<or> sighash = ENone then zero else sha256d_hash (bytes_of (enc_Sequence \<circ> sequence) ins)),
            fst (enc_OutPoint (previous_output (ins ! i))), fst (enc_with_size code), fst (encode_int v),
            fst (enc_Sequence (sequence (ins ! i))),
            (if sighash = EAll then sha256d_hash (bytes_of enc_TxOut outs)
             else if sighash = ESingle \<and> i < length outs then sha256d_hash (fst (enc_TxOut (outs ! i))) else zero),
            fst (enc_LockTime (lock_time tx)), fst (encode_int (ecdsa_to_u32 ty))]))"

section \<open>The cache holds what it should\<close>

lemma sha_of_eq: "sha_of es = sha256_hash (concat (map fst es))"
proof -
  have "fold engine_write es e = fold (\<lambda>s e. input e s) (map fst es) e" for e
    by (induction es arbitrary: e) (simp_all add: engine_write_def)
  then show ?thesis using hash_byte_chunks_eq [of "map fst es"] by (simp add: sha_of_def hash_byte_chunks_def)
qed

lemma sha_of_map: "sha_of (map f xs) = sha256_hash (bytes_of f xs)"
  by (simp add: sha_of_eq bytes_of_def comp_def)

definition segwit_of :: "CommonCache \<Rightarrow> SegwitCache" where
  "segwit_of cc =
     \<lparr> wc_prevouts = hash_again (cc_prevouts cc), wc_sequences = hash_again (cc_sequences cc), wc_outputs = hash_again (cc_outputs cc) \<rparr>"

text \<open>The invariant; \<open>warm\<close> says that the values of the spent outputs \<open>P\<close> are already there.\<close>

definition cache_ok :: "bool \<Rightarrow> TxOut list \<Rightarrow> Transaction \<Rightarrow> SighashCache \<Rightarrow> bool" where
  "cache_ok warm P tx c \<longleftrightarrow>
     sc_tx c = tx \<and> common_cache c \<in> {None, Some (make_common tx)} \<and> segwit_cache c \<in> {None, Some (segwit_of (make_common tx))} \<and>
     taproot_cache c \<in> (if warm then {Some (make_taproot P)} else {None, Some (make_taproot P)})"

lemma cache_new_ok: "cache_ok False P tx (cache_new tx)"
  by (simp add: cache_ok_def cache_new_def)

lemma get_common_ok: "cache_ok b P tx c \<Longrightarrow> \<exists>c'. get_common c = (make_common tx, c') \<and> cache_ok b P tx c'"
  by (auto simp: get_common_def cache_ok_def Let_def)

lemma get_segwit_ok: "cache_ok b P tx c \<Longrightarrow> \<exists>c'. get_segwit c = (segwit_of (make_common tx), c') \<and> cache_ok b P tx c'"
  using get_common_ok [of b P tx c] by (auto simp: get_segwit_def cache_ok_def Let_def segwit_of_def split: prod.splits)

lemma get_taproot_ok:
  "cache_ok b P tx c \<Longrightarrow> ps = P \<or> b \<Longrightarrow> \<exists>c'. get_taproot ps c = (make_taproot P, c') \<and> cache_ok True P tx c' \<and> cache_ok b P tx c'"
  by (auto simp: get_taproot_def cache_ok_def Let_def split: if_splits)

text \<open>An action gives a result: it writes the bytes or fails, and keeps the invariant.\<close>

definition gives :: "bool \<Rightarrow> TxOut list \<Rightarrow> Transaction \<Rightarrow> 'e signing \<Rightarrow> 'e + bytes \<Rightarrow> bool" where
  "gives b P tx a r \<longleftrightarrow> (\<forall>c w. cache_ok b P tx c \<longrightarrow>
     (\<exists>c' w'. a (c, w) = (map_sum id (\<lambda>_. ()) r, (c', w')) \<and> cache_ok b P tx c' \<and> (\<forall>x. r = Inr x \<longrightarrow> w' = w @ x)))"

fun seq_result :: "('e + bytes) list \<Rightarrow> 'e + bytes" where
  "seq_result [] = Inr []"
| "seq_result (Inl e # rs) = Inl e"
| "seq_result (Inr x # rs) = map_sum id (\<lambda>y. x @ y) (seq_result rs)"

named_theorems gives

lemma gives_put [gives]: "gives b P tx (put e) (Inr (fst e))"
  by (simp add: gives_def put_def)

lemma gives_fail [gives]: "gives b P tx (fail e) (Inl e)"
  by (simp add: gives_def fail_def)

lemma gives_nil [gives]: "gives b P tx (steps []) (Inr [])"
  by (simp add: gives_def)

lemma gives_steps: "list_all2 (gives b P tx) as rs \<Longrightarrow> gives b P tx (steps as) (seq_result rs)"
proof (induction as rs rule: list_all2_induct)
  case Nil
  show ?case by (simp add: gives_def)
next
  case (Cons a as r rs)
  show ?case unfolding gives_def
  proof (intro allI impI)
    fix c w
    assume "cache_ok b P tx c"
    with Cons.hyps(1) obtain c' w' where a: "a (c, w) = (map_sum id (\<lambda>_. ()) r, (c', w'))" "cache_ok b P tx c'" "\<forall>x. r = Inr x \<longrightarrow> w' = w @ x"
      unfolding gives_def by metis
    with Cons.IH obtain c'' w'' where s: "steps as (c', w') = (map_sum id (\<lambda>_. ()) (seq_result rs), (c'', w''))" "cache_ok b P tx c''"
      "\<forall>x. seq_result rs = Inr x \<longrightarrow> w'' = w' @ x" unfolding gives_def by metis
    show "\<exists>c' w'. steps (a # as) (c, w) = (map_sum id (\<lambda>_. ()) (seq_result (r # rs)), (c', w')) \<and> cache_ok b P tx c' \<and>
        (\<forall>x. seq_result (r # rs) = Inr x \<longrightarrow> w' = w @ x)"
      using a s by (cases r; cases "seq_result rs") auto
  qed
qed

lemma gives_tx [gives]: "gives b P tx (f tx) r \<Longrightarrow> gives b P tx (with_tx f) r"
  unfolding gives_def with_tx_def by (metis cache_ok_def fst_conv)

lemma gives_cached:
  assumes "\<And>c. cache_ok b P tx c \<Longrightarrow> \<exists>c'. get c = (v, c') \<and> cache_ok b P tx c'" "gives b P tx (f v) r"
  shows "gives b P tx (\<lambda>s. let (x, c) = get (fst s) in f x (c, snd s)) r"
proof (unfold gives_def, intro allI impI, goal_cases)
  case (1 c w)
  then obtain c' where c: "get c = (v, c')" "cache_ok b P tx c'" using assms(1) by blast
  then show ?case using assms(2) unfolding gives_def by simp
qed

lemma gives_common [gives]: "gives b P tx (f (make_common tx)) r \<Longrightarrow> gives b P tx (with_common f) r"
  using gives_cached [of b P tx get_common "make_common tx" f r] get_common_ok [of b P tx] by (simp add: with_common_def [abs_def])

lemma gives_segwit [gives]: "gives b P tx (f (segwit_of (make_common tx))) r \<Longrightarrow> gives b P tx (with_segwit f) r"
  using gives_cached [of b P tx get_segwit "segwit_of (make_common tx)" f r] get_segwit_ok [of b P tx] by (simp add: with_segwit_def [abs_def])

lemma gives_taproot [gives]: "ps = P \<or> b \<Longrightarrow> gives b P tx (f (make_taproot P)) r \<Longrightarrow> gives b P tx (with_taproot ps f) r"
  using gives_cached [of b P tx "get_taproot ps" "make_taproot P" f r] get_taproot_ok [of b P tx _ ps] by (auto simp add: with_taproot_def [abs_def])

lemma gives_if [gives]: "(x \<Longrightarrow> gives b P tx a r) \<Longrightarrow> (\<not> x \<Longrightarrow> gives b P tx a' r') \<Longrightarrow> gives b P tx (if x then a else a') (if x then r else r')"
  by simp

lemma gives_put_hash [gives]: "gives b P tx (put (enc_array h)) (Inr h)"
  using gives_put [of b P tx "enc_array h"] by (simp add: enc_array_def emit_slice_def)

lemma gives_put_u8 [gives]: "gives b P tx (put (emit_u8 x)) (Inr [x])"
  using gives_put [of b P tx "emit_u8 x"] by (simp add: emit_u8_def)

lemma seq_result_Inr: "seq_result (map Inr xs) = Inr (concat xs)"
  by (induction xs) simp_all

lemma gives_puts: "gives b P tx (steps (map put es)) (Inr (concat (map fst es)))"
proof -
  have "list_all2 (gives b P tx) (map put es) (map Inr (map fst es))" by (simp add: list_all2_conv_all_nth gives_put)
  from gives_steps [OF this] show ?thesis by (simp only: seq_result_Inr)
qed

lemma gives_put4 [gives]: "gives b P tx (steps [put e1, put e2, put e3, put e4]) (Inr (fst e1 @ fst e2 @ fst e3 @ fst e4))"
  using gives_puts [of b P tx "[e1, e2, e3, e4]"] by simp

lemma gives_put3 [gives]: "gives b P tx (steps [put e1, put e2, put e3]) (Inr (fst e1 @ fst e2 @ fst e3))"
  using gives_puts [of b P tx "[e1, e2, e3]"] by simp

lemma gives_bip143: "gives b P tx (segwit_v0_encode_signing_data i code v ty) (bip143_message tx i code v ty)"
proof -
  obtain sighash acp where ty: "ecdsa_split ty = (sighash, acp)" by fastforce
  let ?z = "replicate 32 0 :: bytes" and ?cc = "segwit_of (make_common tx)"
  let ?a = "if acp then ?z else wc_prevouts ?cc" and ?q = "if acp \<or> sighash = ESingle \<or> sighash = ENone then ?z else wc_sequences ?cc"
  let ?o = "if sighash \<noteq> ESingle \<and> sighash \<noteq> ENone then wc_outputs ?cc
    else if sighash = ESingle \<and> i < length (tx_output tx)
    then sha256d_from_engine (engine_write (enc_TxOut (tx_output tx ! i)) engine_default) else ?z"
  let ?rs = "[Inr (fst (enc_Version (tx_version tx))), Inr ?a, Inr ?q,
     (case tx_in tx i of Inl e \<Rightarrow> Inl e
      | Inr txin \<Rightarrow> seq_result (map Inr [fst (enc_OutPoint (previous_output txin)), fst (enc_with_size code), fst (encode_int v), fst (enc_Sequence (sequence txin))])),
     Inr ?o, Inr (fst (enc_LockTime (lock_time tx))), Inr (fst (encode_int (ecdsa_to_u32 ty)))]"
  have "gives b P tx (segwit_v0_encode_signing_data i code v ty) (seq_result ?rs)"
    unfolding segwit_v0_encode_signing_data_def ty Let_def case_prod_conv
    by (intro gives_tx gives_steps list.rel_intros)
      (auto split: sum.splits intro!: gives gives_steps)
  moreover have "seq_result ?rs = bip143_message tx i code v ty"
    using ty by (cases ty) (auto simp: bip143_message_def tx_in_def segwit_of_def make_common_def sha_of_map hash_again_def
        sha256d_hash_eq sha256d_from_engine_def engine_write_def sha256_hash_def comp_def Let_def)
  ultimately show ?thesis by simp
qed

fun same_prevouts :: "bool \<Rightarrow> TxOut list \<Rightarrow> Prevouts \<Rightarrow> bool" where
  "same_prevouts b P (PrevAll ps) = (ps = P \<or> b \<and> length ps = length P)"
| "same_prevouts b P (PrevOne _ _) = True"

text \<open>The message for the spent outputs that the cache keeps.\<close>

fun keep_prevouts :: "TxOut list \<Rightarrow> bool \<Rightarrow> Prevouts \<Rightarrow> Prevouts" where
  "keep_prevouts P acp (PrevAll ps) = PrevAll (if acp then ps else P)"
| "keep_prevouts P acp (PrevOne i out) = PrevOne i out"

lemma keep_same: "same_prevouts False P ps \<Longrightarrow> keep_prevouts P acp ps = ps"
  by (cases ps) auto

lemma gives_bip341:
  assumes "same_prevouts b P ps"
  shows "gives b P tx (taproot_encode_signing_data i ps annex lf ty) (bip341_message tx i (keep_prevouts P (snd (tap_split ty)) ps) annex lf ty)"
proof -
  obtain sighash acp where ty: "tap_split ty = (sighash, acp)" by fastforce
  let ?cc = "make_common tx" and ?tc = "make_taproot P"
  let ?rs = "[if prevouts_check_all ps tx then Inr [] else Inl PrevoutsSize, Inr [0], Inr [tap_to_u8 ty],
     Inr (fst (enc_Version (tx_version tx))), Inr (fst (enc_LockTime (lock_time tx))),
     (if \<not> acp then seq_result
        [Inr (cc_prevouts ?cc), (case prevouts_get_all ps of None \<Rightarrow> Inl PrevoutsKind | Some ps \<Rightarrow> Inr (tc_amounts ?tc)),
         (case prevouts_get_all ps of None \<Rightarrow> Inl PrevoutsKind | Some ps \<Rightarrow> Inr (tc_script_pubkeys ?tc)), Inr (cc_sequences ?cc)]
      else Inr []),
     (if sighash \<noteq> TNone \<and> sighash \<noteq> TSingle then Inr (cc_outputs ?cc) else Inr []),
     Inr [(if annex \<noteq> None then 1 else 0) OR (if lf \<noteq> None then 2 else 0)],
     (if acp then
        (case tx_in tx i of Inl e \<Rightarrow> Inl (InputsIndex e)
         | Inr txin \<Rightarrow> (case prevouts_get ps i of Inl e \<Rightarrow> Inl (PrevoutsIndex e)
            | Inr out \<Rightarrow> Inr (fst (enc_OutPoint (previous_output txin)) @ fst (encode_int (txout_value out)) @
                fst (enc_with_size (script_pubkey out)) @ fst (enc_Sequence (sequence txin)))))
      else Inr (fst (encode_int (word_of_nat i :: u32)))),
     (case annex of Some a \<Rightarrow> Inr (sha_of [enc_with_size a]) | None \<Rightarrow> Inr []),
     (if sighash = TSingle
      then (if i < length (tx_output tx) then Inr (sha_of [enc_TxOut (tx_output tx ! i)]) else Inl (SingleMissingOutput i (length (tx_output tx))))
      else Inr []),
     (case lf of Some (h, k) \<Rightarrow> Inr (h @ 0 # fst (encode_int k)) | None \<Rightarrow> Inr [])]"
  have l: "gives b P tx (steps [put (enc_array h), put (emit_u8 0), put (encode_int k)]) (Inr (h @ 0 # fst (encode_int k)))" for h and k :: u32
    using gives_put3 [of b P tx "enc_array h" "emit_u8 0" "encode_int k"] by (simp add: enc_array_def emit_slice_def emit_u8_def)
  have t: "ps' = P \<or> b" if "prevouts_get_all ps = Some ps'" for ps' using assms that by (cases ps) auto
  have "gives b P tx (taproot_encode_signing_data i ps annex lf ty) (seq_result ?rs)"
    unfolding taproot_encode_signing_data_def ty Let_def case_prod_conv
    by (intro gives_tx gives_steps list.rel_intros gives_if)
      (auto split: sum.splits option.splits intro!: gives gives_steps l dest!: t simp del: seq_result.simps)
  moreover have "seq_result ?rs = bip341_message tx i (keep_prevouts P (snd (tap_split ty)) ps) annex lf ty"
  proof (cases ps)
    case (PrevOne j out)
    show ?thesis unfolding PrevOne bip341_message_def ty make_common_def make_taproot_def sha_of_map
      by (cases acp; cases annex; cases lf) (auto simp: tx_in_def sha_of_eq opt_bytes_def comp_def Let_def)
  next
    case (PrevAll qs)
    have "length qs = length P" using assms PrevAll by auto
    then show ?thesis unfolding PrevAll bip341_message_def ty make_common_def make_taproot_def sha_of_map
      by (cases acp; cases annex; cases lf) (auto simp: tx_in_def sha_of_eq opt_bytes_def comp_def Let_def)
  qed
  ultimately show ?thesis by simp
qed

section \<open>Sequences of calls\<close>

datatype SighashCall =
  TapCall nat Prevouts "bytes option" "(bytes \<times> u32) option" TapSighashType | P2wpkhCall nat bytes u64 EcdsaSighashType |
  P2wshCall nat bytes u64 EcdsaSighashType | LegacyCall nat bytes u32 | WitnessCall nat Witness

datatype SighashResult =
  TapResult "TapHashError + bytes" | P2wpkhResult "(P2wpkhError + bytes) option" | P2wshResult "IndexOutOfBoundsError + bytes" |
  LegacyResult "IndexOutOfBoundsError + bytes" | WitnessResult bool

fun run_call :: "SighashCall \<Rightarrow> SighashCache \<Rightarrow> SighashResult \<times> SighashCache" where
  "run_call (TapCall i ps annex lf ty) c = map_prod TapResult id (taproot_signature_hash i ps annex lf ty c)"
| "run_call (P2wpkhCall i script v ty) c =
     (case p2wpkh_signature_hash i script v ty c of None \<Rightarrow> (P2wpkhResult None, c) | Some (r, c') \<Rightarrow> (P2wpkhResult (Some r), c'))"
| "run_call (P2wshCall i script v ty) c = map_prod P2wshResult id (p2wsh_signature_hash i script v ty c)"
| "run_call (LegacyCall i script ty) c = (LegacyResult (legacy_signature_hash i script ty c), c)"
| "run_call (WitnessCall i w) c = (case set_witness i w c of None \<Rightarrow> (WitnessResult False, c) | Some c' \<Rightarrow> (WitnessResult True, c'))"

fun run_calls :: "SighashCall list \<Rightarrow> SighashCache \<Rightarrow> SighashResult list" where
  "run_calls [] c = []"
| "run_calls (call # calls) c = (let (r, c) = run_call call c in r # run_calls calls c)"

text \<open>What a call should give, without a cache.\<close>

fun spec_call :: "Transaction \<Rightarrow> SighashCall \<Rightarrow> SighashResult" where
  "spec_call tx (TapCall i ps annex lf ty) = TapResult (map_sum id (\<lambda>m. tagged_hash ''TapSighash'' [m]) (bip341_message tx i ps annex lf ty))"
| "spec_call tx (P2wpkhCall i script v ty) = P2wpkhResult (map_option (\<lambda>code. case code of
       None \<Rightarrow> Inl NotP2wpkhScript
     | Some code \<Rightarrow> map_sum P2wpkhSighash sha256d_hash (bip143_message tx i code v ty)) (p2wpkh_script_code script))"
| "spec_call tx (P2wshCall i script v ty) = P2wshResult (map_sum id sha256d_hash (bip143_message tx i script v ty))"
| "spec_call tx (LegacyCall i script ty) = LegacyResult
     (if length (tx_input tx) \<le> i then Inl (IndexOutOfBoundsError i (length (tx_input tx)))
      else if is_single (ecdsa_from_consensus ty) \<and> length (tx_output tx) \<le> i then Inr UINT256_ONE
      else Inr (sha256d_hash (serialize enc_Transaction (legacy_tx tx i script ty) @ to_le_bytes ty)))"
| "spec_call tx (WitnessCall i w) = WitnessResult (i < length (tx_input tx))"

lemma taproot_hash_spec:
  assumes "cache_ok b P tx c" "same_prevouts b P ps"
  shows "\<exists>c'. taproot_signature_hash i ps annex lf ty c =
    (map_sum id (\<lambda>m. tagged_hash ''TapSighash'' [m]) (bip341_message tx i (keep_prevouts P (snd (tap_split ty)) ps) annex lf ty), c') \<and>
    cache_ok b P tx c'"
proof -
  let ?m = "bip341_message tx i (keep_prevouts P (snd (tap_split ty)) ps) annex lf ty"
  obtain c' w' where "taproot_encode_signing_data i ps annex lf ty (c, []) = (map_sum id (\<lambda>_. ()) ?m, (c', w'))" "cache_ok b P tx c'"
    "\<forall>x. ?m = Inr x \<longrightarrow> w' = x"
    using gives_bip341 [OF assms(2), of tx i annex lf ty] assms(1) unfolding gives_def by fastforce
  then show ?thesis by (cases ?m) (auto simp: taproot_signature_hash_def)
qed

lemma p2wsh_hash_spec:
  assumes "cache_ok b P tx c"
  shows "\<exists>c'. p2wsh_signature_hash i script v ty c = (map_sum id sha256d_hash (bip143_message tx i script v ty), c') \<and> cache_ok b P tx c'"
proof -
  let ?m = "bip143_message tx i script v ty"
  obtain c' w' where "segwit_v0_encode_signing_data i script v ty (c, []) = (map_sum id (\<lambda>_. ()) ?m, (c', w'))" "cache_ok b P tx c'"
    "\<forall>x. ?m = Inr x \<longrightarrow> w' = x"
    using gives_bip143 [of b P tx i script v ty] assms unfolding gives_def by fastforce
  then show ?thesis by (cases ?m) (auto simp: p2wsh_signature_hash_def sha256d_hash_def)
qed

lemma legacy_hash_spec: "LegacyResult (legacy_signature_hash i script ty c) = spec_call (sc_tx c) (LegacyCall i script ty)"
  by (auto simp: legacy_signature_hash_def legacy_encode_signing_data_def tx_in_def is_invalid_use_of_sighash_single_def
      sha256d_hash_def serialize_def enc_array_def emit_slice_def ecat_def)

text \<open>Transactions that differ only in what a signature may change.\<close>

definition unsigned_tx :: "Transaction \<Rightarrow> Transaction" where
  "unsigned_tx tx = tx\<lparr> tx_input := map (\<lambda>i. i\<lparr> script_sig := [], witness := witness_new \<rparr>) (tx_input tx) \<rparr>"

lemma unsigned_parts:
  assumes "unsigned_tx tx = unsigned_tx tx'"
  shows "tx_version tx = tx_version tx'" "lock_time tx = lock_time tx'" "tx_output tx = tx_output tx'"
    "length (tx_input tx) = length (tx_input tx')" "map previous_output (tx_input tx) = map previous_output (tx_input tx')"
    "map sequence (tx_input tx) = map sequence (tx_input tx')"
proof -
  let ?u = "\<lambda>i :: TxIn. i\<lparr> script_sig := [], witness := witness_new \<rparr>"
  have e: "map ?u (tx_input tx) = map ?u (tx_input tx')" using arg_cong [OF assms, of tx_input] by (simp add: unsigned_tx_def)
  show "length (tx_input tx) = length (tx_input tx')" using arg_cong [OF e, of length] by simp
  show "map previous_output (tx_input tx) = map previous_output (tx_input tx')" using arg_cong [OF e, of "map previous_output"] by (simp add: comp_def)
  show "map sequence (tx_input tx) = map sequence (tx_input tx')" using arg_cong [OF e, of "map sequence"] by (simp add: comp_def)
  show "tx_version tx = tx_version tx'" using arg_cong [OF assms, of tx_version] by (simp add: unsigned_tx_def)
  show "lock_time tx = lock_time tx'" using arg_cong [OF assms, of lock_time] by (simp add: unsigned_tx_def)
  show "tx_output tx = tx_output tx'" using arg_cong [OF assms, of tx_output] by (simp add: unsigned_tx_def)
qed

lemma bytes_of_map: "bytes_of (enc \<circ> f) xs = bytes_of enc (map f xs)"
  by (simp add: bytes_of_def comp_def)

lemma unsigned_nth:
  assumes "unsigned_tx tx = unsigned_tx tx'" "i < length (tx_input tx)"
  shows "previous_output (tx_input tx ! i) = previous_output (tx_input tx' ! i)" "sequence (tx_input tx ! i) = sequence (tx_input tx' ! i)"
  using assms unsigned_parts(4-6) [OF assms(1)] by (metis nth_map)+

lemma unsigned_legacy:
  assumes u: "unsigned_tx tx = unsigned_tx tx'" and "i < length (tx_input tx)"
  shows "legacy_tx tx i script ty = legacy_tx tx' i script ty"
proof -
  obtain sighash acp where ty: "ecdsa_split (ecdsa_from_consensus ty) = (sighash, acp)" by fastforce
  note n = unsigned_nth [OF u]
  have "map (\<lambda>(n, inp). \<lparr> previous_output = previous_output inp, script_sig = (if n = i then script else []),
      sequence = (if n \<noteq> i \<and> (sighash = ESingle \<or> sighash = ENone) then Sequence 0 else sequence inp), witness = witness_new \<rparr>) (enumerate 0 (tx_input tx)) =
    map (\<lambda>(n, inp). \<lparr> previous_output = previous_output inp, script_sig = (if n = i then script else []),
      sequence = (if n \<noteq> i \<and> (sighash = ESingle \<or> sighash = ENone) then Sequence 0 else sequence inp), witness = witness_new \<rparr>) (enumerate 0 (tx_input tx'))"
    using unsigned_parts(4) [OF u] n by (intro nth_equalityI) (simp_all add: nth_enumerate_eq)
  then show ?thesis
    unfolding legacy_tx_def ty Let_def case_prod_conv unsigned_parts(1-3) [OF u] using n [OF assms(2)] by (cases acp) simp_all
qed

lemma spec_unsigned:
  assumes u: "unsigned_tx tx = unsigned_tx tx'"
  shows "spec_call tx call = spec_call tx' call"
proof -
  note parts = unsigned_parts [OF u]
  have m143: "bip143_message tx i code v ty = bip143_message tx' i code v ty" for i code v ty
    unfolding bip143_message_def bytes_of_map
    using parts unsigned_nth [OF u, of i] by (cases "i < length (tx_input tx)") (auto simp: Let_def split: prod.splits)
  have ck: "prevouts_check_all ps tx = prevouts_check_all ps tx'" for ps using parts(4) by (cases ps) simp_all
  have m341: "bip341_message tx i ps annex lf ty = bip341_message tx' i ps annex lf ty" for i ps annex lf ty
  proof -
    obtain sighash acp where ty: "tap_split ty = (sighash, acp)" by fastforce
    note msg = bip341_message_def bytes_of_map ck ty Let_def case_prod_conv parts
    consider "\<not> acp" | "acp" "length (tx_input tx') \<le> i" | "i < length (tx_input tx)" using parts(4) by linarith
    then show ?thesis
    proof cases
      case 1
      then have acp: "acp = False" by simp
      show ?thesis unfolding msg acp if_False ..
    next
      case 2
      then show ?thesis unfolding msg by simp
    next
      case 3
      show ?thesis unfolding msg unsigned_nth [OF u 3] ..
    qed
  qed
  show ?thesis
  proof (cases call)
    case (LegacyCall i script ty)
    then show ?thesis using parts unsigned_legacy [OF u, of i script ty] by (cases "i < length (tx_input tx)") simp_all
  qed (simp_all add: m143 m341 parts(4))
qed

lemma make_common_unsigned: "unsigned_tx tx = unsigned_tx tx' \<Longrightarrow> make_common tx = make_common tx'"
proof -
  assume u: "unsigned_tx tx = unsigned_tx tx'"
  have "map (\<lambda>i. enc_OutPoint (previous_output i)) (tx_input tx) = map (\<lambda>i. enc_OutPoint (previous_output i)) (tx_input tx')"
    using arg_cong [OF unsigned_parts(5) [OF u], of "map enc_OutPoint"] by (simp add: comp_def)
  moreover have "map (\<lambda>i. enc_Sequence (sequence i)) (tx_input tx) = map (\<lambda>i. enc_Sequence (sequence i)) (tx_input tx')"
    using arg_cong [OF unsigned_parts(6) [OF u], of "map enc_Sequence"] by (simp add: comp_def)
  ultimately show ?thesis using unsigned_parts(3) [OF u] by (simp only: make_common_def)
qed

lemma set_witness_ok:
  assumes "cache_ok b P tx c" "set_witness i w c = Some c'"
  shows "\<exists>tx'. cache_ok b P tx' c' \<and> unsigned_tx tx' = unsigned_tx tx"
proof -
  let ?tx = "tx\<lparr> tx_input := (tx_input tx)[i := (tx_input tx ! i)\<lparr> witness := w \<rparr>] \<rparr>"
  have i: "i < length (tx_input tx)" "c' = c\<lparr> sc_tx := ?tx \<rparr>" using assms by (auto simp: set_witness_def cache_ok_def Let_def split: if_splits)
  have "map (\<lambda>i. i\<lparr> script_sig := [], witness := witness_new \<rparr>) (tx_input ?tx) = map (\<lambda>i. i\<lparr> script_sig := [], witness := witness_new \<rparr>) (tx_input tx)"
    using i(1) by (intro nth_equalityI) (auto simp: nth_list_update)
  then have u: "unsigned_tx ?tx = unsigned_tx tx" by (simp add: unsigned_tx_def)
  have "cache_ok b P ?tx c'" using assms(1) i(2) make_common_unsigned [OF u] by (auto simp: cache_ok_def)
  then show ?thesis using u by blast
qed

fun call_prevouts_ok :: "TxOut list \<Rightarrow> SighashCall \<Rightarrow> bool" where
  "call_prevouts_ok P (TapCall _ ps _ _ _) = same_prevouts False P ps"
| "call_prevouts_ok P _ = True"

lemma run_call_ok:
  assumes "cache_ok False P tx c" "call_prevouts_ok P call"
  shows "\<exists>tx' c'. run_call call c = (spec_call tx call, c') \<and> cache_ok False P tx' c' \<and> unsigned_tx tx' = unsigned_tx tx"
proof (cases call)
  case (TapCall i ps annex lf ty)
  then have s: "same_prevouts False P ps" using assms(2) by simp
  show ?thesis using taproot_hash_spec [OF assms(1) s, of i annex lf ty] keep_same [OF s] TapCall by auto
next
  case (P2wpkhCall i script v ty)
  show ?thesis
  proof (cases "p2wpkh_script_code script")
    case None
    then show ?thesis using P2wpkhCall assms(1) by (auto simp: p2wpkh_signature_hash_def)
  next
    case (Some code)
    show ?thesis
    proof (cases code)
      case None
      then show ?thesis using P2wpkhCall assms(1) Some by (auto simp: p2wpkh_signature_hash_def)
    next
      case (Some code')
      then show ?thesis using P2wpkhCall p2wsh_hash_spec [OF assms(1), of i code' v ty] \<open>p2wpkh_script_code script = Some code\<close>
        by (auto simp: p2wpkh_signature_hash_def sum.map_comp comp_def)
    qed
  qed
next
  case (P2wshCall i script v ty)
  then show ?thesis using p2wsh_hash_spec [OF assms(1), of i script v ty] by auto
next
  case (LegacyCall i script ty)
  have "sc_tx c = tx" using assms(1) by (simp add: cache_ok_def)
  then show ?thesis using LegacyCall legacy_hash_spec [of i script ty c] assms(1) by (auto simp del: spec_call.simps)
next
  case (WitnessCall i w)
  show ?thesis
  proof (cases "set_witness i w c")
    case None
    then show ?thesis using WitnessCall assms(1) by (auto simp: set_witness_def cache_ok_def Let_def split: if_splits)
  next
    case (Some c')
    then have "i < length (tx_input tx)" using assms(1) by (auto simp: set_witness_def cache_ok_def Let_def split: if_splits)
    then show ?thesis using Some WitnessCall set_witness_ok [OF assms(1) Some] by auto
  qed
qed

lemma run_calls_ok:
  "cache_ok False P tx' c \<Longrightarrow> unsigned_tx tx' = unsigned_tx tx \<Longrightarrow> list_all (call_prevouts_ok P) calls \<Longrightarrow> run_calls calls c = map (spec_call tx) calls"
proof (induction calls arbitrary: tx' c)
  case (Cons call calls)
  from run_call_ok [OF Cons.prems(1), of call] Cons.prems(3) obtain tx'' c' where
    r: "run_call call c = (spec_call tx' call, c')" "cache_ok False P tx'' c'" "unsigned_tx tx'' = unsigned_tx tx'" by auto
  then show ?case using Cons.IH [OF r(2)] Cons.prems spec_unsigned [OF Cons.prems(2), of call] by simp
qed simp

section \<open>Properties\<close>

lemma from_standard_iff: "ecdsa_from_standard n = Inr t \<longleftrightarrow> ecdsa_to_u32 t = n"
  by (cases t) (auto simp: ecdsa_from_standard_def)

lemma from_consensus_to_u32: "ecdsa_from_consensus (ecdsa_to_u32 t) = t"
  by (cases t) (simp_all add: ecdsa_from_consensus_def)

lemma ecdsa_str_iff: "ecdsa_from_str s = Inr t \<longleftrightarrow> ecdsa_to_string t = s"
  by (cases t) (auto simp: ecdsa_from_str_def)

lemma tap_consensus_iff: "tap_from_consensus_u8 n = Inr t \<longleftrightarrow> tap_to_u8 t = n"
  by (cases t) (auto simp: tap_from_consensus_u8_def)

lemma tap_str_iff: "tap_from_str s = Inr t \<longleftrightarrow> tap_to_string t = s"
  by (cases t) (auto simp: tap_from_str_def)

text \<open>The integer and text forms of the signature hash types, both kinds, are exact: the checking parsers accept precisely what the
  printers give and return the type it stands for, and the lenient parser of consensus code gives back every standard type.\<close>

theorem sighash_type_forms:
  "(ecdsa_from_standard n = Inr t \<longleftrightarrow> ecdsa_to_u32 t = n) \<and> ecdsa_from_consensus (ecdsa_to_u32 t) = t \<and>
   (ecdsa_from_str s = Inr t \<longleftrightarrow> ecdsa_to_string t = s) \<and>
   (tap_from_consensus_u8 m = Inr u \<longleftrightarrow> tap_to_u8 u = m) \<and> (tap_from_str s = Inr u \<longleftrightarrow> tap_to_string u = s) \<and>
   ucast (tap_to_u8 (tap_of_ecdsa t)) = ecdsa_to_u32 t"
proof -
  have "ucast (tap_to_u8 (tap_of_ecdsa t)) = ecdsa_to_u32 t" by (cases t) simp_all
  then show ?thesis by (simp only: from_standard_iff from_consensus_to_u32 ecdsa_str_iff tap_consensus_iff tap_str_iff simp_thms)
qed

text \<open>(C8) The cache is transparent: on a fresh cache, any sequence of digest computations, of every kind and interleaved with
  changes of witnesses, gives for each call exactly the digest or the error that the transaction itself determines, provided
  that the calls which pass all spent outputs pass the same ones.\<close>

theorem sighash_cache_transparent:
  assumes "list_all (call_prevouts_ok P) calls"
  shows "run_calls calls (cache_new tx) = map (spec_call tx) calls"
  using run_calls_ok [OF cache_new_ok refl assms] .

theorem sighash_cache_transparent_witness:
  "run_calls [P2wshCall 0 [0x51] 7 EAll, WitnessCall 0 witness_new, TapCall 0 (PrevAll [txout_NULL]) None None TDefault] (cache_new sample_tx) =
   map (spec_call sample_tx) [P2wshCall 0 [0x51] 7 EAll, WitnessCall 0 witness_new, TapCall 0 (PrevAll [txout_NULL]) None None TDefault]"
  by (rule sighash_cache_transparent [of "[txout_NULL]"]) simp

text \<open>(C20) Signing does not depend on signatures: two transactions that differ only in script signatures and witnesses have the
  same digests, of every kind.\<close>

theorem sighash_ignores_signatures:
  assumes "unsigned_tx tx = unsigned_tx tx'"
  shows "fst (run_call call (cache_new tx)) = fst (run_call call (cache_new tx'))"
proof -
  obtain P where p: "call_prevouts_ok P call"
  proof (cases call)
    case (TapCall i ps annex lf ty)
    then show thesis using that by (cases ps) auto
  qed (use that in auto)
  have "run_calls [call] (cache_new tx) = run_calls [call] (cache_new tx')"
    using run_calls_ok [OF cache_new_ok refl, of P "[call]" tx] run_calls_ok [OF cache_new_ok refl, of P "[call]" tx'] p spec_unsigned [OF assms, of call]
    by (simp del: run_calls.simps)
  then show ?thesis by (simp add: case_prod_beta)
qed

theorem sighash_ignores_signatures_witness:
  "fst (run_call (LegacyCall 0 [0x51] 1) (cache_new sample_tx)) =
   fst (run_call (LegacyCall 0 [0x51] 1) (cache_new (sample_tx\<lparr> tx_input := map (\<lambda>i. i\<lparr> script_sig := [0x52, 0x53] \<rparr>) (tx_input sample_tx) \<rparr>)))"
  by (rule sighash_ignores_signatures) (simp add: unsigned_tx_def comp_def)

lemma first_tap_call:
  assumes "length ps = length (tx_input tx)" "\<not> snd (tap_split ty)"
  shows "cache_ok True ps tx (snd (taproot_signature_hash j (PrevAll ps) annex lf ty (cache_new tx)))"
proof -
  obtain sighash where ty: "tap_split ty = (sighash, False)" using assms(2) by (cases "tap_split ty") auto
  have "snd (taproot_signature_hash j (PrevAll ps) annex lf ty (cache_new tx)) =
    (cache_new tx)\<lparr> common_cache := Some (make_common tx), taproot_cache := Some (make_taproot ps) \<rparr>"
    unfolding taproot_signature_hash_def taproot_encode_signing_data_def ty with_tx_def Let_def case_prod_conv
    using assms(1)
    by (cases annex; cases lf)
      (auto simp: put_def fail_def with_common_def with_taproot_def get_common_def get_taproot_def cache_new_def Let_def)
  then show ?thesis by (simp add: cache_ok_def cache_new_def)
qed

text \<open>The cache of spent outputs is not keyed: once the outputs \<open>ps\<close> were given for a digest of all inputs, a later digest of
  all inputs for other outputs \<open>qs\<close> is the digest for \<open>ps\<close>.\<close>

theorem taproot_cache_keeps_prevouts:
  assumes "length ps = length (tx_input tx)" "length qs = length (tx_input tx)" "\<not> snd (tap_split ty)" "\<not> snd (tap_split ty')"
  shows "fst (taproot_signature_hash i (PrevAll qs) annex lf ty (snd (taproot_signature_hash j (PrevAll ps) annex' lf' ty' (cache_new tx)))) =
    map_sum id (\<lambda>m. tagged_hash ''TapSighash'' [m]) (bip341_message tx i (PrevAll ps) annex lf ty)"
proof -
  have "same_prevouts True ps (PrevAll qs)" using assms(1,2) by simp
  from taproot_hash_spec [OF first_tap_call [OF assms(1,4), of j annex' lf'] this, of i annex lf ty] assms(3) show ?thesis by auto
qed

theorem taproot_cache_keeps_prevouts_witness:
  "fst (taproot_signature_hash 0 (PrevAll [txout_NULL]) None None TDefault
     (snd (taproot_signature_hash 0 (PrevAll [\<lparr> txout_value = 5, script_pubkey = [0x51] \<rparr>]) None None TDefault (cache_new sample_tx)))) =
   map_sum id (\<lambda>m. tagged_hash ''TapSighash'' [m])
     (bip341_message sample_tx 0 (PrevAll [\<lparr> txout_value = 5, script_pubkey = [0x51] \<rparr>]) None None TDefault)"
  by (rule taproot_cache_keeps_prevouts) (simp_all add: sample_tx_def)

end
