(* ===== verification/SipHash.thy ===== *)
theory SipHash
  imports Engine
begin

unbundle bit_operations_syntax

text \<open>
  SipHash-2-4, \<open>hashes/src/siphash24.rs\<close>. The engine keeps the unprocessed bytes in a word and reads memory without bounds
  checks; a read outside the slice is undefined behaviour and modelled as \<open>None\<close>, so that a result is also a proof of
  memory safety.
\<close>

section \<open>Operations\<close>

record SipState =
  v0 :: u64
  v1 :: u64
  v2 :: u64
  v3 :: u64

record SipEngine =
  sip_k0 :: u64
  sip_k1 :: u64
  sip_length :: nat
  sip_state :: SipState
  sip_tail :: u64
  ntail :: nat

definition compress :: "SipState \<Rightarrow> SipState" where
  "compress st =
     (let st = st\<lparr> v0 := v0 st + v1 st \<rparr>;
          st = st\<lparr> v1 := word_rotl 13 (v1 st) \<rparr>;
          st = st\<lparr> v1 := v1 st XOR v0 st \<rparr>;
          st = st\<lparr> v0 := word_rotl 32 (v0 st) \<rparr>;
          st = st\<lparr> v2 := v2 st + v3 st \<rparr>;
          st = st\<lparr> v3 := word_rotl 16 (v3 st) \<rparr>;
          st = st\<lparr> v3 := v3 st XOR v2 st \<rparr>;
          st = st\<lparr> v0 := v0 st + v3 st \<rparr>;
          st = st\<lparr> v3 := word_rotl 21 (v3 st) \<rparr>;
          st = st\<lparr> v3 := v3 st XOR v0 st \<rparr>;
          st = st\<lparr> v2 := v2 st + v1 st \<rparr>;
          st = st\<lparr> v1 := word_rotl 17 (v1 st) \<rparr>;
          st = st\<lparr> v1 := v1 st XOR v2 st \<rparr>
      in st\<lparr> v2 := word_rotl 32 (v2 st) \<rparr>)"

definition c_rounds :: "SipState \<Rightarrow> SipState" where "c_rounds st = compress (compress st)"
definition d_rounds :: "SipState \<Rightarrow> SipState" where "d_rounds st = compress (compress (compress (compress st)))"

text \<open>The macro \<open>load_int_le\<close>, for an integer of \<open>n\<close> bytes.\<close>

definition load_int_le :: "nat \<Rightarrow> bytes \<Rightarrow> nat \<Rightarrow> u64 option" where
  "load_int_le n buf i = (if i + n \<le> length buf then Some (from_le_bytes (take n (drop i buf))) else None)"

definition u8to64_le :: "bytes \<Rightarrow> nat \<Rightarrow> nat \<Rightarrow> u64 option" where
  "u8to64_le buf start len =
     Option.bind (if 3 < len then map_option (\<lambda>x. (x, 4)) (load_int_le 4 buf start) else Some (0, 0)) (\<lambda>(out, i).
     Option.bind (if i + 1 < len then map_option (\<lambda>x. (out OR push_bit (i * 8) x, i + 2)) (load_int_le 2 buf (start + i))
                  else Some (out, i)) (\<lambda>(out, i).
     if i < len then map_option (\<lambda>x. out OR push_bit (i * 8) x) (load_int_le 1 buf (start + i)) else Some out))"

definition with_keys :: "u64 \<Rightarrow> u64 \<Rightarrow> SipEngine" where
  "with_keys k0 k1 =
     \<lparr> sip_k0 = k0, sip_k1 = k1, sip_length = 0,
       sip_state = \<lparr> v0 = k0 XOR 0x736f6d6570736575, v1 = k1 XOR 0x646f72616e646f6d,
                     v2 = k0 XOR 0x6c7967656e657261, v3 = k1 XOR 0x7465646279746573 \<rparr>,
       sip_tail = 0, ntail = 0 \<rparr>"

definition sip_word :: "SipState \<Rightarrow> u64 \<Rightarrow> SipState" where
  "sip_word st m =
     (let st = st\<lparr> v3 := v3 st XOR m \<rparr>; st = c_rounds st in st\<lparr> v0 := v0 st XOR m \<rparr>)"

function sip_loop :: "bytes \<Rightarrow> nat \<Rightarrow> SipState \<Rightarrow> nat \<Rightarrow> (SipState \<times> nat) option" where
  "sip_loop msg stop st i =
     (if i < stop then (case load_int_le 8 msg i of None \<Rightarrow> None | Some mi \<Rightarrow> sip_loop msg stop (sip_word st mi) (i + 8))
      else Some (st, i))"
  by pat_completeness auto
termination
  by (relation "measure (\<lambda>(msg, stop, st, i). stop - i)") auto

declare sip_loop.simps [simp del]

text \<open>The part of \<open>input\<close> after the buffered tail is flushed.\<close>

definition sip_rest :: "bytes \<Rightarrow> nat \<Rightarrow> SipEngine \<Rightarrow> SipEngine option" where
  "sip_rest msg needed e =
     (let len = length msg - needed; left = len mod 8
      in Option.bind (sip_loop msg (len - left) (sip_state e) needed) (\<lambda>(st, i).
         map_option (\<lambda>t. e\<lparr> sip_state := st, sip_tail := t, ntail := left \<rparr>) (u8to64_le msg i left)))"

definition sip_input :: "SipEngine \<Rightarrow> bytes \<Rightarrow> SipEngine option" where
  "sip_input e msg =
     (let e = e\<lparr> sip_length := sip_length e + length msg \<rparr>
      in if ntail e \<noteq> 0
         then (let needed = 8 - ntail e
               in Option.bind (u8to64_le msg 0 (min (length msg) needed)) (\<lambda>x.
                  let e = e\<lparr> sip_tail := sip_tail e OR push_bit (8 * ntail e) x \<rparr>
                  in if length msg < needed then Some (e\<lparr> ntail := ntail e + length msg \<rparr>)
                     else sip_rest msg needed (e\<lparr> sip_state := sip_word (sip_state e) (sip_tail e), ntail := 0 \<rparr>)))
         else sip_rest msg 0 e)"

definition from_engine_to_u64 :: "SipEngine \<Rightarrow> u64" where
  "from_engine_to_u64 e =
     (let b = push_bit 56 (word_of_nat (sip_length e) AND 0xff) OR sip_tail e;
          st = sip_word (sip_state e) b;
          st = d_rounds (st\<lparr> v2 := v2 st XOR 0xff \<rparr>)
      in v0 st XOR v1 st XOR v2 st XOR v3 st)"

definition hash_to_u64_with_keys :: "u64 \<Rightarrow> u64 \<Rightarrow> bytes \<Rightarrow> u64 option" where
  "hash_to_u64_with_keys k0 k1 data = map_option from_engine_to_u64 (sip_input (with_keys k0 k1) data)"

definition sip_from_engine :: "SipEngine \<Rightarrow> bytes" where "sip_from_engine e = to_le_bytes (from_engine_to_u64 e)"

definition hash_with_keys :: "u64 \<Rightarrow> u64 \<Rightarrow> bytes \<Rightarrow> bytes option" where
  "hash_with_keys k0 k1 data = map_option sip_from_engine (sip_input (with_keys k0 k1) data)"

section \<open>The published function\<close>

text \<open>
  SipHash-2-4 as its authors describe it, on a quadruple of words and independent of the engine. The four initial
  words are the ASCII text ``somepseudorandomlygeneratedbytes'', read big-endian, combined with the keys. A round is two
  half rounds, the second with \<open>v0\<close> and \<open>v2\<close> exchanged. The message is padded with zeros and the low byte of its length
  to whole words; each word is absorbed with two rounds, and four rounds finish.
\<close>

definition ascii_word :: "string \<Rightarrow> u64" where
  "ascii_word s = fold (\<lambda>c w. push_bit 8 w OR of_char c) s 0"

fun half_round :: "nat \<Rightarrow> nat \<Rightarrow> u64 \<times> u64 \<times> u64 \<times> u64 \<Rightarrow> u64 \<times> u64 \<times> u64 \<times> u64" where
  "half_round r s (a, b, c, d) =
     (word_rotl 32 (a + b), word_rotl r b XOR (a + b), c + d, word_rotl s d XOR (c + d))"

fun swap_02 :: "u64 \<times> u64 \<times> u64 \<times> u64 \<Rightarrow> u64 \<times> u64 \<times> u64 \<times> u64" where
  "swap_02 (a, b, c, d) = (c, b, a, d)"

definition sip_round :: "u64 \<times> u64 \<times> u64 \<times> u64 \<Rightarrow> u64 \<times> u64 \<times> u64 \<times> u64" where
  "sip_round = swap_02 \<circ> half_round 17 21 \<circ> swap_02 \<circ> half_round 13 16"

definition absorb_ref :: "u64 \<Rightarrow> u64 \<times> u64 \<times> u64 \<times> u64 \<Rightarrow> u64 \<times> u64 \<times> u64 \<times> u64" where
  "absorb_ref w q =
     (case q of (a, b, c, d) \<Rightarrow> case (sip_round ^^ 2) (a, b, c, d XOR w) of (a, b, c, d) \<Rightarrow> (a XOR w, b, c, d))"

definition sip_pad :: "bytes \<Rightarrow> bytes" where
  "sip_pad m = m @ replicate (7 - length m mod 8) 0 @ [word_of_nat (length m)]"

fun words_of :: "bytes \<Rightarrow> u64 list" where
  "words_of m = (if length m < 8 then [] else from_le_bytes (take 8 m) # words_of (drop 8 m))"

declare words_of.simps [simp del]

definition siphash24_ref :: "u64 \<Rightarrow> u64 \<Rightarrow> bytes \<Rightarrow> u64" where
  "siphash24_ref k0 k1 m =
     (let start = (k0 XOR ascii_word ''somepseu'', k1 XOR ascii_word ''dorandom'',
                   k0 XOR ascii_word ''lygenera'', k1 XOR ascii_word ''tedbytes'')
      in case fold absorb_ref (words_of (sip_pad m)) start of (a, b, c, d) \<Rightarrow>
         case (sip_round ^^ 4) (a, b, c XOR 0xff, d) of (a, b, c, d) \<Rightarrow> a XOR b XOR c XOR d)"

section \<open>The state of the engine as a quadruple\<close>

definition quad :: "SipState \<Rightarrow> u64 \<times> u64 \<times> u64 \<times> u64" where
  "quad st = (v0 st, v1 st, v2 st, v3 st)"

lemma quad_compress: "quad (compress st) = sip_round (quad st)"
  by (simp add: quad_def compress_def sip_round_def Let_def)

lemma quad_rounds:
  "quad (c_rounds st) = (sip_round ^^ 2) (quad st)" "quad (d_rounds st) = (sip_round ^^ 4) (quad st)"
  by (simp_all add: c_rounds_def d_rounds_def quad_compress eval_nat_numeral)

lemma quad_word: "quad (sip_word st w) = absorb_ref w (quad st)"
proof -
  have "(v0 s, v1 s, v2 s, v3 s) = (sip_round ^^ 2) (v0 st, v1 st, v2 st, v3 st XOR w)"
    if "s = c_rounds (st\<lparr> v3 := v3 st XOR w \<rparr>)" for s
    using quad_rounds(1) [of "st\<lparr> v3 := v3 st XOR w \<rparr>"] that by (simp add: quad_def)
  from this [OF refl, symmetric] show ?thesis by (simp add: quad_def sip_word_def absorb_ref_def Let_def)
qed

lemma quad_words: "quad (fold (\<lambda>w st. sip_word st w) ws st) = fold absorb_ref ws (quad st)"
  by (induction ws arbitrary: st) (simp_all add: quad_word)

lemma quad_start:
  "quad (sip_state (with_keys k0 k1)) =
     (k0 XOR ascii_word ''somepseu'', k1 XOR ascii_word ''dorandom'',
      k0 XOR ascii_word ''lygenera'', k1 XOR ascii_word ''tedbytes'')"
  by (simp add: quad_def with_keys_def ascii_word_def push_bit_of_Suc_0)

lemma siphash24_ref_state:
  "siphash24_ref k0 k1 m =
     (let st = fold (\<lambda>w st. sip_word st w) (words_of (sip_pad m)) (sip_state (with_keys k0 k1));
          st = d_rounds (st\<lparr> v2 := v2 st XOR 0xff \<rparr>)
      in v0 st XOR v1 st XOR v2 st XOR v3 st)"
proof -
  define st where "st = fold (\<lambda>w st. sip_word st w) (words_of (sip_pad m)) (sip_state (with_keys k0 k1))"
  define st' where "st' = d_rounds (st\<lparr> v2 := v2 st XOR 0xff \<rparr>)"
  have "fold absorb_ref (words_of (sip_pad m)) (quad (sip_state (with_keys k0 k1))) = (v0 st, v1 st, v2 st, v3 st)"
    unfolding quad_words [symmetric] st_def [symmetric] by (simp add: quad_def)
  moreover have "(sip_round ^^ 4) (v0 st, v1 st, v2 st XOR 0xff, v3 st) = (v0 st', v1 st', v2 st', v3 st')"
    using quad_rounds(2) [of "st\<lparr> v2 := v2 st XOR 0xff \<rparr>"] by (simp add: quad_def st'_def)
  ultimately show ?thesis
    unfolding siphash24_ref_def Let_def quad_start [symmetric] st_def [symmetric] st'_def [symmetric] by simp
qed

section \<open>Words as little-endian numbers\<close>

abbreviation le64 :: "bytes \<Rightarrow> u64" where "le64 \<equiv> from_le_bytes"

lemma le64_Nil [simp]: "le64 [] = 0"
  by (simp add: from_le_bytes_def)

lemma le64_append:
  assumes "length xs < 8"
  shows "le64 (xs @ ys) = le64 xs OR push_bit (8 * length xs) (le64 ys)"
proof -
  let ?n = "8 * length xs"
  have "le_nat xs < 2 ^ ?n" using le_nat_lt [of xs] by (simp add: pow256)
  then have "le64 xs = take_bit ?n (le64 xs)"
    by (simp add: from_le_bytes_def take_bit_of_nat take_bit_nat_eq_self)
  then have "bit (le64 xs) k \<Longrightarrow> k < ?n" for k by (metis bit_take_bit_iff)
  then have "le64 xs AND push_bit ?n (le64 ys) = 0"
    by (intro bit_eqI) (auto simp: bit_and_iff bit_push_bit_iff dest!: not_le [THEN iffD2])
  then have "le64 xs OR push_bit ?n (le64 ys) = le64 xs + push_bit ?n (le64 ys)"
    using word_plus_and_or [of "le64 xs" "push_bit ?n (le64 ys)"] by simp
  also have "\<dots> = le64 (xs @ ys)"
    by (simp add: from_le_bytes_def le_nat_append pow256 push_bit_eq_mult algebra_simps)
  finally show ?thesis by simp
qed

lemma load_in: "i + n \<le> length buf \<Longrightarrow> load_int_le n buf i = Some (le64 (take n (drop i buf)))"
  by (simp add: load_int_le_def)

lemma u8to64_le_exact:
  assumes "start + len \<le> length buf" "len < 8"
  shows "u8to64_le buf start len = Some (le64 (take len (drop start buf)))"
proof -
  define m where "m = drop start buf"
  have l: "len \<le> length m" using assms(1) by (simp add: m_def)
  have ld: "load_int_le n buf (start + i) = Some (le64 (take n (drop i m)))" if "i + n \<le> len" for i n
    using that assms(1) load_in [of "start + i" n buf] by (simp add: m_def add.commute)
  have j: "le64 (take (i + n) m) = le64 (take i m) OR push_bit (i * 8) (le64 (take n (drop i m)))" if "i + n \<le> len" for i n
  proof (cases "i < 8")
    case True
    then show ?thesis using le64_append [of "take i m" "take n (drop i m)"] that l assms(2) by (simp add: take_add mult.commute)
  qed (use that assms(2) in simp)
  consider "len = 0" | "len = 1" | "len = 2" | "len = 3" | "len = 4" | "len = 5" | "len = 6" | "len = 7" using assms(2) by linarith
  then show ?thesis
    unfolding m_def [symmetric]
    by cases (use ld [of 0 4] ld [of 0 2] ld [of 0 1] ld [of 2 1] ld [of 4 2] ld [of 4 1] ld [of 6 1] j [of 0 2] j [of 0 1] j [of 2 1] j [of 4 2] j [of 4 1] j [of 6 1]
        in \<open>simp_all add: u8to64_le_def\<close>)
qed

section \<open>The engine\<close>

definition absorb_words :: "SipState \<Rightarrow> bytes \<Rightarrow> SipState" where
  "absorb_words st m = fold (\<lambda>w st. sip_word st w) (words_of m) st"

lemma words_short: "length m < 8 \<Longrightarrow> words_of m = []"
  by (simp add: words_of.simps)

lemma words_one: "length b = 8 \<Longrightarrow> words_of (b @ m) = le64 b # words_of m"
  by (simp add: words_of.simps [of "b @ m"])

lemma words_app: "8 dvd length p \<Longrightarrow> words_of (p @ m) = words_of p @ words_of m"
proof (induction "length p" arbitrary: p rule: less_induct)
  case less
  show ?case
  proof (cases "p = []")
    case False
    then have "8 \<le> length p" using less.prems by (cases p) (auto dest: dvd_imp_le)
    then obtain b q where b: "p = b @ q" "length b = 8" by (metis append_take_drop_id length_take min.absorb2)
    moreover have "8 dvd length q" using less.prems b by (simp add: dvd_add_right_iff)
    ultimately show ?thesis using less.hyps [of q] words_one [of b] by simp
  qed (simp add: words_short)
qed

lemma absorb_words_app: "8 dvd length p \<Longrightarrow> absorb_words st (p @ m) = absorb_words (absorb_words st p) m"
  by (simp add: absorb_words_def words_app)

lemma absorb_word: "length b = 8 \<Longrightarrow> absorb_words st b = sip_word st (le64 b)"
  using words_one [of b "[]"] by (simp add: absorb_words_def words_short)

lemma absorb_short: "length m < 8 \<Longrightarrow> absorb_words st m = st"
  by (simp add: absorb_words_def words_short)

text \<open>The loop compares the offset with a bound that misses the start offset; the bound is still good for the right number of
  rounds, since the start offset is less than a word.\<close>

lemma sip_loop_run:
  "i + 8 * k \<le> length msg \<Longrightarrow> stop \<le> i + 8 * k \<Longrightarrow> k = 0 \<or> i + 8 * (k - 1) < stop \<Longrightarrow>
   sip_loop msg stop st i = Some (absorb_words st (take (8 * k) (drop i msg)), i + 8 * k)"
proof (induction k arbitrary: st i)
  case 0
  then show ?case by (simp add: sip_loop.simps absorb_short)
next
  case (Suc k)
  let ?b = "take 8 (drop i msg)" and ?r = "take (8 * k) (drop (i + 8) msg)"
  have b: "length ?b = 8" "load_int_le 8 msg i = Some (le64 ?b)" using Suc.prems(1) load_in [of i 8 msg] by simp_all
  have "take (8 * Suc k) (drop i msg) = ?b @ ?r" by (simp add: take_add add.commute)
  then have "absorb_words st (take (8 * Suc k) (drop i msg)) = absorb_words (sip_word st (le64 ?b)) ?r"
    using b(1) absorb_words_app [of ?b st ?r] absorb_word [of ?b st] by simp
  moreover have "sip_loop msg stop (sip_word st (le64 ?b)) (i + 8) = Some (absorb_words (sip_word st (le64 ?b)) ?r, i + 8 + 8 * k)"
    using Suc.prems by (intro Suc.IH) (cases k; simp)+
  ultimately show ?case using Suc.prems(3) b(2) by (simp add: sip_loop.simps [of msg stop st i])
qed

text \<open>The engine after the bytes \<open>p @ t\<close>, of which the whole words \<open>p\<close> are absorbed.\<close>

definition sip_at :: "u64 \<Rightarrow> u64 \<Rightarrow> bytes \<Rightarrow> bytes \<Rightarrow> SipEngine \<Rightarrow> bool" where
  "sip_at k0 k1 p t e \<longleftrightarrow>
     8 dvd length p \<and> length t < 8 \<and>
     e = \<lparr> sip_k0 = k0, sip_k1 = k1, sip_length = length p + length t,
           sip_state = absorb_words (sip_state (with_keys k0 k1)) p, sip_tail = le64 t, ntail = length t \<rparr>"

lemma sip_at_new: "sip_at k0 k1 [] [] (with_keys k0 k1)"
  by (simp add: sip_at_def with_keys_def absorb_short)

lemma sip_rest_run:
  assumes "needed < 8" "needed \<le> length msg"
  defines "n \<equiv> (length msg - needed) div 8"
  shows "sip_rest msg needed e = Some (e\<lparr> sip_state := absorb_words (sip_state e) (take (8 * n) (drop needed msg)),
    sip_tail := le64 (drop (needed + 8 * n) msg), ntail := length msg - needed - 8 * n \<rparr>)"
proof -
  let ?len = "length msg - needed"
  have m: "?len mod 8 = ?len - 8 * n" "8 * n \<le> ?len" "?len - 8 * n < 8" unfolding n_def by (simp_all add: minus_mult_div_eq_mod) 
  have l: "needed + 8 * n \<le> length msg" using m(2) assms(2) by linarith
  have st: "?len - ?len mod 8 = 8 * n" using m(1,2) by simp
  have "k = 0 \<or> needed + 8 * (k - 1) < 8 * k" for k using assms(1) by (cases k) simp_all
  then have "sip_loop msg (?len - ?len mod 8) (sip_state e) needed =
    Some (absorb_words (sip_state e) (take (8 * n) (drop needed msg)), needed + 8 * n)"
    unfolding st using l by (intro sip_loop_run) simp_all
  moreover have "u8to64_le msg (needed + 8 * n) (?len - 8 * n) = Some (le64 (drop (needed + 8 * n) msg))"
    using u8to64_le_exact [of "needed + 8 * n" "?len - 8 * n" msg] m(3) l by simp
  ultimately show ?thesis by (simp add: sip_rest_def m(1) Let_def)
qed

lemma sip_input_at:
  assumes "sip_at k0 k1 p t e"
  shows "\<exists>p' t' e'. sip_input e msg = Some e' \<and> sip_at k0 k1 p' t' e' \<and> p' @ t' = p @ t @ msg"
proof -
  have pt: "8 dvd length p" "length t < 8" and e: "e = \<lparr> sip_k0 = k0, sip_k1 = k1, sip_length = length p + length t,
    sip_state = absorb_words (sip_state (with_keys k0 k1)) p, sip_tail = le64 t, ntail = length t \<rparr>"
    using assms by (auto simp: sip_at_def)
  show ?thesis
  proof (cases "t = []")
    case True
    let ?n = "length msg div 8"
    have n: "8 * ?n \<le> length msg" "length msg - 8 * ?n < 8" by simp_all
    have "sip_at k0 k1 (p @ take (8 * ?n) msg) (drop (8 * ?n) msg) (the (sip_input e msg))"
      using sip_rest_run [of 0 msg "e\<lparr> sip_length := sip_length e + length msg \<rparr>"] True pt(1) e absorb_words_app [OF pt(1)] n
      by (simp add: sip_at_def sip_input_def min_absorb2 del: times_div_less_eq_dividend div_times_less_eq_dividend)
    then show ?thesis using sip_rest_run [of 0 msg "e\<lparr> sip_length := sip_length e + length msg \<rparr>"] True e
      by (intro exI [of _ "p @ take (8 * ?n) msg"] exI [of _ "drop (8 * ?n) msg"]) (simp add: sip_input_def)
  next
    case False
    define need where "need = 8 - length t"
    have need: "0 < need" "need < 8" "length t + need = 8" using False pt(2) by (auto simp: need_def)
    let ?e = "e\<lparr> sip_length := sip_length e + length msg \<rparr>"
    have tail: "le64 t OR push_bit (8 * length t) (le64 x) = le64 (t @ x)" for x using le64_append [OF pt(2)] by simp
    show ?thesis
    proof (cases "length msg < need")
      case True
      then have "sip_input e msg = Some (?e\<lparr> sip_tail := le64 (t @ msg), ntail := length t + length msg \<rparr>)"
        using False e need u8to64_le_exact [of 0 "length msg" msg] tail by (simp add: sip_input_def need_def [symmetric] Let_def)
      then show ?thesis using True need pt e by (intro exI [of _ p] exI [of _ "t @ msg"]) (simp add: sip_at_def)
    next
      case False2: False
      let ?b = "t @ take need msg" and ?n = "(length msg - need) div 8"
      let ?e1 = "?e\<lparr> sip_tail := le64 ?b, sip_state := sip_word (sip_state e) (le64 ?b), ntail := 0 \<rparr>"
      have b: "length ?b = 8" using False2 need by simp
      have "sip_input e msg = sip_rest msg need ?e1"
        using False False2 e need u8to64_le_exact [of 0 need msg] tail by (simp add: sip_input_def need_def [symmetric] min_def Let_def)
      then have i: "sip_input e msg = Some (?e1\<lparr> sip_state := absorb_words (sip_state ?e1) (take (8 * ?n) (drop need msg)),
        sip_tail := le64 (drop (need + 8 * ?n) msg), ntail := length msg - need - 8 * ?n \<rparr>)"
        using sip_rest_run [of need msg ?e1] need(2) False2 by simp
      define q r where "q = take (8 * ?n) (drop need msg)" and "r = drop (need + 8 * ?n) msg"
      have n: "8 * ?n \<le> length msg - need" "length msg - need - 8 * ?n < 8" by simp_all
      have q: "length q = 8 * ?n" unfolding q_def length_take length_drop using n(1) by (rule min_absorb2)
      have r: "length r = length msg - need - 8 * ?n" by (simp add: r_def)
      have l: "length msg = need + length q + length r" using q r n(1) False2 by linarith
      have parts: "take need msg @ q @ r = msg" unfolding q_def r_def by (metis append_take_drop_id drop_drop add.commute)
      have "absorb_words (sip_state (with_keys k0 k1)) (p @ ?b @ q) = absorb_words (sip_word (sip_state e) (le64 ?b)) q"
        using absorb_words_app [OF pt(1), of "sip_state (with_keys k0 k1)" "?b @ q"] absorb_words_app [of ?b "sip_state e" q] absorb_word [OF b, of "sip_state e"] b e by simp
      moreover have "8 dvd length (p @ ?b @ q)" unfolding length_append [of p] length_append [of ?b] b q using pt(1) by simp
      moreover have "length (p @ ?b @ q) + length r = sip_length e + length msg" using e l False2 by simp
      ultimately have "sip_at k0 k1 (p @ ?b @ q) r (the (sip_input e msg))"
        unfolding i q_def [symmetric] r_def [symmetric] sip_at_def using n(2) r e by simp
      then show ?thesis using i parts by (intro exI [of _ "p @ ?b @ q"] exI [of _ r] exI [of _ "the (sip_input e msg)"]) simp
    qed
  qed
qed

fun sip_feed :: "SipEngine \<Rightarrow> bytes list \<Rightarrow> SipEngine option" where
  "sip_feed e [] = Some e"
| "sip_feed e (x # xs) = Option.bind (sip_input e x) (\<lambda>e. sip_feed e xs)"

lemma sip_feed_at:
  "sip_at k0 k1 p t e \<Longrightarrow> \<exists>p' t' e'. sip_feed e xs = Some e' \<and> sip_at k0 k1 p' t' e' \<and> p' @ t' = p @ t @ concat xs"
proof (induction xs arbitrary: p t e)
  case (Cons x xs)
  from sip_input_at [OF Cons.prems, of x] obtain p1 t1 e1 where
    1: "sip_input e x = Some e1" "sip_at k0 k1 p1 t1 e1" "p1 @ t1 = p @ t @ x" by blast
  from Cons.IH [OF 1(2)] obtain p2 t2 e2 where "sip_feed e1 xs = Some e2" "sip_at k0 k1 p2 t2 e2" "p2 @ t2 = p1 @ t1 @ concat xs" by blast
  moreover have "p1 @ t1 @ concat xs = p @ t @ concat (x # xs)" using arg_cong [OF 1(3), of "\<lambda>z. z @ concat xs"] by simp
  ultimately show ?case using 1(1) by auto
qed auto

lemma low_byte: "word_of_nat n AND 0xff = le64 [word_of_nat n]"
proof -
  have "(word_of_nat n AND 0xff :: u64) = take_bit 8 (word_of_nat n)" by (simp add: take_bit_eq_mask mask_eq_exp_minus_1)
  also have "\<dots> = word_of_nat (take_bit 8 n)" by (simp only: take_bit_of_nat)
  finally show ?thesis by (simp add: from_le_bytes_def take_bit_eq_mod unat_of_nat_u8)
qed

lemma sip_finish:
  assumes "sip_at k0 k1 p t e"
  shows "from_engine_to_u64 e = siphash24_ref k0 k1 (p @ t)"
proof -
  let ?m = "p @ t" and ?z = "replicate (7 - length t) 0 :: bytes" and ?n = "word_of_nat (length p + length t) :: u8"
  have pt: "8 dvd length p" "length t < 8" and e: "sip_state e = absorb_words (sip_state (with_keys k0 k1)) p"
    "sip_tail e = le64 t" "sip_length e = length p + length t" using assms by (auto simp: sip_at_def)
  have m: "length ?m mod 8 = length t" using pt by (auto simp: dvd_def)
  have pad: "sip_pad ?m = p @ t @ ?z @ [?n]" by (simp add: sip_pad_def m [simplified])
  have lz: "le64 (replicate k 0) = 0" for k
  proof -
    have "le_nat (replicate k (0::u8)) = 0" by (induction k) simp_all
    then show ?thesis by (simp add: from_le_bytes_def)
  qed
  have "le64 ((t @ ?z) @ [?n]) = le64 t OR push_bit 56 (le64 [?n])"
    using le64_append [of "t @ ?z" "[?n]"] le64_append [of t ?z] lz pt(2) by simp
  then have "push_bit 56 (word_of_nat (sip_length e) AND 0xff) OR sip_tail e = le64 (t @ ?z @ [?n])"
    unfolding low_byte e by (simp add: or.commute)
  moreover have "absorb_words (sip_state (with_keys k0 k1)) (sip_pad ?m) = sip_word (sip_state e) (le64 (t @ ?z @ [?n]))"
    using absorb_words_app [OF pt(1), of "sip_state (with_keys k0 k1)" "t @ ?z @ [?n]"] absorb_word [of "t @ ?z @ [?n]"] pt(2) e(1) by (simp add: pad)
  ultimately show ?thesis by (simp add: from_engine_to_u64_def siphash24_ref_state absorb_words_def Let_def)
qed

lemma hash_to_u64_eq: "hash_to_u64_with_keys k0 k1 data = Some (siphash24_ref k0 k1 data)"
  using sip_input_at [OF sip_at_new, of k0 k1 data] sip_finish by (fastforce simp: hash_to_u64_with_keys_def)

lemma hash_with_keys_eq: "hash_with_keys k0 k1 data = Some (to_le_bytes (siphash24_ref k0 k1 data))"
  using sip_input_at [OF sip_at_new, of k0 k1 data] sip_finish by (fastforce simp: hash_with_keys_def sip_from_engine_def)

section \<open>Properties\<close>

text \<open>(C25) The SipHash engine is memory safe and correct: for any keys and any division of a message into pieces, none of its
  unchecked reads leaves the piece it is given, and the result is the published function of the whole message.\<close>

theorem siphash_safe_and_exact:
  "(\<exists>e. sip_feed (with_keys k0 k1) chunks = Some e \<and> from_engine_to_u64 e = siphash24_ref k0 k1 (concat chunks)) \<and>
   hash_to_u64_with_keys k0 k1 (concat chunks) = Some (siphash24_ref k0 k1 (concat chunks)) \<and>
   hash_with_keys k0 k1 (concat chunks) = Some (to_le_bytes (siphash24_ref k0 k1 (concat chunks)))"
proof -
  obtain p t e where "sip_feed (with_keys k0 k1) chunks = Some e" "sip_at k0 k1 p t e" "p @ t = concat chunks"
    using sip_feed_at [OF sip_at_new, of k0 k1 chunks] by auto
  then show ?thesis using sip_finish hash_to_u64_eq hash_with_keys_eq by fastforce
qed

end
