(* ===== verification/CompactBlocks.thy ===== *)
theory CompactBlocks
  imports Block SipHash
begin

text \<open>
  Compact blocks, \<open>bitcoin/src/bip152.rs\<close>: short transaction identifiers, the compact form of a block, and requests for the
  missing transactions. \<open>mem::size_of::<Transaction>()\<close> depends on the compiler: it is the argument \<open>tx_size\<close>.
\<close>

section \<open>Data\<close>

datatype Bip152Error = UnknownVersion | InvalidPrefill

record PrefilledTransaction =
  pre_idx :: u16
  pre_tx :: Transaction

record HeaderAndShortIds =
  cmp_header :: Header
  cmp_nonce :: u64
  short_ids :: "bytes list"
  prefilled_txs :: "PrefilledTransaction list"

record BlockTransactionsRequest =
  req_hash :: bytes
  indexes :: "u64 list"

record BlockTransactions =
  bt_hash :: bytes
  bt_transactions :: "Transaction list"

section \<open>Short identifiers\<close>

definition calculate_siphash_keys :: "Header \<Rightarrow> u64 \<Rightarrow> u64 \<times> u64" where
  "calculate_siphash_keys header nonce =
     (let h = from_engine (engine_write (encode_int nonce) (engine_write (enc_Header header) engine_default))
      in (from_le_bytes (take 8 h), from_le_bytes (take 8 (drop 8 h))))"

definition with_siphash_keys :: "bytes \<Rightarrow> u64 \<times> u64 \<Rightarrow> bytes option" where
  "with_siphash_keys tid keys = map_option (take 6) (hash_with_keys (fst keys) (snd keys) tid)"

section \<open>From a block\<close>

definition strip_witness :: "Transaction \<Rightarrow> Transaction" where
  "strip_witness tx = tx\<lparr> tx_input := map (\<lambda>i. i\<lparr> witness := witness_clear (witness i) \<rparr>) (tx_input tx) \<rparr>"

definition prefill_form :: "u32 \<Rightarrow> Transaction \<Rightarrow> Transaction" where
  "prefill_form version tx = (if version = 1 then strip_witness tx else tx)"

definition short_id_of :: "u32 \<Rightarrow> u64 \<times> u64 \<Rightarrow> Transaction \<Rightarrow> bytes option" where
  "short_id_of version keys tx = with_siphash_keys (if version = 1 then compute_txid tx else compute_wtxid tx) keys"

fun from_block_loop ::
  "u32 \<Rightarrow> u64 \<times> u64 \<Rightarrow> nat \<Rightarrow> nat \<Rightarrow> nat list \<Rightarrow> Transaction list \<Rightarrow> (PrefilledTransaction list \<times> bytes list \<times> nat list) option" where
  "from_block_loop version keys idx last_prefill prefill [] = Some ([], [], prefill)"
| "from_block_loop version keys idx last_prefill prefill (tx # txs) =
     (let (prefill_tx, prefill) = (case prefill of
            p # ps \<Rightarrow> if p = idx then (True, ps) else (idx = 0, prefill)
          | [] \<Rightarrow> (idx = 0, prefill))
      in if prefill_tx
         then (let diff_idx = idx - last_prefill
               in map_option (\<lambda>(pre, ids, left). (\<lparr> pre_idx = word_of_nat diff_idx, pre_tx = prefill_form version tx \<rparr> # pre, ids, left))
                    (from_block_loop version keys (idx + 1) (idx + 1) prefill txs))
         else Option.bind (short_id_of version keys tx) (\<lambda>sid.
                map_option (\<lambda>(pre, ids, left). (pre, sid # ids, left)) (from_block_loop version keys (idx + 1) last_prefill prefill txs)))"

text \<open>The capacity \<open>txdata.len() - prefill.len()\<close> of a new vector is computed first: with more positions than transactions it
  overflows, which panics with overflow checks, and without them asks for more memory than there is, which panics too.\<close>

definition from_block :: "Block \<Rightarrow> u64 \<Rightarrow> u32 \<Rightarrow> nat list \<Rightarrow> (Bip152Error + HeaderAndShortIds) option" where
  "from_block block nonce version prefill =
     (if version \<noteq> 1 \<and> version \<noteq> 2 then Some (Inl UnknownVersion)
      else if length (txdata block) < length prefill then None
      else (let siphash_keys = calculate_siphash_keys (blk_header block) nonce
            in map_option (\<lambda>(prefilled, ids, left).
                 if left \<noteq> [] then Inl InvalidPrefill
                 else Inr \<lparr> cmp_header = blk_header block, cmp_nonce = nonce, short_ids = ids, prefilled_txs = prefilled \<rparr>)
               (from_block_loop version siphash_keys 0 0 prefill (txdata block))))"

text \<open>The error carries the index.\<close>

fun requested_txs :: "Transaction list \<Rightarrow> u64 list \<Rightarrow> u64 + Transaction list" where
  "requested_txs txs [] = Inr []"
| "requested_txs txs (i # is) =
     (if word_of_nat (length txs) \<le> i then Inl i
      else (case requested_txs txs is of Inl e \<Rightarrow> Inl e | Inr ts \<Rightarrow> Inr (txs ! unat i # ts)))"

definition from_request :: "BlockTransactionsRequest \<Rightarrow> Block \<Rightarrow> u64 + BlockTransactions" where
  "from_request request block =
     map_sum id (\<lambda>txs. \<lparr> bt_hash = req_hash request, bt_transactions = txs \<rparr>) (requested_txs (txdata block) (indexes request))"

section \<open>Wire forms\<close>

definition enc_PrefilledTransaction :: "PrefilledTransaction encoder" where
  "enc_PrefilledTransaction p = ecat (enc_VarInt (VarInt (ucast (pre_idx p)))) (enc_Transaction (pre_tx p))"

definition dec_PrefilledTransaction :: "PrefilledTransaction decoder" where
  "dec_PrefilledTransaction =
     dbind dec_VarInt (\<lambda>v.
       if varint_0 v \<le> 0xFFFF
       then dbind (consensus_decode dec_Transaction) (\<lambda>tx. dret \<lparr> pre_idx = ucast (varint_0 v), pre_tx = tx \<rparr>)
       else dfail (ParseFailed ''BIP152 prefilled tx index out of bounds''))"

definition enc_HeaderAndShortIds :: "HeaderAndShortIds encoder" where
  "enc_HeaderAndShortIds c =
     ecat (enc_Header (cmp_header c)) (ecat (encode_int (cmp_nonce c)) (ecat (enc_vec enc_array (short_ids c))
       (enc_vec enc_PrefilledTransaction (prefilled_txs c))))"

definition dec_HeaderAndShortIds :: "HeaderAndShortIds decoder" where
  "dec_HeaderAndShortIds =
     dbind dec_Header (\<lambda>h. dbind decode_int (\<lambda>n. dbind (dec_vec (dec_array 6)) (\<lambda>ids. dbind (dec_vec dec_PrefilledTransaction) (\<lambda>ps.
     dret \<lparr> cmp_header = h, cmp_nonce = n, short_ids = ids, prefilled_txs = ps \<rparr>))))"

text \<open>Indexes are written as differences; subtraction and increment overflow when they do not increase or reach the maximum.\<close>

fun enc_differences :: "u64 \<Rightarrow> u64 list encoder" where
  "enc_differences last_idx [] = enil"
| "enc_differences last_idx (idx # is) = ecat (enc_VarInt (VarInt (idx - last_idx))) (enc_differences (idx + 1) is)"

fun differences_overflow :: "u64 \<Rightarrow> u64 list \<Rightarrow> bool" where
  "differences_overflow last_idx [] = False"
| "differences_overflow last_idx (idx # is) = (idx < last_idx \<or> idx = -1 \<or> differences_overflow (idx + 1) is)"

definition enc_BlockTransactionsRequest_wrapping :: "BlockTransactionsRequest encoder" where
  "enc_BlockTransactionsRequest_wrapping r =
     ecat (enc_array (req_hash r)) (ecat (enc_VarInt (VarInt (word_of_nat (length (indexes r))))) (enc_differences 0 (indexes r)))"

definition enc_BlockTransactionsRequest :: "bool \<Rightarrow> BlockTransactionsRequest \<Rightarrow> (bytes \<times> nat) option" where
  "enc_BlockTransactionsRequest oc r =
     (if oc \<and> differences_overflow 0 (indexes r) then None else Some (enc_BlockTransactionsRequest_wrapping r))"

fun dec_differences :: "nat \<Rightarrow> u64 \<Rightarrow> u64 list decoder" where
  "dec_differences 0 last_index = dret []"
| "dec_differences (Suc n) last_index =
     dbind dec_VarInt (\<lambda>differential.
       let i = last_index + varint_0 differential
       in if i < last_index then dfail (ParseFailed ''block index overflow'')
          else if i = -1 then dfail (ParseFailed ''block index overflow'')
          else dbind (dec_differences n (i + 1)) (\<lambda>is. dret (i # is)))"

definition dec_BlockTransactionsRequest :: "nat \<Rightarrow> BlockTransactionsRequest decoder" where
  "dec_BlockTransactionsRequest tx_size =
     dbind (dec_array 32) (\<lambda>h. dbind dec_VarInt (\<lambda>v.
       let nb_indexes = unat (varint_0 v); byte_size = nb_indexes * tx_size
       in if 2 ^ 64 \<le> byte_size then dfail (ParseFailed ''Invalid length'')
          else if MAX_VEC_SIZE < byte_size then dfail (OversizedVectorAllocation byte_size MAX_VEC_SIZE)
          else dbind (dec_differences nb_indexes 0) (\<lambda>is. dret \<lparr> req_hash = h, indexes = is \<rparr>)))"

definition enc_BlockTransactions :: "BlockTransactions encoder" where
  "enc_BlockTransactions b = ecat (enc_array (bt_hash b)) (enc_vec enc_Transaction (bt_transactions b))"

definition dec_BlockTransactions :: "BlockTransactions decoder" where
  "dec_BlockTransactions =
     dbind (dec_array 32) (\<lambda>h. dbind (dec_vec dec_Transaction) (\<lambda>txs. dret \<lparr> bt_hash = h, bt_transactions = txs \<rparr>))"

section \<open>Codecs\<close>

lemma array_codec: "codec enc_array (dec_array n) (\<lambda>a. length a = n)"
  by unfold_locales (auto simp: enc_array_def dec_array_def emit_slice_def read_slice_append read_slice_Inr_iff)

interpretation short_ids_codec: codec "enc_vec enc_array" "dec_vec (dec_array 6)" "vec_ok (\<lambda>a. length a = 6)"
  by (rule vec_codec) (rule array_codec)

interpretation limited_tx: codec enc_Transaction "consensus_decode dec_Transaction"
  "\<lambda>tx. tx_ok tx \<and> length (fst (enc_Transaction tx)) \<le> MAX_VEC_SIZE"
  unfolding consensus_decode_def by (rule tx_codec.limited)

definition prefilled_ok :: "PrefilledTransaction \<Rightarrow> bool" where
  "prefilled_ok p \<longleftrightarrow> tx_ok (pre_tx p) \<and> length (fst (enc_Transaction (pre_tx p))) \<le> MAX_VEC_SIZE"

lemma u16_in_u64: "(ucast (x :: u16) :: u64) \<le> 0xFFFF" "ucast (ucast x :: u64) = x"
proof -
  have "unat (ucast x :: u64) = unat x" by (rule unat_ucast_up) simp
  moreover have "unat x \<le> 65535" using unat_u16_lt [of x] by linarith
  ultimately show "(ucast x :: u64) \<le> 0xFFFF" "ucast (ucast x :: u64) = x" by (simp_all add: word_le_nat_alt word_unat_eq_iff [of "ucast (ucast x)"] unat_ucast_mod [of "ucast x :: u64"])
qed

lemma u64_in_u16: "(v :: u64) \<le> 0xFFFF \<Longrightarrow> ucast (ucast v :: u16) = v"
  by (simp add: word_le_nat_alt word_unat_eq_iff unat_ucast_mod)

interpretation prefilled_codec: codec enc_PrefilledTransaction dec_PrefilledTransaction prefilled_ok
proof
  show "snd (enc_PrefilledTransaction p) = length (fst (enc_PrefilledTransaction p))" for p
    by (simp add: enc_PrefilledTransaction_def varint_len tx_codec.enc_len)
  show "dec_PrefilledTransaction (fst (enc_PrefilledTransaction p) @ rest) = Inr (p, rest)" if "prefilled_ok p" for p rest
    using that by (simp add: enc_PrefilledTransaction_def dec_PrefilledTransaction_def prefilled_ok_def dbind_def varint_codec.dec_enc
        limited_tx.dec_enc u16_in_u64 dret_def)
  show "prefilled_ok p \<and> bs = fst (enc_PrefilledTransaction p) @ rest" if d: "dec_PrefilledTransaction bs = Inr (p, rest)" for bs p rest
    using d by (auto simp: enc_PrefilledTransaction_def dec_PrefilledTransaction_def prefilled_ok_def dbind_Inr_iff u64_in_u16
        split: if_splits dest!: varint_codec.canonical limited_tx.canonical)
qed

interpretation prefilleds_codec: codec "enc_vec enc_PrefilledTransaction" "dec_vec dec_PrefilledTransaction" "vec_ok prefilled_ok"
  by (rule vec_codec) (rule prefilled_codec.codec_axioms)

definition compact_ok :: "HeaderAndShortIds \<Rightarrow> bool" where
  "compact_ok c \<longleftrightarrow> header_ok (cmp_header c) \<and> vec_ok (\<lambda>a. length a = 6) (short_ids c) \<and> vec_ok prefilled_ok (prefilled_txs c)"

interpretation compact_block_codec: codec enc_HeaderAndShortIds dec_HeaderAndShortIds compact_ok
  by unfold_locales
    (auto simp: enc_HeaderAndShortIds_def dec_HeaderAndShortIds_def compact_ok_def dbind_Inr_iff header_codec.enc_len header_codec.dec_enc
      u64_codec.enc_len u64_codec.dec_enc short_ids_codec.enc_len short_ids_codec.dec_enc prefilleds_codec.enc_len prefilleds_codec.dec_enc
      dest!: header_codec.canonical u64_codec.canonical short_ids_codec.canonical prefilleds_codec.canonical)

lemma differences_len: "snd (enc_differences l is) = length (fst (enc_differences l is))"
  by (induction l "is" rule: enc_differences.induct) (simp_all add: varint_len)

lemma differences_dec_enc:
  "\<not> differences_overflow l is \<Longrightarrow> dec_differences (length is) l (fst (enc_differences l is) @ rest) = Inr (is, rest)"
  by (induction l "is" rule: enc_differences.induct) (simp_all add: dbind_def varint_codec.dec_enc dret_def Let_def)

lemma add_no_overflow: "\<not> (l + d :: 'a::len word) < l \<Longrightarrow> l + d - l = d"
  by simp

lemma differences_canonical:
  "dec_differences n l bs = Inr (is, rest) \<Longrightarrow> length is = n \<and> \<not> differences_overflow l is \<and> bs = fst (enc_differences l is) @ rest"
proof (induction n arbitrary: l bs "is")
  case (Suc n)
  then obtain v r js where v: "dec_VarInt bs = Inr (v, r)" "\<not> l + varint_0 v < l" "l + varint_0 v \<noteq> -1"
    "dec_differences n (l + varint_0 v + 1) r = Inr (js, rest)" "is = (l + varint_0 v) # js"
    by (auto simp: dbind_Inr_iff Let_def split: if_splits)
  have "VarInt (l + varint_0 v - l) = v" by simp
  then show ?case using Suc.IH [OF v(4)] varint_canonical [OF v(1)] v by simp
qed simp

definition request_ok :: "nat \<Rightarrow> BlockTransactionsRequest \<Rightarrow> bool" where
  "request_ok tx_size r \<longleftrightarrow>
     length (req_hash r) = 32 \<and> length (indexes r) < 2 ^ 64 \<and> length (indexes r) * tx_size \<le> MAX_VEC_SIZE \<and> \<not> differences_overflow 0 (indexes r)"

lemma request_codec: "codec enc_BlockTransactionsRequest_wrapping (dec_BlockTransactionsRequest tx_size) (request_ok tx_size)"
proof
  show "snd (enc_BlockTransactionsRequest_wrapping r) = length (fst (enc_BlockTransactionsRequest_wrapping r))" for r
    by (simp add: enc_BlockTransactionsRequest_wrapping_def array32_codec.enc_len varint_len differences_len)
  show "dec_BlockTransactionsRequest tx_size (fst (enc_BlockTransactionsRequest_wrapping r) @ rest) = Inr (r, rest)" if "request_ok tx_size r" for r rest
    using that by (auto simp: enc_BlockTransactionsRequest_wrapping_def dec_BlockTransactionsRequest_def request_ok_def dbind_def array32_codec.dec_enc
        varint_codec.dec_enc unat_len differences_dec_enc dret_def MAX_VEC_SIZE_def Let_def)
  show "request_ok tx_size r \<and> bs = fst (enc_BlockTransactionsRequest_wrapping r) @ rest"
    if d: "dec_BlockTransactionsRequest tx_size bs = Inr (r, rest)" for bs r rest
  proof -
    from d obtain h b1 v b2 "is" where h: "dec_array 32 bs = Inr (h, b1)" "dec_VarInt b1 = Inr (v, b2)" "unat (varint_0 v) * tx_size \<le> MAX_VEC_SIZE"
      "dec_differences (unat (varint_0 v)) 0 b2 = Inr (is, rest)" "r = \<lparr> req_hash = h, indexes = is \<rparr>"
      by (auto simp: dec_BlockTransactionsRequest_def dbind_Inr_iff Let_def split: if_splits)
    have i: "length is = unat (varint_0 v)" "\<not> differences_overflow 0 is" "b2 = fst (enc_differences 0 is) @ rest"
      using differences_canonical [OF h(4)] by auto
    have "VarInt (word_of_nat (length is)) = v" using i(1) by simp
    then show ?thesis using array32_codec.canonical [OF h(1)] varint_canonical [OF h(2)] h(3,5) i unsigned_less [of "varint_0 v"]
      by (auto simp: request_ok_def enc_BlockTransactionsRequest_wrapping_def)
  qed
qed

definition blocktxs_ok :: "BlockTransactions \<Rightarrow> bool" where
  "blocktxs_ok b \<longleftrightarrow> length (bt_hash b) = 32 \<and> vec_ok tx_ok (bt_transactions b)"

interpretation blocktxs_codec: codec enc_BlockTransactions dec_BlockTransactions blocktxs_ok
  by unfold_locales
    (auto simp: enc_BlockTransactions_def dec_BlockTransactions_def blocktxs_ok_def dbind_Inr_iff array32_codec.enc_len array32_codec.dec_enc
      txs_codec.enc_len txs_codec.dec_enc dest!: array32_codec.canonical txs_codec.canonical)

section \<open>What a compact block says\<close>

text \<open>A receiver places the transactions: before each prefilled one come as many short identifiers as its index says.\<close>

fun slots :: "PrefilledTransaction list \<Rightarrow> bytes list \<Rightarrow> (Transaction + bytes) list" where
  "slots [] ids = map Inr ids"
| "slots (p # ps) ids = map Inr (take (unat (pre_idx p)) ids) @ Inl (pre_tx p) # slots ps (drop (unat (pre_idx p)) ids)"

definition short_id :: "u32 \<Rightarrow> u64 \<times> u64 \<Rightarrow> Transaction \<Rightarrow> bytes" where
  "short_id version keys tx =
     take 6 (to_le_bytes (siphash24_ref (fst keys) (snd keys) (if version = 1 then compute_txid tx else compute_wtxid tx)))"

lemma short_id_of_eq: "short_id_of version keys tx = Some (short_id version keys tx)"
  by (simp add: short_id_of_def short_id_def with_siphash_keys_def hash_with_keys_eq)

fun slot_list :: "u32 \<Rightarrow> u64 \<times> u64 \<Rightarrow> nat set \<Rightarrow> nat \<Rightarrow> Transaction list \<Rightarrow> (Transaction + bytes) list" where
  "slot_list version keys P i [] = []"
| "slot_list version keys P i (tx # txs) =
     (if i = 0 \<or> i \<in> P then Inl (prefill_form version tx) else Inr (short_id version keys tx)) # slot_list version keys P (i + 1) txs"

lemma slot_list_cong: "(\<And>j. i \<le> j \<Longrightarrow> j \<in> P \<longleftrightarrow> j \<in> Q) \<Longrightarrow> slot_list version keys P i txs = slot_list version keys Q i txs"
proof (induction txs arbitrary: i)
  case (Cons tx txs)
  then have "slot_list version keys P (i + 1) txs = slot_list version keys Q (i + 1) txs" by simp
  then show ?case using Cons.prems [of i] by simp
qed simp

text \<open>The loop in the middle: \<open>idx - last_prefill\<close> identifiers wait for the next prefilled transaction.\<close>

lemma from_block_loop_exact:
  assumes "sorted_wrt (<) prefill" "list_all (\<lambda>p. idx \<le> p) prefill" "last_prefill \<le> idx" "idx + length txs \<le> 65536"
    and "from_block_loop version keys idx last_prefill prefill txs = Some (pre, ids, left)"
    and "length ws = idx - last_prefill"
  shows "left = filter (\<lambda>p. idx + length txs \<le> p) prefill \<and> slots pre (ws @ ids) = map Inr ws @ slot_list version keys (set prefill) idx txs"
  using assms
proof (induction txs arbitrary: idx last_prefill prefill pre ids left ws)
  case Nil
  then show ?case by (auto simp: list_all_iff)
next
  case (Cons tx txs)
  let ?hit = "idx = 0 \<or> (prefill \<noteq> [] \<and> hd prefill = idx)"
  let ?ps = "if prefill \<noteq> [] \<and> hd prefill = idx then tl prefill else prefill"
  have ps: "sorted_wrt (<) ?ps" "list_all (\<lambda>p. idx + 1 \<le> p) ?ps"
    using Cons.prems(1,2) by (cases prefill; fastforce simp: list_all_iff Suc_le_eq le_less)+
  have mem: "j \<in> set ?ps \<longleftrightarrow> j \<in> set prefill" if "idx + 1 \<le> j" for j using that by (cases prefill) auto
  have idx: "idx \<in> set prefill \<longleftrightarrow> prefill \<noteq> [] \<and> hd prefill = idx"
    using Cons.prems(1,2) by (cases prefill) (auto simp: list_all_iff)
  have left: "filter (\<lambda>p. idx + 1 + length txs \<le> p) ?ps = filter (\<lambda>p. idx + length (tx # txs) \<le> p) prefill" by (cases prefill) auto
  have cong: "slot_list version keys (set ?ps) (idx + 1) txs = slot_list version keys (set prefill) (idx + 1) txs"
    by (rule slot_list_cong) (rule mem)
  have step: "from_block_loop version keys idx last_prefill prefill (tx # txs) =
    (if ?hit then map_option (\<lambda>(pre, ids, left). (\<lparr> pre_idx = word_of_nat (idx - last_prefill), pre_tx = prefill_form version tx \<rparr> # pre, ids, left))
                    (from_block_loop version keys (idx + 1) (idx + 1) ?ps txs)
     else map_option (\<lambda>(pre, ids, left). (pre, short_id version keys tx # ids, left)) (from_block_loop version keys (idx + 1) last_prefill ?ps txs))"
    by (cases prefill) (auto simp: short_id_of_eq Let_def)
  show ?case
  proof (cases ?hit)
    case True
    then obtain pre' where r: "from_block_loop version keys (idx + 1) (idx + 1) ?ps txs = Some (pre', ids, left)"
      "pre = \<lparr> pre_idx = word_of_nat (idx - last_prefill), pre_tx = prefill_form version tx \<rparr> # pre'"
      using Cons.prems(5) unfolding step by (auto simp del: from_block_loop.simps)
    have u: "unat (word_of_nat (idx - last_prefill) :: u16) = length ws" using Cons.prems(4,6) by (simp add: unat_of_nat)
    have "left = filter (\<lambda>p. idx + 1 + length txs \<le> p) ?ps \<and> slots pre' ([] @ ids) = map Inr [] @ slot_list version keys (set ?ps) (idx + 1) txs"
      using Cons.prems(4) by (intro Cons.IH [OF ps _ _ r(1)]) simp_all
    then show ?thesis unfolding left cong using True u idx by (auto simp: r(2))
  next
    case False
    then obtain ids' where r: "from_block_loop version keys (idx + 1) last_prefill ?ps txs = Some (pre, ids', left)" "ids = short_id version keys tx # ids'"
      using Cons.prems(5) unfolding step by (auto simp del: from_block_loop.simps)
    have "left = filter (\<lambda>p. idx + 1 + length txs \<le> p) ?ps \<and>
      slots pre ((ws @ [short_id version keys tx]) @ ids') = map Inr (ws @ [short_id version keys tx]) @ slot_list version keys (set ?ps) (idx + 1) txs"
      using Cons.prems(3,4,6) by (intro Cons.IH [OF ps _ _ r(1)]) simp_all
    then show ?thesis unfolding left cong using False idx by (auto simp: r(2))
  qed
qed

lemma from_block_loop_left:
  "from_block_loop version keys idx last_prefill prefill txs = Some (pre, ids, left) \<Longrightarrow>
   left = [] \<longleftrightarrow> sorted_wrt (<) prefill \<and> list_all (\<lambda>p. idx \<le> p \<and> p < idx + length txs) prefill"
proof (induction txs arbitrary: idx last_prefill prefill pre ids)
  case Nil
  then show ?case by (cases prefill) auto
next
  case (Cons tx txs)
  let ?ps = "if prefill \<noteq> [] \<and> hd prefill = idx then tl prefill else prefill"
  have "\<exists>l pre' ids'. from_block_loop version keys (idx + 1) l ?ps txs = Some (pre', ids', left)"
    using Cons.prems by (cases prefill) (auto simp: short_id_of_eq Let_def split: if_splits)
  then have "left = [] \<longleftrightarrow> sorted_wrt (<) ?ps \<and> list_all (\<lambda>p. idx + 1 \<le> p \<and> p < idx + 1 + length txs) ?ps" using Cons.IH by blast
  also have "\<dots> \<longleftrightarrow> sorted_wrt (<) prefill \<and> list_all (\<lambda>p. idx \<le> p \<and> p < idx + length (tx # txs)) prefill"
    by (cases prefill) (auto simp: list_all_iff Suc_le_eq)
  finally show ?case .
qed

lemma from_block_loop_total: "\<exists>r. from_block_loop version keys idx last_prefill prefill txs = Some r"
proof (induction txs arbitrary: idx last_prefill prefill)
  case (Cons tx txs)
  show ?case
    using Cons.IH [of "idx + 1" "idx + 1" "tl prefill"] Cons.IH [of "idx + 1" "idx + 1" prefill] Cons.IH [of "idx + 1" last_prefill prefill]
    by (cases prefill) (auto simp: short_id_of_eq Let_def)
qed simp

text \<open>(C31) The compact form of a block of at most 65536 transactions says exactly what the block holds. Construction fails for unknown versions, panics when more
  positions are asked for than there are transactions, and otherwise succeeds exactly when the positions increase and lie in the
  block; then placing the prefilled transactions and the short identifiers gives, at every index, the transaction itself
  for the coinbase and the positions asked for, and its short identifier elsewhere.\<close>

theorem compact_block_exact:
  assumes "length (txdata b) \<le> 65536"
  shows "\<exists>c. from_block b nonce version prefill =
      (if version \<noteq> 1 \<and> version \<noteq> 2 then Some (Inl UnknownVersion)
       else if length (txdata b) < length prefill then None
       else if \<not> (sorted_wrt (<) prefill \<and> list_all (\<lambda>p. p < length (txdata b)) prefill) then Some (Inl InvalidPrefill)
       else Some (Inr c)) \<and>
    cmp_header c = blk_header b \<and> cmp_nonce c = nonce \<and>
    (sorted_wrt (<) prefill \<longrightarrow>
     slots (prefilled_txs c) (short_ids c) = slot_list version (calculate_siphash_keys (blk_header b) nonce) (set prefill) 0 (txdata b))"
proof -
  obtain pre ids left where l: "from_block_loop version (calculate_siphash_keys (blk_header b) nonce) 0 0 prefill (txdata b) = Some (pre, ids, left)"
    using from_block_loop_total by (metis prod_cases3)
  have "slots pre ([] @ ids) = map Inr [] @ slot_list version (calculate_siphash_keys (blk_header b) nonce) (set prefill) 0 (txdata b)"
    if "sorted_wrt (<) prefill"
    using from_block_loop_exact [OF that _ _ _ l, of "[]"] assms by (simp add: list_all_iff)
  moreover have "from_block b nonce version prefill =
      (if version \<noteq> 1 \<and> version \<noteq> 2 then Some (Inl UnknownVersion)
       else if length (txdata b) < length prefill then None
       else if left \<noteq> [] then Some (Inl InvalidPrefill)
       else Some (Inr \<lparr> cmp_header = blk_header b, cmp_nonce = nonce, short_ids = ids, prefilled_txs = pre \<rparr>))"
    unfolding from_block_def Let_def l by simp
  ultimately show ?thesis unfolding from_block_loop_left [OF l]
    by (intro exI [of _ "\<lparr> cmp_header = blk_header b, cmp_nonce = nonce, short_ids = ids, prefilled_txs = pre \<rparr>"]) simp
qed

theorem compact_block_exact_witness:
  "\<exists>c. from_block sample_block 42 2 [] = Some (Inr c) \<and> cmp_header c = blk_header sample_block \<and> cmp_nonce c = 42 \<and>
     slots (prefilled_txs c) (short_ids c) = slot_list 2 (calculate_siphash_keys (blk_header sample_block) 42) {} 0 (txdata sample_block)"
  using compact_block_exact [of sample_block 42 2 "[]"] by (simp add: sample_block_def)

text \<open>Requests for transactions: an input is accepted exactly when it is the encoding of a request whose indexes increase, stay
  below the maximum and are not too many; the encoder panics, with overflow checks, exactly on indexes that do not.\<close>

theorem transactions_request_exact:
  "(deserialize (dec_BlockTransactionsRequest tx_size) bs = Inr r \<longleftrightarrow>
      request_ok tx_size r \<and> enc_BlockTransactionsRequest True r = Some (bs, length bs)) \<and>
   (enc_BlockTransactionsRequest True r = None \<longleftrightarrow>
      \<not> (sorted_wrt (<) (indexes r) \<and> list_all (\<lambda>i. i \<noteq> -1) (indexes r)))"
proof
  have "enc_BlockTransactionsRequest True r = Some (bs, length bs) \<longleftrightarrow> bs = serialize enc_BlockTransactionsRequest_wrapping r"
    if "request_ok tx_size r"
    using that roundtrip.enc_len [OF codec.axioms(1) [OF request_codec], of r]
    by (auto simp: enc_BlockTransactionsRequest_def request_ok_def serialize_def prod_eq_iff)
  then show "deserialize (dec_BlockTransactionsRequest tx_size) bs = Inr r \<longleftrightarrow>
      request_ok tx_size r \<and> enc_BlockTransactionsRequest True r = Some (bs, length bs)"
    using codec.deserialize_iff [OF request_codec] by blast
next
  have le: "(i + 1 \<le> j) \<longleftrightarrow> i < j" if "i \<noteq> -1" for i j :: u64
  proof -
    have "1 + i \<noteq> 0" using that by (metis add_eq_0_iff minus_equation_iff)
    then have "unat (i + 1) = Suc (unat i)" using unatSuc [of i] by (simp add: add.commute)
    then show ?thesis by (simp add: word_le_nat_alt word_less_nat_alt Suc_le_eq)
  qed
  have "\<not> differences_overflow l is \<longleftrightarrow> sorted_wrt (<) is \<and> list_all (\<lambda>i. l \<le> i \<and> i \<noteq> -1) is" for l "is"
  proof (induction l "is" rule: differences_overflow.induct)
    case (2 l i "is")
    show ?case
    proof (cases "i = -1")
      case False
      then have "\<not> differences_overflow (i + 1) is \<longleftrightarrow> sorted_wrt (<) is \<and> list_all (\<lambda>j. i < j \<and> j \<noteq> -1) is" using 2 le by simp
      moreover have "l \<le> j" if "l \<le> i" "i < j" for j using that by (meson less_imp_le order.trans)
      ultimately show ?thesis using False by (auto simp: list_all_iff not_less)
    qed simp
  qed simp
  from this [of 0 "indexes r"] show "enc_BlockTransactionsRequest True r = None \<longleftrightarrow> \<not> (sorted_wrt (<) (indexes r) \<and> list_all (\<lambda>i. i \<noteq> -1) (indexes r))"
    by (auto simp: enc_BlockTransactionsRequest_def)
qed

text \<open>A request is answered with exactly the transactions at the requested positions, in order, or fails at the first position
  outside the block.\<close>

theorem from_request_exact:
  assumes "length (txdata b) < 2 ^ 64"
  shows "from_request r b = (case find (\<lambda>i. length (txdata b) \<le> unat i) (indexes r) of
      Some i \<Rightarrow> Inl i
    | None \<Rightarrow> Inr \<lparr> bt_hash = req_hash r, bt_transactions = map (\<lambda>i. txdata b ! unat i) (indexes r) \<rparr>)"
proof -
  have "word_of_nat (length (txdata b)) \<le> i \<longleftrightarrow> length (txdata b) \<le> unat i" for i :: u64
    using assms by (simp add: word_le_nat_alt unat_of_nat)
  then have "requested_txs (txdata b) is = (case find (\<lambda>i. length (txdata b) \<le> unat i) is of
      Some i \<Rightarrow> Inl i | None \<Rightarrow> Inr (map (\<lambda>i. txdata b ! unat i) is))" for "is"
    by (induction "is") (simp_all split: option.split)
  then show ?thesis by (simp add: from_request_def split: option.split)
qed

theorem from_request_exact_witness:
  "from_request \<lparr> req_hash = replicate 32 0, indexes = [0, 7] \<rparr> sample_block =
   (case find (\<lambda>i. length (txdata sample_block) \<le> unat i) (indexes \<lparr> req_hash = replicate 32 0, indexes = [0, 7 :: u64] \<rparr>) of
      Some i \<Rightarrow> Inl i
    | None \<Rightarrow> Inr \<lparr> bt_hash = req_hash \<lparr> req_hash = replicate 32 0, indexes = [0, 7 :: u64] \<rparr>,
        bt_transactions = map (\<lambda>i. txdata sample_block ! unat i) (indexes \<lparr> req_hash = replicate 32 0, indexes = [0, 7 :: u64] \<rparr>) \<rparr>)"
  by (rule from_request_exact) (simp add: sample_block_def)

end
