(* ===== verification/P2pTypes.thy ===== *)
theory P2pTypes
  imports DogeBlock PartialMerkle CompactBlocks
begin

text \<open>
  The data of peer-to-peer messages, \<open>bitcoin/src/p2p\<close>: service flags, network magic, addresses, inventories, command strings
  and the bodies of the messages. Text is a list of UTF-8 bytes. The socket addresses of the standard library are octets
  (version 4) or eight 16-bit segments (version 6) with a port.
\<close>

unbundle bit_operations_syntax

section \<open>Service flags\<close>

datatype ServiceFlags = ServiceFlags (flags_0: u64)

definition FLAGS_NONE :: ServiceFlags where "FLAGS_NONE = ServiceFlags 0"
definition FLAGS_NETWORK :: ServiceFlags where "FLAGS_NETWORK = ServiceFlags (push_bit 0 1)"
definition FLAGS_GETUTXO :: ServiceFlags where "FLAGS_GETUTXO = ServiceFlags (push_bit 1 1)"
definition FLAGS_BLOOM :: ServiceFlags where "FLAGS_BLOOM = ServiceFlags (push_bit 2 1)"
definition FLAGS_WITNESS :: ServiceFlags where "FLAGS_WITNESS = ServiceFlags (push_bit 3 1)"
definition FLAGS_COMPACT_FILTERS :: ServiceFlags where "FLAGS_COMPACT_FILTERS = ServiceFlags (push_bit 6 1)"
definition FLAGS_NETWORK_LIMITED :: ServiceFlags where "FLAGS_NETWORK_LIMITED = ServiceFlags (push_bit 10 1)"
definition FLAGS_P2P_V2 :: ServiceFlags where "FLAGS_P2P_V2 = ServiceFlags (push_bit 11 1)"

definition flags_add :: "ServiceFlags \<Rightarrow> ServiceFlags \<Rightarrow> ServiceFlags" where
  "flags_add a b = ServiceFlags (flags_0 a OR flags_0 b)"

definition flags_remove :: "ServiceFlags \<Rightarrow> ServiceFlags \<Rightarrow> ServiceFlags" where
  "flags_remove a b = ServiceFlags (flags_0 a XOR flags_0 b)"

definition flags_has :: "ServiceFlags \<Rightarrow> ServiceFlags \<Rightarrow> bool" where
  "flags_has a b \<longleftrightarrow> flags_0 a OR flags_0 b = flags_0 a"

text \<open>The macro \<open>write_flag!\<close>: the flags left, whether nothing is written yet, and the text.\<close>

definition write_flag :: "ServiceFlags \<times> string \<Rightarrow> ServiceFlags \<times> bool \<times> string \<Rightarrow> ServiceFlags \<times> bool \<times> string" where
  "write_flag f s =
     (case s of (flags, first, out) \<Rightarrow>
        if flags_has flags (fst f) then (flags_remove flags (fst f), False, out @ (if first then '''' else ''|'') @ snd f) else (flags, first, out))"

definition known_flags :: "(ServiceFlags \<times> string) list" where
  "known_flags =
     [(FLAGS_NETWORK, ''NETWORK''), (FLAGS_GETUTXO, ''GETUTXO''), (FLAGS_BLOOM, ''BLOOM''), (FLAGS_WITNESS, ''WITNESS''),
      (FLAGS_COMPACT_FILTERS, ''COMPACT_FILTERS''), (FLAGS_NETWORK_LIMITED, ''NETWORK_LIMITED''), (FLAGS_P2P_V2, ''P2P_V2'')]"

fun hex_digits :: "nat \<Rightarrow> string" where
  "hex_digits n = (if n < 16 then [''0123456789abcdef'' ! n] else hex_digits (n div 16) @ [''0123456789abcdef'' ! (n mod 16)])"

declare hex_digits.simps [simp del]

definition flags_display :: "ServiceFlags \<Rightarrow> string" where
  "flags_display flags =
     (if flags = FLAGS_NONE then ''ServiceFlags(NONE)''
      else (let (flags, first, out) = fold write_flag known_flags (flags, True, ''ServiceFlags('');
                out = (if flags \<noteq> FLAGS_NONE then out @ (if first then '''' else ''|'') @ ''0x'' @ hex_digits (unat (flags_0 flags)) else out)
            in out @ '')''))"

definition enc_ServiceFlags :: "ServiceFlags encoder" where "enc_ServiceFlags f = encode_int (flags_0 f)"
definition dec_ServiceFlags :: "ServiceFlags decoder" where "dec_ServiceFlags = dbind decode_int (\<lambda>n. dret (ServiceFlags n))"

section \<open>Network magic\<close>

datatype Magic = Magic (magic_0: bytes)

definition MAGIC_BITCOIN :: Magic where "MAGIC_BITCOIN = Magic [0xF9, 0xBE, 0xB4, 0xD9]"
definition MAGIC_TESTNET3 :: Magic where "MAGIC_TESTNET3 = Magic [0x0B, 0x11, 0x09, 0x07]"
definition MAGIC_TESTNET4 :: Magic where "MAGIC_TESTNET4 = Magic [0x1c, 0x16, 0x3f, 0x28]"
definition MAGIC_SIGNET :: Magic where "MAGIC_SIGNET = Magic [0x0A, 0x03, 0xCF, 0x40]"
definition MAGIC_REGTEST :: Magic where "MAGIC_REGTEST = Magic [0xFA, 0xBF, 0xB5, 0xDA]"

fun magic_from_network :: "BtcNetwork \<Rightarrow> Magic" where
  "magic_from_network Bitcoin = MAGIC_BITCOIN"
| "magic_from_network BtcTestnet = MAGIC_TESTNET3"
| "magic_from_network Testnet4 = MAGIC_TESTNET4"
| "magic_from_network Signet = MAGIC_SIGNET"
| "magic_from_network BtcRegtest = MAGIC_REGTEST"

text \<open>The error is the unknown magic.\<close>

definition network_try_from_magic :: "Magic \<Rightarrow> Magic + BtcNetwork" where
  "network_try_from_magic m =
     (if m = MAGIC_BITCOIN then Inr Bitcoin else if m = MAGIC_TESTNET3 then Inr BtcTestnet else if m = MAGIC_TESTNET4 then Inr Testnet4
      else if m = MAGIC_SIGNET then Inr Signet else if m = MAGIC_REGTEST then Inr BtcRegtest else Inl m)"

definition enc_Magic :: "Magic encoder" where "enc_Magic m = enc_array (magic_0 m)"
definition dec_Magic :: "Magic decoder" where "dec_Magic = dbind (dec_array 4) (\<lambda>b. dret (Magic b))"

section \<open>Socket addresses\<close>

datatype SocketAddr = SocketV4 bytes u16 | SocketV6 "u16 list" u16

definition to_ipv6_mapped :: "bytes \<Rightarrow> u16 list" where
  "to_ipv6_mapped o4 = [0, 0, 0, 0, 0, 0xffff, from_be_bytes (take 2 o4), from_be_bytes (drop 2 o4)]"

text \<open>The standard library also takes the deprecated compatible addresses, whose sixth segment is zero.\<close>

definition to_ipv4 :: "u16 list \<Rightarrow> bytes option" where
  "to_ipv4 seg =
     (if take 5 seg = [0, 0, 0, 0, 0] \<and> (seg ! 5 = 0 \<or> seg ! 5 = 0xffff)
      then Some (to_be_bytes (seg ! 6) @ to_be_bytes (seg ! 7)) else None)"

definition ONION :: "u16 list" where "ONION = [0xFD87, 0xD87E, 0xEB43]"

record NetAddress =
  na_services :: ServiceFlags
  na_address :: "u16 list"
  na_port :: u16

definition address_new :: "SocketAddr \<Rightarrow> ServiceFlags \<Rightarrow> NetAddress" where
  "address_new socket services =
     (let (address, port) = (case socket of SocketV4 ip p \<Rightarrow> (to_ipv6_mapped ip, p) | SocketV6 seg p \<Rightarrow> (seg, p))
      in \<lparr> na_services = services, na_address = address, na_port = port \<rparr>)"

text \<open>The error \<open>AddrNotAvailable\<close> is \<open>None\<close>.\<close>

definition socket_addr :: "NetAddress \<Rightarrow> SocketAddr option" where
  "socket_addr a =
     (let addr = na_address a
      in if take 3 addr = ONION then None
         else (case to_ipv4 addr of Some ip \<Rightarrow> Some (SocketV4 ip (na_port a)) | None \<Rightarrow> Some (SocketV6 addr (na_port a))))"

definition emit_be :: "u16 encoder" where "emit_be w = (to_be_bytes w, 2)"
definition read_be :: "u16 decoder" where "read_be = dbind (read_slice 2) (\<lambda>b. dret (from_be_bytes b))"
definition swap_bytes :: "u16 \<Rightarrow> u16" where "swap_bytes w = from_be_bytes (to_le_bytes w)"
definition dec_port :: "u16 decoder" where "dec_port = dbind decode_int (\<lambda>w. dret (swap_bytes w))"
definition read_be_address :: "u16 list decoder" where "read_be_address = dec_elems read_be 8"

definition enc_NetAddress :: "NetAddress encoder" where
  "enc_NetAddress a = ecat (enc_ServiceFlags (na_services a)) (ecat (enc_elems emit_be (na_address a)) (emit_be (na_port a)))"

definition dec_NetAddress :: "NetAddress decoder" where
  "dec_NetAddress =
     dbind dec_ServiceFlags (\<lambda>s. dbind read_be_address (\<lambda>a. dbind dec_port (\<lambda>p.
     dret \<lparr> na_services = s, na_address = a, na_port = p \<rparr>)))"

datatype AddrV2 =
  Ipv4 bytes | Ipv6 "u16 list" | TorV2 bytes | TorV3 bytes | I2p bytes | Cjdns "u16 list" | UnknownAddr u8 bytes

definition octets :: "u16 list \<Rightarrow> bytes" where "octets seg = concat (map to_be_bytes seg)"

definition encode_addr :: "u8 \<Rightarrow> bytes \<Rightarrow> bytes \<times> nat" where
  "encode_addr net bs =
     (let len = snd (emit_u8 net) + snd (enc_VarInt (VarInt (word_of_nat (length bs)))) + length bs
      in (fst (emit_u8 net) @ fst (enc_VarInt (VarInt (word_of_nat (length bs)))) @ emit_slice bs, len))"

fun enc_AddrV2 :: "AddrV2 encoder" where
  "enc_AddrV2 (Ipv4 a) = encode_addr 1 a"
| "enc_AddrV2 (Ipv6 a) = encode_addr 2 (octets a)"
| "enc_AddrV2 (TorV2 b) = encode_addr 3 b"
| "enc_AddrV2 (TorV3 b) = encode_addr 4 b"
| "enc_AddrV2 (I2p b) = encode_addr 5 b"
| "enc_AddrV2 (Cjdns a) = encode_addr 6 (octets a)"
| "enc_AddrV2 (UnknownAddr n b) = encode_addr n b"

definition dec_AddrV2 :: "AddrV2 decoder" where
  "dec_AddrV2 =
     dbind read_u8 (\<lambda>network_id. dbind dec_VarInt (\<lambda>v. let len = varint_0 v in
       if len > 512 then dfail (ParseFailed ''IP must be <= 512 bytes'')
       else if network_id = 1
       then (if len \<noteq> 4 then dfail (ParseFailed ''Invalid IPv4 address'') else dbind (dec_array 4) (\<lambda>a. dret (Ipv4 a)))
       else if network_id = 2
       then (if len \<noteq> 16 then dfail (ParseFailed ''Invalid IPv6 address'')
             else dbind read_be_address (\<lambda>addr.
               if take 3 addr = ONION then dfail (ParseFailed ''OnionCat address sent with IPv6 network id'')
               else if take 6 addr = [0, 0, 0, 0, 0, 0xFFFF] then dfail (ParseFailed ''IPV4 wrapped address sent with IPv6 network id'')
               else dret (Ipv6 addr)))
       else if network_id = 3
       then (if len \<noteq> 10 then dfail (ParseFailed ''Invalid TorV2 address'') else dbind (dec_array 10) (\<lambda>b. dret (TorV2 b)))
       else if network_id = 4
       then (if len \<noteq> 32 then dfail (ParseFailed ''Invalid TorV3 address'') else dbind (dec_array 32) (\<lambda>b. dret (TorV3 b)))
       else if network_id = 5
       then (if len \<noteq> 32 then dfail (ParseFailed ''Invalid I2P address'') else dbind (dec_array 32) (\<lambda>b. dret (I2p b)))
       else if network_id = 6
       then (if len \<noteq> 16 then dfail (ParseFailed ''Invalid CJDNS address'')
             else dbind read_be_address (\<lambda>addr.
               if drop_bit 8 (addr ! 0) \<noteq> 0xFC then dfail (ParseFailed ''Invalid CJDNS address'') else dret (Cjdns addr)))
       else dbind (read_slice (unat len)) (\<lambda>b. dret (UnknownAddr network_id b))))"

record AddrV2Message =
  am_time :: u32
  am_services :: ServiceFlags
  am_addr :: AddrV2
  am_port :: u16

definition am_socket_addr :: "AddrV2Message \<Rightarrow> SocketAddr option" where
  "am_socket_addr m =
     (case am_addr m of Ipv4 a \<Rightarrow> Some (SocketV4 a (am_port m)) | Ipv6 a \<Rightarrow> Some (SocketV6 a (am_port m)) | _ \<Rightarrow> None)"

definition enc_AddrV2Message :: "AddrV2Message encoder" where
  "enc_AddrV2Message m =
     ecat (encode_int (am_time m)) (ecat (enc_VarInt (VarInt (flags_0 (am_services m)))) (ecat (enc_AddrV2 (am_addr m)) (emit_be (am_port m))))"

definition dec_AddrV2Message :: "AddrV2Message decoder" where
  "dec_AddrV2Message =
     dbind decode_int (\<lambda>t. dbind dec_VarInt (\<lambda>v. dbind dec_AddrV2 (\<lambda>a. dbind dec_port (\<lambda>p.
     dret \<lparr> am_time = t, am_services = ServiceFlags (varint_0 v), am_addr = a, am_port = p \<rparr>))))"

section \<open>Inventories\<close>

datatype Inventory =
  InvError | InvTransaction bytes | InvBlock bytes | InvCompactBlock bytes | InvWTx bytes | InvWitnessTransaction bytes
| InvWitnessBlock bytes | InvUnknown u32 bytes

fun network_hash :: "Inventory \<Rightarrow> bytes option" where
  "network_hash InvError = None"
| "network_hash (InvTransaction t) = Some t"
| "network_hash (InvBlock b) = Some b"
| "network_hash (InvCompactBlock b) = Some b"
| "network_hash (InvWTx t) = Some t"
| "network_hash (InvWitnessTransaction t) = Some t"
| "network_hash (InvWitnessBlock b) = Some b"
| "network_hash (InvUnknown _ h) = Some h"

definition encode_inv :: "u32 \<Rightarrow> bytes \<Rightarrow> bytes \<times> nat" where "encode_inv code item = ecat (encode_int code) (enc_array item)"

fun enc_Inventory :: "Inventory encoder" where
  "enc_Inventory InvError = encode_inv 0 (replicate 32 0)"
| "enc_Inventory (InvTransaction t) = encode_inv 1 t"
| "enc_Inventory (InvBlock b) = encode_inv 2 b"
| "enc_Inventory (InvCompactBlock b) = encode_inv 4 b"
| "enc_Inventory (InvWTx t) = encode_inv 5 t"
| "enc_Inventory (InvWitnessTransaction t) = encode_inv 0x40000001 t"
| "enc_Inventory (InvWitnessBlock b) = encode_inv 0x40000002 b"
| "enc_Inventory (InvUnknown t h) = encode_inv t h"

definition dec_Inventory :: "Inventory decoder" where
  "dec_Inventory =
     dbind decode_int (\<lambda>inv_type.
       if inv_type = 0 then dret InvError
       else dbind (dec_array 32) (\<lambda>h. dret
         (if inv_type = 1 then InvTransaction h
          else if inv_type = 2 then InvBlock h
          else if inv_type = 4 then InvCompactBlock h
          else if inv_type = 5 then InvWTx h
          else if inv_type = 0x40000001 then InvWitnessTransaction h
          else if inv_type = 0x40000002 then InvWitnessBlock h
          else InvUnknown inv_type h)))"

section \<open>Text\<close>

definition utf8_cont :: "u8 \<Rightarrow> bool" where "utf8_cont b \<longleftrightarrow> 0x80 \<le> b \<and> b \<le> 0xBF"

text \<open>Well-formed UTF-8, as \<open>String::from_utf8\<close> checks it.\<close>

fun utf8_valid :: "bytes \<Rightarrow> bool" where
  "utf8_valid [] = True"
| "utf8_valid (b # bs) =
     (if b < 0x80 then utf8_valid bs
      else if 0xC2 \<le> b \<and> b \<le> 0xDF then (case bs of c # cs \<Rightarrow> utf8_cont c \<and> utf8_valid cs | _ \<Rightarrow> False)
      else if 0xE0 \<le> b \<and> b \<le> 0xEF
      then (case bs of c # d # cs \<Rightarrow>
              (if b = 0xE0 then 0xA0 else 0x80) \<le> c \<and> c \<le> (if b = 0xED then 0x9F else 0xBF) \<and> utf8_cont d \<and> utf8_valid cs
            | _ \<Rightarrow> False)
      else if 0xF0 \<le> b \<and> b \<le> 0xF4
      then (case bs of c # d # e # cs \<Rightarrow>
              (if b = 0xF0 then 0x90 else 0x80) \<le> c \<and> c \<le> (if b = 0xF4 then 0x8F else 0xBF) \<and> utf8_cont d \<and> utf8_cont e \<and> utf8_valid cs
            | _ \<Rightarrow> False)
      else False)"

definition enc_String :: "bytes encoder" where
  "enc_String s = ecat (enc_VarInt (VarInt (word_of_nat (length s)))) (emit_slice s, length s)"

definition dec_String :: "bytes decoder" where
  "dec_String =
     dbind (consensus_decode dec_bytes) (\<lambda>b. if utf8_valid b then dret b else dfail (ParseFailed ''String was not valid UTF8''))"

text \<open>A byte cast to a character is the character with that number, written in UTF-8.\<close>

definition char_utf8 :: "u8 \<Rightarrow> bytes" where
  "char_utf8 u = (if u < 0x80 then [u] else [0xC0 OR drop_bit 6 u, 0x80 OR (u AND 0x3F)])"

datatype CommandString = CommandString (command_0: bytes)

text \<open>The error carries the string.\<close>

definition command_try_from :: "bytes \<Rightarrow> bytes + CommandString" where
  "command_try_from s = (if length s > 12 then Inl s else Inr (CommandString s))"

text \<open>Copying a longer string into the twelve bytes panics.\<close>

definition enc_CommandString :: "CommandString \<Rightarrow> (bytes \<times> nat) option" where
  "enc_CommandString c =
     (if length (command_0 c) > 12 then None else Some (enc_array (write_at 0 (command_0 c) (replicate 12 0))))"

definition dec_CommandString :: "CommandString decoder" where
  "dec_CommandString = dbind (dec_array 12) (\<lambda>rawbytes. dret (CommandString (concat (map char_utf8 (filter (\<lambda>u. u > 0) rawbytes)))))"

section \<open>Message bodies\<close>

record GetBlocksMessage =
  gb_version :: u32
  locator_hashes :: "bytes list"
  gb_stop_hash :: bytes

definition enc_GetBlocksMessage :: "GetBlocksMessage encoder" where
  "enc_GetBlocksMessage m = ecat (encode_int (gb_version m)) (ecat (enc_vec enc_array (locator_hashes m)) (enc_array (gb_stop_hash m)))"

definition dec_GetBlocksMessage :: "GetBlocksMessage decoder" where
  "dec_GetBlocksMessage =
     dbind decode_int (\<lambda>v. dbind (dec_vec (dec_array 32)) (\<lambda>l. dbind (dec_array 32) (\<lambda>s.
     dret \<lparr> gb_version = v, locator_hashes = l, gb_stop_hash = s \<rparr>)))"

record GetHeadersMessage =
  gh_version :: u32
  gh_locator_hashes :: "bytes list"
  gh_stop_hash :: bytes

definition enc_GetHeadersMessage :: "GetHeadersMessage encoder" where
  "enc_GetHeadersMessage m = ecat (encode_int (gh_version m)) (ecat (enc_vec enc_array (gh_locator_hashes m)) (enc_array (gh_stop_hash m)))"

definition dec_GetHeadersMessage :: "GetHeadersMessage decoder" where
  "dec_GetHeadersMessage =
     dbind decode_int (\<lambda>v. dbind (dec_vec (dec_array 32)) (\<lambda>l. dbind (dec_array 32) (\<lambda>s.
     dret \<lparr> gh_version = v, gh_locator_hashes = l, gh_stop_hash = s \<rparr>)))"

datatype BloomFlags = BloomNone | BloomAll | PubkeyOnly

fun enc_BloomFlags :: "BloomFlags encoder" where
  "enc_BloomFlags BloomNone = ([0], 1)"
| "enc_BloomFlags BloomAll = ([1], 1)"
| "enc_BloomFlags PubkeyOnly = ([2], 1)"

definition dec_BloomFlags :: "BloomFlags decoder" where
  "dec_BloomFlags =
     dbind read_u8 (\<lambda>b. if b = 0 then dret BloomNone else if b = 1 then dret BloomAll else if b = 2 then dret PubkeyOnly
       else dfail (ParseFailed ''unknown bloom flag''))"

record FilterLoad =
  fl_filter :: bytes
  hash_funcs :: u32
  fl_tweak :: u32
  fl_flags :: BloomFlags

definition enc_FilterLoad :: "FilterLoad encoder" where
  "enc_FilterLoad m = ecat (enc_with_size (fl_filter m)) (ecat (encode_int (hash_funcs m)) (ecat (encode_int (fl_tweak m)) (enc_BloomFlags (fl_flags m))))"

definition dec_FilterLoad :: "FilterLoad decoder" where
  "dec_FilterLoad =
     dbind dec_bytes (\<lambda>f. dbind decode_int (\<lambda>h. dbind decode_int (\<lambda>t. dbind dec_BloomFlags (\<lambda>g.
     dret \<lparr> fl_filter = f, hash_funcs = h, fl_tweak = t, fl_flags = g \<rparr>))))"

datatype FilterAdd = FilterAdd (fa_data: bytes)

definition enc_FilterAdd :: "FilterAdd encoder" where "enc_FilterAdd m = enc_with_size (fa_data m)"
definition dec_FilterAdd :: "FilterAdd decoder" where "dec_FilterAdd = dbind dec_bytes (\<lambda>d. dret (FilterAdd d))"

record SendCmpct =
  send_compact :: bool
  sc_version :: u64

definition enc_SendCmpct :: "SendCmpct encoder" where
  "enc_SendCmpct m = ecat (emit_bool (send_compact m)) (encode_int (sc_version m))"

definition dec_SendCmpct :: "SendCmpct decoder" where
  "dec_SendCmpct = dbind read_bool (\<lambda>s. dbind decode_int (\<lambda>v. dret \<lparr> send_compact = s, sc_version = v \<rparr>))"

record GetCFilters =
  gcf_type :: u8
  gcf_start :: u32
  gcf_stop :: bytes

definition enc_GetCFilters :: "GetCFilters encoder" where
  "enc_GetCFilters m = ecat (emit_u8 (gcf_type m)) (ecat (encode_int (gcf_start m)) (enc_array (gcf_stop m)))"

definition dec_GetCFilters :: "GetCFilters decoder" where
  "dec_GetCFilters =
     dbind read_u8 (\<lambda>t. dbind decode_int (\<lambda>h. dbind (dec_array 32) (\<lambda>s. dret \<lparr> gcf_type = t, gcf_start = h, gcf_stop = s \<rparr>)))"

record CFilter =
  cf_type :: u8
  cf_hash :: bytes
  cf_filter :: bytes

definition enc_CFilter :: "CFilter encoder" where
  "enc_CFilter m = ecat (emit_u8 (cf_type m)) (ecat (enc_array (cf_hash m)) (enc_with_size (cf_filter m)))"

definition dec_CFilter :: "CFilter decoder" where
  "dec_CFilter =
     dbind read_u8 (\<lambda>t. dbind (dec_array 32) (\<lambda>h. dbind dec_bytes (\<lambda>f. dret \<lparr> cf_type = t, cf_hash = h, cf_filter = f \<rparr>)))"

record GetCFHeaders =
  gch_type :: u8
  gch_start :: u32
  gch_stop :: bytes

definition enc_GetCFHeaders :: "GetCFHeaders encoder" where
  "enc_GetCFHeaders m = ecat (emit_u8 (gch_type m)) (ecat (encode_int (gch_start m)) (enc_array (gch_stop m)))"

definition dec_GetCFHeaders :: "GetCFHeaders decoder" where
  "dec_GetCFHeaders =
     dbind read_u8 (\<lambda>t. dbind decode_int (\<lambda>h. dbind (dec_array 32) (\<lambda>s. dret \<lparr> gch_type = t, gch_start = h, gch_stop = s \<rparr>)))"

record CFHeaders =
  cfh_type :: u8
  cfh_stop :: bytes
  previous_filter_header :: bytes
  filter_hashes :: "bytes list"

definition enc_CFHeaders :: "CFHeaders encoder" where
  "enc_CFHeaders m =
     ecat (emit_u8 (cfh_type m)) (ecat (enc_array (cfh_stop m)) (ecat (enc_array (previous_filter_header m)) (enc_vec enc_array (filter_hashes m))))"

definition dec_CFHeaders :: "CFHeaders decoder" where
  "dec_CFHeaders =
     dbind read_u8 (\<lambda>t. dbind (dec_array 32) (\<lambda>s. dbind (dec_array 32) (\<lambda>p. dbind (dec_vec (dec_array 32)) (\<lambda>h.
     dret \<lparr> cfh_type = t, cfh_stop = s, previous_filter_header = p, filter_hashes = h \<rparr>))))"

record GetCFCheckpt =
  gcc_type :: u8
  gcc_stop :: bytes

definition enc_GetCFCheckpt :: "GetCFCheckpt encoder" where
  "enc_GetCFCheckpt m = ecat (emit_u8 (gcc_type m)) (enc_array (gcc_stop m))"

definition dec_GetCFCheckpt :: "GetCFCheckpt decoder" where
  "dec_GetCFCheckpt = dbind read_u8 (\<lambda>t. dbind (dec_array 32) (\<lambda>s. dret \<lparr> gcc_type = t, gcc_stop = s \<rparr>))"

record CFCheckpt =
  cfc_type :: u8
  cfc_stop :: bytes
  filter_headers :: "bytes list"

definition enc_CFCheckpt :: "CFCheckpt encoder" where
  "enc_CFCheckpt m = ecat (emit_u8 (cfc_type m)) (ecat (enc_array (cfc_stop m)) (enc_vec enc_array (filter_headers m)))"

definition dec_CFCheckpt :: "CFCheckpt decoder" where
  "dec_CFCheckpt =
     dbind read_u8 (\<lambda>t. dbind (dec_array 32) (\<lambda>s. dbind (dec_vec (dec_array 32)) (\<lambda>h.
     dret \<lparr> cfc_type = t, cfc_stop = s, filter_headers = h \<rparr>)))"

text \<open>Signed integers are words.\<close>

record VersionMessage =
  vm_version :: u32
  vm_services :: ServiceFlags
  vm_timestamp :: u64
  vm_receiver :: NetAddress
  vm_sender :: NetAddress
  vm_nonce :: u64
  user_agent :: bytes
  vm_start_height :: u32
  vm_relay :: bool

definition version_message_new ::
  "u32 \<Rightarrow> ServiceFlags \<Rightarrow> u64 \<Rightarrow> NetAddress \<Rightarrow> NetAddress \<Rightarrow> u64 \<Rightarrow> bytes \<Rightarrow> u32 \<Rightarrow> VersionMessage" where
  "version_message_new v s t r f n u h =
     \<lparr> vm_version = v, vm_services = s, vm_timestamp = t, vm_receiver = r, vm_sender = f, vm_nonce = n, user_agent = u,
       vm_start_height = h, vm_relay = False \<rparr>"

definition enc_VersionMessage :: "VersionMessage encoder" where
  "enc_VersionMessage m =
     ecat (encode_int (vm_version m)) (ecat (enc_ServiceFlags (vm_services m)) (ecat (encode_int (vm_timestamp m))
       (ecat (enc_NetAddress (vm_receiver m)) (ecat (enc_NetAddress (vm_sender m)) (ecat (encode_int (vm_nonce m))
         (ecat (enc_String (user_agent m)) (ecat (encode_int (vm_start_height m)) (emit_bool (vm_relay m)))))))))"

definition dec_VersionMessage :: "VersionMessage decoder" where
  "dec_VersionMessage =
     dbind decode_int (\<lambda>v. dbind dec_ServiceFlags (\<lambda>s. dbind decode_int (\<lambda>t. dbind dec_NetAddress (\<lambda>r. dbind dec_NetAddress (\<lambda>f.
     dbind decode_int (\<lambda>n. dbind dec_String (\<lambda>u. dbind decode_int (\<lambda>h. dbind read_bool (\<lambda>b.
     dret \<lparr> vm_version = v, vm_services = s, vm_timestamp = t, vm_receiver = r, vm_sender = f, vm_nonce = n, user_agent = u,
            vm_start_height = h, vm_relay = b \<rparr>)))))))))"

datatype RejectReason = Malformed | RejInvalid | Obsolete | Duplicate | NonStandard | Dust | Fee | Checkpoint

fun reject_code :: "RejectReason \<Rightarrow> u8" where
  "reject_code Malformed = 0x01" | "reject_code RejInvalid = 0x10" | "reject_code Obsolete = 0x11" | "reject_code Duplicate = 0x12"
| "reject_code NonStandard = 0x40" | "reject_code Dust = 0x41" | "reject_code Fee = 0x42" | "reject_code Checkpoint = 0x43"

definition enc_RejectReason :: "RejectReason encoder" where "enc_RejectReason r = ([reject_code r], 1)"

definition dec_RejectReason :: "RejectReason decoder" where
  "dec_RejectReason =
     dbind read_u8 (\<lambda>b.
       if b = 0x01 then dret Malformed else if b = 0x10 then dret RejInvalid else if b = 0x11 then dret Obsolete
       else if b = 0x12 then dret Duplicate else if b = 0x40 then dret NonStandard else if b = 0x41 then dret Dust
       else if b = 0x42 then dret Fee else if b = 0x43 then dret Checkpoint else dfail (ParseFailed ''unknown reject code''))"

record Reject =
  rej_message :: bytes
  rej_ccode :: RejectReason
  rej_reason :: bytes
  rej_hash :: bytes

definition enc_Reject :: "Reject encoder" where
  "enc_Reject m = ecat (enc_String (rej_message m)) (ecat (enc_RejectReason (rej_ccode m)) (ecat (enc_String (rej_reason m)) (enc_array (rej_hash m))))"

definition dec_Reject :: "Reject decoder" where
  "dec_Reject =
     dbind dec_String (\<lambda>m. dbind dec_RejectReason (\<lambda>c. dbind dec_String (\<lambda>r. dbind (dec_array 32) (\<lambda>h.
     dret \<lparr> rej_message = m, rej_ccode = c, rej_reason = r, rej_hash = h \<rparr>))))"

section \<open>Codecs of addresses\<close>

interpretation flags_codec: codec enc_ServiceFlags dec_ServiceFlags "\<lambda>_. True"
  by unfold_locales
    (auto simp: enc_ServiceFlags_def dec_ServiceFlags_def dbind_Inr_iff u64_codec.enc_len u64_codec.dec_enc dest!: u64_codec.canonical)

interpretation magic_codec: codec enc_Magic dec_Magic "\<lambda>m. length (magic_0 m) = 4"
  by unfold_locales
    (auto simp: enc_Magic_def dec_Magic_def dbind_Inr_iff array4_codec.enc_len array4_codec.dec_enc dest!: array4_codec.canonical)

lemma be_bytes_u16 [simp]: "from_be_bytes (to_be_bytes (w :: u16)) = w" "length b = 2 \<Longrightarrow> to_be_bytes (from_be_bytes b :: u16) = b"
  by (simp_all add: from_to_be_bytes to_from_be_bytes)

interpretation be_codec: codec emit_be read_be "\<lambda>_. True"
  by unfold_locales
    (auto simp: emit_be_def read_be_def dbind_def dret_def read_slice_append read_slice_Inr_iff split: sum.splits prod.splits)

lemma dec_port_eq: "dec_port = read_be"
proof
  fix bs
  have "decode_int bs = (case read_slice 2 bs of Inl e \<Rightarrow> Inl e | Inr (b, r) \<Rightarrow> Inr (from_le_bytes b :: u16, r))"
    by (simp add: decode_int_def dbind_def dret_def [abs_def] split: sum.split)
  then show "dec_port bs = read_be bs"
    by (auto simp: dec_port_def read_be_def dbind_def dret_def swap_bytes_def read_slice_Inr_iff to_from_le_bytes split: sum.splits)
qed

lemma octets_eq: "fst (enc_elems emit_be a) = octets a"
  by (induction a) (simp_all add: octets_def emit_be_def)

lemma read_be_address_rt: "length a = 8 \<Longrightarrow> read_be_address (octets a @ rest) = Inr (a, rest)"
  using be_codec.elems_dec_enc [of a rest] by (simp add: read_be_address_def list_all_iff octets_eq)

lemma read_be_address_canonical: "read_be_address bs = Inr (a, rest) \<Longrightarrow> length a = 8 \<and> bs = octets a @ rest"
  using be_codec.elems_canonical [of 8 bs a rest] by (simp add: read_be_address_def octets_eq)

interpretation netaddr_codec: codec enc_NetAddress dec_NetAddress "\<lambda>a. length (na_address a) = 8"
  by unfold_locales
    (auto simp: enc_NetAddress_def dec_NetAddress_def dec_port_eq dbind_Inr_iff flags_codec.enc_len flags_codec.dec_enc be_codec.enc_len
      be_codec.elems_enc_len be_codec.dec_enc read_be_address_rt octets_eq
      dest!: flags_codec.canonical read_be_address_canonical be_codec.canonical)

fun addrv2_ok :: "AddrV2 \<Rightarrow> bool" where
  "addrv2_ok (Ipv4 a) = (length a = 4)"
| "addrv2_ok (Ipv6 a) = (length a = 8 \<and> take 3 a \<noteq> ONION \<and> take 6 a \<noteq> [0, 0, 0, 0, 0, 0xFFFF])"
| "addrv2_ok (TorV2 b) = (length b = 10)"
| "addrv2_ok (TorV3 b) = (length b = 32)"
| "addrv2_ok (I2p b) = (length b = 32)"
| "addrv2_ok (Cjdns a) = (length a = 8 \<and> drop_bit 8 (a ! 0) = 0xFC)"
| "addrv2_ok (UnknownAddr n b) = (n \<notin> {1, 2, 3, 4, 5, 6} \<and> length b \<le> 512)"

lemma length_octets: "length (octets a) = 2 * length a"
  by (induction a) (simp_all add: octets_def)

lemma encode_addr_fst: "fst (encode_addr n b) = n # fst (enc_VarInt (VarInt (word_of_nat (length b)))) @ b"
  by (simp add: encode_addr_def emit_u8_def emit_slice_def)

lemma encode_addr_len: "snd (encode_addr n b) = length (fst (encode_addr n b))"
  by (simp add: encode_addr_def emit_u8_def emit_slice_def varint_len)

lemma read_u8_Cons: "read_u8 (b # r) = Inr (b, r)"
  using u8_codec.dec_enc [of b r] by (simp add: emit_u8_def)

lemma addrv2_len: "snd (enc_AddrV2 a) = length (fst (enc_AddrV2 a))"
  by (cases a) (simp_all add: encode_addr_len)

lemma addrv2_rt: "addrv2_ok a \<Longrightarrow> dec_AddrV2 (fst (enc_AddrV2 a) @ rest) = Inr (a, rest)"
proof (cases a)
  case (UnknownAddr n b)
  assume "addrv2_ok a"
  then have "n \<notin> {1, 2, 3, 4, 5, 6}" "length b \<le> 512" using UnknownAddr by auto
  moreover have "unat (word_of_nat (length b) :: u64) = length b" using \<open>length b \<le> 512\<close> by (simp add: unat_of_nat)
  ultimately show ?thesis using UnknownAddr
    by (simp add: dec_AddrV2_def encode_addr_fst dbind_def read_u8_Cons varint_codec.dec_enc word_less_nat_alt read_slice_append dret_def Let_def)
qed (auto simp: dec_AddrV2_def encode_addr_fst dbind_def read_u8_Cons varint_codec.dec_enc length_octets dret_def Let_def dec_array_def
    read_slice_append read_be_address_rt)

lemma addrv2_canonical: "dec_AddrV2 bs = Inr (a, rest) \<Longrightarrow> addrv2_ok a \<and> bs = fst (enc_AddrV2 a) @ rest"
proof -
  assume d: "dec_AddrV2 bs = Inr (a, rest)"
  then obtain n r v r' where n: "read_u8 bs = Inr (n, r)" "dec_VarInt r = Inr (v, r')" by (auto simp: dec_AddrV2_def dbind_Inr_iff)
  have bs: "bs = n # fst (enc_VarInt v) @ r'" using u8_codec.canonical [OF n(1)] varint_canonical [OF n(2)] by (simp add: emit_u8_def)
  have vl: "VarInt (word_of_nat (unat (varint_0 v))) = v" by simp
  have v: "\<And>k. varint_0 v = k \<Longrightarrow> VarInt k = v" by auto
  have le: "unat (varint_0 v) \<le> 512" if "\<not> 512 < varint_0 v" using that by (simp add: word_less_nat_alt)
  show ?thesis
    using d unfolding bs dec_AddrV2_def
    by (auto simp: dbind_def read_u8_Cons varint_codec.dec_enc Let_def encode_addr_fst dret_def dec_array_def read_slice_Inr_iff length_octets vl v le
        split: if_splits sum.splits prod.splits dest!: read_be_address_canonical)
qed

interpretation addrv2_codec: codec enc_AddrV2 dec_AddrV2 addrv2_ok
  by unfold_locales (simp_all add: addrv2_len addrv2_rt addrv2_canonical)

interpretation addrv2msg_codec: codec enc_AddrV2Message dec_AddrV2Message "\<lambda>m. addrv2_ok (am_addr m)"
  by unfold_locales
    (auto simp: enc_AddrV2Message_def dec_AddrV2Message_def dec_port_eq dbind_Inr_iff u32_codec.enc_len u32_codec.dec_enc varint_len
      varint_codec.dec_enc addrv2_len addrv2_rt be_codec.enc_len be_codec.dec_enc
      dest!: u32_codec.canonical varint_canonical addrv2_canonical be_codec.canonical)

interpretation addrv2msgs_codec: codec "enc_vec enc_AddrV2Message" "dec_vec dec_AddrV2Message" "vec_ok (\<lambda>m. addrv2_ok (am_addr m))"
  by (rule vec_codec) (rule addrv2msg_codec.codec_axioms)

text \<open>The pairs of an \<open>addr\<close> message.\<close>

definition enc_timed :: "(u32 \<times> NetAddress) encoder" where "enc_timed p = ecat (encode_int (fst p)) (enc_NetAddress (snd p))"
definition dec_timed :: "(u32 \<times> NetAddress) decoder" where
  "dec_timed = dbind decode_int (\<lambda>t. dbind dec_NetAddress (\<lambda>a. dret (t, a)))"

interpretation timed_codec: codec enc_timed dec_timed "\<lambda>p. length (na_address (snd p)) = 8"
  by unfold_locales
    (auto simp: enc_timed_def dec_timed_def dbind_Inr_iff u32_codec.enc_len u32_codec.dec_enc netaddr_codec.enc_len netaddr_codec.dec_enc
      dest!: u32_codec.canonical netaddr_codec.canonical)

interpretation timeds_codec: codec "enc_vec enc_timed" "dec_vec dec_timed" "vec_ok (\<lambda>p. length (na_address (snd p)) = 8)"
  by (rule vec_codec) (rule timed_codec.codec_axioms)

section \<open>Codecs of the bodies\<close>

text \<open>Decoders that accept more than the encoders write still invert them.\<close>

lemma vec_roundtrip:
  assumes "roundtrip enc dec ok"
  shows "roundtrip (enc_vec enc) (dec_vec dec) (vec_ok ok)"
proof
  show "snd (enc_vec enc xs) = length (fst (enc_vec enc xs))" for xs
    by (simp add: enc_vec_def varint_len roundtrip.elems_enc_len [OF assms])
  show "dec_vec dec (fst (enc_vec enc xs) @ rest) = Inr (xs, rest)" if "vec_ok ok xs" for xs rest
    using that by (simp add: enc_vec_def dec_vec_def vec_ok_def dbind_def varint_roundtrip roundtrip.elems_dec_enc [OF assms] unat_len)
qed

definition str_ok :: "bytes \<Rightarrow> bool" where
  "str_ok s \<longleftrightarrow> utf8_valid s \<and> length (fst (enc_with_size s)) \<le> MAX_VEC_SIZE"

lemma enc_String_eq: "enc_String = enc_with_size"
  by (rule ext) (simp add: enc_String_def enc_with_size_def ecat_def emit_slice_def)

interpretation limited_bytes: codec enc_with_size "consensus_decode dec_bytes" "\<lambda>b. bytes_ok b \<and> length (fst (enc_with_size b)) \<le> MAX_VEC_SIZE"
  unfolding consensus_decode_def by (rule bytes_codec.limited)

lemma str_ok_bytes: "str_ok s \<Longrightarrow> bytes_ok s"
  by (auto simp: str_ok_def bytes_ok_def enc_with_size_def MAX_VEC_SIZE_def emit_slice_def ecat_def)

interpretation string_codec: codec enc_String dec_String str_ok
  unfolding enc_String_eq
  by unfold_locales
    (auto simp: dec_String_def dbind_Inr_iff str_ok_def bytes_codec.enc_len limited_bytes.dec_enc str_ok_bytes [unfolded str_ok_def]
      dest!: limited_bytes.canonical split: if_splits)

interpretation bloom_codec: codec enc_BloomFlags dec_BloomFlags "\<lambda>_. True"
proof
  show "snd (enc_BloomFlags f) = length (fst (enc_BloomFlags f))" for f by (cases f) simp_all
  show "dec_BloomFlags (fst (enc_BloomFlags f) @ rest) = Inr (f, rest)" for f rest
    by (cases f) (simp_all add: dec_BloomFlags_def dbind_def read_u8_Cons dret_def)
  show "True \<and> bs = fst (enc_BloomFlags f) @ rest" if "dec_BloomFlags bs = Inr (f, rest)" for bs f rest
    using that by (auto simp: dec_BloomFlags_def dbind_Inr_iff emit_u8_def split: if_splits dest!: u8_codec.canonical)
qed

interpretation reject_reason_codec: codec enc_RejectReason dec_RejectReason "\<lambda>_. True"
proof
  show "snd (enc_RejectReason f) = length (fst (enc_RejectReason f))" for f by (simp add: enc_RejectReason_def)
  show "dec_RejectReason (fst (enc_RejectReason f) @ rest) = Inr (f, rest)" for f rest
    by (cases f) (simp_all add: dec_RejectReason_def enc_RejectReason_def dbind_def read_u8_Cons dret_def)
  show "True \<and> bs = fst (enc_RejectReason f) @ rest" if "dec_RejectReason bs = Inr (f, rest)" for bs f rest
    using that by (auto simp: dec_RejectReason_def enc_RejectReason_def dbind_Inr_iff emit_u8_def split: if_splits dest!: u8_codec.canonical)
qed

lemmas part_len = u8_codec.enc_len u32_codec.enc_len u64_codec.enc_len array32_codec.enc_len hash_vec_codec.enc_len bytes_codec.enc_len
  bool_roundtrip.enc_len flags_codec.enc_len netaddr_codec.enc_len string_codec.enc_len bloom_codec.enc_len reject_reason_codec.enc_len
lemmas part_rt = u8_codec.dec_enc u32_codec.dec_enc u64_codec.dec_enc array32_codec.dec_enc hash_vec_codec.dec_enc bytes_codec.dec_enc
  bool_roundtrip.dec_enc flags_codec.dec_enc netaddr_codec.dec_enc string_codec.dec_enc bloom_codec.dec_enc reject_reason_codec.dec_enc
lemmas part_canonical = u8_codec.canonical u32_codec.canonical u64_codec.canonical array32_codec.canonical hash_vec_codec.canonical
  bytes_codec.canonical flags_codec.canonical netaddr_codec.canonical string_codec.canonical bloom_codec.canonical reject_reason_codec.canonical

abbreviation hash_ok :: "bytes \<Rightarrow> bool" where "hash_ok h \<equiv> length h = 32"

interpretation getblocks_codec: codec enc_GetBlocksMessage dec_GetBlocksMessage "\<lambda>m. vec_ok hash_ok (locator_hashes m) \<and> hash_ok (gb_stop_hash m)"
  by unfold_locales (auto simp: enc_GetBlocksMessage_def dec_GetBlocksMessage_def dbind_Inr_iff part_len part_rt dest!: part_canonical)

interpretation getheaders_codec: codec enc_GetHeadersMessage dec_GetHeadersMessage "\<lambda>m. vec_ok hash_ok (gh_locator_hashes m) \<and> hash_ok (gh_stop_hash m)"
  by unfold_locales (auto simp: enc_GetHeadersMessage_def dec_GetHeadersMessage_def dbind_Inr_iff part_len part_rt dest!: part_canonical)

interpretation filterload_codec: codec enc_FilterLoad dec_FilterLoad "\<lambda>m. bytes_ok (fl_filter m)"
  by unfold_locales (auto simp: enc_FilterLoad_def dec_FilterLoad_def dbind_Inr_iff part_len part_rt dest!: part_canonical)

interpretation filteradd_codec: codec enc_FilterAdd dec_FilterAdd "\<lambda>m. bytes_ok (fa_data m)"
  by unfold_locales (auto simp: enc_FilterAdd_def dec_FilterAdd_def dbind_Inr_iff part_len part_rt dest!: part_canonical)

interpretation getcfilters_codec: codec enc_GetCFilters dec_GetCFilters "\<lambda>m. hash_ok (gcf_stop m)"
  by unfold_locales (auto simp: enc_GetCFilters_def dec_GetCFilters_def dbind_Inr_iff part_len part_rt dest!: part_canonical)

interpretation cfilter_codec: codec enc_CFilter dec_CFilter "\<lambda>m. hash_ok (cf_hash m) \<and> bytes_ok (cf_filter m)"
  by unfold_locales (auto simp: enc_CFilter_def dec_CFilter_def dbind_Inr_iff part_len part_rt dest!: part_canonical)

interpretation getcfheaders_codec: codec enc_GetCFHeaders dec_GetCFHeaders "\<lambda>m. hash_ok (gch_stop m)"
  by unfold_locales (auto simp: enc_GetCFHeaders_def dec_GetCFHeaders_def dbind_Inr_iff part_len part_rt dest!: part_canonical)

interpretation cfheaders_codec: codec enc_CFHeaders dec_CFHeaders
  "\<lambda>m. hash_ok (cfh_stop m) \<and> hash_ok (previous_filter_header m) \<and> vec_ok hash_ok (filter_hashes m)"
  by unfold_locales (auto simp: enc_CFHeaders_def dec_CFHeaders_def dbind_Inr_iff part_len part_rt dest!: part_canonical)

interpretation getcfcheckpt_codec: codec enc_GetCFCheckpt dec_GetCFCheckpt "\<lambda>m. hash_ok (gcc_stop m)"
  by unfold_locales (auto simp: enc_GetCFCheckpt_def dec_GetCFCheckpt_def dbind_Inr_iff part_len part_rt dest!: part_canonical)

interpretation cfcheckpt_codec: codec enc_CFCheckpt dec_CFCheckpt "\<lambda>m. hash_ok (cfc_stop m) \<and> vec_ok hash_ok (filter_headers m)"
  by unfold_locales (auto simp: enc_CFCheckpt_def dec_CFCheckpt_def dbind_Inr_iff part_len part_rt dest!: part_canonical)

interpretation reject_codec: codec enc_Reject dec_Reject "\<lambda>m. str_ok (rej_message m) \<and> str_ok (rej_reason m) \<and> hash_ok (rej_hash m)"
  by unfold_locales (auto simp: enc_Reject_def dec_Reject_def dbind_Inr_iff part_len part_rt dest!: part_canonical)

interpretation sendcmpct_roundtrip: roundtrip enc_SendCmpct dec_SendCmpct "\<lambda>_. True"
  by unfold_locales (auto simp: enc_SendCmpct_def dec_SendCmpct_def dbind_Inr_iff part_len part_rt)

definition version_ok :: "VersionMessage \<Rightarrow> bool" where
  "version_ok m \<longleftrightarrow> length (na_address (vm_receiver m)) = 8 \<and> length (na_address (vm_sender m)) = 8 \<and> str_ok (user_agent m)"

interpretation version_roundtrip: roundtrip enc_VersionMessage dec_VersionMessage version_ok
  by unfold_locales (simp_all add: enc_VersionMessage_def dec_VersionMessage_def version_ok_def dbind_Inr_iff part_len part_rt)

text \<open>Inventories: the error item is written with a hash and read without one.\<close>

fun inv_ok :: "Inventory \<Rightarrow> bool" where
  "inv_ok InvError = False"
| "inv_ok (InvUnknown t h) = (t \<notin> {0, 1, 2, 4, 5, 0x40000001, 0x40000002} \<and> hash_ok h)"
| "inv_ok i = (\<exists>h. network_hash i = Some h \<and> hash_ok h)"

interpretation inventory_roundtrip: roundtrip enc_Inventory dec_Inventory inv_ok
proof
  show "snd (enc_Inventory i) = length (fst (enc_Inventory i))" for i by (cases i) (simp_all add: encode_inv_def part_len)
  show "dec_Inventory (fst (enc_Inventory i) @ rest) = Inr (i, rest)" if "inv_ok i" for i rest
    using that by (cases i) (simp_all add: encode_inv_def dec_Inventory_def dbind_Inr_iff part_rt)
qed

interpretation inventories_roundtrip: roundtrip "enc_vec enc_Inventory" "dec_vec dec_Inventory" "vec_ok inv_ok"
  by (rule vec_roundtrip) (rule inventory_roundtrip.roundtrip_axioms)

section \<open>Command strings\<close>

lemma utf8_valid_two: "0x80 \<le> u \<Longrightarrow> utf8_valid ((0xC0 OR drop_bit 6 u) # (0x80 OR (u AND 0x3F)) # bs) = utf8_valid bs" for u :: u8
proof -
  assume u: "0x80 \<le> u"
  let ?a = "0xC0 OR drop_bit 6 u" and ?b = "0x80 OR (u AND 0x3F)"
  have "drop_bit 6 u \<in> {2, 3}" using u by (auto simp: word_unat_eq_iff word_le_nat_alt unat_drop_bit_div) (use unat_u8_lt [of u] in linarith)
  then have a: "?a = 0xC2 \<or> ?a = 0xC3" by auto
  have "u AND 0x3F = take_bit 6 u" by (simp add: take_bit_eq_mask mask_eq_exp_minus_1)
  then have "unat (u AND 0x3F) < 64" by (simp add: unat_take_bit_mod)
  moreover have "?b = 0x80 + (u AND 0x3F)"
  proof -
    have "(0x80 :: u8) AND (u AND 0x3F) = 0" by (simp add: and.left_commute)
    then show ?thesis using word_plus_and_or [of "0x80 :: u8" "u AND 0x3F"] by simp
  qed
  ultimately have "utf8_cont ?b" by (simp add: utf8_cont_def word_le_nat_alt unat_word_ariths)
  moreover have "utf8_cont b \<Longrightarrow> utf8_valid (0xC2 # b # bs) = utf8_valid bs \<and> utf8_valid (0xC3 # b # bs) = utf8_valid bs" for b by simp
  ultimately show "utf8_valid (?a # ?b # bs) = utf8_valid bs" using a by metis
qed

lemma utf8_chars: "utf8_valid (concat (map char_utf8 us))"
proof (induction us)
  case (Cons u us)
  then show ?case by (cases "u < 0x80") (auto simp: char_utf8_def utf8_valid_two not_less simp del: utf8_valid.simps(2) simp: utf8_valid.simps(2) [of u])
qed simp

definition wide :: "u8 \<Rightarrow> bool" where "wide u \<longleftrightarrow> 0x80 \<le> u"

lemma length_chars: "length (concat (map char_utf8 us)) = length us + length (filter wide us)"
  by (induction us) (auto simp: char_utf8_def wide_def)

lemma chars_ascii: "list_all (\<lambda>u. 0 < u \<and> u < 0x80) us \<Longrightarrow> concat (map char_utf8 (filter (\<lambda>u. u > 0) (us @ replicate n 0))) = us"
  by (induction us) (auto simp: char_utf8_def)

lemma command_ascii:
  assumes "list_all (\<lambda>u. 0 < u \<and> u < 0x80) us" "length us \<le> 12"
  shows "enc_CommandString (CommandString us) = Some (us @ replicate (12 - length us) 0, 12)"
    "dec_CommandString (us @ replicate (12 - length us) 0 @ rest) = Inr (CommandString us, rest)"
proof -
  let ?p = "us @ replicate (12 - length us) 0"
  show "enc_CommandString (CommandString us) = Some (?p, 12)" using assms by (simp add: enc_CommandString_def enc_array_def emit_slice_def write_at_def)
  have "dec_CommandString (?p @ rest) = Inr (CommandString us, rest)"
    unfolding dec_CommandString_def dec_array_def dbind_def using assms read_slice_append [of ?p 12 rest] chars_ascii [of us "12 - length us"]
    by (simp add: dret_def del: append_assoc filter_append)
  then show "dec_CommandString (us @ replicate (12 - length us) 0 @ rest) = Inr (CommandString us, rest)" by simp
qed

section \<open>Properties\<close>

text \<open>Command strings. Reading twelve bytes always gives well-formed text; text of at most twelve ASCII characters is written
  and read back; but text that was read can not be written again, and the writer panics, exactly when the characters
  that take two bytes push it over twelve bytes.\<close>

theorem command_string_exact:
  "(list_all (\<lambda>u. 0 < u \<and> u < 0x80) us \<and> length us \<le> 12 \<longrightarrow>
      (\<exists>e. enc_CommandString (CommandString us) = Some e \<and> snd e = length (fst e) \<and> dec_CommandString (fst e @ rest) = Inr (CommandString us, rest))) \<and>
   (length raw = 12 \<longrightarrow>
      (\<exists>c. dec_CommandString (raw @ rest) = Inr (c, rest) \<and> utf8_valid (command_0 c) \<and>
           (enc_CommandString c = None \<longleftrightarrow> 12 < length (filter (\<lambda>u. u > 0) raw) + length (filter wide raw))))"
proof (intro conjI impI, goal_cases)
  case 1
  then show ?case using command_ascii [of us] by auto
next
  case 2
  have "filter wide (filter (\<lambda>u. u > 0) raw) = filter wide raw"
    by (induction raw) (auto simp: wide_def word_le_nat_alt word_less_nat_alt)
  then show ?case using 2
    by (auto simp: dec_CommandString_def dec_array_def dbind_def read_slice_append dret_def utf8_chars enc_CommandString_def length_chars)
qed

theorem command_string_exact_witness:
  "(\<exists>e. enc_CommandString (CommandString (ascii ''ping'')) = Some e \<and> snd e = length (fst e) \<and>
        dec_CommandString (fst e @ []) = Inr (CommandString (ascii ''ping''), [])) \<and>
   (\<exists>c. dec_CommandString (replicate 12 0xFF @ []) = Inr (c, []) \<and> utf8_valid (command_0 c) \<and> enc_CommandString c = None)"
proof
  show "\<exists>e. enc_CommandString (CommandString (ascii ''ping'')) = Some e \<and> snd e = length (fst e) \<and>
      dec_CommandString (fst e @ []) = Inr (CommandString (ascii ''ping''), [])"
    by (rule command_string_exact [THEN conjunct1, THEN mp]) (simp add: ascii_def)
  have "length (filter wide (replicate 12 0xFF)) = 12" by (simp add: wide_def)
  then show "\<exists>c. dec_CommandString (replicate 12 0xFF @ []) = Inr (c, []) \<and> utf8_valid (command_0 c) \<and> enc_CommandString c = None"
    using command_string_exact [THEN conjunct2, THEN mp, of "replicate 12 0xFF" "[]"] by auto
qed

text \<open>Inventory items are read as they were written, except the error item: its hash is written but not read, and is left in front of
  the next item.\<close>

theorem inventory_wire:
  "(inv_ok i \<longrightarrow> dec_Inventory (fst (enc_Inventory i) @ rest) = Inr (i, rest)) \<and>
   dec_Inventory (fst (enc_Inventory InvError) @ rest) = Inr (InvError, replicate 32 0 @ rest)"
  using inventory_roundtrip.dec_enc [of i rest]
  by (auto simp: encode_inv_def enc_array_def emit_slice_def dec_Inventory_def dbind_def u32_codec.dec_enc dret_def)

theorem inventory_wire_witness:
  "dec_Inventory (fst (enc_Inventory (InvBlock (replicate 32 7))) @ []) = Inr (InvBlock (replicate 32 7), []) \<and>
   dec_Inventory (fst (enc_Inventory InvError) @ []) = Inr (InvError, replicate 32 0 @ [])"
  using inventory_wire [of "InvBlock (replicate 32 7)" "[]"] by simp

text \<open>Service flags are sets of bits: adding is union, inclusion is what \<open>has\<close> tests, but removing is the symmetric
  difference, so that removing a flag that is not set sets it.\<close>

theorem service_flags_sets:
  "{i. bit (flags_0 (flags_add a b)) i} = {i. bit (flags_0 a) i} \<union> {i. bit (flags_0 b) i} \<and>
   (flags_has a b \<longleftrightarrow> {i. bit (flags_0 b) i} \<subseteq> {i. bit (flags_0 a) i}) \<and>
   {i. bit (flags_0 (flags_remove a b)) i} = ({i. bit (flags_0 a) i} - {i. bit (flags_0 b) i}) \<union> ({i. bit (flags_0 b) i} - {i. bit (flags_0 a) i})"
proof -
  have "flags_has a b \<longleftrightarrow> (\<forall>i. bit (flags_0 b) i \<longrightarrow> bit (flags_0 a) i)"
  proof
    assume h: "flags_has a b"
    have "bit (flags_0 a OR flags_0 b) i \<longleftrightarrow> bit (flags_0 a) i" for i using h by (simp add: flags_has_def)
    then show "\<forall>i. bit (flags_0 b) i \<longrightarrow> bit (flags_0 a) i" unfolding bit_or_iff by blast
  next
    assume "\<forall>i. bit (flags_0 b) i \<longrightarrow> bit (flags_0 a) i"
    then show "flags_has a b" unfolding flags_has_def by (intro bit_eqI) (auto simp: bit_or_iff)
  qed
  then show ?thesis by (auto simp: flags_add_def flags_remove_def bit_or_iff bit_xor_iff)
qed

text \<open>The magic of a network identifies it among the Bitcoin networks.\<close>

theorem magic_identifies_network: "network_try_from_magic m = Inr n \<longleftrightarrow> m = magic_from_network n"
  by (cases n) (auto simp: network_try_from_magic_def MAGIC_BITCOIN_def MAGIC_TESTNET3_def MAGIC_TESTNET4_def MAGIC_SIGNET_def MAGIC_REGTEST_def)

text \<open>Socket addresses through an address message: version 4 addresses come back; version 6 addresses come back unless they
  belong to the onion range, which is refused, or stand for a version 4 address, mapped or compatible (as the loopback
  address does), which comes back as that.\<close>

theorem socket_addr_exact:
  assumes "length ip = 4" "length seg = 8"
  shows "socket_addr (address_new (SocketV4 ip p) f) = Some (SocketV4 ip p) \<and>
    socket_addr (address_new (SocketV6 seg p) f) =
      (if take 3 seg = ONION then None
       else if take 5 seg = replicate 5 0 \<and> seg ! 5 \<in> {0, 0xffff} then Some (SocketV4 (octets (drop 6 seg)) p) else Some (SocketV6 seg p))"
proof -
  obtain a b c d where ip: "ip = [a, b, c, d]" using assms(1) by (auto simp: length_Suc_conv numeral_eq_Suc)
  have "to_be_bytes (from_be_bytes [a, b] :: u16) @ to_be_bytes (from_be_bytes [c, d] :: u16) = ip" by (simp add: ip)
  then have 4: "to_ipv4 (to_ipv6_mapped ip) = Some ip" by (simp add: to_ipv4_def to_ipv6_mapped_def ip numeral_eq_Suc)
  have "drop 6 seg = [seg ! 6, seg ! 7]" using assms(2) by (auto simp: length_Suc_conv numeral_eq_Suc)
  then have 6: "octets (drop 6 seg) = to_be_bytes (seg ! 6) @ to_be_bytes (seg ! 7)" by (simp add: octets_def)
  have "take 3 (to_ipv6_mapped ip) \<noteq> ONION" by (simp add: to_ipv6_mapped_def ONION_def)
  moreover have "replicate 5 (0 :: u16) = [0, 0, 0, 0, 0]" by (simp add: numeral_eq_Suc)
  ultimately show ?thesis using 4 unfolding 6 by (auto simp: socket_addr_def address_new_def to_ipv4_def Let_def)
qed

theorem socket_addr_exact_witness:
  "socket_addr (address_new (SocketV4 [127, 0, 0, 1] 8333) FLAGS_NONE) = Some (SocketV4 [127, 0, 0, 1] 8333) \<and>
   socket_addr (address_new (SocketV6 [0, 0, 0, 0, 0, 0, 0, 1] 8333) FLAGS_NONE) =
     (if take 3 [0, 0, 0, 0, 0, 0, 0, 1] = ONION then None
      else if take 5 [0, 0, 0, 0, 0, 0, 0, 1 :: u16] = replicate 5 0 \<and> [0, 0, 0, 0, 0, 0, 0, 1] ! 5 \<in> {0, 0xffff :: u16}
      then Some (SocketV4 (octets (drop 6 [0, 0, 0, 0, 0, 0, 0, 1])) 8333) else Some (SocketV6 [0, 0, 0, 0, 0, 0, 0, 1] 8333))"
  by (rule socket_addr_exact) simp_all

end
