(* ===== verification/P2pMessage.thy ===== *)
theory P2pMessage
  imports P2pTypes
begin

text \<open>
  Peer-to-peer messages, \<open>bitcoin/src/p2p/message.rs\<close>: the commands, the encoding of a payload, and the frame with magic, command,
  length and checksum. As in the code, the types of headers and blocks are parameters: their encoders and
  decoders are arguments. A panic of an encoder is \<open>None\<close>; \<open>oc\<close> tells whether overflow panics.
\<close>

section \<open>Messages\<close>

definition MAX_MSG_SIZE :: nat where "MAX_MSG_SIZE = 5000000"

datatype ('h, 'b) NetworkMessage =
    NetVersion VersionMessage | NetVerack | NetAddr "(u32 \<times> NetAddress) list" | NetInv "Inventory list" | NetGetData "Inventory list"
  | NetNotFound "Inventory list" | NetGetBlocks GetBlocksMessage | NetGetHeaders GetHeadersMessage | NetMemPool | NetTx Transaction
  | NetBlock 'b | NetHeaders "'h list" | NetSendHeaders | NetGetAddr | NetPing u64 | NetPong u64 | NetMerkleBlock MerkleBlock
  | NetFilterLoad FilterLoad | NetFilterAdd FilterAdd | NetFilterClear | NetGetCFilters GetCFilters | NetCFilter CFilter
  | NetGetCFHeaders GetCFHeaders | NetCFHeaders CFHeaders | NetGetCFCheckpt GetCFCheckpt | NetCFCheckpt CFCheckpt | NetSendCmpct SendCmpct
  | NetCmpctBlock HeaderAndShortIds | NetGetBlockTxn BlockTransactionsRequest | NetBlockTxn BlockTransactions | NetAlert bytes
  | NetReject Reject | NetFeeFilter u64 | NetWtxidRelay | NetAddrV2 "AddrV2Message list" | NetSendAddrV2
  | NetUnknown CommandString bytes

fun cmd :: "('h, 'b) NetworkMessage \<Rightarrow> string" where
  "cmd (NetVersion _) = ''version''"
| "cmd NetVerack = ''verack''"
| "cmd (NetAddr _) = ''addr''"
| "cmd (NetInv _) = ''inv''"
| "cmd (NetGetData _) = ''getdata''"
| "cmd (NetNotFound _) = ''notfound''"
| "cmd (NetGetBlocks _) = ''getblocks''"
| "cmd (NetGetHeaders _) = ''getheaders''"
| "cmd NetMemPool = ''mempool''"
| "cmd (NetTx _) = ''tx''"
| "cmd (NetBlock _) = ''block''"
| "cmd (NetHeaders _) = ''headers''"
| "cmd NetSendHeaders = ''sendheaders''"
| "cmd NetGetAddr = ''getaddr''"
| "cmd (NetPing _) = ''ping''"
| "cmd (NetPong _) = ''pong''"
| "cmd (NetMerkleBlock _) = ''merkleblock''"
| "cmd (NetFilterLoad _) = ''filterload''"
| "cmd (NetFilterAdd _) = ''filteradd''"
| "cmd NetFilterClear = ''filterclear''"
| "cmd (NetGetCFilters _) = ''getcfilters''"
| "cmd (NetCFilter _) = ''cfilter''"
| "cmd (NetGetCFHeaders _) = ''getcfheaders''"
| "cmd (NetCFHeaders _) = ''cfheaders''"
| "cmd (NetGetCFCheckpt _) = ''getcfcheckpt''"
| "cmd (NetCFCheckpt _) = ''cfcheckpt''"
| "cmd (NetSendCmpct _) = ''sendcmpct''"
| "cmd (NetCmpctBlock _) = ''cmpctblock''"
| "cmd (NetGetBlockTxn _) = ''getblocktxn''"
| "cmd (NetBlockTxn _) = ''blocktxn''"
| "cmd (NetAlert _) = ''alert''"
| "cmd (NetReject _) = ''reject''"
| "cmd (NetFeeFilter _) = ''feefilter''"
| "cmd NetWtxidRelay = ''wtxidrelay''"
| "cmd (NetAddrV2 _) = ''addrv2''"
| "cmd NetSendAddrV2 = ''sendaddrv2''"
| "cmd (NetUnknown _ _) = ''unknown''"

text \<open>The names of the commands are short enough.\<close>

definition command :: "('h, 'b) NetworkMessage \<Rightarrow> CommandString" where
  "command m = (case m of NetUnknown c _ \<Rightarrow> c | _ \<Rightarrow> CommandString (ascii (cmd m)))"

section \<open>Payloads\<close>

definition enc_header_item :: "'h encoder \<Rightarrow> 'h encoder" where "enc_header_item eh h = ecat (eh h) (emit_u8 0)"

definition enc_headers :: "'h encoder \<Rightarrow> 'h list encoder" where
  "enc_headers eh hs = ecat (enc_VarInt (VarInt (word_of_nat (length hs)))) (enc_elems (enc_header_item eh) hs)"

definition dec_header_item :: "'h decoder \<Rightarrow> 'h decoder" where
  "dec_header_item dh =
     dbind (consensus_decode dh) (\<lambda>h. dbind read_u8 (\<lambda>n.
       if n \<noteq> 0 then dfail (ParseFailed ''Headers message should not contain transactions'') else dret h))"

definition dec_headers :: "'h decoder \<Rightarrow> 'h list decoder" where
  "dec_headers dh = dbind dec_VarInt (\<lambda>v. dec_elems (dec_header_item dh) (unat (varint_0 v)))"

fun enc_NetworkMessage :: "bool \<Rightarrow> 'h encoder \<Rightarrow> 'b encoder \<Rightarrow> ('h, 'b) NetworkMessage \<Rightarrow> (bytes \<times> nat) option" where
  "enc_NetworkMessage oc eh eb (NetVersion d) = Some (enc_VersionMessage d)"
| "enc_NetworkMessage oc eh eb (NetAddr d) = Some (enc_vec enc_timed d)"
| "enc_NetworkMessage oc eh eb (NetInv d) = Some (enc_vec enc_Inventory d)"
| "enc_NetworkMessage oc eh eb (NetGetData d) = Some (enc_vec enc_Inventory d)"
| "enc_NetworkMessage oc eh eb (NetNotFound d) = Some (enc_vec enc_Inventory d)"
| "enc_NetworkMessage oc eh eb (NetGetBlocks d) = Some (enc_GetBlocksMessage d)"
| "enc_NetworkMessage oc eh eb (NetGetHeaders d) = Some (enc_GetHeadersMessage d)"
| "enc_NetworkMessage oc eh eb (NetTx d) = Some (enc_Transaction d)"
| "enc_NetworkMessage oc eh eb (NetBlock d) = Some (eb d)"
| "enc_NetworkMessage oc eh eb (NetHeaders d) = Some (enc_headers eh d)"
| "enc_NetworkMessage oc eh eb (NetPing d) = Some (encode_int d)"
| "enc_NetworkMessage oc eh eb (NetPong d) = Some (encode_int d)"
| "enc_NetworkMessage oc eh eb (NetMerkleBlock d) = Some (enc_MerkleBlock d)"
| "enc_NetworkMessage oc eh eb (NetFilterLoad d) = Some (enc_FilterLoad d)"
| "enc_NetworkMessage oc eh eb (NetFilterAdd d) = Some (enc_FilterAdd d)"
| "enc_NetworkMessage oc eh eb (NetGetCFilters d) = Some (enc_GetCFilters d)"
| "enc_NetworkMessage oc eh eb (NetCFilter d) = Some (enc_CFilter d)"
| "enc_NetworkMessage oc eh eb (NetGetCFHeaders d) = Some (enc_GetCFHeaders d)"
| "enc_NetworkMessage oc eh eb (NetCFHeaders d) = Some (enc_CFHeaders d)"
| "enc_NetworkMessage oc eh eb (NetGetCFCheckpt d) = Some (enc_GetCFCheckpt d)"
| "enc_NetworkMessage oc eh eb (NetCFCheckpt d) = Some (enc_CFCheckpt d)"
| "enc_NetworkMessage oc eh eb (NetSendCmpct d) = Some (enc_SendCmpct d)"
| "enc_NetworkMessage oc eh eb (NetCmpctBlock d) = Some (enc_HeaderAndShortIds d)"
| "enc_NetworkMessage oc eh eb (NetGetBlockTxn d) = enc_BlockTransactionsRequest oc d"
| "enc_NetworkMessage oc eh eb (NetBlockTxn d) = Some (enc_BlockTransactions d)"
| "enc_NetworkMessage oc eh eb (NetAlert d) = Some (enc_with_size d)"
| "enc_NetworkMessage oc eh eb (NetReject d) = Some (enc_Reject d)"
| "enc_NetworkMessage oc eh eb (NetFeeFilter d) = Some (encode_int d)"
| "enc_NetworkMessage oc eh eb (NetAddrV2 d) = Some (enc_vec enc_AddrV2Message d)"
| "enc_NetworkMessage oc eh eb (NetUnknown _ d) = Some (enc_with_size d)"
| "enc_NetworkMessage oc eh eb _ = Some enil"

text \<open>Decoding a payload with a decoder: what it leaves of the payload is ignored.\<close>

definition payload_as :: "('a \<Rightarrow> 'm) \<Rightarrow> 'a decoder \<Rightarrow> bytes \<Rightarrow> Error + 'm" where
  "payload_as f d bs = (case d bs of Inl e \<Rightarrow> Inl e | Inr (x, _) \<Rightarrow> Inr (f x))"

definition empty_payload :: "'m \<Rightarrow> bytes \<Rightarrow> Error + 'm" where "empty_payload m bs = Inr m"

text \<open>The match on the command.\<close>

definition payload_decoders ::
  "nat \<Rightarrow> 'h decoder \<Rightarrow> 'b decoder \<Rightarrow> (string \<times> (bytes \<Rightarrow> Error + ('h, 'b) NetworkMessage)) list" where
  "payload_decoders tx_size dh db =
     [(''version'', payload_as NetVersion dec_VersionMessage),
      (''verack'', empty_payload NetVerack),
      (''addr'', payload_as NetAddr (dec_vec dec_timed)),
      (''inv'', payload_as NetInv (dec_vec dec_Inventory)),
      (''getdata'', payload_as NetGetData (dec_vec dec_Inventory)),
      (''notfound'', payload_as NetNotFound (dec_vec dec_Inventory)),
      (''getblocks'', payload_as NetGetBlocks dec_GetBlocksMessage),
      (''getheaders'', payload_as NetGetHeaders dec_GetHeadersMessage),
      (''mempool'', empty_payload NetMemPool),
      (''block'', payload_as NetBlock db),
      (''headers'', payload_as NetHeaders (dec_headers dh)),
      (''sendheaders'', empty_payload NetSendHeaders),
      (''getaddr'', empty_payload NetGetAddr),
      (''ping'', payload_as NetPing decode_int),
      (''pong'', payload_as NetPong decode_int),
      (''merkleblock'', payload_as NetMerkleBlock dec_MerkleBlock),
      (''filterload'', payload_as NetFilterLoad dec_FilterLoad),
      (''filteradd'', payload_as NetFilterAdd dec_FilterAdd),
      (''filterclear'', empty_payload NetFilterClear),
      (''tx'', payload_as NetTx dec_Transaction),
      (''getcfilters'', payload_as NetGetCFilters dec_GetCFilters),
      (''cfilter'', payload_as NetCFilter dec_CFilter),
      (''getcfheaders'', payload_as NetGetCFHeaders dec_GetCFHeaders),
      (''cfheaders'', payload_as NetCFHeaders dec_CFHeaders),
      (''getcfcheckpt'', payload_as NetGetCFCheckpt dec_GetCFCheckpt),
      (''cfcheckpt'', payload_as NetCFCheckpt dec_CFCheckpt),
      (''reject'', payload_as NetReject dec_Reject),
      (''alert'', payload_as NetAlert dec_bytes),
      (''feefilter'', payload_as NetFeeFilter decode_int),
      (''sendcmpct'', payload_as NetSendCmpct dec_SendCmpct),
      (''cmpctblock'', payload_as NetCmpctBlock dec_HeaderAndShortIds),
      (''getblocktxn'', payload_as NetGetBlockTxn (dec_BlockTransactionsRequest tx_size)),
      (''blocktxn'', payload_as NetBlockTxn dec_BlockTransactions),
      (''wtxidrelay'', empty_payload NetWtxidRelay),
      (''addrv2'', payload_as NetAddrV2 (dec_vec dec_AddrV2Message)),
      (''sendaddrv2'', empty_payload NetSendAddrV2)]"

definition decode_payload :: "nat \<Rightarrow> 'h decoder \<Rightarrow> 'b decoder \<Rightarrow> CommandString \<Rightarrow> bytes \<Rightarrow> Error + ('h, 'b) NetworkMessage" where
  "decode_payload tx_size dh db c raw =
     (case map_of (map (\<lambda>(s, d). (ascii s, d)) (payload_decoders tx_size dh db)) (command_0 c) of
        Some d \<Rightarrow> d raw
      | None \<Rightarrow> Inr (NetUnknown c raw))"

section \<open>Frames\<close>

record ('h, 'b) RawNetworkMessage =
  raw_magic :: Magic
  raw_payload :: "('h, 'b) NetworkMessage"
  raw_len :: u32
  raw_checksum :: bytes

definition raw_new :: "bool \<Rightarrow> 'h encoder \<Rightarrow> 'b encoder \<Rightarrow> Magic \<Rightarrow> ('h, 'b) NetworkMessage \<Rightarrow> ('h, 'b) RawNetworkMessage option" where
  "raw_new oc eh eb mg payload =
     (case enc_NetworkMessage oc eh eb payload of
        None \<Rightarrow> None
      | Some e \<Rightarrow>
          if snd e < 2 ^ 32
          then (let checksum = sha256d_from_engine (engine_write e engine_default)
                in Some \<lparr> raw_magic = mg, raw_payload = payload, raw_len = word_of_nat (snd e),
                          raw_checksum = [checksum ! 0, checksum ! 1, checksum ! 2, checksum ! 3] \<rparr>)
          else None)"

definition enc_RawNetworkMessage :: "bool \<Rightarrow> 'h encoder \<Rightarrow> 'b encoder \<Rightarrow> ('h, 'b) RawNetworkMessage \<Rightarrow> (bytes \<times> nat) option" where
  "enc_RawNetworkMessage oc eh eb m =
     (case enc_CommandString (command (raw_payload m)) of
        None \<Rightarrow> None
      | Some c \<Rightarrow>
          (case enc_NetworkMessage oc eh eb (raw_payload m) of
             None \<Rightarrow> None
           | Some p \<Rightarrow> Some (ecat (enc_Magic (raw_magic m)) (ecat c (ecat (encode_int (raw_len m)) (ecat (enc_array (raw_checksum m)) p))))))"

definition dec_RawNetworkMessage :: "nat \<Rightarrow> 'h decoder \<Rightarrow> 'b decoder \<Rightarrow> ('h, 'b) RawNetworkMessage decoder" where
  "dec_RawNetworkMessage tx_size dh db =
     dbind dec_Magic (\<lambda>mg. dbind dec_CommandString (\<lambda>c. dbind dec_CheckedData (\<lambda>checked.
       let raw = cd_data checked
       in case decode_payload tx_size dh db c raw of
            Inl e \<Rightarrow> dfail e
          | Inr payload \<Rightarrow> dret \<lparr> raw_magic = mg, raw_payload = payload, raw_len = word_of_nat (length raw),
                                  raw_checksum = cd_checksum checked \<rparr>)))"

definition dec_RawNetworkMessage_stream :: "nat \<Rightarrow> 'h decoder \<Rightarrow> 'b decoder \<Rightarrow> ('h, 'b) RawNetworkMessage decoder" where
  "dec_RawNetworkMessage_stream tx_size dh db = with_take MAX_MSG_SIZE (dec_RawNetworkMessage tx_size dh db)"

section \<open>Commands\<close>

lemma ascii_inj [simp]: "ascii s = ascii t \<longleftrightarrow> s = t"
proof
  have "inj (of_char :: char \<Rightarrow> u8)"
  proof (rule injI)
    fix c d :: char
    assume "(of_char c :: u8) = of_char d"
    then have "unat (word_of_nat (of_char c) :: u8) = unat (word_of_nat (of_char d) :: u8)" by (simp only: of_nat_of_char)
    then have "(of_char c :: nat) = of_char d" by (simp add: unat_of_nat_u8)
    then show "c = d" by (simp only: of_char_eq_iff)
  qed
  then show "ascii s = ascii t \<Longrightarrow> s = t" by (simp add: ascii_def inj_map_eq_map)
qed simp

lemma map_of_ascii: "map_of (map (\<lambda>(s, d). (ascii s, d)) xs) (ascii k) = map_of xs k"
  by (induction xs) auto

lemma cmd_ok: "list_all (\<lambda>u. 0 < u \<and> u < 0x80) (ascii (cmd m)) \<and> length (ascii (cmd m)) \<le> 12"
  by (cases m) (simp_all add: ascii_def)

section \<open>Any kind of header and block\<close>

text \<open>Well-formed messages. The unknown ones are not: they are not read as they are written.\<close>

definition header_item_ok :: "'h encoder \<Rightarrow> ('h \<Rightarrow> bool) \<Rightarrow> 'h \<Rightarrow> bool" where
  "header_item_ok eh okh h \<longleftrightarrow> okh h \<and> length (fst (eh h)) \<le> MAX_VEC_SIZE"

fun payload_ok :: "('h \<Rightarrow> bool) \<Rightarrow> ('b \<Rightarrow> bool) \<Rightarrow> nat \<Rightarrow> ('h, 'b) NetworkMessage \<Rightarrow> bool" where
  "payload_ok hok okb tx_size (NetVersion d) = version_ok d"
| "payload_ok hok okb tx_size (NetAddr d) = vec_ok (\<lambda>p. length (na_address (snd p)) = 8) d"
| "payload_ok hok okb tx_size (NetInv d) = vec_ok inv_ok d"
| "payload_ok hok okb tx_size (NetGetData d) = vec_ok inv_ok d"
| "payload_ok hok okb tx_size (NetNotFound d) = vec_ok inv_ok d"
| "payload_ok hok okb tx_size (NetGetBlocks d) = (vec_ok hash_ok (locator_hashes d) \<and> hash_ok (gb_stop_hash d))"
| "payload_ok hok okb tx_size (NetGetHeaders d) = (vec_ok hash_ok (gh_locator_hashes d) \<and> hash_ok (gh_stop_hash d))"
| "payload_ok hok okb tx_size (NetTx d) = tx_ok d"
| "payload_ok hok okb tx_size (NetBlock d) = okb d"
| "payload_ok hok okb tx_size (NetHeaders d) = vec_ok hok d"
| "payload_ok hok okb tx_size (NetMerkleBlock d) = merkle_block_ok d"
| "payload_ok hok okb tx_size (NetFilterLoad d) = bytes_ok (fl_filter d)"
| "payload_ok hok okb tx_size (NetFilterAdd d) = bytes_ok (fa_data d)"
| "payload_ok hok okb tx_size (NetGetCFilters d) = hash_ok (gcf_stop d)"
| "payload_ok hok okb tx_size (NetCFilter d) = (hash_ok (cf_hash d) \<and> bytes_ok (cf_filter d))"
| "payload_ok hok okb tx_size (NetGetCFHeaders d) = hash_ok (gch_stop d)"
| "payload_ok hok okb tx_size (NetCFHeaders d) = (hash_ok (cfh_stop d) \<and> hash_ok (previous_filter_header d) \<and> vec_ok hash_ok (filter_hashes d))"
| "payload_ok hok okb tx_size (NetGetCFCheckpt d) = hash_ok (gcc_stop d)"
| "payload_ok hok okb tx_size (NetCFCheckpt d) = (hash_ok (cfc_stop d) \<and> vec_ok hash_ok (filter_headers d))"
| "payload_ok hok okb tx_size (NetCmpctBlock d) = compact_ok d"
| "payload_ok hok okb tx_size (NetGetBlockTxn d) = request_ok tx_size d"
| "payload_ok hok okb tx_size (NetBlockTxn d) = blocktxs_ok d"
| "payload_ok hok okb tx_size (NetAlert d) = bytes_ok d"
| "payload_ok hok okb tx_size (NetReject d) = (str_ok (rej_message d) \<and> str_ok (rej_reason d) \<and> hash_ok (rej_hash d))"
| "payload_ok hok okb tx_size (NetAddrV2 d) = vec_ok (\<lambda>m. addrv2_ok (am_addr m)) d"
| "payload_ok hok okb tx_size (NetUnknown c d) = False"
| "payload_ok hok okb tx_size _ = True"

text \<open>Nothing is asked of headers and blocks but that they have codecs.\<close>

locale wire = hdr: codec eh dh okh + blk: codec eb db okb
  for eh :: "'h encoder" and dh okh and eb :: "'b encoder" and db okb +
  fixes tx_size :: nat
begin

abbreviation hok :: "'h \<Rightarrow> bool" where "hok \<equiv> header_item_ok eh okh"

lemma header_item: "roundtrip (enc_header_item eh) (dec_header_item dh) hok"
proof
  have l: "codec eh (consensus_decode dh) hok"
    unfolding consensus_decode_def header_item_ok_def [abs_def] by (rule hdr.limited)
  show "snd (enc_header_item eh h) = length (fst (enc_header_item eh h))" for h by (simp add: enc_header_item_def hdr.enc_len part_len)
  show "dec_header_item dh (fst (enc_header_item eh h) @ rest) = Inr (h, rest)" if "hok h" for h rest
    using roundtrip.dec_enc [OF codec.axioms(1) [OF l] that]
    by (simp add: enc_header_item_def dec_header_item_def dbind_def part_rt dret_def)
qed

lemma headers_eq: "enc_headers eh = enc_vec (enc_header_item eh)" "dec_headers dh = dec_vec (dec_header_item dh)"
  by (simp_all add: enc_headers_def [abs_def] enc_vec_def [abs_def] dec_headers_def dec_vec_def)

lemma headers_rt: "vec_ok hok hs \<Longrightarrow> dec_headers dh (fst (enc_headers eh hs) @ rest) = Inr (hs, rest)"
  "snd (enc_headers eh hs) = length (fst (enc_headers eh hs))"
  using roundtrip.dec_enc [OF vec_roundtrip [OF header_item]] roundtrip.enc_len [OF vec_roundtrip [OF header_item]] by (simp_all add: headers_eq)

text \<open>A payload of its own: it has a decoder under its command that gives it back.\<close>

definition own_payload :: "bool \<Rightarrow> ('h, 'b) NetworkMessage \<Rightarrow> bool" where
  "own_payload oc m \<longleftrightarrow> (case enc_NetworkMessage oc eh eb m of
     None \<Rightarrow> False
   | Some e \<Rightarrow> snd e = length (fst e) \<and> map_option (\<lambda>d. d (fst e)) (map_of (payload_decoders tx_size dh db) (cmd m)) = Some (Inr m))"

lemmas payload_len = part_len headers_rt(2) version_roundtrip.enc_len timeds_codec.enc_len inventories_roundtrip.enc_len getblocks_codec.enc_len
  getheaders_codec.enc_len tx_codec.enc_len blk.enc_len merkle_block_codec.enc_len filterload_codec.enc_len filteradd_codec.enc_len
  getcfilters_codec.enc_len cfilter_codec.enc_len getcfheaders_codec.enc_len cfheaders_codec.enc_len getcfcheckpt_codec.enc_len
  cfcheckpt_codec.enc_len sendcmpct_roundtrip.enc_len compact_block_codec.enc_len roundtrip.enc_len [OF codec.axioms(1) [OF request_codec]]
  blocktxs_codec.enc_len reject_codec.enc_len addrv2msgs_codec.enc_len
lemmas payload_rt = part_rt headers_rt(1) version_roundtrip.dec_enc timeds_codec.dec_enc inventories_roundtrip.dec_enc getblocks_codec.dec_enc
  getheaders_codec.dec_enc tx_codec.dec_enc blk.dec_enc merkle_block_codec.dec_enc filterload_codec.dec_enc filteradd_codec.dec_enc
  getcfilters_codec.dec_enc cfilter_codec.dec_enc getcfheaders_codec.dec_enc cfheaders_codec.dec_enc getcfcheckpt_codec.dec_enc
  cfcheckpt_codec.dec_enc sendcmpct_roundtrip.dec_enc compact_block_codec.dec_enc roundtrip.dec_enc [OF codec.axioms(1) [OF request_codec]]
  blocktxs_codec.dec_enc reject_codec.dec_enc addrv2msgs_codec.dec_enc
lemmas payload_back = payload_rt [where rest = "[]", unfolded append_Nil2]

lemma request_enc: "request_ok tx_size d \<Longrightarrow> enc_BlockTransactionsRequest oc d = Some (enc_BlockTransactionsRequest_wrapping d)"
  by (simp add: enc_BlockTransactionsRequest_def request_ok_def)

lemma payload_own: "payload_ok hok okb tx_size m \<Longrightarrow> own_payload oc m"
  unfolding own_payload_def payload_decoders_def
  by (cases m) (simp_all add: payload_as_def empty_payload_def payload_len payload_back request_enc)

lemma own_payload_decode: "own_payload oc m \<Longrightarrow> \<exists>e. enc_NetworkMessage oc eh eb m = Some e \<and> snd e = length (fst e) \<and>
    decode_payload tx_size dh db (CommandString (ascii (cmd m))) (fst e) = Inr m"
  by (auto simp: own_payload_def decode_payload_def map_of_ascii split: option.splits)

lemma trailing_ignored:
  assumes "payload_ok hok okb tx_size m" "enc_NetworkMessage oc eh eb m = Some e"
  shows "decode_payload tx_size dh db (CommandString (ascii (cmd m))) (fst e @ junk) = Inr m"
  using assms unfolding decode_payload_def map_of_ascii CommandString.sel payload_decoders_def
  by (cases m) (auto simp: payload_as_def empty_payload_def payload_rt request_enc)

end

section \<open>The frame\<close>

lemma command_known: "\<forall>c d. m \<noteq> NetUnknown c d \<Longrightarrow> command m = CommandString (ascii (cmd m))"
  by (cases m) (auto simp: command_def)

lemma dec_command_Inr_iff:
  "dec_CommandString bs = Inr (c, rest) \<longleftrightarrow>
     (\<exists>raw. length raw = 12 \<and> bs = raw @ rest \<and> c = CommandString (concat (map char_utf8 (filter (\<lambda>u. u > 0) raw))))"
  by (auto simp: dec_CommandString_def dbind_Inr_iff dec_array_def read_slice_Inr_iff)

lemma frame_iff:
  "dec_RawNetworkMessage tx_size dh db bs = Inr (r, rest) \<longleftrightarrow>
     (\<exists>raw p. length (magic_0 (raw_magic r)) = 4 \<and> length raw = 12 \<and> length p < 2 ^ 32 \<and>
        bs = magic_0 (raw_magic r) @ raw @ to_le_bytes (word_of_nat (length p) :: u32) @ sha2_checksum p @ p @ rest \<and>
        raw_len r = word_of_nat (length p) \<and> raw_checksum r = sha2_checksum p \<and>
        decode_payload tx_size dh db (CommandString (concat (map char_utf8 (filter (\<lambda>u. u > 0) raw)))) p = Inr (raw_payload r))"
  (is "?l \<longleftrightarrow> ?r")
proof
  assume ?l
  then obtain mg b1 c b2 cd b3 where 1: "dec_Magic bs = Inr (mg, b1)" "dec_CommandString b1 = Inr (c, b2)" "dec_CheckedData b2 = Inr (cd, b3)"
    "(case decode_payload tx_size dh db c (cd_data cd) of Inl e \<Rightarrow> dfail e | Inr payload \<Rightarrow> dret \<lparr> raw_magic = mg, raw_payload = payload,
        raw_len = word_of_nat (length (cd_data cd)), raw_checksum = cd_checksum cd \<rparr>) b3 = Inr (r, rest)"
    unfolding dec_RawNetworkMessage_def dbind_Inr_iff Let_def by blast
  then obtain d: "dec_Magic bs = Inr (mg, b1)" "dec_CommandString b1 = Inr (c, b2)" "dec_CheckedData b2 = Inr (cd, rest)"
    "decode_payload tx_size dh db c (cd_data cd) = Inr (raw_payload r)"
    "r = \<lparr> raw_magic = mg, raw_payload = raw_payload r, raw_len = word_of_nat (length (cd_data cd)), raw_checksum = cd_checksum cd \<rparr>"
    by (cases "decode_payload tx_size dh db c (cd_data cd)") auto
  have sel: "raw_magic r = mg" "raw_len r = word_of_nat (length (cd_data cd))" "raw_checksum r = cd_checksum cd" by (subst d(5), simp)+
  obtain raw where raw: "length raw = 12" "b1 = raw @ b2" "c = CommandString (concat (map char_utf8 (filter (\<lambda>u. u > 0) raw)))"
    using d(2) unfolding dec_command_Inr_iff by blast
  have mg: "length (magic_0 mg) = 4" "bs = magic_0 mg @ b1" using magic_codec.canonical [OF d(1)] by (simp_all add: enc_Magic_def enc_array_def emit_slice_def)
  have cd: "cd_checksum cd = sha2_checksum (cd_data cd)" "length (cd_data cd) < 2 ^ 32"
    "b2 = to_le_bytes (word_of_nat (length (cd_data cd)) :: u32) @ sha2_checksum (cd_data cd) @ cd_data cd @ rest"
    using d(3) unfolding dec_CheckedData_iff by (auto simp: enc_CheckedData_def encode_int_def enc_array_def emit_slice_def split: if_splits)
  show ?r using mg raw cd sel d(4) by (intro exI [of _ raw] exI [of _ "cd_data cd"]) simp
next
  assume ?r
  then obtain raw p where r: "length (magic_0 (raw_magic r)) = 4" "length raw = 12" "length p < 2 ^ 32"
    "bs = magic_0 (raw_magic r) @ raw @ to_le_bytes (word_of_nat (length p) :: u32) @ sha2_checksum p @ p @ rest"
    "raw_len r = word_of_nat (length p)" "raw_checksum r = sha2_checksum p"
    "decode_payload tx_size dh db (CommandString (concat (map char_utf8 (filter (\<lambda>u. u > 0) raw)))) p = Inr (raw_payload r)" by blast
  let ?c = "CommandString (concat (map char_utf8 (filter (\<lambda>u. u > 0) raw)))" and ?b2 = "to_le_bytes (word_of_nat (length p) :: u32) @ sha2_checksum p @ p @ rest"
  have "dec_Magic bs = Inr (raw_magic r, raw @ ?b2)"
    using magic_codec.dec_enc [of "raw_magic r" "raw @ ?b2"] r(1,4) by (simp add: enc_Magic_def enc_array_def emit_slice_def)
  moreover have "dec_CommandString (raw @ ?b2) = Inr (?c, ?b2)" using r(2) unfolding dec_command_Inr_iff by blast
  moreover have "dec_CheckedData ?b2 = Inr (CheckedData_new p, rest)"
    unfolding dec_CheckedData_iff using r(3) by (simp add: CheckedData_new_def enc_CheckedData_def encode_int_def enc_array_def emit_slice_def)
  moreover have "r = \<lparr> raw_magic = raw_magic r, raw_payload = raw_payload r, raw_len = word_of_nat (length p), raw_checksum = sha2_checksum p \<rparr>"
    using r(5,6) by simp
  ultimately show ?l using r(7)
    by (simp add: dec_RawNetworkMessage_def dbind_def CheckedData_new_def dret_def Let_def)
qed

lemma raw_new_eq:
  assumes "enc_NetworkMessage oc eh eb m = Some e" "snd e = length (fst e)" "length (fst e) < 2 ^ 32"
  shows "raw_new oc eh eb mg m = Some \<lparr> raw_magic = mg, raw_payload = m, raw_len = word_of_nat (length (fst e)), raw_checksum = sha2_checksum (fst e) \<rparr>"
  using assms by (simp add: raw_new_def sha2_checksum_def sha256d_hash_def engine_write_def Let_def)

lemma frame_roundtrip:
  assumes "list_all (\<lambda>u. 0 < u \<and> u < 0x80) us" "length us \<le> 12" "command m = CommandString us"
    and "enc_NetworkMessage oc eh eb m = Some e" "snd e = length (fst e)" "length (fst e) < 2 ^ 32" "length (magic_0 mg) = 4"
    and "decode_payload tx_size dh db (CommandString us) (fst e) = Inr m'"
  shows "\<exists>r bs. raw_new oc eh eb mg m = Some r \<and> raw_payload r = m \<and> enc_RawNetworkMessage oc eh eb r = Some (bs, length bs) \<and>
    (\<forall>rest. dec_RawNetworkMessage tx_size dh db (bs @ rest) = Inr (r\<lparr> raw_payload := m' \<rparr>, rest))"
proof -
  let ?r = "\<lparr> raw_magic = mg, raw_payload = m, raw_len = word_of_nat (length (fst e)), raw_checksum = sha2_checksum (fst e) \<rparr>"
  let ?raw = "us @ replicate (12 - length us) 0"
  let ?bs = "magic_0 mg @ ?raw @ to_le_bytes (word_of_nat (length (fst e)) :: u32) @ sha2_checksum (fst e) @ fst e"
  have "enc_RawNetworkMessage oc eh eb ?r = Some (?bs, length ?bs)"
    using command_ascii(1) [OF assms(1,2)] assms(2-5,7)
    by (simp add: enc_RawNetworkMessage_def ecat_def enc_Magic_def enc_array_def emit_slice_def encode_int_def)
  moreover have "concat (map char_utf8 (filter (\<lambda>u. u > 0) ?raw)) = us" by (rule chars_ascii [OF assms(1)])
  then have "dec_RawNetworkMessage tx_size dh db (?bs @ rest) = Inr (?r\<lparr> raw_payload := m' \<rparr>, rest)" for rest
    unfolding frame_iff using assms(2,6-8) by (intro exI [of _ ?raw] exI [of _ "fst e"]) simp
  ultimately show ?thesis using raw_new_eq [OF assms(4-6)] by (intro exI [of _ ?r] exI [of _ ?bs]) simp
qed

text \<open>\<open>consensus_decode\<close> of a frame reads at most \<open>MAX_MSG_SIZE\<close> bytes of the stream: a frame that fits is decoded as without
  the limit, a longer one is refused.\<close>

lemma frame_length:
  assumes "dec_RawNetworkMessage tx_size dh db bs = Inr (r, rest)"
  shows "length bs = 24 + unat (raw_len r) + length rest" and "24 \<le> length bs" and "from_le_bytes (take 4 (drop 16 bs)) = raw_len r"
proof -
  obtain raw p where p: "length (magic_0 (raw_magic r)) = 4" "length raw = 12" "length p < 2 ^ 32"
    "bs = magic_0 (raw_magic r) @ raw @ to_le_bytes (word_of_nat (length p) :: u32) @ sha2_checksum p @ p @ rest"
    "raw_len r = word_of_nat (length p)"
    using assms unfolding frame_iff by blast
  have "length (sha2_checksum p) = 4" by (simp add: sha2_checksum_def Let_def)
  moreover have "unat (raw_len r) = length p" using p(3,5) by (simp add: unat_of_nat)
  ultimately show "length bs = 24 + unat (raw_len r) + length rest" "24 \<le> length bs"
    "from_le_bytes (take 4 (drop 16 bs)) = raw_len r"
    using p by simp_all
qed

lemma stream_limit:
  assumes "\<And>rest. dec_RawNetworkMessage tx_size dh db (bs @ rest) = Inr (r, rest)"
  shows "if length bs \<le> MAX_MSG_SIZE then dec_RawNetworkMessage_stream tx_size dh db (bs @ rest) = Inr (r, rest)
    else isl (dec_RawNetworkMessage_stream tx_size dh db (bs @ rest))"
proof (cases "length bs \<le> MAX_MSG_SIZE")
  case True
  then show ?thesis using assms by (simp add: dec_RawNetworkMessage_stream_def with_take_def)
next
  case False
  define t where "t = take MAX_MSG_SIZE (bs @ rest)"
  have "isl (dec_RawNetworkMessage tx_size dh db t)"
  proof (cases "dec_RawNetworkMessage tx_size dh db t")
    case (Inr x)
    obtain r' rest' where x: "x = (r', rest')" by fastforce
    note f = frame_length [OF Inr [unfolded x]] and g = frame_length [OF assms [of "[]", simplified]]
    have "length t = MAX_MSG_SIZE" using False by (simp add: t_def)
    moreover have "take 4 (drop 16 t) = take 4 (drop 16 bs)" using False
      by (simp add: t_def take_drop MAX_MSG_SIZE_def)
    ultimately show ?thesis using f g False by simp
  qed simp
  then obtain e where "dec_RawNetworkMessage tx_size dh db t = Inl e" by (auto simp: isl_def)
  then show ?thesis using False by (simp add: dec_RawNetworkMessage_stream_def with_take_def t_def)
qed
context wire begin

lemma message_rt:
  assumes "payload_ok hok okb tx_size m" "enc_NetworkMessage oc eh eb m = Some e" "length (fst e) < 2 ^ 32" "length (magic_0 mg) = 4"
  shows "\<exists>r bs. raw_new oc eh eb mg m = Some r \<and> raw_payload r = m \<and> enc_RawNetworkMessage oc eh eb r = Some (bs, length bs) \<and>
    (\<forall>rest. dec_RawNetworkMessage tx_size dh db (bs @ rest) = Inr (r, rest) \<and>
      (if length bs \<le> MAX_MSG_SIZE then dec_RawNetworkMessage_stream tx_size dh db (bs @ rest) = Inr (r, rest)
       else isl (dec_RawNetworkMessage_stream tx_size dh db (bs @ rest))))"
proof -
  have c: "command m = CommandString (ascii (cmd m))" using assms(1) by (intro command_known) auto
  have e: "snd e = length (fst e)" "decode_payload tx_size dh db (CommandString (ascii (cmd m))) (fst e) = Inr m"
    using own_payload_decode [OF payload_own [OF assms(1), of oc]] assms(2) by auto
  have "\<exists>r bs. raw_new oc eh eb mg m = Some r \<and> raw_payload r = m \<and> enc_RawNetworkMessage oc eh eb r = Some (bs, length bs) \<and>
    (\<forall>rest. dec_RawNetworkMessage tx_size dh db (bs @ rest) = Inr (r, rest))"
    using frame_roundtrip [OF _ _ c assms(2) e(1) assms(3,4) e(2)] cmd_ok [of m] by fastforce
  then obtain r bs where r: "raw_new oc eh eb mg m = Some r" "raw_payload r = m" "enc_RawNetworkMessage oc eh eb r = Some (bs, length bs)"
    and d: "\<And>rest. dec_RawNetworkMessage tx_size dh db (bs @ rest) = Inr (r, rest)" by blast
  show ?thesis by (rule exI [of _ r], rule exI [of _ bs]) (intro conjI allI r d stream_limit)
qed

end

section \<open>Dogecoin and Bitcoin messages\<close>

interpretation doge_wire: wire enc_DogeHeader dec_DogeHeader doge_header_ok enc_DogeBlock dec_DogeBlock doge_block_ok tx_size for tx_size
  by (intro wire.intro doge_header_codec.codec_axioms doge_block_codec.codec_axioms)

interpretation btc_wire: wire enc_Header dec_Header header_ok enc_Block dec_Block block_ok tx_size for tx_size
  by (intro wire.intro header_codec.codec_axioms block_codec.codec_axioms)

abbreviation doge_payload_ok :: "nat \<Rightarrow> (DogeHeader, DogeBlock) NetworkMessage \<Rightarrow> bool" where
  "doge_payload_ok \<equiv> payload_ok (header_item_ok enc_DogeHeader doge_header_ok) doge_block_ok"

abbreviation btc_payload_ok :: "nat \<Rightarrow> (Header, Block) NetworkMessage \<Rightarrow> bool" where
  "btc_payload_ok \<equiv> payload_ok (header_item_ok enc_Header header_ok) block_ok"

text \<open>(C16) Dogecoin messages of all the 36 known commands go through the wire: a well-formed message whose payload is shorter than
  \<open>2 ^ 32\<close> bytes is framed, encoded without a panic in builds with and without overflow checks, and the frame is decoded to the same
  message from any bytes that begin with it; read from a stream, a frame of up to 5000000 bytes is decoded in the same way and a
  longer one is refused.\<close>

theorem doge_message_roundtrip:
  assumes "doge_payload_ok tx_size m" "enc_NetworkMessage oc enc_DogeHeader enc_DogeBlock m = Some e" "length (fst e) < 2 ^ 32"
    "length (magic_0 mg) = 4"
  shows "\<exists>r bs. raw_new oc enc_DogeHeader enc_DogeBlock mg m = Some r \<and> raw_payload r = m \<and>
    enc_RawNetworkMessage oc enc_DogeHeader enc_DogeBlock r = Some (bs, length bs) \<and>
    (\<forall>rest. dec_RawNetworkMessage tx_size dec_DogeHeader dec_DogeBlock (bs @ rest) = Inr (r, rest) \<and>
      (if length bs \<le> MAX_MSG_SIZE then dec_RawNetworkMessage_stream tx_size dec_DogeHeader dec_DogeBlock (bs @ rest) = Inr (r, rest)
       else isl (dec_RawNetworkMessage_stream tx_size dec_DogeHeader dec_DogeBlock (bs @ rest))))"
  by (rule doge_wire.message_rt) (rule assms)+

theorem doge_message_roundtrip_witness:
  "\<exists>r bs. raw_new True enc_DogeHeader enc_DogeBlock (Magic (magic Dogecoin)) (NetPing 7) = Some r \<and> raw_payload r = NetPing 7 \<and>
    enc_RawNetworkMessage True enc_DogeHeader enc_DogeBlock r = Some (bs, length bs) \<and>
    (\<forall>rest. dec_RawNetworkMessage 64 dec_DogeHeader dec_DogeBlock (bs @ rest) = Inr (r, rest) \<and>
      (if length bs \<le> MAX_MSG_SIZE then dec_RawNetworkMessage_stream 64 dec_DogeHeader dec_DogeBlock (bs @ rest) = Inr (r, rest)
       else isl (dec_RawNetworkMessage_stream 64 dec_DogeHeader dec_DogeBlock (bs @ rest))))"
  by (rule doge_message_roundtrip [where e = "encode_int (7 :: u64)"]) (simp_all add: encode_int_def magic_def)

text \<open>The same for Bitcoin messages.\<close>

theorem btc_message_roundtrip:
  assumes "btc_payload_ok tx_size m" "enc_NetworkMessage oc enc_Header enc_Block m = Some e" "length (fst e) < 2 ^ 32" "length (magic_0 mg) = 4"
  shows "\<exists>r bs. raw_new oc enc_Header enc_Block mg m = Some r \<and> raw_payload r = m \<and>
    enc_RawNetworkMessage oc enc_Header enc_Block r = Some (bs, length bs) \<and>
    (\<forall>rest. dec_RawNetworkMessage tx_size dec_Header dec_Block (bs @ rest) = Inr (r, rest) \<and>
      (if length bs \<le> MAX_MSG_SIZE then dec_RawNetworkMessage_stream tx_size dec_Header dec_Block (bs @ rest) = Inr (r, rest)
       else isl (dec_RawNetworkMessage_stream tx_size dec_Header dec_Block (bs @ rest))))"
  by (rule btc_wire.message_rt) (rule assms)+

theorem btc_message_roundtrip_witness:
  "\<exists>r bs. raw_new True enc_Header enc_Block MAGIC_BITCOIN NetVerack = Some r \<and> raw_payload r = NetVerack \<and>
    enc_RawNetworkMessage True enc_Header enc_Block r = Some (bs, length bs) \<and>
    (\<forall>rest. dec_RawNetworkMessage 64 dec_Header dec_Block (bs @ rest) = Inr (r, rest) \<and>
      (if length bs \<le> MAX_MSG_SIZE then dec_RawNetworkMessage_stream 64 dec_Header dec_Block (bs @ rest) = Inr (r, rest)
       else isl (dec_RawNetworkMessage_stream 64 dec_Header dec_Block (bs @ rest))))"
  by (rule btc_message_roundtrip [where e = enil]) (simp_all add: MAGIC_BITCOIN_def)

text \<open>(C23) What a decoder of frames accepts: exactly the magic, twelve bytes of command, the length and the checksum of the payload, and a
  payload that decodes under the command; no frame with a wrong length or checksum is accepted.\<close>

theorem message_frame_exact:
  "dec_RawNetworkMessage tx_size dh db bs = Inr (r, rest) \<longleftrightarrow>
     (\<exists>raw p. length (magic_0 (raw_magic r)) = 4 \<and> length raw = 12 \<and> length p < 2 ^ 32 \<and>
        bs = magic_0 (raw_magic r) @ raw @ to_le_bytes (word_of_nat (length p) :: u32) @ sha2_checksum p @ p @ rest \<and>
        raw_len r = word_of_nat (length p) \<and> raw_checksum r = sha2_checksum p \<and>
        decode_payload tx_size dh db (CommandString (concat (map char_utf8 (filter (\<lambda>u. u > 0) raw)))) p = Inr (raw_payload r))"
  by (rule frame_iff)

text \<open>Bytes after the payload proper are ignored: a frame of a well-formed message followed, inside the frame, by arbitrary bytes is
  decoded to that message, whose own encoding has another length and checksum.\<close>

theorem message_trailing_ignored:
  assumes "doge_payload_ok tx_size m" "enc_NetworkMessage oc enc_DogeHeader enc_DogeBlock m = Some e" "length (fst e @ junk) < 2 ^ 32" "length mg = 4"
  shows "dec_RawNetworkMessage tx_size dec_DogeHeader dec_DogeBlock
      (mg @ (ascii (cmd m) @ replicate (12 - length (ascii (cmd m))) 0) @ to_le_bytes (word_of_nat (length (fst e @ junk)) :: u32) @
       sha2_checksum (fst e @ junk) @ (fst e @ junk) @ rest) =
    Inr (\<lparr> raw_magic = Magic mg, raw_payload = m, raw_len = word_of_nat (length (fst e @ junk)), raw_checksum = sha2_checksum (fst e @ junk) \<rparr>, rest)"
proof -
  have "decode_payload tx_size dec_DogeHeader dec_DogeBlock (CommandString (ascii (cmd m))) (fst e @ junk) = Inr m"
    by (rule doge_wire.trailing_ignored [OF assms(1,2)])
  moreover have "concat (map char_utf8 (filter (\<lambda>u. u > 0) (ascii (cmd m) @ replicate (12 - length (ascii (cmd m))) 0))) = ascii (cmd m)"
    using cmd_ok [of m] by (intro chars_ascii) simp
  ultimately show ?thesis unfolding frame_iff using assms(3,4) cmd_ok [of m]
    by (intro exI [of _ "ascii (cmd m) @ replicate (12 - length (ascii (cmd m))) 0"] exI [of _ "fst e @ junk"]) simp
qed

theorem message_trailing_ignored_witness:
  "dec_RawNetworkMessage 64 dec_DogeHeader dec_DogeBlock
      ([0xC0, 0xC0, 0xC0, 0xC0] @ (ascii (cmd (NetVerack :: (DogeHeader, DogeBlock) NetworkMessage)) @
         replicate (12 - length (ascii (cmd (NetVerack :: (DogeHeader, DogeBlock) NetworkMessage)))) 0) @
       to_le_bytes (word_of_nat (length (fst enil @ [1, 2, 3 :: u8])) :: u32) @ sha2_checksum (fst enil @ [1, 2, 3]) @ (fst enil @ [1, 2, 3]) @ []) =
    Inr (\<lparr> raw_magic = Magic [0xC0, 0xC0, 0xC0, 0xC0], raw_payload = NetVerack, raw_len = word_of_nat (length (fst enil @ [1, 2, 3 :: u8])),
           raw_checksum = sha2_checksum (fst enil @ [1, 2, 3]) \<rparr>, [])"
  by (rule message_trailing_ignored [where oc = True]) simp_all

text \<open>Unknown messages are not read as they are written: the payload is written with a length in front of it, which the reader takes for
  a part of it, so that it grows each time the message is passed on.\<close>

theorem unknown_message_grows:
  assumes "list_all (\<lambda>u. 0 < u \<and> u < 0x80) us" "length us \<le> 12" "us \<notin> set (map (\<lambda>(s, d). ascii s) (payload_decoders tx_size dh db))"
    and "length (fst (enc_with_size d)) < 2 ^ 32" "length (magic_0 mg) = 4"
  shows "\<exists>r bs. raw_new oc eh eb mg (NetUnknown (CommandString us) d) = Some r \<and> enc_RawNetworkMessage oc eh eb r = Some (bs, length bs) \<and>
    (\<forall>rest. dec_RawNetworkMessage tx_size dh db (bs @ rest) = Inr (r\<lparr> raw_payload := NetUnknown (CommandString us) (fst (enc_with_size d)) \<rparr>, rest))"
proof -
  have "map_of (map (\<lambda>(s, d). (ascii s, d)) (payload_decoders tx_size dh db)) us = None"
    using assms(3) by (auto simp: map_of_eq_None_iff image_iff)
  then have "decode_payload tx_size dh db (CommandString us) (fst (enc_with_size d)) = Inr (NetUnknown (CommandString us) (fst (enc_with_size d)))"
    by (simp add: decode_payload_def)
  from frame_roundtrip [OF assms(1,2) _ _ _ assms(4,5) this, of "NetUnknown (CommandString us) d" oc eh eb] show ?thesis
    by (simp add: command_def bytes_codec.enc_len) blast
qed

theorem unknown_message_grows_witness:
  "\<exists>r bs. raw_new True enc_DogeHeader enc_DogeBlock MAGIC_BITCOIN (NetUnknown (CommandString (ascii ''foo'')) [1, 2]) = Some r \<and>
    enc_RawNetworkMessage True enc_DogeHeader enc_DogeBlock r = Some (bs, length bs) \<and>
    (\<forall>rest. dec_RawNetworkMessage 64 dec_DogeHeader dec_DogeBlock (bs @ rest) =
       Inr (r\<lparr> raw_payload := NetUnknown (CommandString (ascii ''foo'')) (fst (enc_with_size [1, 2])) \<rparr>, rest))"
proof (rule unknown_message_grows)
  show "list_all (\<lambda>u. 0 < u \<and> u < 0x80) (ascii ''foo'')" "length (ascii ''foo'') \<le> 12" by (simp_all add: ascii_def)
  show "ascii ''foo'' \<notin> set (map (\<lambda>(s, d). ascii s) (payload_decoders 64 dec_DogeHeader dec_DogeBlock))" by (simp add: payload_decoders_def)
  show "length (fst (enc_with_size [1, 2])) < 2 ^ 32" by (simp add: enc_with_size_def enc_VarInt_def emit_u8_def emit_slice_def ecat_def Let_def)
qed (simp add: MAGIC_BITCOIN_def)

end
