(* ===== verification/BitStream.thy ===== *)
theory BitStream
  imports Io SipHash
begin

text \<open>
  The bit streams of \<open>bitcoin/src/bip158.rs\<close> (\<open>BitStreamReader\<close>, \<open>BitStreamWriter\<close>) over a byte slice and a vector, and
  the Golomb-Rice coding of \<open>GcsFilter\<close>. \<open>None\<close> is a panic (or a loop that does not end); \<open>oc\<close> is the flag of the
  overflow checks. The counters \<open>offset\<close> and \<open>nbits\<close> (\<open>u8\<close> in the source) never exceed 64 and are natural numbers;
  the guards on \<open>offset\<close> mark the subtractions and shifts that would panic outside the range the private field keeps.
  A stream is abstracted to its list of bits, most significant bit first: a writer appends to the list and a
  reader takes from it.
\<close>

section \<open>Checked arithmetic on u64\<close>

definition add_oc :: "bool \<Rightarrow> u64 \<Rightarrow> u64 \<Rightarrow> u64 option" where
  "add_oc oc a b = (if oc \<and> 2 ^ 64 \<le> unat a + unat b then None else Some (a + b))"

definition mul_oc :: "bool \<Rightarrow> u64 \<Rightarrow> u64 \<Rightarrow> u64 option" where
  "mul_oc oc a b = (if oc \<and> 2 ^ 64 \<le> unat a * unat b then None else Some (a * b))"

definition shr_oc :: "bool \<Rightarrow> u64 \<Rightarrow> nat \<Rightarrow> u64 option" where
  "shr_oc oc a k = (if oc \<and> 64 \<le> k then None else Some (drop_bit (k mod 64) a))"

definition shl_oc :: "bool \<Rightarrow> u64 \<Rightarrow> nat \<Rightarrow> u64 option" where
  "shl_oc oc a k = (if oc \<and> 64 \<le> k then None else Some (push_bit (k mod 64) a))"

section \<open>BitStreamReader\<close>

record BitStreamReader =
  br_buffer :: u8
  br_offset :: nat
  br_reader :: bytes

definition bit_reader_new :: "bytes \<Rightarrow> BitStreamReader" where
  "bit_reader_new r = \<lparr> br_buffer = 0, br_offset = 8, br_reader = r \<rparr>"

text \<open>The refill at the top of the loop: one byte by \<open>read_exact\<close>.\<close>

definition refill :: "BitStreamReader \<Rightarrow> ((ErrorKind + unit) \<times> BitStreamReader) option" where
  "refill s =
     (if br_offset s = 8
      then (case read_exact slice_read (br_reader s) 1 [] of
              None \<Rightarrow> None
            | Some (Inl e, r) \<Rightarrow> Some (Inl e, s\<lparr> br_reader := r \<rparr>)
            | Some (Inr bs, r) \<Rightarrow> Some (Inr (), s\<lparr> br_buffer := hd bs, br_reader := r, br_offset := 0 \<rparr>))
      else Some (Inr (), s))"

function read_loop :: "nat \<Rightarrow> u64 \<Rightarrow> BitStreamReader \<Rightarrow> ((ErrorKind + u64) \<times> BitStreamReader) option" where
  "read_loop nbits data s =
     (if nbits = 0 then Some (Inr data, s)
      else (case refill s of
              None \<Rightarrow> None
            | Some (Inl e, s) \<Rightarrow> Some (Inl e, s)
            | Some (Inr _, s) \<Rightarrow>
                if 8 \<le> br_offset s then None
                else (let bits = min (8 - br_offset s) nbits;
                          data = push_bit bits data OR ucast (drop_bit (8 - bits) (push_bit (br_offset s) (br_buffer s)))
                      in read_loop (nbits - bits) data (s\<lparr> br_offset := br_offset s + bits \<rparr>))))"
  by pat_completeness auto
termination
  by (relation "measure (\<lambda>(nbits, data, s). nbits)") auto

declare read_loop.simps [simp del]

definition read_bits :: "nat \<Rightarrow> BitStreamReader \<Rightarrow> ((ErrorKind + u64) \<times> BitStreamReader) option" where
  "read_bits nbits s = (if 64 < nbits then Some (Inl Other, s) else read_loop nbits 0 s)"

section \<open>BitStreamWriter\<close>

record BitStreamWriter =
  bw_buffer :: u8
  bw_offset :: nat
  bw_writer :: bytes

definition bit_writer_new :: "bytes \<Rightarrow> BitStreamWriter" where
  "bit_writer_new w = \<lparr> bw_buffer = 0, bw_offset = 0, bw_writer = w \<rparr>"

definition flush_bits :: "BitStreamWriter \<Rightarrow> ((ErrorKind + nat) \<times> BitStreamWriter) option" where
  "flush_bits s =
     (if 0 < bw_offset s
      then (case write_all vec_write (bw_writer s) [bw_buffer s] of
              None \<Rightarrow> None
            | Some (Inl e, w) \<Rightarrow> Some (Inl e, s\<lparr> bw_writer := w \<rparr>)
            | Some (Inr _, w) \<Rightarrow> Some (Inr 1, s\<lparr> bw_writer := w, bw_buffer := 0, bw_offset := 0 \<rparr>))
      else Some (Inr 0, s))"

function write_loop :: "u64 \<Rightarrow> nat \<Rightarrow> nat \<Rightarrow> BitStreamWriter \<Rightarrow> ((ErrorKind + nat) \<times> BitStreamWriter) option" where
  "write_loop data nbits wrote s =
     (if nbits = 0 then Some (Inr wrote, s)
      else if 8 \<le> bw_offset s then None
      else (let bits = min (8 - bw_offset s) nbits;
                s = s\<lparr> bw_buffer := bw_buffer s OR ucast (drop_bit (64 - 8 + bw_offset s) (push_bit (64 - nbits) data)),
                       bw_offset := bw_offset s + bits \<rparr>
            in if bw_offset s = 8
               then (case flush_bits s of
                       None \<Rightarrow> None
                     | Some (Inl e, s) \<Rightarrow> Some (Inl e, s)
                     | Some (Inr k, s) \<Rightarrow> write_loop data (nbits - bits) (wrote + k) s)
               else write_loop data (nbits - bits) wrote s))"
  by pat_completeness auto
termination
  by (relation "measure (\<lambda>(data, nbits, wrote, s). nbits)") auto

declare write_loop.simps [simp del]

definition write_bits :: "u64 \<Rightarrow> nat \<Rightarrow> BitStreamWriter \<Rightarrow> ((ErrorKind + nat) \<times> BitStreamWriter) option" where
  "write_bits data nbits s = (if 64 < nbits then Some (Inl Other, s) else write_loop data nbits 0 s)"

section \<open>GcsFilter\<close>

record GcsFilter =
  gcs_k0 :: u64
  gcs_k1 :: u64
  gcs_p :: nat

definition gcs_filter_new :: "u64 \<Rightarrow> u64 \<Rightarrow> nat \<Rightarrow> GcsFilter" where
  "gcs_filter_new k0 k1 p = \<lparr> gcs_k0 = k0, gcs_k1 = k1, gcs_p = p \<rparr>"

definition gcs_hash :: "GcsFilter \<Rightarrow> bytes \<Rightarrow> u64 option" where
  "gcs_hash f element = hash_to_u64_with_keys (gcs_k0 f) (gcs_k1 f) element"

text \<open>The unary part of the code, at most 64 ones per call.\<close>

function write_ones :: "u64 \<Rightarrow> nat \<Rightarrow> BitStreamWriter \<Rightarrow> ((ErrorKind + nat) \<times> BitStreamWriter) option" where
  "write_ones q wrote s =
     (if 0 < q
      then (let nbits = min q 64
            in case write_bits (NOT 0) (unat nbits) s of
                 None \<Rightarrow> None
               | Some (Inl e, s) \<Rightarrow> Some (Inl e, s)
               | Some (Inr k, s) \<Rightarrow> write_ones (q - nbits) (wrote + k) s)
      else Some (Inr wrote, s))"
  by pat_completeness auto
termination
proof (relation "measure (\<lambda>(q, wrote, s). unat q)", goal_cases)
  case (2 q)
  then have "0 < unat q" by (simp add: word_less_nat_alt)
  moreover have "min q 64 \<le> q" by simp
  then have "unat (q - min q 64) = unat q - unat (min q 64)" by (rule unat_sub)
  moreover have "0 < unat (min q 64)" using 2 by (simp add: min_def word_less_nat_alt)
  ultimately show ?case using 2 by simp
qed simp

declare write_ones.simps [simp del]

definition golomb_rice_encode :: "bool \<Rightarrow> GcsFilter \<Rightarrow> BitStreamWriter \<Rightarrow> u64 \<Rightarrow> ((ErrorKind + nat) \<times> BitStreamWriter) option" where
  "golomb_rice_encode oc f s n =
     Option.bind (shr_oc oc n (gcs_p f)) (\<lambda>q.
       case write_ones q 0 s of
         None \<Rightarrow> None
       | Some (Inl e, s) \<Rightarrow> Some (Inl e, s)
       | Some (Inr w1, s) \<Rightarrow>
           (case write_bits 0 1 s of
              None \<Rightarrow> None
            | Some (Inl e, s) \<Rightarrow> Some (Inl e, s)
            | Some (Inr w2, s) \<Rightarrow>
                (case write_bits n (gcs_p f) s of
                   None \<Rightarrow> None
                 | Some (Inl e, s) \<Rightarrow> Some (Inl e, s)
                 | Some (Inr w3, s) \<Rightarrow> Some (Inr (w1 + w2 + w3), s))))"

partial_function (option) read_ones :: "bool \<Rightarrow> u64 \<Rightarrow> BitStreamReader \<Rightarrow> ((ErrorKind + u64) \<times> BitStreamReader) option" where
  "read_ones oc q s =
     (case read_bits 1 s of
        None \<Rightarrow> None
      | Some (Inl e, s) \<Rightarrow> Some (Inl e, s)
      | Some (Inr b, s) \<Rightarrow>
          if b = 1 then (case add_oc oc q 1 of None \<Rightarrow> None | Some q \<Rightarrow> read_ones oc q s) else Some (Inr q, s))"

declare read_ones.simps [code]

definition golomb_rice_decode :: "bool \<Rightarrow> GcsFilter \<Rightarrow> BitStreamReader \<Rightarrow> ((ErrorKind + u64) \<times> BitStreamReader) option" where
  "golomb_rice_decode oc f s =
     (case read_ones oc 0 s of
        None \<Rightarrow> None
      | Some (Inl e, s) \<Rightarrow> Some (Inl e, s)
      | Some (Inr q, s) \<Rightarrow>
          (case read_bits (gcs_p f) s of
             None \<Rightarrow> None
           | Some (Inl e, s) \<Rightarrow> Some (Inl e, s)
           | Some (Inr r, s) \<Rightarrow>
               Option.bind (shl_oc oc q (gcs_p f)) (\<lambda>x. map_option (\<lambda>v. (Inr v, s)) (add_oc oc x r))))"


section \<open>Streams as lists of bits\<close>

definition bits8 :: "u8 \<Rightarrow> bool list" where "bits8 b = map (\<lambda>i. bit b (7 - i)) [0..<8]"

definition bits_of :: "bytes \<Rightarrow> bool list" where "bits_of bs = concat (map bits8 bs)"

text \<open>The low \<open>n\<close> bits of a word, and a word shifted left while bits are appended.\<close>

definition low_bits :: "nat \<Rightarrow> u64 \<Rightarrow> bool list" where "low_bits n d = map (\<lambda>i. bit d (n - 1 - i)) [0..<n]"

definition push_bits :: "u64 \<Rightarrow> bool list \<Rightarrow> u64" where
  "push_bits = foldl (\<lambda>a b. push_bit 1 a OR of_bool b)"

lemma length_bits8 [simp]: "length (bits8 b) = 8" by (simp add: bits8_def)

lemma bits8_Nil [simp]: "bits8 b \<noteq> []" using length_bits8 [of b] by (metis list.size(3) zero_neq_numeral)

lemma nth_bits8: "i < 8 \<Longrightarrow> bits8 b ! i = bit b (7 - i)" by (simp add: bits8_def)

lemma length_low_bits [simp]: "length (low_bits n d) = n" by (simp add: low_bits_def)

lemma nth_low_bits: "i < n \<Longrightarrow> low_bits n d ! i = bit d (n - 1 - i)" by (simp add: low_bits_def)

lemma bits_of_simps [simp]: "bits_of [] = []" "bits_of (b # bs) = bits8 b @ bits_of bs" "bits_of (xs @ ys) = bits_of xs @ bits_of ys"
  by (simp_all add: bits_of_def)

lemma length_bits_of [simp]: "length (bits_of bs) = 8 * length bs" by (induction bs) simp_all

lemma low_bits_split: "k \<le> n \<Longrightarrow> low_bits n d = take k (low_bits n d) @ low_bits (n - k) d"
  by (rule nth_equalityI) (auto simp: nth_append nth_low_bits)

lemma low_bits_ones: "n \<le> 64 \<Longrightarrow> low_bits n (NOT 0) = replicate n True"
  by (rule nth_equalityI) (auto simp: nth_low_bits bit_simps)

lemma push_bits_Nil [simp]: "push_bits a [] = a" by (simp add: push_bits_def)

lemma push_bits_append: "push_bits a (xs @ ys) = push_bits (push_bits a xs) ys" by (simp add: push_bits_def)

lemma push_bits_one: "push_bits a [b] = push_bit 1 a OR of_bool b" by (simp add: push_bits_def)

lemma bit_shift_in: "bit (push_bit 1 (x :: u64) OR of_bool b) (Suc k) \<longleftrightarrow> k < 63 \<and> bit x k"
  by (simp only: bit_or_iff bit_push_bit_iff bit_of_bool_iff) (auto simp: possible_bit_word)

lemma bit_push_bits:
  "j < 64 \<Longrightarrow> bit (push_bits a bs) j \<longleftrightarrow> (if j < length bs then bs ! (length bs - 1 - j) else bit a (j - length bs))"
proof (induction bs arbitrary: j rule: rev_induct)
  case (snoc b bs)
  show ?case
  proof (cases j)
    case 0
    then show ?thesis by (simp add: push_bits_def bit_0 even_or_iff nth_append)
  next
    case (Suc k)
    then have k: "k < 64" using snoc.prems by simp
    have "bit (push_bits a (bs @ [b])) j = bit (push_bits a bs) k"
      using Suc snoc.prems bit_shift_in [of "push_bits a bs" b k] by (simp add: push_bits_append push_bits_one)
    then show ?thesis using snoc.IH [OF k] Suc by (auto simp: nth_append)
  qed
qed simp

lemma push_low_bits: "n \<le> 64 \<Longrightarrow> push_bits 0 (low_bits n d) = take_bit n d"
  by (rule bit_word_eqI) (auto simp: bit_push_bits bit_simps nth_low_bits)

lemma push_one: "push_bits 0 [b] = of_bool b" by (simp add: push_bits_def)

section \<open>The reader takes bits\<close>

definition bits_left :: "BitStreamReader \<Rightarrow> bool list" where
  "bits_left s = drop (br_offset s) (bits8 (br_buffer s)) @ bits_of (br_reader s)"

definition reader_ok :: "BitStreamReader \<Rightarrow> bool" where "reader_ok s \<longleftrightarrow> br_offset s \<le> 8"

lemma bit_reader_new_abs [simp]: "bits_left (bit_reader_new r) = bits_of r" "reader_ok (bit_reader_new r)"
  by (simp_all add: bits_left_def bit_reader_new_def reader_ok_def)

lemma chunk_bits:
  assumes "off < 8" and "k \<le> 8 - off"
  shows "push_bit k d OR ucast (drop_bit (8 - k) (push_bit off b)) = push_bits d (take k (drop off (bits8 b)))"
  by (rule bit_word_eqI) (use assms in \<open>auto simp: bit_push_bits bit_simps nth_bits8 ac_simps\<close>)

lemma refill_empty: "br_offset s = 8 \<Longrightarrow> br_reader s = [] \<Longrightarrow> refill s = Some (Inl UnexpectedEof, s)"
  by (simp add: refill_def read_exact.simps slice_read_def)

lemma refill_byte:
  assumes "br_offset s = 8" and "br_reader s = b # bs"
  shows "refill s = Some (Inr (), s\<lparr> br_buffer := b, br_reader := bs, br_offset := 0 \<rparr>)"
proof -
  have "read_exact slice_read (b # bs) 1 [] = Some (Inr [b], bs)"
    by (simp add: read_exact.simps [of _ "b # bs"] read_exact.simps [of _ bs 0] slice_read_def)
  then show ?thesis using assms by (simp add: refill_def)
qed

lemma refill_some: "br_offset s \<noteq> 8 \<Longrightarrow> refill s = Some (Inr (), s)"
  by (simp add: refill_def)

lemma refill_ok:
  assumes "reader_ok s"
  shows "if bits_left s = [] then refill s = Some (Inl UnexpectedEof, s)
         else \<exists>s'. refill s = Some (Inr (), s') \<and> br_offset s' < 8 \<and> bits_left s' = bits_left s"
proof (cases "br_offset s = 8")
  case True
  then show ?thesis
    by (cases "br_reader s") (simp_all add: refill_empty refill_byte bits_left_def)
next
  case False
  then have "bits_left s \<noteq> []" "br_offset s < 8" using assms by (auto simp: reader_ok_def bits_left_def)
  then show ?thesis using False by (simp add: refill_some)
qed

lemma read_loop_ok:
  assumes "reader_ok s"
  shows "if n \<le> length (bits_left s)
         then \<exists>s'. read_loop n d s = Some (Inr (push_bits d (take n (bits_left s))), s') \<and> reader_ok s' \<and>
                   bits_left s' = drop n (bits_left s)
         else \<exists>s'. read_loop n d s = Some (Inl UnexpectedEof, s') \<and> reader_ok s'"
  using assms
proof (induction n arbitrary: d s rule: less_induct)
  case (less n)
  show ?case
  proof (cases "n = 0 \<or> bits_left s = []")
    case True
    then show ?thesis using less.prems refill_ok [OF less.prems] by (auto simp: read_loop.simps)
  next
    case False
    then obtain s1 where s1: "refill s = Some (Inr (), s1)" "br_offset s1 < 8" "bits_left s1 = bits_left s"
      using refill_ok [OF less.prems] by auto
    define k where "k = min (8 - br_offset s1) n"
    define s2 where "s2 = s1\<lparr> br_offset := br_offset s1 + k \<rparr>"
    define d2 where "d2 = push_bits d (take k (bits_left s))"
    have k: "0 < k" "k \<le> n" "k \<le> 8 - br_offset s1" using False s1(2) by (auto simp: k_def)
    have t: "take k (bits_left s) = take k (drop (br_offset s1) (bits8 (br_buffer s1)))"
      using k(3) unfolding s1(3) [symmetric] by (simp add: bits_left_def)
    have l: "bits_left s2 = drop k (bits_left s)"
      using k(3) unfolding s1(3) [symmetric] by (simp add: s2_def bits_left_def add.commute)
    have kl: "k \<le> length (bits_left s)"
      using k(3) unfolding s1(3) [symmetric] by (simp add: bits_left_def)
    have ok: "reader_ok s2" using k(3) s1(2) by (simp add: s2_def reader_ok_def)
    have "read_loop n d s = read_loop (n - k) d2 s2"
      using False s1(1,2) chunk_bits [OF s1(2) k(3), of d "br_buffer s1"]
      by (simp add: read_loop.simps [of n] Let_def k_def [symmetric] s2_def d2_def t)
    moreover have "take n (bits_left s) = take k (bits_left s) @ take (n - k) (drop k (bits_left s))"
      using k(2) by (metis le_add_diff_inverse take_add)
    ultimately show ?thesis
      using less.IH [of "n - k" s2 d2] k kl ok False by (auto simp: l d2_def push_bits_append split: if_splits)
  qed
qed

lemma read_bits_ok:
  assumes "reader_ok s" and "n \<le> 64" and "n \<le> length (bits_left s)"
  shows "\<exists>s'. read_bits n s = Some (Inr (push_bits 0 (take n (bits_left s))), s') \<and> reader_ok s' \<and>
              bits_left s' = drop n (bits_left s)"
  using read_loop_ok [OF assms(1), of n 0] assms(2,3) by (simp add: read_bits_def)

lemma read_bits_eof:
  assumes "reader_ok s" and "n \<le> 64" and "length (bits_left s) < n"
  shows "\<exists>s'. read_bits n s = Some (Inl UnexpectedEof, s') \<and> reader_ok s'"
  using read_loop_ok [OF assms(1), of n 0] assms(2,3) by (simp add: read_bits_def)

section \<open>The writer appends bits\<close>

definition bits_written :: "BitStreamWriter \<Rightarrow> bool list" where
  "bits_written s = bits_of (bw_writer s) @ take (bw_offset s) (bits8 (bw_buffer s))"

text \<open>The buffer has its free positions clear.\<close>

definition writer_ok :: "BitStreamWriter \<Rightarrow> bool" where
  "writer_ok s \<longleftrightarrow> bw_offset s < 8 \<and> drop (bw_offset s) (bits8 (bw_buffer s)) = replicate (8 - bw_offset s) False"

lemma bits8_zero: "bits8 0 = replicate 8 False"
  by (rule nth_equalityI) (simp_all add: nth_bits8)

lemma bit_writer_new_ok [simp]: "writer_ok (bit_writer_new w)" "bits_written (bit_writer_new w) = bits_of w"
  by (simp_all add: writer_ok_def bits_written_def bit_writer_new_def bits8_zero)

lemma flush_bits_eq:
  "flush_bits s =
     (if 0 < bw_offset s
      then Some (Inr 1, s\<lparr> bw_writer := bw_writer s @ [bw_buffer s], bw_buffer := 0, bw_offset := 0 \<rparr>)
      else Some (Inr 0, s))"
  by (simp add: flush_bits_def vec_write_all)

lemma buffer_bits:
  assumes "off < 8" and "drop off (bits8 b) = replicate (8 - off) False" and "n \<le> 64"
  shows "bits8 (b OR ucast (drop_bit (64 - 8 + off) (push_bit (64 - n) (d :: u64)))) =
         take off (bits8 b) @ take (8 - off) (low_bits n d @ replicate 8 False)"
proof (rule nth_equalityI)
  fix i assume "i < length (bits8 (b OR ucast (drop_bit (64 - 8 + off) (push_bit (64 - n) d))))"
  then have i: "i < 8" by simp
  have clear: "\<not> bit b (7 - i)" if "off \<le> i"
    using arg_cong [OF assms(2), of "\<lambda>l. l ! (i - off)"] that i assms(1) by (simp add: nth_bits8)
  show "bits8 (b OR ucast (drop_bit (64 - 8 + off) (push_bit (64 - n) d))) ! i =
      (take off (bits8 b) @ take (8 - off) (low_bits n d @ replicate 8 False)) ! i"
    using i assms(1,3) clear
    by (auto simp: nth_bits8 bit_simps nth_append nth_low_bits add.commute)
qed (use assms(1) in simp)

text \<open>\<open>s'\<close> has the bits \<open>bs\<close> more than \<open>s\<close>, and \<open>k\<close> bytes of them left the buffer.\<close>

definition appended :: "BitStreamWriter \<Rightarrow> bool list \<Rightarrow> nat \<Rightarrow> BitStreamWriter \<Rightarrow> bool" where
  "appended s bs k s' \<longleftrightarrow>
     writer_ok s' \<and> bits_written s' = bits_written s @ bs \<and> (\<exists>body. bw_writer s' = bw_writer s @ body \<and> length body = k)"

lemma appended_trans:
  "appended s xs j s1 \<Longrightarrow> appended s1 ys k s2 \<Longrightarrow> appended s (xs @ ys) (j + k) s2"
  by (auto simp: appended_def)

lemma write_loop_ok:
  assumes "writer_ok s" and "n \<le> 64"
  shows "\<exists>k s'. write_loop d n wrote s = Some (Inr (wrote + k), s') \<and> appended s (low_bits n d) k s'"
  using assms
proof (induction n arbitrary: s wrote rule: less_induct)
  case (less n)
  show ?case
  proof (cases "n = 0")
    case True
    then show ?thesis using less.prems by (auto simp: write_loop.simps appended_def low_bits_def)
  next
    case False
    define off where "off = bw_offset s"
    define j where "j = min (8 - off) n"
    define b where "b = bw_buffer s OR ucast (drop_bit (64 - 8 + off) (push_bit (64 - n) d))"
    define s1 where "s1 = s\<lparr> bw_buffer := b, bw_offset := off + j \<rparr>"
    define s2 where "s2 = (if off + j = 8 then s\<lparr> bw_writer := bw_writer s @ [b], bw_buffer := 0, bw_offset := 0 \<rparr> else s1)"
    have b56: "bw_buffer s OR ucast (drop_bit (56 + off) (push_bit (64 - n) d)) = b" by (simp add: b_def)
    have off: "off < 8" "drop off (bits8 (bw_buffer s)) = replicate (8 - off) False"
      using less.prems(1) by (simp_all add: writer_ok_def off_def)
    have j: "0 < j" "j \<le> n" "j \<le> 8 - off" using False off(1) by (auto simp: j_def)
    have b: "bits8 b = take off (bits8 (bw_buffer s)) @ take (8 - off) (low_bits n d @ replicate 8 False)"
      unfolding b_def by (rule buffer_bits [OF off less.prems(2)])
    have tj: "take j (low_bits n d @ replicate 8 False) = take j (low_bits n d)" using j(2) by simp
    have step: "appended s (take j (low_bits n d)) (if off + j = 8 then 1 else 0) s2"
    proof (cases "off + j = 8")
      case True
      then have "8 - off = j" by simp
      then show ?thesis
        using True b tj by (simp add: appended_def writer_ok_def bits_written_def s2_def bits8_zero off_def [symmetric])
    next
      case lt: False
      then have jn: "j = n" "off + n < 8" using off(1) by (auto simp: j_def)
      show ?thesis
        using lt b jn by (simp add: appended_def writer_ok_def bits_written_def s2_def s1_def off_def [symmetric])
    qed
    have "write_loop d n wrote s = write_loop d (n - j) (wrote + (if off + j = 8 then 1 else 0)) s2"
      using False off(1)
      by (simp add: write_loop.simps [of d n] Let_def off_def [symmetric] j_def [symmetric] b56 s2_def s1_def
          flush_bits_eq)
    moreover have "writer_ok s2" using step by (simp add: appended_def)
    ultimately obtain k s' where s': "write_loop d n wrote s = Some (Inr (wrote + (if off + j = 8 then 1 else 0) + k), s')"
        "appended s2 (low_bits (n - j) d) k s'"
      using less.IH [of "n - j" s2] j less.prems(2) by force
    then show ?thesis
      using appended_trans [OF step s'(2)] low_bits_split [OF j(2), of d] by (metis add.assoc)
  qed
qed

lemma write_bits_ok:
  assumes "writer_ok s" and "n \<le> 64"
  shows "\<exists>k s'. write_bits d n s = Some (Inr k, s') \<and> appended s (low_bits n d) k s'"
  using write_loop_ok [OF assms, of d 0] assms(2) by (simp add: write_bits_def)

section \<open>Golomb-Rice codes\<close>

definition golomb_rice_bits :: "nat \<Rightarrow> u64 \<Rightarrow> bool list" where
  "golomb_rice_bits p n = replicate (unat n div 2 ^ p) True @ False # low_bits p n"

lemma write_ones_ok:
  assumes "writer_ok s"
  shows "\<exists>k s'. write_ones q wrote s = Some (Inr (wrote + k), s') \<and> appended s (replicate (unat q) True) k s'"
  using assms
proof (induction "unat q" arbitrary: q s wrote rule: less_induct)
  case less
  show ?case
  proof (cases "q = 0")
    case True
    then show ?thesis using less.prems by (auto simp: write_ones.simps appended_def)
  next
    case False
    then have q: "0 < q" "0 < unat q" by (simp_all add: word_neq_0_conv unat_gt_0)
    define m where "m = min q 64"
    have m: "unat m = min (unat q) 64" by (simp add: m_def min_def word_le_nat_alt)
    have sub: "unat (q - m) = unat q - unat m" by (rule unat_sub) (simp add: m_def)
    obtain k s1 where s1: "write_bits (NOT 0) (unat m) s = Some (Inr k, s1)" "appended s (replicate (unat m) True) k s1"
      using write_bits_ok [OF less.prems, of "unat m" "NOT 0"] low_bits_ones [of "unat m"] m by auto
    have ok: "writer_ok s1" using s1(2) by (simp add: appended_def)
    have lt: "unat (q - m) < unat q" using sub m q(2) by linarith
    obtain k2 s' where s': "write_ones (q - m) (wrote + k) s1 = Some (Inr (wrote + k + k2), s')"
        "appended s1 (replicate (unat (q - m)) True) k2 s'"
      using less.hyps [OF lt ok] by blast
    have "write_ones q wrote s = write_ones (q - m) (wrote + k) s1"
      using q(1) s1(1) by (simp add: write_ones.simps [of q] m_def [symmetric] Let_def)
    moreover have "replicate (unat m) True @ replicate (unat (q - m)) True = replicate (unat q) True"
      using sub m by (simp add: replicate_add [symmetric])
    ultimately show ?thesis using s'(1) appended_trans [OF s1(2) s'(2)] by (metis add.assoc)
  qed
qed

lemma golomb_rice_encode_ok:
  assumes "writer_ok s" and "gcs_p f < 64"
  shows "\<exists>k s'. golomb_rice_encode oc f s n = Some (Inr k, s') \<and> appended s (golomb_rice_bits (gcs_p f) n) k s'"
proof -
  have ok: "appended x y z w \<Longrightarrow> writer_ok w" for x y z w by (simp add: appended_def)
  define q where "q = drop_bit (gcs_p f) n"
  obtain k1 s1 where 1: "write_ones q 0 s = Some (Inr k1, s1)" "appended s (replicate (unat q) True) k1 s1"
    using write_ones_ok [OF assms(1), of q 0] by auto
  obtain k2 s2 where 2: "write_bits 0 1 s1 = Some (Inr k2, s2)" "appended s1 (low_bits 1 0) k2 s2"
    using write_bits_ok [OF ok [OF 1(2)], of 1 0] by auto
  obtain k3 s3 where 3: "write_bits n (gcs_p f) s2 = Some (Inr k3, s3)" "appended s2 (low_bits (gcs_p f) n) k3 s3"
    using write_bits_ok [OF ok [OF 2(2)], of "gcs_p f" n] assms(2) by auto
  have "unat q = unat n div 2 ^ gcs_p f" unfolding q_def unat_drop_bit_eq by (rule drop_bit_eq_div)
  then have "replicate (unat q) True @ low_bits 1 0 @ low_bits (gcs_p f) n = golomb_rice_bits (gcs_p f) n"
    by (simp add: golomb_rice_bits_def low_bits_def)
  then show ?thesis
    using 1(1) 2(1) 3(1) assms(2) appended_trans [OF 1(2) appended_trans [OF 2(2) 3(2)]]
    by (simp add: golomb_rice_encode_def shr_oc_def q_def [symmetric] add.assoc)
qed

lemma read_one_bit:
  assumes "reader_ok s" and "bits_left s = b # bs"
  shows "\<exists>s'. read_bits 1 s = Some (Inr (of_bool b), s') \<and> reader_ok s' \<and> bits_left s' = bs"
  using read_bits_ok [OF assms(1), of 1] assms(2) by (simp add: push_one)

lemma read_ones_step:
  assumes "read_bits 1 s = Some (Inr (of_bool b), s')"
  shows "read_ones oc q s = (if b then (case add_oc oc q 1 of None \<Rightarrow> None | Some q \<Rightarrow> read_ones oc q s') else Some (Inr q, s'))"
  using assms by (simp add: read_ones.simps [of oc q s])

lemma read_ones_ok:
  assumes "reader_ok s" and "bits_left s = replicate k True @ False # bs" and "unat q + k < 2 ^ 64"
  shows "\<exists>s'. read_ones oc q s = Some (Inr (q + word_of_nat k), s') \<and> reader_ok s' \<and> bits_left s' = bs"
  using assms
proof (induction k arbitrary: q s)
  case 0
  then show ?case using read_one_bit [of s False bs] read_ones_step [of s False _ oc q] by auto
next
  case (Suc k)
  obtain s1 where s1: "read_bits 1 s = Some (Inr (of_bool True), s1)" "reader_ok s1" "bits_left s1 = replicate k True @ False # bs"
    using read_one_bit [OF Suc.prems(1), of True "replicate k True @ False # bs"] Suc.prems(2) by auto
  have q1: "unat (q + 1) = unat q + 1" using Suc.prems(3) unat_add_lem [of q 1] by simp
  obtain s' where "read_ones oc (q + 1) s1 = Some (Inr (q + 1 + word_of_nat k), s')" "reader_ok s'" "bits_left s' = bs"
    using Suc.IH [OF s1(2,3), of "q + 1"] q1 Suc.prems(3) by auto
  moreover have "add_oc oc q 1 = Some (q + 1)" using Suc.prems(3) by (simp add: add_oc_def)
  ultimately show ?case using read_ones_step [OF s1(1), of oc q] by (simp add: add.commute add.left_commute)
qed

lemma unat_u64: "unat (n :: u64) < 2 ^ 64" using unsigned_less [of n] by simp

lemma rice_value:
  assumes "p < 64"
  shows "push_bit p (drop_bit p (n :: u64)) + take_bit p n = n"
    and "unat (push_bit p (drop_bit p n)) + unat (take_bit p n) < 2 ^ 64"
proof -
  show 1: "push_bit p (drop_bit p n) + take_bit p n = n" by (rule bits_ident)
  have "unat (push_bit p (drop_bit p n)) + unat (take_bit p n) = unat n div 2 ^ p * 2 ^ p + unat n mod 2 ^ p"
  proof -
    have "unat (push_bit p (drop_bit p n)) = unat n div 2 ^ p * 2 ^ p"
    proof -
      have "unat n div 2 ^ p * 2 ^ p \<le> unat n" by (rule div_times_less_eq_dividend)
      then have "unat n div 2 ^ p * 2 ^ p < 2 ^ 64" using unat_u64 [of n] by linarith
      then show ?thesis
        unfolding unsigned_push_bit_eq unat_drop_bit_eq by (simp add: push_bit_eq_mult drop_bit_eq_div take_bit_eq_mod)
    qed
    moreover have "unat (take_bit p n) = unat n mod 2 ^ p" unfolding unsigned_take_bit_eq by (rule take_bit_eq_mod)
    ultimately show ?thesis by simp
  qed
  then show "unat (push_bit p (drop_bit p n)) + unat (take_bit p n) < 2 ^ 64"
    using unat_u64 [of n] by (simp only: div_mult_mod_eq)
qed

lemma golomb_rice_decode_ok:
  assumes "reader_ok s" and "bits_left s = golomb_rice_bits (gcs_p f) n @ bs" and "gcs_p f < 64"
  shows "\<exists>s'. golomb_rice_decode oc f s = Some (Inr n, s') \<and> reader_ok s' \<and> bits_left s' = bs"
proof -
  let ?p = "gcs_p f" and ?k = "unat n div 2 ^ gcs_p f"
  have "?k = unat (drop_bit ?p n)" unfolding unat_drop_bit_eq by (rule drop_bit_eq_div [symmetric])
  then have k: "word_of_nat ?k = drop_bit ?p n" by simp
  have le: "?k < 2 ^ 64" using unat_u64 [of n] by (meson div_le_dividend le_less_trans)
  obtain s1 where s1: "read_ones oc 0 s = Some (Inr (drop_bit ?p n), s1)" "reader_ok s1" "bits_left s1 = low_bits ?p n @ bs"
    using read_ones_ok [OF assms(1), of ?k "low_bits ?p n @ bs" 0 oc] assms(2) le k by (auto simp: golomb_rice_bits_def)
  obtain s2 where s2: "read_bits ?p s1 = Some (Inr (take_bit ?p n), s2)" "reader_ok s2" "bits_left s2 = bs"
    using read_bits_ok [OF s1(2), of ?p] s1(3) assms(3) push_low_bits [of ?p n] by auto
  have "add_oc oc (push_bit ?p (drop_bit ?p n)) (take_bit ?p n) = Some n"
    unfolding add_oc_def rice_value(1) [OF assms(3)] using rice_value(2) [OF assms(3), of n] by (simp only: not_le [symmetric]) simp
  then show ?thesis
    using s1(1) s2 assms(3) by (simp add: golomb_rice_decode_def shl_oc_def)
qed

text \<open>Reading ends on every input, whatever the stream holds.\<close>

lemma read_bits_total:
  assumes "reader_ok s"
  shows "\<exists>v s'. read_bits n s = Some (v, s') \<and> reader_ok s' \<and> (\<forall>x. v = Inr x \<longrightarrow> length (bits_left s') = length (bits_left s) - n)"
  using read_bits_ok [OF assms, of n] read_bits_eof [OF assms, of n] assms
  by (cases "n \<le> 64"; cases "n \<le> length (bits_left s)") (auto simp: read_bits_def [of n])

lemma read_ones_total:
  assumes "reader_ok s"
  shows "\<exists>v s'. read_ones False q s = Some (v, s') \<and> reader_ok s'"
  using assms
proof (induction "length (bits_left s)" arbitrary: q s)
  case 0
  then have "length (bits_left s) < 1" by simp
  then show ?case using read_bits_eof [OF \<open>reader_ok s\<close>, of 1] by (auto simp: read_ones.simps [of False q s])
next
  case (Suc k)
  then obtain b bs where b: "bits_left s = b # bs" "length bs = k" by (metis length_Suc_conv)
  obtain s1 where s1: "read_bits 1 s = Some (Inr (of_bool b), s1)" "reader_ok s1" "bits_left s1 = bs"
    using read_one_bit [OF Suc.prems b(1)] by blast
  show ?case using read_ones_step [OF s1(1), of False q] Suc.hyps(1) [of s1 "q + 1"] s1 b(2) by (cases b) (auto simp: add_oc_def)
qed

lemma golomb_rice_decode_total:
  assumes "reader_ok s"
  shows "\<exists>v s'. golomb_rice_decode False f s = Some (v, s') \<and> reader_ok s'"
proof -
  obtain v s1 where s1: "read_ones False 0 s = Some (v, s1)" "reader_ok s1" using read_ones_total [OF assms] by blast
  obtain w s2 where s2: "read_bits (gcs_p f) s1 = Some (w, s2)" "reader_ok s2" using read_bits_total [OF s1(2)] by blast
  show ?thesis using s1 s2 by (cases v; cases w) (simp_all add: golomb_rice_decode_def shl_oc_def add_oc_def)
qed

end
