(* ===== verification/BlockFilter.thy ===== *)
theory BlockFilter
  imports Block Script BitStream "HOL-Library.List_Lexorder"
begin

text \<open>
  Compact block filters (\<open>bitcoin/src/bip158.rs\<close>): the Golomb coded sets \<open>GcsFilterWriter\<close> and \<open>GcsFilterReader\<close>, and the
  filters of the scripts of a block. The \<open>BTreeSet\<close> of elements is the strictly increasing list of its members in the
  lexicographic order. Filters are written to a vector and read from a byte slice, as \<open>BlockFilter\<close> does; how
  far a query moves the slice is not part of its result. \<open>None\<close> is a panic; \<open>oc\<close> is the flag of the overflow checks. The
  caller's \<open>script_for_coin\<close> is a parameter.
\<close>

section \<open>Golomb coded sets\<close>

datatype BfError = UtxoMissing OutPoint | BfIo ErrorKind

definition map_to_range :: "u64 \<Rightarrow> u64 \<Rightarrow> u64" where
  "map_to_range hsh nm = ucast (drop_bit 64 ((ucast hsh :: u128) * ucast nm))"

text \<open>The elements hashed and mapped to the range, collected and sorted.\<close>

definition mapped_sorted :: "GcsFilter \<Rightarrow> u64 \<Rightarrow> bytes list \<Rightarrow> u64 list option" where
  "mapped_sorted f nm es = map_option sort (those (map (\<lambda>e. map_option (\<lambda>h. map_to_range h nm) (gcs_hash f e)) es))"

record GcsFilterReader =
  gr_filter :: GcsFilter
  gr_m :: u64

definition gcs_reader_new :: "u64 \<Rightarrow> u64 \<Rightarrow> u64 \<Rightarrow> nat \<Rightarrow> GcsFilterReader" where
  "gcs_reader_new k0 k1 m p = \<lparr> gr_filter = gcs_filter_new k0 k1 p, gr_m = m \<rparr>"

text \<open>The next element of the set: the \<open>data += golomb_rice_decode\<close> of the two loops.\<close>

definition next_data :: "bool \<Rightarrow> GcsFilter \<Rightarrow> u64 \<Rightarrow> BitStreamReader \<Rightarrow> (BfError + u64 \<times> BitStreamReader) option" where
  "next_data oc f data s =
     (case golomb_rice_decode oc f s of
        None \<Rightarrow> None
      | Some (Inl e, s) \<Rightarrow> Some (Inl (BfIo e))
      | Some (Inr d, s) \<Rightarrow> map_option (\<lambda>x. Inr (x, s)) (add_oc oc data d))"

function match_any_loop :: "bool \<Rightarrow> GcsFilter \<Rightarrow> u64 list \<Rightarrow> u64 \<Rightarrow> u64 \<Rightarrow> BitStreamReader \<Rightarrow> (BfError + bool) option" where
  "match_any_loop oc f [] data left s = Some (Inr False)"
| "match_any_loop oc f (p # ps) data left s =
     (if data = p then Some (Inr True)
      else if data < p
      then (if 0 < left
            then (case next_data oc f data s of
                    None \<Rightarrow> None
                  | Some (Inl e) \<Rightarrow> Some (Inl e)
                  | Some (Inr (d, s)) \<Rightarrow> match_any_loop oc f (p # ps) d (left - 1) s)
            else Some (Inr False))
      else match_any_loop oc f ps data left s)"
  by pat_completeness auto
termination
proof (relation "measure (\<lambda>(oc, f, ps, data, left, s). length ps + unat left)", goal_cases)
  case (2 _ _ _ _ _ left)
  then have "left \<noteq> 0" by auto
  then show ?case by (simp add: unat_minus_one unat_gt_0)
qed simp_all

function match_all_loop :: "bool \<Rightarrow> GcsFilter \<Rightarrow> u64 list \<Rightarrow> u64 \<Rightarrow> u64 \<Rightarrow> BitStreamReader \<Rightarrow> (BfError + bool) option" where
  "match_all_loop oc f [] data left s = Some (Inr True)"
| "match_all_loop oc f (p # ps) data left s =
     (if data = p then match_all_loop oc f ps data left s
      else if data < p
      then (if 0 < left
            then (case next_data oc f data s of
                    None \<Rightarrow> None
                  | Some (Inl e) \<Rightarrow> Some (Inl e)
                  | Some (Inr (d, s)) \<Rightarrow> match_all_loop oc f (p # ps) d (left - 1) s)
            else Some (Inr False))
      else Some (Inr False))"
  by pat_completeness auto
termination
proof (relation "measure (\<lambda>(oc, f, ps, data, left, s). length ps + unat left)", goal_cases)
  case (3 _ _ _ _ _ left)
  then have "left \<noteq> 0" by auto
  then show ?case by (simp add: unat_minus_one unat_gt_0)
qed simp_all

text \<open>The number of elements (0 when it does not decode) and the bytes that follow.\<close>

definition n_elements :: "bytes \<Rightarrow> u64 \<times> bytes" where
  "n_elements rd = (case dec_VarInt rd of Inr (v, r) \<Rightarrow> (varint_0 v, r) | Inl _ \<Rightarrow> (0, rd))"

definition gcs_match_any :: "bool \<Rightarrow> GcsFilterReader \<Rightarrow> bytes \<Rightarrow> bytes list \<Rightarrow> (BfError + bool) option" where
  "gcs_match_any oc g rd query =
     (let (n, r) = n_elements rd
      in Option.bind (mul_oc oc n (gr_m g)) (\<lambda>nm.
         Option.bind (mapped_sorted (gr_filter g) nm query) (\<lambda>mapped.
         if mapped = [] then Some (Inr True)
         else if n = 0 then Some (Inr False)
         else (case golomb_rice_decode oc (gr_filter g) (bit_reader_new r) of
                 None \<Rightarrow> None
               | Some (Inl e, s) \<Rightarrow> Some (Inl (BfIo e))
               | Some (Inr data, s) \<Rightarrow> match_any_loop oc (gr_filter g) mapped data (n - 1) s))))"

definition gcs_match_all :: "bool \<Rightarrow> GcsFilterReader \<Rightarrow> bytes \<Rightarrow> bytes list \<Rightarrow> (BfError + bool) option" where
  "gcs_match_all oc g rd query =
     (let (n, r) = n_elements rd
      in Option.bind (mul_oc oc n (gr_m g)) (\<lambda>nm.
         Option.bind (map_option remdups_adj (mapped_sorted (gr_filter g) nm query)) (\<lambda>mapped.
         if mapped = [] then Some (Inr True)
         else if n = 0 then Some (Inr False)
         else (case golomb_rice_decode oc (gr_filter g) (bit_reader_new r) of
                 None \<Rightarrow> None
               | Some (Inl e, s) \<Rightarrow> Some (Inl (BfIo e))
               | Some (Inr data, s) \<Rightarrow> match_all_loop oc (gr_filter g) mapped data (n - 1) s))))"

record GcsFilterWriter =
  gw_filter :: GcsFilter
  gw_writer :: bytes
  elements :: "bytes list"
  gw_m :: u64

definition gcs_writer_new :: "bytes \<Rightarrow> u64 \<Rightarrow> u64 \<Rightarrow> u64 \<Rightarrow> nat \<Rightarrow> GcsFilterWriter" where
  "gcs_writer_new w k0 k1 m p = \<lparr> gw_filter = gcs_filter_new k0 k1 p, gw_writer = w, elements = [], gw_m = m \<rparr>"

definition gcs_add_element :: "bytes \<Rightarrow> GcsFilterWriter \<Rightarrow> GcsFilterWriter" where
  "gcs_add_element e g = (if e \<noteq> [] then g\<lparr> elements := insort_insert e (elements g) \<rparr> else g)"

text \<open>\<open>data - last\<close> panics, with overflow checks, when the values do not increase.\<close>

fun write_deltas :: "bool \<Rightarrow> GcsFilter \<Rightarrow> u64 \<Rightarrow> u64 list \<Rightarrow> nat \<Rightarrow> BitStreamWriter \<Rightarrow> ((ErrorKind + nat) \<times> BitStreamWriter) option" where
  "write_deltas oc f lst [] wrote s = Some (Inr wrote, s)"
| "write_deltas oc f lst (data # ds) wrote s =
     (if oc \<and> data < lst then None
      else (case golomb_rice_encode oc f s (data - lst) of
              None \<Rightarrow> None
            | Some (Inl e, s) \<Rightarrow> Some (Inl e, s)
            | Some (Inr k, s) \<Rightarrow> write_deltas oc f data ds (wrote + k) s))"

definition gcs_finish :: "bool \<Rightarrow> GcsFilterWriter \<Rightarrow> ((ErrorKind + nat) \<times> GcsFilterWriter) option" where
  "gcs_finish oc g =
     Option.bind (mul_oc oc (word_of_nat (length (elements g))) (gw_m g)) (\<lambda>nm.
     Option.bind (mapped_sorted (gw_filter g) nm (elements g)) (\<lambda>mapped.
       let (bs, wrote) = enc_VarInt (VarInt (word_of_nat (length mapped)))
       in case write_deltas oc (gw_filter g) 0 mapped wrote (bit_writer_new (gw_writer g @ bs)) of
            None \<Rightarrow> None
          | Some (Inl e, s) \<Rightarrow> Some (Inl e, g\<lparr> gw_writer := bw_writer s \<rparr>)
          | Some (Inr wrote, s) \<Rightarrow>
              (case flush_bits s of
                 None \<Rightarrow> None
               | Some (Inl e, s) \<Rightarrow> Some (Inl e, g\<lparr> gw_writer := bw_writer s \<rparr>)
               | Some (Inr k, s) \<Rightarrow> Some (Inr (wrote + k), g\<lparr> gw_writer := bw_writer s \<rparr>))))"

section \<open>Block filters\<close>

definition FILTER_P :: nat where "FILTER_P = 19"
definition FILTER_M :: u64 where "FILTER_M = 784931"

record BlockFilterWriter =
  bf_block :: Block
  bf_writer :: GcsFilterWriter

definition filter_keys :: "bytes \<Rightarrow> u64 \<times> u64" where
  "filter_keys hsh = (from_le_bytes (take 8 hsh), from_le_bytes (take 8 (drop 8 hsh)))"

definition block_writer_new :: "bytes \<Rightarrow> Block \<Rightarrow> BlockFilterWriter" where
  "block_writer_new w b =
     (let (k0, k1) = filter_keys (block_hash (blk_header b))
      in \<lparr> bf_block = b, bf_writer = gcs_writer_new w k0 k1 FILTER_M FILTER_P \<rparr>)"

definition add_element :: "bytes \<Rightarrow> BlockFilterWriter \<Rightarrow> BlockFilterWriter" where
  "add_element e w = w\<lparr> bf_writer := gcs_add_element e (bf_writer w) \<rparr>"

definition add_output_scripts :: "BlockFilterWriter \<Rightarrow> BlockFilterWriter" where
  "add_output_scripts w =
     fold (\<lambda>tx w. fold (\<lambda>out w. if \<not> is_op_return (script_pubkey out) then add_element (script_pubkey out) w else w)
                      (tx_output tx) w) (txdata (bf_block w)) w"

fun add_coin_scripts :: "(OutPoint \<Rightarrow> BfError + bytes) \<Rightarrow> OutPoint list \<Rightarrow> BlockFilterWriter \<Rightarrow> (BfError + unit) \<times> BlockFilterWriter" where
  "add_coin_scripts sfc [] w = (Inr (), w)"
| "add_coin_scripts sfc (c # cs) w =
     (case sfc c of Inr s \<Rightarrow> add_coin_scripts sfc cs (add_element s w) | Inl e \<Rightarrow> (Inl e, w))"

definition spent_coins :: "Block \<Rightarrow> OutPoint list" where
  "spent_coins b = concat (map (\<lambda>t. map previous_output (tx_input t)) (drop 1 (txdata b)))"

definition add_input_scripts :: "(OutPoint \<Rightarrow> BfError + bytes) \<Rightarrow> BlockFilterWriter \<Rightarrow> (BfError + unit) \<times> BlockFilterWriter" where
  "add_input_scripts sfc w = add_coin_scripts sfc (spent_coins (bf_block w)) w"

definition block_writer_finish :: "bool \<Rightarrow> BlockFilterWriter \<Rightarrow> ((ErrorKind + nat) \<times> BlockFilterWriter) option" where
  "block_writer_finish oc w = map_option (\<lambda>(r, g). (r, w\<lparr> bf_writer := g \<rparr>)) (gcs_finish oc (bf_writer w))"

datatype BlockFilter = BlockFilter (filter_content: bytes)

definition new_script_filter :: "bool \<Rightarrow> Block \<Rightarrow> (OutPoint \<Rightarrow> BfError + bytes) \<Rightarrow> (BfError + BlockFilter) option" where
  "new_script_filter oc b sfc =
     (let w = add_output_scripts (block_writer_new [] b)
      in case add_input_scripts sfc w of
           (Inl e, _) \<Rightarrow> Some (Inl e)
         | (Inr _, w) \<Rightarrow>
             map_option (\<lambda>(r, w). case r of Inl e \<Rightarrow> Inl (BfIo e) | Inr _ \<Rightarrow> Inr (BlockFilter (gw_writer (bf_writer w))))
               (block_writer_finish oc w))"

definition block_reader_new :: "bytes \<Rightarrow> GcsFilterReader" where
  "block_reader_new hsh = (let (k0, k1) = filter_keys hsh in gcs_reader_new k0 k1 FILTER_M FILTER_P)"

definition match_any :: "bool \<Rightarrow> BlockFilter \<Rightarrow> bytes \<Rightarrow> bytes list \<Rightarrow> (BfError + bool) option" where
  "match_any oc f hsh query = gcs_match_any oc (block_reader_new hsh) (filter_content f) query"

definition match_all :: "bool \<Rightarrow> BlockFilter \<Rightarrow> bytes \<Rightarrow> bytes list \<Rightarrow> (BfError + bool) option" where
  "match_all oc f hsh query = gcs_match_all oc (block_reader_new hsh) (filter_content f) query"

definition filter_hash_header :: "bytes \<Rightarrow> bytes \<Rightarrow> bytes" where
  "filter_hash_header filter_hash previous_filter_header = sha256d_hash (filter_hash @ previous_filter_header)"

definition filter_header :: "BlockFilter \<Rightarrow> bytes \<Rightarrow> bytes" where
  "filter_header f previous_filter_header = filter_hash_header (sha256d_hash (filter_content f)) previous_filter_header"

section \<open>Positions of elements\<close>

definition range_pos :: "GcsFilter \<Rightarrow> u64 \<Rightarrow> bytes \<Rightarrow> u64" where
  "range_pos f nm e = map_to_range (siphash24_ref (gcs_k0 f) (gcs_k1 f) e) nm"

lemma mapped_sorted_eq: "mapped_sorted f nm es = Some (sort (map (range_pos f nm) es))"
proof -
  have "those (map (\<lambda>e. map_option (\<lambda>h. map_to_range h nm) (gcs_hash f e)) es) = Some (map (range_pos f nm) es)"
    by (induction es) (simp_all add: gcs_hash_def hash_to_u64_eq range_pos_def)
  then show ?thesis by (simp add: mapped_sorted_def)
qed

section \<open>Sorted values as a bit stream\<close>

fun delta_bits :: "nat \<Rightarrow> u64 \<Rightarrow> u64 list \<Rightarrow> bool list" where
  "delta_bits p lst [] = []"
| "delta_bits p lst (d # ds) = golomb_rice_bits p (d - lst) @ delta_bits p d ds"

lemma write_deltas_ok:
  assumes "writer_ok s" and "gcs_p f < 64" and "sorted (lst # ds)"
  shows "\<exists>k s'. write_deltas oc f lst ds wrote s = Some (Inr (wrote + k), s') \<and> appended s (delta_bits (gcs_p f) lst ds) k s'"
  using assms
proof (induction ds arbitrary: lst wrote s)
  case Nil
  then show ?case by (auto simp: appended_def)
next
  case (Cons d ds)
  obtain j s1 where s1: "golomb_rice_encode oc f s (d - lst) = Some (Inr j, s1)" "appended s (golomb_rice_bits (gcs_p f) (d - lst)) j s1"
    using golomb_rice_encode_ok [OF Cons.prems(1,2)] by blast
  then have "writer_ok s1" by (simp add: appended_def)
  then obtain k s2 where s2: "write_deltas oc f d ds (wrote + j) s1 = Some (Inr (wrote + j + k), s2)"
      "appended s1 (delta_bits (gcs_p f) d ds) k s2"
    using Cons.IH [of s1 d "wrote + j"] Cons.prems(2,3) by auto
  have "\<not> d < lst" using Cons.prems(3) by auto
  then show ?case using s1(1) s2(1) appended_trans [OF s1(2) s2(2)] by (auto simp: add.assoc)
qed

lemma flush_pads:
  assumes "writer_ok s"
  shows "\<exists>k s' pad. flush_bits s = Some (Inr k, s') \<and> bits_of (bw_writer s') = bits_written s @ pad \<and>
    (\<exists>body. bw_writer s' = bw_writer s @ body \<and> length body = k)"
proof -
  have "bits_of (bw_writer s @ [bw_buffer s]) = bits_written s @ drop (bw_offset s) (bits8 (bw_buffer s))"
    by (simp add: bits_written_def)
  then show ?thesis
    by (cases "bw_offset s = 0") (simp add: flush_bits_eq bits_written_def, fastforce simp: flush_bits_eq)
qed

lemma word_len: "length xs < 2 ^ 64 \<Longrightarrow> unat (word_of_nat (length xs) :: u64) = length xs"
  by (simp add: unat_of_nat)

lemma gcs_finish_ok:
  assumes "gcs_p (gw_filter g) < 64" and "length (elements g) < 2 ^ 64" and "length (elements g) * unat (gw_m g) < 2 ^ 64"
  shows "\<exists>body pad. gcs_finish oc g =
      Some (Inr (length (fst (enc_VarInt (VarInt (word_of_nat (length (elements g)))))) + length body),
            g\<lparr> gw_writer := gw_writer g @ fst (enc_VarInt (VarInt (word_of_nat (length (elements g))))) @ body \<rparr>) \<and>
      bits_of body = delta_bits (gcs_p (gw_filter g)) 0
        (sort (map (range_pos (gw_filter g) (word_of_nat (length (elements g)) * gw_m g)) (elements g))) @ pad"
proof -
  let ?f = "gw_filter g" and ?n = "word_of_nat (length (elements g)) :: u64"
  let ?vs = "sort (map (range_pos ?f (?n * gw_m g)) (elements g))"
  obtain hd where hd: "enc_VarInt (VarInt ?n) = (hd, length hd)" by (metis varint_len prod.collapse)
  let ?s0 = "bit_writer_new (gw_writer g @ hd)"
  have nm: "mul_oc oc ?n (gw_m g) = Some (?n * gw_m g)"
    using assms(2,3) by (simp add: mul_oc_def word_len)
  obtain k s1 where s1: "write_deltas oc ?f 0 ?vs (length hd) ?s0 = Some (Inr (length hd + k), s1)"
      "appended ?s0 (delta_bits (gcs_p ?f) 0 ?vs) k s1"
    using write_deltas_ok [OF _ assms(1), of ?s0 0 ?vs oc "length hd"] by auto
  then obtain b1 where b1: "writer_ok s1" "bits_written s1 = bits_of (gw_writer g @ hd) @ delta_bits (gcs_p ?f) 0 ?vs"
      "bw_writer s1 = (gw_writer g @ hd) @ b1" "length b1 = k"
    using bit_writer_new_ok(2) [of "gw_writer g @ hd"] by (auto simp: appended_def simp del: bits_of_simps) (simp add: bit_writer_new_def)
  obtain j s2 pad b2 where s2: "flush_bits s1 = Some (Inr j, s2)" "bits_of (bw_writer s2) = bits_written s1 @ pad"
      "bw_writer s2 = bw_writer s1 @ b2" "length b2 = j"
    using flush_pads [OF b1(1)] by blast
  have "gcs_finish oc g = Some (Inr (length hd + k + j), g\<lparr> gw_writer := bw_writer s2 \<rparr>)"
    unfolding gcs_finish_def nm mapped_sorted_eq by (simp add: hd s1(1) s2(1))
  moreover have "bits_of (b1 @ b2) = delta_bits (gcs_p ?f) 0 ?vs @ pad"
    using s2(2) unfolding s2(3) b1(2,3) by simp
  ultimately show ?thesis
    using b1(3,4) s2(3,4) by (intro exI [of _ "b1 @ b2"] exI [of _ pad]) (simp add: hd add.assoc)
qed

section \<open>Merging a query with the stream\<close>

lemma next_data_ok:
  assumes "reader_ok s" and "bits_left s = golomb_rice_bits (gcs_p f) (v - d) @ bs" and "d \<le> v" and "gcs_p f < 64"
  shows "\<exists>s'. next_data oc f d s = Some (Inr (v, s')) \<and> reader_ok s' \<and> bits_left s' = bs"
proof -
  obtain s' where s': "golomb_rice_decode oc f s = Some (Inr (v - d), s')" "reader_ok s'" "bits_left s' = bs"
    using golomb_rice_decode_ok [OF assms(1,2,4)] by blast
  have "unat d + unat (v - d) = unat v" using assms(3) by (simp add: unat_sub word_le_nat_alt)
  then have "add_oc oc d (v - d) = Some v" using unat_u64 [of v] by (simp add: add_oc_def)
  then show ?thesis using s' by (simp add: next_data_def)
qed

lemma left_pos: "length (v # vs) < 2 ^ 64 \<Longrightarrow> (0 :: u64) < word_of_nat (length (v # vs))"
  by (simp only: word_less_nat_alt word_len) simp

lemma left_pred: "(word_of_nat (length (v # vs)) :: u64) - 1 = word_of_nat (length vs)"
  by simp

lemma match_any_next:
  "d < p \<Longrightarrow> 0 < n \<Longrightarrow> next_data oc f d s = Some (Inr (v, s')) \<Longrightarrow>
   match_any_loop oc f (p # ps) d n s = match_any_loop oc f (p # ps) v (n - 1) s'"
  by (subst match_any_loop.simps(2)) (auto simp del: match_any_loop.simps)

lemma match_all_next:
  "d < p \<Longrightarrow> 0 < n \<Longrightarrow> next_data oc f d s = Some (Inr (v, s')) \<Longrightarrow>
   match_all_loop oc f (p # ps) d n s = match_all_loop oc f (p # ps) v (n - 1) s'"
  by (subst match_all_loop.simps(2)) (auto simp del: match_all_loop.simps)

lemma match_any_loop_ok:
  assumes "sorted ps" and "sorted (d # vs)" and "length vs < 2 ^ 64" and "gcs_p f < 64"
    and "reader_ok s" and "bits_left s = delta_bits (gcs_p f) d vs @ pad"
  shows "match_any_loop oc f ps d (word_of_nat (length vs)) s = Some (Inr (\<exists>x. x \<in> set ps \<and> x \<in> set (d # vs)))"
  using assms
proof (induction "length ps + length vs" arbitrary: ps d vs s rule: less_induct)
  case less
  show ?case
  proof (cases ps)
    case (Cons p ps')
    then consider "d = p" | (lt) "d < p" | (gt) "p < d" by (metis linorder_cases)
    then show ?thesis
    proof cases
      case lt
      then have notin: "d \<notin> set ps" using less.prems(1) Cons by auto
      show ?thesis
      proof (cases vs)
        case Nil
        then show ?thesis using lt Cons notin by (auto simp del: of_nat_Suc)
      next
        case v: (Cons v vs')
        obtain s' where s': "next_data oc f d s = Some (Inr (v, s'))" "reader_ok s'" "bits_left s' = delta_bits (gcs_p f) v vs' @ pad"
          using next_data_ok [OF less.prems(5), of f v d "delta_bits (gcs_p f) v vs' @ pad" oc] less.prems(2,4,6) v by auto
        have "match_any_loop oc f ps v (word_of_nat (length vs')) s' = Some (Inr (\<exists>x. x \<in> set ps \<and> x \<in> set (v # vs')))"
          using less.hyps [of ps vs' v s'] less.prems v s'(2,3) by simp
        moreover have "match_any_loop oc f ps d (word_of_nat (length vs)) s = match_any_loop oc f ps v (word_of_nat (length vs')) s'"
          using match_any_next [OF lt left_pos [of v vs'] s'(1), of ps'] less.prems(3) unfolding Cons v left_pred by blast
        ultimately show ?thesis using v notin by auto
      qed
    next
      case gt
      have "match_any_loop oc f ps' d (word_of_nat (length vs)) s = Some (Inr (\<exists>x. x \<in> set ps' \<and> x \<in> set (d # vs)))"
        using less.hyps [of ps' vs d s] less.prems Cons by simp
      moreover have "p \<notin> set (d # vs)" using gt less.prems(2) by auto
      ultimately show ?thesis using gt Cons by auto
    qed (use Cons in auto)
  qed simp
qed

lemma match_all_loop_ok:
  assumes "sorted ps" and "sorted (d # vs)" and "length vs < 2 ^ 64" and "gcs_p f < 64"
    and "reader_ok s" and "bits_left s = delta_bits (gcs_p f) d vs @ pad"
  shows "match_all_loop oc f ps d (word_of_nat (length vs)) s = Some (Inr (set ps \<subseteq> set (d # vs)))"
  using assms
proof (induction "length ps + length vs" arbitrary: ps d vs s rule: less_induct)
  case less
  show ?case
  proof (cases ps)
    case (Cons p ps')
    then consider (eq) "d = p" | (lt) "d < p" | (gt) "p < d" by (metis linorder_cases)
    then show ?thesis
    proof cases
      case eq
      have "match_all_loop oc f ps' d (word_of_nat (length vs)) s = Some (Inr (set ps' \<subseteq> set (d # vs)))"
        using less.hyps [of ps' vs d s] less.prems Cons by simp
      then show ?thesis using eq Cons by auto
    next
      case lt
      then have notin: "d \<notin> set ps" using less.prems(1) Cons by auto
      show ?thesis
      proof (cases vs)
        case Nil
        then show ?thesis using lt Cons notin by (auto simp del: of_nat_Suc)
      next
        case v: (Cons v vs')
        obtain s' where s': "next_data oc f d s = Some (Inr (v, s'))" "reader_ok s'" "bits_left s' = delta_bits (gcs_p f) v vs' @ pad"
          using next_data_ok [OF less.prems(5), of f v d "delta_bits (gcs_p f) v vs' @ pad" oc] less.prems(2,4,6) v by auto
        have "match_all_loop oc f ps v (word_of_nat (length vs')) s' = Some (Inr (set ps \<subseteq> set (v # vs')))"
          using less.hyps [of ps vs' v s'] less.prems v s'(2,3) by simp
        moreover have "match_all_loop oc f ps d (word_of_nat (length vs)) s = match_all_loop oc f ps v (word_of_nat (length vs')) s'"
          using match_all_next [OF lt left_pos [of v vs'] s'(1), of ps'] less.prems(3) unfolding Cons v left_pred by blast
        ultimately show ?thesis using v notin by auto
      qed
    next
      case gt
      then have "p \<notin> set (d # vs)" using less.prems(2) by auto
      then show ?thesis using gt Cons by auto
    qed
  qed simp
qed

section \<open>A filter answers for the elements it was made of\<close>

definition filter_bytes :: "GcsFilter \<Rightarrow> u64 \<Rightarrow> bytes list \<Rightarrow> bytes \<Rightarrow> bool" where
  "filter_bytes f m es rd \<longleftrightarrow>
     (\<exists>body pad. rd = fst (enc_VarInt (VarInt (word_of_nat (length es)))) @ body \<and>
        bits_of body = delta_bits (gcs_p f) 0 (sort (map (range_pos f (word_of_nat (length es) * m)) es)) @ pad)"

definition hits :: "GcsFilter \<Rightarrow> u64 \<Rightarrow> bytes list \<Rightarrow> bytes \<Rightarrow> bool" where
  "hits f m es q \<longleftrightarrow> range_pos f (word_of_nat (length es) * m) q \<in> range_pos f (word_of_nat (length es) * m) ` set es"

lemma set_sorted_pos: "set (sort (map (range_pos f nm) es)) = range_pos f nm ` set es"
  by simp

text \<open>What both queries do first: the count, the range, and the first element.\<close>

lemma filter_opening:
  assumes "filter_bytes f m es rd" and "gcs_p f < 64" and "length es < 2 ^ 64" and "length es * unat m < 2 ^ 64"
  obtains r where "n_elements rd = (word_of_nat (length es), r)"
    and "mul_oc oc (word_of_nat (length es)) m = Some (word_of_nat (length es) * m)"
    and "\<And>v vs. sort (map (range_pos f (word_of_nat (length es) * m)) es) = v # vs \<Longrightarrow>
           \<exists>s pad. golomb_rice_decode oc f (bit_reader_new r) = Some (Inr v, s) \<and> reader_ok s \<and>
                   bits_left s = delta_bits (gcs_p f) v vs @ pad"
proof -
  obtain body pad where b: "rd = fst (enc_VarInt (VarInt (word_of_nat (length es)))) @ body"
      "bits_of body = delta_bits (gcs_p f) 0 (sort (map (range_pos f (word_of_nat (length es) * m)) es)) @ pad"
    using assms(1) by (auto simp: filter_bytes_def)
  have "n_elements rd = (word_of_nat (length es), body)" by (simp add: n_elements_def b(1) varint_roundtrip)
  moreover have "mul_oc oc (word_of_nat (length es)) m = Some (word_of_nat (length es) * m)"
    using assms(3,4) by (simp add: mul_oc_def word_len)
  moreover have "\<exists>s pad. golomb_rice_decode oc f (bit_reader_new body) = Some (Inr v, s) \<and> reader_ok s \<and>
      bits_left s = delta_bits (gcs_p f) v vs @ pad"
    if "sort (map (range_pos f (word_of_nat (length es) * m)) es) = v # vs" for v vs
    using golomb_rice_decode_ok [of "bit_reader_new body" f v "delta_bits (gcs_p f) v vs @ pad" oc] b(2) assms(2) that by auto
  ultimately show thesis by (rule that)
qed

lemma count_pred:
  assumes "sort (map h es) = v # vs"
  shows "(word_of_nat (length es) :: u64) - 1 = word_of_nat (length vs)"
    and "length es < 2 ^ 64 \<Longrightarrow> (word_of_nat (length es) :: u64) \<noteq> 0 \<and> length vs < 2 ^ 64"
proof -
  have l: "length es = length (v # vs)" using arg_cong [OF assms, of length] by simp
  show "(word_of_nat (length es) :: u64) - 1 = word_of_nat (length vs)" unfolding l by (rule left_pred)
  assume "length es < 2 ^ 64"
  then show "(word_of_nat (length es) :: u64) \<noteq> 0 \<and> length vs < 2 ^ 64"
    using left_pos [of v vs] l by (simp del: of_nat_Suc)
qed

lemma gcs_match_any_ok:
  assumes "filter_bytes (gr_filter g) (gr_m g) es rd" and "gcs_p (gr_filter g) < 64"
    and "length es < 2 ^ 64" and "length es * unat (gr_m g) < 2 ^ 64"
  shows "gcs_match_any oc g rd query = Some (Inr (query = [] \<or> (\<exists>q. q \<in> set query \<and> hits (gr_filter g) (gr_m g) es q)))"
proof -
  let ?f = "gr_filter g" and ?nm = "word_of_nat (length es) * gr_m g" and ?n = "word_of_nat (length es) :: u64"
  obtain r where r: "n_elements rd = (?n, r)" "mul_oc oc ?n (gr_m g) = Some ?nm"
      "\<And>v vs. sort (map (range_pos ?f ?nm) es) = v # vs \<Longrightarrow>
         \<exists>s pad. golomb_rice_decode oc ?f (bit_reader_new r) = Some (Inr v, s) \<and> reader_ok s \<and> bits_left s = delta_bits (gcs_p ?f) v vs @ pad"
    using filter_opening [OF assms, of oc] by metis
  let ?mq = "sort (map (range_pos ?f ?nm) query)"
  have e: "?mq = [] \<longleftrightarrow> query = []" by (metis length_0_conv length_map length_sort)
  show ?thesis
  proof (cases "sort (map (range_pos ?f ?nm) es)")
    case Nil
    then have "es = []" by (metis length_0_conv length_map length_sort)
    then show ?thesis using e by (simp add: gcs_match_any_def r(1) mul_oc_def mapped_sorted_eq hits_def)
  next
    case (Cons v vs)
    obtain s pad where s: "golomb_rice_decode oc ?f (bit_reader_new r) = Some (Inr v, s)" "reader_ok s"
        "bits_left s = delta_bits (gcs_p ?f) v vs @ pad"
      using r(3) [OF Cons] by blast
    have "sorted (v # vs)" using Cons sorted_sort by metis
    then have m: "match_any_loop oc ?f ?mq v (word_of_nat (length vs)) s = Some (Inr (\<exists>x. x \<in> set ?mq \<and> x \<in> set (v # vs)))"
      by (rule match_any_loop_ok [OF sorted_sort _ conjunct2 [OF count_pred(2) [OF Cons assms(3)]] assms(2) s(2,3)])
    have "set (v # vs) = range_pos ?f ?nm ` set es" using set_sorted_pos [of ?f ?nm es] Cons by simp
    then have "(\<exists>x. x \<in> set ?mq \<and> x \<in> set (v # vs)) \<longleftrightarrow> (\<exists>q. q \<in> set query \<and> hits ?f (gr_m g) es q)"
      by (auto simp: hits_def)
    then show ?thesis
      using e count_pred [OF Cons] assms(3) m
      by (auto simp: gcs_match_any_def r(1,2) mapped_sorted_eq s(1) simp del: match_any_loop.simps)
  qed
qed

lemma gcs_match_all_ok:
  assumes "filter_bytes (gr_filter g) (gr_m g) es rd" and "gcs_p (gr_filter g) < 64"
    and "length es < 2 ^ 64" and "length es * unat (gr_m g) < 2 ^ 64"
  shows "gcs_match_all oc g rd query = Some (Inr (\<forall>q. q \<in> set query \<longrightarrow> hits (gr_filter g) (gr_m g) es q))"
proof -
  let ?f = "gr_filter g" and ?nm = "word_of_nat (length es) * gr_m g" and ?n = "word_of_nat (length es) :: u64"
  obtain r where r: "n_elements rd = (?n, r)" "mul_oc oc ?n (gr_m g) = Some ?nm"
      "\<And>v vs. sort (map (range_pos ?f ?nm) es) = v # vs \<Longrightarrow>
         \<exists>s pad. golomb_rice_decode oc ?f (bit_reader_new r) = Some (Inr v, s) \<and> reader_ok s \<and> bits_left s = delta_bits (gcs_p ?f) v vs @ pad"
    using filter_opening [OF assms, of oc] by metis
  let ?mq = "remdups_adj (sort (map (range_pos ?f ?nm) query))"
  have e: "?mq = [] \<longleftrightarrow> query = []" by (metis length_0_conv length_map length_sort remdups_adj_Nil_iff)
  show ?thesis
  proof (cases "sort (map (range_pos ?f ?nm) es)")
    case Nil
    then have "es = []" by (metis length_0_conv length_map length_sort)
    moreover have "query = [] \<longleftrightarrow> (\<forall>q. q \<notin> set query)" by (cases query) auto
    ultimately show ?thesis using e by (simp add: gcs_match_all_def r(1) mul_oc_def mapped_sorted_eq hits_def)
  next
    case (Cons v vs)
    obtain s pad where s: "golomb_rice_decode oc ?f (bit_reader_new r) = Some (Inr v, s)" "reader_ok s"
        "bits_left s = delta_bits (gcs_p ?f) v vs @ pad"
      using r(3) [OF Cons] by blast
    have "sorted (v # vs)" using Cons sorted_sort by metis
    then have m: "match_all_loop oc ?f ?mq v (word_of_nat (length vs)) s = Some (Inr (set ?mq \<subseteq> set (v # vs)))"
      by (rule match_all_loop_ok [OF sorted_remdups_adj [OF sorted_sort] _ conjunct2 [OF count_pred(2) [OF Cons assms(3)]] assms(2) s(2,3)])
    have "set (v # vs) = range_pos ?f ?nm ` set es" using set_sorted_pos [of ?f ?nm es] Cons by simp
    then have "set ?mq \<subseteq> set (v # vs) \<longleftrightarrow> (\<forall>q. q \<in> set query \<longrightarrow> hits ?f (gr_m g) es q)"
      by (auto simp: hits_def)
    then show ?thesis
      using e count_pred [OF Cons] assms(3) m
      by (auto simp: gcs_match_all_def r(1,2) mapped_sorted_eq s(1) simp del: match_all_loop.simps)
  qed
qed

section \<open>Matching ends on every input\<close>

lemma next_data_total:
  assumes "reader_ok s"
  shows "\<exists>v. next_data False f d s = Some v \<and> (\<forall>x s'. v = Inr (x, s') \<longrightarrow> reader_ok s')"
proof -
  obtain v s' where "golomb_rice_decode False f s = Some (v, s')" "reader_ok s'"
    using golomb_rice_decode_total [OF assms] by blast
  then show ?thesis by (cases v) (simp_all add: next_data_def add_oc_def)
qed

lemma match_any_loop_total: "reader_ok s \<Longrightarrow> match_any_loop False f ps d n s \<noteq> None"
proof (induction False f ps d n s rule: match_any_loop.induct)
  case (2 f p ps d n s)
  obtain v where v: "next_data False f d s = Some v" "\<And>x s'. v = Inr (x, s') \<Longrightarrow> reader_ok s'"
    using next_data_total [OF "2.prems"] by blast
  then show ?case using 2
    by (subst match_any_loop.simps(2)) (auto simp del: match_any_loop.simps split: sum.splits)
qed simp

lemma match_all_loop_total: "reader_ok s \<Longrightarrow> match_all_loop False f ps d n s \<noteq> None"
proof (induction False f ps d n s rule: match_all_loop.induct)
  case (2 f p ps d n s)
  obtain v where v: "next_data False f d s = Some v" "\<And>x s'. v = Inr (x, s') \<Longrightarrow> reader_ok s'"
    using next_data_total [OF "2.prems"] by blast
  then show ?case using 2
    by (subst match_all_loop.simps(2)) (auto simp del: match_all_loop.simps split: sum.splits)
qed simp

lemma gcs_match_total: "gcs_match_any False g rd query \<noteq> None \<and> gcs_match_all False g rd query \<noteq> None"
proof -
  obtain n r where n: "n_elements rd = (n, r)" by fastforce
  obtain v s where "golomb_rice_decode False (gr_filter g) (bit_reader_new r) = Some (v, s)" "reader_ok s"
    using golomb_rice_decode_total [of "bit_reader_new r" "gr_filter g"] by auto
  then show ?thesis
    using match_any_loop_total match_all_loop_total
    by (cases v) (auto simp: gcs_match_any_def gcs_match_all_def n mul_oc_def mapped_sorted_eq)
qed

section \<open>The scripts of a block\<close>

definition output_scripts :: "Block \<Rightarrow> bytes list" where
  "output_scripts b = filter (\<lambda>s. \<not> is_op_return s) (concat (map (\<lambda>t. map script_pubkey (tx_output t)) (txdata b)))"

text \<open>What a filter of a block is meant to hold: the scripts it creates, but for those of \<open>OP_RETURN\<close>, and the ones it spends.\<close>

definition filter_scripts :: "Block \<Rightarrow> (OutPoint \<Rightarrow> BfError + bytes) \<Rightarrow> bytes list" where
  "filter_scripts b sfc =
     filter (\<lambda>s. s \<noteq> []) (output_scripts b @ concat (map (\<lambda>c. case sfc c of Inr s \<Rightarrow> [s] | Inl _ \<Rightarrow> []) (spent_coins b)))"

definition writer_with :: "Block \<Rightarrow> bytes list \<Rightarrow> BlockFilterWriter" where
  "writer_with b es =
     (let w = block_writer_new [] b in w\<lparr> bf_writer := bf_writer w\<lparr> elements := sort (remdups (filter (\<lambda>s. s \<noteq> []) es)) \<rparr> \<rparr>)"

lemma insort_insert_sort: "insort_insert e (sort (remdups es)) = sort (remdups (es @ [e :: bytes]))"
proof (rule sorted_distinct_set_unique)
  show "sorted (insort_insert e (sort (remdups es)))" by (simp add: sorted_insort_insert)
  show "distinct (insort_insert e (sort (remdups es)))" by (simp add: distinct_insort_insert)
qed (simp_all add: set_insort_insert)

lemma add_element_with: "add_element e (writer_with b es) = writer_with b (es @ [e])"
  by (simp add: add_element_def gcs_add_element_def writer_with_def Let_def insort_insert_sort)

lemma add_outputs_with:
  "fold (\<lambda>out w. if \<not> is_op_return (script_pubkey out) then add_element (script_pubkey out) w else w) outs (writer_with b es) =
   writer_with b (es @ filter (\<lambda>s. \<not> is_op_return s) (map script_pubkey outs))"
  by (induction outs arbitrary: es) (simp_all add: add_element_with)

lemma add_txs_with:
  "fold (\<lambda>tx w. fold (\<lambda>out w. if \<not> is_op_return (script_pubkey out) then add_element (script_pubkey out) w else w) (tx_output tx) w) txs
     (writer_with b es) =
   writer_with b (es @ filter (\<lambda>s. \<not> is_op_return s) (concat (map (\<lambda>t. map script_pubkey (tx_output t)) txs)))"
  by (induction txs arbitrary: es) (simp_all add: add_outputs_with del: fold_simps(2) add: fold_simps(2) [of _ "_ :: Transaction"])

lemma writer_with_Nil: "block_writer_new [] b = writer_with b []"
  by (simp add: writer_with_def block_writer_new_def gcs_writer_new_def Let_def split_beta)

lemma writer_with_fields:
  "bf_block (writer_with b es) = b"
  "gw_filter (bf_writer (writer_with b es)) = gr_filter (block_reader_new (block_hash (blk_header b)))"
  "gw_m (bf_writer (writer_with b es)) = gr_m (block_reader_new (block_hash (blk_header b)))"
  "gw_writer (bf_writer (writer_with b es)) = []"
  "elements (bf_writer (writer_with b es)) = sort (remdups (filter (\<lambda>s. s \<noteq> []) es))"
  by (simp_all add: writer_with_def block_writer_new_def gcs_writer_new_def block_reader_new_def gcs_reader_new_def Let_def split_beta)

lemma add_output_scripts_with: "add_output_scripts (block_writer_new [] b) = writer_with b (output_scripts b)"
  using add_txs_with [of "txdata b" b "[]"] by (simp add: add_output_scripts_def writer_with_Nil writer_with_fields output_scripts_def)

lemma add_coins_with:
  "find (\<lambda>c. isl (sfc c)) cs = None \<Longrightarrow>
   add_coin_scripts sfc cs (writer_with b es) =
     (Inr (), writer_with b (es @ concat (map (\<lambda>c. case sfc c of Inr s \<Rightarrow> [s] | Inl _ \<Rightarrow> []) cs)))"
  by (induction cs arbitrary: es) (auto simp: add_element_with split: sum.splits if_splits)

lemma add_coins_fails: "find (\<lambda>c. isl (sfc c)) cs = Some c \<Longrightarrow> fst (add_coin_scripts sfc cs w) = Inl (projl (sfc c))"
  by (induction cs arbitrary: w) (auto split: sum.splits if_splits)

lemma filter_params:
  "gcs_p (gr_filter (block_reader_new h)) = 19" "gr_m (block_reader_new h) = 784931"
  by (simp_all add: block_reader_new_def gcs_reader_new_def gcs_filter_new_def FILTER_P_def FILTER_M_def split_beta)

lemma new_script_filter_ok:
  assumes "find (\<lambda>c. isl (sfc c)) (spent_coins b) = None" and "card (set (filter_scripts b sfc)) * 784931 < 2 ^ 64"
  defines "es \<equiv> sort (remdups (filter_scripts b sfc))" and "g \<equiv> block_reader_new (block_hash (blk_header b))"
  shows "\<exists>rd. new_script_filter oc b sfc = Some (Inr (BlockFilter rd)) \<and> filter_bytes (gr_filter g) (gr_m g) es rd \<and>
    length es < 2 ^ 64 \<and> length es * unat (gr_m g) < 2 ^ 64"
proof -
  let ?w = "writer_with b (output_scripts b @ concat (map (\<lambda>c. case sfc c of Inr s \<Rightarrow> [s] | Inl _ \<Rightarrow> []) (spent_coins b)))"
  have w: "add_input_scripts sfc (writer_with b (output_scripts b)) = (Inr (), ?w)"
    using add_coins_with [of sfc "spent_coins b" b "output_scripts b"] assms(1) by (simp add: add_input_scripts_def writer_with_fields(1))
  have es: "elements (bf_writer ?w) = es" by (simp add: writer_with_fields(5) es_def filter_scripts_def)
  have n: "length es = card (set (filter_scripts b sfc))" by (simp add: es_def length_remdups_card_conv)
  then have len: "length es * unat (gr_m g) < 2 ^ 64" "length es < 2 ^ 64"
    using assms(2) by (simp_all add: g_def filter_params)
  obtain body pad where f: "gcs_finish oc (bf_writer ?w) =
      Some (Inr (length (fst (enc_VarInt (VarInt (word_of_nat (length es))))) + length body),
            (bf_writer ?w)\<lparr> gw_writer := fst (enc_VarInt (VarInt (word_of_nat (length es)))) @ body \<rparr>)"
      "bits_of body = delta_bits (gcs_p (gr_filter g)) 0 (sort (map (range_pos (gr_filter g) (word_of_nat (length es) * gr_m g)) es)) @ pad"
    using gcs_finish_ok [of "bf_writer ?w" oc] len unfolding es writer_with_fields(2,3,4) g_def [symmetric]
    by (auto simp: g_def filter_params(1))
  have "new_script_filter oc b sfc = Some (Inr (BlockFilter (fst (enc_VarInt (VarInt (word_of_nat (length es)))) @ body)))"
    by (simp add: new_script_filter_def add_output_scripts_with w block_writer_finish_def f(1))
  then show ?thesis using f(2) len by (auto simp: filter_bytes_def)
qed

definition filter_sample :: Block where
  "filter_sample = sample_block\<lparr> txdata := [sample_tx\<lparr> tx_output := [\<lparr> txout_value = 1, script_pubkey = [0x51] \<rparr>] \<rparr>, sample_tx] \<rparr>"

section \<open>Properties\<close>

text \<open>(C12) Making and querying the filter of a block: the first coin that cannot be resolved is reported; otherwise the filter is
  written, and a query for any (all) of some scripts answers exactly whether one (each) of them shares its position with
  a script of the block. In particular a script of the block is never missed.\<close>

theorem block_filter_exact:
  fixes b sfc
  defines "es \<equiv> sort (remdups (filter_scripts b sfc))"
    and "f \<equiv> gcs_filter_new (from_le_bytes (take 8 (block_hash (blk_header b)))) (from_le_bytes (take 8 (drop 8 (block_hash (blk_header b))))) 19"
  assumes "card (set (filter_scripts b sfc)) * 784931 < 2 ^ 64"
  shows "case find (\<lambda>c. isl (sfc c)) (spent_coins b) of
      Some c \<Rightarrow> new_script_filter oc b sfc = Some (Inl (projl (sfc c)))
    | None \<Rightarrow> \<exists>bf. new_script_filter oc b sfc = Some (Inr bf) \<and>
        (\<forall>query. match_any oc bf (block_hash (blk_header b)) query =
           Some (Inr (query = [] \<or> (\<exists>q. q \<in> set query \<and> hits f 784931 es q)))) \<and>
        (\<forall>query. match_all oc bf (block_hash (blk_header b)) query = Some (Inr (list_all (hits f 784931 es) query))) \<and>
        list_all (hits f 784931 es) (filter_scripts b sfc)"
proof (cases "find (\<lambda>c. isl (sfc c)) (spent_coins b)")
  case (Some c)
  obtain r w where "add_coin_scripts sfc (spent_coins b) (writer_with b (output_scripts b)) = (r, w)" by fastforce
  then show ?thesis using add_coins_fails [OF Some, of "writer_with b (output_scripts b)"] Some
    by (simp add: new_script_filter_def add_output_scripts_with add_input_scripts_def writer_with_fields(1))
next
  case None
  let ?g = "block_reader_new (block_hash (blk_header b))"
  have f: "gr_filter ?g = f"
    by (simp add: f_def block_reader_new_def gcs_reader_new_def filter_keys_def FILTER_P_def)
  obtain rd where rd: "new_script_filter oc b sfc = Some (Inr (BlockFilter rd))" "filter_bytes f 784931 es rd"
      "length es < 2 ^ 64" "length es * unat (784931 :: u64) < 2 ^ 64"
    using new_script_filter_ok [OF None assms(3), of oc] unfolding es_def f filter_params(2) by blast
  have q: "gcs_match_any oc ?g rd query = Some (Inr (query = [] \<or> (\<exists>q. q \<in> set query \<and> hits f 784931 es q)))"
    "gcs_match_all oc ?g rd query = Some (Inr (\<forall>q. q \<in> set query \<longrightarrow> hits f 784931 es q))" for query
    using gcs_match_any_ok [of ?g es rd oc query] gcs_match_all_ok [of ?g es rd oc query] rd(2-4)
    unfolding f filter_params(2) by (simp_all add: f [symmetric] filter_params(1))
  have "list_all (hits f 784931 es) (filter_scripts b sfc)" by (auto simp: list_all_iff hits_def es_def)
  then show ?thesis using rd(1) q None by (auto simp: match_any_def match_all_def list_all_iff)
qed

theorem block_filter_exact_witness:
  "\<exists>bf. new_script_filter True filter_sample (\<lambda>c. Inr [0x52]) = Some (Inr bf) \<and>
     match_any True bf (block_hash (blk_header filter_sample)) [[0x51], [0x53]] = Some (Inr True) \<and>
     match_all True bf (block_hash (blk_header filter_sample)) [[0x52], [0x51]] = Some (Inr True)"
proof -
  let ?es = "filter_scripts filter_sample (\<lambda>c. Inr [0x52])"
  have es: "?es = [[0x51], [0x52]]"
    by (simp add: filter_scripts_def output_scripts_def spent_coins_def filter_sample_def sample_tx_def is_op_return_def)
  have n: "find (\<lambda>c. isl (Inr [0x52 :: u8] :: BfError + bytes)) (spent_coins filter_sample) = None" by (simp add: find_None_iff)
  have "card (set ?es) * 784931 < 2 ^ 64" by (simp add: es)
  from block_filter_exact [OF this, of True] show ?thesis
    unfolding n option.case es list_all_iff by (elim exE) auto
qed

text \<open>(C35) Matching any bytes ends with an answer or an error, in builds without overflow checks.\<close>

theorem filter_match_total:
  "(\<exists>r. match_any False bf hsh query = Some r) \<and> (\<exists>r. match_all False bf hsh query = Some r)"
  by (simp_all add: match_any_def match_all_def gcs_match_total [simplified])

text \<open>With overflow checks the count of a filter received from a peer makes a query panic: every count whose product with
  784931 exceeds 64 bits.\<close>

theorem filter_count_overflow:
  "match_any True (BlockFilter (fst (enc_VarInt (VarInt n)) @ rest)) hsh query = None"
  if "2 ^ 64 \<le> unat n * 784931"
  using that by (simp add: match_any_def gcs_match_any_def n_elements_def varint_roundtrip filter_params mul_oc_def)

end
