(* ===== verification/Sha512.thy ===== *)
theory Sha512
  imports Sha256
begin

text \<open>
  SHA-512, SHA-384 and SHA-512/256 (\<open>hashes/src/sha512.rs\<close>, \<open>sha384.rs\<close>, \<open>sha512_256.rs\<close>) and SHA-1 (\<open>sha1.rs\<close>) on the block
  engine. As for SHA-256 the model rotates the registers after each
  call of \<open>round!\<close> instead of renaming them. SHA-512 is shown equal to the function of the standard, with its schedule of eighty
  words, and SHA-1 to the function of the standard with its schedule as a recurrence.
\<close>

section \<open>SHA-512\<close>

definition Ch512 :: "u64 \<Rightarrow> u64 \<Rightarrow> u64 \<Rightarrow> u64" where "Ch512 x y z = z XOR (x AND (y XOR z))"
definition Maj512 :: "u64 \<Rightarrow> u64 \<Rightarrow> u64 \<Rightarrow> u64" where "Maj512 x y z = (x AND y) OR (z AND (x OR y))"
definition Sigma0_512 :: "u64 \<Rightarrow> u64" where "Sigma0_512 x = word_rotl 36 x XOR word_rotl 30 x XOR word_rotl 25 x"
definition Sigma1_512 :: "u64 \<Rightarrow> u64" where "Sigma1_512 x = word_rotl 50 x XOR word_rotl 46 x XOR word_rotl 23 x"
definition sigma0_512 :: "u64 \<Rightarrow> u64" where "sigma0_512 x = word_rotl 63 x XOR word_rotl 56 x XOR drop_bit 7 x"
definition sigma1_512 :: "u64 \<Rightarrow> u64" where "sigma1_512 x = word_rotl 45 x XOR word_rotl 3 x XOR drop_bit 6 x"

type_synonym regs512 = "u64 \<times> u64 \<times> u64 \<times> u64 \<times> u64 \<times> u64 \<times> u64 \<times> u64"

fun round512_first :: "u64 \<Rightarrow> u64 \<Rightarrow> regs512 \<Rightarrow> regs512" where
  "round512_first k w (a, b, c, d, e, f, g, h) =
     (let t1 = h + Sigma1_512 e + Ch512 e f g + k + w; t2 = Sigma0_512 a + Maj512 a b c
      in (t1 + t2, a, b, c, d + t1, e, f, g))"

definition round512_later :: "u64 \<Rightarrow> nat \<Rightarrow> nat \<Rightarrow> nat \<Rightarrow> nat \<Rightarrow> regs512 \<times> u64 list \<Rightarrow> regs512 \<times> u64 list" where
  "round512_later k i i1 i2 i3 s =
     (let (r, w) = s; w' = w[i := w ! i + sigma1_512 (w ! i1) + w ! i2 + sigma0_512 (w ! i3)]
      in (round512_first k (w' ! i) r, w'))"

text \<open>The constant and the word of the schedule in each of the eighty unrolled calls of \<open>round!\<close>.\<close>

definition round512_calls :: "(u64 \<times> nat) list" where
  "round512_calls = [
      (0x428a2f98d728ae22, 0), (0x7137449123ef65cd, 1), (0xb5c0fbcfec4d3b2f, 2), (0xe9b5dba58189dbbc, 3),
      (0x3956c25bf348b538, 4), (0x59f111f1b605d019, 5), (0x923f82a4af194f9b, 6), (0xab1c5ed5da6d8118, 7),
      (0xd807aa98a3030242, 8), (0x12835b0145706fbe, 9), (0x243185be4ee4b28c, 10), (0x550c7dc3d5ffb4e2, 11),
      (0x72be5d74f27b896f, 12), (0x80deb1fe3b1696b1, 13), (0x9bdc06a725c71235, 14), (0xc19bf174cf692694, 15),
      (0xe49b69c19ef14ad2, 0), (0xefbe4786384f25e3, 1), (0x0fc19dc68b8cd5b5, 2), (0x240ca1cc77ac9c65, 3),
      (0x2de92c6f592b0275, 4), (0x4a7484aa6ea6e483, 5), (0x5cb0a9dcbd41fbd4, 6), (0x76f988da831153b5, 7),
      (0x983e5152ee66dfab, 8), (0xa831c66d2db43210, 9), (0xb00327c898fb213f, 10), (0xbf597fc7beef0ee4, 11),
      (0xc6e00bf33da88fc2, 12), (0xd5a79147930aa725, 13), (0x06ca6351e003826f, 14), (0x142929670a0e6e70, 15),
      (0x27b70a8546d22ffc, 0), (0x2e1b21385c26c926, 1), (0x4d2c6dfc5ac42aed, 2), (0x53380d139d95b3df, 3),
      (0x650a73548baf63de, 4), (0x766a0abb3c77b2a8, 5), (0x81c2c92e47edaee6, 6), (0x92722c851482353b, 7),
      (0xa2bfe8a14cf10364, 8), (0xa81a664bbc423001, 9), (0xc24b8b70d0f89791, 10), (0xc76c51a30654be30, 11),
      (0xd192e819d6ef5218, 12), (0xd69906245565a910, 13), (0xf40e35855771202a, 14), (0x106aa07032bbd1b8, 15),
      (0x19a4c116b8d2d0c8, 0), (0x1e376c085141ab53, 1), (0x2748774cdf8eeb99, 2), (0x34b0bcb5e19b48a8, 3),
      (0x391c0cb3c5c95a63, 4), (0x4ed8aa4ae3418acb, 5), (0x5b9cca4f7763e373, 6), (0x682e6ff3d6b2b8a3, 7),
      (0x748f82ee5defb2fc, 8), (0x78a5636f43172f60, 9), (0x84c87814a1f0ab72, 10), (0x8cc702081a6439ec, 11),
      (0x90befffa23631e28, 12), (0xa4506cebde82bde9, 13), (0xbef9a3f7b2c67915, 14), (0xc67178f2e372532b, 15),
      (0xca273eceea26619c, 0), (0xd186b8c721c0c207, 1), (0xeada7dd6cde0eb1e, 2), (0xf57d4f7fee6ed178, 3),
      (0x06f067aa72176fba, 4), (0x0a637dc5a2c898a6, 5), (0x113f9804bef90dae, 6), (0x1b710b35131c471b, 7),
      (0x28db77f523047d84, 8), (0x32caab7b40c72493, 9), (0x3c9ebe0a15c9bebc, 10), (0x431d67c49c100d4c, 11),
      (0x4cc5d4becb3e42b6, 12), (0x597f299cfc657e2a, 13), (0x5fcb6fab3ad6faec, 14), (0x6c44198c4a475817, 15)]"

definition K512 :: "u64 list" where "K512 = map fst round512_calls"

lemma round512_calls_words: "map snd round512_calls = map (\<lambda>t. t mod 16) [0..<80]"
  by code_simp

definition sha512_round :: "nat \<Rightarrow> regs512 \<times> u64 list \<Rightarrow> regs512 \<times> u64 list" where
  "sha512_round t s =
     (if t < 16 then (round512_first (K512 ! t) (snd s ! t) (fst s), snd s)
      else round512_later (K512 ! t) (t mod 16) ((t + 14) mod 16) ((t + 9) mod 16) ((t + 1) mod 16) s)"

fun add_regs512 :: "regs512 \<Rightarrow> regs512 \<Rightarrow> regs512" where
  "add_regs512 (a0, a1, a2, a3, a4, a5, a6, a7) (a, b, c, d, e, f, g, h) =
     (a0 + a, a1 + b, a2 + c, a3 + d, a4 + e, a5 + f, a6 + g, a7 + h)"

fun words64_be :: "bytes \<Rightarrow> u64 list" where
  "words64_be (b0 # b1 # b2 # b3 # b4 # b5 # b6 # b7 # bs) = from_be_bytes [b0, b1, b2, b3, b4, b5, b6, b7] # words64_be bs"
| "words64_be _ = []"

definition sha512_process_block :: "regs512 \<Rightarrow> bytes \<Rightarrow> regs512" where
  "sha512_process_block h buf = add_regs512 h (fst (fold sha512_round [0..<80] (h, words64_be buf)))"

type_synonym HashEngine512 = "regs512 engine"

definition sha512_engine_of :: "regs512 \<Rightarrow> HashEngine512" where
  "sha512_engine_of h = \<lparr> buffer = replicate 128 0, h_regs = h, length_n = 0 \<rparr>"

definition sha512_H0 :: regs512 where
  "sha512_H0 = (0x6a09e667f3bcc908, 0xbb67ae8584caa73b, 0x3c6ef372fe94f82b, 0xa54ff53a5f1d36f1,
     0x510e527fade682d1, 0x9b05688c2b3e6c1f, 0x1f83d9abfb41bd6b, 0x5be0cd19137e2179)"

definition sha512_256_H0 :: regs512 where
  "sha512_256_H0 = (0x22312194fc2bf72c, 0x9f555fa3c84c64c2, 0x2393b86b6f53b151, 0x963877195940eabd,
     0x96283ee2a88effe3, 0xbe5e1e2553863992, 0x2b0199fc2c85b8aa, 0x0eb72ddc81c52ca2)"

definition sha384_H0 :: regs512 where
  "sha384_H0 = (0xcbbb9d5dc1059ed8, 0x629a292a367cd507, 0x9159015a3070dd17, 0x152fecd8f70e5939,
     0x67332667ffc00b31, 0x8eb44a8768581511, 0xdb0c2e0d64f98fa7, 0x47b5481dbefa4fa4)"

definition sha512_engine :: HashEngine512 where "sha512_engine = sha512_engine_of sha512_H0"
definition sha512_256_engine :: HashEngine512 where "sha512_256_engine = sha512_engine_of sha512_256_H0"
definition sha384_engine :: HashEngine512 where "sha384_engine = sha512_engine_of sha384_H0"

definition sha512_input :: "HashEngine512 \<Rightarrow> bytes \<Rightarrow> HashEngine512" where
  "sha512_input e inp = engine_input 128 sha512_process_block e inp"

fun regs512_bytes :: "regs512 \<Rightarrow> bytes" where
  "regs512_bytes (a, b, c, d, e, f, g, h) = concat (map to_be_bytes [a, b, c, d, e, f, g, h])"

definition sha512_midstate :: "HashEngine512 \<Rightarrow> bytes" where "sha512_midstate e = regs512_bytes (h_regs e)"

definition sha512_from_engine :: "HashEngine512 \<Rightarrow> bytes" where
  "sha512_from_engine e =
     (let data_len = word_of_nat (length_n e) :: u64;
          e = engine_pad 128 (128 - 16) sha512_process_block e;
          e = sha512_input e (replicate 8 0);
          e = sha512_input e (to_be_bytes (8 * data_len))
      in sha512_midstate e)"

definition sha384_from_engine :: "HashEngine512 \<Rightarrow> bytes" where "sha384_from_engine e = take 48 (sha512_from_engine e)"
definition sha512_256_from_engine :: "HashEngine512 \<Rightarrow> bytes" where "sha512_256_from_engine e = take 32 (sha512_from_engine e)"

definition sha512_hash :: "bytes \<Rightarrow> bytes" where "sha512_hash data = sha512_from_engine (sha512_input sha512_engine data)"
definition sha384_hash :: "bytes \<Rightarrow> bytes" where "sha384_hash data = sha384_from_engine (sha512_input sha384_engine data)"
definition sha512_256_hash :: "bytes \<Rightarrow> bytes" where
  "sha512_256_hash data = sha512_256_from_engine (sha512_input sha512_256_engine data)"

section \<open>The engine absorbs the padded message\<close>

interpretation sha512_blocks: block_engine 128 112 sha512_process_block
  by unfold_locales simp_all

text \<open>The standard appends the length as 128 bits; the code writes its upper half as zeros and the lower half modulo \<open>2 ^ 64\<close>.\<close>

definition sha512_pad :: "nat \<Rightarrow> bytes" where
  "sha512_pad n = 0x80 # replicate (pad_zeros 128 112 n) 0 @ replicate 8 0 @ to_be_bytes (8 * word_of_nat n :: u64)"

lemma sha512_at: "sha512_blocks.engine_at h 0 (concat xs) (fold (\<lambda>s e. sha512_input e s) xs (sha512_engine_of h))"
  using sha512_blocks.fold_feed_at [OF sha512_blocks.fresh_at, of h xs] by (simp add: sha512_input_def sha512_engine_of_def)

lemma sha512_two_inputs:
  assumes at: "sha512_blocks.engine_at st n0 m e" and l: "112 + length (x @ y) = 128"
  shows "h_regs (sha512_input (sha512_input (engine_pad 128 112 sha512_process_block e) x) y) =
         h_regs (sha512_input (engine_pad 128 112 sha512_process_block e) (x @ y))"
proof -
  have p: "sha512_blocks.engine_at st n0 (m @ 0x80 # replicate (pad_zeros 128 112 (length_n e)) 0) (engine_pad 128 112 sha512_process_block e)"
    by (rule sha512_blocks.pad_at [OF at])
  let ?m = "m @ 0x80 # replicate (pad_zeros 128 112 (length_n e)) 0 @ x @ y"
  have a: "sha512_blocks.engine_at st n0 ?m (sha512_input (sha512_input (engine_pad 128 112 sha512_process_block e) x) y)"
    "sha512_blocks.engine_at st n0 ?m (sha512_input (engine_pad 128 112 sha512_process_block e) (x @ y))"
    using sha512_blocks.feed_at [OF sha512_blocks.feed_at [OF p, of x], of y] sha512_blocks.feed_at [OF p, of "x @ y"]
    by (simp_all add: sha512_input_def)
  have d: "128 dvd length ?m" using sha512_blocks.finish_at(2) [OF at l] by simp
  show ?thesis using sha512_blocks.engine_at_full [OF a(1) d] sha512_blocks.engine_at_full [OF a(2) d] by simp
qed

lemma sha512_from_engine_eq:
  assumes "sha512_blocks.engine_at st n0 m e"
  shows "sha512_from_engine e = regs512_bytes (absorb_blocks 128 sha512_process_block st (m @ sha512_pad (length_n e)))"
  using sha512_blocks.finish_at(1) [OF assms, of "replicate 8 0 @ to_be_bytes (8 * word_of_nat (length_n e) :: u64)"]
    sha512_two_inputs [OF assms, of "replicate 8 0" "to_be_bytes (8 * word_of_nat (length_n e) :: u64)"]
  by (simp add: sha512_from_engine_def sha512_midstate_def sha512_pad_def sha512_input_def Let_def)

lemma sha512_finish:
  "sha512_from_engine (fold (\<lambda>s e. sha512_input e s) xs (sha512_engine_of h)) =
     regs512_bytes (absorb_blocks 128 sha512_process_block h (concat xs @ sha512_pad (length (concat xs))))"
proof -
  have "length_n (fold (\<lambda>s e. sha512_input e s) xs (sha512_engine_of h)) = length (concat xs)"
    using sha512_at [of h xs] by (simp add: sha512_blocks.engine_at_def)
  then show ?thesis using sha512_from_engine_eq [OF sha512_at [of h xs]] by simp
qed

lemma length_regs512 [simp]: "length (regs512_bytes r) = 64"
  by (cases r rule: regs512_bytes.cases) simp

lemma sha512_family_eq:
  "sha512_hash m = regs512_bytes (absorb_blocks 128 sha512_process_block sha512_H0 (m @ sha512_pad (length m)))"
  "sha384_hash m = take 48 (regs512_bytes (absorb_blocks 128 sha512_process_block sha384_H0 (m @ sha512_pad (length m))))"
  "sha512_256_hash m = take 32 (regs512_bytes (absorb_blocks 128 sha512_process_block sha512_256_H0 (m @ sha512_pad (length m))))"
  using sha512_finish [of "[m]"]
  by (simp_all add: sha512_hash_def sha384_hash_def sha512_256_hash_def sha512_engine_def sha384_engine_def sha512_256_engine_def
      sha384_from_engine_def sha512_256_from_engine_def)

interpretation sha512: hasher sha512_engine sha512_input sha512_from_engine sha512_hash 64
  by unfold_locales (simp_all add: sha512_engine_def sha512_finish sha512_family_eq)

interpretation sha384: hasher sha384_engine sha512_input sha384_from_engine sha384_hash 48
  by unfold_locales (simp_all add: sha384_engine_def sha384_from_engine_def sha512_finish sha512_family_eq)

interpretation sha512_256: hasher sha512_256_engine sha512_input sha512_256_from_engine sha512_256_hash 32
  by unfold_locales (simp_all add: sha512_256_engine_def sha512_256_from_engine_def sha512_finish sha512_family_eq)

section \<open>The functions of the standard\<close>

definition fips_Ch512 :: "u64 \<Rightarrow> u64 \<Rightarrow> u64 \<Rightarrow> u64" where "fips_Ch512 x y z = (x AND y) XOR (NOT x AND z)"
definition fips_Maj512 :: "u64 \<Rightarrow> u64 \<Rightarrow> u64 \<Rightarrow> u64" where
  "fips_Maj512 x y z = (x AND y) XOR (x AND z) XOR (y AND z)"
definition fips_S0_512 :: "u64 \<Rightarrow> u64" where "fips_S0_512 x = word_rotr 28 x XOR word_rotr 34 x XOR word_rotr 39 x"
definition fips_S1_512 :: "u64 \<Rightarrow> u64" where "fips_S1_512 x = word_rotr 14 x XOR word_rotr 18 x XOR word_rotr 41 x"
definition fips_s0_512 :: "u64 \<Rightarrow> u64" where "fips_s0_512 x = word_rotr 1 x XOR word_rotr 8 x XOR drop_bit 7 x"
definition fips_s1_512 :: "u64 \<Rightarrow> u64" where "fips_s1_512 x = word_rotr 19 x XOR word_rotr 61 x XOR drop_bit 6 x"

fun fips_W512 :: "u64 list \<Rightarrow> nat \<Rightarrow> u64" where
  "fips_W512 m t = (if t < 16 then m ! t
     else fips_s1_512 (fips_W512 m (t - 2)) + fips_W512 m (t - 7) + fips_s0_512 (fips_W512 m (t - 15)) + fips_W512 m (t - 16))"

declare fips_W512.simps [simp del]

fun fips_round512 :: "u64 list \<Rightarrow> nat \<Rightarrow> regs512 \<Rightarrow> regs512" where
  "fips_round512 m t (a, b, c, d, e, f, g, h) =
     (let T1 = h + fips_S1_512 e + fips_Ch512 e f g + K512 ! t + fips_W512 m t; T2 = fips_S0_512 a + fips_Maj512 a b c
      in (T1 + T2, a, b, c, d + T1, e, f, g))"

definition fips_block512 :: "regs512 \<Rightarrow> u64 list \<Rightarrow> regs512" where
  "fips_block512 st m = add_regs512 st (fold (fips_round512 m) [0..<80] st)"

function fips_absorb512 :: "regs512 \<Rightarrow> bytes \<Rightarrow> regs512" where
  "fips_absorb512 st m =
     (if length m < 128 then st else fips_absorb512 (fips_block512 st (words64_be (take 128 m))) (drop 128 m))"
  by pat_completeness auto
termination
  by (relation "measure (\<lambda>(st, m). length m)") auto

declare fips_absorb512.simps [simp del]

lemma Ch512_eq: "Ch512 x y z = fips_Ch512 x y z"
  by (rule bit_word_eqI) (auto simp: Ch512_def fips_Ch512_def bit_simps)

lemma Maj512_eq: "Maj512 x y z = fips_Maj512 x y z"
  by (rule bit_word_eqI) (auto simp: Maj512_def fips_Maj512_def bit_simps)

lemma Sigma512_eq:
  "Sigma0_512 x = fips_S0_512 x" "Sigma1_512 x = fips_S1_512 x" "sigma0_512 x = fips_s0_512 x" "sigma1_512 x = fips_s1_512 x"
  by (simp_all add: Sigma0_512_def fips_S0_512_def Sigma1_512_def fips_S1_512_def sigma0_512_def fips_s0_512_def sigma1_512_def
      fips_s1_512_def word_rotl_eq_word_rotr)

lemma fips_round512_fun: "fips_round512 m = (\<lambda>t. round512_first (K512 ! t) (fips_W512 m t))"
proof (intro ext)
  show "fips_round512 m t r = round512_first (K512 ! t) (fips_W512 m t) r" for t r
    by (cases r rule: regs512_bytes.cases) (simp add: Ch512_eq Maj512_eq Sigma512_eq Let_def)
qed

interpretation sha512_schedule: sha2_rounds sigma0_512 sigma1_512 K512 round512_first fips_W512
  by unfold_locales (simp add: fips_W512.simps [of _ t for t] Sigma512_eq ac_simps)

lemma roll_sha512_round: "sha512_schedule.roll = sha512_round"
  by (intro ext) (simp add: sha512_schedule.roll_def sha512_round_def round512_later_def Let_def split_beta)

lemma length_words64_be: "length (words64_be bs) = length bs div 8"
  by (induction bs rule: words64_be.induct) simp_all

lemma process512_fips: "length b = 128 \<Longrightarrow> sha512_process_block st b = fips_block512 st (words64_be b)"
  using sha512_schedule.roll_schedule [of "words64_be b" 80 st]
  by (simp add: sha512_process_block_def fips_block512_def roll_sha512_round fips_round512_fun length_words64_be)

lemma absorb512_fips: "absorb_blocks 128 sha512_process_block st m = fips_absorb512 st m"
proof (induction st m rule: fips_absorb512.induct)
  case (1 st m)
  then show ?case by (simp add: absorb_blocks.simps [of 128 _ st m] fips_absorb512.simps [of st m] process512_fips)
qed

section \<open>SHA-1\<close>

function sha1_schedule :: "nat \<Rightarrow> u32 list \<Rightarrow> u32 list" where
  "sha1_schedule i w =
     (if i < 80 then sha1_schedule (i + 1) (w[i := word_rotl 1 (w ! (i - 3) XOR w ! (i - 8) XOR w ! (i - 14) XOR w ! (i - 16))]) else w)"
  by pat_completeness auto
termination
  by (relation "measure (\<lambda>(i, w). 80 - i)") auto

declare sha1_schedule.simps [simp del]

type_synonym regs1 = "u32 \<times> u32 \<times> u32 \<times> u32 \<times> u32"

fun sha1_step :: "nat \<times> u32 \<Rightarrow> regs1 \<Rightarrow> regs1" where
  "sha1_step (i, wi) (a, b, c, d, e) =
     (let (f, k) = (if i \<le> 19 then ((b AND c) OR (NOT b AND d), 0x5a827999)
                    else if i \<le> 39 then (b XOR c XOR d, 0x6ed9eba1)
                    else if i \<le> 59 then ((b AND c) OR (b AND d) OR (c AND d), 0x8f1bbcdc)
                    else (b XOR c XOR d, 0xca62c1d6));
          new_a = word_rotl 5 a + f + e + k + wi
      in (new_a, a, word_rotl 30 b, c, d))"

fun add_regs1 :: "regs1 \<Rightarrow> regs1 \<Rightarrow> regs1" where
  "add_regs1 (h0, h1, h2, h3, h4) (a, b, c, d, e) = (h0 + a, h1 + b, h2 + c, h3 + d, h4 + e)"

definition sha1_process_block :: "regs1 \<Rightarrow> bytes \<Rightarrow> regs1" where
  "sha1_process_block h buf =
     (let w = sha1_schedule 16 (words_be buf @ replicate 64 0)
      in add_regs1 h (fold sha1_step (enumerate 0 w) h))"

definition sha1_H0 :: regs1 where "sha1_H0 = (0x67452301, 0xefcdab89, 0x98badcfe, 0x10325476, 0xc3d2e1f0)"

definition sha1_engine :: "regs1 engine" where
  "sha1_engine = \<lparr> buffer = replicate 64 0, h_regs = sha1_H0, length_n = 0 \<rparr>"

definition sha1_input :: "regs1 engine \<Rightarrow> bytes \<Rightarrow> regs1 engine" where "sha1_input e inp = engine_input 64 sha1_process_block e inp"

fun regs1_bytes :: "regs1 \<Rightarrow> bytes" where "regs1_bytes (a, b, c, d, e) = concat (map to_be_bytes [a, b, c, d, e])"

definition sha1_midstate :: "regs1 engine \<Rightarrow> bytes" where "sha1_midstate e = regs1_bytes (h_regs e)"

definition sha1_from_engine :: "regs1 engine \<Rightarrow> bytes" where
  "sha1_from_engine e =
     (let data_len = word_of_nat (length_n e) :: u64;
          e = engine_pad 64 (64 - 8) sha1_process_block e;
          e = sha1_input e (to_be_bytes (8 * data_len))
      in sha1_midstate e)"

definition sha1_hash :: "bytes \<Rightarrow> bytes" where "sha1_hash data = sha1_from_engine (sha1_input sha1_engine data)"

interpretation sha1_blocks: block_engine 64 56 sha1_process_block
  by unfold_locales simp_all

lemma sha1_at: "sha1_blocks.engine_at sha1_H0 0 (concat xs) (fold (\<lambda>s e. sha1_input e s) xs sha1_engine)"
  using sha1_blocks.fold_feed_at [OF sha1_blocks.fresh_at, of sha1_H0 xs] by (simp add: sha1_input_def sha1_engine_def)

lemma sha1_from_engine_eq:
  assumes "sha1_blocks.engine_at st n0 m e"
  shows "sha1_from_engine e = regs1_bytes (absorb_blocks 64 sha1_process_block st (m @ sha_pad (length_n e)))"
  using sha1_blocks.finish_at(1) [OF assms, of "to_be_bytes (8 * word_of_nat (length_n e) :: u64)"]
  by (simp add: sha1_from_engine_def sha1_midstate_def sha_pad_def sha1_input_def Let_def)

lemma sha1_finish:
  "sha1_from_engine (fold (\<lambda>s e. sha1_input e s) xs sha1_engine) =
     regs1_bytes (absorb_blocks 64 sha1_process_block sha1_H0 (concat xs @ sha_pad (length (concat xs))))"
proof -
  have "length_n (fold (\<lambda>s e. sha1_input e s) xs sha1_engine) = length (concat xs)"
    using sha1_at [of xs] by (simp add: sha1_blocks.engine_at_def)
  then show ?thesis using sha1_from_engine_eq [OF sha1_at [of xs]] by simp
qed

lemma length_regs1 [simp]: "length (regs1_bytes r) = 20"
  by (cases r rule: regs1_bytes.cases) simp

lemma sha1_eq: "sha1_hash m = regs1_bytes (absorb_blocks 64 sha1_process_block sha1_H0 (m @ sha_pad (length m)))"
  using sha1_finish [of "[m]"] by (simp add: sha1_hash_def)

interpretation sha1: hasher sha1_engine sha1_input sha1_from_engine sha1_hash 20
  by unfold_locales (simp_all add: sha1_finish sha1_eq)

text \<open>The schedule of the standard as a recurrence.\<close>

fun sha1_W :: "u32 list \<Rightarrow> nat \<Rightarrow> u32" where
  "sha1_W m t = (if t < 16 then m ! t else word_rotl 1 (sha1_W m (t - 3) XOR sha1_W m (t - 8) XOR sha1_W m (t - 14) XOR sha1_W m (t - 16)))"

declare sha1_W.simps [simp del]

lemma sha1_schedule_eq:
  assumes "16 \<le> i" "i \<le> 80" "length w = 80" "\<And>j. j < i \<Longrightarrow> w ! j = sha1_W m j"
  shows "sha1_schedule i w = map (sha1_W m) [0..<80]"
  using assms
proof (induction "80 - i" arbitrary: i w)
  case 0
  then have "i = 80" by simp
  then show ?case using 0 by (simp add: sha1_schedule.simps) (rule nth_equalityI, simp_all)
next
  case (Suc k)
  let ?w = "w[i := word_rotl 1 (w ! (i - 3) XOR w ! (i - 8) XOR w ! (i - 14) XOR w ! (i - 16))]"
  have "?w ! j = sha1_W m j" if "j < Suc i" for j
    using that Suc.prems Suc.hyps(2) by (cases "j = i") (simp_all add: sha1_W.simps [of m i])
  then have "sha1_schedule (Suc i) ?w = map (sha1_W m) [0..<80]"
    using Suc.hyps(2) Suc.prems by (intro Suc.hyps(1)) simp_all
  moreover have "i < 80" using Suc.hyps(2) by simp
  ultimately show ?case by (simp add: sha1_schedule.simps [of i])
qed

lemma sha1_process_eq:
  assumes "length b = 64"
  shows "sha1_process_block h b = add_regs1 h (fold (\<lambda>t. sha1_step (t, sha1_W (words_be b) t)) [0..<80] h)"
proof -
  have "sha1_schedule 16 (words_be b @ replicate 64 0) = map (sha1_W (words_be b)) [0..<80]"
    using assms by (intro sha1_schedule_eq) (simp_all add: nth_append sha1_W.simps [of "words_be b"])
  moreover have "enumerate 0 (map (sha1_W (words_be b)) [0..<80]) = map (\<lambda>t. (t, sha1_W (words_be b) t)) [0..<80]"
    by (rule nth_equalityI) (simp_all add: nth_enumerate_eq)
  ultimately show ?thesis by (simp add: sha1_process_block_def Let_def fold_map comp_def)
qed

function sha1_absorb :: "regs1 \<Rightarrow> bytes \<Rightarrow> regs1" where
  "sha1_absorb st m =
     (if length m < 64 then st
      else sha1_absorb (add_regs1 st (fold (\<lambda>t. sha1_step (t, sha1_W (words_be (take 64 m)) t)) [0..<80] st)) (drop 64 m))"
  by pat_completeness auto
termination
  by (relation "measure (\<lambda>(st, m). length m)") auto

declare sha1_absorb.simps [simp del]

lemma absorb_sha1: "absorb_blocks 64 sha1_process_block st m = sha1_absorb st m"
proof (induction st m rule: sha1_absorb.induct)
  case (1 st m)
  then show ?case by (simp add: absorb_blocks.simps [of 64 _ st m] sha1_absorb.simps [of st m] sha1_process_eq)
qed

section \<open>Properties\<close>

text \<open>The three functions of the SHA-512 family: the big-endian chaining value, cut to the length of the digest, after
  absorbing the padded message with the block function of the standard; messages may be fed in any pieces.\<close>

theorem sha512_is_fips:
  "sha512_hash m = regs512_bytes (fips_absorb512 sha512_H0 (m @ sha512_pad (length m))) \<and>
   sha384_hash m = take 48 (regs512_bytes (fips_absorb512 sha384_H0 (m @ sha512_pad (length m)))) \<and>
   sha512_256_hash m = take 32 (regs512_bytes (fips_absorb512 sha512_256_H0 (m @ sha512_pad (length m)))) \<and>
   sha512_from_engine (fold (\<lambda>s e. sha512_input e s) xs sha512_engine) = sha512_hash (concat xs)"
  unfolding sha512_family_eq absorb512_fips using sha512.fin_fold [of xs] by (simp add: sha512_family_eq absorb512_fips)

text \<open>SHA-1 is the function of the standard.\<close>

theorem sha1_is_fips:
  "sha1_hash m = regs1_bytes (sha1_absorb sha1_H0 (m @ sha_pad (length m))) \<and>
   sha1_from_engine (fold (\<lambda>s e. sha1_input e s) xs sha1_engine) = sha1_hash (concat xs)"
  using sha1.fin_fold [of xs] by (simp add: sha1_eq absorb_sha1)

end
