(* ===== verification/Hmac.thy ===== *)
theory Hmac
  imports Sha512 Ripemd160
begin

text \<open>
  HMAC (\<open>hashes/src/hmac.rs\<close>) over any hash function: its engine, block size and finalisation are arguments. The locale
  \<open>hmac\<close> adds to the interface of a hash function the bounds that the constructor relies on, and shows there that the result
  is the definition of RFC 2104; it is interpreted for the hash functions of the crate.
\<close>

section \<open>Definitions\<close>

record 'e HmacEngine =
  iengine :: 'e
  oengine :: 'e

text \<open>The loops over \<open>ipad.iter_mut().zip(key)\<close>: the key is combined with the front of the pad.\<close>

definition xor_prefix :: "bytes \<Rightarrow> bytes \<Rightarrow> bytes" where
  "xor_prefix pad key = map2 (XOR) pad key @ drop (length key) pad"

definition hmac_new :: "nat \<Rightarrow> 'e \<Rightarrow> ('e \<Rightarrow> bytes \<Rightarrow> 'e) \<Rightarrow> (bytes \<Rightarrow> bytes) \<Rightarrow> bytes \<Rightarrow> 'e HmacEngine option" where
  "hmac_new block_size eng inp hsh key =
     (let key = (if block_size < length key then hsh key else key);
          ipad = xor_prefix (replicate 128 0x36) key;
          opad = xor_prefix (replicate 128 0x5c) key
      in if block_size \<le> 128
         then Some \<lparr> iengine = inp eng (take block_size ipad), oengine = inp eng (take block_size opad) \<rparr>
         else None)"

definition hmac_default :: "nat \<Rightarrow> 'e \<Rightarrow> ('e \<Rightarrow> bytes \<Rightarrow> 'e) \<Rightarrow> (bytes \<Rightarrow> bytes) \<Rightarrow> 'e HmacEngine option" where
  "hmac_default block_size eng inp hsh = hmac_new block_size eng inp hsh []"

definition from_inner_engines :: "'e \<Rightarrow> 'e \<Rightarrow> 'e HmacEngine" where
  "from_inner_engines i k = \<lparr> iengine = i, oengine = k \<rparr>"

definition hmac_input :: "('e \<Rightarrow> bytes \<Rightarrow> 'e) \<Rightarrow> 'e HmacEngine \<Rightarrow> bytes \<Rightarrow> 'e HmacEngine" where
  "hmac_input inp e buf = e\<lparr> iengine := inp (iengine e) buf \<rparr>"

definition hmac_from_engine :: "('e \<Rightarrow> bytes \<Rightarrow> 'e) \<Rightarrow> ('e \<Rightarrow> bytes) \<Rightarrow> 'e HmacEngine \<Rightarrow> bytes" where
  "hmac_from_engine inp fin e =
     (let ihash = fin (iengine e); e = e\<lparr> oengine := inp (oengine e) ihash \<rparr>; ohash = fin (oengine e) in ohash)"

section \<open>RFC 2104\<close>

definition rfc2104 :: "nat \<Rightarrow> (bytes \<Rightarrow> bytes) \<Rightarrow> bytes \<Rightarrow> bytes \<Rightarrow> bytes" where
  "rfc2104 b hsh key text =
     (let k = (if b < length key then hsh key else key); k = k @ replicate (b - length k) 0
      in hsh (map (\<lambda>x. x XOR 0x5c) k @ hsh (map (\<lambda>x. x XOR 0x36) k @ text)))"

lemma xor_prefix_pad:
  assumes "length k \<le> b" and "b \<le> 128"
  shows "take b (xor_prefix (replicate 128 c) k) = map (\<lambda>x. x XOR c) (k @ replicate (b - length k) 0)"
  using assms by (intro nth_equalityI) (auto simp: xor_prefix_def nth_append xor.commute)

locale hmac = hasher eng inp fin hsh outlen
  for eng :: 'e and inp fin hsh outlen +
  fixes bsize :: nat
  assumes out_block: "outlen \<le> bsize" and block_pad: "bsize \<le> 128"
begin

lemma hmac_fold: "fold (\<lambda>s e. hmac_input inp e s) xs e = e\<lparr> iengine := fold (\<lambda>s i. inp i s) xs (iengine e) \<rparr>"
  by (induction xs arbitrary: e) (simp_all add: hmac_input_def)

lemma hmac_exact:
  "\<exists>e. hmac_new bsize eng inp hsh key = Some e \<and>
       hmac_from_engine inp fin (fold (\<lambda>s e. hmac_input inp e s) xs e) = rfc2104 bsize hsh key (concat xs)"
proof -
  define k where "k = (if bsize < length key then hsh key else key)"
  let ?pad = "\<lambda>c. map (\<lambda>x. x XOR c) (k @ replicate (bsize - length k) 0)"
  have "length k \<le> bsize" using out_block by (simp add: k_def length_hash)
  then have p: "take bsize (xor_prefix (replicate 128 c) k) = ?pad c" for c by (rule xor_prefix_pad [OF _ block_pad])
  let ?e = "\<lparr> iengine = inp eng (?pad 0x36), oengine = inp eng (?pad 0x5c) \<rparr>"
  have "hmac_new bsize eng inp hsh key = Some ?e"
    unfolding hmac_new_def k_def [symmetric] Let_def p using block_pad by simp
  moreover have "hmac_from_engine inp fin (fold (\<lambda>s e. hmac_input inp e s) xs ?e) = rfc2104 bsize hsh key (concat xs)"
    unfolding hmac_fold rfc2104_def k_def [symmetric] Let_def by (simp add: hmac_from_engine_def Let_def fin_after fin_pieces(1))
  ultimately show ?thesis by blast
qed

end

interpretation hmac_sha256: hmac engine_default input from_engine sha256_hash 32 64
  by unfold_locales simp_all

interpretation hmac_sha512: hmac sha512_engine sha512_input sha512_from_engine sha512_hash 64 128
  by unfold_locales simp_all

interpretation hmac_sha384: hmac sha384_engine sha512_input sha384_from_engine sha384_hash 48 128
  by unfold_locales simp_all

interpretation hmac_sha512_256: hmac sha512_256_engine sha512_input sha512_256_from_engine sha512_256_hash 32 128
  by unfold_locales simp_all

interpretation hmac_sha1: hmac sha1_engine sha1_input sha1_from_engine sha1_hash 20 64
  by unfold_locales simp_all

interpretation hmac_ripemd160: hmac rmd_engine rmd_input rmd_from_engine ripemd160_hash 20 64
  by unfold_locales simp_all

section \<open>Properties\<close>

text \<open>(C39) HMAC over SHA-512 (the one key derivation uses) and over SHA-256 is the function of RFC 2104, for keys of any length
  and a message fed in any pieces; the constructor does not panic.\<close>

theorem hmac_is_rfc2104:
  "(\<exists>e. hmac_new 128 sha512_engine sha512_input sha512_hash key = Some e \<and>
      hmac_from_engine sha512_input sha512_from_engine (fold (\<lambda>s e. hmac_input sha512_input e s) xs e) = rfc2104 128 sha512_hash key (concat xs)) \<and>
   (\<exists>e. hmac_new 64 engine_default input sha256_hash key = Some e \<and>
      hmac_from_engine input from_engine (fold (\<lambda>s e. hmac_input input e s) xs e) = rfc2104 64 sha256_hash key (concat xs))"
  using hmac_sha512.hmac_exact hmac_sha256.hmac_exact by blast

end
