(* ===== verification/Bip32.thy ===== *)
theory Bip32
  imports Hmac Base58 U256
begin

text \<open>
  Hierarchical keys (\<open>bitcoin/src/bip32.rs\<close>): child numbers, derivation paths and their text, extended keys, their derivation and
  their encodings. Keys are their serializations (32 bytes for a private key, 33 for a public key); the operations of
  secp256k1 are the fields of the record \<open>KeyOps\<close>, with \<open>None\<close> for an error of the library. Text is the bytes of a \<open>str\<close>.
  \<open>None\<close> of the functions is a panic; \<open>oc\<close> is the flag of the overflow checks.
\<close>

section \<open>Child numbers\<close>

datatype NetworkKind = Main | Test

datatype ChildNumber = Normal u32 | Hardened u32

datatype Bip32Error =
    CannotDeriveFromHardenedKey | MaximumDepthExceeded | Secp256k1Error | InvalidChildNumber u32 | InvalidChildNumberFormat
  | InvalidDerivationPathFormat | UnknownKeyVersion bytes | WrongExtendedKeyLength nat | KeyBase58 Base58Error | KeyHex
  | InvalidPublicKeyHexLength nat | InvalidBase58PayloadLength nat

definition from_normal_idx :: "u32 \<Rightarrow> Bip32Error + ChildNumber" where
  "from_normal_idx index = (if index AND push_bit 31 1 = 0 then Inr (Normal index) else Inl (InvalidChildNumber index))"

definition from_hardened_idx :: "u32 \<Rightarrow> Bip32Error + ChildNumber" where
  "from_hardened_idx index = (if index AND push_bit 31 1 = 0 then Inr (Hardened index) else Inl (InvalidChildNumber index))"

fun is_hardened :: "ChildNumber \<Rightarrow> bool" where
  "is_hardened (Hardened _) = True"
| "is_hardened (Normal _) = False"

definition is_normal :: "ChildNumber \<Rightarrow> bool" where "is_normal c \<longleftrightarrow> \<not> is_hardened c"

fun cn_increment :: "bool \<Rightarrow> ChildNumber \<Rightarrow> (Bip32Error + ChildNumber) option" where
  "cn_increment oc (Normal idx) = (if oc \<and> idx = - 1 then None else Some (from_normal_idx (idx + 1)))"
| "cn_increment oc (Hardened idx) = (if oc \<and> idx = - 1 then None else Some (from_hardened_idx (idx + 1)))"

definition cn_from_u32 :: "u32 \<Rightarrow> ChildNumber" where
  "cn_from_u32 number =
     (if number AND push_bit 31 1 \<noteq> 0 then Hardened (number XOR push_bit 31 1) else Normal number)"

fun cn_to_u32 :: "ChildNumber \<Rightarrow> u32" where
  "cn_to_u32 (Normal index) = index"
| "cn_to_u32 (Hardened index) = index OR push_bit 31 1"

fun cn_display :: "bool \<Rightarrow> ChildNumber \<Rightarrow> bytes" where
  "cn_display alt (Hardened index) = decimal_digits (unat index) @ (if alt then [0x68] else [0x27])"
| "cn_display alt (Normal index) = decimal_digits (unat index)"

text \<open>\<open>str::parse::<u32>\<close> of the standard library: an optional plus sign, at least one digit, no overflow.\<close>

definition u32_from_str :: "bytes \<Rightarrow> u32 option" where
  "u32_from_str s =
     (let ds = (case s of [] \<Rightarrow> [] | c # cs \<Rightarrow> if c = 0x2b then cs else s)
      in if ds \<noteq> [] \<and> list_all (\<lambda>d. 48 \<le> d \<and> d \<le> 57) ds \<and> decimal_value ds < 2 ^ 32
         then Some (word_of_nat (decimal_value ds)) else None)"

definition cn_from_str :: "bytes \<Rightarrow> Bip32Error + ChildNumber" where
  "cn_from_str inp =
     (if inp \<noteq> [] \<and> (last inp = 0x27 \<or> last inp = 0x68)
      then (case u32_from_str (take (length inp - 1) inp) of
              None \<Rightarrow> Inl InvalidChildNumberFormat | Some n \<Rightarrow> from_hardened_idx n)
      else (case u32_from_str inp of None \<Rightarrow> Inl InvalidChildNumberFormat | Some n \<Rightarrow> from_normal_idx n))"

section \<open>Derivation paths\<close>

datatype DerivationPath = DerivationPath (path_0: "ChildNumber list")

definition path_master :: DerivationPath where "path_master = DerivationPath []"
definition is_master :: "DerivationPath \<Rightarrow> bool" where "is_master p \<longleftrightarrow> path_0 p = []"
definition path_child :: "DerivationPath \<Rightarrow> ChildNumber \<Rightarrow> DerivationPath" where "path_child p cn = DerivationPath (path_0 p @ [cn])"
definition path_extend :: "DerivationPath \<Rightarrow> ChildNumber list \<Rightarrow> DerivationPath" where
  "path_extend p cns = DerivationPath (path_0 p @ cns)"
definition to_u32_vec :: "DerivationPath \<Rightarrow> u32 list" where "to_u32_vec p = map cn_to_u32 (path_0 p)"

text \<open>\<open>str::split\<close> on one character.\<close>

fun split_on :: "u8 \<Rightarrow> bytes \<Rightarrow> bytes list" where
  "split_on c [] = [[]]"
| "split_on c (x # xs) = (if x = c then [] # split_on c xs
     else (case split_on c xs of p # ps \<Rightarrow> (x # p) # ps | [] \<Rightarrow> [[x]]))"

fun collect_children :: "bytes list \<Rightarrow> Bip32Error + ChildNumber list" where
  "collect_children [] = Inr []"
| "collect_children (p # ps) =
     (case cn_from_str p of
        Inl e \<Rightarrow> Inl e
      | Inr c \<Rightarrow> (case collect_children ps of Inl e \<Rightarrow> Inl e | Inr cs \<Rightarrow> Inr (c # cs)))"

definition path_from_str :: "bytes \<Rightarrow> Bip32Error + DerivationPath" where
  "path_from_str path =
     (if path = [] \<or> path = ascii ''m'' \<or> path = ascii ''m/'' then Inr (DerivationPath [])
      else (let path = (if take 2 path = ascii ''m/'' then drop 2 path else path)
            in map_sum id DerivationPath (collect_children (split_on 0x2f path))))"

fun path_display :: "DerivationPath \<Rightarrow> bytes" where
  "path_display (DerivationPath []) = []"
| "path_display (DerivationPath (c # cs)) = cn_display False c @ concat (map (\<lambda>c. 0x2f # cn_display False c) cs)"

record DerivationPathIterator =
  it_base :: DerivationPath
  next_child :: "ChildNumber option"

definition start_from :: "DerivationPath \<Rightarrow> ChildNumber \<Rightarrow> DerivationPathIterator" where
  "start_from path start = \<lparr> it_base = path, next_child = Some start \<rparr>"

definition iter_next :: "bool \<Rightarrow> DerivationPathIterator \<Rightarrow> (DerivationPath option \<times> DerivationPathIterator) option" where
  "iter_next oc it =
     (case next_child it of
        None \<Rightarrow> Some (None, it)
      | Some ret \<Rightarrow>
          map_option (\<lambda>r. (Some (path_child (it_base it) ret),
                           it\<lparr> next_child := (case r of Inr c \<Rightarrow> Some c | Inl _ \<Rightarrow> None) \<rparr>)) (cn_increment oc ret))"

definition normal_children :: "DerivationPath \<Rightarrow> DerivationPathIterator" where "normal_children p = start_from p (Normal 0)"
definition hardened_children :: "DerivationPath \<Rightarrow> DerivationPathIterator" where "hardened_children p = start_from p (Hardened 0)"

section \<open>Extended keys\<close>

record KeyOps =
  sk_valid :: "bytes \<Rightarrow> bool"
  pk_valid :: "bytes \<Rightarrow> bool"
  pk_of_sk :: "bytes \<Rightarrow> bytes"
  sk_add_tweak :: "bytes \<Rightarrow> bytes \<Rightarrow> bytes option"
  pk_add_exp_tweak :: "bytes \<Rightarrow> bytes \<Rightarrow> bytes option"

record Xkey =
  xk_network :: NetworkKind
  xk_depth :: u8
  parent_fingerprint :: bytes
  child_number :: ChildNumber
  chain_code :: bytes

record Xpriv = Xkey +
  private_key :: bytes

record Xpub = Xkey +
  public_key :: bytes

text \<open>HMAC-SHA512 of the pieces fed to a fresh engine.\<close>

definition hmac512 :: "bytes \<Rightarrow> bytes list \<Rightarrow> bytes option" where
  "hmac512 key pieces =
     map_option (\<lambda>e. hmac_from_engine sha512_input sha512_from_engine (fold (\<lambda>s e. hmac_input sha512_input e s) pieces e))
       (hmac_new 128 sha512_engine sha512_input sha512_hash key)"

definition new_master :: "KeyOps \<Rightarrow> NetworkKind \<Rightarrow> bytes \<Rightarrow> (Bip32Error + Xpriv) option" where
  "new_master ops net seed =
     map_option (\<lambda>r. case from_normal_idx 0 of
         Inl e \<Rightarrow> Inl e
       | Inr c \<Rightarrow> if sk_valid ops (take 32 r)
                  then Inr \<lparr> xk_network = net, xk_depth = 0, parent_fingerprint = replicate 4 0, child_number = c, chain_code = drop 32 r,
                             private_key = take 32 r \<rparr>
                  else Inl Secp256k1Error)
       (hmac512 (ascii ''Bitcoin seed'') [seed])"

definition xpub_from_priv :: "KeyOps \<Rightarrow> Xpriv \<Rightarrow> Xpub" where
  "xpub_from_priv ops sk =
     \<lparr> xk_network = xk_network sk, xk_depth = xk_depth sk, parent_fingerprint = parent_fingerprint sk, child_number = child_number sk,
       chain_code = chain_code sk, public_key = pk_of_sk ops (private_key sk) \<rparr>"

definition xpub_identifier :: "Xpub \<Rightarrow> bytes" where
  "xpub_identifier x = hash160_from_engine (input engine_default (public_key x))"

definition xpub_fingerprint :: "Xpub \<Rightarrow> bytes" where "xpub_fingerprint x = take 4 (xpub_identifier x)"
definition xpriv_identifier :: "KeyOps \<Rightarrow> Xpriv \<Rightarrow> bytes" where "xpriv_identifier ops x = xpub_identifier (xpub_from_priv ops x)"
definition xpriv_fingerprint :: "KeyOps \<Rightarrow> Xpriv \<Rightarrow> bytes" where "xpriv_fingerprint ops x = take 4 (xpriv_identifier ops x)"

definition ckd_priv :: "KeyOps \<Rightarrow> Xpriv \<Rightarrow> ChildNumber \<Rightarrow> (Bip32Error + Xpriv) option" where
  "ckd_priv ops x i =
     (let pieces = (case i of Normal _ \<Rightarrow> [pk_of_sk ops (private_key x)] | Hardened _ \<Rightarrow> [[0], private_key x])
      in Option.bind (hmac512 (chain_code x) (pieces @ [to_be_bytes (cn_to_u32 i)])) (\<lambda>r.
         Option.bind (if sk_valid ops (take 32 r) then Some (take 32 r) else None) (\<lambda>sk.
         Option.bind (sk_add_tweak ops sk (private_key x)) (\<lambda>tweaked.
         Some (if xk_depth x = - 1 then Inl MaximumDepthExceeded
               else Inr \<lparr> xk_network = xk_network x, xk_depth = xk_depth x + 1, parent_fingerprint = xpriv_fingerprint ops x,
                          child_number = i, chain_code = drop 32 r, private_key = tweaked \<rparr>)))))"

fun derive_priv :: "KeyOps \<Rightarrow> Xpriv \<Rightarrow> ChildNumber list \<Rightarrow> (Bip32Error + Xpriv) option" where
  "derive_priv ops x [] = Some (Inr x)"
| "derive_priv ops x (c # cs) =
     (case ckd_priv ops x c of None \<Rightarrow> None | Some (Inl e) \<Rightarrow> Some (Inl e) | Some (Inr y) \<Rightarrow> derive_priv ops y cs)"

fun ckd_pub_tweak :: "KeyOps \<Rightarrow> Xpub \<Rightarrow> ChildNumber \<Rightarrow> (Bip32Error + bytes \<times> bytes) option" where
  "ckd_pub_tweak ops x (Hardened _) = Some (Inl CannotDeriveFromHardenedKey)"
| "ckd_pub_tweak ops x (Normal n) =
     map_option (\<lambda>r. if sk_valid ops (take 32 r) then Inr (take 32 r, drop 32 r) else Inl Secp256k1Error)
       (hmac512 (chain_code x) [public_key x, to_be_bytes n])"

definition ckd_pub :: "KeyOps \<Rightarrow> Xpub \<Rightarrow> ChildNumber \<Rightarrow> (Bip32Error + Xpub) option" where
  "ckd_pub ops x i =
     map_option (\<lambda>r. case r of
         Inl e \<Rightarrow> Inl e
       | Inr (sk, cc) \<Rightarrow>
           (case pk_add_exp_tweak ops (public_key x) sk of
              None \<Rightarrow> Inl Secp256k1Error
            | Some tweaked \<Rightarrow>
                if xk_depth x = - 1 then Inl MaximumDepthExceeded
                else Inr \<lparr> xk_network = xk_network x, xk_depth = xk_depth x + 1, parent_fingerprint = xpub_fingerprint x,
                           child_number = i, chain_code = cc, public_key = tweaked \<rparr>))
       (ckd_pub_tweak ops x i)"

fun derive_pub :: "KeyOps \<Rightarrow> Xpub \<Rightarrow> ChildNumber list \<Rightarrow> (Bip32Error + Xpub) option" where
  "derive_pub ops x [] = Some (Inr x)"
| "derive_pub ops x (c # cs) =
     (case ckd_pub ops x c of None \<Rightarrow> None | Some (Inl e) \<Rightarrow> Some (Inl e) | Some (Inr y) \<Rightarrow> derive_pub ops y cs)"

section \<open>Encoding of extended keys\<close>

definition VERSION_BYTES_MAINNET_PUBLIC :: bytes where "VERSION_BYTES_MAINNET_PUBLIC = [0x04, 0x88, 0xB2, 0x1E]"
definition VERSION_BYTES_MAINNET_PRIVATE :: bytes where "VERSION_BYTES_MAINNET_PRIVATE = [0x04, 0x88, 0xAD, 0xE4]"
definition VERSION_BYTES_TESTNETS_PUBLIC :: bytes where "VERSION_BYTES_TESTNETS_PUBLIC = [0x04, 0x35, 0x87, 0xCF]"
definition VERSION_BYTES_TESTNETS_PRIVATE :: bytes where "VERSION_BYTES_TESTNETS_PRIVATE = [0x04, 0x35, 0x83, 0x94]"

definition xpriv_decode :: "KeyOps \<Rightarrow> bytes \<Rightarrow> Bip32Error + Xpriv" where
  "xpriv_decode ops data =
     (if length data \<noteq> 78 then Inl (WrongExtendedKeyLength (length data))
      else (let net = (if take 4 data = VERSION_BYTES_MAINNET_PRIVATE then Some Main
                       else if take 4 data = VERSION_BYTES_TESTNETS_PRIVATE then Some Test else None)
            in case net of
                 None \<Rightarrow> Inl (UnknownKeyVersion (take 4 data))
               | Some net \<Rightarrow>
                   if sk_valid ops (take 32 (drop 46 data))
                   then Inr \<lparr> xk_network = net, xk_depth = data ! 4, parent_fingerprint = take 4 (drop 5 data),
                              child_number = cn_from_u32 (from_be_bytes (take 4 (drop 9 data))), chain_code = take 32 (drop 13 data),
                              private_key = take 32 (drop 46 data) \<rparr>
                   else Inl Secp256k1Error))"

definition xpriv_encode :: "Xpriv \<Rightarrow> bytes" where
  "xpriv_encode x =
     (case xk_network x of Main \<Rightarrow> VERSION_BYTES_MAINNET_PRIVATE | Test \<Rightarrow> VERSION_BYTES_TESTNETS_PRIVATE) @ [xk_depth x] @
     parent_fingerprint x @ to_be_bytes (cn_to_u32 (child_number x)) @ chain_code x @ [0] @ private_key x"

definition xpub_decode :: "KeyOps \<Rightarrow> bytes \<Rightarrow> Bip32Error + Xpub" where
  "xpub_decode ops data =
     (if length data \<noteq> 78 then Inl (WrongExtendedKeyLength (length data))
      else (let net = (if take 4 data = VERSION_BYTES_MAINNET_PUBLIC then Some Main
                       else if take 4 data = VERSION_BYTES_TESTNETS_PUBLIC then Some Test else None)
            in case net of
                 None \<Rightarrow> Inl (UnknownKeyVersion (take 4 data))
               | Some net \<Rightarrow>
                   if pk_valid ops (take 33 (drop 45 data))
                   then Inr \<lparr> xk_network = net, xk_depth = data ! 4, parent_fingerprint = take 4 (drop 5 data),
                              child_number = cn_from_u32 (from_be_bytes (take 4 (drop 9 data))), chain_code = take 32 (drop 13 data),
                              public_key = take 33 (drop 45 data) \<rparr>
                   else Inl Secp256k1Error))"

definition xpub_encode :: "Xpub \<Rightarrow> bytes" where
  "xpub_encode x =
     (case xk_network x of Main \<Rightarrow> VERSION_BYTES_MAINNET_PUBLIC | Test \<Rightarrow> VERSION_BYTES_TESTNETS_PUBLIC) @ [xk_depth x] @
     parent_fingerprint x @ to_be_bytes (cn_to_u32 (child_number x)) @ chain_code x @ public_key x"

definition xpriv_display :: "Xpriv \<Rightarrow> bytes" where "xpriv_display x = encode_check_to_fmt (xpriv_encode x)"
definition xpub_display :: "Xpub \<Rightarrow> bytes" where "xpub_display x = encode_check_to_fmt (xpub_encode x)"

text \<open>The common part of the two \<open>from_str\<close>.\<close>

definition key_from_str :: "(bytes \<Rightarrow> Bip32Error + 'k) \<Rightarrow> bytes \<Rightarrow> (Bip32Error + 'k) option" where
  "key_from_str dec inp =
     map_option (\<lambda>r. case r of
         Inl e \<Rightarrow> Inl (KeyBase58 e)
       | Inr data \<Rightarrow> if length data \<noteq> 78 then Inl (InvalidBase58PayloadLength (length data)) else dec data) (decode_check inp)"

definition xpriv_from_str :: "KeyOps \<Rightarrow> bytes \<Rightarrow> (Bip32Error + Xpriv) option" where "xpriv_from_str ops = key_from_str (xpriv_decode ops)"
definition xpub_from_str :: "KeyOps \<Rightarrow> bytes \<Rightarrow> (Bip32Error + Xpub) option" where "xpub_from_str ops = key_from_str (xpub_decode ops)"

section \<open>Child numbers as words\<close>

definition cn_ok :: "ChildNumber \<Rightarrow> bool" where
  "cn_ok c \<longleftrightarrow> (case c of Normal i \<Rightarrow> unat i < 2 ^ 31 | Hardened i \<Rightarrow> unat i < 2 ^ 31)"

lemma high_bit: "(w :: u32) AND push_bit 31 1 = 0 \<longleftrightarrow> \<not> bit w 31"
proof
  assume "w AND push_bit 31 1 = 0"
  then have "\<not> bit (w AND push_bit 31 1) 31" by simp
  then show "\<not> bit w 31" by (simp only: bit_and_iff bit_push_bit_iff) simp
next
  assume a: "\<not> bit w 31"
  show "w AND push_bit 31 1 = 0"
  proof (rule bit_word_eqI)
    fix n assume "n < LENGTH(32)"
    show "bit (w AND push_bit 31 1) n = bit (0 :: u32) n"
      using a by (cases "n = 31") (simp_all only: bit_and_iff bit_push_bit_iff bit_1_iff, auto)
  qed
qed

lemma low_half: "\<not> bit (w :: u32) 31 \<longleftrightarrow> unat w < 2 ^ 31"
proof -
  have "bit (unat w) 31 \<longleftrightarrow> bit w 31" by (simp add: bit_unsigned_iff)
  then have "bit w 31 \<longleftrightarrow> odd (unat w div 2 ^ 31)" by (simp only: bit_iff_odd)
  moreover have "unat w < 2 ^ 32" using unsigned_less [of w] by simp
  then have "unat w div 2 ^ 31 < 2" by (intro less_mult_imp_div_less) simp
  ultimately show ?thesis by (cases "unat w div 2 ^ 31") (auto simp: div_eq_0_iff less_2_cases_iff)
qed

lemma idx_ok: "(w :: u32) AND push_bit 31 1 = 0 \<longleftrightarrow> unat w < 2 ^ 31"
  by (simp only: high_bit low_half)

lemma bit_high_mask: "bit (push_bit 31 1 :: u32) n \<longleftrightarrow> n = 31"
  by (simp only: bit_push_bit_iff bit_1_iff) auto

lemma cn_from_to_u32:
  assumes "cn_ok c"
  shows "cn_from_u32 (cn_to_u32 c) = c"
proof (cases c)
  case (Normal i)
  then show ?thesis using assms by (simp only: cn_from_u32_def cn_to_u32.simps cn_ok_def idx_ok ChildNumber.case if_False not_not if_True) auto
next
  case (Hardened i)
  then have i: "\<not> bit i 31" using assms low_half [of i] by (simp add: cn_ok_def)
  have "bit (i OR push_bit 31 1) 31" unfolding bit_or_iff bit_high_mask by simp
  then have h: "(i OR push_bit 31 1) AND push_bit 31 1 \<noteq> 0" by (simp only: high_bit) simp
  have "(i OR push_bit 31 1) XOR push_bit 31 1 = i"
    by (rule bit_word_eqI) (use i in \<open>auto simp only: bit_or_iff bit_xor_iff bit_high_mask\<close>)
  then show ?thesis unfolding Hardened cn_to_u32.simps cn_from_u32_def using h by (simp only: if_True not_False_eq_True)
qed

lemma cn_to_from_u32: "cn_to_u32 (cn_from_u32 n) = n" and cn_ok_from_u32: "cn_ok (cn_from_u32 n)"
proof -
  have x: "(n XOR push_bit 31 1) OR push_bit 31 1 = n" if "bit n 31"
    by (rule bit_word_eqI) (use that in \<open>auto simp only: bit_or_iff bit_xor_iff bit_high_mask\<close>)
  show "cn_to_u32 (cn_from_u32 n) = n"
    unfolding cn_from_u32_def high_bit using x by (cases "bit n 31") (simp_all only: if_True if_False not_not not_True_eq_False not_False_eq_True cn_to_u32.simps)
  have "\<not> bit (n XOR push_bit 31 1) 31" if "bit n 31"
    using that unfolding bit_xor_iff bit_high_mask by simp
  then show "cn_ok (cn_from_u32 n)"
    unfolding cn_from_u32_def high_bit
    by (cases "bit n 31") (simp_all only: if_True if_False not_not not_True_eq_False not_False_eq_True cn_ok_def ChildNumber.case low_half)
qed

section \<open>Text\<close>

lemma decimal_digits_Nil: "decimal_digits n \<noteq> []"
  by (simp add: decimal_digits.simps [of n])

lemma digit_bounds: "d \<in> set (decimal_digits n) \<Longrightarrow> 48 \<le> d \<and> d \<le> 57"
  using decimal_digits_range [of d n] by (simp add: word_le_nat_alt)

lemma u32_from_str_digits: "u32_from_str (decimal_digits (unat n)) = Some n"
proof -
  obtain c cs where c: "decimal_digits (unat n) = c # cs" by (meson decimal_digits_Nil neq_Nil_conv)
  have "c \<noteq> 0x2b" using digit_bounds [of c "unat n"] c by (auto simp: word_le_nat_alt)
  moreover have "list_all (\<lambda>d. 48 \<le> d \<and> d \<le> 57) (c # cs)" unfolding c [symmetric] list_all_iff using digit_bounds by blast
  moreover have "unat n < 2 ^ 32" using unsigned_less [of n] by simp
  moreover have "decimal_value (c # cs) = unat n" using decimal_value_digits [of "unat n"] by (simp only: c)
  ultimately show ?thesis unfolding u32_from_str_def c Let_def list.case by simp
qed

lemma cn_from_str_display:
  assumes "cn_ok c"
  shows "cn_from_str (cn_display alt c) = Inr c"
proof (cases c)
  case (Normal i)
  have "last (decimal_digits (unat i)) \<in> set (decimal_digits (unat i))" by (simp add: decimal_digits_Nil)
  then have "last (decimal_digits (unat i)) \<noteq> 0x27" "last (decimal_digits (unat i)) \<noteq> 0x68"
    using digit_bounds [of "last (decimal_digits (unat i))" "unat i"] by (auto simp: word_le_nat_alt)
  moreover have "from_normal_idx i = Inr c" using assms Normal by (simp only: from_normal_idx_def idx_ok cn_ok_def ChildNumber.case if_True)
  ultimately show ?thesis using Normal by (simp add: cn_from_str_def u32_from_str_digits)
next
  case (Hardened i)
  have "from_hardened_idx i = Inr c" using assms Hardened by (simp only: from_hardened_idx_def idx_ok cn_ok_def ChildNumber.case if_True)
  then show ?thesis using Hardened by (simp add: cn_from_str_def u32_from_str_digits)
qed

lemma digits_no_slash: "0x2f \<notin> set (decimal_digits n)"
  using digit_bounds [of "0x2f" n] by auto

lemma cn_display_no_slash: "0x2f \<notin> set (cn_display alt c)"
  by (cases c) (simp_all add: digits_no_slash)

lemma cn_display_hd: "cn_display alt c \<noteq> [] \<and> hd (cn_display alt c) \<noteq> 0x6d"
proof (cases c)
  case (Normal i)
  then show ?thesis using digit_bounds [of "hd (decimal_digits (unat i))" "unat i"] decimal_digits_Nil [of "unat i"]
    by (auto simp: word_le_nat_alt)
next
  case (Hardened i)
  then show ?thesis using digit_bounds [of "hd (decimal_digits (unat i))" "unat i"] decimal_digits_Nil [of "unat i"]
    by (auto simp: word_le_nat_alt)
qed

lemma split_on_last: "c \<notin> set p \<Longrightarrow> split_on c p = [p]"
  by (induction p) auto

lemma split_on_part: "c \<notin> set p \<Longrightarrow> split_on c (p @ c # r) = p # split_on c r"
  by (induction p) auto

lemma split_on_join: "list_all (\<lambda>p. c \<notin> set p) (p # ps) \<Longrightarrow> split_on c (p @ concat (map (\<lambda>p. c # p) ps)) = p # ps"
  by (induction ps arbitrary: p) (simp_all add: split_on_last split_on_part)

lemma collect_children_display: "list_all cn_ok cs \<Longrightarrow> collect_children (map (cn_display alt) cs) = Inr cs"
  by (induction cs) (simp_all add: cn_from_str_display)

lemma split_path:
  "split_on 0x2f (cn_display alt c @ concat (map (\<lambda>c. 0x2f # cn_display alt c) cs)) = map (cn_display alt) (c # cs)"
  using split_on_join [of "0x2f" "cn_display alt c" "map (cn_display alt) cs"]
  by (simp add: list_all_iff comp_def cn_display_no_slash)

lemma path_from_str_display:
  assumes "list_all cn_ok (path_0 p)"
  shows "path_from_str (path_display p) = Inr p" and "path_from_str (ascii ''m/'' @ path_display p) = Inr p"
proof -
  have m: "ascii ''m/'' = [0x6d, 0x2f]" "ascii ''m'' = [0x6d]" by (simp_all add: ascii_def)
  show "path_from_str (path_display p) = Inr p" "path_from_str (ascii ''m/'' @ path_display p) = Inr p"
  proof (atomize (full), cases "path_0 p")
    case Nil
    then have "p = DerivationPath []" by (cases p) simp
    then show "path_from_str (path_display p) = Inr p \<and> path_from_str (ascii ''m/'' @ path_display p) = Inr p" by (simp add: path_from_str_def)
  next
    case (Cons c cs)
    then have p: "p = DerivationPath (c # cs)" by (cases p) simp
    obtain d ds where d: "path_display p = d # ds" "d \<noteq> 0x6d"
      using cn_display_hd [of False c] p by (cases "cn_display False c") auto
    have "collect_children (split_on 0x2f (path_display p)) = Inr (c # cs)"
      using assms collect_children_display [of "c # cs" False] split_path [of False c cs] p by simp
    then show "path_from_str (path_display p) = Inr p \<and> path_from_str (ascii ''m/'' @ path_display p) = Inr p"
      using d p by (simp add: path_from_str_def m)
  qed
qed

lemma cn_from_str_ok: "cn_from_str s = Inr c \<Longrightarrow> cn_ok c"
  by (auto simp only: cn_from_str_def from_hardened_idx_def from_normal_idx_def idx_ok cn_ok_def split: if_splits option.splits) simp_all

lemma collect_children_ok: "collect_children ps = Inr cs \<Longrightarrow> list_all cn_ok cs"
  by (induction ps arbitrary: cs) (auto split: sum.splits dest: cn_from_str_ok)

lemma path_from_str_ok: "path_from_str s = Inr p \<Longrightarrow> list_all cn_ok (path_0 p)"
  using collect_children_ok by (fastforce simp: path_from_str_def Let_def map_sum_def split: if_splits sum.splits)

section \<open>The binary form of extended keys\<close>

definition xkey_ok :: "'a Xkey_scheme \<Rightarrow> bool" where
  "xkey_ok x \<longleftrightarrow> length (parent_fingerprint x) = 4 \<and> cn_ok (child_number x) \<and> length (chain_code x) = 32"

definition xpub_ok :: "KeyOps \<Rightarrow> Xpub \<Rightarrow> bool" where
  "xpub_ok ops x \<longleftrightarrow> xkey_ok x \<and> length (public_key x) = 33 \<and> pk_valid ops (public_key x)"

definition xpriv_ok :: "KeyOps \<Rightarrow> Xpriv \<Rightarrow> bool" where
  "xpriv_ok ops x \<longleftrightarrow> xkey_ok x \<and> length (private_key x) = 32 \<and> sk_valid ops (private_key x)"

lemmas version_bytes = VERSION_BYTES_MAINNET_PUBLIC_def VERSION_BYTES_MAINNET_PRIVATE_def VERSION_BYTES_TESTNETS_PUBLIC_def
  VERSION_BYTES_TESTNETS_PRIVATE_def

lemma key_layout:
  assumes "length bs = 78"
  shows "bs = take 4 bs @ [bs ! 4] @ take 4 (drop 5 bs) @ take 4 (drop 9 bs) @ take 32 (drop 13 bs) @ drop 45 bs"
proof -
  have split: "drop i bs = take k (drop i bs) @ drop (i + k) bs" for i k by (metis append_take_drop_id drop_drop add.commute)
  have "drop 4 bs = [bs ! 4] @ drop 5 bs" using assms Cons_nth_drop_Suc [of 4 bs] by simp
  then show ?thesis
    using split [of 5 4] split [of 9 4] split [of 13 32] append_take_drop_id [of 4 bs] by (simp only: numeral_plus_numeral semiring_norm)
qed

text \<open>The five fixed fields of a key, read at their offsets.\<close>

lemma field_reads:
  fixes d :: u8 and k :: bytes
  assumes "length v = 4" "length fp = 4" "length n = 4" "length cc = 32"
  defines "bs \<equiv> v @ [d] @ fp @ n @ cc @ k"
  shows "take 4 bs = v" "bs ! 4 = d" "take 4 (drop 5 bs) = fp" "take 4 (drop 9 bs) = n" "take 32 (drop 13 bs) = cc" "drop 45 bs = k"
    "length bs = 45 + length k"
  using assms(1-4) by (simp_all add: bs_def nth_append)

lemma cn_bytes: "length b = 4 \<Longrightarrow> to_be_bytes (cn_to_u32 (cn_from_u32 (from_be_bytes b))) = b"
  by (simp only: cn_to_from_u32) (simp add: to_from_be_bytes)

lemma cn_bytes_inv: "cn_ok c \<Longrightarrow> cn_from_u32 (from_be_bytes (to_be_bytes (cn_to_u32 c))) = c"
  by (simp add: from_to_be_bytes cn_from_to_u32)

lemma xpub_decode_encode:
  assumes "xpub_ok ops x"
  shows "xpub_decode ops (xpub_encode x) = Inr x"
proof -
  define v where "v = (case xk_network x of Main \<Rightarrow> VERSION_BYTES_MAINNET_PUBLIC | Test \<Rightarrow> VERSION_BYTES_TESTNETS_PUBLIC)"
  have v: "length v = 4" "(if v = VERSION_BYTES_MAINNET_PUBLIC then Some Main else if v = VERSION_BYTES_TESTNETS_PUBLIC then Some Test else None) =
      Some (xk_network x)"
    by (cases "xk_network x"; simp add: v_def version_bytes)+
  have ok: "length (parent_fingerprint x) = 4" "cn_ok (child_number x)" "length (chain_code x) = 32" "length (public_key x) = 33"
      "pk_valid ops (public_key x)"
    using assms by (simp_all add: xpub_ok_def xkey_ok_def)
  have n4: "length (to_be_bytes (cn_to_u32 (child_number x))) = 4" by simp
  note f = field_reads [OF v(1) ok(1) n4 ok(3), of "xk_depth x" "public_key x"]
  show ?thesis
    unfolding xpub_decode_def xpub_encode_def v_def [symmetric] Let_def
    by (simp only: f v(2) option.case cn_bytes_inv [OF ok(2)] ok) (simp add: ok)
qed

lemma xpriv_decode_encode:
  assumes "xpriv_ok ops x"
  shows "xpriv_decode ops ((xpriv_encode x)[45 := z]) = Inr x"
proof -
  define v where "v = (case xk_network x of Main \<Rightarrow> VERSION_BYTES_MAINNET_PRIVATE | Test \<Rightarrow> VERSION_BYTES_TESTNETS_PRIVATE)"
  have v: "length v = 4" "(if v = VERSION_BYTES_MAINNET_PRIVATE then Some Main else if v = VERSION_BYTES_TESTNETS_PRIVATE then Some Test else None) =
      Some (xk_network x)"
    by (cases "xk_network x"; simp add: v_def version_bytes)+
  have ok: "length (parent_fingerprint x) = 4" "cn_ok (child_number x)" "length (chain_code x) = 32" "length (private_key x) = 32"
      "sk_valid ops (private_key x)"
    using assms by (simp_all add: xpriv_ok_def xkey_ok_def)
  have upd: "(xpriv_encode x)[45 := z] =
      v @ [xk_depth x] @ parent_fingerprint x @ to_be_bytes (cn_to_u32 (child_number x)) @ chain_code x @ (z # private_key x)"
    using v(1) ok unfolding xpriv_encode_def v_def [symmetric] by (simp add: list_update_append)
  have n4: "length (to_be_bytes (cn_to_u32 (child_number x))) = 4" by simp
  note f = field_reads [OF v(1) ok(1) n4 ok(3), of "xk_depth x" "z # private_key x"]
  have d46: "drop 46 bs = drop 1 (drop 45 bs)" for bs :: bytes by simp
  show ?thesis
    unfolding xpriv_decode_def upd Let_def d46
    by (simp only: f v(2) option.case cn_bytes_inv [OF ok(2)] ok) (simp add: ok)
qed

lemma xpub_decode_canonical:
  assumes "xpub_decode ops bs = Inr x"
  shows "bs = xpub_encode x \<and> xpub_ok ops x"
proof -
  have l: "length bs = 78" using assms by (simp add: xpub_decode_def split: if_splits)
  then have k: "take 33 (drop 45 bs) = drop 45 bs" by simp
  show ?thesis
    using assms l key_layout [OF l] cn_bytes [of "take 4 (drop 9 bs)"]
    by (auto simp: xpub_decode_def xpub_encode_def Let_def k xpub_ok_def xkey_ok_def cn_ok_from_u32 split: if_splits)
qed

lemma xpriv_decode_canonical:
  assumes "xpriv_decode ops bs = Inr x"
  shows "bs = (xpriv_encode x)[45 := bs ! 45] \<and> xpriv_ok ops x"
proof -
  have l: "length bs = 78" using assms by (simp add: xpriv_decode_def split: if_splits)
  have k: "take 32 (drop 46 bs) = drop 46 bs" using l by simp
  have d: "drop 45 bs = bs ! 45 # drop 46 bs" using Cons_nth_drop_Suc [of 45 bs] l by simp
  have ok: "xpriv_ok ops x"
    using assms l by (auto simp: xpriv_decode_def Let_def k xpriv_ok_def xkey_ok_def cn_ok_from_u32 split: if_splits)
  have "xpriv_encode x = take 4 bs @ [bs ! 4] @ take 4 (drop 5 bs) @ take 4 (drop 9 bs) @ take 32 (drop 13 bs) @ 0 # drop 46 bs"
    using assms l cn_bytes [of "take 4 (drop 9 bs)"]
    by (auto simp: xpriv_decode_def xpriv_encode_def Let_def k split: if_splits)
  then have "(xpriv_encode x)[45 := bs ! 45] = bs"
    using l key_layout [OF l] by (simp add: list_update_append d)
  then show ?thesis using ok by simp
qed

lemma key_from_str_iff:
  assumes "\<And>bs. dec bs = Inr x \<Longrightarrow> length bs = 78"
  shows "key_from_str dec s = Some (Inr x) \<longleftrightarrow> (\<exists>bs. s = encode_check bs \<and> dec bs = Inr x)"
proof -
  have "key_from_str dec s = Some (Inr x) \<longleftrightarrow> (\<exists>bs. decode_check s = Some (Inr bs) \<and> dec bs = Inr x)"
  proof (cases "decode_check s")
    case (Some r)
    then show ?thesis using assms by (cases r) (auto simp: key_from_str_def)
  qed (simp add: key_from_str_def)
  then show ?thesis by (simp only: decode_check_iff)
qed

lemma xpub_decode_len: "xpub_decode ops bs = Inr x \<Longrightarrow> length bs = 78"
  by (simp add: xpub_decode_def split: if_splits)

lemma xpriv_decode_len: "xpriv_decode ops bs = Inr x \<Longrightarrow> length bs = 78"
  by (simp add: xpriv_decode_def split: if_splits)

lemma xpub_from_str_iff: "xpub_from_str ops s = Some (Inr x) \<longleftrightarrow> (\<exists>bs. s = encode_check bs \<and> xpub_decode ops bs = Inr x)"
  unfolding xpub_from_str_def by (rule key_from_str_iff) (rule xpub_decode_len)

lemma xpriv_from_str_iff: "xpriv_from_str ops s = Some (Inr x) \<longleftrightarrow> (\<exists>bs. s = encode_check bs \<and> xpriv_decode ops bs = Inr x)"
  unfolding xpriv_from_str_def by (rule key_from_str_iff) (rule xpriv_decode_len)

lemma display_check: "encode_check_to_fmt bs = encode_check bs"
  by (simp add: encode_check_to_fmt_def encode_check_def)

section \<open>Derivation\<close>

lemma hmac512_eq: "hmac512 key ps = Some (rfc2104 128 sha512_hash key (concat ps))"
  using hmac_sha512.hmac_exact [of key ps] by (auto simp: hmac512_def)

lemma ckd_agree:
  assumes law: "\<And>a b. pk_add_exp_tweak ops (pk_of_sk ops b) a = map_option (pk_of_sk ops) (sk_add_tweak ops a b)"
  shows "ckd_pub ops (xpub_from_priv ops x) (Normal n) =
    Some (case ckd_priv ops x (Normal n) of
            None \<Rightarrow> Inl Secp256k1Error | Some (Inl e) \<Rightarrow> Inl e | Some (Inr y) \<Rightarrow> Inr (xpub_from_priv ops y))"
proof -
  let ?r = "rfc2104 128 sha512_hash (chain_code x) (pk_of_sk ops (private_key x) @ to_be_bytes n)"
  have fp: "xpub_fingerprint (xpub_from_priv ops x) = xpriv_fingerprint ops x"
    by (simp add: xpub_fingerprint_def xpriv_fingerprint_def xpriv_identifier_def)
  have f: "chain_code (xpub_from_priv ops x) = chain_code x" "public_key (xpub_from_priv ops x) = pk_of_sk ops (private_key x)"
      "xk_depth (xpub_from_priv ops x) = xk_depth x" "xk_network (xpub_from_priv ops x) = xk_network x"
    by (simp_all add: xpub_from_priv_def)
  show ?thesis
    unfolding ckd_pub_def ckd_priv_def ckd_pub_tweak.simps hmac512_eq Let_def fp f
    by (cases "sk_valid ops (take 32 ?r)"; cases "sk_add_tweak ops (take 32 ?r) (private_key x)")
      (simp_all add: law xpub_from_priv_def)
qed

lemma derive_agree:
  assumes law: "\<And>a b. pk_add_exp_tweak ops (pk_of_sk ops b) a = map_option (pk_of_sk ops) (sk_add_tweak ops a b)"
    and "list_all is_normal path"
  shows "derive_pub ops (xpub_from_priv ops x) path =
    Some (case derive_priv ops x path of
            None \<Rightarrow> Inl Secp256k1Error | Some (Inl e) \<Rightarrow> Inl e | Some (Inr y) \<Rightarrow> Inr (xpub_from_priv ops y))"
  using assms(2)
proof (induction path arbitrary: x)
  case (Cons c cs)
  then obtain n where c: "c = Normal n" by (cases c) (simp_all add: is_normal_def)
  show ?case
  proof (cases "ckd_priv ops x c")
    case None
    then show ?thesis using ckd_agree [OF law, of x n] by (simp add: c)
  next
    case (Some r)
    then show ?thesis using ckd_agree [OF law, of x n] Cons by (cases r) (simp_all add: c)
  qed
qed simp

lemma ckd_pub_hardened: "ckd_pub ops x (Hardened n) = Some (Inl CannotDeriveFromHardenedKey)"
  by (simp add: ckd_pub_def)

section \<open>Iterating over children\<close>

fun iter_take :: "bool \<Rightarrow> nat \<Rightarrow> DerivationPathIterator \<Rightarrow> (DerivationPath list \<times> DerivationPathIterator) option" where
  "iter_take oc 0 it = Some ([], it)"
| "iter_take oc (Suc k) it =
     Option.bind (iter_next oc it) (\<lambda>(r, it).
       case r of None \<Rightarrow> Some ([], it) | Some p \<Rightarrow> map_option (\<lambda>(ps, it). (p # ps, it)) (iter_take oc k it))"

lemma unat_small: "n < 2 ^ 32 \<Longrightarrow> unat (word_of_nat n :: u32) = n"
  by (simp add: unat_of_nat)

lemma increment_small:
  assumes "n < 2 ^ 31"
  shows "cn_increment oc (Normal (word_of_nat n)) =
      Some (if Suc n < 2 ^ 31 then Inr (Normal (word_of_nat (Suc n))) else Inl (InvalidChildNumber (word_of_nat (Suc n))))"
    and "cn_increment oc (Hardened (word_of_nat n)) =
      Some (if Suc n < 2 ^ 31 then Inr (Hardened (word_of_nat (Suc n))) else Inl (InvalidChildNumber (word_of_nat (Suc n))))"
proof -
  have s: "unat (word_of_nat (Suc n) :: u32) = Suc n" using assms by (intro unat_small) simp
  have "unat (word_of_nat n :: u32) = n" using assms by (intro unat_small) simp
  moreover have "unat (- 1 :: u32) = 2 ^ 32 - 1" by (simp add: unsigned_minus_1_eq_mask mask_eq_exp_minus_1)
  ultimately have m: "word_of_nat n \<noteq> (- 1 :: u32)" using assms by auto
  have p: "(word_of_nat n :: u32) + 1 = word_of_nat (Suc n)" by simp
  show "cn_increment oc (Normal (word_of_nat n)) =
      Some (if Suc n < 2 ^ 31 then Inr (Normal (word_of_nat (Suc n))) else Inl (InvalidChildNumber (word_of_nat (Suc n))))"
    using m by (simp only: cn_increment.simps from_normal_idx_def idx_ok p s) simp
  show "cn_increment oc (Hardened (word_of_nat n)) =
      Some (if Suc n < 2 ^ 31 then Inr (Hardened (word_of_nat (Suc n))) else Inl (InvalidChildNumber (word_of_nat (Suc n))))"
    using m by (simp only: cn_increment.simps from_hardened_idx_def idx_ok p s) simp
qed

lemma iter_children:
  assumes "n \<le> 2 ^ 31" and mk: "mk = Normal \<or> mk = Hardened"
  shows "\<exists>it'. iter_take oc k \<lparr> it_base = p, next_child = (if n < 2 ^ 31 then Some (mk (word_of_nat n)) else None) \<rparr> =
    Some (map (\<lambda>i. path_child p (mk (word_of_nat i))) [n..<min (n + k) (2 ^ 31)], it')"
  using assms(1)
proof (induction k arbitrary: n)
  case 0
  then show ?case by simp
next
  case (Suc k)
  show ?case
  proof (cases "n < 2 ^ 31")
    case False
    then show ?thesis using Suc.prems by (simp add: iter_next_def)
  next
    case True
    let ?nx = "if Suc n < 2 ^ 31 then Some (mk (word_of_nat (Suc n))) else None"
    have st: "iter_next oc \<lparr> it_base = p, next_child = Some (mk (word_of_nat n)) \<rparr> =
        Some (Some (path_child p (mk (word_of_nat n))), \<lparr> it_base = p, next_child = ?nx \<rparr>)"
      using mk increment_small [OF True, of oc] by (auto simp: iter_next_def)
    have up: "[n..<min (n + Suc k) (2 ^ 31)] = n # [Suc n..<min (Suc n + k) (2 ^ 31)]"
      using True by (subst upt_conv_Cons) simp_all
    obtain it' where "iter_take oc k \<lparr> it_base = p, next_child = ?nx \<rparr> =
        Some (map (\<lambda>i. path_child p (mk (word_of_nat i))) [Suc n..<min (Suc n + k) (2 ^ 31)], it')"
      using Suc.IH [of "Suc n"] True by auto
    then show ?thesis using True unfolding up iter_take.simps if_P [OF True] st by simp
  qed
qed

section \<open>Properties\<close>

text \<open>(C10) Public and private derivation agree on paths without hardened steps: deriving from the public half of a key gives the public half of the
  derived key and the same errors; where private derivation panics, public derivation reports the error of the curve. A hardened step is
  refused.\<close>

theorem derivation_agrees:
  assumes "\<forall>a b. pk_add_exp_tweak ops (pk_of_sk ops b) a = map_option (pk_of_sk ops) (sk_add_tweak ops a b)"
  shows "(list_all is_normal path \<longrightarrow>
      derive_pub ops (xpub_from_priv ops x) path =
      Some (case derive_priv ops x path of
              None \<Rightarrow> Inl Secp256k1Error | Some (Inl e) \<Rightarrow> Inl e | Some (Inr y) \<Rightarrow> Inr (xpub_from_priv ops y))) \<and>
    derive_pub ops y (Hardened n # path) = Some (Inl CannotDeriveFromHardenedKey)"
  using derive_agree [of ops path x] assms by (simp add: ckd_pub_hardened)

definition sample_ops :: KeyOps where
  "sample_ops = \<lparr> sk_valid = (\<lambda>_. True), pk_valid = (\<lambda>_. True), pk_of_sk = (\<lambda>k. 2 # k), sk_add_tweak = (\<lambda>a b. Some (map2 (+) a b)),
     pk_add_exp_tweak = (\<lambda>p a. Some (2 # map2 (+) a (tl p))) \<rparr>"

definition sample_xpriv :: Xpriv where
  "sample_xpriv = \<lparr> xk_network = Main, xk_depth = 0, parent_fingerprint = replicate 4 0, child_number = Normal 0, chain_code = replicate 32 1,
     private_key = replicate 32 7 \<rparr>"

theorem derivation_agrees_witness:
  "derive_pub sample_ops (xpub_from_priv sample_ops sample_xpriv) [Normal 3, Normal 5] =
     Some (case derive_priv sample_ops sample_xpriv [Normal 3, Normal 5] of
             None \<Rightarrow> Inl Secp256k1Error | Some (Inl e) \<Rightarrow> Inl e | Some (Inr y) \<Rightarrow> Inr (xpub_from_priv sample_ops y)) \<and>
   derive_pub sample_ops (xpub_from_priv sample_ops sample_xpriv) [Hardened 1] = Some (Inl CannotDeriveFromHardenedKey)"
proof
  have law: "\<forall>a b. pk_add_exp_tweak sample_ops (pk_of_sk sample_ops b) a = map_option (pk_of_sk sample_ops) (sk_add_tweak sample_ops a b)"
    by (simp add: sample_ops_def)
  show "derive_pub sample_ops (xpub_from_priv sample_ops sample_xpriv) [Normal 3, Normal 5] =
      Some (case derive_priv sample_ops sample_xpriv [Normal 3, Normal 5] of
              None \<Rightarrow> Inl Secp256k1Error | Some (Inl e) \<Rightarrow> Inl e | Some (Inr y) \<Rightarrow> Inr (xpub_from_priv sample_ops y))"
    by (rule derivation_agrees [OF law, THEN conjunct1, THEN mp]) (simp add: is_normal_def)
  show "derive_pub sample_ops (xpub_from_priv sample_ops sample_xpriv) [Hardened 1] = Some (Inl CannotDeriveFromHardenedKey)"
    by (rule derivation_agrees [OF law, THEN conjunct2])
qed

text \<open>Extended public keys as text: a string is read to a key exactly when it is what the key displays as.\<close>

theorem xpub_text_exact:
  "xpub_from_str ops s = Some (Inr x) \<longleftrightarrow> s = xpub_display x \<and> xpub_ok ops x"
proof -
  have "xpub_decode ops bs = Inr x \<longleftrightarrow> bs = xpub_encode x \<and> xpub_ok ops x" for bs
    using xpub_decode_encode xpub_decode_canonical by blast
  then show ?thesis by (auto simp: xpub_from_str_iff xpub_display_def display_check)
qed

text \<open>Extended private keys: a key reads back from its display, but a string is read to the key also when the byte in front of
  the private key, which is written as zero, has any other value.\<close>

theorem xpriv_text_exact:
  "xpriv_from_str ops s = Some (Inr x) \<longleftrightarrow> (\<exists>z. s = encode_check ((xpriv_encode x)[45 := z])) \<and> xpriv_ok ops x"
proof -
  have "xpriv_decode ops bs = Inr x \<longleftrightarrow> (\<exists>z. bs = (xpriv_encode x)[45 := z]) \<and> xpriv_ok ops x" for bs
    using xpriv_decode_encode xpriv_decode_canonical by blast
  then show ?thesis by (auto simp: xpriv_from_str_iff)
qed

text \<open>Derivation paths as text: what is displayed, with or without the prefix of the master key, reads back; every path that is read has
  indices below two to the thirty-first.\<close>

theorem path_text_roundtrip:
  "(list_all cn_ok (path_0 p) \<longrightarrow>
      path_from_str (path_display p) = Inr p \<and> path_from_str (ascii ''m/'' @ path_display p) = Inr p) \<and>
   (path_from_str s = Inr q \<longrightarrow> list_all cn_ok (path_0 q))"
  using path_from_str_display path_from_str_ok by blast

theorem path_text_roundtrip_witness:
  "path_from_str (path_display (DerivationPath [Hardened 44, Hardened 3, Normal 0])) = Inr (DerivationPath [Hardened 44, Hardened 3, Normal 0]) \<and>
   list_all cn_ok (path_0 (DerivationPath []))"
  using path_text_roundtrip [of "DerivationPath [Hardened 44, Hardened 3, Normal 0]" "[]" "DerivationPath []"]
  by (simp add: cn_ok_def)

text \<open>The children of a path: the iterator yields the indices from zero to the largest below two to the thirty-first, in order, and then
  ends; it never panics.\<close>

theorem children_iterator_exact:
  "(\<exists>it. iter_take oc k (normal_children p) =
      Some (map (\<lambda>i. path_child p (Normal (word_of_nat i))) [0..<min k (2 ^ 31)], it)) \<and>
   (\<exists>it. iter_take oc k (hardened_children p) =
      Some (map (\<lambda>i. path_child p (Hardened (word_of_nat i))) [0..<min k (2 ^ 31)], it))"
  using iter_children [of 0 Normal oc k p] iter_children [of 0 Hardened oc k p]
  by (simp add: normal_children_def hardened_children_def start_from_def)

end
