(* ===== verification/PsbtRaw.thy ===== *)
theory PsbtRaw
  imports Bip32 Sighash
begin

text \<open>
  The raw layer of partially signed transactions: the ordered maps that hold the key-value pairs, the errors
  (\<open>psbt/error.rs\<close>), raw keys, pairs and proprietary keys (\<open>psbt/raw.rs\<close>). A \<open>BTreeMap\<close> is the list of its entries in
  ascending order; the order of a key type is a comparison, and the locale \<open>total_cmp\<close> states what the maps rely on.
\<close>

section \<open>Ordered maps\<close>

type_synonym 'k cmp = "'k \<Rightarrow> 'k \<Rightarrow> Ordering"
type_synonym ('k, 'v) btree = "('k \<times> 'v) list"

fun bt_get :: "'k cmp \<Rightarrow> ('k, 'v) btree \<Rightarrow> 'k \<Rightarrow> 'v option" where
  "bt_get c [] k = None"
| "bt_get c ((k', v) # m) k = (case c k k' of Less \<Rightarrow> None | Equal \<Rightarrow> Some v | Greater \<Rightarrow> bt_get c m k)"

fun bt_insert :: "'k cmp \<Rightarrow> 'k \<Rightarrow> 'v \<Rightarrow> ('k, 'v) btree \<Rightarrow> ('k, 'v) btree" where
  "bt_insert c k v [] = [(k, v)]"
| "bt_insert c k v ((k', v') # m) =
     (case c k k' of Less \<Rightarrow> (k, v) # (k', v') # m | Equal \<Rightarrow> (k', v) # m | Greater \<Rightarrow> (k', v') # bt_insert c k v m)"

definition bt_extend :: "'k cmp \<Rightarrow> ('k, 'v) btree \<Rightarrow> ('k, 'v) btree \<Rightarrow> ('k, 'v) btree" where
  "bt_extend c m other = fold (\<lambda>(k, v) m. bt_insert c k v m) other m"

definition bt_ok :: "'k cmp \<Rightarrow> ('k, 'v) btree \<Rightarrow> bool" where
  "bt_ok c m \<longleftrightarrow> sorted_wrt (\<lambda>x y. c (fst x) (fst y) = Less) m"

lemma sorted_wrt_unique:
  assumes "sorted_wrt R xs" "sorted_wrt R ys" "set xs = set ys" "\<And>x y. \<not> (R x y \<and> R y x)"
  shows "xs = ys"
  using assms(1-3)
proof (induction xs arbitrary: ys)
  case (Cons x xs)
  then obtain y zs where y: "ys = y # zs" by (cases ys) auto
  have "x = y" using Cons.prems assms(4) [of x y] by (auto simp: y)
  moreover have "x \<notin> set xs" "y \<notin> set zs" using Cons.prems assms(4) [of x x] assms(4) [of y y] by (auto simp: y)
  ultimately have "set xs = set zs" using Cons.prems(3) by (auto simp: y)
  then show ?case using Cons \<open>x = y\<close> by (simp add: y)
qed simp

locale total_cmp =
  fixes c :: "'k cmp"
  assumes eq_iff: "c a b = Equal \<longleftrightarrow> a = b"
    and flips: "c b a = flip (c a b)"
    and less_trans: "c x y = Less \<Longrightarrow> c y z = Less \<Longrightarrow> c x z = Less"
begin

lemma refl_cmp [simp]: "c a a = Equal"
  by (simp add: eq_iff)

lemma bt_ok_Cons: "bt_ok c ((k, v) # m) \<longleftrightarrow> bt_ok c m \<and> (\<forall>k' \<in> fst ` set m. c k k' = Less)"
  by (auto simp: bt_ok_def)

lemma insert_keys: "fst ` set (bt_insert c k v m) = insert k (fst ` set m)"
proof (induction m)
  case (Cons e m)
  show ?case
    using Cons by (cases e; cases "c k (fst e)") (simp_all add: eq_iff insert_commute)
qed simp

lemma insert_ok: "bt_ok c m \<Longrightarrow> bt_ok c (bt_insert c k v m)"
proof (induction m)
  case Nil
  then show ?case by (simp add: bt_ok_def)
next
  case (Cons e m)
  obtain k' v' where e: "e = (k', v')" by (cases e)
  show ?case
  proof (cases "c k k'")
    case Less
    then show ?thesis using Cons.prems less_trans [OF Less] by (auto simp: e bt_ok_Cons)
  next
    case Equal
    then show ?thesis using Cons.prems by (auto simp: e bt_ok_Cons)
  next
    case Greater
    then have "c k' k = Less" using flips [of k' k] by simp
    then show ?thesis using Cons Greater by (auto simp: e bt_ok_Cons insert_keys)
  qed
qed

lemma extend_ok: "bt_ok c m \<Longrightarrow> bt_ok c (bt_extend c m other)"
  unfolding bt_extend_def by (induction other arbitrary: m) (auto simp: insert_ok)

lemma get_above: "\<forall>k' \<in> fst ` set m. c k k' = Less \<Longrightarrow> bt_get c m k = None"
  by (cases m) auto

lemma get_insert: "bt_ok c m \<Longrightarrow> bt_get c (bt_insert c k v m) k' = (if k' = k then Some v else bt_get c m k')"
proof (induction m)
  case Nil
  then show ?case by (auto simp: eq_iff split: Ordering.split)
next
  case (Cons e m)
  obtain k1 v1 where e: "e = (k1, v1)" by (cases e)
  have ok: "bt_ok c m" "\<forall>x \<in> fst ` set m. c k1 x = Less" using Cons.prems by (auto simp: e bt_ok_Cons)
  show ?case
  proof (cases "c k k1")
    case Less
    show ?thesis
    proof (cases "c k' k")
      case L: Less
      then show ?thesis using less_trans [OF L Less] Less by (auto simp: e)
    qed (use Less in \<open>auto simp: e eq_iff\<close>)
  next
    case Equal
    then show ?thesis by (auto simp: e eq_iff split: Ordering.split)
  next
    case Greater
    then show ?thesis using Cons.IH [OF ok(1)] by (auto simp: e split: Ordering.split)
  qed
qed

lemma get_extend:
  assumes "bt_ok c m" "bt_ok c other"
  shows "bt_get c (bt_extend c m other) k = (case bt_get c other k of Some v \<Rightarrow> Some v | None \<Rightarrow> bt_get c m k)"
  using assms
proof (induction other arbitrary: m)
  case Nil
  then show ?case by (simp add: bt_extend_def)
next
  case (Cons e other)
  obtain k1 v1 where e: "e = (k1, v1)" by (cases e)
  have ok: "bt_ok c other" "\<forall>x \<in> fst ` set other. c k1 x = Less" using Cons.prems by (auto simp: e bt_ok_Cons)
  have "bt_extend c m (e # other) = bt_extend c (bt_insert c k1 v1 m) other" by (simp add: bt_extend_def e)
  then have s: "bt_get c (bt_extend c m (e # other)) k =
      (case bt_get c other k of Some v \<Rightarrow> Some v | None \<Rightarrow> if k = k1 then Some v1 else bt_get c m k)"
    using Cons.IH [OF insert_ok [OF Cons.prems(1)] ok(1)] get_insert [OF Cons.prems(1)] by (simp split: option.split)
  show ?case
  proof (cases "c k k1")
    case Less
    then have "\<forall>x \<in> fst ` set other. c k x = Less" using ok(2) less_trans by blast
    then have "bt_get c other k = None" by (rule get_above)
    moreover have "k \<noteq> k1" using Less by auto
    ultimately show ?thesis using s by (simp add: e Less)
  next
    case Equal
    then have "k = k1" by (simp add: eq_iff)
    then show ?thesis using s ok(2) get_above [of other k1] by (simp add: e)
  next
    case Greater
    then have "k \<noteq> k1" by auto
    then show ?thesis using s by (simp add: e Greater)
  qed
qed

lemma get_eq_Some: "bt_ok c m \<Longrightarrow> bt_get c m k = Some v \<longleftrightarrow> (k, v) \<in> set m"
proof (induction m)
  case (Cons e m)
  obtain k1 v1 where e: "e = (k1, v1)" by (cases e)
  have ok: "bt_ok c m" "\<forall>x \<in> fst ` set m. c k1 x = Less" using Cons.prems by (auto simp: e bt_ok_Cons)
  show ?case
  proof (cases "c k k1")
    case Less
    then have "\<forall>x \<in> fst ` set m. c k x = Less" using ok(2) less_trans by blast
    then show ?thesis using Less by (force simp: e)
  next
    case Equal
    then have "k = k1" "(k1, v) \<notin> set m" using ok(2) by (force simp: eq_iff)+
    then show ?thesis by (auto simp: e)
  next
    case Greater
    then have "k \<noteq> k1" by auto
    then show ?thesis using Cons.IH [OF ok(1)] Greater by (simp add: e)
  qed
qed simp

lemma get_eq_None: "bt_ok c m \<Longrightarrow> bt_get c m k = None \<longleftrightarrow> k \<notin> fst ` set m"
  using get_eq_Some by (metis (no_types, lifting) fst_conv image_iff not_None_eq prod.collapse)

lemma insert_last: "\<forall>k' \<in> fst ` set m. c k' k = Less \<Longrightarrow> bt_insert c k v m = m @ [(k, v)]"
proof (induction m)
  case (Cons e m)
  then have "c k (fst e) = Greater" using flips [of k "fst e"] by simp
  then show ?case using Cons by (cases e) simp
qed simp

lemma insert_set: "bt_get c m k = None \<Longrightarrow> set (bt_insert c k v m) = insert (k, v) (set m)"
  by (induction m) (auto split: Ordering.splits)

lemma insert_set_sub: "set (bt_insert c k v m) \<subseteq> insert (k, v) (set m)"
  by (induction m) (auto simp: eq_iff split: Ordering.splits)

lemma map_ext:
  assumes "bt_ok c m" "bt_ok c n" "\<And>k. bt_get c m k = bt_get c n k"
  shows "m = n"
proof (rule sorted_wrt_unique)
  show "set m = set n"
    using assms(3) get_eq_Some [OF assms(1)] get_eq_Some [OF assms(2)] by (auto simp: set_eq_iff)
  show "\<not> (c (fst x) (fst y) = Less \<and> c (fst y) (fst x) = Less)" for x y :: "'k \<times> 'a"
    using flips [of "fst x" "fst y"] by auto
qed (use assms in \<open>auto simp: bt_ok_def\<close>)

end

section \<open>Orders of the key types\<close>

lemma total_cmp_by: "total_cmp (cmp_by :: 'a::linorder \<Rightarrow> 'a \<Rightarrow> Ordering)"
  by unfold_locales (auto simp: cmp_by_def split: if_splits)

text \<open>A derived order compares field by field.\<close>

definition cmp_pair :: "'a cmp \<Rightarrow> 'b cmp \<Rightarrow> ('a \<times> 'b) cmp" where
  "cmp_pair c d x y = then_cmp (c (fst x) (fst y)) (d (snd x) (snd y))"

lemma then_cmp_eq: "then_cmp x y = Equal \<longleftrightarrow> x = Equal \<and> y = Equal"
  and then_cmp_less: "then_cmp x y = Less \<longleftrightarrow> x = Less \<or> x = Equal \<and> y = Less"
  by (cases x; simp)+

lemma total_cmp_pair:
  assumes "total_cmp c" "total_cmp d"
  shows "total_cmp (cmp_pair c d)"
proof -
  have e: "\<And>a b. c a b = Equal \<longleftrightarrow> a = b" "\<And>a b. d a b = Equal \<longleftrightarrow> a = b"
    using assms by (simp_all add: total_cmp.eq_iff)
  show ?thesis
  proof
    fix x y z :: "'a \<times> 'b"
    show "cmp_pair c d x y = Equal \<longleftrightarrow> x = y" by (simp add: cmp_pair_def then_cmp_eq e prod_eq_iff)
    show "cmp_pair c d y x = flip (cmp_pair c d x y)"
      by (simp add: cmp_pair_def then_cmp_flip total_cmp.flips [OF assms(1), of "fst y"] total_cmp.flips [OF assms(2), of "snd y"])
    assume "cmp_pair c d x y = Less" "cmp_pair c d y z = Less"
    then show "cmp_pair c d x z = Less"
      using total_cmp.less_trans [OF assms(1), of "fst x" "fst y" "fst z"] total_cmp.less_trans [OF assms(2), of "snd x" "snd y" "snd z"]
      by (auto simp: cmp_pair_def then_cmp_less e)
  qed
qed

lemma total_cmp_list:
  assumes "total_cmp c"
  shows "total_cmp (cmp_list c)"
proof
  fix x y z :: "'a list"
  show "cmp_list c x y = Equal \<longleftrightarrow> x = y"
    by (induction x y rule: list_induct2') (auto simp: then_cmp_eq total_cmp.eq_iff [OF assms])
  show "cmp_list c y x = flip (cmp_list c x y)"
    by (induction x y rule: list_induct2') (simp_all add: then_cmp_flip, metis total_cmp.flips [OF assms])
  assume "cmp_list c x y = Less" "cmp_list c y z = Less"
  then show "cmp_list c x z = Less"
  proof (induction x arbitrary: y z)
    case Nil
    then show ?case by (cases y; cases z; simp)
  next
    case (Cons a x)
    then obtain b y' d z' where "y = b # y'" "z = d # z'" by (cases y; cases z; auto)
    then show ?case using Cons total_cmp.less_trans [OF assms, of a b d]
      by (auto simp: then_cmp_less total_cmp.eq_iff [OF assms])
  qed
qed

text \<open>The order of a type that is compared through an injective reading.\<close>

definition cmp_on :: "('a \<Rightarrow> 'b) \<Rightarrow> 'b cmp \<Rightarrow> 'a cmp" where "cmp_on f c x y = c (f x) (f y)"

lemma total_cmp_on:
  fixes f :: "'a \<Rightarrow> 'b"
  assumes "total_cmp c" "inj f"
  shows "total_cmp (cmp_on f c)"
proof
  fix x y z :: 'a
  show "cmp_on f c x y = Equal \<longleftrightarrow> x = y" by (simp add: cmp_on_def total_cmp.eq_iff [OF assms(1)] inj_eq [OF assms(2)])
  show "cmp_on f c y x = flip (cmp_on f c x y)" unfolding cmp_on_def by (rule total_cmp.flips [OF assms(1)])
  show "cmp_on f c x z = Less" if "cmp_on f c x y = Less" "cmp_on f c y z = Less"
    using that unfolding cmp_on_def by (rule total_cmp.less_trans [OF assms(1)])
qed

interpretation byte_cmp: total_cmp cmp_bytes
  by (rule total_cmp_list) (rule total_cmp_by)

interpretation hash_pair_cmp: total_cmp "cmp_pair cmp_bytes cmp_bytes"
  by (rule total_cmp_pair) (rule byte_cmp.total_cmp_axioms)+

section \<open>Errors\<close>

record RawKey =
  type_value :: u8
  key_data :: bytes

record RawPair =
  pair_key :: RawKey
  pair_value :: bytes

datatype PsbtHash = HashRipemd | HashSha256 | HashHash160 | HashHash256

datatype KeyFromSliceError = KeySecp256k1 | KeyInvalidPrefix u8 | KeyInvalidLength nat
datatype EcdsaSigError = EmptySignature | EcdsaSighashError u32 | EcdsaSecp256k1
datatype TapSigError = TapSighashError u32 | TapSigSecp256k1 | InvalidSignatureSize nat

datatype PsbtError =
    InvalidMagic | MissingUtxo | InvalidSeparator | PsbtUtxoOutOfbounds | InvalidKey RawKey | InvalidProprietaryKey
  | DuplicateKey RawKey | UnsignedTxHasScriptSigs | UnsignedTxHasScriptWitnesses | MustHaveUnsignedTx | NoMorePairs
  | UnexpectedUnsignedTx Transaction Transaction | NonStandardSighashType u32 | InvalidHash nat nat
  | InvalidPreimageHashPair PsbtHash bytes bytes | CombineInconsistentKeySources Xpub | ConsensusEncoding Error
  | NegativeFee | FeeOverflow | InvalidPublicKey KeyFromSliceError | InvalidSecp256k1PublicKey | InvalidXOnlyPublicKey
  | InvalidEcdsaSignature EcdsaSigError | InvalidTaprootSignature TapSigError | InvalidControlBlock | InvalidLeafVersion
  | TaprootMsg string | TapTreeError IncompleteBuilderError | XPubKey string | VersionMsg string | PartialDataConsumption
  | PsbtIo ErrorKind | PsbtPanicked

definition consensus_err :: "Error + 'a \<Rightarrow> PsbtError + 'a" where "consensus_err r = map_sum ConsensusEncoding id r"

section \<open>Raw keys and pairs\<close>

text \<open>
  \<open>NoMorePairs\<close> is the one error after which the reader is used again; it is the result \<open>None\<close> here, with the bytes that
  follow the separator.
\<close>

definition key_decode :: "bytes \<Rightarrow> PsbtError + (RawKey option \<times> bytes)" where
  "key_decode bs =
     (case consensus_err (dec_VarInt bs) of
        Inl e \<Rightarrow> Inl e
      | Inr (byte_size, r) \<Rightarrow>
          if varint_0 byte_size = 0 then Inr (None, r)
          else (let key_byte_size = varint_0 byte_size - 1
                in if unat key_byte_size > MAX_VEC_SIZE
                   then Inl (ConsensusEncoding (OversizedVectorAllocation (unat key_byte_size) MAX_VEC_SIZE))
                   else (case consensus_err (dbind read_u8 (\<lambda>t. dbind (dec_elems read_u8 (unat key_byte_size)) (\<lambda>k.
                                dret \<lparr> type_value = t, key_data = k \<rparr>)) r) of
                           Inl e \<Rightarrow> Inl e
                         | Inr (k, r) \<Rightarrow> Inr (Some k, r))))"

definition key_serialize :: "RawKey \<Rightarrow> bytes" where
  "key_serialize k =
     fst (enc_VarInt (VarInt (word_of_nat (length (key_data k) + 1)))) @ fst (emit_u8 (type_value k)) @
     concat (map (\<lambda>b. fst (emit_u8 b)) (key_data k))"

definition pair_serialize :: "RawPair \<Rightarrow> bytes" where
  "pair_serialize p = key_serialize (pair_key p) @ fst (enc_with_size (pair_value p))"

definition pair_decode :: "bytes \<Rightarrow> PsbtError + (RawPair option \<times> bytes)" where
  "pair_decode bs =
     (case key_decode bs of
        Inl e \<Rightarrow> Inl e
      | Inr (None, r) \<Rightarrow> Inr (None, r)
      | Inr (Some k, r) \<Rightarrow>
          (case consensus_err (consensus_decode dec_bytes r) of
             Inl e \<Rightarrow> Inl e
           | Inr (v, r) \<Rightarrow> Inr (Some \<lparr> pair_key = k, pair_value = v \<rparr>, r)))"

definition pair_deserialize :: "bytes \<Rightarrow> PsbtError + RawPair" where
  "pair_deserialize bs =
     (case pair_decode bs of Inl e \<Rightarrow> Inl e | Inr (None, _) \<Rightarrow> Inl NoMorePairs | Inr (Some p, _) \<Rightarrow> Inr p)"

definition cmp_raw_key :: "RawKey cmp" where
  "cmp_raw_key = cmp_on (\<lambda>k. (type_value k, key_data k)) (cmp_pair cmp_by cmp_bytes)"

section \<open>Proprietary keys\<close>

record ProprietaryKey =
  pk_prefix :: bytes
  pk_subtype :: u8
  pk_key :: bytes

definition enc_ProprietaryKey :: "ProprietaryKey encoder" where
  "enc_ProprietaryKey k = ecat (enc_with_size (pk_prefix k)) (ecat (emit_u8 (pk_subtype k)) (pk_key k, length (pk_key k)))"

text \<open>The key bytes are what \<open>read_to_limit\<close> finds.\<close>

definition dec_to_limit :: "u64 \<Rightarrow> bytes decoder" where
  "dec_to_limit limit bs =
     (case read_to_limit slice_read bs [] limit of
        None \<Rightarrow> Inl Panicked
      | Some (Inl e, _) \<Rightarrow> Inl (Io e)
      | Some (Inr (key, _), t) \<Rightarrow> Inr (key, reader t))"

definition dec_ProprietaryKey :: "ProprietaryKey decoder" where
  "dec_ProprietaryKey =
     dbind (consensus_decode dec_bytes) (\<lambda>prefix. dbind read_u8 (\<lambda>subtype. dbind (dec_to_limit 1024) (\<lambda>key.
       dret \<lparr> pk_prefix = prefix, pk_subtype = subtype, pk_key = key \<rparr>)))"

definition to_key :: "ProprietaryKey \<Rightarrow> RawKey" where
  "to_key k = \<lparr> type_value = 0xFC, key_data = serialize enc_ProprietaryKey k \<rparr>"

definition proprietary_try_from :: "RawKey \<Rightarrow> PsbtError + ProprietaryKey" where
  "proprietary_try_from k =
     (if type_value k \<noteq> 0xFC then Inl InvalidProprietaryKey else consensus_err (deserialize dec_ProprietaryKey (key_data k)))"

definition cmp_proprietary :: "ProprietaryKey cmp" where
  "cmp_proprietary = cmp_on (\<lambda>k. (pk_prefix k, (pk_subtype k, pk_key k))) (cmp_pair cmp_bytes (cmp_pair cmp_by cmp_bytes))"

section \<open>Raw pairs on the wire\<close>

lemma consensus_err_Inr [simp]: "consensus_err r = Inr x \<longleftrightarrow> r = Inr x" "consensus_err (Inr x) = Inr x"
  "consensus_err (Inl e) = Inl (ConsensusEncoding e)"
  by (cases r; simp add: consensus_err_def)+

lemma dec_elems_u8: "dec_elems read_u8 n = read_slice n"
proof (rule ext)
  show "dec_elems read_u8 n bs = read_slice n bs" for bs
  proof (induction n arbitrary: bs)
    case 0
    then show ?case by (simp add: dret_def read_slice_def)
  next
    case (Suc n)
    then show ?case by (cases bs) (simp_all add: dbind_def dret_def read_u8_def read_slice_def)
  qed
qed

lemma key_serialize_eq:
  "key_serialize k = fst (enc_VarInt (VarInt (word_of_nat (length (key_data k) + 1)))) @ type_value k # key_data k"
  by (simp add: key_serialize_def emit_u8_def)

definition key_fits :: "bytes \<Rightarrow> bool" where "key_fits k \<longleftrightarrow> length k \<le> MAX_VEC_SIZE"
definition value_fits :: "bytes \<Rightarrow> bool" where "value_fits v \<longleftrightarrow> length (fst (enc_with_size v)) \<le> MAX_VEC_SIZE"

definition pair_ok :: "RawPair \<Rightarrow> bool" where
  "pair_ok p \<longleftrightarrow> key_fits (key_data (pair_key p)) \<and> value_fits (pair_value p)"

lemma enc_with_size_length: "length v \<le> length (fst (enc_with_size v))"
  by (simp add: enc_with_size_def emit_slice_def)

lemma value_fits_bytes_ok: "value_fits v \<Longrightarrow> bytes_ok v"
  using enc_with_size_length [of v] by (simp add: value_fits_def bytes_ok_def MAX_VEC_SIZE_def)

interpretation value_codec: codec enc_with_size "consensus_decode dec_bytes" value_fits
proof -
  have "(\<lambda>v. bytes_ok v \<and> length (fst (enc_with_size v)) \<le> MAX_VEC_SIZE) = value_fits"
    using value_fits_bytes_ok by (auto simp: value_fits_def)
  then show "codec enc_with_size (consensus_decode dec_bytes) value_fits"
    using bytes_codec.limited [of MAX_VEC_SIZE] by (simp add: consensus_decode_def)
qed

lemma key_size_word:
  assumes "n \<le> MAX_VEC_SIZE"
  shows "(word_of_nat (n + 1) :: u64) \<noteq> 0" "unat (word_of_nat (n + 1) - 1 :: u64) = n"
proof -
  have "n + 1 < 2 ^ 64" using assms by (simp add: MAX_VEC_SIZE_def)
  then have "unat (word_of_nat (n + 1) :: u64) = n + 1" by (rule unat_len)
  then show "(word_of_nat (n + 1) :: u64) \<noteq> 0" by (metis Suc_eq_plus1 nat.distinct(1) unat_0)
  have "word_of_nat (n + 1) - 1 = (word_of_nat n :: u64)" by simp
  then show "unat (word_of_nat (n + 1) - 1 :: u64) = n" using unat_len [of n] \<open>n + 1 < 2 ^ 64\<close> by simp
qed

lemma read_u8_iff: "read_u8 bs = Inr (b, rest) \<longleftrightarrow> bs = b # rest"
  by (cases bs) (auto simp: read_u8_def dbind_def dret_def read_slice_def)

lemma key_body_iff:
  "dbind read_u8 (\<lambda>t. dbind (dec_elems read_u8 n) (\<lambda>k. dret \<lparr> type_value = t, key_data = k \<rparr>)) r = Inr (k, rest) \<longleftrightarrow>
   r = type_value k # key_data k @ rest \<and> length (key_data k) = n"
  by (cases k) (auto simp: dec_elems_u8 dbind_Inr_iff read_u8_iff read_slice_Inr_iff)

lemma key_decode_iff:
  "key_decode bs = Inr (Some k, rest) \<longleftrightarrow>
   (\<exists>v r. dec_VarInt bs = Inr (VarInt v, r) \<and> v \<noteq> 0 \<and> unat (v - 1) \<le> MAX_VEC_SIZE \<and>
      r = type_value k # key_data k @ rest \<and> length (key_data k) = unat (v - 1))"
proof (cases "dec_VarInt bs")
  case (Inr x)
  then obtain v r where "dec_VarInt bs = Inr (VarInt v, r)" by (metis VarInt.exhaust prod.exhaust)
  then show ?thesis unfolding key_decode_def key_body_iff [symmetric]
    by (auto simp: Let_def split: sum.splits if_splits)
qed (simp add: key_decode_def)

lemma key_decode_serialize:
  assumes "key_fits (key_data k)"
  shows "key_decode (key_serialize k @ rest) = Inr (Some k, rest)"
proof -
  let ?w = "word_of_nat (length (key_data k) + 1) :: u64"
  have w: "?w \<noteq> 0" "unat (?w - 1) = length (key_data k)" using assms key_size_word [of "length (key_data k)"] by (auto simp: key_fits_def)
  have "dec_VarInt (key_serialize k @ rest) = Inr (VarInt ?w, type_value k # key_data k @ rest)"
    unfolding key_serialize_eq using varint_codec.dec_enc [of "VarInt ?w"] by simp
  then show ?thesis
    unfolding key_decode_iff using w assms by (intro exI [of _ ?w] exI) (auto simp: key_fits_def)
qed

lemma key_decode_canonical:
  assumes "key_decode bs = Inr (Some k, rest)"
  shows "key_fits (key_data k) \<and> bs = key_serialize k @ rest"
proof -
  from assms obtain v r where v: "dec_VarInt bs = Inr (VarInt v, r)" "v \<noteq> 0" "unat (v - 1) \<le> MAX_VEC_SIZE"
    and k: "r = type_value k # key_data k @ rest" "length (key_data k) = unat (v - 1)"
    unfolding key_decode_iff by blast
  have "word_of_nat (length (key_data k) + 1) = v" using k(2) by simp
  then show ?thesis using v k varint_codec.canonical [OF v(1)] unfolding key_serialize_eq by (simp add: key_fits_def)
qed

lemma key_decode_end: "key_decode bs = Inr (None, rest) \<longleftrightarrow> bs = 0 # rest"
proof -
  have e: "fst (enc_VarInt (VarInt 0)) = [0]" by (simp add: enc_VarInt_def emit_u8_def)
  have "key_decode bs = Inr (None, rest) \<longleftrightarrow> dec_VarInt bs = Inr (VarInt 0, rest)"
  proof (cases "dec_VarInt bs")
    case (Inr x)
    then obtain v r where "dec_VarInt bs = Inr (VarInt v, r)" by (metis VarInt.exhaust prod.exhaust)
    then show ?thesis by (auto simp: key_decode_def consensus_err_def Let_def split: sum.split)
  qed (simp add: key_decode_def consensus_err_def)
  also have "\<dots> \<longleftrightarrow> bs = 0 # rest"
    using varint_codec.canonical [of bs "VarInt 0" rest] varint_codec.dec_enc [of "VarInt 0" rest] by (auto simp: e)
  finally show ?thesis .
qed

lemma pair_decode_iff: "pair_decode bs = Inr (Some p, rest) \<longleftrightarrow> pair_ok p \<and> bs = pair_serialize p @ rest"
proof
  assume "pair_decode bs = Inr (Some p, rest)"
  then obtain r where r: "key_decode bs = Inr (Some (pair_key p), r)" "consensus_decode dec_bytes r = Inr (pair_value p, rest)"
    by (auto simp: pair_decode_def split: sum.splits option.splits)
  then show "pair_ok p \<and> bs = pair_serialize p @ rest"
    using key_decode_canonical [OF r(1)] value_codec.canonical [OF r(2)] by (simp add: pair_ok_def pair_serialize_def)
next
  assume "pair_ok p \<and> bs = pair_serialize p @ rest"
  then show "pair_decode bs = Inr (Some p, rest)"
    by (cases p) (simp add: pair_decode_def pair_ok_def pair_serialize_def key_decode_serialize value_codec.dec_enc consensus_err_def)
qed

lemma pair_decode_end: "pair_decode bs = Inr (None, rest) \<longleftrightarrow> bs = 0 # rest"
proof -
  have "pair_decode bs = Inr (None, rest) \<longleftrightarrow> key_decode bs = Inr (None, rest)"
    by (auto simp: pair_decode_def consensus_err_def split: sum.splits option.splits)
  then show ?thesis by (simp add: key_decode_end)
qed

section \<open>Proprietary keys\<close>

lemma read_to_end_slice:
  "\<exists>k' n'. read_to_end (take_read slice_read) \<lparr> reader = s, remaining = n \<rparr> buf k =
     Some (Inr (buf @ take (unat n) s, k'), \<lparr> reader = drop (unat n) s, remaining = n' \<rparr>)"
proof (induction "length s" arbitrary: s n buf k rule: less_induct)
  case less
  define m where "m = min (length s) (min 64 (unat n))"
  have m: "m \<le> unat n" "m \<le> length s" "m < 2 ^ 64" by (simp_all add: m_def)
  then have u: "unat (n - word_of_nat m) = unat n - m"
    using unat_len [of m] by (subst unat_sub) (simp_all add: word_le_nat_alt)
  have t: "take_read slice_read \<lparr> reader = s, remaining = n \<rparr> 64 =
      Some (Inr (take m s), \<lparr> reader = drop m s, remaining = n - word_of_nat m \<rparr>)"
    by (simp add: take_read_def slice_read_def Let_def m_def min.commute min.left_commute)
  show ?case
  proof (cases "m = 0")
    case True
    then have "take (unat n) s = []" "drop (unat n) s = s" by (auto simp: m_def min_def split: if_splits)
    then show ?thesis using t True by (subst read_to_end.simps) auto
  next
    case False
    then have l: "length (drop m s) < length s" "take m s \<noteq> []" using m by auto
    from less.hyps [OF l(1), of "n - word_of_nat m" "buf @ take m s" "k + length (take m s)"] obtain k' n'
      where "read_to_end (take_read slice_read) \<lparr> reader = drop m s, remaining = n - word_of_nat m \<rparr> (buf @ take m s) (k + length (take m s)) =
        Some (Inr ((buf @ take m s) @ take (unat n - m) (drop m s), k'), \<lparr> reader = drop (unat n - m) (drop m s), remaining = n' \<rparr>)"
      unfolding u by blast
    moreover have "take m s @ take (unat n - m) (drop m s) = take (unat n) s" "drop (unat n - m) (drop m s) = drop (unat n) s"
      using m(1) by (simp_all flip: take_add)
    ultimately show ?thesis using t l by (subst read_to_end.simps) auto
  qed
qed

lemma dec_to_limit_eq: "dec_to_limit limit bs = Inr (take (unat limit) bs, drop (unat limit) bs)"
  using read_to_end_slice [of bs limit "[]" 0] by (auto simp: dec_to_limit_def read_to_limit_def take_new_def)

definition proprietary_ok :: "ProprietaryKey \<Rightarrow> bool" where
  "proprietary_ok k \<longleftrightarrow> value_fits (pk_prefix k) \<and> length (pk_key k) \<le> 1024"

lemma enc_proprietary_bytes: "fst (enc_ProprietaryKey k) = fst (enc_with_size (pk_prefix k)) @ pk_subtype k # pk_key k"
  by (simp add: enc_ProprietaryKey_def emit_u8_def)

lemma dec_proprietary_end: "dec_ProprietaryKey bs = Inr (k, []) \<longleftrightarrow> proprietary_ok k \<and> bs = fst (enc_ProprietaryKey k)"
proof
  assume "dec_ProprietaryKey bs = Inr (k, [])"
  then obtain r where r: "consensus_decode dec_bytes bs = Inr (pk_prefix k, pk_subtype k # r)" "pk_key k = take 1024 r" "drop 1024 r = []"
    by (auto simp: dec_ProprietaryKey_def dbind_Inr_iff read_u8_iff dec_to_limit_eq)
  then show "proprietary_ok k \<and> bs = fst (enc_ProprietaryKey k)"
    using value_codec.canonical [OF r(1)] by (simp add: proprietary_ok_def enc_proprietary_bytes)
next
  assume "proprietary_ok k \<and> bs = fst (enc_ProprietaryKey k)"
  then show "dec_ProprietaryKey bs = Inr (k, [])"
    by (auto simp: dec_ProprietaryKey_def enc_proprietary_bytes proprietary_ok_def dbind_Inr_iff read_u8_iff dec_to_limit_eq
        value_codec.dec_enc)
qed

lemma dec_proprietary_shrinks: "dec_ProprietaryKey bs = Inr (k, rest) \<Longrightarrow> length rest \<le> length bs"
  by (auto simp: dec_ProprietaryKey_def dbind_Inr_iff read_u8_iff dec_to_limit_eq dest!: value_codec.canonical)

lemma proprietary_try_from_iff: "proprietary_try_from rk = Inr k \<longleftrightarrow> proprietary_ok k \<and> rk = to_key k"
proof -
  have "deserialize dec_ProprietaryKey bs = Inr k \<longleftrightarrow> proprietary_ok k \<and> bs = serialize enc_ProprietaryKey k" for bs
    using deserialize_Inr_iff [of dec_ProprietaryKey bs k] dec_proprietary_shrinks [of bs k] dec_proprietary_end [of bs k]
    by (simp add: serialize_def)
  then show ?thesis by (cases rk) (auto simp: proprietary_try_from_def to_key_def)
qed

interpretation raw_key_cmp: total_cmp cmp_raw_key
  unfolding cmp_raw_key_def
  by (intro total_cmp_on total_cmp_pair total_cmp_by byte_cmp.total_cmp_axioms) (auto intro!: injI RawKey.equality)

interpretation proprietary_cmp: total_cmp cmp_proprietary
  unfolding cmp_proprietary_def
  by (intro total_cmp_on total_cmp_pair total_cmp_by byte_cmp.total_cmp_axioms) (auto intro!: injI ProprietaryKey.equality)

end
