(* ===== verification/PsbtValue.thy ===== *)
theory PsbtValue
  imports PsbtRaw
begin

text \<open>
  The byte forms of the values of partially signed transactions (\<open>psbt/serialize.rs\<close>), with the keys and signatures of
  \<open>crypto/key.rs\<close>, \<open>crypto/ecdsa.rs\<close> and \<open>crypto/taproot.rs\<close>. Keys of secp256k1 are their compressed serializations,
  signatures their DER form; parsing them and comparing keys are the fields of the record \<open>PsbtOps\<close>, and \<open>psbt_ops_ok\<close> is
  what the code relies on. The locale \<open>psbt_value\<close> is the contract of the traits \<open>Serialize\<close> and \<open>Deserialize\<close>: a
  well-formed value comes back, every accepted input gives a well-formed value, and its serialization is not longer than the
  input, or no longer than the longest key or signature.
\<close>

section \<open>Values\<close>

record PsbtOps =
  op_keys :: KeyOps
  op_secp :: Secp
  secp_pk_from_slice :: "bytes \<Rightarrow> bytes option"
  secp_pk_uncompressed :: "bytes \<Rightarrow> bytes"
  secp_pk_cmp :: "bytes cmp"
  xonly_cmp :: "bytes cmp"
  sig_from_der :: "bytes \<Rightarrow> bytes option"
  schnorr_valid :: "bytes \<Rightarrow> bool"

definition de_consensus :: "'a decoder \<Rightarrow> bytes \<Rightarrow> PsbtError + 'a" where "de_consensus dec bs = consensus_err (deserialize dec bs)"

definition ser_hash :: "bytes \<Rightarrow> bytes" where "ser_hash h = h"
definition de_hash :: "nat \<Rightarrow> bytes \<Rightarrow> PsbtError + bytes" where
  "de_hash n bs = (if length bs \<noteq> n then Inl (InvalidHash n (length bs)) else Inr bs)"

definition ser_script :: "bytes \<Rightarrow> bytes" where "ser_script s = s"
definition de_script :: "bytes \<Rightarrow> PsbtError + bytes" where "de_script bs = Inr bs"

definition ser_vec :: "bytes \<Rightarrow> bytes" where "ser_vec v = v"
definition de_vec :: "bytes \<Rightarrow> PsbtError + bytes" where "de_vec bs = Inr bs"

text \<open>Public keys.\<close>

record PublicKey =
  pk_compressed :: bool
  pk_inner :: bytes

definition pubkey_bytes :: "PsbtOps \<Rightarrow> PublicKey \<Rightarrow> bytes" where
  "pubkey_bytes ops k = (if pk_compressed k then pk_inner k else secp_pk_uncompressed ops (pk_inner k))"

definition pubkey_from_slice :: "PsbtOps \<Rightarrow> bytes \<Rightarrow> KeyFromSliceError + PublicKey" where
  "pubkey_from_slice ops data =
     (if length data \<noteq> 33 \<and> length data \<noteq> 65 then Inl (KeyInvalidLength (length data))
      else (let compressed = (length data = 33)
            in if \<not> compressed \<and> data ! 0 \<noteq> 0x04 then Inl (KeyInvalidPrefix (data ! 0))
               else (case secp_pk_from_slice ops data of
                       None \<Rightarrow> Inl KeySecp256k1
                     | Some k \<Rightarrow> Inr \<lparr> pk_compressed = compressed, pk_inner = k \<rparr>)))"

definition ser_pubkey :: "PsbtOps \<Rightarrow> PublicKey \<Rightarrow> bytes" where "ser_pubkey ops k = pubkey_bytes ops k"
definition de_pubkey :: "PsbtOps \<Rightarrow> bytes \<Rightarrow> PsbtError + PublicKey" where
  "de_pubkey ops bs = map_sum InvalidPublicKey id (pubkey_from_slice ops bs)"

definition cmp_pubkey :: "PsbtOps \<Rightarrow> PublicKey cmp" where
  "cmp_pubkey ops = cmp_on (\<lambda>k. (pk_compressed k, pk_inner k)) (cmp_pair cmp_by (secp_pk_cmp ops))"

definition ser_secp_pk :: "bytes \<Rightarrow> bytes" where "ser_secp_pk k = k"
definition de_secp_pk :: "PsbtOps \<Rightarrow> bytes \<Rightarrow> PsbtError + bytes" where
  "de_secp_pk ops bs = (case secp_pk_from_slice ops bs of None \<Rightarrow> Inl InvalidSecp256k1PublicKey | Some k \<Rightarrow> Inr k)"

definition ser_xonly :: "bytes \<Rightarrow> bytes" where "ser_xonly k = k"
definition de_xonly :: "PsbtOps \<Rightarrow> bytes \<Rightarrow> PsbtError + bytes" where
  "de_xonly ops bs = (if xonly_valid (op_secp ops) bs then Inr bs else Inl InvalidXOnlyPublicKey)"

text \<open>Signatures.\<close>

record EcdsaSignature =
  es_signature :: bytes
  es_sighash_type :: EcdsaSighashType

definition ecdsa_from_slice :: "PsbtOps \<Rightarrow> bytes \<Rightarrow> EcdsaSigError + EcdsaSignature" where
  "ecdsa_from_slice ops sl =
     (if sl = [] then Inl EmptySignature
      else (case ecdsa_from_standard (ucast (last sl)) of
              Inl n \<Rightarrow> Inl (EcdsaSighashError n)
            | Inr t \<Rightarrow> (case sig_from_der ops (butlast sl) of
                           None \<Rightarrow> Inl EcdsaSecp256k1
                         | Some s \<Rightarrow> Inr \<lparr> es_signature = s, es_sighash_type = t \<rparr>)))"

definition ecdsa_to_vec :: "EcdsaSignature \<Rightarrow> bytes" where
  "ecdsa_to_vec s = es_signature s @ [ucast (ecdsa_to_u32 (es_sighash_type s))]"

definition ser_ecdsa :: "EcdsaSignature \<Rightarrow> bytes" where "ser_ecdsa s = ecdsa_to_vec s"
definition de_ecdsa :: "PsbtOps \<Rightarrow> bytes \<Rightarrow> PsbtError + EcdsaSignature" where
  "de_ecdsa ops bs =
     map_sum (\<lambda>e. case e of EcdsaSighashError n \<Rightarrow> NonStandardSighashType n | _ \<Rightarrow> InvalidEcdsaSignature e) id (ecdsa_from_slice ops bs)"

record TapSignature =
  ts_signature :: bytes
  ts_sighash_type :: TapSighashType

definition tapsig_from_slice :: "PsbtOps \<Rightarrow> bytes \<Rightarrow> TapSigError + TapSignature" where
  "tapsig_from_slice ops sl =
     (if length sl = 64
      then (if schnorr_valid ops sl then Inr \<lparr> ts_signature = sl, ts_sighash_type = TDefault \<rparr> else Inl TapSigSecp256k1)
      else if length sl = 65
      then (case tap_from_consensus_u8 (last sl) of
              Inl n \<Rightarrow> Inl (TapSighashError n)
            | Inr t \<Rightarrow> if schnorr_valid ops (butlast sl) then Inr \<lparr> ts_signature = butlast sl, ts_sighash_type = t \<rparr>
                       else Inl TapSigSecp256k1)
      else Inl (InvalidSignatureSize (length sl)))"

definition tapsig_to_vec :: "TapSignature \<Rightarrow> bytes" where
  "tapsig_to_vec s = (if ts_sighash_type s = TDefault then ts_signature s else ts_signature s @ [tap_to_u8 (ts_sighash_type s)])"

definition ser_tapsig :: "TapSignature \<Rightarrow> bytes" where "ser_tapsig s = tapsig_to_vec s"
definition de_tapsig :: "PsbtOps \<Rightarrow> bytes \<Rightarrow> PsbtError + TapSignature" where
  "de_tapsig ops bs =
     map_sum (\<lambda>e. case e of TapSighashError n \<Rightarrow> NonStandardSighashType n | _ \<Rightarrow> InvalidTaprootSignature e) id (tapsig_from_slice ops bs)"

text \<open>Key sources: a fingerprint and a derivation path.\<close>

type_synonym KeySource = "bytes \<times> DerivationPath"

definition ser_key_source :: "KeySource \<Rightarrow> bytes" where
  "ser_key_source s = fst s @ concat (map (\<lambda>c. serialize encode_int (cn_to_u32 c)) (path_0 (snd s)))"

function read_children :: "bytes \<Rightarrow> Error + ChildNumber list" where
  "read_children d =
     (if d = [] then Inr []
      else (case decode_int d of
              Inl e \<Rightarrow> Inl e
            | Inr (index :: u32, d') \<Rightarrow>
                (case read_children d' of Inl e \<Rightarrow> Inl e | Inr cs \<Rightarrow> Inr (cn_from_u32 index # cs))))"
  by pat_completeness auto
termination
  by (relation "measure length") (auto dest!: u32_codec.canonical simp: encode_int_def)

declare read_children.simps [simp del]

definition de_key_source :: "bytes \<Rightarrow> PsbtError + KeySource" where
  "de_key_source bs =
     (if length bs < 4 then Inl (PsbtIo UnexpectedEof)
      else map_sum ConsensusEncoding (\<lambda>cs. (take 4 bs, DerivationPath cs)) (read_children (drop 4 bs)))"

datatype PsbtSighashType = PsbtSighashType (psbt_sighash_inner: u32)

definition ser_sighash_type :: "PsbtSighashType \<Rightarrow> bytes" where "ser_sighash_type t = serialize encode_int (psbt_sighash_inner t)"
definition de_sighash_type :: "bytes \<Rightarrow> PsbtError + PsbtSighashType" where
  "de_sighash_type bs = map_sum id PsbtSighashType (de_consensus decode_int bs)"

text \<open>Taproot data.\<close>

definition ser_xonly_leaf :: "bytes \<times> bytes \<Rightarrow> bytes" where "ser_xonly_leaf x = ser_xonly (fst x) @ snd x"
definition de_xonly_leaf :: "PsbtOps \<Rightarrow> bytes \<Rightarrow> PsbtError + bytes \<times> bytes" where
  "de_xonly_leaf ops bs =
     (if length bs < 32 then Inl (PsbtIo UnexpectedEof)
      else (case de_xonly ops (take 32 bs) of
              Inl e \<Rightarrow> Inl e
            | Inr a \<Rightarrow> (case de_hash 32 (drop 32 bs) of Inl e \<Rightarrow> Inl e | Inr b \<Rightarrow> Inr (a, b))))"

definition ser_cb :: "ControlBlock \<Rightarrow> bytes" where "ser_cb cb = cb_serialize cb"
definition de_cb :: "PsbtOps \<Rightarrow> bytes \<Rightarrow> PsbtError + ControlBlock" where
  "de_cb ops bs =
     (case cb_decode (op_secp ops) bs of
        None \<Rightarrow> Inl PsbtPanicked | Some (Inl _) \<Rightarrow> Inl InvalidControlBlock | Some (Inr cb) \<Rightarrow> Inr cb)"

definition cmp_cb :: "PsbtOps \<Rightarrow> ControlBlock cmp" where
  "cmp_cb ops = cmp_on (\<lambda>cb. (cb_leaf_version cb, (cb_parity cb, (cb_internal_key cb, cb_merkle_branch cb))))
     (cmp_pair cmp_leafver (cmp_pair cmp_by (cmp_pair (xonly_cmp ops) (cmp_list cmp_bytes))))"

definition de_leafver :: "u8 \<Rightarrow> PsbtError + LeafVersion" where
  "de_leafver v =
     (case leafver_from_consensus v of
        None \<Rightarrow> Inl PsbtPanicked | Some (Inl _) \<Rightarrow> Inl InvalidLeafVersion | Some (Inr v) \<Rightarrow> Inr v)"

definition ser_script_ver :: "bytes \<times> LeafVersion \<Rightarrow> bytes" where "ser_script_ver x = fst x @ [leafver_to_consensus (snd x)]"
definition de_script_ver :: "bytes \<Rightarrow> PsbtError + bytes \<times> LeafVersion" where
  "de_script_ver bs =
     (if bs = [] then Inl (PsbtIo UnexpectedEof)
      else (case de_script (butlast bs) of
              Inl e \<Rightarrow> Inl e
            | Inr s \<Rightarrow> (case de_leafver (last bs) of Inl e \<Rightarrow> Inl e | Inr v \<Rightarrow> Inr (s, v))))"

definition ser_origins :: "bytes list \<times> KeySource \<Rightarrow> bytes" where
  "ser_origins x = fst (enc_vec enc_array (fst x)) @ ser_key_source (snd x)"
definition de_origins :: "bytes \<Rightarrow> PsbtError + bytes list \<times> KeySource" where
  "de_origins bs =
     (case consensus_err (deserialize_partial (dec_vec (dec_array 32)) bs) of
        Inl e \<Rightarrow> Inl e
      | Inr (hs, consumed) \<Rightarrow> (case de_key_source (drop consumed bs) of Inl e \<Rightarrow> Inl e | Inr s \<Rightarrow> Inr (hs, s)))"

text \<open>Script trees. The iterator over the leaves ends at a hidden one, which a tree does not have.\<close>

fun script_leaves :: "LeafNode list \<Rightarrow> (LeafVersion \<times> bytes \<times> bytes list) list" where
  "script_leaves [] = []"
| "script_leaves (n # ns) =
     (case leaf n of ScriptLeaf s v \<Rightarrow> (v, s, merkle_branch n) # script_leaves ns | HiddenLeaf _ \<Rightarrow> [])"

definition ser_taptree :: "NodeInfo \<Rightarrow> bytes" where
  "ser_taptree nd =
     concat (map (\<lambda>(v, s, br). [word_of_nat (length br), leafver_to_consensus v] @ fst (enc_with_size s)) (script_leaves (leaves nd)))"

function taptree_loop :: "TaprootBuilder \<Rightarrow> bytes \<Rightarrow> PsbtError + TaprootBuilder" where
  "taptree_loop b [] = Inr b"
| "taptree_loop b [depth] = Inl (TaprootMsg ''Invalid Taproot Builder'')"
| "taptree_loop b (depth # version # r) =
     (case consensus_err (deserialize_partial dec_bytes r) of
        Inl e \<Rightarrow> Inl e
      | Inr (script, consumed) \<Rightarrow>
          (case de_leafver version of
             Inl e \<Rightarrow> Inl e
           | Inr v \<Rightarrow>
               (case add_leaf_with_ver b depth script v of
                  Inl _ \<Rightarrow> Inl (TaprootMsg ''Tree not in DFS order'')
                | Inr b \<Rightarrow> taptree_loop b (drop consumed r))))"
  by pat_completeness auto
termination
  by (relation "measure (\<lambda>(b, bs). length bs)") auto

definition de_taptree :: "bytes \<Rightarrow> PsbtError + NodeInfo" where
  "de_taptree bs =
     (case taptree_loop builder_empty bs of
        Inl e \<Rightarrow> Inl e
      | Inr b \<Rightarrow> (case try_into_taptree b of
                     None \<Rightarrow> Inl PsbtPanicked | Some (Inl e) \<Rightarrow> Inl (TapTreeError e) | Some (Inr nd) \<Rightarrow> Inr nd))"

section \<open>The contract of the value encodings\<close>

locale psbt_value =
  fixes ser :: "'a \<Rightarrow> bytes" and de :: "bytes \<Rightarrow> PsbtError + 'a" and ok :: "'a \<Rightarrow> bool"
  assumes de_ser: "ok x \<Longrightarrow> de (ser x) = Inr x"
    and de_ok: "de bs = Inr x \<Longrightarrow> ok x"
    and de_size: "de bs = Inr x \<Longrightarrow> length (ser x) \<le> max 73 (length bs)"
begin

lemma ser_inj: "ok x \<Longrightarrow> ok y \<Longrightarrow> ser x = ser y \<Longrightarrow> x = y"
  by (metis de_ser sum.inject(2))

lemma de_again: "de bs = Inr x \<Longrightarrow> de (ser x) = Inr x"
  using de_ok de_ser by blast

end

lemma codec_value:
  assumes "codec enc dec ok"
  shows "psbt_value (serialize enc) (de_consensus dec) ok"
  by unfold_locales (auto simp: de_consensus_def codec.deserialize_iff [OF assms])

interpretation tx_value: psbt_value "serialize enc_Transaction" "de_consensus dec_Transaction" tx_ok
  by (rule codec_value) (rule tx_codec.codec_axioms)

interpretation txout_value: psbt_value "serialize enc_TxOut" "de_consensus dec_TxOut" txout_ok
  by (rule codec_value) (rule txout_codec.codec_axioms)

interpretation witness_value: psbt_value "serialize enc_Witness" "de_consensus dec_Witness" witness_ok
  by (rule codec_value) (rule witness_codec.codec_axioms)

lemma hash_value: "psbt_value ser_hash (de_hash n) (\<lambda>h. length h = n)"
  by unfold_locales (auto simp: ser_hash_def de_hash_def split: if_splits)

interpretation hash20_value: psbt_value ser_hash "de_hash 20" "\<lambda>h. length h = 20" by (rule hash_value)
interpretation hash32_value: psbt_value ser_hash "de_hash 32" "\<lambda>h. length h = 32" by (rule hash_value)

interpretation script_value: psbt_value ser_script de_script "\<lambda>_. True"
  by unfold_locales (simp_all add: ser_script_def de_script_def)

interpretation vec_value: psbt_value ser_vec de_vec "\<lambda>_. True"
  by unfold_locales (simp_all add: ser_vec_def de_vec_def)

interpretation sighash_type_value: psbt_value ser_sighash_type de_sighash_type "\<lambda>_. True"
proof
  fix x :: PsbtSighashType and bs
  show "de_sighash_type (ser_sighash_type x) = Inr x"
    by (simp add: de_sighash_type_def ser_sighash_type_def de_consensus_def u32_codec.deserialize_serialize)
  show "length (ser_sighash_type x) \<le> max 73 (length bs)"
    by (simp add: ser_sighash_type_def serialize_def encode_int_def)
qed simp

lemma leafver_value: "de_leafver n = Inr v \<longleftrightarrow> leafver_ok v \<and> leafver_to_consensus v = n"
  using leafver_iff [of n v] by (auto simp: de_leafver_def split: option.splits sum.splits)

interpretation script_ver_value: psbt_value ser_script_ver de_script_ver "\<lambda>x. leafver_ok (snd x)"
proof
  fix x :: "bytes \<times> LeafVersion" and bs
  show "de_script_ver (ser_script_ver x) = Inr x" if "leafver_ok (snd x)"
    using that leafver_value [of "leafver_to_consensus (snd x)" "snd x"]
    by (simp add: de_script_ver_def ser_script_ver_def de_script_def)
  assume d: "de_script_ver bs = Inr x"
  then have x: "fst x = butlast bs" "bs \<noteq> []" "leafver_ok (snd x)" "leafver_to_consensus (snd x) = last bs"
    using leafver_value by (auto simp: de_script_ver_def de_script_def split: if_splits sum.splits)
  show "leafver_ok (snd x)" by (rule x(3))
  show "length (ser_script_ver x) \<le> max 73 (length bs)" using x(1,2,4) by (simp add: ser_script_ver_def)
qed

section \<open>Key sources\<close>

definition key_source_ok :: "KeySource \<Rightarrow> bool" where
  "key_source_ok s \<longleftrightarrow> length (fst s) = 4 \<and> list_all cn_ok (path_0 (snd s))"

abbreviation children_bytes :: "ChildNumber list \<Rightarrow> bytes" where
  "children_bytes cs \<equiv> concat (map (\<lambda>c. serialize encode_int (cn_to_u32 c)) cs)"

lemma read_children_iff: "read_children d = Inr cs \<longleftrightarrow> list_all cn_ok cs \<and> d = children_bytes cs"
proof
  show "read_children d = Inr cs \<Longrightarrow> list_all cn_ok cs \<and> d = children_bytes cs"
  proof (induction d arbitrary: cs rule: read_children.induct)
    case (1 d)
    show ?case
    proof (cases "d = []")
      case True
      then show ?thesis using 1(2) by (simp add: read_children.simps [of "[]"])
    next
      case False
      then obtain i d' cs' where d: "decode_int d = Inr (i :: u32, d')" "read_children d' = Inr cs'" "cs = cn_from_u32 i # cs'"
        using 1(2) by (subst (asm) read_children.simps) (auto split: sum.splits)
      have "list_all cn_ok cs' \<and> d' = children_bytes cs'" by (rule 1(1) [OF False d(1) refl d(2)])
      then show ?thesis using u32_codec.canonical [OF d(1)] d(3) by (simp add: cn_ok_from_u32 cn_to_from_u32 serialize_def)
    qed
  qed
  show "list_all cn_ok cs \<and> d = children_bytes cs \<Longrightarrow> read_children d = Inr cs"
  proof (induction cs arbitrary: d)
    case Nil
    then show ?case by (simp add: read_children.simps)
  next
    case (Cons c cs)
    have "length (to_le_bytes (cn_to_u32 c)) = 4" by simp
    then have "to_le_bytes (cn_to_u32 c) \<noteq> []" by (metis list.size(3) zero_neq_numeral)
    then have "decode_int d = Inr (cn_to_u32 c, children_bytes cs)" "d \<noteq> []"
      using Cons.prems u32_codec.dec_enc [of "cn_to_u32 c"] by (simp_all add: serialize_def encode_int_def)
    then show ?case using Cons by (subst read_children.simps) (simp add: cn_from_to_u32)
  qed
qed

lemma de_key_source_iff: "de_key_source bs = Inr s \<longleftrightarrow> key_source_ok s \<and> bs = ser_key_source s"
proof -
  obtain fp cs where s: "s = (fp, DerivationPath cs)" by (metis DerivationPath.exhaust prod.exhaust)
  have "de_key_source bs = Inr s \<longleftrightarrow> 4 \<le> length bs \<and> fp = take 4 bs \<and> read_children (drop 4 bs) = Inr cs"
    by (cases "read_children (drop 4 bs)") (auto simp: de_key_source_def s)
  also have "\<dots> \<longleftrightarrow> length fp = 4 \<and> list_all cn_ok cs \<and> bs = fp @ children_bytes cs"
    unfolding read_children_iff by (metis (no_types, lifting) append_eq_conv_conj append_take_drop_id length_take min.absorb2 min.cobounded1)
  finally show ?thesis by (simp add: key_source_ok_def ser_key_source_def s)
qed

interpretation key_source_value: psbt_value ser_key_source de_key_source key_source_ok
  by unfold_locales (auto simp: de_key_source_iff)

definition origins_ok :: "bytes list \<times> KeySource \<Rightarrow> bool" where
  "origins_ok x \<longleftrightarrow> vec_ok (\<lambda>h. length h = 32) (fst x) \<and> key_source_ok (snd x)"

lemma de_origins_iff: "de_origins bs = Inr x \<longleftrightarrow> origins_ok x \<and> bs = ser_origins x"
proof
  assume "de_origins bs = Inr x"
  then obtain r where r: "dec_vec (dec_array 32) bs = Inr (fst x, r)" "de_key_source (drop (length bs - length r) bs) = Inr (snd x)"
    by (auto simp: de_origins_def deserialize_partial_def split: sum.splits)
  have h: "vec_ok (\<lambda>h. length h = 32) (fst x)" "bs = fst (enc_vec enc_array (fst x)) @ r" using hash_vec_codec.canonical [OF r(1)] by auto
  have "drop (length bs - length r) bs = r" by (subst h(2)) (simp add: h(2))
  then show "origins_ok x \<and> bs = ser_origins x" using r(2) h by (simp add: de_key_source_iff origins_ok_def ser_origins_def)
next
  assume "origins_ok x \<and> bs = ser_origins x"
  then have "dec_vec (dec_array 32) bs = Inr (fst x, ser_key_source (snd x))" "bs = fst (enc_vec enc_array (fst x)) @ ser_key_source (snd x)"
    "key_source_ok (snd x)" using hash_vec_codec.dec_enc by (auto simp: origins_ok_def ser_origins_def)
  then show "de_origins bs = Inr x"
    using key_source_value.de_ser [of "snd x"] by (simp add: de_origins_def deserialize_partial_def)
qed

interpretation origins_value: psbt_value ser_origins de_origins origins_ok
  by unfold_locales (auto simp: de_origins_iff)

section \<open>Script trees\<close>

text \<open>The tree with the subtrees in the order of the leaves.\<close>

fun tree_sort :: "ScriptTree \<Rightarrow> ScriptTree" where
  "tree_sort (TBranch l r) =
     (if cmp_bytes (tree_hash r) (tree_hash l) = Less then TBranch (tree_sort r) (tree_sort l) else TBranch (tree_sort l) (tree_sort r))"
| "tree_sort t = t"

lemma tree_sort_hash [simp]: "tree_hash (tree_sort t) = tree_hash t"
  by (induction t) (auto simp: node_hashes_comm)

lemma tree_sort_props [simp]: "script_height (tree_sort t) = script_height t" "tree_hidden (tree_sort t) = tree_hidden t"
  by (induction t) (auto simp: max.commute)

lemma tree_sort_leaves [simp]: "tree_leaves (tree_sort t) = tree_leaves t"
proof (induction t)
  case (TBranch l r)
  then show ?case using cmp_bytes_flip [of "tree_hash l" "tree_hash r"] by (auto simp: Let_def)
qed simp_all

lemma tree_sort_node [simp]: "tree_node (tree_sort t) = tree_node t"
  by (simp add: tree_node_def)

definition leaf_item :: "LeafNode \<Rightarrow> TreeItem" where
  "leaf_item n = (case leaf n of ScriptLeaf s v \<Rightarrow> AddLeaf s v | HiddenLeaf h \<Rightarrow> AddHidden h)"

lemma tree_step_simps [simp]: "leaf_item (tree_step h n) = leaf_item n" "length (merkle_branch (tree_step h n)) = Suc (length (merkle_branch n))"
  "leaf (tree_step h n) = leaf n"
  by (simp_all add: leaf_item_def tree_step_def)

lemma sorted_dfs:
  "\<not> tree_hidden t \<Longrightarrow> tree_dfs d (tree_sort t) = map (\<lambda>n. (d + length (merkle_branch n), leaf_item n)) (tree_leaves t)"
proof (induction t arbitrary: d)
  case (TLeaf s v)
  then show ?case by (simp add: leaf_new_script_def leaf_item_def)
qed (auto simp: Let_def)

definition item_bytes :: "u8 \<times> TreeItem \<Rightarrow> bytes" where
  "item_bytes x = (case snd x of AddLeaf s v \<Rightarrow> [fst x, leafver_to_consensus v] @ fst (enc_with_size s) | AddHidden _ \<Rightarrow> [])"

definition item_ok :: "TreeItem \<Rightarrow> bool" where
  "item_ok x = (case x of AddLeaf s v \<Rightarrow> bytes_ok s \<and> leafver_ok v | AddHidden _ \<Rightarrow> False)"

lemma item_simps: "item_ok (AddLeaf s v) \<longleftrightarrow> bytes_ok s \<and> leafver_ok v"
  "item_bytes (d, AddLeaf s v) = [d, leafver_to_consensus v] @ fst (enc_with_size s)"
  by (simp_all add: item_ok_def item_bytes_def)

definition taptree_ok :: "NodeInfo \<Rightarrow> bool" where
  "taptree_ok nd \<longleftrightarrow> (\<exists>t. nd = tree_node t \<and> script_height t \<le> 128 \<and> \<not> tree_hidden t \<and> list_all (item_ok \<circ> leaf_item) (tree_leaves t))"

lemma fold_add_item_Inl [simp]: "fold add_item xs (Inl e) = Inl e"
  by (induction xs) simp_all

lemma taptree_loop_items:
  "list_all (item_ok \<circ> snd) adds \<Longrightarrow> fold add_item adds (Inr b) = Inr b' \<Longrightarrow> taptree_loop b (concat (map item_bytes adds)) = Inr b'"
proof (induction adds arbitrary: b)
  case (Cons x adds)
  obtain d s v where x: "x = (d, AddLeaf s v)" "bytes_ok s" "leafver_ok v"
    using Cons.prems(1) by (cases x) (auto simp: item_ok_def split: TreeItem.splits)
  obtain b1 where b: "add_leaf_with_ver b d s v = Inr b1" "fold add_item adds (Inr b1) = Inr b'"
    using Cons.prems(2) by (cases "add_leaf_with_ver b d s v") (auto simp: x(1))
  have "de_leafver (leafver_to_consensus v) = Inr v" using x(3) by (simp add: leafver_value)
  moreover have "deserialize_partial dec_bytes (fst (enc_with_size s) @ rest) = Inr (s, length (fst (enc_with_size s)))" for rest
    using bytes_codec.dec_enc [OF x(2)] by (simp add: deserialize_partial_def)
  ultimately show ?case using Cons b by (simp add: item_bytes_def x(1))
qed simp

lemma taptree_loop_sound:
  "taptree_loop b bs = Inr b' \<Longrightarrow>
   \<exists>adds. list_all (item_ok \<circ> snd) adds \<and> bs = concat (map item_bytes adds) \<and> fold add_item adds (Inr b) = Inr b'"
proof (induction b bs arbitrary: b' rule: taptree_loop.induct)
  case (1 b)
  then show ?case by (intro exI [of _ "[]"]) simp
next
  case (3 b depth version r)
  from 3(2) obtain s consumed v b1 where s: "deserialize_partial dec_bytes r = Inr (s, consumed)" "de_leafver version = Inr v"
    "add_leaf_with_ver b depth s v = Inr b1" "taptree_loop b1 (drop consumed r) = Inr b'"
    by (auto split: sum.splits)
  obtain rest where r: "dec_bytes r = Inr (s, rest)" "consumed = length r - length rest"
    using s(1) by (auto simp: deserialize_partial_def split: sum.splits)
  have c: "bytes_ok s" "r = fst (enc_with_size s) @ rest" using bytes_codec.canonical [OF r(1)] by auto
  have "drop consumed r = rest" unfolding r(2) by (subst c(2)) (simp add: c(2))
  moreover obtain adds where a: "list_all (item_ok \<circ> snd) adds" "drop consumed r = concat (map item_bytes adds)" "fold add_item adds (Inr b1) = Inr b'"
    using 3(1) [OF _ _ s(2) s(3) s(4)] s(1) by fastforce
  ultimately show ?case using s(2,3) c
    by (intro exI [of _ "(depth, AddLeaf s v) # adds"]) (auto simp: item_simps leafver_value comp_def)
qed simp

lemma script_leaves_items:
  "list_all (item_ok \<circ> leaf_item) ls \<Longrightarrow>
   concat (map (\<lambda>(v, s, br). [word_of_nat (length br), leafver_to_consensus v] @ fst (enc_with_size s)) (script_leaves ls)) =
   concat (map (\<lambda>n. item_bytes (word_of_nat (length (merkle_branch n)), leaf_item n)) ls)"
  by (induction ls) (auto simp: item_ok_def item_bytes_def leaf_item_def split: TapLeaf.splits)

lemma try_into_taptree_iff: "try_into_taptree b = Some (Inr nd) \<longleftrightarrow> b = [Some nd] \<and> \<not> has_hidden_nodes nd"
  by (cases b) (auto simp: try_into_taptree_def try_into_node_info_def split: if_splits)

lemma de_taptree_iff:
  "de_taptree bs = Inr nd \<longleftrightarrow>
   (\<exists>adds. list_all (item_ok \<circ> snd) adds \<and> bs = concat (map item_bytes adds) \<and> fold add_item adds (Inr builder_empty) = Inr [Some nd] \<and>
      \<not> has_hidden_nodes nd)"
proof -
  have "de_taptree bs = Inr nd \<longleftrightarrow> (\<exists>b. taptree_loop builder_empty bs = Inr b \<and> try_into_taptree b = Some (Inr nd))"
    by (auto simp: de_taptree_def split: sum.splits option.splits)
  then have "de_taptree bs = Inr nd \<longleftrightarrow> taptree_loop builder_empty bs = Inr [Some nd] \<and> \<not> has_hidden_nodes nd"
    unfolding try_into_taptree_iff by blast
  then show ?thesis using taptree_loop_sound [of builder_empty bs] taptree_loop_items [of _ builder_empty] by metis
qed

lemma leaves_not_hidden: "\<not> tree_hidden t \<Longrightarrow> list_all (item_ok \<circ> leaf_item) (tree_leaves t) \<longleftrightarrow> list_all (item_ok \<circ> snd) (tree_dfs d t)"
proof -
  assume "\<not> tree_hidden t"
  then have "leaf_item ` set (tree_leaves t) = snd ` set (tree_dfs d t)"
  proof (induction t arbitrary: d)
    case (TLeaf s v)
    then show ?case by (simp add: leaf_item_def leaf_new_script_def)
  qed (auto simp: Let_def image_Un image_image)
  then have "(\<forall>x \<in> leaf_item ` set (tree_leaves t). item_ok x) \<longleftrightarrow> (\<forall>x \<in> snd ` set (tree_dfs d t). item_ok x)" by simp
  then show ?thesis by (simp add: list_all_iff)
qed

lemma leaves_size:
  "\<not> tree_hidden t \<Longrightarrow> sum_list (map (\<lambda>n. length (item_bytes (0, leaf_item n))) (tree_leaves t)) =
     sum_list (map (\<lambda>x. length (item_bytes (0, snd x))) (tree_dfs d t))"
  by (induction t arbitrary: d) (auto simp: Let_def leaf_item_def leaf_new_script_def comp_def)

lemma item_bytes_length: "length (item_bytes (d, x)) = length (item_bytes (0, x))"
  by (cases x) (simp_all add: item_bytes_def)

lemma ser_taptree_eq:
  "list_all (item_ok \<circ> leaf_item) (leaves nd) \<Longrightarrow>
   ser_taptree nd = concat (map (\<lambda>n. item_bytes (word_of_nat (length (merkle_branch n)), leaf_item n)) (leaves nd))"
  unfolding ser_taptree_def by (rule script_leaves_items)

interpretation taptree_value: psbt_value ser_taptree de_taptree taptree_ok
proof
  fix nd
  assume "taptree_ok nd"
  then obtain t where t: "nd = tree_node t" "script_height t \<le> 128" "\<not> tree_hidden t" "list_all (item_ok \<circ> leaf_item) (tree_leaves t)"
    unfolding taptree_ok_def by blast
  let ?adds = "map (\<lambda>n. (word_of_nat (length (merkle_branch n)) :: u8, leaf_item n)) (tree_leaves t)"
  have d: "unat (word_of_nat (length (merkle_branch n)) :: u8) = length (merkle_branch n)" if "n \<in> set (tree_leaves t)" for n
    using leaves_depth [OF that] t(2) by (simp add: unat_of_nat_u8)
  then have "map (apfst unat) ?adds = tree_dfs 0 (tree_sort t)" using sorted_dfs [OF t(3), of 0] by simp
  then have "fold add_item ?adds (Inr builder_empty) = Inr [Some nd]"
    unfolding builder_tree_iff using t by (intro exI [of _ "tree_sort t"]) simp
  moreover have "ser_taptree nd = concat (map item_bytes ?adds)" using t(4) by (simp add: ser_taptree_eq t(1) tree_node_def comp_def)
  moreover have "list_all (item_ok \<circ> snd) ?adds" using t(4) by (simp add: list_all_iff)
  moreover have "\<not> has_hidden_nodes nd" using t(1,3) by (simp add: tree_node_def)
  ultimately show "de_taptree (ser_taptree nd) = Inr nd" unfolding de_taptree_iff by blast
next
  fix bs nd
  assume "de_taptree bs = Inr nd"
  then obtain adds where a: "list_all (item_ok \<circ> snd) adds" "bs = concat (map item_bytes adds)"
    "fold add_item adds (Inr builder_empty) = Inr [Some nd]" "\<not> has_hidden_nodes nd"
    unfolding de_taptree_iff by blast
  then obtain t where t: "script_height t \<le> 128" "map (apfst unat) adds = tree_dfs 0 t" "nd = tree_node t"
    unfolding builder_tree_iff by blast
  have h: "\<not> tree_hidden t" using a(4) t(3) by (simp add: tree_node_def)
  have s: "map snd adds = map snd (tree_dfs 0 t)" using arg_cong [OF t(2), of "map snd"] by (simp add: comp_def)
  have "list_all item_ok (map snd adds)" using a(1) by (simp add: list_all_iff)
  then have ok: "list_all (item_ok \<circ> leaf_item) (tree_leaves t)" unfolding leaves_not_hidden [OF h, of 0] s by (simp add: list_all_iff)
  show "taptree_ok nd" unfolding taptree_ok_def using t(1,3) h ok by blast
  have "length (ser_taptree nd) = sum_list (map (\<lambda>n. length (item_bytes (0, leaf_item n))) (tree_leaves t))"
    using ok by (simp add: ser_taptree_eq t(3) tree_node_def length_concat comp_def item_bytes_length [of "word_of_nat _"])
  also have "\<dots> = sum_list (map (\<lambda>x. length (item_bytes (0, x))) (map snd (tree_dfs 0 t)))"
    using leaves_size [OF h, of 0] by (simp add: comp_def)
  also have "\<dots> = sum_list (map (\<lambda>x. length (item_bytes (0, x))) (map snd adds))" by (simp only: s)
  also have "\<dots> = length bs" unfolding a(2) length_concat map_map comp_def
    by (intro arg_cong [where f = sum_list] map_cong refl) (metis item_bytes_length prod.collapse)
  finally show "length (ser_taptree nd) \<le> max 73 (length bs)" by simp
qed

section \<open>Keys and signatures\<close>

text \<open>
  What the maps rely on: the library orders its keys totally, gives back a parsed key from its compressed and its
  uncompressed serialization, of 33 bytes and of 65 bytes starting with 4, gives back a parsed signature from its DER form of at
  most 72 bytes, and accepts only x-only keys of 32 bytes and Schnorr signatures of 64 bytes.
\<close>

definition psbt_ops_ok :: "PsbtOps \<Rightarrow> bool" where
  "psbt_ops_ok ops \<longleftrightarrow>
     total_cmp (secp_pk_cmp ops) \<and> total_cmp (xonly_cmp ops) \<and>
     (\<forall>b k. secp_pk_from_slice ops b = Some k \<longrightarrow>
        length k = 33 \<and> secp_pk_from_slice ops k = Some k \<and> length (secp_pk_uncompressed ops k) = 65 \<and>
        secp_pk_uncompressed ops k ! 0 = 4 \<and> secp_pk_from_slice ops (secp_pk_uncompressed ops k) = Some k) \<and>
     (\<forall>b d. sig_from_der ops b = Some d \<longrightarrow> sig_from_der ops d = Some d \<and> length d \<le> 72) \<and>
     (\<forall>b. xonly_valid (op_secp ops) b \<longrightarrow> length b = 32) \<and> (\<forall>b. schnorr_valid ops b \<longrightarrow> length b = 64)"

definition secp_pk_ok :: "PsbtOps \<Rightarrow> bytes \<Rightarrow> bool" where "secp_pk_ok ops k \<longleftrightarrow> secp_pk_from_slice ops k = Some k"
definition pubkey_ok :: "PsbtOps \<Rightarrow> PublicKey \<Rightarrow> bool" where "pubkey_ok ops k \<longleftrightarrow> secp_pk_ok ops (pk_inner k)"
definition xonly_ok :: "PsbtOps \<Rightarrow> bytes \<Rightarrow> bool" where "xonly_ok ops k \<longleftrightarrow> xonly_valid (op_secp ops) k"
definition ecdsa_ok :: "PsbtOps \<Rightarrow> EcdsaSignature \<Rightarrow> bool" where "ecdsa_ok ops s \<longleftrightarrow> sig_from_der ops (es_signature s) = Some (es_signature s)"
definition tapsig_ok :: "PsbtOps \<Rightarrow> TapSignature \<Rightarrow> bool" where "tapsig_ok ops s \<longleftrightarrow> schnorr_valid ops (ts_signature s)"
definition xonly_leaf_ok :: "PsbtOps \<Rightarrow> bytes \<times> bytes \<Rightarrow> bool" where "xonly_leaf_ok ops x \<longleftrightarrow> xonly_ok ops (fst x) \<and> length (snd x) = 32"

lemma pk_facts:
  assumes "psbt_ops_ok ops" "secp_pk_from_slice ops b = Some k"
  shows "length k = 33" "secp_pk_from_slice ops k = Some k" "length (secp_pk_uncompressed ops k) = 65"
    "secp_pk_uncompressed ops k ! 0 = 4" "secp_pk_from_slice ops (secp_pk_uncompressed ops k) = Some k"
  using assms unfolding psbt_ops_ok_def by blast+

lemma sig_facts: "psbt_ops_ok ops \<Longrightarrow> sig_from_der ops b = Some d \<Longrightarrow> sig_from_der ops d = Some d \<and> length d \<le> 72"
  and xonly_length: "psbt_ops_ok ops \<Longrightarrow> xonly_valid (op_secp ops) b \<Longrightarrow> length b = 32"
  and schnorr_length: "psbt_ops_ok ops \<Longrightarrow> schnorr_valid ops b \<Longrightarrow> length b = 64"
  unfolding psbt_ops_ok_def by blast+

lemma secp_pk_value:
  assumes "psbt_ops_ok ops"
  shows "psbt_value ser_secp_pk (de_secp_pk ops) (secp_pk_ok ops)"
proof
  fix bs k
  show "de_secp_pk ops (ser_secp_pk k) = Inr k" if "secp_pk_ok ops k" using that by (simp add: de_secp_pk_def ser_secp_pk_def secp_pk_ok_def)
  assume "de_secp_pk ops bs = Inr k"
  then have "secp_pk_from_slice ops bs = Some k" by (auto simp: de_secp_pk_def split: option.splits)
  from pk_facts [OF assms this] show "secp_pk_ok ops k" "length (ser_secp_pk k) \<le> max 73 (length bs)"
    by (auto simp: secp_pk_ok_def ser_secp_pk_def)
qed

lemma pubkey_from_slice_iff:
  assumes "psbt_ops_ok ops"
  shows "pubkey_from_slice ops bs = Inr k \<longleftrightarrow>
    (if pk_compressed k then length bs = 33 else length bs = 65 \<and> bs ! 0 = 4) \<and> secp_pk_from_slice ops bs = Some (pk_inner k)"
  by (cases k) (auto simp: pubkey_from_slice_def Let_def split: option.splits if_splits)

lemma pubkey_bytes_length:
  assumes "psbt_ops_ok ops" "pubkey_ok ops k"
  shows "length (pubkey_bytes ops k) = (if pk_compressed k then 33 else 65)"
  using pk_facts [OF assms(1), of "pk_inner k" "pk_inner k"] assms(2) by (simp add: pubkey_bytes_def pubkey_ok_def secp_pk_ok_def)

lemma pubkey_value:
  assumes "psbt_ops_ok ops"
  shows "psbt_value (ser_pubkey ops) (de_pubkey ops) (pubkey_ok ops)"
proof
  fix bs k
  have i: "de_pubkey ops bs = Inr k \<longleftrightarrow> pubkey_from_slice ops bs = Inr k" for bs k
    by (cases "pubkey_from_slice ops bs") (simp_all add: de_pubkey_def)
  show "de_pubkey ops (ser_pubkey ops k) = Inr k" if "pubkey_ok ops k"
    using that pk_facts [OF assms, of "pk_inner k" "pk_inner k"] unfolding i pubkey_from_slice_iff [OF assms]
    by (simp add: ser_pubkey_def pubkey_bytes_def pubkey_ok_def secp_pk_ok_def)
  assume "de_pubkey ops bs = Inr k"
  then have "secp_pk_from_slice ops bs = Some (pk_inner k)" unfolding i pubkey_from_slice_iff [OF assms] by simp
  then show ok: "pubkey_ok ops k" using pk_facts [OF assms] by (simp add: pubkey_ok_def secp_pk_ok_def)
  show "length (ser_pubkey ops k) \<le> max 73 (length bs)" using pubkey_bytes_length [OF assms ok] by (simp add: ser_pubkey_def le_max_iff_disj)
qed

lemma xonly_value: "psbt_value ser_xonly (de_xonly ops) (xonly_ok ops)"
  by unfold_locales (auto simp: ser_xonly_def de_xonly_def xonly_ok_def split: if_splits)

lemma xonly_leaf_value:
  assumes "psbt_ops_ok ops"
  shows "psbt_value ser_xonly_leaf (de_xonly_leaf ops) (xonly_leaf_ok ops)"
proof
  fix bs x
  show "de_xonly_leaf ops (ser_xonly_leaf x) = Inr x" if "xonly_leaf_ok ops x"
    using that xonly_length [OF assms, of "fst x"]
    by (cases x) (simp add: de_xonly_leaf_def ser_xonly_leaf_def ser_xonly_def xonly_leaf_ok_def xonly_ok_def de_xonly_def de_hash_def)
  assume "de_xonly_leaf ops bs = Inr x"
  then have "fst x = take 32 bs" "snd x = drop 32 bs" "xonly_ok ops (take 32 bs)" "length (drop 32 bs) = 32"
    by (auto simp: de_xonly_leaf_def de_xonly_def xonly_ok_def de_hash_def split: if_splits sum.splits)
  then show "xonly_leaf_ok ops x" "length (ser_xonly_leaf x) \<le> max 73 (length bs)"
    by (auto simp: xonly_leaf_ok_def ser_xonly_leaf_def ser_xonly_def)
qed

lemma ecdsa_type_byte: "ucast (ucast (ecdsa_to_u32 t) :: u8) = ecdsa_to_u32 t"
  by (cases t) simp_all

lemma ecdsa_value:
  assumes "psbt_ops_ok ops"
  shows "psbt_value ser_ecdsa (de_ecdsa ops) (ecdsa_ok ops)"
proof
  fix bs s
  have i: "de_ecdsa ops bs = Inr s \<longleftrightarrow> ecdsa_from_slice ops bs = Inr s" for bs s
    by (cases "ecdsa_from_slice ops bs") (simp_all add: de_ecdsa_def)
  show "de_ecdsa ops (ser_ecdsa s) = Inr s" if "ecdsa_ok ops s"
  proof -
    have "ecdsa_from_standard (ucast (ucast (ecdsa_to_u32 (es_sighash_type s)) :: u8)) = Inr (es_sighash_type s)"
      by (simp only: from_standard_iff ecdsa_type_byte)
    then show ?thesis using that unfolding i ser_ecdsa_def ecdsa_to_vec_def ecdsa_ok_def ecdsa_from_slice_def by simp
  qed
  assume "de_ecdsa ops bs = Inr s"
  then obtain b where "sig_from_der ops b = Some (es_signature s)"
    unfolding i by (auto simp: ecdsa_from_slice_def split: if_splits sum.splits option.splits)
  from sig_facts [OF assms this] show "ecdsa_ok ops s" "length (ser_ecdsa s) \<le> max 73 (length bs)"
    by (auto simp: ecdsa_ok_def ser_ecdsa_def ecdsa_to_vec_def)
qed

lemma tapsig_value:
  assumes "psbt_ops_ok ops"
  shows "psbt_value ser_tapsig (de_tapsig ops) (tapsig_ok ops)"
proof
  fix bs s
  have i: "de_tapsig ops bs = Inr s \<longleftrightarrow> tapsig_from_slice ops bs = Inr s" for bs s
    by (cases "tapsig_from_slice ops bs") (simp_all add: de_tapsig_def)
  show "de_tapsig ops (ser_tapsig s) = Inr s" if ok: "tapsig_ok ops s"
  proof -
    have "tap_from_consensus_u8 (tap_to_u8 (ts_sighash_type s)) = Inr (ts_sighash_type s)" by (simp only: tap_consensus_iff)
    moreover have "length (ts_signature s) = 64" using ok schnorr_length [OF assms] by (simp add: tapsig_ok_def)
    ultimately show ?thesis using ok unfolding i
      by (cases s) (simp add: ser_tapsig_def tapsig_to_vec_def tapsig_from_slice_def tapsig_ok_def)
  qed
  assume "de_tapsig ops bs = Inr s"
  then have v: "schnorr_valid ops (ts_signature s)"
    unfolding i by (auto simp: tapsig_from_slice_def split: if_splits sum.splits)
  then show "tapsig_ok ops s" by (simp add: tapsig_ok_def)
  show "length (ser_tapsig s) \<le> max 73 (length bs)" using schnorr_length [OF assms v] by (simp add: ser_tapsig_def tapsig_to_vec_def le_max_iff_disj)
qed

lemma cb_value: "psbt_value ser_cb (de_cb ops) (cb_ok (op_secp ops))"
proof -
  have "de_cb ops bs = Inr cb \<longleftrightarrow> cb_decode (op_secp ops) bs = Some (Inr cb)" for bs cb
    by (auto simp: de_cb_def split: option.splits sum.splits)
  then show ?thesis by unfold_locales (auto simp: cb_decode_iff ser_cb_def)
qed

section \<open>Orders of keys\<close>

lemma total_cmp_leafver: "total_cmp cmp_leafver"
proof
  fix x y z :: LeafVersion
  show "cmp_leafver x y = Equal \<longleftrightarrow> x = y" by (cases x; cases y; simp add: cmp_by_def)
  show "cmp_leafver y x = flip (cmp_leafver x y)" by (cases x; cases y; auto simp: cmp_by_def)
  show "cmp_leafver x y = Less \<Longrightarrow> cmp_leafver y z = Less \<Longrightarrow> cmp_leafver x z = Less"
    by (cases x; cases y; cases z; auto simp: cmp_by_def split: if_splits)
qed

lemma psbt_cmps:
  assumes "psbt_ops_ok ops"
  shows "total_cmp (secp_pk_cmp ops)" "total_cmp (xonly_cmp ops)" "total_cmp (cmp_pubkey ops)" "total_cmp (cmp_cb ops)"
    "total_cmp (cmp_pair (xonly_cmp ops) cmp_bytes)"
proof -
  show p: "total_cmp (secp_pk_cmp ops)" and x: "total_cmp (xonly_cmp ops)" using assms by (auto simp: psbt_ops_ok_def)
  show "total_cmp (cmp_pubkey ops)" unfolding cmp_pubkey_def
    by (intro total_cmp_on total_cmp_pair total_cmp_by p) (auto intro!: injI PublicKey.equality)
  show "total_cmp (cmp_cb ops)" unfolding cmp_cb_def
    by (intro total_cmp_on total_cmp_pair total_cmp_by total_cmp_leafver total_cmp_list x byte_cmp.total_cmp_axioms)
      (auto intro!: injI ControlBlock.equality)
  show "total_cmp (cmp_pair (xonly_cmp ops) cmp_bytes)" by (intro total_cmp_pair x byte_cmp.total_cmp_axioms)
qed

end
