(* ===== verification/PsbtMap.thy ===== *)
theory PsbtMap
  imports PsbtValue
begin

text \<open>
  The key-value maps of partially signed transactions: the maps of an input, of an output and of the whole
  (\<open>psbt/map/input.rs\<close>, \<open>psbt/map/output.rs\<close>, \<open>psbt/map/global.rs\<close>, \<open>psbt/map/mod.rs\<close>) and the macros of
  \<open>psbt/macros.rs\<close>, which are functions of the field they insert into, given by its selector and its update. The locale
  \<open>map_field\<close> states what such a pair obeys; the lemmas about one field are proved there and interpreted for the fields of the
  three maps.
\<close>

section \<open>Macros\<close>

type_synonym ('m, 'a) updater = "('a \<Rightarrow> 'a) \<Rightarrow> 'm \<Rightarrow> 'm"

definition insert_unkeyed ::
  "('m \<Rightarrow> 'a option) \<Rightarrow> ('m, 'a option) updater \<Rightarrow> (bytes \<Rightarrow> PsbtError + 'a) \<Rightarrow> RawPair \<Rightarrow> 'm \<Rightarrow> PsbtError + 'm" where
  "insert_unkeyed get upd de p m =
     (let raw_key = pair_key p
      in if key_data raw_key = []
         then (case get m of
                 None \<Rightarrow> (case de (pair_value p) of Inl e \<Rightarrow> Inl e | Inr v \<Rightarrow> Inr (upd (\<lambda>_. Some v) m))
               | Some _ \<Rightarrow> Inl (DuplicateKey raw_key))
         else Inl (InvalidKey raw_key))"

definition insert_keyed ::
  "('m \<Rightarrow> ('k, 'v) btree) \<Rightarrow> ('m, ('k, 'v) btree) updater \<Rightarrow> 'k cmp \<Rightarrow> (bytes \<Rightarrow> PsbtError + 'k) \<Rightarrow> (bytes \<Rightarrow> PsbtError + 'v) \<Rightarrow>
   RawPair \<Rightarrow> 'm \<Rightarrow> PsbtError + 'm" where
  "insert_keyed get upd c dek dev p m =
     (let raw_key = pair_key p
      in if key_data raw_key \<noteq> []
         then (case dek (key_data raw_key) of
                 Inl e \<Rightarrow> Inl e
               | Inr k \<Rightarrow> (case bt_get c (get m) k of
                              None \<Rightarrow> (case dev (pair_value p) of Inl e \<Rightarrow> Inl e | Inr v \<Rightarrow> Inr (upd (bt_insert c k v) m))
                            | Some _ \<Rightarrow> Inl (DuplicateKey raw_key)))
         else Inl (InvalidKey raw_key))"

definition insert_hash_pair ::
  "('m \<Rightarrow> (bytes, bytes) btree) \<Rightarrow> ('m, (bytes, bytes) btree) updater \<Rightarrow> (bytes \<Rightarrow> PsbtError + bytes) \<Rightarrow> (bytes \<Rightarrow> bytes) \<Rightarrow> PsbtHash \<Rightarrow>
   RawPair \<Rightarrow> 'm \<Rightarrow> PsbtError + 'm" where
  "insert_hash_pair get upd dek hash hash_type p m =
     (let raw_key = pair_key p
      in if key_data raw_key = [] then Inl (InvalidKey raw_key)
         else (case dek (key_data raw_key) of
                 Inl e \<Rightarrow> Inl e
               | Inr k \<Rightarrow> (case bt_get cmp_bytes (get m) k of
                              None \<Rightarrow> (case de_vec (pair_value p) of
                                         Inl e \<Rightarrow> Inl e
                                       | Inr v \<Rightarrow> if hash v \<noteq> k then Inl (InvalidPreimageHashPair hash_type v k)
                                                  else Inr (upd (bt_insert cmp_bytes k v) m))
                            | Some _ \<Rightarrow> Inl (DuplicateKey raw_key))))"

definition insert_proprietary ::
  "('m \<Rightarrow> (ProprietaryKey, bytes) btree) \<Rightarrow> ('m, (ProprietaryKey, bytes) btree) updater \<Rightarrow> RawPair \<Rightarrow> 'm \<Rightarrow> PsbtError + 'm" where
  "insert_proprietary get upd p m =
     (case proprietary_try_from (pair_key p) of
        Inl e \<Rightarrow> Inl e
      | Inr k \<Rightarrow> (case bt_get cmp_proprietary (get m) k of
                     None \<Rightarrow> Inr (upd (bt_insert cmp_proprietary k (pair_value p)) m)
                   | Some _ \<Rightarrow> Inl (DuplicateKey (pair_key p))))"

definition insert_unknown ::
  "('m \<Rightarrow> (RawKey, bytes) btree) \<Rightarrow> ('m, (RawKey, bytes) btree) updater \<Rightarrow> RawPair \<Rightarrow> 'm \<Rightarrow> PsbtError + 'm" where
  "insert_unknown get upd p m =
     (case bt_get cmp_raw_key (get m) (pair_key p) of
        None \<Rightarrow> Inr (upd (bt_insert cmp_raw_key (pair_key p) (pair_value p)) m)
      | Some _ \<Rightarrow> Inl (DuplicateKey (pair_key p)))"

abbreviation mk_pair :: "u8 \<Rightarrow> bytes \<Rightarrow> bytes \<Rightarrow> RawPair" where
  "mk_pair t k v \<equiv> \<lparr> pair_key = \<lparr> type_value = t, key_data = k \<rparr>, pair_value = v \<rparr>"

definition push_unkeyed :: "'a option \<Rightarrow> u8 \<Rightarrow> ('a \<Rightarrow> bytes) \<Rightarrow> RawPair list" where
  "push_unkeyed x t ser = (case x of Some v \<Rightarrow> [mk_pair t [] (ser v)] | None \<Rightarrow> [])"

definition push_map :: "('k, 'v) btree \<Rightarrow> u8 \<Rightarrow> ('k \<Rightarrow> bytes) \<Rightarrow> ('v \<Rightarrow> bytes) \<Rightarrow> RawPair list" where
  "push_map xs t kser vser = map (\<lambda>(k, v). mk_pair t (kser k) (vser v)) xs"

definition push_proprietary :: "(ProprietaryKey, bytes) btree \<Rightarrow> RawPair list" where
  "push_proprietary xs = map (\<lambda>(k, v). \<lparr> pair_key = to_key k, pair_value = v \<rparr>) xs"

definition push_unknown :: "(RawKey, bytes) btree \<Rightarrow> RawPair list" where
  "push_unknown xs = map (\<lambda>(k, v). \<lparr> pair_key = k, pair_value = v \<rparr>) xs"

definition combine_field :: "'a option \<Rightarrow> 'a option \<Rightarrow> 'a option" where
  "combine_field slf other = (case (slf, other) of (None, Some x) \<Rightarrow> Some x | _ \<Rightarrow> slf)"

section \<open>Reading and writing maps\<close>

lemma pair_serialize_nonempty [simp]: "pair_serialize p \<noteq> []"
  by (simp add: pair_serialize_def key_serialize_eq)

function decode_pairs :: "(RawPair \<Rightarrow> 'm \<Rightarrow> PsbtError + 'm) \<Rightarrow> 'm \<Rightarrow> bytes \<Rightarrow> PsbtError + ('m \<times> bytes)" where
  "decode_pairs ins m bs =
     (case pair_decode bs of
        Inl e \<Rightarrow> Inl e
      | Inr (None, r) \<Rightarrow> Inr (m, r)
      | Inr (Some p, r) \<Rightarrow> (case ins p m of Inl e \<Rightarrow> Inl e | Inr m \<Rightarrow> decode_pairs ins m r))"
  by pat_completeness auto
termination
  by (relation "measure (\<lambda>(ins, m, bs). length bs)") (auto simp: pair_decode_iff)

declare decode_pairs.simps [simp del]

definition serialize_map :: "RawPair list \<Rightarrow> bytes" where
  "serialize_map pairs = concat (map pair_serialize pairs) @ [0]"

section \<open>Inputs\<close>

definition PSBT_IN_NON_WITNESS_UTXO :: u8 where "PSBT_IN_NON_WITNESS_UTXO = 0x00"
definition PSBT_IN_WITNESS_UTXO :: u8 where "PSBT_IN_WITNESS_UTXO = 0x01"
definition PSBT_IN_PARTIAL_SIG :: u8 where "PSBT_IN_PARTIAL_SIG = 0x02"
definition PSBT_IN_SIGHASH_TYPE :: u8 where "PSBT_IN_SIGHASH_TYPE = 0x03"
definition PSBT_IN_REDEEM_SCRIPT :: u8 where "PSBT_IN_REDEEM_SCRIPT = 0x04"
definition PSBT_IN_WITNESS_SCRIPT :: u8 where "PSBT_IN_WITNESS_SCRIPT = 0x05"
definition PSBT_IN_BIP32_DERIVATION :: u8 where "PSBT_IN_BIP32_DERIVATION = 0x06"
definition PSBT_IN_FINAL_SCRIPTSIG :: u8 where "PSBT_IN_FINAL_SCRIPTSIG = 0x07"
definition PSBT_IN_FINAL_SCRIPTWITNESS :: u8 where "PSBT_IN_FINAL_SCRIPTWITNESS = 0x08"
definition PSBT_IN_RIPEMD160 :: u8 where "PSBT_IN_RIPEMD160 = 0x0a"
definition PSBT_IN_SHA256 :: u8 where "PSBT_IN_SHA256 = 0x0b"
definition PSBT_IN_HASH160 :: u8 where "PSBT_IN_HASH160 = 0x0c"
definition PSBT_IN_HASH256 :: u8 where "PSBT_IN_HASH256 = 0x0d"
definition PSBT_IN_TAP_KEY_SIG :: u8 where "PSBT_IN_TAP_KEY_SIG = 0x13"
definition PSBT_IN_TAP_SCRIPT_SIG :: u8 where "PSBT_IN_TAP_SCRIPT_SIG = 0x14"
definition PSBT_IN_TAP_LEAF_SCRIPT :: u8 where "PSBT_IN_TAP_LEAF_SCRIPT = 0x15"
definition PSBT_IN_TAP_BIP32_DERIVATION :: u8 where "PSBT_IN_TAP_BIP32_DERIVATION = 0x16"
definition PSBT_IN_TAP_INTERNAL_KEY :: u8 where "PSBT_IN_TAP_INTERNAL_KEY = 0x17"
definition PSBT_IN_TAP_MERKLE_ROOT :: u8 where "PSBT_IN_TAP_MERKLE_ROOT = 0x18"
definition PSBT_IN_PROPRIETARY :: u8 where "PSBT_IN_PROPRIETARY = 0xFC"

lemmas psbt_in_consts =
  PSBT_IN_NON_WITNESS_UTXO_def PSBT_IN_WITNESS_UTXO_def PSBT_IN_PARTIAL_SIG_def PSBT_IN_SIGHASH_TYPE_def
  PSBT_IN_REDEEM_SCRIPT_def PSBT_IN_WITNESS_SCRIPT_def PSBT_IN_BIP32_DERIVATION_def PSBT_IN_FINAL_SCRIPTSIG_def
  PSBT_IN_FINAL_SCRIPTWITNESS_def PSBT_IN_RIPEMD160_def PSBT_IN_SHA256_def PSBT_IN_HASH160_def
  PSBT_IN_HASH256_def PSBT_IN_TAP_KEY_SIG_def PSBT_IN_TAP_SCRIPT_SIG_def PSBT_IN_TAP_LEAF_SCRIPT_def
  PSBT_IN_TAP_BIP32_DERIVATION_def PSBT_IN_TAP_INTERNAL_KEY_def PSBT_IN_TAP_MERKLE_ROOT_def PSBT_IN_PROPRIETARY_def

record PsbtInput =
  in_non_witness_utxo :: "Transaction option"
  in_witness_utxo :: "TxOut option"
  in_partial_sigs :: "(PublicKey, EcdsaSignature) btree"
  in_sighash_type :: "PsbtSighashType option"
  in_redeem_script :: "bytes option"
  in_witness_script :: "bytes option"
  in_bip32_derivation :: "(bytes, KeySource) btree"
  in_final_script_sig :: "bytes option"
  in_final_script_witness :: "Witness option"
  in_ripemd160_preimages :: "(bytes, bytes) btree"
  in_sha256_preimages :: "(bytes, bytes) btree"
  in_hash160_preimages :: "(bytes, bytes) btree"
  in_hash256_preimages :: "(bytes, bytes) btree"
  in_tap_key_sig :: "TapSignature option"
  in_tap_script_sigs :: "(bytes \<times> bytes, TapSignature) btree"
  in_tap_scripts :: "(ControlBlock, bytes \<times> LeafVersion) btree"
  in_tap_key_origins :: "(bytes, bytes list \<times> KeySource) btree"
  in_tap_internal_key :: "bytes option"
  in_tap_merkle_root :: "bytes option"
  in_proprietary :: "(ProprietaryKey, bytes) btree"
  in_unknown :: "(RawKey, bytes) btree"

definition PsbtInput_default :: PsbtInput where
  "PsbtInput_default = \<lparr> in_non_witness_utxo = None, in_witness_utxo = None, in_partial_sigs = [],
     in_sighash_type = None, in_redeem_script = None, in_witness_script = None, in_bip32_derivation = [],
     in_final_script_sig = None, in_final_script_witness = None, in_ripemd160_preimages = [], in_sha256_preimages = [],
     in_hash160_preimages = [], in_hash256_preimages = [], in_tap_key_sig = None, in_tap_script_sigs = [], in_tap_scripts = [],
     in_tap_key_origins = [], in_tap_internal_key = None, in_tap_merkle_root = None, in_proprietary = [],
     in_unknown = [] \<rparr>"

definition input_insert_pair :: "PsbtOps \<Rightarrow> RawPair \<Rightarrow> PsbtInput \<Rightarrow> PsbtError + PsbtInput" where
  "input_insert_pair ops p m =
     (let t = type_value (pair_key p)
      in if t = PSBT_IN_NON_WITNESS_UTXO
      then insert_unkeyed in_non_witness_utxo in_non_witness_utxo_update (de_consensus dec_Transaction) p m
      else if t = PSBT_IN_WITNESS_UTXO then insert_unkeyed in_witness_utxo in_witness_utxo_update (de_consensus dec_TxOut) p m
      else if t = PSBT_IN_PARTIAL_SIG
      then insert_keyed in_partial_sigs in_partial_sigs_update (cmp_pubkey ops) (de_pubkey ops) (de_ecdsa ops) p m
      else if t = PSBT_IN_SIGHASH_TYPE then insert_unkeyed in_sighash_type in_sighash_type_update de_sighash_type p m
      else if t = PSBT_IN_REDEEM_SCRIPT then insert_unkeyed in_redeem_script in_redeem_script_update de_script p m
      else if t = PSBT_IN_WITNESS_SCRIPT then insert_unkeyed in_witness_script in_witness_script_update de_script p m
      else if t = PSBT_IN_BIP32_DERIVATION
      then insert_keyed in_bip32_derivation in_bip32_derivation_update (secp_pk_cmp ops) (de_secp_pk ops) de_key_source p m
      else if t = PSBT_IN_FINAL_SCRIPTSIG then insert_unkeyed in_final_script_sig in_final_script_sig_update de_script p m
      else if t = PSBT_IN_FINAL_SCRIPTWITNESS
      then insert_unkeyed in_final_script_witness in_final_script_witness_update (de_consensus dec_Witness) p m
      else if t = PSBT_IN_RIPEMD160
      then insert_hash_pair in_ripemd160_preimages in_ripemd160_preimages_update (de_hash 20) ripemd160_hash HashRipemd p m
      else if t = PSBT_IN_SHA256
      then insert_hash_pair in_sha256_preimages in_sha256_preimages_update (de_hash 32) sha256_hash HashSha256 p m
      else if t = PSBT_IN_HASH160
      then insert_hash_pair in_hash160_preimages in_hash160_preimages_update (de_hash 20) hash160_hash HashHash160 p m
      else if t = PSBT_IN_HASH256
      then insert_hash_pair in_hash256_preimages in_hash256_preimages_update (de_hash 32) sha256d_hash HashHash256 p m
      else if t = PSBT_IN_TAP_KEY_SIG then insert_unkeyed in_tap_key_sig in_tap_key_sig_update (de_tapsig ops) p m
      else if t = PSBT_IN_TAP_SCRIPT_SIG
      then insert_keyed in_tap_script_sigs in_tap_script_sigs_update (cmp_pair (xonly_cmp ops) cmp_bytes) (de_xonly_leaf ops) (de_tapsig ops) p m
      else if t = PSBT_IN_TAP_LEAF_SCRIPT
      then insert_keyed in_tap_scripts in_tap_scripts_update (cmp_cb ops) (de_cb ops) de_script_ver p m
      else if t = PSBT_IN_TAP_BIP32_DERIVATION
      then insert_keyed in_tap_key_origins in_tap_key_origins_update (xonly_cmp ops) (de_xonly ops) de_origins p m
      else if t = PSBT_IN_TAP_INTERNAL_KEY then insert_unkeyed in_tap_internal_key in_tap_internal_key_update (de_xonly ops) p m
      else if t = PSBT_IN_TAP_MERKLE_ROOT then insert_unkeyed in_tap_merkle_root in_tap_merkle_root_update (de_hash 32) p m
      else if t = PSBT_IN_PROPRIETARY then insert_proprietary in_proprietary in_proprietary_update p m
      else insert_unknown in_unknown in_unknown_update p m)"

definition input_pairs :: "PsbtOps \<Rightarrow> PsbtInput \<Rightarrow> RawPair list" where
  "input_pairs ops m =
     push_unkeyed (in_non_witness_utxo m) PSBT_IN_NON_WITNESS_UTXO (serialize enc_Transaction) @
     push_unkeyed (in_witness_utxo m) PSBT_IN_WITNESS_UTXO (serialize enc_TxOut) @
     push_map (in_partial_sigs m) PSBT_IN_PARTIAL_SIG (ser_pubkey ops) ser_ecdsa @
     push_unkeyed (in_sighash_type m) PSBT_IN_SIGHASH_TYPE ser_sighash_type @
     push_unkeyed (in_redeem_script m) PSBT_IN_REDEEM_SCRIPT ser_script @
     push_unkeyed (in_witness_script m) PSBT_IN_WITNESS_SCRIPT ser_script @
     push_map (in_bip32_derivation m) PSBT_IN_BIP32_DERIVATION ser_secp_pk ser_key_source @
     push_unkeyed (in_final_script_sig m) PSBT_IN_FINAL_SCRIPTSIG ser_script @
     push_unkeyed (in_final_script_witness m) PSBT_IN_FINAL_SCRIPTWITNESS (serialize enc_Witness) @
     push_map (in_ripemd160_preimages m) PSBT_IN_RIPEMD160 ser_hash ser_vec @
     push_map (in_sha256_preimages m) PSBT_IN_SHA256 ser_hash ser_vec @
     push_map (in_hash160_preimages m) PSBT_IN_HASH160 ser_hash ser_vec @
     push_map (in_hash256_preimages m) PSBT_IN_HASH256 ser_hash ser_vec @
     push_unkeyed (in_tap_key_sig m) PSBT_IN_TAP_KEY_SIG ser_tapsig @
     push_map (in_tap_script_sigs m) PSBT_IN_TAP_SCRIPT_SIG ser_xonly_leaf ser_tapsig @
     push_map (in_tap_scripts m) PSBT_IN_TAP_LEAF_SCRIPT ser_cb ser_script_ver @
     push_map (in_tap_key_origins m) PSBT_IN_TAP_BIP32_DERIVATION ser_xonly ser_origins @
     push_unkeyed (in_tap_internal_key m) PSBT_IN_TAP_INTERNAL_KEY ser_xonly @
     push_unkeyed (in_tap_merkle_root m) PSBT_IN_TAP_MERKLE_ROOT ser_hash @
     push_proprietary (in_proprietary m) @ push_unknown (in_unknown m)"

definition input_decode :: "PsbtOps \<Rightarrow> bytes \<Rightarrow> PsbtError + (PsbtInput \<times> bytes)" where
  "input_decode ops bs = decode_pairs (input_insert_pair ops) PsbtInput_default bs"

definition input_serialize :: "PsbtOps \<Rightarrow> PsbtInput \<Rightarrow> bytes" where "input_serialize ops m = serialize_map (input_pairs ops m)"

definition input_deserialize :: "PsbtOps \<Rightarrow> bytes \<Rightarrow> PsbtError + PsbtInput" where
  "input_deserialize ops bs = map_sum id fst (input_decode ops bs)"

definition input_combine :: "PsbtOps \<Rightarrow> PsbtInput \<Rightarrow> PsbtInput \<Rightarrow> PsbtInput" where
  "input_combine ops slf other =
     (let s1 = slf\<lparr> in_non_witness_utxo := combine_field (in_non_witness_utxo slf) (in_non_witness_utxo other) \<rparr>;
          s2 = (case (in_witness_utxo s1, in_witness_utxo other) of
                  (None, Some u) \<Rightarrow> s1\<lparr> in_witness_utxo := Some u, in_non_witness_utxo := None \<rparr>
                | _ \<Rightarrow> s1)
      in s2\<lparr>
        in_partial_sigs := bt_extend (cmp_pubkey ops) (in_partial_sigs s2) (in_partial_sigs other),
        in_bip32_derivation := bt_extend (secp_pk_cmp ops) (in_bip32_derivation s2) (in_bip32_derivation other),
        in_ripemd160_preimages := bt_extend cmp_bytes (in_ripemd160_preimages s2) (in_ripemd160_preimages other),
        in_sha256_preimages := bt_extend cmp_bytes (in_sha256_preimages s2) (in_sha256_preimages other),
        in_hash160_preimages := bt_extend cmp_bytes (in_hash160_preimages s2) (in_hash160_preimages other),
        in_hash256_preimages := bt_extend cmp_bytes (in_hash256_preimages s2) (in_hash256_preimages other),
        in_tap_script_sigs := bt_extend (cmp_pair (xonly_cmp ops) cmp_bytes) (in_tap_script_sigs s2) (in_tap_script_sigs other),
        in_tap_scripts := bt_extend (cmp_cb ops) (in_tap_scripts s2) (in_tap_scripts other),
        in_tap_key_origins := bt_extend (xonly_cmp ops) (in_tap_key_origins s2) (in_tap_key_origins other),
        in_proprietary := bt_extend cmp_proprietary (in_proprietary s2) (in_proprietary other),
        in_unknown := bt_extend cmp_raw_key (in_unknown s2) (in_unknown other),
        in_redeem_script := combine_field (in_redeem_script s2) (in_redeem_script other),
        in_witness_script := combine_field (in_witness_script s2) (in_witness_script other),
        in_final_script_sig := combine_field (in_final_script_sig s2) (in_final_script_sig other),
        in_final_script_witness := combine_field (in_final_script_witness s2) (in_final_script_witness other),
        in_tap_key_sig := combine_field (in_tap_key_sig s2) (in_tap_key_sig other),
        in_tap_internal_key := combine_field (in_tap_internal_key s2) (in_tap_internal_key other),
        in_tap_merkle_root := combine_field (in_tap_merkle_root s2) (in_tap_merkle_root other) \<rparr>)"

section \<open>Outputs\<close>

definition PSBT_OUT_REDEEM_SCRIPT :: u8 where "PSBT_OUT_REDEEM_SCRIPT = 0x00"
definition PSBT_OUT_WITNESS_SCRIPT :: u8 where "PSBT_OUT_WITNESS_SCRIPT = 0x01"
definition PSBT_OUT_BIP32_DERIVATION :: u8 where "PSBT_OUT_BIP32_DERIVATION = 0x02"
definition PSBT_OUT_TAP_INTERNAL_KEY :: u8 where "PSBT_OUT_TAP_INTERNAL_KEY = 0x05"
definition PSBT_OUT_TAP_TREE :: u8 where "PSBT_OUT_TAP_TREE = 0x06"
definition PSBT_OUT_TAP_BIP32_DERIVATION :: u8 where "PSBT_OUT_TAP_BIP32_DERIVATION = 0x07"
definition PSBT_OUT_PROPRIETARY :: u8 where "PSBT_OUT_PROPRIETARY = 0xFC"

lemmas psbt_out_consts =
  PSBT_OUT_REDEEM_SCRIPT_def PSBT_OUT_WITNESS_SCRIPT_def PSBT_OUT_BIP32_DERIVATION_def PSBT_OUT_TAP_INTERNAL_KEY_def
  PSBT_OUT_TAP_TREE_def PSBT_OUT_TAP_BIP32_DERIVATION_def PSBT_OUT_PROPRIETARY_def

record PsbtOutput =
  out_redeem_script :: "bytes option"
  out_witness_script :: "bytes option"
  out_bip32_derivation :: "(bytes, KeySource) btree"
  out_tap_internal_key :: "bytes option"
  out_tap_tree :: "NodeInfo option"
  out_tap_key_origins :: "(bytes, bytes list \<times> KeySource) btree"
  out_proprietary :: "(ProprietaryKey, bytes) btree"
  out_unknown :: "(RawKey, bytes) btree"

definition PsbtOutput_default :: PsbtOutput where
  "PsbtOutput_default = \<lparr> out_redeem_script = None, out_witness_script = None, out_bip32_derivation = [],
     out_tap_internal_key = None, out_tap_tree = None, out_tap_key_origins = [], out_proprietary = [],
     out_unknown = [] \<rparr>"

definition output_insert_pair :: "PsbtOps \<Rightarrow> RawPair \<Rightarrow> PsbtOutput \<Rightarrow> PsbtError + PsbtOutput" where
  "output_insert_pair ops p m =
     (let t = type_value (pair_key p)
      in if t = PSBT_OUT_REDEEM_SCRIPT then insert_unkeyed out_redeem_script out_redeem_script_update de_script p m
      else if t = PSBT_OUT_WITNESS_SCRIPT then insert_unkeyed out_witness_script out_witness_script_update de_script p m
      else if t = PSBT_OUT_BIP32_DERIVATION
      then insert_keyed out_bip32_derivation out_bip32_derivation_update (secp_pk_cmp ops) (de_secp_pk ops) de_key_source p m
      else if t = PSBT_OUT_PROPRIETARY then insert_proprietary out_proprietary out_proprietary_update p m
      else if t = PSBT_OUT_TAP_INTERNAL_KEY
      then insert_unkeyed out_tap_internal_key out_tap_internal_key_update (de_xonly ops) p m
      else if t = PSBT_OUT_TAP_TREE then insert_unkeyed out_tap_tree out_tap_tree_update de_taptree p m
      else if t = PSBT_OUT_TAP_BIP32_DERIVATION
      then insert_keyed out_tap_key_origins out_tap_key_origins_update (xonly_cmp ops) (de_xonly ops) de_origins p m
      else insert_unknown out_unknown out_unknown_update p m)"

definition output_pairs :: "PsbtOps \<Rightarrow> PsbtOutput \<Rightarrow> RawPair list" where
  "output_pairs ops m =
     push_unkeyed (out_redeem_script m) PSBT_OUT_REDEEM_SCRIPT ser_script @
     push_unkeyed (out_witness_script m) PSBT_OUT_WITNESS_SCRIPT ser_script @
     push_map (out_bip32_derivation m) PSBT_OUT_BIP32_DERIVATION ser_secp_pk ser_key_source @
     push_unkeyed (out_tap_internal_key m) PSBT_OUT_TAP_INTERNAL_KEY ser_xonly @
     push_unkeyed (out_tap_tree m) PSBT_OUT_TAP_TREE ser_taptree @
     push_map (out_tap_key_origins m) PSBT_OUT_TAP_BIP32_DERIVATION ser_xonly ser_origins @
     push_proprietary (out_proprietary m) @ push_unknown (out_unknown m)"

definition output_decode :: "PsbtOps \<Rightarrow> bytes \<Rightarrow> PsbtError + (PsbtOutput \<times> bytes)" where
  "output_decode ops bs = decode_pairs (output_insert_pair ops) PsbtOutput_default bs"

definition output_serialize :: "PsbtOps \<Rightarrow> PsbtOutput \<Rightarrow> bytes" where "output_serialize ops m = serialize_map (output_pairs ops m)"

definition output_deserialize :: "PsbtOps \<Rightarrow> bytes \<Rightarrow> PsbtError + PsbtOutput" where
  "output_deserialize ops bs = map_sum id fst (output_decode ops bs)"

definition output_combine :: "PsbtOps \<Rightarrow> PsbtOutput \<Rightarrow> PsbtOutput \<Rightarrow> PsbtOutput" where
  "output_combine ops slf other = slf\<lparr>
     out_bip32_derivation := bt_extend (secp_pk_cmp ops) (out_bip32_derivation slf) (out_bip32_derivation other),
     out_proprietary := bt_extend cmp_proprietary (out_proprietary slf) (out_proprietary other),
     out_unknown := bt_extend cmp_raw_key (out_unknown slf) (out_unknown other),
     out_tap_key_origins := bt_extend (xonly_cmp ops) (out_tap_key_origins slf) (out_tap_key_origins other),
     out_redeem_script := combine_field (out_redeem_script slf) (out_redeem_script other),
     out_witness_script := combine_field (out_witness_script slf) (out_witness_script other),
     out_tap_internal_key := combine_field (out_tap_internal_key slf) (out_tap_internal_key other),
     out_tap_tree := combine_field (out_tap_tree slf) (out_tap_tree other) \<rparr>"

section \<open>The global map\<close>

definition PSBT_GLOBAL_UNSIGNED_TX :: u8 where "PSBT_GLOBAL_UNSIGNED_TX = 0x00"
definition PSBT_GLOBAL_XPUB :: u8 where "PSBT_GLOBAL_XPUB = 0x01"
definition PSBT_GLOBAL_VERSION :: u8 where "PSBT_GLOBAL_VERSION = 0xFB"
definition PSBT_GLOBAL_PROPRIETARY :: u8 where "PSBT_GLOBAL_PROPRIETARY = 0xFC"

lemmas psbt_global_consts = PSBT_GLOBAL_UNSIGNED_TX_def PSBT_GLOBAL_XPUB_def PSBT_GLOBAL_VERSION_def PSBT_GLOBAL_PROPRIETARY_def

record Psbt =
  psbt_unsigned_tx :: Transaction
  psbt_version :: u32
  psbt_xpub :: "(Xpub, KeySource) btree"
  psbt_proprietary :: "(ProprietaryKey, bytes) btree"
  psbt_unknown :: "(RawKey, bytes) btree"
  psbt_inputs :: "PsbtInput list"
  psbt_outputs :: "PsbtOutput list"

fun cn_index :: "ChildNumber \<Rightarrow> u32" where
  "cn_index (Normal i) = i"
| "cn_index (Hardened i) = i"

definition cmp_xpub :: "PsbtOps \<Rightarrow> Xpub cmp" where
  "cmp_xpub ops =
     cmp_on (\<lambda>x. (xk_network x = Test, (xk_depth x, (parent_fingerprint x, ((is_hardened (child_number x), cn_index (child_number x)),
       (public_key x, chain_code x))))))
     (cmp_pair cmp_by (cmp_pair cmp_by (cmp_pair cmp_bytes (cmp_pair (cmp_pair cmp_by cmp_by) (cmp_pair (secp_pk_cmp ops) cmp_bytes)))))"

definition ser_unsigned_tx :: "Transaction \<Rightarrow> bytes" where
  "ser_unsigned_tx tx =
     serialize enc_Version (tx_version tx) @ serialize (enc_vec enc_TxIn) (tx_input tx) @ serialize (enc_vec enc_TxOut) (tx_output tx) @
     serialize enc_LockTime (lock_time tx)"

definition ser_xpub_source :: "KeySource \<Rightarrow> bytes" where
  "ser_xpub_source s = fst s @ concat (map (\<lambda>n. to_le_bytes (cn_to_u32 n)) (path_0 (snd s)))"

definition global_pairs :: "Psbt \<Rightarrow> RawPair list" where
  "global_pairs p =
     [mk_pair PSBT_GLOBAL_UNSIGNED_TX [] (ser_unsigned_tx (psbt_unsigned_tx p))] @
     map (\<lambda>(x, s). mk_pair PSBT_GLOBAL_XPUB (xpub_encode x) (ser_xpub_source s)) (psbt_xpub p) @
     (if psbt_version p > 0 then [mk_pair PSBT_GLOBAL_VERSION [] (to_le_bytes (psbt_version p))] else []) @
     push_proprietary (psbt_proprietary p) @ push_unknown (psbt_unknown p)"

text \<open>The local variables of the loop of \<open>decode_global\<close>.\<close>

record PsbtGlobal =
  g_tx :: "Transaction option"
  g_version :: "u32 option"
  g_unknown :: "(RawKey, bytes) btree"
  g_xpub :: "(Xpub, KeySource) btree"
  g_proprietary :: "(ProprietaryKey, bytes) btree"

definition PsbtGlobal_default :: PsbtGlobal where
  "PsbtGlobal_default = \<lparr> g_tx = None, g_version = None, g_unknown = [], g_xpub = [], g_proprietary = [] \<rparr>"

definition dec_unsigned_tx :: "Transaction decoder" where
  "dec_unsigned_tx =
     dbind dec_Version (\<lambda>v. dbind (consensus_decode (dec_vec dec_TxIn)) (\<lambda>ins. dbind (consensus_decode (dec_vec dec_TxOut)) (\<lambda>outs.
       dbind dec_LockTime (\<lambda>lt. dret \<lparr> tx_version = v, lock_time = lt, tx_input = ins, tx_output = outs \<rparr>))))"

definition de_unsigned_tx :: "bytes \<Rightarrow> PsbtError + Transaction" where
  "de_unsigned_tx bs =
     (case consensus_err (dec_unsigned_tx bs) of
        Inl e \<Rightarrow> Inl e | Inr (tx, rest) \<Rightarrow> if rest \<noteq> [] then Inl PartialDataConsumption else Inr tx)"

function read_indices :: "bytes \<Rightarrow> ChildNumber list" where
  "read_indices d = (case decode_int d of Inl _ \<Rightarrow> [] | Inr (index :: u32, d') \<Rightarrow> cn_from_u32 index # read_indices d')"
  by pat_completeness auto
termination
  by (relation "measure length") (auto dest!: u32_codec.canonical simp: encode_int_def)

declare read_indices.simps [simp del]

definition insert_xpub :: "PsbtOps \<Rightarrow> RawPair \<Rightarrow> PsbtGlobal \<Rightarrow> PsbtError + PsbtGlobal" where
  "insert_xpub ops p g =
     (if key_data (pair_key p) \<noteq> []
      then (case xpub_decode (op_keys ops) (key_data (pair_key p)) of
              Inl _ \<Rightarrow> Inl (XPubKey ''Can't deserialize ExtendedPublicKey from global XPUB key data'')
            | Inr xpub \<Rightarrow>
                if pair_value p = [] \<or> length (pair_value p) mod 4 \<noteq> 0
                then Inl (XPubKey ''Incorrect length of global xpub derivation data'')
                else (case read_slice 4 (pair_value p) of
                        Inl _ \<Rightarrow> Inl (XPubKey ''Can't read global xpub fingerprint'')
                      | Inr (fingerprint, d) \<Rightarrow>
                          (let derivation = DerivationPath (read_indices d)
                           in if bt_get (cmp_xpub ops) (g_xpub g) xpub \<noteq> None then Inl (XPubKey ''Repeated global xpub key'')
                              else Inr (g\<lparr> g_xpub := bt_insert (cmp_xpub ops) xpub (fingerprint, derivation) (g_xpub g) \<rparr>))))
      else Inl (XPubKey ''Xpub global key must contain serialized Xpub data''))"

definition de_version :: "bytes \<Rightarrow> PsbtError + u32" where
  "de_version bs =
     (if length bs \<noteq> 4 then Inl (VersionMsg ''invalid global version value length (must be 4 bytes)'')
      else (case consensus_err (decode_int bs) of
              Inl e \<Rightarrow> Inl e
            | Inr (v :: u32, _) \<Rightarrow>
                if v \<noteq> 0 then Inl (VersionMsg ''PSBT versions greater than 0 are not supported'') else Inr v))"

definition global_insert_pair :: "PsbtOps \<Rightarrow> RawPair \<Rightarrow> PsbtGlobal \<Rightarrow> PsbtError + PsbtGlobal" where
  "global_insert_pair ops p g =
     (let t = type_value (pair_key p)
      in if t = PSBT_GLOBAL_UNSIGNED_TX then insert_unkeyed g_tx g_tx_update de_unsigned_tx p g
      else if t = PSBT_GLOBAL_XPUB then insert_xpub ops p g
      else if t = PSBT_GLOBAL_VERSION then insert_unkeyed g_version g_version_update de_version p g
      else if t = PSBT_GLOBAL_PROPRIETARY then insert_proprietary g_proprietary g_proprietary_update p g
      else insert_unknown g_unknown g_unknown_update p g)"

definition decode_global :: "PsbtOps \<Rightarrow> bytes \<Rightarrow> PsbtError + (Psbt \<times> bytes)" where
  "decode_global ops bs =
     (case decode_pairs (global_insert_pair ops) PsbtGlobal_default (take MAX_VEC_SIZE bs) of
        Inl e \<Rightarrow> Inl e
      | Inr (g, r) \<Rightarrow>
          (case g_tx g of
             None \<Rightarrow> Inl MustHaveUnsignedTx
           | Some tx \<Rightarrow>
               Inr (\<lparr> psbt_unsigned_tx = tx, psbt_version = (case g_version g of Some v \<Rightarrow> v | None \<Rightarrow> 0), psbt_xpub = g_xpub g,
                       psbt_proprietary = g_proprietary g, psbt_unknown = g_unknown g, psbt_inputs = [], psbt_outputs = [] \<rparr>,
                    r @ drop MAX_VEC_SIZE bs)))"

section \<open>Sequences of pairs\<close>

fun ins_all :: "(RawPair \<Rightarrow> 'm \<Rightarrow> PsbtError + 'm) \<Rightarrow> RawPair list \<Rightarrow> 'm \<Rightarrow> PsbtError + 'm" where
  "ins_all ins [] m = Inr m"
| "ins_all ins (p # ps) m = (case ins p m of Inl e \<Rightarrow> Inl e | Inr m \<Rightarrow> ins_all ins ps m)"

lemma ins_all_append: "ins_all ins ps m = Inr m' \<Longrightarrow> ins_all ins (ps @ qs) m = ins_all ins qs m'"
  by (induction ps arbitrary: m) (auto split: sum.splits)

lemma decode_pairs_serialize:
  "list_all pair_ok ps \<Longrightarrow> ins_all ins ps m = Inr m' \<Longrightarrow> decode_pairs ins m (serialize_map ps @ rest) = Inr (m', rest)"
proof (induction ps arbitrary: m)
  case Nil
  have "pair_decode (0 # rest) = Inr (None, rest)" by (simp add: pair_decode_end)
  then show ?case using Nil by (subst decode_pairs.simps) (simp add: serialize_map_def)
next
  case (Cons p ps)
  then obtain m1 where m1: "ins p m = Inr m1" "ins_all ins ps m1 = Inr m'" by (auto split: sum.splits)
  have "pair_decode (serialize_map (p # ps) @ rest) = Inr (Some p, serialize_map ps @ rest)"
    using Cons.prems(1) by (simp add: pair_decode_iff serialize_map_def)
  then show ?case using Cons m1 by (subst decode_pairs.simps) simp
qed

lemma decode_pairs_sound:
  "decode_pairs ins m bs = Inr (m', rest) \<Longrightarrow> \<exists>ps. list_all pair_ok ps \<and> bs = serialize_map ps @ rest \<and> ins_all ins ps m = Inr m'"
proof (induction ins m bs rule: decode_pairs.induct)
  case (1 ins m bs)
  from 1(2) consider (stop) "pair_decode bs = Inr (None, rest)" "m' = m"
    | (pair) p r m1 where "pair_decode bs = Inr (Some p, r)" "ins p m = Inr m1" "decode_pairs ins m1 r = Inr (m', rest)"
    by (subst (asm) decode_pairs.simps) (auto split: sum.splits option.splits)
  then show ?case
  proof cases
    case stop
    then show ?thesis by (intro exI [of _ "[]"]) (simp add: pair_decode_end serialize_map_def)
  next
    case pair
    then obtain ps where "list_all pair_ok ps" "r = serialize_map ps @ rest" "ins_all ins ps m1 = Inr m'"
      using 1(1) [OF pair(1) refl refl pair(2) pair(3)] by blast
    then show ?thesis using pair by (intro exI [of _ "p # ps"]) (simp add: pair_decode_iff serialize_map_def)
  qed
qed

lemma ins_all_invariant:
  assumes "\<And>p m m'. I m \<Longrightarrow> pair_ok p \<Longrightarrow> ins p m = Inr m' \<Longrightarrow> I m'"
  shows "I m \<Longrightarrow> list_all pair_ok ps \<Longrightarrow> ins_all ins ps m = Inr m' \<Longrightarrow> I m'"
  by (induction ps arbitrary: m) (auto split: sum.splits intro: assms)

section \<open>One field\<close>

locale map_field =
  fixes get :: "'m \<Rightarrow> 'a" and upd :: "('m, 'a) updater"
  assumes get_upd: "get (upd f m) = f (get m)"
    and upd_upd: "upd f (upd g m) = upd (\<lambda>x. f (g x)) m"
    and upd_id: "upd (\<lambda>x. x) m = m"
    and upd_cong: "f (get m) = g (get m) \<Longrightarrow> upd f m = upd g m"
begin

lemma upd_same: "f (get m) = get m \<Longrightarrow> upd f m = m"
  using upd_cong [of f m "\<lambda>x. x"] by (simp add: upd_id)

end

definition opt_ok :: "('a \<Rightarrow> bool) \<Rightarrow> ('a \<Rightarrow> bytes) \<Rightarrow> 'a option \<Rightarrow> bool" where
  "opt_ok ok ser x = (case x of None \<Rightarrow> True | Some v \<Rightarrow> ok v \<and> value_fits (ser v))"

definition entries_ok :: "'k cmp \<Rightarrow> ('k \<Rightarrow> 'v \<Rightarrow> bool) \<Rightarrow> ('k, 'v) btree \<Rightarrow> bool" where
  "entries_ok c P m \<longleftrightarrow> bt_ok c m \<and> (\<forall>x \<in> set m. P (fst x) (snd x))"

definition kv_ok :: "('k \<Rightarrow> bool) \<Rightarrow> ('k \<Rightarrow> bytes) \<Rightarrow> ('v \<Rightarrow> bool) \<Rightarrow> ('v \<Rightarrow> bytes) \<Rightarrow> 'k \<Rightarrow> 'v \<Rightarrow> bool" where
  "kv_ok kok kser vok vser k v \<longleftrightarrow> kok k \<and> kser k \<noteq> [] \<and> key_fits (kser k) \<and> vok v \<and> value_fits (vser v)"

definition preimage_ok :: "nat \<Rightarrow> (bytes \<Rightarrow> bytes) \<Rightarrow> bytes \<Rightarrow> bytes \<Rightarrow> bool" where
  "preimage_ok n hash k v \<longleftrightarrow> length k = n \<and> hash v = k \<and> value_fits v"

definition proprietary_entry_ok :: "ProprietaryKey \<Rightarrow> bytes \<Rightarrow> bool" where
  "proprietary_entry_ok k v \<longleftrightarrow> proprietary_ok k \<and> key_fits (key_data (to_key k)) \<and> value_fits v"

definition unknown_entry_ok :: "u8 set \<Rightarrow> RawKey \<Rightarrow> bytes \<Rightarrow> bool" where
  "unknown_entry_ok known k v \<longleftrightarrow> type_value k \<notin> known \<and> key_fits (key_data k) \<and> value_fits v"

lemma size_fits: "length x \<le> max 73 (length y) \<Longrightarrow> key_fits y \<Longrightarrow> key_fits x"
  by (auto simp: key_fits_def MAX_VEC_SIZE_def le_max_iff_disj)

lemma value_fits_iff: "value_fits v \<longleftrightarrow> length v \<le> 3999995"
proof (cases "length v \<le> 4000000")
  case True
  then have u: "unat (word_of_nat (length v) :: u64) = length v" by (intro unat_len) simp
  have "varint_size (varint_of_len (length v)) = (if length v \<le> 0xFC then 1 else if length v \<le> 0xFFFF then 3 else 5)"
    using True by (simp add: varint_size_def word_le_nat_alt u)
  then have "length (fst (enc_with_size v)) = (if length v \<le> 0xFC then 1 else if length v \<le> 0xFFFF then 3 else 5) + length v"
    by (simp add: enc_with_size_def emit_slice_def flip: varint_size_eq)
  then show ?thesis by (auto simp: value_fits_def MAX_VEC_SIZE_def split: if_splits)
next
  case False
  then show ?thesis using enc_with_size_length [of v] by (simp add: value_fits_def MAX_VEC_SIZE_def)
qed

lemma value_size_fits: "length x \<le> max 73 (length y) \<Longrightarrow> value_fits y \<Longrightarrow> value_fits x"
  by (auto simp: value_fits_iff le_max_iff_disj)

subsection \<open>What is written is read back\<close>

lemma ins_all_entries:
  assumes "map_field get upd" "total_cmp c"
    and step: "\<And>k v m. (k, v) \<in> set xs \<Longrightarrow> bt_get c (get m) k = None \<Longrightarrow> ins (pr (k, v)) m = Inr (upd (bt_insert c k v) m)"
    and "bt_ok c xs" "get m = []"
  shows "ins_all ins (map pr xs) m = Inr (upd (\<lambda>_. xs) m)"
proof -
  have "set zs \<subseteq> set xs \<Longrightarrow> bt_ok c (ys @ zs) \<Longrightarrow> get m = ys \<Longrightarrow> ins_all ins (map pr zs) m = Inr (upd (\<lambda>_. ys @ zs) m)" for ys zs m
  proof (induction zs arbitrary: ys m)
    case Nil
    then show ?case using map_field.upd_same [OF assms(1), of "\<lambda>_. ys" m] by simp
  next
    case (Cons e zs)
    obtain k v where e: "e = (k, v)" by (cases e)
    have b: "\<forall>k' \<in> fst ` set ys. c k' k = Less" using Cons.prems(2) by (auto simp: bt_ok_def sorted_wrt_append e)
    have "c k k = Equal" using total_cmp.eq_iff [OF assms(2)] by simp
    then have "k \<notin> fst ` set ys" using b by force
    moreover have "bt_ok c ys" using Cons.prems(2) by (simp add: bt_ok_def sorted_wrt_append)
    ultimately have n: "bt_get c (get m) k = None" using Cons.prems(3) total_cmp.get_eq_None [OF assms(2)] by blast
    have "bt_insert c k v ys = ys @ [e]" using total_cmp.insert_last [OF assms(2) b] by (simp add: e)
    then have i: "ins (pr e) m = Inr (upd (\<lambda>_. ys @ [e]) m)"
      using step [OF _ n, of v] Cons.prems map_field.upd_cong [OF assms(1), of "bt_insert c k v" m "\<lambda>_. ys @ [e]"] by (simp add: e)
    have "ins_all ins (map pr zs) (upd (\<lambda>_. ys @ [e]) m) = Inr (upd (\<lambda>_. (ys @ [e]) @ zs) (upd (\<lambda>_. ys @ [e]) m))"
      using Cons.prems map_field.get_upd [OF assms(1)] by (intro Cons.IH) simp_all
    then show ?case using i map_field.upd_upd [OF assms(1)] by simp
  qed
  from this [of xs "[]" m] assms show ?thesis by simp
qed

lemma ins_all_unkeyed:
  assumes "map_field get upd" "psbt_value ser de ok"
    and ins: "\<And>p m. type_value (pair_key p) = t \<Longrightarrow> ins p m = insert_unkeyed get upd de p m"
    and "opt_ok ok ser x" "get m = None"
  shows "ins_all ins (push_unkeyed x t ser) m = Inr (upd (\<lambda>_. x) m)"
proof (cases x)
  case None
  then show ?thesis using assms(5) map_field.upd_same [OF assms(1), of "\<lambda>_. None" m] by (simp add: push_unkeyed_def)
next
  case (Some v)
  then have "de (ser v) = Inr v" using assms(4) psbt_value.de_ser [OF assms(2), of v] by (simp add: opt_ok_def)
  then show ?thesis using Some assms(5) ins by (simp add: push_unkeyed_def insert_unkeyed_def)
qed

lemma ins_all_keyed:
  assumes "map_field get upd" "total_cmp c" "psbt_value kser dek kok" "psbt_value vser dev vok"
    and ins: "\<And>p m. type_value (pair_key p) = t \<Longrightarrow> ins p m = insert_keyed get upd c dek dev p m"
    and ok: "entries_ok c (kv_ok kok kser vok vser) xs" and "get m = []"
  shows "ins_all ins (push_map xs t kser vser) m = Inr (upd (\<lambda>_. xs) m)"
  unfolding push_map_def
proof (rule ins_all_entries [OF assms(1,2)])
  fix k v m
  assume "(k, v) \<in> set xs" "bt_get c (get m) k = None"
  then show "ins (case (k, v) of (k, v) \<Rightarrow> mk_pair t (kser k) (vser v)) m = Inr (upd (bt_insert c k v) m)"
    using ok psbt_value.de_ser [OF assms(3), of k] psbt_value.de_ser [OF assms(4), of v] ins
    by (auto simp: entries_ok_def kv_ok_def insert_keyed_def)
qed (use assms in \<open>auto simp: entries_ok_def\<close>)

lemma ins_all_hash:
  assumes "map_field get upd" "0 < n"
    and ins: "\<And>p m. type_value (pair_key p) = t \<Longrightarrow> ins p m = insert_hash_pair get upd (de_hash n) hash kind p m"
    and ok: "entries_ok cmp_bytes (preimage_ok n hash) xs" and "get m = []"
  shows "ins_all ins (push_map xs t ser_hash ser_vec) m = Inr (upd (\<lambda>_. xs) m)"
  unfolding push_map_def
proof (rule ins_all_entries [OF assms(1) byte_cmp.total_cmp_axioms])
  fix k v m
  assume "(k, v) \<in> set xs" "bt_get cmp_bytes (get m) k = None"
  then show "ins (case (k, v) of (k, v) \<Rightarrow> mk_pair t (ser_hash k) (ser_vec v)) m = Inr (upd (bt_insert cmp_bytes k v) m)"
    using ok assms(2) ins
    by (auto simp: entries_ok_def preimage_ok_def insert_hash_pair_def ser_hash_def ser_vec_def de_hash_def de_vec_def)
qed (use assms in \<open>auto simp: entries_ok_def\<close>)

lemma ins_all_proprietary:
  assumes "map_field get upd"
    and ins: "\<And>p m. type_value (pair_key p) = 0xFC \<Longrightarrow> ins p m = insert_proprietary get upd p m"
    and ok: "entries_ok cmp_proprietary proprietary_entry_ok xs" and "get m = []"
  shows "ins_all ins (push_proprietary xs) m = Inr (upd (\<lambda>_. xs) m)"
  unfolding push_proprietary_def
proof (rule ins_all_entries [OF assms(1) proprietary_cmp.total_cmp_axioms])
  fix k v m
  assume k: "(k, v) \<in> set xs" "bt_get cmp_proprietary (get m) k = None"
  have "type_value (to_key k) = 0xFC" by (simp add: to_key_def)
  moreover have "proprietary_try_from (to_key k) = Inr k"
    using k(1) ok by (auto simp: proprietary_try_from_iff entries_ok_def proprietary_entry_ok_def)
  ultimately show "ins (case (k, v) of (k, v) \<Rightarrow> \<lparr> pair_key = to_key k, pair_value = v \<rparr>) m = Inr (upd (bt_insert cmp_proprietary k v) m)"
    using k ins by (simp add: insert_proprietary_def)
qed (use assms in \<open>auto simp: entries_ok_def\<close>)

lemma ins_all_unknown:
  assumes "map_field get upd"
    and ins: "\<And>p m. type_value (pair_key p) \<notin> known \<Longrightarrow> ins p m = insert_unknown get upd p m"
    and ok: "entries_ok cmp_raw_key (unknown_entry_ok known) xs" and "get m = []"
  shows "ins_all ins (push_unknown xs) m = Inr (upd (\<lambda>_. xs) m)"
  unfolding push_unknown_def
proof (rule ins_all_entries [OF assms(1) raw_key_cmp.total_cmp_axioms])
  fix k v m
  assume "(k, v) \<in> set xs" "bt_get cmp_raw_key (get m) k = None"
  then show "ins (case (k, v) of (k, v) \<Rightarrow> \<lparr> pair_key = k, pair_value = v \<rparr>) m = Inr (upd (bt_insert cmp_raw_key k v) m)"
    using ok ins by (auto simp: entries_ok_def unknown_entry_ok_def insert_unknown_def)
qed (use assms in \<open>auto simp: entries_ok_def\<close>)

subsection \<open>What is read is well-formed\<close>

lemma entries_ok_insert:
  assumes "total_cmp c" "entries_ok c P xs" "P k v"
  shows "entries_ok c P (bt_insert c k v xs)"
  using assms(2,3) total_cmp.insert_ok [OF assms(1)] total_cmp.insert_set_sub [OF assms(1), of k v xs]
  by (force simp: entries_ok_def)

lemma insert_unkeyed_sound:
  assumes "psbt_value ser de ok" "pair_ok p" "insert_unkeyed get upd de p m = Inr m'"
  shows "\<exists>x. opt_ok ok ser x \<and> m' = upd (\<lambda>_. x) m"
proof -
  obtain v where v: "de (pair_value p) = Inr v" "m' = upd (\<lambda>_. Some v) m"
    using assms(3) by (auto simp: insert_unkeyed_def Let_def split: if_splits option.splits sum.splits)
  then have "opt_ok ok ser (Some v)"
    using psbt_value.de_ok [OF assms(1) v(1)] psbt_value.de_size [OF assms(1) v(1)] assms(2) value_size_fits
    by (auto simp: opt_ok_def pair_ok_def)
  then show ?thesis using v(2) by blast
qed

lemma insert_keyed_sound:
  assumes "map_field get upd" "total_cmp c" "psbt_value kser dek kok" "psbt_value vser dev vok" "\<And>k. kok k \<Longrightarrow> kser k \<noteq> []"
    and "pair_ok p" "entries_ok c (kv_ok kok kser vok vser) (get m)" "insert_keyed get upd c dek dev p m = Inr m'"
  shows "\<exists>x. entries_ok c (kv_ok kok kser vok vser) x \<and> m' = upd (\<lambda>_. x) m"
proof -
  obtain k v where v: "dek (key_data (pair_key p)) = Inr k" "dev (pair_value p) = Inr v" "m' = upd (bt_insert c k v) m"
    using assms(8) by (auto simp: insert_keyed_def Let_def split: if_splits option.splits sum.splits)
  have "kv_ok kok kser vok vser k v"
    using psbt_value.de_ok [OF assms(3) v(1)] psbt_value.de_size [OF assms(3) v(1)] psbt_value.de_ok [OF assms(4) v(2)]
      psbt_value.de_size [OF assms(4) v(2)] assms(5,6) value_size_fits size_fits by (auto simp: kv_ok_def pair_ok_def)
  then have "entries_ok c (kv_ok kok kser vok vser) (bt_insert c k v (get m))" by (intro entries_ok_insert assms(2,7))
  moreover have "m' = upd (\<lambda>_. bt_insert c k v (get m)) m" unfolding v(3) by (rule map_field.upd_cong [OF assms(1)]) simp
  ultimately show ?thesis by blast
qed

lemma insert_hash_sound:
  assumes "map_field get upd" "pair_ok p" "entries_ok cmp_bytes (preimage_ok n hash) (get m)"
    and "insert_hash_pair get upd (de_hash n) hash kind p m = Inr m'"
  shows "\<exists>x. entries_ok cmp_bytes (preimage_ok n hash) x \<and> m' = upd (\<lambda>_. x) m"
proof -
  obtain k where k: "length k = n" "hash (pair_value p) = k" "m' = upd (bt_insert cmp_bytes k (pair_value p)) m"
    using assms(4) by (auto simp: insert_hash_pair_def de_hash_def de_vec_def Let_def split: if_splits option.splits sum.splits)
  then have "preimage_ok n hash k (pair_value p)" using assms(2) by (simp add: preimage_ok_def pair_ok_def)
  then have "entries_ok cmp_bytes (preimage_ok n hash) (bt_insert cmp_bytes k (pair_value p) (get m))"
    by (intro entries_ok_insert byte_cmp.total_cmp_axioms assms(3))
  moreover have "m' = upd (\<lambda>_. bt_insert cmp_bytes k (pair_value p) (get m)) m" unfolding k(3) by (rule map_field.upd_cong [OF assms(1)]) simp
  ultimately show ?thesis by blast
qed

lemma insert_proprietary_sound:
  assumes "map_field get upd" "pair_ok p" "entries_ok cmp_proprietary proprietary_entry_ok (get m)"
    and "insert_proprietary get upd p m = Inr m'"
  shows "\<exists>x. entries_ok cmp_proprietary proprietary_entry_ok x \<and> m' = upd (\<lambda>_. x) m"
proof -
  obtain k where k: "proprietary_ok k" "pair_key p = to_key k" "m' = upd (bt_insert cmp_proprietary k (pair_value p)) m"
    using assms(4) by (auto simp: insert_proprietary_def proprietary_try_from_iff split: option.splits sum.splits)
  then have "proprietary_entry_ok k (pair_value p)" using assms(2) by (simp add: proprietary_entry_ok_def pair_ok_def)
  then have "entries_ok cmp_proprietary proprietary_entry_ok (bt_insert cmp_proprietary k (pair_value p) (get m))"
    by (intro entries_ok_insert proprietary_cmp.total_cmp_axioms assms(3))
  moreover have "m' = upd (\<lambda>_. bt_insert cmp_proprietary k (pair_value p) (get m)) m" unfolding k(3) by (rule map_field.upd_cong [OF assms(1)]) simp
  ultimately show ?thesis by blast
qed

lemma insert_unknown_sound:
  assumes "map_field get upd" "pair_ok p" "type_value (pair_key p) \<notin> known" "entries_ok cmp_raw_key (unknown_entry_ok known) (get m)"
    and "insert_unknown get upd p m = Inr m'"
  shows "\<exists>x. entries_ok cmp_raw_key (unknown_entry_ok known) x \<and> m' = upd (\<lambda>_. x) m"
proof -
  have k: "m' = upd (bt_insert cmp_raw_key (pair_key p) (pair_value p)) m"
    using assms(5) by (auto simp: insert_unknown_def split: option.splits)
  have "unknown_entry_ok known (pair_key p) (pair_value p)" using assms(2,3) by (simp add: unknown_entry_ok_def pair_ok_def)
  then have "entries_ok cmp_raw_key (unknown_entry_ok known) (bt_insert cmp_raw_key (pair_key p) (pair_value p) (get m))"
    by (intro entries_ok_insert raw_key_cmp.total_cmp_axioms assms(4))
  moreover have "m' = upd (\<lambda>_. bt_insert cmp_raw_key (pair_key p) (pair_value p) (get m)) m" unfolding k by (rule map_field.upd_cong [OF assms(1)]) simp
  ultimately show ?thesis by blast
qed

end
