(* ===== verification/PsbtFormat.thy ===== *)
theory PsbtFormat
  imports PsbtMap
begin

text \<open>
  The format of the key-value maps is exact: for each of the three maps, a well-formed map is read back from what it writes, and
  what is read is well-formed. Each field has one step lemma, an instance of the lemmas about one field; the whole map follows by
  running the steps in the order of writing. The global map has a limit on its size, so that for it the bytes are counted too.
\<close>

section \<open>The fields of the maps\<close>

lemma input_fields:
  "map_field in_non_witness_utxo in_non_witness_utxo_update"
  "map_field in_witness_utxo in_witness_utxo_update"
  "map_field in_partial_sigs in_partial_sigs_update"
  "map_field in_sighash_type in_sighash_type_update"
  "map_field in_redeem_script in_redeem_script_update"
  "map_field in_witness_script in_witness_script_update"
  "map_field in_bip32_derivation in_bip32_derivation_update"
  "map_field in_final_script_sig in_final_script_sig_update"
  "map_field in_final_script_witness in_final_script_witness_update"
  "map_field in_ripemd160_preimages in_ripemd160_preimages_update"
  "map_field in_sha256_preimages in_sha256_preimages_update"
  "map_field in_hash160_preimages in_hash160_preimages_update"
  "map_field in_hash256_preimages in_hash256_preimages_update"
  "map_field in_tap_key_sig in_tap_key_sig_update"
  "map_field in_tap_script_sigs in_tap_script_sigs_update"
  "map_field in_tap_scripts in_tap_scripts_update"
  "map_field in_tap_key_origins in_tap_key_origins_update"
  "map_field in_tap_internal_key in_tap_internal_key_update"
  "map_field in_tap_merkle_root in_tap_merkle_root_update"
  "map_field in_proprietary in_proprietary_update"
  "map_field in_unknown in_unknown_update"
  by (unfold_locales; simp)+

lemma output_fields:
  "map_field out_redeem_script out_redeem_script_update"
  "map_field out_witness_script out_witness_script_update"
  "map_field out_bip32_derivation out_bip32_derivation_update"
  "map_field out_tap_internal_key out_tap_internal_key_update"
  "map_field out_tap_tree out_tap_tree_update"
  "map_field out_tap_key_origins out_tap_key_origins_update"
  "map_field out_proprietary out_proprietary_update"
  "map_field out_unknown out_unknown_update"
  by (unfold_locales; simp)+

lemma global_fields:
  "map_field g_tx g_tx_update" "map_field g_version g_version_update" "map_field g_unknown g_unknown_update"
  "map_field g_xpub g_xpub_update" "map_field g_proprietary g_proprietary_update"
  by (unfold_locales; simp)+

text \<open>One field of each map; the others are used through the lemmas above.\<close>

interpretation partial_sigs_field: map_field in_partial_sigs in_partial_sigs_update by (rule input_fields)
interpretation tap_tree_field: map_field out_tap_tree out_tap_tree_update by (rule output_fields)
interpretation xpub_field: map_field g_xpub g_xpub_update by (rule global_fields)

definition input_types :: "u8 set" where
  "input_types = {PSBT_IN_NON_WITNESS_UTXO, PSBT_IN_WITNESS_UTXO, PSBT_IN_PARTIAL_SIG, PSBT_IN_SIGHASH_TYPE,
     PSBT_IN_REDEEM_SCRIPT, PSBT_IN_WITNESS_SCRIPT, PSBT_IN_BIP32_DERIVATION, PSBT_IN_FINAL_SCRIPTSIG,
     PSBT_IN_FINAL_SCRIPTWITNESS, PSBT_IN_RIPEMD160, PSBT_IN_SHA256, PSBT_IN_HASH160,
     PSBT_IN_HASH256, PSBT_IN_TAP_KEY_SIG, PSBT_IN_TAP_SCRIPT_SIG, PSBT_IN_TAP_LEAF_SCRIPT,
     PSBT_IN_TAP_BIP32_DERIVATION, PSBT_IN_TAP_INTERNAL_KEY, PSBT_IN_TAP_MERKLE_ROOT, PSBT_IN_PROPRIETARY}"

definition input_ok :: "PsbtOps \<Rightarrow> PsbtInput \<Rightarrow> bool" where
  "input_ok ops m \<longleftrightarrow>
     opt_ok tx_ok (serialize enc_Transaction) (in_non_witness_utxo m) \<and>
     opt_ok txout_ok (serialize enc_TxOut) (in_witness_utxo m) \<and>
     entries_ok (cmp_pubkey ops) (kv_ok (pubkey_ok ops) (ser_pubkey ops) (ecdsa_ok ops) ser_ecdsa) (in_partial_sigs m) \<and>
     opt_ok (\<lambda>_. True) ser_sighash_type (in_sighash_type m) \<and>
     opt_ok (\<lambda>_. True) ser_script (in_redeem_script m) \<and>
     opt_ok (\<lambda>_. True) ser_script (in_witness_script m) \<and>
     entries_ok (secp_pk_cmp ops) (kv_ok (secp_pk_ok ops) ser_secp_pk key_source_ok ser_key_source) (in_bip32_derivation m) \<and>
     opt_ok (\<lambda>_. True) ser_script (in_final_script_sig m) \<and>
     opt_ok witness_ok (serialize enc_Witness) (in_final_script_witness m) \<and>
     entries_ok cmp_bytes (preimage_ok 20 ripemd160_hash) (in_ripemd160_preimages m) \<and>
     entries_ok cmp_bytes (preimage_ok 32 sha256_hash) (in_sha256_preimages m) \<and>
     entries_ok cmp_bytes (preimage_ok 20 hash160_hash) (in_hash160_preimages m) \<and>
     entries_ok cmp_bytes (preimage_ok 32 sha256d_hash) (in_hash256_preimages m) \<and>
     opt_ok (tapsig_ok ops) ser_tapsig (in_tap_key_sig m) \<and>
     entries_ok (cmp_pair (xonly_cmp ops) cmp_bytes) (kv_ok (xonly_leaf_ok ops) ser_xonly_leaf (tapsig_ok ops) ser_tapsig) (in_tap_script_sigs m) \<and>
     entries_ok (cmp_cb ops) (kv_ok (cb_ok (op_secp ops)) ser_cb (\<lambda>x. leafver_ok (snd x)) ser_script_ver) (in_tap_scripts m) \<and>
     entries_ok (xonly_cmp ops) (kv_ok (xonly_ok ops) ser_xonly origins_ok ser_origins) (in_tap_key_origins m) \<and>
     opt_ok (xonly_ok ops) ser_xonly (in_tap_internal_key m) \<and>
     opt_ok (\<lambda>h. length h = 32) ser_hash (in_tap_merkle_root m) \<and>
     entries_ok cmp_proprietary proprietary_entry_ok (in_proprietary m) \<and>
     entries_ok cmp_raw_key (unknown_entry_ok input_types) (in_unknown m)"

definition output_types :: "u8 set" where
  "output_types = {PSBT_OUT_REDEEM_SCRIPT, PSBT_OUT_WITNESS_SCRIPT, PSBT_OUT_BIP32_DERIVATION, PSBT_OUT_TAP_INTERNAL_KEY,
     PSBT_OUT_TAP_TREE, PSBT_OUT_TAP_BIP32_DERIVATION, PSBT_OUT_PROPRIETARY}"

definition output_ok :: "PsbtOps \<Rightarrow> PsbtOutput \<Rightarrow> bool" where
  "output_ok ops m \<longleftrightarrow>
     opt_ok (\<lambda>_. True) ser_script (out_redeem_script m) \<and>
     opt_ok (\<lambda>_. True) ser_script (out_witness_script m) \<and>
     entries_ok (secp_pk_cmp ops) (kv_ok (secp_pk_ok ops) ser_secp_pk key_source_ok ser_key_source) (out_bip32_derivation m) \<and>
     opt_ok (xonly_ok ops) ser_xonly (out_tap_internal_key m) \<and>
     opt_ok taptree_ok ser_taptree (out_tap_tree m) \<and>
     entries_ok (xonly_cmp ops) (kv_ok (xonly_ok ops) ser_xonly origins_ok ser_origins) (out_tap_key_origins m) \<and>
     entries_ok cmp_proprietary proprietary_entry_ok (out_proprietary m) \<and>
     entries_ok cmp_raw_key (unknown_entry_ok output_types) (out_unknown m)"

lemma key_nonempty:
  assumes "psbt_ops_ok ops"
  shows "pubkey_ok ops k \<Longrightarrow> ser_pubkey ops k \<noteq> []" "secp_pk_ok ops b \<Longrightarrow> ser_secp_pk b \<noteq> []" "xonly_ok ops b \<Longrightarrow> ser_xonly b \<noteq> []"
    "xonly_leaf_ok ops x \<Longrightarrow> ser_xonly_leaf x \<noteq> []" "ser_cb cb \<noteq> []"
proof -
  show "ser_pubkey ops k \<noteq> []" if "pubkey_ok ops k"
    using pubkey_bytes_length [OF assms that] by (auto simp: ser_pubkey_def split: if_splits)
  show "ser_secp_pk b \<noteq> []" if "secp_pk_ok ops b"
    using that pk_facts(1) [OF assms, of b b] by (auto simp: secp_pk_ok_def ser_secp_pk_def)
  show "ser_xonly b \<noteq> []" if "xonly_ok ops b"
    using that xonly_length [OF assms, of b] by (auto simp: xonly_ok_def ser_xonly_def)
  show "ser_xonly_leaf x \<noteq> []" if "xonly_leaf_ok ops x"
    using that by (auto simp: xonly_leaf_ok_def ser_xonly_leaf_def)
  show "ser_cb cb \<noteq> []" by (simp add: ser_cb_def cb_serialize_def cb_encode_def Let_def)
qed

lemmas plain_values = tx_value.psbt_value_axioms txout_value.psbt_value_axioms witness_value.psbt_value_axioms hash20_value.psbt_value_axioms
  hash32_value.psbt_value_axioms script_value.psbt_value_axioms sighash_type_value.psbt_value_axioms script_ver_value.psbt_value_axioms
  key_source_value.psbt_value_axioms origins_value.psbt_value_axioms taptree_value.psbt_value_axioms

lemmas lib_values = secp_pk_value pubkey_value xonly_value xonly_leaf_value ecdsa_value tapsig_value cb_value

lemma input_steps:
  assumes "psbt_ops_ok ops"
  shows
    "opt_ok tx_ok (serialize enc_Transaction) x0 \<Longrightarrow> in_non_witness_utxo m = None \<Longrightarrow>
      ins_all (input_insert_pair ops) (push_unkeyed x0 PSBT_IN_NON_WITNESS_UTXO (serialize enc_Transaction)) m = Inr (in_non_witness_utxo_update (\<lambda>_. x0) m)"
    "opt_ok txout_ok (serialize enc_TxOut) x1 \<Longrightarrow> in_witness_utxo m = None \<Longrightarrow>
      ins_all (input_insert_pair ops) (push_unkeyed x1 PSBT_IN_WITNESS_UTXO (serialize enc_TxOut)) m = Inr (in_witness_utxo_update (\<lambda>_. x1) m)"
    "entries_ok (cmp_pubkey ops) (kv_ok (pubkey_ok ops) (ser_pubkey ops) (ecdsa_ok ops) ser_ecdsa) x2 \<Longrightarrow> in_partial_sigs m = [] \<Longrightarrow>
      ins_all (input_insert_pair ops) (push_map x2 PSBT_IN_PARTIAL_SIG (ser_pubkey ops) ser_ecdsa) m = Inr (in_partial_sigs_update (\<lambda>_. x2) m)"
    "opt_ok (\<lambda>_. True) ser_sighash_type x3 \<Longrightarrow> in_sighash_type m = None \<Longrightarrow>
      ins_all (input_insert_pair ops) (push_unkeyed x3 PSBT_IN_SIGHASH_TYPE ser_sighash_type) m = Inr (in_sighash_type_update (\<lambda>_. x3) m)"
    "opt_ok (\<lambda>_. True) ser_script x4 \<Longrightarrow> in_redeem_script m = None \<Longrightarrow>
      ins_all (input_insert_pair ops) (push_unkeyed x4 PSBT_IN_REDEEM_SCRIPT ser_script) m = Inr (in_redeem_script_update (\<lambda>_. x4) m)"
    "opt_ok (\<lambda>_. True) ser_script x5 \<Longrightarrow> in_witness_script m = None \<Longrightarrow>
      ins_all (input_insert_pair ops) (push_unkeyed x5 PSBT_IN_WITNESS_SCRIPT ser_script) m = Inr (in_witness_script_update (\<lambda>_. x5) m)"
    "entries_ok (secp_pk_cmp ops) (kv_ok (secp_pk_ok ops) ser_secp_pk key_source_ok ser_key_source) x6 \<Longrightarrow> in_bip32_derivation m = [] \<Longrightarrow>
      ins_all (input_insert_pair ops) (push_map x6 PSBT_IN_BIP32_DERIVATION ser_secp_pk ser_key_source) m = Inr (in_bip32_derivation_update (\<lambda>_. x6) m)"
    "opt_ok (\<lambda>_. True) ser_script x7 \<Longrightarrow> in_final_script_sig m = None \<Longrightarrow>
      ins_all (input_insert_pair ops) (push_unkeyed x7 PSBT_IN_FINAL_SCRIPTSIG ser_script) m = Inr (in_final_script_sig_update (\<lambda>_. x7) m)"
    "opt_ok witness_ok (serialize enc_Witness) x8 \<Longrightarrow> in_final_script_witness m = None \<Longrightarrow>
      ins_all (input_insert_pair ops) (push_unkeyed x8 PSBT_IN_FINAL_SCRIPTWITNESS (serialize enc_Witness)) m = Inr (in_final_script_witness_update (\<lambda>_. x8) m)"
    "entries_ok cmp_bytes (preimage_ok 20 ripemd160_hash) x9 \<Longrightarrow> in_ripemd160_preimages m = [] \<Longrightarrow>
      ins_all (input_insert_pair ops) (push_map x9 PSBT_IN_RIPEMD160 ser_hash ser_vec) m = Inr (in_ripemd160_preimages_update (\<lambda>_. x9) m)"
    "entries_ok cmp_bytes (preimage_ok 32 sha256_hash) x10 \<Longrightarrow> in_sha256_preimages m = [] \<Longrightarrow>
      ins_all (input_insert_pair ops) (push_map x10 PSBT_IN_SHA256 ser_hash ser_vec) m = Inr (in_sha256_preimages_update (\<lambda>_. x10) m)"
    "entries_ok cmp_bytes (preimage_ok 20 hash160_hash) x11 \<Longrightarrow> in_hash160_preimages m = [] \<Longrightarrow>
      ins_all (input_insert_pair ops) (push_map x11 PSBT_IN_HASH160 ser_hash ser_vec) m = Inr (in_hash160_preimages_update (\<lambda>_. x11) m)"
    "entries_ok cmp_bytes (preimage_ok 32 sha256d_hash) x12 \<Longrightarrow> in_hash256_preimages m = [] \<Longrightarrow>
      ins_all (input_insert_pair ops) (push_map x12 PSBT_IN_HASH256 ser_hash ser_vec) m = Inr (in_hash256_preimages_update (\<lambda>_. x12) m)"
    "opt_ok (tapsig_ok ops) ser_tapsig x13 \<Longrightarrow> in_tap_key_sig m = None \<Longrightarrow>
      ins_all (input_insert_pair ops) (push_unkeyed x13 PSBT_IN_TAP_KEY_SIG ser_tapsig) m = Inr (in_tap_key_sig_update (\<lambda>_. x13) m)"
    "entries_ok (cmp_pair (xonly_cmp ops) cmp_bytes) (kv_ok (xonly_leaf_ok ops) ser_xonly_leaf (tapsig_ok ops) ser_tapsig) x14 \<Longrightarrow> in_tap_script_sigs m = [] \<Longrightarrow>
      ins_all (input_insert_pair ops) (push_map x14 PSBT_IN_TAP_SCRIPT_SIG ser_xonly_leaf ser_tapsig) m = Inr (in_tap_script_sigs_update (\<lambda>_. x14) m)"
    "entries_ok (cmp_cb ops) (kv_ok (cb_ok (op_secp ops)) ser_cb (\<lambda>x. leafver_ok (snd x)) ser_script_ver) x15 \<Longrightarrow> in_tap_scripts m = [] \<Longrightarrow>
      ins_all (input_insert_pair ops) (push_map x15 PSBT_IN_TAP_LEAF_SCRIPT ser_cb ser_script_ver) m = Inr (in_tap_scripts_update (\<lambda>_. x15) m)"
    "entries_ok (xonly_cmp ops) (kv_ok (xonly_ok ops) ser_xonly origins_ok ser_origins) x16 \<Longrightarrow> in_tap_key_origins m = [] \<Longrightarrow>
      ins_all (input_insert_pair ops) (push_map x16 PSBT_IN_TAP_BIP32_DERIVATION ser_xonly ser_origins) m = Inr (in_tap_key_origins_update (\<lambda>_. x16) m)"
    "opt_ok (xonly_ok ops) ser_xonly x17 \<Longrightarrow> in_tap_internal_key m = None \<Longrightarrow>
      ins_all (input_insert_pair ops) (push_unkeyed x17 PSBT_IN_TAP_INTERNAL_KEY ser_xonly) m = Inr (in_tap_internal_key_update (\<lambda>_. x17) m)"
    "opt_ok (\<lambda>h. length h = 32) ser_hash x18 \<Longrightarrow> in_tap_merkle_root m = None \<Longrightarrow>
      ins_all (input_insert_pair ops) (push_unkeyed x18 PSBT_IN_TAP_MERKLE_ROOT ser_hash) m = Inr (in_tap_merkle_root_update (\<lambda>_. x18) m)"
    "entries_ok cmp_proprietary proprietary_entry_ok y \<Longrightarrow> in_proprietary m = [] \<Longrightarrow>
      ins_all (input_insert_pair ops) (push_proprietary y) m = Inr (in_proprietary_update (\<lambda>_. y) m)"
    "entries_ok cmp_raw_key (unknown_entry_ok input_types) z \<Longrightarrow> in_unknown m = [] \<Longrightarrow>
      ins_all (input_insert_pair ops) (push_unknown z) m = Inr (in_unknown_update (\<lambda>_. z) m)"
  by (rule ins_all_unkeyed ins_all_hash ins_all_keyed ins_all_proprietary ins_all_unknown, rule input_fields;
    (assumption | simp add: input_insert_pair_def psbt_in_consts input_types_def | intro psbt_cmps [OF assms] plain_values lib_values assms))+

lemma output_steps:
  assumes "psbt_ops_ok ops"
  shows
    "opt_ok (\<lambda>_. True) ser_script x0 \<Longrightarrow> out_redeem_script m = None \<Longrightarrow>
      ins_all (output_insert_pair ops) (push_unkeyed x0 PSBT_OUT_REDEEM_SCRIPT ser_script) m = Inr (out_redeem_script_update (\<lambda>_. x0) m)"
    "opt_ok (\<lambda>_. True) ser_script x1 \<Longrightarrow> out_witness_script m = None \<Longrightarrow>
      ins_all (output_insert_pair ops) (push_unkeyed x1 PSBT_OUT_WITNESS_SCRIPT ser_script) m = Inr (out_witness_script_update (\<lambda>_. x1) m)"
    "entries_ok (secp_pk_cmp ops) (kv_ok (secp_pk_ok ops) ser_secp_pk key_source_ok ser_key_source) x2 \<Longrightarrow> out_bip32_derivation m = [] \<Longrightarrow>
      ins_all (output_insert_pair ops) (push_map x2 PSBT_OUT_BIP32_DERIVATION ser_secp_pk ser_key_source) m = Inr (out_bip32_derivation_update (\<lambda>_. x2) m)"
    "opt_ok (xonly_ok ops) ser_xonly x3 \<Longrightarrow> out_tap_internal_key m = None \<Longrightarrow>
      ins_all (output_insert_pair ops) (push_unkeyed x3 PSBT_OUT_TAP_INTERNAL_KEY ser_xonly) m = Inr (out_tap_internal_key_update (\<lambda>_. x3) m)"
    "opt_ok taptree_ok ser_taptree x4 \<Longrightarrow> out_tap_tree m = None \<Longrightarrow>
      ins_all (output_insert_pair ops) (push_unkeyed x4 PSBT_OUT_TAP_TREE ser_taptree) m = Inr (out_tap_tree_update (\<lambda>_. x4) m)"
    "entries_ok (xonly_cmp ops) (kv_ok (xonly_ok ops) ser_xonly origins_ok ser_origins) x5 \<Longrightarrow> out_tap_key_origins m = [] \<Longrightarrow>
      ins_all (output_insert_pair ops) (push_map x5 PSBT_OUT_TAP_BIP32_DERIVATION ser_xonly ser_origins) m = Inr (out_tap_key_origins_update (\<lambda>_. x5) m)"
    "entries_ok cmp_proprietary proprietary_entry_ok y \<Longrightarrow> out_proprietary m = [] \<Longrightarrow>
      ins_all (output_insert_pair ops) (push_proprietary y) m = Inr (out_proprietary_update (\<lambda>_. y) m)"
    "entries_ok cmp_raw_key (unknown_entry_ok output_types) z \<Longrightarrow> out_unknown m = [] \<Longrightarrow>
      ins_all (output_insert_pair ops) (push_unknown z) m = Inr (out_unknown_update (\<lambda>_. z) m)"
  by (rule ins_all_unkeyed ins_all_hash ins_all_keyed ins_all_proprietary ins_all_unknown, rule output_fields;
    (assumption | simp add: output_insert_pair_def psbt_out_consts output_types_def | intro psbt_cmps [OF assms] plain_values lib_values assms))+

section \<open>Maps are read back\<close>

lemma ins_all_append_eq: "ins_all ins (ps @ qs) m = (case ins_all ins ps m of Inl e \<Rightarrow> Inl e | Inr m \<Rightarrow> ins_all ins qs m)"
  by (induction ps arbitrary: m) (auto split: sum.splits)

lemma pairs_ok_unkeyed: "opt_ok ok ser x \<Longrightarrow> list_all pair_ok (push_unkeyed x t ser)"
  by (auto simp: push_unkeyed_def opt_ok_def pair_ok_def key_fits_def split: option.splits)

lemma pairs_ok_keyed: "entries_ok c (kv_ok kok kser vok vser) xs \<Longrightarrow> list_all pair_ok (push_map xs t kser vser)"
  by (auto simp: push_map_def entries_ok_def kv_ok_def pair_ok_def list_all_iff)

lemma pairs_ok_hash: "entries_ok c (preimage_ok n hash) xs \<Longrightarrow> n \<le> MAX_VEC_SIZE \<Longrightarrow> list_all pair_ok (push_map xs t ser_hash ser_vec)"
  by (auto simp: push_map_def entries_ok_def preimage_ok_def pair_ok_def list_all_iff ser_hash_def ser_vec_def key_fits_def)

lemma pairs_ok_proprietary: "entries_ok c proprietary_entry_ok xs \<Longrightarrow> list_all pair_ok (push_proprietary xs)"
  by (auto simp: push_proprietary_def entries_ok_def proprietary_entry_ok_def pair_ok_def list_all_iff)

lemma pairs_ok_unknown: "entries_ok c (unknown_entry_ok known) xs \<Longrightarrow> list_all pair_ok (push_unknown xs)"
  by (auto simp: push_unknown_def entries_ok_def unknown_entry_ok_def pair_ok_def list_all_iff)

lemmas pairs_ok_push = pairs_ok_unkeyed pairs_ok_keyed pairs_ok_hash pairs_ok_proprietary pairs_ok_unknown

lemma input_pairs_ok: "input_ok ops m \<Longrightarrow> list_all pair_ok (input_pairs ops m)"
  unfolding input_ok_def input_pairs_def by (auto simp: MAX_VEC_SIZE_def intro: pairs_ok_push)

lemma output_pairs_ok: "output_ok ops m \<Longrightarrow> list_all pair_ok (output_pairs ops m)"
  unfolding output_ok_def output_pairs_def by (auto intro: pairs_ok_push)

lemma input_pairs_inserted:
  assumes "psbt_ops_ok ops" "input_ok ops m"
  shows "ins_all (input_insert_pair ops) (input_pairs ops m) PsbtInput_default = Inr m"
  using assms(2) unfolding input_pairs_def input_ok_def
  by (simp add: ins_all_append_eq input_steps [OF assms(1)] PsbtInput_default_def)

lemma output_pairs_inserted:
  assumes "psbt_ops_ok ops" "output_ok ops m"
  shows "ins_all (output_insert_pair ops) (output_pairs ops m) PsbtOutput_default = Inr m"
  using assms(2) unfolding output_pairs_def output_ok_def
  by (simp add: ins_all_append_eq output_steps [OF assms(1)] PsbtOutput_default_def)

section \<open>Maps that are read are well-formed\<close>

lemma insert_unkeyed_E:
  assumes "insert_unkeyed get upd de p m = Inr m'" "psbt_value ser de ok" "pair_ok p"
  obtains x where "opt_ok ok ser x" "m' = upd (\<lambda>_. x) m"
  using insert_unkeyed_sound [OF assms(2,3,1)] by blast

lemma insert_keyed_E:
  assumes "insert_keyed get upd c dek dev p m = Inr m'" "map_field get upd" "total_cmp c" "psbt_value kser dek kok" "psbt_value vser dev vok"
    "\<And>k. kok k \<Longrightarrow> kser k \<noteq> []" "pair_ok p" "entries_ok c (kv_ok kok kser vok vser) (get m)"
  obtains x where "entries_ok c (kv_ok kok kser vok vser) x" "m' = upd (\<lambda>_. x) m"
  using insert_keyed_sound [OF assms(2-8,1)] by blast

lemma insert_hash_E:
  assumes "insert_hash_pair get upd (de_hash n) hash kind p m = Inr m'" "map_field get upd" "pair_ok p" "entries_ok cmp_bytes (preimage_ok n hash) (get m)"
  obtains x where "entries_ok cmp_bytes (preimage_ok n hash) x" "m' = upd (\<lambda>_. x) m"
  using insert_hash_sound [OF assms(2-4,1)] by blast

lemma insert_proprietary_E:
  assumes "insert_proprietary get upd p m = Inr m'" "map_field get upd" "pair_ok p" "entries_ok cmp_proprietary proprietary_entry_ok (get m)"
  obtains x where "entries_ok cmp_proprietary proprietary_entry_ok x" "m' = upd (\<lambda>_. x) m"
  using insert_proprietary_sound [OF assms(2-4,1)] by blast

lemma insert_unknown_E:
  assumes "insert_unknown get upd p m = Inr m'" "map_field get upd" "pair_ok p" "type_value (pair_key p) \<notin> known"
    "entries_ok cmp_raw_key (unknown_entry_ok known) (get m)"
  obtains x where "entries_ok cmp_raw_key (unknown_entry_ok known) x" "m' = upd (\<lambda>_. x) m"
  using insert_unknown_sound [OF assms(2-5,1)] by blast

lemma output_insert_ok:
  assumes "psbt_ops_ok ops" "output_ok ops m" "pair_ok p" "output_insert_pair ops p m = Inr m'"
  shows "output_ok ops m'"
  using assms(4) unfolding output_insert_pair_def Let_def
  by (simp only: split: if_split_asm)
    ((erule insert_unkeyed_E insert_hash_E insert_keyed_E insert_proprietary_E insert_unknown_E,
      (rule output_fields | rule psbt_cmps [OF assms(1)] | rule plain_values lib_values assms(1) | erule key_nonempty [OF assms(1)] | rule key_nonempty(5) [OF assms(1)] assms(3))+;
      use assms(2) in \<open>simp add: output_ok_def output_types_def\<close>)+)

lemma input_insert_ok:
  assumes "psbt_ops_ok ops" "input_ok ops m" "pair_ok p" "input_insert_pair ops p m = Inr m'"
  shows "input_ok ops m'"
  using assms(4) unfolding input_insert_pair_def Let_def
  by (simp only: split: if_split_asm)
    ((erule insert_unkeyed_E insert_hash_E insert_keyed_E insert_proprietary_E insert_unknown_E,
      (rule input_fields | rule psbt_cmps [OF assms(1)] | rule plain_values lib_values assms(1) | erule key_nonempty [OF assms(1)] | rule key_nonempty(5) [OF assms(1)] assms(3))+;
      use assms(2) in \<open>simp add: input_ok_def input_types_def\<close>)+)

lemma default_maps_ok: "input_ok ops PsbtInput_default" "output_ok ops PsbtOutput_default"
  by (simp_all add: input_ok_def output_ok_def PsbtInput_default_def PsbtOutput_default_def opt_ok_def entries_ok_def bt_ok_def)

text \<open>A map type is read from exactly the bytes of pairs whose insertion succeeds; what is written is read back, and what is read
  is well-formed.\<close>

lemma input_decode_serialize:
  assumes "psbt_ops_ok ops" "input_ok ops m"
  shows "input_decode ops (input_serialize ops m @ rest) = Inr (m, rest)"
  unfolding input_decode_def input_serialize_def
  by (rule decode_pairs_serialize [OF input_pairs_ok [OF assms(2)] input_pairs_inserted [OF assms]])

lemma output_decode_serialize:
  assumes "psbt_ops_ok ops" "output_ok ops m"
  shows "output_decode ops (output_serialize ops m @ rest) = Inr (m, rest)"
  unfolding output_decode_def output_serialize_def
  by (rule decode_pairs_serialize [OF output_pairs_ok [OF assms(2)] output_pairs_inserted [OF assms]])

lemma decode_pairs_invariant:
  assumes "\<And>p m m'. I m \<Longrightarrow> pair_ok p \<Longrightarrow> ins p m = Inr m' \<Longrightarrow> I m'" "I m" "decode_pairs ins m bs = Inr (m', rest)"
  shows "I m'"
proof -
  obtain ps where "list_all pair_ok ps" "ins_all ins ps m = Inr m'" using decode_pairs_sound [OF assms(3)] by blast
  then show ?thesis using assms(1,2) by (intro ins_all_invariant [of I ins m ps m']) auto
qed

lemma input_decode_ok: "psbt_ops_ok ops \<Longrightarrow> input_decode ops bs = Inr (m, rest) \<Longrightarrow> input_ok ops m"
  unfolding input_decode_def by (rule decode_pairs_invariant) (auto intro: input_insert_ok default_maps_ok)

lemma output_decode_ok: "psbt_ops_ok ops \<Longrightarrow> output_decode ops bs = Inr (m, rest) \<Longrightarrow> output_ok ops m"
  unfolding output_decode_def by (rule decode_pairs_invariant) (auto intro: output_insert_ok default_maps_ok)

section \<open>The global map\<close>

definition unsigned_tx_ok :: "Transaction \<Rightarrow> bool" where
  "unsigned_tx_ok tx \<longleftrightarrow>
     vec_ok txin_core_ok (tx_input tx) \<and> length (fst (enc_vec enc_TxIn (tx_input tx))) \<le> MAX_VEC_SIZE \<and>
     vec_ok txout_ok (tx_output tx) \<and> length (fst (enc_vec enc_TxOut (tx_output tx))) \<le> MAX_VEC_SIZE \<and> lt_ok (lock_time tx)"

lemma txins_limited:
  "codec (enc_vec enc_TxIn) (consensus_decode (dec_vec dec_TxIn)) (\<lambda>x. vec_ok txin_core_ok x \<and> length (fst (enc_vec enc_TxIn x)) \<le> MAX_VEC_SIZE)"
  "codec (enc_vec enc_TxOut) (consensus_decode (dec_vec dec_TxOut)) (\<lambda>x. vec_ok txout_ok x \<and> length (fst (enc_vec enc_TxOut x)) \<le> MAX_VEC_SIZE)"
  unfolding consensus_decode_def by (rule txins_codec.limited, rule txouts_codec.limited)

interpretation unsigned_ins: codec "enc_vec enc_TxIn" "consensus_decode (dec_vec dec_TxIn)"
  "\<lambda>x. vec_ok txin_core_ok x \<and> length (fst (enc_vec enc_TxIn x)) \<le> MAX_VEC_SIZE"
  by (rule txins_limited)

interpretation unsigned_outs: codec "enc_vec enc_TxOut" "consensus_decode (dec_vec dec_TxOut)"
  "\<lambda>x. vec_ok txout_ok x \<and> length (fst (enc_vec enc_TxOut x)) \<le> MAX_VEC_SIZE"
  by (rule txins_limited)

lemma de_unsigned_tx_iff: "de_unsigned_tx bs = Inr tx \<longleftrightarrow> unsigned_tx_ok tx \<and> bs = ser_unsigned_tx tx"
proof
  assume "de_unsigned_tx bs = Inr tx"
  then have d: "dec_unsigned_tx bs = Inr (tx, [])" by (auto simp: de_unsigned_tx_def split: sum.splits if_splits)
  obtain r1 r2 r3 where r: "dec_Version bs = Inr (tx_version tx, r1)" "consensus_decode (dec_vec dec_TxIn) r1 = Inr (tx_input tx, r2)"
    "consensus_decode (dec_vec dec_TxOut) r2 = Inr (tx_output tx, r3)" "dec_LockTime r3 = Inr (lock_time tx, [])"
    using d by (auto simp: dec_unsigned_tx_def dbind_Inr_iff)
  show "unsigned_tx_ok tx \<and> bs = ser_unsigned_tx tx"
    using version_codec.canonical [OF r(1)] unsigned_ins.canonical [OF r(2)] unsigned_outs.canonical [OF r(3)] locktime_codec.canonical [OF r(4)]
    by (simp add: unsigned_tx_ok_def ser_unsigned_tx_def serialize_def)
next
  assume a: "unsigned_tx_ok tx \<and> bs = ser_unsigned_tx tx"
  have l: "dec_LockTime (fst (enc_LockTime (lock_time tx))) = Inr (lock_time tx, [])"
    using a locktime_codec.dec_enc [of "lock_time tx" "[]"] by (simp add: unsigned_tx_ok_def)
  have "dec_unsigned_tx bs = Inr (tx, [])"
    using a l unfolding dec_unsigned_tx_def ser_unsigned_tx_def serialize_def unsigned_tx_ok_def
    by (simp add: dbind_def version_codec.dec_enc unsigned_ins.dec_enc unsigned_outs.dec_enc dret_def)
  then show "de_unsigned_tx bs = Inr tx" by (simp add: de_unsigned_tx_def)
qed

interpretation unsigned_tx_value: psbt_value ser_unsigned_tx de_unsigned_tx unsigned_tx_ok
  by unfold_locales (auto simp: de_unsigned_tx_iff)

interpretation version_value: psbt_value to_le_bytes de_version "\<lambda>v. v = 0"
proof
  fix bs :: bytes and v :: u32
  have "decode_int (to_le_bytes v) = Inr (v, [])" using u32_codec.dec_enc [of v "[]"] by (simp add: encode_int_def)
  then show "de_version (to_le_bytes v) = Inr v" if "v = 0" using that by (simp add: de_version_def)
  show "v = 0" if "de_version bs = Inr v" using that by (auto simp: de_version_def split: if_splits sum.splits)
  show "length (to_le_bytes v) \<le> max 73 (length bs)" by simp
qed

lemma read_indices_children: "list_all cn_ok cs \<Longrightarrow> read_indices (concat (map (\<lambda>n. to_le_bytes (cn_to_u32 n)) cs)) = cs"
proof (induction cs)
  case Nil
  then show ?case by (subst read_indices.simps) (simp add: decode_int_def dbind_def read_slice_def)
next
  case (Cons c cs)
  have "decode_int (to_le_bytes (cn_to_u32 c) @ r) = Inr (cn_to_u32 c, r)" for r using u32_codec.dec_enc [of "cn_to_u32 c" r] by (simp add: encode_int_def)
  then show ?case using Cons by (subst read_indices.simps) (simp add: cn_from_to_u32)
qed

lemma read_indices_sound:
  "length bs mod 4 = 0 \<Longrightarrow> list_all cn_ok (read_indices bs) \<and> concat (map (\<lambda>n. to_le_bytes (cn_to_u32 n)) (read_indices bs)) = bs"
proof (induction bs rule: read_indices.induct)
  case (1 d)
  show ?case
  proof (cases "decode_int d :: Error + u32 \<times> bytes")
    case (Inl e)
    then have "length d < 4" by (auto simp: decode_int_def dbind_def read_slice_def dret_def split: if_splits)
    then have "d = []" using 1(2) by (cases "length d") auto
    then show ?thesis using Inl by (subst (1 2) read_indices.simps) simp
  next
    case (Inr x)
    then obtain i r where i: "decode_int d = Inr (i :: u32, r)" by (cases x) auto
    have d: "d = to_le_bytes i @ r" using u32_codec.canonical [OF i] by (simp add: encode_int_def)
    then have "length r mod 4 = 0" using 1(2) by simp
    from 1(1) [OF i refl this] show ?thesis using i d by (subst (1 2) read_indices.simps) (simp add: cn_ok_from_u32 cn_to_from_u32)
  qed
qed

definition xpub_entry_ok :: "PsbtOps \<Rightarrow> Xpub \<Rightarrow> KeySource \<Rightarrow> bool" where
  "xpub_entry_ok ops x s \<longleftrightarrow> xpub_ok (op_keys ops) x \<and> key_source_ok s \<and> value_fits (ser_xpub_source s)"

lemma total_cmp_xpub:
  assumes "psbt_ops_ok ops"
  shows "total_cmp (cmp_xpub ops)"
proof -
  have c: "a = b" if "is_hardened a = is_hardened b" "cn_index a = cn_index b" for a b
    using that by (cases a; cases b; simp)
  have n: "a = b" if "(a = Test) = (b = Test)" for a b :: NetworkKind using that by (cases a; cases b; simp)
  have i: "inj (\<lambda>x :: Xpub. (xk_network x = Test, (xk_depth x, (parent_fingerprint x,
      ((is_hardened (child_number x), cn_index (child_number x)), (public_key x, chain_code x))))))" (is "inj ?f")
  proof (rule injI)
    fix x y :: Xpub
    assume e: "?f x = ?f y"
    have "child_number x = child_number y" using e by (intro c) simp_all
    moreover have "xk_network x = xk_network y" using e by (intro n) simp
    ultimately show "x = y" using e by (intro Xpub.equality) simp_all
  qed
  show ?thesis unfolding cmp_xpub_def
    by (intro total_cmp_on [OF _ i] total_cmp_pair total_cmp_by byte_cmp.total_cmp_axioms psbt_cmps(1) [OF assms])
qed

lemma xpub_encode_nonempty: "xpub_ok ks x \<Longrightarrow> xpub_encode x \<noteq> [] \<and> length (xpub_encode x) = 78"
  using xpub_decode_len [OF xpub_decode_encode] by force

lemma insert_xpub_pair:
  assumes "xpub_entry_ok ops x s" "bt_get (cmp_xpub ops) (g_xpub g) x = None"
  shows "insert_xpub ops (mk_pair t (xpub_encode x) (ser_xpub_source s)) g = Inr (g_xpub_update (bt_insert (cmp_xpub ops) x s) g)"
proof -
  obtain fp cs where s: "s = (fp, DerivationPath cs)" by (metis DerivationPath.exhaust prod.exhaust)
  have ok: "length fp = 4" "list_all cn_ok cs" using assms(1) by (simp_all add: xpub_entry_ok_def key_source_ok_def s)
  have "length (concat (map (\<lambda>n. to_le_bytes (cn_to_u32 n)) cs)) mod 4 = 0" by (induction cs) simp_all
  moreover have "xpub_encode x \<noteq> []" "xpub_decode (op_keys ops) (xpub_encode x) = Inr x"
    using assms(1) xpub_encode_nonempty xpub_decode_encode by (auto simp: xpub_entry_ok_def)
  moreover have "fp \<noteq> []" using ok(1) by auto
  ultimately show ?thesis using assms(2) ok
    by (simp add: insert_xpub_def ser_xpub_source_def s read_slice_append read_indices_children mod_add_left_eq [of 4, symmetric])
qed

lemma insert_xpub_sound:
  assumes "insert_xpub ops p g = Inr g'" "pair_ok p"
  shows "\<exists>x s. xpub_entry_ok ops x s \<and> bt_get (cmp_xpub ops) (g_xpub g) x = None \<and> g' = g_xpub_update (bt_insert (cmp_xpub ops) x s) g \<and>
    key_data (pair_key p) = xpub_encode x \<and> pair_value p = ser_xpub_source s"
proof -
  obtain x fp d where x: "xpub_decode (op_keys ops) (key_data (pair_key p)) = Inr x" "length (pair_value p) mod 4 = 0"
    "read_slice 4 (pair_value p) = Inr (fp, d)" "bt_get (cmp_xpub ops) (g_xpub g) x = None"
    "g' = g_xpub_update (bt_insert (cmp_xpub ops) x (fp, DerivationPath (read_indices d))) g"
    using assms(1) by (auto simp: insert_xpub_def Let_def simp del: not_None_eq split: if_splits sum.splits)
  have v: "length fp = 4" "pair_value p = fp @ d" using x(3) by (auto simp: read_slice_Inr_iff)
  then have "length d mod 4 = 0" using x(2) by simp
  from read_indices_sound [OF this] have r: "ser_xpub_source (fp, DerivationPath (read_indices d)) = pair_value p" "list_all cn_ok (read_indices d)"
    using v by (auto simp: ser_xpub_source_def)
  have "xpub_entry_ok ops x (fp, DerivationPath (read_indices d))"
    unfolding xpub_entry_ok_def r(1) using xpub_decode_canonical [OF x(1)] v(1) r(2) assms(2) by (simp add: key_source_ok_def pair_ok_def)
  then show ?thesis using x(4,5) r(1) xpub_decode_canonical [OF x(1)]
    by (intro exI [of _ x] exI [of _ "(fp, DerivationPath (read_indices d))"]) simp
qed

definition global_types :: "u8 set" where
  "global_types = {PSBT_GLOBAL_UNSIGNED_TX, PSBT_GLOBAL_XPUB, PSBT_GLOBAL_VERSION, PSBT_GLOBAL_PROPRIETARY}"

definition global_state_ok :: "PsbtOps \<Rightarrow> PsbtGlobal \<Rightarrow> bool" where
  "global_state_ok ops g \<longleftrightarrow>
     opt_ok unsigned_tx_ok ser_unsigned_tx (g_tx g) \<and> opt_ok (\<lambda>v. v = 0) to_le_bytes (g_version g) \<and>
     entries_ok (cmp_xpub ops) (xpub_entry_ok ops) (g_xpub g) \<and>
     entries_ok cmp_proprietary proprietary_entry_ok (g_proprietary g) \<and>
     entries_ok cmp_raw_key (unknown_entry_ok global_types) (g_unknown g)"

lemma global_insert_ok:
  assumes "psbt_ops_ok ops" "global_state_ok ops g" "pair_ok p" "global_insert_pair ops p g = Inr g'"
  shows "global_state_ok ops g'"
proof -
  have x: "global_state_ok ops g'" if "insert_xpub ops p g = Inr g'"
    using insert_xpub_sound [OF that assms(3)] assms(2) entries_ok_insert [OF total_cmp_xpub [OF assms(1)]]
    by (auto simp: global_state_ok_def)
  show ?thesis using assms(4) unfolding global_insert_pair_def Let_def
    by (simp only: split: if_split_asm)
      ((rule x, assumption |
        erule insert_unkeyed_E insert_proprietary_E insert_unknown_E,
        (rule global_fields unsigned_tx_value.psbt_value_axioms version_value.psbt_value_axioms assms(3))+;
        use assms(2) in \<open>simp add: global_state_ok_def global_types_def\<close>)+)
qed

text \<open>What the state takes on the wire; a pair that is inserted adds at most its own bytes.\<close>

definition pair_len :: "RawPair \<Rightarrow> nat" where "pair_len p = length (pair_serialize p)"

definition xpub_pair :: "Xpub \<times> KeySource \<Rightarrow> RawPair" where
  "xpub_pair e = mk_pair PSBT_GLOBAL_XPUB (xpub_encode (fst e)) (ser_xpub_source (snd e))"

definition global_size :: "PsbtGlobal \<Rightarrow> nat" where
  "global_size g =
     (case g_tx g of None \<Rightarrow> 0 | Some tx \<Rightarrow> pair_len (mk_pair PSBT_GLOBAL_UNSIGNED_TX [] (ser_unsigned_tx tx))) +
     sum_list (map (\<lambda>e. pair_len (xpub_pair e)) (g_xpub g)) +
     sum_list (map (\<lambda>e. pair_len \<lparr> pair_key = to_key (fst e), pair_value = snd e \<rparr>) (g_proprietary g)) +
     sum_list (map (\<lambda>e. pair_len \<lparr> pair_key = fst e, pair_value = snd e \<rparr>) (g_unknown g))"

lemma sum_bt_insert: "bt_get c m k = None \<Longrightarrow> sum_list (map f (bt_insert c k v m)) = f (k, v) + sum_list (map f m :: nat list)"
proof (induction m)
  case (Cons e m)
  then show ?case by (cases e) (auto split: Ordering.splits)
qed simp

lemma pair_len_eta: "pair_len \<lparr> pair_key = pair_key p, pair_value = pair_value p \<rparr> = pair_len p"
  by (cases p) simp

lemma global_insert_size:
  assumes "pair_ok p" "global_insert_pair ops p g = Inr g'"
  shows "global_size g' \<le> global_size g + pair_len p"
proof -
  have tx: ?thesis if i: "insert_unkeyed g_tx g_tx_update de_unsigned_tx p g = Inr g'" and t: "type_value (pair_key p) = PSBT_GLOBAL_UNSIGNED_TX"
  proof -
    obtain tx where d: "de_unsigned_tx (pair_value p) = Inr tx" and k: "key_data (pair_key p) = []" "g_tx g = None" "g' = g_tx_update (\<lambda>_. Some tx) g"
      using i by (auto simp: insert_unkeyed_def Let_def split: if_splits option.splits sum.splits)
    then have "pair_value p = ser_unsigned_tx tx" by (simp add: de_unsigned_tx_iff)
    with k t have "mk_pair PSBT_GLOBAL_UNSIGNED_TX [] (ser_unsigned_tx tx) = p" by (cases p; cases "pair_key p") simp
    then show ?thesis using k by (simp add: global_size_def)
  qed
  have xp: ?thesis if i: "insert_xpub ops p g = Inr g'" and t: "type_value (pair_key p) = PSBT_GLOBAL_XPUB"
  proof -
    obtain x s where x: "bt_get (cmp_xpub ops) (g_xpub g) x = None" "g' = g_xpub_update (bt_insert (cmp_xpub ops) x s) g"
      "key_data (pair_key p) = xpub_encode x" "pair_value p = ser_xpub_source s"
      using insert_xpub_sound [OF i assms(1)] by blast
    then have "xpub_pair (x, s) = p" using t by (cases p; cases "pair_key p") (simp add: xpub_pair_def)
    then show ?thesis using x by (simp add: global_size_def sum_bt_insert)
  qed
  have ver: ?thesis if "insert_unkeyed g_version g_version_update de_version p g = Inr g'"
    using that by (auto simp: insert_unkeyed_def Let_def global_size_def split: if_splits option.splits sum.splits)
  have pr: ?thesis if i: "insert_proprietary g_proprietary g_proprietary_update p g = Inr g'"
  proof -
    obtain k where k: "pair_key p = to_key k" "bt_get cmp_proprietary (g_proprietary g) k = None"
      "g' = g_proprietary_update (bt_insert cmp_proprietary k (pair_value p)) g"
      using i by (auto simp: insert_proprietary_def proprietary_try_from_iff split: option.splits sum.splits)
    have "pair_len \<lparr> pair_key = to_key k, pair_value = pair_value p \<rparr> = pair_len p" using k(1) by (cases p) simp
    then show ?thesis using k by (simp add: global_size_def sum_bt_insert)
  qed
  have unk: ?thesis if "insert_unknown g_unknown g_unknown_update p g = Inr g'"
    using that by (auto simp: insert_unknown_def global_size_def sum_bt_insert pair_len_eta split: option.splits)
  show ?thesis using assms(2) tx xp ver pr unk unfolding global_insert_pair_def Let_def by (simp only: split: if_split_asm)
qed

lemma global_ins_all_size: "list_all pair_ok ps \<Longrightarrow> ins_all (global_insert_pair ops) ps g = Inr g' \<Longrightarrow> global_size g' \<le> global_size g + sum_list (map pair_len ps)"
proof (induction ps arbitrary: g)
  case (Cons p ps)
  then obtain g1 where g1: "global_insert_pair ops p g = Inr g1" "ins_all (global_insert_pair ops) ps g1 = Inr g'" by (auto split: sum.splits)
  then have "global_size g' \<le> global_size g1 + sum_list (map pair_len ps)" using Cons by simp
  moreover have "global_size g1 \<le> global_size g + pair_len p" using Cons.prems(1) g1(1) by (intro global_insert_size) simp_all
  ultimately show ?case by simp
qed simp

definition psbt_state :: "Psbt \<Rightarrow> PsbtGlobal" where
  "psbt_state p = \<lparr> g_tx = Some (psbt_unsigned_tx p), g_version = None, g_unknown = psbt_unknown p, g_xpub = psbt_xpub p,
     g_proprietary = psbt_proprietary p \<rparr>"

definition global_ok :: "PsbtOps \<Rightarrow> Psbt \<Rightarrow> bool" where
  "global_ok ops p \<longleftrightarrow> psbt_version p = 0 \<and> global_state_ok ops (psbt_state p) \<and> length (serialize_map (global_pairs p)) \<le> MAX_VEC_SIZE"

lemma global_pairs_eq:
  "psbt_version p = 0 \<Longrightarrow> global_pairs p =
     push_unkeyed (Some (psbt_unsigned_tx p)) PSBT_GLOBAL_UNSIGNED_TX ser_unsigned_tx @ map xpub_pair (psbt_xpub p) @
     push_proprietary (psbt_proprietary p) @ push_unknown (psbt_unknown p)"
  by (simp add: global_pairs_def push_unkeyed_def xpub_pair_def case_prod_unfold)

lemma global_pairs_size:
  "psbt_version p = 0 \<Longrightarrow> length (serialize_map (global_pairs p)) = global_size (psbt_state p) + 1"
  unfolding global_pairs_eq
  by (simp add: serialize_map_def length_concat comp_def global_size_def psbt_state_def push_unkeyed_def push_proprietary_def push_unknown_def
      pair_len_def case_prod_unfold)

lemma global_steps:
  assumes "psbt_ops_ok ops"
  shows "opt_ok unsigned_tx_ok ser_unsigned_tx x \<Longrightarrow> g_tx m = None \<Longrightarrow>
      ins_all (global_insert_pair ops) (push_unkeyed x PSBT_GLOBAL_UNSIGNED_TX ser_unsigned_tx) m = Inr (g_tx_update (\<lambda>_. x) m)"
    "entries_ok (cmp_xpub ops) (xpub_entry_ok ops) xs \<Longrightarrow> g_xpub m = [] \<Longrightarrow>
      ins_all (global_insert_pair ops) (map xpub_pair xs) m = Inr (g_xpub_update (\<lambda>_. xs) m)"
    "entries_ok cmp_proprietary proprietary_entry_ok y \<Longrightarrow> g_proprietary m = [] \<Longrightarrow>
      ins_all (global_insert_pair ops) (push_proprietary y) m = Inr (g_proprietary_update (\<lambda>_. y) m)"
    "entries_ok cmp_raw_key (unknown_entry_ok global_types) z \<Longrightarrow> g_unknown m = [] \<Longrightarrow>
      ins_all (global_insert_pair ops) (push_unknown z) m = Inr (g_unknown_update (\<lambda>_. z) m)"
proof -
  show "ins_all (global_insert_pair ops) (map xpub_pair xs) m = Inr (g_xpub_update (\<lambda>_. xs) m)"
    if ok: "entries_ok (cmp_xpub ops) (xpub_entry_ok ops) xs" and m: "g_xpub m = []"
  proof (rule ins_all_entries [OF global_fields(4) total_cmp_xpub [OF assms]])
    fix k v and g :: PsbtGlobal
    assume "(k, v) \<in> set xs" "bt_get (cmp_xpub ops) (g_xpub g) k = None"
    then show "global_insert_pair ops (xpub_pair (k, v)) g = Inr (g_xpub_update (bt_insert (cmp_xpub ops) k v) g)"
      using ok insert_xpub_pair [of ops k v g] by (auto simp: entries_ok_def global_insert_pair_def xpub_pair_def psbt_global_consts)
  qed (use ok m in \<open>auto simp: entries_ok_def\<close>)
qed (rule ins_all_unkeyed ins_all_proprietary ins_all_unknown, rule global_fields;
    (assumption | simp add: global_insert_pair_def psbt_global_consts global_types_def | rule unsigned_tx_value.psbt_value_axioms))+

lemma global_pairs_ok: "global_ok ops p \<Longrightarrow> list_all pair_ok (global_pairs p)"
proof -
  assume g: "global_ok ops p"
  have "list_all pair_ok (map xpub_pair (psbt_xpub p))"
    using g xpub_encode_nonempty
    by (fastforce simp: global_ok_def global_state_ok_def psbt_state_def entries_ok_def xpub_entry_ok_def xpub_pair_def pair_ok_def list_all_iff
        key_fits_def MAX_VEC_SIZE_def)
  then show ?thesis using g global_pairs_eq [of p]
    by (auto simp: global_ok_def global_state_ok_def psbt_state_def intro: pairs_ok_push)
qed

lemma decode_global_serialize:
  assumes "psbt_ops_ok ops" "global_ok ops p"
  shows "decode_global ops (serialize_map (global_pairs p) @ rest) = Inr (p\<lparr> psbt_inputs := [], psbt_outputs := [] \<rparr>, rest)"
proof -
  let ?m = "serialize_map (global_pairs p)"
  have l: "length ?m \<le> MAX_VEC_SIZE" "psbt_version p = 0" using assms(2) by (auto simp: global_ok_def)
  have "ins_all (global_insert_pair ops) (global_pairs p) PsbtGlobal_default = Inr (psbt_state p)"
    using assms(2) unfolding global_pairs_eq [OF l(2)]
    by (simp add: ins_all_append_eq global_steps [OF assms(1)] global_ok_def global_state_ok_def psbt_state_def PsbtGlobal_default_def)
  then have "decode_pairs (global_insert_pair ops) PsbtGlobal_default (?m @ take (MAX_VEC_SIZE - length ?m) rest) =
      Inr (psbt_state p, take (MAX_VEC_SIZE - length ?m) rest)"
    by (rule decode_pairs_serialize [OF global_pairs_ok [OF assms(2)]])
  then show ?thesis using l by (simp add: decode_global_def psbt_state_def)
qed

lemma decode_global_sound:
  assumes "psbt_ops_ok ops" "decode_global ops bs = Inr (p, rest)"
  shows "global_ok ops p" "psbt_inputs p = []" "psbt_outputs p = []"
proof -
  obtain g r tx where g: "decode_pairs (global_insert_pair ops) PsbtGlobal_default (take MAX_VEC_SIZE bs) = Inr (g, r)" "g_tx g = Some tx"
    "p = \<lparr> psbt_unsigned_tx = tx, psbt_version = (case g_version g of Some v \<Rightarrow> v | None \<Rightarrow> 0), psbt_xpub = g_xpub g,
       psbt_proprietary = g_proprietary g, psbt_unknown = g_unknown g, psbt_inputs = [], psbt_outputs = [] \<rparr>"
    using assms(2) by (auto simp: decode_global_def split: sum.splits option.splits)
  have "global_state_ok ops PsbtGlobal_default"
    by (simp add: global_state_ok_def PsbtGlobal_default_def opt_ok_def entries_ok_def bt_ok_def)
  then have ok: "global_state_ok ops g" using global_insert_ok [OF assms(1)]
    by (intro decode_pairs_invariant [of "global_state_ok ops" "global_insert_pair ops", OF _ _ g(1)]) blast+
  obtain ps where ps: "list_all pair_ok ps" "take MAX_VEC_SIZE bs = serialize_map ps @ r" "ins_all (global_insert_pair ops) ps PsbtGlobal_default = Inr g"
    using decode_pairs_sound [OF g(1)] by blast
  have v: "psbt_version p = 0" using ok g(3) by (cases "g_version g") (auto simp: global_state_ok_def opt_ok_def)
  have st: "psbt_state p = g\<lparr> g_version := None \<rparr>" using g(2,3) by (simp add: psbt_state_def)
  have "length (serialize_map (global_pairs p)) = global_size g + 1"
    using global_pairs_size [OF v] by (simp add: st global_size_def)
  also have "\<dots> \<le> sum_list (map pair_len ps) + 1" using global_ins_all_size [OF ps(1,3)] by (simp add: global_size_def PsbtGlobal_default_def)
  also have "\<dots> = length (serialize_map ps)" by (simp add: serialize_map_def length_concat comp_def pair_len_def [abs_def])
  also have "\<dots> \<le> MAX_VEC_SIZE" using arg_cong [OF ps(2), of length] by simp
  finally show "global_ok ops p" using v ok by (simp add: global_ok_def st global_state_ok_def opt_ok_def)
  show "psbt_inputs p = []" "psbt_outputs p = []" by (simp_all add: g(3))
qed

end
