(* ===== verification/Psbt.thy ===== *)
theory Psbt
  imports PsbtFormat Amount
begin

text \<open>
  Partially signed transactions as a whole (\<open>psbt/mod.rs\<close>, \<open>psbt/serialize.rs\<close>): the container format, construction from an
  unsigned transaction, combining, the fee and the extraction of the final transaction. \<open>None\<close> of a result is a panic. An error
  of \<open>combine\<close> comes with the partly changed receiver.
\<close>

section \<open>Construction and the container\<close>

fun unsigned_inputs_check :: "TxIn list \<Rightarrow> PsbtError + unit" where
  "unsigned_inputs_check [] = Inr ()"
| "unsigned_inputs_check (i # is) =
     (if script_sig i \<noteq> [] then Inl UnsignedTxHasScriptSigs
      else if \<not> witness_is_empty (witness i) then Inl UnsignedTxHasScriptWitnesses
      else unsigned_inputs_check is)"

definition unsigned_tx_checks :: "Psbt \<Rightarrow> PsbtError + unit" where
  "unsigned_tx_checks p = unsigned_inputs_check (tx_input (psbt_unsigned_tx p))"

definition from_unsigned_tx :: "Transaction \<Rightarrow> PsbtError + Psbt" where
  "from_unsigned_tx tx =
     (let psbt = \<lparr> psbt_unsigned_tx = tx, psbt_version = 0, psbt_xpub = [], psbt_proprietary = [], psbt_unknown = [],
                   psbt_inputs = replicate (length (tx_input tx)) PsbtInput_default,
                   psbt_outputs = replicate (length (tx_output tx)) PsbtOutput_default \<rparr>
      in case unsigned_tx_checks psbt of Inl e \<Rightarrow> Inl e | Inr _ \<Rightarrow> Inr psbt)"

text \<open>The bytes that are written and the count that is returned.\<close>

definition serialize_to_writer :: "PsbtOps \<Rightarrow> Psbt \<Rightarrow> bytes \<times> nat" where
  "serialize_to_writer ops p =
     (let chunks = [ascii ''psbt'', [0xff], serialize_map (global_pairs p)] @ map (input_serialize ops) (psbt_inputs p) @
                   map (output_serialize ops) (psbt_outputs p)
      in (concat chunks, sum_list (map length chunks)))"

definition psbt_serialize :: "PsbtOps \<Rightarrow> Psbt \<Rightarrow> bytes" where
  "psbt_serialize ops p = fst (serialize_to_writer ops p)"

fun decode_many :: "(bytes \<Rightarrow> PsbtError + ('m \<times> bytes)) \<Rightarrow> nat \<Rightarrow> bytes \<Rightarrow> PsbtError + ('m list \<times> bytes)" where
  "decode_many dec 0 bs = Inr ([], bs)"
| "decode_many dec (Suc n) bs =
     (case dec bs of
        Inl e \<Rightarrow> Inl e
      | Inr (m, r) \<Rightarrow> (case decode_many dec n r of Inl e \<Rightarrow> Inl e | Inr (ms, r) \<Rightarrow> Inr (m # ms, r)))"

definition deserialize_from_reader :: "PsbtOps \<Rightarrow> bytes \<Rightarrow> PsbtError + (Psbt \<times> bytes)" where
  "deserialize_from_reader ops bs =
     (case consensus_err (dec_array 4 bs) of
        Inl e \<Rightarrow> Inl e
      | Inr (magic, r) \<Rightarrow>
          if magic \<noteq> ascii ''psbt'' then Inl InvalidMagic
          else (case consensus_err (read_u8 r) of
             Inl e \<Rightarrow> Inl e
           | Inr (separator, r) \<Rightarrow>
               if separator \<noteq> 0xff then Inl InvalidSeparator
               else (case decode_global ops r of
                  Inl e \<Rightarrow> Inl e
                | Inr (glob, r) \<Rightarrow>
                    (case unsigned_tx_checks glob of
                       Inl e \<Rightarrow> Inl e
                     | Inr _ \<Rightarrow>
                         (case decode_many (input_decode ops) (length (tx_input (psbt_unsigned_tx glob))) r of
                            Inl e \<Rightarrow> Inl e
                          | Inr (inputs, r) \<Rightarrow>
                              (case decode_many (output_decode ops) (length (tx_output (psbt_unsigned_tx glob))) r of
                                 Inl e \<Rightarrow> Inl e
                               | Inr (outputs, r) \<Rightarrow> Inr (glob\<lparr> psbt_inputs := inputs, psbt_outputs := outputs \<rparr>, r)))))))"

definition psbt_deserialize :: "PsbtOps \<Rightarrow> bytes \<Rightarrow> PsbtError + Psbt" where
  "psbt_deserialize ops bs = map_sum id fst (deserialize_from_reader ops bs)"

section \<open>Funding, fee and extraction\<close>

definition funding_utxo :: "TxIn \<Rightarrow> PsbtInput \<Rightarrow> PsbtError + TxOut" where
  "funding_utxo i m =
     (case (in_witness_utxo m, in_non_witness_utxo m) of
        (Some u, _) \<Rightarrow> Inr u
      | (None, Some tx) \<Rightarrow>
          (let vo = unat (vout (previous_output i))
           in if vo < length (tx_output tx) then Inr (tx_output tx ! vo) else Inl PsbtUtxoOutOfbounds)
      | (None, None) \<Rightarrow> Inl MissingUtxo)"

definition iter_funding_utxos :: "Psbt \<Rightarrow> (PsbtError + TxOut) list option" where
  "iter_funding_utxos p =
     (if length (psbt_inputs p) \<noteq> length (tx_input (psbt_unsigned_tx p)) then None
      else Some (map (\<lambda>(i, m). funding_utxo i m) (zip (tx_input (psbt_unsigned_tx p)) (psbt_inputs p))))"

fun sum_inputs :: "(PsbtError + TxOut) list \<Rightarrow> u64 \<Rightarrow> PsbtError + u64" where
  "sum_inputs [] acc = Inr acc"
| "sum_inputs (u # us) acc =
     (case u of
        Inl e \<Rightarrow> Inl e
      | Inr out \<Rightarrow> (case checked_add_u64 acc (txout_value out) of None \<Rightarrow> Inl FeeOverflow | Some acc \<Rightarrow> sum_inputs us acc))"

fun sum_outputs :: "TxOut list \<Rightarrow> u64 \<Rightarrow> PsbtError + u64" where
  "sum_outputs [] acc = Inr acc"
| "sum_outputs (out # outs) acc =
     (case checked_add_u64 acc (txout_value out) of None \<Rightarrow> Inl FeeOverflow | Some acc \<Rightarrow> sum_outputs outs acc)"

definition psbt_fee :: "Psbt \<Rightarrow> (PsbtError + Amount) option" where
  "psbt_fee p =
     map_option (\<lambda>utxos.
       case sum_inputs utxos 0 of
         Inl e \<Rightarrow> Inl e
       | Inr ins \<Rightarrow>
           (case sum_outputs (tx_output (psbt_unsigned_tx p)) 0 of
              Inl e \<Rightarrow> Inl e
            | Inr outs \<Rightarrow> (case checked_sub_u64 ins outs of None \<Rightarrow> Inl NegativeFee | Some fee \<Rightarrow> Inr (Amount fee))))
     (iter_funding_utxos p)"

datatype ExtractTxError = AbsurdFeeRate FeeRate Transaction | MissingInputValue Transaction | SendingTooMuch Psbt

definition DEFAULT_MAX_FEE_RATE :: FeeRate where "DEFAULT_MAX_FEE_RATE = FeeRate (25000 * (1000 div 4))"

fun fill_inputs :: "TxIn list \<Rightarrow> PsbtInput list \<Rightarrow> TxIn list" where
  "fill_inputs (vin # vins) (m # ms) =
     vin\<lparr> script_sig := (case in_final_script_sig m of Some s \<Rightarrow> s | None \<Rightarrow> []),
          witness := (case in_final_script_witness m of Some w \<Rightarrow> w | None \<Rightarrow> witness_new) \<rparr> # fill_inputs vins ms"
| "fill_inputs vins _ = vins"

definition internal_extract_tx :: "Psbt \<Rightarrow> Transaction" where
  "internal_extract_tx p = (psbt_unsigned_tx p)\<lparr> tx_input := fill_inputs (tx_input (psbt_unsigned_tx p)) (psbt_inputs p) \<rparr>"

definition saturating_mul_u64 :: "u64 \<Rightarrow> u64 \<Rightarrow> u64" where
  "saturating_mul_u64 a b = (if unat a * unat b < 2 ^ 64 then a * b else - 1)"

definition extract_tx_with_fee_rate_limit :: "Psbt \<Rightarrow> FeeRate \<Rightarrow> (ExtractTxError + Transaction) option" where
  "extract_tx_with_fee_rate_limit p max_fee_rate =
     (case psbt_fee p of
        None \<Rightarrow> None
      | Some (Inl MissingUtxo) \<Rightarrow> Some (Inl (MissingInputValue (internal_extract_tx p)))
      | Some (Inl NegativeFee) \<Rightarrow> Some (Inl (SendingTooMuch p))
      | Some (Inl FeeOverflow) \<Rightarrow> Some (Inl (AbsurdFeeRate (FeeRate (- 1)) (internal_extract_tx p)))
      | Some (Inl _) \<Rightarrow> None
      | Some (Inr fee) \<Rightarrow>
          (let tx = internal_extract_tx p
           in case tx_weight tx of
                None \<Rightarrow> None
              | Some w \<Rightarrow>
                  if to_wu w = 0 then None
                  else (let fee_rate = FeeRate (saturating_mul_u64 (to_sat fee) 1000 div to_wu w)
                        in if to_sat_per_kwu fee_rate > to_sat_per_kwu max_fee_rate then Some (Inl (AbsurdFeeRate fee_rate tx))
                           else Some (Inr tx))))"

definition extract_tx :: "Psbt \<Rightarrow> (ExtractTxError + Transaction) option" where
  "extract_tx p = extract_tx_with_fee_rate_limit p DEFAULT_MAX_FEE_RATE"

definition extract_tx_unchecked_fee_rate :: "Psbt \<Rightarrow> Transaction" where
  "extract_tx_unchecked_fee_rate p = internal_extract_tx p"

section \<open>Combining\<close>

text \<open>The choice between two sources of one extended key; the slice of the second test panics if the first path is the shorter one.\<close>

datatype SourceChoice = KeepOwn | TakeOther | Inconsistent

definition choose_source :: "KeySource \<Rightarrow> KeySource \<Rightarrow> SourceChoice option" where
  "choose_source own other =
     (let d1 = path_0 (snd other); d2 = path_0 (snd own)
      in if (d1 = d2 \<and> fst other = fst own) \<or> (length d1 < length d2 \<and> d1 = drop (length d2 - length d1) d2) then Some KeepOwn
         else if length d1 < length d2 then None
         else if d2 = drop (length d1 - length d2) d1 then Some TakeOther
         else Some Inconsistent)"

fun combine_xpubs :: "PsbtOps \<Rightarrow> (Xpub, KeySource) btree \<Rightarrow> (Xpub, KeySource) btree \<Rightarrow> ((PsbtError + unit) \<times> (Xpub, KeySource) btree) option" where
  "combine_xpubs ops [] slf = Some (Inr (), slf)"
| "combine_xpubs ops ((x, source) # other) slf =
     (case bt_get (cmp_xpub ops) slf x of
        None \<Rightarrow> combine_xpubs ops other (bt_insert (cmp_xpub ops) x source slf)
      | Some own \<Rightarrow>
          (case choose_source own source of
             None \<Rightarrow> None
           | Some KeepOwn \<Rightarrow> combine_xpubs ops other slf
           | Some TakeOther \<Rightarrow> combine_xpubs ops other (bt_insert (cmp_xpub ops) x source slf)
           | Some Inconsistent \<Rightarrow> Some (Inl (CombineInconsistentKeySources x), slf)))"

fun zip_combine :: "('m \<Rightarrow> 'm \<Rightarrow> 'm) \<Rightarrow> 'm list \<Rightarrow> 'm list \<Rightarrow> 'm list" where
  "zip_combine f (x # xs) (y # ys) = f x y # zip_combine f xs ys"
| "zip_combine f xs _ = xs"

definition psbt_combine :: "PsbtOps \<Rightarrow> Psbt \<Rightarrow> Psbt \<Rightarrow> ((PsbtError + unit) \<times> Psbt) option" where
  "psbt_combine ops slf other =
     (if psbt_unsigned_tx slf \<noteq> psbt_unsigned_tx other
      then Some (Inl (UnexpectedUnsignedTx (psbt_unsigned_tx slf) (psbt_unsigned_tx other)), slf)
      else (let slf = slf\<lparr> psbt_version := max (psbt_version slf) (psbt_version other) \<rparr>
            in map_option (\<lambda>(r, xs).
                 let slf = slf\<lparr> psbt_xpub := xs \<rparr>
                 in case r of
                      Inl e \<Rightarrow> (Inl e, slf)
                    | Inr _ \<Rightarrow> (Inr (), slf\<lparr>
                        psbt_proprietary := bt_extend cmp_proprietary (psbt_proprietary slf) (psbt_proprietary other),
                        psbt_unknown := bt_extend cmp_raw_key (psbt_unknown slf) (psbt_unknown other),
                        psbt_inputs := zip_combine (input_combine ops) (psbt_inputs slf) (psbt_inputs other),
                        psbt_outputs := zip_combine (output_combine ops) (psbt_outputs slf) (psbt_outputs other) \<rparr>))
               (combine_xpubs ops (psbt_xpub other) (psbt_xpub slf))))"

section \<open>The container is read back\<close>

definition psbt_ok :: "PsbtOps \<Rightarrow> Psbt \<Rightarrow> bool" where
  "psbt_ok ops p \<longleftrightarrow>
     global_ok ops p \<and> list_all (\<lambda>i. script_sig i = []) (tx_input (psbt_unsigned_tx p)) \<and>
     length (psbt_inputs p) = length (tx_input (psbt_unsigned_tx p)) \<and> length (psbt_outputs p) = length (tx_output (psbt_unsigned_tx p)) \<and>
     list_all (input_ok ops) (psbt_inputs p) \<and> list_all (output_ok ops) (psbt_outputs p)"

lemma unsigned_inputs_check_iff:
  "unsigned_inputs_check is = Inr u \<longleftrightarrow> list_all (\<lambda>i. script_sig i = [] \<and> witness_is_empty (witness i)) is"
  by (induction "is") auto

lemma decode_many_serialize:
  assumes "\<And>m rest. ok m \<Longrightarrow> dec (ser m @ rest) = Inr (m, rest)"
  shows "list_all ok ms \<Longrightarrow> decode_many dec (length ms) (concat (map ser ms) @ rest) = Inr (ms, rest)"
  by (induction ms) (simp_all add: assms)

lemma decode_many_sound:
  assumes "\<And>bs m rest. dec bs = Inr (m, rest) \<Longrightarrow> ok m"
  shows "decode_many dec n bs = Inr (ms, rest) \<Longrightarrow> length ms = n \<and> list_all ok ms"
  by (induction n arbitrary: bs ms) (auto split: sum.splits, (blast intro: assms)+)

lemma unsigned_checks_iff:
  assumes "global_ok ops p"
  shows "unsigned_tx_checks p = Inr u \<longleftrightarrow> list_all (\<lambda>i. script_sig i = []) (tx_input (psbt_unsigned_tx p))"
proof -
  have "list_all txin_core_ok (tx_input (psbt_unsigned_tx p))"
    using assms by (simp add: global_ok_def global_state_ok_def psbt_state_def opt_ok_def unsigned_tx_ok_def vec_ok_def)
  then have "list_all (\<lambda>i. witness_is_empty (witness i)) (tx_input (psbt_unsigned_tx p))"
    by (auto simp: list_all_iff txin_core_ok_def witness_is_empty_def witness_new_def)
  then show ?thesis unfolding unsigned_tx_checks_def unsigned_inputs_check_iff by (auto simp: list_all_iff)
qed

lemma deserialize_from_reader_serialize:
  assumes "psbt_ops_ok ops" "psbt_ok ops p"
  shows "deserialize_from_reader ops (psbt_serialize ops p @ rest) = Inr (p, rest)"
proof -
  have g: "global_ok ops p" using assms(2) by (simp add: psbt_ok_def)
  let ?tail = "concat (map (input_serialize ops) (psbt_inputs p)) @ concat (map (output_serialize ops) (psbt_outputs p)) @ rest"
  have s: "psbt_serialize ops p @ rest = ascii ''psbt'' @ 0xff # serialize_map (global_pairs p) @ ?tail"
    by (simp add: psbt_serialize_def serialize_to_writer_def Let_def)
  have "dec_array 4 (psbt_serialize ops p @ rest) = Inr (ascii ''psbt'', 0xff # serialize_map (global_pairs p) @ ?tail)"
    unfolding s dec_array_def by (rule read_slice_append) (simp add: ascii_def)
  moreover have "read_u8 (0xff # serialize_map (global_pairs p) @ ?tail) = Inr (0xff, serialize_map (global_pairs p) @ ?tail)"
    by (simp add: read_u8_iff)
  moreover have "unsigned_tx_checks (p\<lparr> psbt_inputs := [], psbt_outputs := [] \<rparr>) = Inr ()"
    using assms(2) unsigned_checks_iff [OF g, of "()"] by (simp add: psbt_ok_def unsigned_tx_checks_def)
  moreover have "decode_many (input_decode ops) (length (psbt_inputs p)) ?tail =
      Inr (psbt_inputs p, concat (map (output_serialize ops) (psbt_outputs p)) @ rest)"
    using assms(2) by (intro decode_many_serialize [of "input_ok ops"] input_decode_serialize [OF assms(1)]) (simp_all add: psbt_ok_def)
  moreover have "decode_many (output_decode ops) (length (psbt_outputs p)) (concat (map (output_serialize ops) (psbt_outputs p)) @ rest) =
      Inr (psbt_outputs p, rest)"
    using assms(2) by (intro decode_many_serialize [of "output_ok ops"] output_decode_serialize [OF assms(1)]) (simp_all add: psbt_ok_def)
  ultimately show ?thesis
    using decode_global_serialize [OF assms(1) g] assms(2) by (simp add: deserialize_from_reader_def psbt_ok_def)
qed

lemma deserialize_from_reader_ok:
  assumes "psbt_ops_ok ops" "deserialize_from_reader ops bs = Inr (p, rest)"
  shows "psbt_ok ops p"
proof -
  obtain r1 g r2 r3 where d: "decode_global ops r1 = Inr (g, r2)" "unsigned_tx_checks g = Inr ()"
    "decode_many (input_decode ops) (length (tx_input (psbt_unsigned_tx g))) r2 = Inr (psbt_inputs p, r3)"
    "decode_many (output_decode ops) (length (tx_output (psbt_unsigned_tx g))) r3 = Inr (psbt_outputs p, rest)"
    "p = g\<lparr> psbt_inputs := psbt_inputs p, psbt_outputs := psbt_outputs p \<rparr>"
    using assms(2) by (auto simp: deserialize_from_reader_def split: sum.splits if_splits)
  have g: "global_ok ops g" using decode_global_sound [OF assms(1) d(1)] by simp
  have eqs: "psbt_unsigned_tx p = psbt_unsigned_tx g" "global_ok ops p"
    using g by (subst d(5), simp add: global_ok_def psbt_state_def global_pairs_def)+
  show ?thesis
    using decode_many_sound [of "input_decode ops" "input_ok ops", OF input_decode_ok [OF assms(1)] d(3)]
      decode_many_sound [of "output_decode ops" "output_ok ops", OF output_decode_ok [OF assms(1)] d(4)]
      unsigned_checks_iff [OF g] d(2) eqs by (simp add: psbt_ok_def)
qed

section \<open>Samples\<close>

text \<open>A stand-in for the curve library in which the keys are the even points with any coordinate, and transactions over it.\<close>

definition psbt_sample_ops :: PsbtOps where
  "psbt_sample_ops = \<lparr> op_keys = sample_ops,
     op_secp = \<lparr> xonly_valid = (\<lambda>b. length b = 32), scalar_valid = (\<lambda>_. True), add_tweak = (\<lambda>k t. Some (k, False)),
                 tweak_add_check = (\<lambda>k q p t. q = k) \<rparr>,
     secp_pk_from_slice = (\<lambda>b. if length b = 33 \<and> b ! 0 = 2 then Some b
                               else if length b = 65 \<and> b ! 0 = 4 then Some (2 # take 32 (tl b)) else None),
     secp_pk_uncompressed = (\<lambda>k. 4 # tl k @ replicate 32 0), secp_pk_cmp = cmp_bytes, xonly_cmp = cmp_bytes,
     sig_from_der = (\<lambda>b. if length b = 70 then Some b else None), schnorr_valid = (\<lambda>b. length b = 64) \<rparr>"

lemma psbt_sample_ops_ok: "psbt_ops_ok psbt_sample_ops"
proof -
  have "2 # take 32 (tl (4 # tl k @ replicate 32 0)) = k" if "length k = 33" "k ! 0 = (2 :: u8)" for k
    using that by (cases k) simp_all
  then show ?thesis
    by (auto simp: psbt_ops_ok_def psbt_sample_ops_def byte_cmp.total_cmp_axioms split: if_splits)
qed

definition psbt_sample_tx :: Transaction where
  "psbt_sample_tx = \<lparr> tx_version = Version 2, lock_time = Blocks (Height 0),
     tx_input = [\<lparr> previous_output = \<lparr> txid = replicate 32 7, vout = 0 \<rparr>, script_sig = [], sequence = Sequence 0, witness = witness_new \<rparr>],
     tx_output = [\<lparr> txout_value = 1000, script_pubkey = [0x51] \<rparr>] \<rparr>"

definition psbt_sample :: Psbt where
  "psbt_sample = \<lparr> psbt_unsigned_tx = psbt_sample_tx, psbt_version = 0, psbt_xpub = [], psbt_proprietary = [],
     psbt_unknown = [(\<lparr> type_value = 0x10, key_data = [1] \<rparr>, [2])],
     psbt_inputs = [PsbtInput_default\<lparr> in_witness_utxo := Some \<lparr> txout_value = 1500, script_pubkey = [0x51] \<rparr>,
       in_partial_sigs := [(\<lparr> pk_compressed = True, pk_inner = 2 # replicate 32 9 \<rparr>, \<lparr> es_signature = replicate 70 3, es_sighash_type = EAll \<rparr>)] \<rparr>],
     psbt_outputs = [PsbtOutput_default\<lparr> out_redeem_script := Some [0x51] \<rparr>] \<rparr>"

lemma psbt_sample_tx_ok: "unsigned_tx_ok psbt_sample_tx" "length (ser_unsigned_tx psbt_sample_tx) = 61"
  by (simp_all add: unsigned_tx_ok_def psbt_sample_tx_def vec_ok_def txin_core_ok_def outpoint_ok_def bytes_ok_def txout_ok_def
      enc_vec_def enc_VarInt_def enc_TxIn_def enc_TxOut_def enc_OutPoint_def enc_Sequence_def enc_with_size_def enc_array_def
      MAX_VEC_SIZE_def ecat_def encode_int_def emit_slice_def emit_u8_def ser_unsigned_tx_def enc_Version_def enc_LockTime_def serialize_def is_block_height_def LOCK_TIME_THRESHOLD_def)

lemma psbt_sample_ok: "psbt_ok psbt_sample_ops psbt_sample"
proof -
  have "length (serialize_map (global_pairs psbt_sample)) \<le> MAX_VEC_SIZE"
    by (simp add: global_pairs_def psbt_sample_def serialize_map_def pair_serialize_def key_serialize_eq enc_with_size_def psbt_sample_tx_ok
        enc_VarInt_def ecat_def encode_int_def emit_slice_def emit_u8_def push_unkeyed_def push_proprietary_def push_unknown_def MAX_VEC_SIZE_def)
  then have "global_ok psbt_sample_ops psbt_sample"
    by (simp add: global_ok_def global_state_ok_def psbt_state_def psbt_sample_tx_ok opt_ok_def entries_ok_def value_fits_iff psbt_sample_def
      bt_ok_def unknown_entry_ok_def global_types_def psbt_global_consts key_fits_def MAX_VEC_SIZE_def)
  moreover have "list_all (input_ok psbt_sample_ops) (psbt_inputs psbt_sample)"
    by (simp add: psbt_sample_def input_ok_def opt_ok_def entries_ok_def value_fits_iff PsbtInput_default_def bt_ok_def kv_ok_def
        txout_ok_def bytes_ok_def serialize_def enc_TxOut_def enc_with_size_def enc_VarInt_def ecat_def encode_int_def emit_slice_def emit_u8_def
        pubkey_ok_def secp_pk_ok_def ser_pubkey_def pubkey_bytes_def ecdsa_ok_def ser_ecdsa_def ecdsa_to_vec_def psbt_sample_ops_def key_fits_def
        MAX_VEC_SIZE_def)
  moreover have "list_all (output_ok psbt_sample_ops) (psbt_outputs psbt_sample)"
    by (simp add: psbt_sample_def output_ok_def opt_ok_def entries_ok_def value_fits_iff PsbtOutput_default_def bt_ok_def ser_script_def)
  ultimately show ?thesis by (simp add: psbt_ok_def psbt_sample_def psbt_sample_tx_def)
qed

section \<open>Fee and extraction\<close>

definition out_sum :: "TxOut list \<Rightarrow> nat" where "out_sum outs = sum_list (map (\<lambda>x. unat (txout_value x)) outs)"

definition funding :: "Psbt \<Rightarrow> (PsbtError + TxOut) list" where
  "funding p = map2 funding_utxo (tx_input (psbt_unsigned_tx p)) (psbt_inputs p)"

lemma out_sum_simps [simp]: "out_sum [] = 0" "out_sum (x # xs) = unat (txout_value x) + out_sum xs"
  by (simp_all add: out_sum_def)

lemma unat_u64_less: "unat (a :: u64) < 2 ^ 64"
  using unsigned_less [of a] by simp

lemma checked_add_iff: "checked_add_u64 a b = Some c \<longleftrightarrow> unat a + unat b < 2 ^ 64 \<and> unat c = unat a + unat b"
  by (auto simp: checked_add_u64_def unat_plus_if' word_unat_eq_iff)

lemma sum_outputs_Inr: "sum_outputs outs acc = Inr s \<longleftrightarrow> unat acc + out_sum outs < 2 ^ 64 \<and> unat s = unat acc + out_sum outs"
proof (induction outs arbitrary: acc)
  case Nil
  then show ?case using unat_u64_less [of acc] by (auto simp: word_unat_eq_iff)
next
  case (Cons x outs)
  show ?case
  proof (cases "checked_add_u64 acc (txout_value x)")
    case None
    then show ?thesis by (auto simp: checked_add_u64_def split: if_splits)
  next
    case (Some a)
    then show ?thesis using Cons [of a] checked_add_iff [of acc "txout_value x" a] by (auto simp: add.assoc)
  qed
qed

lemma sum_outputs_Inl: "sum_outputs outs acc = Inl e \<longleftrightarrow> e = FeeOverflow \<and> unat acc + out_sum outs \<ge> 2 ^ 64"
proof -
  have "sum_outputs outs acc = Inl d \<Longrightarrow> d = FeeOverflow" for d by (induction outs arbitrary: acc) (auto split: option.splits)
  moreover have "(\<exists>s. sum_outputs outs acc = Inr s) \<longleftrightarrow> unat acc + out_sum outs < 2 ^ 64"
  proof
    assume "unat acc + out_sum outs < 2 ^ 64"
    from sum_outputs_Inr [of outs acc "word_of_nat (unat acc + out_sum outs)"] this unat_len [OF this]
    show "\<exists>s. sum_outputs outs acc = Inr s" by blast
  qed (use sum_outputs_Inr in blast)
  ultimately show ?thesis by (cases "sum_outputs outs acc") (auto simp: not_less)
qed

lemma ex_map_Inr_Cons: "(\<exists>outs. Inr x # us = map Inr outs \<and> P outs) \<longleftrightarrow> (\<exists>outs. us = map Inr outs \<and> P (x # outs))"
  by (auto simp: Cons_eq_map_conv)

lemma sum_inputs_Inr:
  "sum_inputs us acc = Inr s \<longleftrightarrow> (\<exists>outs. us = map Inr outs \<and> unat acc + out_sum outs < 2 ^ 64 \<and> unat s = unat acc + out_sum outs)"
proof (induction us arbitrary: acc)
  case Nil
  then show ?case using unat_u64_less [of acc] by (auto simp: word_unat_eq_iff)
next
  case (Cons u us)
  show ?case
  proof (cases u)
    case (Inl e)
    then show ?thesis by (auto simp: Cons_eq_map_conv)
  next
    case (Inr x)
    show ?thesis
    proof (cases "checked_add_u64 acc (txout_value x)")
      case None
      then show ?thesis unfolding Inr ex_map_Inr_Cons by (auto simp: checked_add_u64_def split: if_splits)
    next
      case (Some a)
      then show ?thesis unfolding Inr ex_map_Inr_Cons using Cons [of a] checked_add_iff [of acc "txout_value x" a] by (simp add: add.assoc)
    qed
  qed
qed

text \<open>The first funding error is reported unless the sum before it overflows.\<close>

lemma sum_inputs_Inl:
  assumes "e \<noteq> FeeOverflow"
  shows "sum_inputs us acc = Inl e \<longleftrightarrow> (\<exists>outs rest. us = map Inr outs @ Inl e # rest \<and> unat acc + out_sum outs < 2 ^ 64)"
proof (induction us arbitrary: acc)
  case (Cons u us)
  show ?case
  proof (cases u)
    case (Inl d)
    then show ?thesis using unat_u64_less [of acc] by (auto simp: Cons_eq_append_conv Cons_eq_map_conv)
  next
    case (Inr x)
    have c: "(\<exists>outs rest. u # us = map Inr outs @ Inl e # rest \<and> unat acc + out_sum outs < 2 ^ 64) \<longleftrightarrow>
        (\<exists>outs rest. us = map Inr outs @ Inl e # rest \<and> unat acc + (unat (txout_value x) + out_sum outs) < 2 ^ 64)"
    proof
      assume "\<exists>outs rest. u # us = map Inr outs @ Inl e # rest \<and> unat acc + out_sum outs < 2 ^ 64"
      then obtain outs rest where "u # us = map Inr outs @ Inl e # rest" "unat acc + out_sum outs < 2 ^ 64" by blast
      then show "\<exists>outs rest. us = map Inr outs @ Inl e # rest \<and> unat acc + (unat (txout_value x) + out_sum outs) < 2 ^ 64"
        using Inr by (cases outs) auto
    next
      assume "\<exists>outs rest. us = map Inr outs @ Inl e # rest \<and> unat acc + (unat (txout_value x) + out_sum outs) < 2 ^ 64"
      then obtain outs rest where "us = map Inr outs @ Inl e # rest" "unat acc + (unat (txout_value x) + out_sum outs) < 2 ^ 64" by blast
      then have "u # us = map Inr (x # outs) @ Inl e # rest" "unat acc + out_sum (x # outs) < 2 ^ 64" using Inr by simp_all
      then show "\<exists>outs rest. u # us = map Inr outs @ Inl e # rest \<and> unat acc + out_sum outs < 2 ^ 64" by blast
    qed
    show ?thesis
    proof (cases "checked_add_u64 acc (txout_value x)")
      case None
      then show ?thesis unfolding c using Inr assms by (auto simp: checked_add_u64_def split: if_splits)
    next
      case (Some a)
      then show ?thesis unfolding c using Inr Cons [of a] checked_add_iff [of acc "txout_value x" a] by (simp add: add.assoc)
    qed
  qed
qed simp

lemma psbt_fee_eq:
  assumes "length (psbt_inputs p) = length (tx_input (psbt_unsigned_tx p))"
  shows "psbt_fee p = Some (case sum_inputs (funding p) 0 of
         Inl e \<Rightarrow> Inl e
       | Inr ins \<Rightarrow>
           (case sum_outputs (tx_output (psbt_unsigned_tx p)) 0 of
              Inl e \<Rightarrow> Inl e
            | Inr outs \<Rightarrow> (case checked_sub_u64 ins outs of None \<Rightarrow> Inl NegativeFee | Some fee \<Rightarrow> Inr (Amount fee))))"
  using assms by (simp add: psbt_fee_def iter_funding_utxos_def funding_def)

lemma psbt_fee_Inr:
  assumes "length (psbt_inputs p) = length (tx_input (psbt_unsigned_tx p))"
  shows "psbt_fee p = Some (Inr fee) \<longleftrightarrow>
    (\<exists>outs. funding p = map Inr outs \<and> out_sum outs < 2 ^ 64 \<and> out_sum (tx_output (psbt_unsigned_tx p)) + unat (to_sat fee) = out_sum outs)"
proof -
  let ?outs = "tx_output (psbt_unsigned_tx p)"
  have "psbt_fee p = Some (Inr fee) \<longleftrightarrow>
      (\<exists>ins o'. sum_inputs (funding p) 0 = Inr ins \<and> sum_outputs ?outs 0 = Inr o' \<and> o' \<le> ins \<and> fee = Amount (ins - o'))"
    unfolding psbt_fee_eq [OF assms] by (auto simp: checked_sub_u64_def split: sum.split option.split)
  also have "\<dots> \<longleftrightarrow> (\<exists>ins o' outs. funding p = map Inr outs \<and> out_sum outs < 2 ^ 64 \<and> unat ins = out_sum outs \<and> out_sum ?outs < 2 ^ 64 \<and>
      unat o' = out_sum ?outs \<and> o' \<le> ins \<and> fee = Amount (ins - o'))"
    unfolding sum_inputs_Inr sum_outputs_Inr by auto
  also have "\<dots> \<longleftrightarrow> (\<exists>outs. funding p = map Inr outs \<and> out_sum outs < 2 ^ 64 \<and> out_sum ?outs + unat (to_sat fee) = out_sum outs)"
  proof
    assume "\<exists>outs. funding p = map Inr outs \<and> out_sum outs < 2 ^ 64 \<and> out_sum ?outs + unat (to_sat fee) = out_sum outs"
    then obtain outs where o: "funding p = map Inr outs" "out_sum outs < 2 ^ 64" "out_sum ?outs + unat (to_sat fee) = out_sum outs" by blast
    define ins o' where "ins = (word_of_nat (out_sum outs) :: u64)" "o' = (word_of_nat (out_sum ?outs) :: u64)"
    have u: "unat ins = out_sum outs" "unat o' = out_sum ?outs" unfolding ins_o'_def using o by (simp_all add: unat_len)
    then have "o' \<le> ins" using o by (simp add: word_le_nat_alt)
    moreover from this have "unat (ins - o') = unat (to_sat fee)" using o u by (simp add: unat_sub)
    then have "fee = Amount (ins - o')" by (cases fee) (simp add: word_unat_eq_iff)
    moreover have "out_sum ?outs < 2 ^ 64" using o by linarith
    ultimately show "\<exists>ins o' outs. funding p = map Inr outs \<and> out_sum outs < 2 ^ 64 \<and> unat ins = out_sum outs \<and> out_sum ?outs < 2 ^ 64 \<and>
        unat o' = out_sum ?outs \<and> o' \<le> ins \<and> fee = Amount (ins - o')"
      using o u by (intro exI [of _ ins] exI [of _ o'] exI [of _ outs] conjI)
  qed (auto simp: word_le_nat_alt unat_sub)
  finally show ?thesis .
qed

lemma sum_inputs_error: "sum_inputs us acc = Inl e \<Longrightarrow> e = FeeOverflow \<or> Inl e \<in> set us"
  by (induction us arbitrary: acc) (auto split: sum.splits option.splits)

lemma funding_errors: "Inl e \<in> set (funding p) \<Longrightarrow> e = MissingUtxo \<or> e = PsbtUtxoOutOfbounds"
  by (auto simp: funding_def funding_utxo_def Let_def split: option.splits if_splits)

lemma psbt_fee_errors:
  assumes "length (psbt_inputs p) = length (tx_input (psbt_unsigned_tx p))"
  shows "psbt_fee p = Some (Inl e) \<Longrightarrow> e = MissingUtxo \<or> e = PsbtUtxoOutOfbounds \<or> e = FeeOverflow \<or> e = NegativeFee"
    "psbt_fee p = Some (Inl PsbtUtxoOutOfbounds) \<longleftrightarrow> sum_inputs (funding p) 0 = Inl PsbtUtxoOutOfbounds"
  using sum_inputs_error [of "funding p" 0] funding_errors [of _ p] sum_outputs_Inl [of "tx_output (psbt_unsigned_tx p)" 0]
  unfolding psbt_fee_eq [OF assms] by (auto split: sum.splits option.splits)

text \<open>Extraction changes script signatures and witnesses only, and the result can be encoded.\<close>

lemma fill_inputs_strip:
  "list_all (\<lambda>i. script_sig i = [] \<and> witness i = witness_new) vins \<Longrightarrow> length ms = length vins \<Longrightarrow>
     map (\<lambda>i. i\<lparr> script_sig := [], witness := witness_new \<rparr>) (fill_inputs vins ms) = vins"
  by (induction vins ms rule: fill_inputs.induct) auto

lemma fill_inputs_ok:
  "list_all txin_core_ok vins \<Longrightarrow> list_all (input_ok ops) ms \<Longrightarrow> length ms = length vins \<Longrightarrow>
     list_all txin_ok (fill_inputs vins ms) \<and> length (fill_inputs vins ms) = length vins"
proof (induction vins ms rule: fill_inputs.induct)
  case (1 vin vins m ms)
  have m: "opt_ok (\<lambda>_. True) ser_script (in_final_script_sig m)" "opt_ok witness_ok (serialize enc_Witness) (in_final_script_witness m)"
    using "1.prems"(2) by (simp_all add: input_ok_def)
  have "bytes_ok (case in_final_script_sig m of Some s \<Rightarrow> s | None \<Rightarrow> [])"
    using m(1) value_fits_bytes_ok by (cases "in_final_script_sig m") (simp_all add: opt_ok_def ser_script_def bytes_ok_def)
  moreover have "witness_ok (case in_final_script_witness m of Some w \<Rightarrow> w | None \<Rightarrow> witness_new)"
    using m(2) by (cases "in_final_script_witness m") (simp_all add: opt_ok_def witness_ok_new)
  ultimately show ?case using 1 by (simp add: txin_core_ok_def txin_ok_def)
qed auto

lemma fill_inputs_data:
  "length ms = length vins \<Longrightarrow> map (\<lambda>i. (script_sig i, witness i)) (fill_inputs vins ms) =
     map (\<lambda>m. (case in_final_script_sig m of Some s \<Rightarrow> s | None \<Rightarrow> [], case in_final_script_witness m of Some w \<Rightarrow> w | None \<Rightarrow> witness_new)) ms"
  by (induction vins ms rule: fill_inputs.induct) auto

lemma extracted_ok:
  assumes "psbt_ok ops p"
  shows "tx_ok (internal_extract_tx p)" "length (psbt_inputs p) = length (tx_input (psbt_unsigned_tx p))"
    "map (\<lambda>i. i\<lparr> script_sig := [], witness := witness_new \<rparr>) (tx_input (internal_extract_tx p)) = tx_input (psbt_unsigned_tx p)"
proof -
  have u: "unsigned_tx_ok (psbt_unsigned_tx p)" "list_all (\<lambda>i. script_sig i = []) (tx_input (psbt_unsigned_tx p))"
    "list_all (input_ok ops) (psbt_inputs p)"
    using assms by (simp_all add: psbt_ok_def global_ok_def global_state_ok_def psbt_state_def opt_ok_def)
  show l: "length (psbt_inputs p) = length (tx_input (psbt_unsigned_tx p))" using assms by (simp add: psbt_ok_def)
  show "tx_ok (internal_extract_tx p)"
    using u(1) fill_inputs_ok [OF _ u(3) l] by (simp add: internal_extract_tx_def tx_ok_def unsigned_tx_ok_def vec_ok_def)
  show "map (\<lambda>i. i\<lparr> script_sig := [], witness := witness_new \<rparr>) (tx_input (internal_extract_tx p)) = tx_input (psbt_unsigned_tx p)"
    unfolding internal_extract_tx_def using u(1,2)
    by (simp, intro fill_inputs_strip [OF _ l]) (auto simp: unsigned_tx_ok_def vec_ok_def txin_core_ok_def list_all_iff)
qed

definition weight_nat :: "Transaction \<Rightarrow> nat" where
  "weight_nat tx = 3 * length (core_bytes tx) + length (serialize enc_Transaction tx)"

lemma extracted_weight:
  assumes "psbt_ok ops p" "weight_nat (internal_extract_tx p) < 2 ^ 64"
  shows "\<exists>w. tx_weight (internal_extract_tx p) = Some w \<and> unat (to_wu w) = weight_nat (internal_extract_tx p) \<and> to_wu w \<noteq> 0"
proof -
  have w: "tx_weight (internal_extract_tx p) = Some (from_wu_usize (weight_nat (internal_extract_tx p)))"
    unfolding weight_nat_def by (rule tx_weight_nat [OF extracted_ok(1) [OF assms(1)]])
  have u: "unat (to_wu (from_wu_usize (weight_nat (internal_extract_tx p)))) = weight_nat (internal_extract_tx p)"
    unfolding from_wu_usize_def using unat_len [OF assms(2)] by simp
  have "length (serialize enc_Version (tx_version (internal_extract_tx p))) = 4"
    by (cases "tx_version (internal_extract_tx p)") (simp add: serialize_def enc_Version_def encode_int_def)
  then have "0 < weight_nat (internal_extract_tx p)" by (simp add: weight_nat_def core_bytes_def)
  then have "to_wu (from_wu_usize (weight_nat (internal_extract_tx p))) \<noteq> 0" using u by (metis unat_0 less_irrefl)
  then show ?thesis using w u by blast
qed

lemma saturating_mul_nat: "unat (saturating_mul_u64 a b) = min (2 ^ 64 - 1) (unat a * unat b)"
proof (cases "unat a * unat b < 2 ^ 64")
  case True
  then show ?thesis using unat_mult_lem [of a b] by (simp add: saturating_mul_u64_def)
next
  case False
  have "unat (- 1 :: u64) = 2 ^ 64 - 1" by (simp add: unsigned_minus_1_eq_mask mask_eq_exp_minus_1)
  then show ?thesis using False by (simp add: saturating_mul_u64_def)
qed

lemma unat_numeral_1000: "unat (1000 :: u64) = 1000"
  by simp

lemma extract_cases:
  assumes "psbt_ok ops p" "weight_nat (internal_extract_tx p) < 2 ^ 64"
  shows "extract_tx_with_fee_rate_limit p limit = None \<longleftrightarrow> psbt_fee p = Some (Inl PsbtUtxoOutOfbounds)"
    "extract_tx_with_fee_rate_limit p limit = Some (Inr tx) \<longleftrightarrow> tx = internal_extract_tx p \<and> (\<exists>fee. psbt_fee p = Some (Inr fee) \<and>
       min (2 ^ 64 - 1) (unat (to_sat fee) * 1000) div weight_nat tx \<le> unat (to_sat_per_kwu limit))"
proof -
  obtain w where w: "tx_weight (internal_extract_tx p) = Some w" "unat (to_wu w) = weight_nat (internal_extract_tx p)" "to_wu w \<noteq> 0"
    using extracted_weight [OF assms] by blast
  have rate: "to_sat_per_kwu limit < saturating_mul_u64 x 1000 div to_wu w \<longleftrightarrow>
      \<not> min (2 ^ 64 - 1) (unat x * 1000) div weight_nat (internal_extract_tx p) \<le> unat (to_sat_per_kwu limit)" for x
    unfolding word_less_nat_alt unat_div w(2) saturating_mul_nat by (simp only: unat_numeral_1000 not_le)
  obtain r where r: "psbt_fee p = Some r" unfolding psbt_fee_eq [OF extracted_ok(2) [OF assms(1)]] by blast
  note err = psbt_fee_errors(1) [OF extracted_ok(2) [OF assms(1)]]
  show "extract_tx_with_fee_rate_limit p limit = None \<longleftrightarrow> psbt_fee p = Some (Inl PsbtUtxoOutOfbounds)"
    using r err w by (cases r) (auto simp: extract_tx_with_fee_rate_limit_def Let_def)
  show "extract_tx_with_fee_rate_limit p limit = Some (Inr tx) \<longleftrightarrow> tx = internal_extract_tx p \<and> (\<exists>fee. psbt_fee p = Some (Inr fee) \<and>
       min (2 ^ 64 - 1) (unat (to_sat fee) * 1000) div weight_nat tx \<le> unat (to_sat_per_kwu limit))"
    using r err w(1,3) rate by (cases r) (auto simp: extract_tx_with_fee_rate_limit_def Let_def)
qed

lemma psbt_serialize_count: "snd (serialize_to_writer ops p) = length (psbt_serialize ops p)"
  by (simp add: psbt_serialize_def serialize_to_writer_def Let_def length_concat)

lemma psbt_sample_weight: "weight_nat psbt_sample_tx = 244"
proof -
  have "core_bytes psbt_sample_tx = ser_unsigned_tx psbt_sample_tx" by (simp add: core_bytes_def ser_unsigned_tx_def)
  moreover have "\<not> uses_segwit_serialization psbt_sample_tx"
    by (simp add: uses_segwit_serialization_def psbt_sample_tx_def witness_is_empty_def witness_new_def)
  ultimately show ?thesis using psbt_sample_tx_ok(2) by (simp add: weight_nat_def serialized_length)
qed

section \<open>Properties\<close>

text \<open>(C13) The container format: a partially signed transaction is read back from its bytes exactly if it is well-formed, also with
  bytes behind it; what is read is well-formed and so read back, and the count that writing returns is the number of bytes.\<close>

theorem psbt_roundtrip:
  assumes "psbt_ops_ok ops"
  shows "(psbt_deserialize ops (psbt_serialize ops p @ rest) = Inr p \<longleftrightarrow> psbt_ok ops p) \<and>
    (psbt_deserialize ops bs = Inr q \<longrightarrow> psbt_ok ops q \<and> psbt_deserialize ops (psbt_serialize ops q) = Inr q) \<and>
    snd (serialize_to_writer ops p) = length (psbt_serialize ops p)"
proof -
  have d: "psbt_deserialize ops bs = Inr q \<longleftrightarrow> (\<exists>r. deserialize_from_reader ops bs = Inr (q, r))" for bs q
    by (cases "deserialize_from_reader ops bs") (auto simp: psbt_deserialize_def)
  have "psbt_deserialize ops (psbt_serialize ops q @ r) = Inr q \<longleftrightarrow> psbt_ok ops q" for q r
    unfolding d using deserialize_from_reader_serialize [OF assms, of q r] deserialize_from_reader_ok [OF assms] by blast
  moreover have "psbt_ok ops q" if "psbt_deserialize ops bs = Inr q"
    using that deserialize_from_reader_ok [OF assms] unfolding d by blast
  ultimately show ?thesis
    by (metis append_Nil2 psbt_serialize_count)
qed

theorem psbt_roundtrip_witness:
  "psbt_deserialize psbt_sample_ops (psbt_serialize psbt_sample_ops psbt_sample @ [1, 2]) = Inr psbt_sample"
  using psbt_roundtrip [OF psbt_sample_ops_ok, of psbt_sample "[1, 2]"] psbt_sample_ok by blast

text \<open>(C27) Extraction with a limit on the fee rate. It panics exactly if the first input without usable funding refers to an output that the
  transaction it names does not have; it succeeds exactly if all inputs are funded, the sums fit, the outputs do not exceed the inputs
  and the fee, in satoshi per thousand weight units of the extracted transaction, is within the limit; and what is extracted differs from
  the unsigned transaction in the signature data only, which is the final data of the inputs.\<close>

theorem psbt_extract_exact:
  assumes "psbt_ok ops p" "weight_nat (internal_extract_tx p) < 2 ^ 64"
  shows "(extract_tx_with_fee_rate_limit p limit = None \<longleftrightarrow>
      (\<exists>outs rest. funding p = map Inr outs @ Inl PsbtUtxoOutOfbounds # rest \<and> out_sum outs < 2 ^ 64)) \<and>
    (extract_tx_with_fee_rate_limit p limit = Some (Inr tx) \<longleftrightarrow> tx = internal_extract_tx p \<and>
      (\<exists>outs fee. funding p = map Inr outs \<and> out_sum outs < 2 ^ 64 \<and> out_sum (tx_output (psbt_unsigned_tx p)) + fee = out_sum outs \<and>
         min (2 ^ 64 - 1) (fee * 1000) div weight_nat tx \<le> unat (to_sat_per_kwu limit))) \<and>
    (internal_extract_tx p)\<lparr> tx_input := map (\<lambda>i. i\<lparr> script_sig := [], witness := witness_new \<rparr>) (tx_input (internal_extract_tx p)) \<rparr> =
      psbt_unsigned_tx p \<and>
    map (\<lambda>i. (script_sig i, witness i)) (tx_input (internal_extract_tx p)) =
      map (\<lambda>m. (case in_final_script_sig m of Some s \<Rightarrow> s | None \<Rightarrow> [], case in_final_script_witness m of Some w \<Rightarrow> w | None \<Rightarrow> witness_new))
        (psbt_inputs p)"
proof -
  note l = extracted_ok(2) [OF assms(1)]
  have panic: "psbt_fee p = Some (Inl PsbtUtxoOutOfbounds) \<longleftrightarrow>
      (\<exists>outs rest. funding p = map Inr outs @ Inl PsbtUtxoOutOfbounds # rest \<and> out_sum outs < 2 ^ 64)"
    unfolding psbt_fee_errors(2) [OF l] by (subst sum_inputs_Inl) simp_all
  have fee: "(\<exists>fee. psbt_fee p = Some (Inr fee) \<and> P (unat (to_sat fee))) \<longleftrightarrow>
      (\<exists>outs fee. funding p = map Inr outs \<and> out_sum outs < 2 ^ 64 \<and> out_sum (tx_output (psbt_unsigned_tx p)) + fee = out_sum outs \<and> P fee)" for P
  proof
    assume "\<exists>outs fee. funding p = map Inr outs \<and> out_sum outs < 2 ^ 64 \<and> out_sum (tx_output (psbt_unsigned_tx p)) + fee = out_sum outs \<and> P fee"
    then obtain outs fee where f: "funding p = map Inr outs" "out_sum outs < 2 ^ 64"
      "out_sum (tx_output (psbt_unsigned_tx p)) + fee = out_sum outs" "P fee" by blast
    then have "unat (to_sat (Amount (word_of_nat fee))) = fee" using unat_len [of fee] by simp
    then show "\<exists>fee. psbt_fee p = Some (Inr fee) \<and> P (unat (to_sat fee))"
      using f psbt_fee_Inr [OF l, of "Amount (word_of_nat fee)"] by metis
  qed (use psbt_fee_Inr [OF l] in blast)
  have "(internal_extract_tx p)\<lparr> tx_input := tx_input (psbt_unsigned_tx p) \<rparr> = psbt_unsigned_tx p"
    by (simp add: internal_extract_tx_def)
  moreover have "map (\<lambda>i. (script_sig i, witness i)) (tx_input (internal_extract_tx p)) =
      map (\<lambda>m. (case in_final_script_sig m of Some s \<Rightarrow> s | None \<Rightarrow> [], case in_final_script_witness m of Some w \<Rightarrow> w | None \<Rightarrow> witness_new))
        (psbt_inputs p)"
    unfolding internal_extract_tx_def using fill_inputs_data [OF l] by simp
  ultimately show ?thesis
    unfolding extract_cases [OF assms] extracted_ok(3) [OF assms(1)] panic
      fee [of "\<lambda>x. min (2 ^ 64 - 1) (x * 1000) div weight_nat tx \<le> unat (to_sat_per_kwu limit)"] by blast
qed

theorem psbt_extract_exact_witness:
  "extract_tx psbt_sample = Some (Inr psbt_sample_tx)"
proof -
  have e: "internal_extract_tx psbt_sample = psbt_sample_tx"
    by (simp add: internal_extract_tx_def psbt_sample_def psbt_sample_tx_def PsbtInput_default_def)
  have w: "weight_nat psbt_sample_tx = 244" by (rule psbt_sample_weight)
  have f: "funding psbt_sample = map Inr [\<lparr> txout_value = 1500, script_pubkey = [0x51] \<rparr>]"
    by (simp add: funding_def funding_utxo_def psbt_sample_def psbt_sample_tx_def)
  have o: "tx_output (psbt_unsigned_tx psbt_sample) = [\<lparr> txout_value = 1000, script_pubkey = [0x51] \<rparr>]"
    by (simp add: psbt_sample_def psbt_sample_tx_def)
  have "extract_tx_with_fee_rate_limit psbt_sample DEFAULT_MAX_FEE_RATE = Some (Inr psbt_sample_tx)"
  proof (rule psbt_extract_exact [OF psbt_sample_ok, THEN conjunct2, THEN conjunct1, THEN iffD2])
    show "weight_nat (internal_extract_tx psbt_sample) < 2 ^ 64" by (simp add: e w)
    show "psbt_sample_tx = internal_extract_tx psbt_sample \<and>
        (\<exists>outs fee. funding psbt_sample = map Inr outs \<and> out_sum outs < 2 ^ 64 \<and>
           out_sum (tx_output (psbt_unsigned_tx psbt_sample)) + fee = out_sum outs \<and>
           min (2 ^ 64 - 1) (fee * 1000) div weight_nat psbt_sample_tx \<le> unat (to_sat_per_kwu DEFAULT_MAX_FEE_RATE))"
      by (intro conjI e [symmetric] exI [of _ "[\<lparr> txout_value = 1500, script_pubkey = [0x51] \<rparr>]"] exI [of _ 500] f)
        (simp_all add: o w DEFAULT_MAX_FEE_RATE_def)
  qed
  then show ?thesis by (simp add: extract_tx_def)
qed

end
