(* ===== verification/PsbtCombine.thy ===== *)
theory PsbtCombine
  imports Psbt "HOL-Library.Sublist"
begin

text \<open>
  Combining partially signed transactions. The comment of \<open>combine\<close> claims that it commutes: the lemmas say for which pairs it
  does, field by field. They say when combining succeeds, what the result holds and that it is well-formed, and how the choice
  between two sources of a key relates to the rule that the comment in the loop states.
\<close>

section \<open>Merging maps and options\<close>

definition fields_agree :: "'a option \<Rightarrow> 'a option \<Rightarrow> bool" where
  "fields_agree x y \<longleftrightarrow> x = None \<or> y = None \<or> x = y"

definition maps_agree :: "'k cmp \<Rightarrow> ('k, 'v) btree \<Rightarrow> ('k, 'v) btree \<Rightarrow> bool" where
  "maps_agree c m n \<longleftrightarrow> (\<forall>k. fields_agree (bt_get c m k) (bt_get c n k))"

lemma combine_field_laws:
  "combine_field x x = x" "combine_field (combine_field x y) z = combine_field x (combine_field y z)"
  "combine_field x y = combine_field y x \<longleftrightarrow> fields_agree x y"
  by (auto simp: combine_field_def fields_agree_def split: option.splits)

context total_cmp begin

lemma extend_lookup_comm:
  assumes "bt_ok c m" "bt_ok c n"
  shows "bt_extend c m n = bt_extend c n m \<longleftrightarrow> maps_agree c m n"
proof -
  have "bt_extend c m n = bt_extend c n m \<longleftrightarrow> (\<forall>k. bt_get c (bt_extend c m n) k = bt_get c (bt_extend c n m) k)"
    using map_ext [OF extend_ok [OF assms(1)] extend_ok [OF assms(2)]] by auto
  moreover have "(case y of Some v \<Rightarrow> Some v | None \<Rightarrow> x) = (case x of Some v \<Rightarrow> Some v | None \<Rightarrow> y) \<longleftrightarrow> fields_agree x y" for x y :: "'a option"
    by (auto simp: fields_agree_def split: option.splits)
  ultimately show ?thesis unfolding maps_agree_def get_extend [OF assms] get_extend [OF assms(2,1)] by simp
qed

lemma get_Cons:
  assumes "bt_ok c ((x, v) # m)"
  shows "bt_get c ((x, v) # m) k = (if k = x then Some v else bt_get c m k)" "bt_get c m x = None"
proof -
  have above: "\<forall>k' \<in> fst ` set m. c x k' = Less" using assms by (simp add: bt_ok_Cons)
  then show "bt_get c m x = None" by (rule get_above)
  have "bt_get c m k = None" if "c k x = Less"
    using above less_trans [OF that] by (intro get_above) blast
  then show "bt_get c ((x, v) # m) k = (if k = x then Some v else bt_get c m k)"
    by (cases "c k x") (auto simp: eq_iff)
qed

lemma extend_idem: "bt_ok c m \<Longrightarrow> bt_extend c m m = m"
  by (rule map_ext) (auto simp: extend_ok get_extend split: option.splits)

lemma extend_assoc:
  assumes "bt_ok c m" "bt_ok c n" "bt_ok c l"
  shows "bt_extend c (bt_extend c m n) l = bt_extend c m (bt_extend c n l)"
  by (rule map_ext) (use assms in \<open>auto simp: extend_ok get_extend split: option.splits\<close>)

lemma extend_set: "set (bt_extend c m other) \<subseteq> set m \<union> set other"
proof (induction other arbitrary: m)
  case (Cons e other)
  show ?case using Cons [of "bt_insert c (fst e) (snd e) m"] insert_set_sub [of "fst e" "snd e" m]
    by (cases e) (auto simp: bt_extend_def)
qed (simp add: bt_extend_def)

lemma extend_entries: "entries_ok c P m \<Longrightarrow> entries_ok c P n \<Longrightarrow> entries_ok c P (bt_extend c m n)"
  using extend_set [of m n] by (auto simp: entries_ok_def extend_ok)

end

lemma combine_field_ok: "opt_ok ok ser x \<Longrightarrow> opt_ok ok ser y \<Longrightarrow> opt_ok ok ser (combine_field x y)"
  by (auto simp: opt_ok_def combine_field_def split: option.splits)

lemmas psbt_orders = psbt_cmps total_cmp_xpub byte_cmp.total_cmp_axioms raw_key_cmp.total_cmp_axioms proprietary_cmp.total_cmp_axioms

section \<open>Outputs\<close>

definition outputs_agree :: "PsbtOps \<Rightarrow> PsbtOutput \<Rightarrow> PsbtOutput \<Rightarrow> bool" where
  "outputs_agree ops a b \<longleftrightarrow>
     fields_agree (out_redeem_script a) (out_redeem_script b) \<and> fields_agree (out_witness_script a) (out_witness_script b) \<and>
     maps_agree (secp_pk_cmp ops) (out_bip32_derivation a) (out_bip32_derivation b) \<and>
     fields_agree (out_tap_internal_key a) (out_tap_internal_key b) \<and> fields_agree (out_tap_tree a) (out_tap_tree b) \<and>
     maps_agree (xonly_cmp ops) (out_tap_key_origins a) (out_tap_key_origins b) \<and>
     maps_agree cmp_proprietary (out_proprietary a) (out_proprietary b) \<and> maps_agree cmp_raw_key (out_unknown a) (out_unknown b)"

lemma output_combine_fields:
  "out_redeem_script (output_combine ops a b) = combine_field (out_redeem_script a) (out_redeem_script b)"
  "out_witness_script (output_combine ops a b) = combine_field (out_witness_script a) (out_witness_script b)"
  "out_bip32_derivation (output_combine ops a b) = bt_extend (secp_pk_cmp ops) (out_bip32_derivation a) (out_bip32_derivation b)"
  "out_tap_internal_key (output_combine ops a b) = combine_field (out_tap_internal_key a) (out_tap_internal_key b)"
  "out_tap_tree (output_combine ops a b) = combine_field (out_tap_tree a) (out_tap_tree b)"
  "out_tap_key_origins (output_combine ops a b) = bt_extend (xonly_cmp ops) (out_tap_key_origins a) (out_tap_key_origins b)"
  "out_proprietary (output_combine ops a b) = bt_extend cmp_proprietary (out_proprietary a) (out_proprietary b)"
  "out_unknown (output_combine ops a b) = bt_extend cmp_raw_key (out_unknown a) (out_unknown b)"
  by (simp_all add: output_combine_def)

lemma output_eq_iff:
  "(a :: PsbtOutput) = b \<longleftrightarrow>
     out_redeem_script a = out_redeem_script b \<and> out_witness_script a = out_witness_script b \<and>
     out_bip32_derivation a = out_bip32_derivation b \<and> out_tap_internal_key a = out_tap_internal_key b \<and>
     out_tap_tree a = out_tap_tree b \<and> out_tap_key_origins a = out_tap_key_origins b \<and> out_proprietary a = out_proprietary b \<and>
     out_unknown a = out_unknown b"
  by (cases a; cases b) simp

lemma output_maps:
  assumes "output_ok ops a"
  shows "bt_ok (secp_pk_cmp ops) (out_bip32_derivation a)" "bt_ok (xonly_cmp ops) (out_tap_key_origins a)"
    "bt_ok cmp_proprietary (out_proprietary a)" "bt_ok cmp_raw_key (out_unknown a)"
  using assms unfolding output_ok_def entries_ok_def by simp_all

lemma output_combine_comm:
  assumes "psbt_ops_ok ops" "output_ok ops a" "output_ok ops b"
  shows "output_combine ops a b = output_combine ops b a \<longleftrightarrow> outputs_agree ops a b"
  unfolding output_eq_iff output_combine_fields outputs_agree_def combine_field_laws
  using total_cmp.extend_lookup_comm [OF psbt_orders(1) [OF assms(1)] output_maps(1) [OF assms(2)] output_maps(1) [OF assms(3)]]
    total_cmp.extend_lookup_comm [OF psbt_orders(2) [OF assms(1)] output_maps(2) [OF assms(2)] output_maps(2) [OF assms(3)]]
    proprietary_cmp.extend_lookup_comm [OF output_maps(3) [OF assms(2)] output_maps(3) [OF assms(3)]]
    raw_key_cmp.extend_lookup_comm [OF output_maps(4) [OF assms(2)] output_maps(4) [OF assms(3)]] by blast


lemma output_combine_assoc:
  assumes "psbt_ops_ok ops" "output_ok ops a" "output_ok ops b" "output_ok ops d"
  shows "output_combine ops (output_combine ops a b) d = output_combine ops a (output_combine ops b d)"
  unfolding output_eq_iff output_combine_fields combine_field_laws
  by (simp add: total_cmp.extend_assoc [OF psbt_orders(1) [OF assms(1)]] total_cmp.extend_assoc [OF psbt_orders(2) [OF assms(1)]]
      proprietary_cmp.extend_assoc raw_key_cmp.extend_assoc output_maps [OF assms(2)] output_maps [OF assms(3)] output_maps [OF assms(4)])

lemma output_combine_ok:
  assumes "psbt_ops_ok ops" "output_ok ops a" "output_ok ops b"
  shows "output_ok ops (output_combine ops a b)"
  using assms(2,3) unfolding output_ok_def output_combine_fields
  by (intro conjI combine_field_ok total_cmp.extend_entries psbt_orders assms(1)) simp_all

section \<open>Inputs\<close>

text \<open>The two kinds of previous output interact: a witness output that the receiver takes over removes its transaction.\<close>

definition utxos_agree :: "PsbtInput \<Rightarrow> PsbtInput \<Rightarrow> bool" where
  "utxos_agree a b \<longleftrightarrow>
     (if (in_witness_utxo a = None) = (in_witness_utxo b = None)
      then in_witness_utxo a = in_witness_utxo b \<and> fields_agree (in_non_witness_utxo a) (in_non_witness_utxo b)
      else in_non_witness_utxo a = None \<and> in_non_witness_utxo b = None)"

definition inputs_agree :: "PsbtOps \<Rightarrow> PsbtInput \<Rightarrow> PsbtInput \<Rightarrow> bool" where
  "inputs_agree ops a b \<longleftrightarrow>
     utxos_agree a b \<and> in_sighash_type a = in_sighash_type b \<and>
     fields_agree (in_redeem_script a) (in_redeem_script b) \<and> fields_agree (in_witness_script a) (in_witness_script b) \<and>
     fields_agree (in_final_script_sig a) (in_final_script_sig b) \<and>
     fields_agree (in_final_script_witness a) (in_final_script_witness b) \<and>
     fields_agree (in_tap_key_sig a) (in_tap_key_sig b) \<and> fields_agree (in_tap_internal_key a) (in_tap_internal_key b) \<and>
     fields_agree (in_tap_merkle_root a) (in_tap_merkle_root b) \<and>
     maps_agree (cmp_pubkey ops) (in_partial_sigs a) (in_partial_sigs b) \<and>
     maps_agree (secp_pk_cmp ops) (in_bip32_derivation a) (in_bip32_derivation b) \<and>
     maps_agree cmp_bytes (in_ripemd160_preimages a) (in_ripemd160_preimages b) \<and>
     maps_agree cmp_bytes (in_sha256_preimages a) (in_sha256_preimages b) \<and>
     maps_agree cmp_bytes (in_hash160_preimages a) (in_hash160_preimages b) \<and>
     maps_agree cmp_bytes (in_hash256_preimages a) (in_hash256_preimages b) \<and>
     maps_agree (cmp_pair (xonly_cmp ops) cmp_bytes) (in_tap_script_sigs a) (in_tap_script_sigs b) \<and>
     maps_agree (cmp_cb ops) (in_tap_scripts a) (in_tap_scripts b) \<and>
     maps_agree (xonly_cmp ops) (in_tap_key_origins a) (in_tap_key_origins b) \<and>
     maps_agree cmp_proprietary (in_proprietary a) (in_proprietary b) \<and> maps_agree cmp_raw_key (in_unknown a) (in_unknown b)"

lemma input_combine_fields:
  "in_non_witness_utxo (input_combine ops a b) =
     (if in_witness_utxo a = None \<and> in_witness_utxo b \<noteq> None then None
      else combine_field (in_non_witness_utxo a) (in_non_witness_utxo b))"
  "in_witness_utxo (input_combine ops a b) = combine_field (in_witness_utxo a) (in_witness_utxo b)"
  "in_sighash_type (input_combine ops a b) = in_sighash_type a"
  "in_redeem_script (input_combine ops a b) = combine_field (in_redeem_script a) (in_redeem_script b)"
  "in_witness_script (input_combine ops a b) = combine_field (in_witness_script a) (in_witness_script b)"
  "in_final_script_sig (input_combine ops a b) = combine_field (in_final_script_sig a) (in_final_script_sig b)"
  "in_final_script_witness (input_combine ops a b) = combine_field (in_final_script_witness a) (in_final_script_witness b)"
  "in_tap_key_sig (input_combine ops a b) = combine_field (in_tap_key_sig a) (in_tap_key_sig b)"
  "in_tap_internal_key (input_combine ops a b) = combine_field (in_tap_internal_key a) (in_tap_internal_key b)"
  "in_tap_merkle_root (input_combine ops a b) = combine_field (in_tap_merkle_root a) (in_tap_merkle_root b)"
  "in_partial_sigs (input_combine ops a b) = bt_extend (cmp_pubkey ops) (in_partial_sigs a) (in_partial_sigs b)"
  "in_bip32_derivation (input_combine ops a b) = bt_extend (secp_pk_cmp ops) (in_bip32_derivation a) (in_bip32_derivation b)"
  "in_ripemd160_preimages (input_combine ops a b) = bt_extend cmp_bytes (in_ripemd160_preimages a) (in_ripemd160_preimages b)"
  "in_sha256_preimages (input_combine ops a b) = bt_extend cmp_bytes (in_sha256_preimages a) (in_sha256_preimages b)"
  "in_hash160_preimages (input_combine ops a b) = bt_extend cmp_bytes (in_hash160_preimages a) (in_hash160_preimages b)"
  "in_hash256_preimages (input_combine ops a b) = bt_extend cmp_bytes (in_hash256_preimages a) (in_hash256_preimages b)"
  "in_tap_script_sigs (input_combine ops a b) = bt_extend (cmp_pair (xonly_cmp ops) cmp_bytes) (in_tap_script_sigs a) (in_tap_script_sigs b)"
  "in_tap_scripts (input_combine ops a b) = bt_extend (cmp_cb ops) (in_tap_scripts a) (in_tap_scripts b)"
  "in_tap_key_origins (input_combine ops a b) = bt_extend (xonly_cmp ops) (in_tap_key_origins a) (in_tap_key_origins b)"
  "in_proprietary (input_combine ops a b) = bt_extend cmp_proprietary (in_proprietary a) (in_proprietary b)"
  "in_unknown (input_combine ops a b) = bt_extend cmp_raw_key (in_unknown a) (in_unknown b)"
  by (auto simp: input_combine_def Let_def combine_field_def split: option.splits)

lemma input_eq_iff:
  "(a :: PsbtInput) = b \<longleftrightarrow>
     in_non_witness_utxo a = in_non_witness_utxo b \<and> in_witness_utxo a = in_witness_utxo b \<and>
     in_sighash_type a = in_sighash_type b \<and> in_redeem_script a = in_redeem_script b \<and>
     in_witness_script a = in_witness_script b \<and> in_final_script_sig a = in_final_script_sig b \<and>
     in_final_script_witness a = in_final_script_witness b \<and> in_tap_key_sig a = in_tap_key_sig b \<and>
     in_tap_internal_key a = in_tap_internal_key b \<and> in_tap_merkle_root a = in_tap_merkle_root b \<and>
     in_partial_sigs a = in_partial_sigs b \<and> in_bip32_derivation a = in_bip32_derivation b \<and>
     in_ripemd160_preimages a = in_ripemd160_preimages b \<and> in_sha256_preimages a = in_sha256_preimages b \<and>
     in_hash160_preimages a = in_hash160_preimages b \<and> in_hash256_preimages a = in_hash256_preimages b \<and>
     in_tap_script_sigs a = in_tap_script_sigs b \<and> in_tap_scripts a = in_tap_scripts b \<and>
     in_tap_key_origins a = in_tap_key_origins b \<and> in_proprietary a = in_proprietary b \<and>
     in_unknown a = in_unknown b"
  by (cases a; cases b) auto

lemma input_maps:
  assumes "input_ok ops a"
  shows "bt_ok (cmp_pubkey ops) (in_partial_sigs a)"
    "bt_ok (secp_pk_cmp ops) (in_bip32_derivation a)"
    "bt_ok cmp_bytes (in_ripemd160_preimages a)"
    "bt_ok cmp_bytes (in_sha256_preimages a)"
    "bt_ok cmp_bytes (in_hash160_preimages a)"
    "bt_ok cmp_bytes (in_hash256_preimages a)"
    "bt_ok (cmp_pair (xonly_cmp ops) cmp_bytes) (in_tap_script_sigs a)"
    "bt_ok (cmp_cb ops) (in_tap_scripts a)"
    "bt_ok (xonly_cmp ops) (in_tap_key_origins a)"
    "bt_ok cmp_proprietary (in_proprietary a)"
    "bt_ok cmp_raw_key (in_unknown a)"
  using assms unfolding input_ok_def entries_ok_def by simp_all

text \<open>The maps of two inputs merge alike in both orders exactly if they agree.\<close>

lemma input_maps_comm:
  assumes "psbt_ops_ok ops" "input_ok ops a" "input_ok ops b"
  shows "bt_extend (cmp_pubkey ops) (in_partial_sigs a) (in_partial_sigs b) = bt_extend (cmp_pubkey ops) (in_partial_sigs b) (in_partial_sigs a) \<longleftrightarrow> maps_agree (cmp_pubkey ops) (in_partial_sigs a) (in_partial_sigs b)"
    "bt_extend (secp_pk_cmp ops) (in_bip32_derivation a) (in_bip32_derivation b) = bt_extend (secp_pk_cmp ops) (in_bip32_derivation b) (in_bip32_derivation a) \<longleftrightarrow> maps_agree (secp_pk_cmp ops) (in_bip32_derivation a) (in_bip32_derivation b)"
    "bt_extend cmp_bytes (in_ripemd160_preimages a) (in_ripemd160_preimages b) = bt_extend cmp_bytes (in_ripemd160_preimages b) (in_ripemd160_preimages a) \<longleftrightarrow> maps_agree cmp_bytes (in_ripemd160_preimages a) (in_ripemd160_preimages b)"
    "bt_extend cmp_bytes (in_sha256_preimages a) (in_sha256_preimages b) = bt_extend cmp_bytes (in_sha256_preimages b) (in_sha256_preimages a) \<longleftrightarrow> maps_agree cmp_bytes (in_sha256_preimages a) (in_sha256_preimages b)"
    "bt_extend cmp_bytes (in_hash160_preimages a) (in_hash160_preimages b) = bt_extend cmp_bytes (in_hash160_preimages b) (in_hash160_preimages a) \<longleftrightarrow> maps_agree cmp_bytes (in_hash160_preimages a) (in_hash160_preimages b)"
    "bt_extend cmp_bytes (in_hash256_preimages a) (in_hash256_preimages b) = bt_extend cmp_bytes (in_hash256_preimages b) (in_hash256_preimages a) \<longleftrightarrow> maps_agree cmp_bytes (in_hash256_preimages a) (in_hash256_preimages b)"
    "bt_extend (cmp_pair (xonly_cmp ops) cmp_bytes) (in_tap_script_sigs a) (in_tap_script_sigs b) = bt_extend (cmp_pair (xonly_cmp ops) cmp_bytes) (in_tap_script_sigs b) (in_tap_script_sigs a) \<longleftrightarrow> maps_agree (cmp_pair (xonly_cmp ops) cmp_bytes) (in_tap_script_sigs a) (in_tap_script_sigs b)"
    "bt_extend (cmp_cb ops) (in_tap_scripts a) (in_tap_scripts b) = bt_extend (cmp_cb ops) (in_tap_scripts b) (in_tap_scripts a) \<longleftrightarrow> maps_agree (cmp_cb ops) (in_tap_scripts a) (in_tap_scripts b)"
    "bt_extend (xonly_cmp ops) (in_tap_key_origins a) (in_tap_key_origins b) = bt_extend (xonly_cmp ops) (in_tap_key_origins b) (in_tap_key_origins a) \<longleftrightarrow> maps_agree (xonly_cmp ops) (in_tap_key_origins a) (in_tap_key_origins b)"
    "bt_extend cmp_proprietary (in_proprietary a) (in_proprietary b) = bt_extend cmp_proprietary (in_proprietary b) (in_proprietary a) \<longleftrightarrow> maps_agree cmp_proprietary (in_proprietary a) (in_proprietary b)"
    "bt_extend cmp_raw_key (in_unknown a) (in_unknown b) = bt_extend cmp_raw_key (in_unknown b) (in_unknown a) \<longleftrightarrow> maps_agree cmp_raw_key (in_unknown a) (in_unknown b)"
  by (intro total_cmp.extend_lookup_comm psbt_orders assms(1) input_maps [OF assms(2)] input_maps [OF assms(3)])+

lemma utxos_comm:
  "in_non_witness_utxo (input_combine ops a b) = in_non_witness_utxo (input_combine ops b a) \<and>
   in_witness_utxo (input_combine ops a b) = in_witness_utxo (input_combine ops b a) \<longleftrightarrow> utxos_agree a b"
  by (auto simp: input_combine_fields utxos_agree_def combine_field_def fields_agree_def split: option.splits)

lemma input_combine_comm:
  assumes "psbt_ops_ok ops" "input_ok ops a" "input_ok ops b"
  shows "input_combine ops a b = input_combine ops b a \<longleftrightarrow> inputs_agree ops a b"
  unfolding input_eq_iff [of "input_combine ops a b"] inputs_agree_def utxos_comm [symmetric, of a b ops]
  unfolding input_combine_fields(3-) combine_field_laws input_maps_comm [OF assms] by blast


lemma input_combine_ok:
  assumes "psbt_ops_ok ops" "input_ok ops a" "input_ok ops b"
  shows "input_ok ops (input_combine ops a b)"
  using assms(2,3) unfolding input_ok_def input_combine_fields
  by (intro conjI combine_field_ok total_cmp.extend_entries psbt_orders assms(1)) (simp_all add: opt_ok_def combine_field_ok [unfolded opt_ok_def])

section \<open>Sources of extended keys\<close>

text \<open>The rule that the comment in the loop states.\<close>

definition documented_choice :: "KeySource \<Rightarrow> KeySource \<Rightarrow> SourceChoice" where
  "documented_choice own other =
     (let d1 = path_0 (snd other); d2 = path_0 (snd own)
      in if other = own then KeepOwn
         else if length d1 = length d2 then Inconsistent
         else if strict_suffix d1 d2 then KeepOwn
         else if strict_suffix d2 d1 then TakeOther
         else Inconsistent)"

lemma suffix_drop: "suffix xs ys \<longleftrightarrow> length xs \<le> length ys \<and> xs = drop (length ys - length xs) ys"
  by (metis append_eq_conv_conj append_take_drop_id length_drop diff_diff_cancel suffix_def suffix_length_le length_append add_diff_cancel_right')

lemma choose_source_cases:
  "choose_source own other =
     (let d1 = path_0 (snd other); d2 = path_0 (snd own)
      in if d1 = d2 then (if fst other = fst own then Some KeepOwn else Some TakeOther)
         else if suffix d1 d2 then Some KeepOwn
         else if length d1 < length d2 then None
         else if suffix d2 d1 then Some TakeOther else Some Inconsistent)"
  by (auto simp: choose_source_def Let_def suffix_drop)

text \<open>Two sources of a key can be merged if the path of one is a suffix of the path of the other; then the longer path, and for equal
  paths the other source, is kept.\<close>

definition sources_merge :: "KeySource option \<Rightarrow> KeySource option \<Rightarrow> bool" where
  "sources_merge x y =
     (case (x, y) of
        (Some s, Some t) \<Rightarrow> suffix (path_0 (snd s)) (path_0 (snd t)) \<or> suffix (path_0 (snd t)) (path_0 (snd s))
      | _ \<Rightarrow> True)"


definition xpubs_mergeable :: "PsbtOps \<Rightarrow> (Xpub, KeySource) btree \<Rightarrow> (Xpub, KeySource) btree \<Rightarrow> bool" where
  "xpubs_mergeable ops m n \<longleftrightarrow> (\<forall>k. sources_merge (bt_get (cmp_xpub ops) m k) (bt_get (cmp_xpub ops) n k))"

lemma sources_merge_simps [simp]: "sources_merge None y" "sources_merge x None"
  "sources_merge (Some s) (Some t) \<longleftrightarrow> choose_source s t = Some KeepOwn \<or> choose_source s t = Some TakeOther"
proof -
  show "sources_merge (Some s) (Some t) \<longleftrightarrow> choose_source s t = Some KeepOwn \<or> choose_source s t = Some TakeOther"
    using suffix_length_le [of "path_0 (snd s)" "path_0 (snd t)"]
    by (auto simp: sources_merge_def choose_source_cases Let_def)
qed (simp_all add: sources_merge_def split: option.split)

definition merged_source :: "PsbtOps \<Rightarrow> (Xpub, KeySource) btree \<Rightarrow> (Xpub, KeySource) btree \<Rightarrow> Xpub \<Rightarrow> KeySource option" where
  "merged_source ops m n k =
     (case (bt_get (cmp_xpub ops) m k, bt_get (cmp_xpub ops) n k) of
        (None, t) \<Rightarrow> t
      | (Some s, None) \<Rightarrow> Some s
      | (Some s, Some t) \<Rightarrow> Some (if choose_source s t = Some TakeOther then t else s))"


lemma all_at: "(\<And>k. k \<noteq> x \<Longrightarrow> P k = Q k) \<Longrightarrow> P x = (R \<and> Q x) \<Longrightarrow> (\<forall>k. P k) = (R \<and> (\<forall>k. Q k))"
  by metis

lemma combine_xpubs_iff:
  assumes "total_cmp (cmp_xpub ops)" "bt_ok (cmp_xpub ops) m" "bt_ok (cmp_xpub ops) n"
  shows "combine_xpubs ops n m = Some (Inr u, r) \<longleftrightarrow>
    xpubs_mergeable ops m n \<and> bt_ok (cmp_xpub ops) r \<and> (\<forall>k. bt_get (cmp_xpub ops) r k = merged_source ops m n k)"
  using assms(2,3)
proof (induction n arbitrary: m)
  case Nil
  have "merged_source ops m [] k = bt_get (cmp_xpub ops) m k" for k by (simp add: merged_source_def split: option.split)
  then show ?case
    using Nil.prems(1) total_cmp.map_ext [OF assms(1) Nil.prems(1), of r] by (auto simp: xpubs_mergeable_def)
next
  case (Cons e n)
  obtain x src where e: "e = (x, src)" by (cases e)
  note ok = Cons.prems(2) [unfolded e]
  have n: "bt_ok (cmp_xpub ops) n" using ok by (simp add: total_cmp.bt_ok_Cons [OF assms(1)])
  note get = total_cmp.get_Cons [OF assms(1) ok] total_cmp.get_insert [OF assms(1) Cons.prems(1)]
  note IH = Cons.IH [OF _ n]
  have ins: "bt_ok (cmp_xpub ops) (bt_insert (cmp_xpub ops) x src m)" by (rule total_cmp.insert_ok [OF assms(1) Cons.prems(1)])
  show ?case
  proof (cases "bt_get (cmp_xpub ops) m x")
    case None
    have "xpubs_mergeable ops m (e # n) \<longleftrightarrow> xpubs_mergeable ops (bt_insert (cmp_xpub ops) x src m) n"
      unfolding xpubs_mergeable_def e using None get(2) by (intro all_at [of x _ _ True, simplified]) (simp_all add: get del: bt_get.simps)
    moreover have "merged_source ops m (e # n) k = merged_source ops (bt_insert (cmp_xpub ops) x src m) n k" for k
      using None get(2) by (auto simp: merged_source_def e get simp del: bt_get.simps)
    ultimately show ?thesis using IH [OF ins] None by (simp add: e)
  next
    case (Some s)
    have m: "xpubs_mergeable ops m (e # n) \<longleftrightarrow>
        (choose_source s src = Some KeepOwn \<or> choose_source s src = Some TakeOther) \<and> xpubs_mergeable ops m n"
      unfolding xpubs_mergeable_def e using Some get(2) by (intro all_at [of x]) (simp_all add: get del: bt_get.simps)
    have i: "xpubs_mergeable ops (bt_insert (cmp_xpub ops) x src m) n = xpubs_mergeable ops m n"
      unfolding xpubs_mergeable_def using get(2) by (intro all_at [of x _ _ True, simplified]) (simp_all add: get del: bt_get.simps)
    have "merged_source ops m (e # n) k = merged_source ops m n k" if "choose_source s src = Some KeepOwn" for k
      using Some get(2) that by (auto simp: merged_source_def e get simp del: bt_get.simps)
    moreover have "merged_source ops m (e # n) k = merged_source ops (bt_insert (cmp_xpub ops) x src m) n k"
      if "choose_source s src = Some TakeOther" for k
      using Some get(2) that by (auto simp: merged_source_def e get simp del: bt_get.simps split: option.split)
    ultimately show ?thesis
      using IH [OF ins] IH [OF Cons.prems(1)] Some m i
      by (cases "choose_source s src") (auto simp: e split: SourceChoice.split)
  qed
qed

section \<open>Whole transactions\<close>

lemma zip_combine_map2: "length xs = length ys \<Longrightarrow> zip_combine f xs ys = map2 f xs ys"
  by (induction f xs ys rule: zip_combine.induct) auto

definition psbts_agree :: "PsbtOps \<Rightarrow> Psbt \<Rightarrow> Psbt \<Rightarrow> bool" where
  "psbts_agree ops a b \<longleftrightarrow>
     (\<forall>k s t. bt_get (cmp_xpub ops) (psbt_xpub a) k = Some s \<and> bt_get (cmp_xpub ops) (psbt_xpub b) k = Some t \<and> snd s = snd t \<longrightarrow> s = t) \<and>
     maps_agree cmp_proprietary (psbt_proprietary a) (psbt_proprietary b) \<and> maps_agree cmp_raw_key (psbt_unknown a) (psbt_unknown b) \<and>
     list_all2 (inputs_agree ops) (psbt_inputs a) (psbt_inputs b) \<and> list_all2 (outputs_agree ops) (psbt_outputs a) (psbt_outputs b)"

lemma psbt_maps:
  assumes "psbt_ok ops a"
  shows "bt_ok (cmp_xpub ops) (psbt_xpub a)" "bt_ok cmp_proprietary (psbt_proprietary a)" "bt_ok cmp_raw_key (psbt_unknown a)"
  using assms unfolding psbt_ok_def global_ok_def global_state_ok_def entries_ok_def psbt_state_def by simp_all

lemma psbt_lengths:
  assumes "psbt_ok ops a" "psbt_ok ops b" "psbt_unsigned_tx a = psbt_unsigned_tx b"
  shows "length (psbt_inputs a) = length (psbt_inputs b)" "length (psbt_outputs a) = length (psbt_outputs b)"
  using assms by (simp_all add: psbt_ok_def)

lemma psbt_eq_iff:
  "(a :: Psbt) = b \<longleftrightarrow> psbt_unsigned_tx a = psbt_unsigned_tx b \<and> psbt_version a = psbt_version b \<and> psbt_xpub a = psbt_xpub b \<and>
     psbt_proprietary a = psbt_proprietary b \<and> psbt_unknown a = psbt_unknown b \<and> psbt_inputs a = psbt_inputs b \<and> psbt_outputs a = psbt_outputs b"
  by (cases a; cases b) auto

lemma psbt_combine_Inr:
  "psbt_combine ops a b = Some (Inr u, c) \<longleftrightarrow>
     psbt_unsigned_tx a = psbt_unsigned_tx b \<and> combine_xpubs ops (psbt_xpub b) (psbt_xpub a) = Some (Inr u, psbt_xpub c) \<and>
     psbt_unsigned_tx c = psbt_unsigned_tx a \<and> psbt_version c = max (psbt_version a) (psbt_version b) \<and>
     psbt_proprietary c = bt_extend cmp_proprietary (psbt_proprietary a) (psbt_proprietary b) \<and>
     psbt_unknown c = bt_extend cmp_raw_key (psbt_unknown a) (psbt_unknown b) \<and>
     psbt_inputs c = zip_combine (input_combine ops) (psbt_inputs a) (psbt_inputs b) \<and>
     psbt_outputs c = zip_combine (output_combine ops) (psbt_outputs a) (psbt_outputs b)"
proof (cases "combine_xpubs ops (psbt_xpub b) (psbt_xpub a)")
  case (Some x)
  then show ?thesis
    by (cases x; cases "fst x") (auto simp: psbt_combine_def Let_def psbt_eq_iff [of _ c])
qed (simp add: psbt_combine_def Let_def)

lemma choose_source_swap:
  "choose_source s t = Some KeepOwn \<or> choose_source s t = Some TakeOther \<longleftrightarrow> choose_source t s = Some KeepOwn \<or> choose_source t s = Some TakeOther"
  by (auto simp: choose_source_cases Let_def dest: suffix_length_le)

lemma sources_merge_swap: "sources_merge x y = sources_merge y x"
  by (auto simp: sources_merge_def choose_source_swap split: option.split)

lemma choose_source_same:
  assumes "choose_source s t = Some KeepOwn \<or> choose_source s t = Some TakeOther"
  shows "(if choose_source s t = Some TakeOther then t else s) = (if choose_source t s = Some TakeOther then s else t) \<longleftrightarrow> (snd s = snd t \<longrightarrow> s = t)"
proof -
  have "path_0 (snd s) = path_0 (snd t) \<longleftrightarrow> snd s = snd t" by (metis DerivationPath.expand)
  moreover have "length x < length y" if "suffix x y" "x \<noteq> y" for x y :: "ChildNumber list"
    using that by (metis suffix_length_less strict_suffix_def)
  ultimately show ?thesis using assms
    by (auto simp: choose_source_cases Let_def prod_eq_iff dest: suffix_order.antisym split: if_splits)
qed

lemma merged_source_swap:
  assumes "sources_merge (bt_get (cmp_xpub ops) m k) (bt_get (cmp_xpub ops) n k)"
  shows "merged_source ops m n k = merged_source ops n m k \<longleftrightarrow>
    (\<forall>s t. bt_get (cmp_xpub ops) m k = Some s \<and> bt_get (cmp_xpub ops) n k = Some t \<and> snd s = snd t \<longrightarrow> s = t)"
proof (cases "bt_get (cmp_xpub ops) m k")
  case None
  then show ?thesis by (simp add: merged_source_def split: option.split)
next
  case s: (Some s)
  show ?thesis
  proof (cases "bt_get (cmp_xpub ops) n k")
    case None
    then show ?thesis by (simp add: merged_source_def s)
  next
    case (Some t)
    have e: "merged_source ops m n k = Some (if choose_source s t = Some TakeOther then t else s)"
      "merged_source ops n m k = Some (if choose_source t s = Some TakeOther then s else t)"
      by (simp_all add: merged_source_def s Some)
    have "choose_source s t = Some KeepOwn \<or> choose_source s t = Some TakeOther" using assms by (simp add: s Some)
    from choose_source_same [OF this] show ?thesis unfolding e option.inject s Some by blast
  qed
qed

lemma map2_swap_iff:
  assumes "length xs = length ys" "\<And>x y. x \<in> set xs \<Longrightarrow> y \<in> set ys \<Longrightarrow> f x y = f y x \<longleftrightarrow> P x y"
  shows "map2 f xs ys = map2 f ys xs \<longleftrightarrow> list_all2 P xs ys"
  using assms by (induction xs ys rule: list_induct2) auto

lemma list_all_map2: "list_all P xs \<Longrightarrow> list_all P ys \<Longrightarrow> (\<And>x y. P x \<Longrightarrow> P y \<Longrightarrow> P (f x y)) \<Longrightarrow> list_all P (map2 f xs ys)"
  unfolding list_all_iff by (auto, meson set_zip_leftD set_zip_rightD)

definition psbt_sample_other :: Psbt where
  "psbt_sample_other = psbt_sample\<lparr> psbt_inputs := [PsbtInput_default\<lparr> in_sighash_type := Some (PsbtSighashType 1) \<rparr>] \<rparr>"

lemma psbt_sample_other_ok: "psbt_ok psbt_sample_ops psbt_sample_other"
proof -
  have "input_ok psbt_sample_ops (PsbtInput_default\<lparr> in_sighash_type := Some (PsbtSighashType 1) \<rparr>)"
    using default_maps_ok(1) [of psbt_sample_ops]
    by (simp add: input_ok_def opt_ok_def ser_sighash_type_def value_fits_iff serialize_def encode_int_def)
  then show ?thesis
    using psbt_sample_ok by (simp add: psbt_ok_def psbt_sample_other_def global_ok_def psbt_state_def global_pairs_def psbt_sample_def psbt_sample_tx_def)
qed

section \<open>Properties\<close>



text \<open>Combining is documented as commutative. If it succeeds in one order it commutes exactly if the two agree: no key has one path
  with two fingerprints, all maps and options that both set are equal, the inputs have equal signature hash types, and an input is not
  given a witness output by one side only while a side knows the whole previous transaction.\<close>

theorem psbt_combine_commutes:
  assumes "psbt_ops_ok ops" "psbt_ok ops a" "psbt_ok ops b" "psbt_combine ops a b = Some (Inr (), c)"
  shows "psbt_combine ops b a = Some (Inr (), c) \<longleftrightarrow> psbts_agree ops a b"
proof -
  note a = psbt_maps [OF assms(2)] and b = psbt_maps [OF assms(3)]
  note x = combine_xpubs_iff [OF total_cmp_xpub [OF assms(1)] a(1) b(1)] combine_xpubs_iff [OF total_cmp_xpub [OF assms(1)] b(1) a(1)]
  note c = assms(4) [unfolded psbt_combine_Inr x(1)]
  have l: "length (psbt_inputs a) = length (psbt_inputs b)" "length (psbt_outputs a) = length (psbt_outputs b)"
    using psbt_lengths [OF assms(2,3)] c by blast+
  have m: "sources_merge (bt_get (cmp_xpub ops) (psbt_xpub a) k) (bt_get (cmp_xpub ops) (psbt_xpub b) k)" for k
    using c by (simp add: xpubs_mergeable_def)
  then have m': "xpubs_mergeable ops (psbt_xpub b) (psbt_xpub a)" by (simp add: xpubs_mergeable_def sources_merge_swap)
  have xs: "(\<forall>k. bt_get (cmp_xpub ops) (psbt_xpub c) k = merged_source ops (psbt_xpub b) (psbt_xpub a) k) \<longleftrightarrow>
      (\<forall>k s t. bt_get (cmp_xpub ops) (psbt_xpub a) k = Some s \<and> bt_get (cmp_xpub ops) (psbt_xpub b) k = Some t \<and> snd s = snd t \<longrightarrow> s = t)"
    using c merged_source_swap [OF m] by presburger
  have oks: "list_all (input_ok ops) (psbt_inputs a)" "list_all (input_ok ops) (psbt_inputs b)"
    "list_all (output_ok ops) (psbt_outputs a)" "list_all (output_ok ops) (psbt_outputs b)"
    using assms(2,3) by (simp_all add: psbt_ok_def)
  have i: "psbt_inputs c = map2 (input_combine ops) (psbt_inputs b) (psbt_inputs a) \<longleftrightarrow> list_all2 (inputs_agree ops) (psbt_inputs a) (psbt_inputs b)"
    using c map2_swap_iff [OF l(1), of "input_combine ops" "inputs_agree ops"] input_combine_comm [OF assms(1)] oks zip_combine_map2 [OF l(1)]
    by (simp add: list_all_iff)
  have o: "psbt_outputs c = map2 (output_combine ops) (psbt_outputs b) (psbt_outputs a) \<longleftrightarrow> list_all2 (outputs_agree ops) (psbt_outputs a) (psbt_outputs b)"
    using c map2_swap_iff [OF l(2), of "output_combine ops" "outputs_agree ops"] output_combine_comm [OF assms(1)] oks zip_combine_map2 [OF l(2)]
    by (simp add: list_all_iff)
  have p: "psbt_proprietary c = bt_extend cmp_proprietary (psbt_proprietary b) (psbt_proprietary a) \<longleftrightarrow> maps_agree cmp_proprietary (psbt_proprietary a) (psbt_proprietary b)"
    using c proprietary_cmp.extend_lookup_comm [OF a(2) b(2)] by simp
  have u: "psbt_unknown c = bt_extend cmp_raw_key (psbt_unknown b) (psbt_unknown a) \<longleftrightarrow> maps_agree cmp_raw_key (psbt_unknown a) (psbt_unknown b)"
    using c raw_key_cmp.extend_lookup_comm [OF a(3) b(3)] by simp
  show ?thesis
    unfolding psbt_combine_Inr x(2) psbts_agree_def xs zip_combine_map2 [OF l(1) [symmetric]] zip_combine_map2 [OF l(2) [symmetric]] i o p u
    using c m' by (simp add: max.commute)
qed

theorem psbt_combine_commutes_witness:
  "\<exists>c. psbt_combine psbt_sample_ops psbt_sample psbt_sample_other = Some (Inr (), c) \<and>
     psbt_combine psbt_sample_ops psbt_sample_other psbt_sample \<noteq> Some (Inr (), c)"
proof -
  obtain c where c: "psbt_combine psbt_sample_ops psbt_sample psbt_sample_other = Some (Inr (), c)"
    by (simp add: psbt_combine_def psbt_sample_other_def psbt_sample_def Let_def)
  have "\<not> psbts_agree psbt_sample_ops psbt_sample psbt_sample_other"
    by (simp add: psbts_agree_def inputs_agree_def psbt_sample_other_def psbt_sample_def PsbtInput_default_def)
  then show ?thesis using psbt_combine_commutes [OF psbt_sample_ops_ok psbt_sample_ok psbt_sample_other_ok c] c by blast
qed

text \<open>The result of combining well-formed transactions is well-formed, unless its global map outgrows the limit of the reader.\<close>

theorem psbt_combine_wellformed:
  assumes "psbt_ops_ok ops" "psbt_ok ops a" "psbt_ok ops b" "psbt_combine ops a b = Some (Inr (), c)"
  shows "psbt_ok ops c \<longleftrightarrow> length (serialize_map (global_pairs c)) \<le> MAX_VEC_SIZE"
proof -
  note a = psbt_maps [OF assms(2)] and b = psbt_maps [OF assms(3)]
  note c = assms(4) [unfolded psbt_combine_Inr combine_xpubs_iff [OF total_cmp_xpub [OF assms(1)] a(1) b(1)]]
  have l: "length (psbt_inputs a) = length (psbt_inputs b)" "length (psbt_outputs a) = length (psbt_outputs b)"
    using psbt_lengths [OF assms(2,3)] c by blast+
  have oks: "list_all (input_ok ops) (psbt_inputs a)" "list_all (input_ok ops) (psbt_inputs b)"
    "list_all (output_ok ops) (psbt_outputs a)" "list_all (output_ok ops) (psbt_outputs b)"
    using assms(2,3) by (simp_all add: psbt_ok_def)
  have "list_all (input_ok ops) (psbt_inputs c)" "list_all (output_ok ops) (psbt_outputs c)"
    using c zip_combine_map2 [OF l(1)] zip_combine_map2 [OF l(2)] list_all_map2 [OF oks(1,2) input_combine_ok [OF assms(1)]]
      list_all_map2 [OF oks(3,4) output_combine_ok [OF assms(1)]] by simp_all
  moreover have "length (psbt_inputs c) = length (psbt_inputs a)" "length (psbt_outputs c) = length (psbt_outputs a)"
    using c l zip_combine_map2 [OF l(1)] zip_combine_map2 [OF l(2)] by simp_all
  moreover have e: "entries_ok (cmp_xpub ops) (xpub_entry_ok ops) (psbt_xpub a)" "entries_ok (cmp_xpub ops) (xpub_entry_ok ops) (psbt_xpub b)"
    "entries_ok cmp_proprietary proprietary_entry_ok (psbt_proprietary a)" "entries_ok cmp_proprietary proprietary_entry_ok (psbt_proprietary b)"
    "entries_ok cmp_raw_key (unknown_entry_ok global_types) (psbt_unknown a)" "entries_ok cmp_raw_key (unknown_entry_ok global_types) (psbt_unknown b)"
    "psbt_version a = 0" "psbt_version b = 0"
    using assms(2,3) by (simp_all add: psbt_ok_def global_ok_def global_state_ok_def psbt_state_def)
  have "entries_ok (cmp_xpub ops) (xpub_entry_ok ops) (psbt_xpub c)"
  proof -
    have "xpub_entry_ok ops k v" if "(k, v) \<in> set (psbt_xpub c)" for k v
    proof -
      have "merged_source ops (psbt_xpub a) (psbt_xpub b) k = Some v"
        using that c total_cmp.get_eq_Some [OF total_cmp_xpub [OF assms(1)], of "psbt_xpub c" k v] by simp
      then have "bt_get (cmp_xpub ops) (psbt_xpub a) k = Some v \<or> bt_get (cmp_xpub ops) (psbt_xpub b) k = Some v"
        unfolding merged_source_def by (simp split: option.splits if_splits)
      then have "(k, v) \<in> set (psbt_xpub a) \<or> (k, v) \<in> set (psbt_xpub b)"
        using total_cmp.get_eq_Some [OF total_cmp_xpub [OF assms(1)] a(1), of k v] total_cmp.get_eq_Some [OF total_cmp_xpub [OF assms(1)] b(1), of k v]
        by blast
      then show ?thesis using e(1,2) unfolding entries_ok_def by (metis fst_conv snd_conv)
    qed
    then show ?thesis using c unfolding entries_ok_def by auto
  qed
  moreover have "entries_ok cmp_proprietary proprietary_entry_ok (psbt_proprietary c)" "entries_ok cmp_raw_key (unknown_entry_ok global_types) (psbt_unknown c)"
    using c proprietary_cmp.extend_entries [OF e(3,4)] raw_key_cmp.extend_entries [OF e(5,6)] by simp_all
  ultimately show ?thesis
    using assms(2) c e(8) by (simp add: psbt_ok_def global_ok_def global_state_ok_def psbt_state_def)
qed

text \<open>The choice between two sources of a key follows the documented rule with two exceptions: sources with one path and two
  fingerprints are not reported, the other one is taken; and if the path of the other source is shorter and not a suffix,
  the slice panics.\<close>

theorem choose_source_documented:
  "choose_source own other =
     (if snd other = snd own \<and> fst other \<noteq> fst own then Some TakeOther
      else if length (path_0 (snd other)) < length (path_0 (snd own)) \<and> \<not> suffix (path_0 (snd other)) (path_0 (snd own)) then None
      else Some (documented_choice own other))"
proof -
  have "path_0 (snd other) = path_0 (snd own) \<longleftrightarrow> snd other = snd own" by (metis DerivationPath.expand)
  moreover have "length x < length y" if "suffix x y" "x \<noteq> y" for x y :: "ChildNumber list"
    using that by (metis suffix_length_less strict_suffix_def)
  ultimately show ?thesis
    by (auto simp: choose_source_cases documented_choice_def Let_def prod_eq_iff strict_suffix_def) (metis less_irrefl)+
qed

end
