(* ===== verification/Spec2Isabelle.thy ===== *)
theory Spec2Isabelle
  imports Prelude Engine U256 Target Params Retarget Io Sha256 Encode Witness Locktime Transaction MerkleTree Block AuxPow DogeBlock PartialMerkle
    Opcodes Script ScriptUse Base58 Ripemd160 Address Genesis Amount Taproot Sighash SipHash CompactBlocks P2pTypes P2pMessage BitStream BlockFilter
    Sha512 Hmac Bip32 PsbtRaw PsbtValue PsbtMap PsbtFormat Psbt PsbtCombine
begin

text \<open>
  Verification of the consensus core of rust-dogecoin: the data a Dogecoin node exchanges, how it is read and
  written, how it is hashed, and the rules that decide whether a block header carries enough work.

  \<^bold>\<open>The program and its parts.\<close> A Dogecoin block (\<open>bitcoin/src/dogecoin/mod.rs\<close>) is a Bitcoin header, an optional
  auxiliary proof of work and a list of transactions. The work of a header is measured against a target
  (\<open>bitcoin/src/pow.rs\<close>) that is recomputed from the time the previous blocks took. With merged mining the
  work is that of a block of another chain whose coinbase transaction commits to this block
  (\<open>dogecoin/auxpow.rs\<close>). Everything is read from and written to byte streams (\<open>io\<close>, \<open>consensus/encode.rs\<close>)
  and identified by double SHA-256 (\<open>hashes\<close>).

  \<^bold>\<open>Theories.\<close>
  \<^item> \<open>Prelude\<close>: byte strings as words, generic lemmas on lists, options and little-endian numbers.
  \<^item> \<open>U256\<close>: the 256-bit integers of \<open>pow.rs\<close> as pairs of 128-bit words. Addition, subtraction, shifts, long
    division, inverse, byte conversions and printing refine arithmetic on natural numbers; multiplication does so
    for the operands the code uses.
  \<^item> \<open>Target\<close>, \<open>Params\<close>, \<open>Retarget\<close>: targets, compact targets and work; the parameter sets of
    \<open>consensus/params.rs\<close> and \<open>dogecoin/params.rs\<close>; the difficulty adjustment of Bitcoin and Dogecoin, its exact
    value, its bounds and where the documented thresholds are missed.
  \<^item> \<open>Io\<close>: readers, cursors, limited readers and writers of \<open>io/src/lib.rs\<close>.
  \<^item> \<open>Engine\<close>: the buffering and padding that the hash functions share, for any block function (locale \<open>block_engine\<close>), and
    the interface of a hash function (locale \<open>hasher\<close>).
  \<^item> \<open>Sha256\<close>: the streaming engine, midstates and the compile-time evaluator of \<open>hashes/src/sha256.rs\<close>, shown
    equal to the function of FIPS 180-4, and double SHA-256.
  \<^item> \<open>Encode\<close>: \<open>consensus/encode.rs\<close>. The locales \<open>roundtrip\<close> and \<open>codec\<close> state what an encoder and a decoder owe
    each other: decoding inverts encoding, leaves the rest of the input, and accepts only canonical strings. Every
    type on the wire is an interpretation, built from those of its parts.
  \<^item> \<open>Witness\<close>: the packed buffer of \<open>blockdata/witness.rs\<close> refines a list of byte strings.
  \<^item> \<open>Locktime\<close>: absolute and relative lock times and sequence numbers; the locale \<open>lock\<close> is the contract of
    satisfaction and implication that both kinds of lock keep.
  \<^item> \<open>Transaction\<close>: \<open>blockdata/transaction.rs\<close>: wire format with and without witnesses, identifiers, sizes, weights
    and weight prediction.
  \<^item> \<open>MerkleTree\<close>: the two root functions of \<open>merkle_tree/mod.rs\<close> refine the root of an abstract tree.
  \<^item> \<open>Block\<close>: \<open>blockdata/block.rs\<close>: headers, proof-of-work validation, blocks, merkle and witness commitments.
  \<^item> \<open>AuxPow\<close>: \<open>dogecoin/auxpow.rs\<close>: merkle branches, the search in the coinbase script, and the whole check of an
    auxiliary proof of work against a declarative specification.
  \<^item> \<open>PartialMerkle\<close>: \<open>merkle_tree/block.rs\<close>: merkle blocks. Flags and hashes are the serialization of an abstract
    partial tree; extraction is exact, complete for built trees, and sound up to exhibited collisions.
  \<^item> \<open>DogeBlock\<close>: \<open>dogecoin/mod.rs\<close>: headers with auxiliary proof of work, blocks, version fields and networks.

  \<^item> \<open>Opcodes\<close>, \<open>Script\<close>: \<open>blockdata/opcodes.rs\<close> and \<open>blockdata/script\<close>: classification of opcodes, script numbers, the
    instruction iterator, owned scripts, the builder with its cached opcode, witness programs and the templates.
    Iterating inverts building; the recognisers accept exactly what the constructors make.
  \<^item> \<open>ScriptUse\<close>: signature operations of scripts and transactions, bare multisig, redeem scripts, the dust limit and
    the block height in a coinbase script.
  \<^item> \<open>Base58\<close>: \<open>base58/src/lib.rs\<close>: encoding and decoding convert between numerals of two bases (locale \<open>radix\<close>) and are
    inverse bijections.
  \<^item> \<open>Ripemd160\<close>: \<open>hashes/src/ripemd160.rs\<close> and \<open>hash160.rs\<close> on the same engine, equal to the published function.
  \<^item> \<open>Address\<close>: \<open>dogecoin/address\<close>: addresses as text and as output scripts, and the check of the network.
  \<^item> \<open>Genesis\<close>: \<open>dogecoin/constants.rs\<close> and \<open>blockdata/constants.rs\<close>: the genesis blocks of all networks.
  \<^item> \<open>Amount\<close>: \<open>units/src/amount.rs\<close> and \<open>fee_rate.rs\<close>: denominations, decimal text, checked arithmetic, fees.
  \<^item> \<open>Taproot\<close>: \<open>taproot/mod.rs\<close>: tagged hashes and script trees. The builder refines the depth-first walk of an abstract tree;
    control blocks commit to the output key.
  \<^item> \<open>Sighash\<close>: \<open>crypto/sighash.rs\<close>: the digests that signatures sign, computed through a cache; any sequence of calls
    that agree on the spent outputs gives the digests that the transaction alone determines.
  \<^item> \<open>SipHash\<close>: \<open>hashes/src/siphash24.rs\<close>: the engine with its unchecked reads is memory safe and computes SipHash-2-4 as
    published.
  \<^item> \<open>CompactBlocks\<close>: \<open>bip152.rs\<close>: short identifiers, compact forms of blocks, requests for missing transactions.
  \<^item> \<open>P2pTypes\<close>, \<open>P2pMessage\<close>: \<open>p2p\<close>: the bodies of network messages and their frames. The locale \<open>wire\<close> proves the round trip of
    messages for any headers and blocks with codecs; it is interpreted for Dogecoin and for Bitcoin.
  \<^item> \<open>BitStream\<close>, \<open>BlockFilter\<close>: \<open>bip158.rs\<close>: bit streams as lists of bits, Golomb-Rice codes, and the filters of the scripts of a
    block: a query answers exactly for the positions of the block's scripts, and ends on any bytes.
  \<^item> \<open>Sha512\<close>, \<open>Hmac\<close>: the other hash functions of the crate and HMAC over each of them, equal to the published functions. The locale
    \<open>sha2_rounds\<close> of \<open>Engine\<close> relates the circular message schedule of SHA-256 and SHA-512 to the one of the standard.
  \<^item> \<open>Bip32\<close>: \<open>bip32.rs\<close>: derivation paths, extended keys, their text, and the agreement of public and private derivation.
  \<^item> \<open>PsbtRaw\<close>, \<open>PsbtValue\<close>, \<open>PsbtMap\<close>, \<open>PsbtFormat\<close>: \<open>psbt/raw.rs\<close>, \<open>psbt/serialize.rs\<close> and \<open>psbt/map\<close>: the key-value maps of partially
    signed transactions. Ordered maps are sorted lists (locale \<open>total_cmp\<close>), the encodings of values have one contract (locale
    \<open>psbt_value\<close>), and the steps of reading are proved once for any field of a record (locale \<open>map_field\<close>).
  \<^item> \<open>Psbt\<close>, \<open>PsbtCombine\<close>: \<open>psbt/mod.rs\<close>: the container is read back exactly if it is well-formed; the fee and the extracted
    transaction; when combining succeeds, what it gives, and for which pairs it commutes.

  \<^bold>\<open>Conventions.\<close> Machine integers are words of their width; \<open>usize\<close> and lengths are natural numbers, since
  buffers are shorter than the address space. A panic is \<open>None\<close> of an option type, an error is \<open>Inl\<close> of a
  sum. Where the behaviour differs between builds with and without overflow checks, a boolean parameter \<open>oc\<close> selects
  it; a parameter \<open>da\<close> does so for debug assertions that can fail. Hashes are byte lists; that they have 32 bytes is part of the well-formedness predicates. A decoder maps the
  input to an error or a value with the rest of the input; an encoder gives the bytes and the number it returns.

  \<^bold>\<open>Loops.\<close> Loops with an evident measure are functions with a termination proof or folds; \<open>merkle_root_r\<close> and the
  like, whose end depends on the data, are partial functions into option, and are shown to return on every input.
  The one loop with fuel is the iterator of a witness: its fuel is one more than the index entries that fit in the
  buffer, and it is shown to be enough.

  \<^bold>\<open>Foreign code.\<close> The scrypt function comes from another crate: it is a parameter of the definitions that call it,
  and the theorems assume only that it fills its output of 32 bytes. The operations of secp256k1 that taproot,
  key derivation and partially signed transactions use are records of functions.

  \<^bold>\<open>Not modelled.\<close> Elliptic-curve operations and what rests on them (making signatures), the SHA-256 block function in x86 intrinsics, serde and
  formatting code, floating-point difficulties and amounts.
\<close>

end
